(* ===== verification/O3_Prelude.thy ===== *)
theory O3_Prelude
  imports Main "HOL-Library.Word"
begin

text \<open>
  Shared vocabulary of the development: names for the machine integers the crate uses, the
  checked, saturating and wrapping integer operations of the Rust core library that the
  sources call, and the generic lemmas on words, lists and function updates that the component
  theories share.

  The crate requires a 64-bit target (src/src/lib.rs asserts it), so \<open>usize\<close> is
  \<open>64 word\<close>. Plain \<open>+\<close> and \<open>-\<close> on machine integers are the word operations, which is
  what the release profile computes; where the code relies on them not to overflow, the
  component theories prove it.
\<close>

unbundle bit_operations_syntax

type_synonym u8 = "8 word"
type_synonym u16 = "16 word"
type_synonym u32 = "32 word"
type_synonym u64 = "64 word"
type_synonym usize = "64 word"

named_theorems rust_arith \<open>characteristic facts of the core library's integer operations\<close>

section \<open>Integer operations of the core library\<close>

definition checked_add :: "'w::len word \<Rightarrow> 'w word \<Rightarrow> 'w word option" where
  "checked_add a b = (if unat a + unat b < 2 ^ LENGTH('w) then Some (a + b) else None)"

definition checked_sub :: "'w::len word \<Rightarrow> 'w word \<Rightarrow> 'w word option" where
  "checked_sub a b = (if b \<le> a then Some (a - b) else None)"

definition saturating_add :: "'w::len word \<Rightarrow> 'w word \<Rightarrow> 'w word" where
  "saturating_add a b = (if unat a + unat b < 2 ^ LENGTH('w) then a + b else - 1)"

definition saturating_sub :: "'w::len word \<Rightarrow> 'w word \<Rightarrow> 'w word" where
  "saturating_sub a b = (if b \<le> a then a - b else 0)"

lemma unat_bound: "unat (a :: 'w::len word) < 2 ^ LENGTH('w)"
  by (rule unsigned_less)

lemma usize_bound: "unat (a :: usize) < 2 ^ 64"
  by (rule order_less_le_trans [OF unat_bound]) simp

lemma unat_add_fits:
  fixes a b :: "'w::len word"
  assumes "unat a + unat b < 2 ^ LENGTH('w)"
  shows "unat (a + b) = unat a + unat b"
  using assms by (simp add: unat_word_ariths)

lemma checked_add_SomeD [rust_arith]:
  "checked_add a b = Some c \<Longrightarrow> unat c = unat a + unat b"
  by (auto simp: checked_add_def unat_add_fits split: if_splits)

lemma checked_add_Some_iff:
  fixes a b c :: "'w::len word"
  shows "checked_add a b = Some c \<longleftrightarrow> unat c = unat a + unat b"
proof
  assume "unat c = unat a + unat b"
  then have "unat a + unat b < 2 ^ LENGTH('w)"
    by (metis unsigned_less)
  with \<open>unat c = unat a + unat b\<close> show "checked_add a b = Some c"
    by (auto simp: checked_add_def unat_add_fits word_unat_eq_iff)
qed (rule checked_add_SomeD)

lemma checked_add_None_iff:
  fixes a b :: "'w::len word"
  shows "checked_add a b = None \<longleftrightarrow> 2 ^ LENGTH('w) \<le> unat a + unat b"
  by (auto simp: checked_add_def)

lemma checked_sub_SomeD [rust_arith]:
  "checked_sub a b = Some c \<Longrightarrow> unat c + unat b = unat a"
  by (auto simp: checked_sub_def unat_sub word_le_nat_alt split: if_splits)

lemma checked_sub_None_iff: "checked_sub a b = None \<longleftrightarrow> a < b"
  by (auto simp: checked_sub_def)

lemma unat_saturating_sub [rust_arith]: "unat (saturating_sub a b) = unat a - unat b"
  by (auto simp: saturating_sub_def unat_sub word_le_nat_alt)

lemma unat_min: "unat (min a b) = min (unat a) (unat b)"
  by (auto simp: min_def word_le_nat_alt)

lemma unat_saturating_add:
  fixes a b :: "'w::len word"
  shows "unat (saturating_add a b) = min (unat a + unat b) (2 ^ LENGTH('w) - 1)"
proof -
  have "unat (- 1 :: 'w word) = 2 ^ LENGTH('w) - 1"
    by (simp add: unsigned_minus_1_eq_mask mask_eq_exp_minus_1)
  then show ?thesis
    by (auto simp: saturating_add_def unat_add_fits min_def)
qed

lemma unat_less_iff_less: "(unat a < unat b) = (a < b)"
  by (simp add: word_less_nat_alt)

lemma unat_0_iff_le: "0 < unat a \<longleftrightarrow> a \<noteq> 0"
  by (simp add: unat_gt_0)

lemma unat_pred:
  fixes v :: "'w::len word"
  assumes "v \<noteq> 0"
  shows "unat (v - 1) = unat v - 1"
proof -
  have "1 \<le> v" using assms by (simp add: word_le_nat_alt Suc_leI unat_gt_0)
  then show ?thesis by (simp add: unat_sub)
qed

lemma unat_of_nat_fits:
  "n < 2 ^ LENGTH('w::len) \<Longrightarrow> unat (word_of_nat n :: 'w word) = n"
  by (simp add: unsigned_of_nat take_bit_nat_eq_self)

text \<open>Widening to a longer word keeps the value; narrowing keeps it when it fits.\<close>

lemma unat_ucast_widen:
  "LENGTH('a::len) \<le> LENGTH('b::len) \<Longrightarrow> unat (ucast (a :: 'a word) :: 'b word) = unat a"
  proof -
  assume le: "LENGTH('a) \<le> LENGTH('b)"
  have "unat a < 2 ^ LENGTH('a)" by simp
  also have "\<dots> \<le> 2 ^ LENGTH('b)" using le by simp
  finally show ?thesis by (simp add: unsigned_ucast_eq take_bit_nat_eq_self)
qed

lemma unat_ucast_narrow:
  fixes a :: "'a::len word"
  assumes "unat a < 2 ^ LENGTH('b::len)"
  shows "unat (ucast a :: 'b word) = unat a"
  using assms by (simp add: unsigned_ucast_eq take_bit_nat_eq_self)

lemma ucast_down_up:
  fixes a :: "'a::len word"
  assumes "LENGTH('a) \<le> LENGTH('b::len)"
  shows "ucast (ucast a :: 'b word) = a"
proof -
  have "unat (ucast a :: 'b word) < 2 ^ LENGTH('a)"
    using unat_bound [of a] by (simp only: unat_ucast_widen [OF assms])
  then show ?thesis
    by (simp only: word_unat_eq_iff unat_ucast_narrow unat_ucast_widen [OF assms])
qed

section \<open>Lists\<close>

lemma sum_list_update_nat:
  fixes xs :: "nat list"
  assumes "i < length xs"
  shows "sum_list (xs[i := v]) + xs ! i = sum_list xs + v"
  using assms
proof (induction xs arbitrary: i)
  case (Cons x xs)
  then show ?case by (cases i) auto
qed simp

lemma map_update_index: "map f (xs[i := v]) = (map f xs)[i := f v]"
  by (simp add: map_update)

end
