(* ===== verification/O3_Num.thy ===== *)
theory O3_Num
  imports O3_Prelude
begin

text \<open>
  The bounded numeric vocabulary (src/src/base/num/mod.rs, src/src/base/num/bounded/mod.rs and
  bounded/raw.rs). A bounded type such as \<open>U32<MIN, MAX>\<close> is a transparent wrapper around its
  integer, so its values are modelled by that integer and the const generics become leading
  arguments of every operation. What the wrapper promises is the predicate \<open>in_range\<close>: each
  constructor is shown to establish it and each operation to keep it. The compile-time
  assertions of the sources appear as hypotheses.
\<close>

section \<open>Ranges\<close>

definition in_range :: "'w::len word \<Rightarrow> 'w word \<Rightarrow> 'w word \<Rightarrow> bool" where
  "in_range lo hi v \<longleftrightarrow> lo \<le> v \<and> v \<le> hi"

lemma in_range_unat: "in_range lo hi v \<longleftrightarrow> unat lo \<le> unat v \<and> unat v \<le> unat hi"
  by (simp add: in_range_def word_le_nat_alt)

text \<open>\<open>as usize\<close> and \<open>as u32\<close> between the two widths.\<close>

abbreviation u32_as_usize :: "u32 \<Rightarrow> usize" where
  "u32_as_usize \<equiv> ucast"

abbreviation usize_as_u32 :: "usize \<Rightarrow> u32" where
  "usize_as_u32 \<equiv> ucast"

lemma unat_u32_as_usize [simp]: "unat (u32_as_usize v) = unat v"
  by (rule unat_ucast_widen) simp

lemma unat_usize_as_u32: "unat v \<le> unat (m :: u32) \<Longrightarrow> unat (usize_as_u32 v) = unat v"
proof (rule unat_ucast_narrow)
  assume "unat v \<le> unat m"
  also have "unat m < 2 ^ LENGTH(32)" by (rule unsigned_less)
  finally show "unat v < 2 ^ LENGTH(32)" .
qed

lemma u32_round_trip [simp]: "usize_as_u32 (u32_as_usize v) = v"
  using unat_usize_as_u32 [of "u32_as_usize v" v] by (simp add: word_unat_eq_iff)

section \<open>U32 within MIN..=hi\<close>

definition U32_from_usize :: "u32 \<Rightarrow> u32 \<Rightarrow> usize \<Rightarrow> u32 option" where
  "U32_from_usize lo hi v =
     (if u32_as_usize lo \<le> v \<and> v \<le> u32_as_usize hi then Some (usize_as_u32 v) else None)"

definition U32_new :: "u32 \<Rightarrow> u32 \<Rightarrow> u32 \<Rightarrow> u32 option" where
  "U32_new lo hi v = U32_from_usize lo hi (u32_as_usize v)"

definition U32_clamp :: "u32 \<Rightarrow> u32 \<Rightarrow> usize \<Rightarrow> u32" where
  "U32_clamp lo hi v =
     (if v < u32_as_usize lo then lo
      else if u32_as_usize hi < v then hi
      else usize_as_u32 v)"

definition U32_abs_diff :: "u32 \<Rightarrow> u32 \<Rightarrow> u32" where
  "U32_abs_diff a b = (if a < b then b - a else a - b)"

definition U32_into_usize :: "u32 \<Rightarrow> usize" where
  "U32_into_usize v = u32_as_usize v"

definition U32_prefix :: "usize \<Rightarrow> u32 \<Rightarrow> u32" where
  "U32_prefix v limit = (if u32_as_usize limit < v then limit else usize_as_u32 v)"

text \<open>
  \<open>Overflow<hi>\<close> stores only the nonzero excess over MAX; \<open>actual\<close> recomputes the extent.
\<close>

datatype overflow = Overflow (excess: usize)

definition Overflow_actual :: "u32 \<Rightarrow> overflow \<Rightarrow> usize" where
  "Overflow_actual hi e = u32_as_usize hi + excess e"

definition U32_try_usize :: "u32 \<Rightarrow> usize \<Rightarrow> overflow + u32" where
  "U32_try_usize hi v =
     (let over = saturating_sub v (u32_as_usize hi)
      in if over \<noteq> 0 then Inl (Overflow over) else Inr (usize_as_u32 v))"

lemma U32_from_usize_Some_iff:
  "U32_from_usize lo hi v = Some x \<longleftrightarrow> unat x = unat v \<and> in_range lo hi x"
proof -
  have "unat (usize_as_u32 v) = unat v" if "unat v \<le> unat hi"
    using that by (rule unat_usize_as_u32)
  then show ?thesis
    by (auto simp: U32_from_usize_def in_range_unat word_le_nat_alt word_unat_eq_iff)
qed

lemma U32_new_eq: "U32_new lo hi v = (if in_range lo hi v then Some v else None)"
  by (simp add: U32_new_def U32_from_usize_def in_range_unat word_le_nat_alt)

lemma unat_U32_clamp:
  assumes "lo \<le> hi"
  shows "unat (U32_clamp lo hi v) = max (unat lo) (min (unat hi) (unat v))"
  using assms unat_usize_as_u32 [of v hi]
  by (auto simp: U32_clamp_def word_less_nat_alt word_le_nat_alt)

lemma unat_U32_abs_diff:
  "unat (U32_abs_diff a b) = (unat a - unat b) + (unat b - unat a)"
proof (cases "a < b")
  case True
  then have "a \<le> b" by simp
  with True show ?thesis by (simp add: U32_abs_diff_def unat_sub word_less_nat_alt)
next
  case False
  then have "b \<le> a" by simp
  with False show ?thesis by (simp add: U32_abs_diff_def unat_sub word_less_nat_alt)
qed

lemma U32_abs_diff_range:
  assumes "a \<le> hi" "b \<le> hi"
  shows "in_range 0 hi (U32_abs_diff a b)"
  using assms by (auto simp: in_range_unat word_le_nat_alt unat_U32_abs_diff)

lemma unat_U32_prefix: "unat (U32_prefix v limit) = min (unat v) (unat limit)"
  using unat_usize_as_u32 [of v limit] by (auto simp: U32_prefix_def word_less_nat_alt)

lemma U32_try_usize_Inr_iff:
  "U32_try_usize hi v = Inr x \<longleftrightarrow> unat x = unat v \<and> unat v \<le> unat hi"
proof -
  have "saturating_sub v (u32_as_usize hi) = 0 \<longleftrightarrow> unat v \<le> unat hi"
    by (simp add: word_unat_eq_iff unat_saturating_sub)
  then show ?thesis
    using unat_usize_as_u32 [of v hi]
    by (auto simp: U32_try_usize_def Let_def word_unat_eq_iff)
qed

lemma U32_try_usize_Inl_actual:
  assumes "U32_try_usize hi v = Inl e"
  shows "excess e \<noteq> 0" and "Overflow_actual hi e = v"
proof -
  have e: "e = Overflow (saturating_sub v (u32_as_usize hi))"
    and nz: "saturating_sub v (u32_as_usize hi) \<noteq> 0"
    using assms by (auto simp: U32_try_usize_def Let_def split: if_splits)
  show "excess e \<noteq> 0" using e nz by simp
  have "u32_as_usize hi \<le> v"
    using nz by (auto simp: saturating_sub_def split: if_splits)
  then show "Overflow_actual hi e = v"
    by (simp add: e Overflow_actual_def saturating_sub_def)
qed

section \<open>NonZeroU32 within MIN..=hi\<close>

definition NonZeroU32_new :: "u32 \<Rightarrow> u32 \<Rightarrow> u32 \<Rightarrow> u32 option" where
  "NonZeroU32_new lo hi v =
     (if v \<noteq> 0 then if lo \<le> v \<and> v \<le> hi then Some v else None else None)"

definition NonZeroU32_from_usize :: "u32 \<Rightarrow> u32 \<Rightarrow> usize \<Rightarrow> u32 option" where
  "NonZeroU32_from_usize lo hi v =
     (if v \<le> u32_as_usize (- 1) then NonZeroU32_new lo hi (usize_as_u32 v) else None)"

definition NonZeroU32_into_index :: "u32 \<Rightarrow> u32" where
  "NonZeroU32_into_index v = v - 1"

definition U32_from_one :: "u32 \<Rightarrow> u32" where
  "U32_from_one position = position - 1"

lemma unat_max_u32: "unat (- 1 :: u32) = 2 ^ 32 - 1"
  by (simp add: unsigned_minus_1_eq_mask mask_eq_exp_minus_1)

lemma NonZeroU32_from_usize_Some_iff:
  assumes "1 \<le> lo"
  shows "NonZeroU32_from_usize lo hi v = Some x \<longleftrightarrow> unat x = unat v \<and> in_range lo hi x"
proof -
  have w: "unat (usize_as_u32 v) = unat v" if "v \<le> u32_as_usize (- 1)"
    using that unat_usize_as_u32 [of v "- 1"] by (simp add: word_le_nat_alt)
  have "unat hi \<le> unat (- 1 :: u32)"
    by (metis word_le_nat_alt word_order.extremum)
  then show ?thesis
    using w assms
    by (auto simp: NonZeroU32_from_usize_def NonZeroU32_new_def in_range_unat word_le_nat_alt
        word_unat_eq_iff)
qed

lemma NonZeroU32_into_index_range:
  assumes "1 \<le> lo" "in_range lo hi v" "hi - 1 \<le> END"
  shows "in_range 0 END (NonZeroU32_into_index v)"
    and "unat (NonZeroU32_into_index v) + 1 = unat v"
proof -
  have v: "v \<noteq> 0" "hi \<noteq> 0"
    using assms by (auto simp: in_range_unat word_le_nat_alt)
  show "unat (NonZeroU32_into_index v) + 1 = unat v"
    using v by (simp add: NonZeroU32_into_index_def unat_pred unat_gt_0)
  show "in_range 0 END (NonZeroU32_into_index v)"
    using v assms by (auto simp: NonZeroU32_into_index_def in_range_unat word_le_nat_alt
        unat_pred)
qed

section \<open>U64 within MIN..=MAX\<close>

definition U64_from_usize :: "u64 \<Rightarrow> u64 \<Rightarrow> usize \<Rightarrow> u64 option" where
  "U64_from_usize lo hi v = (if lo \<le> v \<and> v \<le> hi then Some v else None)"

definition U64_new :: "u64 \<Rightarrow> u64 \<Rightarrow> u64 \<Rightarrow> u64 option" where
  "U64_new lo hi v = U64_from_usize lo hi v"

definition U64_clamp :: "u64 \<Rightarrow> u64 \<Rightarrow> u64 \<Rightarrow> u64" where
  "U64_clamp lo hi v = (if v < lo then lo else if hi < v then hi else v)"

definition U64_checked_sub :: "u64 \<Rightarrow> u64 \<Rightarrow> u64 option" where
  "U64_checked_sub v w = (case checked_sub v w of Some d \<Rightarrow> Some d | None \<Rightarrow> None)"

definition U64_mask :: "u64 \<Rightarrow> u64 \<Rightarrow> u64" where
  "U64_mask hi v = v AND hi"

lemma U64_clamp_range: "lo \<le> hi \<Longrightarrow> in_range lo hi (U64_clamp lo hi v)"
  by (auto simp: U64_clamp_def in_range_def)

lemma U64_clamp_fixed: "in_range lo hi v \<Longrightarrow> U64_clamp lo hi v = v"
  by (auto simp: U64_clamp_def in_range_def)

lemma U64_checked_sub_range:
  assumes "in_range 0 hi v" "U64_checked_sub v w = Some d"
  shows "in_range 0 hi d" and "unat d = unat v - unat w" and "w \<le> v"
  using assms
  by (auto simp: U64_checked_sub_def checked_sub_def in_range_unat unat_sub word_le_nat_alt
      split: option.splits if_splits)

lemma U64_mask_range: "in_range 0 hi (U64_mask hi v)"
  by (simp add: U64_mask_def in_range_def word_and_le1)

section \<open>Counts: NonZeroUsize and Usize\<close>

definition NonZeroUsize_new :: "usize \<Rightarrow> usize \<Rightarrow> usize \<Rightarrow> usize option" where
  "NonZeroUsize_new lo hi v =
     (if v \<noteq> 0 then if lo \<le> v \<and> v \<le> hi then Some v else None else None)"

definition NonZeroUsize_into_count :: "usize \<Rightarrow> usize" where
  "NonZeroUsize_into_count v = v"

definition NonZeroUsize_prior :: "usize \<Rightarrow> usize" where
  "NonZeroUsize_prior v = v - 1"

definition NonZeroUsize_after :: "usize \<Rightarrow> usize \<Rightarrow> usize option" where
  "NonZeroUsize_after capacity v =
     (if v < capacity then Some (saturating_add 1 v) else None)"

record add_error =
  add_value :: usize
  add_incoming :: usize
  add_maximum :: usize

definition Usize_nonzero :: "usize \<Rightarrow> usize option" where
  "Usize_nonzero v = (if v \<noteq> 0 then Some v else None)"

definition Usize_try_add :: "usize \<Rightarrow> usize \<Rightarrow> usize \<Rightarrow> add_error + usize" where
  "Usize_try_add hi v n =
     (if hi - v < n
      then Inl \<lparr>add_value = v, add_incoming = saturating_add 1 (n - 1), add_maximum = hi\<rparr>
      else Inr (v + n))"

definition Usize_into_u32 :: "usize \<Rightarrow> u32" where
  "Usize_into_u32 v = usize_as_u32 v"

lemma NonZeroUsize_after_Some_iff:
  "NonZeroUsize_after capacity v = Some w \<longleftrightarrow> unat w = unat v + 1 \<and> w \<le> capacity"
proof (cases "v < capacity")
  case True
  have "unat capacity < 2 ^ 64" using unat_bound [of capacity] by simp
  then have fits: "unat (1 :: usize) + unat v < 2 ^ LENGTH(64)"
    using True by (simp add: word_less_nat_alt)
  then have "unat (saturating_add 1 v) = unat v + 1"
    unfolding saturating_add_def using unat_add_fits [OF fits] by simp
  with True show ?thesis
    by (auto simp: NonZeroUsize_after_def word_unat_eq_iff word_less_nat_alt word_le_nat_alt)
next
  case False
  then show ?thesis
    by (auto simp: NonZeroUsize_after_def word_less_nat_alt word_le_nat_alt)
qed

lemma NonZeroUsize_prior_after:
  assumes "NonZeroUsize_after capacity v = Some w"
  shows "NonZeroUsize_prior w = v"
proof -
  have "unat w = unat v + 1" using assms by (simp add: NonZeroUsize_after_Some_iff)
  then have "w \<noteq> 0" by auto
  with \<open>unat w = unat v + 1\<close> show ?thesis
    by (simp add: NonZeroUsize_prior_def word_unat_eq_iff unat_pred)
qed

lemma saturating_one_pred: "n \<noteq> 0 \<Longrightarrow> saturating_add 1 (n - 1 :: usize) = n"
proof -
  assume n: "n \<noteq> 0"
  then have "unat (n - 1) + 1 = unat n" by (simp add: unat_pred unat_gt_0)
  then have "unat (1 :: usize) + unat (n - 1) < 2 ^ LENGTH(64)"
    using unat_bound [of n] by simp
  then show ?thesis by (simp add: saturating_add_def)
qed

lemma Usize_try_add_Inr_iff:
  assumes "v \<le> hi"
  shows "Usize_try_add hi v n = Inr w \<longleftrightarrow> unat w = unat v + unat n \<and> w \<le> hi"
proof -
  have d: "unat (hi - v) = unat hi - unat v" and le: "unat v \<le> unat hi"
    using assms by (simp_all add: unat_sub word_le_nat_alt)
  have fits: "unat (v + n) = unat v + unat n" if "\<not> hi - v < n"
  proof (rule unat_add_fits)
    show "unat v + unat n < 2 ^ LENGTH(64)"
      using that d le unat_bound [of hi] by (simp add: word_less_nat_alt)
  qed
  show ?thesis
    using d le fits
    by (auto simp: Usize_try_add_def word_unat_eq_iff word_le_nat_alt word_less_nat_alt)
qed

lemma Usize_try_add_Inl:
  assumes "v \<le> hi" "Usize_try_add hi v n = Inl e"
  shows "e = \<lparr>add_value = v, add_incoming = n, add_maximum = hi\<rparr>" "unat hi < unat v + unat n"
proof -
  have lt: "hi - v < n" using assms by (auto simp: Usize_try_add_def split: if_splits)
  then have "n \<noteq> 0" by auto
  with assms lt show "e = \<lparr>add_value = v, add_incoming = n, add_maximum = hi\<rparr>"
    by (simp add: Usize_try_add_def saturating_one_pred)
  show "unat hi < unat v + unat n"
    using lt assms by (simp add: word_less_nat_alt unat_sub word_le_nat_alt)
qed

section \<open>Identities that never wrap: Epoch and Generation\<close>

definition Epoch_INITIAL :: u64 where
  "Epoch_INITIAL = 1"

definition Epoch_checked_add :: "u64 \<Rightarrow> u64 \<Rightarrow> u64 option" where
  "Epoch_checked_add e n = (case checked_add e n of Some m \<Rightarrow> Some m | None \<Rightarrow> None)"

definition Generation_INITIAL :: u32 where
  "Generation_INITIAL = 0"

definition Generation_next :: "u32 \<Rightarrow> u32 \<Rightarrow> u32 option" where
  "Generation_next hi g = (if g < hi then Some (g + 1) else None)"

lemma Epoch_checked_add_Some_iff:
  "Epoch_checked_add e n = Some m \<longleftrightarrow> unat m = unat e + unat n"
  by (simp add: Epoch_checked_add_def checked_add_Some_iff split: option.split)
    (metis checked_add_Some_iff option.distinct(1) option.inject)

lemma Generation_next_Some_iff:
  "Generation_next hi g = Some h \<longleftrightarrow> unat h = unat g + 1 \<and> h \<le> hi"
proof (cases "g < hi")
  case True
  then have "unat (g + 1) = unat g + 1"
    using unat_bound [of hi] by (intro trans [OF unat_add_fits]) (auto simp: word_less_nat_alt)
  with True show ?thesis
    by (auto simp: Generation_next_def word_unat_eq_iff word_less_nat_alt word_le_nat_alt)
next
  case False
  then show ?thesis
    by (auto simp: Generation_next_def word_less_nat_alt word_le_nat_alt)
qed

section \<open>Properties\<close>

text \<open>every constructor of the bounded types accepts exactly the values of the range and keeps
  them: construction from a word or an index, clamping to the nearest bound, taking a prefix of
  a limit, and the fallible narrowing, whose error recovers the extent that was refused.\<close>

theorem bounded_construction_exact:
  "(U32_from_usize lo hi v = Some x \<longleftrightarrow> unat x = unat v \<and> in_range lo hi x) \<and>
   (lo \<le> hi \<longrightarrow> unat (U32_clamp lo hi v) = max (unat lo) (min (unat hi) (unat v))) \<and>
   unat (U32_prefix v hi) = min (unat v) (unat hi) \<and>
   (U32_try_usize hi v = Inr x \<longleftrightarrow> unat x = unat v \<and> unat v \<le> unat hi) \<and>
   (\<forall>e. U32_try_usize hi v = Inl e \<longrightarrow> Overflow_actual hi e = v \<and> unat hi < unat v)"
proof (intro conjI impI allI)
  show "U32_from_usize lo hi v = Some x \<longleftrightarrow> unat x = unat v \<and> in_range lo hi x"
    by (rule U32_from_usize_Some_iff)
  show "unat (U32_clamp lo hi v) = max (unat lo) (min (unat hi) (unat v))" if "lo \<le> hi"
    using that by (rule unat_U32_clamp)
  show "unat (U32_prefix v hi) = min (unat v) (unat hi)" by (rule unat_U32_prefix)
  show "U32_try_usize hi v = Inr x \<longleftrightarrow> unat x = unat v \<and> unat v \<le> unat hi"
    by (rule U32_try_usize_Inr_iff)
  fix e assume e: "U32_try_usize hi v = Inl e"
  then show "Overflow_actual hi e = v" by (rule U32_try_usize_Inl_actual)
  show "unat hi < unat v"
  proof (rule ccontr)
    assume "\<not> unat hi < unat v"
    then have "U32_try_usize hi v = Inr (usize_as_u32 v)"
      using unat_usize_as_u32 [of v hi] by (simp add: U32_try_usize_Inr_iff)
    with e show False by simp
  qed
qed

theorem bounded_construction_exact_witness:
  "unat (U32_clamp 3 9 1) = 3 \<and> Overflow_actual 9 (Overflow 5) = 14"
proof -
  have "U32_try_usize 9 14 = Inl (Overflow 5)"
    by (simp add: U32_try_usize_def saturating_sub_def)
  then show ?thesis
    using bounded_construction_exact [of 3 9 1 0] bounded_construction_exact [of 0 9 14 0] by simp
qed

text \<open>checked addition to a bounded count succeeds exactly when the sum stays within the bound
  and is then exact; a refusal returns the operands unchanged, and the sum really exceeds the
  bound; admitting a successor against a capacity is undone by taking the predecessor.\<close>

theorem bounded_count_exact:
  assumes "v \<le> hi"
  shows "(Usize_try_add hi v n = Inr w \<longleftrightarrow> unat w = unat v + unat n \<and> w \<le> hi) \<and>
    (Usize_try_add hi v n = Inl e \<longrightarrow>
       e = \<lparr>add_value = v, add_incoming = n, add_maximum = hi\<rparr> \<and> unat hi < unat v + unat n) \<and>
    (NonZeroUsize_after hi v = Some w \<longrightarrow>
       NonZeroUsize_prior w = v \<and> in_range 1 hi w \<and> unat w = unat v + 1) \<and>
    (NonZeroUsize_after hi v = None \<longleftrightarrow> v = hi)"
proof (intro conjI impI)
  show "Usize_try_add hi v n = Inr w \<longleftrightarrow> unat w = unat v + unat n \<and> w \<le> hi"
    using assms by (rule Usize_try_add_Inr_iff)
  assume "Usize_try_add hi v n = Inl e"
  with assms show "e = \<lparr>add_value = v, add_incoming = n, add_maximum = hi\<rparr>"
    and "unat hi < unat v + unat n"
    by (rule Usize_try_add_Inl)+
next
  assume after: "NonZeroUsize_after hi v = Some w"
  then show "NonZeroUsize_prior w = v" by (rule NonZeroUsize_prior_after)
  from after show "unat w = unat v + 1" by (simp add: NonZeroUsize_after_Some_iff)
  with after show "in_range 1 hi w"
    by (simp add: NonZeroUsize_after_Some_iff in_range_unat word_le_nat_alt)
next
  show "NonZeroUsize_after hi v = None \<longleftrightarrow> v = hi"
    using assms by (auto simp: NonZeroUsize_after_def)
qed

theorem bounded_count_exact_witness:
  "Usize_try_add 10 7 4 = Inl \<lparr>add_value = 7, add_incoming = 4, add_maximum = 10\<rparr> \<and>
   NonZeroUsize_prior 8 = 7"
proof -
  have "Usize_try_add 10 7 4 = Inl \<lparr>add_value = 7, add_incoming = 4, add_maximum = 10\<rparr>"
    and "NonZeroUsize_after 10 7 = Some 8"
    by (simp_all add: Usize_try_add_def NonZeroUsize_after_def saturating_add_def)
  moreover have "(7 :: usize) \<le> 10" by simp
  ultimately show ?thesis
    using bounded_count_exact [of 7 10 4 8 "\<lparr>add_value = 7, add_incoming = 4, add_maximum = 10\<rparr>"]
    by blast
qed

end
