(* ===== verification/O3_Time.thy ===== *)
theory O3_Time
  imports O3_Prelude
begin

text \<open>
  Civil-time values (src/src/base/time.rs): the exact weighted average of two durations, the
  nonzero duration and ticks since the Unix epoch. A \<open>Duration\<close> of the standard library is a
  pair of whole seconds (\<open>u64\<close>) and nanoseconds (\<open>u32\<close>, below a billion, which is
  \<open>dur_ok\<close>). \<open>as_nanos\<close> is a \<open>u128\<close>, which the largest duration does not overflow, so its
  value is a natural number here.
\<close>

section \<open>Durations\<close>

record duration =
  dur_secs :: u64
  dur_nanos :: u32

definition dur_ok :: "duration \<Rightarrow> bool" where
  "dur_ok d \<longleftrightarrow> unat (dur_nanos d) < 1000000000"

definition as_nanos :: "duration \<Rightarrow> nat" where
  "as_nanos d = unat (dur_secs d) * 1000000000 + unat (dur_nanos d)"

definition duration_average :: "u64 \<Rightarrow> duration \<Rightarrow> duration \<Rightarrow> duration" where
  "duration_average N t sample =
     (let count = N;
          weight = N - 1;
          secs = weight * (dur_secs t div count) + dur_secs sample div count;
          nanos = (weight * (dur_secs t mod count) + dur_secs sample mod count)
                    * (1000000000 div N)
                  + (weight * ucast (dur_nanos t) + ucast (dur_nanos sample)) div count
      in \<lparr>dur_secs = secs + nanos div 1000000000,
          dur_nanos = ucast (nanos mod 1000000000)\<rparr>)"

definition Positive_try_new :: "duration \<Rightarrow> unit + duration" where
  "Positive_try_new d = (if dur_secs d = 0 \<and> dur_nanos d = 0 then Inl () else Inr d)"

section \<open>Ticks since the Unix epoch\<close>

datatype unix_add = Add_Scale u64 duration | Add_Range u64 duration

datatype unix_sub = Sub_Scale u64 duration | Sub_Range u64 duration

definition unix_nanos :: "duration \<Rightarrow> u64 option" where
  "unix_nanos d = (if as_nanos d < 2 ^ 64 then Some (word_of_nat (as_nanos d)) else None)"

definition unix_try_add :: "u64 \<Rightarrow> duration \<Rightarrow> unix_add + u64" where
  "unix_try_add at d =
     (case unix_nanos d of
        None \<Rightarrow> Inl (Add_Scale at d)
      | Some ticks \<Rightarrow> if - 1 - ticks < at then Inl (Add_Range at d) else Inr (at + ticks))"

definition unix_try_sub :: "u64 \<Rightarrow> duration \<Rightarrow> unix_sub + u64" where
  "unix_try_sub at d =
     (case unix_nanos d of
        None \<Rightarrow> Inl (Sub_Scale at d)
      | Some ticks \<Rightarrow> if at < ticks then Inl (Sub_Range at d) else Inr (at - ticks))"

definition nanos_floor_millis :: "u64 \<Rightarrow> u64" where
  "nanos_floor_millis at = at div 1000000"

definition nanos_floor_secs :: "u64 \<Rightarrow> u64" where
  "nanos_floor_secs at = at div 1000000000"

definition millis_floor_secs :: "u64 \<Rightarrow> u64" where
  "millis_floor_secs at = at div 1000"

section \<open>Word arithmetic that stays in range\<close>

lemma u64_add: "unat (a :: u64) + unat b < 2 ^ 64 \<Longrightarrow> unat (a + b) = unat a + unat b"
  using unat_add_fits [of a b] by simp

lemma u64_mult: "unat (a :: u64) * unat b < 2 ^ 64 \<Longrightarrow> unat (a * b) = unat a * unat b"
  by (simp add: unat_word_ariths)

lemma u64_div: "unat ((a :: u64) div b) = unat a div unat b"
  by (simp add: unat_div_distrib)

lemma u64_mod: "unat ((a :: u64) mod b) = unat a mod unat b"
  by (simp add: unat_mod_distrib)

lemmas u64_simps = u64_div u64_mod

text \<open>The average over natural numbers, split the way the code splits it.\<close>

lemma average_split:
  fixes n d w s1 s2 n1 n2 :: nat
  assumes n: "0 < n" and b: "b = n * d"
  shows "(w * (s1 div n) + s2 div n) * b
       + ((w * (s1 mod n) + s2 mod n) * d + (w * n1 + n2) div n)
       = (w * (s1 * b + n1) + (s2 * b + n2)) div n"
proof -
  define q1 r1 q2 r2 where "q1 = s1 div n" "r1 = s1 mod n" "q2 = s2 div n" "r2 = s2 mod n"
  then have s: "s1 = n * q1 + r1" "s2 = n * q2 + r2" by simp_all
  have eq: "w * (s1 * b + n1) + (s2 * b + n2)
      = (w * n1 + n2) + n * ((w * q1 + q2) * b + (w * r1 + r2) * d)"
    by (simp add: s b algebra_simps)
  have "(w * (s1 * b + n1) + (s2 * b + n2)) div n
      = (w * q1 + q2) * b + (w * r1 + r2) * d + (w * n1 + n2) div n"
    unfolding eq by (subst div_mult_self2) (use n in simp_all)
  then show ?thesis
    by (simp only: q1_r1_q2_r2_def add.assoc)
qed

text \<open>The two halves of the average and the normalised result, before any of it is a word.\<close>

lemma average_secs_bound:
  fixes n w s1 s2 m :: nat
  assumes "0 < n" "w + 1 = n" "s1 \<le> m" "s2 \<le> m"
  shows "w * (s1 div n) + s2 div n \<le> m"
proof -
  have "n * (w * (s1 div n) + s2 div n) = w * (n * (s1 div n)) + n * (s2 div n)"
    by (simp add: algebra_simps)
  also have "\<dots> \<le> w * m + m"
    using assms by (intro add_mono mult_le_mono2) (meson order_trans times_div_less_eq_dividend)+
  also have "\<dots> = n * m" using assms by (simp flip: assms(2))
  finally show ?thesis using assms(1) by simp
qed

lemma average_bound:
  fixes n w a b m :: nat
  assumes "0 < n" "w + 1 = n" "a < m" "b < m"
  shows "(w * a + b) div n < m"
proof -
  have "w * a + b \<le> w * (m - 1) + (m - 1)"
    using assms by (intro add_mono mult_le_mono2) auto
  also have "\<dots> = n * (m - 1)" by (simp flip: assms(2))
  finally have "(w * a + b) div n \<le> m - 1"
    using assms(1) by (metis div_le_mono nonzero_mult_div_cancel_left less_numeral_extra(3))
  then show ?thesis using assms by simp
qed

lemma average_N:
  assumes "N = 2 \<or> N = 4 \<or> N = (8 :: u64)"
  shows "0 < unat N" "unat (N - 1) + 1 = unat N" "unat N \<le> 8"
    and "(1000000000 :: nat) = unat N * unat (1000000000 div N :: u64)"
  using assms by auto

lemma as_nanos_bound:
  assumes "dur_ok d"
  shows "as_nanos d < 2 ^ 64 * 1000000000"
proof -
  have "unat (dur_secs d) \<le> 2 ^ 64 - 1" using unat_bound [of "dur_secs d"] by simp
  then have "unat (dur_secs d) * 1000000000 \<le> (2 ^ 64 - 1) * 1000000000"
    by (rule mult_le_mono1)
  with assms show ?thesis by (simp add: as_nanos_def dur_ok_def)
qed

lemma average_nanos_bound:
  fixes n w r1 r2 d x :: nat
  assumes "0 < n" "w + 1 = n" "n \<le> 8" "b = n * d" "x < b"
  shows "(w * (r1 mod n) + r2 mod n) * d + x < 9 * b"
proof -
  have m: "r mod n \<le> n - 1" for r
    using mod_less_divisor [OF assms(1), of r] by linarith
  have "w * (r1 mod n) + r2 mod n \<le> w * (n - 1) + (n - 1)"
    by (intro add_mono mult_le_mono2 m)
  also have "\<dots> = n * w" using assms by (simp flip: assms(2))
  finally have "(w * (r1 mod n) + r2 mod n) * d \<le> w * b"
    by (metis assms(4) mult.assoc mult.commute mult_le_mono1)
  moreover have "w * b \<le> 8 * b" using assms by (intro mult_le_mono1) simp
  ultimately show ?thesis using assms(5) by linarith
qed

lemma as_nanos_average:
  assumes N: "N = 2 \<or> N = 4 \<or> N = (8 :: u64)" and ok: "dur_ok t" "dur_ok u"
  shows "as_nanos (duration_average N t u) = (unat (N - 1) * as_nanos t + as_nanos u) div unat N"
    and "dur_ok (duration_average N t u)"
proof -
  let ?n = "unat N" and ?w = "unat (N - 1)" and ?d = "unat (1000000000 div N :: u64)"
  let ?b = "1000000000 :: nat"
  note n = average_N [OF N]
  have w: "?w < 8" using n by simp
  define S where "S = ?w * (unat (dur_secs t) div ?n) + unat (dur_secs u) div ?n"
  define R where "R = ?w * (unat (dur_secs t) mod ?n) + unat (dur_secs u) mod ?n"
  define A where "A = (?w * unat (dur_nanos t) + unat (dur_nanos u)) div ?n"
  have S: "S < 2 ^ 64"
    using average_secs_bound [OF n(1,2), of "unat (dur_secs t)" "2 ^ 64 - 1" "unat (dur_secs u)"]
      unat_bound [of "dur_secs t"] unat_bound [of "dur_secs u"] by (simp add: S_def)
  have A: "A < ?b"
    unfolding A_def using ok by (intro average_bound n) (simp_all add: dur_ok_def)
  have RA: "R * ?d + A < 9 * ?b"
    unfolding R_def by (rule average_nanos_bound [OF n A])
  have total: "S * ?b + (R * ?d + A) = (?w * as_nanos t + as_nanos u) div ?n"
    unfolding S_def R_def A_def as_nanos_def by (rule average_split [OF n(1,4)])
  have lt: "S + (R * ?d + A) div ?b < 2 ^ 64"
  proof -
    have "(S * ?b + (R * ?d + A)) div ?b < 2 ^ 64"
      unfolding total using average_bound [OF n(1,2) as_nanos_bound [OF ok(1)] as_nanos_bound [OF ok(2)]]
      by (simp add: less_mult_imp_div_less)
    then show ?thesis by simp
  qed
  have secs: "unat ((N - 1) * (dur_secs t div N) + dur_secs u div N) = S"
  proof -
    have m: "unat ((N - 1) * (dur_secs t div N)) = ?w * (unat (dur_secs t) div ?n)"
      using S by (subst u64_mult) (simp_all add: u64_simps S_def)
    then show ?thesis using S by (subst u64_add) (simp_all add: u64_simps S_def m)
  qed
  have "R \<le> R * ?d" using n(1,4) by (cases "?d = 0") simp_all
  with RA have R: "R < 9 * ?b" by linarith
  have rem: "unat ((N - 1) * (dur_secs t mod N) + dur_secs u mod N) = R"
  proof -
    have m: "unat ((N - 1) * (dur_secs t mod N)) = ?w * (unat (dur_secs t) mod ?n)"
      using R by (subst u64_mult) (simp_all add: u64_simps R_def)
    then show ?thesis using R by (subst u64_add) (simp_all add: u64_simps R_def m)
  qed
  have c: "unat (ucast v :: u64) = unat v" for v :: u32
    by (rule unat_ucast_widen) simp
  have low: "unat (((N - 1) * ucast (dur_nanos t) + ucast (dur_nanos u)) div N) = A"
  proof -
    have "?w * unat (dur_nanos t) \<le> 8 * ?b"
      using w ok by (intro mult_le_mono) (simp_all add: dur_ok_def)
    moreover have "unat (dur_nanos u) < ?b" using ok by (simp add: dur_ok_def)
    ultimately have b: "?w * unat (dur_nanos t) \<le> 8 * ?b" "unat (dur_nanos u) < ?b" .
    have m: "unat ((N - 1) * ucast (dur_nanos t)) = ?w * unat (dur_nanos t)"
      using b by (subst u64_mult) (simp_all add: c)
    show ?thesis
      unfolding u64_simps A_def using b by (subst u64_add) (simp_all add: m c)
  qed
  define nanos where "nanos = ((N - 1) * (dur_secs t mod N) + dur_secs u mod N)
      * (1000000000 div N) + ((N - 1) * ucast (dur_nanos t) + ucast (dur_nanos u)) div N"
  have nanos: "unat nanos = R * ?d + A"
  proof -
    have m: "unat (((N - 1) * (dur_secs t mod N) + dur_secs u mod N) * (1000000000 div N))
        = R * ?d"
      using RA by (subst u64_mult) (simp_all add: rem)
    show ?thesis
      unfolding nanos_def using RA by (subst u64_add) (simp_all only: m low, simp)
  qed
  have div: "unat (nanos div 1000000000) = (R * ?d + A) div ?b"
    and rest: "unat (ucast (nanos mod 1000000000) :: u32) = (R * ?d + A) mod ?b"
    by (simp_all add: u64_simps nanos) (subst unat_ucast_narrow; simp add: u64_simps nanos)
  have top: "unat ((N - 1) * (dur_secs t div N) + dur_secs u div N + nanos div 1000000000)
      = S + (R * ?d + A) div ?b"
    using lt by (subst u64_add) (simp_all only: secs div)
  have avg: "duration_average N t u =
      \<lparr>dur_secs = (N - 1) * (dur_secs t div N) + dur_secs u div N + nanos div 1000000000,
       dur_nanos = ucast (nanos mod 1000000000)\<rparr>"
    by (simp add: duration_average_def Let_def nanos_def)
  show "as_nanos (duration_average N t u) = (?w * as_nanos t + as_nanos u) div ?n"
  proof -
    have "as_nanos (duration_average N t u)
        = (S + (R * ?d + A) div ?b) * ?b + (R * ?d + A) mod ?b"
      unfolding avg as_nanos_def by (simp only: duration.simps top rest)
    also have "\<dots> = S * ?b + (R * ?d + A)" by (simp add: algebra_simps)
    finally show ?thesis using total by simp
  qed
  show "dur_ok (duration_average N t u)"
    unfolding avg dur_ok_def by (simp add: rest)
qed

lemma unix_nanos_Some_iff: "unix_nanos d = Some k \<longleftrightarrow> unat k = as_nanos d"
proof -
  have "as_nanos d < 2 ^ 64" if "unat k = as_nanos d"
    using unat_bound [of k] that by simp
  moreover have "unat (word_of_nat (as_nanos d) :: u64) = as_nanos d" if "as_nanos d < 2 ^ 64"
    using that by (simp add: unat_of_nat_fits)
  ultimately show ?thesis
    by (auto simp: unix_nanos_def word_unat_eq_iff)
qed

lemma unat_complement: "unat (- 1 - k :: u64) = 2 ^ 64 - 1 - unat k"
proof -
  have "k \<le> - 1" by (rule word_order.extremum)
  from unat_sub [OF this] show ?thesis
    by (simp add: unsigned_minus_1_eq_mask mask_eq_exp_minus_1)
qed

lemma unix_try_add_Inr_iff:
  "unix_try_add at d = Inr t \<longleftrightarrow> unat t = unat at + as_nanos d"
proof (cases "unix_nanos d")
  case None
  then have "2 ^ 64 \<le> as_nanos d" by (simp add: unix_nanos_def not_less split: if_splits)
  then show ?thesis using None unat_bound [of t] by (auto simp: unix_try_add_def)
next
  case (Some k)
  then have k: "unat k = as_nanos d" by (simp add: unix_nanos_Some_iff)
  have "\<not> - 1 - k < at \<longleftrightarrow> unat at + unat k < 2 ^ 64"
    using unat_bound [of k] by (simp add: word_less_nat_alt unat_complement) linarith
  then show ?thesis
    using Some k unat_bound [of t]
    by (auto simp: unix_try_add_def word_unat_eq_iff u64_add)
qed

lemma unix_try_sub_Inr_iff:
  "unix_try_sub at d = Inr t \<longleftrightarrow> unat t + as_nanos d = unat at"
proof (cases "unix_nanos d")
  case None
  then have "2 ^ 64 \<le> as_nanos d" by (simp add: unix_nanos_def not_less split: if_splits)
  then show ?thesis using None unat_bound [of at] by (auto simp: unix_try_sub_def)
next
  case (Some k)
  then have k: "unat k = as_nanos d" by (simp add: unix_nanos_Some_iff)
  then show ?thesis
    using Some k
    by (auto simp: unix_try_sub_def word_unat_eq_iff unat_sub word_le_nat_alt word_less_nat_alt)
qed

section \<open>Properties\<close>

text \<open>C37: for the three admitted weights the average is the floor of the exact rational average of
  the two durations in nanoseconds and it is normalised: the products, sums and carries of the
  code, taken modulo 2 to the 64, give that value for every pair of normalised durations.\<close>

theorem duration_average_exact:
  assumes "N = 2 \<or> N = 4 \<or> N = 8" "dur_ok t" "dur_ok u"
  shows "as_nanos (duration_average N t u)
      = ((unat N - 1) * as_nanos t + as_nanos u) div unat N
    \<and> dur_ok (duration_average N t u)"
proof -
  have "unat (N - 1) = unat N - 1" using assms(1) by auto
  then show ?thesis using as_nanos_average [OF assms] by simp
qed

theorem duration_average_exact_witness:
  "as_nanos (duration_average 8 \<lparr>dur_secs = - 1, dur_nanos = 999999999\<rparr> \<lparr>dur_secs = 3, dur_nanos = 5\<rparr>)
     = ((unat (8 :: u64) - 1) * as_nanos \<lparr>dur_secs = - 1, dur_nanos = 999999999\<rparr>
        + as_nanos \<lparr>dur_secs = 3, dur_nanos = 5\<rparr>) div unat (8 :: u64)
   \<and> dur_ok (duration_average 8 \<lparr>dur_secs = - 1, dur_nanos = 999999999\<rparr> \<lparr>dur_secs = 3, dur_nanos = 5\<rparr>)"
  by (rule duration_average_exact) (simp_all add: dur_ok_def)

text \<open>adding a duration to an instant succeeds exactly when the sum of ticks fits, is then
  exact, and subtracting the same duration returns the instant; a failed addition names the
  instant and duration it was given and whether the duration alone was already too long.\<close>

theorem unix_add_sub:
  "(\<forall>t. unix_try_add at d = Inr t \<longleftrightarrow> unat t = unat at + as_nanos d) \<and>
   (\<forall>t. unix_try_add at d = Inr t \<longrightarrow> unix_try_sub t d = Inr at) \<and>
   (unix_try_add at d = Inl (Add_Scale at d) \<longleftrightarrow> 2 ^ 64 \<le> as_nanos d) \<and>
   (unix_try_add at d = Inl (Add_Range at d) \<longleftrightarrow>
      as_nanos d < 2 ^ 64 \<and> 2 ^ 64 \<le> unat at + as_nanos d)"
proof (intro conjI allI impI)
  show "unix_try_add at d = Inr t \<longleftrightarrow> unat t = unat at + as_nanos d" for t
    by (rule unix_try_add_Inr_iff)
  show "unix_try_sub t d = Inr at" if "unix_try_add at d = Inr t" for t
    using that by (simp add: unix_try_add_Inr_iff unix_try_sub_Inr_iff)
  show scale: "unix_try_add at d = Inl (Add_Scale at d) \<longleftrightarrow> 2 ^ 64 \<le> as_nanos d"
    by (auto simp: unix_try_add_def unix_nanos_def)
  have "(\<exists>t. unix_try_add at d = Inr t) \<longleftrightarrow> unat at + as_nanos d < 2 ^ 64"
  proof
    assume "unat at + as_nanos d < 2 ^ 64"
    then have "unat (word_of_nat (unat at + as_nanos d) :: u64) = unat at + as_nanos d"
      by (intro unat_of_nat_fits) simp
    then show "\<exists>t. unix_try_add at d = Inr t" by (auto simp: unix_try_add_Inr_iff)
  next
    assume "\<exists>t. unix_try_add at d = Inr t"
    then obtain t :: u64 where t: "unat t = unat at + as_nanos d" by (auto simp: unix_try_add_Inr_iff)
    show "unat at + as_nanos d < 2 ^ 64" using unat_bound [of t] by (simp flip: t)
  qed
  moreover have "unix_try_add at d = Inl (Add_Scale at d) \<or> unix_try_add at d = Inl (Add_Range at d)
      \<or> (\<exists>t. unix_try_add at d = Inr t)"
    by (auto simp: unix_try_add_def split: option.splits)
  ultimately show "unix_try_add at d = Inl (Add_Range at d) \<longleftrightarrow>
      as_nanos d < 2 ^ 64 \<and> 2 ^ 64 \<le> unat at + as_nanos d"
    using scale by (auto simp: not_less)
qed

theorem unix_add_sub_witness:
  "unix_try_add 5 \<lparr>dur_secs = 1, dur_nanos = 2\<rparr> = Inr 1000000007 \<and>
   unix_try_sub 1000000007 \<lparr>dur_secs = 1, dur_nanos = 2\<rparr> = Inr 5"
proof -
  have "unix_try_add 5 \<lparr>dur_secs = 1, dur_nanos = 2\<rparr> = Inr 1000000007"
    by (simp add: unix_try_add_def unix_nanos_def as_nanos_def)
  with unix_add_sub [of 5 "\<lparr>dur_secs = 1, dur_nanos = 2\<rparr>"] show ?thesis by blast
qed

end
