(* ===== verification/O3_Account.thy ===== *)
theory O3_Account
  imports O3_Prelude
begin

text \<open>
  Scalar credit: the account cell (src/src/mem/raw/state/account.rs), the credit ledger with its
  refundable leases (src/src/mem/credit/mod.rs, src/src/mem/mod.rs) and the quota ledger with its
  units, shared reservations and exclusive leases (src/src/mem/quota.rs).

  An \<open>Account\<close> is the \<open>usize\<close> in its cell; every method that writes the cell returns the new
  value. Rust's ownership decides when a destructor runs, so the owners that exist at a moment
  are part of the state of the quota system below, and each constructor, method and destructor
  is a step. What the steps conserve is that every unit is available, owed or spent, once.
\<close>

section \<open>The account cell\<close>

type_synonym account = usize

record credit_error =
  ce_need :: usize
  ce_spare :: usize

datatype take = Taken | Exhausted

text \<open>\<open>HELD\<close> is the const generic of \<open>Account\<close>: the cell then holds usage, not what is left.\<close>

definition account_try_acquire ::
  "bool \<Rightarrow> usize \<Rightarrow> usize \<Rightarrow> account \<Rightarrow> credit_error + account" where
  "account_try_acquire HELD amount limit current =
     (let spare = (if HELD then limit - current else current) in
      if spare < amount then Inl \<lparr>ce_need = amount, ce_spare = spare\<rparr>
      else Inr (if HELD then current + amount else current - amount))"

definition account_refund :: "bool \<Rightarrow> usize \<Rightarrow> account \<Rightarrow> account" where
  "account_refund HELD amount current = (if HELD then current - amount else current + amount)"

definition account_reserve :: "usize \<Rightarrow> account \<Rightarrow> take \<times> account" where
  "account_reserve amount current =
     (case checked_sub current amount of
        None \<Rightarrow> (Exhausted, current)
      | Some left \<Rightarrow> (Taken, left))"

definition account_reserve_up :: "usize \<Rightarrow> account \<Rightarrow> usize \<times> account" where
  "account_reserve_up limit spare =
     (let amount = min spare limit in (amount, if amount \<noteq> 0 then spare - amount else spare))"

definition account_refund_spare :: "usize \<Rightarrow> account \<Rightarrow> account" where
  "account_refund_spare amount current =
     (if amount \<noteq> 0 then account_refund False amount current else current)"

lemma account_reserve_Taken:
  assumes "account_reserve n a = (Taken, a')"
  shows "unat a = unat a' + unat n"
  using assms checked_sub_SomeD [of a n]
  by (auto simp: account_reserve_def split: option.splits)

lemma account_reserve_Exhausted:
  assumes "account_reserve n a = (Exhausted, a')"
  shows "a' = a" and "a < n"
  using assms by (auto simp: account_reserve_def checked_sub_None_iff split: option.splits)

lemma account_reserve_Taken_iff:
  "fst (account_reserve n a) = Taken \<longleftrightarrow> n \<le> a"
  by (auto simp: account_reserve_def checked_sub_def)

lemma account_reserve_up:
  assumes "account_reserve_up limit a = (n, a')"
  shows "unat a = unat a' + unat n" and "n = min a limit"
proof -
  show n: "n = min a limit" using assms by (simp add: account_reserve_up_def Let_def)
  have a': "a' = a - n"
    using assms n by (auto simp: account_reserve_up_def Let_def split: if_splits)
  have "n \<le> a" using n by simp
  then show "unat a = unat a' + unat n"
    by (simp add: a' unat_sub word_le_nat_alt)
qed

lemma account_refund_spare_eq: "account_refund_spare n a = a + n"
  by (simp add: account_refund_spare_def account_refund_def)

text \<open>Every refund in the usage mode and in the credit mode undoes its acquisition.\<close>

lemma account_refund_acquire:
  assumes "account_try_acquire HELD n limit a = Inr a'"
  shows "account_refund HELD n a' = a"
  using assms by (auto simp: account_try_acquire_def account_refund_def Let_def split: if_splits)

lemma account_try_acquire_credit_Inr_iff:
  "account_try_acquire False n limit a = Inr a' \<longleftrightarrow> n \<le> a \<and> a' = a - n"
  by (auto simp: account_try_acquire_def Let_def)

lemma account_try_acquire_held_Inr:
  assumes "a \<le> limit" "account_try_acquire True n limit a = Inr a'"
  shows "unat a' = unat a + unat n" and "a' \<le> limit"
proof -
  have a': "a' = a + n" and le: "n \<le> limit - a"
    using assms by (auto simp: account_try_acquire_def Let_def not_less split: if_splits)
  have fit: "unat a + unat n \<le> unat limit"
    using le assms(1) by (simp add: word_le_nat_alt unat_sub)
  then show "unat a' = unat a + unat n"
    using unat_bound [of limit] by (simp add: a' unat_add_fits)
  then show "a' \<le> limit" using fit by (simp add: word_le_nat_alt)
qed

section \<open>The credit ledger\<close>

record credit_ledger =
  cl_limit :: usize
  cl_remaining :: account

definition credit_new :: "usize \<Rightarrow> credit_ledger" where
  "credit_new n = \<lparr>cl_limit = n, cl_remaining = n\<rparr>"

text \<open>A credit lease is its item: the amount its destructor hands back to the ledger.\<close>

definition credit_try_acquire ::
  "usize \<Rightarrow> credit_ledger \<Rightarrow> credit_error + usize \<times> credit_ledger" where
  "credit_try_acquire amount l =
     (case account_try_acquire False amount 0 (cl_remaining l) of
        Inl e \<Rightarrow> Inl e
      | Inr r \<Rightarrow> Inr (amount, l\<lparr>cl_remaining := r\<rparr>))"

definition credit_return_item :: "usize \<Rightarrow> credit_ledger \<Rightarrow> credit_ledger" where
  "credit_return_item amount l = l\<lparr>cl_remaining := account_refund False amount (cl_remaining l)\<rparr>"


section \<open>The quota ledger\<close>

text \<open>
  \<open>Admission<T>\<close> and the three ways to draw from a ledger. A \<open>Return\<close> carries no data of its
  own: it is one unit owed to the ledger, so it is modelled by \<open>()\<close>.
\<close>

datatype 't admission = Item 't | Empty | Admission_Exhausted

definition quota_take :: "account \<Rightarrow> take \<times> account" where
  "quota_take led = account_reserve 1 led"

definition quota_reserve :: "account \<Rightarrow> unit option \<times> account" where
  "quota_reserve led =
     (case quota_take led of
        (Exhausted, led') \<Rightarrow> (None, led')
      | (Taken, led') \<Rightarrow> (Some (), led'))"

definition quota_return_item :: "account \<Rightarrow> account" where
  "quota_return_item led = account_refund False 1 led"

text \<open>
  \<open>admit_with\<close> runs its closure between the debit and the refund. The closure may use the
  ledger again, so it is a function of the ledger's value as well.
\<close>

definition quota_admit_with ::
  "(account \<Rightarrow> 't option \<times> account) \<Rightarrow> account \<Rightarrow> 't admission \<times> account" where
  "quota_admit_with acquire led =
     (case quota_reserve led of
        (None, led1) \<Rightarrow> (Admission_Exhausted, led1)
      | (Some reserved, led1) \<Rightarrow>
          (case acquire led1 of
             (None, led2) \<Rightarrow> (Empty, quota_return_item led2)
           | (Some v, led2) \<Rightarrow> (Item v, led2)))"

text \<open>\<open>Shared\<close> keeps its own ledger of what is left; a \<open>Lease\<close> keeps a plain count.\<close>

definition shared_reserve :: "usize \<Rightarrow> account \<Rightarrow> account option \<times> account" where
  "shared_reserve count source =
     (case account_reserve count source of
        (Exhausted, source') \<Rightarrow> (None, source')
      | (Taken, source') \<Rightarrow> (Some count, source'))"

definition shared_reserve_up :: "usize \<Rightarrow> account \<Rightarrow> account \<times> account" where
  "shared_reserve_up limit source = account_reserve_up limit source"

definition shared_reserve_all :: "account \<Rightarrow> account \<times> account" where
  "shared_reserve_all source = shared_reserve_up (- 1) source"

definition lease_reserve_up :: "usize \<Rightarrow> account \<Rightarrow> usize \<times> account" where
  "lease_reserve_up limit source = account_reserve_up limit source"

definition lease_reserve_all :: "account \<Rightarrow> usize \<times> account" where
  "lease_reserve_all source = lease_reserve_up (- 1) source"

definition shared_lease_up_to :: "usize \<Rightarrow> account \<Rightarrow> usize \<times> account" where
  "shared_lease_up_to limit shared = lease_reserve_up limit shared"

definition lease_admit_with ::
  "(account \<Rightarrow> 't option \<times> account) \<Rightarrow> usize \<Rightarrow> account \<Rightarrow> 't admission \<times> usize \<times> account" where
  "lease_admit_with acquire rest source =
     (if rest = 0 then (Admission_Exhausted, rest, source)
      else case acquire source of
        (None, source') \<Rightarrow> (Empty, rest, source')
      | (Some v, source') \<Rightarrow> (Item v, rest - 1, source'))"

definition lease_drop :: "usize \<Rightarrow> account \<Rightarrow> account" where
  "lease_drop rest source = account_refund_spare rest source"

definition shared_drop :: "account \<Rightarrow> account \<Rightarrow> account" where
  "shared_drop shared source = account_refund_spare shared source"

text \<open>
  \<open>Shared::with\<close> runs the scope, then replaces the reservation's ledger by the amount the
  scope proved unused; the reservation is dropped on the way out and returns just that.
\<close>

definition shared_with ::
  "(account \<Rightarrow> ('r \<times> usize) \<times> account) \<Rightarrow> account \<Rightarrow> account \<Rightarrow> 'r \<times> account" where
  "shared_with run reserved source =
     (case run source of
        ((output, amount), source') \<Rightarrow> (output, shared_drop amount source'))"

lemma quota_reserve_Some:
  assumes "quota_reserve led = (Some u, led')"
  shows "unat led = Suc (unat led')"
  using assms account_reserve_Taken [of 1 led]
  by (auto simp: quota_reserve_def quota_take_def split: prod.splits take.splits)

lemma quota_reserve_None:
  assumes "quota_reserve led = (None, led')"
  shows "led' = led" and "led = 0"
proof -
  have ex: "account_reserve 1 led = (Exhausted, led')"
    using assms by (auto simp: quota_reserve_def quota_take_def split: prod.splits take.splits)
  show "led' = led" using account_reserve_Exhausted(1) [OF ex] .
  show "led = 0" using account_reserve_Exhausted(2) [OF ex]
    by (simp add: word_less_nat_alt word_unat_eq_iff)
qed

lemma quota_return_reserve:
  assumes "quota_reserve led = (Some u, led')"
  shows "quota_return_item led' = led"
proof -
  have "unat led = Suc (unat led')" using assms by (rule quota_reserve_Some)
  then have "unat led' + unat (1 :: usize) = unat led" by simp
  then show ?thesis
    using unat_bound [of led]
    by (simp add: quota_return_item_def account_refund_def word_unat_eq_iff unat_add_fits)
qed

section \<open>Everything drawn from one quota ledger\<close>

text \<open>
  The owners alive at a moment: units held by open leases, shared reservations with the child
  leases they lend, and exclusive leases. \<open>q_spent\<close> counts what was consumed for good and
  \<open>q_total\<close> what \<open>new\<close> or \<open>reset\<close> put in; the program stores neither.
\<close>

record quota =
  q_source :: account
  q_units :: nat
  q_shared :: "(account \<times> usize list) list"
  q_leases :: "usize list"
  q_spent :: nat
  q_total :: nat

definition quota_new :: "usize \<Rightarrow> quota" where
  "quota_new left = \<lparr>q_source = left, q_units = 0, q_shared = [], q_leases = [],
     q_spent = 0, q_total = unat left\<rparr>"

definition sum_unat :: "usize list \<Rightarrow> nat" where
  "sum_unat xs = sum_list (map unat xs)"

definition shared_owed :: "(account \<times> usize list) list \<Rightarrow> nat" where
  "shared_owed xs = sum_list (map (\<lambda>(a, ks). unat a + sum_unat ks) xs)"

lemma sum_unat_simps [simp]:
  "sum_unat [] = 0"
  "sum_unat (x # xs) = unat x + sum_unat xs"
  "sum_unat (xs @ ys) = sum_unat xs + sum_unat ys"
  by (simp_all add: sum_unat_def)

lemma shared_owed_simps [simp]:
  "shared_owed [] = 0"
  "shared_owed ((a, ks) # xs) = unat a + sum_unat ks + shared_owed xs"
  "shared_owed (xs @ ys) = shared_owed xs + shared_owed ys"
  by (simp_all add: shared_owed_def)

inductive quota_step :: "quota \<Rightarrow> quota \<Rightarrow> bool" where
  take: "quota_take (q_source s) = (Taken, a)
    \<Longrightarrow> quota_step s (s\<lparr>q_source := a, q_spent := Suc (q_spent s)\<rparr>)"
| open_unit: "quota_reserve (q_source s) = (Some u, a)
    \<Longrightarrow> quota_step s (s\<lparr>q_source := a, q_units := Suc (q_units s)\<rparr>)"
| give_back: "q_units s = Suc n
    \<Longrightarrow> quota_step s (s\<lparr>q_source := quota_return_item (q_source s), q_units := n\<rparr>)"
| settle: "q_units s = Suc n \<Longrightarrow> quota_step s (s\<lparr>q_units := n, q_spent := Suc (q_spent s)\<rparr>)"
| share: "shared_reserve n (q_source s) = (Some r, a)
    \<Longrightarrow> quota_step s (s\<lparr>q_source := a, q_shared := (r, []) # q_shared s\<rparr>)"
| share_up: "shared_reserve_up n (q_source s) = (r, a)
    \<Longrightarrow> quota_step s (s\<lparr>q_source := a, q_shared := (r, []) # q_shared s\<rparr>)"
| lend: "q_shared s = xs @ (r, ks) # ys \<Longrightarrow> shared_lease_up_to n r = (k, r')
    \<Longrightarrow> quota_step s (s\<lparr>q_shared := xs @ (r', k # ks) # ys\<rparr>)"
| child_admit: "q_shared s = xs @ (r, ks @ k # ks') # ys
    \<Longrightarrow> lease_admit_with (\<lambda>a. (Some (), a)) k r = (Item (), k', r)
    \<Longrightarrow> quota_step s (s\<lparr>q_shared := xs @ (r, ks @ k' # ks') # ys, q_spent := Suc (q_spent s)\<rparr>)"
| child_drop: "q_shared s = xs @ (r, ks @ k # ks') # ys
    \<Longrightarrow> quota_step s (s\<lparr>q_shared := xs @ (lease_drop k r, ks @ ks') # ys\<rparr>)"
| share_drop: "q_shared s = xs @ (r, []) # ys
    \<Longrightarrow> quota_step s (s\<lparr>q_source := shared_drop r (q_source s), q_shared := xs @ ys\<rparr>)"
| share_with: "q_shared s = xs @ (r, []) # ys \<Longrightarrow> n \<le> r
    \<Longrightarrow> shared_with (\<lambda>a. (((), n), a)) r (q_source s) = ((), a)
    \<Longrightarrow> quota_step s (s\<lparr>q_source := a, q_shared := xs @ ys,
          q_spent := q_spent s + (unat r - unat n)\<rparr>)"
| lease: "lease_reserve_up n (q_source s) = (k, a)
    \<Longrightarrow> quota_step s (s\<lparr>q_source := a, q_leases := k # q_leases s\<rparr>)"
| lease_admit: "q_leases s = ks @ k # ks'
    \<Longrightarrow> lease_admit_with (\<lambda>a. (Some (), a)) k (q_source s) = (Item (), k', q_source s)
    \<Longrightarrow> quota_step s (s\<lparr>q_leases := ks @ k' # ks', q_spent := Suc (q_spent s)\<rparr>)"
| lease_end: "q_leases s = ks @ k # ks'
    \<Longrightarrow> quota_step s (s\<lparr>q_source := lease_drop k (q_source s), q_leases := ks @ ks'\<rparr>)"
| reset: "q_units s = 0 \<Longrightarrow> q_shared s = [] \<Longrightarrow> q_leases s = []
    \<Longrightarrow> quota_step s (s\<lparr>q_source := n, q_spent := 0, q_total := unat n\<rparr>)"

definition quota_outstanding :: "quota \<Rightarrow> nat" where
  "quota_outstanding s = q_units s + shared_owed (q_shared s) + sum_unat (q_leases s)"

definition quota_conserved :: "quota \<Rightarrow> bool" where
  "quota_conserved s \<longleftrightarrow>
     unat (q_source s) + quota_outstanding s + q_spent s = q_total s \<and> q_total s < 2 ^ 64"

lemma quota_conserved_new: "quota_conserved (quota_new n)"
  using unat_bound [of n] by (simp add: quota_conserved_def quota_new_def quota_outstanding_def)

text \<open>Credit that fits beside what the ledger already holds goes back without wrapping.\<close>

lemma refund_exact:
  assumes "unat a + unat n < 2 ^ 64"
  shows "unat (lease_drop n a) = unat a + unat n"
  using assms by (simp add: lease_drop_def account_refund_spare_eq unat_add_fits)

lemma shared_drop_eq: "shared_drop n a = lease_drop n a"
  by (simp add: shared_drop_def lease_drop_def)

lemma give_back_exact:
  assumes "unat a + 1 < 2 ^ 64"
  shows "unat (quota_return_item a) = unat a + 1"
proof -
  have "unat a + unat (1 :: usize) < 2 ^ LENGTH(64)" using assms by simp
  from unat_add_fits [OF this] show ?thesis
    by (simp add: quota_return_item_def account_refund_def)
qed

lemma shared_reserve_Some:
  "shared_reserve n a = (Some r, a') \<Longrightarrow> r = n \<and> unat a = unat a' + unat n"
  using account_reserve_Taken [of n a]
  by (auto simp: shared_reserve_def split: prod.splits take.splits)

lemma lease_admit_Item:
  "lease_admit_with acquire k a = (Item v, k', a') \<Longrightarrow> unat k = Suc (unat k')"
  by (auto simp: lease_admit_with_def unat_pred Suc_leI unat_gt_0 split: if_splits
      option.splits prod.splits)

lemma quota_take_Taken: "quota_take a = (Taken, a') \<Longrightarrow> unat a = Suc (unat a')"
  using account_reserve_Taken [of 1 a a'] by (simp add: quota_take_def)

lemmas reserve_up_exact =
  account_reserve_up(1) [folded shared_reserve_up_def] account_reserve_up(1) [folded lease_reserve_up_def]
  account_reserve_up(1) [folded lease_reserve_up_def, folded shared_lease_up_to_def]

lemmas quota_exact =
  quota_take_Taken quota_reserve_Some shared_reserve_Some lease_admit_Item reserve_up_exact

lemma quota_conserved_step:
  assumes "quota_step s t" "quota_conserved s"
  shows "quota_conserved t"
  using assms
proof cases
  case (give_back n)
  then have "unat (q_source s) + 1 < 2 ^ 64"
    using assms(2) by (simp add: quota_conserved_def quota_outstanding_def)
  from give_back_exact [OF this] give_back assms(2) show ?thesis
    by (simp add: quota_conserved_def quota_outstanding_def)
next
  case (child_drop xs r ks k ks' ys)
  then have "unat r + unat k < 2 ^ 64"
    using assms(2) by (simp add: quota_conserved_def quota_outstanding_def)
  from refund_exact [OF this] child_drop assms(2) show ?thesis
    by (simp add: quota_conserved_def quota_outstanding_def)
next
  case (share_drop xs r ys)
  then have "unat (q_source s) + unat r < 2 ^ 64"
    using assms(2) by (simp add: quota_conserved_def quota_outstanding_def)
  from refund_exact [OF this] share_drop assms(2) show ?thesis
    by (simp add: quota_conserved_def quota_outstanding_def shared_drop_eq)
next
  case (share_with xs r ys n a)
  then have le: "unat n \<le> unat r" by (simp add: word_le_nat_alt)
  then have "unat (q_source s) + unat n < 2 ^ 64"
    using share_with assms(2) by (simp add: quota_conserved_def quota_outstanding_def)
  from refund_exact [OF this] le share_with assms(2) show ?thesis
    by (auto simp add: quota_conserved_def quota_outstanding_def shared_drop_eq shared_with_def)
next
  case (lease_end ks k ks')
  then have "unat (q_source s) + unat k < 2 ^ 64"
    using assms(2) by (simp add: quota_conserved_def quota_outstanding_def)
  from refund_exact [OF this] lease_end assms(2) show ?thesis
    by (simp add: quota_conserved_def quota_outstanding_def)
next
  case (reset n)
  then show ?thesis
    using unat_bound [of n] by (simp add: quota_conserved_def quota_outstanding_def)
qed (auto simp: quota_conserved_def quota_outstanding_def dest!: quota_exact)

lemma quota_conserved_reach:
  "quota_step\<^sup>*\<^sup>* s t \<Longrightarrow> quota_conserved s \<Longrightarrow> quota_conserved t"
  by (induction rule: rtranclp_induct) (auto intro: quota_conserved_step)

section \<open>Runs of the credit ledger\<close>

text \<open>
  A client of the credit ledger acquires and drops leases in any order. \<open>cs_leases\<close> are the
  leases alive, newest first; a request that is denied leaves no lease.
\<close>

datatype credit_op = Acquire usize | Drop_lease nat

record credit_state =
  cs_ledger :: credit_ledger
  cs_leases :: "usize list"

definition credit_exec :: "credit_op \<Rightarrow> credit_state \<Rightarrow> credit_state" where
  "credit_exec c s =
     (case c of
        Acquire n \<Rightarrow>
          (case credit_try_acquire n (cs_ledger s) of
             Inl e \<Rightarrow> s
           | Inr (k, l) \<Rightarrow> \<lparr>cs_ledger = l, cs_leases = k # cs_leases s\<rparr>)
      | Drop_lease i \<Rightarrow>
          (if i < length (cs_leases s)
           then \<lparr>cs_ledger = credit_return_item (cs_leases s ! i) (cs_ledger s),
                 cs_leases = take i (cs_leases s) @ drop (Suc i) (cs_leases s)\<rparr>
           else s))"

definition credit_run :: "credit_op list \<Rightarrow> usize \<Rightarrow> credit_state" where
  "credit_run cs n = fold credit_exec cs \<lparr>cs_ledger = credit_new n, cs_leases = []\<rparr>"

definition credit_inv :: "usize \<Rightarrow> credit_state \<Rightarrow> bool" where
  "credit_inv n s \<longleftrightarrow> cl_limit (cs_ledger s) = n \<and>
     unat (cl_remaining (cs_ledger s)) + sum_unat (cs_leases s) = unat n"

lemma credit_exec_inv:
  assumes "credit_inv n s"
  shows "credit_inv n (credit_exec c s)"
proof (cases c)
  case (Acquire k)
  then show ?thesis
    using assms
    by (auto simp: credit_exec_def credit_inv_def credit_try_acquire_def
        account_try_acquire_credit_Inr_iff unat_sub word_le_nat_alt split: sum.splits)
next
  case (Drop_lease i)
  show ?thesis
  proof (cases "i < length (cs_leases s)")
    case True
    let ?k = "cs_leases s ! i" and ?r = "cl_remaining (cs_ledger s)"
    have sum: "sum_unat (cs_leases s) =
      sum_unat (take i (cs_leases s)) + unat ?k + sum_unat (drop (Suc i) (cs_leases s))"
      by (subst id_take_nth_drop [OF True]) simp
    then have "unat ?r + unat ?k \<le> unat n"
      using assms by (simp add: credit_inv_def)
    then have "unat ?r + unat ?k < 2 ^ LENGTH(64)"
      using unat_bound [of n] by simp
    from unat_add_fits [OF this] True Drop_lease sum assms show ?thesis
      by (simp add: credit_exec_def credit_inv_def credit_return_item_def account_refund_def)
  next
    case False
    with Drop_lease assms show ?thesis by (simp add: credit_exec_def)
  qed
qed

lemma credit_run_inv: "credit_inv n (credit_run cs n)"
proof -
  have "credit_inv n (fold credit_exec cs s)" if "credit_inv n s" for s
    using that by (induction cs arbitrary: s) (auto intro: credit_exec_inv)
  then show ?thesis
    by (simp add: credit_run_def credit_inv_def credit_new_def)
qed

section \<open>Properties\<close>

text \<open>C1: whatever the owners of one quota ledger do, in any order, every unit it was given is
  available in it, owed to it by a live owner, or spent: none is lost, created or wrapped.\<close>

theorem quota_conservation:
  assumes "quota_step\<^sup>*\<^sup>* (quota_new n) s"
  shows "unat (q_source s) + quota_outstanding s + q_spent s = q_total s"
  using quota_conserved_reach [OF assms quota_conserved_new] by (simp add: quota_conserved_def)

theorem quota_conservation_witness:
  "\<exists>s. quota_step\<^sup>*\<^sup>* (quota_new 5) s \<and> q_shared s = [(2, [])] \<and> q_spent s = 1 \<and>
     unat (q_source s) + quota_outstanding s + q_spent s = q_total s"
proof -
  let ?s1 = "(quota_new 5)\<lparr>q_source := 4, q_spent := 1\<rparr>"
  let ?s2 = "?s1\<lparr>q_source := 2, q_shared := [(2, [])]\<rparr>"
  have "quota_step (quota_new 5) ?s1"
    using quota_step.take [of "quota_new 5" 4]
    by (simp add: quota_new_def quota_take_def account_reserve_def checked_sub_def)
  moreover have "quota_step ?s1 ?s2"
    using quota_step.share [of 2 ?s1 2 2]
    by (simp add: quota_new_def shared_reserve_def account_reserve_def checked_sub_def)
  ultimately have r: "quota_step\<^sup>*\<^sup>* (quota_new 5) ?s2"
    by (rule converse_rtranclp_into_rtranclp [OF _ r_into_rtranclp])
  from quota_conservation [OF r] r show ?thesis
    by (intro exI [of _ ?s2]) (simp add: quota_new_def)
qed

text \<open>in every run of the credit ledger the leases alive account for exactly the credit that
  is missing, so a request is admitted if and only if it fits beside them, and a denial reports
  the exact request and what was spare.\<close>

theorem credit_admission_exact:
  "(\<exists>r. credit_try_acquire k (cs_ledger (credit_run cs n)) = Inr r) =
     (unat k + sum_unat (cs_leases (credit_run cs n)) \<le> unat n) \<and>
   (\<forall>e. credit_try_acquire k (cs_ledger (credit_run cs n)) = Inl e \<longrightarrow>
     ce_need e = k \<and> unat (ce_spare e) + sum_unat (cs_leases (credit_run cs n)) = unat n)"
  using credit_run_inv [of n cs]
  by (auto simp: credit_inv_def credit_try_acquire_def account_try_acquire_def Let_def
      word_less_nat_alt split: sum.splits if_splits)

theorem credit_admission_exact_witness:
  "credit_try_acquire 4 (cs_ledger (credit_run [Acquire 7] 10)) =
     Inl \<lparr>ce_need = 4, ce_spare = 3\<rparr> \<and> (3::nat) + 7 = 10"
proof -
  have l: "cs_leases (credit_run [Acquire 7] 10) = [7]"
    and e: "credit_try_acquire 4 (cs_ledger (credit_run [Acquire 7] 10)) =
      Inl \<lparr>ce_need = 4, ce_spare = 3\<rparr>"
    by (simp_all add: credit_run_def credit_exec_def credit_new_def credit_try_acquire_def
        account_try_acquire_def Let_def)
  show ?thesis
    using credit_admission_exact [of 4 "[Acquire 7]" 10] l e by simp
qed

end
