(* ===== verification/O3_Fair.thy ===== *)
theory O3_Fair
  imports O3_Prelude "HOL-Library.Multiset"
begin

text \<open>
  Fair credit: N-axis accounting of one shared surplus among lanes that each have a protected
  reserve (src/src/mem/raw/balance.rs, charge.rs, grant.rs, lane.rs, pool.rs, state/mod.rs and
  src/src/mem/credit/fair/). A vector \<open>[W; N]\<close> is a list of N words of any width; the axis
  loops run over \<open>[0..<N]\<close> with their early returns.

  A \<open>Charge\<close> or \<open>Grant\<close> is its lane and its amount. The grants alive are part of the state of
  the system at the end, whose steps are the operations on charges and grants of every lane.
\<close>

type_synonym 'v vec = "'v list"

section \<open>Balance\<close>

datatype 'v cause =
    Overflow (cause_axis: nat) (cause_held: 'v) (cause_requested: 'v)
  | Exhausted (cause_axis: nat) (cause_required: 'v) (cause_available: 'v)

type_synonym 'v balance = "'v vec \<times> 'v vec"

definition required :: "'w::len word \<Rightarrow> 'w word \<Rightarrow> 'w word \<Rightarrow> 'w word" where
  "required held reserve amount = saturating_sub amount (saturating_sub reserve held)"

fun try_acquire_axes ::
  "nat list \<Rightarrow> 'w::len word vec \<Rightarrow> 'w word vec \<Rightarrow> 'w word balance \<Rightarrow> 'w word cause + 'w word balance" where
  "try_acquire_axes [] reserve amount b = Inr b"
| "try_acquire_axes (i # axes) reserve amount (held, shared) =
     (let current = held ! i; request = amount ! i in
      case checked_add current request of
        None \<Rightarrow> Inl (Overflow i current request)
      | Some tot \<Rightarrow>
          (let r = required current (reserve ! i) request in
           if shared ! i < r then Inl (Exhausted i r (shared ! i))
           else try_acquire_axes axes reserve amount
                  (held[i := tot], shared[i := shared ! i - r])))"

definition balance_try_acquire ::
  "nat \<Rightarrow> 'w::len word vec \<Rightarrow> 'w word vec \<Rightarrow> 'w word balance \<Rightarrow> 'w word cause + 'w word balance" where
  "balance_try_acquire N reserve amount b = try_acquire_axes [0..<N] reserve amount b"

fun acquire_axes :: "nat list \<Rightarrow> 'w::len word vec \<Rightarrow> 'w word vec \<Rightarrow> 'w word balance \<Rightarrow> 'w word balance" where
  "acquire_axes [] reserve amount b = b"
| "acquire_axes (i # axes) reserve amount (held, shared) =
     (let tot = held ! i + amount ! i;
          r = required (held ! i) (reserve ! i) (amount ! i)
      in acquire_axes axes reserve amount (held[i := tot], shared[i := shared ! i - r]))"

definition balance_acquire_raw ::
  "nat \<Rightarrow> 'w::len word vec \<Rightarrow> 'w word vec \<Rightarrow> 'w word balance \<Rightarrow> 'w word balance" where
  "balance_acquire_raw N reserve amount b = acquire_axes [0..<N] reserve amount b"

definition balance_demand :: "nat \<Rightarrow> 'w::len word vec \<Rightarrow> 'w word vec \<Rightarrow> 'w word balance \<Rightarrow> 'w word vec" where
  "balance_demand N reserve amount b =
     map (\<lambda>i. required (fst b ! i) (reserve ! i) (amount ! i)) [0..<N]"

fun release_axes :: "nat list \<Rightarrow> 'w::len word vec \<Rightarrow> 'w word vec \<Rightarrow> 'w word balance \<Rightarrow> 'w word balance" where
  "release_axes [] reserve amount b = b"
| "release_axes (i # axes) reserve amount (held, shared) =
     (let returned = min (saturating_sub (held ! i) (reserve ! i)) (amount ! i)
      in release_axes axes reserve amount
           (held[i := held ! i - amount ! i], shared[i := shared ! i + returned]))"

definition balance_release_raw ::
  "nat \<Rightarrow> 'w::len word vec \<Rightarrow> 'w word vec \<Rightarrow> 'w word balance \<Rightarrow> 'w word balance" where
  "balance_release_raw N reserve amount b = release_axes [0..<N] reserve amount b"

section \<open>What the loops compute on each axis\<close>

definition axis_fits :: "'w::len word \<Rightarrow> 'w word \<Rightarrow> 'w word \<Rightarrow> 'w word \<Rightarrow> bool" where
  "axis_fits h s r a \<longleftrightarrow> unat h + unat a < 2 ^ LENGTH('w) \<and> required h r a \<le> s"

lemma unat_required: "unat (required h r a) = unat a - (unat r - unat h)"
  by (simp add: required_def unat_saturating_sub)

lemma required_over:
  "unat (required h r a) = (unat h + unat a - unat r) - (unat h - unat r)"
  by (simp add: unat_required)

definition balance_ok :: "nat \<Rightarrow> 'v balance \<Rightarrow> bool" where
  "balance_ok N b \<longleftrightarrow> length (fst b) = N \<and> length (snd b) = N"

text \<open>A loop over distinct axes reads and writes each of them once.\<close>

lemma ball_list_update:
  assumes "i \<notin> set axes"
  shows "(\<forall>j\<in>set axes. P j (xs[i := v] ! j) (ys[i := w] ! j)) = (\<forall>j\<in>set axes. P j (xs ! j) (ys ! j))"
  using assms by (metis nth_list_update_neq)

lemma try_acquire_axes_iff:
  assumes "distinct axes"
  shows "try_acquire_axes axes reserve amount (held, shared) = Inr b \<longleftrightarrow>
    (\<forall>i\<in>set axes. axis_fits (held ! i) (shared ! i) (reserve ! i) (amount ! i)) \<and>
    b = acquire_axes axes reserve amount (held, shared)"
  using assms
proof (induction axes arbitrary: held shared)
  case (Cons i axes)
  let ?P = "\<lambda>j h s. axis_fits h s (reserve ! j) (amount ! j)"
  have "i \<notin> set axes" "distinct axes" using Cons.prems by simp_all
  then show ?case
    using ball_list_update [of i axes ?P held _ shared]
    by (auto simp: Cons.IH Let_def checked_add_def axis_fits_def not_less)
qed auto

lemma acquire_axes_nth:
  assumes "distinct axes" "\<forall>i\<in>set axes. i < N" "balance_ok N (held, shared)"
    and "acquire_axes axes reserve amount (held, shared) = (held', shared')"
  shows "balance_ok N (held', shared') \<and> (\<forall>i<N.
      held' ! i = (if i \<in> set axes then held ! i + amount ! i else held ! i) \<and>
      shared' ! i = (if i \<in> set axes
        then shared ! i - required (held ! i) (reserve ! i) (amount ! i) else shared ! i))"
  using assms
proof (induction axes arbitrary: held shared)
  case (Cons i axes)
  let ?h = "held[i := held ! i + amount ! i]"
  let ?s = "shared[i := shared ! i - required (held ! i) (reserve ! i) (amount ! i)]"
  have rec: "acquire_axes axes reserve amount (?h, ?s) = (held', shared')"
    using Cons.prems(4) by (simp add: Let_def)
  have ok: "balance_ok N (?h, ?s)" and ax: "distinct axes" "\<forall>j\<in>set axes. j < N" "i \<notin> set axes" "i < N"
    using Cons.prems by (simp_all add: balance_ok_def)
  have len: "length held = N" "length shared = N"
    using Cons.prems(3) by (simp_all add: balance_ok_def)
  show ?case
    using Cons.IH [OF ax(1,2) ok rec] ax(3,4) len by (auto simp: nth_list_update)
qed simp

lemma release_axes_nth:
  assumes "distinct axes" "\<forall>i\<in>set axes. i < N" "balance_ok N (held, shared)"
    and "release_axes axes reserve amount (held, shared) = (held', shared')"
  shows "balance_ok N (held', shared') \<and> (\<forall>i<N.
      held' ! i = (if i \<in> set axes then held ! i - amount ! i else held ! i) \<and>
      shared' ! i = (if i \<in> set axes
        then shared ! i + min (saturating_sub (held ! i) (reserve ! i)) (amount ! i)
        else shared ! i))"
  using assms
proof (induction axes arbitrary: held shared)
  case (Cons i axes)
  let ?h = "held[i := held ! i - amount ! i]"
  let ?s = "shared[i := shared ! i + min (saturating_sub (held ! i) (reserve ! i)) (amount ! i)]"
  have rec: "release_axes axes reserve amount (?h, ?s) = (held', shared')"
    using Cons.prems(4) by (simp add: Let_def)
  have ok: "balance_ok N (?h, ?s)" and ax: "distinct axes" "\<forall>j\<in>set axes. j < N" "i \<notin> set axes" "i < N"
    using Cons.prems by (simp_all add: balance_ok_def)
  have len: "length held = N" "length shared = N"
    using Cons.prems(3) by (simp_all add: balance_ok_def)
  show ?case
    using Cons.IH [OF ax(1,2) ok rec] ax(3,4) len by (auto simp: nth_list_update)
qed simp

section \<open>Pools, lanes, charges and grants\<close>

text \<open>The default methods of \<open>Word\<close> widen to \<open>usize\<close>, operate there and keep the low bits.\<close>

definition word_wrapping_add :: "'w::len word \<Rightarrow> 'w word \<Rightarrow> 'w word" where
  "word_wrapping_add a b = ucast (ucast a + ucast b :: usize)"

definition word_wrapping_sub :: "'w::len word \<Rightarrow> 'w word \<Rightarrow> 'w word" where
  "word_wrapping_sub a b = ucast (ucast a - ucast b :: usize)"

record 'v pool =
  po_shared :: "'v vec"
  po_limit :: "'v vec"

record 'v lane =
  ln_reserve :: "'v vec"
  ln_held :: "'v vec"

definition pool_new :: "'v vec \<Rightarrow> 'v pool" where
  "pool_new shared = \<lparr>po_shared = shared, po_limit = shared\<rparr>"

definition lane_new :: "nat \<Rightarrow> 'w::len word vec \<Rightarrow> 'w word lane" where
  "lane_new N reserve = \<lparr>ln_reserve = reserve, ln_held = replicate N 0\<rparr>"

definition charge_try_new ::
  "nat \<Rightarrow> 'w::len word vec \<Rightarrow> 'w word pool \<Rightarrow> 'w word lane
     \<Rightarrow> 'w word vec \<times> 'w word cause + 'w word pool \<times> 'w word lane" where
  "charge_try_new N amount pool lane =
     (case balance_try_acquire N (ln_reserve lane) amount (ln_held lane, po_shared pool) of
        Inl denial \<Rightarrow> Inl (amount, denial)
      | Inr (held, surplus) \<Rightarrow> Inr (pool\<lparr>po_shared := surplus\<rparr>, lane\<lparr>ln_held := held\<rparr>))"

definition charge_drop ::
  "nat \<Rightarrow> 'w::len word vec \<Rightarrow> 'w word pool \<Rightarrow> 'w word lane \<Rightarrow> 'w word pool \<times> 'w word lane" where
  "charge_drop N amount pool lane =
     (case balance_release_raw N (ln_reserve lane) amount (ln_held lane, po_shared pool) of
        (held, surplus) \<Rightarrow> (pool\<lparr>po_shared := surplus\<rparr>, lane\<lparr>ln_held := held\<rparr>))"

definition lane_acquire_raw ::
  "nat \<Rightarrow> 'w::len word vec \<Rightarrow> 'w word pool \<Rightarrow> 'w word lane \<Rightarrow> 'w word pool \<times> 'w word lane" where
  "lane_acquire_raw N amount pool lane =
     (case balance_acquire_raw N (ln_reserve lane) amount (ln_held lane, po_shared pool) of
        (held, surplus) \<Rightarrow> (pool\<lparr>po_shared := surplus\<rparr>, lane\<lparr>ln_held := held\<rparr>))"

definition lane_demand ::
  "nat \<Rightarrow> 'w::len word vec \<Rightarrow> 'w word pool \<Rightarrow> 'w word lane \<Rightarrow> 'w word vec" where
  "lane_demand N amount pool lane =
     balance_demand N (ln_reserve lane) amount (ln_held lane, po_shared pool)"

definition lane_fits ::
  "nat \<Rightarrow> 'w::len word vec \<Rightarrow> 'w word pool \<Rightarrow> 'w word lane \<Rightarrow> bool" where
  "lane_fits N amount pool lane =
     list_all (\<lambda>axis. amount ! axis \<le> word_wrapping_add (po_limit pool ! axis) (ln_reserve lane ! axis))
       [0..<N]"

definition source_can_acquire ::
  "nat \<Rightarrow> 'w::len word vec \<Rightarrow> 'w word pool \<Rightarrow> 'w word lane \<Rightarrow> bool" where
  "source_can_acquire N amount pool lane =
     (case balance_try_acquire N (ln_reserve lane) amount (ln_held lane, po_shared pool) of
        Inr b \<Rightarrow> True | Inl e \<Rightarrow> False)"

text \<open>
  The amount of a grant after each operation on it. \<open>merge\<close> adds the vectors, \<open>drain\<close> moves the
  amount out and leaves zero, and \<open>split\<close> keeps and gives what its partition says.
\<close>

definition add_raw :: "nat \<Rightarrow> 'w::len word vec \<Rightarrow> 'w word vec \<Rightarrow> 'w word vec" where
  "add_raw N a b = map (\<lambda>axis. word_wrapping_add (a ! axis) (b ! axis)) [0..<N]"

definition grant_merge :: "nat \<Rightarrow> 'w::len word vec \<Rightarrow> 'w word vec \<Rightarrow> 'w word vec" where
  "grant_merge N target other = add_raw N target other"

definition grant_empty :: "nat \<Rightarrow> 'w::len word vec" where
  "grant_empty N = replicate N 0"

definition grant_drain :: "nat \<Rightarrow> 'w::len word vec \<Rightarrow> 'w word vec \<times> 'w word vec" where
  "grant_drain N target = (grant_empty N, target)"

definition grant_split ::
  "('w::len word vec \<Rightarrow> 'w word vec \<times> 'w word vec) \<Rightarrow> 'w word vec \<Rightarrow> 'w word vec \<times> 'w word vec" where
  "grant_split parts target = (case parts target of (rest, part) \<Rightarrow> (rest, part))"

definition grant_try_extend ::
  "nat \<Rightarrow> 'w::len word vec \<Rightarrow> 'w word pool \<Rightarrow> 'w word lane
     \<Rightarrow> 'w word vec \<times> 'w word cause + 'w word pool \<times> 'w word lane" where
  "grant_try_extend N amount pool lane = charge_try_new N amount pool lane"

definition grant_release ::
  "nat \<Rightarrow> 'w::len word vec \<Rightarrow> 'w word pool \<Rightarrow> 'w word lane \<Rightarrow> 'w word pool \<times> 'w word lane" where
  "grant_release N amount pool lane = charge_drop N amount pool lane"

lemma word_wrapping_add_eq:
  fixes a b :: "'w::len word"
  assumes "LENGTH('w) \<le> 64"
  shows "word_wrapping_add a b = a + b"
proof -
  have w: "unat (ucast c :: usize) = unat c" for c :: "'w word"
    using assms by (intro unat_ucast_widen) simp
  have "(2::nat) ^ LENGTH('w) dvd 2 ^ 64" using assms by (rule le_imp_power_dvd)
  then have "(unat a + unat b) mod 2 ^ 64 mod 2 ^ LENGTH('w) = (unat a + unat b) mod 2 ^ LENGTH('w)"
    by (rule mod_mod_cancel)
  moreover have "unat (ucast a + ucast b :: usize) = (unat a + unat b) mod 2 ^ 64"
    by (simp add: unat_word_ariths w)
  ultimately have "unat (word_wrapping_add a b) = unat (a + b)"
    by (simp add: word_wrapping_add_def unsigned_ucast_eq take_bit_eq_mod unat_word_ariths)
  then show ?thesis by (simp add: word_unat_eq_iff)
qed

section \<open>One pool and its lanes over time\<close>

text \<open>Grants and undropped charges alive: a multiset of lane and amount.\<close>

record 'v fair =
  fa_pool :: "'v pool"
  fa_lanes :: "'v lane list"
  fa_grants :: "(nat \<times> 'v vec) multiset"

definition fair_start :: "nat \<Rightarrow> 'w::len word vec \<Rightarrow> 'w word vec list \<Rightarrow> 'w word fair" where
  "fair_start N surplus reserves =
     \<lparr>fa_pool = pool_new surplus, fa_lanes = map (lane_new N) reserves, fa_grants = {#}\<rparr>"

definition partition_exact :: "nat \<Rightarrow> 'w::len word vec \<Rightarrow> 'w word vec \<times> 'w word vec \<Rightarrow> bool" where
  "partition_exact N a p \<longleftrightarrow> length (fst p) = N \<and> length (snd p) = N \<and>
     (\<forall>j<N. unat (fst p ! j) + unat (snd p ! j) = unat (a ! j))"

definition fair_put ::
  "nat \<Rightarrow> 'v pool \<times> 'v lane \<Rightarrow> (nat \<times> 'v vec) multiset \<Rightarrow> 'v fair \<Rightarrow> 'v fair" where
  "fair_put i pl G s =
     s\<lparr>fa_pool := fst pl, fa_lanes := (fa_lanes s)[i := snd pl], fa_grants := G\<rparr>"

inductive fair_step :: "nat \<Rightarrow> 'w::len word fair \<Rightarrow> 'w word fair \<Rightarrow> bool" for N where
  acquire: "i < length (fa_lanes s) \<Longrightarrow> length a = N
    \<Longrightarrow> charge_try_new N a (fa_pool s) (fa_lanes s ! i) = Inr pl
    \<Longrightarrow> fair_step N s (fair_put i pl (add_mset (i, a) (fa_grants s)) s)"
| release: "fa_grants s = add_mset (i, a) G
    \<Longrightarrow> fair_step N s (fair_put i (charge_drop N a (fa_pool s) (fa_lanes s ! i)) G s)"
| merge: "fa_grants s = add_mset (i, a) (add_mset (i, b) G)
    \<Longrightarrow> fair_step N s (s\<lparr>fa_grants := add_mset (i, grant_merge N a b) G\<rparr>)"
| split: "fa_grants s = add_mset (i, a) G \<Longrightarrow> partition_exact N a (parts a)
    \<Longrightarrow> grant_split parts a = (rest, part)
    \<Longrightarrow> fair_step N s (s\<lparr>fa_grants := add_mset (i, rest) (add_mset (i, part) G)\<rparr>)"
| drain: "fa_grants s = add_mset (i, a) G \<Longrightarrow> grant_drain N a = (rest, part)
    \<Longrightarrow> fair_step N s (s\<lparr>fa_grants := add_mset (i, rest) (add_mset (i, part) G)\<rparr>)"
| empty: "i < length (fa_lanes s)
    \<Longrightarrow> fair_step N s (s\<lparr>fa_grants := add_mset (i, grant_empty N) (fa_grants s)\<rparr>)"

definition granted :: "nat \<Rightarrow> nat \<Rightarrow> (nat \<times> 'w::len word vec) multiset \<Rightarrow> nat" where
  "granted i j G = (\<Sum>(k, a)\<in>#G. if k = i then unat (a ! j) else 0)"

definition over_reserve :: "nat \<Rightarrow> 'w::len word lane \<Rightarrow> nat" where
  "over_reserve j l = unat (ln_held l ! j) - unat (ln_reserve l ! j)"

definition fair_axis :: "nat \<Rightarrow> 'w::len word fair \<Rightarrow> bool" where
  "fair_axis j s \<longleftrightarrow>
     unat (po_shared (fa_pool s) ! j) + (\<Sum>l\<leftarrow>fa_lanes s. over_reserve j l)
       = unat (po_limit (fa_pool s) ! j) \<and>
     (\<forall>i<length (fa_lanes s). unat (ln_held (fa_lanes s ! i) ! j) = granted i j (fa_grants s))"

definition fair_shape :: "nat \<Rightarrow> 'v fair \<Rightarrow> bool" where
  "fair_shape N s \<longleftrightarrow> length (po_shared (fa_pool s)) = N \<and>
     (\<forall>l\<in>set (fa_lanes s). length (ln_held l) = N) \<and>
     (\<forall>(i, a)\<in>#fa_grants s. i < length (fa_lanes s) \<and> length a = N)"

definition fair_inv :: "nat \<Rightarrow> 'w::len word fair \<Rightarrow> bool" where
  "fair_inv N s \<longleftrightarrow> fair_shape N s \<and> (\<forall>j<N. fair_axis j s)"

lemma granted_simps [simp]:
  "granted i j {#} = 0"
  "granted i j (add_mset (k, a) G) = (if k = i then unat (a ! j) else 0) + granted i j G"
  by (simp_all add: granted_def)

text \<open>One acquisition and one release, seen on one axis of the issuing lane and the pool.\<close>

definition put_axis ::
  "nat \<Rightarrow> 'w::len word pool \<Rightarrow> 'w word lane \<Rightarrow> 'w word pool \<times> 'w word lane \<Rightarrow> nat \<Rightarrow> nat \<Rightarrow> bool" where
  "put_axis j p l pl add sub \<longleftrightarrow>
     po_limit (fst pl) = po_limit p \<and> ln_reserve (snd pl) = ln_reserve l \<and>
     unat (ln_held (snd pl) ! j) + sub = unat (ln_held l ! j) + add \<and>
     unat (po_shared (fst pl) ! j) + over_reserve j (snd pl)
       = unat (po_shared p ! j) + over_reserve j l"

lemma charge_try_new_Inr_iff:
  "charge_try_new N a p l = Inr pl \<longleftrightarrow>
    (\<forall>j<N. axis_fits (ln_held l ! j) (po_shared p ! j) (ln_reserve l ! j) (a ! j)) \<and>
    pl = lane_acquire_raw N a p l"
proof -
  let ?t = "try_acquire_axes [0..<N] (ln_reserve l) a (ln_held l, po_shared p)"
  let ?a = "acquire_axes [0..<N] (ln_reserve l) a (ln_held l, po_shared p)"
  let ?F = "\<forall>j<N. axis_fits (ln_held l ! j) (po_shared p ! j) (ln_reserve l ! j) (a ! j)"
  have eq: "?t = Inr b \<longleftrightarrow> ?F \<and> b = ?a" for b
    by (simp add: try_acquire_axes_iff Ball_def)
  show ?thesis
  proof (cases ?t)
    case (Inl e)
    then have "\<not> ?F" using eq [of ?a] by simp
    then show ?thesis using Inl by (auto simp: charge_try_new_def balance_try_acquire_def)
  next
    case (Inr b)
    then have "?F" "b = ?a" using eq [of b] by simp_all
    then show ?thesis using Inr
      by (auto simp: charge_try_new_def lane_acquire_raw_def balance_try_acquire_def
          balance_acquire_raw_def split: prod.splits)
  qed
qed

lemma charge_try_new_axis:
  assumes "charge_try_new N a p l = Inr pl" "j < N"
    and len: "length (ln_held l) = N" "length (po_shared p) = N"
  shows "put_axis j p l pl (unat (a ! j)) 0"
proof -
  obtain h s where hs: "acquire_axes [0..<N] (ln_reserve l) a (ln_held l, po_shared p) = (h, s)"
    by fastforce
  have pl: "pl = (p\<lparr>po_shared := s\<rparr>, l\<lparr>ln_held := h\<rparr>)"
    and fits: "axis_fits (ln_held l ! j) (po_shared p ! j) (ln_reserve l ! j) (a ! j)"
    using assms(1,2) hs
    by (auto simp: charge_try_new_Inr_iff lane_acquire_raw_def balance_acquire_raw_def)
  have "h ! j = ln_held l ! j + a ! j"
    and "s ! j = po_shared p ! j - required (ln_held l ! j) (ln_reserve l ! j) (a ! j)"
    using acquire_axes_nth [OF _ _ _ hs, of N] assms(2) len by (auto simp: balance_ok_def)
  then show ?thesis
    using fits unat_required [of "ln_held l ! j" "ln_reserve l ! j" "a ! j"]
    by (auto simp: put_axis_def over_reserve_def pl axis_fits_def unat_add_fits unat_sub
        word_le_nat_alt)
qed

lemma charge_drop_axis:
  assumes "j < N" "length (ln_held l) = N" "length (po_shared p) = N"
    and held: "unat (a ! j) \<le> unat (ln_held l ! j)"
    and room: "unat (po_shared p ! j) + over_reserve j l < 2 ^ LENGTH('w)"
  shows "put_axis j (p :: 'w::len word pool) l (charge_drop N a p l) 0 (unat (a ! j))"
proof -
  let ?r = "min (saturating_sub (ln_held l ! j) (ln_reserve l ! j)) (a ! j)"
  obtain h s where hs: "release_axes [0..<N] (ln_reserve l) a (ln_held l, po_shared p) = (h, s)"
    by fastforce
  have "h ! j = ln_held l ! j - a ! j" "s ! j = po_shared p ! j + ?r"
    using release_axes_nth [OF _ _ _ hs, of N] assms(1-3) by (auto simp: balance_ok_def)
  moreover have "unat (po_shared p ! j) + unat ?r < 2 ^ LENGTH('w)"
    using room by (simp add: unat_min unat_saturating_sub over_reserve_def)
  ultimately show ?thesis
    using held hs
    by (auto simp: put_axis_def over_reserve_def charge_drop_def balance_release_raw_def
        unat_add_fits unat_min unat_saturating_sub unat_sub word_le_nat_alt)
qed

lemma charge_shape:
  assumes "length (ln_held l) = N" "length (po_shared p) = N"
  shows "charge_try_new N a p l = Inr pl \<Longrightarrow>
      length (ln_held (snd pl)) = N \<and> length (po_shared (fst pl)) = N"
    and "length (ln_held (snd (charge_drop N a p l))) = N \<and>
      length (po_shared (fst (charge_drop N a p l))) = N"
proof -
  obtain h s where hs: "acquire_axes [0..<N] (ln_reserve l) a (ln_held l, po_shared p) = (h, s)"
    by fastforce
  show "length (ln_held (snd pl)) = N \<and> length (po_shared (fst pl)) = N"
    if "charge_try_new N a p l = Inr pl"
    using that acquire_axes_nth [OF _ _ _ hs, of N] assms hs
    by (auto simp: charge_try_new_Inr_iff lane_acquire_raw_def balance_acquire_raw_def balance_ok_def)
  obtain h s where hs: "release_axes [0..<N] (ln_reserve l) a (ln_held l, po_shared p) = (h, s)"
    by fastforce
  show "length (ln_held (snd (charge_drop N a p l))) = N \<and>
      length (po_shared (fst (charge_drop N a p l))) = N"
    using release_axes_nth [OF _ _ _ hs, of N] assms hs
    by (auto simp: charge_drop_def balance_release_raw_def balance_ok_def)
qed

lemma sum_over_update:
  fixes f :: "'a \<Rightarrow> nat"
  assumes "i < length xs"
  shows "(\<Sum>x\<leftarrow>xs[i := y]. f x) + f (xs ! i) = (\<Sum>x\<leftarrow>xs. f x) + f y"
  using sum_list_update_nat [of i "map f xs" "f y"] assms by (simp add: map_update)

lemma sum_over_ge:
  fixes f :: "'a \<Rightarrow> nat"
  assumes "i < length xs"
  shows "f (xs ! i) \<le> (\<Sum>x\<leftarrow>xs. f x)"
  using assms by (intro member_le_sum_list) auto

lemma fair_axis_put:
  assumes axis: "fair_axis j s" and i: "i < length (fa_lanes s)"
    and put: "put_axis j (fa_pool s) (fa_lanes s ! i) pl add sub"
    and grants: "\<And>k. granted k j G + (if k = i then sub else 0) =
        granted k j (fa_grants s) + (if k = i then add else 0)"
  shows "fair_axis j (fair_put i pl G s)"
proof -
  have "(\<Sum>l\<leftarrow>(fa_lanes s)[i := snd pl]. over_reserve j l) + over_reserve j (fa_lanes s ! i)
      = (\<Sum>l\<leftarrow>fa_lanes s. over_reserve j l) + over_reserve j (snd pl)"
    using i by (rule sum_over_update)
  then have "unat (po_shared (fst pl) ! j) + (\<Sum>l\<leftarrow>(fa_lanes s)[i := snd pl]. over_reserve j l)
      = unat (po_limit (fst pl) ! j)"
    using axis put by (simp add: fair_axis_def put_axis_def)
  moreover have "unat (ln_held ((fa_lanes s)[i := snd pl] ! k) ! j) = granted k j G"
    if "k < length (fa_lanes s)" for k
    using axis put grants [of k] i that
    by (auto simp: fair_axis_def put_axis_def nth_list_update)
  ultimately show ?thesis by (simp add: fair_axis_def fair_put_def)
qed

lemma fair_shape_put:
  assumes "fair_shape N s" "i < length (fa_lanes s)" "length (ln_held (snd pl)) = N"
    and "length (po_shared (fst pl)) = N" "\<forall>(k, a)\<in>#G. k < length (fa_lanes s) \<and> length a = N"
  shows "fair_shape N (fair_put i pl G s)"
  using assms set_update_subset_insert [of "fa_lanes s" i "snd pl"]
  by (auto simp: fair_shape_def fair_put_def)

lemma fair_inv_start:
  assumes "length surplus = N"
  shows "fair_inv N (fair_start N surplus reserves)"
proof -
  have "(\<Sum>l\<leftarrow>map (lane_new N) reserves. over_reserve j l) = 0" if "j < N" for j
    using that by (induction reserves) (simp_all add: lane_new_def over_reserve_def)
  then show ?thesis
    using assms
    by (auto simp: fair_inv_def fair_shape_def fair_axis_def fair_start_def pool_new_def lane_new_def)
qed

lemma unat_word_wrapping_add:
  fixes a b :: "'w::len word"
  assumes "LENGTH('w) \<le> 64" "unat a + unat b < 2 ^ LENGTH('w)"
  shows "unat (word_wrapping_add a b) = unat a + unat b"
  using assms by (simp add: word_wrapping_add_eq unat_add_fits)

lemma fair_axis_grants:
  assumes "fair_axis j s" "\<And>k. granted k j G = granted k j (fa_grants s)"
  shows "fair_axis j (s\<lparr>fa_grants := G\<rparr>)"
  using assms by (simp add: fair_axis_def)

lemma fair_inv_step:
  fixes s :: "'w::len word fair"
  assumes "fair_step N s t" "fair_inv N s" "LENGTH('w) \<le> 64"
  shows "fair_inv N t"
  using assms(1)
proof cases
  case (acquire i a pl)
  note len = assms(2)[unfolded fair_inv_def fair_shape_def]
  have l: "length (ln_held (fa_lanes s ! i)) = N" "length (po_shared (fa_pool s)) = N"
    using len acquire(2) by auto
  have "fair_shape N (fair_put i pl (add_mset (i, a) (fa_grants s)) s)"
    using charge_shape(1) [OF l acquire(4)] assms(2) acquire(2,3)
    by (intro fair_shape_put) (auto simp: fair_inv_def fair_shape_def)
  moreover have "fair_axis j (fair_put i pl (add_mset (i, a) (fa_grants s)) s)" if "j < N" for j
    using charge_try_new_axis [OF acquire(4) that l] assms(2) acquire(2) that
    by (intro fair_axis_put) (auto simp: fair_inv_def)
  ultimately show ?thesis using acquire(1) by (simp add: fair_inv_def)
next
  case (release i a G)
  have i: "i < length (fa_lanes s)" and a: "length a = N"
    and l: "length (ln_held (fa_lanes s ! i)) = N" "length (po_shared (fa_pool s)) = N"
    using assms(2) release(2) by (auto simp: fair_inv_def fair_shape_def)
  have "put_axis j (fa_pool s) (fa_lanes s ! i) (charge_drop N a (fa_pool s) (fa_lanes s ! i))
      0 (unat (a ! j))" if j: "j < N" for j
  proof (rule charge_drop_axis [OF j l])
    have ax: "fair_axis j s" using assms(2) j by (simp add: fair_inv_def)
    then show "unat (a ! j) \<le> unat (ln_held (fa_lanes s ! i) ! j)"
      using i release(2) by (simp add: fair_axis_def)
    show "unat (po_shared (fa_pool s) ! j) + over_reserve j (fa_lanes s ! i) < 2 ^ LENGTH('w)"
    proof -
      have "unat (po_shared (fa_pool s) ! j) + over_reserve j (fa_lanes s ! i)
          \<le> unat (po_limit (fa_pool s) ! j)"
        using ax sum_over_ge [OF i, of "over_reserve j"] by (simp add: fair_axis_def)
      then show ?thesis using unat_bound le_less_trans by blast
    qed
  qed
  then have "fair_axis j (fair_put i (charge_drop N a (fa_pool s) (fa_lanes s ! i)) G s)"
    if "j < N" for j
    using assms(2) that i release(2) by (intro fair_axis_put) (auto simp: fair_inv_def)
  moreover have "fair_shape N (fair_put i (charge_drop N a (fa_pool s) (fa_lanes s ! i)) G s)"
    using charge_shape(2) [OF l] i assms(2) release(2)
    by (intro fair_shape_put) (auto simp: fair_inv_def fair_shape_def)
  ultimately show ?thesis using release(1) by (simp add: fair_inv_def)
next
  case (merge i a b G)
  have i: "i < length (fa_lanes s)" using assms(2) merge(2) by (auto simp: fair_inv_def fair_shape_def)
  have "unat (grant_merge N a b ! j) = unat (a ! j) + unat (b ! j)" if "j < N" for j
  proof -
    have "unat (ln_held (fa_lanes s ! i) ! j) = granted i j (fa_grants s)"
      using assms(2) that i by (simp add: fair_inv_def fair_axis_def)
    then have "unat (a ! j) + unat (b ! j) \<le> unat (ln_held (fa_lanes s ! i) ! j)"
      using merge(2) by simp
    then have "unat (a ! j) + unat (b ! j) < 2 ^ LENGTH('w)"
      using unat_bound le_less_trans by blast
    then show ?thesis
      using that assms(3) by (simp add: grant_merge_def add_raw_def unat_word_wrapping_add)
  qed
  with merge assms(2) show ?thesis
    by (auto simp: fair_inv_def fair_shape_def grant_merge_def add_raw_def intro!: fair_axis_grants)
next
  case (split i a G parts rest part)
  then show ?thesis
    using assms(2)
    by (auto simp: fair_inv_def fair_shape_def grant_split_def partition_exact_def
        intro!: fair_axis_grants split: prod.splits)
next
  case (drain i a G rest part)
  then show ?thesis
    using assms(2)
    by (auto simp: fair_inv_def fair_shape_def grant_drain_def grant_empty_def
        intro!: fair_axis_grants)
next
  case (empty i)
  then show ?thesis
    using assms(2)
    by (auto simp: fair_inv_def fair_shape_def grant_empty_def intro!: fair_axis_grants)
qed

lemma fair_inv_reach:
  fixes s :: "'w::len word fair"
  assumes "(fair_step N)\<^sup>*\<^sup>* (fair_start N surplus reserves) s" "length surplus = N" "LENGTH('w) \<le> 64"
  shows "fair_inv N s"
  using assms(1)
  by (induction rule: rtranclp_induct) (use assms in \<open>auto intro: fair_inv_start fair_inv_step\<close>)

text \<open>The axis a denial names is the first that does not fit, with the amounts it had.\<close>

lemma try_acquire_axes_Inl:
  assumes "distinct axes" "try_acquire_axes axes reserve amount (held, shared) = Inl e"
  shows "\<exists>xs i ys. axes = xs @ i # ys \<and>
    (\<forall>j\<in>set xs. axis_fits (held ! j) (shared ! j) (reserve ! j) (amount ! j)) \<and>
    (e = Overflow i (held ! i) (amount ! i) \<and> checked_add (held ! i) (amount ! i) = None \<or>
     e = Exhausted i (required (held ! i) (reserve ! i) (amount ! i)) (shared ! i) \<and>
       checked_add (held ! i) (amount ! i) \<noteq> None \<and>
       shared ! i < required (held ! i) (reserve ! i) (amount ! i))"
  using assms
proof (induction axes arbitrary: held shared)
  case (Cons i axes)
  let ?h = "held[i := held ! i + amount ! i]"
  let ?s = "shared[i := shared ! i - required (held ! i) (reserve ! i) (amount ! i)]"
  show ?case
  proof (cases "axis_fits (held ! i) (shared ! i) (reserve ! i) (amount ! i)")
    case True
    then have "try_acquire_axes axes reserve amount (?h, ?s) = Inl e"
      using Cons.prems(2) by (simp add: Let_def checked_add_def axis_fits_def flip: not_le)
    from Cons.IH [OF _ this] Cons.prems(1) obtain xs k ys where ax: "axes = xs @ k # ys"
      and fits: "\<forall>j\<in>set xs. axis_fits (?h ! j) (?s ! j) (reserve ! j) (amount ! j)"
      and e: "e = Overflow k (?h ! k) (amount ! k) \<and> checked_add (?h ! k) (amount ! k) = None \<or>
        e = Exhausted k (required (?h ! k) (reserve ! k) (amount ! k)) (?s ! k) \<and>
          checked_add (?h ! k) (amount ! k) \<noteq> None \<and>
          ?s ! k < required (?h ! k) (reserve ! k) (amount ! k)"
      by auto
    have ne: "i \<notin> set xs" "i \<noteq> k" using ax Cons.prems(1) by auto
    have "\<forall>j\<in>set (i # xs). axis_fits (held ! j) (shared ! j) (reserve ! j) (amount ! j)"
      using fits True ne(1)
        ball_list_update [of i xs "\<lambda>j h s. axis_fits h s (reserve ! j) (amount ! j)" held _ shared]
      by simp
    moreover have "i # axes = (i # xs) @ k # ys" using ax by simp
    ultimately show ?thesis using e ne(2) by (intro exI [of _ "i # xs"] exI [of _ k] exI [of _ ys]) simp
  next
    case False
    then show ?thesis
      using Cons.prems(2)
      by (intro exI [of _ "[]"] exI [of _ i] exI [of _ axes])
        (auto simp: Let_def checked_add_def axis_fits_def split: if_splits)
  qed
qed simp

lemma upt_split:
  assumes "[0..<N] = xs @ i # ys"
  shows "i < N \<and> set xs = {0..<i}"
proof -
  have n: "length xs + 1 + length ys = N" using arg_cong [OF assms, of length] by simp
  have "i = [0..<N] ! length xs" by (simp add: assms)
  then have i: "i = length xs" using n by simp
  have "xs = take (length xs) [0..<N]" by (simp add: assms)
  then have "xs = [0..<i]" using n i by (simp add: take_upt)
  then have "set xs = {0..<i}" using arg_cong [of xs "[0..<i]" set] by simp
  then show ?thesis using n i by simp
qed

section \<open>Properties\<close>

text \<open>C2: in every reachable state, on every axis, the shared surplus plus what each lane holds
  beyond its reserve is the pool's limit, and each lane holds exactly the sum of the grants it
  issued that are still alive, for words of any width up to 64 bits.\<close>

theorem fair_conservation:
  fixes s :: "'w::len word fair"
  assumes "(fair_step N)\<^sup>*\<^sup>* (fair_start N surplus reserves) s"
    and "length surplus = N" "LENGTH('w) \<le> 64" "j < N"
  shows "unat (po_shared (fa_pool s) ! j) + (\<Sum>l\<leftarrow>fa_lanes s. over_reserve j l)
      = unat (po_limit (fa_pool s) ! j) \<and>
    (\<forall>i<length (fa_lanes s). unat (ln_held (fa_lanes s ! i) ! j) = granted i j (fa_grants s))"
  using fair_inv_reach [OF assms(1-3)] assms(4) by (simp add: fair_inv_def fair_axis_def)

definition fair_example :: "32 word fair" where
  "fair_example = \<lparr>fa_pool = \<lparr>po_shared = [7], po_limit = [9]\<rparr>,
     fa_lanes = [\<lparr>ln_reserve = [4], ln_held = [6]\<rparr>], fa_grants = {#(0, [6])#}\<rparr>"

lemma fair_example_reached:
  "(fair_step 1)\<^sup>*\<^sup>* (fair_start 1 [9] [[4]]) fair_example"
proof -
  let ?s = "fair_start 1 [9 :: 32 word] [[4]]"
  let ?pl = "(\<lparr>po_shared = [7 :: 32 word], po_limit = [9]\<rparr>, \<lparr>ln_reserve = [4 :: 32 word], ln_held = [6]\<rparr>)"
  have "fair_step 1 ?s (fair_put 0 ?pl (add_mset (0, [6]) (fa_grants ?s)) ?s)"
    by (rule fair_step.acquire)
      (simp_all add: charge_try_new_def balance_try_acquire_def pool_new_def lane_new_def
        fair_start_def checked_add_def required_def saturating_sub_def Let_def)
  then have "fair_step 1 ?s fair_example"
    by (simp add: fair_start_def fair_put_def fair_example_def)
  then show ?thesis by (rule r_into_rtranclp)
qed

theorem fair_conservation_witness:
  "unat (po_shared (fa_pool fair_example) ! 0) +
     (\<Sum>l\<leftarrow>fa_lanes fair_example. over_reserve 0 l) = 9"
  using fair_conservation [OF fair_example_reached, of 0] by (simp add: fair_example_def)

lemma fair_admission_parts:
  fixes p :: "'w::len word pool"
  shows "(\<exists>pl. charge_try_new N a p l = Inr pl) \<longleftrightarrow>
      (\<forall>j<N. unat (ln_held l ! j) + unat (a ! j) < 2 ^ LENGTH('w) \<and>
        unat (a ! j) - (unat (ln_reserve l ! j) - unat (ln_held l ! j)) \<le> unat (po_shared p ! j))"
    and "\<forall>j<N. unat (ln_held l ! j) + unat (a ! j) \<le> unat (ln_reserve l ! j) \<Longrightarrow>
      \<exists>pl. charge_try_new N a p l = Inr pl"
    and "charge_try_new N a p l = Inl (a', e) \<Longrightarrow> a' = a \<and> cause_axis e < N \<and>
      \<not> axis_fits (ln_held l ! cause_axis e) (po_shared p ! cause_axis e)
          (ln_reserve l ! cause_axis e) (a ! cause_axis e) \<and>
      (\<forall>j<cause_axis e. axis_fits (ln_held l ! j) (po_shared p ! j) (ln_reserve l ! j) (a ! j))"
proof -
  show iff: "(\<exists>pl. charge_try_new N a p l = Inr pl) \<longleftrightarrow>
      (\<forall>j<N. unat (ln_held l ! j) + unat (a ! j) < 2 ^ LENGTH('w) \<and>
        unat (a ! j) - (unat (ln_reserve l ! j) - unat (ln_held l ! j)) \<le> unat (po_shared p ! j))"
    by (simp add: charge_try_new_Inr_iff axis_fits_def word_le_nat_alt unat_required)
  show "\<exists>pl. charge_try_new N a p l = Inr pl"
    if within: "\<forall>j<N. unat (ln_held l ! j) + unat (a ! j) \<le> unat (ln_reserve l ! j)"
  proof -
    have "unat (ln_held l ! j) + unat (a ! j) < 2 ^ LENGTH('w)" if "j < N" for j
      using that within unat_bound le_less_trans by blast
    moreover have "unat (a ! j) - (unat (ln_reserve l ! j) - unat (ln_held l ! j)) = 0"
      if "j < N" for j
    proof -
      have "unat (ln_held l ! j) + unat (a ! j) \<le> unat (ln_reserve l ! j)"
        using that within by blast
      then show ?thesis by linarith
    qed
    ultimately show ?thesis unfolding iff by simp
  qed
  assume "charge_try_new N a p l = Inl (a', e)"
  then have a: "a' = a" and
    ax: "try_acquire_axes [0..<N] (ln_reserve l) a (ln_held l, po_shared p) = Inl e"
    by (auto simp: charge_try_new_def balance_try_acquire_def split: sum.splits)
  from try_acquire_axes_Inl [OF distinct_upt ax] obtain xs i ys where
    split: "[0..<N] = xs @ i # ys" and
    fits: "\<forall>j\<in>set xs. axis_fits (ln_held l ! j) (po_shared p ! j) (ln_reserve l ! j) (a ! j)" and
    e: "e = Overflow i (ln_held l ! i) (a ! i) \<and> checked_add (ln_held l ! i) (a ! i) = None \<or>
     e = Exhausted i (required (ln_held l ! i) (ln_reserve l ! i) (a ! i)) (po_shared p ! i) \<and>
       checked_add (ln_held l ! i) (a ! i) \<noteq> None \<and>
       po_shared p ! i < required (ln_held l ! i) (ln_reserve l ! i) (a ! i)"
    by blast
  have i: "cause_axis e = i" using e by fastforce
  have "\<not> axis_fits (ln_held l ! i) (po_shared p ! i) (ln_reserve l ! i) (a ! i)"
    using e by (auto simp: axis_fits_def checked_add_None_iff)
  with upt_split [OF split] fits i a
  show "a' = a \<and> cause_axis e < N \<and>
      \<not> axis_fits (ln_held l ! cause_axis e) (po_shared p ! cause_axis e)
          (ln_reserve l ! cause_axis e) (a ! cause_axis e) \<and>
      (\<forall>j<cause_axis e. axis_fits (ln_held l ! j) (po_shared p ! j) (ln_reserve l ! j) (a ! j))"
    by simp
qed

text \<open>C3: a request is admitted exactly when on every axis the lane's sum fits the word and what it
  needs beyond its unused reserve is in the shared surplus; a request within the reserve is
  always admitted; a denial returns the request and names the first axis that fails.\<close>

theorem fair_admission:
  fixes p :: "'w::len word pool"
  shows "((\<exists>pl. charge_try_new N a p l = Inr pl) \<longleftrightarrow>
      (\<forall>j<N. unat (ln_held l ! j) + unat (a ! j) < 2 ^ LENGTH('w) \<and>
        unat (a ! j) - (unat (ln_reserve l ! j) - unat (ln_held l ! j)) \<le> unat (po_shared p ! j))) \<and>
    ((\<forall>j<N. unat (ln_held l ! j) + unat (a ! j) \<le> unat (ln_reserve l ! j)) \<longrightarrow>
      (\<exists>pl. charge_try_new N a p l = Inr pl)) \<and>
    (\<forall>a' e. charge_try_new N a p l = Inl (a', e) \<longrightarrow> a' = a \<and> cause_axis e < N \<and>
      \<not> axis_fits (ln_held l ! cause_axis e) (po_shared p ! cause_axis e)
          (ln_reserve l ! cause_axis e) (a ! cause_axis e) \<and>
      (\<forall>j<cause_axis e. axis_fits (ln_held l ! j) (po_shared p ! j) (ln_reserve l ! j) (a ! j)))"
proof (intro conjI impI allI)
  fix a' e assume "charge_try_new N a p l = Inl (a', e)"
  note den = fair_admission_parts(3) [OF this]
  show "a' = a" "cause_axis e < N" using den by blast+
  show "\<not> axis_fits (ln_held l ! cause_axis e) (po_shared p ! cause_axis e)
      (ln_reserve l ! cause_axis e) (a ! cause_axis e)" using den by blast
  show "axis_fits (ln_held l ! j) (po_shared p ! j) (ln_reserve l ! j) (a ! j)"
    if "j < cause_axis e" for j using den that by blast
qed (rule fair_admission_parts(1), rule fair_admission_parts(2))

theorem fair_admission_witness:
  "(\<exists>pl. charge_try_new 2 [3, 1] \<lparr>po_shared = [0, 0], po_limit = [5, 5]\<rparr>
      \<lparr>ln_reserve = [7, 1], ln_held = [4, 0 :: 32 word]\<rparr> = Inr pl) \<and>
   charge_try_new 2 [3, 2] \<lparr>po_shared = [0, 0], po_limit = [5, 5]\<rparr>
      \<lparr>ln_reserve = [7, 1], ln_held = [4, 0 :: 32 word]\<rparr> = Inl ([3, 2], Exhausted 1 1 0)"
proof
  show "\<exists>pl. charge_try_new 2 [3, 1] \<lparr>po_shared = [0, 0], po_limit = [5, 5]\<rparr>
      \<lparr>ln_reserve = [7, 1], ln_held = [4, 0 :: 32 word]\<rparr> = Inr pl"
    using fair_admission [of 2 "[3, 1]" "\<lparr>po_shared = [0, 0], po_limit = [5, 5]\<rparr>"
        "\<lparr>ln_reserve = [7, 1], ln_held = [4, 0 :: 32 word]\<rparr>"]
    by (simp add: less_2_cases_iff)
  show "charge_try_new 2 [3, 2] \<lparr>po_shared = [0, 0], po_limit = [5, 5]\<rparr>
      \<lparr>ln_reserve = [7, 1], ln_held = [4, 0 :: 32 word]\<rparr> = Inl ([3, 2], Exhausted 1 1 0)"
    by (simp add: charge_try_new_def balance_try_acquire_def upt_rec checked_add_def required_def
        saturating_sub_def Let_def)
qed

text \<open>dropping a charge right after it was acquired restores the pool and the lane.\<close>

theorem fair_acquire_drop:
  assumes "charge_try_new N a p l = Inr (p', l')"
    and "length (ln_held l) = N" "length (po_shared p) = N"
  shows "charge_drop N a p' l' = (p, l)"
proof -
  let ?r = "\<lambda>j. required (ln_held l ! j) (ln_reserve l ! j) (a ! j)"
  obtain h s where hs: "acquire_axes [0..<N] (ln_reserve l) a (ln_held l, po_shared p) = (h, s)"
    by fastforce
  have pl: "p' = p\<lparr>po_shared := s\<rparr>" "l' = l\<lparr>ln_held := h\<rparr>"
    and fits: "\<And>j. j < N \<Longrightarrow> axis_fits (ln_held l ! j) (po_shared p ! j) (ln_reserve l ! j) (a ! j)"
    using assms(1) hs by (auto simp: charge_try_new_Inr_iff lane_acquire_raw_def balance_acquire_raw_def)
  have ok: "balance_ok N (h, s)" and at: "\<And>j. j < N \<Longrightarrow> h ! j = ln_held l ! j + a ! j \<and> s ! j = po_shared p ! j - ?r j"
    using acquire_axes_nth [OF _ _ _ hs, of N] assms(2,3) by (auto simp: balance_ok_def)
  obtain h2 s2 where hs2: "release_axes [0..<N] (ln_reserve l) a (h, s) = (h2, s2)"
    by fastforce
  have rel: "balance_ok N (h2, s2)" "\<And>j. j < N \<Longrightarrow> h2 ! j = h ! j - a ! j \<and>
      s2 ! j = s ! j + min (saturating_sub (h ! j) (ln_reserve l ! j)) (a ! j)"
    using release_axes_nth [OF _ _ ok hs2] by auto
  have "min (saturating_sub (h ! j) (ln_reserve l ! j)) (a ! j) = ?r j" if "j < N" for j
    using at [OF that] fits [OF that]
    by (auto simp: word_unat_eq_iff unat_min unat_saturating_sub unat_required axis_fits_def unat_add_fits)
  then have "h2 = ln_held l" "s2 = po_shared p"
    using rel at assms(2,3) by (auto simp: balance_ok_def list_eq_iff_nth_eq)
  then show ?thesis
    using hs2 by (simp add: charge_drop_def balance_release_raw_def pl)
qed

theorem fair_acquire_drop_witness:
  "charge_drop 1 [3] \<lparr>po_shared = [6], po_limit = [8]\<rparr> \<lparr>ln_reserve = [1], ln_held = [3 :: 32 word]\<rparr>
     = (\<lparr>po_shared = [8], po_limit = [8]\<rparr>, \<lparr>ln_reserve = [1], ln_held = [0]\<rparr>)"
  by (rule fair_acquire_drop)
    (simp_all add: charge_try_new_def balance_try_acquire_def checked_add_def required_def
      saturating_sub_def Let_def)

text \<open>where limit and reserve together fit the word, \<open>fits\<close> decides whether the idle pool would
  admit the request in that lane.\<close>

theorem fair_fits_idle:
  fixes surplus :: "'w::len word vec"
  assumes "LENGTH('w) \<le> 64" "\<forall>j<N. unat (surplus ! j) + unat (reserve ! j) < 2 ^ LENGTH('w)"
  shows "lane_fits N a (pool_new surplus) (lane_new N reserve) \<longleftrightarrow>
    (\<exists>pl. charge_try_new N a (pool_new surplus) (lane_new N reserve) = Inr pl)"
proof -
  have "a ! j \<le> word_wrapping_add (surplus ! j) (reserve ! j) \<longleftrightarrow>
      axis_fits 0 (surplus ! j) (reserve ! j) (a ! j)" if "j < N" for j
    using that assms by (auto simp: axis_fits_def word_le_nat_alt unat_word_wrapping_add unat_required)
  then show ?thesis
    by (auto simp: lane_fits_def charge_try_new_Inr_iff list_all_iff pool_new_def lane_new_def)
qed

theorem fair_fits_idle_witness:
  "lane_fits 1 [12] (pool_new [9]) (lane_new 1 [3 :: 32 word]) \<longleftrightarrow>
    (\<exists>pl. charge_try_new 1 [12] (pool_new [9]) (lane_new 1 [3 :: 32 word]) = Inr pl)"
  by (rule fair_fits_idle) simp_all

end
