(* ===== verification/O3_Refcount.thy ===== *)
theory O3_Refcount
  imports O3_Fair
begin

text \<open>
  Thread-local reference counting (src/src/mem/rc.rs, src/src/mem/raw/state/live.rs, the \<open>Edge\<close>
  operations of src/src/mem/raw/mod.rs and \<open>Owner\<close> of src/src/mem/raw/owner/mod.rs). The count is
  a word of any width up to \<open>usize\<close>. The owners alive and how often the finalizer ran are part
  of the state of a domain, so that the count can be compared with them.
\<close>

section \<open>Live counts\<close>

datatype rc_error = Exhausted

datatype rc_release = Shared | Last

definition live_try_retain :: "'w::len word \<Rightarrow> rc_error + 'w word" where
  "live_try_retain v = (case checked_add v 1 of None \<Rightarrow> Inl Exhausted | Some n \<Rightarrow> Inr n)"

definition live_release :: "'w::len word \<Rightarrow> 'w word option" where
  "live_release v = (let n = word_wrapping_sub v 1 in if n = 0 then None else Some n)"

section \<open>Edges\<close>

definition edge_is_empty :: "'w::len word \<Rightarrow> bool" where
  "edge_is_empty c = (c = 0)"

definition edge_is_unique :: "'w::len word \<Rightarrow> bool" where
  "edge_is_unique c = (c = 1)"

definition edge_activate :: "'w::len word \<Rightarrow> 'w word" where
  "edge_activate c = 1"

definition edge_start_pair :: "'w::len word \<Rightarrow> 'w word" where
  "edge_start_pair c = 2"

definition edge_retire :: "'w::len word \<Rightarrow> 'w word" where
  "edge_retire c = 0"

definition edge_try_retain :: "'w::len word \<Rightarrow> rc_error + 'w word" where
  "edge_try_retain c =
     (case live_try_retain c of Inl e \<Rightarrow> Inl e | Inr n \<Rightarrow> Inr n)"

definition edge_release :: "'w::len word \<Rightarrow> rc_release \<times> 'w word" where
  "edge_release c =
     (case live_release c of None \<Rightarrow> (Last, 0) | Some n \<Rightarrow> (Shared, n))"

section \<open>Owners\<close>

text \<open>
  A domain: the embedded count, the owners alive and the runs of the target's finalizer.
  \<open>Owner::try_clone\<close> makes one more owner or none; dropping an owner may run the finalizer.
\<close>

record 'v domain =
  dm_count :: 'v
  dm_owners :: nat
  dm_destroyed :: nat

definition owner_try_clone :: "'w::len word domain \<Rightarrow> rc_error + 'w word domain" where
  "owner_try_clone d =
     (case edge_try_retain (dm_count d) of
        Inl e \<Rightarrow> Inl e
      | Inr n \<Rightarrow> Inr (d\<lparr>dm_count := n, dm_owners := Suc (dm_owners d)\<rparr>))"

definition owner_drop :: "'w::len word domain \<Rightarrow> 'w word domain" where
  "owner_drop d =
     (case edge_release (dm_count d) of
        (Last, n) \<Rightarrow> d\<lparr>dm_count := n, dm_owners := dm_owners d - 1, dm_destroyed := Suc (dm_destroyed d)\<rparr>
      | (Shared, n) \<Rightarrow> d\<lparr>dm_count := n, dm_owners := dm_owners d - 1\<rparr>)"

definition domain_one :: "'w::len word domain" where
  "domain_one = \<lparr>dm_count = edge_activate 0, dm_owners = 1, dm_destroyed = 0\<rparr>"

definition domain_pair :: "'w::len word domain" where
  "domain_pair = \<lparr>dm_count = edge_start_pair 0, dm_owners = 2, dm_destroyed = 0\<rparr>"

inductive domain_step :: "'w::len word domain \<Rightarrow> 'w word domain \<Rightarrow> bool" where
  clone: "0 < dm_owners d \<Longrightarrow> owner_try_clone d = Inr d' \<Longrightarrow> domain_step d d'"
| drop: "0 < dm_owners d \<Longrightarrow> domain_step d (owner_drop d)"

lemma word_wrapping_sub_one:
  fixes v :: "'w::len word"
  assumes "LENGTH('w) \<le> 64" "v \<noteq> 0"
  shows "unat (word_wrapping_sub v 1) = unat v - 1"
proof -
  have w: "unat (ucast c :: usize) = unat c" for c :: "'w word"
    using assms by (intro unat_ucast_widen) simp
  have "0 < unat v" using assms(2) by (simp add: unat_gt_0)
  then have le: "(ucast (1 :: 'w word) :: usize) \<le> ucast v"
    by (simp only: word_le_nat_alt w) simp
  have "unat (ucast v - ucast (1 :: 'w word) :: usize) = unat v - 1"
    using unat_sub [OF le] by (simp only: w) simp
  moreover have "unat v - 1 < 2 ^ LENGTH('w)"
    using unat_bound [of v] by (rule le_less_trans [rotated]) simp
  ultimately show ?thesis
    unfolding word_wrapping_sub_def by (subst unat_ucast_narrow) simp_all
qed

lemma edge_release_eq:
  fixes c :: "'w::len word"
  assumes "LENGTH('w) \<le> 64" "c \<noteq> 0"
  shows "unat (snd (edge_release c)) = unat c - 1"
    and "fst (edge_release c) = Last \<longleftrightarrow> unat c = 1"
  using word_wrapping_sub_one [OF assms] assms(2)
  by (auto simp: edge_release_def live_release_def Let_def word_unat_eq_iff split: if_splits)

definition domain_inv :: "'w::len word domain \<Rightarrow> bool" where
  "domain_inv d \<longleftrightarrow> unat (dm_count d) = dm_owners d \<and>
     dm_destroyed d = (if dm_owners d = 0 then 1 else 0)"

lemma domain_inv_step:
  fixes d :: "'w::len word domain"
  assumes "domain_step d d'" "domain_inv d" "LENGTH('w) \<le> 64"
  shows "domain_inv d'"
  using assms(1)
proof cases
  case clone
  then show ?thesis
    using assms(2)
    by (auto simp: owner_try_clone_def edge_try_retain_def live_try_retain_def domain_inv_def
        dest!: checked_add_SomeD split: sum.splits option.splits)
next
  case drop
  then have "dm_count d \<noteq> 0" using assms(2) by (auto simp: domain_inv_def)
  from edge_release_eq [OF assms(3) this] drop assms(2) show ?thesis
    by (auto simp: owner_drop_def domain_inv_def split: prod.splits rc_release.splits)
qed

lemma domain_inv_reach:
  fixes d :: "'w::len word domain"
  assumes "domain_step\<^sup>*\<^sup>* d d'" "domain_inv d" "LENGTH('w) \<le> 64"
  shows "domain_inv d'"
  using assms by (induction rule: rtranclp_induct) (auto intro: domain_inv_step)

text \<open>Two owners need two bits of count, so the pair start is meant for such words.\<close>

lemma domain_inv_one: "domain_inv domain_one"
  by (simp add: domain_inv_def domain_one_def edge_activate_def)

lemma domain_inv_pair: "2 \<le> LENGTH('w) \<Longrightarrow> domain_inv (domain_pair :: 'w::len word domain)"
proof -
  assume "2 \<le> LENGTH('w)"
  then have "(2::nat) ^ 2 \<le> 2 ^ LENGTH('w)" by (rule power_increasing) simp
  then have "unat (word_of_nat 2 :: 'w word) = 2" by (intro unat_of_nat_fits) simp
  then show ?thesis by (simp add: domain_inv_def domain_pair_def edge_start_pair_def)
qed

section \<open>Properties\<close>

text \<open>C31: however owners are cloned and dropped, the count is the number of owners alive; the
  finalizer runs once, with the last owner, and never while one is alive; a clone is refused
  exactly when the count is the largest word, and changes nothing then.\<close>

theorem refcount_exact:
  fixes d :: "'w::len word domain"
  assumes "domain_step\<^sup>*\<^sup>* domain_one d \<or> domain_step\<^sup>*\<^sup>* domain_pair d"
    and "2 \<le> LENGTH('w)" "LENGTH('w) \<le> 64"
  shows "unat (dm_count d) = dm_owners d \<and>
    dm_destroyed d = (if dm_owners d = 0 then 1 else 0) \<and>
    (owner_try_clone d = Inl Exhausted \<longleftrightarrow> dm_owners d = 2 ^ LENGTH('w) - 1)"
proof -
  have "domain_inv d"
    using assms domain_inv_one domain_inv_pair domain_inv_reach by blast
  moreover have "owner_try_clone d = Inl Exhausted \<longleftrightarrow> 2 ^ LENGTH('w) \<le> unat (dm_count d) + 1"
    using checked_add_None_iff [of "dm_count d" 1]
    by (auto simp: owner_try_clone_def edge_try_retain_def live_try_retain_def
        split: option.splits)
  moreover have "unat (dm_count d) < 2 ^ LENGTH('w)" by (rule unat_bound)
  ultimately show ?thesis by (auto simp: domain_inv_def)
qed

theorem refcount_exact_witness:
  "unat (dm_count (owner_drop domain_one :: 32 word domain)) = 0 \<and>
   dm_destroyed (owner_drop domain_one :: 32 word domain) = 1"
proof -
  have step: "domain_step (domain_one :: 32 word domain) (owner_drop domain_one)"
    by (rule domain_step.drop) (simp add: domain_one_def)
  have "dm_owners (owner_drop domain_one :: 32 word domain) = 0"
    by (simp add: owner_drop_def domain_one_def split: prod.splits rc_release.splits)
  with refcount_exact [of "owner_drop domain_one :: 32 word domain"] step show ?thesis
    by (simp add: r_into_rtranclp)
qed

end
