(* ===== verification/O3_Links.thy ===== *)
theory O3_Links
  imports O3_Prelude
begin

text \<open>
  Intrusive indexed topologies: compact indices and hooks, the doubly linked chain, the circular
  order, the head-only list and the free list (src/src/depot/queue/links/), with the prepared
  mutations that commit them (src/src/depot/raw/hooks/).

  Hooks live in a store the chains do not own, and several chains share one store, so the model
  is an explicit memory: every \<open>Cell<u32>\<close> that an operation can reach is a location. A
  prepared mutation holds borrowed cells; these are locations too, so what it writes is decided
  by what it read when it was built, as in the code.
\<close>

section \<open>Indices\<close>

text \<open>An \<open>Index\<close> stores the complement of its raw value, which is never zero.\<close>

type_synonym link_index = u32

definition END :: u32 where
  "END = - 1"

definition index_new_raw :: "u32 \<Rightarrow> link_index" where
  "index_new_raw raw = NOT raw"

definition index_raw :: "link_index \<Rightarrow> u32" where
  "index_raw i = NOT i"

definition index_decode :: "u32 \<Rightarrow> link_index option" where
  "index_decode raw = (if NOT raw \<noteq> 0 then Some (NOT raw) else None)"

definition index_encode :: "link_index option \<Rightarrow> u32" where
  "index_encode oi = (case oi of Some i \<Rightarrow> index_raw i | None \<Rightarrow> END)"

definition index_new_usize :: "usize \<Rightarrow> link_index" where
  "index_new_usize index = index_new_raw (ucast index)"

definition index_try_new :: "usize \<Rightarrow> link_index option" where
  "index_try_new index = (if ucast END \<le> index then None else Some (index_new_usize index))"

definition index_get :: "link_index \<Rightarrow> usize" where
  "index_get i = ucast (index_raw i)"

definition index_position :: "link_index \<Rightarrow> u32" where
  "index_position i = - i"

definition index_from_pos :: "u32 \<Rightarrow> link_index" where
  "index_from_pos position = - position"

lemma index_raw_new [simp]: "index_raw (index_new_raw r) = r"
  by (simp add: index_raw_def index_new_raw_def)

lemma index_new_raw_raw [simp]: "index_new_raw (index_raw i) = i"
  by (simp add: index_raw_def index_new_raw_def)

lemma not_eq_0_iff: "NOT r = 0 \<longleftrightarrow> r = (- 1 :: u32)"
  by (metis bit.compl_one bit.double_compl bit.compl_zero)

lemma index_decode_eq: "index_decode r = (if r = END then None else Some (index_new_raw r))"
  by (simp add: index_decode_def END_def index_new_raw_def not_eq_0_iff)

lemma index_decode_END [simp]: "index_decode END = None"
  by (simp add: index_decode_eq)

lemma index_decode_live [simp]: "r \<noteq> END \<Longrightarrow> index_decode r = Some (index_new_raw r)"
  by (simp add: index_decode_eq)

lemma index_encode_simps [simp]:
  "index_encode None = END" "index_encode (Some i) = index_raw i"
  by (simp_all add: index_encode_def)

lemma index_decode_encode:
  "(\<forall>i. oi = Some i \<longrightarrow> i \<noteq> 0) \<Longrightarrow> index_decode (index_encode oi) = oi"
  by (cases oi) (auto simp: index_decode_def index_encode_def index_raw_def END_def)

lemma index_encode_decode [simp]: "index_encode (index_decode r) = r"
  by (simp add: index_decode_eq)

lemma index_position_raw: "index_position i = index_raw i + 1"
  by (simp add: index_position_def index_raw_def not_eq_complement)

lemma index_raw_from_pos: "index_raw (index_from_pos p) = p - 1"
  by (simp add: index_from_pos_def index_raw_def not_eq_complement)

lemma index_from_position [simp]: "index_from_pos (index_position i) = i"
  by (simp add: index_from_pos_def index_position_def)

section \<open>Memory\<close>

datatype cell = Head nat | Tail nat | Count nat | Prev u32 | Next u32

type_synonym mem = "cell \<Rightarrow> u32"

text \<open>The policy of a chain says whether it keeps a cardinality; the other heads keep none.\<close>

datatype chain = Chain (chain_id: nat) (counted: bool)

subsection \<open>Hooks\<close>

definition hook_vacant :: "u32 \<Rightarrow> u32 \<Rightarrow> u32 \<Rightarrow> mem \<Rightarrow> mem" where
  "hook_vacant hook index nxt m = m(Prev hook := index, Next hook := nxt)"

definition hook_new :: "link_index \<Rightarrow> mem \<Rightarrow> mem" where
  "hook_new i m = hook_vacant (index_raw i) (index_raw i) END m"

definition hook_is_linked :: "u32 \<Rightarrow> usize \<Rightarrow> mem \<Rightarrow> bool" where
  "hook_is_linked hook index m \<longleftrightarrow> index < ucast END \<and> m (Prev hook) \<noteq> ucast index"

definition index_is_linked :: "link_index \<Rightarrow> mem \<Rightarrow> bool" where
  "index_is_linked i m \<longleftrightarrow> m (Prev (index_raw i)) \<noteq> index_raw i"

definition hook_next_index :: "u32 \<Rightarrow> mem \<Rightarrow> link_index option" where
  "hook_next_index hook m = index_decode (m (Next hook))"

definition hook_prev_index :: "u32 \<Rightarrow> mem \<Rightarrow> link_index option" where
  "hook_prev_index hook m = index_decode (m (Prev hook))"

definition hook_is_vacant :: "u32 \<Rightarrow> usize \<Rightarrow> mem \<Rightarrow> bool" where
  "hook_is_vacant hook index m \<longleftrightarrow>
     index < ucast END \<and> m (Prev hook) = ucast index \<and> m (Next hook) = END"

text \<open>A \<open>Detached\<close> proof is its hook's index; \<open>try_unpark\<close> returns it with the cleared store.\<close>

definition hook_try_unpark :: "link_index \<Rightarrow> mem \<Rightarrow> link_index option \<times> mem" where
  "hook_try_unpark i m =
     (let raw = index_raw i in
      if m (Prev raw) \<noteq> raw \<or> m (Next raw) \<noteq> raw then (None, m)
      else (Some i, m(Next raw := END)))"

definition detached_idle :: "link_index \<Rightarrow> mem \<Rightarrow> mem" where
  "detached_idle i m = m(Prev (index_raw i) := index_raw i, Next (index_raw i) := END)"

definition detached_park :: "link_index \<Rightarrow> mem \<Rightarrow> mem" where
  "detached_park i m = m(Prev (index_raw i) := index_raw i, Next (index_raw i) := index_raw i)"

section \<open>Prepared mutations\<close>

subsection \<open>Insertion at the back\<close>

record insert =
  ins_links :: chain
  ins_index :: link_index
  ins_previous :: u32
  ins_neighbor :: cell

definition insert_from_vacant :: "chain \<Rightarrow> mem \<Rightarrow> link_index \<Rightarrow> insert" where
  "insert_from_vacant links m vacant =
     (let previous = m (Tail (chain_id links));
          neighbor = (case index_decode previous of
              None \<Rightarrow> Head (chain_id links) | Some i \<Rightarrow> Next (index_raw i))
      in \<lparr>ins_links = links, ins_index = vacant, ins_previous = previous,
          ins_neighbor = neighbor\<rparr>)"

definition insert_new :: "chain \<Rightarrow> mem \<Rightarrow> link_index \<Rightarrow> insert" where
  "insert_new links m index = insert_from_vacant links m index"

definition count_storage :: "chain \<Rightarrow> cell option" where
  "count_storage c = (if counted c then Some (Count (chain_id c)) else None)"

definition count_write :: "(cell \<times> u32) option \<Rightarrow> mem \<Rightarrow> mem" where
  "count_write next m = (case next of None \<Rightarrow> m | Some (cell, n) \<Rightarrow> m(cell := n))"

definition insert_commit :: "insert \<Rightarrow> mem \<Rightarrow> mem" where
  "insert_commit ch m =
     (let r = index_raw (ins_index ch);
          next = map_option (\<lambda>cell. (cell, m cell + 1)) (count_storage (ins_links ch));
          m = m(ins_neighbor ch := r);
          m = m(Prev r := ins_previous ch);
          m = m(Next r := END);
          m = m(Tail (chain_id (ins_links ch)) := r)
      in count_write next m)"

subsection \<open>Removals\<close>

record detach =
  dt_links :: chain
  dt_index :: link_index
  dt_previous_index :: u32
  dt_next_index :: u32
  dt_previous :: cell
  dt_next :: cell

definition detach_neighbors :: "chain \<Rightarrow> u32 \<Rightarrow> u32 \<Rightarrow> cell \<times> cell" where
  "detach_neighbors links previous nxt =
     ((case index_decode previous of None \<Rightarrow> Head (chain_id links) | Some i \<Rightarrow> Next (index_raw i)),
      (case index_decode nxt of None \<Rightarrow> Tail (chain_id links) | Some i \<Rightarrow> Prev (index_raw i)))"

definition detach_new :: "chain \<Rightarrow> mem \<Rightarrow> link_index \<Rightarrow> detach" where
  "detach_new links m index =
     (let previous = m (Prev (index_raw index)); nxt = m (Next (index_raw index));
          (prior, after) = detach_neighbors links previous nxt
      in \<lparr>dt_links = links, dt_index = index, dt_previous_index = previous, dt_next_index = nxt,
          dt_previous = prior, dt_next = after\<rparr>)"

definition detach_apply :: "detach \<Rightarrow> mem \<Rightarrow> link_index \<times> mem" where
  "detach_apply ch m =
     (dt_index ch, m(dt_previous ch := dt_next_index ch, dt_next ch := dt_previous_index ch))"

definition detach_restore :: "chain \<Rightarrow> link_index \<Rightarrow> mem \<Rightarrow> mem" where
  "detach_restore links index m =
     (let (previous, nxt) =
        detach_neighbors links (m (Prev (index_raw index))) (m (Next (index_raw index)))
      in m(previous := index_raw index, nxt := index_raw index))"

record pop =
  pp_links :: chain
  pp_index :: link_index
  pp_next_index :: u32
  pp_next :: "link_index option"

definition pop_at :: "chain \<Rightarrow> mem \<Rightarrow> link_index \<Rightarrow> pop" where
  "pop_at links m index =
     (let nxt = m (Next (index_raw index))
      in \<lparr>pp_links = links, pp_index = index, pp_next_index = nxt, pp_next = index_decode nxt\<rparr>)"

definition pop_is_last :: "pop \<Rightarrow> bool" where
  "pop_is_last ch = (pp_next ch = None)"

definition pop_apply :: "pop \<Rightarrow> mem \<Rightarrow> link_index \<times> mem" where
  "pop_apply ch m =
     (let m = m(Head (chain_id (pp_links ch)) := pp_next_index ch);
          m = (case pp_next ch of
             Some i \<Rightarrow> m(Prev (index_raw i) := END)
           | None \<Rightarrow> m(Tail (chain_id (pp_links ch)) := END))
      in (pp_index ch, m))"

text \<open>\<open>Removal::commit\<close>: the count is read before the removal is applied and written after.\<close>

definition removal_commit ::
  "chain \<Rightarrow> (mem \<Rightarrow> link_index \<times> mem) \<Rightarrow> mem \<Rightarrow> link_index \<times> mem" where
  "removal_commit links apply_removal m =
     (let next = map_option (\<lambda>cell. (cell, m cell - 1)) (count_storage links);
          (vacant, m) = apply_removal m
      in (vacant, count_write next m))"

subsection \<open>Splicing one chain behind another\<close>

record splice =
  sp_target :: chain
  sp_source :: chain
  sp_source_head :: u32
  sp_source_tail :: u32
  sp_source_head_hook :: link_index
  sp_target_tail :: u32
  sp_target_tail_hook :: "link_index option"

definition splice_new :: "chain \<Rightarrow> chain \<Rightarrow> mem \<Rightarrow> splice" where
  "splice_new target source m =
     (let dst_tail = m (Tail (chain_id target));
          src_head = m (Head (chain_id source)); src_tail = m (Tail (chain_id source));
          src_hook = index_new_raw src_head;
          dst_hook = (if dst_tail = END then None else Some (index_new_raw dst_tail))
      in \<lparr>sp_target = target, sp_source = source, sp_source_head = src_head,
          sp_source_tail = src_tail, sp_source_head_hook = src_hook, sp_target_tail = dst_tail,
          sp_target_tail_hook = dst_hook\<rparr>)"

definition splice_resolved ::
  "chain \<Rightarrow> chain \<Rightarrow> link_index \<Rightarrow> link_index option \<Rightarrow> mem \<Rightarrow> splice" where
  "splice_resolved target source head_hook tail_hook m =
     \<lparr>sp_target = target, sp_source = source, sp_source_head = m (Head (chain_id source)),
      sp_source_tail = m (Tail (chain_id source)), sp_source_head_hook = head_hook,
      sp_target_tail = m (Tail (chain_id target)), sp_target_tail_hook = tail_hook\<rparr>"

definition splice_commit :: "splice \<Rightarrow> mem \<Rightarrow> mem" where
  "splice_commit ch m =
     (let m = (case sp_target_tail_hook ch of
            Some t \<Rightarrow> m(Next (index_raw t) := sp_source_head ch,
                       Prev (index_raw (sp_source_head_hook ch)) := sp_target_tail ch)
          | None \<Rightarrow> m(Head (chain_id (sp_target ch)) := sp_source_head ch));
          m = m(Tail (chain_id (sp_target ch)) := sp_source_tail ch);
          m = m(Head (chain_id (sp_source ch)) := END)
      in m(Tail (chain_id (sp_source ch)) := END))"

section \<open>Endpoints shared by chains and head-only lists\<close>

text \<open>The \<open>Head\<close> trait: a chain has both endpoints, a list only its first.\<close>

datatype endpoint_head = Chain_head chain | List_head nat

datatype target = Node u32 | Endpoint endpoint_head

definition head_first_cell :: "endpoint_head \<Rightarrow> cell" where
  "head_first_cell h = (case h of Chain_head c \<Rightarrow> Head (chain_id c) | List_head n \<Rightarrow> Head n)"

definition head_tail_cell :: "endpoint_head \<Rightarrow> cell option" where
  "head_tail_cell h = (case h of Chain_head c \<Rightarrow> Some (Tail (chain_id c)) | List_head n \<Rightarrow> None)"

definition head_set_first :: "endpoint_head \<Rightarrow> link_index option \<Rightarrow> mem \<Rightarrow> mem" where
  "head_set_first h i m = m(head_first_cell h := index_encode i)"

definition head_set_last :: "endpoint_head \<Rightarrow> link_index option \<Rightarrow> mem \<Rightarrow> mem" where
  "head_set_last h i m =
     (case head_tail_cell h of Some tail \<Rightarrow> m(tail := index_encode i) | None \<Rightarrow> m)"

definition endpoint_push ::
  "bool \<Rightarrow> endpoint_head \<Rightarrow> u32 \<Rightarrow> link_index \<Rightarrow> u32 \<Rightarrow> (link_index \<times> u32) option \<Rightarrow> mem \<Rightarrow> mem" where
  "endpoint_push FRONT h hook index endpoint adjacent m =
     (let m = (case adjacent of
            Some (a, neighbor) \<Rightarrow>
              m((if FRONT then Prev neighbor else Next neighbor) := index_raw index)
          | None \<Rightarrow> m);
          word = (case adjacent of Some (a, neighbor) \<Rightarrow> index_raw a | None \<Rightarrow> endpoint);
          m = m(Prev hook := if FRONT then endpoint else word);
          m = m(Next hook := if FRONT then word else endpoint);
          m = (if adjacent = None
               then if FRONT then head_set_last h (Some index) m
                    else head_set_first h (Some index) m
               else m)
      in if FRONT then head_set_first h (Some index) m else head_set_last h (Some index) m)"

definition endpoint_clear :: "u32 \<Rightarrow> link_index \<Rightarrow> mem \<Rightarrow> mem" where
  "endpoint_clear hook index m = m(Prev hook := index_raw index, Next hook := END)"

definition endpoint_detach ::
  "u32 \<Rightarrow> link_index \<Rightarrow> u32 \<times> target \<Rightarrow> u32 \<times> target \<Rightarrow> mem \<Rightarrow> mem" where
  "endpoint_detach hook index previous nxt m =
     (let before = fst previous; after = fst nxt;
          m = (case snd previous of
            Node p \<Rightarrow> m(Next p := after)
          | Endpoint h \<Rightarrow> head_set_first h (if after \<noteq> before then Some (index_new_raw after) else None) m);
          m = (case snd nxt of
            Node n \<Rightarrow> m(Prev n := before)
          | Endpoint h \<Rightarrow> head_set_last h (if before \<noteq> after then Some (index_new_raw before) else None) m)
      in endpoint_clear hook index m)"

section \<open>The chain\<close>

definition chain_new :: "chain \<Rightarrow> mem \<Rightarrow> mem" where
  "chain_new c m =
     m(Head (chain_id c) := END, Tail (chain_id c) := END, Count (chain_id c) := 0)"

definition chain_first :: "chain \<Rightarrow> mem \<Rightarrow> link_index option" where
  "chain_first c m = index_decode (m (Head (chain_id c)))"

definition chain_front :: "chain \<Rightarrow> mem \<Rightarrow> usize option" where
  "chain_front c m = map_option index_get (chain_first c m)"

definition chain_last :: "chain \<Rightarrow> mem \<Rightarrow> link_index option" where
  "chain_last c m = index_decode (m (Tail (chain_id c)))"

definition chain_front_key :: "chain \<Rightarrow> mem \<Rightarrow> link_index" where
  "chain_front_key c m = index_new_raw (m (Head (chain_id c)))"

definition chain_is_empty :: "chain \<Rightarrow> mem \<Rightarrow> bool" where
  "chain_is_empty c m = (m (Head (chain_id c)) = END)"

definition chain_len :: "chain \<Rightarrow> mem \<Rightarrow> usize" where
  "chain_len c m = ucast (m (Count (chain_id c)))"

definition chain_link_back :: "chain \<Rightarrow> link_index \<Rightarrow> mem \<Rightarrow> mem" where
  "chain_link_back c index m = insert_commit (insert_new c m index) m"

definition detached_push :: "chain \<Rightarrow> link_index \<Rightarrow> mem \<Rightarrow> mem" where
  "detached_push c index m = insert_commit (insert_from_vacant c m index) m"

definition chain_unlink :: "chain \<Rightarrow> link_index \<Rightarrow> mem \<Rightarrow> link_index \<times> mem" where
  "chain_unlink c index m = removal_commit c (detach_apply (detach_new c m index)) m"

definition chain_pop :: "chain \<Rightarrow> link_index \<Rightarrow> mem \<Rightarrow> link_index \<times> mem" where
  "chain_pop c index m = removal_commit c (pop_apply (pop_at c m index)) m"

definition chain_append :: "chain \<Rightarrow> chain \<Rightarrow> mem \<Rightarrow> mem" where
  "chain_append c source m = splice_commit (splice_new c source m) m"

definition chain_move_back :: "chain \<Rightarrow> chain \<Rightarrow> link_index \<Rightarrow> mem \<Rightarrow> mem" where
  "chain_move_back c target index m =
     (let removal = detach_new c m index;
          adjacent = map_option (\<lambda>t. (t, index_raw t)) (chain_last target m);
          (index, m) = removal_commit c (detach_apply removal) m
      in endpoint_push False (Chain_head target) (index_raw index) index END adjacent m)"

section \<open>The head-only list\<close>

definition list_first :: "nat \<Rightarrow> mem \<Rightarrow> link_index option" where
  "list_first l m = index_decode (m (Head l))"

definition list_link_raw :: "nat \<Rightarrow> link_index \<Rightarrow> mem \<Rightarrow> mem" where
  "list_link_raw l index m =
     (let adjacent = map_option (\<lambda>n. (n, index_raw n)) (list_first l m)
      in endpoint_push True (List_head l) (index_raw index) index END adjacent m)"

definition list_unlink_raw :: "nat \<Rightarrow> link_index \<Rightarrow> mem \<Rightarrow> mem" where
  "list_unlink_raw l index m =
     (let prev = m (Prev (index_raw index)); nxt = m (Next (index_raw index));
          prior = (case index_decode prev of
              Some k \<Rightarrow> (prev, Node (index_raw k)) | None \<Rightarrow> (prev, Endpoint (List_head l)));
          after = (case index_decode nxt of
              Some k \<Rightarrow> (nxt, Node (index_raw k)) | None \<Rightarrow> (nxt, Endpoint (List_head l)))
      in endpoint_detach (index_raw index) index prior after m)"

section \<open>The free list\<close>

text \<open>The head cell holds the optional index in its encoded form.\<close>

definition free_seeded :: "nat \<Rightarrow> usize \<Rightarrow> mem \<Rightarrow> mem" where
  "free_seeded f cap m =
     m(Head f := index_encode (if cap \<noteq> 0 then Some (index_new_raw 0) else None))"

definition free_front :: "nat \<Rightarrow> mem \<Rightarrow> link_index option" where
  "free_front f m = index_decode (m (Head f))"

definition free_acquire_at :: "nat \<Rightarrow> link_index \<Rightarrow> mem \<Rightarrow> mem" where
  "free_acquire_at f index m =
     (let nxt = m (Next (index_raw index)); m = m(Next (index_raw index) := END)
      in m(Head f := index_encode (index_decode nxt)))"

definition free_acquire_raw :: "nat \<Rightarrow> mem \<Rightarrow> link_index option \<times> mem" where
  "free_acquire_raw f m =
     (case free_front f m of
        None \<Rightarrow> (None, m)
      | Some index \<Rightarrow> (Some index, free_acquire_at f index m))"

definition free_recycle :: "nat \<Rightarrow> link_index \<Rightarrow> mem \<Rightarrow> mem" where
  "free_recycle f vacant m =
     (let m = m(Prev (index_raw vacant) := index_raw vacant);
          m = m(Next (index_raw vacant) := index_encode (index_decode (m (Head f))))
      in m(Head f := index_encode (Some vacant)))"

section \<open>The circular order\<close>

definition cycle_first :: "nat \<Rightarrow> mem \<Rightarrow> link_index option" where
  "cycle_first c m = index_decode (m (Head c))"

definition cycle_is_empty :: "nat \<Rightarrow> mem \<Rightarrow> bool" where
  "cycle_is_empty c m = (m (Head c) = END)"

definition cycle_next_live :: "nat \<Rightarrow> link_index \<Rightarrow> mem \<Rightarrow> link_index \<times> mem" where
  "cycle_next_live c index m =
     (let nxt = m (Next (index_raw index)); nxt = (if nxt = END then index_raw index else nxt)
      in (index_new_raw nxt, m(Head c := nxt)))"

definition cycle_push :: "nat \<Rightarrow> link_index \<Rightarrow> mem \<Rightarrow> mem" where
  "cycle_push c index m =
     (let raw = index_raw index; head = m (Head c) in
      if head = END then m(Prev raw := END, Next raw := END, Head c := raw)
      else
        let tail = (if m (Prev head) = END then head else m (Prev head));
            m = m(Prev raw := tail);
            m = m(Next raw := head);
            m = m(Next tail := raw)
        in m(Prev head := raw))"

definition cycle_remove :: "nat \<Rightarrow> link_index \<Rightarrow> bool \<Rightarrow> mem \<Rightarrow> mem" where
  "cycle_remove c index advance m =
     (let raw = index_raw index; nxt = m (Next raw);
          m = (if nxt = END then m(Head c := END)
               else
                 let previous = m (Prev raw); single = (previous = nxt);
                     m = m(Next previous := if single then END else nxt);
                     m = m(Prev nxt := if single then END else previous)
                 in if advance then m(Head c := nxt) else m)
      in m(Prev raw := raw, Next raw := END))"

definition cycle_unlink_key :: "nat \<Rightarrow> link_index \<Rightarrow> mem \<Rightarrow> mem" where
  "cycle_unlink_key c index m = cycle_remove c index (m (Head c) = index_raw index) m"

definition cycle_pop_front :: "nat \<Rightarrow> link_index \<Rightarrow> mem \<Rightarrow> mem" where
  "cycle_pop_front c index m = cycle_remove c index True m"

definition cycle_move_back :: "nat \<Rightarrow> bool \<Rightarrow> link_index \<Rightarrow> link_index \<Rightarrow> mem \<Rightarrow> mem" where
  "cycle_move_back c FRONT index first m =
     (if FRONT \<or> first = index then snd (cycle_next_live c first m)
      else if hook_prev_index (index_raw first) m \<noteq> Some index
      then cycle_push c index (cycle_unlink_key c index m)
      else m)"

end
