(* ===== verification/O3_Links_Proofs.thy ===== *)
theory O3_Links_Proofs
  imports O3_Links
begin

text \<open>
  What the topologies of O3_Links represent. A chain, list, free list or cycle represents the
  list of raw indices reached from its head; every operation is shown to act on that list as
  its name says, to write only its own hooks and endpoints, and so to leave every other topology
  of the same store alone.
\<close>

section \<open>Doubly linked segments\<close>

definition fst_or :: "u32 \<Rightarrow> u32 list \<Rightarrow> u32" where
  "fst_or d xs = (case xs of [] \<Rightarrow> d | x # _ \<Rightarrow> x)"

definition lst_or :: "u32 \<Rightarrow> u32 list \<Rightarrow> u32" where
  "lst_or d xs = (if xs = [] then d else last xs)"

lemma fst_or_simps [simp]: "fst_or d [] = d" "fst_or d (x # xs) = x"
  "fst_or d (xs @ ys) = fst_or (fst_or d ys) xs"
  by (simp_all add: fst_or_def split: list.split)

lemma lst_or_simps [simp]: "lst_or d [] = d" "lst_or d (x # xs) = lst_or x xs"
  "lst_or d (xs @ ys) = lst_or (lst_or d xs) ys"
  by (auto simp: lst_or_def)

lemma fst_or_in: "fst_or d xs = y \<Longrightarrow> xs = [] \<and> y = d \<or> y \<in> set xs"
  by (cases xs) auto

lemma lst_or_in: "lst_or d xs = y \<Longrightarrow> xs = [] \<and> y = d \<or> y \<in> set xs"
  by (cases xs rule: rev_cases) auto

text \<open>\<open>seg m p xs n\<close>: the hooks \<open>xs\<close> are linked both ways, from \<open>p\<close> before them to \<open>n\<close> after.\<close>

fun seg :: "mem \<Rightarrow> u32 \<Rightarrow> u32 list \<Rightarrow> u32 \<Rightarrow> bool" where
  "seg m p [] n \<longleftrightarrow> True"
| "seg m p (x # xs) n \<longleftrightarrow>
     x \<noteq> END \<and> m (Prev x) = p \<and> m (Next x) = fst_or n xs \<and> seg m x xs n"

lemma seg_append [simp]:
  "seg m p (xs @ ys) n \<longleftrightarrow> seg m p xs (fst_or n ys) \<and> seg m (lst_or p xs) ys n"
  by (induction xs arbitrary: p) auto

lemma seg_not_END: "seg m p xs n \<Longrightarrow> END \<notin> set xs"
  by (induction xs arbitrary: p) auto

lemma seg_cong:
  assumes "\<And>x. x \<in> set xs \<Longrightarrow> m' (Prev x) = m (Prev x) \<and> m' (Next x) = m (Next x)"
  shows "seg m' p xs n = seg m p xs n"
  using assms by (induction xs arbitrary: p) auto

lemma seg_upd [simp]:
  "seg (m(Head c := v)) p xs n = seg m p xs n"
  "seg (m(Tail c := v)) p xs n = seg m p xs n"
  "seg (m(Count c := v)) p xs n = seg m p xs n"
  "y \<notin> set xs \<Longrightarrow> seg (m(Prev y := v)) p xs n = seg m p xs n"
  "y \<notin> set xs \<Longrightarrow> seg (m(Next y := v)) p xs n = seg m p xs n"
  by (auto intro!: seg_cong)

text \<open>Rewiring the ends of a segment.\<close>

lemma seg_set_prev:
  assumes "distinct (x # xs)" "seg m p (x # xs) n"
  shows "seg (m(Prev x := q)) q (x # xs) n"
  using assms by simp

lemma seg_set_next:
  assumes "distinct (xs @ [x])" "seg m p (xs @ [x]) n"
  shows "seg (m(Next x := k)) p (xs @ [x]) k"
  using assms by auto

section \<open>Chains\<close>

definition chain_at :: "mem \<Rightarrow> chain \<Rightarrow> u32 list \<Rightarrow> bool" where
  "chain_at m c xs \<longleftrightarrow> seg m END xs END \<and> distinct xs \<and>
     m (Head (chain_id c)) = fst_or END xs \<and> m (Tail (chain_id c)) = lst_or END xs \<and>
     (counted c \<longrightarrow> m (Count (chain_id c)) = word_of_nat (length xs))"

text \<open>The locations a chain owns: its endpoints and the hooks of its members.\<close>

definition hook_cells :: "u32 set \<Rightarrow> cell set" where
  "hook_cells X = Prev ` X \<union> Next ` X"

definition end_cells :: "chain \<Rightarrow> cell set" where
  "end_cells c = {Head (chain_id c), Tail (chain_id c), Count (chain_id c)}"

definition agrees_off :: "cell set \<Rightarrow> mem \<Rightarrow> mem \<Rightarrow> bool" where
  "agrees_off A m m' \<longleftrightarrow> (\<forall>l. l \<notin> A \<longrightarrow> m' l = m l)"

lemma agrees_offI:
  assumes "\<And>n. Head n \<notin> A \<Longrightarrow> m' (Head n) = m (Head n)" "\<And>n. Tail n \<notin> A \<Longrightarrow> m' (Tail n) = m (Tail n)"
    and "\<And>n. Count n \<notin> A \<Longrightarrow> m' (Count n) = m (Count n)"
    and "\<And>x. Prev x \<notin> A \<Longrightarrow> m' (Prev x) = m (Prev x)" "\<And>x. Next x \<notin> A \<Longrightarrow> m' (Next x) = m (Next x)"
  shows "agrees_off A m m'"
  unfolding agrees_off_def using assms by (metis cell.exhaust)

lemma hook_cells_iff [simp]:
  "Prev x \<in> hook_cells X \<longleftrightarrow> x \<in> X" "Next x \<in> hook_cells X \<longleftrightarrow> x \<in> X"
  "Head c \<notin> hook_cells X" "Tail c \<notin> hook_cells X" "Count c \<notin> hook_cells X"
  by (auto simp: hook_cells_def)

lemma end_cells_iff [simp]:
  "Prev x \<notin> end_cells c" "Next x \<notin> end_cells c"
  "Head n \<in> end_cells c \<longleftrightarrow> n = chain_id c" "Tail n \<in> end_cells c \<longleftrightarrow> n = chain_id c"
  "Count n \<in> end_cells c \<longleftrightarrow> n = chain_id c"
  by (auto simp: end_cells_def)

lemma chain_at_frame:
  assumes "chain_at m d ys" "agrees_off (hook_cells X \<union> end_cells c) m m'"
    and "set ys \<inter> X = {}" "chain_id d \<noteq> chain_id c"
  shows "chain_at m' d ys"
proof -
  have "seg m' END ys END = seg m END ys END"
    using assms(2,3) by (intro seg_cong) (auto simp: agrees_off_def disjoint_iff)
  then show ?thesis
    using assms(1,2,4) by (auto simp: chain_at_def agrees_off_def)
qed

lemma chain_at_END: "chain_at m c xs \<Longrightarrow> END \<notin> set xs"
  by (auto simp: chain_at_def dest: seg_not_END)

lemma chain_new_at: "chain_at (chain_new c m) c []"
  by (simp add: chain_at_def chain_new_def)

lemma chain_first_at: "chain_at m c xs \<Longrightarrow>
    chain_first c m = (case xs of [] \<Rightarrow> None | x # _ \<Rightarrow> Some (index_new_raw x))"
  by (auto simp: chain_first_def chain_at_def split: list.split)

lemma chain_last_at: "chain_at m c xs \<Longrightarrow>
    chain_last c m = (if xs = [] then None else Some (index_new_raw (last xs)))"
  using chain_at_END [of m c xs]
  by (cases xs rule: rev_cases) (auto simp: chain_last_def chain_at_def index_decode_eq)

lemma count_write_other [simp]:
  "l \<noteq> Count (chain_id c) \<Longrightarrow>
    count_write (map_option (\<lambda>cell. (cell, f cell)) (count_storage c)) m l = m l"
  by (auto simp: count_write_def count_storage_def)

lemma count_write_count:
  "counted c \<Longrightarrow> count_write (map_option (\<lambda>cell. (cell, f cell)) (count_storage c)) m
      (Count (chain_id c)) = f (Count (chain_id c))"
  by (auto simp: count_write_def count_storage_def)

lemma seg_count_write [simp]:
  "seg (count_write (map_option (\<lambda>cell. (cell, f cell)) (count_storage c)) m) p xs n = seg m p xs n"
  by (rule seg_cong) simp

subsection \<open>Insertion\<close>

lemma chain_link_back_at:
  assumes at: "chain_at m c xs" and r: "r \<notin> set xs" "r \<noteq> END"
  shows "chain_at (chain_link_back c (index_new_raw r) m) c (xs @ [r])"
    and "agrees_off (hook_cells (insert r (set xs)) \<union> end_cells c) m
      (chain_link_back c (index_new_raw r) m)"
proof -
  note defs = chain_link_back_def insert_new_def insert_from_vacant_def insert_commit_def Let_def
  show "chain_at (chain_link_back c (index_new_raw r) m) c (xs @ [r])"
  proof (cases xs rule: rev_cases)
    case Nil
    then show ?thesis using at r by (simp add: chain_at_def defs count_write_count)
  next
    case (snoc ys y)
    then have "y \<noteq> END" using chain_at_END [OF at] by auto
    then show ?thesis
      using snoc at r by (auto simp: chain_at_def defs count_write_count)
  qed
  show "agrees_off (hook_cells (insert r (set xs)) \<union> end_cells c) m
      (chain_link_back c (index_new_raw r) m)"
    using chain_at_END [OF at] at
    by (cases xs rule: rev_cases; intro agrees_offI) (auto simp: defs chain_at_def)
qed

subsection \<open>Removal\<close>

lemmas unlink_defs =
  chain_unlink_def removal_commit_def detach_apply_def detach_new_def detach_neighbors_def Let_def

lemma chain_unlink_at:
  assumes at: "chain_at m c (xs @ r # ys)"
  shows "fst (chain_unlink c (index_new_raw r) m) = index_new_raw r"
    and "chain_at (snd (chain_unlink c (index_new_raw r) m)) c (xs @ ys)"
    and "agrees_off (hook_cells (set (xs @ ys)) \<union> end_cells c) m
      (snd (chain_unlink c (index_new_raw r) m))"
proof -
  have "END \<notin> set (xs @ r # ys)" using at by (rule chain_at_END)
  then have "fst (chain_unlink c (index_new_raw r) m) = index_new_raw r \<and>
      chain_at (snd (chain_unlink c (index_new_raw r) m)) c (xs @ ys) \<and>
      agrees_off (hook_cells (set (xs @ ys)) \<union> end_cells c) m
      (snd (chain_unlink c (index_new_raw r) m))"
    using at
    by (cases xs rule: rev_cases; cases ys; intro conjI agrees_offI)
      (auto simp: chain_at_def unlink_defs count_write_count)
  then show "fst (chain_unlink c (index_new_raw r) m) = index_new_raw r"
    and "chain_at (snd (chain_unlink c (index_new_raw r) m)) c (xs @ ys)"
    and "agrees_off (hook_cells (set (xs @ ys)) \<union> end_cells c) m
      (snd (chain_unlink c (index_new_raw r) m))"
    by blast+
qed

text \<open>Restoring the member whose hook still names its neighbours undoes the removal, cell for cell.\<close>

lemma chain_restore_unlink:
  assumes at: "chain_at m c (xs @ r # ys)" and "\<not> counted c"
  shows "detach_restore c (index_new_raw r) (snd (chain_unlink c (index_new_raw r) m)) = m"
proof -
  have "END \<notin> set (xs @ r # ys)" using at by (rule chain_at_END)
  then show ?thesis
    using assms
    by (cases xs rule: rev_cases; cases ys)
      (auto simp: chain_at_def unlink_defs detach_restore_def count_storage_def count_write_def
        fun_eq_iff)
qed

lemma chain_pop_at:
  assumes at: "chain_at m c (r # ys)"
  shows "fst (chain_pop c (index_new_raw r) m) = index_new_raw r"
    and "chain_at (snd (chain_pop c (index_new_raw r) m)) c ys"
    and "agrees_off (hook_cells (set ys) \<union> end_cells c) m (snd (chain_pop c (index_new_raw r) m))"
proof -
  note defs = chain_pop_def removal_commit_def pop_apply_def pop_at_def Let_def
  have "END \<notin> set (r # ys)" using at by (rule chain_at_END)
  then have "fst (chain_pop c (index_new_raw r) m) = index_new_raw r \<and>
      chain_at (snd (chain_pop c (index_new_raw r) m)) c ys \<and>
      agrees_off (hook_cells (set ys) \<union> end_cells c) m (snd (chain_pop c (index_new_raw r) m))"
    using at
    by (cases ys; intro conjI agrees_offI) (auto simp: chain_at_def defs count_write_count)
  then show "fst (chain_pop c (index_new_raw r) m) = index_new_raw r"
    and "chain_at (snd (chain_pop c (index_new_raw r) m)) c ys"
    and "agrees_off (hook_cells (set ys) \<union> end_cells c) m (snd (chain_pop c (index_new_raw r) m))"
    by blast+
qed

subsection \<open>Moving members between chains\<close>

lemma chain_append_at:
  assumes t: "chain_at m c xs" and s: "chain_at m d ys" and ne: "ys \<noteq> []"
    and sep: "chain_id c \<noteq> chain_id d" "set xs \<inter> set ys = {}" "\<not> counted c" "\<not> counted d"
  shows "chain_at (chain_append c d m) c (xs @ ys)" and "chain_at (chain_append c d m) d []"
proof -
  note defs = chain_append_def splice_new_def splice_commit_def Let_def
  obtain y ys' where ys: "ys = y # ys'" using ne by (cases ys) auto
  have E: "END \<notin> set xs" "END \<notin> set ys" using t s by (auto dest: chain_at_END)
  show "chain_at (chain_append c d m) d []" using sep by (simp add: chain_at_def defs)
  show "chain_at (chain_append c d m) c (xs @ ys)"
  proof (cases xs rule: rev_cases)
    case Nil
    then show ?thesis using t s sep ys E by (auto simp: chain_at_def defs)
  next
    case (snoc zs z)
    then show ?thesis using t s sep ys E by (auto simp: chain_at_def defs)
  qed
qed

lemma endpoint_push_back_at:
  assumes at: "chain_at m c xs" and r: "r \<notin> set xs" "r \<noteq> END" "\<not> counted c"
    and adj: "adj = map_option (\<lambda>t. (t, index_raw t)) (chain_last c m)"
  shows "chain_at (endpoint_push False (Chain_head c) r (index_new_raw r) END adj m) c (xs @ [r])"
proof -
  note defs = endpoint_push_def head_set_first_def head_set_last_def head_first_cell_def
    head_tail_cell_def Let_def
  show ?thesis
  proof (cases xs rule: rev_cases)
    case Nil
    then have "adj = None" using adj chain_last_at [OF at] by simp
    then show ?thesis using Nil at r by (auto simp: chain_at_def defs)
  next
    case (snoc ys y)
    then have "adj = Some (index_new_raw y, y)" using adj chain_last_at [OF at] by simp
    then show ?thesis using snoc at r chain_at_END [OF at] by (auto simp: chain_at_def defs)
  qed
qed

lemma chain_move_back_at:
  assumes s: "chain_at m c (xs @ r # ys)" and t: "chain_at m d zs"
    and sep: "chain_id c \<noteq> chain_id d" "set (xs @ r # ys) \<inter> set zs = {}" "\<not> counted c" "\<not> counted d"
  shows "chain_at (chain_move_back c d (index_new_raw r) m) c (xs @ ys)"
    and "chain_at (chain_move_back c d (index_new_raw r) m) d (zs @ [r])"
proof -
  define m1 where "m1 = snd (chain_unlink c (index_new_raw r) m)"
  have E: "r \<noteq> END" using chain_at_END [OF s] by auto
  have at1: "chain_at m1 c (xs @ ys)" and off: "agrees_off (hook_cells (set (xs @ ys)) \<union> end_cells c) m m1"
    unfolding m1_def by (rule chain_unlink_at [OF s])+
  have t1: "chain_at m1 d zs"
    using chain_at_frame [OF t off] sep by auto
  have last: "chain_last d m = chain_last d m1"
    using chain_last_at [OF t] chain_last_at [OF t1] by simp
  define adj where "adj = map_option (\<lambda>t. (t, index_raw t)) (chain_last d m1)"
  have eq: "chain_move_back c d (index_new_raw r) m =
      endpoint_push False (Chain_head d) r (index_new_raw r) END adj m1"
    using chain_unlink_at(1) [OF s] last
    by (auto simp: chain_move_back_def m1_def chain_unlink_def adj_def Let_def split: prod.splits)
  show "chain_at (chain_move_back c d (index_new_raw r) m) d (zs @ [r])"
    unfolding eq by (rule endpoint_push_back_at [OF t1]) (use sep E adj_def in auto)
  have "agrees_off (hook_cells (insert r (set zs)) \<union> end_cells d) m1
      (endpoint_push False (Chain_head d) r (index_new_raw r) END adj m1)"
    using chain_last_at [OF t1]
    by (intro agrees_offI) (auto simp: endpoint_push_def head_set_first_def head_set_last_def
        head_first_cell_def head_tail_cell_def Let_def adj_def split: if_splits)
  then show "chain_at (chain_move_back c d (index_new_raw r) m) c (xs @ ys)"
    unfolding eq by (rule chain_at_frame [OF at1]) (use sep s in \<open>auto simp: chain_at_def\<close>)
qed

section \<open>Head-only lists\<close>

definition list_at :: "mem \<Rightarrow> nat \<Rightarrow> u32 list \<Rightarrow> bool" where
  "list_at m l xs \<longleftrightarrow> seg m END xs END \<and> distinct xs \<and> m (Head l) = fst_or END xs"

lemmas endpoint_defs =
  endpoint_push_def endpoint_detach_def endpoint_clear_def head_set_first_def head_set_last_def
  head_first_cell_def head_tail_cell_def Let_def

lemma list_link_at:
  assumes at: "list_at m l xs" and r: "r \<notin> set xs" "r \<noteq> END"
  shows "list_at (list_link_raw l (index_new_raw r) m) l (r # xs)"
    and "agrees_off (hook_cells (insert r (set xs)) \<union> {Head l}) m
      (list_link_raw l (index_new_raw r) m)"
proof -
  have E: "END \<notin> set xs" using at by (auto simp: list_at_def dest: seg_not_END)
  show "list_at (list_link_raw l (index_new_raw r) m) l (r # xs)"
    using at r E
    by (cases xs) (auto simp: list_at_def list_link_raw_def list_first_def endpoint_defs)
  show "agrees_off (hook_cells (insert r (set xs)) \<union> {Head l}) m
      (list_link_raw l (index_new_raw r) m)"
    using at r E
    by (cases xs; intro agrees_offI)
      (auto simp: list_at_def list_link_raw_def list_first_def endpoint_defs)
qed

lemma list_unlink_at:
  assumes at: "list_at m l (xs @ r # ys)"
  shows "list_at (list_unlink_raw l (index_new_raw r) m) l (xs @ ys)"
    and "list_unlink_raw l (index_new_raw r) m (Prev r) = r"
    and "list_unlink_raw l (index_new_raw r) m (Next r) = END"
proof -
  have "END \<notin> set (xs @ r # ys)" using at by (auto simp: list_at_def dest: seg_not_END)
  then have "list_at (list_unlink_raw l (index_new_raw r) m) l (xs @ ys) \<and>
      list_unlink_raw l (index_new_raw r) m (Prev r) = r \<and>
      list_unlink_raw l (index_new_raw r) m (Next r) = END"
    using at
    by (cases xs rule: rev_cases; cases ys)
      (auto simp: list_at_def list_unlink_raw_def endpoint_defs)
  then show "list_at (list_unlink_raw l (index_new_raw r) m) l (xs @ ys)"
    and "list_unlink_raw l (index_new_raw r) m (Prev r) = r"
    and "list_unlink_raw l (index_new_raw r) m (Next r) = END"
    by blast+
qed

section \<open>Free lists\<close>

fun next_path :: "mem \<Rightarrow> u32 list \<Rightarrow> bool" where
  "next_path m [] \<longleftrightarrow> True"
| "next_path m (x # xs) \<longleftrightarrow> x \<noteq> END \<and> m (Next x) = fst_or END xs \<and> next_path m xs"

definition free_at :: "mem \<Rightarrow> nat \<Rightarrow> u32 list \<Rightarrow> bool" where
  "free_at m f xs \<longleftrightarrow> next_path m xs \<and> distinct xs \<and> m (Head f) = fst_or END xs"

lemma next_path_upd [simp]:
  "next_path (m(Head c := v)) xs = next_path m xs"
  "next_path (m(Prev y := v)) xs = next_path m xs"
  "y \<notin> set xs \<Longrightarrow> next_path (m(Next y := v)) xs = next_path m xs"
  by (induction xs) auto

lemma free_acquire_at_list:
  assumes "free_at m f xs"
  shows "case xs of
      [] \<Rightarrow> free_acquire_raw f m = (None, m)
    | x # ys \<Rightarrow> fst (free_acquire_raw f m) = Some (index_new_raw x) \<and>
        free_at (snd (free_acquire_raw f m)) f ys \<and>
        snd (free_acquire_raw f m) (Next x) = END"
  using assms
  by (cases xs) (auto simp: free_at_def free_acquire_raw_def free_front_def free_acquire_at_def Let_def)

lemma free_recycle_at:
  assumes "free_at m f xs" "r \<notin> set xs" "r \<noteq> END"
  shows "free_at (free_recycle f (index_new_raw r) m) f (r # xs)"
  using assms by (auto simp: free_at_def free_recycle_def Let_def)

text \<open>A slot that is recycled is the next one acquired, and then the list is as it was.\<close>

lemma free_recycle_acquire:
  assumes "free_at m f xs" "r \<notin> set xs" "r \<noteq> END"
  shows "fst (free_acquire_raw f (free_recycle f (index_new_raw r) m)) = Some (index_new_raw r)"
    and "free_at (snd (free_acquire_raw f (free_recycle f (index_new_raw r) m))) f xs"
  using free_acquire_at_list [OF free_recycle_at [OF assms]] by simp_all

section \<open>Cycles\<close>

text \<open>A singleton is marked by END at both ends; longer cycles close on themselves.\<close>

definition cycle_at :: "mem \<Rightarrow> nat \<Rightarrow> u32 list \<Rightarrow> bool" where
  "cycle_at m c xs \<longleftrightarrow> distinct xs \<and> m (Head c) = fst_or END xs \<and>
     (case xs of [] \<Rightarrow> True | [x] \<Rightarrow> seg m END xs END | _ \<Rightarrow> seg m (last xs) xs (hd xs))"

lemma cycle_at_simps:
  "cycle_at m c [] \<longleftrightarrow> m (Head c) = END"
  "cycle_at m c [x] \<longleftrightarrow> m (Head c) = x \<and> x \<noteq> END \<and> m (Prev x) = END \<and> m (Next x) = END"
  "cycle_at m c (x # y # zs) \<longleftrightarrow> distinct (x # y # zs) \<and> m (Head c) = x \<and>
     seg m (lst_or y zs) (x # y # zs) x"
  by (auto simp: cycle_at_def lst_or_def)

lemma cycle_at_END: "cycle_at m c xs \<Longrightarrow> END \<notin> set xs"
  by (cases xs rule: list.exhaust; cases "tl xs")
    (auto simp: cycle_at_def dest: seg_not_END split: list.splits)

lemma cycle_next_live_at:
  assumes "cycle_at m c (x # xs)"
  shows "cycle_at (snd (cycle_next_live c (index_new_raw x) m)) c (xs @ [x])"
    and "fst (cycle_next_live c (index_new_raw x) m) = index_new_raw (hd (xs @ [x]))"
proof -
  have "END \<notin> set (x # xs)" using assms by (rule cycle_at_END)
  then have "cycle_at (snd (cycle_next_live c (index_new_raw x) m)) c (xs @ [x]) \<and>
      fst (cycle_next_live c (index_new_raw x) m) = index_new_raw (hd (xs @ [x]))"
  proof (cases xs)
    case Nil
    then show ?thesis using assms by (simp add: cycle_at_simps cycle_next_live_def Let_def)
  next
    case (Cons y zs)
    then show ?thesis
      using assms \<open>END \<notin> _\<close>
      by (cases zs) (auto simp: cycle_at_simps cycle_next_live_def Let_def)
  qed
  then show "cycle_at (snd (cycle_next_live c (index_new_raw x) m)) c (xs @ [x])"
    and "fst (cycle_next_live c (index_new_raw x) m) = index_new_raw (hd (xs @ [x]))"
    by blast+
qed

lemma cycle_push_at:
  assumes at: "cycle_at m c xs" and r: "r \<notin> set xs" "r \<noteq> END"
  shows "cycle_at (cycle_push c (index_new_raw r) m) c (xs @ [r])"
proof (cases xs)
  case Nil
  then show ?thesis using at r by (simp add: cycle_at_simps cycle_push_def Let_def)
next
  case (Cons x ys)
  show ?thesis
  proof (cases ys rule: rev_cases)
    case Nil
    then show ?thesis using Cons at r by (auto simp: cycle_at_simps cycle_push_def Let_def)
  next
    case (snoc zs z)
    then show ?thesis
      using Cons at r cycle_at_END [OF at]
      by (cases zs) (auto simp: cycle_at_simps cycle_push_def Let_def)
  qed
qed

lemmas remove_defs = cycle_unlink_key_def cycle_remove_def Let_def

lemma cycle_unlink_head:
  assumes at: "cycle_at m c (r # qs)"
  shows "cycle_at (cycle_unlink_key c (index_new_raw r) m) c qs"
proof (cases qs)
  case Nil
  then show ?thesis using at by (simp add: cycle_at_simps remove_defs)
next
  case (Cons y ys)
  note E = cycle_at_END [OF at]
  show ?thesis
  proof (cases ys rule: rev_cases)
    case Nil
    then show ?thesis using Cons at E by (auto simp: cycle_at_simps remove_defs)
  next
    case (snoc zs z)
    then show ?thesis using Cons at E
      by (cases zs) (auto simp: cycle_at_simps remove_defs)
  qed
qed

lemma cycle_unlink_later:
  assumes at: "cycle_at m c (p # ps @ r # qs)"
  shows "cycle_at (cycle_unlink_key c (index_new_raw r) m) c (p # ps @ qs)"
proof -
  note E = cycle_at_END [OF at]
  have at': "distinct (p # ps @ r # qs)" "m (Head c) = p"
      "seg m (lst_or r qs) (p # ps @ r # qs) p"
    using at by (auto simp: cycle_at_def lst_or_def split: list.splits)
  show ?thesis
  proof (cases ps rule: rev_cases)
    case Nil
    show ?thesis
    proof (cases qs rule: rev_cases)
      case Nil
      then show ?thesis using \<open>ps = []\<close> at' E by (auto simp: cycle_at_simps remove_defs)
    next
      case (snoc ys y)
      then show ?thesis using \<open>ps = []\<close> at' E
        by (cases ys) (auto simp: cycle_at_simps remove_defs)
    qed
  next
    case ps: (snoc qs' q)
    show ?thesis
    proof (cases qs rule: rev_cases)
      case Nil
      then show ?thesis using ps at' E
        by (cases qs') (auto simp: cycle_at_simps remove_defs)
    next
      case (snoc ys y)
      then show ?thesis using ps at' E
        by (cases qs'; cases ys) (auto simp: cycle_at_simps remove_defs)
    qed
  qed
qed

lemma cycle_unlink_at:
  assumes "cycle_at m c (ps @ r # qs)"
  shows "cycle_at (cycle_unlink_key c (index_new_raw r) m) c (ps @ qs)"
  using assms cycle_unlink_head cycle_unlink_later by (cases ps) auto

lemma cycle_pop_front_eq:
  assumes "cycle_at m c (r # qs)"
  shows "cycle_pop_front c (index_new_raw r) m = cycle_unlink_key c (index_new_raw r) m"
  using assms by (simp add: cycle_pop_front_def cycle_unlink_key_def cycle_at_def)

lemma cycle_head_prev:
  assumes "cycle_at m c (x # xs)" "xs \<noteq> []"
  shows "m (Prev x) = last xs"
  using assms by (cases xs) (auto simp: cycle_at_simps lst_or_def)

lemma cycle_move_back_at:
  assumes at: "cycle_at m c (ps @ r # qs)" and f: "f = hd (ps @ r # qs)" and FRONT: "FRONT \<longrightarrow> ps = []"
  shows "cycle_at (cycle_move_back c FRONT (index_new_raw r) (index_new_raw f) m) c (ps @ qs @ [r])"
proof (cases ps)
  case Nil
  then have "f = r" using f by simp
  then show ?thesis
    using Nil at cycle_next_live_at(1) [of m c r qs] by (simp add: cycle_move_back_def)
next
  case (Cons p ps')
  have ne: "f = p" "p \<noteq> r" "\<not> FRONT" using f FRONT Cons at by (auto simp: cycle_at_def)
  have inj: "index_new_raw a = index_new_raw b \<longleftrightarrow> a = b" for a b
    by (metis index_raw_new)
  have last: "m (Prev p) = last (ps' @ r # qs)"
    using cycle_head_prev [of m c p "ps' @ r # qs"] at Cons by simp
  have E: "END \<notin> set (ps @ r # qs)" using at by (rule cycle_at_END)
  then have lastE: "last (ps' @ r # qs) \<noteq> END" using Cons last_in_set [of "ps' @ r # qs"] by auto
  show ?thesis
  proof (cases "qs = []")
    case True
    then show ?thesis
      using at last ne lastE by (simp add: cycle_move_back_def hook_prev_index_def inj)
  next
    case False
    then have "last (ps' @ r # qs) \<noteq> r" using at by (auto simp: cycle_at_def)
    then have "cycle_move_back c FRONT (index_new_raw r) (index_new_raw f) m =
        cycle_push c (index_new_raw r) (cycle_unlink_key c (index_new_raw r) m)"
      using ne last lastE by (simp add: cycle_move_back_def hook_prev_index_def inj)
    moreover have "r \<notin> set (ps @ qs)" "r \<noteq> END" using at E by (auto simp: cycle_at_def)
    ultimately show ?thesis
      using cycle_push_at [OF cycle_unlink_at [OF at]] by simp
  qed
qed

end
