(* ===== verification/O3_Fifo.thy ===== *)
theory O3_Fifo
  imports O3_Links_Proofs
begin

text \<open>
  The contract of a first-in first-out queue, which several representations of the crate
  provide: the linked chain here, the ring and the combined queue in their theories. A client
  proof is made once in the locale, on the list the queue represents.
\<close>

section \<open>Programs over a queue\<close>

datatype 'a fifo_op = Push 'a | Pop

fun fifo_run ::
  "('a \<Rightarrow> 's \<Rightarrow> 's) \<Rightarrow> ('s \<Rightarrow> ('a \<times> 's) option) \<Rightarrow> 'a fifo_op list \<Rightarrow> 's \<Rightarrow> 'a option list \<times> 's" where
  "fifo_run psh pp [] s = ([], s)"
| "fifo_run psh pp (Push x # ops) s = fifo_run psh pp ops (psh x s)"
| "fifo_run psh pp (Pop # ops) s =
     (case pp s of
        None \<Rightarrow> (let (out, s') = fifo_run psh pp ops s in (None # out, s'))
      | Some (x, s1) \<Rightarrow> (let (out, s') = fifo_run psh pp ops s1 in (Some x # out, s')))"

text \<open>The same program on a plain list, and whether each push is admitted when it comes.\<close>

fun fifo_spec :: "'a fifo_op list \<Rightarrow> 'a list \<Rightarrow> 'a option list \<times> 'a list" where
  "fifo_spec [] xs = ([], xs)"
| "fifo_spec (Push x # ops) xs = fifo_spec ops (xs @ [x])"
| "fifo_spec (Pop # ops) [] = (let (out, ys) = fifo_spec ops [] in (None # out, ys))"
| "fifo_spec (Pop # ops) (x # xs) = (let (out, ys) = fifo_spec ops xs in (Some x # out, ys))"

fun fifo_admits :: "('a \<Rightarrow> 'a list \<Rightarrow> bool) \<Rightarrow> 'a fifo_op list \<Rightarrow> 'a list \<Rightarrow> bool" where
  "fifo_admits adm [] xs \<longleftrightarrow> True"
| "fifo_admits adm (Push x # ops) xs \<longleftrightarrow> adm x xs \<and> fifo_admits adm ops (xs @ [x])"
| "fifo_admits adm (Pop # ops) xs \<longleftrightarrow> fifo_admits adm ops (tl xs)"

section \<open>The contract\<close>

locale fifo_queue =
  fixes repr :: "'s \<Rightarrow> 'a list \<Rightarrow> bool"
    and adm :: "'a \<Rightarrow> 'a list \<Rightarrow> bool"
    and psh :: "'a \<Rightarrow> 's \<Rightarrow> 's"
    and pp :: "'s \<Rightarrow> ('a \<times> 's) option"
  assumes repr_push: "repr s xs \<Longrightarrow> adm x xs \<Longrightarrow> repr (psh x s) (xs @ [x])"
    and pop_empty: "repr s [] \<Longrightarrow> pp s = None"
    and pop_front: "repr s (x # xs) \<Longrightarrow> \<exists>s'. pp s = Some (x, s') \<and> repr s' xs"
begin

lemma run_spec:
  "repr s xs \<Longrightarrow> fifo_admits adm ops xs \<Longrightarrow>
    fst (fifo_run psh pp ops s) = fst (fifo_spec ops xs) \<and>
    repr (snd (fifo_run psh pp ops s)) (snd (fifo_spec ops xs))"
proof (induction ops xs arbitrary: s rule: fifo_spec.induct)
  case (2 x ops xs)
  then show ?case using repr_push by simp
next
  case (3 ops)
  then show ?case using pop_empty [of s] by (simp add: split_beta Let_def)
next
  case (4 ops x xs)
  then obtain s' where "pp s = Some (x, s')" "repr s' xs" using pop_front by blast
  then show ?case using 4 by (simp add: split_beta Let_def)
qed simp

text \<open>Pushing values and popping as often returns them in order.\<close>

lemma pop_all:
  "repr s xs \<Longrightarrow> fst (fifo_run psh pp (replicate (length xs) Pop) s) = map Some xs"
proof (induction xs arbitrary: s)
  case (Cons x xs)
  then obtain s' where "pp s = Some (x, s')" "repr s' xs" using pop_front by blast
  then show ?case using Cons.IH by (simp add: split_beta Let_def)
qed simp

end

section \<open>The chain provides it\<close>

definition chain_push_raw :: "chain \<Rightarrow> u32 \<Rightarrow> mem \<Rightarrow> mem" where
  "chain_push_raw c r m = chain_link_back c (index_new_raw r) m"

text \<open>How the queues use it: test for emptiness, take the front key, commit the prepared pop.\<close>

definition chain_pop_raw :: "chain \<Rightarrow> mem \<Rightarrow> (u32 \<times> mem) option" where
  "chain_pop_raw c m =
     (if chain_is_empty c m then None
      else let (i, m') = chain_pop c (chain_front_key c m) m in Some (index_raw i, m'))"

interpretation chain_fifo: fifo_queue
  "\<lambda>m xs. chain_at m c xs" "\<lambda>r xs. r \<notin> set xs \<and> r \<noteq> END" "chain_push_raw c" "chain_pop_raw c" for c
proof
  show "chain_at (chain_push_raw c r m) c (xs @ [r])"
    if "chain_at m c xs" "r \<notin> set xs \<and> r \<noteq> END" for m xs r
    using that chain_link_back_at(1) by (simp add: chain_push_raw_def)
  show "chain_pop_raw c m = None" if "chain_at m c []" for m
    using that by (simp add: chain_pop_raw_def chain_is_empty_def chain_at_def)
  show "\<exists>m'. chain_pop_raw c m = Some (r, m') \<and> chain_at m' c xs" if at: "chain_at m c (r # xs)" for m r xs
  proof -
    have "m (Head (chain_id c)) = r" "r \<noteq> END" using at by (auto simp: chain_at_def)
    then show ?thesis
      using chain_pop_at(1,2) [OF at]
      by (simp add: chain_pop_raw_def chain_is_empty_def chain_front_key_def split_beta Let_def)
  qed
qed

section \<open>Properties\<close>

text \<open>C35: a chain used through push and pop behaves like a list: for every program whose pushes
  link hooks not already in the chain, the popped indices and the final chain are those of the
  list, and an empty chain pops nothing.\<close>

theorem chain_is_fifo:
  assumes "chain_at m c xs" "fifo_admits (\<lambda>r xs. r \<notin> set xs \<and> r \<noteq> END) ops xs"
  shows "fst (fifo_run (chain_push_raw c) (chain_pop_raw c) ops m) = fst (fifo_spec ops xs) \<and>
    chain_at (snd (fifo_run (chain_push_raw c) (chain_pop_raw c) ops m)) c (snd (fifo_spec ops xs))"
  using assms by (rule chain_fifo.run_spec)

theorem chain_is_fifo_witness:
  "fst (fifo_run (chain_push_raw (Chain 0 True)) (chain_pop_raw (Chain 0 True))
      [Push 4, Push 2, Pop, Push 4, Pop, Pop, Pop] (chain_new (Chain 0 True) (\<lambda>_. 7)))
    = [Some 4, Some 2, Some 4, None]"
proof -
  have "fifo_admits (\<lambda>r xs. r \<notin> set xs \<and> r \<noteq> END) [Push 4, Push 2, Pop, Push 4, Pop, Pop, Pop] []"
    by (simp add: END_def)
  from chain_is_fifo [OF chain_new_at this] show ?thesis by simp
qed

text \<open>C36: detaching a member of a chain removes exactly it, leaves its own hook as it was, and every
  other chain of the store as it was; putting it back restores every cell of the store, which
  is what lets a search undo its choices in reverse order.\<close>

theorem chain_unlink_restore:
  assumes "chain_at m c (xs @ r # ys)" "\<not> counted c"
  shows "chain_at (snd (chain_unlink c (index_new_raw r) m)) c (xs @ ys) \<and>
    detach_restore c (index_new_raw r) (snd (chain_unlink c (index_new_raw r) m)) = m \<and>
    (\<forall>d zs. chain_at m d zs \<and> chain_id d \<noteq> chain_id c \<and> set zs \<inter> set (xs @ r # ys) = {} \<longrightarrow>
      chain_at (snd (chain_unlink c (index_new_raw r) m)) d zs)"
proof (intro conjI allI impI)
  show "chain_at (snd (chain_unlink c (index_new_raw r) m)) c (xs @ ys)"
    by (rule chain_unlink_at(2) [OF assms(1)])
  show "detach_restore c (index_new_raw r) (snd (chain_unlink c (index_new_raw r) m)) = m"
    using assms by (rule chain_restore_unlink)
  fix d zs
  assume d: "chain_at m d zs \<and> chain_id d \<noteq> chain_id c \<and> set zs \<inter> set (xs @ r # ys) = {}"
  show "chain_at (snd (chain_unlink c (index_new_raw r) m)) d zs"
    by (rule chain_at_frame [OF _ chain_unlink_at(3) [OF assms(1)]]) (use d in auto)
qed

definition three_chain :: mem where
  "three_chain = chain_push_raw (Chain 0 False) 2 (chain_push_raw (Chain 0 False) 1
     (chain_push_raw (Chain 0 False) 0 (chain_new (Chain 0 False) (\<lambda>_. 9))))"

lemma three_chain_at: "chain_at three_chain (Chain 0 False) ([0] @ 1 # [2])"
  unfolding three_chain_def
  using chain_fifo.repr_push [of _ "Chain 0 False" "[0, 1]" 2] chain_fifo.repr_push [of _ "Chain 0 False" "[0]" 1]
    chain_fifo.repr_push [OF chain_new_at, of 0] by (simp add: END_def)

theorem chain_unlink_restore_witness:
  "chain_at (snd (chain_unlink (Chain 0 False) (index_new_raw 1) three_chain)) (Chain 0 False) [0, 2] \<and>
   detach_restore (Chain 0 False) (index_new_raw 1)
     (snd (chain_unlink (Chain 0 False) (index_new_raw 1) three_chain)) = three_chain"
  using chain_unlink_restore [OF three_chain_at] by simp

text \<open>appending a chain and moving a member to the back of another chain act on the represented
  lists as concatenation and transfer, in stores where the two chains share no hook.\<close>

theorem chain_splice_move:
  assumes "chain_at m c xs" "chain_at m d (ys @ r # zs)"
    and "chain_id c \<noteq> chain_id d" "set xs \<inter> set (ys @ r # zs) = {}" "\<not> counted c" "\<not> counted d"
  shows "chain_at (chain_append c d m) c (xs @ ys @ r # zs) \<and> chain_at (chain_append c d m) d [] \<and>
    chain_at (chain_move_back d c (index_new_raw r) m) d (ys @ zs) \<and>
    chain_at (chain_move_back d c (index_new_raw r) m) c (xs @ [r])"
proof (intro conjI)
  show "chain_at (chain_append c d m) c (xs @ ys @ r # zs)" "chain_at (chain_append c d m) d []"
    using assms by (auto intro!: chain_append_at)
  show "chain_at (chain_move_back d c (index_new_raw r) m) d (ys @ zs)"
    and "chain_at (chain_move_back d c (index_new_raw r) m) c (xs @ [r])"
    using chain_move_back_at [OF assms(2,1)] assms by (auto simp: Int_commute)
qed

theorem chain_splice_move_witness:
  "chain_at (chain_append (Chain 1 False) (Chain 0 False) (chain_new (Chain 1 False) three_chain))
     (Chain 1 False) [0, 1, 2]"
proof -
  have "chain_at (chain_new (Chain 1 False) three_chain) (Chain 0 False) ([0] @ 1 # [2])"
    by (rule chain_at_frame [OF three_chain_at, of "{}" "Chain 1 False"])
      (auto intro!: agrees_offI simp: chain_new_def)
  from chain_splice_move [OF chain_new_at this] show ?thesis by simp
qed

text \<open>the circular order keeps its round: pushing adds the last turn, advancing rotates by one,
  removing any member closes the gap and moving one back gives it the last turn, whatever its
  position and however short the cycle.\<close>

theorem cycle_operations:
  assumes "cycle_at m c (ps @ r # qs)" "k \<notin> set (ps @ r # qs)" "k \<noteq> END"
  shows "cycle_at (cycle_push c (index_new_raw k) m) c (ps @ r # qs @ [k]) \<and>
    cycle_at (cycle_unlink_key c (index_new_raw r) m) c (ps @ qs) \<and>
    cycle_at (cycle_move_back c False (index_new_raw r) (index_new_raw (hd (ps @ r # qs))) m) c
      (ps @ qs @ [r]) \<and>
    cycle_at (snd (cycle_next_live c (index_new_raw (hd (ps @ r # qs))) m)) c (rotate1 (ps @ r # qs))"
proof (intro conjI)
  show "cycle_at (cycle_push c (index_new_raw k) m) c (ps @ r # qs @ [k])"
    using cycle_push_at [OF assms] by simp
  show "cycle_at (cycle_unlink_key c (index_new_raw r) m) c (ps @ qs)"
    using assms(1) by (rule cycle_unlink_at)
  show "cycle_at (cycle_move_back c False (index_new_raw r) (index_new_raw (hd (ps @ r # qs))) m) c
      (ps @ qs @ [r])"
    using assms(1) by (rule cycle_move_back_at) simp_all
  show "cycle_at (snd (cycle_next_live c (index_new_raw (hd (ps @ r # qs))) m)) c (rotate1 (ps @ r # qs))"
    using cycle_next_live_at(1) [of m c "hd (ps @ r # qs)" "tl (ps @ r # qs)"] assms(1)
    by (cases ps) simp_all
qed

theorem cycle_operations_witness:
  "cycle_at (cycle_unlink_key 0 (index_new_raw 3) (cycle_push 0 (index_new_raw 3) (\<lambda>_. END))) 0 []"
proof -
  have "cycle_at (cycle_push 0 (index_new_raw 3) (\<lambda>_. END)) 0 ([] @ 3 # [])"
    using cycle_push_at [of "\<lambda>_. END" 0 "[]" 3] by (simp add: cycle_at_simps END_def)
  from cycle_operations [OF this, of 4] show ?thesis by (simp add: END_def)
qed

text \<open>the free list is a stack of slots: recycling a slot that is not free and then acquiring
  returns it and leaves the list as before; the head-only list inserts at the front and removes
  anywhere, leaving the removed hook vacant.\<close>

theorem free_and_list_operations:
  assumes "free_at m f xs" "list_at m l (ys @ k # zs)" "r \<notin> set xs" "r \<noteq> END"
  shows "fst (free_acquire_raw f (free_recycle f (index_new_raw r) m)) = Some (index_new_raw r) \<and>
    free_at (snd (free_acquire_raw f (free_recycle f (index_new_raw r) m))) f xs \<and>
    list_at (list_unlink_raw l (index_new_raw k) m) l (ys @ zs) \<and>
    list_at (list_link_raw l (index_new_raw k) (list_unlink_raw l (index_new_raw k) m)) l (k # ys @ zs) \<and>
    hook_is_vacant k (ucast k) (list_unlink_raw l (index_new_raw k) m)"
proof (intro conjI)
  show "fst (free_acquire_raw f (free_recycle f (index_new_raw r) m)) = Some (index_new_raw r)"
    and "free_at (snd (free_acquire_raw f (free_recycle f (index_new_raw r) m))) f xs"
    using assms(1,3,4) by (rule free_recycle_acquire)+
  show un: "list_at (list_unlink_raw l (index_new_raw k) m) l (ys @ zs)"
    using assms(2) by (rule list_unlink_at)
  have k: "k \<notin> set (ys @ zs)" "k \<noteq> END" using assms(2) by (auto simp: list_at_def)
  show "list_at (list_link_raw l (index_new_raw k) (list_unlink_raw l (index_new_raw k) m)) l (k # ys @ zs)"
    by (rule list_link_at(1) [OF un k])
  have "unat k < unat END"
    using k(2) by (metis END_def order_neq_le_trans word_less_nat_alt word_order.extremum)
  then have "(ucast k :: usize) < ucast END"
    by (simp only: word_less_nat_alt) (simp add: unat_ucast_widen)
  then show "hook_is_vacant k (ucast k) (list_unlink_raw l (index_new_raw k) m)"
    using list_unlink_at(2,3) [OF assms(2)]
    by (simp add: hook_is_vacant_def ucast_down_up)
qed

theorem free_and_list_operations_witness:
  "fst (free_acquire_raw 1 (free_recycle 1 (index_new_raw 8)
     (list_link_raw 0 (index_new_raw 5) (\<lambda>_. END)))) = Some (index_new_raw 8)"
proof -
  have l: "list_at (list_link_raw 0 (index_new_raw 5) (\<lambda>_. END)) 0 ([] @ 5 # [])"
    using list_link_at(1) [of "\<lambda>_. END" 0 "[]" 5] by (simp add: list_at_def END_def)
  have f: "free_at (list_link_raw 0 (index_new_raw 5) (\<lambda>_. END)) 1 []"
    by (simp add: free_at_def list_link_raw_def list_first_def endpoint_defs)
  show ?thesis using free_and_list_operations [OF f l, of 8] by (simp add: END_def)
qed

end
