(* ===== verification/O3_Ring.thy ===== *)
theory O3_Ring
  imports O3_Fifo
begin

text \<open>
  Exact-capacity ring queues (src/src/depot/queue/ring/: state.rs, mod.rs, pool.rs, lease.rs,
  full.rs; src/src/depot/raw/ringcell/ and the \<open>RingEdit\<close> methods of src/src/depot/raw/mod.rs).

  Head and length are stored as words of the queue's width and computed with as indices: the
  contracts of the operations (\<open>head < capacity\<close>, \<open>len <= capacity <= W::MAX\<close>, here \<open>ring_ok\<close>) make
  every sum and difference of the code exact, so offsets are natural numbers and only storing
  one narrows it. A cell of the backing is \<open>Some\<close> while the queue owns a value in it, and reading
  a value out leaves \<open>None\<close>.
\<close>

section \<open>Position and occupancy\<close>

record 'v ring_state =
  rg_head :: 'v
  rg_len :: 'v

definition offset :: "'w::len word \<Rightarrow> nat" where
  "offset w = unat w"

definition from_offset :: "nat \<Rightarrow> 'w::len word" where
  "from_offset n = word_of_nat n"

definition ring_EMPTY :: "'w::len word ring_state" where
  "ring_EMPTY = \<lparr>rg_head = 0, rg_len = 0\<rparr>"

definition ring_head :: "'w::len word ring_state \<Rightarrow> nat" where
  "ring_head st = offset (rg_head st)"

definition ring_len :: "'w::len word ring_state \<Rightarrow> nat" where
  "ring_len st = offset (rg_len st)"

definition ring_is_empty :: "'w::len word ring_state \<Rightarrow> bool" where
  "ring_is_empty st = (ring_len st = 0)"

definition ring_is_full :: "'w::len word ring_state \<Rightarrow> nat \<Rightarrow> bool" where
  "ring_is_full st capacity = (ring_len st = capacity)"

definition ring_position :: "'w::len word ring_state \<Rightarrow> nat \<Rightarrow> nat \<Rightarrow> nat" where
  "ring_position st capacity off =
     (let suffix = capacity - ring_head st
      in if off < suffix then ring_head st + off else off - suffix)"

definition ring_prefix :: "'w::len word ring_state \<Rightarrow> nat \<Rightarrow> nat \<Rightarrow> nat \<times> nat \<times> nat" where
  "ring_prefix st capacity n =
     (let head = ring_head st; first = min n (capacity - head) in (head, first, n - first))"

definition ring_extend ::
  "nat \<Rightarrow> nat \<Rightarrow> 'w::len word ring_state \<Rightarrow> (nat \<times> nat \<times> nat) \<times> 'w word ring_state" where
  "ring_extend capacity n st =
     (let tail = ring_position st capacity (ring_len st);
          added = \<lparr>rg_head = from_offset tail, rg_len = from_offset n\<rparr>
      in (ring_prefix (added :: 'w word ring_state) capacity n,
          st\<lparr>rg_len := from_offset (ring_len st + n)\<rparr>))"

definition ring_consume :: "nat \<Rightarrow> nat \<Rightarrow> 'w::len word ring_state \<Rightarrow> 'w word ring_state" where
  "ring_consume capacity n st =
     (let left = ring_len st - n;
          head = (if left = 0 then 0 else ring_position st capacity n)
      in \<lparr>rg_head = from_offset head, rg_len = from_offset left\<rparr>)"

definition ring_push ::
  "bool \<Rightarrow> nat \<Rightarrow> 'w::len word ring_state \<Rightarrow> nat \<times> 'w word ring_state" where
  "ring_push FRONT capacity st =
     (if \<not> FRONT then (case ring_extend capacity 1 st of ((start, runs), st') \<Rightarrow> (start, st'))
      else
        let head = (if ring_head st = 0 then capacity - 1 else ring_head st - 1)
        in (head, \<lparr>rg_head = from_offset head, rg_len = from_offset (ring_len st + 1)\<rparr>))"

definition ring_pop_front :: "nat \<Rightarrow> 'w::len word ring_state \<Rightarrow> nat \<times> 'w word ring_state" where
  "ring_pop_front capacity st =
     (let index = ring_head st; next = index + 1
      in (index, \<lparr>rg_head = from_offset (if next = capacity then 0 else next),
                  rg_len = from_offset (ring_len st - 1)\<rparr>))"

section \<open>The physical slots in logical order\<close>

definition ring_ok :: "nat \<Rightarrow> 'w::len word ring_state \<Rightarrow> bool" where
  "ring_ok capacity st \<longleftrightarrow> 0 < capacity \<and> capacity < 2 ^ LENGTH('w) \<and>
     ring_head st < capacity \<and> ring_len st \<le> capacity"

definition ring_slots :: "nat \<Rightarrow> 'w::len word ring_state \<Rightarrow> nat list" where
  "ring_slots capacity st = map (\<lambda>k. (ring_head st + k) mod capacity) [0..<ring_len st]"

lemma offset_from [simp]: "n < 2 ^ LENGTH('w) \<Longrightarrow> offset (from_offset n :: 'w::len word) = n"
  by (simp add: offset_def from_offset_def unat_of_nat_fits)

lemma ring_simps [simp]:
  "ring_head \<lparr>rg_head = h, rg_len = l\<rparr> = offset h" "ring_len \<lparr>rg_head = h, rg_len = l\<rparr> = offset l"
  "ring_head (st\<lparr>rg_len := l\<rparr>) = ring_head st" "ring_len (st\<lparr>rg_len := l\<rparr>) = offset l"
  by (simp_all add: ring_head_def ring_len_def)

lemma ring_EMPTY_simps [simp]: "ring_head ring_EMPTY = 0" "ring_len ring_EMPTY = 0"
  by (simp_all add: ring_EMPTY_def offset_def)

lemma ring_ok_EMPTY: "0 < c \<Longrightarrow> c < 2 ^ LENGTH('w) \<Longrightarrow> ring_ok c (ring_EMPTY :: 'w::len word ring_state)"
  by (simp add: ring_ok_def)

lemma length_ring_slots [simp]: "length (ring_slots c st) = ring_len st"
  by (simp add: ring_slots_def)

lemma ring_slots_Nil [simp]: "ring_slots c st = [] \<longleftrightarrow> ring_is_empty st"
  by (simp add: ring_slots_def ring_is_empty_def)

text \<open>Within one turn, going round is a comparison and a subtraction, and hits each slot once.\<close>

lemma round_eq: "h < c \<Longrightarrow> k \<le> (c::nat) \<Longrightarrow> (h + k) mod c = (if k < c - h then h + k else k - (c - h))"
proof (cases "k < c - h")
  case False
  assume "h < c" "k \<le> c"
  have "c \<le> h + k" using False by linarith
  then have "(h + k) mod c = (h + k - c) mod c" by (rule le_mod_geq)
  moreover have "h + k - c < c" using \<open>h < c\<close> \<open>k \<le> c\<close> by linarith
  ultimately show ?thesis using False \<open>c \<le> h + k\<close> \<open>h < c\<close> by simp
qed simp

lemma ring_position_eq:
  "ring_head st < c \<Longrightarrow> k \<le> c \<Longrightarrow> ring_position st c k = (ring_head st + k) mod c"
  by (simp add: ring_position_def Let_def round_eq)

lemma round_shift: "map (\<lambda>k. (h + k) mod c) [l..<l + n] = map (\<lambda>k. ((h + l) mod c + k) mod (c::nat)) [0..<n]"
proof -
  have "[l..<l + n] = map (\<lambda>k. k + l) [0..<n]" by (simp add: map_add_upt add.commute)
  moreover have "(h + (k + l)) mod c = ((h + l) mod c + k) mod c" for k
    by (metis add.assoc add.commute mod_add_left_eq)
  ultimately show ?thesis by (simp only: map_map o_def)
qed

lemma round_inj:
  assumes "h < (c::nat)" "i < c" "j < c" "(h + i) mod c = (h + j) mod c"
  shows "i = j"
  using assms by (simp add: round_eq split: if_splits)

lemma distinct_ring_slots: "ring_ok c st \<Longrightarrow> distinct (ring_slots c st)"
  by (auto simp: ring_slots_def distinct_map inj_on_def ring_ok_def intro: round_inj)

lemma ring_slots_bound: "ring_ok c st \<Longrightarrow> i \<in> set (ring_slots c st) \<Longrightarrow> i < c"
  by (auto simp: ring_slots_def ring_ok_def)

text \<open>A run of consecutive offsets is a run up to the end of the backing and one from its start.\<close>

lemma round_run:
  assumes "h < (c::nat)" "n \<le> c"
  shows "map (\<lambda>k. (h + k) mod c) [0..<n] = [h..<h + min n (c - h)] @ [0..<n - min n (c - h)]"
proof (rule nth_equalityI)
  show "length (map (\<lambda>k. (h + k) mod c) [0..<n]) =
      length ([h..<h + min n (c - h)] @ [0..<n - min n (c - h)])" by simp
  fix i assume "i < length (map (\<lambda>k. (h + k) mod c) [0..<n])"
  then show "map (\<lambda>k. (h + k) mod c) [0..<n] ! i = ([h..<h + min n (c - h)] @ [0..<n - min n (c - h)]) ! i"
    using assms by (auto simp: nth_append round_eq min_def)
qed

section \<open>What each operation does to the slots\<close>

lemma ring_extend_slots:
  fixes st :: "'w::len word ring_state"
  assumes ok: "ring_ok c st" and n: "ring_len st + n \<le> c"
    and ex: "ring_extend c n st = ((start, first, rest), st')"
  shows "ring_ok c st'" "ring_slots c st' = ring_slots c st @ [start..<start + first] @ [0..<rest]"
    and "start = (ring_head st + ring_len st) mod c" "first = min n (c - start)" "rest = n - first"
proof -
  let ?t = "(ring_head st + ring_len st) mod c"
  have b: "0 < c" "c < 2 ^ LENGTH('w)" "ring_head st < c" "ring_len st \<le> c" using ok by (auto simp: ring_ok_def)
  have t: "ring_position st c (ring_len st) = ?t" using b by (simp add: ring_position_eq)
  have "?t < c" using b by simp
  then have tw: "?t < 2 ^ LENGTH('w)" using b(2) by linarith
  have lw: "ring_len st + n < 2 ^ LENGTH('w)" using n b(2) by linarith
  have e: "start = ?t" "first = min n (c - ?t)" "rest = n - first"
      "st' = st\<lparr>rg_len := from_offset (ring_len st + n)\<rparr>"
    using ex tw by (auto simp: ring_extend_def t ring_prefix_def Let_def)
  have hl: "ring_head st' = ring_head st" "ring_len st' = ring_len st + n"
    using lw by (simp_all add: e)
  show "ring_ok c st'" using b n by (simp add: ring_ok_def hl)
  show "start = ?t" "first = min n (c - start)" "rest = n - first" by (simp_all add: e)
  have "map (\<lambda>k. (ring_head st + k) mod c) [ring_len st..<ring_len st + n]
      = map (\<lambda>k. (?t + k) mod c) [0..<n]"
    by (rule round_shift)
  also have "\<dots> = [start..<start + first] @ [0..<rest]"
    unfolding e(1-3) by (rule round_run [OF \<open>?t < c\<close>]) (use n in linarith)
  finally show "ring_slots c st' = ring_slots c st @ [start..<start + first] @ [0..<rest]"
    unfolding ring_slots_def hl upt_add_eq_append [OF le0] map_append by (simp only:)
qed

lemma ring_push_back_slots:
  assumes "ring_ok c st" "ring_len st < c" "ring_push False c st = (i, st')"
  shows "ring_ok c st'" "ring_slots c st' = ring_slots c st @ [i]"
proof -
  obtain start first rest where ex: "ring_extend c 1 st = ((start, first, rest), st')" and i: "i = start"
    using assms(3) by (auto simp: ring_push_def split: prod.splits)
  have "ring_len st + 1 \<le> c" using assms(2) by simp
  note s = ring_extend_slots [OF assms(1) this ex]
  have "start < c" using s(3) assms by (simp add: ring_ok_def)
  then have "first = 1" "rest = 0" using s(4,5) by simp_all
  then show "ring_ok c st'" "ring_slots c st' = ring_slots c st @ [i]"
    using s(1,2) assms(2) i by (simp_all add: upt_conv_Cons)
qed

lemma ring_push_front_slots:
  fixes st :: "'w::len word ring_state"
  assumes ok: "ring_ok c st" and lt: "ring_len st < c" and push: "ring_push True c st = (i, st')"
  shows "ring_ok c st'" "ring_slots c st' = i # ring_slots c st"
proof -
  let ?h = "if ring_head st = 0 then c - 1 else ring_head st - 1"
  have b: "0 < c" "c < 2 ^ LENGTH('w)" "ring_head st < c" using ok by (auto simp: ring_ok_def)
  have i: "i = ?h" and st': "st' = \<lparr>rg_head = from_offset ?h, rg_len = from_offset (ring_len st + 1)\<rparr>"
    using push by (auto simp: ring_push_def Let_def)
  have hb: "?h < c" using b by auto
  then have hw: "?h < 2 ^ LENGTH('w)" "ring_len st + 1 < 2 ^ LENGTH('w)" using b(2) lt by linarith+
  have hl: "ring_head st' = ?h" "ring_len st' = ring_len st + 1"
    unfolding st' using hw by simp_all
  show "ring_ok c st'" unfolding ring_ok_def hl using b hb lt by simp
  have step: "(?h + Suc k) mod c = (ring_head st + k) mod c" for k
  proof (cases "ring_head st = 0")
    case True
    then have "?h + Suc k = c + k" using b(1) by simp
    then show ?thesis using True by simp
  qed simp
  have "[0..<Suc (ring_len st)] = 0 # map Suc [0..<ring_len st]"
    by (simp only: upt_conv_Cons map_Suc_upt zero_less_Suc)
  then show "ring_slots c st' = i # ring_slots c st"
    unfolding ring_slots_def hl i using hb by (simp only: Suc_eq_plus1 [symmetric] list.map map_map o_def step) simp
qed

lemma ring_pop_front_slots:
  fixes st :: "'w::len word ring_state"
  assumes ok: "ring_ok c st" and ne: "\<not> ring_is_empty st" and pop: "ring_pop_front c st = (i, st')"
  shows "ring_ok c st'" "ring_slots c st = i # ring_slots c st'"
proof -
  let ?h = "if ring_head st + 1 = c then 0 else ring_head st + 1"
  have b: "0 < c" "c < 2 ^ LENGTH('w)" "ring_head st < c" "ring_len st \<le> c" "0 < ring_len st"
    using ok ne by (auto simp: ring_ok_def ring_is_empty_def)
  have i: "i = ring_head st"
    and st': "st' = \<lparr>rg_head = from_offset ?h, rg_len = from_offset (ring_len st - 1)\<rparr>"
    using pop by (auto simp: ring_pop_front_def Let_def)
  have hb: "?h < c" using b(1,3) by auto
  then have hw: "?h < 2 ^ LENGTH('w)" "ring_len st - 1 < 2 ^ LENGTH('w)" using b by linarith+
  have hl: "ring_head st' = ?h" "ring_len st' = ring_len st - 1" unfolding st' using hw by simp_all
  show "ring_ok c st'" unfolding ring_ok_def hl using b hb by simp
  obtain n where n: "ring_len st = Suc n" using b(5) by (cases "ring_len st") auto
  have step: "(ring_head st + Suc k) mod c = (?h + k) mod c" for k
  proof (cases "ring_head st + 1 = c")
    case True
    then have eq: "ring_head st + Suc k = c + k" by simp
    show ?thesis unfolding eq using True by simp
  qed simp
  have "[0..<Suc n] = 0 # map Suc [0..<n]"
    by (simp only: upt_conv_Cons map_Suc_upt zero_less_Suc)
  then show "ring_slots c st = i # ring_slots c st'"
    unfolding ring_slots_def hl i n using b(3) by (simp only: list.map map_map o_def step) simp
qed

lemma ring_consume_slots:
  fixes st :: "'w::len word ring_state"
  assumes ok: "ring_ok c st" and n: "n \<le> ring_len st"
  shows "ring_ok c (ring_consume c n st)" "ring_slots c (ring_consume c n st) = drop n (ring_slots c st)"
proof -
  let ?h = "if ring_len st - n = 0 then 0 else (ring_head st + n) mod c"
  have b: "0 < c" "c < 2 ^ LENGTH('w)" "ring_head st < c" "ring_len st \<le> c" using ok by (auto simp: ring_ok_def)
  have hb: "?h < c" using b(1) by simp
  then have hw: "?h < 2 ^ LENGTH('w)" "ring_len st - n < 2 ^ LENGTH('w)" using b by linarith+
  have "ring_consume c n st = \<lparr>rg_head = from_offset ?h, rg_len = from_offset (ring_len st - n)\<rparr>"
    using b n by (simp add: ring_consume_def Let_def ring_position_eq)
  then have hl: "ring_head (ring_consume c n st) = ?h" "ring_len (ring_consume c n st) = ring_len st - n"
    using hw by simp_all
  show "ring_ok c (ring_consume c n st)" unfolding ring_ok_def hl using b hb by simp
  have "drop n (ring_slots c st) = map (\<lambda>k. (ring_head st + k) mod c) [n..<n + (ring_len st - n)]"
    using n by (simp add: ring_slots_def drop_map)
  also have "\<dots> = map (\<lambda>k. (?h + k) mod c) [0..<ring_len st - n]"
    unfolding round_shift by (cases "ring_len st - n = 0") simp_all
  finally show "ring_slots c (ring_consume c n st) = drop n (ring_slots c st)"
    by (simp only: ring_slots_def hl)
qed

lemma ring_slots_runs:
  assumes "ring_ok c st" "ring_prefix st c (ring_len st) = (start, first, rest)"
  shows "ring_slots c st = [start..<start + first] @ [0..<rest]"
  using assms round_run [of "ring_head st" c "ring_len st"]
  by (simp add: ring_slots_def ring_prefix_def ring_ok_def Let_def) blast

section \<open>The exclusive FIFO\<close>

record ('a, 'v) ring_fifo =
  rf_block :: "'a option list"
  rf_state :: "'v ring_state"

datatype ring_full = Full (full_capacity: nat)

type_synonym 'a fifo32 = "('a, 32 word) ring_fifo"

definition fifo_capacity :: "('a, 'v) ring_fifo \<Rightarrow> nat" where
  "fifo_capacity q = length (rf_block q)"

definition fifo_try_new :: "u32 \<Rightarrow> 'a fifo32" where
  "fifo_try_new capacity = \<lparr>rf_block = replicate (unat capacity) None, rf_state = ring_EMPTY\<rparr>"

definition fifo_try_vacant :: "'a fifo32 \<Rightarrow> ring_full + unit" where
  "fifo_try_vacant q =
     (if ring_len (rf_state q) = fifo_capacity q then Inl (Full (fifo_capacity q)) else Inr ())"

text \<open>\<open>RingEdit::push\<close>: the state moves first, then the claimed cell is written.\<close>

definition ring_edit_push :: "bool \<Rightarrow> 'a \<Rightarrow> ('a, 'w::len word) ring_fifo \<Rightarrow> ('a, 'w word) ring_fifo" where
  "ring_edit_push FRONT v q =
     (case ring_push FRONT (length (rf_block q)) (rf_state q) of
        (index, st) \<Rightarrow> \<lparr>rf_block = (rf_block q)[index := Some v], rf_state = st\<rparr>)"

definition fifo_try_with :: "u32 \<Rightarrow> 'a option \<Rightarrow> 'a fifo32" where
  "fifo_try_with capacity first =
     (let queue = fifo_try_new capacity
      in case first of None \<Rightarrow> queue | Some v \<Rightarrow> ring_edit_push False v queue)"

definition fifo_push_back :: "'a \<Rightarrow> 'a fifo32 \<Rightarrow> 'a option \<times> 'a fifo32" where
  "fifo_push_back v q =
     (case fifo_try_vacant q of
        Inl full \<Rightarrow> (Some v, q)
      | Inr u \<Rightarrow> (None, ring_edit_push False v q))"

definition fifo_push_front :: "'a \<Rightarrow> 'a fifo32 \<Rightarrow> 'a option \<times> 'a fifo32" where
  "fifo_push_front v q =
     (case fifo_try_vacant q of
        Inl full \<Rightarrow> (Some v, q)
      | Inr u \<Rightarrow> (None, ring_edit_push True v q))"

text \<open>\<open>Front::detach\<close> moves the head on and gives its cell; \<open>remove\<close> reads the value out of it.\<close>

definition front_detach :: "('a, 'w::len word) ring_fifo \<Rightarrow> nat \<times> ('a, 'w word) ring_fifo" where
  "front_detach q =
     (case ring_pop_front (length (rf_block q)) (rf_state q) of
        (index, st) \<Rightarrow> (index, q\<lparr>rf_state := st\<rparr>))"

definition front_remove :: "('a, 'w::len word) ring_fifo \<Rightarrow> 'a option \<times> ('a, 'w word) ring_fifo" where
  "front_remove q =
     (case front_detach q of
        (index, q') \<Rightarrow> (rf_block q' ! index, q'\<lparr>rf_block := (rf_block q')[index := None]\<rparr>))"

definition fifo_pop_front :: "'a fifo32 \<Rightarrow> 'a option \<times> 'a fifo32" where
  "fifo_pop_front q = (if ring_is_empty (rf_state q) then (None, q) else front_remove q)"

definition fifo_front :: "'a fifo32 \<Rightarrow> 'a option" where
  "fifo_front q =
     (if ring_is_empty (rf_state q) then None else rf_block q ! ring_head (rf_state q))"

definition fifo_get :: "nat \<Rightarrow> 'a fifo32 \<Rightarrow> 'a option" where
  "fifo_get index q =
     (if ring_len (rf_state q) \<le> index then None
      else rf_block q ! ring_position (rf_state q) (fifo_capacity q) index)"

definition fifo_as_slices :: "'a fifo32 \<Rightarrow> 'a option list \<times> 'a option list" where
  "fifo_as_slices q =
     (case ring_prefix (rf_state q) (fifo_capacity q) (ring_len (rf_state q)) of
        (start, front, back) \<Rightarrow>
          (map ((!) (rf_block q)) [start..<start + front], map ((!) (rf_block q)) [0..<back]))"

definition fifo_iter :: "'a fifo32 \<Rightarrow> 'a option list" where
  "fifo_iter q = (case fifo_as_slices q of (front, back) \<Rightarrow> front @ back)"

text \<open>\<open>drop_ring\<close> destroys both runs in place; the values it destroys are returned in that order.\<close>

definition drop_ring :: "('a, 'w::len word) ring_fifo \<Rightarrow> 'a option list \<times> 'a option list" where
  "drop_ring q =
     (case ring_prefix (rf_state q) (length (rf_block q)) (ring_len (rf_state q)) of
        (start, front, back) \<Rightarrow>
          (let slots = [start..<start + front] @ [0..<back]
           in (map ((!) (rf_block q)) slots, fold (\<lambda>i b. b[i := None]) slots (rf_block q))))"

definition fifo_clear :: "'a fifo32 \<Rightarrow> 'a option list \<times> 'a fifo32" where
  "fifo_clear q =
     (if ring_is_empty (rf_state q) then ([], q)
      else case drop_ring q of
        (dropped, block) \<Rightarrow> (dropped, \<lparr>rf_block = block, rf_state = ring_EMPTY\<rparr>))"

section \<open>What a ring holds\<close>

definition ring_at :: "('a, 'w::len word) ring_fifo \<Rightarrow> 'a list \<Rightarrow> bool" where
  "ring_at q xs \<longleftrightarrow>
     (let c = length (rf_block q); st = rf_state q in
      ring_ok c st \<and> map ((!) (rf_block q)) (ring_slots c st) = map Some xs \<and>
      (\<forall>i<c. i \<notin> set (ring_slots c st) \<longrightarrow> rf_block q ! i = None))"

lemma ring_at_length: "ring_at q xs \<Longrightarrow> ring_len (rf_state q) = length xs"
  unfolding ring_at_def Let_def by (metis length_map length_ring_slots)

lemma ring_at_ok: "ring_at q xs \<Longrightarrow> ring_ok (length (rf_block q)) (rf_state q)"
  by (simp add: ring_at_def Let_def)

lemma ring_at_empty: "ring_at q xs \<Longrightarrow> ring_is_empty (rf_state q) \<longleftrightarrow> xs = []"
  by (simp add: ring_is_empty_def ring_at_length)

lemma map_nth_update_other: "i \<notin> set slots \<Longrightarrow> map ((!) (b[i := v])) slots = map ((!) b) slots"
  by (rule map_cong [OF refl]) (metis nth_list_update_neq)

lemma ring_at_new:
  assumes "0 < capacity" shows "ring_at (fifo_try_new capacity) []"
proof -
  have "0 < unat capacity" using assms by (simp add: word_less_nat_alt)
  moreover have "unat capacity < 2 ^ LENGTH(32)" by (rule unat_bound)
  ultimately show ?thesis
    by (auto simp: ring_at_def fifo_try_new_def ring_ok_EMPTY Let_def ring_slots_def)
qed

lemma ring_edit_push_back:
  assumes at: "ring_at q xs" and lt: "length xs < length (rf_block q)"
  shows "ring_at (ring_edit_push False v q) (xs @ [v])"
    and "length (rf_block (ring_edit_push False v q)) = length (rf_block q)"
proof -
  let ?c = "length (rf_block q)"
  obtain i st where p: "ring_push False ?c (rf_state q) = (i, st)" by fastforce
  note ok = ring_at_ok [OF at]
  have l: "ring_len (rf_state q) < ?c" using lt ring_at_length [OF at] by simp
  note s = ring_push_back_slots [OF ok l p]
  have i: "i < ?c" "i \<notin> set (ring_slots ?c (rf_state q))"
    using ring_slots_bound [OF s(1)] distinct_ring_slots [OF s(1)] by (auto simp: s(2))
  show "ring_at (ring_edit_push False v q) (xs @ [v])"
    using at s i by (auto simp: ring_at_def ring_edit_push_def p Let_def map_nth_update_other)
  show "length (rf_block (ring_edit_push False v q)) = ?c" by (simp add: ring_edit_push_def p)
qed

lemma ring_edit_push_front:
  assumes at: "ring_at q xs" and lt: "length xs < length (rf_block q)"
  shows "ring_at (ring_edit_push True v q) (v # xs)"
    and "length (rf_block (ring_edit_push True v q)) = length (rf_block q)"
proof -
  let ?c = "length (rf_block q)"
  obtain i st where p: "ring_push True ?c (rf_state q) = (i, st)" by fastforce
  note ok = ring_at_ok [OF at]
  have l: "ring_len (rf_state q) < ?c" using lt ring_at_length [OF at] by simp
  note s = ring_push_front_slots [OF ok l p]
  have i: "i < ?c" "i \<notin> set (ring_slots ?c (rf_state q))"
    using ring_slots_bound [OF s(1)] distinct_ring_slots [OF s(1)] by (auto simp: s(2))
  show "ring_at (ring_edit_push True v q) (v # xs)"
    using at s i by (auto simp: ring_at_def ring_edit_push_def p Let_def map_nth_update_other)
  show "length (rf_block (ring_edit_push True v q)) = ?c" by (simp add: ring_edit_push_def p)
qed

lemma front_remove_at:
  assumes at: "ring_at q (x # xs)"
  shows "fst (front_remove q) = Some x" "ring_at (snd (front_remove q)) xs"
    and "length (rf_block (snd (front_remove q))) = length (rf_block q)"
proof -
  let ?c = "length (rf_block q)"
  obtain i st where p: "ring_pop_front ?c (rf_state q) = (i, st)" by fastforce
  note ok = ring_at_ok [OF at]
  have ne: "\<not> ring_is_empty (rf_state q)" using ring_at_empty [OF at] by simp
  note s = ring_pop_front_slots [OF ok ne p]
  have d: "i < ?c" "i \<notin> set (ring_slots ?c st)"
    using ring_slots_bound [OF ok] distinct_ring_slots [OF ok] by (auto simp: s(2))
  show "fst (front_remove q) = Some x" "ring_at (snd (front_remove q)) xs"
    "length (rf_block (snd (front_remove q))) = ?c"
    using at s d
    by (auto simp: ring_at_def front_remove_def front_detach_def p Let_def map_nth_update_other
        nth_list_update)
qed

lemma fold_clear:
  "length (fold (\<lambda>i b. b[i := None]) slots b) = length b"
  "i < length b \<Longrightarrow> fold (\<lambda>i b. b[i := None]) slots b ! i = (if i \<in> set slots then None else b ! i)"
  by (induction slots arbitrary: b) (auto simp: nth_list_update)

lemma drop_ring_at:
  assumes at: "ring_at q xs"
  shows "fst (drop_ring q) = map Some xs"
    and "snd (drop_ring q) = replicate (length (rf_block q)) None"
proof -
  let ?c = "length (rf_block q)"
  obtain start first rest where p: "ring_prefix (rf_state q) ?c (ring_len (rf_state q)) = (start, first, rest)"
    by (metis prod_cases3)
  note slots = ring_slots_runs [OF ring_at_ok [OF at] p]
  show "fst (drop_ring q) = map Some xs"
    using at by (simp add: drop_ring_def p Let_def ring_at_def slots del: map_append)
  have "\<forall>i<?c. i \<notin> set ([start..<start + first] @ [0..<rest]) \<longrightarrow> rf_block q ! i = None"
    using at unfolding ring_at_def Let_def slots by blast
  then show "snd (drop_ring q) = replicate ?c None"
    by (intro nth_equalityI) (simp_all add: drop_ring_def p Let_def fold_clear del: fold_append)
qed

lemma fifo_clear_at:
  assumes at: "ring_at q xs"
  shows "fst (fifo_clear q) = map Some xs" "ring_at (snd (fifo_clear q)) []"
    and "length (rf_block (snd (fifo_clear q))) = length (rf_block q)"
proof -
  have "0 < length (rf_block q)" "length (rf_block q) < 2 ^ 32"
    using ring_at_ok [OF at] by (auto simp: ring_ok_def)
  then show "fst (fifo_clear q) = map Some xs" "ring_at (snd (fifo_clear q)) []"
    "length (rf_block (snd (fifo_clear q))) = length (rf_block q)"
    using at ring_at_empty [OF at] drop_ring_at [OF at]
    by (auto simp: fifo_clear_def split_beta ring_at_def Let_def ring_ok_def ring_slots_def)
qed

lemma fifo_get_at:
  assumes at: "ring_at q xs"
  shows "fifo_get k q = (if k < length xs then Some (xs ! k) else None)"
proof -
  let ?c = "length (rf_block q)"
  have len: "ring_len (rf_state q) = length xs" by (rule ring_at_length [OF at])
  have ok: "ring_head (rf_state q) < ?c" "length xs \<le> ?c"
    using ring_at_ok [OF at] len by (auto simp: ring_ok_def)
  have "map ((!) (rf_block q)) (ring_slots ?c (rf_state q)) = map Some xs"
    using at by (simp add: ring_at_def Let_def)
  then have "rf_block q ! (ring_slots ?c (rf_state q) ! k) = Some (xs ! k)" if "k < length xs"
    using that len by (metis length_ring_slots nth_map)
  moreover have "ring_slots ?c (rf_state q) ! k = ring_position (rf_state q) ?c k" if "k < length xs"
    using that len ok by (simp add: ring_slots_def ring_position_eq)
  ultimately show ?thesis by (simp add: fifo_get_def fifo_capacity_def len)
qed

lemma fifo_front_at: "ring_at q xs \<Longrightarrow> fifo_front q = (case xs of [] \<Rightarrow> None | x # _ \<Rightarrow> Some x)"
proof (cases xs)
  case (Cons x ys)
  assume at: "ring_at q xs"
  have "fifo_get 0 q = Some x" using fifo_get_at [OF at] Cons by simp
  moreover have "0 < ring_len (rf_state q)" "ring_head (rf_state q) < length (rf_block q)"
    using ring_at_length [OF at] ring_at_ok [OF at] Cons by (auto simp: ring_ok_def)
  ultimately show ?thesis
    using Cons by (simp add: fifo_get_def fifo_front_def ring_position_eq fifo_capacity_def ring_is_empty_def)
qed (simp add: fifo_front_def ring_at_empty)

lemma fifo_iter_at: "ring_at q xs \<Longrightarrow> fifo_iter q = map Some xs"
proof -
  assume at: "ring_at q xs"
  let ?c = "length (rf_block q)"
  obtain start first rest where p: "ring_prefix (rf_state q) ?c (ring_len (rf_state q)) = (start, first, rest)"
    by (metis prod_cases3)
  show ?thesis
    using at ring_slots_runs [OF ring_at_ok [OF at] p]
    by (simp add: fifo_iter_def fifo_as_slices_def fifo_capacity_def p ring_at_def Let_def)
qed

section \<open>The queue contract\<close>

definition ring_psh :: "'a \<Rightarrow> 'a fifo32 \<Rightarrow> 'a fifo32" where
  "ring_psh v q = snd (fifo_push_back v q)"

definition ring_pp :: "'a fifo32 \<Rightarrow> ('a \<times> 'a fifo32) option" where
  "ring_pp q = (case fifo_pop_front q of (None, q') \<Rightarrow> None | (Some v, q') \<Rightarrow> Some (v, q'))"

lemma fifo_push_back_at:
  assumes "ring_at q xs"
  shows "fifo_push_back v q =
    (if length xs = length (rf_block q) then (Some v, q) else (None, ring_edit_push False v q))"
  using ring_at_length [OF assms] by (simp add: fifo_push_back_def fifo_try_vacant_def fifo_capacity_def)

interpretation ring_queue: fifo_queue
  "\<lambda>q xs. ring_at q xs \<and> length (rf_block q) = c" "\<lambda>v xs. length xs < c" ring_psh ring_pp for c
proof
  show "ring_at (ring_psh v q) (xs @ [v]) \<and> length (rf_block (ring_psh v q)) = c"
    if "ring_at q xs \<and> length (rf_block q) = c" "length xs < c" for q xs v
    using that ring_edit_push_back [of q xs v] fifo_push_back_at [of q xs v]
    by (simp add: ring_psh_def)
  show "ring_pp q = None" if "ring_at q [] \<and> length (rf_block q) = c" for q
    using that ring_at_empty [of q "[]"] by (simp add: ring_pp_def fifo_pop_front_def)
  show "\<exists>q'. ring_pp q = Some (x, q') \<and> ring_at q' xs \<and> length (rf_block q') = c"
    if "ring_at q (x # xs) \<and> length (rf_block q) = c" for q x xs
    using that front_remove_at [of q x xs] ring_at_empty [of q "x # xs"]
    by (auto simp: ring_pp_def fifo_pop_front_def split: prod.splits)
qed

section \<open>The pool: capacity shared by free slots, leases and queued values\<close>

record 'a ring_pool =
  rp_ring :: "'a fifo32"
  rp_free :: u32

definition cell_take_front :: "('a, 'w::len word) ring_fifo \<Rightarrow> 'a option \<times> ('a, 'w word) ring_fifo" where
  "cell_take_front r =
     (let st = rf_state r in
      if ring_is_empty st then (None, r)
      else case ring_pop_front (length (rf_block r)) st of
        (index, st') \<Rightarrow>
          (rf_block r ! index, \<lparr>rf_block = (rf_block r)[index := None], rf_state = st'\<rparr>))"

definition cell_insert :: "bool \<Rightarrow> 'a \<Rightarrow> ('a, 'w::len word) ring_fifo \<Rightarrow> ('a, 'w word) ring_fifo" where
  "cell_insert FRONT v r =
     (case ring_push FRONT (length (rf_block r)) (rf_state r) of
        (index, st) \<Rightarrow> \<lparr>rf_block = (rf_block r)[index := Some v], rf_state = st\<rparr>)"

definition pool_try_new :: "u32 \<Rightarrow> 'a ring_pool" where
  "pool_try_new capacity = \<lparr>rp_ring = fifo_try_new capacity, rp_free = capacity\<rparr>"

definition pool_try_reserve :: "'a ring_pool \<Rightarrow> (ring_full + unit) \<times> 'a ring_pool" where
  "pool_try_reserve p =
     (let free = rp_free p in
      if free = 0 then (Inl (Full (fifo_capacity (rp_ring p))), p)
      else (Inr (), p\<lparr>rp_free := free - 1\<rparr>))"

definition pool_take_front :: "'a ring_pool \<Rightarrow> ('a \<times> unit) option \<times> 'a ring_pool" where
  "pool_take_front p =
     (case cell_take_front (rp_ring p) of
        (None, r) \<Rightarrow> (None, p\<lparr>rp_ring := r\<rparr>)
      | (Some v, r) \<Rightarrow> (Some (v, ()), p\<lparr>rp_ring := r\<rparr>))"

definition pool_lease_push :: "bool \<Rightarrow> 'a \<Rightarrow> 'a ring_pool \<Rightarrow> 'a ring_pool" where
  "pool_lease_push FRONT v p = p\<lparr>rp_ring := cell_insert FRONT v (rp_ring p)\<rparr>"

definition pool_lease_release :: "'a ring_pool \<Rightarrow> 'a ring_pool" where
  "pool_lease_release p = p\<lparr>rp_free := rp_free p + 1\<rparr>"

lemma cell_insert_eq: "cell_insert FRONT v r = ring_edit_push FRONT v r"
  by (simp add: cell_insert_def ring_edit_push_def)

lemma cell_take_front_eq:
  "cell_take_front r = (if ring_is_empty (rf_state r) then (None, r) else front_remove r)"
  by (auto simp: cell_take_front_def front_remove_def front_detach_def Let_def split: prod.splits)

text \<open>A lease is consumed by publishing a value or by giving its slot back; the leases alive are
  counted beside the pool.\<close>

record 'a pool_use =
  pu_pool :: "'a ring_pool"
  pu_leases :: nat

inductive pool_step :: "'a pool_use \<Rightarrow> 'a pool_use \<Rightarrow> bool" where
  reserve: "pool_try_reserve (pu_pool s) = (Inr u, p)
    \<Longrightarrow> pool_step s \<lparr>pu_pool = p, pu_leases = Suc (pu_leases s)\<rparr>"
| publish: "pu_leases s = Suc n
    \<Longrightarrow> pool_step s \<lparr>pu_pool = pool_lease_push FRONT v (pu_pool s), pu_leases = n\<rparr>"
| release: "pu_leases s = Suc n
    \<Longrightarrow> pool_step s \<lparr>pu_pool = pool_lease_release (pu_pool s), pu_leases = n\<rparr>"
| take_front: "pool_take_front (pu_pool s) = (Some (v, u), p)
    \<Longrightarrow> pool_step s \<lparr>pu_pool = p, pu_leases = Suc (pu_leases s)\<rparr>"

inductive_cases pool_stepE: "pool_step s t"

definition pool_inv :: "nat \<Rightarrow> 'a list \<Rightarrow> 'a pool_use \<Rightarrow> bool" where
  "pool_inv c xs s \<longleftrightarrow> ring_at (rp_ring (pu_pool s)) xs \<and> length (rf_block (rp_ring (pu_pool s))) = c \<and>
     unat (rp_free (pu_pool s)) + pu_leases s + length xs = c"

lemma pool_inv_new: "0 < capacity \<Longrightarrow> pool_inv (unat capacity) [] \<lparr>pu_pool = pool_try_new capacity, pu_leases = 0\<rparr>"
  by (simp add: pool_inv_def pool_try_new_def ring_at_new) (simp add: fifo_try_new_def)

lemma pool_publish_inv:
  assumes "pool_inv c xs s" "pu_leases s = Suc n"
  shows "pool_inv c (if FRONT then v # xs else xs @ [v])
      \<lparr>pu_pool = pool_lease_push FRONT v (pu_pool s), pu_leases = n\<rparr>"
  using assms ring_edit_push_back [of "rp_ring (pu_pool s)" xs v] ring_edit_push_front [of "rp_ring (pu_pool s)" xs v]
  by (cases FRONT) (simp_all add: pool_inv_def pool_lease_push_def cell_insert_eq)

lemma pool_release_inv:
  assumes "pool_inv c xs s" "pu_leases s = Suc n"
  shows "pool_inv c xs \<lparr>pu_pool = pool_lease_release (pu_pool s), pu_leases = n\<rparr>"
proof -
  have "c < 2 ^ 32" using assms(1) ring_at_ok by (fastforce simp: pool_inv_def ring_ok_def)
  then have "unat (rp_free (pu_pool s)) + unat (1 :: u32) < 2 ^ LENGTH(32)"
    using assms by (simp add: pool_inv_def)
  then have "unat (rp_free (pu_pool s) + 1) = unat (rp_free (pu_pool s)) + 1"
    using unat_add_fits [of "rp_free (pu_pool s)" 1] by simp
  then show ?thesis using assms by (simp add: pool_inv_def pool_lease_release_def)
qed

lemma pool_reserve_inv:
  assumes "pool_inv c xs s"
  shows "pool_try_reserve (pu_pool s) = (Inr u, p) \<Longrightarrow>
      pool_inv c xs \<lparr>pu_pool = p, pu_leases = Suc (pu_leases s)\<rparr>"
    and "pool_try_reserve (pu_pool s) = (Inl f, p) \<Longrightarrow>
      p = pu_pool s \<and> f = Full c \<and> pu_leases s + length xs = c"
  using assms unat_pred [of "rp_free (pu_pool s)"] unat_gt_0 [of "rp_free (pu_pool s)"]
  by (auto simp: pool_try_reserve_def Let_def pool_inv_def fifo_capacity_def simp del: unat_gt_0
      split: if_splits)

lemma pool_take_inv:
  assumes "pool_inv c xs s" "pool_take_front (pu_pool s) = (r, p)"
  shows "case xs of
      [] \<Rightarrow> r = None \<and> p = pu_pool s
    | x # ys \<Rightarrow> r = Some (x, ()) \<and> pool_inv c ys \<lparr>pu_pool = p, pu_leases = Suc (pu_leases s)\<rparr>"
  using assms front_remove_at [of "rp_ring (pu_pool s)"] ring_at_empty [of "rp_ring (pu_pool s)" xs]
  by (cases xs) (auto simp: pool_inv_def pool_take_front_def cell_take_front_eq split: prod.splits option.splits)

lemma pool_inv_step: "pool_step s t \<Longrightarrow> \<exists>xs. pool_inv c xs s \<Longrightarrow> \<exists>ys. pool_inv c ys t"
proof (induction rule: pool_step.induct)
  case (publish s n FRONT v)
  then show ?case using pool_publish_inv [of c _ s n FRONT v] by blast
next
  case (release s n)
  then show ?case using pool_release_inv by blast
next
  case (reserve s u p)
  then show ?case using pool_reserve_inv(1) by blast
next
  case (take_front s v u p)
  then obtain xs where xs: "pool_inv c xs s" by blast
  then show ?case using pool_take_inv [OF xs take_front(1)] by (cases xs) auto
qed

text \<open>Within its capacity the ring meets the contract of a queue.\<close>

lemma ring_queue_runs:
  assumes "0 < capacity" "fifo_admits (\<lambda>v xs. length xs < unat capacity) ops []"
  shows "fst (fifo_run ring_psh ring_pp ops (fifo_try_new capacity)) = fst (fifo_spec ops []) \<and>
    ring_at (snd (fifo_run ring_psh ring_pp ops (fifo_try_new capacity))) (snd (fifo_spec ops []))"
proof -
  have "ring_at (fifo_try_new capacity) [] \<and> length (rf_block (fifo_try_new capacity)) = unat capacity"
    using ring_at_new [OF assms(1)] by (simp add: fifo_try_new_def)
  from ring_queue.run_spec [OF this assms(2)] show ?thesis by simp
qed

text \<open>Programs of every operation, on the ring and on a list that holds at most \<open>c\<close> values.\<close>

datatype 'a ring_op = Ring_push bool 'a | Ring_pop | Ring_get nat | Ring_front | Ring_vacant | Ring_clear

datatype 'a ring_out = Given_back "'a option" | Read_value "'a option" | Vacancy "ring_full + unit" | Destroyed "'a option list"

fun ring_exec :: "'a ring_op \<Rightarrow> 'a fifo32 \<Rightarrow> 'a ring_out \<times> 'a fifo32" where
  "ring_exec (Ring_push FRONT v) q = apfst Given_back (if FRONT then fifo_push_front v q else fifo_push_back v q)"
| "ring_exec Ring_pop q = apfst Read_value (fifo_pop_front q)"
| "ring_exec (Ring_get k) q = (Read_value (fifo_get k q), q)"
| "ring_exec Ring_front q = (Read_value (fifo_front q), q)"
| "ring_exec Ring_vacant q = (Vacancy (fifo_try_vacant q), q)"
| "ring_exec Ring_clear q = apfst Destroyed (fifo_clear q)"

fun bounded_exec :: "nat \<Rightarrow> 'a ring_op \<Rightarrow> 'a list \<Rightarrow> 'a ring_out \<times> 'a list" where
  "bounded_exec c (Ring_push FRONT v) xs =
     (if length xs = c then (Given_back (Some v), xs)
      else (Given_back None, if FRONT then v # xs else xs @ [v]))"
| "bounded_exec c Ring_pop xs = (Read_value (case xs of [] \<Rightarrow> None | x # _ \<Rightarrow> Some x), tl xs)"
| "bounded_exec c (Ring_get k) xs = (Read_value (if k < length xs then Some (xs ! k) else None), xs)"
| "bounded_exec c Ring_front xs = (Read_value (case xs of [] \<Rightarrow> None | x # _ \<Rightarrow> Some x), xs)"
| "bounded_exec c Ring_vacant xs = (Vacancy (if length xs = c then Inl (Full c) else Inr ()), xs)"
| "bounded_exec c Ring_clear xs = (Destroyed (map Some xs), [])"

fun ring_run :: "'a ring_op list \<Rightarrow> 'a fifo32 \<Rightarrow> 'a ring_out list \<times> 'a fifo32" where
  "ring_run [] q = ([], q)"
| "ring_run (x # ops) q = (let (y, q) = ring_exec x q; (ys, q) = ring_run ops q in (y # ys, q))"

fun bounded_run :: "nat \<Rightarrow> 'a ring_op list \<Rightarrow> 'a list \<Rightarrow> 'a ring_out list \<times> 'a list" where
  "bounded_run c [] xs = ([], xs)"
| "bounded_run c (x # ops) xs = (let (y, xs) = bounded_exec c x xs; (ys, xs) = bounded_run c ops xs in (y # ys, xs))"

text \<open>A ring without slots holds nothing and refuses everything.\<close>

definition ring_holds :: "nat \<Rightarrow> 'a fifo32 \<Rightarrow> 'a list \<Rightarrow> bool" where
  "ring_holds c q xs \<longleftrightarrow> length (rf_block q) = c \<and>
     (if c = 0 then xs = [] \<and> rf_state q = ring_EMPTY else ring_at q xs)"

lemma ring_holds_new: "ring_holds (unat capacity) (fifo_try_new capacity) []"
proof (cases "capacity = 0")
  case False
  then show ?thesis using ring_at_new [of capacity]
    by (simp add: ring_holds_def fifo_try_new_def unat_eq_zero word_neq_0_conv)
qed (simp add: ring_holds_def fifo_try_new_def)

lemma fifo_pop_front_at:
  assumes "ring_at q xs"
  shows "fst (fifo_pop_front q) = (case xs of [] \<Rightarrow> None | x # _ \<Rightarrow> Some x)"
    and "ring_at (snd (fifo_pop_front q)) (tl xs)"
    and "length (rf_block (snd (fifo_pop_front q))) = length (rf_block q)"
  using ring_at_empty [OF assms] front_remove_at [of q "hd xs" "tl xs"] assms
  by (cases xs; simp add: fifo_pop_front_def)+

lemma fifo_try_vacant_at:
  assumes "ring_at q xs"
  shows "fifo_try_vacant q = (if length xs = length (rf_block q) then Inl (Full (length (rf_block q))) else Inr ())"
  using ring_at_length [OF assms] by (simp add: fifo_try_vacant_def fifo_capacity_def)

lemma ring_exec_at:
  assumes at: "ring_at q xs" and c: "length (rf_block q) = c"
  shows "fst (ring_exec x q) = fst (bounded_exec c x xs)"
    and "ring_at (snd (ring_exec x q)) (snd (bounded_exec c x xs))"
    and "length (rf_block (snd (ring_exec x q))) = c"
proof -
  have room: "length xs < length (rf_block q)" if "length xs \<noteq> c"
    using ring_at_ok [OF at] ring_at_length [OF at] c that by (auto simp: ring_ok_def)
  note facts = at c fifo_try_vacant_at [OF at] fifo_push_back_at [OF at] fifo_pop_front_at [OF at] fifo_clear_at [OF at]
    ring_edit_push_back [OF at room] ring_edit_push_front [OF at room]
  show "fst (ring_exec x q) = fst (bounded_exec c x xs)"
    "ring_at (snd (ring_exec x q)) (snd (bounded_exec c x xs))" "length (rf_block (snd (ring_exec x q))) = c"
    using facts by (cases x; simp add: fifo_push_front_def fifo_get_at [OF at] fifo_front_at [OF at])+
qed

lemma ring_exec_holds:
  assumes "ring_holds c q xs"
  shows "fst (ring_exec x q) = fst (bounded_exec c x xs)"
    and "ring_holds c (snd (ring_exec x q)) (snd (bounded_exec c x xs))"
proof -
  have "fst (ring_exec x q) = fst (bounded_exec c x xs) \<and> ring_holds c (snd (ring_exec x q)) (snd (bounded_exec c x xs))"
  proof (cases "c = 0")
    case True
    then have z: "xs = []" "rf_state q = ring_EMPTY" "rf_block q = []" using assms by (auto simp: ring_holds_def)
    then show ?thesis using True
      by (cases x) (simp_all add: ring_holds_def fifo_push_front_def fifo_push_back_def fifo_try_vacant_def
          fifo_capacity_def fifo_pop_front_def fifo_get_def fifo_front_def fifo_clear_def ring_is_empty_def ring_EMPTY_def
          ring_len_def offset_def)
  next
    case False
    then show ?thesis using assms ring_exec_at [of q xs c x] by (simp add: ring_holds_def)
  qed
  then show "fst (ring_exec x q) = fst (bounded_exec c x xs)"
    "ring_holds c (snd (ring_exec x q)) (snd (bounded_exec c x xs))" by simp_all
qed

lemma ring_run_holds:
  assumes "ring_holds c q xs"
  shows "fst (ring_run ops q) = fst (bounded_run c ops xs) \<and>
    ring_holds c (snd (ring_run ops q)) (snd (bounded_run c ops xs))"
  using assms
proof (induction ops arbitrary: q xs)
  case (Cons x ops)
  note e = ring_exec_holds [OF Cons.prems, of x]
  show ?case using e(1) Cons.IH [OF e(2)] by (simp add: split_beta Let_def)
qed simp

lemma fifo_iter_holds: "ring_holds c q xs \<Longrightarrow> fifo_iter q = map Some xs"
proof (cases "c = 0")
  case True
  assume "ring_holds c q xs"
  then show ?thesis using True
    by (simp add: ring_holds_def fifo_iter_def fifo_as_slices_def ring_prefix_def ring_EMPTY_def ring_len_def offset_def Let_def)
qed (simp add: ring_holds_def fifo_iter_at)

section \<open>Properties\<close>

text \<open>C34: a ring behaves like a list bounded by its capacity, zero included: for every program of
  pushes at both ends, pops, reads, vacancy checks and clearing, across every wrap of the backing,
  each answer is the list's, a push into a full ring gives its value back and changes nothing, and
  the values left, in order, are those of the list.\<close>

theorem ring_is_fifo:
  "fst (ring_run ops (fifo_try_new capacity)) = fst (bounded_run (unat capacity) ops []) \<and>
   fifo_iter (snd (ring_run ops (fifo_try_new capacity))) = map Some (snd (bounded_run (unat capacity) ops []))"
  using ring_run_holds [OF ring_holds_new] fifo_iter_holds by blast

text \<open>observers and refusals of the ring agree with the list it holds: indexing, the front, the
  two slices in order and clearing, which destroys each value once and frees every slot; a push
  is refused exactly when the ring is full and then returns the value and changes nothing.\<close>

theorem ring_observers:
  assumes "ring_at q xs"
  shows "fifo_get k q = (if k < length xs then Some (xs ! k) else None) \<and>
    fifo_front q = (case xs of [] \<Rightarrow> None | x # _ \<Rightarrow> Some x) \<and>
    fifo_iter q = map Some xs \<and>
    fst (fifo_clear q) = map Some xs \<and> ring_at (snd (fifo_clear q)) [] \<and>
    (fifo_push_back v q = (Some v, q) \<longleftrightarrow> length xs = fifo_capacity q)"
  using assms fifo_push_back_at [OF assms, of v]
  by (simp add: fifo_get_at fifo_front_at fifo_iter_at fifo_clear_at fifo_capacity_def)

theorem ring_observers_witness:
  "fifo_iter (ring_psh (5::nat) (fifo_try_new 3)) = [Some 5] \<and>
   fifo_get 1 (ring_psh (5::nat) (fifo_try_new 3)) = None"
proof -
  have "ring_at (ring_psh (5::nat) (fifo_try_new 3)) ([] @ [5]) \<and>
      length (rf_block (ring_psh (5::nat) (fifo_try_new 3))) = 3"
    by (rule ring_queue.repr_push) (simp_all add: ring_at_new, simp add: fifo_try_new_def)
  then have "ring_at (ring_psh (5::nat) (fifo_try_new 3)) [5]" by simp
  from ring_observers [OF this, of 1] show ?thesis by simp
qed

text \<open>free slots, leases and queued values of a pool always partition its capacity, so a lease
  can publish at either end without a check, a reservation fails only when the leases and the
  queue hold everything, and taking the front moves its slot into the lease it returns.\<close>

theorem pool_partition:
  assumes "pool_step\<^sup>*\<^sup>* \<lparr>pu_pool = pool_try_new capacity, pu_leases = 0\<rparr> s" "0 < capacity"
  shows "\<exists>xs. ring_at (rp_ring (pu_pool s)) xs \<and>
    unat (rp_free (pu_pool s)) + pu_leases s + length xs = unat capacity \<and>
    (0 < pu_leases s \<longrightarrow>
       ring_at (rp_ring (pool_lease_push True v (pu_pool s))) (v # xs) \<and>
       ring_at (rp_ring (pool_lease_push False v (pu_pool s))) (xs @ [v])) \<and>
    (fst (pool_try_reserve (pu_pool s)) = Inl (Full (unat capacity)) \<longleftrightarrow>
       pu_leases s + length xs = unat capacity) \<and>
    (\<forall>x ys. xs = x # ys \<longrightarrow> fst (pool_take_front (pu_pool s)) = Some (x, ()))"
proof -
  have "\<exists>xs. pool_inv (unat capacity) xs s"
    using assms(1)
  proof (induction rule: rtranclp_induct)
    case base
    then show ?case using pool_inv_new [OF assms(2)] by blast
  next
    case (step t u)
    then show ?case using pool_inv_step by blast
  qed
  then obtain xs where xs: "pool_inv (unat capacity) xs s" by blast
  have push: "ring_at (rp_ring (pool_lease_push FRONT v (pu_pool s))) (if FRONT then v # xs else xs @ [v])"
    if "0 < pu_leases s" for FRONT
    using pool_publish_inv [OF xs, of "pu_leases s - 1" FRONT v] that by (simp add: pool_inv_def)
  have "fst (pool_try_reserve (pu_pool s)) = Inl (Full (unat capacity)) \<longleftrightarrow> pu_leases s + length xs = unat capacity"
    using xs unat_gt_0 [of "rp_free (pu_pool s)"]
    by (auto simp: pool_try_reserve_def Let_def pool_inv_def fifo_capacity_def simp del: unat_gt_0)
  moreover have "fst (pool_take_front (pu_pool s)) = Some (x, ())" if "xs = x # ys" for x ys
    using pool_take_inv [OF xs surjective_pairing] that by simp
  ultimately show ?thesis
    using xs push [of True] push [of False] by (intro exI [of _ xs]) (auto simp: pool_inv_def)
qed

theorem pool_partition_witness:
  "\<exists>xs. ring_at (rp_ring (pool_try_new 4)) xs \<and> 4 + 0 + length (xs :: nat list) = 4"
  using pool_partition [of 4 "\<lparr>pu_pool = pool_try_new 4, pu_leases = 0\<rparr>" "0 :: nat"]
  by (simp add: pool_try_new_def)

end
