(* ===== verification/O3_Heap.thy ===== *)
theory O3_Heap
  imports O3_Ring
begin

text \<open>
  The indexed minimum heap engine (src/src/depot/heap/hole/, src/src/depot/heap/raw/hole.rs,
  raw/source.rs, raw/store.rs, src/src/depot/heap/entry/ and the slots of
  src/src/depot/heap/mod.rs).

  A heap owns three planes: the entries, of which the first \<open>len\<close> are initialized, and the
  reverse map from an identity's physical index to its position. Moving an entry keeps both in
  step. An operation first decides the whole path of the hole from the unchanged entries, keeping
  only its two ends, and then moves the entries along it; going down, the path is recovered from
  the end by shifting its one-based position.

  The engine is generic in its owner: \<open>adr\<close> is the physical index of an entry's identity and
  \<open>cmp\<close> the owner's comparison, the two things the \<open>Source\<close> trait asks of it. The store's own
  comparison, by priority and then by the order of identities, follows.
\<close>

section \<open>Orderings\<close>

datatype ordering = Less | Equal | Greater

definition is_lt :: "ordering \<Rightarrow> bool" where
  "is_lt c = (c = Less)"

definition is_gt :: "ordering \<Rightarrow> bool" where
  "is_gt c = (c = Greater)"

definition ord_cmp :: "'a::linorder \<Rightarrow> 'a \<Rightarrow> ordering" where
  "ord_cmp a b = (if a < b then Less else if b < a then Greater else Equal)"

record ('k, 'p) stored =
  sd_identity :: 'k
  sd_priority :: 'p

text \<open>\<open>precedes\<close> breaks ties: never for direct heaps, by physical index for keyed ones.\<close>

definition store_compare ::
  "('k \<Rightarrow> 'k \<Rightarrow> bool) \<Rightarrow> ('k, 'p::linorder) stored \<Rightarrow> ('k, 'p) stored \<Rightarrow> ordering" where
  "store_compare precedes left right =
     (case ord_cmp (sd_priority left) (sd_priority right) of
        Equal \<Rightarrow>
          if precedes (sd_identity left) (sd_identity right) then Less
          else if precedes (sd_identity right) (sd_identity left) then Greater
          else Equal
      | order \<Rightarrow> order)"

definition precedes_default :: "'k \<Rightarrow> 'k \<Rightarrow> bool" where
  "precedes_default left right = False"

definition precedes_index :: "('k \<Rightarrow> nat) \<Rightarrow> 'k \<Rightarrow> 'k \<Rightarrow> bool" where
  "precedes_index index left right = (index left < index right)"

section \<open>Storage\<close>

record ('e, 'v) heap =
  hp_len :: u32
  hp_entries :: "nat \<Rightarrow> 'e"
  hp_positions :: "'v list"

definition pos_NONE :: "'w::len word" where
  "pos_NONE = - 1"

definition heap_len :: "('e, 'v) heap \<Rightarrow> nat" where
  "heap_len h = unat (hp_len h)"

text \<open>Fresh entries are uninitialized: whatever the memory held, here \<open>junk\<close>.\<close>

definition heap_new :: "(nat \<Rightarrow> 'e) \<Rightarrow> nat \<Rightarrow> ('e, 'w::len word) heap" where
  "heap_new junk capacity = \<lparr>hp_len = 0, hp_entries = junk, hp_positions = replicate capacity pos_NONE\<rparr>"

definition heap_is_empty :: "('e, 'v) heap \<Rightarrow> bool" where
  "heap_is_empty h = (hp_len h = 0)"

definition reindex :: "('e \<Rightarrow> nat) \<Rightarrow> 'e \<Rightarrow> 'v \<Rightarrow> 'v list \<Rightarrow> 'v list" where
  "reindex adr e p rmap = rmap[adr e := p]"

definition source_read ::
  "('e \<Rightarrow> nat) \<Rightarrow> bool \<Rightarrow> nat \<Rightarrow> ('e, 'w::len word) heap \<Rightarrow> 'e \<times> ('e, 'w word) heap" where
  "source_read adr REMOVE position h =
     (let slot = hp_entries h position in
      (slot, if REMOVE then h\<lparr>hp_positions := reindex adr slot pos_NONE (hp_positions h)\<rparr> else h))"

definition source_shift ::
  "('e \<Rightarrow> nat) \<Rightarrow> nat \<Rightarrow> nat \<Rightarrow> ('e, 'w::len word) heap \<Rightarrow> ('e, 'w word) heap" where
  "source_shift adr source target h =
     (let moved = hp_entries h source in
      h\<lparr>hp_positions := reindex adr moved (from_offset target) (hp_positions h),
        hp_entries := (hp_entries h)(target := moved)\<rparr>)"

definition source_write ::
  "('e \<Rightarrow> nat) \<Rightarrow> bool \<Rightarrow> nat \<Rightarrow> 'e \<Rightarrow> ('e, 'w::len word) heap \<Rightarrow> ('e, 'w word) heap" where
  "source_write adr PLACE position e h =
     (let h = (if PLACE
        then h\<lparr>hp_positions := reindex adr e (from_offset position) (hp_positions h)\<rparr> else h)
      in h\<lparr>hp_entries := (hp_entries h)(position := e)\<rparr>)"

section \<open>Paths\<close>

record path =
  pt_start :: nat
  pt_end :: nat

text \<open>A path compares through a function of the position: the held value against the entry there.\<close>

fun path_up_end :: "(nat \<Rightarrow> ordering) \<Rightarrow> nat \<Rightarrow> nat" where
  "path_up_end compare e =
     (if e \<noteq> 0 then
        let parent = (e - 1) div 2
        in if \<not> is_lt (compare parent) then e else path_up_end compare parent
      else e)"

declare path_up_end.simps [simp del]

function path_down_end ::
  "(nat \<Rightarrow> ordering) \<Rightarrow> (nat \<Rightarrow> nat \<Rightarrow> ordering) \<Rightarrow> nat \<Rightarrow> nat \<Rightarrow> nat" where
  "path_down_end compare compare_at len e =
     (if 2 \<le> len \<and> e \<le> (len - 2) div 2 then
        let left = e * 2 + 1; right = left + 1;
            child = left + (if right < len \<and> is_lt (compare_at right left) then 1 else 0)
        in if \<not> is_gt (compare child) then e else path_down_end compare compare_at len child
      else e)"
  by auto
termination by (relation "measure (\<lambda>(_, _, len, e). len - e)") auto

declare path_down_end.simps [simp del]

definition path_at :: "nat \<Rightarrow> path" where
  "path_at position = \<lparr>pt_start = position, pt_end = position\<rparr>"

definition path_up :: "(nat \<Rightarrow> ordering) \<Rightarrow> nat \<Rightarrow> path" where
  "path_up compare start = \<lparr>pt_start = start, pt_end = path_up_end compare start\<rparr>"

definition path_down ::
  "(nat \<Rightarrow> ordering) \<Rightarrow> (nat \<Rightarrow> nat \<Rightarrow> ordering) \<Rightarrow> nat \<Rightarrow> nat \<Rightarrow> path" where
  "path_down compare compare_at start len =
     \<lparr>pt_start = start, pt_end = path_down_end compare compare_at len start\<rparr>"

definition path_repair ::
  "(nat \<Rightarrow> ordering) \<Rightarrow> (nat \<Rightarrow> nat \<Rightarrow> ordering) \<Rightarrow> nat \<Rightarrow> nat \<Rightarrow> path" where
  "path_repair compare compare_at start len =
     (if start \<noteq> 0 \<and> is_lt (compare ((start - 1) div 2))
      then (path_up compare ((start - 1) div 2))\<lparr>pt_start := start\<rparr>
      else path_down compare compare_at start len)"

section \<open>The hole\<close>

record ('e, 'v) hole =
  ho_owner :: "('e, 'v) heap"
  ho_value :: 'e
  ho_position :: nat

definition hole_shift :: "('e \<Rightarrow> nat) \<Rightarrow> nat \<Rightarrow> ('e, 'w::len word) hole \<Rightarrow> ('e, 'w word) hole" where
  "hole_shift adr source hole =
     hole\<lparr>ho_owner := source_shift adr source (ho_position hole) (ho_owner hole),
          ho_position := source\<rparr>"

text \<open>
  Going up follows parents until the end, an ancestor of the start; at position 0 there is no
  parent and the loop has ended. Going down counts the depth between the two one-based
  positions and shifts the end right by what is left of it.
\<close>

function apply_up :: "('e \<Rightarrow> nat) \<Rightarrow> nat \<Rightarrow> ('e, 'w::len word) hole \<Rightarrow> ('e, 'w word) hole" where
  "apply_up adr e hole =
     (if ho_position hole \<noteq> e \<and> ho_position hole \<noteq> 0
      then apply_up adr e (hole_shift adr ((ho_position hole - 1) div 2) hole)
      else hole)"
  by auto
termination by (relation "measure (\<lambda>(_, _, hole). ho_position hole)") (auto simp: hole_shift_def)

declare apply_up.simps [simp del]

primrec apply_down :: "('e \<Rightarrow> nat) \<Rightarrow> nat \<Rightarrow> nat \<Rightarrow> ('e, 'w::len word) hole \<Rightarrow> ('e, 'w word) hole" where
  "apply_down adr e 0 hole = hole"
| "apply_down adr e (Suc depth) hole =
     (let hole = hole_shift adr (drop_bit depth (e + 1) - 1) hole in apply_down adr e depth hole)"

fun bit_length :: "nat \<Rightarrow> nat" where
  "bit_length n = (if n = 0 then 0 else Suc (bit_length (n div 2)))"

declare bit_length.simps [simp del]

definition leading_zeros :: "nat \<Rightarrow> nat" where
  "leading_zeros n = 64 - bit_length n"

definition path_apply ::
  "('e \<Rightarrow> nat) \<Rightarrow> path \<Rightarrow> 'e \<Rightarrow> ('e, 'w::len word) heap \<Rightarrow> ('e, 'w word) hole" where
  "path_apply adr p v owner =
     (let hole = \<lparr>ho_owner = owner, ho_value = v, ho_position = pt_start p\<rparr> in
      if pt_end p < pt_start p then apply_up adr (pt_end p) hole
      else if pt_start p < pt_end p then
        apply_down adr (pt_end p) (leading_zeros (pt_start p + 1) - leading_zeros (pt_end p + 1)) hole
      else hole)"

definition path_append ::
  "('e \<Rightarrow> nat) \<Rightarrow> path \<Rightarrow> 'e \<Rightarrow> ('e, 'w::len word) heap \<Rightarrow> ('e, 'w word) hole" where
  "path_append adr p v owner =
     path_apply adr p v (owner\<lparr>hp_len := word_of_nat (pt_start p) + 1\<rparr>)"

definition hole_commit :: "('e \<Rightarrow> nat) \<Rightarrow> bool \<Rightarrow> ('e, 'w::len word) hole \<Rightarrow> ('e, 'w word) heap" where
  "hole_commit adr PLACE hole =
     source_write adr PLACE (ho_position hole) (ho_value hole) (ho_owner hole)"

definition hole_append ::
  "('e \<Rightarrow> nat) \<Rightarrow> ('e \<Rightarrow> 'e \<Rightarrow> ordering) \<Rightarrow> 'e \<Rightarrow> ('e, 'w::len word) heap \<Rightarrow> ('e, 'w word) hole" where
  "hole_append adr cmp v owner =
     (let position = heap_len owner
      in path_append adr (path_up (\<lambda>i. cmp v (hp_entries owner i)) position) v owner)"

text \<open>\<open>finish\<close> commits and keeps the position: an entry of the heap.\<close>

definition hole_finish :: "('e \<Rightarrow> nat) \<Rightarrow> ('e, 'w::len word) hole \<Rightarrow> nat \<times> ('e, 'w word) heap" where
  "hole_finish adr hole = (ho_position hole, hole_commit adr True hole)"

definition hole_replace ::
  "('e \<Rightarrow> nat) \<Rightarrow> ('e \<Rightarrow> 'e \<Rightarrow> ordering) \<Rightarrow> nat \<Rightarrow> 'e \<Rightarrow> ('e, 'w::len word) heap
     \<Rightarrow> (nat \<times> ('e, 'w word) heap) \<times> 'e" where
  "hole_replace adr cmp position v owner =
     (let entries = hp_entries owner;
          p = path_repair (\<lambda>i. cmp v (entries i)) (\<lambda>i j. cmp (entries i) (entries j))
                position (heap_len owner);
          (old, owner) = source_read adr False position owner
      in (hole_finish adr (path_apply adr p v owner), old))"

definition hole_update ::
  "('e \<Rightarrow> nat) \<Rightarrow> ('e \<Rightarrow> 'e \<Rightarrow> ordering) \<Rightarrow> nat \<Rightarrow> 'e \<Rightarrow> ('e, 'w::len word) heap \<Rightarrow> ('e, 'w word) heap" where
  "hole_update adr cmp position v owner =
     (let entries = hp_entries owner;
          compare = (\<lambda>i. cmp v (entries i));
          p = (case cmp v (entries position) of
                 Less \<Rightarrow> path_up compare position
               | Greater \<Rightarrow> path_down compare (\<lambda>i j. cmp (entries i) (entries j)) position (heap_len owner)
               | Equal \<Rightarrow> path_at position);
          (old, owner) = source_read adr False position owner;
          hole = path_apply adr p v owner
      in if ho_position hole \<noteq> position then hole_commit adr True hole
         else hole_commit adr False hole)"

text \<open>The flag is whether the owner's \<open>read\<close> of a removed entry also clears its position.\<close>

definition hole_remove_by ::
  "bool \<Rightarrow> ('e \<Rightarrow> nat) \<Rightarrow> ('e \<Rightarrow> 'e \<Rightarrow> ordering) \<Rightarrow> nat \<Rightarrow> ('e, 'w::len word) heap \<Rightarrow> 'e \<times> ('e, 'w word) heap" where
  "hole_remove_by CLEARS adr cmp position owner =
     (let tail = heap_len owner - 1 in
      if position = tail then
        let (v, owner) = source_read adr CLEARS position owner
        in (v, owner\<lparr>hp_len := word_of_nat tail\<rparr>)
      else
        let entries = hp_entries owner;
            p = path_repair (\<lambda>i. cmp (entries tail) (entries i)) (\<lambda>i j. cmp (entries i) (entries j))
                  position tail;
            (v, owner) = source_read adr CLEARS position owner;
            hole = hole_shift adr tail (path_apply adr p v owner)
        in (ho_value hole, (ho_owner hole)\<lparr>hp_len := word_of_nat tail\<rparr>))"

definition hole_remove ::
  "('e \<Rightarrow> nat) \<Rightarrow> ('e \<Rightarrow> 'e \<Rightarrow> ordering) \<Rightarrow> nat \<Rightarrow> ('e, 'w::len word) heap \<Rightarrow> 'e \<times> ('e, 'w word) heap" where
  "hole_remove adr cmp position owner = hole_remove_by True adr cmp position owner"

definition hole_prepare ::
  "('e \<Rightarrow> nat) \<Rightarrow> ('e \<Rightarrow> 'e \<Rightarrow> ordering) \<Rightarrow> nat \<Rightarrow> 'e \<Rightarrow> ('e, 'w::len word) heap
     \<Rightarrow> nat \<times> ('e, 'w word) heap" where
  "hole_prepare adr cmp position v owner =
     (let (entry, old) = hole_replace adr cmp position v owner in entry)"

definition vacancy_store ::
  "('e \<Rightarrow> nat) \<Rightarrow> ('e \<Rightarrow> 'e \<Rightarrow> ordering) \<Rightarrow> 'e \<Rightarrow> ('e, 'w::len word) heap \<Rightarrow> ('e, 'w word) heap" where
  "vacancy_store adr cmp v owner = hole_commit adr True (hole_append adr cmp v owner)"

end
