(* ===== verification/O3_Heap_Proofs.thy ===== *)
theory O3_Heap_Proofs
  imports O3_Heap
begin

text \<open>
  Correctness of the heap engine for any owner comparison that is a total preorder: the locale
  \<open>heap_order\<close> states that contract, and the store's comparison is an interpretation of it, with
  and without the tie break. Every move of the hole is a swap of the heap that committing the
  hole would give, so one swap lemma carries the reverse map and the contents through all
  operations, and the order is repaired along the path the code decided before it moved anything.
\<close>

section \<open>The planes\<close>

definition parent :: "nat \<Rightarrow> nat" where
  "parent i = (i - 1) div 2"

lemma parent_less: "0 < i \<Longrightarrow> parent i < i"
  by (simp add: parent_def less_mult_imp_div_less)

lemma parent_eq_iff: "0 < i \<Longrightarrow> parent i = p \<longleftrightarrow> i = 2 * p + 1 \<or> i = 2 * p + 2"
  by (auto simp: parent_def)

text \<open>\<open>planes\<close>: the first n entries and the reverse map agree both ways. The capacity fits the
  position word below its NONE and the length word.\<close>

definition planes :: "('e \<Rightarrow> nat) \<Rightarrow> nat \<Rightarrow> (nat \<Rightarrow> 'e) \<Rightarrow> 'w::len word list \<Rightarrow> bool" where
  "planes adr n E P \<longleftrightarrow>
     n \<le> length P \<and> length P < 2 ^ LENGTH('w) \<and> length P < 2 ^ 32 \<and>
     (\<forall>i<n. adr (E i) < length P \<and> P ! adr (E i) = from_offset i) \<and>
     (\<forall>a<length P. P ! a \<noteq> pos_NONE \<longrightarrow> offset (P ! a) < n \<and> adr (E (offset (P ! a))) = a)"

definition items :: "nat \<Rightarrow> (nat \<Rightarrow> 'e) \<Rightarrow> 'e set" where
  "items n E = E ` {..<n}"

lemma offset_NONE: "offset (pos_NONE :: 'w::len word) = 2 ^ LENGTH('w) - 1"
  by (simp add: offset_def pos_NONE_def unsigned_minus_1_eq_mask mask_eq_exp_minus_1)

lemma planes_fit:
  assumes "planes adr n E (P :: 'w::len word list)" "i < n"
  shows "offset (from_offset i :: 'w word) = i" "(from_offset i :: 'w word) \<noteq> pos_NONE"
proof -
  have lt: "i < 2 ^ LENGTH('w) - 1" using assms by (auto simp: planes_def)
  then show o: "offset (from_offset i :: 'w word) = i" by (intro offset_from) simp
  show "(from_offset i :: 'w word) \<noteq> pos_NONE"
    using o lt offset_NONE [where 'w = 'w] by (metis less_irrefl)
qed

lemma planes_inj:
  assumes P: "planes adr n E P" and ij: "i < n" "j < n" "adr (E i) = adr (E j)"
  shows "i = j"
  using assms planes_fit(1) [OF P] by (metis planes_def)

lemma planes_at:
  assumes P: "planes adr n E P" and a: "a < length P"
  shows "P ! a \<noteq> pos_NONE \<longleftrightarrow> (\<exists>i<n. adr (E i) = a)"
  using assms planes_fit(2) [OF P] unfolding planes_def by metis

lemma planes_swap:
  assumes P: "planes adr n E P" and pq: "p < n" "q < n"
  shows "planes adr n (E(p := E q, q := E p)) (P[adr (E q) := from_offset p, adr (E p) := from_offset q])"
proof (cases "p = q")
  case True
  have "P ! adr (E p) = from_offset p" using P pq by (simp add: planes_def)
  then have "P[adr (E p) := from_offset p] = P" by (metis list_update_id)
  then show ?thesis using True P by simp
next
  case False
  have adr: "adr (E i) < length P" if "i < n" for i using P that by (simp add: planes_def)
  have ne: "adr (E p) \<noteq> adr (E q)" using planes_inj [OF P pq] False by blast
  have other: "adr (E i) \<noteq> adr (E p) \<and> adr (E i) \<noteq> adr (E q)" if "i < n" "i \<noteq> p" "i \<noteq> q" for i
    using planes_inj [OF P] that pq by blast
  show ?thesis
    unfolding planes_def length_list_update
  proof (intro conjI allI impI)
    show "n \<le> length P" "length P < 2 ^ LENGTH('b)" "length P < 2 ^ 32" using P by (simp_all add: planes_def)
  next
    fix i assume i: "i < n"
    show "adr ((E(p := E q, q := E p)) i) < length P" using adr i pq by simp
    show "P[adr (E q) := from_offset p, adr (E p) := from_offset q] ! adr ((E(p := E q, q := E p)) i)
        = from_offset i"
      using i pq ne adr [OF pq(1)] adr [OF pq(2)] other [OF i] P
      by (auto simp: nth_list_update planes_def)
  next
    fix a assume a: "a < length P"
      and s: "P[adr (E q) := from_offset p, adr (E p) := from_offset q] ! a \<noteq> pos_NONE"
    have o: "offset (P ! a) < n" "adr (E (offset (P ! a))) = a" if "a \<noteq> adr (E p)" "a \<noteq> adr (E q)"
      using s that P a by (auto simp: planes_def)
    show "offset (P[adr (E q) := from_offset p, adr (E p) := from_offset q] ! a) < n"
      and "adr ((E(p := E q, q := E p)) (offset (P[adr (E q) := from_offset p, adr (E p) := from_offset q] ! a))) = a"
      using o a pq ne False planes_fit(1) [OF P pq(1)] planes_fit(1) [OF P pq(2)]
        adr [OF pq(1)] adr [OF pq(2)]
      by (auto simp: nth_list_update)
  qed
qed

lemma items_swap: "p < n \<Longrightarrow> q < n \<Longrightarrow> items n (E(p := E q, q := E p)) = items n E"
proof -
  assume pq: "p < n" "q < n"
  have "items n (E(p := E q, q := E p)) \<subseteq> items n E" for E :: "nat \<Rightarrow> 'a"
    using pq by (auto simp: items_def)
  from this [of E] this [of "E(p := E q, q := E p)"] show ?thesis
    by (cases "p = q") (auto simp: fun_upd_twist fun_upd_idem)
qed

section \<open>Moving the hole is swapping\<close>

abbreviation hole_entries :: "('e \<Rightarrow> nat) \<Rightarrow> ('e, 'w::len word) hole \<Rightarrow> nat \<Rightarrow> 'e" where
  "hole_entries adr hole \<equiv> hp_entries (hole_commit adr True hole)"

abbreviation hole_positions :: "('e \<Rightarrow> nat) \<Rightarrow> ('e, 'w::len word) hole \<Rightarrow> 'w word list" where
  "hole_positions adr hole \<equiv> hp_positions (hole_commit adr True hole)"

lemma hole_entries_eq: "hole_entries adr hole = (hp_entries (ho_owner hole))(ho_position hole := ho_value hole)"
  by (simp add: hole_commit_def source_write_def Let_def)

lemma hole_positions_eq:
  "hole_positions adr hole = (hp_positions (ho_owner hole))[adr (ho_value hole) := from_offset (ho_position hole)]"
  by (simp add: hole_commit_def source_write_def Let_def reindex_def)

lemma hole_shift_simps [simp]:
  "ho_position (hole_shift adr q hole) = q" "ho_value (hole_shift adr q hole) = ho_value hole"
  "hp_len (ho_owner (hole_shift adr q hole)) = hp_len (ho_owner hole)"
  "hp_entries (ho_owner (hole_shift adr q hole)) =
     (hp_entries (ho_owner hole))(ho_position hole := hp_entries (ho_owner hole) q)"
  by (simp_all add: hole_shift_def source_shift_def Let_def)

lemma hole_shift_swap:
  assumes "q \<noteq> ho_position hole"
  shows "hole_entries adr (hole_shift adr q hole) = (hole_entries adr hole)
      (ho_position hole := hole_entries adr hole q, q := hole_entries adr hole (ho_position hole))"
    and "hole_positions adr (hole_shift adr q hole) = (hole_positions adr hole)
      [adr (hole_entries adr hole q) := from_offset (ho_position hole),
       adr (hole_entries adr hole (ho_position hole)) := from_offset q]"
proof -
  show "hole_entries adr (hole_shift adr q hole) = (hole_entries adr hole)
      (ho_position hole := hole_entries adr hole q, q := hole_entries adr hole (ho_position hole))"
    using assms by (auto simp: hole_entries_eq fun_eq_iff)
  let ?P = "hp_positions (ho_owner hole)" and ?v = "adr (ho_value hole)"
    and ?m = "adr (hp_entries (ho_owner hole) q)" and ?p = "from_offset (ho_position hole)"
  have "hp_positions (ho_owner (hole_shift adr q hole)) = ?P[?m := ?p]"
    by (simp add: hole_shift_def source_shift_def Let_def reindex_def)
  moreover have "?P[?v := ?p, ?m := ?p, ?v := from_offset q] = ?P[?m := ?p, ?v := from_offset q]"
    by (cases "?v = ?m") (simp_all add: list_update_swap [of ?v ?m])
  ultimately show "hole_positions adr (hole_shift adr q hole) = (hole_positions adr hole)
      [adr (hole_entries adr hole q) := from_offset (ho_position hole),
       adr (hole_entries adr hole (ho_position hole)) := from_offset q]"
    using assms by (simp add: hole_positions_eq hole_entries_eq)
qed

definition hole_ok :: "('e \<Rightarrow> nat) \<Rightarrow> nat \<Rightarrow> ('e, 'w::len word) hole \<Rightarrow> bool" where
  "hole_ok adr n hole \<longleftrightarrow>
     planes adr n (hole_entries adr hole) (hole_positions adr hole) \<and> ho_position hole < n"

lemma hole_shift_ok:
  assumes "hole_ok adr n hole" "q < n" "q \<noteq> ho_position hole"
  shows "hole_ok adr n (hole_shift adr q hole)"
    and "items n (hole_entries adr (hole_shift adr q hole)) = items n (hole_entries adr hole)"
proof -
  show "hole_ok adr n (hole_shift adr q hole)"
    using assms unfolding hole_ok_def hole_shift_swap [OF assms(3)]
    by (simp del: fun_upd_apply add: planes_swap)
  show "items n (hole_entries adr (hole_shift adr q hole)) = items n (hole_entries adr hole)"
    using assms unfolding hole_ok_def hole_shift_swap [OF assms(3)] by (simp add: items_swap)
qed

section \<open>Order\<close>

lemma parent_child [simp]: "parent (2 * p + 1) = p" "parent (2 * p + 2) = p"
  by (simp_all add: parent_def)

text \<open>The path decided going down only reads positions below its start.\<close>

lemma path_down_end_cong:
  assumes "\<And>i. e < i \<Longrightarrow> cv i = cv' i" "\<And>i j. e < i \<Longrightarrow> e < j \<Longrightarrow> ca i j = ca' i j"
  shows "path_down_end cv ca n e = path_down_end cv' ca' n e"
  using assms
proof (induction cv ca n e rule: path_down_end.induct)
  case (1 cv ca n e)
  let ?l = "e * 2 + 1"
  let ?c = "?l + (if ?l + 1 < n \<and> is_lt (ca (?l + 1) ?l) then 1 else 0)"
  have ca: "ca (?l + 1) ?l = ca' (?l + 1) ?l" and cv: "cv ?c = cv' ?c" using 1(2,3) by auto
  have rec: "path_down_end cv ca n ?c = path_down_end cv' ca' n ?c"
    if "2 \<le> n \<and> e \<le> (n - 2) div 2" "\<not> \<not> is_gt (cv ?c)"
    using that 1(2,3) by (intro 1(1) [OF that(1) refl refl refl that(2)]) auto
  show ?case
    using rec ca cv
    by (subst (1 2) path_down_end.simps) (auto simp: Let_def)
qed

lemma path_up_end_cong:
  assumes "\<And>i. i < e \<Longrightarrow> cv i = cv' i"
  shows "path_up_end cv e = path_up_end cv' e"
  using assms
proof (induction cv e rule: path_up_end.induct)
  case (1 cv e)
  have lt: "(e - 1) div 2 < e" if "e \<noteq> 0" using that parent_less [of e] by (simp add: parent_def)
  have rec: "path_up_end cv ((e - 1) div 2) = path_up_end cv' ((e - 1) div 2)"
    if "e \<noteq> 0" "\<not> \<not> is_lt (cv ((e - 1) div 2))"
    using 1(2) lt [OF that(1)] by (intro 1(1) [OF that(1) refl that(2)]) auto
  show ?case
    using rec lt 1(2) by (subst (1 2) path_up_end.simps) (auto simp: Let_def)
qed

locale heap_order =
  fixes cmp :: "'e \<Rightarrow> 'e \<Rightarrow> ordering"
  assumes flip: "cmp a b = Less \<longleftrightarrow> cmp b a = Greater"
    and trans: "cmp a b \<noteq> Greater \<Longrightarrow> cmp b c \<noteq> Greater \<Longrightarrow> cmp a c \<noteq> Greater"
begin

abbreviation le :: "'e \<Rightarrow> 'e \<Rightarrow> bool" where
  "le a b \<equiv> cmp a b \<noteq> Greater"

lemma le_refl: "le a a"
  using flip [of a a] by (cases "cmp a a") auto

lemma less_le: "cmp a b = Less \<Longrightarrow> le a b"
  by simp

lemma not_less_le: "cmp a b \<noteq> Less \<Longrightarrow> le b a"
  using flip [of a b] by simp

lemma greater_le: "cmp a b = Greater \<Longrightarrow> le b a"
  using flip [of b a] by simp

end

definition heap_sorted :: "('e \<Rightarrow> 'e \<Rightarrow> ordering) \<Rightarrow> nat \<Rightarrow> (nat \<Rightarrow> 'e) \<Rightarrow> bool" where
  "heap_sorted cmp n E \<longleftrightarrow> (\<forall>i. 0 < i \<longrightarrow> i < n \<longrightarrow> cmp (E (parent i)) (E i) \<noteq> Greater)"

definition sorted_but_up :: "('e \<Rightarrow> 'e \<Rightarrow> ordering) \<Rightarrow> nat \<Rightarrow> nat \<Rightarrow> (nat \<Rightarrow> 'e) \<Rightarrow> bool" where
  "sorted_but_up cmp n p E \<longleftrightarrow>
     (\<forall>i. 0 < i \<longrightarrow> i < n \<longrightarrow> i \<noteq> p \<longrightarrow> cmp (E (parent i)) (E i) \<noteq> Greater) \<and>
     (\<forall>i. 0 < p \<longrightarrow> 0 < i \<longrightarrow> i < n \<longrightarrow> parent i = p \<longrightarrow> cmp (E (parent p)) (E i) \<noteq> Greater)"

definition sorted_but_down :: "('e \<Rightarrow> 'e \<Rightarrow> ordering) \<Rightarrow> nat \<Rightarrow> nat \<Rightarrow> (nat \<Rightarrow> 'e) \<Rightarrow> bool" where
  "sorted_but_down cmp n p E \<longleftrightarrow>
     (\<forall>i. 0 < i \<longrightarrow> i < n \<longrightarrow> parent i \<noteq> p \<longrightarrow> cmp (E (parent i)) (E i) \<noteq> Greater) \<and>
     (\<forall>i. 0 < p \<longrightarrow> 0 < i \<longrightarrow> i < n \<longrightarrow> parent i = p \<longrightarrow> cmp (E (parent p)) (E i) \<noteq> Greater)"

context heap_order begin

lemma up_step:
  assumes up: "sorted_but_up cmp n p E" and p: "0 < p" "p < n" and lt: "cmp (E p) (E (parent p)) = Less"
  shows "sorted_but_up cmp n (parent p) (E(p := E (parent p), parent p := E p))"
    (is "sorted_but_up cmp n ?q ?F")
proof -
  have q: "?q < p" "?q < n" "?q \<noteq> p" using parent_less [OF p(1)] p(2) by auto
  have other: "le (E (parent i)) (E i)" if "0 < i" "i < n" "i \<noteq> p" for i
    using up that by (auto simp: sorted_but_up_def)
  have sib: "le (E ?q) (E i)" if "0 < i" "i < n" "parent i = ?q" "i \<noteq> p" for i
    using other [OF that(1,2,4)] that(3) by simp
  have kid: "le (E ?q) (E i)" if "0 < i" "i < n" "parent i = p" for i
    using up that p by (auto simp: sorted_but_up_def)
  have grand: "le (E (parent ?q)) (E ?q)" if "0 < ?q"
    using up that q by (auto simp: sorted_but_up_def)
  have c1: "le (?F (parent i)) (?F i)" if i: "0 < i" "i < n" "i \<noteq> ?q" for i
  proof (cases "i = p")
    case True
    then show ?thesis using q less_le [OF lt] by simp
  next
    case False
    consider "parent i = p" | "parent i = ?q" | "parent i \<noteq> p" "parent i \<noteq> ?q" by blast
    then show ?thesis
    proof cases
      case 1
      then show ?thesis using kid [OF i(1,2)] False i(3) q by simp
    next
      case 2
      then show ?thesis using trans [OF less_le [OF lt] sib [OF i(1,2) 2 False]] False i(3) by simp
    next
      case 3
      then show ?thesis using other [OF i(1,2) False] False i(3) by simp
    qed
  qed
  have c2: "le (?F (parent ?q)) (?F i)" if i: "0 < ?q" "0 < i" "i < n" "parent i = ?q" for i
  proof -
    have "parent ?q < ?q" using i(1) by (rule parent_less)
    then have F: "?F (parent ?q) = E (parent ?q)" using q by simp
    show ?thesis
    proof (cases "i = p")
      case True
      then show ?thesis using F grand [OF i(1)] q by simp
    next
      case False
      have "i \<noteq> ?q" using i(2,4) parent_less [of i] by auto
      then show ?thesis using F trans [OF grand [OF i(1)] sib [OF i(2,3,4) False]] False by simp
    qed
  qed
  show ?thesis unfolding sorted_but_up_def using c1 c2 by blast
qed

lemma up_done:
  assumes "sorted_but_up cmp n p E" "p = 0 \<or> cmp (E p) (E (parent p)) \<noteq> Less"
  shows "heap_sorted cmp n E"
  unfolding heap_sorted_def
proof (intro allI impI)
  fix i assume i: "0 < i" "i < n"
  show "cmp (E (parent i)) (E i) \<noteq> Greater"
  proof (cases "i = p")
    case True
    then show ?thesis using assms(2) i not_less_le by auto
  next
    case False
    then show ?thesis using assms(1) i by (simp add: sorted_but_up_def)
  qed
qed

lemma down_step:
  assumes down: "sorted_but_down cmp n p E" and c: "0 < c" "c < n" "parent c = p"
    and best: "\<And>i. 0 < i \<Longrightarrow> i < n \<Longrightarrow> parent i = p \<Longrightarrow> le (E c) (E i)"
    and gt: "cmp (E p) (E c) = Greater"
  shows "sorted_but_down cmp n c (E(p := E c, c := E p))" (is "sorted_but_down cmp n c ?F")
proof -
  have p: "p < c" "p \<noteq> c" "p < n" using parent_less [OF c(1)] c by auto
  have c1: "le (?F (parent i)) (?F i)" if i: "0 < i" "i < n" "parent i \<noteq> c" for i
  proof (cases "parent i = p")
    case True
    show ?thesis
    proof (cases "i = c")
      case True
      then show ?thesis using c(3) p greater_le [OF gt] by simp
    next
      case False
      moreover have "i \<noteq> p" using True parent_less [OF i(1)] by auto
      ultimately show ?thesis using True p best [OF i(1,2)] by simp
    qed
  next
    case False
    then have E: "le (E (parent i)) (E i)" and ic: "i \<noteq> c"
      using down i c(3) by (auto simp: sorted_but_down_def)
    show ?thesis
    proof (cases "i = p")
      case True
      then have "le (E (parent p)) (E c)" using down c i by (auto simp: sorted_but_down_def)
      then show ?thesis using True p False i by simp
    next
      case False
      then show ?thesis using E ic \<open>parent i \<noteq> p\<close> i(3) by simp
    qed
  qed
  have c2: "le (?F (parent c)) (?F i)" if i: "0 < i" "i < n" "parent i = c" for i
  proof -
    have "i \<noteq> c" "i \<noteq> p" using parent_less [OF i(1)] i(3) p by auto
    moreover have "le (E c) (E i)" using down i p by (auto simp: sorted_but_down_def)
    ultimately show ?thesis using c(3) p by simp
  qed
  show ?thesis unfolding sorted_but_down_def using c1 c2 by blast
qed

lemma down_done:
  assumes "sorted_but_down cmp n p E" "\<And>i. 0 < i \<Longrightarrow> i < n \<Longrightarrow> parent i = p \<Longrightarrow> le (E p) (E i)"
  shows "heap_sorted cmp n E"
  unfolding heap_sorted_def using assms by (metis sorted_but_down_def)

end

end
