(* ===== verification/O3_Heap_Ops.thy ===== *)
theory O3_Heap_Ops
  imports O3_Heap_Proofs
begin

text \<open>
  Applying a path (src/src/depot/heap/hole/path/): the two loops that move the entries are shown
  to retrace the path that was decided, the one going down from nothing but its end, and to
  leave a sorted heap with the same contents. Then the reverse map with an entry more or less.
\<close>

section \<open>Applying a path\<close>

text \<open>What applying a path to a hole promises of the heap that committing the hole gives.\<close>

definition hole_moved ::
  "('e \<Rightarrow> nat) \<Rightarrow> ('e \<Rightarrow> 'e \<Rightarrow> ordering) \<Rightarrow> nat \<Rightarrow> ('e, 'w::len word) hole \<Rightarrow> ('e, 'w word) hole \<Rightarrow> bool" where
  "hole_moved adr cmp n hole hole' \<longleftrightarrow>
     hole_ok adr n hole' \<and> items n (hole_entries adr hole') = items n (hole_entries adr hole) \<and>
     heap_sorted cmp n (hole_entries adr hole') \<and>
     ho_value hole' = ho_value hole \<and> hp_len (ho_owner hole') = hp_len (ho_owner hole)"

lemma hole_entries_at: "hole_entries adr hole (ho_position hole) = ho_value hole"
  by (simp add: hole_entries_eq)

lemma path_up_end_le: "path_up_end c p \<le> p"
proof (induction c p rule: path_up_end.induct)
  case (1 c p)
  show ?case
  proof (cases "p = 0")
    case True
    then show ?thesis by (simp add: path_up_end.simps)
  next
    case False
    then have "path_up_end c ((p - 1) div 2) \<le> (p - 1) div 2" if "is_lt (c ((p - 1) div 2))"
      using 1 [OF False refl] that by simp
    then show ?thesis by (subst path_up_end.simps) (auto simp: Let_def)
  qed
qed

lemma path_up_end_step:
  "path_up_end c p = (if 0 < p \<and> c (parent p) = Less then path_up_end c (parent p) else p)"
  by (subst path_up_end.simps) (auto simp: parent_def is_lt_def Let_def)

lemma path_down_end_ge: "p \<le> path_down_end c ca n p"
proof (induction c ca n p rule: path_down_end.induct)
  case (1 c ca n p)
  let ?l = "p * 2 + 1"
  let ?c = "?l + (if ?l + 1 < n \<and> is_lt (ca (?l + 1) ?l) then 1 else 0)"
  have "?c \<le> path_down_end c ca n ?c" if "2 \<le> n \<and> p \<le> (n - 2) div 2" "is_gt (c ?c)"
    using 1 [OF that(1) refl refl refl] that(2) by blast
  moreover have "p \<le> ?c" by simp
  ultimately show ?case
    by (subst path_down_end.simps) (smt (verit, best) le_refl le_trans)
qed

text \<open>The child the path goes down to is the smaller one; there is one when the test on the length says so.\<close>

definition min_child :: "(nat \<Rightarrow> nat \<Rightarrow> ordering) \<Rightarrow> nat \<Rightarrow> nat \<Rightarrow> nat" where
  "min_child ca n p = p * 2 + 1 + (if p * 2 + 2 < n \<and> is_lt (ca (p * 2 + 2) (p * 2 + 1)) then 1 else 0)"

lemma path_down_end_step:
  "path_down_end c ca n p =
     (if 2 * p + 1 < n \<and> c (min_child ca n p) = Greater
      then path_down_end c ca n (min_child ca n p) else p)"
proof -
  have "2 \<le> n \<and> p \<le> (n - 2) div 2 \<longleftrightarrow> 2 * p + 1 < n" by auto
  then show ?thesis
    by (subst path_down_end.simps) (simp add: Let_def min_child_def is_gt_def)
qed

lemma min_child_props:
  assumes "2 * p + 1 < n"
  shows "min_child ca n p < n" "parent (min_child ca n p) = p" "p < min_child ca n p"
    "(min_child ca n p + 1) div 2 = p + 1"
  using assms by (auto simp: min_child_def parent_def)

context heap_order begin

lemma apply_up_moved:
  assumes "hole_ok adr n hole"
    and "sorted_but_up cmp n (ho_position hole) (hole_entries adr hole)"
    and "e = path_up_end (\<lambda>i. cmp (ho_value hole) (hole_entries adr hole i)) (ho_position hole)"
  shows "hole_moved adr cmp n hole (apply_up adr e hole) \<and> ho_position (apply_up adr e hole) = e"
  using assms
proof (induction "ho_position hole" arbitrary: hole rule: less_induct)
  case less
  let ?p = "ho_position hole" and ?E = "hole_entries adr hole" and ?v = "ho_value hole"
  let ?q = "parent ?p" and ?next = "hole_shift adr (parent ?p) hole"
  have at: "?E ?p = ?v" by (rule hole_entries_at)
  show ?case
  proof (cases "0 < ?p \<and> cmp ?v (?E ?q) = Less")
    case True
    then have p: "0 < ?p" and lt: "cmp ?v (?E ?q) = Less" by simp_all
    have pn: "?p < n" using less.prems(1) by (simp add: hole_ok_def)
    have q: "?q < ?p" using parent_less [OF p] .
    have e: "e = path_up_end (\<lambda>i. cmp ?v (?E i)) ?q"
      using less.prems(3) True by (subst (asm) path_up_end_step) simp
    have eq: "e \<le> ?q" using path_up_end_le e by simp
    have ok: "hole_ok adr n ?next" and it: "items n (hole_entries adr ?next) = items n ?E"
      using hole_shift_ok [OF less.prems(1), of ?q] q pn by auto
    have E: "hole_entries adr ?next = ?E(?p := ?E ?q, ?q := ?E ?p)"
      using hole_shift_swap(1) [of ?q hole adr] q by simp
    have up: "sorted_but_up cmp n (ho_position ?next) (hole_entries adr ?next)"
      using up_step [OF less.prems(2) p pn] lt E at by simp
    have same: "e = path_up_end (\<lambda>i. cmp (ho_value ?next) (hole_entries adr ?next i)) (ho_position ?next)"
      unfolding e hole_shift_simps by (rule path_up_end_cong) (use E q in auto)
    have "apply_up adr e hole = apply_up adr e ?next"
      using eq q p by (subst apply_up.simps) (simp add: parent_def)
    with less.hyps [OF _ ok up same] q it show ?thesis
      by (simp add: hole_moved_def)
  next
    case False
    then have e: "e = ?p" using less.prems(3) by (subst (asm) path_up_end_step) auto
    have "apply_up adr e hole = hole" using e by (subst apply_up.simps) simp
    moreover have "heap_sorted cmp n ?E"
      using up_done [OF less.prems(2)] False at by auto
    ultimately show ?thesis using less.prems(1) e by (simp add: hole_moved_def)
  qed
qed

lemma min_child_best:
  assumes "2 * p + 1 < n" "0 < i" "i < n" "parent i = p"
  shows "le (E (min_child (\<lambda>i j. cmp (E i) (E j)) n p)) (E i)"
proof -
  have "i = 2 * p + 1 \<or> i = 2 * p + 2" using parent_eq_iff assms by blast
  then show ?thesis
    using assms le_refl less_le [of "E (2 * p + 2)" "E (2 * p + 1)"] not_less_le [of "E (2 * p + 2)" "E (2 * p + 1)"]
    by (auto simp: min_child_def is_lt_def mult.commute)
qed

lemma apply_down_moved:
  assumes "hole_ok adr n hole"
    and "sorted_but_down cmp n (ho_position hole) (hole_entries adr hole)"
    and "e = path_down_end (\<lambda>i. cmp (ho_value hole) (hole_entries adr hole i))
           (\<lambda>i j. cmp (hole_entries adr hole i) (hole_entries adr hole j)) n (ho_position hole)"
  shows "\<exists>k. (e + 1) div 2 ^ k = ho_position hole + 1 \<and> hole_moved adr cmp n hole (apply_down adr e k hole) \<and>
    ho_position (apply_down adr e k hole) = e"
  using assms
proof (induction "n - ho_position hole" arbitrary: hole rule: less_induct)
  case less
  let ?p = "ho_position hole" and ?E = "hole_entries adr hole" and ?v = "ho_value hole"
  let ?ca = "\<lambda>i j. cmp (?E i) (?E j)"
  let ?c = "min_child ?ca n ?p"
  let ?next = "hole_shift adr ?c hole"
  have at: "?E ?p = ?v" by (rule hole_entries_at)
  have pn: "?p < n" using less.prems(1) by (simp add: hole_ok_def)
  show ?case
  proof (cases "2 * ?p + 1 < n \<and> cmp ?v (?E ?c) = Greater")
    case True
    then have kid: "2 * ?p + 1 < n" and gt: "cmp (?E ?p) (?E ?c) = Greater" using at by simp_all
    note c = min_child_props [OF kid, of ?ca]
    have e: "e = path_down_end (\<lambda>i. cmp ?v (?E i)) ?ca n ?c"
      using less.prems(3) True by (subst (asm) path_down_end_step) simp
    have ok: "hole_ok adr n ?next" and it: "items n (hole_entries adr ?next) = items n ?E"
      using hole_shift_ok [OF less.prems(1), of ?c] c by auto
    have E: "hole_entries adr ?next = ?E(?p := ?E ?c, ?c := ?E ?p)"
      using hole_shift_swap(1) [of ?c hole adr] c by simp
    have down: "sorted_but_down cmp n (ho_position ?next) (hole_entries adr ?next)"
    proof -
      have "0 < ?c" using c(3) by simp
      from down_step [OF less.prems(2) this c(1,2) min_child_best [OF kid] gt]
      show ?thesis unfolding E hole_shift_simps .
    qed
    have same: "e = path_down_end (\<lambda>i. cmp (ho_value ?next) (hole_entries adr ?next i))
       (\<lambda>i j. cmp (hole_entries adr ?next i) (hole_entries adr ?next j)) n (ho_position ?next)"
    proof -
      have keep: "hole_entries adr ?next i = ?E i" if "?c < i" for i
        using that c(3) unfolding E by simp
      show ?thesis
        unfolding e hole_shift_simps by (rule path_down_end_cong) (simp_all only: keep)
    qed
    have "n - ho_position ?next < n - ?p"
      unfolding hole_shift_simps by (rule diff_less_mono2 [OF c(3) pn])
    from less.hyps [OF this ok down same, unfolded hole_shift_simps]
    obtain k where k: "(e + 1) div 2 ^ k = ?c + 1"
      and moved: "hole_moved adr cmp n ?next (apply_down adr e k ?next)"
        "ho_position (apply_down adr e k ?next) = e"
      by blast
    have step: "apply_down adr e (Suc k) hole = apply_down adr e k ?next"
      using k by (simp del: One_nat_def add: drop_bit_eq_div)
    have "(e + 1) div 2 ^ Suc k = ((e + 1) div 2 ^ k) div 2"
      by (simp only: power_Suc2 div_mult2_eq)
    also have "\<dots> = ?p + 1" using k c(4) by simp
    finally have "(e + 1) div 2 ^ Suc k = ?p + 1" .
    moreover have "hole_moved adr cmp n hole (apply_down adr e (Suc k) hole)"
      using moved(1) it unfolding step by (simp add: hole_moved_def)
    ultimately show ?thesis using moved(2) step by metis
  next
    case False
    then have e: "e = ?p" using less.prems(3) by (subst (asm) path_down_end_step) auto
    have "heap_sorted cmp n ?E"
    proof (rule down_done [OF less.prems(2)])
      fix i assume i: "0 < i" "i < n" "parent i = ?p"
      then have kid: "2 * ?p + 1 < n" using parent_eq_iff [of i ?p] by auto
      then have "le ?v (?E ?c)" using False by simp
      from trans [OF this min_child_best [OF kid i, of ?E]] show "le (?E ?p) (?E i)" using at by simp
    qed
    then have "hole_moved adr cmp n hole (apply_down adr e 0 hole)"
      using less.prems(1) by (simp add: hole_moved_def)
    then show ?thesis using e by (intro exI [of _ 0]) simp
  qed
qed

lemma path_apply_up:
  assumes hole: "hole = \<lparr>ho_owner = owner, ho_value = v, ho_position = pt_start p\<rparr>"
    and "hole_ok adr n hole"
    and "sorted_but_up cmp n (pt_start p) (hole_entries adr hole)"
    and "pt_end p = path_up_end (\<lambda>i. cmp v (hole_entries adr hole i)) (pt_start p)"
  shows "hole_moved adr cmp n hole (path_apply adr p v owner) \<and> ho_position (path_apply adr p v owner) = pt_end p"
proof -
  have moved: "hole_moved adr cmp n hole (apply_up adr (pt_end p) hole) \<and> ho_position (apply_up adr (pt_end p) hole) = pt_end p"
    by (rule apply_up_moved) (use assms in simp_all)
  have le: "pt_end p \<le> pt_start p" using path_up_end_le assms(4) hole by simp
  have "path_apply adr p v owner = apply_up adr (pt_end p) hole"
  proof (cases "pt_end p = pt_start p")
    case True
    have "apply_up adr (pt_end p) hole = hole"
      using True by (subst apply_up.simps) (simp add: hole)
    then show ?thesis using True by (simp add: path_apply_def hole [symmetric])
  next
    case False
    then show ?thesis using le by (simp add: path_apply_def hole [symmetric])
  qed
  then show ?thesis using moved by simp
qed

end

lemma bit_length_div: "n div 2 ^ k \<noteq> 0 \<Longrightarrow> bit_length n = bit_length (n div 2 ^ k) + k"
proof (induction k arbitrary: n)
  case (Suc k)
  have "n div 2 ^ Suc k = (n div 2) div 2 ^ k" by (simp add: div_mult2_eq)
  moreover have "n \<noteq> 0" using Suc.prems by (metis div_0)
  ultimately show ?case using Suc.IH [of "n div 2"] Suc.prems by (subst bit_length.simps) simp
qed simp

lemma bit_length_le: "n < 2 ^ k \<Longrightarrow> bit_length n \<le> k"
proof (induction k arbitrary: n)
  case (Suc k)
  then show ?case using Suc.IH [of "n div 2"] by (subst bit_length.simps) auto
qed (simp add: bit_length.simps)

lemma leading_zeros_depth:
  assumes "(e + 1) div 2 ^ k = p + 1" "e + 1 < 2 ^ 64"
  shows "leading_zeros (p + 1) - leading_zeros (e + 1) = k"
  using bit_length_div [of "e + 1" k] bit_length_le [OF assms(2)] assms(1)
  by (simp add: leading_zeros_def)

context heap_order begin

lemma path_apply_down:
  assumes hole: "hole = \<lparr>ho_owner = owner, ho_value = v, ho_position = pt_start p\<rparr>"
    and "hole_ok adr n hole"
    and "sorted_but_down cmp n (pt_start p) (hole_entries adr hole)"
    and "pt_end p = path_down_end (\<lambda>i. cmp v (hole_entries adr hole i))
           (\<lambda>i j. cmp (hole_entries adr hole i) (hole_entries adr hole j)) n (pt_start p)"
  shows "hole_moved adr cmp n hole (path_apply adr p v owner) \<and> ho_position (path_apply adr p v owner) = pt_end p"
proof -
  obtain k where k: "(pt_end p + 1) div 2 ^ k = pt_start p + 1"
    and moved: "hole_moved adr cmp n hole (apply_down adr (pt_end p) k hole)"
      "ho_position (apply_down adr (pt_end p) k hole) = pt_end p"
    using apply_down_moved [OF assms(2), of "pt_end p"] assms(3,4) hole by auto
  have "pt_end p < n" and n: "n < 2 ^ 32"
    using moved by (auto simp: hole_moved_def hole_ok_def planes_def)
  then have "pt_end p + 1 < 2 ^ 64" by simp
  then have depth: "leading_zeros (pt_start p + 1) - leading_zeros (pt_end p + 1) = k"
    by (rule leading_zeros_depth [OF k])
  have ge: "pt_start p \<le> pt_end p" using path_down_end_ge assms(4) hole by simp
  have "path_apply adr p v owner = apply_down adr (pt_end p) k hole"
  proof (cases "pt_start p = pt_end p")
    case True
    then have "k = 0" using depth by simp
    then show ?thesis using True hole by (simp add: path_apply_def)
  next
    case False
    then show ?thesis using ge depth by (simp add: path_apply_def hole [symmetric])
  qed
  then show ?thesis using moved by simp
qed

text \<open>A sorted heap with one entry exchanged, by the outcome of the comparison the code makes.\<close>

lemma sorted_change_up:
  assumes s: "heap_sorted cmp n E" and p: "p < n" and v: "le v (E p)"
  shows "sorted_but_up cmp n p (E(p := v))"
proof -
  have "le (E (parent i)) (E i)" if "0 < i" "i < n" for i using s that by (simp add: heap_sorted_def)
  moreover have "le v (E i)" if "0 < i" "i < n" "parent i = p" for i
    using trans [OF v, of "E i"] s that by (auto simp: heap_sorted_def)
  moreover have "le (E (parent p)) (E i)" if "0 < p" "0 < i" "i < n" "parent i = p" for i
    using trans [of "E (parent p)" "E p" "E i"] s p that by (auto simp: heap_sorted_def)
  ultimately show ?thesis
    using parent_less unfolding sorted_but_up_def by (auto simp: less_imp_neq)
qed

lemma sorted_change_down:
  assumes s: "heap_sorted cmp n E" and p: "p < n" and v: "p = 0 \<or> le (E (parent p)) v"
  shows "sorted_but_down cmp n p (E(p := v))"
proof -
  have "le (E (parent i)) (E i)" if "0 < i" "i < n" for i using s that by (simp add: heap_sorted_def)
  moreover have "le (E (parent p)) (E i)" if "0 < p" "0 < i" "i < n" "parent i = p" for i
    using trans [of "E (parent p)" "E p" "E i"] s p that by (auto simp: heap_sorted_def)
  ultimately show ?thesis
    using parent_less v unfolding sorted_but_down_def by (auto simp: less_imp_neq)
qed

lemma sorted_change_equal:
  assumes s: "heap_sorted cmp n E" and p: "p < n" and v: "cmp v (E p) = Equal"
  shows "heap_sorted cmp n (E(p := v))"
proof -
  have up: "le v (E p)" using v by simp
  have down: "le (E p) v" using v flip [of v "E p"] by simp
  have "cmp v (E (parent p)) \<noteq> Less" if "0 < p"
  proof -
    have "le (E (parent p)) (E p)" using s p that by (simp add: heap_sorted_def)
    then have "le (E (parent p)) v" using down by (rule trans)
    then show ?thesis using flip by blast
  qed
  then have "p = 0 \<or> cmp ((E(p := v)) p) ((E(p := v)) (parent p)) \<noteq> Less"
    using parent_less [of p] by auto
  then show ?thesis by (rule up_done [OF sorted_change_up [OF s p up]])
qed

lemma sorted_prefix: "heap_sorted cmp n E \<Longrightarrow> m \<le> n \<Longrightarrow> heap_sorted cmp m E"
  by (simp add: heap_sorted_def)

lemma sorted_root:
  assumes s: "heap_sorted cmp n E" and "i < n"
  shows "le (E 0) (E i)"
  using assms(2)
proof (induction i rule: less_induct)
  case (less i)
  show ?case
  proof (cases "i = 0")
    case False
    then have "le (E 0) (E (parent i))" using less parent_less [of i] by simp
    moreover have "le (E (parent i)) (E i)" using s False less.prems by (simp add: heap_sorted_def)
    ultimately show ?thesis by (rule trans)
  qed (simp add: le_refl)
qed

text \<open>
  A repaired path needs no sorted heap to start from: only that the entry put at the start breaks
  the order in the direction the code finds.
\<close>

lemma path_repair_moved_by:
  assumes hole: "hole = \<lparr>ho_owner = owner, ho_value = v, ho_position = start\<rparr>"
    and ok: "hole_ok adr n hole"
    and up: "start \<noteq> 0 \<Longrightarrow> cmp v (E (parent start)) = Less \<Longrightarrow> sorted_but_up cmp n start (E(start := v))"
    and down: "start = 0 \<or> le (E (parent start)) v \<Longrightarrow> sorted_but_down cmp n start (E(start := v))"
    and E: "hole_entries adr hole = E(start := v)"
    and p: "p = path_repair (\<lambda>i. cmp v (E i)) (\<lambda>i j. cmp (E i) (E j)) start n"
  shows "hole_moved adr cmp n hole (path_apply adr p v owner) \<and> ho_position (path_apply adr p v owner) = pt_end p"
proof (cases "start \<noteq> 0 \<and> cmp v (E (parent start)) = Less")
  case True
  then have q: "parent start < start" using parent_less by simp
  have p_eq: "p = \<lparr>pt_start = start, pt_end = path_up_end (\<lambda>i. cmp v (E i)) start\<rparr>"
    using True by (subst path_up_end_step) (simp add: p path_repair_def path_up_def parent_def is_lt_def)
  have "pt_end p = path_up_end (\<lambda>i. cmp v ((E(start := v)) i)) start"
    unfolding p_eq by (simp, rule path_up_end_cong) simp
  then show ?thesis
    using up True by (intro path_apply_up) (simp_all add: p_eq hole [symmetric] ok E)
next
  case False
  then have "p = path_down (\<lambda>i. cmp v (E i)) (\<lambda>i j. cmp (E i) (E j)) start n"
    by (auto simp: p path_repair_def is_lt_def parent_def)
  then have p_eq: "p = \<lparr>pt_start = start, pt_end = path_down_end (\<lambda>i. cmp v (E i)) (\<lambda>i j. cmp (E i) (E j)) n start\<rparr>"
    by (simp add: path_down_def)
  have "start = 0 \<or> le (E (parent start)) v" using False not_less_le by auto
  moreover have "pt_end p = path_down_end (\<lambda>i. cmp v ((E(start := v)) i))
      (\<lambda>i j. cmp ((E(start := v)) i) ((E(start := v)) j)) n start"
    unfolding p_eq by (simp, rule path_down_end_cong) simp_all
  ultimately show ?thesis
    using down by (intro path_apply_down) (simp_all add: p_eq hole [symmetric] ok E)
qed

lemma path_repair_moved:
  assumes hole: "hole = \<lparr>ho_owner = owner, ho_value = v, ho_position = start\<rparr>"
    and ok: "hole_ok adr n hole" and s: "heap_sorted cmp n E"
    and E: "hole_entries adr hole = E(start := v)"
    and p: "p = path_repair (\<lambda>i. cmp v (E i)) (\<lambda>i j. cmp (E i) (E j)) start n"
  shows "hole_moved adr cmp n hole (path_apply adr p v owner) \<and> ho_position (path_apply adr p v owner) = pt_end p"
proof -
  have start: "start < n" using ok by (simp add: hole_ok_def hole)
  show ?thesis
  proof (rule path_repair_moved_by [OF hole ok _ _ E p])
    assume a: "start \<noteq> 0" "cmp v (E (parent start)) = Less"
    then have "le v (E start)"
      using trans [OF less_le, of v "E (parent start)" "E start"] s start by (simp add: heap_sorted_def)
    then show "sorted_but_up cmp n start (E(start := v))" by (rule sorted_change_up [OF s start])
  qed (rule sorted_change_down [OF s start])
qed

end

text \<open>The value a hole carries plays no part in the moves, and nothing beyond the path is touched.\<close>

lemma apply_up_value: "apply_up adr e (hole\<lparr>ho_value := v\<rparr>) = (apply_up adr e hole)\<lparr>ho_value := v\<rparr>"
proof (induction adr e hole rule: apply_up.induct)
  case (1 adr e hole)
  have shift: "hole_shift adr q (hole\<lparr>ho_value := v\<rparr>) = (hole_shift adr q hole)\<lparr>ho_value := v\<rparr>" for q
    by (simp add: hole_shift_def)
  show ?case using 1 by (subst (1 2) apply_up.simps) (simp add: shift)
qed

lemma apply_down_value: "apply_down adr e k (hole\<lparr>ho_value := v\<rparr>) = (apply_down adr e k hole)\<lparr>ho_value := v\<rparr>"
proof (induction k arbitrary: hole)
  case (Suc k)
  have shift: "hole_shift adr q (hole\<lparr>ho_value := v\<rparr>) = (hole_shift adr q hole)\<lparr>ho_value := v\<rparr>" for q
    by (simp add: hole_shift_def)
  show ?case by (simp add: shift Suc.IH Let_def)
qed simp

lemma path_apply_value: "path_apply adr p v owner = (path_apply adr p w owner)\<lparr>ho_value := v\<rparr>"
  using apply_up_value [of adr "pt_end p" v "\<lparr>ho_owner = owner, ho_value = w, ho_position = pt_start p\<rparr>"]
    apply_down_value [of adr "pt_end p" _ v "\<lparr>ho_owner = owner, ho_value = w, ho_position = pt_start p\<rparr>"]
  by (simp add: path_apply_def Let_def)

lemma apply_up_beyond:
  "ho_position hole < i \<Longrightarrow> hp_entries (ho_owner (apply_up adr e hole)) i = hp_entries (ho_owner hole) i"
proof (induction adr e hole rule: apply_up.induct)
  case (1 adr e hole)
  then show ?case by (subst apply_up.simps) (auto simp: less_mult_imp_div_less)
qed

lemma apply_down_beyond:
  "ho_position hole \<le> e \<Longrightarrow> e < i \<Longrightarrow>
   hp_entries (ho_owner (apply_down adr e k hole)) i = hp_entries (ho_owner hole) i"
proof (induction k arbitrary: hole)
  case (Suc k)
  have "drop_bit k (e + 1) \<le> e + 1" by (simp add: drop_bit_eq_div)
  then show ?case using Suc by simp
qed simp

lemma path_apply_beyond:
  "pt_start p < i \<Longrightarrow> pt_end p < i \<Longrightarrow>
   hp_entries (ho_owner (path_apply adr p v owner)) i = hp_entries owner i"
  by (simp add: path_apply_def Let_def apply_up_beyond apply_down_beyond)

section \<open>Entering and leaving the planes\<close>

lemma planes_cong:
  assumes "planes adr n E P" "\<And>i. i < n \<Longrightarrow> adr (F i) = adr (E i)"
  shows "planes adr n F P"
  using assms by (simp add: planes_def)

lemma planes_room:
  assumes P: "planes adr n E P" and a: "a < length P" "P ! a = pos_NONE"
  shows "n < length P"
proof -
  have "inj_on (\<lambda>i. adr (E i)) {..<n}" using planes_inj [OF P] by (auto intro: inj_onI)
  then have "n = card ((\<lambda>i. adr (E i)) ` {..<n})" by (simp add: card_image)
  also have "\<dots> \<le> card ({..<length P} - {a})"
    using P a planes_at [OF P a(1)] by (intro card_mono) (auto simp: planes_def)
  also have "\<dots> < length P" using a by simp
  finally show ?thesis .
qed

lemma planes_insert:
  assumes P: "planes adr n E (P :: 'w::len word list)" and v: "adr v < length P" "P ! adr v = pos_NONE"
  shows "planes adr (Suc n) (E(n := v)) (P[adr v := from_offset n])"
proof -
  have room: "n < length P" by (rule planes_room [OF P v])
  then have o: "offset (from_offset n :: 'w word) = n"
    using P by (intro offset_from) (auto simp: planes_def)
  have ne: "adr (E i) \<noteq> adr v" if "i < n" for i using planes_at [OF P v(1)] v(2) that by metis
  show ?thesis
    unfolding planes_def length_list_update
  proof (intro conjI allI impI)
    show "Suc n \<le> length P" "length P < 2 ^ LENGTH('w)" "length P < 2 ^ 32"
      using room P by (simp_all add: planes_def)
  next
    fix i assume "i < Suc n"
    then consider "i = n" | "i < n" by linarith
    then show "adr ((E(n := v)) i) < length P" "P[adr v := from_offset n] ! adr ((E(n := v)) i) = from_offset i"
      using P v ne by (cases; fastforce simp: planes_def)+
  next
    fix a assume a: "a < length P" and s: "P[adr v := from_offset n] ! a \<noteq> pos_NONE"
    show "offset (P[adr v := from_offset n] ! a) < Suc n"
      "adr ((E(n := v)) (offset (P[adr v := from_offset n] ! a))) = a"
      using P a s v o by (cases "a = adr v"; fastforce simp: planes_def)+
  qed
qed

lemma planes_drop_last:
  assumes P: "planes adr (Suc t) E (P :: 'w::len word list)"
  shows "planes adr t E (P[adr (E t) := pos_NONE])"
  unfolding planes_def length_list_update
proof (intro conjI allI impI)
  show "t \<le> length P" "length P < 2 ^ LENGTH('w)" "length P < 2 ^ 32" using P by (simp_all add: planes_def)
next
  fix i assume i: "i < t"
  then have "adr (E i) \<noteq> adr (E t)" using planes_inj [OF P, of i t] by auto
  then show "adr (E i) < length P" "P[adr (E t) := pos_NONE] ! adr (E i) = from_offset i"
    using P i by (auto simp: planes_def)
next
  fix a assume a: "a < length P" and s: "P[adr (E t) := pos_NONE] ! a \<noteq> pos_NONE"
  have ne: "a \<noteq> adr (E t)" using a s by auto
  then have "offset (P ! a) < Suc t" "adr (E (offset (P ! a))) = a" using P a s by (auto simp: planes_def)
  then show "offset (P[adr (E t) := pos_NONE] ! a) < t" "adr (E (offset (P[adr (E t) := pos_NONE] ! a))) = a"
    using ne by (auto simp: less_Suc_eq)
qed

lemma planes_drop:
  assumes P: "planes adr (Suc t) E P" and p: "p < t"
  shows "planes adr t (E(p := E t)) (P[adr (E p) := pos_NONE, adr (E t) := from_offset p])"
proof -
  have ne: "adr (E p) \<noteq> adr (E t)" using planes_inj [OF P, of p t] p by auto
  have "planes adr t (E(p := E t, t := E p)) (P[adr (E t) := from_offset p, adr (E p) := from_offset t,
      adr ((E(p := E t, t := E p)) t) := pos_NONE])"
    using p by (intro planes_drop_last planes_swap [OF P]) simp_all
  then have "planes adr t (E(p := E t, t := E p)) (P[adr (E p) := pos_NONE, adr (E t) := from_offset p])"
    using p ne by (simp add: list_update_swap [of "adr (E t)" "adr (E p)"])
  then show ?thesis by (rule planes_cong) simp
qed

end
