(* ===== verification/O3_Heap_Engine.thy ===== *)
theory O3_Heap_Engine
  imports O3_Heap_Ops
begin

text \<open>
  The operations of the heap engine (src/src/depot/heap/hole/): storing, replacing, updating and
  removing keep the planes in step and the heap sorted, and change its contents exactly as they
  should.
\<close>

section \<open>The operations\<close>

definition heap_ok :: "('e \<Rightarrow> nat) \<Rightarrow> ('e \<Rightarrow> 'e \<Rightarrow> ordering) \<Rightarrow> ('e, 'w::len word) heap \<Rightarrow> bool" where
  "heap_ok adr cmp h \<longleftrightarrow>
     planes adr (heap_len h) (hp_entries h) (hp_positions h) \<and> heap_sorted cmp (heap_len h) (hp_entries h)"

definition heap_items :: "('e, 'v) heap \<Rightarrow> 'e set" where
  "heap_items h = items (heap_len h) (hp_entries h)"

definition heap_capacity :: "('e, 'v) heap \<Rightarrow> nat" where
  "heap_capacity h = length (hp_positions h)"

lemma hole_shift_capacity [simp]:
  "length (hp_positions (ho_owner (hole_shift adr q hole))) = length (hp_positions (ho_owner hole))"
  by (simp add: hole_shift_def source_shift_def Let_def reindex_def)

lemma apply_up_capacity [simp]:
  "length (hp_positions (ho_owner (apply_up adr e hole))) = length (hp_positions (ho_owner hole))"
proof (induction adr e hole rule: apply_up.induct)
  case (1 adr e hole)
  then show ?case by (subst apply_up.simps) simp
qed

lemma apply_down_capacity [simp]:
  "length (hp_positions (ho_owner (apply_down adr e k hole))) = length (hp_positions (ho_owner hole))"
  by (induction k arbitrary: hole) (simp_all add: Let_def)

lemma path_apply_capacity [simp]:
  "length (hp_positions (ho_owner (path_apply adr p v owner))) = length (hp_positions owner)"
  by (simp add: path_apply_def Let_def)

lemma hole_commit_capacity [simp]:
  "length (hp_positions (hole_commit adr PLACE hole)) = length (hp_positions (ho_owner hole))"
  by (simp add: hole_commit_def source_write_def reindex_def Let_def)

lemma hole_commit_len [simp]: "hp_len (hole_commit adr PLACE hole) = hp_len (ho_owner hole)"
  by (simp add: hole_commit_def source_write_def Let_def)

lemma heap_present:
  "heap_ok adr cmp h \<Longrightarrow> a < heap_capacity h \<Longrightarrow>
   hp_positions h ! a \<noteq> pos_NONE \<longleftrightarrow> (\<exists>e\<in>heap_items h. adr e = a)"
  using planes_at unfolding heap_ok_def heap_capacity_def heap_items_def items_def by fastforce

lemma heap_items_index: "e \<in> heap_items h \<longleftrightarrow> (\<exists>i<heap_len h. hp_entries h i = e)"
  by (auto simp: heap_items_def items_def)

lemma heap_locate:
  assumes "heap_ok adr cmp h" "i < heap_len h"
  shows "adr (hp_entries h i) < heap_capacity h" "offset (hp_positions h ! adr (hp_entries h i)) = i"
    "hp_positions h ! adr (hp_entries h i) \<noteq> pos_NONE"
  using assms planes_fit [of adr "heap_len h" "hp_entries h" "hp_positions h" i]
  by (auto simp: heap_ok_def heap_capacity_def planes_def)

lemma heap_found:
  assumes "heap_ok adr cmp h" "a < heap_capacity h" "hp_positions h ! a \<noteq> pos_NONE"
  shows "offset (hp_positions h ! a) < heap_len h" "adr (hp_entries h (offset (hp_positions h ! a))) = a"
  using assms by (auto simp: heap_ok_def heap_capacity_def planes_def)

lemma heap_adr_inj: "heap_ok adr cmp h \<Longrightarrow> e \<in> heap_items h \<Longrightarrow> f \<in> heap_items h \<Longrightarrow> adr e = adr f \<Longrightarrow> e = f"
  unfolding heap_items_index heap_ok_def by (metis planes_inj)

context heap_order begin

lemma heap_root:
  "heap_ok adr cmp h \<Longrightarrow> e \<in> heap_items h \<Longrightarrow> hp_entries h 0 \<in> heap_items h \<and> le (hp_entries h 0) e"
  using sorted_root unfolding heap_items_index heap_ok_def by (metis gr_zeroI not_less_zero)

lemma commit_ok:
  assumes "hole_moved adr cmp (unat (hp_len (ho_owner hole))) hole hole'"
  shows "heap_ok adr cmp (hole_commit adr True hole')"
    and "heap_items (hole_commit adr True hole') = items (unat (hp_len (ho_owner hole))) (hole_entries adr hole)"
    and "ho_position hole' < heap_len (hole_commit adr True hole')"
    and "hp_entries (hole_commit adr True hole') (ho_position hole') = ho_value hole"
  using assms hole_entries_at [of adr hole']
  by (simp_all add: hole_moved_def heap_ok_def heap_items_def heap_len_def hole_ok_def)

lemma sorted_append:
  assumes s: "heap_sorted cmp n E"
  shows "sorted_but_up cmp (Suc n) n (E(n := v))"
  unfolding sorted_but_up_def
proof (intro conjI allI impI)
  fix i assume i: "0 < i" "i < Suc n"
  have q: "parent i < n" using parent_less [OF i(1)] i(2) by simp
  show "cmp ((E(n := v)) (parent i)) ((E(n := v)) i) \<noteq> Greater" if "i \<noteq> n"
    using s i q that by (simp add: heap_sorted_def)
  show "cmp ((E(n := v)) (parent n)) ((E(n := v)) i) \<noteq> Greater" if "parent i = n"
    using q that by simp
qed

lemma hole_append_ok:
  assumes h: "heap_ok adr cmp h" and v: "adr v < heap_capacity h" "hp_positions h ! adr v = pos_NONE"
  shows "heap_ok adr cmp (hole_commit adr True (hole_append adr cmp v h))"
    and "heap_items (hole_commit adr True (hole_append adr cmp v h)) = insert v (heap_items h)"
    and "heap_capacity (hole_commit adr True (hole_append adr cmp v h)) = heap_capacity h"
    and "heap_len (hole_commit adr True (hole_append adr cmp v h)) = Suc (heap_len h)"
    and "ho_position (hole_append adr cmp v h) < Suc (heap_len h)"
    and "hp_entries (hole_commit adr True (hole_append adr cmp v h)) (ho_position (hole_append adr cmp v h)) = v"
proof -
  let ?n = "heap_len h" and ?E = "hp_entries h" and ?P = "hp_positions h"
  define owner where "owner = h\<lparr>hp_len := word_of_nat ?n + 1\<rparr>"
  define hole where "hole = \<lparr>ho_owner = owner, ho_value = v, ho_position = ?n\<rparr>"
  define p where "p = path_up (\<lambda>i. cmp v (?E i)) ?n"
  have P: "planes adr ?n ?E ?P" and s: "heap_sorted cmp ?n ?E" using h by (simp_all add: heap_ok_def)
  have v': "adr v < length ?P" using v by (simp add: heap_capacity_def)
  have "?n < length ?P" by (rule planes_room [OF P v' v(2)])
  then have "?n + 1 < 2 ^ 32" using P by (simp add: planes_def)
  then have len: "unat (hp_len (ho_owner hole)) = Suc ?n"
    by (simp add: hole_def owner_def heap_len_def unat_word_ariths)
  have E: "hole_entries adr hole = ?E(?n := v)" by (simp add: hole_entries_eq hole_def owner_def)
  have ok: "hole_ok adr (Suc ?n) hole"
    using planes_insert [of adr, OF P v' v(2)] unfolding hole_ok_def E hole_positions_eq
    by (simp add: hole_def owner_def)
  have up: "sorted_but_up cmp (Suc ?n) ?n (hole_entries adr hole)"
    unfolding E by (rule sorted_append [OF s])
  have append: "hole_append adr cmp v h = path_apply adr p v owner"
    by (simp add: hole_append_def path_append_def p_def owner_def path_up_def Let_def)
  have moved: "hole_moved adr cmp (Suc ?n) hole (hole_append adr cmp v h)"
    unfolding append
  proof (rule conjunct1, rule path_apply_up)
    show "hole = \<lparr>ho_owner = owner, ho_value = v, ho_position = pt_start p\<rparr>"
      by (simp add: hole_def p_def path_up_def)
    show "hole_ok adr (Suc ?n) hole" by (rule ok)
    show "sorted_but_up cmp (Suc ?n) (pt_start p) (hole_entries adr hole)"
      using up by (simp add: p_def path_up_def)
    show "pt_end p = path_up_end (\<lambda>i. cmp v (hole_entries adr hole i)) (pt_start p)"
      unfolding E p_def path_up_def by (simp, rule path_up_end_cong) simp
  qed
  note result = commit_ok [of adr hole, unfolded len, OF moved]
  show "heap_ok adr cmp (hole_commit adr True (hole_append adr cmp v h))" by (rule result)
  show "heap_items (hole_commit adr True (hole_append adr cmp v h)) = insert v (heap_items h)"
    unfolding result E by (auto simp: heap_items_def items_def less_Suc_eq)
  show "heap_capacity (hole_commit adr True (hole_append adr cmp v h)) = heap_capacity h"
    by (simp add: heap_capacity_def append owner_def)
  show l: "heap_len (hole_commit adr True (hole_append adr cmp v h)) = Suc (heap_len h)"
    using moved len by (simp add: heap_len_def hole_moved_def)
  show "ho_position (hole_append adr cmp v h) < Suc (heap_len h)" using result(3) l by simp
  show "hp_entries (hole_commit adr True (hole_append adr cmp v h)) (ho_position (hole_append adr cmp v h)) = v"
    unfolding result by (simp add: hole_def)
qed

text \<open>An entry exchanged for one of the same identity: the reverse map already has it.\<close>

lemma exchange_hole:
  assumes h: "heap_ok adr cmp h" and p: "position < heap_len h" and v: "adr v = adr (hp_entries h position)"
    and hole: "hole = \<lparr>ho_owner = h, ho_value = v, ho_position = position\<rparr>"
  shows "hole_entries adr hole = (hp_entries h)(position := v)" "hole_positions adr hole = hp_positions h"
    "hole_ok adr (heap_len h) hole"
    "items (heap_len h) (hole_entries adr hole) = insert v (heap_items h - {hp_entries h position})"
proof -
  have P: "planes adr (heap_len h) (hp_entries h) (hp_positions h)" using h by (simp add: heap_ok_def)
  show E: "hole_entries adr hole = (hp_entries h)(position := v)" by (simp add: hole_entries_eq hole)
  have "hp_positions h ! adr v = from_offset position" using P p v by (simp add: planes_def)
  then show Q: "hole_positions adr hole = hp_positions h"
    by (simp add: hole_positions_eq hole) (metis list_update_id)
  show "hole_ok adr (heap_len h) hole"
    unfolding hole_ok_def E Q using planes_cong [OF P] p v by (simp add: hole)
  have "hp_entries h i \<noteq> hp_entries h position" if "i < heap_len h" "i \<noteq> position" for i
    using planes_inj [OF P that(1) p] that(2) by metis
  then show "items (heap_len h) (hole_entries adr hole) = insert v (heap_items h - {hp_entries h position})"
    unfolding E using p by (auto simp: items_def heap_items_def)
qed

lemma hole_replace_ok:
  assumes h: "heap_ok adr cmp h" and p: "position < heap_len h" and v: "adr v = adr (hp_entries h position)"
    and r: "hole_replace adr cmp position v h = ((q, h'), old)"
  shows "old = hp_entries h position" "heap_ok adr cmp h'"
    "heap_items h' = insert v (heap_items h - {old})" "heap_capacity h' = heap_capacity h"
    "heap_len h' = heap_len h" "q < heap_len h" "hp_entries h' q = v"
proof -
  let ?n = "heap_len h" and ?E = "hp_entries h"
  define hole where "hole = \<lparr>ho_owner = h, ho_value = v, ho_position = position\<rparr>"
  define p where "p = path_repair (\<lambda>i. cmp v (?E i)) (\<lambda>i j. cmp (?E i) (?E j)) position ?n"
  note ex = exchange_hole [OF h p v hole_def]
  have s: "heap_sorted cmp ?n ?E" using h by (simp add: heap_ok_def)
  have "hole_moved adr cmp ?n hole (path_apply adr p v h)"
    using path_repair_moved [OF hole_def ex(3) s ex(1) p_def] by simp
  then have moved: "hole_moved adr cmp (unat (hp_len (ho_owner hole))) hole (path_apply adr p v h)"
    by (simp add: hole_def heap_len_def)
  have eq: "old = ?E position" "q = ho_position (path_apply adr p v h)"
    "h' = hole_commit adr True (path_apply adr p v h)"
    using r by (simp_all add: hole_replace_def source_read_def hole_finish_def p_def Let_def)
  note result = commit_ok [OF moved, folded eq]
  show "old = ?E position" by (rule eq)
  show "heap_ok adr cmp h'" by (rule result)
  show "heap_items h' = insert v (heap_items h - {old})"
    unfolding result eq(1) ex(4) [symmetric] by (simp add: hole_def heap_len_def)
  show "heap_capacity h' = heap_capacity h" by (simp add: eq heap_capacity_def)
  show l: "heap_len h' = heap_len h" using moved by (simp add: eq heap_len_def hole_moved_def hole_def)
  show "q < heap_len h" using result(3) l by simp
  show "hp_entries h' q = v" unfolding result by (simp add: hole_def)
qed

lemma hole_update_ok:
  assumes h: "heap_ok adr cmp h" and p: "position < heap_len h" and v: "adr v = adr (hp_entries h position)"
  shows "heap_ok adr cmp (hole_update adr cmp position v h)"
    "heap_items (hole_update adr cmp position v h) = insert v (heap_items h - {hp_entries h position})"
    "heap_capacity (hole_update adr cmp position v h) = heap_capacity h"
    "heap_len (hole_update adr cmp position v h) = heap_len h"
proof -
  let ?n = "heap_len h" and ?E = "hp_entries h"
  let ?cv = "\<lambda>i. cmp v (?E i)" and ?ca = "\<lambda>i j. cmp (?E i) (?E j)"
  define hole where "hole = \<lparr>ho_owner = h, ho_value = v, ho_position = position\<rparr>"
  define p where "p = (case cmp v (?E position) of Less \<Rightarrow> path_up ?cv position
    | Greater \<Rightarrow> path_down ?cv ?ca position ?n | Equal \<Rightarrow> path_at position)"
  note ex = exchange_hole [OF h p v hole_def]
  have s: "heap_sorted cmp ?n ?E" using h by (simp add: heap_ok_def)
  have start: "pt_start p = position"
    by (simp add: p_def path_up_def path_down_def path_at_def split: ordering.split)
  have hole': "hole = \<lparr>ho_owner = h, ho_value = v, ho_position = pt_start p\<rparr>" by (simp add: hole_def start)
  have retraced: "hole_moved adr cmp ?n hole (path_apply adr p v h) \<and> ho_position (path_apply adr p v h) = pt_end p"
  proof (cases "cmp v (?E position)")
    case Less
    have "sorted_but_up cmp ?n position (?E(position := v))"
      using sorted_change_up [OF s p] Less by simp
    moreover have "pt_end p = path_up_end (\<lambda>i. cmp v (hole_entries adr hole i)) position"
      unfolding p_def Less path_up_def ex by (simp, rule path_up_end_cong) simp
    ultimately show ?thesis
      using path_apply_up [OF hole' ex(3)] ex(1) start by simp
  next
    case Greater
    have "le (?E (parent position)) v" if "position \<noteq> 0"
    proof -
      have "le (?E (parent position)) (?E position)" using s p that by (simp add: heap_sorted_def)
      then show ?thesis by (rule trans) (rule greater_le [OF Greater])
    qed
    then have "sorted_but_down cmp ?n position (?E(position := v))"
      by (intro sorted_change_down [OF s p]) blast
    moreover have "pt_end p = path_down_end (\<lambda>i. cmp v (hole_entries adr hole i))
        (\<lambda>i j. cmp (hole_entries adr hole i) (hole_entries adr hole j)) ?n position"
      unfolding p_def Greater path_down_def ex by (simp, rule path_down_end_cong) simp_all
    ultimately show ?thesis
      using path_apply_down [OF hole' ex(3)] ex(1) start by simp
  next
    case Equal
    then have "path_apply adr p v h = hole" by (simp add: p_def path_at_def path_apply_def hole_def)
    then show ?thesis
      using sorted_change_equal [OF s p Equal] ex(1,3)
      by (simp add: hole_moved_def hole_def p_def Equal path_at_def)
  qed
  then have moved: "hole_moved adr cmp (unat (hp_len (ho_owner hole))) hole (path_apply adr p v h)"
    by (simp add: hole_def heap_len_def)
  have eq: "hole_update adr cmp position v h = hole_commit adr True (path_apply adr p v h)"
  proof (cases "pt_end p = position")
    case True
    then have "path_apply adr p v h = hole" by (simp add: path_apply_def start hole_def)
    then have "hole_update adr cmp position v h = hole_commit adr False hole"
      by (simp add: hole_update_def source_read_def p_def [symmetric] Let_def) (simp add: hole_def)
    moreover have "hole_commit adr False hole = hole_commit adr True hole"
      using ex(2) by (simp add: hole_commit_def source_write_def hole_def Let_def)
    ultimately show ?thesis using \<open>path_apply adr p v h = hole\<close> by simp
  next
    case False
    then show ?thesis
      using retraced by (simp add: hole_update_def source_read_def p_def [symmetric] Let_def)
  qed
  note result = commit_ok [OF moved, folded eq]
  show "heap_ok adr cmp (hole_update adr cmp position v h)" by (rule result)
  show "heap_items (hole_update adr cmp position v h) = insert v (heap_items h - {hp_entries h position})"
    unfolding result ex(4) [symmetric] by (simp add: hole_def heap_len_def)
  show "heap_capacity (hole_update adr cmp position v h) = heap_capacity h"
    by (simp add: eq heap_capacity_def)
  show "heap_len (hole_update adr cmp position v h) = heap_len h"
    using moved by (simp add: eq heap_len_def hole_moved_def hole_def)
qed

text \<open>Removing fills the hole with the last entry: the final shift is the commit of that entry.\<close>

lemma remove_shift_commit:
  assumes "hp_entries (ho_owner hole) tail = ho_value hole"
  shows "ho_owner (hole_shift adr tail (hole\<lparr>ho_value := v\<rparr>)) = hole_commit adr True hole"
  using assms by (simp add: hole_shift_def source_shift_def hole_commit_def source_write_def Let_def)

lemma hole_remove_fill:
  assumes h: "heap_ok adr cmp h" and n: "heap_len h = Suc tail" and pt: "position < tail"
    and w: "w = hp_entries h tail"
    and owner: "owner = h\<lparr>hp_positions := (hp_positions h)[adr (hp_entries h position) := pos_NONE]\<rparr>"
    and p: "p = path_repair (\<lambda>i. cmp w (hp_entries h i)) (\<lambda>i j. cmp (hp_entries h i) (hp_entries h j)) position tail"
    and moved: "moved = path_apply adr p w owner"
  shows "hole_moved adr cmp tail \<lparr>ho_owner = owner, ho_value = w, ho_position = position\<rparr> moved"
    "ho_position moved = pt_end p"
    "hole_entries adr \<lparr>ho_owner = owner, ho_value = w, ho_position = position\<rparr> = (hp_entries h)(position := w)"
    "hole_remove adr cmp position h =
       (hp_entries h position, (hole_commit adr True moved)\<lparr>hp_len := word_of_nat tail\<rparr>)"
proof -
  let ?E = "hp_entries h" and ?P = "hp_positions h"
  define hole where "hole = \<lparr>ho_owner = owner, ho_value = w, ho_position = position\<rparr>"
  have P: "planes adr (Suc tail) ?E ?P" and s: "heap_sorted cmp tail ?E"
    using h sorted_prefix [of "heap_len h" ?E tail] by (simp_all add: heap_ok_def n)
  have E: "hole_entries adr hole = ?E(position := w)"
    by (simp add: hole_entries_eq hole_def owner)
  then show "hole_entries adr \<lparr>ho_owner = owner, ho_value = w, ho_position = position\<rparr> = ?E(position := w)"
    by (simp add: hole_def)
  have ok: "hole_ok adr tail hole"
    unfolding hole_ok_def E hole_positions_eq
    using planes_drop [OF P pt] pt by (simp add: hole_def owner w)
  have m: "hole_moved adr cmp tail hole moved" and q: "ho_position moved = pt_end p"
    using path_repair_moved [OF hole_def ok s E p] by (simp_all add: moved)
  then show "hole_moved adr cmp tail \<lparr>ho_owner = owner, ho_value = w, ho_position = position\<rparr> moved"
    "ho_position moved = pt_end p" by (simp_all add: hole_def)
  have start: "pt_start p = position" by (simp add: p path_repair_def path_down_def)
  have "pt_end p < tail" using m q by (simp add: hole_moved_def hole_ok_def)
  then have last: "hp_entries (ho_owner moved) tail = ho_value moved"
    using m path_apply_beyond [of p tail adr w owner] start pt
    by (simp add: moved hole_moved_def hole_def owner w)
  have "hole_remove adr cmp position h =
      (ho_value (path_apply adr p (?E position) owner),
       (ho_owner (hole_shift adr tail (path_apply adr p (?E position) owner)))\<lparr>hp_len := word_of_nat tail\<rparr>)"
    using pt by (simp add: hole_remove_def hole_remove_by_def n source_read_def reindex_def owner p w Let_def)
  moreover have "path_apply adr p (?E position) owner = moved\<lparr>ho_value := ?E position\<rparr>"
    unfolding moved by (rule path_apply_value)
  ultimately show "hole_remove adr cmp position h =
      (?E position, (hole_commit adr True moved)\<lparr>hp_len := word_of_nat tail\<rparr>)"
    using remove_shift_commit [OF last, of adr "?E position"] by auto
qed

lemma hole_remove_ok:
  assumes h: "heap_ok adr cmp h" and pos: "position < heap_len h"
    and r: "hole_remove adr cmp position h = (v, h')"
  shows "v = hp_entries h position" "heap_ok adr cmp h'" "heap_items h' = heap_items h - {v}"
    "heap_capacity h' = heap_capacity h" "heap_len h' = heap_len h - 1"
proof -
  let ?E = "hp_entries h" and ?P = "hp_positions h"
  define tail where "tail = heap_len h - 1"
  have n: "heap_len h = Suc tail" using pos by (simp add: tail_def)
  have P: "planes adr (Suc tail) ?E ?P" and s: "heap_sorted cmp tail ?E"
    using h sorted_prefix [of "heap_len h" ?E tail] by (simp_all add: heap_ok_def n)
  have "tail < 2 ^ 32" using P by (simp add: planes_def)
  then have len: "unat (word_of_nat tail :: u32) = tail" by (simp add: unat_of_nat_fits)
  have distinct: "?E i \<noteq> ?E j" if "i < Suc tail" "j < Suc tail" "i \<noteq> j" for i j
    using planes_inj [OF P that(1,2)] that(3) by metis
  have "v = ?E position \<and> heap_ok adr cmp h' \<and> heap_items h' = heap_items h - {v} \<and>
    heap_capacity h' = heap_capacity h \<and> heap_len h' = tail"
  proof (cases "position = tail")
    case True
    have eq: "v = ?E tail" "h' = h\<lparr>hp_positions := ?P[adr (?E tail) := pos_NONE], hp_len := word_of_nat tail\<rparr>"
      using r True by (auto simp: hole_remove_def hole_remove_by_def n source_read_def reindex_def Let_def)
    have "heap_len h' = tail" by (simp add: eq heap_len_def len)
    then have "heap_items h' = heap_items h - {v}"
      unfolding heap_items_def items_def n
      using distinct [of _ tail] by (auto simp: eq less_Suc_eq)
    then show ?thesis
      using True s planes_drop_last [OF P] len by (simp add: eq heap_ok_def heap_capacity_def heap_len_def)
  next
    case False
    then have pt: "position < tail" using pos n by simp
    define w where "w = ?E tail"
    define owner where "owner = h\<lparr>hp_positions := ?P[adr (?E position) := pos_NONE]\<rparr>"
    define p where "p = path_repair (\<lambda>i. cmp w (?E i)) (\<lambda>i j. cmp (?E i) (?E j)) position tail"
    define moved where "moved = path_apply adr p w owner"
    note fill = hole_remove_fill [OF h n pt w_def owner_def p_def moved_def]
    note m = fill(1) and E = fill(3)
    have eq: "v = ?E position" "h' = (hole_commit adr True moved)\<lparr>hp_len := word_of_nat tail\<rparr>"
      using fill(4) r by simp_all
    have "heap_items h' = items tail (?E(position := w))"
      using m E by (simp add: eq heap_items_def heap_len_def len hole_moved_def)
    also have "\<dots> = heap_items h - {v}"
      using pt distinct [of _ position]
      by (auto simp: items_def heap_items_def n eq w_def less_Suc_eq image_iff)
    finally have "heap_items h' = heap_items h - {v}" .
    then show ?thesis
      using m eq len by (simp add: heap_ok_def heap_len_def hole_moved_def hole_ok_def heap_capacity_def
          moved_def owner_def)
  qed
  then show "v = ?E position" "heap_ok adr cmp h'" "heap_items h' = heap_items h - {v}"
    "heap_capacity h' = heap_capacity h" "heap_len h' = heap_len h - 1"
    by (simp_all add: n)
qed

lemma vacancy_store_ok:
  assumes h: "heap_ok adr cmp h" and v: "adr v < heap_capacity h" "hp_positions h ! adr v = pos_NONE"
  shows "heap_ok adr cmp (vacancy_store adr cmp v h)" "heap_items (vacancy_store adr cmp v h) = insert v (heap_items h)"
    "heap_capacity (vacancy_store adr cmp v h) = heap_capacity h"
    "heap_len (vacancy_store adr cmp v h) = Suc (heap_len h)"
  using hole_append_ok [OF h v] by (simp_all add: vacancy_store_def)

end

section \<open>The root\<close>

text \<open>A path that starts below the root moves the root's entry only when it ends there.\<close>

lemma apply_up_root:
  "ho_position hole \<noteq> 0 \<Longrightarrow> hp_entries (ho_owner (apply_up adr e hole)) 0 = hp_entries (ho_owner hole) 0"
proof (induction adr e hole rule: apply_up.induct)
  case (1 adr e hole)
  let ?next = "hole_shift adr ((ho_position hole - 1) div 2) hole"
  have "hp_entries (ho_owner (apply_up adr e ?next)) 0 = hp_entries (ho_owner hole) 0" if "ho_position hole \<noteq> e"
  proof (cases "(ho_position hole - 1) div 2 = 0")
    case True
    then have "apply_up adr e ?next = ?next" by (subst apply_up.simps) simp
    then show ?thesis using 1(2) by simp
  next
    case False
    then show ?thesis using 1 that by simp
  qed
  then show ?case by (subst apply_up.simps) auto
qed

lemma apply_down_root:
  "ho_position hole \<noteq> 0 \<Longrightarrow> (e + 1) div 2 ^ k = ho_position hole + 1 \<Longrightarrow>
   hp_entries (ho_owner (apply_down adr e k hole)) 0 = hp_entries (ho_owner hole) 0"
proof (induction k arbitrary: hole)
  case (Suc k)
  let ?q = "drop_bit k (e + 1) - 1"
  have "((e + 1) div 2 ^ k) div 2 = ho_position hole + 1"
    using Suc.prems(2) by (simp only: power_Suc2 div_mult2_eq)
  then have q: "?q \<noteq> 0" "(e + 1) div 2 ^ k = ?q + 1" using Suc.prems(1) by (auto simp: drop_bit_eq_div)
  have "hp_entries (ho_owner (apply_down adr e k (hole_shift adr ?q hole))) 0 = hp_entries (ho_owner hole) 0"
    using Suc.IH [of "hole_shift adr ?q hole"] q Suc.prems(1) by simp
  then show ?case by (simp add: Let_def)
qed simp

lemma path_down_depth:
  assumes "p < n"
  shows "path_down_end c ca n p < n \<and> (\<exists>k. (path_down_end c ca n p + 1) div 2 ^ k = p + 1)"
  using assms
proof (induction "n - p" arbitrary: p rule: less_induct)
  case less
  let ?c = "min_child ca n p"
  show ?case
  proof (cases "2 * p + 1 < n \<and> c ?c = Greater")
    case True
    then have eq: "path_down_end c ca n p = path_down_end c ca n ?c" by (subst path_down_end_step) simp
    note kid = min_child_props [OF conjunct1 [OF True], of ca]
    have "n - ?c < n - p" using kid by (intro diff_less_mono2) simp_all
    from less.hyps [OF this kid(1)] obtain k where k: "path_down_end c ca n ?c < n"
      "(path_down_end c ca n ?c + 1) div 2 ^ k = ?c + 1" by blast
    then have "(path_down_end c ca n ?c + 1) div 2 ^ Suc k = p + 1"
      using kid(4) by (simp only: power_Suc2 div_mult2_eq)
    then show ?thesis using eq k(1) by metis
  next
    case False
    then have "path_down_end c ca n p = p" by (subst path_down_end_step) auto
    then show ?thesis using less.prems by (auto intro: exI [of _ 0])
  qed
qed

lemma path_up_end_less: "path_up_end c p \<noteq> p \<Longrightarrow> c (path_up_end c p) = Less"
proof (induction c p rule: path_up_end.induct)
  case (1 c p)
  show ?case
  proof (cases "0 < p \<and> c (parent p) = Less")
    case True
    then have "path_up_end c p = path_up_end c (parent p)" by (subst path_up_end_step) simp
    moreover have "c (path_up_end c (parent p)) = Less" if "path_up_end c (parent p) \<noteq> parent p"
      using 1(1) [of "parent p"] True that by (simp add: parent_def is_lt_def)
    ultimately show ?thesis using True by metis
  next
    case False
    then show ?thesis using 1(2) by (metis path_up_end_step)
  qed
qed

lemma path_repair_root:
  assumes start: "start \<noteq> 0" "start < n" and n: "n < 2 ^ 32"
  shows "hp_entries (ho_owner (path_apply adr (path_repair c ca start n) v owner)) 0 = hp_entries owner 0"
    and "pt_end (path_repair c ca start n) = 0 \<Longrightarrow> c 0 = Less"
proof -
  let ?hole = "\<lparr>ho_owner = owner, ho_value = v, ho_position = start\<rparr>" and ?p = "path_repair c ca start n"
  have s: "pt_start ?p = start" by (simp add: path_repair_def path_down_def)
  show "hp_entries (ho_owner (path_apply adr ?p v owner)) 0 = hp_entries owner 0"
  proof (cases "pt_end ?p < start")
    case True
    then show ?thesis using s start apply_up_root [of ?hole] by (simp add: path_apply_def)
  next
    case False
    show ?thesis
    proof (cases "start < pt_end ?p")
      case True
      have "pt_end ?p = path_down_end c ca n start"
        using True path_up_end_le [of c "(start - 1) div 2"] parent_less [of start] start(1)
        by (auto simp: path_repair_def path_up_def path_down_def parent_def split: if_splits)
      then obtain k where k: "pt_end ?p < n" "(pt_end ?p + 1) div 2 ^ k = start + 1"
        using path_down_depth [OF start(2), of c ca] by metis
      have "pt_end ?p + 1 < 2 ^ 64" using k(1) n by simp
      then have "leading_zeros (start + 1) - leading_zeros (pt_end ?p + 1) = k"
        by (rule leading_zeros_depth [OF k(2)])
      then show ?thesis
        using True s start(1) apply_down_root [of ?hole "pt_end ?p" k] k(2)
        by (simp del: One_nat_def add: path_apply_def)
    next
      case False
      then show ?thesis using \<open>\<not> pt_end ?p < start\<close> s by (simp add: path_apply_def)
    qed
  qed
  assume zero: "pt_end ?p = 0"
  then have up: "start \<noteq> 0 \<and> is_lt (c ((start - 1) div 2))" and e: "path_up_end c ((start - 1) div 2) = 0"
    using path_down_end_ge [of start c ca n] start(1)
    by (auto simp: path_repair_def path_up_def path_down_def split: if_splits)
  then have "path_up_end c start = 0" by (subst path_up_end_step) (simp add: parent_def is_lt_def)
  then show "c 0 = Less" using path_up_end_less [of c start] start(1) by simp
qed

context heap_order begin

lemma hole_replace_root:
  assumes h: "heap_ok adr cmp h" and p: "position < heap_len h" "position \<noteq> 0"
    and r: "hole_replace adr cmp position v h = ((q, h'), old)"
  shows "q \<noteq> 0 \<Longrightarrow> hp_entries h' 0 = hp_entries h 0"
proof -
  have n: "heap_len h < 2 ^ 32" using h by (auto simp: heap_ok_def planes_def)
  show "q \<noteq> 0 \<Longrightarrow> hp_entries h' 0 = hp_entries h 0"
    using r path_repair_root(1) [OF p(2,1) n]
    by (auto simp: hole_replace_def source_read_def hole_finish_def hole_commit_def source_write_def Let_def)
qed

lemma hole_remove_root:
  assumes h: "heap_ok adr cmp h" and p: "position < heap_len h" "position \<noteq> 0"
    and r: "hole_remove adr cmp position h = (v, h')"
  shows "hp_entries h' 0 = hp_entries h 0"
proof -
  let ?E = "hp_entries h"
  obtain tail where n: "heap_len h = Suc tail" using p(1) by (cases "heap_len h") auto
  show ?thesis
  proof (cases "position = tail")
    case True
    then show ?thesis using r by (auto simp: hole_remove_def hole_remove_by_def n source_read_def Let_def)
  next
    case False
    then have pt: "position < tail" using p n by simp
    have t: "tail < 2 ^ 32" using h by (auto simp: heap_ok_def planes_def n)
    define owner where "owner = h\<lparr>hp_positions := (hp_positions h)[adr (?E position) := pos_NONE]\<rparr>"
    define p where "p = path_repair (\<lambda>i. cmp (?E tail) (?E i)) (\<lambda>i j. cmp (?E i) (?E j)) position tail"
    define moved where "moved = path_apply adr p (?E tail) owner"
    note fill = hole_remove_fill [OF h n pt refl owner_def p_def moved_def]
    have "cmp (?E tail) (?E 0) \<noteq> Less"
      using sorted_root [of "heap_len h" ?E tail] h flip [of "?E tail" "?E 0"] by (simp add: heap_ok_def n)
    then have q: "ho_position moved \<noteq> 0"
      using path_repair_root(2) [OF p(2) pt t] unfolding fill(2) p_def by blast
    have "hp_entries (ho_owner moved) 0 = ?E 0"
      unfolding moved_def p_def by (subst path_repair_root(1) [OF p(2) pt t]) (simp add: owner_def)
    moreover have "h' = (hole_commit adr True moved)\<lparr>hp_len := word_of_nat tail\<rparr>"
      using r fill(4) by simp
    ultimately show ?thesis
      using q by (simp add: hole_commit_def source_write_def Let_def)
  qed
qed

end

section \<open>The comparisons of the stores\<close>

lemma ord_cmp_iff [simp]:
  "ord_cmp a b = Less \<longleftrightarrow> a < b" "ord_cmp a b = Greater \<longleftrightarrow> b < a" "ord_cmp a b = Equal \<longleftrightarrow> a = b"
  by (auto simp: ord_cmp_def)

interpretation direct: heap_order "store_compare precedes_default :: ('k, 'p::linorder) stored \<Rightarrow> _"
  by unfold_locales (auto simp: store_compare_def precedes_default_def split: ordering.splits if_splits)

interpretation keyed: heap_order "store_compare (precedes_index index) :: ('k, 'p::linorder) stored \<Rightarrow> _"
  by unfold_locales (auto simp: store_compare_def precedes_index_def split: ordering.splits if_splits)

end
