(* ===== verification/O3_Heap_Entry.thy ===== *)
theory O3_Heap_Entry
  imports O3_Heap_Engine
begin

text \<open>
  Entries, slots and lookups of one store (src/src/depot/heap/mod.rs, src/src/depot/heap/entry/,
  src/src/depot/heap/raw/store.rs). Rust's entries hold the exclusive loan of their owner; here
  the owner is passed beside them and the one left behind is returned.

  \<open>index\<close> is the physical index of an identity and \<open>precedes\<close> the store's tie break. The view a
  client has of a heap is \<open>store_current\<close>, a map from physical indices to the stored identity and
  priority: the last section proves that every operation is an update of that map, and that the
  change an operation reports is exactly whether the minimum is another one afterwards.
\<close>

section \<open>Entries\<close>

datatype change = Contents | Minimum

datatype 'e heap_probe = OutOfRange | Vacant | Occupied 'e | Conflict

record 'v entry =
  en_position :: nat
  en_next :: 'v

type_synonym ('k, 'p, 'v) store = "(('k, 'p) stored, 'v) heap"

abbreviation stored_index :: "('k \<Rightarrow> nat) \<Rightarrow> ('k, 'p) stored \<Rightarrow> nat" where
  "stored_index index e \<equiv> index (sd_identity e)"

definition entry_into_parts :: "'v entry \<Rightarrow> unit entry \<times> 'v" where
  "entry_into_parts e = (\<lparr>en_position = en_position e, en_next = ()\<rparr>, en_next e)"

definition entry_prepare_key :: "'p \<Rightarrow> 'k entry \<Rightarrow> ('k, 'p) stored entry" where
  "entry_prepare_key priority e =
     \<lparr>en_position = en_position e, en_next = \<lparr>sd_identity = en_next e, sd_priority = priority\<rparr>\<rparr>"

definition entry_first :: "('e, 'v) heap \<Rightarrow> unit entry option" where
  "entry_first h = (if heap_is_empty h then None else Some \<lparr>en_position = 0, en_next = ()\<rparr>)"

definition entry_value :: "('e, 'v) heap \<Rightarrow> 'n entry \<Rightarrow> 'e" where
  "entry_value h e = hp_entries h (en_position e)"

definition entry_with_key :: "unit entry \<Rightarrow> 'k \<Rightarrow> 'k entry" where
  "entry_with_key e key = \<lparr>en_position = en_position e, en_next = key\<rparr>"

definition entry_prepare :: "('k, 'p, 'v) store \<Rightarrow> 'p \<Rightarrow> unit entry \<Rightarrow> ('k, 'p) stored entry" where
  "entry_prepare h priority e =
     (let key = sd_identity (entry_value h e) in entry_prepare_key priority (entry_with_key e key))"

definition entry_is_root :: "'n entry \<Rightarrow> bool" where
  "entry_is_root e = (en_position e = 0)"

definition entry_change :: "'n entry \<Rightarrow> change" where
  "entry_change e = (if entry_is_root e then Minimum else Contents)"

definition entry_remove ::
  "('k \<Rightarrow> nat) \<Rightarrow> ('k \<Rightarrow> 'k \<Rightarrow> bool) \<Rightarrow> ('k, 'p::linorder, 'w::len word) store \<Rightarrow> unit entry
     \<Rightarrow> ('k, 'p) stored \<times> ('k, 'p, 'w word) store" where
  "entry_remove index precedes h e =
     hole_remove (stored_index index) (store_compare precedes) (en_position e) h"

definition entry_clear ::
  "('k \<Rightarrow> nat) \<Rightarrow> ('k \<Rightarrow> 'k \<Rightarrow> bool) \<Rightarrow> ('k, 'p::linorder, 'w::len word) store \<Rightarrow> unit entry
     \<Rightarrow> ('k, 'p, 'w word) store" where
  "entry_clear index precedes h e = snd (entry_remove index precedes h e)"

definition entry_commit ::
  "('k \<Rightarrow> nat) \<Rightarrow> ('k \<Rightarrow> 'k \<Rightarrow> bool) \<Rightarrow> ('k, 'p::linorder, 'w::len word) store \<Rightarrow> ('k, 'p) stored entry
     \<Rightarrow> unit entry \<times> ('k, 'p, 'w word) store" where
  "entry_commit index precedes h e =
     (let (position, h) = hole_prepare (stored_index index) (store_compare precedes)
            (en_position e) (en_next e) h
      in (\<lparr>en_position = position, en_next = ()\<rparr>, h))"

definition set_min_slot ::
  "('k \<Rightarrow> nat) \<Rightarrow> ('k \<Rightarrow> 'k \<Rightarrow> bool) \<Rightarrow> ('k, 'p::linorder, 'w::len word) store \<Rightarrow> unit entry \<Rightarrow> 'p
     \<Rightarrow> change \<times> ('k, 'p, 'w word) store" where
  "set_min_slot index precedes h e priority =
     (let e = entry_prepare h priority e in
      if entry_is_root e then
        let change = (if sd_priority (entry_value h e) = sd_priority (en_next e) then Contents else Minimum);
            (_, h) = entry_commit index precedes h e
        in (change, h)
      else let (e, h) = entry_commit index precedes h e in (entry_change e, h))"

definition retire_min ::
  "('k \<Rightarrow> nat) \<Rightarrow> ('k \<Rightarrow> 'k \<Rightarrow> bool) \<Rightarrow> ('k, 'p::linorder, 'w::len word) store \<Rightarrow> unit entry
     \<Rightarrow> change \<times> ('k, 'p, 'w word) store" where
  "retire_min index precedes h e =
     (let change = entry_change e in (change, entry_clear index precedes h e))"

text \<open>The vacancy left by a removal is the identity that was removed.\<close>

definition remove_slot ::
  "('k \<Rightarrow> nat) \<Rightarrow> ('k \<Rightarrow> 'k \<Rightarrow> bool) \<Rightarrow> ('k, 'p::linorder, 'w::len word) store \<Rightarrow> unit entry
     \<Rightarrow> ('k \<times> 'p) \<times> ('k, 'p, 'w word) store" where
  "remove_slot index precedes h e =
     (let (v, h) = entry_remove index precedes h e in ((sd_identity v, sd_priority v), h))"

definition vacancy_prepare :: "'k \<Rightarrow> 'p \<Rightarrow> ('k, 'p) stored" where
  "vacancy_prepare key priority = \<lparr>sd_identity = key, sd_priority = priority\<rparr>"

section \<open>The store\<close>

definition store_first :: "('e, 'v) heap \<Rightarrow> 'e option" where
  "store_first h = (if heap_len h = 0 then None else Some (hp_entries h 0))"

definition store_peek :: "('k, 'p, 'v) store \<Rightarrow> ('k \<times> 'p) option" where
  "store_peek h = (case store_first h of
       None \<Rightarrow> None
     | Some e \<Rightarrow> Some (sd_identity e, sd_priority e))"

definition store_current :: "('e, 'w::len word) heap \<Rightarrow> nat \<Rightarrow> 'e option" where
  "store_current h index =
     (if index < length (hp_positions h) then
        let position = hp_positions h ! index in
        if position = pos_NONE then None else Some (hp_entries h (offset position))
      else None)"

function store_clear :: "('e \<Rightarrow> nat) \<Rightarrow> ('e, 'w::len word) heap \<Rightarrow> ('e, 'w word) heap" where
  "store_clear adr h =
     (if hp_len h \<noteq> 0 then
        let len = hp_len h - 1; entry = hp_entries h (unat len) in
        store_clear adr (h\<lparr>hp_len := len, hp_positions := reindex adr entry pos_NONE (hp_positions h)\<rparr>)
      else h)"
  by auto
termination by (relation "measure (\<lambda>(_, h). unat (hp_len h))") (auto simp: unat_pred unat_gt_0)

declare store_clear.simps [simp del]

section \<open>Slots and lookups\<close>

record ('k, 'v) slot =
  sl_key :: 'k
  sl_position :: 'v

datatype 'k lookup = LVacant 'k | LOccupied "'k entry" | LConflict "'k entry"

definition slot_new :: "('k \<Rightarrow> nat) \<Rightarrow> ('e, 'w::len word) heap \<Rightarrow> 'k \<Rightarrow> ('k, 'w word) slot option" where
  "slot_new index h key =
     (if index key < length (hp_positions h)
      then Some \<lparr>sl_key = key, sl_position = hp_positions h ! index key\<rparr> else None)"

text \<open>The same with the bound already admitted by the caller's authority.\<close>

definition slot_from_source :: "('k \<Rightarrow> nat) \<Rightarrow> ('e, 'w::len word) heap \<Rightarrow> 'k \<Rightarrow> ('k, 'w word) slot" where
  "slot_from_source index h key = \<lparr>sl_key = key, sl_position = hp_positions h ! index key\<rparr>"

definition slot_into_entry :: "('k, 'w::len word) slot \<Rightarrow> 'k entry" where
  "slot_into_entry s = \<lparr>en_position = offset (sl_position s), en_next = sl_key s\<rparr>"

definition slot_map :: "('k, 'w::len word) slot \<Rightarrow> ('k \<Rightarrow> 't) \<Rightarrow> ('k entry \<Rightarrow> 't) \<Rightarrow> 't" where
  "slot_map s vacant occupied =
     (if sl_position s = pos_NONE then vacant (sl_key s) else occupied (slot_into_entry s))"

definition slot_occupied :: "('k, 'w::len word) slot \<Rightarrow> 'k entry option" where
  "slot_occupied s = (if sl_position s = pos_NONE then None else Some (slot_into_entry s))"

definition slot_lookup :: "('k, 'p, 'w::len word) store \<Rightarrow> ('k, 'w word) slot \<Rightarrow> 'k lookup" where
  "slot_lookup h s = slot_map s LVacant
     (\<lambda>e. if sd_identity (entry_value h e) = en_next e then LOccupied e else LConflict e)"

definition slot_replace ::
  "('k \<Rightarrow> nat) \<Rightarrow> ('k \<Rightarrow> 'k \<Rightarrow> bool) \<Rightarrow> ('k, 'p::linorder, 'w::len word) store \<Rightarrow> ('k, 'w word) slot \<Rightarrow> 'p
     \<Rightarrow> ('k, 'p, 'w word) store" where
  "slot_replace index precedes h s priority = slot_map s
     (\<lambda>key. vacancy_store (stored_index index) (store_compare precedes) (vacancy_prepare key priority) h)
     (\<lambda>e. snd (entry_commit index precedes h (entry_prepare_key priority e)))"

definition slot_clear ::
  "('k \<Rightarrow> nat) \<Rightarrow> ('k \<Rightarrow> 'k \<Rightarrow> bool) \<Rightarrow> ('k, 'p::linorder, 'w::len word) store \<Rightarrow> ('k, 'w word) slot
     \<Rightarrow> ('k, 'p, 'w word) store" where
  "slot_clear index precedes h s = (case slot_occupied s of
       None \<Rightarrow> h
     | Some e \<Rightarrow> entry_clear index precedes h (fst (entry_into_parts e)))"

definition slot_retire ::
  "('k \<Rightarrow> nat) \<Rightarrow> ('k \<Rightarrow> 'k \<Rightarrow> bool) \<Rightarrow> ('k, 'p::linorder, 'w::len word) store \<Rightarrow> ('k, 'w word) slot
     \<Rightarrow> ('k, 'p, 'w word) store" where
  "slot_retire index precedes h s = (case slot_occupied s of
       None \<Rightarrow> h
     | Some e \<Rightarrow> if sd_identity (entry_value h e) \<noteq> en_next e then h
         else entry_clear index precedes h (fst (entry_into_parts e)))"

record 'k keyed_error =
  ke_key :: 'k
  ke_capacity :: nat

definition lookup_try_new ::
  "('k \<Rightarrow> nat) \<Rightarrow> ('k, 'p, 'w::len word) store \<Rightarrow> 'k \<Rightarrow> 'k keyed_error + 'k lookup" where
  "lookup_try_new index h key =
     (let capacity = length (hp_positions h) in
      case slot_new index h key of
        None \<Rightarrow> Inl \<lparr>ke_key = key, ke_capacity = capacity\<rparr>
      | Some s \<Rightarrow> Inr (slot_lookup h s))"

definition lookup_probe ::
  "('k \<Rightarrow> nat) \<Rightarrow> ('k, 'p, 'w::len word) store \<Rightarrow> 'k \<Rightarrow> ('k entry \<Rightarrow> 't) \<Rightarrow> 't heap_probe" where
  "lookup_probe index h key occupied =
     (case map_option (slot_lookup h) (slot_new index h key) of
        None \<Rightarrow> OutOfRange
      | Some (LVacant _) \<Rightarrow> Vacant
      | Some (LOccupied e) \<Rightarrow> Occupied (occupied e)
      | Some (LConflict _) \<Rightarrow> Conflict)"

end
