(* ===== verification/O3_Heap_Store.thy ===== *)
theory O3_Heap_Store
  imports O3_Heap_Entry
begin

text \<open>
  The stores as maps. For any owner whose comparison is a total preorder, \<open>store_current\<close> is a
  finite map from physical indices to stored identities and priorities; storing, committing,
  updating, removing, replacing, clearing and retiring update it at one index, the first entry is
  a least one, and a reported change says exactly whether the minimum is another one afterwards.
\<close>

definition store_ok ::
  "('k \<Rightarrow> nat) \<Rightarrow> ('k \<Rightarrow> 'k \<Rightarrow> bool) \<Rightarrow> ('k, 'p::linorder, 'w::len word) store \<Rightarrow> bool" where
  "store_ok index precedes h \<longleftrightarrow> heap_ok (stored_index index) (store_compare precedes) h"

lemma current_iff:
  assumes "heap_ok adr cmp h"
  shows "store_current h a = Some e \<longleftrightarrow> e \<in> heap_items h \<and> adr e = a"
proof (cases "a < heap_capacity h")
  case True
  then show ?thesis
    using heap_found [OF assms True] heap_locate [OF assms] unfolding heap_items_index
    by (auto simp: store_current_def heap_capacity_def Let_def)
next
  case False
  then show ?thesis
    using heap_locate(1) [OF assms] unfolding heap_items_index
    by (auto simp: store_current_def heap_capacity_def)
qed

lemma current_None: "a < length (hp_positions h) \<Longrightarrow> store_current h a = None \<longleftrightarrow> hp_positions h ! a = pos_NONE"
  by (simp add: store_current_def Let_def)

lemma current_at:
  "heap_ok adr cmp h \<Longrightarrow> i < heap_len h \<Longrightarrow> store_current h (adr (hp_entries h i)) = Some (hp_entries h i)"
  unfolding current_iff heap_items_index by blast

lemma current_eqI:
  assumes "\<And>a e. m a = Some e \<longleftrightarrow> m' a = Some e"
  shows "m = m'"
  using assms by (metis ext not_None_eq)

lemma current_put:
  assumes "heap_ok adr cmp h" "heap_ok adr cmp h'" "heap_items h' = insert v (heap_items h - X)"
    and "\<And>e. e \<in> heap_items h \<Longrightarrow> e \<in> X \<longleftrightarrow> adr e = adr v"
  shows "store_current h' = (store_current h)(adr v \<mapsto> v)"
  by (rule current_eqI) (use assms in \<open>auto simp: current_iff\<close>)

lemma current_drop:
  assumes "heap_ok adr cmp h" "heap_ok adr cmp h'" "heap_items h' = heap_items h - {v}" "v \<in> heap_items h"
  shows "store_current h' = (store_current h)(adr v := None)"
  by (rule current_eqI)
     (use assms heap_adr_inj [OF assms(1)] in \<open>auto simp: current_iff split: if_splits\<close>)

lemma current_empty: "heap_ok adr cmp h \<Longrightarrow> store_current h = Map.empty \<longleftrightarrow> heap_len h = 0"
proof -
  assume h: "heap_ok adr cmp h"
  have "store_current h = Map.empty \<longleftrightarrow> heap_items h = {}"
    using current_iff [OF h] by (metis all_not_in_conv ext not_None_eq)
  then show ?thesis by (simp add: heap_items_def items_def lessThan_empty_iff)
qed

locale heap_store = heap_order "store_compare precedes :: ('k, 'p::linorder) stored \<Rightarrow> ('k, 'p) stored \<Rightarrow> ordering"
  for precedes :: "'k \<Rightarrow> 'k \<Rightarrow> bool" +
  fixes index :: "'k \<Rightarrow> nat"
begin

abbreviation adr :: "('k, 'p) stored \<Rightarrow> nat" where
  "adr \<equiv> stored_index index"

lemma store_insert:
  assumes h: "store_ok index precedes (h :: ('k, 'p, 'w::len word) store)"
    and k: "index (sd_identity v) < heap_capacity h" "store_current h (index (sd_identity v)) = None"
  shows "store_ok index precedes (vacancy_store adr (store_compare precedes) v h)"
    "store_current (vacancy_store adr (store_compare precedes) v h) = (store_current h)(index (sd_identity v) \<mapsto> v)"
    "heap_capacity (vacancy_store adr (store_compare precedes) v h) = heap_capacity h"
proof -
  have h': "heap_ok adr (store_compare precedes) h" using h by (simp add: store_ok_def)
  have "hp_positions h ! index (sd_identity v) = pos_NONE"
    using k by (simp add: current_None heap_capacity_def)
  note ok = vacancy_store_ok [OF h' k(1) this]
  have none: "e \<notin> heap_items h" if "adr e = adr v" for e
    using current_iff [OF h', of "adr v" e] k(2) that by simp
  show "store_ok index precedes (vacancy_store adr (store_compare precedes) v h)"
    using ok by (simp add: store_ok_def)
  show "store_current (vacancy_store adr (store_compare precedes) v h) = (store_current h)(index (sd_identity v) \<mapsto> v)"
    by (rule current_put [OF h' ok(1), of v "{}"]) (use ok(2) none in auto)
  show "heap_capacity (vacancy_store adr (store_compare precedes) v h) = heap_capacity h" by (rule ok)
qed

lemma store_commit:
  assumes h: "store_ok index precedes (h :: ('k, 'p, 'w::len word) store)" and p: "en_position e < heap_len h"
    and v: "index (sd_identity (en_next e)) = index (sd_identity (entry_value h e))"
    and r: "entry_commit index precedes h e = (e', h')"
  shows "store_ok index precedes h'"
    "store_current h' = (store_current h)(index (sd_identity (en_next e)) \<mapsto> en_next e)"
    "heap_capacity h' = heap_capacity h" "heap_len h' = heap_len h"
    "en_position e' < heap_len h'" "entry_value h' e' = en_next e"
proof -
  have h': "heap_ok adr (store_compare precedes) h" using h by (simp add: store_ok_def)
  obtain q old where q: "hole_replace adr (store_compare precedes) (en_position e) (en_next e) h = ((q, h'), old)"
    "e' = \<lparr>en_position = q, en_next = ()\<rparr>"
    using r by (auto simp: entry_commit_def hole_prepare_def Let_def split: prod.splits)
  note ok = hole_replace_ok [OF h' p v [unfolded entry_value_def] q(1)]
  show "store_ok index precedes h'" using ok by (simp add: store_ok_def)
  have "old \<in> heap_items h" using p unfolding heap_items_index ok(1) by blast
  then show "store_current h' = (store_current h)(index (sd_identity (en_next e)) \<mapsto> en_next e)"
    by (intro current_put [OF h' ok(2,3)])
       (use heap_adr_inj [OF h'] v ok(1) in \<open>auto simp: entry_value_def\<close>)
  show "heap_capacity h' = heap_capacity h" "heap_len h' = heap_len h"
    "en_position e' < heap_len h'" "entry_value h' e' = en_next e"
    using ok q(2) by (simp_all add: entry_value_def)
qed

lemma store_update:
  assumes h: "store_ok index precedes (h :: ('k, 'p, 'w::len word) store)" and p: "position < heap_len h"
    and v: "index (sd_identity v) = index (sd_identity (hp_entries h position))"
  shows "store_ok index precedes (hole_update adr (store_compare precedes) position v h)"
    "store_current (hole_update adr (store_compare precedes) position v h) = (store_current h)(index (sd_identity v) \<mapsto> v)"
    "heap_capacity (hole_update adr (store_compare precedes) position v h) = heap_capacity h"
proof -
  have h': "heap_ok adr (store_compare precedes) h" using h by (simp add: store_ok_def)
  note ok = hole_update_ok [OF h' p v]
  show "store_ok index precedes (hole_update adr (store_compare precedes) position v h)"
    using ok by (simp add: store_ok_def)
  have "hp_entries h position \<in> heap_items h" using p unfolding heap_items_index by blast
  then show "store_current (hole_update adr (store_compare precedes) position v h) = (store_current h)(index (sd_identity v) \<mapsto> v)"
    by (intro current_put [OF h' ok(1,2)]) (use heap_adr_inj [OF h'] v in auto)
  show "heap_capacity (hole_update adr (store_compare precedes) position v h) = heap_capacity h" by (rule ok)
qed

lemma store_remove:
  assumes h: "store_ok index precedes (h :: ('k, 'p, 'w::len word) store)" and p: "en_position e < heap_len h"
    and r: "entry_remove index precedes h e = (v, h')"
  shows "v = entry_value h e" "store_ok index precedes h'"
    "store_current h' = (store_current h)(index (sd_identity v) := None)"
    "heap_capacity h' = heap_capacity h" "heap_len h' = heap_len h - 1"
proof -
  have h': "heap_ok adr (store_compare precedes) h" using h by (simp add: store_ok_def)
  note ok = hole_remove_ok [OF h' p r [unfolded entry_remove_def]]
  show "v = entry_value h e" using ok by (simp add: entry_value_def)
  show "store_ok index precedes h'" using ok by (simp add: store_ok_def)
  have "v \<in> heap_items h" using p unfolding heap_items_index ok(1) by blast
  then show "store_current h' = (store_current h)(index (sd_identity v) := None)"
    by (rule current_drop [OF h' ok(2,3)])
  show "heap_capacity h' = heap_capacity h" "heap_len h' = heap_len h - 1" by (rule ok)+
qed

lemma store_least:
  assumes h: "store_ok index precedes (h :: ('k, 'p, 'w::len word) store)"
  shows "store_first h = None \<longleftrightarrow> store_current h = Map.empty"
    and "store_first h = Some m \<Longrightarrow> store_current h (index (sd_identity m)) = Some m"
    and "store_first h = Some m \<Longrightarrow> store_current h a = Some e \<Longrightarrow> le m e"
proof -
  have h': "heap_ok adr (store_compare precedes) h" using h by (simp add: store_ok_def)
  show "store_first h = None \<longleftrightarrow> store_current h = Map.empty"
    using current_empty [OF h'] by (simp add: store_first_def)
  show "store_current h (index (sd_identity m)) = Some m" if "store_first h = Some m"
    using current_at [OF h', of 0] that by (auto simp: store_first_def split: if_splits)
  show "le m e" if "store_first h = Some m" "store_current h a = Some e"
    using heap_root [OF h'] that by (auto simp: store_first_def current_iff [OF h'] split: if_splits)
qed

text \<open>A slot is the map's entry at its key; a vacant position is an absent one.\<close>

lemma slot_view:
  assumes h: "store_ok index precedes (h :: ('k, 'p, 'w::len word) store)" and k: "index key < heap_capacity h"
  shows "store_current h (index key) = None \<longleftrightarrow> sl_position (slot_from_source index h key) = pos_NONE"
    and "store_current h (index key) = Some e \<Longrightarrow>
      sl_position (slot_from_source index h key) \<noteq> pos_NONE \<and>
      en_position (slot_into_entry (slot_from_source index h key)) < heap_len h \<and>
      en_next (slot_into_entry (slot_from_source index h key)) = key \<and>
      entry_value h (slot_into_entry (slot_from_source index h key)) = e \<and> index (sd_identity e) = index key"
proof -
  have h': "heap_ok adr (store_compare precedes) h" using h by (simp add: store_ok_def)
  show "store_current h (index key) = None \<longleftrightarrow> sl_position (slot_from_source index h key) = pos_NONE"
    using k by (simp add: current_None slot_from_source_def heap_capacity_def)
  assume "store_current h (index key) = Some e"
  then show "sl_position (slot_from_source index h key) \<noteq> pos_NONE \<and>
      en_position (slot_into_entry (slot_from_source index h key)) < heap_len h \<and>
      en_next (slot_into_entry (slot_from_source index h key)) = key \<and>
      entry_value h (slot_into_entry (slot_from_source index h key)) = e \<and> index (sd_identity e) = index key"
    using heap_found [OF h' k]
    by (auto simp: store_current_def slot_from_source_def slot_into_entry_def entry_value_def Let_def split: if_splits)
qed

lemma slot_new_eq:
  "slot_new index h key = (if index key < heap_capacity h then Some (slot_from_source index h key) else None)"
  by (simp add: slot_new_def slot_from_source_def heap_capacity_def)

lemma lookup_view:
  assumes h: "store_ok index precedes (h :: ('k, 'p, 'w::len word) store)" and k: "index key < heap_capacity h"
  shows "slot_lookup h (slot_from_source index h key) =
    (case store_current h (index key) of
       None \<Rightarrow> LVacant key
     | Some e \<Rightarrow> let entry = slot_into_entry (slot_from_source index h key) in
         if sd_identity e = key then LOccupied entry else LConflict entry)"
  using slot_view [OF h k]
  by (cases "store_current h (index key)")
     (auto simp: slot_lookup_def slot_map_def slot_from_source_def Let_def)

lemma slot_replace_view:
  assumes h: "store_ok index precedes (h :: ('k, 'p, 'w::len word) store)" and k: "index key < heap_capacity h"
  shows "store_ok index precedes (slot_replace index precedes h (slot_from_source index h key) p)"
    "store_current (slot_replace index precedes h (slot_from_source index h key) p) =
       (store_current h)(index key \<mapsto> \<lparr>sd_identity = key, sd_priority = p\<rparr>)"
    "heap_capacity (slot_replace index precedes h (slot_from_source index h key) p) = heap_capacity h"
proof -
  let ?s = "slot_from_source index h key" and ?v = "\<lparr>sd_identity = key, sd_priority = p\<rparr>"
  let ?h' = "slot_replace index precedes h ?s p"
  have "store_ok index precedes ?h' \<and> store_current ?h' = (store_current h)(index key \<mapsto> ?v) \<and>
    heap_capacity ?h' = heap_capacity h"
  proof (cases "store_current h (index key)")
    case None
    then have "?h' = vacancy_store adr (store_compare precedes) ?v h"
      using slot_view(1) [OF h k]
      by (simp add: slot_replace_def slot_map_def vacancy_prepare_def slot_from_source_def)
    then show ?thesis using store_insert [OF h, of ?v] k None by simp
  next
    case (Some e)
    note view = slot_view(2) [OF h k Some]
    let ?e = "entry_prepare_key p (slot_into_entry ?s)"
    have e: "en_position ?e = en_position (slot_into_entry ?s)" "en_next ?e = ?v"
      using view by (simp_all add: entry_prepare_key_def)
    have "?h' = snd (entry_commit index precedes h ?e)"
      using view by (simp add: slot_replace_def slot_map_def)
    then obtain e' where r: "entry_commit index precedes h ?e = (e', ?h')" by (metis prod.collapse)
    show ?thesis
      using store_commit [OF h _ _ r] view e by (simp add: entry_value_def)
  qed
  then show "store_ok index precedes ?h'" "store_current ?h' = (store_current h)(index key \<mapsto> ?v)"
    "heap_capacity ?h' = heap_capacity h" by simp_all
qed

lemma clear_view:
  assumes h: "store_ok index precedes (h :: ('k, 'p, 'w::len word) store)" and k: "index key < heap_capacity h"
    and e: "store_current h (index key) = Some e"
    and p: "position = en_position (slot_into_entry (slot_from_source index h key))"
  shows "store_ok index precedes (entry_clear index precedes h \<lparr>en_position = position, en_next = ()\<rparr>)"
    "store_current (entry_clear index precedes h \<lparr>en_position = position, en_next = ()\<rparr>) =
       (store_current h)(index key := None)"
    "heap_capacity (entry_clear index precedes h \<lparr>en_position = position, en_next = ()\<rparr>) = heap_capacity h"
proof -
  let ?e = "\<lparr>en_position = position, en_next = ()\<rparr>"
  note view = slot_view(2) [OF h k e]
  have at: "en_position ?e < heap_len h" "entry_value h ?e = e"
    using view by (simp_all add: p entry_value_def)
  obtain v where r: "entry_remove index precedes h ?e = (v, entry_clear index precedes h ?e)"
    by (metis entry_clear_def prod.collapse)
  note removed = store_remove [OF h at(1) r]
  show "store_ok index precedes (entry_clear index precedes h ?e)"
    "store_current (entry_clear index precedes h ?e) = (store_current h)(index key := None)"
    "heap_capacity (entry_clear index precedes h ?e) = heap_capacity h"
    using removed at(2) view by simp_all
qed

lemma slot_clear_view:
  assumes h: "store_ok index precedes (h :: ('k, 'p, 'w::len word) store)" and k: "index key < heap_capacity h"
  shows "store_ok index precedes (slot_clear index precedes h (slot_from_source index h key))"
    "store_current (slot_clear index precedes h (slot_from_source index h key)) = (store_current h)(index key := None)"
    "heap_capacity (slot_clear index precedes h (slot_from_source index h key)) = heap_capacity h"
  using slot_view [OF h k] clear_view [OF h k _ refl] h
  by (cases "store_current h (index key)"; auto simp: slot_clear_def slot_occupied_def entry_into_parts_def)+

lemma slot_retire_view:
  assumes h: "store_ok index precedes (h :: ('k, 'p, 'w::len word) store)" and k: "index key < heap_capacity h"
  shows "store_ok index precedes (slot_retire index precedes h (slot_from_source index h key))"
    "store_current (slot_retire index precedes h (slot_from_source index h key)) =
       (if \<exists>e. store_current h (index key) = Some e \<and> sd_identity e = key
        then (store_current h)(index key := None) else store_current h)"
    "heap_capacity (slot_retire index precedes h (slot_from_source index h key)) = heap_capacity h"
  using slot_view [OF h k] clear_view [OF h k _ refl] h
  by (cases "store_current h (index key)"; auto simp: slot_retire_def slot_occupied_def entry_into_parts_def)+

text \<open>Writing back what is there moves nothing.\<close>

lemma hole_replace_same:
  assumes h: "heap_ok (adr :: ('k, 'p) stored \<Rightarrow> nat) (store_compare precedes) h" and p: "position < heap_len h"
    and r: "hole_replace adr (store_compare precedes) position (hp_entries h position) h = ((q, h'), old)"
  shows "q = position" "hp_entries h' = hp_entries h"
proof -
  let ?E = "hp_entries h" and ?n = "heap_len h"
  let ?cv = "\<lambda>i. store_compare precedes (?E position) (?E i)"
    and ?ca = "\<lambda>i j. store_compare precedes (?E i) (?E j)"
  have s: "heap_sorted (store_compare precedes) ?n ?E" using h by (simp add: heap_ok_def)
  have up: "?cv (parent position) \<noteq> Less" if "position \<noteq> 0"
    using s that p flip [of "?E position" "?E (parent position)"] by (auto simp: heap_sorted_def)
  have down: "?cv (min_child ?ca ?n position) \<noteq> Greater" if "2 * position + 1 < ?n"
  proof -
    note c = min_child_props [OF that, of ?ca]
    have "le (?E (parent (min_child ?ca ?n position))) (?E (min_child ?ca ?n position))"
      using s c(1,3) unfolding heap_sorted_def by simp
    then show ?thesis unfolding c(2) .
  qed
  have "path_repair ?cv ?ca position ?n = \<lparr>pt_start = position, pt_end = position\<rparr>"
    using up down unfolding path_repair_def path_down_def
    by (subst path_down_end_step) (auto simp: is_lt_def parent_def)
  then have "((q, h'), old) = ((position, source_write adr True position (?E position) h), ?E position)"
    using r by (auto simp: hole_replace_def source_read_def path_apply_def hole_finish_def hole_commit_def Let_def)
  then show "q = position" "hp_entries h' = ?E"
    by (simp_all add: source_write_def Let_def)
qed

lemma set_min_view:
  assumes h: "store_ok index precedes (h :: ('k, 'p, 'w::len word) store)" and p: "en_position e < heap_len h"
    and r: "set_min_slot index precedes h e priority = (change, h')"
  shows "store_ok index precedes h'"
    "store_current h' = (store_current h)
       (index (sd_identity (entry_value h e)) \<mapsto> \<lparr>sd_identity = sd_identity (entry_value h e), sd_priority = priority\<rparr>)"
    "heap_capacity h' = heap_capacity h" "change = Minimum \<longleftrightarrow> store_peek h' \<noteq> store_peek h"
proof -
  let ?old = "entry_value h e" and ?v = "\<lparr>sd_identity = sd_identity (entry_value h e), sd_priority = priority\<rparr>"
  define f where "f = entry_prepare h priority e"
  have f: "en_position f = en_position e" "en_next f = ?v" "entry_value h f = ?old" "entry_is_root f \<longleftrightarrow> en_position e = 0"
    by (simp_all add: f_def entry_prepare_def entry_prepare_key_def entry_with_key_def entry_value_def entry_is_root_def Let_def)
  obtain e' h2 where c: "entry_commit index precedes h f = (e', h2)" by (metis prod.collapse)
  have r': "h' = h2" "change = (if en_position e = 0 then if sd_priority ?old = priority then Contents else Minimum
      else if en_position e' = 0 then Minimum else Contents)"
    using r unfolding set_min_slot_def f_def [symmetric]
    by (auto simp: f c entry_change_def entry_is_root_def Let_def split: if_splits prod.splits)
  note ok = store_commit [OF h _ _ c, folded r'(1), unfolded f, simplified, OF p]
  show "store_ok index precedes h'" "store_current h' = (store_current h)(index (sd_identity ?old) \<mapsto> ?v)"
    "heap_capacity h' = heap_capacity h" using ok by simp_all
  obtain q old where q: "hole_replace adr (store_compare precedes) (en_position e) ?v h = ((q, h'), old)" "en_position e' = q"
    using c r'(1) by (auto simp: entry_commit_def hole_prepare_def f Let_def split: prod.splits)
  have h1: "heap_ok adr (store_compare precedes) h" using h by (simp add: store_ok_def)
  have n: "heap_len h \<noteq> 0" "heap_len h' \<noteq> 0" using p ok by auto
  have peek: "store_peek h = Some (sd_identity (hp_entries h 0), sd_priority (hp_entries h 0))"
    "store_peek h' = Some (sd_identity (hp_entries h' 0), sd_priority (hp_entries h' 0))"
    using n by (simp_all add: store_peek_def store_first_def)
  show "change = Minimum \<longleftrightarrow> store_peek h' \<noteq> store_peek h"
  proof (cases "en_position e = 0")
    case True
    then have old: "?old = hp_entries h 0" by (simp add: entry_value_def)
    show ?thesis
    proof (cases "sd_priority ?old = priority")
      case same: True
      then have "?v = hp_entries h 0" using old by simp
      then have "hp_entries h' = hp_entries h"
        using hole_replace_same(2) [OF h1, of 0 q h' old] q True p by simp
      then show ?thesis using True same r' peek by simp
    next
      case False
      have "store_peek h' \<noteq> store_peek h"
      proof
        assume "store_peek h' = store_peek h"
        then have root: "hp_entries h' 0 = hp_entries h 0" using peek by simp
        have "store_current h' (adr (hp_entries h' 0)) = Some (hp_entries h' 0)"
          using current_at [of adr _ h' 0] ok(1) n by (simp add: store_ok_def)
        then have "hp_entries h' 0 = ?v" using ok(2) root old by simp
        then show False using root old False by (metis stored.select_convs(2))
      qed
      then show ?thesis using True False r' by simp
    qed
  next
    case False
    show ?thesis
    proof (cases "q = 0")
      case True
      then have "hp_entries h' 0 = ?v" using ok(6) q by (simp add: entry_value_def)
      moreover have "adr ?old \<noteq> adr (hp_entries h 0)"
        using planes_inj [of adr "heap_len h" "hp_entries h" "hp_positions h" "en_position e" 0] h1 p False n
        by (auto simp: heap_ok_def entry_value_def)
      ultimately have "store_peek h' \<noteq> store_peek h" using peek by auto
      then show ?thesis using False True q r' by simp
    next
      case moved: False
      then have "hp_entries h' 0 = hp_entries h 0" using hole_replace_root [OF h1 p False q(1)] by blast
      then show ?thesis using False moved q r' peek by simp
    qed
  qed
qed

lemma retire_min_view:
  assumes h: "store_ok index precedes (h :: ('k, 'p, 'w::len word) store)" and p: "en_position e < heap_len h"
    and r: "retire_min index precedes h e = (change, h')"
  shows "store_ok index precedes h'"
    "store_current h' = (store_current h)(index (sd_identity (entry_value h e)) := None)"
    "heap_capacity h' = heap_capacity h" "change = Minimum \<longleftrightarrow> store_peek h' \<noteq> store_peek h"
proof -
  obtain v where c: "entry_remove index precedes h e = (v, h')"
    and change: "change = (if en_position e = 0 then Minimum else Contents)"
    using r by (cases "entry_remove index precedes h e")
      (auto simp: retire_min_def entry_clear_def entry_change_def entry_is_root_def Let_def)
  note ok = store_remove [OF h p c]
  show "store_ok index precedes h'" "store_current h' = (store_current h)(index (sd_identity (entry_value h e)) := None)"
    "heap_capacity h' = heap_capacity h" using ok by simp_all
  have h1: "heap_ok adr (store_compare precedes) h" and h2: "heap_ok adr (store_compare precedes) h'"
    using h ok(2) by (simp_all add: store_ok_def)
  have peek: "store_peek h = Some (sd_identity (hp_entries h 0), sd_priority (hp_entries h 0))"
    using p by (simp add: store_peek_def store_first_def)
  have "store_peek h' \<noteq> store_peek h" if "en_position e = 0"
  proof
    assume "store_peek h' = store_peek h"
    then have "heap_len h' \<noteq> 0" "hp_entries h' 0 = hp_entries h 0"
      using peek by (auto simp: store_peek_def store_first_def split: if_splits)
    then show False
      using current_at [OF h2, of 0] ok(1,3) that by (simp add: entry_value_def)
  qed
  moreover have "store_peek h' = store_peek h" if "en_position e \<noteq> 0"
    using hole_remove_root [OF h1 p that c [unfolded entry_remove_def]] p that peek ok(5)
    by (simp add: store_peek_def store_first_def)
  ultimately show "change = Minimum \<longleftrightarrow> store_peek h' \<noteq> store_peek h" using change by simp
qed

end

text \<open>Clearing forgets every entry, from the last to the first.\<close>

lemma store_clear_ok:
  "planes adr (heap_len h) (hp_entries h) (hp_positions h) \<Longrightarrow>
   heap_ok adr cmp (store_clear adr h) \<and> heap_len (store_clear adr h) = 0 \<and>
   heap_capacity (store_clear adr h) = heap_capacity h"
proof (induction adr h rule: store_clear.induct)
  case (1 adr h)
  show ?case
  proof (cases "hp_len h = 0")
    case True
    then show ?thesis using 1(2) by (subst (1 2 3) store_clear.simps) (simp add: heap_ok_def heap_sorted_def heap_len_def)
  next
    case False
    let ?next = "h\<lparr>hp_len := hp_len h - 1,
      hp_positions := reindex adr (hp_entries h (unat (hp_len h - 1))) pos_NONE (hp_positions h)\<rparr>"
    have n: "heap_len h = Suc (heap_len ?next)" using False by (simp add: heap_len_def unat_pred unat_gt_0)
    then have "planes adr (heap_len ?next) (hp_entries ?next) (hp_positions ?next)"
      using planes_drop_last [of adr "heap_len ?next"] 1(2) by (simp add: reindex_def heap_len_def)
    then show ?thesis
      using 1(1) [OF False refl refl] False
      by (subst (1 2 3) store_clear.simps) (simp add: Let_def heap_capacity_def reindex_def)
  qed
qed

text \<open>The two kinds of store the program has.\<close>

interpretation direct_store: heap_store precedes_default index for index :: "'k \<Rightarrow> nat"
  by unfold_locales

interpretation keyed_store: heap_store "precedes_index index" index for index :: "'k \<Rightarrow> nat"
  by unfold_locales

end
