(* ===== verification/O3_Heap_Min.thy ===== *)
theory O3_Heap_Min
  imports O3_Heap_Store
begin

text \<open>
  The three minimum heaps built on the store: keyed by complete generation keys
  (src/src/depot/heap/keyed/), addressed by integer slots (src/src/depot/heap/indexed/) and keyed
  with one stable resident per index (src/src/depot/heap/resident/). Entry states are the values
  Rust returns, without the loan of the heap that they hold; the heap is passed beside them.
\<close>

section \<open>Keyed\<close>

datatype 'k keyed_entry = KVacant 'k | KOccupied "'k entry" | KConflict (ke_requested: 'k) (ke_current: 'k)

definition keyed_first_entry :: "('k, 'p, 'v) store \<Rightarrow> 'k entry option" where
  "keyed_first_entry h = (case entry_first h of
       None \<Rightarrow> None
     | Some e \<Rightarrow> let key = sd_identity (entry_value h e) in Some (entry_with_key e key))"

definition keyed_entry ::
  "('k \<Rightarrow> nat) \<Rightarrow> ('k, 'p, 'w::len word) store \<Rightarrow> 'k \<Rightarrow> 'k keyed_error + 'k keyed_entry" where
  "keyed_entry index h key = (case lookup_try_new index h key of
       Inl e \<Rightarrow> Inl e
     | Inr (LVacant k) \<Rightarrow> Inr (KVacant k)
     | Inr (LOccupied e) \<Rightarrow> Inr (KOccupied e)
     | Inr (LConflict e) \<Rightarrow> Inr (KConflict (en_next e) (sd_identity (entry_value h e))))"

definition keyed_probe ::
  "('k \<Rightarrow> nat) \<Rightarrow> ('k, 'p, 'w::len word) store \<Rightarrow> 'k \<Rightarrow> 'k entry heap_probe" where
  "keyed_probe index h key = lookup_probe index h key (\<lambda>e. e)"

definition keyed_retire ::
  "('k \<Rightarrow> nat) \<Rightarrow> ('k, 'p::linorder, 'w::len word) store \<Rightarrow> 'k \<Rightarrow> ('k, 'p, 'w word) store" where
  "keyed_retire index h key = (case slot_new index h key of
       None \<Rightarrow> h
     | Some s \<Rightarrow> slot_retire index (precedes_index index) h s)"

definition keyed_peek :: "('k, 'p, 'v) store \<Rightarrow> ('k \<times> 'p) option" where
  "keyed_peek h = store_peek h"

text \<open>With a key of the same capacity domain the bound is already admitted.\<close>

definition keyed_slot :: "('k \<Rightarrow> nat) \<Rightarrow> ('k, 'p, 'w::len word) store \<Rightarrow> 'k \<Rightarrow> ('k, 'w word) slot" where
  "keyed_slot index h key = slot_from_source index h key"

definition bound_replace ::
  "('k \<Rightarrow> nat) \<Rightarrow> ('k, 'p::linorder, 'w::len word) store \<Rightarrow> 'k \<Rightarrow> 'p \<Rightarrow> ('k, 'p, 'w word) store" where
  "bound_replace index h key priority =
     slot_replace index (precedes_index index) h (keyed_slot index h key) priority"

definition bound_retire ::
  "('k \<Rightarrow> nat) \<Rightarrow> ('k, 'p::linorder, 'w::len word) store \<Rightarrow> 'k \<Rightarrow> ('k, 'p, 'w word) store" where
  "bound_retire index h key = slot_retire index (precedes_index index) h (keyed_slot index h key)"

definition live_clear ::
  "('k \<Rightarrow> nat) \<Rightarrow> ('k, 'p::linorder, 'w::len word) store \<Rightarrow> 'k \<Rightarrow> ('k, 'p, 'w word) store" where
  "live_clear index h key = slot_clear index (precedes_index index) h (slot_from_source index h key)"

definition keyed_insert ::
  "('k \<Rightarrow> nat) \<Rightarrow> ('k, 'p::linorder, 'w::len word) store \<Rightarrow> 'k \<Rightarrow> 'p \<Rightarrow> ('k, 'p, 'w word) store" where
  "keyed_insert index h key priority =
     vacancy_store (stored_index index) (store_compare (precedes_index index)) (vacancy_prepare key priority) h"

definition keyed_set ::
  "('k \<Rightarrow> nat) \<Rightarrow> ('k, 'p::linorder, 'w::len word) store \<Rightarrow> 'k entry \<Rightarrow> 'p \<Rightarrow> ('k, 'p, 'w word) store" where
  "keyed_set index h e priority =
     (let e = entry_prepare h priority (fst (entry_into_parts e))
      in hole_update (stored_index index) (store_compare (precedes_index index)) (en_position e) (en_next e) h)"

definition keyed_retire_min ::
  "('k \<Rightarrow> nat) \<Rightarrow> ('k, 'p::linorder, 'w::len word) store \<Rightarrow> 'k entry \<Rightarrow> change \<times> ('k, 'p, 'w word) store" where
  "keyed_retire_min index h e = retire_min index (precedes_index index) h (fst (entry_into_parts e))"

definition keyed_remove ::
  "('k \<Rightarrow> nat) \<Rightarrow> ('k, 'p::linorder, 'w::len word) store \<Rightarrow> 'k entry \<Rightarrow> 'p \<times> ('k, 'p, 'w word) store" where
  "keyed_remove index h e =
     (let (v, h) = entry_remove index (precedes_index index) h (fst (entry_into_parts e))
      in (sd_priority v, h))"

text \<open>An occupied membership taken from a key whose occupancy the caller already holds.\<close>

definition occupied_from_live :: "('k \<Rightarrow> nat) \<Rightarrow> ('k, 'p, 'w::len word) store \<Rightarrow> 'k \<Rightarrow> 'k entry" where
  "occupied_from_live index h key =
     \<lparr>en_position = offset (hp_positions h ! index key), en_next = key\<rparr>"

section \<open>Indexed\<close>

text \<open>A direct identity is its own index, below \<open>u32::MAX\<close>.\<close>

type_synonym 'p direct = "(u32, 'p, u32) store"

abbreviation direct_index :: "u32 \<Rightarrow> nat" where
  "direct_index \<equiv> unat"

definition direct_from_index :: "nat \<Rightarrow> u32" where
  "direct_from_index i = word_of_nat i"

definition direct_position :: "u32 \<Rightarrow> u32" where
  "direct_position d = d + 1"

record indexed_error =
  ie_index :: nat
  ie_capacity :: nat

datatype indexed_entry = IVacant u32 | IOccupied "unit entry"

definition indexed_from_slot :: "(u32, u32) slot \<Rightarrow> indexed_entry" where
  "indexed_from_slot s = slot_map s IVacant (\<lambda>e. IOccupied (fst (entry_into_parts e)))"

definition indexed_try_entry :: "'p direct \<Rightarrow> nat \<Rightarrow> indexed_error + indexed_entry" where
  "indexed_try_entry h i =
     (if i \<ge> length (hp_positions h) then Inl \<lparr>ie_index = i, ie_capacity = length (hp_positions h)\<rparr>
      else Inr (indexed_from_slot (slot_from_source direct_index h (direct_from_index i))))"

text \<open>A full heap whose domain shares one priority.\<close>

definition indexed_repeat :: "(nat \<Rightarrow> (u32, 'p) stored) \<Rightarrow> nat \<Rightarrow> 'p \<Rightarrow> 'p direct" where
  "indexed_repeat junk len priority =
     \<lparr>hp_len = word_of_nat len,
      hp_entries = (\<lambda>i. if i < len then \<lparr>sd_identity = direct_from_index i, sd_priority = priority\<rparr> else junk i),
      hp_positions = map word_of_nat [0..<len]\<rparr>"

definition indexed_get :: "'p direct \<Rightarrow> nat \<Rightarrow> 'p option" where
  "indexed_get h i = (case store_current h i of None \<Rightarrow> None | Some e \<Rightarrow> Some (sd_priority e))"

definition indexed_peek :: "'p direct \<Rightarrow> (nat \<times> 'p) option" where
  "indexed_peek h = (case store_peek h of None \<Rightarrow> None | Some (key, priority) \<Rightarrow> Some (direct_index key, priority))"

definition indexed_first_entry :: "'p direct \<Rightarrow> unit entry option" where
  "indexed_first_entry h = entry_first h"

definition indexed_clear :: "'p direct \<Rightarrow> 'p direct" where
  "indexed_clear h = store_clear (stored_index direct_index) h"

definition indexed_index :: "'p direct \<Rightarrow> unit entry \<Rightarrow> nat" where
  "indexed_index h e = direct_index (sd_identity (entry_value h e))"

definition indexed_replace :: "'p::linorder direct \<Rightarrow> unit entry \<Rightarrow> 'p \<Rightarrow> (unit entry \<times> 'p) \<times> 'p direct" where
  "indexed_replace h e v =
     (let e = entry_prepare h v e;
          ((position, h), old) = hole_replace (stored_index direct_index) (store_compare precedes_default)
            (en_position e) (en_next e) h
      in ((\<lparr>en_position = position, en_next = ()\<rparr>, sd_priority old), h))"

definition indexed_set :: "'p::linorder direct \<Rightarrow> unit entry \<Rightarrow> 'p \<Rightarrow> 'p direct" where
  "indexed_set h e v =
     (let e = entry_prepare h v e
      in hole_update (stored_index direct_index) (store_compare precedes_default) (en_position e) (en_next e) h)"

definition indexed_retire :: "'p::linorder direct \<Rightarrow> unit entry \<Rightarrow> 'p direct" where
  "indexed_retire h e = entry_clear direct_index precedes_default h e"

definition indexed_take :: "'p::linorder direct \<Rightarrow> unit entry \<Rightarrow> 'p \<times> 'p direct" where
  "indexed_take h e =
     (let (v, h) = entry_remove direct_index precedes_default h e in (sd_priority v, h))"

definition indexed_remove :: "'p::linorder direct \<Rightarrow> unit entry \<Rightarrow> (u32 \<times> 'p) \<times> 'p direct" where
  "indexed_remove h e = remove_slot direct_index precedes_default h e"

definition indexed_vacant_set :: "'p::linorder direct \<Rightarrow> u32 \<Rightarrow> 'p \<Rightarrow> 'p direct" where
  "indexed_vacant_set h key v =
     vacancy_store (stored_index direct_index) (store_compare precedes_default) (vacancy_prepare key v) h"

definition indexed_insert :: "'p::linorder direct \<Rightarrow> u32 \<Rightarrow> 'p \<Rightarrow> unit entry \<times> 'p direct" where
  "indexed_insert h key v =
     (let hole = hole_append (stored_index direct_index) (store_compare precedes_default) (vacancy_prepare key v) h;
          (position, h) = hole_finish (stored_index direct_index) hole
      in (\<lparr>en_position = position, en_next = ()\<rparr>, h))"

text \<open>Entries of an admitted one-based position: unresolved, known empty, known full.\<close>

definition slot_entry :: "'p direct \<Rightarrow> u32 \<Rightarrow> indexed_entry" where
  "slot_entry h position =
     indexed_from_slot (slot_from_source direct_index h (direct_from_index (unat position - 1)))"

definition slot_entry_empty :: "u32 \<Rightarrow> u32" where
  "slot_entry_empty position = direct_from_index (unat position - 1)"

definition slot_entry_full :: "'p direct \<Rightarrow> u32 \<Rightarrow> unit entry" where
  "slot_entry_full h position =
     \<lparr>en_position = unat (hp_positions h ! (unat position - 1)), en_next = ()\<rparr>"

section \<open>Resident\<close>

record ('k, 'p, 'r, 'v) resident =
  rs_heap :: "('k, 'p, 'v) store"
  rs_values :: "'r list"

definition resident :: "('k \<Rightarrow> nat) \<Rightarrow> ('k, 'p, 'r, 'v) resident \<Rightarrow> 'k \<Rightarrow> 'r" where
  "resident index m key = rs_values m ! index key"

definition resident_mut :: "('k \<Rightarrow> nat) \<Rightarrow> 'k \<Rightarrow> 'r \<Rightarrow> ('k, 'p, 'r, 'v) resident \<Rightarrow> ('k, 'p, 'r, 'v) resident" where
  "resident_mut index key v m = m\<lparr>rs_values := (rs_values m)[index key := v]\<rparr>"

definition resident_repeat ::
  "(nat \<Rightarrow> ('k, 'p) stored) \<Rightarrow> nat \<Rightarrow> 'r \<Rightarrow> ('k, 'p, 'r, 'w::len word) resident" where
  "resident_repeat junk capacity v = \<lparr>rs_heap = heap_new junk capacity, rs_values = replicate capacity v\<rparr>"

definition resident_entry ::
  "('k \<Rightarrow> nat) \<Rightarrow> ('k, 'p, 'r, 'w::len word) resident \<Rightarrow> 'k \<Rightarrow> 'k keyed_error + 'k lookup" where
  "resident_entry index m key = lookup_try_new index (rs_heap m) key"

definition resident_first_entry_if ::
  "('k, 'p, 'r, 'v) resident \<Rightarrow> ('p \<Rightarrow> bool) \<Rightarrow> 'k entry option" where
  "resident_first_entry_if m accept = (case entry_first (rs_heap m) of
       None \<Rightarrow> None
     | Some e \<Rightarrow> if \<not> accept (sd_priority (entry_value (rs_heap m) e)) then None
         else let key = sd_identity (entry_value (rs_heap m) e) in Some (entry_with_key e key))"

definition resident_first_entry :: "('k, 'p, 'r, 'v) resident \<Rightarrow> 'k entry option" where
  "resident_first_entry m = resident_first_entry_if m (\<lambda>_. True)"

definition resident_insert ::
  "('k \<Rightarrow> nat) \<Rightarrow> ('k, 'p::linorder, 'r, 'w::len word) resident \<Rightarrow> 'k \<Rightarrow> 'p \<Rightarrow> ('k, 'p, 'r, 'w word) resident" where
  "resident_insert index m key priority =
     m\<lparr>rs_heap := vacancy_store (stored_index index) (store_compare (precedes_index index))
         (vacancy_prepare key priority) (rs_heap m)\<rparr>"

definition resident_set ::
  "('k \<Rightarrow> nat) \<Rightarrow> ('k, 'p::linorder, 'r, 'w::len word) resident \<Rightarrow> 'k entry \<Rightarrow> 'p \<Rightarrow> ('k, 'p, 'r, 'w word) resident" where
  "resident_set index m e priority =
     (let e = entry_prepare (rs_heap m) priority (fst (entry_into_parts e))
      in m\<lparr>rs_heap := hole_update (stored_index index) (store_compare (precedes_index index))
             (en_position e) (en_next e) (rs_heap m)\<rparr>)"

definition resident_set_min ::
  "('k \<Rightarrow> nat) \<Rightarrow> ('k, 'p::linorder, 'r, 'w::len word) resident \<Rightarrow> 'k entry \<Rightarrow> 'p
     \<Rightarrow> change \<times> ('k, 'p, 'r, 'w word) resident" where
  "resident_set_min index m e priority =
     (let (change, h) = set_min_slot index (precedes_index index) (rs_heap m) (fst (entry_into_parts e)) priority
      in (change, m\<lparr>rs_heap := h\<rparr>))"

definition resident_retire ::
  "('k \<Rightarrow> nat) \<Rightarrow> ('k, 'p::linorder, 'r, 'w::len word) resident \<Rightarrow> 'k entry \<Rightarrow> ('k, 'p, 'r, 'w word) resident" where
  "resident_retire index m e =
     m\<lparr>rs_heap := entry_clear index (precedes_index index) (rs_heap m) (fst (entry_into_parts e))\<rparr>"

definition resident_retire_min ::
  "('k \<Rightarrow> nat) \<Rightarrow> ('k, 'p::linorder, 'r, 'w::len word) resident \<Rightarrow> 'k entry \<Rightarrow> change \<times> ('k, 'p, 'r, 'w word) resident" where
  "resident_retire_min index m e =
     (let (change, h) = retire_min index (precedes_index index) (rs_heap m) (fst (entry_into_parts e))
      in (change, m\<lparr>rs_heap := h\<rparr>))"

text \<open>Removing keeps the entry aside, with its resident still in place, to be inserted again.\<close>

definition resident_remove ::
  "('k \<Rightarrow> nat) \<Rightarrow> ('k, 'p::linorder, 'r, 'w::len word) resident \<Rightarrow> 'k entry
     \<Rightarrow> ('k, 'p) stored \<times> ('k, 'p, 'r, 'w word) resident" where
  "resident_remove index m e =
     (let (v, h) = entry_remove index (precedes_index index) (rs_heap m) (fst (entry_into_parts e))
      in (v, m\<lparr>rs_heap := h\<rparr>))"

definition removed_reinsert ::
  "('k \<Rightarrow> nat) \<Rightarrow> ('k, 'p::linorder, 'r, 'w::len word) resident \<Rightarrow> ('k, 'p) stored \<Rightarrow> 'p
     \<Rightarrow> ('k, 'p, 'r, 'w word) resident" where
  "removed_reinsert index m removed priority =
     m\<lparr>rs_heap := vacancy_store (stored_index index) (store_compare (precedes_index index))
         (vacancy_prepare (sd_identity removed) priority) (rs_heap m)\<rparr>"

definition conflict_set ::
  "('k \<Rightarrow> nat) \<Rightarrow> ('k, 'p::linorder, 'r, 'w::len word) resident \<Rightarrow> 'k entry \<Rightarrow> 'p \<Rightarrow> ('k, 'p, 'r, 'w word) resident" where
  "conflict_set index m e priority =
     m\<lparr>rs_heap := snd (entry_commit index (precedes_index index) (rs_heap m) (entry_prepare_key priority e))\<rparr>"

text \<open>The closures of \<open>update\<close>: \<open>fresh\<close> is what \<open>new\<close> returns, \<open>current\<close> maps a resident to itself
  modified and its priority.\<close>

definition resident_update ::
  "('k \<Rightarrow> nat) \<Rightarrow> ('k, 'p::linorder, 'r, 'w::len word) resident \<Rightarrow> 'k lookup \<Rightarrow> 'r \<times> 'p \<Rightarrow> ('r \<Rightarrow> 'r \<times> 'p)
     \<Rightarrow> ('k, 'p, 'r, 'w word) resident" where
  "resident_update index m state fresh current = (case state of
       LVacant key \<Rightarrow>
         let (v, priority) = fresh in resident_insert index (resident_mut index key v m) key priority
     | LOccupied e \<Rightarrow>
         let (v, priority) = current (resident index m (en_next e))
         in resident_set index (resident_mut index (en_next e) v m) e priority
     | LConflict e \<Rightarrow>
         let (v, priority) = fresh in conflict_set index (resident_mut index (en_next e) v m) e priority)"

definition resident_clear ::
  "('k \<Rightarrow> nat) \<Rightarrow> ('k, 'p::linorder, 'r, 'w::len word) resident \<Rightarrow> 'k lookup \<Rightarrow> 'r \<Rightarrow> ('k, 'p, 'r, 'w word) resident" where
  "resident_clear index m state blank = (case state of
       LOccupied e \<Rightarrow> resident_retire index (resident_mut index (en_next e) blank m) e
     | LVacant key \<Rightarrow> resident_mut index key blank m
     | LConflict e \<Rightarrow> m)"

end
