(* ===== verification/O3_Heap_Client.thy ===== *)
theory O3_Heap_Client
  imports O3_Heap_Min
begin

text \<open>
  What the three minimum heaps promise their clients, as updates of the map \<open>store_current\<close>. A
  run of keyed operations refines the same run on a finite map; resolving an entry decides
  exactly between an absent identity, the requested generation and another one; the first entry
  is a least one; residents follow their identity's state.
\<close>

section \<open>Keyed heaps refine maps\<close>

datatype ('k, 'p) keyed_op = BoundReplace 'k 'p | BoundRetire 'k | LiveClear 'k | Retire 'k | Upsert 'k 'p | Remove 'k

text \<open>\<open>Upsert\<close> and \<open>Remove\<close> are the clients of \<open>entry\<close>: one resolves, then inserts or sets, the other
  removes an occupied entry.\<close>

definition keyed_step ::
  "('k \<Rightarrow> nat) \<Rightarrow> ('k, 'p) keyed_op \<Rightarrow> ('k, 'p::linorder, 'w::len word) store \<Rightarrow> ('k, 'p, 'w word) store" where
  "keyed_step index op h = (case op of
       BoundReplace k p \<Rightarrow> bound_replace index h k p
     | BoundRetire k \<Rightarrow> bound_retire index h k
     | LiveClear k \<Rightarrow> live_clear index h k
     | Retire k \<Rightarrow> keyed_retire index h k
     | Upsert k p \<Rightarrow> (case keyed_entry index h k of
           Inr (KVacant k) \<Rightarrow> keyed_insert index h k p
         | Inr (KOccupied e) \<Rightarrow> keyed_set index h e p
         | _ \<Rightarrow> h)
     | Remove k \<Rightarrow> (case keyed_entry index h k of
           Inr (KOccupied e) \<Rightarrow> snd (keyed_remove index h e)
         | _ \<Rightarrow> h))"

definition holds :: "('k \<Rightarrow> nat) \<Rightarrow> (nat \<rightharpoonup> ('k, 'p) stored) \<Rightarrow> 'k \<Rightarrow> bool" where
  "holds index m k = (case m (index k) of None \<Rightarrow> False | Some e \<Rightarrow> sd_identity e = k)"

definition map_step ::
  "('k \<Rightarrow> nat) \<Rightarrow> nat \<Rightarrow> ('k, 'p) keyed_op \<Rightarrow> (nat \<rightharpoonup> ('k, 'p) stored) \<Rightarrow> (nat \<rightharpoonup> ('k, 'p) stored)" where
  "map_step index cap op m = (case op of
       BoundReplace k p \<Rightarrow> m(index k \<mapsto> \<lparr>sd_identity = k, sd_priority = p\<rparr>)
     | BoundRetire k \<Rightarrow> if holds index m k then m(index k := None) else m
     | LiveClear k \<Rightarrow> m(index k := None)
     | Retire k \<Rightarrow> if holds index m k then m(index k := None) else m
     | Upsert k p \<Rightarrow>
         if index k < cap \<and> (m (index k) = None \<or> holds index m k)
         then m(index k \<mapsto> \<lparr>sd_identity = k, sd_priority = p\<rparr>) else m
     | Remove k \<Rightarrow> if holds index m k then m(index k := None) else m)"

text \<open>Keys of the heap's own domain are below its capacity; the other operations take any key.\<close>

definition bounded_op :: "('k \<Rightarrow> nat) \<Rightarrow> nat \<Rightarrow> ('k, 'p) keyed_op \<Rightarrow> bool" where
  "bounded_op index cap op = (case op of
       BoundReplace k p \<Rightarrow> index k < cap | BoundRetire k \<Rightarrow> index k < cap | LiveClear k \<Rightarrow> index k < cap
     | _ \<Rightarrow> True)"

lemma entry_parts [simp]: "fst (entry_into_parts e) = \<lparr>en_position = en_position e, en_next = ()\<rparr>"
  by (simp add: entry_into_parts_def)

lemma keyed_entry_view:
  assumes h: "store_ok index (precedes_index index) h"
  shows "keyed_entry index h k =
    (if index k < heap_capacity h then Inr (case store_current h (index k) of
         None \<Rightarrow> KVacant k
       | Some e \<Rightarrow> if sd_identity e = k then KOccupied (slot_into_entry (slot_from_source index h k))
           else KConflict k (sd_identity e))
     else Inl \<lparr>ke_key = k, ke_capacity = heap_capacity h\<rparr>)"
  using keyed_store.lookup_view [OF h, of k] keyed_store.slot_view [OF h, of k]
  by (cases "store_current h (index k)")
     (auto simp: keyed_entry_def lookup_try_new_def keyed_store.slot_new_eq heap_capacity_def Let_def)

lemma current_bound: "store_current h a = Some e \<Longrightarrow> a < heap_capacity h"
  by (auto simp: store_current_def heap_capacity_def split: if_splits)

lemma keyed_set_eq:
  "keyed_set index h e p = hole_update (stored_index index) (store_compare (precedes_index index)) (en_position e)
     \<lparr>sd_identity = sd_identity (entry_value h e), sd_priority = p\<rparr> h"
  by (simp add: keyed_set_def entry_prepare_def entry_prepare_key_def entry_with_key_def entry_value_def Let_def)

lemma keyed_step_refines:
  assumes h: "store_ok index (precedes_index index) h" and op: "bounded_op index (heap_capacity h) op"
  shows "store_ok index (precedes_index index) (keyed_step index op h) \<and>
    store_current (keyed_step index op h) = map_step index (heap_capacity h) op (store_current h) \<and>
    heap_capacity (keyed_step index op h) = heap_capacity h"
proof (cases op)
  case (BoundReplace k p)
  then show ?thesis
    using keyed_store.slot_replace_view [OF h, of k p] op
    by (simp add: keyed_step_def map_step_def bounded_op_def bound_replace_def keyed_slot_def)
next
  case (BoundRetire k)
  then show ?thesis
    using keyed_store.slot_retire_view [OF h, of k] op
    by (simp add: keyed_step_def map_step_def bounded_op_def bound_retire_def keyed_slot_def holds_def
        split: option.splits)
next
  case (LiveClear k)
  then show ?thesis
    using keyed_store.slot_clear_view [OF h, of k] op
    by (simp add: keyed_step_def map_step_def bounded_op_def live_clear_def)
next
  case (Retire k)
  show ?thesis
  proof (cases "index k < heap_capacity h")
    case True
    then show ?thesis
      using keyed_store.slot_retire_view [OF h True] Retire
      by (simp add: keyed_step_def map_step_def keyed_retire_def keyed_store.slot_new_eq holds_def split: option.splits)
  next
    case False
    then show ?thesis
      using Retire h current_bound [of h "index k"]
      by (auto simp: keyed_step_def map_step_def keyed_retire_def keyed_store.slot_new_eq holds_def split: option.splits)
  qed
next
  case (Upsert k p)
  let ?v = "\<lparr>sd_identity = k, sd_priority = p\<rparr>"
  show ?thesis
  proof (cases "index k < heap_capacity h")
    case True
    show ?thesis
    proof (cases "store_current h (index k)")
      case None
      then have "keyed_step index op h =
          vacancy_store (stored_index index) (store_compare (precedes_index index)) ?v h"
        using True by (simp add: Upsert keyed_step_def keyed_entry_view [OF h] keyed_insert_def vacancy_prepare_def)
      then show ?thesis
        using keyed_store.store_insert [OF h, of ?v] True None by (simp add: Upsert map_step_def)
    next
      case (Some e)
      note view = keyed_store.slot_view(2) [OF h True Some]
      show ?thesis
      proof (cases "sd_identity e = k")
        case same: True
        then have "keyed_step index op h = hole_update (stored_index index) (store_compare (precedes_index index))
            (en_position (slot_into_entry (slot_from_source index h k))) ?v h"
          using True Some view by (simp add: Upsert keyed_step_def keyed_entry_view [OF h] keyed_set_eq)
        then show ?thesis
          using keyed_store.store_update [OF h, of "en_position (slot_into_entry (slot_from_source index h k))" ?v]
            view same True Some
          by (simp add: Upsert map_step_def holds_def entry_value_def)
      next
        case False
        then show ?thesis
          using True Some h by (simp add: Upsert keyed_step_def keyed_entry_view [OF h] map_step_def holds_def)
      qed
    qed
  next
    case False
    then show ?thesis using h by (simp add: Upsert keyed_step_def keyed_entry_view [OF h] map_step_def)
  qed
next
  case (Remove k)
  show ?thesis
  proof (cases "index k < heap_capacity h \<and> holds index (store_current h) k")
    case True
    then obtain e where e: "store_current h (index k) = Some e" "sd_identity e = k"
      by (auto simp: holds_def split: option.splits)
    have k: "index k < heap_capacity h" using True ..
    have "keyed_step index op h = entry_clear index (precedes_index index) h
        \<lparr>en_position = en_position (slot_into_entry (slot_from_source index h k)), en_next = ()\<rparr>"
      using True e by (simp add: Remove keyed_step_def keyed_entry_view [OF h] keyed_remove_def entry_clear_def split: prod.split)
    then show ?thesis
      using keyed_store.clear_view [OF h k e(1) refl] True by (simp add: Remove map_step_def)
  next
    case False
    then have "keyed_step index op h = h"
      by (auto simp: Remove keyed_step_def keyed_entry_view [OF h] holds_def split: option.splits)
    moreover have "\<not> holds index (store_current h) k"
      using False current_bound [of h "index k"] by (auto simp: holds_def split: option.splits)
    ultimately show ?thesis using h by (simp add: Remove map_step_def)
  qed
qed

lemma heap_new_ok:
  assumes "capacity < 2 ^ LENGTH('w)" "capacity < 2 ^ 32"
  shows "heap_ok adr cmp (heap_new junk capacity :: ('e, 'w::len word) heap)"
  using assms by (simp add: heap_ok_def heap_new_def heap_len_def planes_def heap_sorted_def)

lemma store_new_ok:
  assumes "capacity < 2 ^ LENGTH('w)" "capacity < 2 ^ 32"
  shows "store_ok index precedes (heap_new junk capacity :: ('k, 'p::linorder, 'w::len word) store)"
  unfolding store_ok_def using assms by (rule heap_new_ok)

lemma heap_new_view [simp]:
  "store_current (heap_new junk capacity :: ('e, 'w::len word) heap) = Map.empty"
  "heap_capacity (heap_new junk capacity :: ('e, 'w::len word) heap) = capacity"
  by (auto simp: store_current_def heap_new_def heap_capacity_def)

lemma keyed_run_refines:
  assumes "store_ok index (precedes_index index) h" "list_all (bounded_op index (heap_capacity h)) ops"
  shows "store_ok index (precedes_index index) (fold (keyed_step index) ops h) \<and>
    store_current (fold (keyed_step index) ops h) = fold (map_step index (heap_capacity h)) ops (store_current h) \<and>
    heap_capacity (fold (keyed_step index) ops h) = heap_capacity h"
  using assms
proof (induction ops arbitrary: h)
  case (Cons op ops)
  then show ?case using keyed_step_refines [OF Cons.prems(1), of op] by simp
qed simp

text \<open>C29: A keyed minimum heap refines a finite map. Any sequence of its operations, from a new
  heap of a capacity that fits the position word and the length, leaves a heap whose view, index
  to stored identity and priority, is the one the same sequence gives on the empty map: replacing
  overwrites whatever generation is at the index, retiring and removing touch only the exact
  generation, clearing any, and inserting through an entry never overwrites another generation.
  The planes stay a bijection and the entries a heap.\<close>

theorem heap_refines_map:
  assumes "capacity < 2 ^ LENGTH('w)" "capacity < 2 ^ 32" "list_all (bounded_op index capacity) ops"
  shows "let h = fold (keyed_step index) ops (heap_new junk capacity :: ('k, 'p::linorder, 'w::len word) store) in
    store_current h = fold (map_step index capacity) ops Map.empty \<and>
    store_ok index (precedes_index index) h \<and> heap_capacity h = capacity"
  using keyed_run_refines [OF store_new_ok [OF assms(1,2)], of index junk ops] assms(3)
  by (simp add: Let_def)

lemma heap_refines_map_witness:
  "let ops = [BoundReplace (3 :: nat) (30 :: nat), Upsert 1 10, Upsert 2 20, Remove 1, BoundReplace 3 5];
       h = fold (keyed_step id) ops (heap_new (\<lambda>_. \<lparr>sd_identity = 0, sd_priority = 0\<rparr>) 4 :: (nat, nat, 8 word) store)
   in store_current h = fold (map_step id 4) ops Map.empty \<and> store_ok id (precedes_index id) h \<and> heap_capacity h = 4"
  using heap_refines_map [where 'w = 8, of 4 id
      "[BoundReplace (3 :: nat) (30 :: nat), Upsert 1 10, Upsert 2 20, Remove 1, BoundReplace 3 5]"
      "\<lambda>_. \<lparr>sd_identity = 0, sd_priority = 0\<rparr>"]
  by (simp add: bounded_op_def Let_def)

text \<open>Concrete heaps for the witnesses.\<close>

definition sample_heap :: "(nat, nat, 8 word) store" where
  "sample_heap = fold (keyed_step id) [BoundReplace 3 30, BoundReplace 1 10, BoundReplace 2 20]
     (heap_new (\<lambda>_. \<lparr>sd_identity = 0, sd_priority = 0\<rparr>) 4)"

lemma sample_heap_ok: "store_ok id (precedes_index id) sample_heap"
  and sample_heap_view: "store_current sample_heap =
    [3 \<mapsto> \<lparr>sd_identity = 3, sd_priority = 30\<rparr>, 1 \<mapsto> \<lparr>sd_identity = 1, sd_priority = 10\<rparr>, 2 \<mapsto> \<lparr>sd_identity = 2, sd_priority = 20\<rparr>]"
  and sample_heap_capacity: "heap_capacity sample_heap = 4"
  using keyed_run_refines [OF store_new_ok [where 'w = 8, of 4], of id
      "\<lambda>_. \<lparr>sd_identity = 0, sd_priority = 0\<rparr>" "[BoundReplace 3 (30 :: nat), BoundReplace 1 10, BoundReplace 2 20]"]
  by (simp_all add: sample_heap_def bounded_op_def map_step_def)

section \<open>The minimum\<close>

lemma keyed_first_entry_at:
  "keyed_first_entry h = (if heap_len h = 0 then None
     else Some \<lparr>en_position = 0, en_next = sd_identity (hp_entries h 0)\<rparr>)"
  by (simp add: keyed_first_entry_def entry_first_def heap_is_empty_def entry_value_def entry_with_key_def
      heap_len_def unat_eq_0 Let_def)

text \<open>C30: The first entry of a keyed heap is its minimum, by priority and then by physical index:
  there is none exactly when the heap is empty; otherwise it is the entry that peeking shows, it
  is in the map, no other entry precedes it, and removing it returns its priority and takes
  exactly it away.\<close>

theorem heap_minimum:
  assumes h: "store_ok index (precedes_index index) (h :: ('k, 'p::linorder, 'w::len word) store)"
  shows "case keyed_first_entry h of
      None \<Rightarrow> keyed_peek h = None \<and> store_current h = Map.empty
    | Some e \<Rightarrow>
        (case keyed_remove index h e of (p, h') \<Rightarrow>
           keyed_peek h = Some (en_next e, p) \<and>
           store_current h (index (en_next e)) = Some \<lparr>sd_identity = en_next e, sd_priority = p\<rparr> \<and>
           (\<forall>a d. store_current h a = Some d \<longrightarrow>
              p < sd_priority d \<or> p = sd_priority d \<and> index (en_next e) \<le> index (sd_identity d)) \<and>
           store_current h' = (store_current h)(index (en_next e) := None) \<and>
           store_ok index (precedes_index index) h')"
proof (cases "heap_len h = 0")
  case True
  then show ?thesis
    using keyed_store.store_least(1) [OF h]
    by (simp add: keyed_first_entry_at keyed_peek_def store_peek_def store_first_def)
next
  case False
  let ?m = "hp_entries h 0" and ?e = "\<lparr>en_position = 0, en_next = ()\<rparr>"
  have first: "store_first h = Some ?m" using False by (simp add: store_first_def)
  obtain v h' where r: "entry_remove index (precedes_index index) h ?e = (v, h')" by (metis prod.collapse)
  have p: "en_position ?e < heap_len h" using False by simp
  note removed = keyed_store.store_remove [OF h p r]
  have v: "v = ?m" using removed(1) by (simp add: entry_value_def)
  have least: "sd_priority ?m < sd_priority d \<or>
      sd_priority ?m = sd_priority d \<and> index (sd_identity ?m) \<le> index (sd_identity d)"
    if "store_current h a = Some d" for a d
    using keyed_store.store_least(3) [OF h first that]
    by (auto simp: store_compare_def precedes_index_def split: ordering.splits if_splits)
  show ?thesis
    using False r v least removed(2,3) keyed_store.store_least(2) [OF h first]
    by (simp add: keyed_first_entry_at keyed_remove_def keyed_peek_def store_peek_def first)
qed

lemma heap_minimum_witness:
  "case keyed_first_entry sample_heap of
      None \<Rightarrow> keyed_peek sample_heap = None \<and> store_current sample_heap = Map.empty
    | Some e \<Rightarrow>
        (case keyed_remove id sample_heap e of (p, h') \<Rightarrow>
           keyed_peek sample_heap = Some (en_next e, p) \<and>
           store_current sample_heap (id (en_next e)) = Some \<lparr>sd_identity = en_next e, sd_priority = p\<rparr> \<and>
           (\<forall>a d. store_current sample_heap a = Some d \<longrightarrow>
              p < sd_priority d \<or> p = sd_priority d \<and> id (en_next e) \<le> id (sd_identity d)) \<and>
           store_current h' = (store_current sample_heap)(id (en_next e) := None) \<and>
           store_ok id (precedes_index id) h')"
  by (rule heap_minimum [OF sample_heap_ok])

text \<open>Resolving an entry is exact. A key outside the domain is an error that carries the key and
  the capacity, and probing says so; inside, the answer is vacant exactly when the index holds
  nothing, occupied exactly when it holds this generation, and otherwise a conflict naming the
  requested and the current generation. An occupied entry denotes the stored value.\<close>

theorem heap_entry_exact:
  assumes h: "store_ok index (precedes_index index) (h :: ('k, 'p::linorder, 'w::len word) store)"
  shows "(if index k \<ge> heap_capacity h then
        keyed_entry index h k = Inl \<lparr>ke_key = k, ke_capacity = heap_capacity h\<rparr> \<and>
        keyed_probe index h k = OutOfRange
      else case store_current h (index k) of
        None \<Rightarrow> keyed_entry index h k = Inr (KVacant k) \<and> keyed_probe index h k = Vacant
      | Some d \<Rightarrow>
          if sd_identity d = k then
            (\<exists>e. keyed_entry index h k = Inr (KOccupied e) \<and> keyed_probe index h k = Occupied e \<and>
              en_next e = k \<and> entry_value h e = d \<and> e = occupied_from_live index h k)
          else keyed_entry index h k = Inr (KConflict k (sd_identity d)) \<and> keyed_probe index h k = Conflict)"
proof (cases "index k < heap_capacity h")
  case True
  show ?thesis
  proof (cases "store_current h (index k)")
    case None
    then show ?thesis
      using True keyed_store.lookup_view [OF h True]
      by (simp add: keyed_entry_view [OF h] keyed_probe_def lookup_probe_def keyed_store.slot_new_eq)
  next
    case (Some d)
    then show ?thesis
      using True keyed_store.lookup_view [OF h True] keyed_store.slot_view(2) [OF h True Some]
      by (auto simp: keyed_entry_view [OF h] keyed_probe_def lookup_probe_def keyed_store.slot_new_eq
          occupied_from_live_def slot_into_entry_def slot_from_source_def Let_def)
  qed
next
  case False
  then show ?thesis
    by (simp add: keyed_entry_view [OF h] keyed_probe_def lookup_probe_def keyed_store.slot_new_eq)
qed

lemma heap_entry_exact_witness:
  "(\<exists>e. keyed_entry id sample_heap 3 = Inr (KOccupied e) \<and> keyed_probe id sample_heap 3 = Occupied e \<and>
      en_next e = 3 \<and> entry_value sample_heap e = \<lparr>sd_identity = 3, sd_priority = 30\<rparr> \<and>
      e = occupied_from_live id sample_heap 3)"
  using heap_entry_exact [OF sample_heap_ok, of 3]
  by (simp add: sample_heap_capacity sample_heap_view)

text \<open>The change an operation reports is exactly whether the heap's minimum is another one. Setting
  the priority of an entry in place and retiring an entry report \<open>Minimum\<close> if and only if peeking
  shows another identity or priority afterwards, decided by the code from positions alone; and
  they update the map at the entry's index only.\<close>

theorem heap_change_exact:
  assumes h: "store_ok index (precedes_index index) (h :: ('k, 'p::linorder, 'w::len word) store)"
    and e: "en_position e < heap_len h"
    and set: "set_min_slot index (precedes_index index) h (fst (entry_into_parts e)) p = (c1, h1)"
    and retire: "keyed_retire_min index h e = (c2, h2)"
  shows "(c1 = Minimum \<longleftrightarrow> keyed_peek h1 \<noteq> keyed_peek h) \<and> (c2 = Minimum \<longleftrightarrow> keyed_peek h2 \<noteq> keyed_peek h) \<and>
    store_current h1 = (store_current h)(index (sd_identity (entry_value h e)) \<mapsto>
      \<lparr>sd_identity = sd_identity (entry_value h e), sd_priority = p\<rparr>) \<and>
    store_current h2 = (store_current h)(index (sd_identity (entry_value h e)) := None)"
proof -
  let ?e = "fst (entry_into_parts e)"
  have p: "en_position ?e < heap_len h" and v: "entry_value h ?e = entry_value h e"
    using e by (simp_all add: entry_value_def)
  show ?thesis
    using keyed_store.set_min_view(2,4) [OF h p set] keyed_store.retire_min_view(2,4) [OF h p retire [unfolded keyed_retire_min_def]]
    unfolding v by (simp add: keyed_peek_def)
qed

lemma heap_change_exact_witness:
  "let e = \<lparr>en_position = 1, en_next = 3\<rparr>;
       (c1, h1) = set_min_slot id (precedes_index id) sample_heap (fst (entry_into_parts e)) 7;
       (c2, h2) = keyed_retire_min id sample_heap e
   in (c1 = Minimum \<longleftrightarrow> keyed_peek h1 \<noteq> keyed_peek sample_heap) \<and>
      (c2 = Minimum \<longleftrightarrow> keyed_peek h2 \<noteq> keyed_peek sample_heap)"
proof -
  have "en_position \<lparr>en_position = 1, en_next = 3\<rparr> < heap_len sample_heap" by code_simp
  from heap_change_exact [OF sample_heap_ok this prod.collapse [symmetric] prod.collapse [symmetric], of 7]
  show ?thesis by (simp add: case_prod_unfold Let_def)
qed

section \<open>Direct heaps\<close>

lemma direct_from [simp]: "i < 2 ^ 32 \<Longrightarrow> direct_index (direct_from_index i) = i"
  by (simp add: direct_from_index_def unat_of_nat_fits)

lemma direct_capacity: "store_ok direct_index precedes_default (h :: 'p::linorder direct) \<Longrightarrow> heap_capacity h < 2 ^ 32"
  by (simp add: store_ok_def heap_ok_def planes_def heap_capacity_def)

lemma indexed_get_eq: "indexed_get h i = map_option sd_priority (store_current h i)"
  by (cases "store_current h i") (simp_all add: indexed_get_def)

text \<open>A direct heap resolves an index to an error outside its domain, to a vacancy exactly when
  nothing is stored and otherwise to the entry of that index.\<close>

theorem indexed_entry_exact:
  assumes h: "store_ok direct_index precedes_default (h :: 'p::linorder direct)"
  shows "case indexed_try_entry h i of
      Inl e \<Rightarrow> i \<ge> heap_capacity h \<and> e = \<lparr>ie_index = i, ie_capacity = heap_capacity h\<rparr>
    | Inr (IVacant d) \<Rightarrow> i < heap_capacity h \<and> direct_index d = i \<and> indexed_get h i = None
    | Inr (IOccupied e) \<Rightarrow> i < heap_capacity h \<and> indexed_index h e = i \<and> en_position e < heap_len h \<and>
        indexed_get h i = Some (sd_priority (entry_value h e))"
proof (cases "i < heap_capacity h")
  case True
  have d: "direct_index (direct_from_index i) = i" using direct_capacity [OF h] True by simp
  note view = direct_store.slot_view [OF h, of "direct_from_index i", unfolded d, OF True]
  show ?thesis
  proof (cases "store_current h i")
    case None
    then show ?thesis
      using True d view(1)
      by (simp add: indexed_try_entry_def heap_capacity_def indexed_from_slot_def slot_map_def
          indexed_get_eq slot_from_source_def)
  next
    case (Some e)
    then show ?thesis
      using True view(2) [OF Some]
      by (simp add: indexed_try_entry_def heap_capacity_def indexed_from_slot_def slot_map_def
          indexed_get_eq indexed_index_def entry_value_def)
  qed
next
  case False
  then show ?thesis by (simp add: indexed_try_entry_def heap_capacity_def)
qed

definition sample_direct :: "nat direct" where
  "sample_direct = indexed_repeat (\<lambda>_. \<lparr>sd_identity = 0, sd_priority = 0\<rparr>) 3 5"

lemma indexed_repeat_view:
  assumes "n < 2 ^ 32"
  shows "store_ok direct_index precedes_default (indexed_repeat junk n p :: 'p::linorder direct) \<and>
    indexed_get (indexed_repeat junk n p) = (\<lambda>i. if i < n then Some p else None) \<and>
    heap_len (indexed_repeat junk n p) = n"
proof -
  let ?h = "indexed_repeat junk n p"
  have len: "heap_len ?h = n" using assms by (simp add: indexed_repeat_def heap_len_def unat_of_nat_fits)
  have off: "offset (word_of_nat i :: u32) = i" if "i < n" for i
    using that assms by (simp add: offset_def unat_of_nat_fits)
  have dir: "direct_index (direct_from_index i) = i" if "i < n" for i using that assms by simp
  have none: "word_of_nat i \<noteq> (pos_NONE :: u32)" if "i < n" for i
    using off [OF that] offset_NONE [where 'w = 32] that assms by auto
  have planes: "planes (stored_index direct_index) n (hp_entries ?h) (hp_positions ?h)"
    using assms off dir unfolding planes_def by (simp add: indexed_repeat_def from_offset_def)
  have "heap_sorted (store_compare precedes_default) n (hp_entries ?h)"
    unfolding heap_sorted_def
  proof (intro allI impI)
    fix i assume i: "0 < i" "i < n"
    then have "parent i < n" using parent_less [of i] by simp
    then show "store_compare precedes_default (hp_entries ?h (parent i)) (hp_entries ?h i) \<noteq> Greater"
      using i by (simp add: indexed_repeat_def store_compare_def precedes_default_def ord_cmp_def)
  qed
  then have ok: "store_ok direct_index precedes_default ?h"
    using planes by (simp add: store_ok_def heap_ok_def len)
  have "indexed_get ?h i = (if i < n then Some p else None)" for i
    using off [of i] none [of i] by (simp add: indexed_get_eq store_current_def indexed_repeat_def Let_def)
  then show ?thesis using ok len by (simp add: fun_eq_iff)
qed

text \<open>A repeated direct heap is full and well formed: every index below its length holds the
  shared priority, and none beyond.\<close>

theorem indexed_repeat_full:
  assumes "n < 2 ^ 32"
  shows "store_ok direct_index precedes_default (indexed_repeat junk n p :: 'p::linorder direct) \<and>
    indexed_get (indexed_repeat junk n p) = (\<lambda>i. if i < n then Some p else None) \<and>
    heap_len (indexed_repeat junk n p) = n"
  using assms by (rule indexed_repeat_view)

lemma indexed_repeat_full_witness:
  "store_ok direct_index precedes_default sample_direct \<and>
   indexed_get sample_direct = (\<lambda>i. if i < 3 then Some 5 else None) \<and> heap_len sample_direct = 3"
  unfolding sample_direct_def by (rule indexed_repeat_full) simp

lemma sample_direct_ok: "store_ok direct_index precedes_default sample_direct"
  unfolding sample_direct_def by (rule conjunct1 [OF indexed_repeat_view]) simp

lemma indexed_entry_exact_witness:
  "case indexed_try_entry sample_direct 2 of
      Inl e \<Rightarrow> 2 \<ge> heap_capacity sample_direct \<and> e = \<lparr>ie_index = 2, ie_capacity = heap_capacity sample_direct\<rparr>
    | Inr (IVacant d) \<Rightarrow> 2 < heap_capacity sample_direct \<and> direct_index d = 2 \<and> indexed_get sample_direct 2 = None
    | Inr (IOccupied e) \<Rightarrow> 2 < heap_capacity sample_direct \<and> indexed_index sample_direct e = 2 \<and>
        en_position e < heap_len sample_direct \<and>
        indexed_get sample_direct 2 = Some (sd_priority (entry_value sample_direct e))"
  by (rule indexed_entry_exact [OF sample_direct_ok])

lemma prepare_direct:
  "en_position (entry_prepare h p e) = en_position e"
  "en_next (entry_prepare h p e) = \<lparr>sd_identity = sd_identity (entry_value h e), sd_priority = p\<rparr>"
  by (simp_all add: entry_prepare_def entry_prepare_key_def entry_with_key_def Let_def)

text \<open>The operations of an occupied direct entry, as updates of \<open>indexed_get\<close>. Setting and
  replacing write the priority at the entry's index, replacing returning the old one and an entry
  of the same index; taking, removing and retiring forget it, taking and removing returning the
  priority, and the vacancy of a removal is the same index.\<close>

theorem indexed_occupied_operations:
  assumes h: "store_ok direct_index precedes_default (h :: 'p::linorder direct)"
    and e: "en_position e < heap_len h"
    and replace: "indexed_replace h e p = ((e', old), h1)"
    and take: "indexed_take h e = (old2, h2)"
    and remove: "indexed_remove h e = ((d, old3), h3)"
  shows "let i = indexed_index h e; q = sd_priority (entry_value h e) in
    indexed_get (indexed_set h e p) = (indexed_get h)(i \<mapsto> p) \<and>
    indexed_get h1 = (indexed_get h)(i \<mapsto> p) \<and> old = q \<and> indexed_index h1 e' = i \<and>
    indexed_get h2 = (indexed_get h)(i := None) \<and> old2 = q \<and>
    indexed_get h3 = (indexed_get h)(i := None) \<and> old3 = q \<and> direct_index d = i \<and>
    indexed_get (indexed_retire h e) = (indexed_get h)(i := None)"
proof -
  let ?v = "\<lparr>sd_identity = sd_identity (entry_value h e), sd_priority = p\<rparr>"
  let ?adr = "stored_index direct_index" and ?cmp = "store_compare precedes_default :: (u32, 'p) stored \<Rightarrow> _"
  have get: "indexed_get k = (\<lambda>i. map_option sd_priority (store_current k i))" for k :: "'p direct"
    by (simp add: indexed_get_eq fun_eq_iff)
  have h': "heap_ok ?adr ?cmp h" using h by (simp add: store_ok_def)
  have v: "direct_index (sd_identity ?v) = direct_index (sd_identity (hp_entries h (en_position e)))"
    by (simp add: entry_value_def)
  have set: "indexed_set h e p = hole_update ?adr ?cmp (en_position e) ?v h"
    by (simp add: indexed_set_def prepare_direct Let_def)
  note updated = direct_store.store_update(2) [OF h e v]
  obtain q h0 w where r0: "hole_replace ?adr ?cmp (en_position e) ?v h = ((q, h0), w)" by (metis prod.collapse)
  have w: "w = entry_value h e" using direct.hole_replace_ok(1) [OF h' e v r0] by (simp add: entry_value_def)
  have "((e', old), h1) = ((\<lparr>en_position = q, en_next = ()\<rparr>, sd_priority w), h0)"
    using replace by (simp add: indexed_replace_def prepare_direct r0)
  then have r: "hole_replace ?adr ?cmp (en_position e) ?v h = ((q, h1), entry_value h e)"
    and old: "old = sd_priority (entry_value h e)" and e': "e' = \<lparr>en_position = q, en_next = ()\<rparr>"
    using r0 w by simp_all
  have c: "entry_commit direct_index precedes_default h \<lparr>en_position = en_position e, en_next = ?v\<rparr> =
      (\<lparr>en_position = q, en_next = ()\<rparr>, h1)"
    by (simp add: entry_commit_def hole_prepare_def r)
  note replaced = direct_store.store_commit [OF h _ _ c, simplified, OF e, unfolded entry_value_def, simplified]
  obtain w2 where r2: "entry_remove direct_index precedes_default h e = (w2, h2)" "old2 = sd_priority w2"
    using take by (auto simp: indexed_take_def Let_def split: prod.splits)
  obtain w3 where r3: "entry_remove direct_index precedes_default h e = (w3, h3)" "old3 = sd_priority w3" "d = sd_identity w3"
    using remove by (auto simp: indexed_remove_def remove_slot_def Let_def split: prod.splits)
  note removed2 = direct_store.store_remove(1,3) [OF h e r2(1)] and removed3 = direct_store.store_remove(1,3) [OF h e r3(1)]
  have retired: "indexed_retire h e = h2" by (simp add: indexed_retire_def entry_clear_def r2)
  show ?thesis
    unfolding Let_def retired set get indexed_index_def
    using updated replaced(2,6) removed2 removed3 r2(2) r3(2,3) old
    by (auto simp: entry_value_def e' fun_eq_iff)
qed

lemma indexed_occupied_operations_witness:
  "let e = \<lparr>en_position = 0, en_next = ()\<rparr>; i = indexed_index sample_direct e in
   indexed_get (indexed_set sample_direct e 9) = (indexed_get sample_direct)(i \<mapsto> 9) \<and>
   indexed_get (indexed_retire sample_direct e) = (indexed_get sample_direct)(i := None)"
proof -
  have "en_position \<lparr>en_position = 0, en_next = ()\<rparr> < heap_len sample_direct" by code_simp
  note ops = indexed_occupied_operations [OF sample_direct_ok this]
  show ?thesis
    using ops [of 9, OF surjective_pairing [THEN trans, OF arg_cong2 [where f = Pair, OF surjective_pairing refl]]
      surjective_pairing surjective_pairing [THEN trans, OF arg_cong2 [where f = Pair, OF surjective_pairing refl]]]
    by (simp add: Let_def)
qed

text \<open>Filling a vacancy of a direct heap stores the priority at its index, and the entry handed
  back denotes it; setting it does the same without the entry.\<close>

theorem indexed_vacant_insert:
  assumes h: "store_ok direct_index precedes_default (h :: 'p::linorder direct)"
    and d: "direct_index d < heap_capacity h" "indexed_get h (direct_index d) = None"
    and r: "indexed_insert h d p = (e, h')"
  shows "indexed_get h' = (indexed_get h)(direct_index d \<mapsto> p) \<and> indexed_index h' e = direct_index d \<and>
    sd_priority (entry_value h' e) = p \<and> en_position e < heap_len h' \<and> indexed_vacant_set h d p = h' \<and>
    store_ok direct_index precedes_default h' \<and> slot_entry_full h' (direct_position d) = e"
proof -
  let ?v = "\<lparr>sd_identity = d, sd_priority = p\<rparr>"
  let ?adr = "stored_index direct_index" and ?cmp = "store_compare precedes_default :: (u32, 'p) stored \<Rightarrow> _"
  have h': "heap_ok ?adr ?cmp h" using h by (simp add: store_ok_def)
  have none: "store_current h (direct_index d) = None" using d(2) by (simp add: indexed_get_eq)
  then have "hp_positions h ! ?adr ?v = pos_NONE" using d(1) by (simp add: current_None heap_capacity_def)
  with d(1) have v: "?adr ?v < heap_capacity h" "hp_positions h ! ?adr ?v = pos_NONE" by simp_all
  note appended = direct.hole_append_ok [OF h' v]
  have eq: "e = \<lparr>en_position = ho_position (hole_append ?adr ?cmp ?v h), en_next = ()\<rparr>"
    "h' = hole_commit ?adr True (hole_append ?adr ?cmp ?v h)"
    using r by (auto simp: indexed_insert_def hole_finish_def vacancy_prepare_def Let_def)
  then have set: "vacancy_store ?adr ?cmp ?v h = h'" by (simp add: vacancy_store_def)
  have view: "store_current h' = (store_current h)(direct_index d \<mapsto> ?v)"
    using direct_store.store_insert(2) [OF h, of ?v] d(1) none set by simp
  have ok: "heap_ok ?adr ?cmp h'" using appended(1) by (simp add: eq)
  have at: "en_position e < heap_len h'" "entry_value h' e = ?v"
    using appended by (simp_all add: eq entry_value_def)
  have "offset (hp_positions h' ! direct_index d) = en_position e"
    using heap_locate(2) [OF ok at(1)] at(2) by (simp add: entry_value_def)
  moreover have "d + 1 \<noteq> 0"
  proof
    assume "d + 1 = 0"
    then have "d = - 1" by (simp add: eq_neg_iff_add_eq_0)
    then show False using d(1) direct_capacity [OF h] by (simp add: unsigned_minus_1_eq_mask mask_eq_exp_minus_1)
  qed
  then have "unat (direct_position d) = Suc (direct_index d)"
    using unatSuc [of d] by (simp add: direct_position_def add.commute)
  ultimately have "slot_entry_full h' (direct_position d) = e"
    by (simp add: slot_entry_full_def eq(1) offset_def)
  then show ?thesis
    using ok at view set by (auto simp: indexed_get_eq indexed_index_def indexed_vacant_set_def vacancy_prepare_def store_ok_def fun_eq_iff)
qed

lemma indexed_vacant_insert_witness:
  "let h = indexed_retire sample_direct \<lparr>en_position = 0, en_next = ()\<rparr>; (e, h') = indexed_insert h 0 2 in
   indexed_get h' = (indexed_get h)(0 \<mapsto> 2)"
proof -
  let ?h = "indexed_retire sample_direct \<lparr>en_position = 0, en_next = ()\<rparr>"
  have p: "en_position \<lparr>en_position = 0, en_next = ()\<rparr> < heap_len sample_direct" by code_simp
  have h: "store_ok direct_index precedes_default ?h"
    using direct_store.store_remove(2) [OF sample_direct_ok p prod.collapse [symmetric]]
    by (simp add: indexed_retire_def entry_clear_def)
  have d: "direct_index 0 < heap_capacity ?h" "indexed_get ?h (direct_index 0) = None" by code_simp+
  show ?thesis
    using indexed_vacant_insert [OF h d prod.collapse [symmetric]] by (simp add: case_prod_unfold Let_def)
qed

section \<open>Draining\<close>

primrec keyed_drain :: "('k \<Rightarrow> nat) \<Rightarrow> nat \<Rightarrow> ('k, 'p::linorder, 'w::len word) store \<Rightarrow> ('k \<times> 'p) list" where
  "keyed_drain index 0 h = []"
| "keyed_drain index (Suc n) h = (case keyed_first_entry h of
       None \<Rightarrow> []
     | Some e \<Rightarrow> (case keyed_remove index h e of (p, h') \<Rightarrow> (en_next e, p) # keyed_drain index n h'))"

definition drain_before :: "('k \<Rightarrow> nat) \<Rightarrow> 'k \<times> 'p::linorder \<Rightarrow> 'k \<times> 'p \<Rightarrow> bool" where
  "drain_before index x y \<longleftrightarrow> snd x < snd y \<or> snd x = snd y \<and> index (fst x) < index (fst y)"

lemma keyed_drain_view:
  assumes "store_ok index (precedes_index index) (h :: ('k, 'p::linorder, 'w::len word) store)"
  shows "sorted_wrt (drain_before index) (keyed_drain index (heap_len h) h) \<and>
    length (keyed_drain index (heap_len h) h) = heap_len h \<and>
    set (keyed_drain index (heap_len h) h) = (\<lambda>e. (sd_identity e, sd_priority e)) ` heap_items h"
  using assms
proof (induction "heap_len h" arbitrary: h)
  case 0
  then have "heap_len h = 0" by simp
  then show ?case by (simp add: heap_items_def items_def)
next
  case (Suc n)
  let ?m = "hp_entries h 0" and ?e = "\<lparr>en_position = 0, en_next = ()\<rparr>"
  have h: "heap_ok (stored_index index) (store_compare (precedes_index index)) h"
    using Suc.prems by (simp add: store_ok_def)
  have n: "heap_len h = Suc n" using Suc.hyps by simp
  obtain v h' where r: "entry_remove index (precedes_index index) h ?e = (v, h')" by (metis prod.collapse)
  have p: "en_position ?e < heap_len h" using n by simp
  note removed = keyed_store.store_remove [OF Suc.prems p r]
  note items = keyed.hole_remove_ok [OF h p r [unfolded entry_remove_def]]
  have v: "v = ?m" using items(1) by simp
  have len: "n = heap_len h'" using removed(5) n by simp
  let ?rest = "keyed_drain index n h'"
  have drain: "keyed_drain index (heap_len h) h = (sd_identity ?m, sd_priority ?m) # ?rest"
    unfolding n using n r v by (simp add: keyed_first_entry_at keyed_remove_def)
  have IH: "sorted_wrt (drain_before index) ?rest" "length ?rest = n"
    "set ?rest = (\<lambda>e. (sd_identity e, sd_priority e)) ` (heap_items h - {?m})"
    using Suc.hyps(1) [OF len removed(2)] items(3) unfolding len [symmetric] v by simp_all
  have m: "?m \<in> heap_items h" unfolding heap_items_index using n by auto
  have "drain_before index (sd_identity ?m, sd_priority ?m) (sd_identity d, sd_priority d)"
    if d: "d \<in> heap_items h - {?m}" for d
  proof -
    have "keyed.le index ?m d" using keyed.heap_root [OF h] d by blast
    moreover have "index (sd_identity ?m) \<noteq> index (sd_identity d)"
      using heap_adr_inj [OF h m, of d] d by auto
    ultimately show ?thesis
      by (auto simp: drain_before_def store_compare_def precedes_index_def split: ordering.splits if_splits)
  qed
  then show ?case unfolding drain using IH n m by auto
qed

text \<open>Draining a keyed heap sorts it. Taking the first entry until none is left yields every
  stored identity and priority once, in strictly ascending order of priority and then of
  physical index, in exactly as many steps as the heap has entries.\<close>

theorem heap_drain_sorted:
  assumes "store_ok index (precedes_index index) (h :: ('k, 'p::linorder, 'w::len word) store)"
  shows "sorted_wrt (drain_before index) (keyed_drain index (heap_len h) h) \<and>
    length (keyed_drain index (heap_len h) h) = heap_len h \<and>
    set (keyed_drain index (heap_len h) h) = (\<lambda>e. (sd_identity e, sd_priority e)) ` ran (store_current h)"
proof -
  have "ran (store_current h) = heap_items h"
    using assms current_iff [of "stored_index index" "store_compare (precedes_index index)" h]
    by (auto simp: store_ok_def ran_def)
  then show ?thesis using keyed_drain_view [OF assms] by simp
qed

lemma heap_drain_sorted_witness:
  "sorted_wrt (drain_before id) (keyed_drain id (heap_len sample_heap) sample_heap) \<and>
   keyed_drain id (heap_len sample_heap) sample_heap = [(1, 10), (2, 20), (3, 30)]"
  by (intro conjI conjunct1 [OF heap_drain_sorted [OF sample_heap_ok]]) code_simp

section \<open>Residents\<close>

lemma resident_mut_heap [simp]: "rs_heap (resident_mut index k v m) = rs_heap m"
  by (simp add: resident_mut_def)

lemma resident_entry_view:
  assumes h: "store_ok index (precedes_index index) (rs_heap m)" and r: "resident_entry index m key = Inr state"
  shows "index key < heap_capacity (rs_heap m)"
    "state = (case store_current (rs_heap m) (index key) of
       None \<Rightarrow> LVacant key
     | Some e \<Rightarrow> let entry = slot_into_entry (slot_from_source index (rs_heap m) key) in
         if sd_identity e = key then LOccupied entry else LConflict entry)"
proof -
  show k: "index key < heap_capacity (rs_heap m)"
    using r by (auto simp: resident_entry_def lookup_try_new_def keyed_store.slot_new_eq Let_def split: if_splits)
  show "state = (case store_current (rs_heap m) (index key) of
       None \<Rightarrow> LVacant key
     | Some e \<Rightarrow> let entry = slot_into_entry (slot_from_source index (rs_heap m) key) in
         if sd_identity e = key then LOccupied entry else LConflict entry)"
    using r k keyed_store.lookup_view [OF h k]
    by (simp add: resident_entry_def lookup_try_new_def keyed_store.slot_new_eq)
qed

text \<open>Updating and clearing through a resolved resident entry. Updating stores this generation with
  its priority and its resident, fresh ones when the index held nothing or another generation and
  otherwise those computed from the resident in place. Clearing blanks the resident and forgets
  the entry when it is this generation's, only blanks it when nothing was stored, and leaves
  another generation wholly alone.\<close>

theorem resident_update_clear:
  assumes h: "store_ok index (precedes_index index) (rs_heap (m :: ('k, 'p::linorder, 'r, 'w::len word) resident))"
    and r: "resident_entry index m key = Inr state"
  shows "let m1 = resident_update index m state fresh current; m2 = resident_clear index m state blank;
      now = store_current (rs_heap m); held = holds index now key;
      (v, p) = (if held then current (rs_values m ! index key) else fresh)
    in rs_values m1 = (rs_values m)[index key := v] \<and>
       store_current (rs_heap m1) = now(index key \<mapsto> \<lparr>sd_identity = key, sd_priority = p\<rparr>) \<and>
       store_ok index (precedes_index index) (rs_heap m1) \<and> store_ok index (precedes_index index) (rs_heap m2) \<and>
       (if held then rs_values m2 = (rs_values m)[index key := blank] \<and> store_current (rs_heap m2) = now(index key := None)
        else if now (index key) = None then rs_values m2 = (rs_values m)[index key := blank] \<and> rs_heap m2 = rs_heap m
        else m2 = m)"
proof -
  let ?h = "rs_heap m" and ?e = "slot_into_entry (slot_from_source index (rs_heap m) key)"
  note k = resident_entry_view(1) [OF h r] and state = resident_entry_view(2) [OF h r]
  show ?thesis
  proof (cases "store_current ?h (index key)")
    case None
    then have st: "state = LVacant key" and held: "\<not> holds index (store_current ?h) key"
      using state by (simp_all add: holds_def)
    have "\<lparr>sd_identity = key, sd_priority = p\<rparr> = vacancy_prepare key p" for p
      by (simp add: vacancy_prepare_def)
    then show ?thesis
      using keyed_store.store_insert [OF h, of "vacancy_prepare key (snd fresh)"] k None st held h
      by (simp add: resident_update_def resident_clear_def resident_insert_def resident_mut_def vacancy_prepare_def
          case_prod_unfold Let_def)
  next
    case (Some d)
    note view = keyed_store.slot_view(2) [OF h k Some]
    show ?thesis
    proof (cases "sd_identity d = key")
      case True
      let ?v = "\<lparr>sd_identity = key, sd_priority = snd (current (rs_values m ! index key))\<rparr>"
      have st: "state = LOccupied ?e" and held: "holds index (store_current ?h) key"
        using state Some True by (simp_all add: holds_def Let_def)
      have key: "sd_identity (hp_entries ?h (en_position ?e)) = key" "en_next ?e = key"
        using view True by (simp_all add: entry_value_def)
      have next1: "rs_heap (resident_update index m state fresh current) =
          hole_update (stored_index index) (store_compare (precedes_index index)) (en_position ?e) ?v ?h"
        by (simp add: st resident_update_def resident_set_def entry_prepare_def entry_prepare_key_def
            entry_with_key_def entry_value_def key resident_def case_prod_unfold Let_def)
      have next2: "rs_heap (resident_clear index m state blank) =
          entry_clear index (precedes_index index) ?h \<lparr>en_position = en_position ?e, en_next = ()\<rparr>"
        by (simp add: st resident_clear_def resident_retire_def)
      have vals: "rs_values (resident_update index m state fresh current) =
          (rs_values m)[index key := fst (current (rs_values m ! index key))]"
        "rs_values (resident_clear index m state blank) = (rs_values m)[index key := blank]"
        by (simp_all add: st resident_update_def resident_clear_def resident_set_def resident_retire_def
            resident_mut_def resident_def key case_prod_unfold Let_def)
      have e: "en_position ?e < heap_len ?h" "index (sd_identity ?v) = index (sd_identity (hp_entries ?h (en_position ?e)))"
        using view key by simp_all
      show ?thesis
        using keyed_store.store_update [OF h e] keyed_store.clear_view [OF h k Some refl] held
        by (simp add: next1 next2 vals case_prod_unfold Let_def)
    next
      case False
      have st: "state = LConflict ?e" and held: "\<not> holds index (store_current ?h) key"
        using state Some False by (simp_all add: holds_def Let_def)
      let ?f = "entry_prepare_key (snd fresh) ?e"
      have f: "en_position ?f < heap_len ?h" "en_next ?f = \<lparr>sd_identity = key, sd_priority = snd fresh\<rparr>"
        "index (sd_identity (en_next ?f)) = index (sd_identity (entry_value ?h ?f))"
        using view by (simp_all add: entry_prepare_key_def entry_value_def)
      have next1: "rs_heap (resident_update index m state fresh current) =
          snd (entry_commit index (precedes_index index) ?h ?f)"
        "rs_values (resident_update index m state fresh current) = (rs_values m)[index key := fst fresh]"
        "resident_clear index m state blank = m"
        using view by (simp_all add: st resident_update_def resident_clear_def conflict_set_def resident_mut_def
            case_prod_unfold Let_def)
      show ?thesis
        using keyed_store.store_commit [OF h f(1,3) prod.collapse [symmetric]] held Some h f(2)
        by (simp add: next1 case_prod_unfold Let_def)
    qed
  qed
qed

lemma resident_update_clear_witness:
  "let m = \<lparr>rs_heap = sample_heap, rs_values = [0, 0, 0, 0 :: nat]\<rparr>; state = projr (resident_entry id m 3);
       m1 = resident_update id m state (7, 40) (\<lambda>r. (r + 1, 2)); m2 = resident_clear id m state 9
   in rs_values m1 = [0, 0, 0, 1] \<and>
      store_current (rs_heap m1) = (store_current sample_heap)(3 \<mapsto> \<lparr>sd_identity = 3, sd_priority = 2\<rparr>) \<and>
      rs_values m2 = [0, 0, 0, 9] \<and> store_current (rs_heap m2) = (store_current sample_heap)(3 := None)"
proof -
  define m where "m = \<lparr>rs_heap = sample_heap, rs_values = [0, 0, 0, 0 :: nat]\<rparr>"
  have heap: "rs_heap m = sample_heap" and vals: "rs_values m = [0, 0, 0, 0]" by (simp_all add: m_def)
  have "\<not> isl (resident_entry id m 3)" unfolding m_def by code_simp
  then have r: "resident_entry id m 3 = Inr (projr (resident_entry id m 3))" by (cases "resident_entry id m 3") simp_all
  have held: "holds id (store_current sample_heap) 3" by (simp add: holds_def sample_heap_view)
  have ok: "store_ok id (precedes_index id) (rs_heap m)" unfolding heap by (rule sample_heap_ok)
  show ?thesis
    using resident_update_clear [OF ok r, where fresh = "(7, 40)" and current = "\<lambda>r. (r + 1, 2)" and blank = 9] held
    by (simp add: heap vals m_def [symmetric] Let_def)
qed

end
