(* ===== verification/O3_Queue.thy ===== *)
theory O3_Queue
  imports O3_Heap_Client O3_Fifo
begin

text \<open>
  The FIFO with an independent minimum-heap order (src/src/depot/heap/queue.rs,
  src/src/depot/heap/raw/queue.rs): one allocation binds a direct heap of priorities, one node per
  slot with its hook and value, a ready chain in arrival order and a free list. A slot is ready
  and in the heap with a value, or free, and the two orders never disagree on which.

  Hooks and endpoints are locations of one memory, as for the topologies: the ready chain is
  chain 0, uncounted, and the free list has head 1. Values are \<open>MaybeUninit\<close> in the nodes, here
  \<open>None\<close> where nothing is initialized.
\<close>

section \<open>State and operations\<close>

record ('p, 'a) queue =
  qu_heap :: "'p direct"
  qu_values :: "'a option list"
  qu_mem :: mem

definition ready :: chain where
  "ready = Chain 0 False"

definition free :: nat where
  "free = 1"

record occupied =
  oc_index :: link_index
  oc_position :: "link_index option"

definition node_vacant :: "nat \<Rightarrow> nat \<Rightarrow> mem \<Rightarrow> mem" where
  "node_vacant capacity index m =
     (let nxt = (if index + 1 = capacity then END else word_of_nat (index + 1))
      in hook_vacant (word_of_nat index) (word_of_nat index) nxt m)"

text \<open>\<open>junk\<close> is the uninitialized memory the allocation starts from.\<close>

definition queue_try_new :: "(nat \<Rightarrow> (u32, 'p) stored) \<Rightarrow> mem \<Rightarrow> nat \<Rightarrow> ('p, 'a) queue" where
  "queue_try_new junk m capacity =
     \<lparr>qu_heap = heap_new junk capacity, qu_values = replicate capacity None,
      qu_mem = free_seeded free (word_of_nat capacity)
        (chain_new ready (fold (node_vacant capacity) [0..<capacity] m))\<rparr>"

definition queue_len :: "('p, 'a) queue \<Rightarrow> nat" where
  "queue_len q = heap_len (qu_heap q)"

definition queue_is_empty :: "('p, 'a) queue \<Rightarrow> bool" where
  "queue_is_empty q = (queue_len q = 0)"

definition queue_store_min :: "('p, 'a) queue \<Rightarrow> (link_index \<times> 'p) option" where
  "queue_store_min q = (case store_peek (qu_heap q) of
       None \<Rightarrow> None
     | Some (key, priority) \<Rightarrow> Some (index_new_usize (ucast key), priority))"

definition queue_position :: "('p, 'a) queue \<Rightarrow> link_index \<Rightarrow> link_index option \<Rightarrow> nat" where
  "queue_position q index position = (case position of
       Some p \<Rightarrow> unat (index_get p)
     | None \<Rightarrow> unat (hp_positions (qu_heap q) ! unat (index_get index)))"

definition queue_store_insert :: "link_index \<Rightarrow> 'p::linorder \<Rightarrow> ('p, 'a) queue \<Rightarrow> ('p, 'a) queue" where
  "queue_store_insert index priority q =
     q\<lparr>qu_heap := indexed_vacant_set (qu_heap q) (direct_from_index (unat (index_raw index))) priority\<rparr>"

definition queue_write :: "link_index \<Rightarrow> 'a \<Rightarrow> ('p, 'a) queue \<Rightarrow> ('p, 'a) queue" where
  "queue_write index v q = q\<lparr>qu_values := (qu_values q)[unat (index_raw index) := Some v]\<rparr>"

definition queue_store_remove ::
  "link_index \<Rightarrow> link_index option \<Rightarrow> ('p::linorder, 'a) queue \<Rightarrow> ('p \<times> 'a option) \<times> ('p, 'a) queue" where
  "queue_store_remove index position q =
     (let position = queue_position q index position;
          ((key, priority), h) = remove_slot direct_index precedes_default (qu_heap q)
            \<lparr>en_position = position, en_next = ()\<rparr>
      in ((priority, qu_values q ! direct_index key),
          q\<lparr>qu_heap := h, qu_values := (qu_values q)[direct_index key := None]\<rparr>))"

definition queue_front :: "('p, 'a) queue \<Rightarrow> occupied option" where
  "queue_front q = (case chain_first ready (qu_mem q) of
       None \<Rightarrow> None
     | Some index \<Rightarrow> Some \<lparr>oc_index = index, oc_position = None\<rparr>)"

definition queue_min :: "('p, 'a) queue \<Rightarrow> 'p option" where
  "queue_min q = map_option snd (queue_store_min q)"

definition queue_min_entry :: "('p, 'a) queue \<Rightarrow> occupied option" where
  "queue_min_entry q = (case queue_store_min q of
       None \<Rightarrow> None
     | Some (index, _) \<Rightarrow> Some \<lparr>oc_index = index, oc_position = Some (index_new_usize 0)\<rparr>)"

definition queue_vacant :: "('p, 'a) queue \<Rightarrow> link_index option" where
  "queue_vacant q = free_front free (qu_mem q)"

definition occupied_priority :: "('p, 'a) queue \<Rightarrow> occupied \<Rightarrow> 'p" where
  "occupied_priority q e =
     sd_priority (hp_entries (qu_heap q) (queue_position q (oc_index e) (oc_position e)))"

definition occupied_value :: "('p, 'a) queue \<Rightarrow> occupied \<Rightarrow> 'a option" where
  "occupied_value q e = qu_values q ! unat (index_raw (oc_index e))"

definition occupied_move_to_back :: "occupied \<Rightarrow> ('p, 'a) queue \<Rightarrow> ('p, 'a) queue" where
  "occupied_move_to_back e q =
     (if chain_last ready (qu_mem q) = Some (oc_index e) then q
      else q\<lparr>qu_mem := chain_move_back ready ready (oc_index e) (qu_mem q)\<rparr>)"

definition occupied_remove :: "occupied \<Rightarrow> ('p::linorder, 'a) queue \<Rightarrow> ('p \<times> 'a option) \<times> ('p, 'a) queue" where
  "occupied_remove e q =
     (let (output, q) = queue_store_remove (oc_index e) (oc_position e) q;
          (vacant, m) = chain_unlink ready (oc_index e) (qu_mem q);
          m = free_recycle free vacant m
      in (output, q\<lparr>qu_mem := m\<rparr>))"

definition vacant_push_back :: "link_index \<Rightarrow> 'p::linorder \<Rightarrow> 'a \<Rightarrow> ('p, 'a) queue \<Rightarrow> ('p, 'a) queue" where
  "vacant_push_back index priority v q =
     (let q = queue_store_insert index priority q;
          q = q\<lparr>qu_mem := free_acquire_at free index (qu_mem q)\<rparr>;
          q = queue_write index v q
      in q\<lparr>qu_mem := chain_link_back ready index (qu_mem q)\<rparr>)"

text \<open>
  A sweep visits as many heads as there were when it began. The visitor gets the context and the
  current head with the queue, and returns whether to break with the queue it leaves.
\<close>

primrec sweep_visits ::
  "('c \<Rightarrow> occupied \<Rightarrow> ('p, 'a) queue \<Rightarrow> ('b + 'c) \<times> ('p, 'a) queue) \<Rightarrow> nat \<Rightarrow> 'c \<Rightarrow> ('p, 'a) queue
     \<Rightarrow> ('b + 'c) \<times> ('p, 'a) queue" where
  "sweep_visits visit 0 context q = (Inr context, q)"
| "sweep_visits visit (Suc n) context q =
     (let index = chain_front_key ready (qu_mem q) in
      case visit context \<lparr>oc_index = index, oc_position = None\<rparr> q of
        (Inl b, q) \<Rightarrow> (Inl b, q)
      | (Inr context, q) \<Rightarrow> sweep_visits visit n context q)"

definition queue_try_sweep ::
  "'e + 'c \<Rightarrow> ('c \<Rightarrow> occupied \<Rightarrow> ('p, 'a) queue \<Rightarrow> ('b + 'c) \<times> ('p, 'a) queue) \<Rightarrow> ('p, 'a) queue
     \<Rightarrow> ('e + ('b + 'c) option) \<times> ('p, 'a) queue" where
  "queue_try_sweep acquire visit q =
     (if queue_len q = 0 then (Inr None, q)
      else case acquire of
        Inl e \<Rightarrow> (Inl e, q)
      | Inr context \<Rightarrow> (case sweep_visits visit (queue_len q) context q of
          (flow, q) \<Rightarrow> (Inr (Some flow), q)))"

section \<open>The invariant\<close>

text \<open>\<open>queue_at q capacity xs\<close>: the slots \<open>xs\<close> are ready in this order, hold a priority in the heap
  and a value in their node; the others are free, and there are \<open>capacity\<close> of them in all.\<close>

definition queue_at :: "('p::linorder, 'a) queue \<Rightarrow> nat \<Rightarrow> u32 list \<Rightarrow> bool" where
  "queue_at q capacity xs \<longleftrightarrow>
     store_ok direct_index precedes_default (qu_heap q) \<and> heap_capacity (qu_heap q) = capacity \<and>
     length (qu_values q) = capacity \<and> chain_at (qu_mem q) ready xs \<and>
     (\<exists>ys. free_at (qu_mem q) free ys \<and> distinct (xs @ ys) \<and> set (xs @ ys) = {r. unat r < capacity}) \<and>
     (\<forall>r. r \<in> set xs \<longleftrightarrow> indexed_get (qu_heap q) (unat r) \<noteq> None) \<and>
     (\<forall>r\<in>set xs. qu_values q ! unat r \<noteq> None)"

text \<open>What a slot holds.\<close>

definition queue_item :: "('p, 'a) queue \<Rightarrow> u32 \<Rightarrow> ('p \<times> 'a) option" where
  "queue_item q r = (case indexed_get (qu_heap q) (unat r) of
       None \<Rightarrow> None
     | Some p \<Rightarrow> map_option (\<lambda>v. (p, v)) (qu_values q ! unat r))"

lemma free_at_frame:
  assumes "free_at m f ys" "agrees_off (hook_cells X \<union> end_cells c) m m'" "set ys \<inter> X = {}" "f \<noteq> chain_id c"
  shows "free_at m' f ys"
proof -
  have "next_path m' ys = next_path m ys"
    using assms(2,3) by (induction ys) (auto simp: agrees_off_def)
  then show ?thesis using assms(1,2,4) by (auto simp: free_at_def agrees_off_def)
qed

lemma chain_at_free_acquire:
  "chain_at m c xs \<Longrightarrow> r \<notin> set xs \<Longrightarrow> f \<noteq> chain_id c \<Longrightarrow> chain_at (free_acquire_at f (index_new_raw r) m) c xs"
  by (auto simp: chain_at_def free_acquire_at_def Let_def)

lemma chain_at_free_recycle:
  "chain_at m c xs \<Longrightarrow> r \<notin> set xs \<Longrightarrow> f \<noteq> chain_id c \<Longrightarrow> chain_at (free_recycle f (index_new_raw r) m) c xs"
  by (auto simp: chain_at_def free_recycle_def Let_def)

lemma ready_free [simp]: "free \<noteq> chain_id ready" "chain_id ready \<noteq> free" "\<not> counted ready"
  by (simp_all add: ready_def free_def)

text \<open>Relinking a member at the back of its own chain: the neighbour read before the removal is still
  the last member after it, because the member was not the last.\<close>

lemma chain_relink_at:
  assumes s: "chain_at m c (xs @ r # ys)" and ys: "ys \<noteq> []" and u: "\<not> counted c"
  shows "chain_at (chain_move_back c c (index_new_raw r) m) c (xs @ ys @ [r])"
    and "agrees_off (hook_cells (set (xs @ r # ys)) \<union> end_cells c) m (chain_move_back c c (index_new_raw r) m)"
proof -
  define m1 where "m1 = snd (chain_unlink c (index_new_raw r) m)"
  have E: "r \<noteq> END" "END \<notin> set (xs @ ys)" using chain_at_END [OF s] by auto
  have d: "r \<notin> set (xs @ ys)" using s by (auto simp: chain_at_def)
  have at1: "chain_at m1 c (xs @ ys)" and off: "agrees_off (hook_cells (set (xs @ ys)) \<union> end_cells c) m m1"
    unfolding m1_def by (rule chain_unlink_at [OF s])+
  have last: "chain_last c m = chain_last c m1"
    using chain_last_at [OF s] chain_last_at [OF at1] ys by simp
  define adj where "adj = map_option (\<lambda>t. (t, index_raw t)) (chain_last c m1)"
  have eq: "chain_move_back c c (index_new_raw r) m =
      endpoint_push False (Chain_head c) r (index_new_raw r) END adj m1"
    using chain_unlink_at(1) [OF s] last
    by (auto simp: chain_move_back_def m1_def chain_unlink_def adj_def Let_def split: prod.splits)
  show "chain_at (chain_move_back c c (index_new_raw r) m) c (xs @ ys @ [r])"
    unfolding eq using endpoint_push_back_at [OF at1 d E(1) u adj_def] by simp
  have adj: "adj = Some (index_new_raw (last ys), last ys)"
    using chain_last_at [OF at1] ys by (simp add: adj_def)
  have "last ys \<in> set ys" using ys by simp
  then show "agrees_off (hook_cells (set (xs @ r # ys)) \<union> end_cells c) m (chain_move_back c c (index_new_raw r) m)"
    unfolding eq using off
    by (intro agrees_offI) (auto simp: agrees_off_def adj endpoint_push_def head_set_first_def head_set_last_def
        head_first_cell_def head_tail_cell_def Let_def)
qed

section \<open>Every operation keeps the two orders together\<close>

lemma queue_at_bound: "queue_at q capacity xs \<Longrightarrow> capacity < 2 ^ 32"
  using direct_capacity [of "qu_heap q"] by (auto simp: queue_at_def)

lemma queue_at_END:
  assumes "queue_at q capacity xs" "unat r < capacity"
  shows "r \<noteq> END"
proof
  assume "r = END"
  then have "unat r = 2 ^ 32 - 1" by (simp add: END_def unsigned_minus_1_eq_mask mask_eq_exp_minus_1)
  then show False using assms(2) queue_at_bound [OF assms(1)] by simp
qed

lemma unat_index_get [simp]: "unat (index_get (index_new_raw r)) = unat r"
  by (simp add: index_get_def unat_ucast_widen)

lemma direct_from_unat [simp]: "direct_from_index (unat r) = r"
  by (simp add: direct_from_index_def)

lemma direct_eq [simp]: "direct_index a = direct_index b \<longleftrightarrow> a = b"
  by (simp add: word_unat_eq_iff)

lemma queue_push_at:
  assumes q: "queue_at q capacity xs"
  shows "queue_vacant q = None \<longleftrightarrow> length xs = capacity"
    and "queue_vacant q = Some i \<Longrightarrow> \<exists>r. i = index_new_raw r \<and> r \<notin> set xs \<and>
      queue_at (vacant_push_back i p v q) capacity (xs @ [r]) \<and>
      queue_item (vacant_push_back i p v q) = (queue_item q)(r \<mapsto> (p, v))"
proof -
  from q obtain ys where ys: "free_at (qu_mem q) free ys" "distinct (xs @ ys)" "set (xs @ ys) = {r. unat r < capacity}"
    by (auto simp: queue_at_def)
  have h: "store_ok direct_index precedes_default (qu_heap q)" and cap: "heap_capacity (qu_heap q) = capacity"
    and vals: "length (qu_values q) = capacity" and chain: "chain_at (qu_mem q) ready xs"
    and live: "\<And>r. r \<in> set xs \<longleftrightarrow> indexed_get (qu_heap q) (unat r) \<noteq> None"
    and init: "\<And>r. r \<in> set xs \<Longrightarrow> qu_values q ! unat r \<noteq> None"
    using q by (auto simp: queue_at_def)
  have front: "queue_vacant q = (case ys of [] \<Rightarrow> None | y # _ \<Rightarrow> Some (index_new_raw y))"
    using ys(1) by (auto simp: queue_vacant_def free_front_def free_at_def split: list.split)
  have "card {r :: u32. unat r < capacity} = capacity"
  proof -
    have "bij_betw unat {r :: u32. unat r < capacity} {..<capacity}"
      using queue_at_bound [OF q]
      by (intro bij_betw_byWitness [where f' = word_of_nat]) (auto simp: unat_of_nat_fits)
    then show ?thesis using bij_betw_same_card by fastforce
  qed
  then have "length xs + length ys = capacity"
    using distinct_card [OF ys(2)] ys(3) by simp
  then show "queue_vacant q = None \<longleftrightarrow> length xs = capacity" using front by (cases ys) auto
  assume "queue_vacant q = Some i"
  then obtain r zs where r: "ys = r # zs" "i = index_new_raw r" using front by (cases ys) auto
  have rc: "unat r < capacity" and rx: "r \<notin> set xs" and rz: "r \<notin> set zs" using ys(2,3) r(1) by auto
  have E: "r \<noteq> END" by (rule queue_at_END [OF q rc])
  let ?v = "\<lparr>sd_identity = r, sd_priority = p\<rparr>" and ?q = "vacant_push_back i p v q"
  have none: "store_current (qu_heap q) (unat r) = None" using live [of r] rx by (simp add: indexed_get_eq)
  have heap: "qu_heap ?q = vacancy_store (stored_index direct_index) (store_compare precedes_default) ?v (qu_heap q)"
    by (simp add: vacant_push_back_def queue_store_insert_def queue_write_def indexed_vacant_set_def
        vacancy_prepare_def r Let_def)
  have stored: "store_ok direct_index precedes_default (qu_heap ?q)"
    "store_current (qu_heap ?q) = (store_current (qu_heap q))(unat r \<mapsto> ?v)" "heap_capacity (qu_heap ?q) = capacity"
    using direct_store.store_insert [OF h, of ?v] rc cap none unfolding heap by simp_all
  have written: "qu_values ?q = (qu_values q)[unat r := Some v]"
    by (simp add: vacant_push_back_def queue_store_insert_def queue_write_def r Let_def)
  define m1 where "m1 = free_acquire_at free (index_new_raw r) (qu_mem q)"
  have mem: "qu_mem ?q = chain_link_back ready (index_new_raw r) m1"
    by (simp add: vacant_push_back_def queue_store_insert_def queue_write_def m1_def r Let_def)
  have f1: "free_at m1 free zs"
    using free_acquire_at_list [OF ys(1)] ys(1) unfolding r(1) m1_def
    by (auto simp: free_acquire_raw_def free_front_def free_at_def)
  have c1: "chain_at m1 ready xs" unfolding m1_def by (rule chain_at_free_acquire [OF chain rx]) simp
  have c2: "chain_at (qu_mem ?q) ready (xs @ [r])" unfolding mem by (rule chain_link_back_at [OF c1 rx E])
  have f2: "free_at (qu_mem ?q) free zs"
    unfolding mem by (rule free_at_frame [OF f1 chain_link_back_at(2) [OF c1 rx E]]) (use ys(2) r(1) in auto)
  have get: "indexed_get (qu_heap ?q) = (indexed_get (qu_heap q))(unat r \<mapsto> p)"
    using stored(2) by (simp add: indexed_get_eq fun_eq_iff)
  have at: "queue_at ?q capacity (xs @ [r])"
    unfolding queue_at_def
  proof (intro conjI)
    show "\<exists>ys. free_at (qu_mem ?q) free ys \<and> distinct ((xs @ [r]) @ ys) \<and> set ((xs @ [r]) @ ys) = {r. unat r < capacity}"
      using f2 ys(2,3) r(1) by (intro exI [of _ zs]) auto
    show "\<forall>s. s \<in> set (xs @ [r]) \<longleftrightarrow> indexed_get (qu_heap ?q) (unat s) \<noteq> None"
      using live by (auto simp: get)
    show "\<forall>s\<in>set (xs @ [r]). qu_values ?q ! unat s \<noteq> None"
      using init rc vals by (auto simp: written nth_list_update)
  qed (use stored written vals c2 in simp_all)
  have "queue_item ?q = (queue_item q)(r \<mapsto> (p, v))"
    using rc vals by (auto simp: queue_item_def get written fun_eq_iff nth_list_update split: option.split)
  then show "\<exists>r. i = index_new_raw r \<and> r \<notin> set xs \<and> queue_at ?q capacity (xs @ [r]) \<and>
      queue_item ?q = (queue_item q)(r \<mapsto> (p, v))"
    using at rx r(2) by blast
qed

text \<open>An entry that denotes a ready slot: its position, known or looked up, is the slot's in the heap.\<close>

definition denotes :: "('p, 'a) queue \<Rightarrow> occupied \<Rightarrow> u32 \<Rightarrow> bool" where
  "denotes q e r \<longleftrightarrow> oc_index e = index_new_raw r \<and>
     queue_position q (oc_index e) (oc_position e) = unat (hp_positions (qu_heap q) ! unat r)"

lemma queue_slot_view:
  assumes q: "queue_at q capacity xs" and r: "r \<in> set xs"
  shows "unat (hp_positions (qu_heap q) ! unat r) < heap_len (qu_heap q)"
    "sd_identity (hp_entries (qu_heap q) (unat (hp_positions (qu_heap q) ! unat r))) = r"
    "queue_item q r = Some (sd_priority (hp_entries (qu_heap q) (unat (hp_positions (qu_heap q) ! unat r))),
       the (qu_values q ! unat r))"
    "qu_values q ! unat r = Some (the (qu_values q ! unat r))"
proof -
  let ?h = "qu_heap q" and ?p = "unat (hp_positions (qu_heap q) ! unat r)"
  have h: "heap_ok (stored_index direct_index) (store_compare precedes_default) ?h" and rc: "unat r < heap_capacity ?h"
    and live: "indexed_get ?h (unat r) \<noteq> None" and init: "qu_values q ! unat r \<noteq> None"
    using q r by (auto simp: queue_at_def store_ok_def)
  then obtain e where e: "store_current ?h (unat r) = Some e" by (auto simp: indexed_get_eq)
  then have "hp_positions ?h ! unat r \<noteq> pos_NONE" and at: "e = hp_entries ?h ?p"
    using rc by (auto simp: store_current_def heap_capacity_def offset_def Let_def split: if_splits)
  then have found: "?p < heap_len ?h" "direct_index (sd_identity (hp_entries ?h ?p)) = unat r"
    using heap_found [OF h rc] by (simp_all add: offset_def)
  then show "?p < heap_len ?h" "sd_identity (hp_entries ?h ?p) = r" by simp_all
  show "qu_values q ! unat r = Some (the (qu_values q ! unat r))" using init by auto
  then show "queue_item q r = Some (sd_priority (hp_entries ?h ?p), the (qu_values q ! unat r))"
    using e at by (cases "qu_values q ! unat r") (simp_all add: queue_item_def indexed_get_eq)
qed

lemma queue_remove_at:
  assumes q: "queue_at q capacity (xs @ r # ys)" and e: "denotes q e r"
    and rm: "occupied_remove e q = (output, q')"
  shows "queue_at q' capacity (xs @ ys)" "queue_item q' = (queue_item q)(r := None)"
    "queue_item q r = Some (fst output, the (snd output))" "snd output \<noteq> None"
proof -
  let ?h = "qu_heap q" and ?p = "unat (hp_positions (qu_heap q) ! unat r)"
  have rin: "r \<in> set (xs @ r # ys)" by simp
  note slot = queue_slot_view [OF q rin]
  from q obtain zs where zs: "free_at (qu_mem q) free zs" "distinct ((xs @ r # ys) @ zs)"
    "set ((xs @ r # ys) @ zs) = {r. unat r < capacity}" by (auto simp: queue_at_def)
  have h: "store_ok direct_index precedes_default ?h" and cap: "heap_capacity ?h = capacity"
    and vals: "length (qu_values q) = capacity" and chain: "chain_at (qu_mem q) ready (xs @ r # ys)"
    and live: "\<And>s. s \<in> set (xs @ r # ys) \<longleftrightarrow> indexed_get ?h (unat s) \<noteq> None"
    and init: "\<And>s. s \<in> set (xs @ r # ys) \<Longrightarrow> qu_values q ! unat s \<noteq> None"
    using q by (auto simp: queue_at_def)
  have rc: "unat r < capacity" using zs(3) by auto
  have E: "r \<noteq> END" by (rule queue_at_END [OF q rc])
  let ?e = "\<lparr>en_position = ?p, en_next = ()\<rparr>"
  obtain w h' where rr: "entry_remove direct_index precedes_default ?h ?e = (w, h')" by (metis prod.collapse)
  have pe: "en_position ?e < heap_len ?h" using slot(1) by simp
  note removed = direct_store.store_remove [OF h pe rr]
  have w: "sd_identity w = r" using removed(1) slot(2) by (simp add: entry_value_def)
  define m1 where "m1 = snd (chain_unlink ready (index_new_raw r) (qu_mem q))"
  have unlink: "chain_unlink ready (index_new_raw r) (qu_mem q) = (index_new_raw r, m1)"
    using chain_unlink_at(1) [OF chain] by (simp add: m1_def prod_eq_iff)
  have pos: "oc_index e = index_new_raw r" "queue_position q (index_new_raw r) (oc_position e) = ?p"
    using e unfolding denotes_def by metis+
  have "occupied_remove e q = ((sd_priority w, qu_values q ! unat r),
      q\<lparr>qu_heap := h', qu_values := (qu_values q)[unat r := None], qu_mem := free_recycle free (index_new_raw r) m1\<rparr>)"
    by (simp add: occupied_remove_def queue_store_remove_def remove_slot_def pos rr w unlink Let_def)
  then have eq: "output = (sd_priority w, qu_values q ! unat r)"
    "q' = q\<lparr>qu_heap := h', qu_values := (qu_values q)[unat r := None], qu_mem := free_recycle free (index_new_raw r) m1\<rparr>"
    using rm by simp_all
  have c1: "chain_at m1 ready (xs @ ys)" unfolding m1_def by (rule chain_unlink_at [OF chain])
  have f1: "free_at m1 free zs"
    unfolding m1_def by (rule free_at_frame [OF zs(1) chain_unlink_at(3) [OF chain]]) (use zs(2) in auto)
  have c2: "chain_at (qu_mem q') ready (xs @ ys)"
    unfolding eq by simp (rule chain_at_free_recycle [OF c1], use zs(2) in auto)
  have f2: "free_at (qu_mem q') free (r # zs)"
    unfolding eq by simp (rule free_recycle_at [OF f1], use zs(2) E in auto)
  have get: "indexed_get (qu_heap q') = (indexed_get ?h)(unat r := None)"
    using removed(3) w by (simp add: eq indexed_get_eq fun_eq_iff)
  have taken: "qu_values q' = (qu_values q)[unat r := None]" by (simp add: eq)
  have at: "queue_at q' capacity (xs @ ys)"
    unfolding queue_at_def
  proof (intro conjI)
    show "\<exists>zs. free_at (qu_mem q') free zs \<and> distinct ((xs @ ys) @ zs) \<and> set ((xs @ ys) @ zs) = {r. unat r < capacity}"
      using f2 zs(2,3) by (intro exI [of _ "r # zs"]) auto
    show "\<forall>s. s \<in> set (xs @ ys) \<longleftrightarrow> indexed_get (qu_heap q') (unat s) \<noteq> None"
      using live zs(2) by (auto simp: get)
    show "\<forall>s\<in>set (xs @ ys). qu_values q' ! unat s \<noteq> None"
      using init rc vals zs(2) by (auto simp: eq nth_list_update)
  qed (use removed vals cap c2 in \<open>simp_all add: eq\<close>)
  then show "queue_at q' capacity (xs @ ys)" .
  show "queue_item q' = (queue_item q)(r := None)"
    using rc vals by (auto simp: queue_item_def get taken fun_eq_iff nth_list_update split: option.split)
  show "queue_item q r = Some (fst output, the (snd output))"
    using slot(3) removed(1) by (simp add: eq entry_value_def)
  show "snd output \<noteq> None" using slot(4) by (auto simp: eq)
qed

lemma queue_move_at:
  assumes q: "queue_at q capacity (xs @ r # ys)" and e: "oc_index e = index_new_raw r"
  shows "queue_at (occupied_move_to_back e q) capacity (xs @ ys @ [r])"
    "queue_item (occupied_move_to_back e q) = queue_item q"
proof -
  have chain: "chain_at (qu_mem q) ready (xs @ r # ys)" using q by (simp add: queue_at_def)
  have last: "chain_last ready (qu_mem q) = Some (oc_index e) \<longleftrightarrow> ys = []"
  proof -
    have "last (xs @ r # ys) = r \<longleftrightarrow> ys = []" using chain by (auto simp: chain_at_def)
    moreover have "index_new_raw a = index_new_raw b \<longleftrightarrow> a = b" for a b by (metis index_raw_new)
    ultimately show ?thesis using chain_last_at [OF chain] e by auto
  qed
  have "queue_at (occupied_move_to_back e q) capacity (xs @ ys @ [r]) \<and>
    queue_item (occupied_move_to_back e q) = queue_item q"
  proof (cases "ys = []")
    case True
    then show ?thesis using q last by (simp add: occupied_move_to_back_def)
  next
    case False
    note moved = chain_relink_at [OF chain False ready_free(3)]
    from q obtain zs where zs: "free_at (qu_mem q) free zs" "distinct ((xs @ r # ys) @ zs)"
      "set ((xs @ r # ys) @ zs) = {r. unat r < capacity}" by (auto simp: queue_at_def)
    have "free_at (chain_move_back ready ready (index_new_raw r) (qu_mem q)) free zs"
      by (rule free_at_frame [OF zs(1) moved(2)]) (use zs(2) in auto)
    moreover have "distinct ((xs @ ys @ [r]) @ zs)" "set ((xs @ ys @ [r]) @ zs) = {r. unat r < capacity}"
      using zs(2,3) by auto
    ultimately show ?thesis
      using q moved(1) last False e
      by (auto simp: occupied_move_to_back_def queue_at_def queue_item_def fun_eq_iff split: option.split)
  qed
  then show "queue_at (occupied_move_to_back e q) capacity (xs @ ys @ [r])"
    "queue_item (occupied_move_to_back e q) = queue_item q" by simp_all
qed

text \<open>The entries the queue hands out denote ready slots: the front the first, the minimum one that no
  other precedes.\<close>

lemma queue_front_at:
  assumes q: "queue_at q capacity xs"
  shows "queue_front q = (case xs of [] \<Rightarrow> None | r # _ \<Rightarrow> Some \<lparr>oc_index = index_new_raw r, oc_position = None\<rparr>)"
    and "denotes q \<lparr>oc_index = index_new_raw r, oc_position = None\<rparr> r"
proof -
  have "chain_at (qu_mem q) ready xs" using q by (simp add: queue_at_def)
  from chain_first_at [OF this]
  show "queue_front q = (case xs of [] \<Rightarrow> None | r # _ \<Rightarrow> Some \<lparr>oc_index = index_new_raw r, oc_position = None\<rparr>)"
    by (simp add: queue_front_def split: list.split)
  show "denotes q \<lparr>oc_index = index_new_raw r, oc_position = None\<rparr> r"
    by (simp add: denotes_def queue_position_def)
qed

lemma queue_len_at:
  assumes q: "queue_at q capacity xs"
  shows "queue_len q = length xs"
proof -
  let ?h = "qu_heap q" and ?id = "\<lambda>i. sd_identity (hp_entries (qu_heap q) i)"
  have h: "heap_ok (stored_index direct_index) (store_compare precedes_default) ?h"
    and live: "\<And>r. r \<in> set xs \<longleftrightarrow> indexed_get ?h (unat r) \<noteq> None" and d: "distinct xs"
    using q by (auto simp: queue_at_def store_ok_def)
  have "set xs = ?id ` {..<heap_len ?h}"
  proof (rule set_eqI)
    fix r
    have "r \<in> set xs \<longleftrightarrow> (\<exists>e. store_current ?h (unat r) = Some e)"
      using live by (auto simp: indexed_get_eq)
    also have "\<dots> \<longleftrightarrow> (\<exists>i<heap_len ?h. ?id i = r)"
      unfolding current_iff [OF h] heap_items_index by auto
    finally show "r \<in> set xs \<longleftrightarrow> r \<in> ?id ` {..<heap_len ?h}" by auto
  qed
  moreover have "inj_on ?id {..<heap_len ?h}"
    using h planes_inj [of "stored_index direct_index" "heap_len ?h" "hp_entries ?h" "hp_positions ?h"]
    by (auto simp: heap_ok_def intro!: inj_onI)
  ultimately have "card (set xs) = heap_len ?h" by (simp add: card_image)
  then show ?thesis using distinct_card [OF d] by (simp add: queue_len_def)
qed

lemma queue_min_at:
  assumes q: "queue_at q capacity xs"
  shows "xs = [] \<Longrightarrow> queue_min_entry q = None \<and> queue_min q = None"
    and "xs \<noteq> [] \<Longrightarrow> \<exists>r e p v. r \<in> set xs \<and> queue_min_entry q = Some e \<and> denotes q e r \<and>
      queue_item q r = Some (p, v) \<and> queue_min q = Some p \<and>
      (\<forall>s\<in>set xs. \<forall>p' v'. queue_item q s = Some (p', v') \<longrightarrow> p \<le> p')"
proof -
  let ?h = "qu_heap q" and ?m = "hp_entries (qu_heap q) 0"
  have h: "store_ok direct_index precedes_default ?h" and live: "\<And>r. r \<in> set xs \<longleftrightarrow> indexed_get ?h (unat r) \<noteq> None"
    using q by (auto simp: queue_at_def)
  then have h': "heap_ok (stored_index direct_index) (store_compare precedes_default) ?h" by (simp add: store_ok_def)
  show "xs = [] \<Longrightarrow> queue_min_entry q = None \<and> queue_min q = None"
    using queue_len_at [OF q]
    by (simp add: queue_min_entry_def queue_min_def queue_store_min_def store_peek_def store_first_def queue_len_def)
  assume "xs \<noteq> []"
  then have n: "heap_len ?h \<noteq> 0" using queue_len_at [OF q] by (simp add: queue_len_def)
  then have first: "store_first ?h = Some ?m" by (simp add: store_first_def)
  define r where "r = sd_identity ?m"
  have current: "store_current ?h (unat r) = Some ?m"
    using direct_store.store_least(2) [OF h first] by (simp add: r_def)
  then have rx: "r \<in> set xs" using live by (simp add: indexed_get_eq)
  note slot = queue_slot_view [OF q rx]
  have root: "unat (hp_positions ?h ! unat r) = 0"
    using heap_locate(2) [OF h', of 0] n by (simp add: offset_def r_def)
  let ?e = "\<lparr>oc_index = index_new_raw r, oc_position = Some (index_new_usize 0)\<rparr>"
  have min: "queue_store_min q = Some (index_new_raw r, sd_priority ?m)"
    by (simp add: queue_store_min_def store_peek_def first index_new_usize_def r_def ucast_down_up)
  have zero: "unat (index_get (index_new_usize 0)) = 0" by (simp add: index_new_usize_def)
  have "denotes q ?e r"
    by (simp add: denotes_def queue_position_def root zero)
  moreover have "sd_priority ?m \<le> p'" if item: "queue_item q s = Some (p', v')" for s p' v'
  proof -
    obtain d where d: "store_current ?h (unat s) = Some d" "sd_priority d = p'"
      using item by (auto simp: queue_item_def indexed_get_eq split: option.splits)
    show ?thesis
      using direct_store.store_least(3) [OF h first d(1)] d(2)
      by (auto simp: store_compare_def precedes_default_def split: ordering.splits)
  qed
  ultimately show "\<exists>r e p v. r \<in> set xs \<and> queue_min_entry q = Some e \<and> denotes q e r \<and>
      queue_item q r = Some (p, v) \<and> queue_min q = Some p \<and>
      (\<forall>s\<in>set xs. \<forall>p' v'. queue_item q s = Some (p', v') \<longrightarrow> p \<le> p')"
    using rx min slot(3) root
    by (intro exI [of _ r] exI [of _ ?e]) (auto simp: queue_min_entry_def queue_min_def)
qed

section \<open>A new queue\<close>

lemma node_vacant_cells:
  assumes "k \<le> capacity" "capacity < 2 ^ 32" "i < k"
  shows "fold (node_vacant capacity) [0..<k] m (Next (word_of_nat i)) =
    (if i + 1 = capacity then END else word_of_nat (i + 1))"
  using assms
proof (induction k)
  case (Suc k)
  have "unat (word_of_nat i :: u32) = i" "unat (word_of_nat k :: u32) = k"
    using Suc.prems by (simp_all add: unat_of_nat_fits)
  then have "(word_of_nat i :: u32) = word_of_nat k \<longleftrightarrow> i = k" by metis
  then show ?case
    using Suc by (auto simp: node_vacant_def hook_vacant_def Let_def)
qed simp

lemma next_path_seeded:
  assumes "\<And>i. i < capacity \<Longrightarrow> m (Next (word_of_nat i)) = (if i + 1 = capacity then END else word_of_nat (i + 1))"
    and "capacity < 2 ^ 32" "k \<le> capacity"
  shows "next_path m (map word_of_nat [k..<capacity])"
  using assms(3)
proof (induction "capacity - k" arbitrary: k)
  case (Suc n)
  then have k: "k < capacity" by simp
  have "(word_of_nat k :: u32) \<noteq> END"
  proof
    assume "(word_of_nat k :: u32) = END"
    then have "unat (word_of_nat k :: u32) = 2 ^ 32 - 1" by (simp add: END_def unsigned_minus_1_eq_mask mask_eq_exp_minus_1)
    then show False using k assms(2) by (simp add: unat_of_nat_fits)
  qed
  moreover have "next_path m (map word_of_nat [Suc k..<capacity])" using Suc k by simp
  ultimately show ?case using k assms(1) [OF k] by (auto simp: upt_conv_Cons)
qed simp

lemma queue_new_at:
  assumes cap: "capacity < 2 ^ 32"
  shows "queue_at (queue_try_new junk m capacity :: ('p::linorder, 'a) queue) capacity []"
proof -
  let ?q = "queue_try_new junk m capacity :: ('p, 'a) queue" and ?ys = "map word_of_nat [0..<capacity] :: u32 list"
  define m1 where "m1 = fold (node_vacant capacity) [0..<capacity] m"
  have mem: "qu_mem ?q = free_seeded free (word_of_nat capacity) (chain_new ready m1)"
    by (simp add: queue_try_new_def m1_def)
  have path: "next_path m1 ?ys"
    unfolding m1_def by (rule next_path_seeded) (use node_vacant_cells [OF order_refl cap] cap in auto)
  have inj: "inj_on (word_of_nat :: nat \<Rightarrow> u32) {0..<capacity}"
    using cap by (intro inj_on_inverseI [where g = unat]) (simp add: unat_of_nat_fits)
  have "unat (word_of_nat capacity :: usize) = capacity" using cap by (simp add: unat_of_nat_fits)
  then have zero: "(word_of_nat capacity :: usize) = 0 \<longleftrightarrow> capacity = 0" by (metis unat_eq_zero)
  have hd: "fst_or END ?ys = (if capacity = 0 then END else 0)"
    by (cases capacity) (simp_all add: upt_conv_Cons del: upt_Suc)
  have ends: "next_path (k(Tail c := v)) ys = next_path k ys" "next_path (k(Count c := v)) ys = next_path k ys"
    for k c v ys by (induction ys) auto
  have "free_at (qu_mem ?q) free ?ys"
    using path inj hd unfolding mem free_at_def
    by (simp add: free_seeded_def chain_new_def distinct_map zero ends)
  moreover have "set ?ys = {r. unat r < capacity}"
  proof (rule set_eqI)
    fix r :: u32
    show "r \<in> set ?ys \<longleftrightarrow> r \<in> {r. unat r < capacity}"
      using cap by (auto simp: unat_of_nat_fits intro: image_eqI [where x = "unat r"])
  qed
  moreover have "distinct ?ys" using inj by (simp add: distinct_map)
  moreover have "chain_at (qu_mem ?q) ready []"
    by (simp add: mem chain_at_def chain_new_def free_seeded_def ready_def free_def)
  moreover have "store_ok direct_index precedes_default (qu_heap ?q)"
    unfolding queue_try_new_def using cap by (simp add: store_new_ok)
  ultimately show ?thesis
    by (auto simp: queue_at_def queue_try_new_def indexed_get_eq)
qed

section \<open>Properties\<close>

datatype ('p, 'a) queue_op = QPush 'p 'a | QPopFront | QPopMin | QRotate | QRotateMin

definition queue_exec :: "('p::linorder, 'a) queue_op \<Rightarrow> ('p, 'a) queue \<Rightarrow> ('p, 'a) queue" where
  "queue_exec op q = (case op of
       QPush p v \<Rightarrow> (case queue_vacant q of None \<Rightarrow> q | Some i \<Rightarrow> vacant_push_back i p v q)
     | QPopFront \<Rightarrow> (case queue_front q of None \<Rightarrow> q | Some e \<Rightarrow> snd (occupied_remove e q))
     | QPopMin \<Rightarrow> (case queue_min_entry q of None \<Rightarrow> q | Some e \<Rightarrow> snd (occupied_remove e q))
     | QRotate \<Rightarrow> (case queue_front q of None \<Rightarrow> q | Some e \<Rightarrow> occupied_move_to_back e q)
     | QRotateMin \<Rightarrow> (case queue_min_entry q of None \<Rightarrow> q | Some e \<Rightarrow> occupied_move_to_back e q))"

lemma queue_exec_at:
  assumes q: "queue_at q capacity xs"
  shows "\<exists>ys. queue_at (queue_exec op q) capacity ys"
proof -
  have denoted: "\<exists>ys. queue_at (snd (occupied_remove e q)) capacity ys"
      "\<exists>ys. queue_at (occupied_move_to_back e q) capacity ys" if r: "r \<in> set xs" and e: "denotes q e r" for e r
  proof -
    obtain as bs where xs: "xs = as @ r # bs" using r by (meson split_list)
    show "\<exists>ys. queue_at (snd (occupied_remove e q)) capacity ys"
      using queue_remove_at(1) [OF q [unfolded xs] e prod.collapse [symmetric]] by blast
    show "\<exists>ys. queue_at (occupied_move_to_back e q) capacity ys"
      using queue_move_at(1) [OF q [unfolded xs]] e by (auto simp: denotes_def)
  qed
  have front: "queue_front q = None \<or> (\<exists>r e. queue_front q = Some e \<and> r \<in> set xs \<and> denotes q e r)"
    using queue_front_at [OF q] by (cases xs) auto
  have min: "queue_min_entry q = None \<or> (\<exists>r e. queue_min_entry q = Some e \<and> r \<in> set xs \<and> denotes q e r)"
    using queue_min_at [OF q] by blast
  show ?thesis
  proof (cases op)
    case (QPush p v)
    show ?thesis
    proof (cases "queue_vacant q")
      case None
      then show ?thesis using QPush q by (auto simp: queue_exec_def)
    next
      case (Some i)
      then show ?thesis using QPush queue_push_at(2) [OF q Some, of p v] by (auto simp: queue_exec_def)
    qed
  next
    case QPopFront
    then show ?thesis using q front denoted(1) by (auto simp: queue_exec_def)
  next
    case QPopMin
    then show ?thesis using q min denoted(1) by (auto simp: queue_exec_def)
  next
    case QRotate
    then show ?thesis using q front denoted(2) by (auto simp: queue_exec_def)
  next
    case QRotateMin
    then show ?thesis using q min denoted(2) by (auto simp: queue_exec_def)
  qed
qed

lemma queue_run_at:
  assumes "capacity < 2 ^ 32"
  shows "\<exists>xs. queue_at (fold queue_exec ops (queue_try_new junk m capacity :: ('p::linorder, 'a) queue)) capacity xs"
proof -
  have "\<exists>xs. queue_at (fold queue_exec ops q) capacity xs" if "\<exists>xs. queue_at q capacity xs" for q :: "('p, 'a) queue"
    using that
  proof (induction ops arbitrary: q)
    case (Cons op ops)
    then show ?case using queue_exec_at by (metis fold_simps(2))
  qed simp
  then show ?thesis using queue_new_at [OF assms] by blast
qed

text \<open>C28: The two orders of a queue never come apart. After any sequence of pushes, removals at the front
  and at the minimum, and moves to the back, there is a list of distinct slots that is at once the
  ready chain in the shared hooks, the identities in the heap and the slots holding a value, and
  the free list holds exactly the other slots of the capacity.\<close>

theorem queue_orders_agree:
  assumes "capacity < 2 ^ 32"
  shows "\<exists>xs. queue_at (fold queue_exec ops (queue_try_new junk m capacity :: ('p::linorder, 'a) queue)) capacity xs"
  by (rule queue_run_at [OF assms])

definition empty_queue :: "(nat, char) queue" where
  "empty_queue = queue_try_new (\<lambda>_. \<lparr>sd_identity = 0, sd_priority = 0\<rparr>) (\<lambda>_. 0) 4"

lemma empty_queue_at: "queue_at empty_queue 4 []"
  unfolding empty_queue_def by (rule queue_new_at) simp

lemma queue_orders_agree_witness:
  "\<exists>xs. queue_at (fold queue_exec [QPush 7 (CHR ''a''), QPush 3 (CHR ''b''), QPopMin, QRotate] empty_queue) 4 xs"
  unfolding empty_queue_def by (rule queue_orders_agree) simp

text \<open>A queue of two, 7 before 3.\<close>

lemma two_queue:
  "\<exists>q :: (nat, char) queue. \<exists>r s. queue_at q 4 [r, s] \<and> queue_item q = [r \<mapsto> (7, CHR ''a''), s \<mapsto> (3, CHR ''b'')] \<and> r \<noteq> s"
proof -
  have none: "queue_item empty_queue = Map.empty"
    by (simp add: queue_item_def empty_queue_def queue_try_new_def indexed_get_eq fun_eq_iff)
  obtain i where "queue_vacant empty_queue = Some i" using queue_push_at(1) [OF empty_queue_at] by auto
  from queue_push_at(2) [OF empty_queue_at this, of 7 "CHR ''a''"] obtain r
    where r: "queue_at (vacant_push_back i 7 (CHR ''a'') empty_queue) 4 [r]"
      "queue_item (vacant_push_back i 7 (CHR ''a'') empty_queue) = [r \<mapsto> (7, CHR ''a'')]" using none by auto
  obtain k where "queue_vacant (vacant_push_back i 7 (CHR ''a'') empty_queue) = Some k"
    using queue_push_at(1) [OF r(1)] by auto
  from queue_push_at(2) [OF r(1) this, of 3 "CHR ''b''"] r(2) show ?thesis by auto
qed

text \<open>A queue is a bounded FIFO. A vacancy is refused exactly when every slot is ready; filling one
  appends a slot that was not ready with its priority and value; the front is the oldest slot,
  removing it returns what was pushed there and leaves the rest in order, and moving it to the
  back keeps every content. Nothing else about any other slot changes.\<close>

theorem queue_fifo_operations:
  assumes q: "queue_at q capacity xs"
  shows "(queue_vacant q = None \<longleftrightarrow> length xs = capacity) \<and>
    (\<forall>i p v. queue_vacant q = Some i \<longrightarrow>
       (\<exists>r. r \<notin> set xs \<and> queue_at (vacant_push_back i p v q) capacity (xs @ [r]) \<and>
          queue_item (vacant_push_back i p v q) = (queue_item q)(r \<mapsto> (p, v)))) \<and>
    (case xs of
       [] \<Rightarrow> queue_front q = None
     | r # ys \<Rightarrow> (\<exists>e. queue_front q = Some e \<and>
         (case occupied_remove e q of ((p, v), q') \<Rightarrow>
            v \<noteq> None \<and> queue_item q r = Some (p, the v) \<and> queue_at q' capacity ys \<and>
            queue_item q' = (queue_item q)(r := None)) \<and>
         queue_at (occupied_move_to_back e q) capacity (ys @ [r]) \<and>
         queue_item (occupied_move_to_back e q) = queue_item q))"
proof (intro conjI)
  show "queue_vacant q = None \<longleftrightarrow> length xs = capacity" by (rule queue_push_at [OF q])
  show "\<forall>i p v. queue_vacant q = Some i \<longrightarrow>
       (\<exists>r. r \<notin> set xs \<and> queue_at (vacant_push_back i p v q) capacity (xs @ [r]) \<and>
          queue_item (vacant_push_back i p v q) = (queue_item q)(r \<mapsto> (p, v)))"
    using queue_push_at(2) [OF q] by blast
  show "case xs of
       [] \<Rightarrow> queue_front q = None
     | r # ys \<Rightarrow> (\<exists>e. queue_front q = Some e \<and>
         (case occupied_remove e q of ((p, v), q') \<Rightarrow>
            v \<noteq> None \<and> queue_item q r = Some (p, the v) \<and> queue_at q' capacity ys \<and>
            queue_item q' = (queue_item q)(r := None)) \<and>
         queue_at (occupied_move_to_back e q) capacity (ys @ [r]) \<and>
         queue_item (occupied_move_to_back e q) = queue_item q)"
  proof (cases xs)
    case Nil
    then show ?thesis using queue_front_at(1) [OF q] by simp
  next
    case (Cons r ys)
    let ?e = "\<lparr>oc_index = index_new_raw r, oc_position = None\<rparr>"
    have q': "queue_at q capacity ([] @ r # ys)" using q Cons by simp
    obtain p v q2 where rm: "occupied_remove ?e q = ((p, v), q2)" by (metis prod.collapse)
    show ?thesis
      using queue_remove_at [OF q' queue_front_at(2) [OF q] rm] queue_move_at [OF q', of ?e] queue_front_at(1) [OF q]
      by (simp add: Cons rm)
  qed
qed

lemma queue_fifo_operations_witness:
  "\<exists>q :: (nat, char) queue. \<exists>r s e q'. queue_at q 4 [r, s] \<and> queue_vacant q \<noteq> None \<and> queue_front q = Some e \<and>
     occupied_remove e q = ((7, Some (CHR ''a'')), q') \<and> queue_at q' 4 [s] \<and>
     queue_at (occupied_move_to_back e q) 4 [s, r]"
proof -
  obtain q :: "(nat, char) queue" and r s where q: "queue_at q 4 [r, s]"
    "queue_item q = [r \<mapsto> (7, CHR ''a''), s \<mapsto> (3, CHR ''b'')]" "r \<noteq> s" using two_queue by blast
  then have item: "queue_item q r = Some (7, CHR ''a'')" by simp
  note ops = queue_fifo_operations [OF q(1), unfolded list.case]
  obtain e where e: "queue_front q = Some e"
      "case occupied_remove e q of ((p, v), q') \<Rightarrow> v \<noteq> None \<and> queue_item q r = Some (p, the v) \<and> queue_at q' 4 [s] \<and>
         queue_item q' = (queue_item q)(r := None)" "queue_at (occupied_move_to_back e q) 4 [s, r]"
    using ops by auto
  obtain p v q' where rm: "occupied_remove e q = ((p, v), q')" by (metis prod.collapse)
  then have "p = 7" "v = Some (CHR ''a'')" "queue_at q' 4 [s]" using e(2) item by auto
  moreover have "queue_vacant q \<noteq> None" using conjunct1 [OF ops] by simp
  ultimately show ?thesis using q(1) e rm by blast
qed

text \<open>The minimum can be taken from anywhere in the FIFO. A queue that is not empty hands out an
  entry of a ready slot whose priority no ready slot undercuts; removing it returns that priority
  and the slot's value and takes the slot out of the order, the others keeping theirs.\<close>

theorem queue_min_removal:
  assumes q: "queue_at q capacity xs" and ne: "xs \<noteq> []"
  shows "\<exists>e as r bs p v q'. queue_min_entry q = Some e \<and> xs = as @ r # bs \<and> queue_item q r = Some (p, v) \<and>
    queue_min q = Some p \<and> (\<forall>s\<in>set xs. \<forall>p' v'. queue_item q s = Some (p', v') \<longrightarrow> p \<le> p') \<and>
    occupied_remove e q = ((p, Some v), q') \<and> queue_at q' capacity (as @ bs) \<and>
    queue_item q' = (queue_item q)(r := None)"
proof -
  from queue_min_at(2) [OF q ne] obtain r e p v where m: "r \<in> set xs" "queue_min_entry q = Some e" "denotes q e r"
      "queue_item q r = Some (p, v)" "queue_min q = Some p"
      "\<forall>s\<in>set xs. \<forall>p' v'. queue_item q s = Some (p', v') \<longrightarrow> p \<le> p'" by blast
  obtain as bs where xs: "xs = as @ r # bs" using m(1) by (meson split_list)
  obtain out q' where rm: "occupied_remove e q = (out, q')" by (metis prod.collapse)
  note removed = queue_remove_at [OF q [unfolded xs] m(3) rm]
  have "out = (p, Some v)" using removed(3,4) m(4) by (cases out) auto
  then show ?thesis using m xs rm removed(1,2) by blast
qed

lemma queue_min_removal_witness:
  "\<exists>q :: (nat, char) queue. \<exists>r s e q'. queue_at q 4 [r, s] \<and> queue_min_entry q = Some e \<and>
     occupied_remove e q = ((3, Some (CHR ''b'')), q') \<and> queue_at q' 4 [r]"
proof -
  obtain q :: "(nat, char) queue" and r s where q: "queue_at q 4 [r, s]"
    "queue_item q = [r \<mapsto> (7, CHR ''a''), s \<mapsto> (3, CHR ''b'')]" "r \<noteq> s" using two_queue by blast
  from queue_min_removal [OF q(1)] obtain e as t bs p v q' where m: "queue_min_entry q = Some e" "[r, s] = as @ t # bs"
    "queue_item q t = Some (p, v)" "\<forall>s'\<in>set [r, s]. \<forall>p' v'. queue_item q s' = Some (p', v') \<longrightarrow> p \<le> p'"
    "occupied_remove e q = ((p, Some v), q')" "queue_at q' 4 (as @ bs)" by blast
  have "p \<le> 3" using m(4) q(2) by auto
  moreover have "t = r \<or> t = s" using m(2) by (auto simp: Cons_eq_append_conv)
  ultimately have t: "t = s" "p = 3" "v = CHR ''b''" using m(3) q(2,3) by (auto split: if_splits)
  then have "as @ bs = [r]" using m(2) q(3) by (auto simp: Cons_eq_append_conv)
  then show ?thesis using q(1) m(1,5,6) t by metis
qed

text \<open>A visitor that keeps a slot by moving it to the back and otherwise removes it, noting its visit.\<close>

definition sort_out ::
  "(link_index \<Rightarrow> bool) \<Rightarrow> link_index list \<Rightarrow> occupied \<Rightarrow> ('p::linorder, 'a) queue
     \<Rightarrow> ('b + link_index list) \<times> ('p, 'a) queue" where
  "sort_out keep seen e q =
     (Inr (seen @ [oc_index e]),
      if keep (oc_index e) then occupied_move_to_back e q else snd (occupied_remove e q))"

lemma sweep_visits_at:
  assumes "queue_at q capacity (xs @ ys)"
  shows "\<exists>q'. sweep_visits (sort_out keep) (length xs) seen q = (Inr (seen @ map index_new_raw xs), q') \<and>
    queue_at q' capacity (ys @ filter (\<lambda>r. keep (index_new_raw r)) xs)"
  using assms
proof (induction xs arbitrary: q ys seen)
  case (Cons r xs)
  let ?e = "\<lparr>oc_index = index_new_raw r, oc_position = None\<rparr>"
  have q: "queue_at q capacity ([] @ r # (xs @ ys))" using Cons.prems by simp
  have key: "chain_front_key ready (qu_mem q) = index_new_raw r"
    using q by (simp add: queue_at_def chain_at_def chain_front_key_def)
  have denote: "denotes q ?e r" by (rule queue_front_at(2) [OF q])
  let ?q = "if keep (index_new_raw r) then occupied_move_to_back ?e q else snd (occupied_remove ?e q)"
  have at: "queue_at ?q capacity (xs @ (ys @ (if keep (index_new_raw r) then [r] else [])))"
    using queue_move_at(1) [OF q, of ?e] queue_remove_at(1) [OF q denote prod.collapse [symmetric]] by simp
  from Cons.IH [OF at, of "seen @ [index_new_raw r]"] show ?case
    by (auto simp: key sort_out_def Let_def)
qed simp

text \<open>A sweep visits every slot that was ready when it began exactly once, oldest first, even though
  each visit removes the head or moves it behind the others; what the visitor kept remains, in its
  order. An empty queue is not swept and acquires no context.\<close>

theorem queue_sweep_visits_once:
  fixes q :: "('p::linorder, 'a) queue" and acquire :: "'e + link_index list"
    and visit :: "link_index list \<Rightarrow> occupied \<Rightarrow> ('p, 'a) queue \<Rightarrow> ('b + link_index list) \<times> ('p, 'a) queue"
  assumes q: "queue_at q capacity xs" and visit: "visit = sort_out keep"
  shows "if xs = [] then queue_try_sweep acquire visit q = (Inr None, q)
    else \<exists>q'. queue_try_sweep (Inr [] :: 'e + link_index list) visit q = (Inr (Some (Inr (map index_new_raw xs))), q') \<and>
      queue_at q' capacity (filter (\<lambda>r. keep (index_new_raw r)) xs)"
proof -
  obtain q' where "sweep_visits visit (length xs) [] q = (Inr (map index_new_raw xs), q')"
    "queue_at q' capacity (filter (\<lambda>r. keep (index_new_raw r)) xs)"
    using sweep_visits_at [of q capacity xs "[]" keep "[]"] q unfolding visit by auto
  then show ?thesis by (auto simp: queue_try_sweep_def queue_len_at [OF q])
qed

lemma queue_sweep_visits_once_witness:
  "\<exists>q :: (nat, char) queue. \<exists>r s q'. queue_at q 4 [r, s] \<and>
     queue_try_sweep (Inr []) (sort_out (\<lambda>i. i = index_new_raw s)) q =
       (Inr (Some (Inr [index_new_raw r, index_new_raw s])) :: unit + (unit + link_index list) option, q') \<and>
     queue_at q' 4 [s]"
proof -
  obtain q :: "(nat, char) queue" and r s where q: "queue_at q 4 [r, s]" "r \<noteq> s" using two_queue by blast
  have "index_new_raw r \<noteq> index_new_raw s" using q(2) by (metis index_raw_new)
  then show ?thesis
    using queue_sweep_visits_once [OF q(1) refl, where keep = "\<lambda>i. i = index_new_raw s"] q(1) by auto
qed

end
