(* ===== verification/O3_Layout.thy ===== *)
theory O3_Layout
  imports O3_Prelude
begin

text \<open>
  Allocation layouts (src/src/alloc/raw/layout.rs, rows.rs, shape.rs, mod.rs) and the capacity
  checks of the heaps that rest on them (src/src/depot/heap/capacity.rs).

  A type parameter enters by its size and alignment, which the language guarantees to be a power
  of two that divides the size. A bundle lays four planes out one after the other; the checked
  path computes its bounds in saturating arithmetic and asks once at the end whether they fit,
  the proved path recomputes the offsets in wrapping arithmetic from the admitted extent.
\<close>

section \<open>Layouts\<close>

record ty =
  ty_size :: usize
  ty_align :: usize

record layout =
  ly_size :: usize
  ly_align :: usize

datatype alloc_overflow = Overflow

definition isize_max :: usize where
  "isize_max = 9223372036854775807"

definition saturating_mul :: "'w::len word \<Rightarrow> 'w word \<Rightarrow> 'w word" where
  "saturating_mul a b = (if unat a * unat b < 2 ^ LENGTH('w) then a * b else - 1)"

text \<open>\<open>NonZero::MIN.saturating_add(align - 1)\<close>: the alignment itself.\<close>

definition nonzero_align :: "usize \<Rightarrow> usize" where
  "nonzero_align align = saturating_add 1 (align - 1)"

text \<open>The standard library's array layout and padding.\<close>

definition std_array :: "ty \<Rightarrow> usize \<Rightarrow> layout option" where
  "std_array t len =
     (if unat (ty_size t) * unat len \<le> unat (isize_max - (ty_align t - 1))
      then Some \<lparr>ly_size = ty_size t * len, ly_align = ty_align t\<rparr> else None)"

definition pad_to_align :: "layout \<Rightarrow> layout" where
  "pad_to_align l = l\<lparr>ly_size := (ly_size l + (ly_align l - 1)) AND NOT (ly_align l - 1)\<rparr>"

definition layout_try_layout :: "ty \<Rightarrow> usize \<Rightarrow> alloc_overflow + layout" where
  "layout_try_layout t len = (case std_array t len of Some l \<Rightarrow> Inr l | None \<Rightarrow> Inl Overflow)"

record bounds =
  bd_size :: usize
  bd_align :: usize
  bd_offset :: usize

definition bounds_new :: "layout \<Rightarrow> bounds" where
  "bounds_new l = \<lparr>bd_size = ly_size l, bd_align = nonzero_align (ly_align l), bd_offset = 0\<rparr>"

definition bounds_extend :: "ty \<Rightarrow> usize \<Rightarrow> bounds \<Rightarrow> bounds" where
  "bounds_extend t len b =
     (let element = ty_align t;
          align = (if element < bd_align b then bd_align b else element);
          offset = saturating_add (bd_size b) (element - 1) AND NOT (element - 1)
      in \<lparr>bd_size = saturating_add offset (saturating_mul (ty_size t) len),
          bd_align = nonzero_align align, bd_offset = offset\<rparr>)"

definition bounds_fits :: "bounds \<Rightarrow> bool" where
  "bounds_fits b \<longleftrightarrow> bd_size b \<le> isize_max - (bd_align b - 1)"

definition bounds_layout :: "bounds \<Rightarrow> layout" where
  "bounds_layout b = \<lparr>ly_size = bd_size b, ly_align = bd_align b\<rparr>"

definition layout_try_extend :: "ty \<Rightarrow> layout \<Rightarrow> usize \<Rightarrow> alloc_overflow + (layout \<times> usize)" where
  "layout_try_extend t prior len =
     (let b = bounds_extend t len (bounds_new prior) in
      if \<not> bounds_fits b then Inl Overflow else Inr (bounds_layout b, bd_offset b))"

definition layout_fits_after :: "ty \<Rightarrow> layout \<Rightarrow> usize \<Rightarrow> bool" where
  "layout_fits_after t prior len = bounds_fits (bounds_extend t len (bounds_new prior))"

definition layout_offset :: "ty \<Rightarrow> usize \<Rightarrow> usize" where
  "layout_offset t bytes = ly_size (pad_to_align \<lparr>ly_size = bytes, ly_align = ty_align t\<rparr>)"

definition layout_at :: "ty \<Rightarrow> usize \<Rightarrow> usize \<Rightarrow> usize \<Rightarrow> layout" where
  "layout_at t offset len align =
     \<lparr>ly_size = offset + ty_size t * len, ly_align = (if ty_align t < align then align else ty_align t)\<rparr>"

definition layout_layout :: "ty \<Rightarrow> usize \<Rightarrow> layout" where
  "layout_layout t len = layout_at t 0 len (nonzero_align (ty_align t))"

definition layout_extend :: "ty \<Rightarrow> layout \<Rightarrow> usize \<Rightarrow> layout \<times> usize" where
  "layout_extend t prior len =
     (let offset = layout_offset t (ly_size prior)
      in (layout_at t offset len (nonzero_align (ly_align prior)), offset))"

definition layout_reserve :: "ty \<Rightarrow> usize \<Rightarrow> usize \<Rightarrow> usize" where
  "layout_reserve t capacity required =
     (if required \<le> capacity then capacity
      else
        let minimum = (if ty_size t = 1 then 8 else if ty_size t \<le> 1024 then 4 else 1)
        in max (max required (saturating_mul capacity 2)) minimum)"

datatype alloc_error = Error_Exhausted | Error_Overflow

text \<open>
  \<open>try_grow\<close>: whether and to what capacity a vector of this length and capacity grows;
  \<open>grant\<close> is the allocator, asked for the target layout.
\<close>

definition vec_try_grow ::
  "ty \<Rightarrow> bool \<Rightarrow> (layout \<Rightarrow> bool) \<Rightarrow> usize \<Rightarrow> usize \<Rightarrow> usize \<Rightarrow> alloc_error + usize" where
  "vec_try_grow t GEOMETRIC grant len cap extra = (case checked_add len extra of
       None \<Rightarrow> Inl Error_Overflow
     | Some needed \<Rightarrow>
         if needed \<le> cap then Inr cap
         else
           let capacity = (if GEOMETRIC then layout_reserve t cap needed else needed) in
           case layout_try_layout t capacity of
             Inl Overflow \<Rightarrow> Inl Error_Overflow
           | Inr target \<Rightarrow> if ly_size target = 0 \<or> grant target then Inr capacity else Inl Error_Exhausted)"

section \<open>Bundles and shapes\<close>

record shape =
  sh_root :: ty
  sh_tail :: ty
  sh_extra :: ty
  sh_last :: ty

definition bundle_bounds :: "shape \<Rightarrow> usize \<Rightarrow> usize \<Rightarrow> bounds" where
  "bundle_bounds s len tail_len =
     bounds_extend (sh_last s) len (bounds_extend (sh_extra s) len
       (bounds_extend (sh_tail s) tail_len (bounds_extend (sh_root s) len
         (bounds_new \<lparr>ly_size = 0, ly_align = 1\<rparr>))))"

definition bundle_try_layout :: "shape \<Rightarrow> usize \<Rightarrow> usize \<Rightarrow> alloc_overflow + layout" where
  "bundle_try_layout s len tail_len =
     (let b = bundle_bounds s len tail_len in
      if \<not> bounds_fits b then Inl Overflow else Inr (pad_to_align (bounds_layout b)))"

definition shape_offset :: "shape \<Rightarrow> usize \<Rightarrow> usize" where
  "shape_offset s len = layout_offset (sh_tail s) (ty_size (sh_root s) * len)"

definition shape_extra :: "shape \<Rightarrow> usize \<Rightarrow> usize \<Rightarrow> usize" where
  "shape_extra s len tail_len =
     layout_offset (sh_extra s) (shape_offset s len + ty_size (sh_tail s) * tail_len)"

definition shape_last :: "shape \<Rightarrow> usize \<Rightarrow> usize \<Rightarrow> usize" where
  "shape_last s len tail_len =
     layout_offset (sh_last s) (shape_extra s len tail_len + ty_size (sh_extra s) * len)"

definition shape_layout :: "shape \<Rightarrow> usize \<Rightarrow> usize \<Rightarrow> layout" where
  "shape_layout s len tail_len =
     (let align = max (max (ty_align (sh_root s)) (ty_align (sh_tail s))) (ty_align (sh_extra s))
      in pad_to_align (layout_at (sh_last s) (shape_last s len tail_len) len (nonzero_align align)))"

text \<open>
  A recipe is a sequence of arrays laid out one behind the other; a bundle is its layout and the
  offsets of its tails, in order.
\<close>

record field_bundle =
  bn_layout :: layout
  bn_offsets :: "usize list"

definition bundle_try_root :: "ty \<Rightarrow> usize \<Rightarrow> alloc_overflow + field_bundle" where
  "bundle_try_root t len = (case layout_try_layout t len of
       Inl e \<Rightarrow> Inl e
     | Inr l \<Rightarrow> Inr \<lparr>bn_layout = l, bn_offsets = []\<rparr>)"

definition bundle_root :: "ty \<Rightarrow> usize \<Rightarrow> field_bundle" where
  "bundle_root t len = \<lparr>bn_layout = layout_layout t len, bn_offsets = []\<rparr>"

definition bundle_layout_of :: "field_bundle \<Rightarrow> layout" where
  "bundle_layout_of b = pad_to_align (bn_layout b)"

definition bundle_try_tail :: "field_bundle \<Rightarrow> ty \<Rightarrow> usize \<Rightarrow> alloc_overflow + field_bundle" where
  "bundle_try_tail b t len = (case layout_try_extend t (bn_layout b) len of
       Inl e \<Rightarrow> Inl e
     | Inr (l, offset) \<Rightarrow> Inr \<lparr>bn_layout = l, bn_offsets = bn_offsets b @ [offset]\<rparr>)"

definition bundle_tail :: "field_bundle \<Rightarrow> ty \<Rightarrow> usize \<Rightarrow> field_bundle" where
  "bundle_tail b t len = (case layout_extend t (bn_layout b) len of
       (l, offset) \<Rightarrow> \<lparr>bn_layout = l, bn_offsets = bn_offsets b @ [offset]\<rparr>)"

datatype recipe = Root ty usize | Tail recipe ty usize

primrec recipe_try_build :: "recipe \<Rightarrow> alloc_overflow + field_bundle" where
  "recipe_try_build (Root t len) = bundle_try_root t len"
| "recipe_try_build (Tail prior t len) = (case recipe_try_build prior of
       Inl e \<Rightarrow> Inl e
     | Inr b \<Rightarrow> bundle_try_tail b t len)"

primrec recipe_build :: "recipe \<Rightarrow> field_bundle" where
  "recipe_build (Root t len) = bundle_root t len"
| "recipe_build (Tail prior t len) = bundle_tail (recipe_build prior) t len"

text \<open>\<open>LayoutExt::try_allocate\<close>: an empty layout needs no allocation; \<open>grant\<close> is the allocator.\<close>

datatype alloc_exhausted = Exhausted

definition layout_try_allocate :: "(layout \<Rightarrow> bool) \<Rightarrow> layout \<Rightarrow> alloc_exhausted + unit" where
  "layout_try_allocate grant l = (if ly_size l = 0 then Inr () else if grant l then Inr () else Inl Exhausted)"

section \<open>Rows\<close>

definition rows_ROOT_MAX :: "shape \<Rightarrow> usize" where
  "rows_ROOT_MAX s = (if ty_size (sh_root s) = 0 then - 1 else isize_max div ty_size (sh_root s))"

definition rows_MAX :: "shape \<Rightarrow> usize" where
  "rows_MAX s =
     (let root = ty_align (sh_root s); tail = ty_align (sh_tail s);
          align = (if tail < root then root else tail);
          bound = isize_max AND NOT (align - 1);
          row = ty_size (sh_root s) + ty_size (sh_tail s)
      in if row = 0 then - 1 else bound div row)"

text \<open>The binary search for the largest count whose four planes fit.\<close>

definition rows_middle :: "usize \<Rightarrow> usize \<Rightarrow> usize" where
  "rows_middle low high = (let span = high - low in low + (span div 2 + span mod 2))"

lemma unat_rows_middle:
  assumes "low < high"
  shows "unat (rows_middle low high) = unat low + (unat high - unat low + 1) div 2"
    "low < rows_middle low high" "rows_middle low high \<le> high"
proof -
  let ?span = "high - low"
  have lt: "unat low < unat high" using assms by (simp add: word_less_nat_alt)
  have span: "unat ?span = unat high - unat low" using lt by (simp add: unat_sub word_le_nat_alt)
  have half: "unat (?span div 2 + ?span mod 2) = (unat ?span + 1) div 2"
  proof -
    have "unat (?span div 2) = unat ?span div 2" "unat (?span mod 2) = unat ?span mod 2"
      by (simp_all add: unat_div unat_mod)
    moreover have "unat ?span div 2 + unat ?span mod 2 < 2 ^ 64" using usize_bound [of ?span] by linarith
    ultimately show ?thesis using unat_add_fits [of "?span div 2" "?span mod 2"] by (simp; presburger)
  qed
  have "unat low + (unat ?span + 1) div 2 < 2 ^ 64" using span lt usize_bound [of high] by linarith
  then show m: "unat (rows_middle low high) = unat low + (unat high - unat low + 1) div 2"
    using unat_add_fits [of low "?span div 2 + ?span mod 2"] by (simp add: rows_middle_def half span Let_def)
  show "low < rows_middle low high" "rows_middle low high \<le> high"
    using m lt by (simp_all add: word_less_nat_alt word_le_nat_alt)
qed

function rows_search :: "shape \<Rightarrow> usize \<Rightarrow> usize \<Rightarrow> usize" where
  "rows_search s low high =
     (if low < high then
        let count = rows_middle low high in
        if bounds_fits (bundle_bounds s count count) then rows_search s count high
        else rows_search s low (count - 1)
      else low)"
  by auto
termination
proof (relation "measure (\<lambda>(_, low, high). unat high - unat low)", goal_cases)
  case (2 s low high)
  then show ?case using unat_rows_middle [of low high] by (simp add: word_less_nat_alt word_le_nat_alt)
next
  case (3 s low high)
  then have lt: "low < high" by simp
  have pos: "0 < unat (rows_middle low high)" using unat_rows_middle(2) [OF lt] by (simp add: word_less_nat_alt)
  then have "unat (rows_middle low high - 1) = unat (rows_middle low high) - 1" by (intro unat_pred) auto
  then have "unat (rows_middle low high - 1) < unat high"
    using unat_rows_middle(3) [OF lt] pos by (simp add: word_le_nat_alt)
  then show ?case using 3 lt by (simp add: word_less_nat_alt)
qed simp

declare rows_search.simps [simp del]

definition rows_EXTRA_MAX :: "shape \<Rightarrow> usize" where
  "rows_EXTRA_MAX s = rows_search s 0 (rows_MAX s)"

section \<open>Heap capacities\<close>

datatype plane = Entries | Positions | Residents

datatype capacity_error = Error_Capacity usize usize | Error_Layout usize plane

text \<open>\<open>maximum\<close> is the largest offset of the position word, \<open>I::MAX\<close>.\<close>

definition capacity_try_new :: "shape \<Rightarrow> usize \<Rightarrow> usize \<Rightarrow> capacity_error + usize" where
  "capacity_try_new s maximum count =
     (if maximum < count then Inl (Error_Capacity count maximum)
      else if rows_ROOT_MAX s < count then Inl (Error_Layout count Entries)
      else if rows_MAX s < count then Inl (Error_Layout count Positions)
      else if rows_EXTRA_MAX s < count then Inl (Error_Layout count Residents)
      else Inr count)"

end
