(* ===== verification/O3_Layout_Proofs.thy ===== *)
theory O3_Layout_Proofs
  imports O3_Layout
begin

text \<open>
  The layouts of \<open>O3_Layout\<close> against exact arithmetic: a list of planes has an extent in
  the natural numbers, and the saturating bounds of the code decide exactly whether that extent
  is an allocation.
\<close>

section \<open>Rounding up\<close>

definition round_up :: "nat \<Rightarrow> nat \<Rightarrow> nat" where
  "round_up n a = (n + (a - 1)) div a * a"

lemma round_up_dvd [simp]: "a dvd round_up n a"
  by (simp add: round_up_def)

lemma round_up_ge: "0 < a \<Longrightarrow> n \<le> round_up n a"
proof -
  assume a: "0 < a"
  have "(n + (a - 1)) mod a \<le> a - 1" using a by (simp add: Suc_leI less_Suc_eq_le [symmetric])
  then show ?thesis using a div_mult_mod_eq [of "n + (a - 1)" a] unfolding round_up_def by linarith
qed

lemma round_up_le: "0 < a \<Longrightarrow> round_up n a \<le> n + (a - 1)"
  unfolding round_up_def by (rule div_times_less_eq_dividend)

lemma round_up_least: "0 < a \<Longrightarrow> a dvd m \<Longrightarrow> n \<le> m \<Longrightarrow> round_up n a \<le> m"
proof (rule ccontr)
  assume a: "0 < a" "a dvd m" "n \<le> m" "\<not> round_up n a \<le> m"
  obtain k where m: "m = a * k" using a(2) by (elim dvdE)
  have "k < (n + (a - 1)) div a" using a(4) a(1) by (simp add: round_up_def m mult.commute)
  then have "a * Suc k \<le> (n + (a - 1)) div a * a" by (subst mult.commute [of _ a]) (intro mult_le_mono2 Suc_leI)
  also have "\<dots> \<le> n + (a - 1)" by (rule div_times_less_eq_dividend)
  finally show False using a(1,3) m by simp
qed

lemma round_up_id: "a dvd n \<Longrightarrow> 0 < a \<Longrightarrow> round_up n a = n"
  using round_up_least [of a n n] round_up_ge [of a n] by simp

lemma round_up_mono: "0 < a \<Longrightarrow> m \<le> n \<Longrightarrow> round_up m a \<le> round_up n a"
  by (simp add: round_up_def div_le_mono)

lemma round_up_1 [simp]: "round_up n (Suc 0) = n"
  by (simp add: round_up_def)

lemma round_up_0 [simp]: "0 < a \<Longrightarrow> round_up 0 a = 0"
  by (simp add: round_up_def)

lemma round_up_bound:
  assumes a: "0 < a" "a dvd m"
  shows "round_up n a \<le> m - 1 \<longleftrightarrow> (m = 0 \<longrightarrow> round_up n a = 0) \<and> (0 < m \<longrightarrow> n + a \<le> m)"
proof (cases "m = 0")
  case False
  then have am: "a \<le> m" using a by (auto dest: dvd_imp_le)
  show ?thesis
  proof
    assume le: "round_up n a \<le> m - 1"
    have "a dvd m - round_up n a" using a(2) by (simp add: dvd_diff_nat)
    moreover have "0 < m - round_up n a" using le False by linarith
    ultimately have "a \<le> m - round_up n a" by (rule dvd_imp_le)
    then have "n + a \<le> m" using round_up_ge [OF a(1), of n] le by linarith
    then show "(m = 0 \<longrightarrow> round_up n a = 0) \<and> (0 < m \<longrightarrow> n + a \<le> m)" using False by simp
  next
    assume "(m = 0 \<longrightarrow> round_up n a = 0) \<and> (0 < m \<longrightarrow> n + a \<le> m)"
    then have "n + a \<le> m" using False by simp
    then show "round_up n a \<le> m - 1" using round_up_le [OF a(1), of n] a(1) by linarith
  qed
qed simp

section \<open>Words that are powers of two\<close>

definition align_ok :: "usize \<Rightarrow> bool" where
  "align_ok e \<longleftrightarrow> unat e \<in> (\<lambda>k. 2 ^ k) ` {..29}"

definition ty_ok :: "ty \<Rightarrow> bool" where
  "ty_ok t \<longleftrightarrow> align_ok (ty_align t) \<and> unat (ty_align t) dvd unat (ty_size t) \<and> ty_size t \<le> isize_max"

lemma unat_isize_max: "unat isize_max = 2 ^ 63 - 1"
  by (simp add: isize_max_def)

lemma align_okE:
  assumes "align_ok e"
  obtains k where "unat e = 2 ^ k" "k \<le> 29" "e = 2 ^ k"
proof -
  obtain k where k: "unat e = 2 ^ k" "k \<le> 29" using assms by (auto simp: align_ok_def)
  have "e = of_nat (unat e)" by simp
  then have "e = 2 ^ k" unfolding k(1) by simp
  then show ?thesis using k that by blast
qed

lemma align_ok_bounds:
  assumes "align_ok e"
  shows "0 < unat e" "unat e \<le> 2 ^ 29" "unat e dvd 2 ^ 63" "unat (e - 1) = unat e - 1"
proof -
  obtain k where k: "unat e = 2 ^ k" "k \<le> 29" using assms by (rule align_okE)
  show "0 < unat e" using k by simp
  show "unat e \<le> 2 ^ 29" unfolding k(1) using k(2) by (intro power_increasing) auto
  show "unat e dvd 2 ^ 63" unfolding k(1) using k(2) by (intro le_imp_power_dvd) auto
  show "unat (e - 1) = unat e - 1" using k by (intro unat_pred) auto
qed

lemma align_ok_nonzero [simp]: "align_ok e \<Longrightarrow> nonzero_align e = e"
  using align_ok_bounds [of e] by (simp add: nonzero_align_def saturating_add_def checked_add_def)

lemma align_ok_max: "align_ok a \<Longrightarrow> align_ok b \<Longrightarrow> align_ok (if a < b then b else a)"
  by simp

lemma unat_mask_not:
  assumes "align_ok e"
  shows "unat (x AND NOT (e - 1)) = unat x div unat e * unat e"
proof -
  obtain k where k: "unat e = 2 ^ k" "k \<le> 29" "e = 2 ^ k" using assms by (rule align_okE)
  have "x AND NOT (e - 1) = push_bit k (drop_bit k x)"
    unfolding k(3) by (rule bit_word_eqI) (auto simp: bit_simps mask_eq_exp_minus_1 [symmetric])
  moreover have "unat (push_bit k (drop_bit k x)) = take_bit 64 (push_bit k (drop_bit k (unat x)))"
    unfolding unsigned_push_bit_eq unsigned_drop_bit_eq
    using usize_bound [of x] by (simp add: take_bit_nat_eq_self)
  moreover have "unat x div 2 ^ k * 2 ^ k < 2 ^ 64"
    using usize_bound [of x] div_times_less_eq_dividend [of "unat x" "2 ^ k"] by linarith
  ultimately show ?thesis
    by (simp only: k(1) take_bit_nat_eq_self push_bit_eq_mult drop_bit_eq_div)
qed

section \<open>Extents of planes\<close>

text \<open>The extent reached after laying \<open>n\<close> elements of \<open>t\<close> behind \<open>sz\<close> bytes, and the largest alignment.\<close>

definition plane_end :: "ty \<Rightarrow> nat \<Rightarrow> nat \<Rightarrow> nat" where
  "plane_end t n sz = round_up sz (unat (ty_align t)) + unat (ty_size t) * n"

fun planes_end :: "(ty \<times> nat) list \<Rightarrow> nat \<Rightarrow> nat" where
  "planes_end [] sz = sz"
| "planes_end ((t, n) # ps) sz = planes_end ps (plane_end t n sz)"

definition planes_align :: "(ty \<times> nat) list \<Rightarrow> nat" where
  "planes_align ps = fold max (map (unat \<circ> ty_align \<circ> fst) ps) 1"

text \<open>An allocation is admissible when its extent, padded to its alignment, is an \<open>isize\<close>.\<close>

definition planes_fit :: "(ty \<times> nat) list \<Rightarrow> bool" where
  "planes_fit ps \<longleftrightarrow> round_up (planes_end ps 0) (planes_align ps) \<le> unat isize_max"

definition exact :: "bounds \<Rightarrow> nat \<Rightarrow> nat \<Rightarrow> bool" where
  "exact b sz al \<longleftrightarrow> align_ok (bd_align b) \<and> unat (bd_align b) = al \<and>
     (if sz < 2 ^ 63 then unat (bd_size b) = sz else 2 ^ 63 \<le> unat (bd_size b))"

lemma unat_saturating_mul:
  fixes a b :: usize
  shows "unat (saturating_mul a b) = min (unat a * unat b) (2 ^ 64 - 1)"
proof (cases "unat a * unat b < 2 ^ 64")
  case True
  then have "unat (a * b) = unat a * unat b" by (simp add: unat_mult_lem [THEN iffD1])
  then show ?thesis using True by (simp add: saturating_mul_def)
next
  case False
  then show ?thesis by (simp add: saturating_mul_def unsigned_minus_1_eq_mask mask_eq_exp_minus_1)
qed

lemma ty_okD:
  assumes "ty_ok t"
  shows "align_ok (ty_align t)" "unat (ty_align t) dvd unat (ty_size t)" "unat (ty_size t) < 2 ^ 63"
    "0 < unat (ty_align t)" "unat (ty_align t) dvd 2 ^ 63" "unat (ty_align t) \<le> 2 ^ 29"
  using assms align_ok_bounds [of "ty_align t"]
  by (simp_all add: ty_ok_def isize_max_def word_le_nat_alt)

lemma unat_bounds_offset:
  assumes "ty_ok t"
  shows "unat (bd_offset (bounds_extend t len b)) =
    min (unat (bd_size b) + (unat (ty_align t) - 1)) (2 ^ 64 - 1) div unat (ty_align t) * unat (ty_align t)"
  using ty_okD [OF assms] align_ok_bounds [of "ty_align t"]
  by (simp add: bounds_extend_def Let_def unat_mask_not unat_saturating_add)

lemma bounds_offset_exact:
  assumes "ty_ok t" "unat (bd_size b) = sz" "sz < 2 ^ 63"
  shows "unat (bd_offset (bounds_extend t len b)) = round_up sz (unat (ty_align t))"
proof -
  have "sz + (unat (ty_align t) - 1) \<le> 2 ^ 64 - 1" using ty_okD(6) [OF assms(1)] assms(3) by simp
  then show ?thesis using assms by (simp only: unat_bounds_offset round_up_def min_absorb1)
qed

lemma bounds_offset_large:
  assumes "ty_ok t" "2 ^ 63 \<le> unat (bd_size b)"
  shows "2 ^ 63 \<le> unat (bd_offset (bounds_extend t len b))"
proof -
  let ?a = "unat (ty_align t)" and ?m = "min (unat (bd_size b) + (unat (ty_align t) - 1)) (2 ^ 64 - 1)"
  obtain k where k: "2 ^ 63 = ?a * k" using ty_okD(5) [OF assms(1)] by (elim dvdE)
  have "?a * k \<le> ?m" unfolding k [symmetric] using assms(2) by simp
  then have "?a * k div ?a \<le> ?m div ?a" by (rule div_le_mono)
  then have "k \<le> ?m div ?a" using ty_okD(4) [OF assms(1)] by simp
  then have "?a * k \<le> ?m div ?a * ?a" by (subst mult.commute [of ?a]) (rule mult_le_mono1)
  then show ?thesis unfolding unat_bounds_offset [OF assms(1)] k .
qed

lemma unat_bounds_size:
  "unat (bd_size (bounds_extend t len b)) =
     min (unat (bd_offset (bounds_extend t len b)) + min (unat (ty_size t) * unat len) (2 ^ 64 - 1)) (2 ^ 64 - 1)"
  by (simp add: bounds_extend_def Let_def unat_saturating_add unat_saturating_mul)

lemma bounds_align_exact:
  assumes "ty_ok t" "align_ok (bd_align b)"
  shows "align_ok (bd_align (bounds_extend t len b))"
    "unat (bd_align (bounds_extend t len b)) = max (unat (bd_align b)) (unat (ty_align t))"
  using assms ty_okD(1) [OF assms(1)]
  by (auto simp: bounds_extend_def Let_def word_less_nat_alt)

lemma exact_extend:
  assumes t: "ty_ok t" and e: "exact b sz al"
  shows "exact (bounds_extend t len b) (plane_end t (unat len) sz) (max (unat (ty_align t)) al)"
proof -
  let ?b = "bounds_extend t len b" and ?p = "unat (ty_size t) * unat len"
  have al: "align_ok (bd_align ?b)" "unat (bd_align ?b) = max (unat (ty_align t)) al"
    using bounds_align_exact [OF t, of b len] e by (auto simp: exact_def max.commute)
  have "if plane_end t (unat len) sz < 2 ^ 63 then unat (bd_size ?b) = plane_end t (unat len) sz
      else 2 ^ 63 \<le> unat (bd_size ?b)"
  proof (cases "sz < 2 ^ 63")
    case True
    then have off: "unat (bd_offset ?b) = round_up sz (unat (ty_align t))"
      using e by (intro bounds_offset_exact [OF t]) (auto simp: exact_def)
    show ?thesis unfolding unat_bounds_size off plane_end_def by (auto simp: min_def)
  next
    case False
    then have "2 ^ 63 \<le> unat (bd_offset ?b)" using e by (intro bounds_offset_large [OF t]) (auto simp: exact_def)
    moreover have "\<not> plane_end t (unat len) sz < 2 ^ 63"
      using False round_up_ge [OF ty_okD(4) [OF t], of sz] by (simp add: plane_end_def)
    ultimately show ?thesis unfolding unat_bounds_size by (auto simp: min_def)
  qed
  then show ?thesis using al by (simp add: exact_def)
qed

lemma exact_fits:
  assumes "exact b sz al"
  shows "bounds_fits b \<longleftrightarrow> round_up sz al \<le> unat isize_max"
proof -
  have al: "align_ok (bd_align b)" "unat (bd_align b) = al" using assms by (auto simp: exact_def)
  note a = align_ok_bounds [OF al(1), unfolded al(2)]
  have sub: "unat (isize_max - (bd_align b - 1)) = unat isize_max - (al - 1)"
    using a by (intro unat_sub [THEN trans]) (simp_all add: word_le_nat_alt unat_isize_max)
  have "bounds_fits b \<longleftrightarrow> unat (bd_size b) + al \<le> 2 ^ 63"
    unfolding bounds_fits_def word_le_nat_alt sub unat_isize_max using a(1,2) by (simp; linarith)
  also have "\<dots> \<longleftrightarrow> sz + al \<le> 2 ^ 63" using assms a(1) by (auto simp: exact_def split: if_splits)
  also have "\<dots> \<longleftrightarrow> round_up sz al \<le> unat isize_max"
    unfolding unat_isize_max using round_up_bound [OF a(1) a(3), of sz] by simp
  finally show ?thesis .
qed

section \<open>Bundles and shapes\<close>

definition shape_planes :: "shape \<Rightarrow> nat \<Rightarrow> nat \<Rightarrow> (ty \<times> nat) list" where
  "shape_planes s n m = [(sh_root s, n), (sh_tail s, m), (sh_extra s, n), (sh_last s, n)]"

definition shape_ok :: "shape \<Rightarrow> bool" where
  "shape_ok s \<longleftrightarrow> ty_ok (sh_root s) \<and> ty_ok (sh_tail s) \<and> ty_ok (sh_extra s) \<and> ty_ok (sh_last s)"

lemma exact_new: "exact (bounds_new \<lparr>ly_size = 0, ly_align = 1\<rparr>) 0 1"
proof -
  have "align_ok (1 :: usize)" by (auto simp: align_ok_def intro: image_eqI [of _ _ 0])
  then show ?thesis by (simp add: exact_def bounds_new_def)
qed

lemma exact_bundle:
  assumes "shape_ok s"
  shows "exact (bundle_bounds s len tn) (planes_end (shape_planes s (unat len) (unat tn)) 0)
    (planes_align (shape_planes s (unat len) (unat tn)))"
  using assms exact_new
  by (simp add: bundle_bounds_def shape_planes_def planes_align_def shape_ok_def exact_extend
      del: One_nat_def)

lemma bundle_fits:
  "shape_ok s \<Longrightarrow> bounds_fits (bundle_bounds s len tn) \<longleftrightarrow> planes_fit (shape_planes s (unat len) (unat tn))"
  unfolding planes_fit_def by (rule exact_fits [OF exact_bundle])

lemma unat_pad:
  assumes "align_ok (ly_align l)" "unat (ly_size l) + unat (ly_align l) \<le> 2 ^ 64"
  shows "unat (ly_size (pad_to_align l)) = round_up (unat (ly_size l)) (unat (ly_align l))"
proof -
  note a = align_ok_bounds [OF assms(1)]
  have "unat (ly_size l + (ly_align l - 1)) = unat (ly_size l) + (unat (ly_align l) - 1)"
    using assms(2) a by (intro unat_add_fits [THEN trans]) simp_all
  then show ?thesis by (simp add: pad_to_align_def unat_mask_not [OF assms(1)] round_up_def)
qed

lemma bundle_layout:
  fixes len tn :: usize
  defines "ps s \<equiv> shape_planes s (unat len) (unat tn)"
  assumes "shape_ok s"
  shows "bundle_try_layout s len tn = Inl Overflow \<longleftrightarrow> \<not> planes_fit (ps s)"
    "planes_fit (ps s) \<Longrightarrow> bundle_try_layout s len tn = Inr (pad_to_align (bounds_layout (bundle_bounds s len tn)))
      \<and> unat (ly_size (pad_to_align (bounds_layout (bundle_bounds s len tn)))) = round_up (planes_end (ps s) 0) (planes_align (ps s))
      \<and> unat (ly_align (pad_to_align (bounds_layout (bundle_bounds s len tn)))) = planes_align (ps s)"
proof -
  let ?b = "bundle_bounds s len tn"
  note fits = bundle_fits [OF assms(2), of len tn, folded ps_def]
  note exact = exact_bundle [OF assms(2), of len tn, folded ps_def]
  show "bundle_try_layout s len tn = Inl Overflow \<longleftrightarrow> \<not> planes_fit (ps s)"
    using fits by (simp add: bundle_try_layout_def Let_def)
  assume fit: "planes_fit (ps s)"
  have al: "align_ok (bd_align ?b)" "unat (bd_align ?b) = planes_align (ps s)" using exact by (auto simp: exact_def)
  note a = align_ok_bounds [OF al(1), unfolded al(2)]
  have le: "planes_end (ps s) 0 + planes_align (ps s) \<le> 2 ^ 63"
    using fit round_up_bound [OF a(1) a(3), of "planes_end (ps s) 0"] by (simp add: planes_fit_def unat_isize_max)
  then have sz: "unat (bd_size ?b) = planes_end (ps s) 0" using exact a(1) by (simp add: exact_def)
  have "unat (ly_size (pad_to_align (bounds_layout ?b))) = round_up (planes_end (ps s) 0) (planes_align (ps s))"
    using unat_pad [of "bounds_layout ?b"] al sz le by (simp add: bounds_layout_def)
  then show "bundle_try_layout s len tn = Inr (pad_to_align (bounds_layout ?b))
      \<and> unat (ly_size (pad_to_align (bounds_layout ?b))) = round_up (planes_end (ps s) 0) (planes_align (ps s))
      \<and> unat (ly_align (pad_to_align (bounds_layout ?b))) = planes_align (ps s)"
    using fits fit al by (simp add: bundle_try_layout_def Let_def bounds_layout_def pad_to_align_def)
qed

lemma unat_layout_offset:
  assumes "ty_ok t" "unat bytes < 2 ^ 63"
  shows "unat (layout_offset t bytes) = round_up (unat bytes) (unat (ty_align t))"
  using unat_pad [of "\<lparr>ly_size = bytes, ly_align = ty_align t\<rparr>"] ty_okD [OF assms(1)] assms(2)
  by (simp add: layout_offset_def)

lemma unat_plane_end:
  fixes base len size :: usize
  assumes "unat base + unat size * unat len < 2 ^ 63"
  shows "unat (base + size * len) = unat base + unat size * unat len"
proof -
  have "unat (size * len) = unat size * unat len" using assms by (simp add: unat_mult_lem [THEN iffD1])
  then show ?thesis using assms by (intro unat_add_fits [THEN trans]) simp_all
qed

text \<open>The four offsets and the end of the last plane.\<close>

lemma shape_offsets:
  fixes len tn :: usize
  assumes ok: "shape_ok s" and fit: "planes_fit (shape_planes s (unat len) (unat tn))"
  defines "root \<equiv> unat (ty_size (sh_root s)) * unat len"
  defines "tail \<equiv> round_up root (unat (ty_align (sh_tail s)))"
  defines "extra \<equiv> round_up (tail + unat (ty_size (sh_tail s)) * unat tn) (unat (ty_align (sh_extra s)))"
  defines "final \<equiv> round_up (extra + unat (ty_size (sh_extra s)) * unat len) (unat (ty_align (sh_last s)))"
  shows "unat (shape_offset s len) = tail" "unat (shape_extra s len tn) = extra" "unat (shape_last s len tn) = final"
    "unat (shape_last s len tn + ty_size (sh_last s) * len) = final + unat (ty_size (sh_last s)) * unat len"
    "planes_end (shape_planes s (unat len) (unat tn)) 0 = final + unat (ty_size (sh_last s)) * unat len"
    "final + unat (ty_size (sh_last s)) * unat len < 2 ^ 63"
proof -
  have tys: "ty_ok (sh_root s)" "ty_ok (sh_tail s)" "ty_ok (sh_extra s)" "ty_ok (sh_last s)"
    using ok by (auto simp: shape_ok_def)
  note a = ty_okD(4) [OF tys(1)] ty_okD(4) [OF tys(2)] ty_okD(4) [OF tys(3)] ty_okD(4) [OF tys(4)]
  have "round_up 0 (unat (ty_align (sh_root s))) = 0" using a(1) by (simp add: round_up_def)
  then show e: "planes_end (shape_planes s (unat len) (unat tn)) 0 = final + unat (ty_size (sh_last s)) * unat len"
    by (simp add: shape_planes_def plane_end_def root_def tail_def extra_def final_def)
  have al: "0 < planes_align (shape_planes s (unat len) (unat tn))"
    using exact_bundle [OF ok, of len tn] align_ok_bounds(1) [of "bd_align (bundle_bounds s len tn)"]
    by (simp add: exact_def)
  show stop: "final + unat (ty_size (sh_last s)) * unat len < 2 ^ 63"
    using fit round_up_ge [OF al, of "final + unat (ty_size (sh_last s)) * unat len"]
    by (simp add: planes_fit_def e unat_isize_max)
  have lt: "extra + unat (ty_size (sh_extra s)) * unat len < 2 ^ 63"
    using stop round_up_ge [OF a(4), of "extra + unat (ty_size (sh_extra s)) * unat len"] by (simp add: final_def)
  have lt': "tail + unat (ty_size (sh_tail s)) * unat tn < 2 ^ 63"
    using lt round_up_ge [OF a(3), of "tail + unat (ty_size (sh_tail s)) * unat tn"] by (simp add: extra_def)
  have lt'': "root < 2 ^ 63" using lt' round_up_ge [OF a(2), of root] by (simp add: tail_def)
  have "unat (ty_size (sh_root s) * len) = root"
    using unat_plane_end [of 0 "ty_size (sh_root s)" len] lt'' by (simp add: root_def)
  then show 1: "unat (shape_offset s len) = tail"
    using unat_layout_offset [OF tys(2)] lt'' by (simp add: shape_offset_def tail_def)
  have "unat (shape_offset s len + ty_size (sh_tail s) * tn) = tail + unat (ty_size (sh_tail s)) * unat tn"
    using unat_plane_end [of "shape_offset s len"] lt' 1 by simp
  then show 2: "unat (shape_extra s len tn) = extra"
    using unat_layout_offset [OF tys(3)] lt' by (simp add: shape_extra_def extra_def)
  have "unat (shape_extra s len tn + ty_size (sh_extra s) * len) = extra + unat (ty_size (sh_extra s)) * unat len"
    using unat_plane_end [of "shape_extra s len tn"] lt 2 by simp
  then show 3: "unat (shape_last s len tn) = final"
    using unat_layout_offset [OF tys(4)] lt by (simp add: shape_last_def final_def)
  show "unat (shape_last s len tn + ty_size (sh_last s) * len) = final + unat (ty_size (sh_last s)) * unat len"
    using unat_plane_end [of "shape_last s len tn"] stop 3 by simp
qed

lemma shape_layout_at:
  assumes ok: "shape_ok s" and fit: "planes_fit (shape_planes s (unat len) (unat tn))"
  shows "layout_at (sh_last s) (shape_last s len tn) len
      (nonzero_align (max (max (ty_align (sh_root s)) (ty_align (sh_tail s))) (ty_align (sh_extra s)))) =
    bounds_layout (bundle_bounds s len tn)"
proof -
  let ?A = "max (max (ty_align (sh_root s)) (ty_align (sh_tail s))) (ty_align (sh_extra s))"
  let ?b = "bundle_bounds s len tn" and ?ps = "shape_planes s (unat len) (unat tn)"
  have tys: "ty_ok (sh_root s)" "ty_ok (sh_tail s)" "ty_ok (sh_extra s)" "ty_ok (sh_last s)"
    using ok by (auto simp: shape_ok_def)
  have A: "align_ok ?A" using tys(1,2,3) by (simp add: max_def ty_okD(1))
  have e: "exact ?b (planes_end ?ps 0) (planes_align ?ps)" by (rule exact_bundle [OF ok])
  note off = shape_offsets [OF ok fit]
  have "unat (bd_size ?b) = unat (shape_last s len tn + ty_size (sh_last s) * len)"
    using e off(4-6) by (simp add: exact_def)
  then have size: "bd_size ?b = shape_last s len tn + ty_size (sh_last s) * len" by (simp add: word_unat_eq_iff)
  have "unat (max a b) = max (unat a) (unat b)" for a b :: usize by (auto simp: max_def word_le_nat_alt)
  then have "unat (bd_align ?b) = unat (max (ty_align (sh_last s)) ?A)"
    using e tys(1) [THEN ty_okD(4)] by (simp add: exact_def planes_align_def shape_planes_def max.commute max.left_commute)
  then have "bd_align ?b = (if ty_align (sh_last s) < ?A then ?A else ty_align (sh_last s))"
    by (auto simp: word_unat_eq_iff [symmetric] max_def)
  then show ?thesis by (simp add: layout_at_def bounds_layout_def size align_ok_nonzero [OF A])
qed

section \<open>Rows\<close>

lemma plane_end_mono: "ty_ok t \<Longrightarrow> n \<le> n' \<Longrightarrow> sz \<le> sz' \<Longrightarrow> plane_end t n sz \<le> plane_end t n' sz'"
  unfolding plane_end_def by (intro add_mono round_up_mono ty_okD(4) mult_le_mono2)

lemma plane_end_ge: "ty_ok t \<Longrightarrow> sz \<le> plane_end t n sz"
  unfolding plane_end_def by (rule trans_le_add1) (intro round_up_ge ty_okD(4))

lemma planes_align_pos: "0 < planes_align ps"
proof -
  have "n \<le> fold max xs n" for n :: nat and xs by (induction xs arbitrary: n) (auto intro: order_trans [OF max.cobounded2])
  then show ?thesis unfolding planes_align_def by (rule less_le_trans [OF zero_less_one])
qed

lemma planes_fit_antimono:
  assumes "shape_ok s" "n' \<le> n" "planes_fit (shape_planes s n n)"
  shows "planes_fit (shape_planes s n' n')"
proof -
  have "planes_end (shape_planes s n' n') 0 \<le> planes_end (shape_planes s n n) 0"
    using assms(1,2) by (simp add: shape_planes_def shape_ok_def plane_end_mono)
  then have "round_up (planes_end (shape_planes s n' n') 0) (planes_align (shape_planes s n' n'))
      \<le> round_up (planes_end (shape_planes s n n) 0) (planes_align (shape_planes s n' n'))"
    by (rule round_up_mono [OF planes_align_pos])
  moreover have "planes_align (shape_planes s n' n') = planes_align (shape_planes s n n)"
    by (simp add: planes_align_def shape_planes_def)
  ultimately show ?thesis using assms(3) by (simp add: planes_fit_def)
qed

lemma planes_fit_zero: "shape_ok s \<Longrightarrow> planes_fit (shape_planes s 0 0)"
  using planes_align_pos by (simp add: planes_fit_def shape_planes_def plane_end_def shape_ok_def ty_okD(4))

lemma rows_search_greatest:
  assumes ok: "shape_ok s" and "low \<le> high" "planes_fit (shape_planes s (unat low) (unat low))"
  shows "rows_search s low high \<le> high \<and>
    planes_fit (shape_planes s (unat (rows_search s low high)) (unat (rows_search s low high))) \<and>
    (\<forall>c. rows_search s low high < c \<and> c \<le> high \<longrightarrow> \<not> planes_fit (shape_planes s (unat c) (unat c)))"
  using assms
proof (induction s low high rule: rows_search.induct)
  case (1 s low high)
  show ?case
  proof (cases "low < high")
    case False
    then show ?thesis using 1(4,5) by (subst (1 2 3 4) rows_search.simps) auto
  next
    case True
    define c where "c = rows_middle low high"
    note mid = unat_rows_middle(2,3) [OF True, folded c_def]
    show ?thesis
    proof (cases "bounds_fits (bundle_bounds s c c)")
      case fits: True
      then have "rows_search s low high = rows_search s c high"
        using True by (subst rows_search.simps) (simp add: c_def Let_def)
      then show ?thesis using 1(1) [OF True c_def fits 1(3) mid(2)] bundle_fits [OF 1(3), of c c] fits by simp
    next
      case no: False
      have eq: "rows_search s low high = rows_search s low (c - 1)"
        using True no by (subst rows_search.simps) (simp add: c_def Let_def)
      have c0: "c \<noteq> 0" using mid(1) by auto
      then have pred: "unat (c - 1) = unat c - 1" by (rule unat_pred)
      have le: "low \<le> c - 1" "c - 1 \<le> high" using mid pred by (auto simp: word_le_nat_alt word_less_nat_alt)
      have "\<not> planes_fit (shape_planes s (unat x) (unat x))" if "c - 1 < x" for x
      proof
        assume fit: "planes_fit (shape_planes s (unat x) (unat x))"
        have "unat c \<le> unat x" using that pred by (auto simp: word_less_nat_alt)
        then have "planes_fit (shape_planes s (unat c) (unat c))" by (rule planes_fit_antimono [OF 1(3) _ fit])
        then show False using no bundle_fits [OF 1(3), of c c] by simp
      qed
      then show ?thesis unfolding eq using 1(2) [OF True c_def no 1(3) le(1) 1(5)] le(2)
        by (meson not_le order_trans)
    qed
  qed
qed

text \<open>One plane and two planes: the closed forms.\<close>

lemma dvd_word_div: "unat (a div b) = unat a div unat b" for a b :: usize
  by (rule unat_div)

lemma rows_ROOT_MAX_exact:
  assumes "shape_ok s"
  shows "count \<le> rows_ROOT_MAX s \<longleftrightarrow> planes_fit [(sh_root s, unat count)]"
proof -
  let ?z = "unat (ty_size (sh_root s))" and ?a = "unat (ty_align (sh_root s))"
  have t: "ty_ok (sh_root s)" using assms by (simp add: shape_ok_def)
  note a = ty_okD [OF t]
  have "planes_align [(sh_root s, unat count)] = ?a" using a(4) by (simp add: planes_align_def)
  moreover have "round_up (?z * unat count) ?a = ?z * unat count" using a(2,4) by (intro round_up_id) auto
  ultimately have fit: "planes_fit [(sh_root s, unat count)] \<longleftrightarrow> ?z * unat count \<le> unat isize_max"
    using a(4) by (simp add: planes_fit_def plane_end_def)
  show ?thesis
  proof (cases "ty_size (sh_root s) = 0")
    case True
    then show ?thesis by (simp add: fit rows_ROOT_MAX_def)
  next
    case False
    then have "0 < ?z" by (simp add: unat_gt_0)
    then have "unat count \<le> unat isize_max div ?z \<longleftrightarrow> ?z * unat count \<le> unat isize_max"
      by (simp add: less_eq_div_iff_mult_less_eq mult.commute)
    then show ?thesis using False by (simp add: fit rows_ROOT_MAX_def word_le_nat_alt dvd_word_div)
  qed
qed

lemma round_up_twice:
  assumes "0 < a" "a dvd b" "0 < b"
  shows "round_up (round_up n a) b = round_up n b"
proof (rule order_antisym)
  have "a dvd round_up n b" by (rule dvd_trans [OF assms(2)]) simp
  then have "round_up n a \<le> round_up n b" using assms(1,3) by (intro round_up_least round_up_ge)
  then show "round_up (round_up n a) b \<le> round_up n b" by (rule round_up_least [OF assms(3) round_up_dvd])
  show "round_up n b \<le> round_up (round_up n a) b"
    using assms round_up_ge [of a n] by (intro round_up_mono)
qed

lemma round_up_add: "0 < a \<Longrightarrow> a dvd k \<Longrightarrow> round_up (m + k) a = round_up m a + k"
proof -
  assume a: "0 < a" "a dvd k"
  obtain q where q: "k = a * q" using a(2) by (elim dvdE)
  have "m + k + (a - 1) = (m + (a - 1)) + q * a" by (simp add: q)
  then have "(m + k + (a - 1)) div a = q + (m + (a - 1)) div a" using a(1) by (simp only: div_mult_self1)
  then show ?thesis by (simp add: round_up_def q algebra_simps)
qed

lemma align_dvd: "align_ok a \<Longrightarrow> align_ok b \<Longrightarrow> unat a \<le> unat b \<Longrightarrow> unat a dvd unat b"
  by (elim align_okE) (auto simp: le_imp_power_dvd)

lemma unat_align_bound:
  assumes "align_ok e"
  shows "unat (isize_max AND NOT (e - 1)) = 2 ^ 63 - unat e"
proof -
  note a = align_ok_bounds [OF assms]
  obtain q where q: "2 ^ 63 = unat e * q" using a(3) by (elim dvdE)
  then have q0: "0 < q" by (cases q) auto
  have "unat isize_max = (unat e - 1) + unat e * (q - 1)"
    using a(1,2) q q0 by (simp add: unat_isize_max diff_mult_distrib2; linarith)
  then have "unat isize_max div unat e = q - 1" using a(1) by (simp only: div_mult_self2) simp
  then have "unat (isize_max AND NOT (e - 1)) = (q - 1) * unat e" by (simp add: unat_mask_not [OF assms])
  also have "\<dots> = q * unat e - unat e" by (simp add: diff_mult_distrib)
  finally show ?thesis using q by (simp add: mult.commute)
qed

lemma rows_MAX_exact:
  assumes ok: "shape_ok s"
  shows "count \<le> rows_MAX s \<longleftrightarrow> planes_fit [(sh_root s, unat count), (sh_tail s, unat count)]"
proof -
  let ?zr = "unat (ty_size (sh_root s))" and ?ar = "unat (ty_align (sh_root s))"
  let ?zt = "unat (ty_size (sh_tail s))" and ?at = "unat (ty_align (sh_tail s))"
  let ?n = "unat count"
  have t: "ty_ok (sh_root s)" "ty_ok (sh_tail s)" using ok by (auto simp: shape_ok_def)
  note r = ty_okD [OF t(1)] and l = ty_okD [OF t(2)]
  define e where "e = (if ty_align (sh_tail s) < ty_align (sh_root s) then ty_align (sh_root s) else ty_align (sh_tail s))"
  define B where "B = unat e"
  have e: "align_ok e" using r(1) l(1) by (simp add: e_def)
  note b = align_ok_bounds [OF e, folded B_def]
  have B: "B = max ?ar ?at" by (auto simp: B_def e_def word_less_nat_alt)
  have al: "planes_align [(sh_root s, ?n), (sh_tail s, ?n)] = B"
    using r(4) by (simp add: planes_align_def B max.commute)
  have at: "?at dvd B" unfolding B_def
    by (rule align_dvd [OF l(1) e]) (use B in \<open>simp add: B_def\<close>)
  have "round_up (round_up (?zr * ?n) ?at + ?zt * ?n) B = round_up (round_up (?zr * ?n + ?zt * ?n) ?at) B"
    using round_up_add [of ?at "?zt * ?n" "?zr * ?n"] l(2,4) by simp
  also have "\<dots> = round_up ((?zr + ?zt) * ?n) B"
    using round_up_twice [OF l(4) at b(1)] by (simp add: add_mult_distrib)
  finally have fit: "planes_fit [(sh_root s, ?n), (sh_tail s, ?n)] \<longleftrightarrow> (?zr + ?zt) * ?n + B \<le> 2 ^ 63"
    unfolding planes_fit_def al unat_isize_max using round_up_bound [OF b(1,3), of "(?zr + ?zt) * ?n"] r(4)
    by (simp add: plane_end_def)
  have row: "unat (ty_size (sh_root s) + ty_size (sh_tail s)) = ?zr + ?zt"
    using r(3) l(3) by (intro unat_add_fits [THEN trans]) simp_all
  show ?thesis
  proof (cases "?zr + ?zt = 0")
    case True
    then have "ty_size (sh_root s) + ty_size (sh_tail s) = 0" using row by (metis unat_eq_zero)
    then have "rows_MAX s = - 1" by (simp add: rows_MAX_def Let_def)
    then show ?thesis using True b(2) by (simp add: fit)
  next
    case False
    then have "ty_size (sh_root s) + ty_size (sh_tail s) \<noteq> 0" using row by (metis unat_0)
    then have "unat (rows_MAX s) = (2 ^ 63 - B) div (?zr + ?zt)"
      using unat_align_bound [OF e, folded B_def] row by (simp add: rows_MAX_def Let_def e_def [symmetric] dvd_word_div)
    then have "count \<le> rows_MAX s \<longleftrightarrow> ?n * (?zr + ?zt) \<le> 2 ^ 63 - B"
      using False by (simp add: word_le_nat_alt less_eq_div_iff_mult_less_eq)
    then show ?thesis unfolding fit using b(2) by (simp add: mult.commute; linarith)
  qed
qed

lemma planes_fit_sum:
  assumes "\<forall>p\<in>set ps. ty_ok (fst p)"
  shows "planes_fit ps \<longleftrightarrow> planes_end ps 0 + planes_align ps \<le> 2 ^ 63"
proof -
  have "fold max xs n \<in> insert n (set xs)" for n :: nat and xs
    by (induction xs arbitrary: n) (auto simp: max_def)
  then have "planes_align ps \<in> insert 1 (set (map (unat \<circ> ty_align \<circ> fst) ps))" unfolding planes_align_def .
  then have "planes_align ps dvd 2 ^ 63" using assms ty_okD(5) by auto
  then show ?thesis
    unfolding planes_fit_def unat_isize_max 
    using round_up_bound [OF planes_align_pos \<open>planes_align ps dvd 2 ^ 63\<close>, of "planes_end ps 0"] by simp
qed

lemma planes_fit_prefix:
  assumes ok: "shape_ok s" and fit: "planes_fit (shape_planes s n n)"
  shows "planes_fit [(sh_root s, n), (sh_tail s, n)]"
proof -
  let ?E = "planes_end [(sh_root s, n), (sh_tail s, n)] 0"
  have t: "ty_ok (sh_root s)" "ty_ok (sh_tail s)" "ty_ok (sh_extra s)" "ty_ok (sh_last s)"
    using ok by (auto simp: shape_ok_def)
  have "?E \<le> planes_end (shape_planes s n n) 0"
    using t plane_end_ge by (auto simp: shape_planes_def intro: order_trans)
  moreover have "planes_align [(sh_root s, n), (sh_tail s, n)] \<le> planes_align (shape_planes s n n)"
    by (auto simp: planes_align_def shape_planes_def)
  ultimately show ?thesis using fit t by (simp add: planes_fit_sum shape_planes_def)
qed

lemma rows_EXTRA_MAX_exact:
  assumes ok: "shape_ok s"
  shows "count \<le> rows_EXTRA_MAX s \<longleftrightarrow> planes_fit (shape_planes s (unat count) (unat count))"
proof -
  let ?r = "rows_EXTRA_MAX s"
  have g: "?r \<le> rows_MAX s" "planes_fit (shape_planes s (unat ?r) (unat ?r))"
      "\<forall>c. ?r < c \<and> c \<le> rows_MAX s \<longrightarrow> \<not> planes_fit (shape_planes s (unat c) (unat c))"
    using rows_search_greatest [OF ok, of 0 "rows_MAX s"] planes_fit_zero [OF ok] by (simp_all add: rows_EXTRA_MAX_def)
  show ?thesis
  proof
    assume "count \<le> ?r"
    then show "planes_fit (shape_planes s (unat count) (unat count))"
      using planes_fit_antimono [OF ok _ g(2)] by (simp add: word_le_nat_alt)
  next
    assume fit: "planes_fit (shape_planes s (unat count) (unat count))"
    then have "count \<le> rows_MAX s" using planes_fit_prefix [OF ok] rows_MAX_exact [OF ok] by blast
    then show "count \<le> ?r" using g(3) fit by force
  qed
qed

section \<open>Recipes\<close>

primrec recipe_planes :: "recipe \<Rightarrow> (ty \<times> nat) list" where
  "recipe_planes (Root t len) = [(t, unat len)]"
| "recipe_planes (Tail prior t len) = recipe_planes prior @ [(t, unat len)]"

text \<open>Where each plane starts.\<close>

fun plane_starts :: "(ty \<times> nat) list \<Rightarrow> nat \<Rightarrow> nat list" where
  "plane_starts [] sz = []"
| "plane_starts ((t, n) # ps) sz = round_up sz (unat (ty_align t)) # plane_starts ps (plane_end t n sz)"

lemma planes_end_append: "planes_end (ps @ qs) sz = planes_end qs (planes_end ps sz)"
  by (induction ps arbitrary: sz) auto

lemma plane_starts_append: "plane_starts (ps @ qs) sz = plane_starts ps sz @ plane_starts qs (planes_end ps sz)"
  by (induction ps arbitrary: sz) auto

lemma planes_align_snoc: "planes_align (ps @ [(t, n)]) = max (unat (ty_align t)) (planes_align ps)"
  by (simp add: planes_align_def)

lemma planes_fit_snoc:
  assumes "\<forall>p\<in>set ps. ty_ok (fst p)" "ty_ok t" "planes_fit (ps @ [(t, n)])"
  shows "planes_fit ps"
proof -
  have "planes_end ps 0 \<le> planes_end (ps @ [(t, n)]) 0" using assms(2) by (simp add: planes_end_append plane_end_ge)
  moreover have "planes_align ps \<le> planes_align (ps @ [(t, n)])" by (simp add: planes_align_snoc)
  ultimately show ?thesis using assms by (auto simp: planes_fit_sum)
qed

text \<open>A bundle that describes the planes exactly.\<close>

definition bundle_exact :: "field_bundle \<Rightarrow> (ty \<times> nat) list \<Rightarrow> bool" where
  "bundle_exact b ps \<longleftrightarrow> align_ok (ly_align (bn_layout b)) \<and> unat (ly_align (bn_layout b)) = planes_align ps \<and>
     unat (ly_size (bn_layout b)) = planes_end ps 0 \<and> map unat (bn_offsets b) = tl (plane_starts ps 0)"

lemma bundle_exact_eq:
  assumes "bundle_exact b ps" "bundle_exact b' ps"
  shows "b = b'"
proof -
  have "map unat (bn_offsets b) = map unat (bn_offsets b')" using assms by (simp add: bundle_exact_def)
  then have "bn_offsets b = bn_offsets b'" by (rule map_injective) (simp add: inj_def word_unat_eq_iff)
  moreover have "bn_layout b = bn_layout b'"
    using assms unfolding bundle_exact_def by (intro layout.equality) (simp_all add: word_unat_eq_iff)
  ultimately show ?thesis by simp
qed

lemma root_exact:
  assumes t: "ty_ok t"
  shows "case bundle_try_root t len of
      Inl _ \<Rightarrow> \<not> planes_fit [(t, unat len)]
    | Inr b \<Rightarrow> planes_fit [(t, unat len)] \<and> bundle_exact b [(t, unat len)]"
    "planes_fit [(t, unat len)] \<Longrightarrow> bundle_exact (bundle_root t len) [(t, unat len)]"
proof -
  note a = ty_okD [OF t]
  have al: "planes_align [(t, unat len)] = unat (ty_align t)" using a(4) by (simp add: planes_align_def)
  have e: "planes_end [(t, unat len)] 0 = unat (ty_size t) * unat len" using a(4) by (simp add: plane_end_def)
  have fit: "planes_fit [(t, unat len)] \<longleftrightarrow> unat (ty_size t) * unat len + unat (ty_align t) \<le> 2 ^ 63"
    using t by (simp add: planes_fit_sum al e del: planes_end.simps)
  have sub: "unat (isize_max - (ty_align t - 1)) = 2 ^ 63 - unat (ty_align t)"
    using a(4,6) align_ok_bounds(4) [OF a(1)]
    by (intro unat_sub [THEN trans]) (simp_all add: word_le_nat_alt unat_isize_max)
  have le: "unat (ty_size t) * unat len \<le> unat (isize_max - (ty_align t - 1)) \<longleftrightarrow> planes_fit [(t, unat len)]"
    unfolding fit sub using a(6) by (simp; linarith)
  have size: "unat (ty_size t * len) = unat (ty_size t) * unat len" if "planes_fit [(t, unat len)]"
    using unat_plane_end [of 0 "ty_size t" len] that a(4) unfolding fit by simp
  show "case bundle_try_root t len of
      Inl _ \<Rightarrow> \<not> planes_fit [(t, unat len)]
    | Inr b \<Rightarrow> planes_fit [(t, unat len)] \<and> bundle_exact b [(t, unat len)]"
    using size a(1) by (auto simp: bundle_try_root_def layout_try_layout_def std_array_def le bundle_exact_def al e
        simp del: planes_end.simps)
  show "bundle_exact (bundle_root t len) [(t, unat len)]" if "planes_fit [(t, unat len)]"
    using size [OF that] a(1)
    by (simp add: bundle_root_def layout_layout_def layout_at_def bundle_exact_def al e del: planes_end.simps)
qed

lemma tail_exact:
  assumes t: "ty_ok t" and ps: "\<forall>p\<in>set ps. ty_ok (fst p)" and fit: "planes_fit ps" and b: "bundle_exact b ps" and ne: "ps \<noteq> []"
  shows "case bundle_try_tail b t len of
      Inl _ \<Rightarrow> \<not> planes_fit (ps @ [(t, unat len)])
    | Inr b' \<Rightarrow> planes_fit (ps @ [(t, unat len)]) \<and> bundle_exact b' (ps @ [(t, unat len)])"
    "planes_fit (ps @ [(t, unat len)]) \<Longrightarrow> bundle_exact (bundle_tail b t len) (ps @ [(t, unat len)])"
proof -
  let ?ps = "ps @ [(t, unat len)]" and ?b = "bounds_extend t len (bounds_new (bn_layout b))"
  have al: "align_ok (ly_align (bn_layout b))" "unat (ly_align (bn_layout b)) = planes_align ps"
    and sz: "unat (ly_size (bn_layout b)) = planes_end ps 0"
    and off: "map unat (bn_offsets b) = tl (plane_starts ps 0)" using b by (auto simp: bundle_exact_def)
  have lt: "planes_end ps 0 < 2 ^ 63" using fit planes_fit_sum [OF ps] planes_align_pos [of ps] by simp
  have "exact (bounds_new (bn_layout b)) (planes_end ps 0) (planes_align ps)"
    using al sz lt by (simp add: exact_def bounds_new_def)
  from exact_extend [OF t this, of len]
  have e: "exact ?b (planes_end ?ps 0) (planes_align ?ps)" by (simp add: planes_end_append planes_align_snoc)
  have fits: "bounds_fits ?b \<longleftrightarrow> planes_fit ?ps" unfolding planes_fit_def by (rule exact_fits [OF e])
  have start: "plane_starts ?ps 0 = plane_starts ps 0 @ [round_up (planes_end ps 0) (unat (ty_align t))]"
    by (simp add: plane_starts_append)
  have "plane_starts ps 0 \<noteq> []" using ne by (cases ps rule: list.exhaust) auto
  then have starts: "tl (plane_starts ?ps 0) = map unat (bn_offsets b) @ [round_up (planes_end ps 0) (unat (ty_align t))]"
    unfolding start off by simp
  have offset: "unat (bd_offset ?b) = round_up (planes_end ps 0) (unat (ty_align t))"
    by (rule bounds_offset_exact [OF t]) (use sz lt in \<open>simp_all add: bounds_new_def\<close>)
  have exact: "planes_fit ?ps \<Longrightarrow> unat (bd_size ?b) = planes_end ?ps 0"
    using e planes_fit_sum [of ?ps] ps t planes_align_pos [of ?ps] by (force simp: exact_def)
  show "case bundle_try_tail b t len of
      Inl _ \<Rightarrow> \<not> planes_fit ?ps
    | Inr b' \<Rightarrow> planes_fit ?ps \<and> bundle_exact b' ?ps"
    using exact e fits starts offset
    by (simp add: bundle_try_tail_def layout_try_extend_def Let_def bundle_exact_def bounds_layout_def exact_def)
  show "bundle_exact (bundle_tail b t len) ?ps" if fit': "planes_fit ?ps"
  proof -
    have o1: "layout_offset t (ly_size (bn_layout b)) = bd_offset ?b"
      using unat_layout_offset [OF t, of "ly_size (bn_layout b)"] sz lt offset by (simp add: word_unat_eq_iff)
    have end': "planes_end ?ps 0 < 2 ^ 63" using fit' planes_fit_sum [of ?ps] ps t planes_align_pos [of ?ps] by simp
    have "unat (bd_offset ?b + ty_size t * len) = planes_end ?ps 0"
      using unat_plane_end [of "bd_offset ?b" "ty_size t" len] end' offset by (simp add: planes_end_append plane_end_def)
    moreover have "(if ty_align t < ly_align (bn_layout b) then ly_align (bn_layout b) else ty_align t) = bd_align ?b"
      using al ty_okD(1) [OF t] by (simp add: bounds_extend_def bounds_new_def Let_def)
    ultimately show ?thesis using e starts offset al
      by (simp add: bundle_tail_def layout_extend_def Let_def layout_at_def o1 bundle_exact_def exact_def)
  qed
qed

lemma recipe_exact:
  assumes "\<forall>p\<in>set (recipe_planes r). ty_ok (fst p)"
  shows "case recipe_try_build r of
      Inl _ \<Rightarrow> \<not> planes_fit (recipe_planes r)
    | Inr b \<Rightarrow> planes_fit (recipe_planes r) \<and> bundle_exact b (recipe_planes r) \<and> recipe_build r = b"
  using assms
proof (induction r)
  case (Root t len)
  then show ?case using root_exact [of t len] by (auto split: sum.splits intro: bundle_exact_eq)
next
  case (Tail r t len)
  have t: "ty_ok t" and ps: "\<forall>p\<in>set (recipe_planes r). ty_ok (fst p)" using Tail.prems by auto
  have ne: "recipe_planes r \<noteq> []" by (cases r) auto
  show ?case
  proof (cases "recipe_try_build r")
    case (Inl e)
    then show ?thesis using Tail.IH [OF ps] planes_fit_snoc [OF ps t] by auto
  next
    case (Inr b)
    then have b: "planes_fit (recipe_planes r)" "bundle_exact b (recipe_planes r)" "recipe_build r = b"
      using Tail.IH [OF ps] by auto
    from tail_exact [OF t ps b(1,2) ne, of len] show ?thesis
      by (auto simp: Inr b(3) split: sum.splits intro: bundle_exact_eq)
  qed
qed

section \<open>Properties\<close>

text \<open>C32: The saturating bounds decide a bundle exactly: it is refused if and only if the true
  extent of its four planes, padded to the largest alignment, exceeds \<open>isize::MAX\<close>, whatever the
  counts, and the layout of an admitted bundle has exactly that padded extent and alignment.\<close>

theorem bundle_layout_exact:
  assumes "shape_ok s"
  shows "bundle_try_layout s len tail_len =
    (let ps = shape_planes s (unat len) (unat tail_len) in
     if round_up (planes_end ps 0) (planes_align ps) \<le> 2 ^ 63 - 1
     then Inr \<lparr>ly_size = of_nat (round_up (planes_end ps 0) (planes_align ps)), ly_align = of_nat (planes_align ps)\<rparr>
     else Inl Overflow)"
proof (cases "planes_fit (shape_planes s (unat len) (unat tail_len))")
  case True
  define l where "l = pad_to_align (bounds_layout (bundle_bounds s len tail_len))"
  note b = bundle_layout(2) [OF assms True, folded l_def]
  have "l = \<lparr>ly_size = of_nat (unat (ly_size l)), ly_align = of_nat (unat (ly_align l))\<rparr>" by simp
  then show ?thesis using b True by (simp add: Let_def planes_fit_def unat_isize_max)
next
  case False
  then have "bundle_try_layout s len tail_len = Inl Overflow" by (simp add: bundle_layout(1) [OF assms])
  then show ?thesis using False by (simp add: Let_def planes_fit_def unat_isize_max)
qed

definition sample_shape :: shape where
  "sample_shape = \<lparr>sh_root = \<lparr>ty_size = 24, ty_align = 8\<rparr>, sh_tail = \<lparr>ty_size = 2, ty_align = 2\<rparr>,
     sh_extra = \<lparr>ty_size = 4, ty_align = 4\<rparr>, sh_last = \<lparr>ty_size = 0, ty_align = 1\<rparr>\<rparr>"

lemma sample_shape_ok: "shape_ok sample_shape"
proof -
  have "align_ok 8" "align_ok 4" "align_ok 2" "align_ok 1"
    unfolding align_ok_def
    by (rule image_eqI [of _ _ 3], simp, simp, rule image_eqI [of _ _ 2], simp, simp,
        rule image_eqI [of _ _ 1], simp, simp, rule image_eqI [of _ _ 0], simp, simp)
  then show ?thesis by (simp add: shape_ok_def ty_ok_def sample_shape_def isize_max_def)
qed

lemma bundle_layout_exact_witness:
  "bundle_try_layout sample_shape 5 5 = Inr \<lparr>ly_size = 152, ly_align = 8\<rparr> \<and>
   bundle_try_layout sample_shape (- 1) (- 1) = Inl Overflow"
  unfolding bundle_layout_exact [OF sample_shape_ok]
  by (simp add: Let_def shape_planes_def plane_end_def planes_align_def sample_shape_def round_up_def
      unsigned_minus_1_eq_mask mask_eq_exp_minus_1)

text \<open>C33: Once a bundle is admitted, the wrapping offsets recomputed from its counts describe the
  same allocation: the planes lie in order, each starts at its own alignment where the previous one
  has ended, the last one ends inside, and the layout is the admitted one.\<close>

theorem shape_planes_disjoint:
  assumes "shape_ok s" "bundle_try_layout s len tail_len = Inr l"
  shows "shape_layout s len tail_len = l
    \<and> unat (ty_align (sh_tail s)) dvd unat (shape_offset s len)
    \<and> unat (ty_align (sh_extra s)) dvd unat (shape_extra s len tail_len)
    \<and> unat (ty_align (sh_last s)) dvd unat (shape_last s len tail_len)
    \<and> unat (ty_size (sh_root s)) * unat len \<le> unat (shape_offset s len)
    \<and> unat (shape_offset s len) + unat (ty_size (sh_tail s)) * unat tail_len \<le> unat (shape_extra s len tail_len)
    \<and> unat (shape_extra s len tail_len) + unat (ty_size (sh_extra s)) * unat len \<le> unat (shape_last s len tail_len)
    \<and> unat (shape_last s len tail_len) + unat (ty_size (sh_last s)) * unat len \<le> unat (ly_size l)"
proof -
  let ?ps = "shape_planes s (unat len) (unat tail_len)" and ?b = "bundle_bounds s len tail_len"
  have fit: "planes_fit ?ps" using bundle_layout(1) [OF assms(1), of len tail_len] assms(2) by fastforce
  note b = bundle_layout(2) [OF assms(1) fit]
  have l: "l = pad_to_align (bounds_layout ?b)" using b assms(2) by simp
  note off = shape_offsets [OF assms(1) fit]
  have pos: "0 < unat (ty_align (sh_tail s))" "0 < unat (ty_align (sh_extra s))" "0 < unat (ty_align (sh_last s))"
    using assms(1) by (auto simp: shape_ok_def ty_okD(4))
  have "planes_end ?ps 0 \<le> unat (ly_size l)" unfolding l using b round_up_ge [OF planes_align_pos] by simp
  moreover have "shape_layout s len tail_len = l"
    unfolding l shape_layout_at [OF assms(1) fit, symmetric] by (simp add: shape_layout_def Let_def)
  ultimately show ?thesis using off pos by (simp add: round_up_ge)
qed

lemma shape_planes_disjoint_witness:
  "bundle_try_layout sample_shape 5 5 = Inr \<lparr>ly_size = 152, ly_align = 8\<rparr> \<and>
   shape_layout sample_shape 5 5 = \<lparr>ly_size = 152, ly_align = 8\<rparr> \<and> 120 \<le> unat (shape_offset sample_shape 5)"
proof -
  have l: "bundle_try_layout sample_shape 5 5 = Inr \<lparr>ly_size = 152, ly_align = 8\<rparr>"
    by (simp add: bundle_try_layout_def bundle_bounds_def sample_shape_def bounds_extend_def bounds_new_def Let_def
        nonzero_align_def saturating_add_def saturating_mul_def bounds_fits_def bounds_layout_def pad_to_align_def isize_max_def)
  then show ?thesis using shape_planes_disjoint [OF sample_shape_ok l] by (simp add: sample_shape_def)
qed

text \<open>A heap capacity is admitted exactly when the count fits the position word and the planes
  of that many rows fit one allocation; otherwise the error names the first plane that does not fit.
  The closed forms for one and two planes and the binary search for all of them are exact.\<close>

theorem capacity_try_new_exact:
  assumes "shape_ok s"
  shows "capacity_try_new s maximum count =
    (if unat maximum < unat count then Inl (Error_Capacity count maximum)
     else if \<not> planes_fit [(sh_root s, unat count)] then Inl (Error_Layout count Entries)
     else if \<not> planes_fit [(sh_root s, unat count), (sh_tail s, unat count)] then Inl (Error_Layout count Positions)
     else if \<not> planes_fit (shape_planes s (unat count) (unat count)) then Inl (Error_Layout count Residents)
     else Inr count)"
  unfolding rows_ROOT_MAX_exact [OF assms, symmetric] rows_MAX_exact [OF assms, symmetric]
    rows_EXTRA_MAX_exact [OF assms, symmetric]
  by (simp add: capacity_try_new_def word_less_nat_alt not_le)

lemma capacity_try_new_exact_witness:
  "capacity_try_new sample_shape 65534 70000 = Inl (Error_Capacity 70000 65534) \<and>
   capacity_try_new sample_shape (2 ^ 63) 400000000000000000 = Inl (Error_Layout 400000000000000000 Entries) \<and>
   capacity_try_new sample_shape (2 ^ 63) 384307168202282325 = Inl (Error_Layout 384307168202282325 Positions) \<and>
   capacity_try_new sample_shape (2 ^ 63) 320000000000000000 = Inl (Error_Layout 320000000000000000 Residents) \<and>
   capacity_try_new sample_shape 65534 1000 = Inr 1000"
  unfolding capacity_try_new_exact [OF sample_shape_ok]
  by (simp add: planes_fit_def shape_planes_def plane_end_def planes_align_def sample_shape_def round_up_def isize_max_def)

text \<open>A vector grows to a capacity that holds what is needed, at least doubles when it grows
  geometrically, and reports overflow exactly when the needed length or the target layout is not
  representable; the allocator alone decides the rest.\<close>

theorem vec_growth:
  assumes "ty_ok t"
  shows "vec_try_grow t geometric grant len cap extra =
    (if 2 ^ 64 \<le> unat len + unat extra then Inl Error_Overflow
     else if len + extra \<le> cap then Inr cap
     else let target = (if geometric then layout_reserve t cap (len + extra) else len + extra) in
       if 2 ^ 63 < unat (ty_size t) * unat target + unat (ty_align t) then Inl Error_Overflow
       else if ty_size t * target = 0 \<or> grant \<lparr>ly_size = ty_size t * target, ly_align = ty_align t\<rparr> then Inr target
       else Inl Error_Exhausted)
    \<and> (cap < needed \<longrightarrow> needed \<le> layout_reserve t cap needed
      \<and> min (2 * unat cap) (2 ^ 64 - 1) \<le> unat (layout_reserve t cap needed)
      \<and> unat (layout_reserve t cap needed) \<le> max (max (unat needed) (2 * unat cap)) 8)"
proof (rule conjI)
  note a = ty_okD [OF assms]
  have align: "unat (isize_max - (ty_align t - 1)) = 2 ^ 63 - unat (ty_align t)"
    using a(4,6) align_ok_bounds(4) [OF a(1)]
    by (intro unat_sub [THEN trans]) (simp_all add: word_le_nat_alt unat_isize_max)
  have lay: "layout_try_layout t n = (if 2 ^ 63 < unat (ty_size t) * unat n + unat (ty_align t) then Inl Overflow
      else Inr \<lparr>ly_size = ty_size t * n, ly_align = ty_align t\<rparr>)" for n
  proof -
    have "(unat (ty_size t) * unat n \<le> 2 ^ 63 - unat (ty_align t)) = (\<not> 2 ^ 63 < unat (ty_size t) * unat n + unat (ty_align t))"
      using a(6) by (simp; linarith)
    then show ?thesis by (simp only: layout_try_layout_def std_array_def align if_not_P option.case split: if_split) simp
  qed
  show "vec_try_grow t geometric grant len cap extra =
    (if 2 ^ 64 \<le> unat len + unat extra then Inl Error_Overflow
     else if len + extra \<le> cap then Inr cap
     else let target = (if geometric then layout_reserve t cap (len + extra) else len + extra) in
       if 2 ^ 63 < unat (ty_size t) * unat target + unat (ty_align t) then Inl Error_Overflow
       else if ty_size t * target = 0 \<or> grant \<lparr>ly_size = ty_size t * target, ly_align = ty_align t\<rparr> then Inr target
       else Inl Error_Exhausted)"
    by (simp add: vec_try_grow_def checked_add_def lay Let_def not_less)
  show "cap < needed \<longrightarrow> needed \<le> layout_reserve t cap needed
      \<and> min (2 * unat cap) (2 ^ 64 - 1) \<le> unat (layout_reserve t cap needed)
      \<and> unat (layout_reserve t cap needed) \<le> max (max (unat needed) (2 * unat cap)) 8"
    using unat_saturating_mul [of cap 2]
    by (auto simp: layout_reserve_def Let_def word_le_nat_alt word_less_nat_alt max_def min_def)
qed

lemma vec_growth_witness:
  "vec_try_grow \<lparr>ty_size = 24, ty_align = 8\<rparr> True (\<lambda>_. True) 4 4 1 = Inr 8 \<and>
   vec_try_grow \<lparr>ty_size = 24, ty_align = 8\<rparr> True (\<lambda>_. False) 0 0 1 = Inl Error_Exhausted \<and>
   vec_try_grow \<lparr>ty_size = 24, ty_align = 8\<rparr> False (\<lambda>_. True) 4 4 (- 1) = Inl Error_Overflow"
proof -
  have ok: "ty_ok \<lparr>ty_size = 24, ty_align = 8\<rparr>" using sample_shape_ok by (simp add: shape_ok_def sample_shape_def)
  show ?thesis
    unfolding vec_growth [OF ok, where needed = 0, THEN conjunct1]
    by (simp add: layout_reserve_def Let_def saturating_mul_def max_def unsigned_minus_1_eq_mask mask_eq_exp_minus_1)
qed

text \<open>The checked build of a field recipe succeeds exactly when its planes fit one allocation; its
  bundle then has the exact extent and alignment and every tail starts at its exact offset, and the
  unchecked build, which redoes the arithmetic without checks, gives the same bundle.\<close>

theorem recipe_build_exact:
  assumes "\<forall>p\<in>set (recipe_planes r). ty_ok (fst p)"
  shows "case recipe_try_build r of
      Inl _ \<Rightarrow> \<not> planes_fit (recipe_planes r)
    | Inr b \<Rightarrow> planes_fit (recipe_planes r) \<and> recipe_build r = b \<and>
        unat (ly_align (bn_layout b)) = planes_align (recipe_planes r) \<and>
        unat (ly_size (bn_layout b)) = planes_end (recipe_planes r) 0 \<and>
        map unat (bn_offsets b) = tl (plane_starts (recipe_planes r) 0)"
  using recipe_exact [OF assms] by (auto simp: bundle_exact_def split: sum.splits)

definition sample_recipe :: "usize \<Rightarrow> recipe" where
  "sample_recipe n = Tail (Tail (Root \<lparr>ty_size = 0, ty_align = 1\<rparr> n) \<lparr>ty_size = 24, ty_align = 8\<rparr> n) \<lparr>ty_size = 4, ty_align = 4\<rparr> n"

lemma recipe_build_exact_witness:
  "bn_offsets (recipe_build (sample_recipe 3)) = [0, 72] \<and> recipe_try_build (sample_recipe (- 1)) = Inl Overflow"
proof -
  have ok: "\<forall>p\<in>set (recipe_planes (sample_recipe n)). ty_ok (fst p)" for n
    using sample_shape_ok by (auto simp: sample_recipe_def shape_ok_def sample_shape_def)
  have "planes_fit (recipe_planes (sample_recipe 3))" "\<not> planes_fit (recipe_planes (sample_recipe (- 1)))"
    by (simp_all add: planes_fit_def plane_end_def planes_align_def sample_recipe_def round_up_def isize_max_def
        unsigned_minus_1_eq_mask mask_eq_exp_minus_1)
  moreover have "tl (plane_starts (recipe_planes (sample_recipe 3)) 0) = map unat [0 :: usize, 72]"
    by (simp add: plane_end_def sample_recipe_def round_up_def)
  moreover have "inj (unat :: usize \<Rightarrow> nat)" by (simp add: inj_def word_unat_eq_iff)
  ultimately show ?thesis
    using recipe_build_exact [OF ok, of 3] recipe_build_exact [OF ok, of "- 1"]
    by (auto split: sum.splits simp del: list.map dest: map_injective) (metis alloc_overflow.exhaust)+
qed

end
