(* ===== verification/O3_Map.thy ===== *)
theory O3_Map
  imports O3_Prelude
begin

text \<open>
  Scalar hash tables (src/src/depot/map/raw/mod.rs, raw/probe.rs, map/plan.rs, map/mod.rs):
  open addressing with linear probing over control, hash and payload planes, a scan that stops at
  the first vacant or matching bucket, and a removal that closes its hole by shifting back.

  The traits enter as dictionaries: a directory shows its bucket count and its buckets, a query
  projects values out of its owner, a mutation may shift. A loop the code leaves unbounded is a
  partial function into \<open>option\<close>, whose \<open>None\<close> is not returning.
\<close>

section \<open>Buckets\<close>

datatype candidate = Candidate_Occupied | Candidate_Vacant | Candidate_Skip

text \<open>An occupied bucket is one more than its index, a vacant one its index, both in 32 bits.\<close>

definition occupied_new :: "usize \<Rightarrow> u32" where
  "occupied_new index = ucast index + 1"

definition occupied_index :: "u32 \<Rightarrow> usize" where
  "occupied_index b = ucast b - 1"

definition vacant_new :: "usize \<Rightarrow> u32" where
  "vacant_new index = ucast index"

definition vacant_index :: "u32 \<Rightarrow> usize" where
  "vacant_index b = ucast b"

datatype probe_state = State_Occupied u32 | State_Vacant u32 | State_Full

datatype ('o, 'v) map_entry = Entry_Occupied 'o | Entry_Vacant 'v

record 'd directory =
  dir_buckets :: "'d \<Rightarrow> usize"
  dir_hash :: "'d \<Rightarrow> usize \<Rightarrow> u64 option"
  dir_candidate :: "'d \<Rightarrow> usize \<Rightarrow> u64 \<Rightarrow> candidate"

text \<open>The trait's default method.\<close>

definition directory_candidate :: "('d \<Rightarrow> usize \<Rightarrow> u64 option) \<Rightarrow> 'd \<Rightarrow> usize \<Rightarrow> u64 \<Rightarrow> candidate" where
  "directory_candidate hash_at d index hash = (case hash_at d index of
       None \<Rightarrow> Candidate_Vacant
     | Some actual \<Rightarrow> if actual = hash then Candidate_Occupied else Candidate_Skip)"

section \<open>Scans\<close>

record scan =
  sc_hash :: u64
  sc_index :: usize
  sc_left :: usize

definition scan_new :: "'d directory \<Rightarrow> 'd \<Rightarrow> u64 \<Rightarrow> scan" where
  "scan_new D table hash = \<lparr>sc_hash = hash, sc_index = hash AND (dir_buckets D table - 1), sc_left = dir_buckets D table\<rparr>"

definition scan_step :: "'d directory \<Rightarrow> 'd \<Rightarrow> scan \<Rightarrow> (u32, u32) map_entry option \<times> scan" where
  "scan_step D table sc =
     (let index = sc_index sc; kind = dir_candidate D table index (sc_hash sc) in
      if kind = Candidate_Vacant then (Some (Entry_Vacant (vacant_new index)), sc)
      else
        (if kind = Candidate_Occupied then Some (Entry_Occupied (occupied_new index)) else None,
         sc\<lparr>sc_index := (index + 1) AND (dir_buckets D table - 1)\<rparr>))"

lemma scan_step_left: "sc_left (snd (scan_step D table sc)) = sc_left sc"
  by (simp add: scan_step_def Let_def)

text \<open>\<open>Scan<_, false>::next\<close> visits every bucket at most once.\<close>

function scan_next_bounded :: "'d directory \<Rightarrow> 'd \<Rightarrow> scan \<Rightarrow> probe_state \<times> scan" where
  "scan_next_bounded D table sc =
     (if sc_left sc \<noteq> 0 then
        case scan_step D table (sc\<lparr>sc_left := sc_left sc - 1\<rparr>) of
          (Some (Entry_Occupied bucket), sc') \<Rightarrow> (State_Occupied bucket, sc')
        | (Some (Entry_Vacant bucket), sc') \<Rightarrow> (State_Vacant bucket, sc')
        | (None, sc') \<Rightarrow> scan_next_bounded D table sc'
      else (State_Full, sc))"
  by pat_completeness auto
termination
proof (relation "measure (\<lambda>(_, _, sc). unat (sc_left sc))", goal_cases)
  case (2 D table sc opt sc')
  then have "sc_left sc' = sc_left sc - 1"
    using scan_step_left [of D table "sc\<lparr>sc_left := sc_left sc - 1\<rparr>"] by (metis scan.select_convs(3) scan.surjective scan.update_convs(3) snd_conv)
  then show ?case using unat_pred [of "sc_left sc"] 2(1) by (simp add: unat_gt_0)
qed simp

declare scan_next_bounded.simps [simp del]

text \<open>\<open>Scan<_, true>::next\<close> relies on a vacant bucket to stop.\<close>

partial_function (option) scan_next_spare ::
  "'d directory \<Rightarrow> 'd \<Rightarrow> scan \<Rightarrow> ((u32, u32) map_entry \<times> scan) option" where
  "scan_next_spare D table sc = (case scan_step D table sc of
       (Some entry, sc') \<Rightarrow> Some (entry, sc')
     | (None, sc') \<Rightarrow> scan_next_spare D table sc')"

definition scan_next_state :: "'d directory \<Rightarrow> 'd \<Rightarrow> scan \<Rightarrow> (probe_state \<times> scan) option" where
  "scan_next_state D table sc = (case scan_next_spare D table sc of
       None \<Rightarrow> None
     | Some (Entry_Occupied bucket, sc') \<Rightarrow> Some (State_Occupied bucket, sc')
     | Some (Entry_Vacant bucket, sc') \<Rightarrow> Some (State_Vacant bucket, sc'))"

text \<open>Runs a matcher over the hash matches a scan yields.\<close>

partial_function (option) try_match ::
  "(u32 \<Rightarrow> 'e + bool) \<Rightarrow> ('s \<Rightarrow> (probe_state \<times> 's) option) \<Rightarrow> 's \<Rightarrow> ('e + probe_state) option" where
  "try_match matches step s = (case step s of
       None \<Rightarrow> None
     | Some (State_Occupied bucket, s') \<Rightarrow> (case matches bucket of
           Inl e \<Rightarrow> Some (Inl e)
         | Inr hit \<Rightarrow> if hit then Some (Inr (State_Occupied bucket)) else try_match matches step s')
     | Some (stop, s') \<Rightarrow> Some (Inr stop))"

definition raw_scan :: "'d directory \<Rightarrow> bool \<Rightarrow> 'd \<Rightarrow> u64 \<Rightarrow> (u32 \<Rightarrow> 'e + bool) \<Rightarrow> ('e + probe_state) option" where
  "raw_scan D SPARE owner hash matches =
     (if SPARE then
        if dir_buckets D owner = 0 then Some (Inr State_Full)
        else try_match matches (scan_next_state D owner) (scan_new D owner hash)
      else try_match matches (\<lambda>sc. Some (scan_next_bounded D owner sc)) (scan_new D owner hash))"

partial_function (option) member_from ::
  "'d directory \<Rightarrow> 'd \<Rightarrow> u64 \<Rightarrow> (u32 \<Rightarrow> bool) \<Rightarrow> usize \<Rightarrow> u32 option" where
  "member_from D owner hash matches index =
     (let current = index; next' = (index + 1) AND (dir_buckets D owner - 1) in
      if dir_candidate D owner current hash \<noteq> Candidate_Occupied then member_from D owner hash matches next'
      else
        let bucket = occupied_new current in
        if matches bucket then Some bucket else member_from D owner hash matches next')"

definition raw_member :: "'d directory \<Rightarrow> 'd \<Rightarrow> u64 \<Rightarrow> (u32 \<Rightarrow> bool) \<Rightarrow> u32 option" where
  "raw_member D owner hash matches = member_from D owner hash matches (hash AND (dir_buckets D owner - 1))"

section \<open>Closing a hole\<close>

text \<open>
  The nested loops of \<open>close\<close>: the inner one looks for the next bucket whose probe path crosses the
  hole, the outer one shifts it there and continues from the bucket it left.
\<close>

partial_function (option) close_from ::
  "'d directory \<Rightarrow> ('d \<Rightarrow> u32 \<Rightarrow> u32 \<Rightarrow> u64 \<Rightarrow> 'd) \<Rightarrow> usize \<Rightarrow> 'd \<Rightarrow> u32 \<Rightarrow> usize \<Rightarrow> 'd option" where
  "close_from D shift mask_bits owner hole index = (case dir_hash D owner index of
       None \<Rightarrow> Some owner
     | Some hash \<Rightarrow>
         let home = hash AND mask_bits in
         if (vacant_index hole - home) AND mask_bits < (index - home) AND mask_bits
         then close_from D shift mask_bits (shift owner hole (occupied_new index) hash) (vacant_new index)
                ((vacant_index (vacant_new index) + 1) AND mask_bits)
         else close_from D shift mask_bits owner hole ((index + 1) AND mask_bits))"

definition raw_close :: "'d directory \<Rightarrow> ('d \<Rightarrow> u32 \<Rightarrow> u32 \<Rightarrow> u64 \<Rightarrow> 'd) \<Rightarrow> 'd \<Rightarrow> u32 \<Rightarrow> 'd option" where
  "raw_close D shift owner hole =
     (let mask_bits = dir_buckets D owner - 1
      in close_from D shift mask_bits owner hole ((vacant_index hole + 1) AND mask_bits))"

section \<open>Plans\<close>

record plan =
  pl_capacity :: u32

definition plan_MAX :: usize where
  "plan_MAX = saturating_add 1 (push_bit 30 1 - 1)"

datatype map_capacity_error = Capacity_Error usize

definition plan_new :: "usize \<Rightarrow> map_capacity_error + plan" where
  "plan_new capacity =
     (if plan_MAX < capacity then Inl (Capacity_Error capacity) else Inr \<lparr>pl_capacity = ucast capacity\<rparr>)"

text \<open>\<open>usize::next_power_of_two\<close> shifts the all-ones word by the leading zeros of the predecessor.\<close>

fun bit_length :: "nat \<Rightarrow> nat" where
  "bit_length n = (if n = 0 then 0 else Suc (bit_length (n div 2)))"

declare bit_length.simps [simp del]

definition leading_zeros :: "usize \<Rightarrow> nat" where
  "leading_zeros v = 64 - bit_length (unat v)"

definition next_power_of_two :: "usize \<Rightarrow> usize" where
  "next_power_of_two v = (if v \<le> 1 then 0 else drop_bit (leading_zeros (v - 1)) (- 1)) + 1"

definition plan_buckets :: "plan \<Rightarrow> usize" where
  "plan_buckets pl =
     (let capacity = ucast (pl_capacity pl) :: usize in
      if capacity = 0 then 0 else next_power_of_two (capacity * 2))"

section \<open>Tables\<close>

text \<open>A word or payload that was never written is \<open>None\<close>; removal leaves the stale bits behind.\<close>

record 'p table =
  tb_controls :: "u8 list"
  tb_hashes :: "u64 option list"
  tb_payloads :: "'p option list"
  tb_buckets :: usize

definition EMPTY :: u8 where
  "EMPTY = push_bit 7 1"

definition table_from_fields :: "usize \<Rightarrow> 'p table" where
  "table_from_fields buckets =
     \<lparr>tb_controls = replicate (unat buckets) EMPTY, tb_hashes = replicate (unat buckets) None,
      tb_payloads = replicate (unat buckets) None, tb_buckets = buckets\<rparr>"

definition table_is_occupied :: "'p table \<Rightarrow> usize \<Rightarrow> bool" where
  "table_is_occupied t index \<longleftrightarrow> tb_controls t ! unat index \<noteq> EMPTY"

definition table_payload :: "'p table \<Rightarrow> u32 \<Rightarrow> 'p" where
  "table_payload t bucket = the (tb_payloads t ! unat (occupied_index bucket))"

definition table_values :: "'p table \<Rightarrow> 'p list" where
  "table_values t = List.map_filter
     (\<lambda>index. if \<not> table_is_occupied t index then None else Some (table_payload t (occupied_new index)))
     (map of_nat [0..<unat (tb_buckets t)])"

definition table_payload_set :: "'p table \<Rightarrow> u32 \<Rightarrow> 'p \<Rightarrow> 'p table" where
  "table_payload_set t bucket p = t\<lparr>tb_payloads := (tb_payloads t)[unat (occupied_index bucket) := Some p]\<rparr>"

fun table_clear_from :: "nat \<Rightarrow> 'p table \<Rightarrow> 'p table" where
  "table_clear_from 0 t = t"
| "table_clear_from (Suc left) t =
     (let index = tb_buckets t - of_nat (Suc left) in
      if \<not> table_is_occupied t index then table_clear_from left t
      else table_clear_from left (t\<lparr>tb_controls := (tb_controls t)[unat index := EMPTY],
        tb_payloads := (tb_payloads t)[unat index := None]\<rparr>))"

text \<open>\<open>DROP\<close> is \<open>needs_drop::<P>()\<close>; dropping a payload in place ends its life.\<close>

definition table_clear :: "bool \<Rightarrow> 'p table \<Rightarrow> 'p table" where
  "table_clear DROP t =
     (if \<not> DROP then t\<lparr>tb_controls := replicate (unat (tb_buckets t)) EMPTY\<rparr>
      else table_clear_from (unat (tb_buckets t)) t)"

definition table_insert :: "'p table \<Rightarrow> u32 \<Rightarrow> u64 \<Rightarrow> 'p \<Rightarrow> 'p table" where
  "table_insert t bucket hash payload =
     (let index = unat (vacant_index bucket) in
      t\<lparr>tb_hashes := (tb_hashes t)[index := Some hash],
        tb_payloads := (tb_payloads t)[index := Some payload],
        tb_controls := (tb_controls t)[index := ucast (drop_bit 57 hash)]\<rparr>)"

definition table_shift :: "'p table \<Rightarrow> u32 \<Rightarrow> u32 \<Rightarrow> u64 \<Rightarrow> 'p table" where
  "table_shift t hole next' hash =
     (let hole = unat (vacant_index hole); next' = unat (occupied_index next');
          controls = (tb_controls t)[hole := tb_controls t ! next'] in
      t\<lparr>tb_hashes := (tb_hashes t)[hole := Some hash],
        tb_payloads := (tb_payloads t)[hole := tb_payloads t ! next'],
        tb_controls := controls[next' := EMPTY]\<rparr>)"

definition table_hash :: "'p table \<Rightarrow> usize \<Rightarrow> u64 option" where
  "table_hash t index =
     (if tb_controls t ! unat index = push_bit 7 1 then None else Some (the (tb_hashes t ! unat index)))"

definition table_candidate :: "'p table \<Rightarrow> usize \<Rightarrow> u64 \<Rightarrow> candidate" where
  "table_candidate t index hash =
     (let control = tb_controls t ! unat index in
      if control = push_bit 7 1 then Candidate_Vacant
      else if control = ucast (drop_bit 57 hash) \<and> the (tb_hashes t ! unat index) = hash then Candidate_Occupied
      else Candidate_Skip)"

definition table_directory :: "'p table directory" where
  "table_directory = \<lparr>dir_buckets = tb_buckets, dir_hash = table_hash, dir_candidate = table_candidate\<rparr>"

section \<open>Queries and probes\<close>

record ('q, 'p, 'v, 'o) query =
  qr_SPARE :: bool
  qr_table :: "'q \<Rightarrow> 'p table"
  qr_value :: "'q \<Rightarrow> u32 \<Rightarrow> 'v"
  qr_occupied :: "'q \<Rightarrow> u32 \<Rightarrow> 'o"

text \<open>A found bucket and a vacancy retain their owner.\<close>

record 'q found =
  fd_owner :: 'q
  fd_bucket :: u32

record ('q, 's) vacancy =
  vc_owner :: 'q
  vc_bucket :: u32
  vc_phase :: 's

definition vacancy_with_phase :: "('q, 's) vacancy \<Rightarrow> 't \<Rightarrow> ('q, 't) vacancy" where
  "vacancy_with_phase v phase = \<lparr>vc_owner = vc_owner v, vc_bucket = vc_bucket v, vc_phase = phase\<rparr>"

record 'q probe =
  pr_owner :: 'q
  pr_state :: probe_state
  pr_hash :: u64

partial_function (option) vacant_from :: "'p table \<Rightarrow> scan \<Rightarrow> u32 option" where
  "vacant_from t sc = (case scan_next_spare table_directory t sc of
       None \<Rightarrow> None
     | Some (Entry_Vacant bucket, sc') \<Rightarrow> Some bucket
     | Some (Entry_Occupied bucket, sc') \<Rightarrow> vacant_from t sc')"

definition probe_vacant :: "('q, 'p, 'v, 'o) query \<Rightarrow> 'q \<Rightarrow> u64 \<Rightarrow> ('q, u64) vacancy option" where
  "probe_vacant Q owner hash = (case vacant_from (qr_table Q owner) (scan_new table_directory (qr_table Q owner) hash) of
       None \<Rightarrow> None
     | Some bucket \<Rightarrow> Some \<lparr>vc_owner = owner, vc_bucket = bucket, vc_phase = hash\<rparr>)"

partial_function (option) spare_from ::
  "('q, 'p, 'v, 'o) query \<Rightarrow> 'q \<Rightarrow> u64 \<Rightarrow> ('v \<Rightarrow> bool) \<Rightarrow> scan \<Rightarrow> ('o + ('q, u64) vacancy) option" where
  "spare_from Q owner hash matches sc = (case scan_next_spare table_directory (qr_table Q owner) sc of
       None \<Rightarrow> None
     | Some (Entry_Vacant bucket, sc') \<Rightarrow> Some (Inr \<lparr>vc_owner = owner, vc_bucket = bucket, vc_phase = hash\<rparr>)
     | Some (Entry_Occupied bucket, sc') \<Rightarrow>
         if matches (qr_value Q owner bucket) then Some (Inl (qr_occupied Q owner bucket))
         else spare_from Q owner hash matches sc')"

definition probe_spare ::
  "('q, 'p, 'v, 'o) query \<Rightarrow> 'q \<Rightarrow> u64 \<Rightarrow> ('v \<Rightarrow> bool) \<Rightarrow> ('o + ('q, u64) vacancy) option" where
  "probe_spare Q owner hash matches =
     spare_from Q owner hash matches (scan_new table_directory (qr_table Q owner) hash)"

definition probe_member :: "('q, 'p, 'v, 'o) query \<Rightarrow> 'q \<Rightarrow> u64 \<Rightarrow> ('v \<Rightarrow> bool) \<Rightarrow> 'q found option" where
  "probe_member Q owner hash matches =
     (case raw_member table_directory (qr_table Q owner) hash (\<lambda>bucket. matches (qr_value Q owner bucket)) of
        None \<Rightarrow> None
      | Some bucket \<Rightarrow> Some \<lparr>fd_owner = owner, fd_bucket = bucket\<rparr>)"

definition probe_try_scan ::
  "('q, 'p, 'v, 'o) query \<Rightarrow> 'q \<Rightarrow> u64 \<Rightarrow> ('v \<Rightarrow> 'e + bool) \<Rightarrow> ('e + probe_state) option" where
  "probe_try_scan Q owner hash matches =
     raw_scan table_directory (qr_SPARE Q) (qr_table Q owner) hash (\<lambda>bucket. matches (qr_value Q owner bucket))"

text \<open>The infallible scan instantiates the error with \<open>Infallible\<close>, which has no value.\<close>

definition probe_scan :: "('q, 'p, 'v, 'o) query \<Rightarrow> 'q \<Rightarrow> u64 \<Rightarrow> ('v \<Rightarrow> bool) \<Rightarrow> probe_state option" where
  "probe_scan Q owner hash matches =
     (case probe_try_scan Q owner hash (\<lambda>value. Inr (matches value) :: unit + bool) of
        None \<Rightarrow> None
      | Some (Inr state) \<Rightarrow> Some state
      | Some (Inl _) \<Rightarrow> None)"

definition probe_new :: "('q, 'p, 'v, 'o) query \<Rightarrow> 'q \<Rightarrow> u64 \<Rightarrow> ('v \<Rightarrow> bool) \<Rightarrow> 'q probe option" where
  "probe_new Q owner hash matches = (case probe_scan Q owner hash matches of
       None \<Rightarrow> None
     | Some state \<Rightarrow> Some \<lparr>pr_owner = owner, pr_state = state, pr_hash = hash\<rparr>)"

definition probe_try_new ::
  "('q, 'p, 'v, 'o) query \<Rightarrow> 'q \<Rightarrow> u64 \<Rightarrow> ('v \<Rightarrow> 'e + bool) \<Rightarrow> ('e + 'q probe) option" where
  "probe_try_new Q owner hash matches = (case probe_try_scan Q owner hash matches of
       None \<Rightarrow> None
     | Some (Inl e) \<Rightarrow> Some (Inl e)
     | Some (Inr state) \<Rightarrow> Some (Inr \<lparr>pr_owner = owner, pr_state = state, pr_hash = hash\<rparr>))"

definition probe_find :: "('q, 'p, 'v, 'o) query \<Rightarrow> 'q \<Rightarrow> u64 \<Rightarrow> ('v \<Rightarrow> bool) \<Rightarrow> 'o option option" where
  "probe_find Q owner hash matches = (case probe_scan Q owner hash matches of
       None \<Rightarrow> None
     | Some (State_Occupied bucket) \<Rightarrow> Some (Some (qr_occupied Q owner bucket))
     | Some _ \<Rightarrow> Some None)"

definition probe_try_find ::
  "('q, 'p, 'v, 'o) query \<Rightarrow> 'q \<Rightarrow> u64 \<Rightarrow> ('v \<Rightarrow> 'e + bool) \<Rightarrow> ('e + 'o option) option" where
  "probe_try_find Q owner hash matches = (case probe_try_scan Q owner hash matches of
       None \<Rightarrow> None
     | Some (Inl e) \<Rightarrow> Some (Inl e)
     | Some (Inr (State_Occupied bucket)) \<Rightarrow> Some (Inr (Some (qr_occupied Q owner bucket)))
     | Some (Inr _) \<Rightarrow> Some (Inr None))"

text \<open>\<open>vacant\<close> is the insertion trait's method.\<close>

definition probe_entry ::
  "('q, 'p, 'v, 'o) query \<Rightarrow> (('q, unit) vacancy \<Rightarrow> u64 \<Rightarrow> 'w option) \<Rightarrow> 'q probe \<Rightarrow> ('o, 'w option) map_entry" where
  "probe_entry Q vacant p = (case pr_state p of
       State_Occupied bucket \<Rightarrow> Entry_Occupied (qr_occupied Q (pr_owner p) bucket)
     | State_Vacant bucket \<Rightarrow>
         Entry_Vacant (vacant \<lparr>vc_owner = pr_owner p, vc_bucket = bucket, vc_phase = ()\<rparr> (pr_hash p))
     | State_Full \<Rightarrow> Entry_Vacant None)"

definition probe_reserve ::
  "('q, 'p, 'v, 'o) query \<Rightarrow> (('q, unit) vacancy \<Rightarrow> u64 \<Rightarrow> 'w option) \<Rightarrow> 'q \<Rightarrow> u64 \<Rightarrow> ('v \<Rightarrow> bool)
    \<Rightarrow> (unit, 'w option) map_entry option" where
  "probe_reserve Q vacant owner hash matches = (case probe_scan Q owner hash matches of
       None \<Rightarrow> None
     | Some (State_Occupied _) \<Rightarrow> Some (Entry_Occupied ())
     | Some (State_Vacant bucket) \<Rightarrow>
         Some (Entry_Vacant (vacant \<lparr>vc_owner = owner, vc_bucket = bucket, vc_phase = ()\<rparr> hash))
     | Some State_Full \<Rightarrow> Some (Entry_Vacant None))"

section \<open>Holes\<close>

record ('q, 'p) mutation =
  mu_table :: "'q \<Rightarrow> 'p table"
  mu_set_table :: "'q \<Rightarrow> 'p table \<Rightarrow> 'q"
  mu_shift :: "'q \<Rightarrow> u32 \<Rightarrow> u32 \<Rightarrow> u64 \<Rightarrow> 'q"

text \<open>A hole reads its owner's buckets with the trait's default candidate.\<close>

definition hole_directory :: "('q, 'p) mutation \<Rightarrow> 'q directory" where
  "hole_directory M = \<lparr>dir_buckets = \<lambda>owner. tb_buckets (mu_table M owner),
     dir_hash = \<lambda>owner. table_hash (mu_table M owner),
     dir_candidate = directory_candidate (\<lambda>owner. table_hash (mu_table M owner))\<rparr>"

definition hole_close :: "('q, 'p) mutation \<Rightarrow> 'q \<Rightarrow> u32 \<Rightarrow> 'q option" where
  "hole_close M owner bucket =
     (let index = occupied_index bucket; table = mu_table M owner;
          owner = mu_set_table M owner (table\<lparr>tb_controls := (tb_controls table)[unat index := EMPTY]\<rparr>)
      in raw_close (hole_directory M) (mu_shift M) owner (vacant_new index))"

definition hole_take :: "('q, 'p) mutation \<Rightarrow> 'q \<Rightarrow> u32 \<Rightarrow> ('p \<times> 'q) option" where
  "hole_take M owner bucket =
     (let payload = the (tb_payloads (mu_table M owner) ! unat (occupied_index bucket)) in
      case hole_close M owner bucket of None \<Rightarrow> None | Some owner' \<Rightarrow> Some (payload, owner'))"

definition hole_retire :: "('q, 'p) mutation \<Rightarrow> 'q \<Rightarrow> u32 \<Rightarrow> 'q option" where
  "hole_retire M owner bucket = hole_close M owner bucket"

end
