(* ===== verification/O3_Map_Probe.thy ===== *)
theory O3_Map_Probe
  imports O3_Map "HOL-Library.Multiset"
begin

text \<open>
  Linear probing on the natural numbers: distances around the cycle of buckets, the invariant that
  every bucket between an entry's home and the entry is occupied, and what closing a hole does to
  it. The last section relates masked word arithmetic to these distances.
\<close>

section \<open>Distances on a cycle\<close>

definition dist :: "nat \<Rightarrow> nat \<Rightarrow> nat \<Rightarrow> nat" where
  "dist n a b = (b + n - a) mod n"

lemma dist_less: "0 < n \<Longrightarrow> dist n a b < n"
  by (simp add: dist_def)

lemma dist_eq: "a < n \<Longrightarrow> b < n \<Longrightarrow> dist n a b = (if a \<le> b then b - a else b + n - a)"
  by (auto simp: dist_def mod_if)

lemma add_dist: "a < n \<Longrightarrow> b < n \<Longrightarrow> (a + dist n a b) mod n = b"
  by (simp add: dist_eq)

lemma add_mod: "a < n \<Longrightarrow> e < n \<Longrightarrow> (a + e) mod n = (if a + e < n then a + e else a + e - n)" for n :: nat
  by (simp add: le_mod_geq)

lemma dist_add: "a < n \<Longrightarrow> e < n \<Longrightarrow> dist n a ((a + e) mod n) = e"
  by (auto simp: add_mod dist_eq)

lemma dist_inj: "a < n \<Longrightarrow> b < n \<Longrightarrow> c < n \<Longrightarrow> dist n a b = dist n a c \<longleftrightarrow> b = c"
  by (metis add_dist)

lemma dist_zero: "a < n \<Longrightarrow> b < n \<Longrightarrow> dist n a b = 0 \<longleftrightarrow> a = b"
  by (auto simp: dist_eq)

lemma dist_step: "a < n \<Longrightarrow> b < n \<Longrightarrow> a \<noteq> b \<Longrightarrow> dist n ((a + 1) mod n) b = dist n a b - 1"
  by (auto simp: dist_eq mod_if)

lemma dist_stop: "a < n \<Longrightarrow> b < n \<Longrightarrow> dist n a b + 1 < n \<Longrightarrow> dist n a ((b + 1) mod n) = dist n a b + 1"
  by (auto simp: dist_eq mod_if split: if_splits)

lemma dist_between:
  "a < n \<Longrightarrow> g < n \<Longrightarrow> i < n \<Longrightarrow> dist n a g < dist n a i \<Longrightarrow> dist n a i = dist n a g + dist n g i"
  by (auto simp: dist_eq split: if_splits)

lemma dist_path:
  "a < n \<Longrightarrow> g < n \<Longrightarrow> j < n \<Longrightarrow> (a + (dist n a g + dist n g j)) mod n = j"
  by (metis add.assoc add_dist mod_add_left_eq)

section \<open>The probe invariant\<close>

type_synonym 'p buckets = "nat \<Rightarrow> (u64 \<times> 'p) option"

definition home :: "nat \<Rightarrow> u64 \<Rightarrow> nat" where
  "home n hash = unat hash mod n"

lemma home_less: "0 < n \<Longrightarrow> home n h < n"
  by (simp add: home_def)

text \<open>Every bucket from the home of an entry up to the entry is occupied, \<open>gap\<close> excepted.\<close>

definition reach_except :: "nat \<Rightarrow> 'p buckets \<Rightarrow> nat set \<Rightarrow> bool" where
  "reach_except n ent gap \<longleftrightarrow> (\<forall>i<n. \<forall>h p. ent i = Some (h, p) \<longrightarrow>
     (\<forall>e < dist n (home n h) i. (home n h + e) mod n \<in> gap \<or> ent ((home n h + e) mod n) \<noteq> None))"

abbreviation reach :: "nat \<Rightarrow> 'p buckets \<Rightarrow> bool" where
  "reach n ent \<equiv> reach_except n ent {}"

lemma reach_exceptD:
  assumes "reach_except n ent gap" "ent i = Some (h, p)" "i < n" "e < dist n (home n h) i"
  shows "(home n h + e) mod n \<in> gap \<or> ent ((home n h + e) mod n) \<noteq> None"
  using assms by (auto simp: reach_except_def)

lemma reach_vacate: "reach n ent \<Longrightarrow> reach_except n (ent(g := None)) {g}"
  by (auto simp: reach_except_def)

lemma reach_clear: "reach n (\<lambda>_. None)"
  by (simp add: reach_except_def)

lemma reach_fill:
  assumes "reach n ent" "v < n" "\<And>e. e < dist n (home n h) v \<Longrightarrow> ent ((home n h + e) mod n) \<noteq> None"
  shows "reach n (ent(v \<mapsto> (h, p)))"
  unfolding reach_except_def
proof (intro allI impI)
  fix i h' p' e
  assume i: "i < n" "(ent(v \<mapsto> (h, p))) i = Some (h', p')" "e < dist n (home n h') i"
  show "(home n h' + e) mod n \<in> {} \<or> (ent(v \<mapsto> (h, p))) ((home n h' + e) mod n) \<noteq> None"
  proof (cases "i = v")
    case True
    then show ?thesis using i assms(3) by auto
  next
    case False
    then have "ent i = Some (h', p')" using i(2) by simp
    then show ?thesis using reach_exceptD [OF assms(1) _ i(1,3)] by auto
  qed
qed

lemma reach_set:
  assumes "reach_except n ent gap" "ent i = Some (h, p)"
  shows "reach_except n (ent(i \<mapsto> (h, p'))) gap"
  unfolding reach_except_def
proof (intro allI impI)
  fix j h' q e
  assume j: "j < n" "(ent(i \<mapsto> (h, p'))) j = Some (h', q)" "e < dist n (home n h') j"
  obtain q' where "ent j = Some (h', q')" using j(2) assms(2) by (cases "j = i") auto
  from reach_exceptD [OF assms(1) this j(1,3)]
  show "(home n h' + e) mod n \<in> gap \<or> (ent(i \<mapsto> (h, p'))) ((home n h' + e) mod n) \<noteq> None" by auto
qed

section \<open>Closing a hole\<close>

text \<open>
  The hole is at \<open>g\<close>, the scan has reached \<open>j\<close>; the buckets between them are occupied by entries
  whose path does not cross the hole.
\<close>

definition closing :: "nat \<Rightarrow> 'p buckets \<Rightarrow> nat \<Rightarrow> nat \<Rightarrow> bool" where
  "closing n ent g j \<longleftrightarrow> g < n \<and> j < n \<and> g \<noteq> j \<and> ent g = None \<and> reach_except n ent {g} \<and>
     (\<forall>i<n. 0 < dist n g i \<and> dist n g i < dist n g j \<longrightarrow>
        (\<exists>h p. ent i = Some (h, p) \<and> \<not> dist n (home n h) g < dist n (home n h) i))"

lemma closing_start:
  assumes "g < n" "1 < n" "ent g = None" "reach_except n ent {g}"
  shows "closing n ent g ((g + 1) mod n)"
proof -
  have "dist n g ((g + 1) mod n) = 1" using assms by (intro dist_add) auto
  moreover have "g \<noteq> (g + 1) mod n" using assms by (auto simp: mod_if)
  ultimately show ?thesis using assms by (auto simp: closing_def)
qed

lemma closing_finish:
  assumes c: "closing n ent g j" and vacant: "ent j = None"
  shows "reach n ent"
  unfolding reach_except_def
proof (intro allI impI)
  fix i h p e
  assume i: "i < n" "ent i = Some (h, p)" "e < dist n (home n h) i"
  have g: "g < n" "j < n" "g \<noteq> j" "reach_except n ent {g}" using c by (auto simp: closing_def)
  then have a: "home n h < n" by (intro home_less) simp
  show "(home n h + e) mod n \<in> {} \<or> ent ((home n h + e) mod n) \<noteq> None"
  proof (cases "(home n h + e) mod n = g")
    case False
    then show ?thesis using reach_exceptD [OF g(4) i(2,1,3)] by simp
  next
    case True
    have "e < n" using i(3) dist_less [of n "home n h" i] g(1) by linarith
    then have e: "dist n (home n h) g = e" using dist_add [OF a] True by metis
    then have split: "dist n (home n h) i = dist n (home n h) g + dist n g i"
      using i(3) by (intro dist_between [OF a g(1) i(1)]) simp
    have "i \<noteq> j" using i(2) vacant by auto
    then have "dist n g i \<noteq> dist n g j" using dist_inj [OF g(1) i(1) g(2)] by simp
    moreover have "\<not> dist n g j < dist n g i"
    proof
      assume lt: "dist n g j < dist n g i"
      then have "dist n (home n h) g + dist n g j < dist n (home n h) i" using split by simp
      from reach_exceptD [OF g(4) i(2,1) this] dist_path [OF a g(1,2)] g(3) vacant show False by simp
    qed
    ultimately have lt: "dist n g i < dist n g j" by linarith
    have "0 < dist n g i" using split i(3) e by simp
    then have "\<not> dist n (home n h) g < dist n (home n h) i"
      using c lt i(1,2) by (auto simp: closing_def)
    then show ?thesis using e i(3) by simp
  qed
qed

lemma closing_skip:
  assumes c: "closing n ent g j" and j: "ent j = Some (h, p)" and no: "\<not> dist n (home n h) g < dist n (home n h) j"
    and v: "v < n" "v \<noteq> g" "ent v = None"
  shows "closing n ent g ((j + 1) mod n)" "dist n ((j + 1) mod n) v < dist n j v"
proof -
  have g: "g < n" "j < n" "g \<noteq> j" using c by (auto simp: closing_def)
  have jv: "j \<noteq> v" using j v by auto
  have step: "dist n ((j + 1) mod n) v = dist n j v - 1" by (rule dist_step [OF g(2) v(1) jv])
  have pos: "0 < dist n j v" using dist_zero [OF g(2) v(1)] jv by auto
  then show "dist n ((j + 1) mod n) v < dist n j v" using step by simp
  have lv: "dist n g j < dist n g v"
  proof (rule ccontr)
    assume "\<not> ?thesis"
    moreover have "dist n g j \<noteq> dist n g v" using dist_inj [OF g(1,2) v(1)] jv by simp
    moreover have "0 < dist n g v" using dist_zero [OF g(1) v(1)] v(2) by auto
    ultimately show False using c v by (auto simp: closing_def)
  qed
  then have "dist n g j + 1 < n" using dist_less [of n g v] v(1) by linarith
  then have next': "dist n g ((j + 1) mod n) = dist n g j + 1" by (rule dist_stop [OF g(1,2)])
  have "g \<noteq> (j + 1) mod n" using next' dist_zero [OF g(1), of "(j + 1) mod n"] g(1) by auto
  moreover have "\<exists>h p. ent i = Some (h, p) \<and> \<not> dist n (home n h) g < dist n (home n h) i"
    if "i < n" "0 < dist n g i" "dist n g i < dist n g j + 1" for i
  proof (cases "i = j")
    case True
    then show ?thesis using j no by blast
  next
    case False
    then have "dist n g i < dist n g j" using dist_inj [OF g(1) that(1) g(2)] that(3) by linarith
    then show ?thesis using c that by (auto simp: closing_def)
  qed
  ultimately show "closing n ent g ((j + 1) mod n)" using c g next' by (auto simp: closing_def)
qed

lemma closing_shift:
  assumes c: "closing n ent g j" and j: "ent j = Some (h, p)" and yes: "dist n (home n h) g < dist n (home n h) j"
    and v: "v < n" "v \<noteq> g" "ent v = None"
  shows "closing n (ent(g := ent j, j := None)) j ((j + 1) mod n)" "dist n ((j + 1) mod n) v < dist n j v"
    "v \<noteq> j" "(ent(g := ent j, j := None)) v = None"
proof -
  let ?ent = "ent(g := ent j, j := None)"
  have g: "g < n" "j < n" "g \<noteq> j" "reach_except n ent {g}" using c by (auto simp: closing_def)
  have a: "home n h' < n" for h' using g(1) by (intro home_less) simp
  show jv: "v \<noteq> j" using j v by auto
  show "?ent v = None" using v jv by simp
  have step: "dist n ((j + 1) mod n) v = dist n j v - 1" using jv by (intro dist_step g(2) v(1)) simp
  have "0 < dist n j v" using dist_zero [OF g(2) v(1)] jv by auto
  then show "dist n ((j + 1) mod n) v < dist n j v" using step by simp
  have "reach_except n ?ent {j}"
    unfolding reach_except_def
  proof (intro allI impI)
    fix i h' p' e
    assume i: "i < n" "?ent i = Some (h', p')" "e < dist n (home n h') i"
    then have ij: "i \<noteq> j" by auto
    show "(home n h' + e) mod n \<in> {j} \<or> ?ent ((home n h' + e) mod n) \<noteq> None"
    proof (cases "i = g")
      case True
      then have hp: "h' = h" "p' = p" using i(2) j g(3) by auto
      then have e: "e < dist n (home n h) j" "e < dist n (home n h) g" using i(3) True yes by auto
      have "e < n" using e(1) dist_less [of n "home n h" j] g(1) by linarith
      then have "(home n h + e) mod n \<noteq> g" using dist_add [OF a, of e h] e(2) by auto
      then show ?thesis using reach_exceptD [OF g(4) j g(2) e(1)] hp by auto
    next
      case False
      then have "ent i = Some (h', p')" using i(2) ij by simp
      from reach_exceptD [OF g(4) this i(1,3)] show ?thesis using j by auto
    qed
  qed
  moreover have "1 < n" using v g by linarith
  ultimately show "closing n ?ent j ((j + 1) mod n)" using g by (intro closing_start) auto
qed

end
