(* ===== verification/O3_Map_Scan.thy ===== *)
theory O3_Map_Scan
  imports O3_Map_Probe
begin

text \<open>
  Scans and hole closing over any directory: the locale \<open>directory\<close> states what a directory shows
  of its buckets, and in it every scan is the walk along the probe path; \<open>shiftable\<close> adds the laws
  of a shift, and in it closing a hole restores the probe invariant.
\<close>

section \<open>Masked indices\<close>

definition extent_ok :: "usize \<Rightarrow> bool" where
  "extent_ok n \<longleftrightarrow> unat n \<in> (\<lambda>k. 2 ^ k) ` {..31}"

lemma extent_okE:
  assumes "extent_ok n"
  obtains k where "k \<le> 31" "unat n = 2 ^ k" "n - 1 = mask k"
proof -
  obtain k where k: "k \<le> 31" "unat n = 2 ^ k" using assms by (auto simp: extent_ok_def)
  have "n = of_nat (unat n)" by simp
  then have "n = 2 ^ k" unfolding k(2) by simp
  then show ?thesis using that k by (simp add: mask_eq_exp_minus_1)
qed

lemma extent_bounds:
  assumes "extent_ok n"
  shows "0 < unat n" "unat n \<le> 2 ^ 31" "n \<noteq> 0"
proof -
  obtain k where k: "k \<le> 31" "unat n = 2 ^ k" using assms by (rule extent_okE)
  show "0 < unat n" using k by simp
  then show "n \<noteq> 0" by auto
  show "unat n \<le> 2 ^ 31" unfolding k(2) using k(1) by (rule power_increasing) simp
qed

lemma unat_and_extent:
  assumes "extent_ok n"
  shows "unat (x AND (n - 1)) = unat x mod unat n"
proof -
  obtain k where k: "unat n = 2 ^ k" "n - 1 = mask k" using assms by (rule extent_okE)
  have "unat (take_bit k x) = take_bit k (unat x)" by (rule unsigned_take_bit_eq)
  then show ?thesis unfolding k by (simp add: take_bit_eq_mask [symmetric] take_bit_eq_mod del: unsigned_take_bit_eq)
qed

lemma unat_index [simp]: "p \<le> 2 ^ 31 \<Longrightarrow> unat (of_nat p :: usize) = p"
  by (rule unat_of_nat_fits) simp

lemma and_extent_step:
  assumes "extent_ok n" "p < unat n"
  shows "(of_nat p + 1) AND (n - 1) = of_nat ((p + 1) mod unat n)"
proof -
  have "p + 1 \<le> 2 ^ 31" using assms extent_bounds(2) [OF assms(1)] by linarith
  then have "unat ((of_nat p + 1) AND (n - 1)) = (p + 1) mod unat n"
    using unat_and_extent [OF assms(1), of "of_nat (p + 1)"] unat_index [of "p + 1"] by (simp add: add.commute)
  moreover have "(p + 1) mod unat n < unat n" using extent_bounds(1) [OF assms(1)] by simp
  then have "unat (of_nat ((p + 1) mod unat n) :: usize) = (p + 1) mod unat n"
    using extent_bounds(2) [OF assms(1)] by (intro unat_index) linarith
  ultimately show ?thesis by (simp only: word_unat_eq_iff)
qed

lemma unat_and_sub:
  assumes "extent_ok n" "unat a < unat n" "unat b < unat n"
  shows "unat ((b - a) AND (n - 1)) = dist (unat n) (unat a) (unat b)"
proof -
  obtain k where k: "k \<le> 31" "unat n = 2 ^ k" using assms(1) by (rule extent_okE)
  have "unat (b - a) = (if unat a \<le> unat b then unat b - unat a else 2 ^ 64 + unat b - unat a)"
    unfolding unat_sub_if' using unat_bound [of a] by (auto simp: word_le_nat_alt)
  moreover have "(2 ^ 64 + unat b - unat a) mod 2 ^ k = (unat b + 2 ^ k - unat a) mod 2 ^ k" if "\<not> unat a \<le> unat b"
  proof -
    have "2 ^ 64 = (2 :: nat) ^ k * 2 ^ (64 - k)" using k(1) by (simp flip: power_add)
    moreover have "(2 :: nat) ^ (64 - k) = Suc (2 ^ (64 - k) - 1)" by simp
    ultimately have "2 ^ 64 = 2 ^ k + (2 ^ (64 - k) - 1) * (2 :: nat) ^ k" by (metis add.commute mult.commute mult_Suc_right)
    then have "2 ^ 64 + unat b - unat a = (unat b + 2 ^ k - unat a) + (2 ^ (64 - k) - 1) * 2 ^ k"
      using assms(2) k(2) that by linarith
    then show ?thesis by (simp only: mod_mult_self1)
  qed
  moreover have "(unat b + 2 ^ k - unat a) mod 2 ^ k = (unat b - unat a) mod 2 ^ k" if "unat a \<le> unat b"
  proof -
    have "unat b + 2 ^ k - unat a = (unat b - unat a) + 2 ^ k" using that by simp
    then show ?thesis by (simp only: mod_add_self2)
  qed
  ultimately show ?thesis by (simp add: unat_and_extent [OF assms(1)] k(2) dist_def)
qed

lemma occupied_index_new [simp]: "unat i < 2 ^ 31 \<Longrightarrow> occupied_index (occupied_new i) = i"
proof -
  assume i: "unat i < 2 ^ 31"
  then have n: "unat (ucast i :: u32) = unat i" by (intro unat_ucast_narrow) simp
  have "unat (ucast i + 1 :: u32) = unat i + 1" using i by (intro unat_add_fits [THEN trans]) (simp_all add: n)
  then have "unat (ucast (ucast i + 1 :: u32) :: usize) = unat i + 1"
    using unat_ucast_widen [of "ucast i + 1 :: u32", where 'b = 64] by simp
  moreover have "unat (i + 1) = unat i + 1" using i by (intro unat_add_fits [THEN trans]) simp_all
  ultimately have "(ucast (ucast i + 1 :: u32) :: usize) = i + 1" by (simp only: word_unat_eq_iff)
  then show ?thesis by (simp add: occupied_index_def occupied_new_def)
qed

lemma vacant_index_new [simp]: "unat i < 2 ^ 31 \<Longrightarrow> vacant_index (vacant_new i) = i"
proof -
  assume i: "unat i < 2 ^ 31"
  then have "unat (ucast i :: u32) = unat i" by (intro unat_ucast_narrow) simp
  then have "unat (ucast (ucast i :: u32) :: usize) = unat i"
    using unat_ucast_widen [of "ucast i :: u32", where 'b = 64] by simp
  then show ?thesis unfolding vacant_index_def vacant_new_def by (simp only: word_unat_eq_iff)
qed

lemma of_nat_unat_index: "unat i = p \<Longrightarrow> i = of_nat p" for i :: usize
  by auto

section \<open>The walk along the probe path\<close>

definition occ :: "nat \<Rightarrow> u32" where
  "occ p = occupied_new (of_nat p)"

definition vac :: "nat \<Rightarrow> u32" where
  "vac p = vacant_new (of_nat p)"

text \<open>What a bucket does to a scan: stop it, fail it, or let it go on.\<close>

definition probe_event :: "'p buckets \<Rightarrow> u64 \<Rightarrow> (u32 \<Rightarrow> 'e + bool) \<Rightarrow> nat \<Rightarrow> ('e + probe_state) option" where
  "probe_event ent hash matches p = (case ent p of
       None \<Rightarrow> Some (Inr (State_Vacant (vac p)))
     | Some (actual, _) \<Rightarrow>
         if actual \<noteq> hash then None
         else (case matches (occ p) of
             Inl e \<Rightarrow> Some (Inl e)
           | Inr hit \<Rightarrow> if hit then Some (Inr (State_Occupied (occ p))) else None))"

fun probe_walk :: "nat \<Rightarrow> 'p buckets \<Rightarrow> u64 \<Rightarrow> (u32 \<Rightarrow> 'e + bool) \<Rightarrow> nat \<Rightarrow> nat \<Rightarrow> 'e + probe_state" where
  "probe_walk n ent hash matches p 0 = Inr State_Full"
| "probe_walk n ent hash matches p (Suc left) = (case probe_event ent hash matches p of
       Some r \<Rightarrow> r
     | None \<Rightarrow> probe_walk n ent hash matches ((p + 1) mod n) left)"

lemma probe_walk_stop:
  assumes "p < n" "d < left" "d < n" "\<And>e. e < d \<Longrightarrow> probe_event ent hash matches ((p + e) mod n) = None"
    "probe_event ent hash matches ((p + d) mod n) = Some r"
  shows "probe_walk n ent hash matches p left = r"
  using assms
proof (induction left arbitrary: p d)
  case (Suc left)
  show ?case
  proof (cases d)
    case 0
    then show ?thesis using Suc.prems by simp
  next
    case (Suc d')
    have "probe_event ent hash matches p = None" using Suc.prems(4) [of 0] Suc.prems(1) Suc by simp
    moreover have "probe_walk n ent hash matches ((p + 1) mod n) left = r"
    proof (rule Suc.IH [of _ d'])
      show "(p + 1) mod n < n" "d' < left" "d' < n" using Suc.prems(1-3) Suc by auto
      show "probe_event ent hash matches (((p + 1) mod n + e) mod n) = None" if "e < d'" for e
        using Suc.prems(4) [of "Suc e"] that Suc by (simp add: mod_add_left_eq)
      show "probe_event ent hash matches (((p + 1) mod n + d') mod n) = Some r"
        using Suc.prems(5) Suc by (simp add: mod_add_left_eq)
    qed
    ultimately show ?thesis by simp
  qed
qed simp

text \<open>An entry that alone matches is found; without a match the walk stops at a vacancy it may fill.\<close>

lemma probe_walk_occupied:
  assumes "reach n ent" "i < n" "ent i = Some (hash, p)" "matches (occ i) = Inr True"
    "\<And>j q. j < n \<Longrightarrow> j \<noteq> i \<Longrightarrow> ent j = Some (hash, q) \<Longrightarrow> matches (occ j) = Inr False"
  shows "probe_walk n ent hash matches (home n hash) n = Inr (State_Occupied (occ i))"
proof (rule probe_walk_stop [where d = "dist n (home n hash) i"])
  have n: "0 < n" using assms(2) by simp
  note a = home_less [OF n, of hash]
  show "home n hash < n" "dist n (home n hash) i < n" "dist n (home n hash) i < n" using a dist_less [OF n] by simp_all
  show "probe_event ent hash matches ((home n hash + dist n (home n hash) i) mod n) = Some (Inr (State_Occupied (occ i)))"
    using assms(3,4) by (simp add: add_dist [OF a assms(2)] probe_event_def)
  fix e assume e: "e < dist n (home n hash) i"
  let ?j = "(home n hash + e) mod n"
  have "e < n" using e dist_less [OF n, of "home n hash" i] by linarith
  then have "?j \<noteq> i" using dist_add [OF a] e by auto
  moreover obtain h q where "ent ?j = Some (h, q)" using reach_exceptD [OF assms(1,3,2) e] by auto
  moreover have "?j < n" using n by simp
  ultimately show "probe_event ent hash matches ?j = None" using assms(5) [of ?j] by (auto simp: probe_event_def)
qed

text \<open>Whatever matches, the first match on the path is found.\<close>

lemma probe_walk_some:
  fixes matches :: "u32 \<Rightarrow> 'e + bool"
  assumes "reach n ent" "i < n" "ent i = Some (hash, p)" "matches (occ i) = Inr True" "\<And>b e. matches b \<noteq> Inl e"
  obtains j q where "j < n" "ent j = Some (hash, q)" "matches (occ j) = Inr True"
    "probe_walk n ent hash matches (home n hash) n = Inr (State_Occupied (occ j))"
proof -
  let ?a = "home n hash"
  have n: "0 < n" using assms(2) by simp
  note a = home_less [OF n, of hash]
  let ?P = "\<lambda>d. probe_event ent hash matches ((?a + d) mod n) \<noteq> None"
  have at: "?P (dist n ?a i)" using assms(3,4) by (simp add: add_dist [OF a assms(2)] probe_event_def)
  define d where "d = (LEAST d. ?P d)"
  have d: "?P d" unfolding d_def by (rule LeastI) (rule at)
  have le: "d \<le> dist n ?a i" unfolding d_def by (rule Least_le) (rule at)
  have before: "probe_event ent hash matches ((?a + e) mod n) = None" if "e < d" for e
    using not_less_Least [of e ?P] that unfolding d_def by blast
  let ?j = "(?a + d) mod n"
  have j: "?j < n" using n by simp
  have "d < n" using le dist_less [OF n, of ?a i] by linarith
  have "ent ?j \<noteq> None"
  proof (cases "d = dist n ?a i")
    case True
    then show ?thesis using assms(3) by (simp add: add_dist [OF a assms(2)])
  next
    case False
    then show ?thesis using reach_exceptD [OF assms(1,3,2), of d] le by simp
  qed
  then obtain q where q: "ent ?j = Some (hash, q)" "matches (occ ?j) = Inr True"
      "probe_event ent hash matches ?j = Some (Inr (State_Occupied (occ ?j)))"
    using d assms(5) by (auto simp: probe_event_def split: if_splits sum.splits)
  have "probe_walk n ent hash matches ?a n = Inr (State_Occupied (occ ?j))"
    by (rule probe_walk_stop [OF a \<open>d < n\<close> \<open>d < n\<close> before q(3)])
  then show ?thesis using that [OF j q(1,2)] by blast
qed

lemma first_vacancy:
  fixes n :: nat
  assumes "a < n" "v < n" "ent v = None"
  obtains d where "d < n" "ent ((a + d) mod n) = None" "\<And>e. e < d \<Longrightarrow> ent ((a + e) mod n) \<noteq> None"
proof -
  let ?P = "\<lambda>d. d < n \<and> ent ((a + d) mod n) = None"
  have "?P (dist n a v)" using assms dist_less [of n a v] add_dist [OF assms(1,2)] by auto
  then have L: "?P (LEAST d. ?P d)" by (rule LeastI)
  have "ent ((a + e) mod n) \<noteq> None" if "e < (LEAST d. ?P d)" for e
    using not_less_Least [OF that] L that by auto
  then show ?thesis using that L by blast
qed

lemma probe_walk_vacant:
  assumes "v < n" "ent v = None"
    "\<And>j q. j < n \<Longrightarrow> ent j = Some (hash, q) \<Longrightarrow> matches (occ j) = Inr False"
  obtains i where "i < n" "ent i = None" "\<And>e. e < dist n (home n hash) i \<Longrightarrow> ent ((home n hash + e) mod n) \<noteq> None"
    "probe_walk n ent hash matches (home n hash) n = Inr (State_Vacant (vac i))"
proof -
  have n: "0 < n" using assms(1) by simp
  note a = home_less [OF n, of hash]
  obtain d where d: "d < n" "ent ((home n hash + d) mod n) = None"
      "\<And>e. e < d \<Longrightarrow> ent ((home n hash + e) mod n) \<noteq> None"
    by (rule first_vacancy [OF a assms(1), of ent]) (use assms(2) in auto)
  have "probe_walk n ent hash matches (home n hash) n = Inr (State_Vacant (vac ((home n hash + d) mod n)))"
  proof (rule probe_walk_stop [where d = d])
    fix e assume "e < d"
    moreover have "(home n hash + e) mod n < n" using n by simp
    ultimately show "probe_event ent hash matches ((home n hash + e) mod n) = None"
      using d(3) [of e] assms(3) [of "(home n hash + e) mod n"] by (auto simp: probe_event_def)
  qed (use a d in \<open>auto simp: probe_event_def\<close>)
  then show ?thesis using that [of "(home n hash + d) mod n"] d n dist_add [OF a d(1)] by auto
qed

section \<open>Directories\<close>

text \<open>
  \<open>ent\<close> is the view of the buckets: hash and payload of each occupied one. \<open>inv\<close> is the owner's own
  invariant. Both accessors show exactly the view.
\<close>

locale hashed =
  fixes D :: "'d directory" and inv :: "'d \<Rightarrow> bool" and ent :: "'d \<Rightarrow> 'p buckets"
  assumes extent: "inv d \<Longrightarrow> extent_ok (dir_buckets D d)"
    and hash_law: "inv d \<Longrightarrow> unat i < unat (dir_buckets D d) \<Longrightarrow> dir_hash D d i = map_option fst (ent d (unat i))"
begin

abbreviation buckets :: "'d \<Rightarrow> nat" where
  "buckets d \<equiv> unat (dir_buckets D d)"

lemma buckets_pos: "inv d \<Longrightarrow> 0 < buckets d"
  by (intro extent_bounds extent)

lemma index_in: "inv d \<Longrightarrow> p < buckets d \<Longrightarrow> unat (of_nat p :: usize) = p \<and> p < 2 ^ 31"
  using extent_bounds(2) [OF extent] by (force intro: unat_index)

lemma home_index: "inv d \<Longrightarrow> hash AND (dir_buckets D d - 1) = of_nat (home (buckets d) hash)"
proof -
  assume d: "inv d"
  have "unat (hash AND (dir_buckets D d - 1)) = home (buckets d) hash"
    by (simp add: unat_and_extent [OF extent [OF d]] home_def)
  then show ?thesis by (rule of_nat_unat_index)
qed

lemma next_in: "inv d \<Longrightarrow> (p + 1) mod buckets d < buckets d"
  by (simp add: buckets_pos)

end

text \<open>A directory that filters by hash, as the planes of a table do.\<close>

locale directory = hashed +
  assumes candidate_law: "inv d \<Longrightarrow> unat i < unat (dir_buckets D d) \<Longrightarrow>
      dir_candidate D d i h = directory_candidate (\<lambda>d i. map_option fst (ent d (unat i))) d i h"
begin

lemma candidate_at:
  assumes "inv d" "p < buckets d"
  shows "dir_candidate D d (of_nat p) h = (case ent d p of None \<Rightarrow> Candidate_Vacant
    | Some (actual, _) \<Rightarrow> if actual = h then Candidate_Occupied else Candidate_Skip)"
  using candidate_law [of d "of_nat p" h] index_in [OF assms] assms
  by (auto simp: directory_candidate_def split: option.split)

lemma step_at:
  assumes "inv d" "p < buckets d"
  shows "scan_step D d \<lparr>sc_hash = h, sc_index = of_nat p, sc_left = l\<rparr> = (case ent d p of
      None \<Rightarrow> (Some (Entry_Vacant (vac p)), \<lparr>sc_hash = h, sc_index = of_nat p, sc_left = l\<rparr>)
    | Some (actual, _) \<Rightarrow> (if actual = h then Some (Entry_Occupied (occ p)) else None,
        \<lparr>sc_hash = h, sc_index = of_nat ((p + 1) mod buckets d), sc_left = l\<rparr>))"
  using and_extent_step [OF extent [OF assms(1)] assms(2)]
  by (auto simp: scan_step_def Let_def candidate_at [OF assms] vac_def occ_def split: option.split)

lemma bounded_walk:
  assumes "inv d" "p < buckets d" "unat l = left"
  shows "try_match matches (\<lambda>sc. Some (scan_next_bounded D d sc)) \<lparr>sc_hash = hash, sc_index = of_nat p, sc_left = l\<rparr>
    = Some (probe_walk (buckets d) (ent d) hash matches p left)"
  using assms(2,3)
proof (induction left arbitrary: p l)
  case 0
  then have "l = 0" by (simp add: unat_eq_0)
  then show ?case by (subst try_match.simps) (simp add: scan_next_bounded.simps)
next
  case (Suc left)
  then have l: "l \<noteq> 0" by auto
  then have l': "unat (l - 1) = left" using unat_pred [OF l] Suc.prems(2) by simp
  note IH = Suc.IH [OF next_in [OF assms(1)] l', of p]
  note step = step_at [OF assms(1) Suc.prems(1)]
  show ?case
  proof (cases "ent d p")
    case None
    then show ?thesis
      by (subst try_match.simps) (simp add: scan_next_bounded.simps [of D d "\<lparr>sc_hash = _, sc_index = _, sc_left = _\<rparr>"] l step probe_event_def)
  next
    case (Some hp)
    obtain actual q where hp: "hp = (actual, q)" by force
    show ?thesis
    proof (cases "actual = hash")
      case True
      then show ?thesis using Some hp IH
        by (subst try_match.simps)
           (simp add: scan_next_bounded.simps [of D d "\<lparr>sc_hash = _, sc_index = _, sc_left = _\<rparr>"] l step probe_event_def split: sum.split)
    next
      case False
      then have "scan_next_bounded D d \<lparr>sc_hash = hash, sc_index = of_nat p, sc_left = l\<rparr> =
          scan_next_bounded D d \<lparr>sc_hash = hash, sc_index = of_nat ((p + 1) mod buckets d), sc_left = l - 1\<rparr>"
        using Some hp by (subst scan_next_bounded.simps) (simp add: l step)
      then have "try_match matches (\<lambda>sc. Some (scan_next_bounded D d sc)) \<lparr>sc_hash = hash, sc_index = of_nat p, sc_left = l\<rparr> =
          try_match matches (\<lambda>sc. Some (scan_next_bounded D d sc)) \<lparr>sc_hash = hash, sc_index = of_nat ((p + 1) mod buckets d), sc_left = l - 1\<rparr>"
        by (subst (1 2) try_match.simps) simp
      then show ?thesis using Some hp False IH by (simp add: probe_event_def)
    qed
  qed
qed

lemma spare_next:
  assumes "inv d" "p < buckets d"
  shows "scan_next_spare D d \<lparr>sc_hash = h, sc_index = of_nat p, sc_left = l\<rparr> = (case ent d p of
      None \<Rightarrow> Some (Entry_Vacant (vac p), \<lparr>sc_hash = h, sc_index = of_nat p, sc_left = l\<rparr>)
    | Some (actual, _) \<Rightarrow> if actual = h
        then Some (Entry_Occupied (occ p), \<lparr>sc_hash = h, sc_index = of_nat ((p + 1) mod buckets d), sc_left = l\<rparr>)
        else scan_next_spare D d \<lparr>sc_hash = h, sc_index = of_nat ((p + 1) mod buckets d), sc_left = l\<rparr>)"
  by (subst scan_next_spare.simps) (simp add: step_at [OF assms] split: option.split)

lemma spare_walk:
  assumes "inv d" "p < buckets d" "e < left" "ent d ((p + e) mod buckets d) = None"
  shows "try_match matches (scan_next_state D d) \<lparr>sc_hash = hash, sc_index = of_nat p, sc_left = l\<rparr>
    = Some (probe_walk (buckets d) (ent d) hash matches p left)"
  using assms(2-)
proof (induction left arbitrary: p e)
  case (Suc left)
  note step = spare_next [OF assms(1) Suc.prems(1)]
  show ?case
  proof (cases "ent d p")
    case None
    then show ?thesis by (subst try_match.simps) (simp add: scan_next_state_def step probe_event_def)
  next
    case (Some hp)
    obtain actual q where hp: "hp = (actual, q)" by force
    obtain e' where e': "e = Suc e'" using Suc.prems(1,3) Some by (cases e) auto
    have IH: "try_match matches (scan_next_state D d) \<lparr>sc_hash = hash, sc_index = of_nat ((p + 1) mod buckets d), sc_left = l\<rparr>
      = Some (probe_walk (buckets d) (ent d) hash matches ((p + 1) mod buckets d) left)"
      using Suc.prems(2,3) e' by (intro Suc.IH [of _ e'] next_in [OF assms(1)]) (simp_all add: mod_add_left_eq)
    show ?thesis
    proof (cases "actual = hash")
      case True
      then show ?thesis using Some hp IH
        by (subst try_match.simps) (simp add: scan_next_state_def step probe_event_def split: sum.split)
    next
      case False
      then have "try_match matches (scan_next_state D d) \<lparr>sc_hash = hash, sc_index = of_nat p, sc_left = l\<rparr> =
          try_match matches (scan_next_state D d) \<lparr>sc_hash = hash, sc_index = of_nat ((p + 1) mod buckets d), sc_left = l\<rparr>"
        using Some hp by (subst (1 2) try_match.simps) (simp add: scan_next_state_def step)
      then show ?thesis using Some hp False IH by (simp add: probe_event_def)
    qed
  qed
qed simp

text \<open>Both scans are the walk; the unbounded one given a vacancy.\<close>

lemma scan_walk:
  assumes "inv d" "SPARE \<longrightarrow> v < buckets d \<and> ent d v = None"
  shows "raw_scan D SPARE d hash matches =
    Some (probe_walk (buckets d) (ent d) hash matches (home (buckets d) hash) (buckets d))"
proof -
  note h = home_less [OF buckets_pos [OF assms(1)], of hash]
  show ?thesis
  proof (cases SPARE)
    case True
    have "try_match matches (scan_next_state D d) \<lparr>sc_hash = hash, sc_index = of_nat (home (buckets d) hash), sc_left = dir_buckets D d\<rparr>
      = Some (probe_walk (buckets d) (ent d) hash matches (home (buckets d) hash) (buckets d))"
      by (rule spare_walk [OF assms(1) h dist_less [OF buckets_pos [OF assms(1)]], of "home (buckets d) hash" v])
         (use assms(2) True h in \<open>simp add: add_dist\<close>)
    then show ?thesis using True extent_bounds(3) [OF extent [OF assms(1)]]
      by (simp add: raw_scan_def scan_new_def home_index [OF assms(1)])
  next
    case False
    then show ?thesis using bounded_walk [OF assms(1) h refl]
      by (simp add: raw_scan_def scan_new_def home_index [OF assms(1)])
  qed
qed

text \<open>A member that is there is found.\<close>

lemma member_walk:
  assumes "inv d" "p < buckets d" "ent d ((p + e) mod buckets d) = Some (hash, q)" "matches (occ ((p + e) mod buckets d))"
    "\<And>e' q'. e' < e \<Longrightarrow> ent d ((p + e') mod buckets d) = Some (hash, q') \<Longrightarrow> \<not> matches (occ ((p + e') mod buckets d))"
  shows "member_from D d hash matches (of_nat p) = Some (occ ((p + e) mod buckets d))"
  using assms(2-)
proof (induction e arbitrary: p)
  case 0
  note cand = candidate_at [OF assms(1) 0(1), of hash]
  show ?case using 0 by (subst member_from.simps) (simp add: cand Let_def occ_def)
next
  case (Suc e)
  note cand = candidate_at [OF assms(1) Suc.prems(1), of hash]
  note step = and_extent_step [OF extent [OF assms(1)] Suc.prems(1)]
  let ?p = "(p + 1) mod buckets d"
  have mod: "(?p + e') mod buckets d = (p + Suc e') mod buckets d" for e' by (simp add: mod_add_left_eq)
  have IH: "member_from D d hash matches (of_nat ?p) = Some (occ ((p + Suc e) mod buckets d))"
    using Suc.IH [of ?p, unfolded mod] Suc.prems(2-) next_in [OF assms(1)] Suc_less_eq by blast
  have "dir_candidate D d (of_nat p) hash = Candidate_Occupied \<Longrightarrow> \<not> matches (occ p)"
    using Suc.prems(1) Suc.prems(4) [of 0] by (auto simp: cand split: option.splits if_splits)
  then show ?case using IH by (subst member_from.simps) (simp add: Let_def step occ_def)
qed

lemma member_found:
  assumes "inv d" "i < buckets d" "ent d i = Some (hash, q)" "matches (occ i)"
  obtains j q' where "j < buckets d" "ent d j = Some (hash, q')" "matches (occ j)" "raw_member D d hash matches = Some (occ j)"
proof -
  let ?a = "home (buckets d) hash"
  note n = buckets_pos [OF assms(1)]
  let ?P = "\<lambda>e. \<exists>q. ent d ((?a + e) mod buckets d) = Some (hash, q) \<and> matches (occ ((?a + e) mod buckets d))"
  have at: "?P (dist (buckets d) ?a i)" using assms(3,4) by (simp add: add_dist [OF home_less [OF n] assms(2)])
  define e where "e = (LEAST e. ?P e)"
  have "?P e" unfolding e_def by (rule LeastI) (rule at)
  then obtain q' where q': "ent d ((?a + e) mod buckets d) = Some (hash, q')" "matches (occ ((?a + e) mod buckets d))" by blast
  have before: "\<not> ?P e'" if "e' < e" for e' using not_less_Least [of e' ?P] that unfolding e_def by blast
  have "member_from D d hash matches (of_nat ?a) = Some (occ ((?a + e) mod buckets d))"
    by (rule member_walk [where matches = matches, OF assms(1) home_less [OF n] q']) (use before in blast)
  then show ?thesis using that [OF _ q'] n by (simp add: raw_member_def home_index [OF assms(1)])
qed

end

text \<open>
  A directory that shows every entry to the matcher. Where the matcher itself refuses other hashes,
  a scan is the same walk.
\<close>

locale plain = hashed +
  assumes plain_law: "inv d \<Longrightarrow> unat i < unat (dir_buckets D d) \<Longrightarrow>
      dir_candidate D d i h = (if ent d (unat i) = None then Candidate_Vacant else Candidate_Occupied)"
begin

lemma plain_at: "inv d \<Longrightarrow> p < buckets d \<Longrightarrow>
    dir_candidate D d (of_nat p) h = (if ent d p = None then Candidate_Vacant else Candidate_Occupied)"
  using plain_law [of d "of_nat p" h] index_in [of d p] by simp

lemma plain_step:
  assumes "inv d" "p < buckets d"
  shows "scan_step D d \<lparr>sc_hash = h, sc_index = of_nat p, sc_left = l\<rparr> = (if ent d p = None
    then (Some (Entry_Vacant (vac p)), \<lparr>sc_hash = h, sc_index = of_nat p, sc_left = l\<rparr>)
    else (Some (Entry_Occupied (occ p)), \<lparr>sc_hash = h, sc_index = of_nat ((p + 1) mod buckets d), sc_left = l\<rparr>))"
  using and_extent_step [OF extent [OF assms(1)] assms(2)]
  by (simp add: scan_step_def Let_def plain_at [OF assms] vac_def occ_def)

lemma plain_walk:
  assumes "inv d" "\<And>p h q. p < buckets d \<Longrightarrow> ent d p = Some (h, q) \<Longrightarrow> h \<noteq> hash \<Longrightarrow> matches (occ p) = Inr False"
    "p < buckets d" "e < left" "ent d ((p + e) mod buckets d) = None"
  shows "try_match matches (scan_next_state D d) \<lparr>sc_hash = hash, sc_index = of_nat p, sc_left = l\<rparr>
    = Some (probe_walk (buckets d) (ent d) hash matches p left)"
  using assms(3-)
proof (induction left arbitrary: p e)
  case (Suc left)
  note step = plain_step [OF assms(1) Suc.prems(1)]
  show ?case
  proof (cases "ent d p")
    case None
    then show ?thesis
      by (subst try_match.simps) (simp add: scan_next_state_def scan_next_spare.simps [of D d] step probe_event_def)
  next
    case (Some hp)
    obtain actual q where hp: "hp = (actual, q)" by force
    obtain e' where e': "e = Suc e'" using Suc.prems(1,3) Some by (cases e) auto
    have "try_match matches (scan_next_state D d) \<lparr>sc_hash = hash, sc_index = of_nat ((p + 1) mod buckets d), sc_left = l\<rparr>
      = Some (probe_walk (buckets d) (ent d) hash matches ((p + 1) mod buckets d) left)"
      using Suc.prems(2,3) e' by (intro Suc.IH [of _ e'] next_in [OF assms(1)]) (simp_all add: mod_add_left_eq)
    then show ?thesis using Some hp assms(2) [OF Suc.prems(1)]
      by (subst try_match.simps)
         (auto simp: scan_next_state_def scan_next_spare.simps [of D d] step probe_event_def split: sum.split)
  qed
qed simp

lemma plain_scan:
  assumes "inv d" "v < buckets d" "ent d v = None"
    "\<And>p h q. p < buckets d \<Longrightarrow> ent d p = Some (h, q) \<Longrightarrow> h \<noteq> hash \<Longrightarrow> matches (occ p) = Inr False"
  shows "raw_scan D True d hash matches =
    Some (probe_walk (buckets d) (ent d) hash matches (home (buckets d) hash) (buckets d))"
proof -
  note h = home_less [OF buckets_pos [OF assms(1)], of hash]
  have "try_match matches (scan_next_state D d) \<lparr>sc_hash = hash, sc_index = of_nat (home (buckets d) hash), sc_left = dir_buckets D d\<rparr>
    = Some (probe_walk (buckets d) (ent d) hash matches (home (buckets d) hash) (buckets d))"
    by (rule plain_walk [where matches = matches and e = "dist (buckets d) (home (buckets d) hash) v", OF assms(1) assms(4) h])
       (use assms(2,3) h dist_less [OF buckets_pos [OF assms(1)]] in \<open>simp_all add: add_dist\<close>)
  then show ?thesis using extent_bounds(3) [OF extent [OF assms(1)]]
    by (simp add: raw_scan_def scan_new_def home_index [OF assms(1)])
qed

lemma plain_member_walk:
  assumes "inv d" "p < buckets d" "\<And>e'. e' \<le> e \<Longrightarrow> ent d ((p + e') mod buckets d) \<noteq> None"
    "matches (occ ((p + e) mod buckets d))" "\<And>e'. e' < e \<Longrightarrow> \<not> matches (occ ((p + e') mod buckets d))"
  shows "member_from D d hash matches (of_nat p) = Some (occ ((p + e) mod buckets d))"
  using assms(2-)
proof (induction e arbitrary: p)
  case 0
  then obtain hq where "ent d p = Some hq" using 0(2) [of 0] by auto
  then show ?case using 0
    by (subst member_from.simps) (simp add: plain_at [OF assms(1) 0(1), of hash] Let_def occ_def)
next
  case (Suc e)
  note step = and_extent_step [OF extent [OF assms(1)] Suc.prems(1)]
  let ?p = "(p + 1) mod buckets d"
  have mod: "(?p + e') mod buckets d = (p + Suc e') mod buckets d" for e' by (simp add: mod_add_left_eq)
  have IH: "member_from D d hash matches (of_nat ?p) = Some (occ ((p + Suc e) mod buckets d))"
    using Suc.IH [of ?p, unfolded mod] Suc.prems(2-) next_in [OF assms(1)] Suc_less_eq Suc_le_mono by blast
  have "\<not> matches (occ p)" "ent d p \<noteq> None" using Suc.prems(1,2) Suc.prems(2,4) [of 0] by auto
  then show ?case using IH
    by (subst member_from.simps) (simp add: plain_at [OF assms(1) Suc.prems(1), of hash] Let_def step occ_def)
qed

text \<open>The only entry that matches is found.\<close>

lemma plain_member_found:
  assumes "inv d" "reach (buckets d) (ent d)" "i < buckets d" "ent d i = Some (hash, q)" "matches (occ i)"
    "\<And>j. j < buckets d \<Longrightarrow> ent d j \<noteq> None \<Longrightarrow> matches (occ j) \<Longrightarrow> j = i"
  shows "raw_member D d hash matches = Some (occ i)"
proof -
  let ?a = "home (buckets d) hash" and ?n = "buckets d"
  let ?e = "dist ?n ?a i"
  note n = buckets_pos [OF assms(1)] and a = home_less [OF buckets_pos [OF assms(1)], of hash]
  have at: "(?a + ?e) mod ?n = i" by (rule add_dist [OF a assms(3)])
  have before: "ent d ((?a + e) mod ?n) \<noteq> None" if "e < ?e" for e
    using reach_exceptD [OF assms(2,4,3) that] by simp
  have "(?a + e) mod ?n \<noteq> i" if "e < ?e" for e
    using that dist_add [OF a, of e] dist_less [OF n, of ?a i] by auto
  then have "\<not> matches (occ ((?a + e) mod ?n))" if "e < ?e" for e
    using assms(6) [of "(?a + e) mod ?n"] before [OF that] that n by auto
  moreover have "ent d ((?a + e) mod ?n) \<noteq> None" if "e \<le> ?e" for e
    using before [of e] that at assms(4) by (cases "e = ?e") auto
  ultimately show ?thesis
    using plain_member_walk [OF assms(1) a, of ?e matches hash] at assms(5)
    by (simp add: raw_member_def home_index [OF assms(1)])
qed

end

text \<open>
  A shift moves one entry into the hole, whatever else it updates. With a vacancy beside the hole,
  closing terminates and restores the invariant; the entries are the same.
\<close>

definition entries :: "nat \<Rightarrow> 'p buckets \<Rightarrow> (u64 \<times> 'p) multiset" where
  "entries n ent = image_mset (\<lambda>i. the (ent i)) (mset_set {i. i < n \<and> ent i \<noteq> None})"

lemma entries_fill:
  assumes "v < n" "ent v = None"
  shows "entries n (ent(v \<mapsto> x)) = add_mset x (entries n ent)"
proof -
  let ?S = "{i. i < n \<and> ent i \<noteq> None}"
  have "{i. i < n \<and> (ent(v \<mapsto> x)) i \<noteq> None} = insert v ?S" using assms(1) by auto
  moreover have "image_mset (\<lambda>i. the ((ent(v \<mapsto> x)) i)) (mset_set ?S) = image_mset (\<lambda>i. the (ent i)) (mset_set ?S)"
    using assms(2) by (intro image_mset_cong) auto
  ultimately show ?thesis using assms(2) by (simp add: entries_def)
qed

lemma entries_vacate:
  assumes "i < n" "ent i = Some x"
  shows "entries n ent = add_mset x (entries n (ent(i := None)))"
  using entries_fill [of i n "ent(i := None)" x] assms by (simp add: fun_upd_idem)

lemma entries_shift:
  assumes "g < n" "j < n" "g \<noteq> j" "ent g = None" "ent j = Some x"
  shows "entries n (ent(g := ent j, j := None)) = entries n ent"
proof -
  have "entries n (ent(g := ent j, j := None)) = entries n ((ent(j := None))(g \<mapsto> x))"
    using assms(3,5) by (simp add: fun_upd_twist)
  also have "\<dots> = add_mset x (entries n (ent(j := None)))" using assms(1,4) by (intro entries_fill) auto
  finally show ?thesis using entries_vacate [of j n ent x] assms(2,5) by simp
qed

lemma entries_clear [simp]: "entries n (\<lambda>_. None) = {#}"
  by (simp add: entries_def)

lemma size_entries: "size (entries n ent) = card {i. i < n \<and> ent i \<noteq> None}"
  by (simp add: entries_def)

lemma entries_vacancy:
  assumes "size (entries n ent) < n"
  obtains v where "v < n" "ent v = None"
proof -
  have "\<exists>v<n. ent v = None"
  proof (rule ccontr)
    assume "\<not> ?thesis"
    then have "{i. i < n \<and> ent i \<noteq> None} = {..<n}" by auto
    then have "size (entries n ent) = n" by (simp only: size_entries card_lessThan)
    then show False using assms by simp
  qed
  then show ?thesis using that by blast
qed

lemma entries_member: "x \<in># entries n ent \<longleftrightarrow> (\<exists>i<n. ent i = Some x)"
  by (force simp: entries_def)

locale shiftable = hashed +
  fixes shift :: "'a \<Rightarrow> u32 \<Rightarrow> u32 \<Rightarrow> u64 \<Rightarrow> 'a"
  assumes shift_law: "inv d \<Longrightarrow> g < unat (dir_buckets D d) \<Longrightarrow> j < unat (dir_buckets D d) \<Longrightarrow> g \<noteq> j \<Longrightarrow>
      ent d g = None \<Longrightarrow> ent d j = Some (h, p) \<Longrightarrow>
      inv (shift d (vac g) (occ j) h) \<and> dir_buckets D (shift d (vac g) (occ j) h) = dir_buckets D d \<and>
      ent (shift d (vac g) (occ j) h) = (ent d)(g := ent d j, j := None)"
begin

lemma close_from_walk:
  assumes "inv d" "closing (buckets d) (ent d) g j" "v < buckets d" "v \<noteq> g" "ent d v = None"
  shows "\<exists>d'. close_from D shift (dir_buckets D d - 1) d (vac g) (of_nat j) = Some d' \<and> inv d' \<and>
    dir_buckets D d' = dir_buckets D d \<and> reach (buckets d) (ent d') \<and>
    entries (buckets d) (ent d') = entries (buckets d) (ent d)"
  using assms
proof (induction "dist (buckets d) j v" arbitrary: d g j rule: less_induct)
  case less
  have g: "g < buckets d" "j < buckets d" "g \<noteq> j" using less.prems(2) by (auto simp: closing_def)
  note ix = index_in [OF less.prems(1) g(2)] index_in [OF less.prems(1) g(1)]
  have hash: "dir_hash D d (of_nat j) = map_option fst (ent d j)"
    using hash_law [OF less.prems(1), of "of_nat j"] ix g by simp
  show ?case
  proof (cases "ent d j")
    case None
    then have "close_from D shift (dir_buckets D d - 1) d (vac g) (of_nat j) = Some d"
      by (subst close_from.simps) (simp add: hash)
    then show ?thesis using less.prems(1) closing_finish [OF less.prems(2) None] by blast
  next
    case (Some hp)
    obtain h p where hp: "ent d j = Some (h, p)" using Some by force
    let ?home = "h AND (dir_buckets D d - 1)"
    note a = home_less [OF buckets_pos [OF less.prems(1)], of h]
    have home: "?home = of_nat (home (buckets d) h)" by (rule home_index [OF less.prems(1)])
    have index_g: "vacant_index (vac g) = of_nat g" and index_j: "vacant_index (vac j) = of_nat j"
      using ix by (simp_all add: vac_def)
    have cross: "(of_nat g - ?home) AND (dir_buckets D d - 1) < (of_nat j - ?home) AND (dir_buckets D d - 1)
        \<longleftrightarrow> dist (buckets d) (home (buckets d) h) g < dist (buckets d) (home (buckets d) h) j"
      using unat_and_sub [OF extent [OF less.prems(1)], of ?home "of_nat j"]
        unat_and_sub [OF extent [OF less.prems(1)], of ?home "of_nat g"] ix a index_in [OF less.prems(1) a] g
      by (simp add: home word_less_nat_alt)
    show ?thesis
    proof (cases "dist (buckets d) (home (buckets d) h) g < dist (buckets d) (home (buckets d) h) j")
      case True
      let ?d = "shift d (vac g) (occ j) h"
      have empty_g: "ent d g = None" using less.prems(2) by (simp add: closing_def)
      have law: "inv ?d" "dir_buckets D ?d = dir_buckets D d" "ent ?d = (ent d)(g := ent d j, j := None)"
        using shift_law [OF less.prems(1) g empty_g hp] by simp_all
      note shift = closing_shift [OF less.prems(2) hp True less.prems(3-)]
      have step: "(of_nat j + 1) AND (dir_buckets D d - 1) = of_nat ((j + 1) mod buckets d)"
        by (rule and_extent_step [OF extent [OF less.prems(1)] g(2)])
      have eq: "close_from D shift (dir_buckets D d - 1) d (vac g) (of_nat j) =
          close_from D shift (dir_buckets D d - 1) ?d (vac j) (of_nat ((j + 1) mod buckets d))"
        using True ix by (subst close_from.simps) (simp add: hash hp Let_def index_g cross occ_def [symmetric] vac_def [symmetric] index_j step)
      have "\<exists>d'. close_from D shift (dir_buckets D ?d - 1) ?d (vac j) (of_nat ((j + 1) mod buckets d)) = Some d' \<and> inv d' \<and>
          dir_buckets D d' = dir_buckets D ?d \<and> reach (buckets ?d) (ent d') \<and> entries (buckets ?d) (ent d') = entries (buckets ?d) (ent ?d)"
        using less.hyps [where d = ?d and j = "(j + 1) mod buckets d" and g = j] shift law less.prems(3) by simp
      then show ?thesis using entries_shift [OF g empty_g hp] by (simp add: eq law)
    next
      case False
      have step: "(of_nat j + 1) AND (dir_buckets D d - 1) = of_nat ((j + 1) mod buckets d)"
        by (rule and_extent_step [OF extent [OF less.prems(1)] g(2)])
      have "close_from D shift (dir_buckets D d - 1) d (vac g) (of_nat j) =
          close_from D shift (dir_buckets D d - 1) d (vac g) (of_nat ((j + 1) mod buckets d))"
        using False by (subst close_from.simps) (simp add: hash hp Let_def index_g cross step)
      then show ?thesis
        using less.hyps [OF closing_skip(2) [OF less.prems(2) hp False less.prems(3-)] less.prems(1)
          closing_skip(1) [OF less.prems(2) hp False less.prems(3-)] less.prems(3-)] by simp
    qed
  qed
qed

lemma close_restores:
  assumes "inv d" "g < buckets d" "ent d g = None" "reach_except (buckets d) (ent d) {g}"
    "v < buckets d" "v \<noteq> g" "ent d v = None"
  shows "\<exists>d'. raw_close D shift d (vac g) = Some d' \<and> inv d' \<and> dir_buckets D d' = dir_buckets D d \<and>
    reach (buckets d) (ent d') \<and> entries (buckets d) (ent d') = entries (buckets d) (ent d)"
proof -
  have "1 < buckets d" using assms(2,5,6) by linarith
  from closing_start [OF assms(2) this assms(3,4)]
  have "closing (buckets d) (ent d) g ((g + 1) mod buckets d)" .
  moreover have "(vacant_index (vac g) + 1) AND (dir_buckets D d - 1) = of_nat ((g + 1) mod buckets d)"
    using and_extent_step [OF extent [OF assms(1)] assms(2)] index_in [OF assms(1,2)] by (simp add: vac_def)
  ultimately show ?thesis
    using close_from_walk [OF assms(1) _ assms(5-), of "(g + 1) mod buckets d"] by (simp add: raw_close_def Let_def)
qed

end

end
