(* ===== verification/O3_Map_Table.thy ===== *)
theory O3_Map_Table
  imports O3_Map_Scan
begin

text \<open>
  The control, hash and payload planes as a directory: what each operation of a table does to the
  view of its buckets, the probes over any owner of a table, and the locale \<open>mutator\<close> for the
  owners that remove through a hole.
\<close>

section \<open>The view of a table\<close>

definition table_ent :: "'p table \<Rightarrow> 'p buckets" where
  "table_ent t i =
     (if i < unat (tb_buckets t) \<and> tb_controls t ! i \<noteq> EMPTY
      then Some (the (tb_hashes t ! i), the (tb_payloads t ! i)) else None)"

definition table_ok :: "'p table \<Rightarrow> bool" where
  "table_ok t \<longleftrightarrow> extent_ok (tb_buckets t) \<and> length (tb_controls t) = unat (tb_buckets t) \<and>
     length (tb_hashes t) = unat (tb_buckets t) \<and> length (tb_payloads t) = unat (tb_buckets t) \<and>
     (\<forall>i < unat (tb_buckets t). tb_controls t ! i \<noteq> EMPTY \<longrightarrow>
        tb_hashes t ! i \<noteq> None \<and> tb_payloads t ! i \<noteq> None \<and>
        tb_controls t ! i = ucast (drop_bit 57 (the (tb_hashes t ! i))))"

lemma table_okD:
  assumes "table_ok t"
  shows "extent_ok (tb_buckets t)" "length (tb_controls t) = unat (tb_buckets t)"
    "length (tb_hashes t) = unat (tb_buckets t)" "length (tb_payloads t) = unat (tb_buckets t)"
  using assms by (simp_all add: table_ok_def)

text \<open>Seven bits of the hash are never the empty control.\<close>

lemma control_not_EMPTY [simp]: "ucast (drop_bit 57 (h :: u64)) \<noteq> EMPTY"
proof -
  have "unat (drop_bit 57 h) < 128"
    unfolding unsigned_drop_bit_eq using usize_bound [of h]
    by (simp add: drop_bit_eq_div take_bit_nat_eq_self less_mult_imp_div_less)
  then have "unat (ucast (drop_bit 57 h) :: u8) < 128" by (subst unat_ucast_narrow) simp_all
  then show ?thesis by (auto simp: EMPTY_def)
qed

lemma table_entD: "table_ent t i = Some (h, p) \<Longrightarrow> i < unat (tb_buckets t) \<and> tb_controls t ! i \<noteq> EMPTY \<and>
    h = the (tb_hashes t ! i) \<and> p = the (tb_payloads t ! i)"
  by (auto simp: table_ent_def split: if_splits)

interpretation raw: directory table_directory table_ok table_ent
proof
  fix t :: "'p table" and i :: usize and h
  assume ok: "table_ok t"
  show "extent_ok (dir_buckets table_directory t)" using ok by (simp add: table_directory_def table_ok_def)
  assume "unat i < unat (dir_buckets table_directory t)"
  then have i: "unat i < unat (tb_buckets t)" by (simp add: table_directory_def)
  show "dir_hash table_directory t i = map_option fst (table_ent t (unat i))"
    using i by (simp add: table_directory_def table_hash_def table_ent_def EMPTY_def)
  have "tb_controls t ! unat i = ucast (drop_bit 57 (the (tb_hashes t ! unat i)))" if "tb_controls t ! unat i \<noteq> EMPTY"
    using ok i that by (simp add: table_ok_def)
  then show "dir_candidate table_directory t i h =
      directory_candidate (\<lambda>d i. map_option fst (table_ent d (unat i))) t i h"
    using i by (auto simp: table_directory_def table_candidate_def directory_candidate_def table_ent_def Let_def EMPTY_def)
qed

lemma raw_buckets [simp]: "dir_buckets table_directory t = tb_buckets t"
  by (simp add: table_directory_def)

lemma table_index:
  assumes "table_ok t" "i < unat (tb_buckets t)"
  shows "unat (of_nat i :: usize) = i" "i < 2 ^ 31" "unat (occupied_index (occ i)) = i" "unat (vacant_index (vac i)) = i"
    "occupied_index (occ i) = of_nat i" "vacant_index (vac i) = of_nat i"
proof -
  show 1: "unat (of_nat i :: usize) = i" "i < 2 ^ 31" using raw.index_in [of t i] assms by simp_all
  show "occupied_index (occ i) = of_nat i" "vacant_index (vac i) = of_nat i" using 1 by (simp_all add: occ_def vac_def)
  then show "unat (occupied_index (occ i)) = i" "unat (vacant_index (vac i)) = i" using 1(1) by simp_all
qed

section \<open>Operations on the view\<close>

lemma from_fields_ok: "extent_ok n \<Longrightarrow> table_ok (table_from_fields n)"
  by (simp add: table_ok_def table_from_fields_def)

lemma from_fields_ent: "table_ent (table_from_fields n) = (\<lambda>_. None)"
  by (auto simp: table_ent_def table_from_fields_def)

lemma payload_ent: "table_ok t \<Longrightarrow> table_ent t i = Some (h, p) \<Longrightarrow> table_payload t (occ i) = p"
  by (auto dest!: table_entD simp: table_payload_def table_index)

lemma payload_set_view:
  assumes "table_ok t" "table_ent t i = Some (h, p)"
  shows "table_ok (table_payload_set t (occ i) q)" "table_ent (table_payload_set t (occ i) q) = (table_ent t)(i \<mapsto> (h, q))"
    "tb_buckets (table_payload_set t (occ i) q) = tb_buckets t"
  using table_entD [OF assms(2)] assms table_index [of t i]
  by (auto simp: table_payload_set_def table_ok_def table_ent_def nth_list_update fun_eq_iff)

lemma insert_view:
  assumes "table_ok t" "i < unat (tb_buckets t)"
  shows "table_ok (table_insert t (vac i) h p)" "table_ent (table_insert t (vac i) h p) = (table_ent t)(i \<mapsto> (h, p))"
    "tb_buckets (table_insert t (vac i) h p) = tb_buckets t"
  using assms table_index [OF assms]
  by (auto simp: table_insert_def table_ok_def table_ent_def nth_list_update fun_eq_iff Let_def)

lemma shift_view:
  assumes "table_ok t" "g < unat (tb_buckets t)" "j < unat (tb_buckets t)" "g \<noteq> j" "table_ent t j = Some (h, p)"
  shows "table_ok (table_shift t (vac g) (occ j) h)"
    "table_ent (table_shift t (vac g) (occ j) h) = (table_ent t)(g := table_ent t j, j := None)"
    "tb_buckets (table_shift t (vac g) (occ j) h) = tb_buckets t"
  using assms table_index [OF assms(1,2)] table_index [OF assms(1,3)] table_entD [OF assms(5)]
  by (auto simp: table_shift_def table_ok_def table_ent_def nth_list_update fun_eq_iff Let_def)

lemma vacate_view:
  assumes "table_ok t" "i < unat (tb_buckets t)"
  shows "table_ok (t\<lparr>tb_controls := (tb_controls t)[i := EMPTY]\<rparr>)"
    "table_ent (t\<lparr>tb_controls := (tb_controls t)[i := EMPTY]\<rparr>) = (table_ent t)(i := None)"
  using assms by (auto simp: table_ok_def table_ent_def nth_list_update fun_eq_iff)

lemma clear_from_view:
  assumes "table_ok t" "left \<le> unat (tb_buckets t)" "\<forall>i < unat (tb_buckets t) - left. table_ent t i = None"
  shows "table_ok (table_clear_from left t)" "table_ent (table_clear_from left t) = (\<lambda>_. None)"
    "tb_buckets (table_clear_from left t) = tb_buckets t"
proof -
  have "table_ok (table_clear_from left t) \<and> table_ent (table_clear_from left t) = (\<lambda>_. None) \<and>
      tb_buckets (table_clear_from left t) = tb_buckets t"
    using assms
  proof (induction left arbitrary: t)
    case 0
    then have "table_ent t i = None" for i by (cases "i < unat (tb_buckets t)") (auto simp: table_ent_def)
    then show ?case using 0 by auto
  next
    case (Suc left)
    let ?n = "unat (tb_buckets t)" and ?i = "unat (tb_buckets t) - Suc left"
    let ?t = "t\<lparr>tb_controls := (tb_controls t)[?i := EMPTY], tb_payloads := (tb_payloads t)[?i := None]\<rparr>"
    have small: "unat (of_nat (Suc left) :: usize) = Suc left"
      using Suc.prems(2) usize_bound [of "tb_buckets t"] by (intro unat_of_nat_fits) simp
    then have i: "unat (tb_buckets t - of_nat (Suc left)) = ?i"
      using Suc.prems(2) by (intro unat_sub [THEN trans]) (simp_all only: word_le_nat_alt)
    have ent: "table_ent ?t = (table_ent t)(?i := None)" and ok: "table_ok ?t"
      using Suc.prems by (auto simp: table_ent_def table_ok_def nth_list_update fun_eq_iff)
    have split: "\<And>j. j < ?n - left \<Longrightarrow> j < ?n - Suc left \<or> j = ?i" by linarith
    show ?case
    proof (cases "table_is_occupied t (tb_buckets t - of_nat (Suc left))")
      case True
      have "\<forall>j < unat (tb_buckets ?t) - left. table_ent ?t j = None"
        using Suc.prems(3) split by (auto simp: ent)
      then show ?thesis using Suc.IH [OF ok] Suc.prems(2) True i by (simp add: Let_def)
    next
      case False
      then have "table_ent t ?i = None" unfolding table_is_occupied_def i by (simp add: table_ent_def)
      then have "\<forall>j < ?n - left. table_ent t j = None" using Suc.prems(3) split by blast
      then show ?thesis using Suc.IH [OF Suc.prems(1)] Suc.prems(2) False by (simp add: Let_def)
    qed
  qed
  then show "table_ok (table_clear_from left t)" "table_ent (table_clear_from left t) = (\<lambda>_. None)"
    "tb_buckets (table_clear_from left t) = tb_buckets t" by blast+
qed

lemma table_clear_view:
  assumes "table_ok t"
  shows "table_ok (table_clear DROP t)" "table_ent (table_clear DROP t) = (\<lambda>_. None)"
    "tb_buckets (table_clear DROP t) = tb_buckets t"
  using assms clear_from_view [OF assms, of "unat (tb_buckets t)"]
  by (auto simp: table_clear_def table_ok_def table_ent_def)

text \<open>The values in bucket order are the payloads of the entries.\<close>

lemma values_view:
  assumes "table_ok t"
  shows "mset (table_values t) = image_mset snd (entries (unat (tb_buckets t)) (table_ent t))"
proof -
  let ?n = "unat (tb_buckets t)"
  let ?f = "\<lambda>index. if \<not> table_is_occupied t index then None else Some (table_payload t (occupied_new index))"
  let ?is = "filter (\<lambda>i. table_ent t i \<noteq> None) [0..<?n]"
  have payload: "table_payload t (occupied_new (of_nat i)) = p" if "table_ent t i = Some (h, p)" for i h p
    using payload_ent [OF assms that] by (simp add: occ_def)
  have "table_is_occupied t (of_nat i) \<longleftrightarrow> table_ent t i \<noteq> None" if "i < ?n" for i
    using table_index [OF assms that] that by (simp add: table_is_occupied_def table_ent_def)
  note view = payload this
  have "table_values t = List.map_filter (\<lambda>i. map_option snd (table_ent t i)) [0..<?n]"
    unfolding table_values_def List.map_filter_def filter_map o_def map_map
    by (rule map_cong) (auto simp: view intro!: filter_cong)
  also have "\<dots> = map (\<lambda>i. snd (the (table_ent t i))) ?is"
    unfolding List.map_filter_def by (rule map_cong) (auto intro: filter_cong)
  finally have "mset (table_values t) = image_mset (\<lambda>i. snd (the (table_ent t i))) (mset ?is)" by simp
  also have "mset ?is = mset_set {i. i < ?n \<and> table_ent t i \<noteq> None}"
    by (simp only: mset_filter mset_upt filter_mset_mset_set) (auto intro: arg_cong [where f = mset_set])
  finally show ?thesis by (simp add: entries_def image_mset.compositionality o_def)
qed

section \<open>Probes of a table's owner\<close>

lemma scan_new_at: "table_ok t \<Longrightarrow> scan_new table_directory t hash =
    \<lparr>sc_hash = hash, sc_index = of_nat (home (unat (tb_buckets t)) hash), sc_left = tb_buckets t\<rparr>"
  using raw.home_index [of t hash] by (simp add: scan_new_def)

lemmas table_spare_next = raw.spare_next [unfolded raw_buckets]

lemma vacant_from_walk:
  assumes "table_ok t" "p < unat (tb_buckets t)" "e < left" "table_ent t ((p + e) mod unat (tb_buckets t)) = None"
  shows "vacant_from t \<lparr>sc_hash = hash, sc_index = of_nat p, sc_left = l\<rparr> =
    (case probe_walk (unat (tb_buckets t)) (table_ent t) hash (\<lambda>_. Inr False :: unit + bool) p left of
       Inr (State_Vacant b) \<Rightarrow> Some b | _ \<Rightarrow> None)"
  using assms(2-)
proof (induction left arbitrary: p e)
  case (Suc left)
  note step = table_spare_next [OF assms(1) Suc.prems(1)]
  show ?case
  proof (cases "table_ent t p")
    case None
    then show ?thesis by (subst vacant_from.simps) (simp add: step probe_event_def)
  next
    case (Some hp)
    obtain actual q where hp: "hp = (actual, q)" by force
    obtain e' where e': "e = Suc e'" using Suc.prems(1,3) Some by (cases e) auto
    have n: "(p + 1) mod unat (tb_buckets t) < unat (tb_buckets t)" using raw.next_in [OF assms(1)] by simp
    note IH = Suc.IH [OF n, of e']
    have IH: "vacant_from t \<lparr>sc_hash = hash, sc_index = of_nat ((p + 1) mod unat (tb_buckets t)), sc_left = l\<rparr> =
      (case probe_walk (unat (tb_buckets t)) (table_ent t) hash (\<lambda>_. Inr False :: unit + bool) ((p + 1) mod unat (tb_buckets t)) left of
         Inr (State_Vacant b) \<Rightarrow> Some b | _ \<Rightarrow> None)"
      using Suc.prems(2,3) e' by (intro IH) (simp_all add: mod_add_left_eq)
    show ?thesis
    proof (cases "actual = hash")
      case True
      then show ?thesis using Some hp IH by (subst vacant_from.simps) (simp add: step probe_event_def)
    next
      case False
      then have "vacant_from t \<lparr>sc_hash = hash, sc_index = of_nat p, sc_left = l\<rparr> =
          vacant_from t \<lparr>sc_hash = hash, sc_index = of_nat ((p + 1) mod unat (tb_buckets t)), sc_left = l\<rparr>"
        using Some hp by (subst (1 2) vacant_from.simps) (simp add: step)
      then show ?thesis using Some hp False IH by (simp add: probe_event_def)
    qed
  qed
qed simp

lemma spare_from_walk:
  assumes "qr_table Q owner = t" "table_ok t" "p < unat (tb_buckets t)" "e < left"
    "table_ent t ((p + e) mod unat (tb_buckets t)) = None"
  shows "spare_from Q owner hash matches \<lparr>sc_hash = hash, sc_index = of_nat p, sc_left = l\<rparr> =
    (case probe_walk (unat (tb_buckets t)) (table_ent t) hash (\<lambda>b. Inr (matches (qr_value Q owner b)) :: unit + bool) p left of
       Inr (State_Vacant b) \<Rightarrow> Some (Inr \<lparr>vc_owner = owner, vc_bucket = b, vc_phase = hash\<rparr>)
     | Inr (State_Occupied b) \<Rightarrow> Some (Inl (qr_occupied Q owner b))
     | _ \<Rightarrow> None)"
  using assms(3-)
proof (induction left arbitrary: p e)
  case (Suc left)
  note step = table_spare_next [OF assms(2) Suc.prems(1)]
  show ?case
  proof (cases "table_ent t p")
    case None
    then show ?thesis by (subst spare_from.simps) (simp add: assms(1) step probe_event_def)
  next
    case (Some hp)
    obtain actual q where hp: "hp = (actual, q)" by force
    obtain e' where e': "e = Suc e'" using Suc.prems(1,3) Some by (cases e) auto
    have n: "(p + 1) mod unat (tb_buckets t) < unat (tb_buckets t)" using raw.next_in [OF assms(2)] by simp
    note IH = Suc.IH [OF n, of e']
    have IH: "spare_from Q owner hash matches \<lparr>sc_hash = hash, sc_index = of_nat ((p + 1) mod unat (tb_buckets t)), sc_left = l\<rparr> =
      (case probe_walk (unat (tb_buckets t)) (table_ent t) hash (\<lambda>b. Inr (matches (qr_value Q owner b)) :: unit + bool)
         ((p + 1) mod unat (tb_buckets t)) left of
         Inr (State_Vacant b) \<Rightarrow> Some (Inr \<lparr>vc_owner = owner, vc_bucket = b, vc_phase = hash\<rparr>)
       | Inr (State_Occupied b) \<Rightarrow> Some (Inl (qr_occupied Q owner b))
       | _ \<Rightarrow> None)"
      using Suc.prems(2,3) e' by (intro IH) (simp_all add: mod_add_left_eq)
    show ?thesis
    proof (cases "actual = hash")
      case True
      then show ?thesis using Some hp IH by (subst spare_from.simps) (simp add: assms(1) step probe_event_def)
    next
      case False
      then have "spare_from Q owner hash matches \<lparr>sc_hash = hash, sc_index = of_nat p, sc_left = l\<rparr> =
          spare_from Q owner hash matches \<lparr>sc_hash = hash, sc_index = of_nat ((p + 1) mod unat (tb_buckets t)), sc_left = l\<rparr>"
        using Some hp by (subst (1 2) spare_from.simps) (simp add: assms(1) step)
      then show ?thesis using Some hp False IH by (simp add: probe_event_def)
    qed
  qed
qed simp

text \<open>
  What the probes return, given a vacancy: the first vacancy on the path for an insertion, the entry
  that alone matches, or the vacancy that proves there is none.
\<close>

definition vacancy_at :: "'p table \<Rightarrow> u64 \<Rightarrow> nat \<Rightarrow> bool" where
  "vacancy_at t hash i \<longleftrightarrow> i < unat (tb_buckets t) \<and> table_ent t i = None \<and>
     (\<forall>e < dist (unat (tb_buckets t)) (home (unat (tb_buckets t)) hash) i.
        table_ent t ((home (unat (tb_buckets t)) hash + e) mod unat (tb_buckets t)) \<noteq> None)"

lemma vacancy_atD: "vacancy_at t hash i \<Longrightarrow> i < unat (tb_buckets t) \<and> table_ent t i = None"
  by (simp add: vacancy_at_def)

lemma vacancy_fill: "reach (unat (tb_buckets t)) (table_ent t) \<Longrightarrow> vacancy_at t hash i \<Longrightarrow>
    reach (unat (tb_buckets t)) ((table_ent t)(i \<mapsto> (hash, p)))"
  by (rule reach_fill) (auto simp: vacancy_at_def)

definition has_spare :: "'p table \<Rightarrow> bool" where
  "has_spare t \<longleftrightarrow> table_ok t \<and> reach (unat (tb_buckets t)) (table_ent t) \<and>
     size (entries (unat (tb_buckets t)) (table_ent t)) < unat (tb_buckets t)"

lemma has_spareE:
  assumes "has_spare t"
  obtains v where "table_ok t" "reach (unat (tb_buckets t)) (table_ent t)" "v < unat (tb_buckets t)" "table_ent t v = None"
  using assms entries_vacancy unfolding has_spare_def by blast

lemma scan_spare:
  assumes "has_spare t"
  shows "raw_scan table_directory SPARE t hash matches =
    Some (probe_walk (unat (tb_buckets t)) (table_ent t) hash matches (home (unat (tb_buckets t)) hash) (unat (tb_buckets t)))"
proof -
  obtain v where "table_ok t" "v < unat (tb_buckets t)" "table_ent t v = None" using assms by (rule has_spareE)
  then show ?thesis using raw.scan_walk [of t SPARE v hash matches] by simp
qed

lemma spare_loops:
  assumes "has_spare t"
  shows "vacant_from t (scan_new table_directory t hash) =
      (case probe_walk (unat (tb_buckets t)) (table_ent t) hash (\<lambda>_. Inr False :: unit + bool)
          (home (unat (tb_buckets t)) hash) (unat (tb_buckets t)) of
        Inr (State_Vacant b) \<Rightarrow> Some b | _ \<Rightarrow> None)"
    "qr_table Q owner = t \<Longrightarrow> probe_spare Q owner hash matches =
      (case probe_walk (unat (tb_buckets t)) (table_ent t) hash (\<lambda>b. Inr (matches (qr_value Q owner b)) :: unit + bool)
          (home (unat (tb_buckets t)) hash) (unat (tb_buckets t)) of
        Inr (State_Vacant b) \<Rightarrow> Some (Inr \<lparr>vc_owner = owner, vc_bucket = b, vc_phase = hash\<rparr>)
      | Inr (State_Occupied b) \<Rightarrow> Some (Inl (qr_occupied Q owner b))
      | _ \<Rightarrow> None)"
proof -
  obtain v where v: "table_ok t" "v < unat (tb_buckets t)" "table_ent t v = None" using assms by (rule has_spareE)
  let ?n = "unat (tb_buckets t)"
  have n: "0 < ?n" using v(2) by simp
  note h = home_less [OF n, of hash]
  have at: "table_ent t ((home ?n hash + dist ?n (home ?n hash) v) mod ?n) = None" using v h by (simp add: add_dist)
  show "vacant_from t (scan_new table_directory t hash) =
      (case probe_walk ?n (table_ent t) hash (\<lambda>_. Inr False :: unit + bool) (home ?n hash) ?n of
        Inr (State_Vacant b) \<Rightarrow> Some b | _ \<Rightarrow> None)"
    unfolding scan_new_at [OF v(1)] by (rule vacant_from_walk [OF v(1) h dist_less [OF n] at])
  show "probe_spare Q owner hash matches =
      (case probe_walk ?n (table_ent t) hash (\<lambda>b. Inr (matches (qr_value Q owner b)) :: unit + bool) (home ?n hash) ?n of
        Inr (State_Vacant b) \<Rightarrow> Some (Inr \<lparr>vc_owner = owner, vc_bucket = b, vc_phase = hash\<rparr>)
      | Inr (State_Occupied b) \<Rightarrow> Some (Inl (qr_occupied Q owner b))
      | _ \<Rightarrow> None)" if "qr_table Q owner = t"
    unfolding probe_spare_def that scan_new_at [OF v(1)]
    by (rule spare_from_walk [OF that v(1) h dist_less [OF n] at])
qed

text \<open>The entry that alone matches.\<close>

definition sole_match :: "('q, 'p, 'v, 'o) query \<Rightarrow> 'q \<Rightarrow> u64 \<Rightarrow> ('v \<Rightarrow> bool) \<Rightarrow> nat \<Rightarrow> bool" where
  "sole_match Q owner hash matches i \<longleftrightarrow>
     (let t = qr_table Q owner in i < unat (tb_buckets t) \<and> (\<exists>p. table_ent t i = Some (hash, p)) \<and>
        matches (qr_value Q owner (occ i)) \<and>
        (\<forall>j < unat (tb_buckets t). j \<noteq> i \<longrightarrow> (\<exists>q. table_ent t j = Some (hash, q)) \<longrightarrow> \<not> matches (qr_value Q owner (occ j))))"

definition no_match :: "('q, 'p, 'v, 'o) query \<Rightarrow> 'q \<Rightarrow> u64 \<Rightarrow> ('v \<Rightarrow> bool) \<Rightarrow> bool" where
  "no_match Q owner hash matches \<longleftrightarrow>
     (let t = qr_table Q owner in \<forall>j < unat (tb_buckets t).
        (\<exists>q. table_ent t j = Some (hash, q)) \<longrightarrow> \<not> matches (qr_value Q owner (occ j)))"

lemma walk_sole:
  assumes "has_spare (qr_table Q owner)" "sole_match Q owner hash matches i"
  shows "probe_walk (unat (tb_buckets (qr_table Q owner))) (table_ent (qr_table Q owner)) hash
      (\<lambda>b. Inr (matches (qr_value Q owner b)) :: 'e + bool)
      (home (unat (tb_buckets (qr_table Q owner))) hash) (unat (tb_buckets (qr_table Q owner))) = Inr (State_Occupied (occ i))"
proof -
  obtain p where "table_ent (qr_table Q owner) i = Some (hash, p)" using assms(2) by (auto simp: sole_match_def Let_def)
  then show ?thesis
    using assms by (intro probe_walk_occupied) (auto simp: sole_match_def has_spare_def Let_def)
qed

lemma walk_none:
  assumes "has_spare (qr_table Q owner)" "no_match Q owner hash matches"
  obtains i where "vacancy_at (qr_table Q owner) hash i"
    "probe_walk (unat (tb_buckets (qr_table Q owner))) (table_ent (qr_table Q owner)) hash
      (\<lambda>b. Inr (matches (qr_value Q owner b)) :: 'e + bool)
      (home (unat (tb_buckets (qr_table Q owner))) hash) (unat (tb_buckets (qr_table Q owner))) = Inr (State_Vacant (vac i))"
proof -
  obtain v where v: "v < unat (tb_buckets (qr_table Q owner))" "table_ent (qr_table Q owner) v = None"
    using assms(1) by (rule has_spareE)
  have no: "Inr (matches (qr_value Q owner (occ j))) = (Inr False :: 'e + bool)"
    if "j < unat (tb_buckets (qr_table Q owner))" "table_ent (qr_table Q owner) j = Some (hash, q)" for j q
    using assms(2) that by (auto simp: no_match_def Let_def)
  show ?thesis
    using no that
    by (rule probe_walk_vacant [where ent = "table_ent (qr_table Q owner)" and hash = hash
          and matches = "\<lambda>b. Inr (matches (qr_value Q owner b)) :: 'e + bool", OF v])
       (auto simp: vacancy_at_def)
qed

text \<open>The bucket at which the walk of a query stops.\<close>

definition hit :: "('q, 'p, 'v, 'o) query \<Rightarrow> 'q \<Rightarrow> u64 \<Rightarrow> ('v \<Rightarrow> bool) \<Rightarrow> nat \<Rightarrow> bool" where
  "hit Q owner hash matches i \<longleftrightarrow>
     (let t = qr_table Q owner in i < unat (tb_buckets t) \<and> (\<exists>p. table_ent t i = Some (hash, p)) \<and>
        matches (qr_value Q owner (occ i)) \<and>
        probe_walk (unat (tb_buckets t)) (table_ent t) hash (\<lambda>b. Inr (matches (qr_value Q owner b)) :: unit + bool)
          (home (unat (tb_buckets t)) hash) (unat (tb_buckets t)) = Inr (State_Occupied (occ i)))"

lemma probe_hit:
  assumes "has_spare (qr_table Q owner)" "hit Q owner hash matches i"
  shows "probe_scan Q owner hash matches = Some (State_Occupied (occ i))"
    "probe_find Q owner hash matches = Some (Some (qr_occupied Q owner (occ i)))"
    "probe_reserve Q vacant owner hash matches = Some (Entry_Occupied ())"
    "probe_spare Q owner hash matches = Some (Inl (qr_occupied Q owner (occ i)))"
proof -
  have walk: "probe_walk (unat (tb_buckets (qr_table Q owner))) (table_ent (qr_table Q owner)) hash
      (\<lambda>b. Inr (matches (qr_value Q owner b)) :: unit + bool)
      (home (unat (tb_buckets (qr_table Q owner))) hash) (unat (tb_buckets (qr_table Q owner))) = Inr (State_Occupied (occ i))"
    using assms(2) by (simp add: hit_def Let_def)
  show scan: "probe_scan Q owner hash matches = Some (State_Occupied (occ i))"
    by (simp add: probe_scan_def probe_try_scan_def scan_spare [OF assms(1)] walk)
  then show "probe_find Q owner hash matches = Some (Some (qr_occupied Q owner (occ i)))"
    "probe_reserve Q vacant owner hash matches = Some (Entry_Occupied ())"
    by (simp_all add: probe_find_def probe_reserve_def)
  show "probe_spare Q owner hash matches = Some (Inl (qr_occupied Q owner (occ i)))"
    by (simp add: spare_loops(2) [OF assms(1) refl] walk)
qed

lemma hit_or_none:
  assumes "has_spare (qr_table Q owner)"
  shows "(\<exists>i. hit Q owner hash matches i) \<or> no_match Q owner hash matches"
proof (rule disjCI)
  assume "\<not> no_match Q owner hash matches"
  then obtain i p where i: "i < unat (tb_buckets (qr_table Q owner))" "table_ent (qr_table Q owner) i = Some (hash, p)"
      "matches (qr_value Q owner (occ i))" by (auto simp: no_match_def Let_def)
  show "\<exists>i. hit Q owner hash matches i"
    by (rule probe_walk_some [where matches = "\<lambda>b. Inr (matches (qr_value Q owner b)) :: unit + bool"
          and ent = "table_ent (qr_table Q owner)", OF _ i(1,2)])
       (use assms i(3) in \<open>auto simp: has_spare_def hit_def Let_def\<close>)
qed

lemma sole_hit:
  assumes "has_spare (qr_table Q owner)" "sole_match Q owner hash matches i"
  shows "hit Q owner hash matches i"
  using walk_sole [OF assms] assms(2) by (auto simp: hit_def sole_match_def Let_def)

lemma probe_sole:
  assumes "has_spare (qr_table Q owner)" "sole_match Q owner hash matches i"
  shows "probe_find Q owner hash matches = Some (Some (qr_occupied Q owner (occ i)))"
    "probe_reserve Q vacant owner hash matches = Some (Entry_Occupied ())"
    "probe_spare Q owner hash matches = Some (Inl (qr_occupied Q owner (occ i)))"
proof -
  show "probe_find Q owner hash matches = Some (Some (qr_occupied Q owner (occ i)))"
    "probe_reserve Q vacant owner hash matches = Some (Entry_Occupied ())"
    "probe_spare Q owner hash matches = Some (Inl (qr_occupied Q owner (occ i)))"
    using probe_hit [OF assms(1) sole_hit [OF assms]] by simp_all
qed

lemma probe_member_at:
  assumes "has_spare (qr_table Q owner)" "\<not> no_match Q owner hash matches"
  obtains i p where "i < unat (tb_buckets (qr_table Q owner))" "table_ent (qr_table Q owner) i = Some (hash, p)"
    "matches (qr_value Q owner (occ i))" "probe_member Q owner hash matches = Some \<lparr>fd_owner = owner, fd_bucket = occ i\<rparr>"
proof -
  obtain i p where i: "i < unat (tb_buckets (qr_table Q owner))" "table_ent (qr_table Q owner) i = Some (hash, p)"
      "matches (qr_value Q owner (occ i))" using assms(2) by (auto simp: no_match_def Let_def)
  have "table_ok (qr_table Q owner)" using assms(1) by (simp add: has_spare_def)
  from raw.member_found [where matches = "\<lambda>b. matches (qr_value Q owner b)", OF this _ i(2)] i
  obtain j q where "j < unat (tb_buckets (qr_table Q owner))" "table_ent (qr_table Q owner) j = Some (hash, q)"
      "matches (qr_value Q owner (occ j))"
      "raw_member table_directory (qr_table Q owner) hash (\<lambda>b. matches (qr_value Q owner b)) = Some (occ j)"
    by auto
  then show ?thesis using that by (simp add: probe_member_def)
qed

lemma probe_none:
  assumes "has_spare (qr_table Q owner)" "no_match Q owner hash matches"
  obtains i where "vacancy_at (qr_table Q owner) hash i"
    "probe_scan Q owner hash matches = Some (State_Vacant (vac i))"
    "probe_new Q owner hash matches = Some \<lparr>pr_owner = owner, pr_state = State_Vacant (vac i), pr_hash = hash\<rparr>"
    "probe_find Q owner hash matches = Some None"
    "\<And>vacant. probe_reserve Q vacant owner hash matches =
      Some (Entry_Vacant (vacant \<lparr>vc_owner = owner, vc_bucket = vac i, vc_phase = ()\<rparr> hash))"
    "probe_spare Q owner hash matches = Some (Inr \<lparr>vc_owner = owner, vc_bucket = vac i, vc_phase = hash\<rparr>)"
proof -
  obtain i where i: "vacancy_at (qr_table Q owner) hash i"
    and walk: "probe_walk (unat (tb_buckets (qr_table Q owner))) (table_ent (qr_table Q owner)) hash
      (\<lambda>b. Inr (matches (qr_value Q owner b)) :: unit + bool)
      (home (unat (tb_buckets (qr_table Q owner))) hash) (unat (tb_buckets (qr_table Q owner))) = Inr (State_Vacant (vac i))"
    by (rule walk_none [OF assms])
  have scan: "probe_scan Q owner hash matches = Some (State_Vacant (vac i))"
    by (simp add: probe_scan_def probe_try_scan_def scan_spare [OF assms(1)] walk)
  show ?thesis
    using i scan by (rule that) (simp_all add: probe_new_def probe_find_def probe_reserve_def scan spare_loops(2) [OF assms(1) refl] walk)
qed

lemma probe_vacant_at:
  assumes "has_spare (qr_table Q owner)"
  obtains i where "vacancy_at (qr_table Q owner) hash i"
    "probe_vacant Q owner hash = Some \<lparr>vc_owner = owner, vc_bucket = vac i, vc_phase = hash\<rparr>"
proof -
  let ?t = "qr_table Q owner"
  obtain v where v: "v < unat (tb_buckets ?t)" "table_ent ?t v = None" using assms by (rule has_spareE)
  obtain i where "vacancy_at ?t hash i"
    and walk: "probe_walk (unat (tb_buckets ?t)) (table_ent ?t) hash (\<lambda>_. Inr False :: unit + bool)
      (home (unat (tb_buckets ?t)) hash) (unat (tb_buckets ?t)) = Inr (State_Vacant (vac i))"
    by (rule probe_walk_vacant [where ent = "table_ent ?t" and hash = hash and matches = "\<lambda>_. Inr False :: unit + bool", OF v])
       (auto simp: vacancy_at_def)
  then show ?thesis using that by (simp add: probe_vacant_def spare_loops(1) [OF assms])
qed

section \<open>Removal through a hole\<close>

text \<open>
  \<open>owned\<close> is what the owner keeps beside its table, which may refer to the table's buckets; the
  control it writes and the shifts it makes are those of the table.
\<close>

locale mutator =
  fixes M :: "('q, 'p) mutation" and owned :: "'q \<Rightarrow> bool"
  assumes vacate_law: "owned q \<Longrightarrow> table_ok (mu_table M q) \<Longrightarrow> i < unat (tb_buckets (mu_table M q)) \<Longrightarrow>
      t = (mu_table M q)\<lparr>tb_controls := (tb_controls (mu_table M q))[i := EMPTY]\<rparr> \<Longrightarrow>
      owned (mu_set_table M q t) \<and> mu_table M (mu_set_table M q t) = t"
    and owner_shift_law: "owned q \<Longrightarrow> table_ok (mu_table M q) \<Longrightarrow> g < unat (tb_buckets (mu_table M q)) \<Longrightarrow>
      j < unat (tb_buckets (mu_table M q)) \<Longrightarrow> g \<noteq> j \<Longrightarrow> table_ent (mu_table M q) j = Some (h, p) \<Longrightarrow>
      owned (mu_shift M q (vac g) (occ j) h) \<and>
      mu_table M (mu_shift M q (vac g) (occ j) h) = table_shift (mu_table M q) (vac g) (occ j) h"
begin

sublocale shiftable "hole_directory M" "\<lambda>q. owned q \<and> table_ok (mu_table M q)" "\<lambda>q. table_ent (mu_table M q)" "mu_shift M"
proof
  fix q :: 'q and i :: usize and h :: u64 and g j :: nat and p :: 'p
  assume q: "owned q \<and> table_ok (mu_table M q)"
  show "extent_ok (dir_buckets (hole_directory M) q)" using q by (simp add: hole_directory_def table_ok_def)
  show "dir_hash (hole_directory M) q i = map_option fst (table_ent (mu_table M q) (unat i))"
    if "unat i < unat (dir_buckets (hole_directory M) q)"
    using raw.hash_law [of "mu_table M q" i] q that
    by (simp add: hole_directory_def) (simp add: table_directory_def)
  show "(owned (mu_shift M q (vac g) (occ j) h) \<and> table_ok (mu_table M (mu_shift M q (vac g) (occ j) h))) \<and>
      dir_buckets (hole_directory M) (mu_shift M q (vac g) (occ j) h) = dir_buckets (hole_directory M) q \<and>
      table_ent (mu_table M (mu_shift M q (vac g) (occ j) h)) =
        (table_ent (mu_table M q))(g := table_ent (mu_table M q) j, j := None)"
    if "g < unat (dir_buckets (hole_directory M) q)" "j < unat (dir_buckets (hole_directory M) q)" "g \<noteq> j"
      "table_ent (mu_table M q) j = Some (h, p)"
    using owner_shift_law [of q g j h p] shift_view [of "mu_table M q" g j h p] q that
    by (simp add: hole_directory_def)
qed

lemma hole_close_spare:
  assumes "owned q" "has_spare (mu_table M q)" "i < unat (tb_buckets (mu_table M q))" "table_ent (mu_table M q) i = Some (h, p)"
  shows "\<exists>q'. hole_close M q (occ i) = Some q' \<and> owned q' \<and> has_spare (mu_table M q') \<and>
    tb_buckets (mu_table M q') = tb_buckets (mu_table M q) \<and>
    entries (unat (tb_buckets (mu_table M q))) (table_ent (mu_table M q)) =
      add_mset (h, p) (entries (unat (tb_buckets (mu_table M q))) (table_ent (mu_table M q')))"
proof -
  let ?t = "mu_table M q"
  let ?w = "?t\<lparr>tb_controls := (tb_controls ?t)[i := EMPTY]\<rparr>"
  let ?q = "mu_set_table M q ?w" and ?n = "unat (tb_buckets ?t)"
  have t: "table_ok ?t" "reach ?n (table_ent ?t)" "size (entries ?n (table_ent ?t)) < ?n"
    using assms(2) by (auto simp: has_spare_def)
  obtain v where v: "v < ?n" "table_ent ?t v = None" using assms(2) by (rule has_spareE)
  have vi: "v \<noteq> i" using v(2) assms(4) by auto
  have set: "owned ?q" "mu_table M ?q = ?w" using vacate_law [OF assms(1) t(1) assms(3) refl] by auto
  note view = vacate_view [OF t(1) assms(3)]
  have bk: "dir_buckets (hole_directory M) ?q = tb_buckets ?t" by (simp add: hole_directory_def set)
  have except: "reach_except ?n (table_ent ?w) {i}" unfolding view(2) by (rule reach_vacate [OF t(2)])
  have "\<exists>q'. raw_close (hole_directory M) (mu_shift M) ?q (vac i) = Some q' \<and> (owned q' \<and> table_ok (mu_table M q')) \<and>
      dir_buckets (hole_directory M) q' = dir_buckets (hole_directory M) ?q \<and> reach ?n (table_ent (mu_table M q')) \<and>
      entries ?n (table_ent (mu_table M q')) = entries ?n (table_ent (mu_table M ?q))"
    using close_restores [of ?q i v] set view except v vi assms(3) by (simp add: bk)
  then obtain q' where q': "raw_close (hole_directory M) (mu_shift M) ?q (vac i) = Some q'" "owned q'" "table_ok (mu_table M q')"
      "tb_buckets (mu_table M q') = tb_buckets ?t" "reach ?n (table_ent (mu_table M q'))"
      "entries ?n (table_ent (mu_table M q')) = entries ?n (table_ent ?w)"
    by (auto simp: bk set(2)) (simp add: hole_directory_def)
  have close: "hole_close M q (occ i) = Some q'"
    using q'(1) table_index [OF t(1) assms(3)] by (simp add: hole_close_def Let_def vac_def)
  have ents: "entries ?n (table_ent ?t) = add_mset (h, p) (entries ?n (table_ent (mu_table M q')))"
    unfolding q'(6) view(2) by (rule entries_vacate [where ent = "table_ent ?t", OF assms(3,4)])
  then have "size (entries ?n (table_ent (mu_table M q'))) < ?n" using t(3) by simp
  then show ?thesis using close q' ents by (auto simp: has_spare_def)
qed

lemma hole_take_spare:
  assumes "owned q" "has_spare (mu_table M q)" "i < unat (tb_buckets (mu_table M q))" "table_ent (mu_table M q) i = Some (h, p)"
  shows "\<exists>q'. hole_take M q (occ i) = Some (p, q') \<and> hole_retire M q (occ i) = Some q' \<and> owned q' \<and>
    has_spare (mu_table M q') \<and> tb_buckets (mu_table M q') = tb_buckets (mu_table M q) \<and>
    entries (unat (tb_buckets (mu_table M q))) (table_ent (mu_table M q)) =
      add_mset (h, p) (entries (unat (tb_buckets (mu_table M q))) (table_ent (mu_table M q')))"
proof -
  have "table_ok (mu_table M q)" using assms(2) by (simp add: has_spare_def)
  then have "the (tb_payloads (mu_table M q) ! unat (occupied_index (occ i))) = p"
    using table_entD [OF assms(4)] table_index [OF _ assms(3)] by simp
  then show ?thesis using hole_close_spare [OF assms] by (auto simp: hole_take_def hole_retire_def Let_def)
qed

end

end
