(* ===== verification/O3_Map_Flat.thy ===== *)
theory O3_Map_Flat
  imports O3_Map_Table O3_Layout_Proofs
begin

text \<open>
  The flat hash table (src/src/depot/map/flat/mod.rs, raw.rs, errors.rs) and the layout of its
  planes (src/src/depot/map/raw/mod.rs): a table with a logical capacity of at most half its
  buckets. The hash of a value and the equality of keys belong to the caller: every operation takes
  the hash and a matcher.
\<close>

section \<open>Layout\<close>

text \<open>The planes are controls, hashes and payloads of type \<open>P\<close>.\<close>

definition map_recipe :: "ty \<Rightarrow> usize \<Rightarrow> recipe" where
  "map_recipe P buckets =
     Tail (Tail (Root \<lparr>ty_size = 1, ty_align = 1\<rparr> buckets) \<lparr>ty_size = 8, ty_align = 8\<rparr> buckets) P buckets"

record map_layout =
  ml_bundle :: field_bundle
  ml_buckets :: usize
  ml_shape :: plan

definition map_layout_try_plan :: "ty \<Rightarrow> plan \<Rightarrow> alloc_overflow + map_layout" where
  "map_layout_try_plan P pl =
     (let buckets = plan_buckets pl in
      case recipe_try_build (map_recipe P buckets) of
        Inl e \<Rightarrow> Inl e
      | Inr b \<Rightarrow> Inr \<lparr>ml_bundle = b, ml_buckets = buckets, ml_shape = pl\<rparr>)"

definition map_shape_layout :: "ty \<Rightarrow> plan \<Rightarrow> map_layout" where
  "map_shape_layout P shape =
     (let buckets = plan_buckets shape
      in \<lparr>ml_bundle = recipe_build (map_recipe P buckets), ml_buckets = buckets, ml_shape = shape\<rparr>)"

definition map_shape_capacity :: "plan \<Rightarrow> u32" where
  "map_shape_capacity shape = pl_capacity shape"

definition table_try_new :: "(layout \<Rightarrow> bool) \<Rightarrow> map_layout \<Rightarrow> alloc_exhausted + 'p table" where
  "table_try_new grant l = (case layout_try_allocate grant (bundle_layout_of (ml_bundle l)) of
       Inl e \<Rightarrow> Inl e
     | Inr _ \<Rightarrow> Inr (table_from_fields (ml_buckets l)))"

section \<open>Flat tables\<close>

record 'v flat =
  fl_table :: "'v table"
  fl_len :: u32
  fl_shape :: plan

datatype 'v insert_error = Insert_Full 'v | Insert_Occupied 'v

text \<open>A shared query hands out the payload, an exclusive one the found bucket.\<close>

definition flat_query :: "('v flat, 'v, 'v, 'v) query" where
  "flat_query = \<lparr>qr_SPARE = True, qr_table = fl_table, qr_value = \<lambda>t. table_payload (fl_table t),
     qr_occupied = \<lambda>t. table_payload (fl_table t)\<rparr>"

definition flat_query_mut :: "('v flat, 'v, 'v, 'v flat found) query" where
  "flat_query_mut = \<lparr>qr_SPARE = True, qr_table = fl_table, qr_value = \<lambda>t. table_payload (fl_table t),
     qr_occupied = \<lambda>t b. \<lparr>fd_owner = t, fd_bucket = b\<rparr>\<rparr>"

definition flat_mutation :: "('v flat, 'v) mutation" where
  "flat_mutation = \<lparr>mu_table = fl_table, mu_set_table = \<lambda>t table. t\<lparr>fl_table := table\<rparr>,
     mu_shift = \<lambda>t hole occupied hash. t\<lparr>fl_table := table_shift (fl_table t) hole occupied hash\<rparr>\<rparr>"

definition flat_try_new :: "(layout \<Rightarrow> bool) \<Rightarrow> ty \<Rightarrow> plan \<Rightarrow> alloc_error + 'v flat" where
  "flat_try_new grant P pl = (case map_layout_try_plan P pl of
       Inl Overflow \<Rightarrow> Inl Error_Overflow
     | Inr layout \<Rightarrow>
         let shape = ml_shape layout in
         case table_try_new grant layout of
           Inl Exhausted \<Rightarrow> Inl Error_Exhausted
         | Inr table \<Rightarrow> Inr \<lparr>fl_table = table, fl_len = 0, fl_shape = shape\<rparr>)"

definition flat_len :: "'v flat \<Rightarrow> usize" where
  "flat_len t = ucast (fl_len t)"

definition flat_is_empty :: "'v flat \<Rightarrow> bool" where
  "flat_is_empty t \<longleftrightarrow> flat_len t = 0"

definition flat_vacancy_new :: "('v flat, unit) vacancy \<Rightarrow> u64 \<Rightarrow> ('v flat, u64) vacancy option" where
  "flat_vacancy_new entry hash =
     (let t = vc_owner entry in
      if ucast (pl_capacity (fl_shape t)) \<le> (ucast (fl_len t) :: usize) then None
      else Some (vacancy_with_phase entry hash))"

definition flat_vacancy_insert :: "('v flat, u64) vacancy \<Rightarrow> 'v \<Rightarrow> 'v flat" where
  "flat_vacancy_insert v value =
     (let t = (vc_owner v)\<lparr>fl_table := table_insert (fl_table (vc_owner v)) (vc_bucket v) (vc_phase v) value\<rparr>
      in t\<lparr>fl_len := fl_len t + 1\<rparr>)"

definition flat_found_get :: "'v flat found \<Rightarrow> 'v" where
  "flat_found_get f = table_payload (fl_table (fd_owner f)) (fd_bucket f)"

text \<open>Writing through the reference that \<open>get_mut\<close> or \<open>into_mut\<close> hands out.\<close>

definition flat_found_set :: "'v flat found \<Rightarrow> 'v \<Rightarrow> 'v flat" where
  "flat_found_set f value = (fd_owner f)\<lparr>fl_table := table_payload_set (fl_table (fd_owner f)) (fd_bucket f) value\<rparr>"

definition flat_found_remove :: "'v flat found \<Rightarrow> ('v \<times> 'v flat) option" where
  "flat_found_remove f =
     (let t = (fd_owner f)\<lparr>fl_len := fl_len (fd_owner f) - 1\<rparr> in hole_take flat_mutation t (fd_bucket f))"

definition flat_found_discard :: "'v flat found \<Rightarrow> 'v flat option" where
  "flat_found_discard f = map_option snd (flat_found_remove f)"

definition flat_get :: "'v flat \<Rightarrow> u64 \<Rightarrow> ('v \<Rightarrow> bool) \<Rightarrow> 'v option option" where
  "flat_get t hash matches = probe_find flat_query t hash matches"

definition flat_occupied :: "'v flat \<Rightarrow> u64 \<Rightarrow> ('v \<Rightarrow> bool) \<Rightarrow> 'v flat found option option" where
  "flat_occupied t hash matches = probe_find flat_query_mut t hash matches"

definition flat_get_mut :: "'v flat \<Rightarrow> u64 \<Rightarrow> ('v \<Rightarrow> bool) \<Rightarrow> 'v flat found option option" where
  "flat_get_mut t hash matches = flat_occupied t hash matches"

definition flat_entry ::
  "'v flat \<Rightarrow> u64 \<Rightarrow> ('v \<Rightarrow> bool) \<Rightarrow> ('v flat found, ('v flat, u64) vacancy) map_entry option option" where
  "flat_entry t hash matches = (case probe_new flat_query_mut t hash matches of
       None \<Rightarrow> None
     | Some p \<Rightarrow> Some (case probe_entry flat_query_mut flat_vacancy_new p of
           Entry_Occupied occupied \<Rightarrow> Some (Entry_Occupied occupied)
         | Entry_Vacant vacant \<Rightarrow> map_option Entry_Vacant vacant))"

definition flat_try_insert :: "'v flat \<Rightarrow> u64 \<Rightarrow> 'v \<Rightarrow> ('v \<Rightarrow> bool) \<Rightarrow> ('v insert_error + 'v flat) option" where
  "flat_try_insert t hash value matches =
     (case probe_reserve flat_query_mut flat_vacancy_new t hash matches of
        None \<Rightarrow> None
      | Some (Entry_Occupied _) \<Rightarrow> Some (Inl (Insert_Occupied value))
      | Some (Entry_Vacant None) \<Rightarrow> Some (Inl (Insert_Full value))
      | Some (Entry_Vacant (Some vacant)) \<Rightarrow> Some (Inr (flat_vacancy_insert vacant value)))"

definition flat_remove :: "'v flat \<Rightarrow> u64 \<Rightarrow> ('v \<Rightarrow> bool) \<Rightarrow> ('v option \<times> 'v flat) option" where
  "flat_remove t hash matches = (case flat_occupied t hash matches of
       None \<Rightarrow> None
     | Some None \<Rightarrow> Some (None, t)
     | Some (Some f) \<Rightarrow> map_option (\<lambda>(v, t'). (Some v, t')) (flat_found_remove f))"

definition flat_retire :: "'v flat \<Rightarrow> u64 \<Rightarrow> ('v \<Rightarrow> bool) \<Rightarrow> 'v flat option" where
  "flat_retire t hash matches = (case flat_occupied t hash matches of
       None \<Rightarrow> None
     | Some None \<Rightarrow> Some t
     | Some (Some f) \<Rightarrow> flat_found_discard f)"

definition flat_values :: "'v flat \<Rightarrow> 'v list" where
  "flat_values t = table_values (fl_table t)"

definition flat_clear :: "bool \<Rightarrow> 'v flat \<Rightarrow> 'v flat" where
  "flat_clear DROP t =
     (if flat_is_empty t then t
      else (t\<lparr>fl_table := table_clear DROP (fl_table t)\<rparr>)\<lparr>fl_len := 0\<rparr>)"

text \<open>The admitted operations: the caller's proof retains a free entry, or a member.\<close>

definition flat_insert :: "'v flat \<Rightarrow> u64 \<Rightarrow> 'v \<Rightarrow> 'v flat option" where
  "flat_insert t hash value =
     map_option (\<lambda>entry. flat_vacancy_insert entry value) (probe_vacant flat_query_mut t hash)"

definition flat_admit ::
  "'v flat \<Rightarrow> u64 \<Rightarrow> ('v \<Rightarrow> bool) \<Rightarrow> ('v flat found, ('v flat, u64) vacancy) map_entry option" where
  "flat_admit t hash matches = map_option
     (\<lambda>r. case r of Inr entry \<Rightarrow> Entry_Vacant entry | Inl entry \<Rightarrow> Entry_Occupied entry)
     (probe_spare flat_query_mut t hash matches)"

definition flat_member :: "'v flat \<Rightarrow> u64 \<Rightarrow> ('v \<Rightarrow> bool) \<Rightarrow> 'v flat found option" where
  "flat_member t hash matches = probe_member flat_query_mut t hash matches"

section \<open>Plans and buckets\<close>

lemma bit_length_bounds: "0 < n \<Longrightarrow> n < 2 ^ bit_length n \<and> 2 ^ bit_length n \<le> 2 * n"
proof (induction n rule: bit_length.induct)
  case (1 n)
  show ?case
  proof (cases "n div 2 = 0")
    case True
    then have "n = 1" using 1(2) by (simp add: div_eq_0_iff)
    then show ?thesis by (simp add: bit_length.simps)
  next
    case False
    then have "n div 2 < 2 ^ bit_length (n div 2) \<and> 2 ^ bit_length (n div 2) \<le> 2 * (n div 2)" using 1 by simp
    moreover have "bit_length n = Suc (bit_length (n div 2))" using 1(2) by (subst bit_length.simps) simp
    ultimately show ?thesis using div_mult_mod_eq [of n 2] by auto
  qed
qed

lemma next_power_of_two_exact:
  assumes "1 < v" "unat v \<le> 2 ^ 31"
  shows "extent_ok (next_power_of_two v)" "unat v \<le> unat (next_power_of_two v)"
    "unat (next_power_of_two v) < 2 * unat v"
proof -
  have v: "1 < unat v" using assms(1) by (simp add: word_less_nat_alt)
  have pred: "unat (v - 1) = unat v - 1" using v by (intro unat_pred) auto
  define b where "b = bit_length (unat (v - 1))"
  have b: "unat v - 1 < 2 ^ b" "2 ^ b \<le> 2 * (unat v - 1)" using bit_length_bounds [of "unat v - 1"] v by (auto simp: b_def pred)
  have "(2 :: nat) ^ b < 2 ^ 32" using b(2) assms(2) by simp
  then have b31: "b \<le> 31" by (simp only: power_strict_increasing_iff)
  have "drop_bit (64 - b) (- 1 :: usize) = mask b"
    using b31 by (intro bit_word_eqI) (auto simp: bit_simps)
  then have "next_power_of_two v = 2 ^ b"
    using assms(1) by (simp add: next_power_of_two_def leading_zeros_def b_def [symmetric] mask_eq_exp_minus_1 not_le [symmetric])
  moreover have "(2 :: nat) ^ b \<le> 2 ^ 31" using b31 by (rule power_increasing) simp
  then have "unat (of_nat (2 ^ b) :: usize) = 2 ^ b" by (intro unat_of_nat_fits) simp
  ultimately have u: "unat (next_power_of_two v) = 2 ^ b" by simp
  show "extent_ok (next_power_of_two v)" using u b31 by (auto simp: extent_ok_def)
  show "unat v \<le> unat (next_power_of_two v)" "unat (next_power_of_two v) < 2 * unat v" using u b v by linarith+
qed

definition plan_ok :: "plan \<Rightarrow> bool" where
  "plan_ok pl \<longleftrightarrow> unat (pl_capacity pl) \<le> 2 ^ 30"

lemma plan_new_exact:
  "plan_new capacity = (if unat capacity \<le> 2 ^ 30 then Inr \<lparr>pl_capacity = ucast capacity\<rparr> else Inl (Capacity_Error capacity))"
proof -
  have "unat plan_MAX = 2 ^ 30" by (simp add: plan_MAX_def saturating_add_def)
  then show ?thesis by (simp add: plan_new_def word_less_nat_alt)
qed

lemma plan_buckets_exact:
  assumes "plan_ok pl"
  shows "pl_capacity pl = 0 \<longleftrightarrow> plan_buckets pl = 0"
    "pl_capacity pl \<noteq> 0 \<Longrightarrow> extent_ok (plan_buckets pl) \<and> 2 * unat (pl_capacity pl) \<le> unat (plan_buckets pl) \<and>
       unat (plan_buckets pl) < 4 * unat (pl_capacity pl)"
proof -
  let ?c = "ucast (pl_capacity pl) :: usize"
  have c: "unat ?c = unat (pl_capacity pl)" by (rule unat_ucast_widen) simp
  have c2: "unat (?c * 2) = 2 * unat (pl_capacity pl)"
    using unat_plane_end [of 0 ?c 2] assms by (simp add: c plan_ok_def)
  have z: "?c = 0 \<longleftrightarrow> pl_capacity pl = 0" using c by (metis unat_eq_zero)
  show "extent_ok (plan_buckets pl) \<and> 2 * unat (pl_capacity pl) \<le> unat (plan_buckets pl) \<and>
       unat (plan_buckets pl) < 4 * unat (pl_capacity pl)" if "pl_capacity pl \<noteq> 0"
  proof -
    have pos: "0 < unat (pl_capacity pl)" using that by (simp add: unat_gt_0)
    have "1 < ?c * 2" using c2 pos by (simp add: word_less_nat_alt)
    then show ?thesis using next_power_of_two_exact [of "?c * 2"] assms that z
      by (simp add: plan_buckets_def Let_def c2 plan_ok_def)
  qed
  then show "pl_capacity pl = 0 \<longleftrightarrow> plan_buckets pl = 0"
    using extent_bounds(3) z by (cases "pl_capacity pl = 0") (auto simp: plan_buckets_def)
qed

section \<open>The invariant\<close>

definition contents :: "'v flat \<Rightarrow> (u64 \<times> 'v) multiset" where
  "contents t = entries (unat (tb_buckets (fl_table t))) (table_ent (fl_table t))"

definition flat_ok :: "'v flat \<Rightarrow> bool" where
  "flat_ok t \<longleftrightarrow> plan_ok (fl_shape t) \<and> tb_buckets (fl_table t) = plan_buckets (fl_shape t) \<and>
     unat (fl_len t) = size (contents t) \<and> unat (fl_len t) \<le> unat (pl_capacity (fl_shape t)) \<and>
     (pl_capacity (fl_shape t) \<noteq> 0 \<longrightarrow> table_ok (fl_table t) \<and> reach (unat (tb_buckets (fl_table t))) (table_ent (fl_table t)))"

lemma flat_spare: "flat_ok t \<Longrightarrow> pl_capacity (fl_shape t) \<noteq> 0 \<Longrightarrow> has_spare (fl_table t)"
  using plan_buckets_exact(2) [of "fl_shape t"] unat_gt_0 [of "pl_capacity (fl_shape t)"]
  by (auto simp: flat_ok_def has_spare_def contents_def)

lemma flat_no_capacity:
  assumes "flat_ok t" "pl_capacity (fl_shape t) = 0"
  shows "tb_buckets (fl_table t) = 0" "contents t = {#}"
proof -
  show "tb_buckets (fl_table t) = 0" using assms plan_buckets_exact(1) [of "fl_shape t"] by (auto simp: flat_ok_def)
  then show "contents t = {#}" by (simp add: contents_def entries_def)
qed

text \<open>A hole in a flat table touches neither its length nor its shape.\<close>

interpretation flat: mutator flat_mutation "\<lambda>t :: 'v flat. (fl_len t, fl_shape t) = fixed" for fixed
  by unfold_locales (simp_all add: flat_mutation_def)

text \<open>Removal of the entry in a bucket.\<close>

lemma flat_found_remove_ok:
  assumes "flat_ok t" "i < unat (tb_buckets (fl_table t))" "table_ent (fl_table t) i = Some (h, v)"
  shows "\<exists>t'. flat_found_remove \<lparr>fd_owner = t, fd_bucket = occ i\<rparr> = Some (v, t') \<and> flat_ok t' \<and>
    fl_shape t' = fl_shape t \<and> contents t = add_mset (h, v) (contents t')"
proof -
  have cap: "pl_capacity (fl_shape t) \<noteq> 0" using flat_no_capacity(1) [OF assms(1)] assms(2) by auto
  note spare = flat_spare [OF assms(1) cap]
  let ?t = "t\<lparr>fl_len := fl_len t - 1\<rparr>"
  have tb: "mu_table flat_mutation q = fl_table q" for q :: "'a flat" by (simp add: flat_mutation_def)
  obtain t' where t': "hole_take flat_mutation ?t (occ i) = Some (v, t')" "fl_len t' = fl_len t - 1" "fl_shape t' = fl_shape t"
      "has_spare (fl_table t')" "tb_buckets (fl_table t') = tb_buckets (fl_table t)"
      "entries (unat (tb_buckets (fl_table t))) (table_ent (fl_table t)) =
        add_mset (h, v) (entries (unat (tb_buckets (fl_table t))) (table_ent (fl_table t')))"
    using flat.hole_take_spare [of ?t "(fl_len t - 1, fl_shape t)" i h v] spare assms(2,3) by (auto simp: tb)
  have c: "contents t = add_mset (h, v) (contents t')" using t'(5,6) by (simp add: contents_def)
  then have "unat (fl_len t) = Suc (size (contents t'))" using assms(1) by (simp add: flat_ok_def)
  moreover from this have "unat (fl_len t - 1) = unat (fl_len t) - 1" by (intro unat_pred) auto
  ultimately have "flat_ok t'" using assms(1) t' by (auto simp: flat_ok_def has_spare_def)
  then show ?thesis using t' c by (simp add: flat_found_remove_def Let_def)
qed

lemma flat_found_set_ok:
  fixes w :: 'v
  assumes "flat_ok t" "i < unat (tb_buckets (fl_table t))" "table_ent (fl_table t) i = Some (h, v)"
  defines "t' \<equiv> flat_found_set \<lparr>fd_owner = t, fd_bucket = occ i\<rparr> w"
  shows "flat_ok t' \<and> fl_shape t' = fl_shape t \<and> fl_len t' = fl_len t \<and> contents t' = add_mset (h, w) (contents t - {#(h, v)#})"
proof -
  have cap: "pl_capacity (fl_shape t) \<noteq> 0" using flat_no_capacity(1) [OF assms(1)] assms(2) by auto
  then have ok: "table_ok (fl_table t)" and r: "reach (unat (tb_buckets (fl_table t))) (table_ent (fl_table t))"
    using assms(1) by (auto simp: flat_ok_def)
  note view = payload_set_view [OF ok assms(3), of w]
  let ?n = "unat (tb_buckets (fl_table t))" and ?e = "table_ent (fl_table t)"
  have "entries ?n (?e(i \<mapsto> (h, w))) = add_mset (h, w) (entries ?n (?e(i := None)))"
    using entries_fill [of i ?n "?e(i := None)" "(h, w)"] assms(2) by simp
  moreover have "entries ?n ?e = add_mset (h, v) (entries ?n (?e(i := None)))"
    using entries_vacate [of i ?n ?e] assms(2,3) by simp
  ultimately have c: "contents t' = add_mset (h, w) (contents t - {#(h, v)#})" and "size (contents t') = size (contents t)"
    by (simp_all add: contents_def t'_def flat_found_set_def view)
  then show ?thesis
    using assms(1) view reach_set [OF r assms(3), of w] by (auto simp: flat_ok_def t'_def flat_found_set_def)
qed

text \<open>Filling the vacancy a probe found.\<close>

lemma flat_vacancy_insert_ok:
  fixes v :: 'v
  assumes "flat_ok t" "vacancy_at (fl_table t) h i" "unat (fl_len t) < unat (pl_capacity (fl_shape t))"
  defines "t' \<equiv> flat_vacancy_insert \<lparr>vc_owner = t, vc_bucket = vac i, vc_phase = h\<rparr> v"
  shows "flat_ok t' \<and> fl_shape t' = fl_shape t \<and> contents t' = add_mset (h, v) (contents t)"
proof -
  have cap: "pl_capacity (fl_shape t) \<noteq> 0" using assms(3) by auto
  then have ok: "table_ok (fl_table t)" and r: "reach (unat (tb_buckets (fl_table t))) (table_ent (fl_table t))"
    using assms(1) by (auto simp: flat_ok_def)
  note i = vacancy_atD [OF assms(2)]
  note view = insert_view [OF ok, of i h v]
  have c: "contents t' = add_mset (h, v) (contents t)"
    using entries_fill [of i _ "table_ent (fl_table t)" "(h, v)"] i view
    by (simp add: contents_def t'_def flat_vacancy_insert_def)
  have "unat (fl_len t) + 1 < 2 ^ 32" using assms(1,3) by (simp add: flat_ok_def plan_ok_def)
  then have len: "unat (fl_len t + 1) = unat (fl_len t) + 1" by (intro unat_add_fits [THEN trans]) simp_all
  show ?thesis
    using assms(1,3) c len view i vacancy_fill [OF r assms(2), of v]
    by (auto simp: flat_ok_def t'_def flat_vacancy_insert_def)
qed

section \<open>Keyed use\<close>

text \<open>
  The table stores the entries of a finite map when each value carries its key and every hash is the
  key's. The matcher of a key compares keys.
\<close>

definition denotes :: "('k \<Rightarrow> u64) \<Rightarrow> ('v \<Rightarrow> 'k) \<Rightarrow> 'v flat \<Rightarrow> ('k \<Rightarrow> 'v option) \<Rightarrow> bool" where
  "denotes H key t m \<longleftrightarrow> flat_ok t \<and> finite (dom m) \<and> (\<forall>k v. m k = Some v \<longrightarrow> key v = k) \<and>
     contents t = image_mset (\<lambda>k. (H k, the (m k))) (mset_set (dom m))"

lemma denotes_card: "denotes H key t m \<Longrightarrow> unat (fl_len t) = card (dom m)"
  by (simp add: denotes_def flat_ok_def)

lemma denotes_keyed:
  assumes "denotes H key t m"
  shows "filter_mset (\<lambda>x. key (snd x) = k) (contents t) = (case m k of None \<Rightarrow> {#} | Some v \<Rightarrow> {#(H k, v)#})"
proof -
  have fin: "finite (dom m)" and key: "\<And>k v. m k = Some v \<Longrightarrow> key v = k" using assms by (auto simp: denotes_def)
  have "filter_mset (\<lambda>k'. key (the (m k')) = k) (mset_set (dom m)) = mset_set {k' \<in> dom m. key (the (m k')) = k}"
    using fin by (rule filter_mset_mset_set)
  also have "{k' \<in> dom m. key (the (m k')) = k} = (if m k = None then {} else {k})" using key by auto
  finally show ?thesis using assms by (auto simp: denotes_def filter_mset_image_mset split: option.split)
qed

text \<open>Two different buckets never hold the same key.\<close>

lemma entries_two:
  assumes "i < n" "j < n" "i \<noteq> j" "ent i = Some x" "ent j = Some y"
  shows "{#x, y#} \<subseteq># entries n ent"
proof -
  have "entries n ent = add_mset x (entries n (ent(i := None)))" by (rule entries_vacate [where ent = ent]) (use assms in auto)
  also have "entries n (ent(i := None)) = add_mset y (entries n (ent(i := None, j := None)))"
    by (rule entries_vacate [where ent = "ent(i := None)"]) (use assms in auto)
  finally show ?thesis by simp
qed

lemma denotes_found:
  assumes d: "denotes H key t m" and k: "m k = Some v" and Q: "qr_table Q = fl_table" "qr_value Q = (\<lambda>t. table_payload (fl_table t))"
  obtains i where "sole_match Q t (H k) (\<lambda>w. key w = k) i" "i < unat (tb_buckets (fl_table t))"
    "table_ent (fl_table t) i = Some (H k, v)" "has_spare (fl_table t)" "table_payload (fl_table t) (occ i) = v"
proof -
  let ?n = "unat (tb_buckets (fl_table t))" and ?e = "table_ent (fl_table t)"
  have fin: "finite (dom m)" and key: "\<And>k v. m k = Some v \<Longrightarrow> key v = k" and ok: "flat_ok t"
    using d by (auto simp: denotes_def)
  have "(H k, v) \<in># contents t" using d k fin by (force simp: denotes_def)
  then obtain i where i: "i < ?n" "?e i = Some (H k, v)" by (auto simp: contents_def entries_member)
  have cap: "pl_capacity (fl_shape t) \<noteq> 0" using flat_no_capacity(1) [OF ok] i(1) by auto
  note spare = flat_spare [OF ok cap]
  then have tok: "table_ok (fl_table t)" by (simp add: has_spare_def)
  have pay: "table_payload (fl_table t) (occ j) = q" if "?e j = Some (h, q)" for j h q by (rule payload_ent [OF tok that])
  have sole: "key q \<noteq> k" if "j < ?n" "j \<noteq> i" "?e j = Some (H k, q)" for j q
  proof
    assume "key q = k"
    have "{#(H k, v), (H k, q)#} \<subseteq># contents t"
      unfolding contents_def using that i by (intro entries_two [where i = i and j = j]) auto
    then have "filter_mset (\<lambda>x. key (snd x) = k) {#(H k, v), (H k, q)#} \<subseteq># filter_mset (\<lambda>x. key (snd x) = k) (contents t)"
      by (rule multiset_filter_mono)
    then have "size {#(H k, v), (H k, q)#} \<le> size {#(H k, v)#}"
      using \<open>key q = k\<close> key [OF k] by (intro size_mset_mono) (simp add: denotes_keyed [OF d] k)
    then show False by simp
  qed
  have "sole_match Q t (H k) (\<lambda>w. key w = k) i"
    using i key [OF k] pay sole by (auto simp: sole_match_def Let_def Q)
  then show ?thesis using that i spare pay by blast
qed

lemma denotes_missing:
  assumes d: "denotes H key t m" and k: "m k = None" and cap: "pl_capacity (fl_shape t) \<noteq> 0"
    and Q: "qr_table Q = fl_table" "qr_value Q = (\<lambda>t. table_payload (fl_table t))"
  shows "no_match Q t (H k) (\<lambda>w. key w = k) \<and> has_spare (fl_table t)"
proof
  have ok: "flat_ok t" using d by (auto simp: denotes_def)
  show spare: "has_spare (fl_table t)" by (rule flat_spare [OF ok cap])
  then have tok: "table_ok (fl_table t)" by (simp add: has_spare_def)
  have "key q \<noteq> k" if "j < unat (tb_buckets (fl_table t))" "table_ent (fl_table t) j = Some (H k, q)" for j q
  proof
    assume "key q = k"
    moreover have "(H k, q) \<in># contents t" using that by (auto simp: contents_def entries_member)
    ultimately have "(H k, q) \<in># filter_mset (\<lambda>x. key (snd x) = k) (contents t)" by simp
    then show False by (simp add: denotes_keyed [OF d] k)
  qed
  then show "no_match Q t (H k) (\<lambda>w. key w = k)"
    unfolding no_match_def Let_def Q by (metis payload_ent [OF tok])
qed

text \<open>Without capacity there are no buckets, and every probe ends at once.\<close>

lemma denotes_no_capacity:
  assumes d: "denotes H key t m" and cap: "pl_capacity (fl_shape t) = 0"
  shows "m = Map.empty" "tb_buckets (fl_table t) = 0" "fl_len t = 0"
proof -
  have ok: "flat_ok t" using d by (auto simp: denotes_def)
  show "tb_buckets (fl_table t) = 0" by (rule flat_no_capacity [OF ok cap])
  have "contents t = {#}" by (rule flat_no_capacity [OF ok cap])
  then show "fl_len t = 0" using ok by (simp add: flat_ok_def unat_eq_zero)
  show "m = Map.empty" using \<open>contents t = {#}\<close> d by (auto simp: denotes_def mset_set_empty_iff)
qed

lemma scan_no_buckets: "qr_SPARE Q \<Longrightarrow> tb_buckets (qr_table Q t) = 0 \<Longrightarrow> probe_scan Q t h matches = Some State_Full"
  by (simp add: probe_scan_def probe_try_scan_def raw_scan_def)

lemma denotes_insert:
  assumes "denotes H key t m" "m k = None" "key v = k" "flat_ok t'" "contents t' = add_mset (H k, v) (contents t)"
  shows "denotes H key t' (m(k \<mapsto> v))"
proof -
  have "image_mset (\<lambda>k'. (H k', the ((m(k \<mapsto> v)) k'))) (mset_set (dom m)) = image_mset (\<lambda>k'. (H k', the (m k'))) (mset_set (dom m))"
    using assms(1,2) by (intro image_mset_cong) (auto simp: denotes_def)
  moreover have "k \<notin> dom m" using assms(2) by auto
  ultimately show ?thesis using assms by (auto simp: denotes_def)
qed

lemma denotes_delete:
  assumes "denotes H key t m" "m k = Some v" "flat_ok t'" "contents t = add_mset (H k, v) (contents t')"
  shows "denotes H key t' (m(k := None))"
proof -
  have fin: "finite (dom m)" using assms(1) by (simp add: denotes_def)
  have "mset_set (dom m) = add_mset k (mset_set (dom m - {k}))" using fin assms(2) by (intro mset_set.remove) auto
  then have "add_mset (H k, v) (contents t') = add_mset (H k, v) (image_mset (\<lambda>k. (H k, the (m k))) (mset_set (dom m - {k})))"
    using assms by (simp add: denotes_def)
  moreover have "image_mset (\<lambda>k'. (H k', the ((m(k := None)) k'))) (mset_set (dom m - {k})) =
      image_mset (\<lambda>k. (H k, the (m k))) (mset_set (dom m - {k}))"
    using fin by (intro image_mset_cong) auto
  ultimately show ?thesis using assms fin by (auto simp: denotes_def)
qed

section \<open>Operations on a map\<close>

lemma flat_query_simps [simp]:
  "qr_table flat_query = fl_table" "qr_value flat_query = (\<lambda>t. table_payload (fl_table t))"
  "qr_occupied flat_query = (\<lambda>t. table_payload (fl_table t))" "qr_SPARE flat_query"
  "qr_table flat_query_mut = fl_table" "qr_value flat_query_mut = (\<lambda>t. table_payload (fl_table t))"
  "qr_occupied flat_query_mut = (\<lambda>t b. \<lparr>fd_owner = t, fd_bucket = b\<rparr>)" "qr_SPARE flat_query_mut"
  by (simp_all add: flat_query_def flat_query_mut_def)

lemma flat_get_map:
  assumes d: "denotes H key t m"
  shows "flat_get t (H k) (\<lambda>w. key w = k) = Some (m k)"
proof (cases "m k")
  case (Some v)
  from denotes_found [OF d Some, of flat_query] obtain i where
    "sole_match flat_query t (H k) (\<lambda>w. key w = k) i" "has_spare (fl_table t)" "table_payload (fl_table t) (occ i) = v"
    by auto
  then show ?thesis using probe_sole(1) [of flat_query t] Some by (simp add: flat_get_def)
next
  case None
  show ?thesis
  proof (cases "pl_capacity (fl_shape t) = 0")
    case True
    then show ?thesis using denotes_no_capacity(2) [OF d] None
      by (simp add: flat_get_def probe_find_def scan_no_buckets)
  next
    case False
    from denotes_missing [OF d None False, of flat_query] probe_none [of flat_query t "H k" "\<lambda>w. key w = k"]
    show ?thesis using None by (auto simp: flat_get_def)
  qed
qed

text \<open>The occupied bucket of a key, as every keyed operation sees it.\<close>

lemma flat_occupied_map:
  assumes d: "denotes H key t m"
  shows "m k = None \<Longrightarrow> flat_occupied t (H k) (\<lambda>w. key w = k) = Some None"
    "m k = Some v \<Longrightarrow> \<exists>i. flat_occupied t (H k) (\<lambda>w. key w = k) = Some (Some \<lparr>fd_owner = t, fd_bucket = occ i\<rparr>) \<and>
       i < unat (tb_buckets (fl_table t)) \<and> table_ent (fl_table t) i = Some (H k, v)"
proof -
  show "flat_occupied t (H k) (\<lambda>w. key w = k) = Some None" if None: "m k = None"
  proof (cases "pl_capacity (fl_shape t) = 0")
    case True
    then show ?thesis using denotes_no_capacity(2) [OF d] by (simp add: flat_occupied_def probe_find_def scan_no_buckets)
  next
    case False
    from denotes_missing [OF d None False, of flat_query_mut] probe_none [of flat_query_mut t "H k" "\<lambda>w. key w = k"]
    show ?thesis by (auto simp: flat_occupied_def)
  qed
  assume Some: "m k = Some v"
  from denotes_found [OF d Some, of flat_query_mut] obtain i where
    "sole_match flat_query_mut t (H k) (\<lambda>w. key w = k) i" "i < unat (tb_buckets (fl_table t))"
    "table_ent (fl_table t) i = Some (H k, v)" "has_spare (fl_table t)" by auto
  then show "\<exists>i. flat_occupied t (H k) (\<lambda>w. key w = k) = Some (Some \<lparr>fd_owner = t, fd_bucket = occ i\<rparr>) \<and>
       i < unat (tb_buckets (fl_table t)) \<and> table_ent (fl_table t) i = Some (H k, v)"
    using probe_sole(1) [of flat_query_mut t] by (auto simp: flat_occupied_def)
qed

lemma flat_vacancy_new_eq: "flat_vacancy_new \<lparr>vc_owner = t, vc_bucket = b, vc_phase = ()\<rparr> h =
    (if unat (pl_capacity (fl_shape t)) \<le> unat (fl_len t) then None else Some \<lparr>vc_owner = t, vc_bucket = b, vc_phase = h\<rparr>)"
  by (simp add: flat_vacancy_new_def vacancy_with_phase_def Let_def word_le_nat_alt unat_ucast_widen)

lemma flat_insert_map:
  assumes d: "denotes H key t m" and v: "key v = k"
  shows "\<exists>r. flat_try_insert t (H k) v (\<lambda>w. key w = k) = Some r \<and>
    (if m k \<noteq> None then r = Inl (Insert_Occupied v)
     else if unat (pl_capacity (fl_shape t)) \<le> card (dom m) then r = Inl (Insert_Full v)
     else \<exists>t'. r = Inr t' \<and> denotes H key t' (m(k \<mapsto> v)) \<and> fl_shape t' = fl_shape t)"
proof (cases "m k")
  case (Some w)
  from denotes_found [OF d Some, of flat_query_mut] obtain i where
    i: "sole_match flat_query_mut t (H k) (\<lambda>w. key w = k) i" "has_spare (fl_table t)" by auto
  have "probe_reserve flat_query_mut flat_vacancy_new t (H k) (\<lambda>w. key w = k) = Some (Entry_Occupied ())"
    by (rule probe_sole(2) [OF _ i(1)]) (simp add: i(2))
  then show ?thesis using Some by (simp add: flat_try_insert_def)
next
  case None
  have ok: "flat_ok t" using d by (simp add: denotes_def)
  show ?thesis
  proof (cases "pl_capacity (fl_shape t) = 0")
    case True
    then show ?thesis using denotes_no_capacity(1,2) [OF d]
      by (simp add: flat_try_insert_def probe_reserve_def scan_no_buckets)
  next
    case False
    have no: "no_match flat_query_mut t (H k) (\<lambda>w. key w = k)" "has_spare (qr_table flat_query_mut t)"
      using denotes_missing [OF d None False, of flat_query_mut] by simp_all
    obtain i where i: "vacancy_at (fl_table t) (H k) i"
      and r: "probe_reserve flat_query_mut flat_vacancy_new t (H k) (\<lambda>w. key w = k) =
        Some (Entry_Vacant (flat_vacancy_new \<lparr>vc_owner = t, vc_bucket = vac i, vc_phase = ()\<rparr> (H k)))"
      by (rule probe_none [OF no(2,1)]) auto
    show ?thesis
    proof (cases "unat (pl_capacity (fl_shape t)) \<le> unat (fl_len t)")
      case True
      then show ?thesis using None denotes_card [OF d] by (simp add: flat_try_insert_def r flat_vacancy_new_eq)
    next
      case False
      let ?t = "flat_vacancy_insert \<lparr>vc_owner = t, vc_bucket = vac i, vc_phase = H k\<rparr> v"
      have t: "flat_ok ?t \<and> fl_shape ?t = fl_shape t \<and> contents ?t = add_mset (H k, v) (contents t)"
        using False by (intro flat_vacancy_insert_ok [OF ok i]) simp
      then have "denotes H key ?t (m(k \<mapsto> v))" by (intro denotes_insert [OF d None v]) auto
      then show ?thesis using None False denotes_card [OF d] t by (simp add: flat_try_insert_def r flat_vacancy_new_eq)
    qed
  qed
qed

lemma flat_remove_map:
  assumes d: "denotes H key t m"
  shows "\<exists>t'. flat_remove t (H k) (\<lambda>w. key w = k) = Some (m k, t') \<and> flat_retire t (H k) (\<lambda>w. key w = k) = Some t' \<and>
    denotes H key t' (m(k := None)) \<and> fl_shape t' = fl_shape t"
proof (cases "m k")
  case None
  then have "m(k := None) = m" by auto
  then show ?thesis using d None flat_occupied_map(1) [OF d None] by (simp add: flat_remove_def flat_retire_def)
next
  case (Some v)
  then obtain i where i: "flat_occupied t (H k) (\<lambda>w. key w = k) = Some (Some \<lparr>fd_owner = t, fd_bucket = occ i\<rparr>)"
      "i < unat (tb_buckets (fl_table t))" "table_ent (fl_table t) i = Some (H k, v)"
    using flat_occupied_map(2) [OF d Some] by blast
  have ok: "flat_ok t" using d by (simp add: denotes_def)
  obtain t' where t': "flat_found_remove \<lparr>fd_owner = t, fd_bucket = occ i\<rparr> = Some (v, t')" "flat_ok t'" "fl_shape t' = fl_shape t"
      "contents t = add_mset (H k, v) (contents t')"
    using flat_found_remove_ok [OF ok i(2,3)] by blast
  have "denotes H key t' (m(k := None))" by (rule denotes_delete [OF d Some t'(2,4)])
  then show ?thesis using Some t' i by (simp add: flat_remove_def flat_retire_def flat_found_discard_def)
qed

lemma flat_set_map:
  assumes d: "denotes H key t m" and k: "m k = Some v" and w: "key w = k"
  shows "\<exists>f. flat_get_mut t (H k) (\<lambda>w. key w = k) = Some (Some f) \<and> flat_found_get f = v \<and>
    denotes H key (flat_found_set f w) (m(k \<mapsto> w)) \<and> fl_shape (flat_found_set f w) = fl_shape t"
proof -
  obtain i where i: "flat_occupied t (H k) (\<lambda>w. key w = k) = Some (Some \<lparr>fd_owner = t, fd_bucket = occ i\<rparr>)"
      "i < unat (tb_buckets (fl_table t))" "table_ent (fl_table t) i = Some (H k, v)"
    using flat_occupied_map(2) [OF d k] by blast
  have ok: "flat_ok t" using d by (simp add: denotes_def)
  let ?f = "\<lparr>fd_owner = t, fd_bucket = occ i\<rparr>"
  have set: "flat_ok (flat_found_set ?f w)" "fl_shape (flat_found_set ?f w) = fl_shape t"
      "contents (flat_found_set ?f w) = add_mset (H k, w) (contents t - {#(H k, v)#})"
    using flat_found_set_ok [OF ok i(2,3), of w] by simp_all
  have cap: "pl_capacity (fl_shape t) \<noteq> 0" using flat_no_capacity(1) [OF ok] i(2) by auto
  then have "flat_found_get ?f = v" using payload_ent [of "fl_table t" i] i(3) ok by (simp add: flat_found_get_def flat_ok_def)
  moreover have "denotes H key (flat_found_set ?f w) (m(k \<mapsto> w))"
  proof -
    have fin: "finite (dom m)" using d by (simp add: denotes_def)
    have "mset_set (dom m) = add_mset k (mset_set (dom m - {k}))" using fin k by (intro mset_set.remove) auto
    then have "contents t - {#(H k, v)#} = image_mset (\<lambda>k. (H k, the (m k))) (mset_set (dom m - {k}))"
      using d k by (simp add: denotes_def)
    then have "contents (flat_found_set ?f w) = add_mset (H k, w) (image_mset (\<lambda>k. (H k, the (m k))) (mset_set (dom m - {k})))"
      by (simp only: set(3))
    moreover have "image_mset (\<lambda>k'. (H k', the ((m(k \<mapsto> w)) k'))) (mset_set (dom m - {k})) =
        image_mset (\<lambda>k. (H k, the (m k))) (mset_set (dom m - {k}))"
      using fin by (intro image_mset_cong) auto
    moreover have "mset_set (dom (m(k \<mapsto> w))) = add_mset k (mset_set (dom m - {k}))"
      using fin k by (simp add: mset_set.insert_remove)
    moreover have "\<forall>k v. m k = Some v \<longrightarrow> key v = k" using d by (simp add: denotes_def)
    ultimately show ?thesis using fin w set(1) unfolding denotes_def by simp
  qed
  ultimately show ?thesis using i(1) set(2) by (auto simp: flat_get_mut_def)
qed

lemma flat_clear_map:
  assumes d: "denotes H key t m"
  shows "denotes H key (flat_clear DROP t) Map.empty \<and> fl_shape (flat_clear DROP t) = fl_shape t"
proof (cases "flat_is_empty t")
  case True
  have "unat (ucast (fl_len t) :: usize) = unat (fl_len t)" by (rule unat_ucast_widen) simp
  then have "unat (fl_len t) = 0" using True by (simp add: flat_is_empty_def flat_len_def)
  then have "dom m = {}" using denotes_card [OF d] d by (simp add: denotes_def)
  then show ?thesis using d True by (auto simp: flat_clear_def)
next
  case False
  then have "fl_len t \<noteq> 0" by (auto simp: flat_is_empty_def flat_len_def)
  then have "pl_capacity (fl_shape t) \<noteq> 0" using denotes_no_capacity(3) [OF d] by auto
  then show ?thesis using False d table_clear_view [of "fl_table t" DROP]
    by (auto simp: denotes_def flat_ok_def flat_clear_def contents_def reach_clear)
qed

section \<open>Properties\<close>

text \<open>A keyed program over one table, and the finite map of bounded size it should behave as.\<close>

datatype ('k, 'v) flat_op =
    Op_Insert 'v
  | Op_Get 'k
  | Op_Replace 'v
  | Op_Remove 'k
  | Op_Retire 'k
  | Op_Clear
  | Op_Len

datatype 'v flat_out = Out_Insert "'v insert_error + unit" | Out_Value "'v option" | Out_Unit | Out_Len nat

definition flat_exec ::
  "('k \<Rightarrow> u64) \<Rightarrow> ('v \<Rightarrow> 'k) \<Rightarrow> bool \<Rightarrow> ('k, 'v) flat_op \<Rightarrow> 'v flat \<Rightarrow> ('v flat_out \<times> 'v flat) option" where
  "flat_exec H key DROP operation t = (case operation of
       Op_Insert v \<Rightarrow> map_option
         (\<lambda>r. case r of Inl e \<Rightarrow> (Out_Insert (Inl e), t) | Inr t' \<Rightarrow> (Out_Insert (Inr ()), t'))
         (flat_try_insert t (H (key v)) v (\<lambda>w. key w = key v))
     | Op_Get k \<Rightarrow> map_option (\<lambda>r. (Out_Value r, t)) (flat_get t (H k) (\<lambda>w. key w = k))
     | Op_Replace v \<Rightarrow> map_option
         (\<lambda>r. case r of None \<Rightarrow> (Out_Value None, t) | Some f \<Rightarrow> (Out_Value (Some (flat_found_get f)), flat_found_set f v))
         (flat_get_mut t (H (key v)) (\<lambda>w. key w = key v))
     | Op_Remove k \<Rightarrow> map_option (\<lambda>(r, t'). (Out_Value r, t')) (flat_remove t (H k) (\<lambda>w. key w = k))
     | Op_Retire k \<Rightarrow> map_option (\<lambda>t'. (Out_Unit, t')) (flat_retire t (H k) (\<lambda>w. key w = k))
     | Op_Clear \<Rightarrow> Some (Out_Unit, flat_clear DROP t)
     | Op_Len \<Rightarrow> Some (Out_Len (unat (flat_len t)), t))"

definition map_exec ::
  "nat \<Rightarrow> ('v \<Rightarrow> 'k) \<Rightarrow> ('k, 'v) flat_op \<Rightarrow> ('k \<Rightarrow> 'v option) \<Rightarrow> 'v flat_out \<times> ('k \<Rightarrow> 'v option)" where
  "map_exec cap key operation m = (case operation of
       Op_Insert v \<Rightarrow>
         if m (key v) \<noteq> None then (Out_Insert (Inl (Insert_Occupied v)), m)
         else if cap \<le> card (dom m) then (Out_Insert (Inl (Insert_Full v)), m)
         else (Out_Insert (Inr ()), m(key v \<mapsto> v))
     | Op_Get k \<Rightarrow> (Out_Value (m k), m)
     | Op_Replace v \<Rightarrow> (Out_Value (m (key v)), if m (key v) = None then m else m(key v \<mapsto> v))
     | Op_Remove k \<Rightarrow> (Out_Value (m k), m(k := None))
     | Op_Retire k \<Rightarrow> (Out_Unit, m(k := None))
     | Op_Clear \<Rightarrow> (Out_Unit, Map.empty)
     | Op_Len \<Rightarrow> (Out_Len (card (dom m)), m))"

fun flat_run ::
  "('k \<Rightarrow> u64) \<Rightarrow> ('v \<Rightarrow> 'k) \<Rightarrow> bool \<Rightarrow> ('k, 'v) flat_op list \<Rightarrow> 'v flat \<Rightarrow> ('v flat_out list \<times> 'v flat) option" where
  "flat_run H key DROP [] t = Some ([], t)"
| "flat_run H key DROP (op1 # ops) t = (case flat_exec H key DROP op1 t of
       None \<Rightarrow> None
     | Some (out, t') \<Rightarrow> map_option (\<lambda>(outs, t''). (out # outs, t'')) (flat_run H key DROP ops t'))"

fun map_run :: "nat \<Rightarrow> ('v \<Rightarrow> 'k) \<Rightarrow> ('k, 'v) flat_op list \<Rightarrow> ('k \<Rightarrow> 'v option) \<Rightarrow> 'v flat_out list \<times> ('k \<Rightarrow> 'v option)" where
  "map_run cap key [] m = ([], m)"
| "map_run cap key (op1 # ops) m =
     (let (out, m') = map_exec cap key op1 m; (outs, m'') = map_run cap key ops m' in (out # outs, m''))"

lemma flat_exec_map:
  assumes d: "denotes H key t m"
  shows "\<exists>t'. flat_exec H key DROP operation t = Some (fst (map_exec (unat (pl_capacity (fl_shape t))) key operation m), t') \<and>
    denotes H key t' (snd (map_exec (unat (pl_capacity (fl_shape t))) key operation m)) \<and> fl_shape t' = fl_shape t"
proof (cases operation)
  case (Op_Insert v)
  then show ?thesis using flat_insert_map [OF d refl, of v] d by (auto simp: flat_exec_def map_exec_def split: if_splits)
next
  case (Op_Get k)
  then show ?thesis using flat_get_map [OF d] d by (simp add: flat_exec_def map_exec_def)
next
  case (Op_Replace v)
  show ?thesis
  proof (cases "m (key v)")
    case None
    then show ?thesis using Op_Replace flat_occupied_map(1) [OF d None] d by (simp add: flat_exec_def map_exec_def flat_get_mut_def)
  next
    case (Some w)
    then show ?thesis using Op_Replace flat_set_map [OF d Some refl] by (auto simp: flat_exec_def map_exec_def)
  qed
next
  case (Op_Remove k)
  then show ?thesis using flat_remove_map [OF d, of k] by (auto simp: flat_exec_def map_exec_def)
next
  case (Op_Retire k)
  then show ?thesis using flat_remove_map [OF d, of k] by (auto simp: flat_exec_def map_exec_def)
next
  case Op_Clear
  then show ?thesis using flat_clear_map [OF d] by (simp add: flat_exec_def map_exec_def)
next
  case Op_Len
  then show ?thesis using d denotes_card [OF d] by (simp add: flat_exec_def map_exec_def flat_len_def unat_ucast_widen)
qed

lemma flat_run_map:
  "denotes H key t m \<Longrightarrow> \<exists>t'. flat_run H key DROP ops t = Some (fst (map_run (unat (pl_capacity (fl_shape t))) key ops m), t') \<and>
    denotes H key t' (snd (map_run (unat (pl_capacity (fl_shape t))) key ops m)) \<and> fl_shape t' = fl_shape t"
proof (induction ops arbitrary: t m)
  case (Cons op1 ops)
  let ?cap = "unat (pl_capacity (fl_shape t))"
  obtain t1 where t1: "flat_exec H key DROP op1 t = Some (fst (map_exec ?cap key op1 m), t1)"
      "denotes H key t1 (snd (map_exec ?cap key op1 m))" "fl_shape t1 = fl_shape t"
    using flat_exec_map [OF Cons.prems] by blast
  from Cons.IH [OF t1(2)] t1(1,3) show ?case by (auto simp: Let_def split: prod.splits)
qed simp

lemma flat_new_ok:
  assumes "plan_ok pl"
  shows "denotes H key \<lparr>fl_table = table_from_fields (plan_buckets pl), fl_len = 0, fl_shape = pl\<rparr> Map.empty"
proof -
  let ?t = "\<lparr>fl_table = table_from_fields (plan_buckets pl), fl_len = 0, fl_shape = pl\<rparr> :: 'b flat"
  have b: "tb_buckets (table_from_fields (plan_buckets pl) :: 'b table) = plan_buckets pl" by (simp add: table_from_fields_def)
  have c: "contents ?t = {#}" by (simp add: contents_def from_fields_ent)
  have "pl_capacity pl \<noteq> 0 \<longrightarrow> table_ok (table_from_fields (plan_buckets pl) :: 'b table)"
    using plan_buckets_exact(2) [OF assms] from_fields_ok by blast
  then show ?thesis using assms c by (simp add: denotes_def flat_ok_def b from_fields_ent reach_clear)
qed

text \<open>A successful allocation starts empty.\<close>

lemma flat_try_new_eq:
  "flat_try_new grant P pl = Inr t \<Longrightarrow> t = \<lparr>fl_table = table_from_fields (plan_buckets pl), fl_len = 0, fl_shape = pl\<rparr>"
  by (auto simp: flat_try_new_def map_layout_try_plan_def table_try_new_def Let_def split: sum.splits alloc_overflow.splits alloc_exhausted.splits)

text \<open>C4: From a fresh table, any program of keyed operations returns, and its results are those of a
  finite map bounded by the capacity, whatever the hash function: probing, collisions and the shifts
  that close holes are invisible, and an insertion is refused exactly for a present key or a full map.\<close>

theorem flat_refines_map:
  fixes H :: "'k \<Rightarrow> u64" and key :: "'v \<Rightarrow> 'k"
  assumes "plan_new capacity = Inr pl" "flat_try_new grant P pl = Inr t"
  shows "\<exists>t'. flat_run H key DROP ops t = Some (fst (map_run (unat capacity) key ops Map.empty), t') \<and>
    (let m = snd (map_run (unat capacity) key ops Map.empty) in
     finite (dom m) \<and> mset (flat_values t') = image_mset (\<lambda>k. the (m k)) (mset_set (dom m)))"
proof -
  have pl: "pl = \<lparr>pl_capacity = ucast capacity\<rparr>" "unat capacity \<le> 2 ^ 30"
    using assms(1) by (auto simp: plan_new_exact split: if_splits)
  then have c: "unat (pl_capacity pl) = unat capacity" using unat_ucast_narrow [of capacity, where 'b = 32] by simp
  then have ok: "plan_ok pl" using pl(2) by (simp add: plan_ok_def)
  have t: "t = \<lparr>fl_table = table_from_fields (plan_buckets pl), fl_len = 0, fl_shape = pl\<rparr>"
    by (rule flat_try_new_eq [OF assms(2)])
  have d: "denotes H key t Map.empty" unfolding t by (rule flat_new_ok [OF ok])
  let ?m = "snd (map_run (unat capacity) key ops Map.empty)"
  obtain t' where t': "flat_run H key DROP ops t = Some (fst (map_run (unat capacity) key ops Map.empty), t')"
      "denotes H key t' ?m" "fl_shape t' = pl"
    using flat_run_map [OF d, of DROP ops] c by (auto simp: t)
  have "mset (flat_values t') = image_mset snd (contents t')"
  proof (cases "pl_capacity pl = 0")
    case True
    then have "tb_buckets (fl_table t') = 0" using denotes_no_capacity(2) [OF t'(2)] t'(3) by simp
    then show ?thesis by (simp add: flat_values_def table_values_def contents_def entries_def List.map_filter_def)
  next
    case False
    then show ?thesis using t'(2,3) values_view [of "fl_table t'"]
      by (simp add: denotes_def flat_ok_def flat_values_def contents_def)
  qed
  then have "mset (flat_values t') = image_mset (\<lambda>k. the (?m k)) (mset_set (dom ?m))"
    using t'(2) by (simp add: denotes_def image_mset.compositionality o_def)
  then show ?thesis using t'(1,2) by (auto simp: Let_def denotes_def)
qed

definition sample_ops :: "(nat, nat \<times> nat) flat_op list" where
  "sample_ops = [Op_Insert (1, 10), Op_Insert (2, 20), Op_Insert (1, 30), Op_Insert (3, 40), Op_Remove 1, Op_Get 2, Op_Insert (3, 50), Op_Len]"

lemma sample_plan: "plan_new 2 = Inr \<lparr>pl_capacity = 2\<rparr>"
  by (simp add: plan_new_exact)

lemma sample_layout: "\<exists>t :: (nat \<times> nat) flat. flat_try_new (\<lambda>_. True) \<lparr>ty_size = 16, ty_align = 8\<rparr> \<lparr>pl_capacity = 2\<rparr> = Inr t"
proof -
  let ?P = "\<lparr>ty_size = 16, ty_align = 8\<rparr>"
  have bits: "bit_length 3 = 2" by (simp add: bit_length.simps)
  have b: "plan_buckets \<lparr>pl_capacity = 2\<rparr> = 4"
    by (simp add: plan_buckets_def next_power_of_two_def leading_zeros_def Let_def bits mask_eq_exp_minus_1 word_le_nat_alt)
  have "align_ok 8" "align_ok 1" unfolding align_ok_def
    by (rule image_eqI [of _ _ 3], simp, simp, rule image_eqI [of _ _ 0], simp, simp)
  then have ok: "\<forall>p\<in>set (recipe_planes (map_recipe ?P 4)). ty_ok (fst p)"
    by (simp add: map_recipe_def ty_ok_def isize_max_def)
  have "planes_fit (recipe_planes (map_recipe ?P 4))"
    by (simp add: map_recipe_def planes_fit_def plane_end_def planes_align_def round_up_def isize_max_def)
  then obtain r where "recipe_try_build (map_recipe ?P 4) = Inr r"
    using recipe_exact [OF ok] by (auto split: sum.splits)
  then show ?thesis
    by (simp add: flat_try_new_def map_layout_try_plan_def b table_try_new_def layout_try_allocate_def Let_def)
qed

lemma flat_refines_map_witness:
  "\<exists>(t :: (nat \<times> nat) flat) t'. flat_run (\<lambda>_. 7) fst True sample_ops t =
     Some ([Out_Insert (Inr ()), Out_Insert (Inr ()), Out_Insert (Inl (Insert_Occupied (1, 30))),
       Out_Insert (Inl (Insert_Full (3, 40))), Out_Value (Some (1, 10)), Out_Value (Some (2, 20)), Out_Insert (Inr ()), Out_Len 2], t')"
proof -
  obtain t :: "(nat \<times> nat) flat" where t: "flat_try_new (\<lambda>_. True) \<lparr>ty_size = 16, ty_align = 8\<rparr> \<lparr>pl_capacity = 2\<rparr> = Inr t"
    using sample_layout by blast
  have "fst (map_run 2 fst sample_ops Map.empty) =
    [Out_Insert (Inr ()), Out_Insert (Inr ()), Out_Insert (Inl (Insert_Occupied (1, 30))),
      Out_Insert (Inl (Insert_Full (3, 40))), Out_Value (Some (1, 10)), Out_Value (Some (2, 20)), Out_Insert (Inr ()), Out_Len 2]"
    by (simp add: sample_ops_def map_exec_def Let_def card_insert_if)
  moreover have "unat (2 :: usize) = 2" by simp
  ultimately show ?thesis using flat_refines_map [OF sample_plan t, of "\<lambda>_. 7" fst True sample_ops] by auto
qed

text \<open>The three ways an operation can meet a table: no buckets, a match, or a vacancy.\<close>

lemma flat_no_buckets:
  assumes "flat_ok t" "pl_capacity (fl_shape t) = 0"
  shows "contents t = {#}" "flat_get t h matches = Some None" "flat_try_insert t h w matches = Some (Inl (Insert_Full w))"
    "flat_remove t h matches = Some (None, t)"
proof -
  have "tb_buckets (fl_table t) = 0" using flat_no_capacity [OF assms] by simp
  then show "contents t = {#}" "flat_get t h matches = Some None" "flat_try_insert t h w matches = Some (Inl (Insert_Full w))"
    "flat_remove t h matches = Some (None, t)"
    using flat_no_capacity(2) [OF assms]
    by (simp_all add: flat_get_def flat_try_insert_def flat_remove_def flat_occupied_def probe_find_def probe_reserve_def scan_no_buckets)
qed

lemma contents_member:
  "(h, v) \<in># contents t \<longleftrightarrow> (\<exists>i < unat (tb_buckets (fl_table t)). table_ent (fl_table t) i = Some (h, v))"
  by (auto simp: contents_def entries_member)

lemma flat_same_query:
  "hit flat_query t h matches i = hit flat_query_mut t h matches i"
  "no_match flat_query t h matches = no_match flat_query_mut t h matches"
  by (simp_all add: hit_def no_match_def)

lemma flat_hit:
  assumes "flat_ok t" "has_spare (fl_table t)" "hit flat_query_mut t h matches i"
  obtains v where "i < unat (tb_buckets (fl_table t))" "table_ent (fl_table t) i = Some (h, v)" "matches v" "(h, v) \<in># contents t"
    "flat_get t h matches = Some (Some v)" "flat_try_insert t h w matches = Some (Inl (Insert_Occupied w))"
    "flat_occupied t h matches = Some (Some \<lparr>fd_owner = t, fd_bucket = occ i\<rparr>)"
    "flat_found_get \<lparr>fd_owner = t, fd_bucket = occ i\<rparr> = v"
    "flat_admit t h matches = Some (Entry_Occupied \<lparr>fd_owner = t, fd_bucket = occ i\<rparr>)"
proof -
  have tok: "table_ok (fl_table t)" using assms(2) by (simp add: has_spare_def)
  obtain v where i: "i < unat (tb_buckets (fl_table t))" "table_ent (fl_table t) i = Some (h, v)" "matches v"
    using assms(3) payload_ent [OF tok] by (auto simp: hit_def Let_def)
  note pay = payload_ent [OF tok i(2)]
  have "flat_get t h matches = Some (Some v)"
    using probe_hit(2) [of flat_query t h matches i] assms(2,3) pay by (simp add: flat_same_query flat_get_def)
  moreover have "probe_reserve flat_query_mut flat_vacancy_new t h matches = Some (Entry_Occupied ())"
    by (rule probe_hit(3) [OF _ assms(3)]) (simp add: assms(2))
  moreover have "flat_occupied t h matches = Some (Some \<lparr>fd_owner = t, fd_bucket = occ i\<rparr>)"
      "flat_admit t h matches = Some (Entry_Occupied \<lparr>fd_owner = t, fd_bucket = occ i\<rparr>)"
    using probe_hit(2,4) [of flat_query_mut t h matches i] assms(2,3) by (simp_all add: flat_occupied_def flat_admit_def)
  ultimately show ?thesis
    using that [of v] i pay by (auto simp: flat_try_insert_def flat_found_get_def contents_member)
qed

lemma flat_miss:
  assumes "flat_ok t" "has_spare (fl_table t)" "no_match flat_query_mut t h matches"
  obtains i where "\<forall>v. (h, v) \<in># contents t \<longrightarrow> \<not> matches v" "vacancy_at (fl_table t) h i"
    "flat_get t h matches = Some None" "flat_remove t h matches = Some (None, t)"
    "flat_try_insert t h w matches = Some (if unat (pl_capacity (fl_shape t)) \<le> unat (fl_len t) then Inl (Insert_Full w)
       else Inr (flat_vacancy_insert \<lparr>vc_owner = t, vc_bucket = vac i, vc_phase = h\<rparr> w))"
    "flat_admit t h matches = Some (Entry_Vacant \<lparr>vc_owner = t, vc_bucket = vac i, vc_phase = h\<rparr>)"
proof -
  have tok: "table_ok (fl_table t)" using assms(2) by (simp add: has_spare_def)
  have no: "\<forall>v. (h, v) \<in># contents t \<longrightarrow> \<not> matches v"
    using assms(3) payload_ent [OF tok] by (auto simp: contents_member no_match_def Let_def)
  have get: "flat_get t h matches = Some None"
    by (rule probe_none [of flat_query t h matches]) (use assms in \<open>auto simp: flat_same_query flat_get_def\<close>)
  have spare: "has_spare (qr_table flat_query_mut t)" using assms(2) by simp
  obtain i where "vacancy_at (qr_table flat_query_mut t) h i" "probe_find flat_query_mut t h matches = Some None"
      "probe_reserve flat_query_mut flat_vacancy_new t h matches =
        Some (Entry_Vacant (flat_vacancy_new \<lparr>vc_owner = t, vc_bucket = vac i, vc_phase = ()\<rparr> h))"
      "probe_spare flat_query_mut t h matches = Some (Inr \<lparr>vc_owner = t, vc_bucket = vac i, vc_phase = h\<rparr>)"
    by (rule probe_none [OF spare assms(3)]) blast
  then show ?thesis using no get
    by (intro that [of i]) (simp_all add: flat_remove_def flat_occupied_def flat_try_insert_def flat_vacancy_new_eq flat_admit_def)
qed

text \<open>C5: With any hash and any matcher, on any table that keeps its invariant: a lookup returns an
  entry of that hash which matches exactly when there is one; an insertion adds its entry exactly
  when nothing matches and there is room; a removal takes one matching entry out and loses no other.
  Each returns and keeps the invariant.\<close>

theorem flat_operations_exact:
  assumes "flat_ok t"
  shows "(\<exists>r. flat_get t h matches = Some r \<and> (case r of
        None \<Rightarrow> \<forall>v. (h, v) \<in># contents t \<longrightarrow> \<not> matches v
      | Some v \<Rightarrow> (h, v) \<in># contents t \<and> matches v))
    \<and> (\<exists>r. flat_try_insert t h w matches = Some r \<and> (case r of
        Inl (Insert_Occupied w') \<Rightarrow> w' = w \<and> (\<exists>v. (h, v) \<in># contents t \<and> matches v)
      | Inl (Insert_Full w') \<Rightarrow> w' = w \<and> (\<forall>v. (h, v) \<in># contents t \<longrightarrow> \<not> matches v) \<and>
          size (contents t) = unat (pl_capacity (fl_shape t))
      | Inr t' \<Rightarrow> (\<forall>v. (h, v) \<in># contents t \<longrightarrow> \<not> matches v) \<and> flat_ok t' \<and> fl_shape t' = fl_shape t \<and>
          contents t' = add_mset (h, w) (contents t)))
    \<and> (\<exists>r t'. flat_remove t h matches = Some (r, t') \<and> flat_ok t' \<and> fl_shape t' = fl_shape t \<and> (case r of
        None \<Rightarrow> t' = t \<and> (\<forall>v. (h, v) \<in># contents t \<longrightarrow> \<not> matches v)
      | Some v \<Rightarrow> matches v \<and> contents t = add_mset (h, v) (contents t')))"
proof (cases "pl_capacity (fl_shape t) = 0")
  case True
  then show ?thesis using flat_no_buckets [OF assms True] assms by simp
next
  case False
  note spare = flat_spare [OF assms False]
  from hit_or_none [of flat_query_mut t h matches] spare
  consider i where "hit flat_query_mut t h matches i" | "no_match flat_query_mut t h matches" by auto
  then show ?thesis
  proof cases
    case (1 i)
    then obtain v where v: "i < unat (tb_buckets (fl_table t))" "table_ent (fl_table t) i = Some (h, v)" "matches v" "(h, v) \<in># contents t"
        "flat_get t h matches = Some (Some v)" "flat_try_insert t h w matches = Some (Inl (Insert_Occupied w))"
        "flat_occupied t h matches = Some (Some \<lparr>fd_owner = t, fd_bucket = occ i\<rparr>)"
      by (rule flat_hit [OF assms spare])
    then show ?thesis using flat_found_remove_ok [OF assms v(1,2)] by (auto simp: flat_remove_def)
  next
    case 2
    then obtain i where i: "\<forall>v. (h, v) \<in># contents t \<longrightarrow> \<not> matches v" "vacancy_at (fl_table t) h i"
        "flat_get t h matches = Some None" "flat_remove t h matches = Some (None, t)"
        "flat_try_insert t h w matches = Some (if unat (pl_capacity (fl_shape t)) \<le> unat (fl_len t) then Inl (Insert_Full w)
           else Inr (flat_vacancy_insert \<lparr>vc_owner = t, vc_bucket = vac i, vc_phase = h\<rparr> w))"
      by (rule flat_miss [OF assms spare])
    show ?thesis
    proof (cases "unat (pl_capacity (fl_shape t)) \<le> unat (fl_len t)")
      case True
      then show ?thesis using i assms by (auto simp: flat_ok_def)
    next
      case False
      then show ?thesis using i assms flat_vacancy_insert_ok [OF assms i(2), of w] by simp
    qed
  qed
qed

definition empty_flat :: "u32 \<Rightarrow> 'v flat" where
  "empty_flat capacity = \<lparr>fl_table = table_from_fields (plan_buckets \<lparr>pl_capacity = capacity\<rparr>), fl_len = 0,
     fl_shape = \<lparr>pl_capacity = capacity\<rparr>\<rparr>"

lemma empty_flat_ok: "unat capacity \<le> 2 ^ 30 \<Longrightarrow>
    flat_ok (empty_flat capacity :: 'v flat) \<and> contents (empty_flat capacity :: 'v flat) = {#} \<and>
    fl_shape (empty_flat capacity :: 'v flat) = \<lparr>pl_capacity = capacity\<rparr>"
  using flat_new_ok [of "\<lparr>pl_capacity = capacity\<rparr>" "\<lambda>_. 0" "id :: 'v \<Rightarrow> 'v"] by (simp add: denotes_def plan_ok_def empty_flat_def)

lemma flat_operations_exact_witness:
  "\<exists>t' :: nat flat. flat_try_insert (empty_flat 4) 9 (5 :: nat) (\<lambda>v. v = 5) = Some (Inr t') \<and>
     flat_get t' 9 (\<lambda>v. v = 5) = Some (Some 5) \<and> flat_get t' 8 (\<lambda>v. v = 5) = Some None"
proof -
  have ok: "flat_ok (empty_flat 4 :: nat flat)" "contents (empty_flat 4 :: nat flat) = {#}"
    "fl_shape (empty_flat 4 :: nat flat) = \<lparr>pl_capacity = 4\<rparr>" using empty_flat_ok [of 4] by auto
  obtain r where r: "flat_try_insert (empty_flat 4) 9 (5 :: nat) (\<lambda>v. v = 5) = Some r"
    and exact: "case r of
        Inl (Insert_Occupied w') \<Rightarrow> w' = 5 \<and> (\<exists>v. (9, v) \<in># contents (empty_flat 4 :: nat flat) \<and> v = 5)
      | Inl (Insert_Full w') \<Rightarrow> w' = 5 \<and> (\<forall>v. (9, v) \<in># contents (empty_flat 4 :: nat flat) \<longrightarrow> v \<noteq> 5) \<and>
          size (contents (empty_flat 4 :: nat flat)) = unat (pl_capacity (fl_shape (empty_flat 4 :: nat flat)))
      | Inr t' \<Rightarrow> (\<forall>v. (9, v) \<in># contents (empty_flat 4 :: nat flat) \<longrightarrow> v \<noteq> 5) \<and> flat_ok t' \<and>
          fl_shape t' = fl_shape (empty_flat 4 :: nat flat) \<and> contents t' = add_mset (9, 5) (contents (empty_flat 4))"
    using flat_operations_exact [OF ok(1), of 9 "\<lambda>v. v = 5" 5, THEN conjunct2, THEN conjunct1] by blast
  have "\<exists>t'. r = Inr t' \<and> flat_ok t' \<and> contents t' = {#(9, 5)#}"
  proof (cases r)
    case (Inl e)
    then show ?thesis using exact ok by (cases e) auto
  next
    case (Inr t')
    then show ?thesis using exact ok by auto
  qed
  then obtain t' where t': "flat_try_insert (empty_flat 4) 9 (5 :: nat) (\<lambda>v. v = 5) = Some (Inr t')" "flat_ok t'" "contents t' = {#(9, 5)#}"
    using r by auto
  from flat_operations_exact [OF t'(2), of 9 "\<lambda>v. v = 5" 0, THEN conjunct1] t'(3)
  have "flat_get t' 9 (\<lambda>v. v = 5) = Some (Some 5)" by (auto split: option.splits)
  moreover from flat_operations_exact [OF t'(2), of 8 "\<lambda>v. v = 5" 0, THEN conjunct1] t'(3)
  have "flat_get t' 8 (\<lambda>v. v = 5) = Some None" by (auto split: option.splits)
  ultimately show ?thesis using t'(1) by blast
qed

text \<open>A plan admits exactly the capacities up to \<open>2^30\<close>; its directory has no bucket or a power
  of two of them, at least twice and less than four times the capacity; and the table is refused as an
  overflow exactly when its three planes do not fit an allocation, as exhausted exactly when the
  allocator refuses the layout that the shape recomputes for the deallocation.\<close>

theorem map_plan_exact:
  assumes "ty_ok P"
  shows "(case plan_new capacity of
      Inl e \<Rightarrow> e = Capacity_Error capacity \<and> 2 ^ 30 < unat capacity
    | Inr pl \<Rightarrow> unat capacity \<le> 2 ^ 30 \<and>
        (if capacity = 0 then plan_buckets pl = 0
         else (\<exists>k. unat (plan_buckets pl) = 2 ^ k) \<and> 2 * unat capacity \<le> unat (plan_buckets pl) \<and>
           unat (plan_buckets pl) < 4 * unat capacity) \<and>
        flat_try_new grant P pl =
          (let l = bundle_layout_of (ml_bundle (map_shape_layout P pl)) in
           if \<not> planes_fit (recipe_planes (map_recipe P (plan_buckets pl))) then Inl Error_Overflow
           else if ly_size l \<noteq> 0 \<and> \<not> grant l then Inl Error_Exhausted
           else Inr \<lparr>fl_table = table_from_fields (plan_buckets pl), fl_len = 0, fl_shape = pl\<rparr>))"
proof (cases "unat capacity \<le> 2 ^ 30")
  case False
  then show ?thesis by (simp add: plan_new_exact)
next
  case True
  let ?pl = "\<lparr>pl_capacity = ucast capacity\<rparr>"
  have c: "unat (pl_capacity ?pl) = unat capacity" using unat_ucast_narrow [of capacity, where 'b = 32] True by simp
  then have ok: "plan_ok ?pl" using True by (simp add: plan_ok_def)
  have z: "pl_capacity ?pl = 0 \<longleftrightarrow> capacity = 0" using c by (metis unat_eq_zero)
  note b = plan_buckets_exact [OF ok, unfolded c z]
  have one: "align_ok 8" "align_ok 1" unfolding align_ok_def
    by (rule image_eqI [of _ _ 3], simp, simp, rule image_eqI [of _ _ 0], simp, simp)
  then have tys: "\<forall>p\<in>set (recipe_planes (map_recipe P (plan_buckets ?pl))). ty_ok (fst p)"
    using assms by (simp add: map_recipe_def ty_ok_def isize_max_def)
  from recipe_exact [OF tys]
  have new: "flat_try_new grant P ?pl =
      (let l = bundle_layout_of (ml_bundle (map_shape_layout P ?pl)) in
       if \<not> planes_fit (recipe_planes (map_recipe P (plan_buckets ?pl))) then Inl Error_Overflow
       else if ly_size l \<noteq> 0 \<and> \<not> grant l then Inl Error_Exhausted
       else Inr \<lparr>fl_table = table_from_fields (plan_buckets ?pl), fl_len = 0, fl_shape = ?pl\<rparr>)"
    by (auto simp: flat_try_new_def map_layout_try_plan_def map_shape_layout_def table_try_new_def layout_try_allocate_def Let_def
        split: sum.splits alloc_overflow.splits)
  have "if capacity = 0 then plan_buckets ?pl = 0
      else (\<exists>k. unat (plan_buckets ?pl) = 2 ^ k) \<and> 2 * unat capacity \<le> unat (plan_buckets ?pl) \<and> unat (plan_buckets ?pl) < 4 * unat capacity"
    using b by (auto simp: extent_ok_def)
  then show ?thesis using True new by (simp add: plan_new_exact)
qed

lemma map_plan_exact_witness:
  "plan_new 1500000000 = Inl (Capacity_Error 1500000000) \<and>
   (\<exists>k. unat (plan_buckets \<lparr>pl_capacity = 5\<rparr>) = 2 ^ k) \<and> 10 \<le> unat (plan_buckets \<lparr>pl_capacity = 5\<rparr>) \<and>
   unat (plan_buckets \<lparr>pl_capacity = 5\<rparr>) < 20"
proof -
  have ok: "ty_ok \<lparr>ty_size = 24, ty_align = 8\<rparr>" using sample_shape_ok by (simp add: shape_ok_def sample_shape_def)
  have new: "plan_new 5 = Inr \<lparr>pl_capacity = 5\<rparr>" by (simp add: plan_new_exact)
  from map_plan_exact [OF ok, of 5 "\<lambda>_. True"] map_plan_exact [OF ok, of 1500000000 "\<lambda>_. True"]
  show ?thesis unfolding new by (auto split: sum.splits)
qed

lemma flat_member_ok:
  assumes "has_spare (fl_table t)" "(h, v) \<in># contents t" "matches v"
  shows "\<exists>f. flat_member t h matches = Some f \<and> (h, flat_found_get f) \<in># contents t \<and> matches (flat_found_get f)"
proof -
  have "table_ok (fl_table t)" using assms(1) by (simp add: has_spare_def)
  note pay = payload_ent [OF this]
  have "\<not> no_match flat_query_mut t h matches" using assms(2,3) pay by (auto simp: contents_member no_match_def Let_def)
  from probe_member_at [of flat_query_mut t h matches] this assms(1)
  obtain i p where i: "i < unat (tb_buckets (fl_table t))" "table_ent (fl_table t) i = Some (h, p)"
      "matches (table_payload (fl_table t) (occ i))"
      "probe_member flat_query_mut t h matches = Some \<lparr>fd_owner = t, fd_bucket = occ i\<rparr>" by auto
  then show ?thesis using pay [OF i(2)] by (auto simp: flat_member_def flat_found_get_def contents_member)
qed

lemma flat_clear_ok:
  assumes "flat_ok t" "pl_capacity (fl_shape t) \<noteq> 0"
  shows "flat_ok (flat_clear DROP t) \<and> contents (flat_clear DROP t) = {#}"
proof (cases "flat_is_empty t")
  case True
  have "unat (ucast (fl_len t) :: usize) = unat (fl_len t)" by (rule unat_ucast_widen) simp
  then have "size (contents t) = 0" using True assms(1) by (simp add: flat_is_empty_def flat_len_def flat_ok_def)
  then show ?thesis using assms(1) True by (simp add: flat_clear_def)
next
  case False
  have "table_ok (fl_table t)" using assms by (simp add: flat_ok_def)
  from table_clear_view [OF this, of DROP] False show ?thesis
    using assms by (simp add: flat_ok_def flat_clear_def contents_def reach_clear)
qed

text \<open>The operations behind a retained admission need no check: an admitted insertion adds its entry
  whatever is there already, an admitted entry is the matching one or a vacancy that takes the new one,
  and a member query returns the entry it was promised. Clearing leaves nothing.\<close>

theorem flat_admitted_operations:
  assumes "flat_ok t" "size (contents t) < unat (pl_capacity (fl_shape t))"
  shows "(\<exists>t'. flat_insert t h w = Some t' \<and> flat_ok t' \<and> fl_shape t' = fl_shape t \<and> contents t' = add_mset (h, w) (contents t))
    \<and> (\<exists>e. flat_admit t h matches = Some e \<and> (case e of
        Entry_Occupied f \<Rightarrow> matches (flat_found_get f) \<and> (h, flat_found_get f) \<in># contents t \<and>
          flat_ok (flat_found_set f w) \<and> contents (flat_found_set f w) = add_mset (h, w) (contents t - {#(h, flat_found_get f)#})
      | Entry_Vacant v \<Rightarrow> (\<forall>x. (h, x) \<in># contents t \<longrightarrow> \<not> matches x) \<and>
          flat_ok (flat_vacancy_insert v w) \<and> contents (flat_vacancy_insert v w) = add_mset (h, w) (contents t)))
    \<and> (\<forall>v. (h, v) \<in># contents t \<and> matches v \<longrightarrow>
        (\<exists>f. flat_member t h matches = Some f \<and> (h, flat_found_get f) \<in># contents t \<and> matches (flat_found_get f)))
    \<and> flat_ok (flat_clear DROP t) \<and> contents (flat_clear DROP t) = {#}"
proof -
  have cap: "pl_capacity (fl_shape t) \<noteq> 0" using assms(2) by auto
  have len: "unat (fl_len t) < unat (pl_capacity (fl_shape t))" using assms by (simp add: flat_ok_def)
  note spare = flat_spare [OF assms(1) cap]
  have "\<exists>t'. flat_insert t h w = Some t' \<and> flat_ok t' \<and> fl_shape t' = fl_shape t \<and> contents t' = add_mset (h, w) (contents t)"
    by (rule probe_vacant_at [of flat_query_mut t h])
       (use spare flat_vacancy_insert_ok [OF assms(1) _ len, of h _ w] in \<open>auto simp: flat_insert_def\<close>)
  moreover have "\<exists>e. flat_admit t h matches = Some e \<and> (case e of
        Entry_Occupied f \<Rightarrow> matches (flat_found_get f) \<and> (h, flat_found_get f) \<in># contents t \<and>
          flat_ok (flat_found_set f w) \<and> contents (flat_found_set f w) = add_mset (h, w) (contents t - {#(h, flat_found_get f)#})
      | Entry_Vacant v \<Rightarrow> (\<forall>x. (h, x) \<in># contents t \<longrightarrow> \<not> matches x) \<and>
          flat_ok (flat_vacancy_insert v w) \<and> contents (flat_vacancy_insert v w) = add_mset (h, w) (contents t))"
    using hit_or_none [of flat_query_mut t h matches, unfolded flat_query_simps, OF spare]
  proof (elim disjE exE)
    fix i assume "hit flat_query_mut t h matches i"
    then show ?thesis
      by (rule flat_hit [OF assms(1) spare]) (use flat_found_set_ok [OF assms(1), of i h _ w] in auto)
  next
    assume "no_match flat_query_mut t h matches"
    then show ?thesis
      by (rule flat_miss [OF assms(1) spare]) (use flat_vacancy_insert_ok [OF assms(1) _ len, of h _ w] in auto)
  qed
  moreover have "\<exists>f. flat_member t h matches = Some f \<and> (h, flat_found_get f) \<in># contents t \<and> matches (flat_found_get f)"
    if "(h, v) \<in># contents t" "matches v" for v
    by (rule flat_member_ok [OF spare that(1), of matches, OF that(2)])
  moreover have "flat_ok (flat_clear DROP t) \<and> contents (flat_clear DROP t) = {#}"
    by (rule flat_clear_ok [OF assms(1) cap])
  ultimately show ?thesis by blast
qed

lemma flat_admitted_operations_witness:
  "\<exists>t t' :: nat flat. flat_insert (empty_flat 4) 9 5 = Some t \<and> flat_insert t 9 6 = Some t' \<and> contents t' = {#(9, 6), (9, 5)#}"
proof -
  have e: "flat_ok (empty_flat 4 :: nat flat)" "contents (empty_flat 4 :: nat flat) = {#}"
    "fl_shape (empty_flat 4 :: nat flat) = \<lparr>pl_capacity = 4\<rparr>" using empty_flat_ok [of 4] by auto
  obtain t where t: "flat_insert (empty_flat 4) 9 (5 :: nat) = Some t" "flat_ok t" "fl_shape t = \<lparr>pl_capacity = 4\<rparr>" "contents t = {#(9, 5)#}"
    using flat_admitted_operations [OF e(1), of 9 5, THEN conjunct1] e(2,3) by auto
  then show ?thesis using flat_admitted_operations [OF t(2), of 9 6, THEN conjunct1] by auto
qed

end
