(* ===== verification/O3_Ranked.thy ===== *)
theory O3_Ranked
  imports O3_Heap_Engine
begin

text \<open>
  The heap engine for an owner whose entries are indices of nodes that hold the priorities, and
  whose \<open>read\<close> leaves the position of a removed node behind (the \<open>Source\<close> of
  src/src/depot/map/priority/mod.rs). Entries are ranked by the priority of their node, then by
  their index. A ghost heap with the stale positions cleared satisfies the engine's invariant; the
  engine never reads a position, so the two run in step.
\<close>

section \<open>Ranks\<close>

definition rank_cmp :: "(u32 \<Rightarrow> 'p::linorder) \<Rightarrow> u32 \<Rightarrow> u32 \<Rightarrow> ordering" where
  "rank_cmp f left right = (case ord_cmp (f left) (f right) of
       Equal \<Rightarrow> ord_cmp left right
     | order \<Rightarrow> order)"

interpretation rank: heap_order "rank_cmp f" for f :: "u32 \<Rightarrow> 'p::linorder"
  by unfold_locales (auto simp: rank_cmp_def split: ordering.splits)

lemma rank_le: "rank_cmp f a b \<noteq> Greater \<longleftrightarrow> f a < f b \<or> f a = f b \<and> a \<le> b"
  by (auto simp: rank_cmp_def split: ordering.splits)

lemma rank_cong: "f a = g a \<Longrightarrow> f b = g b \<Longrightarrow> rank_cmp f a b = rank_cmp g a b"
  by (simp add: rank_cmp_def)

section \<open>Heaps that differ in stale positions\<close>

definition agree :: "nat set \<Rightarrow> ('e, 'v) heap \<Rightarrow> ('e, 'v) heap \<Rightarrow> bool" where
  "agree A g h \<longleftrightarrow> hp_len g = hp_len h \<and> hp_entries g = hp_entries h \<and>
     length (hp_positions g) = length (hp_positions h) \<and>
     (\<forall>a < length (hp_positions h). a \<notin> A \<longrightarrow> hp_positions g ! a = hp_positions h ! a)"

definition hole_agree :: "nat set \<Rightarrow> ('e, 'v) hole \<Rightarrow> ('e, 'v) hole \<Rightarrow> bool" where
  "hole_agree A g h \<longleftrightarrow> agree A (ho_owner g) (ho_owner h) \<and> ho_value g = ho_value h \<and> ho_position g = ho_position h"

lemma update_agree:
  "length xs = length ys \<Longrightarrow> a < length ys \<Longrightarrow> (a \<noteq> i \<Longrightarrow> xs ! a = ys ! a) \<Longrightarrow> xs[i := v] ! a = ys[i := v] ! a"
  by (cases "a = i") auto

lemma agree_shift: "hole_agree A g h \<Longrightarrow> hole_agree A (hole_shift adr q g) (hole_shift adr q h)"
  by (auto simp: hole_agree_def agree_def hole_shift_def source_shift_def reindex_def Let_def intro!: update_agree)

lemma agree_apply_up: "hole_agree A g h \<Longrightarrow> hole_agree A (apply_up adr e g) (apply_up adr e h)"
proof (induction adr e g arbitrary: h rule: apply_up.induct)
  case (1 adr e g)
  have pos: "ho_position h = ho_position g" using 1(2) by (simp add: hole_agree_def)
  show ?case
  proof (cases "ho_position g \<noteq> e \<and> ho_position g \<noteq> 0")
    case True
    then show ?thesis using 1(1) [OF True agree_shift [OF 1(2)]] by (subst (1 2) apply_up.simps) (simp add: pos)
  next
    case False
    then show ?thesis using 1(2) by (subst (1 2) apply_up.simps) (auto simp: pos)
  qed
qed

lemma agree_apply_down: "hole_agree A g h \<Longrightarrow> hole_agree A (apply_down adr e k g) (apply_down adr e k h)"
  by (induction k arbitrary: g h) (simp_all add: Let_def agree_shift)

lemma agree_path_apply: "agree A g h \<Longrightarrow> hole_agree A (path_apply adr p v g) (path_apply adr p v h)"
  by (auto simp: path_apply_def Let_def hole_agree_def intro!: agree_apply_up agree_apply_down
      agree_apply_up [unfolded hole_agree_def] agree_apply_down [unfolded hole_agree_def])

lemma agree_commit: "hole_agree A g h \<Longrightarrow> agree A (hole_commit adr b g) (hole_commit adr b h)"
  by (auto simp: hole_agree_def agree_def hole_commit_def source_write_def reindex_def Let_def intro!: update_agree)

lemma agree_mono: "agree A g h \<Longrightarrow> A \<subseteq> B \<Longrightarrow> agree B g h"
  by (auto simp: agree_def)

lemma agree_remove:
  assumes "agree A g h" "position < heap_len h"
  shows "fst (hole_remove_by False adr cmp position h) = fst (hole_remove adr cmp position g)"
    "agree (insert (adr (hp_entries h position)) A) (snd (hole_remove adr cmp position g)) (snd (hole_remove_by False adr cmp position h))"
proof -
  let ?B = "insert (adr (hp_entries h position)) A"
  let ?g = "g\<lparr>hp_positions := (hp_positions g)[adr (hp_entries g position) := pos_NONE]\<rparr>"
  have eq: "heap_len g = heap_len h" "hp_entries g = hp_entries h"
    using assms(1) by (simp_all add: agree_def heap_len_def)
  have B: "agree ?B ?g h" using assms(1) by (auto simp: agree_def nth_list_update)
  note step = agree_shift [OF agree_path_apply [OF B]]
  show "fst (hole_remove_by False adr cmp position h) = fst (hole_remove adr cmp position g)"
    "agree ?B (snd (hole_remove adr cmp position g)) (snd (hole_remove_by False adr cmp position h))"
    using B step [of adr "heap_len h - 1"]
    by (simp_all add: hole_remove_def hole_remove_by_def source_read_def reindex_def eq Let_def)
      (auto simp: hole_agree_def agree_def)
qed

section \<open>Ranked heaps\<close>

text \<open>\<open>X\<close> are the indices in the heap; the positions of the others are stale.\<close>

definition ranked :: "(u32 \<Rightarrow> 'p::linorder) \<Rightarrow> u32 set \<Rightarrow> (u32, u32) heap \<Rightarrow> bool" where
  "ranked f X h \<longleftrightarrow> (\<exists>g. heap_ok unat (rank_cmp f) g \<and> heap_items g = X \<and> agree (- (unat ` X)) g h)"

lemma rankedE:
  assumes "ranked f X h"
  obtains g where "heap_ok unat (rank_cmp f) g" "heap_items g = X" "agree (- (unat ` X)) g h"
    "heap_len g = heap_len h" "hp_entries g = hp_entries h" "heap_capacity g = heap_capacity h"
    "\<And>i. i \<in> X \<Longrightarrow> hp_positions g ! unat i = hp_positions h ! unat i"
proof -
  obtain g :: "(u32, u32) heap" where g: "heap_ok unat (rank_cmp f) g" "heap_items g = X" "agree (- (unat ` X)) g h"
    using assms by (auto simp: ranked_def)
  have "unat i < heap_capacity g" if "i \<in> X" for i
    using that heap_locate(1) [OF g(1)] unfolding g(2) [symmetric] heap_items_index by auto
  then show ?thesis
    by (intro that [OF g]) (use g(3) in \<open>auto simp: agree_def heap_len_def heap_capacity_def\<close>)
qed

lemma heap_sorted_cong:
  assumes "heap_sorted (rank_cmp f) n E" "\<And>i. i < n \<Longrightarrow> f (E i) = g (E i)"
  shows "heap_sorted (rank_cmp g) n E"
proof -
  have "rank_cmp g (E (parent i)) (E i) = rank_cmp f (E (parent i)) (E i)" if "0 < i" "i < n" for i
    using assms(2) [of i] assms(2) [of "parent i"] parent_less [of i] that by (simp add: rank_cmp_def)
  then show ?thesis using assms(1) by (simp add: heap_sorted_def)
qed

lemma ranked_cong: "ranked f X h \<Longrightarrow> (\<And>i. i \<in> X \<Longrightarrow> f i = g i) \<Longrightarrow> ranked g X h"
  unfolding ranked_def heap_ok_def
  using heap_sorted_cong by (metis heap_items_index)

text \<open>The positions of indices outside the heap may change.\<close>

lemma ranked_stale:
  assumes "ranked f X h" "hp_len h' = hp_len h" "hp_entries h' = hp_entries h"
    "length (hp_positions h') = length (hp_positions h)"
    "\<And>i. i \<in> X \<Longrightarrow> hp_positions h' ! unat i = hp_positions h ! unat i"
  shows "ranked f X h'"
proof -
  obtain g where g: "heap_ok unat (rank_cmp f) g" "heap_items g = X" "agree (- (unat ` X)) g h"
    using assms(1) by (auto simp: ranked_def)
  have "agree (- (unat ` X)) g h'" using g(3) assms(2-5) by (auto simp: agree_def)
  then show ?thesis using g(1,2) by (auto simp: ranked_def)
qed

lemma ranked_empty: "length P < 2 ^ 32 - 1 \<Longrightarrow> ranked f {} \<lparr>hp_len = 0, hp_entries = E, hp_positions = P\<rparr>"
  unfolding ranked_def
  by (rule exI [of _ "heap_new E (length P)"])
     (auto simp: heap_ok_def heap_new_def heap_len_def planes_def heap_sorted_def heap_items_def items_def agree_def)

lemma ranked_locate:
  assumes "ranked f X h" "i \<in> X"
  shows "unat i < heap_capacity h" "unat (hp_positions h ! unat i) < heap_len h"
    "hp_entries h (unat (hp_positions h ! unat i)) = i"
proof -
  obtain g :: "(u32, u32) heap" where g: "heap_ok unat (rank_cmp f) g" "heap_items g = X"
    "heap_len g = heap_len h" "hp_entries g = hp_entries h" "heap_capacity g = heap_capacity h"
    "\<And>i. i \<in> X \<Longrightarrow> hp_positions g ! unat i = hp_positions h ! unat i" using assms(1) by (rule rankedE) blast
  obtain j where j: "j < heap_len g" "hp_entries g j = i" using assms(2) unfolding g(2) [symmetric] heap_items_index by blast
  show "unat i < heap_capacity h" "unat (hp_positions h ! unat i) < heap_len h"
    "hp_entries h (unat (hp_positions h ! unat i)) = i"
    using heap_locate [OF g(1) j(1)] j g(3-5) g(6) [OF assms(2)] by (simp_all add: offset_def)
qed

lemma ranked_entry: "ranked f X h \<Longrightarrow> p < heap_len h \<Longrightarrow> hp_entries h p \<in> X"
  by (erule rankedE) (auto simp: heap_items_index)

lemma ranked_card:
  assumes "ranked f X h"
  shows "finite X" "card X = heap_len h"
proof -
  obtain g :: "(u32, u32) heap" where g: "heap_ok unat (rank_cmp f) g" "heap_items g = X" "heap_len g = heap_len h" using assms by (rule rankedE) blast
  have "inj_on (hp_entries g) {..<heap_len g}"
    using g(1) planes_inj [of unat "heap_len g" "hp_entries g" "hp_positions g"] by (intro inj_onI) (auto simp: heap_ok_def)
  then show "finite X" "card X = heap_len h"
    unfolding g(2) [symmetric] g(3) [symmetric] heap_items_def items_def by (simp_all add: card_image)
qed

lemma ranked_minimum:
  assumes "ranked f X h" "X \<noteq> {}"
  shows "hp_entries h 0 \<in> X" "\<And>i. i \<in> X \<Longrightarrow> f (hp_entries h 0) < f i \<or> f (hp_entries h 0) = f i \<and> hp_entries h 0 \<le> i"
proof -
  obtain g :: "(u32, u32) heap" where g: "heap_ok unat (rank_cmp f) g" "heap_items g = X" "hp_entries g = hp_entries h" using assms(1) by (rule rankedE) blast
  note r = rank.heap_root [OF g(1)]
  show "hp_entries h 0 \<in> X" using r assms(2) g(2,3) by auto
  show "f (hp_entries h 0) < f i \<or> f (hp_entries h 0) = f i \<and> hp_entries h 0 \<le> i" if "i \<in> X" for i
    using r [of i] that unfolding g(2,3) rank_le by blast
qed

lemma ranked_parent:
  assumes "ranked f X h" "0 < j" "j < heap_len h"
  shows "f (hp_entries h (parent j)) \<le> f (hp_entries h j)"
proof -
  obtain g :: "(u32, u32) heap" where g: "heap_ok unat (rank_cmp f) g" "heap_len g = heap_len h" "hp_entries g = hp_entries h"
    using assms(1) by (rule rankedE) blast
  then have "rank_cmp f (hp_entries h (parent j)) (hp_entries h j) \<noteq> Greater"
    using assms(2,3) by (auto simp: heap_ok_def heap_sorted_def)
  then show ?thesis unfolding rank_le by auto
qed

lemma ranked_remove:
  assumes h: "ranked f X h" and i: "i \<in> X"
    and r: "hole_remove_by False unat (rank_cmp f) (unat (hp_positions h ! unat i)) h = (v, h')"
  shows "v = i" "ranked f (X - {i}) h'" "heap_capacity h' = heap_capacity h" "heap_len h' = heap_len h - 1"
proof -
  let ?p = "unat (hp_positions h ! unat i)"
  obtain g :: "(u32, u32) heap" where g: "heap_ok unat (rank_cmp f) g" "heap_items g = X" "agree (- (unat ` X)) g h"
    "heap_len g = heap_len h" "hp_entries g = hp_entries h" "heap_capacity g = heap_capacity h" using h by (rule rankedE) blast
  note at = ranked_locate [OF h i]
  obtain w g' where rg: "hole_remove unat (rank_cmp f) ?p g = (w, g')" by force
  note ok = rank.hole_remove_ok [OF g(1) _ rg]
  have p: "?p < heap_len g" using at(2) g(4) by simp
  note same = agree_remove [OF g(3) at(2), of unat "rank_cmp f", unfolded r rg fst_conv snd_conv at(3)]
  have "insert (unat i) (- (unat ` X)) = - (unat ` (X - {i}))" using i by (auto simp: word_unat_eq_iff)
  then have a: "agree (- (unat ` (X - {i}))) g' h'" using same(2) by simp
  show v: "v = i" using same(1) ok(1) [OF p] at(3) g(5) by simp
  then show "ranked f (X - {i}) h'" using ok(2,3) [OF p] a same(1) g(2) by (auto simp: ranked_def)
  show "heap_capacity h' = heap_capacity h" "heap_len h' = heap_len h - 1"
    using a ok(4,5) [OF p] g(4,6) by (auto simp: agree_def heap_capacity_def heap_len_def)
qed

text \<open>
  The owner compares a value with its own priority against an entry whose priority is in its node:
  a new entry or a new priority is ranked before the node is written.
\<close>

definition pair_cmp :: "(u32 \<Rightarrow> 'p::linorder) \<Rightarrow> u32 \<times> 'p \<Rightarrow> u32 \<Rightarrow> ordering" where
  "pair_cmp f source current = (case source of (index, priority) \<Rightarrow>
     (case ord_cmp priority (f current) of
        Equal \<Rightarrow> ord_cmp index current
      | order \<Rightarrow> order))"

lemma pair_cmp_rank: "pair_cmp f (i, f i) = rank_cmp f i"
  by (simp add: pair_cmp_def rank_cmp_def fun_eq_iff)

lemma pair_cmp_other: "j \<noteq> i \<Longrightarrow> pair_cmp f (i, q) j = rank_cmp (f(i := q)) i j"
  by (simp add: pair_cmp_def rank_cmp_def)

text \<open>A repair reads only entries of the heap, and never the one at its start.\<close>

lemma path_down_end_within:
  assumes "\<And>i. e < i \<Longrightarrow> i < n \<Longrightarrow> cv i = cv' i"
    "\<And>i j. e < i \<Longrightarrow> e < j \<Longrightarrow> i < n \<Longrightarrow> j < n \<Longrightarrow> ca i j = ca' i j"
  shows "path_down_end cv ca n e = path_down_end cv' ca' n e"
  using assms
proof (induction "n - e" arbitrary: e rule: less_induct)
  case less
  show ?case
  proof (cases "2 * e + 1 < n")
    case True
    note child = min_child_props [OF True, of ca]
    have same: "min_child ca n e = min_child ca' n e" using less.prems(2) True by (auto simp: min_child_def)
    have "path_down_end cv ca n (min_child ca n e) = path_down_end cv' ca' n (min_child ca n e)"
      using child less.prems by (intro less.hyps) auto
    moreover have "cv (min_child ca n e) = cv' (min_child ca n e)" using child less.prems(1) by blast
    ultimately show ?thesis
      by (subst path_down_end_step, subst (2) path_down_end_step) (simp add: same)
  next
    case False
    then show ?thesis by (subst path_down_end_step, subst (2) path_down_end_step) simp
  qed
qed

lemma path_repair_cong:
  assumes "start < n" "\<And>i. i \<noteq> start \<Longrightarrow> i < n \<Longrightarrow> cv i = cv' i"
    "\<And>i j. i \<noteq> start \<Longrightarrow> j \<noteq> start \<Longrightarrow> i < n \<Longrightarrow> j < n \<Longrightarrow> ca i j = ca' i j"
  shows "path_repair cv ca start n = path_repair cv' ca' start n"
proof -
  have down: "path_down cv ca start n = path_down cv' ca' start n"
    using assms by (auto simp: path_down_def intro!: path_down_end_within)
  have up: "path_up cv ((start - 1) div 2) = path_up cv' ((start - 1) div 2)" if "start \<noteq> 0"
    using assms(1,2) that by (auto simp: path_up_def intro!: path_up_end_cong)
  have "(start - 1) div 2 \<noteq> start \<and> (start - 1) div 2 < n" if "start \<noteq> 0" using assms(1) that by auto
  then have "cv ((start - 1) div 2) = cv' ((start - 1) div 2)" if "start \<noteq> 0"
    using assms(2) that by blast
  then show ?thesis using down up by (auto simp: path_repair_def)
qed

lemma ranked_append:
  assumes h: "ranked f X h" and i: "i \<notin> X" "unat i < heap_capacity h" "hp_positions h ! unat i = pos_NONE"
    and h': "h' = hole_commit unat True (path_append unat (path_up (\<lambda>j. rank_cmp f i (hp_entries h j)) (heap_len h)) i h)"
  shows "ranked f (insert i X) h'" "heap_capacity h' = heap_capacity h" "heap_len h' = Suc (heap_len h)"
proof -
  obtain g :: "(u32, u32) heap" where g: "heap_ok unat (rank_cmp f) g" "heap_items g = X" "agree (- (unat ` X)) g h"
    "heap_len g = heap_len h" "hp_entries g = hp_entries h" "heap_capacity g = heap_capacity h" using h by (rule rankedE) blast
  have none: "hp_positions g ! unat i = pos_NONE"
    using heap_present [OF g(1), of "unat i"] i(1,2) g(2,6) by (metis word_unat_eq_iff)
  then have a: "agree (- (unat ` insert i X)) g h" using g(3) i(3) by (auto simp: agree_def)
  have cap: "unat i < heap_capacity g" using i(2) g(6) by simp
  note ok = rank.hole_append_ok [OF g(1) cap none]
  define g' where "g' = hole_commit unat True (hole_append unat (rank_cmp f) i g)"
  have "agree (- (unat ` insert i X)) (g\<lparr>hp_len := w\<rparr>) (h\<lparr>hp_len := w\<rparr>)" for w
    using a by (simp add: agree_def)
  then have "agree (- (unat ` insert i X)) g' h'"
    unfolding g'_def h' hole_append_def path_append_def Let_def g(4,5) by (intro agree_commit agree_path_apply)
  then show "ranked f (insert i X) h'" "heap_capacity h' = heap_capacity h" "heap_len h' = Suc (heap_len h)"
    using ok(1-4) g(2,4,6) unfolding g'_def [symmetric] ranked_def by (auto simp: agree_def heap_capacity_def heap_len_def)
qed

text \<open>Only the entry at the start is out of order when one node gets another priority.\<close>

lemma changed_rank:
  fixes q :: "'p::linorder"
  assumes s: "heap_sorted (rank_cmp f) n E" and p: "p < n" and inj: "\<And>j. j < n \<Longrightarrow> j \<noteq> p \<Longrightarrow> E j \<noteq> E p"
  defines "c \<equiv> rank_cmp (f(E p := q))"
  shows "p \<noteq> 0 \<Longrightarrow> c (E p) (E (parent p)) = Less \<Longrightarrow> sorted_but_up c n p E"
    "p = 0 \<or> c (E (parent p)) (E p) \<noteq> Greater \<Longrightarrow> sorted_but_down c n p E"
proof -
  have same: "c (E i) (E j) = rank_cmp f (E i) (E j)" if "i < n" "j < n" "i \<noteq> p" "j \<noteq> p" for i j
    using inj that by (simp add: c_def rank_cmp_def)
  have par: "parent i < n" if "0 < i" "i < n" for i using parent_less [of i] that by linarith
  have edge: "c (E (parent i)) (E i) \<noteq> Greater" if "0 < i" "i < n" "i \<noteq> p" "parent i \<noteq> p" for i
    using s that same [OF par _ that(4,3)] by (simp add: heap_sorted_def)
  have over: "c (E (parent p)) (E i) \<noteq> Greater" if "0 < p" "0 < i" "i < n" "parent i = p" for i
  proof -
    have "rank_cmp f (E (parent p)) (E p) \<noteq> Greater" "rank_cmp f (E p) (E i) \<noteq> Greater"
      using s that p unfolding heap_sorted_def by blast+
    then have "rank_cmp f (E (parent p)) (E i) \<noteq> Greater" by (rule rank.trans)
    moreover have "i \<noteq> p" "parent p \<noteq> p" using parent_less [of i] parent_less [of p] that by auto
    ultimately show ?thesis using same [of "parent p" i] par [of p] that p by simp
  qed
  show "sorted_but_up c n p E" if pos: "p \<noteq> 0" and lt: "c (E p) (E (parent p)) = Less"
  proof -
    have "c (E (parent i)) (E i) \<noteq> Greater" if "0 < i" "i < n" "i \<noteq> p" for i
    proof (cases "parent i = p")
      case True
      then show ?thesis
        using rank.trans [OF rank.less_le [OF lt [unfolded c_def]]] over [of i] pos that unfolding c_def by simp
    qed (rule edge [OF that])
    then show ?thesis using over by (simp add: sorted_but_up_def)
  qed
  show "sorted_but_down c n p E" if "p = 0 \<or> c (E (parent p)) (E p) \<noteq> Greater"
    using edge over that unfolding sorted_but_down_def by (metis less_irrefl)
qed

lemma ranked_set:
  assumes h: "ranked f X h" and i: "i \<in> X"
    and p: "p = path_repair (\<lambda>j. pair_cmp f (i, q) (hp_entries h j))
      (\<lambda>j k. rank_cmp f (hp_entries h j) (hp_entries h k)) (unat (hp_positions h ! unat i)) (heap_len h)"
    and h': "h' = hole_commit unat True (path_apply unat p i h)"
  shows "ranked (f(i := q)) X h'" "heap_capacity h' = heap_capacity h" "heap_len h' = heap_len h"
proof -
  obtain g :: "(u32, u32) heap" where g: "heap_ok unat (rank_cmp f) g" "heap_items g = X" "agree (- (unat ` X)) g h"
    "heap_len g = heap_len h" "hp_entries g = hp_entries h" "heap_capacity g = heap_capacity h" using h by (rule rankedE) blast
  let ?s = "unat (hp_positions h ! unat i)" and ?E = "hp_entries g" and ?n = "heap_len g" and ?c = "rank_cmp (f(i := q))"
  note at = ranked_locate [OF h i]
  have s: "?s < ?n" "?E ?s = i" using at g(4,5) by auto
  define hole where "hole = \<lparr>ho_owner = g, ho_value = i, ho_position = ?s\<rparr>"
  have P: "planes unat ?n ?E (hp_positions g)" and sorted: "heap_sorted (rank_cmp f) ?n ?E"
    using g(1) by (simp_all add: heap_ok_def)
  have inj: "?E j \<noteq> ?E ?s" if "j < ?n" "j \<noteq> ?s" for j using planes_inj [OF P that(1) s(1)] that(2) by auto
  have E: "hole_entries unat hole = ?E(?s := i)" "?E(?s := i) = ?E"
    using rank.exchange_hole [OF g(1) s(1) _ hole_def] s(2) by auto
  have ok: "hole_ok unat ?n hole" using rank.exchange_hole [OF g(1) s(1) _ hole_def] s(2) by auto
  note dir = changed_rank [OF sorted s(1) inj, of q, unfolded s(2)]
  have p': "p = path_repair (\<lambda>j. ?c i (?E j)) (\<lambda>j k. ?c (?E j) (?E k)) ?s ?n"
    unfolding p g(4,5) using at(2) inj s(2) unfolding g(4,5)
    by (intro path_repair_cong) (auto simp: pair_cmp_other rank_cmp_def)
  have m: "hole_moved unat ?c ?n hole (path_apply unat p i g)"
    using rank.path_repair_moved_by [OF hole_def ok _ _ E(1) p'] dir E(2) by simp
  have len: "unat (hp_len (ho_owner hole)) = ?n" by (simp add: hole_def heap_len_def)
  note result = rank.commit_ok [of unat _ hole, unfolded len, OF m]
  have len': "hp_len (hole_commit unat True (path_apply unat p i g)) = hp_len g" using m by (simp add: hole_moved_def hole_def)
  have a: "agree (- (unat ` X)) (hole_commit unat True (path_apply unat p i g)) h'"
    unfolding h' by (intro agree_commit agree_path_apply g(3))
  show "ranked (f(i := q)) X h'" "heap_capacity h' = heap_capacity h" "heap_len h' = heap_len h"
    using result(1,2) a g(2,4,6) E len' by (auto simp: ranked_def agree_def heap_capacity_def heap_len_def heap_items_def hole_def)
qed

end
