(* ===== verification/O3_Priority.thy ===== *)
theory O3_Priority
  imports O3_Map_Flat O3_Ranked
begin

text \<open>
  The priority map (src/src/depot/map/priority/mod.rs, store.rs, node.rs, min.rs, plan.rs,
  layout.rs): a hash table from keys to node indices, a store of nodes with a free list, and a heap
  of node indices ordered by the priorities in the nodes. A node knows the bucket that names it and
  its position in the heap, and the shifts of the table and the moves of the heap keep both up to date.

  The hash table is the engine of O3_Map and the heap the engine of O3_Heap: the store and the index
  plane are read as the heap's planes, and written back after each operation on them.
\<close>

section \<open>Nodes and stores\<close>

record ('k, 'p, 'v) pair =
  pa_key :: 'k
  pa_value :: 'v
  pa_priority :: 'p

record ('k, 'p, 'v) pnode =
  nd_pair :: "('k, 'p, 'v) pair option"
  nd_bucket :: u32
  nd_position :: u32

record ('k, 'p, 'v) pstore =
  ps_nodes :: "('k, 'p, 'v) pnode list"
  ps_plan :: plan
  ps_next :: u32
  ps_free :: u32
  ps_len :: u32

datatype pslot = Slot_Free u32 | Slot_Fresh u32

definition pstore_NONE :: u32 where
  "pstore_NONE = - 1"

primrec pslot_index :: "pslot \<Rightarrow> u32" where
  "pslot_index (Slot_Free index) = index"
| "pslot_index (Slot_Fresh index) = index"

definition plan_capacity :: "plan \<Rightarrow> usize" where
  "plan_capacity pl = ucast (pl_capacity pl)"

definition pstore_new :: "('k, 'p, 'v) pnode list \<Rightarrow> plan \<Rightarrow> ('k, 'p, 'v) pstore" where
  "pstore_new nodes pl = \<lparr>ps_nodes = nodes, ps_plan = pl, ps_next = 0, ps_free = pstore_NONE, ps_len = 0\<rparr>"

definition pstore_capacity :: "('k, 'p, 'v) pstore \<Rightarrow> usize" where
  "pstore_capacity st = plan_capacity (ps_plan st)"

definition pstore_len :: "('k, 'p, 'v) pstore \<Rightarrow> usize" where
  "pstore_len st = ucast (ps_len st)"

definition pstore_vacant :: "('k, 'p, 'v) pstore \<Rightarrow> pslot option" where
  "pstore_vacant st =
     (if ps_free st \<noteq> pstore_NONE then Some (Slot_Free (ps_free st))
      else if (ucast (ps_next st) :: usize) < pstore_capacity st then Some (Slot_Fresh (ps_next st)) else None)"

definition pstore_pair :: "('k, 'p, 'v) pstore \<Rightarrow> u32 \<Rightarrow> ('k, 'p, 'v) pair" where
  "pstore_pair st index = the (nd_pair (ps_nodes st ! unat index))"

text \<open>Writing the pair that \<open>pair_mut\<close> hands out.\<close>

definition pstore_pair_set :: "u32 \<Rightarrow> ('k, 'p, 'v) pair \<Rightarrow> ('k, 'p, 'v) pstore \<Rightarrow> ('k, 'p, 'v) pstore" where
  "pstore_pair_set index pair st =
     st\<lparr>ps_nodes := (ps_nodes st)[unat index := (ps_nodes st ! unat index)\<lparr>nd_pair := Some pair\<rparr>]\<rparr>"

definition pstore_insert ::
  "pslot \<Rightarrow> ('k, 'p, 'v) pair \<Rightarrow> u32 \<Rightarrow> ('k, 'p, 'v) pstore \<Rightarrow> u32 \<times> ('k, 'p, 'v) pstore" where
  "pstore_insert slot pair bucket st =
     (let (index, st) = (case slot of
            Slot_Free index \<Rightarrow> (index, st\<lparr>ps_free := nd_bucket (ps_nodes st ! unat index)\<rparr>)
          | Slot_Fresh index \<Rightarrow> (index, st\<lparr>ps_next := ps_next st + 1\<rparr>))
      in (index, st\<lparr>ps_nodes := (ps_nodes st)[unat index :=
           \<lparr>nd_pair = Some pair, nd_bucket = ucast (vacant_index bucket), nd_position = pstore_NONE\<rparr>]\<rparr>))"

definition pstore_remove :: "u32 \<Rightarrow> ('k, 'p, 'v) pstore \<Rightarrow> ('k, 'p, 'v) pair \<times> ('k, 'p, 'v) pstore" where
  "pstore_remove index st =
     (let node = ps_nodes st ! unat index
      in (the (nd_pair node),
          st\<lparr>ps_nodes := (ps_nodes st)[unat index := node\<lparr>nd_pair := None, nd_bucket := ps_free st\<rparr>],
             ps_free := index\<rparr>))"

definition pstore_bucket :: "u32 \<Rightarrow> ('k, 'p, 'v) pstore \<Rightarrow> usize" where
  "pstore_bucket index st = ucast (nd_bucket (ps_nodes st ! unat index))"

definition pstore_set_bucket :: "u32 \<Rightarrow> u32 \<Rightarrow> ('k, 'p, 'v) pstore \<Rightarrow> ('k, 'p, 'v) pstore" where
  "pstore_set_bucket index bucket st =
     st\<lparr>ps_nodes := (ps_nodes st)[unat index := (ps_nodes st ! unat index)\<lparr>nd_bucket := ucast (occupied_index bucket)\<rparr>]\<rparr>"

section \<open>Plans\<close>

datatype map_capacity = Capacity_Domain map_capacity_error | Capacity_Layout usize alloc_overflow

definition u32_ty :: ty where
  "u32_ty = \<lparr>ty_size = 4, ty_align = 4\<rparr>"

text \<open>The node type is a parameter: its size depends on the key, priority and value types.\<close>

definition priority_try_plan :: "ty \<Rightarrow> plan \<Rightarrow> alloc_overflow + plan" where
  "priority_try_plan node pl =
     (let capacity = plan_capacity pl in
      case map_layout_try_plan u32_ty pl of
        Inl e \<Rightarrow> Inl e
      | Inr table \<Rightarrow>
          (case recipe_try_build (recipe.Tail (recipe.Tail (map_recipe u32_ty (ml_buckets table)) node capacity) u32_ty capacity) of
             Inl e \<Rightarrow> Inl e
           | Inr b \<Rightarrow> Inr (ml_shape table)))"

definition priority_layout :: "ty \<Rightarrow> plan \<Rightarrow> field_bundle" where
  "priority_layout node pl =
     (let capacity = plan_capacity pl; table = map_shape_layout u32_ty pl
      in recipe_build (recipe.Tail (recipe.Tail (map_recipe u32_ty (ml_buckets table)) node capacity) u32_ty capacity))"

definition priority_plan_new :: "ty \<Rightarrow> usize \<Rightarrow> map_capacity + plan" where
  "priority_plan_new node capacity = (case plan_new capacity of
       Inl e \<Rightarrow> Inl (Capacity_Domain e)
     | Inr pl \<Rightarrow> (case priority_try_plan node pl of
           Inr shape \<Rightarrow> Inr shape
         | Inl cause \<Rightarrow> Inl (Capacity_Layout capacity cause)))"

section \<open>The core\<close>

record ('k, 'p, 'v) core =
  co_table :: "u32 table"
  co_store :: "('k, 'p, 'v) pstore"
  co_indices :: "nat \<Rightarrow> u32"

text \<open>\<open>memory\<close> is what the allocation holds: words of nodes without a pair, and the index plane.\<close>

definition core_try_new ::
  "(layout \<Rightarrow> bool) \<Rightarrow> ty \<Rightarrow> (nat \<Rightarrow> u32) \<Rightarrow> plan \<Rightarrow> alloc_exhausted + ('k, 'p, 'v) core" where
  "core_try_new grant node memory pl =
     (case layout_try_allocate grant (bundle_layout_of (priority_layout node pl)) of
        Inl e \<Rightarrow> Inl e
      | Inr _ \<Rightarrow> Inr
          \<lparr>co_table = table_from_fields (plan_buckets pl),
           co_store = pstore_new (map (\<lambda>i. \<lparr>nd_pair = None, nd_bucket = memory i, nd_position = memory i\<rparr>)
             [0..<unat (plan_capacity pl)]) pl,
           co_indices = memory\<rparr>)"

text \<open>The heap's planes: the positions are in the nodes.\<close>

definition core_heap :: "('k, 'p, 'v) core \<Rightarrow> (u32, u32) heap" where
  "core_heap c = \<lparr>hp_len = ps_len (co_store c), hp_entries = co_indices c,
     hp_positions = map nd_position (ps_nodes (co_store c))\<rparr>"

definition core_set_heap :: "('k, 'p, 'v) core \<Rightarrow> (u32, u32) heap \<Rightarrow> ('k, 'p, 'v) core" where
  "core_set_heap c h =
     c\<lparr>co_store := (co_store c)\<lparr>ps_len := hp_len h,
         ps_nodes := map2 (\<lambda>node p. node\<lparr>nd_position := p\<rparr>) (ps_nodes (co_store c)) (hp_positions h)\<rparr>,
       co_indices := hp_entries h\<rparr>"

definition core_priority :: "('k, 'p, 'v) core \<Rightarrow> u32 \<Rightarrow> 'p" where
  "core_priority c index = pa_priority (pstore_pair (co_store c) index)"

definition core_shift :: "('k, 'p, 'v) core \<Rightarrow> u32 \<Rightarrow> u32 \<Rightarrow> u64 \<Rightarrow> ('k, 'p, 'v) core" where
  "core_shift c hole next' hash =
     (let table = table_shift (co_table c) hole next' hash;
          moved = occupied_new (vacant_index hole);
          index = table_payload table moved
      in c\<lparr>co_table := table, co_store := pstore_set_bucket index moved (co_store c)\<rparr>)"

definition core_mutation :: "(('k, 'p, 'v) core, u32) mutation" where
  "core_mutation = \<lparr>mu_table = co_table, mu_set_table = \<lambda>c t. c\<lparr>co_table := t\<rparr>, mu_shift = core_shift\<rparr>"

text \<open>An occupied entry retains the core, the bucket and the index.\<close>

record ('k, 'p, 'v) pocc =
  pc_core :: "('k, 'p, 'v) core"
  pc_bucket :: u32
  pc_index :: u32

definition core_query :: "(('k, 'p, 'v) core, u32, ('k, 'p, 'v) pair, 'v) query" where
  "core_query = \<lparr>qr_SPARE = True, qr_table = co_table,
     qr_value = \<lambda>c b. pstore_pair (co_store c) (table_payload (co_table c) b),
     qr_occupied = \<lambda>c b. pa_value (pstore_pair (co_store c) (table_payload (co_table c) b))\<rparr>"

definition core_query_mut :: "(('k, 'p, 'v) core, u32, ('k, 'p, 'v) pair, ('k, 'p, 'v) pocc) query" where
  "core_query_mut = \<lparr>qr_SPARE = True, qr_table = co_table,
     qr_value = \<lambda>c b. pstore_pair (co_store c) (table_payload (co_table c) b),
     qr_occupied = \<lambda>c b. \<lparr>pc_core = c, pc_bucket = b, pc_index = table_payload (co_table c) b\<rparr>\<rparr>"

record ('k, 'p, 'v) pinsertion =
  pi_core :: "('k, 'p, 'v) core"
  pi_bucket :: u32
  pi_slot :: pslot
  pi_hash :: u64

definition core_vacant :: "(('k, 'p, 'v) core, unit) vacancy \<Rightarrow> u64 \<Rightarrow> ('k, 'p, 'v) pinsertion option" where
  "core_vacant entry hash = (case pstore_vacant (co_store (vc_owner entry)) of
       None \<Rightarrow> None
     | Some slot \<Rightarrow> Some \<lparr>pi_core = vc_owner entry, pi_bucket = vc_bucket entry, pi_slot = slot, pi_hash = hash\<rparr>)"

definition insertion_insert ::
  "('k, 'p::linorder, 'v) pinsertion \<Rightarrow> 'k \<Rightarrow> 'p \<Rightarrow> 'v \<Rightarrow> ('k, 'p, 'v) core" where
  "insertion_insert e key priority v =
     (let c = pi_core e; pair = \<lparr>pa_key = key, pa_value = v, pa_priority = priority\<rparr>;
          len = unat (pstore_len (co_store c));
          path = path_up (\<lambda>i. pair_cmp (core_priority c) (pslot_index (pi_slot e), priority) (co_indices c i)) len;
          (index, store) = pstore_insert (pi_slot e) pair (pi_bucket e) (co_store c);
          c = c\<lparr>co_store := store, co_table := table_insert (co_table c) (pi_bucket e) (pi_hash e) index\<rparr>
      in core_set_heap c (hole_commit unat True (path_append unat path index (core_heap c))))"

section \<open>Entries\<close>

definition pocc_pair :: "('k, 'p, 'v) pocc \<Rightarrow> ('k, 'p, 'v) pair" where
  "pocc_pair e = pstore_pair (co_store (pc_core e)) (pc_index e)"

definition pocc_priority :: "('k, 'p, 'v) pocc \<Rightarrow> 'p" where
  "pocc_priority e = pa_priority (pocc_pair e)"

definition pocc_get :: "('k, 'p, 'v) pocc \<Rightarrow> 'v" where
  "pocc_get e = pa_value (pocc_pair e)"

text \<open>Writing the value that \<open>get_mut\<close> hands out.\<close>

definition pocc_put :: "('k, 'p, 'v) pocc \<Rightarrow> 'v \<Rightarrow> ('k, 'p, 'v) core" where
  "pocc_put e v = (pc_core e)\<lparr>co_store :=
     pstore_pair_set (pc_index e) ((pocc_pair e)\<lparr>pa_value := v\<rparr>) (co_store (pc_core e))\<rparr>"

definition pocc_position :: "('k, 'p, 'v) pocc \<Rightarrow> nat" where
  "pocc_position e = unat (nd_position (ps_nodes (co_store (pc_core e)) ! unat (pc_index e)))"

definition pocc_set :: "('k, 'p::linorder, 'v) pocc \<Rightarrow> 'p \<Rightarrow> ('k, 'p, 'v) core" where
  "pocc_set e priority =
     (let c = pc_core e; index = pc_index e; position = pocc_position e; len = unat (pstore_len (co_store c));
          path = path_repair (\<lambda>i. pair_cmp (core_priority c) (index, priority) (co_indices c i))
            (\<lambda>i j. rank_cmp (core_priority c) (co_indices c i) (co_indices c j)) position len;
          c = c\<lparr>co_store := pstore_pair_set index ((pstore_pair (co_store c) index)\<lparr>pa_priority := priority\<rparr>) (co_store c)\<rparr>
      in core_set_heap c (hole_commit unat True (path_apply unat path index (core_heap c))))"

text \<open>\<open>entry(()).clear()\<close> takes the index out of the heap, leaving its node's position behind.\<close>

definition pocc_clear :: "('k, 'p::linorder, 'v) pocc \<Rightarrow> ('k, 'p, 'v) core" where
  "pocc_clear e =
     (let c = pc_core e
      in core_set_heap c (snd (hole_remove_by False unat (rank_cmp (core_priority c)) (pocc_position e) (core_heap c))))"

definition pocc_remove_parts :: "('k, 'p::linorder, 'v) pocc \<Rightarrow> (('k \<times> 'v \<times> 'p) \<times> ('k, 'p, 'v) core) option" where
  "pocc_remove_parts e = (case hole_retire core_mutation (pocc_clear e) (pc_bucket e) of
       None \<Rightarrow> None
     | Some c \<Rightarrow>
         let (pair, store) = pstore_remove (pc_index e) (co_store c)
         in Some ((pa_key pair, pa_value pair, pa_priority pair), c\<lparr>co_store := store\<rparr>))"

definition pocc_remove :: "('k, 'p::linorder, 'v) pocc \<Rightarrow> ('v \<times> ('k, 'p, 'v) core) option" where
  "pocc_remove e = map_option (\<lambda>((key, v, priority), c). (v, c)) (pocc_remove_parts e)"

section \<open>The map\<close>

record ('k, 'p, 'v) pmin =
  mn_core :: "('k, 'p, 'v) core"
  mn_hasher :: "'k \<Rightarrow> u64"

text \<open>A vacant entry is the insertion and the key that was probed for.\<close>

type_synonym ('k, 'p, 'v) pentry = "(('k, 'p, 'v) pocc, ('k, 'p, 'v) pinsertion \<times> 'k) map_entry"

definition min_try_new ::
  "(layout \<Rightarrow> bool) \<Rightarrow> ty \<Rightarrow> (nat \<Rightarrow> u32) \<Rightarrow> plan \<Rightarrow> ('k \<Rightarrow> u64) \<Rightarrow> alloc_exhausted + ('k, 'p, 'v) pmin" where
  "min_try_new grant node memory pl hasher = (case core_try_new grant node memory pl of
       Inl e \<Rightarrow> Inl e
     | Inr c \<Rightarrow> Inr \<lparr>mn_core = c, mn_hasher = hasher\<rparr>)"

definition min_len :: "('k, 'p, 'v) pmin \<Rightarrow> usize" where
  "min_len m = pstore_len (co_store (mn_core m))"

definition min_is_empty :: "('k, 'p, 'v) pmin \<Rightarrow> bool" where
  "min_is_empty m \<longleftrightarrow> min_len m = 0"

definition min_peek :: "('k, 'p, 'v) pmin \<Rightarrow> ('k \<times> 'p \<times> 'v) option" where
  "min_peek m =
     (if min_is_empty m then None
      else let pair = pstore_pair (co_store (mn_core m)) (co_indices (mn_core m) 0)
        in Some (pa_key pair, pa_priority pair, pa_value pair))"

definition min_entry_at :: "('k, 'p, 'v) pmin \<Rightarrow> u32 \<Rightarrow> ('k, 'p, 'v) pocc" where
  "min_entry_at m index =
     \<lparr>pc_core = mn_core m, pc_bucket = occupied_new (pstore_bucket index (co_store (mn_core m))), pc_index = index\<rparr>"

definition min_peek_mut :: "('k, 'p, 'v) pmin \<Rightarrow> ('k, 'p, 'v) pocc option" where
  "min_peek_mut m =
     (if min_is_empty m then None
      else let index = co_indices (mn_core m) 0;
               bucket = occupied_new (pstore_bucket index (co_store (mn_core m)))
        in Some \<lparr>pc_core = mn_core m, pc_bucket = bucket, pc_index = index\<rparr>)"

datatype 'k full_rejected = Rejected_Full 'k

definition min_try_entry :: "('k, 'p, 'v) pmin \<Rightarrow> 'k \<Rightarrow> ('k full_rejected + ('k, 'p, 'v) pentry) option" where
  "min_try_entry m key =
     (let hash = mn_hasher m key in
      case probe_new core_query_mut (mn_core m) hash (\<lambda>pair. pa_key pair = key) of
        None \<Rightarrow> None
      | Some p \<Rightarrow> Some (case probe_entry core_query_mut core_vacant p of
            Entry_Occupied raw \<Rightarrow> Inr (Entry_Occupied raw)
          | Entry_Vacant (Some entry) \<Rightarrow> Inr (Entry_Vacant (entry, key))
          | Entry_Vacant None \<Rightarrow> Inl (Rejected_Full key)))"

definition pvacant_insert :: "('k, 'p::linorder, 'v) pinsertion \<times> 'k \<Rightarrow> 'p \<Rightarrow> 'v \<Rightarrow> ('k, 'p, 'v) core" where
  "pvacant_insert e priority v = insertion_insert (fst e) (snd e) priority v"

definition min_occupied :: "('k, 'p, 'v) pmin \<Rightarrow> 'k \<Rightarrow> ('k, 'p, 'v) pocc option option" where
  "min_occupied m key = probe_find core_query_mut (mn_core m) (mn_hasher m key) (\<lambda>pair. pa_key pair = key)"

definition min_get :: "('k, 'p, 'v) pmin \<Rightarrow> 'k \<Rightarrow> 'v option option" where
  "min_get m key = probe_find core_query (mn_core m) (mn_hasher m key) (\<lambda>pair. pa_key pair = key)"

definition min_contains_key :: "('k, 'p, 'v) pmin \<Rightarrow> 'k \<Rightarrow> bool option" where
  "min_contains_key m key = map_option (\<lambda>r. r \<noteq> None) (min_get m key)"

definition min_remove :: "('k, 'p::linorder, 'v) pmin \<Rightarrow> 'k \<Rightarrow> ('v option \<times> ('k, 'p, 'v) pmin) option" where
  "min_remove m key = (case min_occupied m key of
       None \<Rightarrow> None
     | Some None \<Rightarrow> Some (None, m)
     | Some (Some e) \<Rightarrow> map_option (\<lambda>(v, c). (Some v, m\<lparr>mn_core := c\<rparr>)) (pocc_remove e))"

definition min_pop :: "('k, 'p::linorder, 'v) pmin \<Rightarrow> (('k \<times> 'p \<times> 'v) option \<times> ('k, 'p, 'v) pmin) option" where
  "min_pop m = (case min_peek_mut m of
       None \<Rightarrow> Some (None, m)
     | Some e \<Rightarrow> map_option (\<lambda>((key, v, priority), c). (Some (key, priority, v), m\<lparr>mn_core := c\<rparr>)) (pocc_remove_parts e))"

definition min_pop_if ::
  "('p \<Rightarrow> bool) \<Rightarrow> ('k, 'p::linorder, 'v) pmin \<Rightarrow> (('k \<times> 'p \<times> 'v) option \<times> ('k, 'p, 'v) pmin) option" where
  "min_pop_if test m = (case min_peek_mut m of
       None \<Rightarrow> Some (None, m)
     | Some e \<Rightarrow>
         if \<not> test (pocc_priority e) then Some (None, m)
         else map_option (\<lambda>((key, v, priority), c). (Some (key, priority, v), m\<lparr>mn_core := c\<rparr>)) (pocc_remove_parts e))"

end
