(* ===== verification/O3_Priority_Proofs.thy ===== *)
theory O3_Priority_Proofs
  imports O3_Priority
begin

text \<open>
  The parts of a priority map agree: the table holds exactly the live nodes under the hashes of
  their keys, every live node knows its bucket, the free list holds exactly the other nodes handed
  out so far, and the heap ranks exactly the live ones. Each operation is taken apart into what it
  does to the table, to the store and to the heap.
\<close>

section \<open>The invariant\<close>

abbreviation nodes :: "('k, 'p, 'v) core \<Rightarrow> ('k, 'p, 'v) pnode list" where
  "nodes c \<equiv> ps_nodes (co_store c)"

abbreviation core_ent :: "('k, 'p, 'v) core \<Rightarrow> u32 buckets" where
  "core_ent c \<equiv> table_ent (co_table c)"

abbreviation core_buckets :: "('k, 'p, 'v) core \<Rightarrow> nat" where
  "core_buckets c \<equiv> unat (tb_buckets (co_table c))"

abbreviation core_plan :: "('k, 'p, 'v) core \<Rightarrow> plan" where
  "core_plan c \<equiv> ps_plan (co_store c)"

definition live_in :: "('k, 'p, 'v) pnode list \<Rightarrow> u32 set" where
  "live_in ns = {i. unat i < length ns \<and> nd_pair (ns ! unat i) \<noteq> None}"

abbreviation live :: "('k, 'p, 'v) core \<Rightarrow> u32 set" where
  "live c \<equiv> live_in (nodes c)"

definition core_key :: "('k, 'p, 'v) core \<Rightarrow> u32 \<Rightarrow> 'k" where
  "core_key c i = pa_key (pstore_pair (co_store c) i)"

text \<open>The free list runs through the buckets of dead nodes.\<close>

primrec freed :: "('k, 'p, 'v) pnode list \<Rightarrow> u32 \<Rightarrow> u32 list \<Rightarrow> bool" where
  "freed ns f [] \<longleftrightarrow> f = pstore_NONE"
| "freed ns f (i # is) \<longleftrightarrow> f = i \<and> unat i < length ns \<and> nd_pair (ns ! unat i) = None \<and>
     freed ns (nd_bucket (ns ! unat i)) is"

definition pstored :: "('k, 'p, 'v) pstore \<Rightarrow> bool" where
  "pstored st \<longleftrightarrow> plan_ok (ps_plan st) \<and> length (ps_nodes st) = unat (pl_capacity (ps_plan st)) \<and>
     unat (ps_next st) \<le> length (ps_nodes st) \<and>
     (\<exists>is. freed (ps_nodes st) (ps_free st) is \<and> distinct is \<and>
        set is \<union> live_in (ps_nodes st) = {i. unat i < unat (ps_next st)})"

text \<open>\<open>X\<close> are the nodes in the table.\<close>

definition tabled :: "('k \<Rightarrow> u64) \<Rightarrow> u32 set \<Rightarrow> ('k, 'p, 'v) core \<Rightarrow> bool" where
  "tabled H X c \<longleftrightarrow> tb_buckets (co_table c) = plan_buckets (core_plan c) \<and>
     (pl_capacity (core_plan c) \<noteq> 0 \<longrightarrow> table_ok (co_table c) \<and> reach (core_buckets c) (core_ent c)) \<and>
     entries (core_buckets c) (core_ent c) = image_mset (\<lambda>i. (H (core_key c i), i)) (mset_set X) \<and>
     (\<forall>b h i. core_ent c b = Some (h, i) \<longrightarrow> nd_bucket (nodes c ! unat i) = of_nat b)"

definition core_ok :: "('k \<Rightarrow> u64) \<Rightarrow> ('k, 'p::linorder, 'v) core \<Rightarrow> bool" where
  "core_ok H c \<longleftrightarrow> pstored (co_store c) \<and> tabled H (live c) c \<and> inj_on (core_key c) (live c) \<and>
     ranked (core_priority c) (live c) (core_heap c)"

lemma core_okD:
  assumes "core_ok H c"
  shows "pstored (co_store c)" "tabled H (live c) c" "inj_on (core_key c) (live c)"
    "ranked (core_priority c) (live c) (core_heap c)"
  using assms by (simp_all add: core_ok_def)

lemma stored_bounds:
  assumes "pstored st"
  shows "length (ps_nodes st) \<le> 2 ^ 30" "unat (plan_capacity (ps_plan st)) = length (ps_nodes st)"
    "pl_capacity (ps_plan st) = 0 \<longleftrightarrow> length (ps_nodes st) = 0"
  using assms unat_ucast_widen [of "pl_capacity (ps_plan st)", where 'b = 64]
  by (auto simp: pstored_def plan_ok_def plan_capacity_def unat_eq_zero)

lemma live_bound: "i \<in> live_in ns \<Longrightarrow> unat i < length ns"
  by (simp add: live_in_def)

lemma core_live_len:
  assumes "core_ok H c"
  shows "unat (pstore_len (co_store c)) = card (live c)" "heap_len (core_heap c) = card (live c)"
  using ranked_card [OF core_okD(4) [OF assms]]
  by (simp_all add: pstore_len_def core_heap_def heap_len_def unat_ucast_widen)

lemma live_card:
  assumes "pstored (co_store c)"
  shows "card (live c) \<le> length (nodes c)"
proof -
  have "card (live c) = card (unat ` live c)" by (rule card_image [symmetric]) (simp add: inj_on_def word_unat_eq_iff)
  also have "\<dots> \<le> card {..<length (nodes c)}" by (intro card_mono) (auto simp: live_in_def)
  finally show ?thesis by simp
qed

text \<open>Bucket words and indices: the table has at most \<open>2 ^ 31\<close> buckets.\<close>

lemma bucket_word:
  assumes "table_ok t" "b < unat (tb_buckets t)"
  shows "unat (of_nat b :: u32) = b" "ucast (occupied_index (occ b)) = (of_nat b :: u32)"
    "ucast (vacant_index (vac b)) = (of_nat b :: u32)" "occupied_new (ucast (of_nat b :: u32)) = occ b"
proof -
  note i = table_index [OF assms]
  show u: "unat (of_nat b :: u32) = b" using i(2) by (intro unat_of_nat_fits) simp
  have "unat (ucast (of_nat b :: usize) :: u32) = b" using i(1,2) by (subst unat_ucast_narrow) simp_all
  then show "ucast (occupied_index (occ b)) = (of_nat b :: u32)" "ucast (vacant_index (vac b)) = (of_nat b :: u32)"
    using u by (simp_all add: i(5,6) word_unat_eq_iff)
  have "unat (ucast (of_nat b :: u32) :: usize) = b" using u by (simp add: unat_ucast_widen)
  then have "ucast (of_nat b :: u32) = (of_nat b :: usize)" using i(1) by (simp add: word_unat_eq_iff)
  then show "occupied_new (ucast (of_nat b :: u32)) = occ b" by (simp add: occ_def)
qed

section \<open>The heap's planes\<close>

lemma core_heap_simps [simp]:
  "hp_entries (core_heap c) = co_indices c" "hp_positions (core_heap c) = map nd_position (nodes c)"
  "hp_len (core_heap c) = ps_len (co_store c)" "heap_capacity (core_heap c) = length (nodes c)"
  by (simp_all add: core_heap_def heap_capacity_def)

lemma core_set_heap_view:
  assumes "heap_capacity h = length (nodes c)"
  shows "core_heap (core_set_heap c h) = h" "co_table (core_set_heap c h) = co_table c"
    "length (nodes (core_set_heap c h)) = length (nodes c)" "core_plan (core_set_heap c h) = core_plan c"
    "ps_next (co_store (core_set_heap c h)) = ps_next (co_store c)" "ps_free (co_store (core_set_heap c h)) = ps_free (co_store c)"
    "i < length (nodes c) \<Longrightarrow> nd_pair (nodes (core_set_heap c h) ! i) = nd_pair (nodes c ! i)"
    "i < length (nodes c) \<Longrightarrow> nd_bucket (nodes (core_set_heap c h) ! i) = nd_bucket (nodes c ! i)"
  using assms by (simp_all add: core_set_heap_def core_heap_def heap_capacity_def map_zip_map2 [symmetric] list_eq_iff_nth_eq)

section \<open>What depends on what\<close>

lemma live_in_cong:
  "length ns = length ms \<Longrightarrow> (\<And>i. i < length ms \<Longrightarrow> nd_pair (ns ! i) = None \<longleftrightarrow> nd_pair (ms ! i) = None) \<Longrightarrow>
   live_in ns = live_in ms"
  unfolding live_in_def by (rule Collect_cong) (metis not_None_eq)

lemma freed_cong:
  "length ns = length ms \<Longrightarrow>
   (\<And>i. i \<in> set is \<Longrightarrow> unat i < length ms \<Longrightarrow> (nd_pair (ns ! unat i) = None \<longleftrightarrow> nd_pair (ms ! unat i) = None) \<and>
      (nd_pair (ms ! unat i) = None \<longrightarrow> nd_bucket (ns ! unat i) = nd_bucket (ms ! unat i))) \<Longrightarrow>
   freed ns f is \<longleftrightarrow> freed ms f is"
  by (induction "is" arbitrary: f) auto

lemma stored_cong:
  assumes "ps_plan st = ps_plan su" "ps_next st = ps_next su" "ps_free st = ps_free su"
    "length (ps_nodes st) = length (ps_nodes su)"
    "\<And>i. i < length (ps_nodes su) \<Longrightarrow> nd_pair (ps_nodes st ! i) = None \<longleftrightarrow> nd_pair (ps_nodes su ! i) = None"
    "\<And>i. i < length (ps_nodes su) \<Longrightarrow> nd_pair (ps_nodes su ! i) = None \<Longrightarrow> nd_bucket (ps_nodes st ! i) = nd_bucket (ps_nodes su ! i)"
  shows "pstored st \<longleftrightarrow> pstored su"
proof -
  have "live_in (ps_nodes st) = live_in (ps_nodes su)" using assms by (intro live_in_cong) auto
  moreover have "freed (ps_nodes st) f is = freed (ps_nodes su) f is" for f "is"
    using assms by (intro freed_cong) auto
  ultimately show ?thesis using assms(1-4) by (simp add: pstored_def)
qed

lemma tabledD:
  assumes "tabled H X c"
  shows "tb_buckets (co_table c) = plan_buckets (core_plan c)"
    "pl_capacity (core_plan c) \<noteq> 0 \<Longrightarrow> table_ok (co_table c)"
    "pl_capacity (core_plan c) \<noteq> 0 \<Longrightarrow> reach (core_buckets c) (core_ent c)"
    "entries (core_buckets c) (core_ent c) = image_mset (\<lambda>i. (H (core_key c i), i)) (mset_set X)"
    "\<And>b h i. core_ent c b = Some (h, i) \<Longrightarrow> nd_bucket (nodes c ! unat i) = of_nat b"
  using assms unfolding tabled_def by blast+

lemma tabled_member:
  assumes "tabled H X c" "core_ent c b = Some (h, i)"
  shows "i \<in> X" "h = H (core_key c i)" "nd_bucket (nodes c ! unat i) = of_nat b" "b < core_buckets c"
proof -
  show b: "b < core_buckets c" using table_entD [OF assms(2)] by blast
  then have "(h, i) \<in># entries (core_buckets c) (core_ent c)" using assms(2) by (auto simp: entries_member)
  then have "(h, i) \<in># image_mset (\<lambda>i. (H (core_key c i), i)) (mset_set X)" unfolding tabledD(4) [OF assms(1)] .
  then show "i \<in> X" "h = H (core_key c i)" by auto
  show "nd_bucket (nodes c ! unat i) = of_nat b" by (rule tabledD(5) [OF assms])
qed

lemma tabled_bucket:
  assumes "tabled H X c" "i \<in> X"
  obtains b where "core_ent c b = Some (H (core_key c i), i)" "b < core_buckets c"
proof -
  have "(H (core_key c i), i) \<in># image_mset (\<lambda>i. (H (core_key c i), i)) (mset_set X)" using assms(2) by auto
  then have "(H (core_key c i), i) \<in># entries (core_buckets c) (core_ent c)" unfolding tabledD(4) [OF assms(1)] .
  then show ?thesis using that by (auto simp: entries_member)
qed

lemma tabled_cong:
  assumes t: "tabled H X c" and eq: "co_table d = co_table c" "core_plan d = core_plan c"
    and k: "\<And>i. i \<in> X \<Longrightarrow> core_key d i = core_key c i"
    and b: "\<And>i. i \<in> X \<Longrightarrow> nd_bucket (nodes d ! unat i) = nd_bucket (nodes c ! unat i)"
  shows "tabled H X d"
proof -
  have "entries (core_buckets c) (core_ent c) = image_mset (\<lambda>i. (H (core_key d i), i)) (mset_set X)"
    unfolding tabledD(4) [OF t] using k by (intro image_mset_cong) simp
  moreover have "nd_bucket (nodes d ! unat i) = of_nat j" if "core_ent c j = Some (h, i)" for j h i
    using tabled_member [OF t that] b by simp
  ultimately show ?thesis using tabledD(1-3) [OF t] unfolding tabled_def eq by blast
qed

lemma tabled_spare:
  assumes "pstored (co_store c)" "tabled H X c" "X \<subseteq> live c" "pl_capacity (core_plan c) \<noteq> 0"
  shows "has_spare (co_table c)"
proof -
  have "card X \<le> length (nodes c)"
    using live_card [OF assms(1)] card_mono [OF finite assms(3)] by linarith
  then have "size (entries (core_buckets c) (core_ent c)) \<le> unat (pl_capacity (core_plan c))"
    unfolding tabledD(4) [OF assms(2)] using assms(1) by (simp add: pstored_def)
  moreover have "unat (pl_capacity (core_plan c)) < core_buckets c"
    using plan_buckets_exact(2) [of "core_plan c"] assms unat_gt_0 [of "pl_capacity (core_plan c)"]
    by (auto simp: tabledD(1) [OF assms(2)] pstored_def)
  ultimately show ?thesis using tabledD(2,3) [OF assms(2,4)] by (simp add: has_spare_def)
qed

text \<open>The heap's planes touch neither table nor pairs.\<close>

lemma set_heap_base:
  assumes h: "heap_capacity h = length (nodes c)"
  shows "pstored (co_store (core_set_heap c h)) \<longleftrightarrow> pstored (co_store c)"
    "live (core_set_heap c h) = live c"
    "i \<in> live c \<Longrightarrow> pstore_pair (co_store (core_set_heap c h)) i = pstore_pair (co_store c) i"
    "X \<subseteq> live c \<Longrightarrow> tabled H X c \<Longrightarrow> tabled H X (core_set_heap c h)"
proof -
  note v = core_set_heap_view [OF h]
  show "pstored (co_store (core_set_heap c h)) \<longleftrightarrow> pstored (co_store c)" by (rule stored_cong) (simp_all add: v)
  show live: "live (core_set_heap c h) = live c" by (rule live_in_cong) (simp_all add: v)
  show pair: "pstore_pair (co_store (core_set_heap c h)) i = pstore_pair (co_store c) i" if "i \<in> live c" for i
    using v(7) live_bound [OF that] by (simp add: pstore_pair_def)
  show "tabled H X (core_set_heap c h)" if "X \<subseteq> live c" "tabled H X c"
    using that(1) pair v(8) live_bound [of _ "nodes c"]
    by (intro tabled_cong [OF that(2)]) (simp_all add: v(2,4) core_key_def subset_iff)
qed

lemma set_heap_ok:
  assumes "pstored (co_store c)" "tabled H (live c) c" "inj_on (core_key c) (live c)" "ranked (core_priority c) (live c) h"
    and h: "heap_capacity h = length (nodes c)"
  shows "core_ok H (core_set_heap c h)"
proof -
  note b = set_heap_base [OF h]
  have "inj_on (core_key (core_set_heap c h)) (live c)"
    using assms(3) b(3) by (auto simp: inj_on_def core_key_def)
  moreover have "ranked (core_priority (core_set_heap c h)) (live c) h"
    using b(3) by (intro ranked_cong [OF assms(4)]) (simp add: core_priority_def)
  ultimately show ?thesis
    using assms(1,2) b(1,2) b(4) [OF order_refl] by (simp add: core_ok_def core_set_heap_view(1) [OF h])
qed

section \<open>Closing a hole of the table\<close>

text \<open>
  What a shift may change: the bucket of the node it moves, which stays the bucket that names it.
\<close>

definition core_framed :: "('k, 'p, 'v) core \<Rightarrow> u32 set \<Rightarrow> ('k, 'p, 'v) core \<Rightarrow> bool" where
  "core_framed c X q \<longleftrightarrow> co_indices q = co_indices c \<and>
     (co_store q)\<lparr>ps_nodes := []\<rparr> = (co_store c)\<lparr>ps_nodes := []\<rparr> \<and> length (nodes q) = length (nodes c) \<and>
     (\<forall>j < length (nodes c). nd_pair (nodes q ! j) = nd_pair (nodes c ! j) \<and>
        nd_position (nodes q ! j) = nd_position (nodes c ! j) \<and>
        (j \<notin> unat ` X \<longrightarrow> nd_bucket (nodes q ! j) = nd_bucket (nodes c ! j))) \<and>
     (\<forall>i\<in>X. unat i < length (nodes c)) \<and>
     (\<forall>b h i. core_ent q b = Some (h, i) \<longrightarrow> i \<in> X \<and> nd_bucket (nodes q ! unat i) = of_nat b)"

lemma core_framed_vacate:
  assumes "core_framed c X q" "table_ok (co_table q)" "i < core_buckets q"
  shows "core_framed c X (q\<lparr>co_table := (co_table q)\<lparr>tb_controls := (tb_controls (co_table q))[i := EMPTY]\<rparr>\<rparr>)"
proof -
  have "core_ent q b = Some (h, p)" if "((core_ent q)(i := None)) b = Some (h, p)" for b h p
    using that by (auto split: if_splits)
  then show ?thesis using assms(1) by (auto simp: core_framed_def vacate_view(2) [OF assms(2,3)])
qed

lemma core_framed_shift:
  assumes f: "core_framed c X q" and t: "table_ok (co_table q)" and g: "g < core_buckets q" and j: "j < core_buckets q"
    and gj: "g \<noteq> j" and ent: "core_ent q j = Some (h, p)"
  shows "core_framed c X (core_shift q (vac g) (occ j) h)"
    "co_table (core_shift q (vac g) (occ j) h) = table_shift (co_table q) (vac g) (occ j) h"
proof -
  let ?t = "table_shift (co_table q) (vac g) (occ j) h"
  note view = shift_view [OF t g j gj ent]
  have moved: "occupied_new (vacant_index (vac g)) = occ g" using table_index(6) [OF t g] by (simp add: occ_def)
  have pay: "table_payload ?t (occ g) = p"
    by (rule payload_ent [OF view(1), of g h]) (simp add: view(2) ent gj)
  have q': "core_shift q (vac g) (occ j) h = q\<lparr>co_table := ?t, co_store := pstore_set_bucket p (occ g) (co_store q)\<rparr>"
    by (simp add: core_shift_def moved pay)
  show "co_table (core_shift q (vac g) (occ j) h) = ?t" by (simp add: q')
  have p: "p \<in> X" "nd_bucket (nodes q ! unat p) = of_nat j" "unat p < length (nodes q)"
    using f ent by (auto simp: core_framed_def)
  have other: "i \<noteq> p" if "core_ent q b = Some (h', i)" "b \<noteq> j" for b h' i
  proof
    assume "i = p"
    then have "(of_nat b :: u32) = of_nat j" using f that(1) p(2) by (auto simp: core_framed_def)
    then show False using bucket_word(1) [OF t, of b] bucket_word(1) [OF t j] table_entD [OF that(1)] that(2) by metis
  qed
  have ents: "i \<in> X \<and> nd_bucket (nodes (core_shift q (vac g) (occ j) h) ! unat i) = of_nat b"
    if e: "table_ent ?t b = Some (h', i)" for b h' i
  proof (cases "b = g")
    case True
    then have "i = p" using e gj ent by (simp add: view(2))
    then show ?thesis using p True bucket_word(2) [OF t g] by (simp add: q' pstore_set_bucket_def)
  next
    case False
    then have b: "core_ent q b = Some (h', i)" "b \<noteq> j" using e by (auto simp: view(2) split: if_splits)
    then have "unat i \<noteq> unat p" using other [OF b] by (simp add: word_unat_eq_iff)
    then show ?thesis using f b(1) by (auto simp: core_framed_def q' pstore_set_bucket_def)
  qed
  have "unat p \<in> unat ` X" using p(1) by blast
  then show "core_framed c X (core_shift q (vac g) (occ j) h)"
    using f ents p(3) unfolding core_framed_def by (auto simp: q' pstore_set_bucket_def nth_list_update)
qed

interpretation core_hole: mutator core_mutation "core_framed c X" for c :: "('k, 'p, 'v) core" and X
  by unfold_locales
     (simp_all add: core_mutation_def core_framed_vacate core_framed_shift)

text \<open>Retiring the bucket of a live node takes it out of the table and changes nothing else.\<close>

lemma retire_tabled:
  assumes st: "pstored (co_store c)" and t: "tabled H X c" and X: "X \<subseteq> live c" and b: "core_ent c b = Some (h, i)"
  obtains c' where "hole_retire core_mutation c (occ b) = Some c'" "tabled H (X - {i}) c'" "pstored (co_store c')"
    "live c' = live c" "\<And>j. pstore_pair (co_store c') j = pstore_pair (co_store c) j \<or> j \<notin> live c"
    "core_heap c' = core_heap c" "core_plan c' = core_plan c"
proof -
  note m = tabled_member [OF t b]
  have cap: "pl_capacity (core_plan c) \<noteq> 0"
    using m(4) plan_buckets_exact(1) [of "core_plan c"] st unfolding tabledD(1) [OF t] pstored_def
    by (metis not_less0 unat_0)
  have spare: "has_spare (co_table c)" by (rule tabled_spare [OF st t X cap])
  have framed: "core_framed c X c"
    using tabled_member [OF t] X by (auto simp: core_framed_def live_in_def)
  have mu: "mu_table core_mutation = co_table" by (simp add: core_mutation_def)
  obtain c' where c': "hole_close core_mutation c (occ b) = Some c'" "core_framed c X c'" "has_spare (co_table c')"
      "tb_buckets (co_table c') = tb_buckets (co_table c)"
      "entries (core_buckets c) (core_ent c) = add_mset (h, i) (entries (core_buckets c) (core_ent c'))"
    using core_hole.hole_close_spare [unfolded mu, OF framed spare m(4) b] by blast
  have len: "length (nodes c') = length (nodes c)"
    and scalars: "(co_store c')\<lparr>ps_nodes := []\<rparr> = (co_store c)\<lparr>ps_nodes := []\<rparr>"
    using c'(2) by (simp_all add: core_framed_def)
  have plan: "core_plan c' = core_plan c" and sc: "ps_next (co_store c') = ps_next (co_store c)"
      "ps_free (co_store c') = ps_free (co_store c)" "ps_len (co_store c') = ps_len (co_store c)"
    using arg_cong [OF scalars, of ps_plan] arg_cong [OF scalars, of ps_next] arg_cong [OF scalars, of ps_free]
      arg_cong [OF scalars, of ps_len] by simp_all
  have at: "nd_pair (nodes c' ! j) = nd_pair (nodes c ! j)" "nd_position (nodes c' ! j) = nd_position (nodes c ! j)"
    if "j < length (nodes c)" for j using c'(2) that by (simp_all add: core_framed_def)
  have dead: "nd_bucket (nodes c' ! j) = nd_bucket (nodes c ! j)" if "j < length (nodes c)" "nd_pair (nodes c ! j) = None" for j
  proof -
    have "j \<notin> unat ` X" using X that by (auto simp: live_in_def)
    then show ?thesis using c'(2) that(1) by (simp add: core_framed_def)
  qed
  have pair: "pstore_pair (co_store c') j = pstore_pair (co_store c) j" if "j \<in> live c" for j
    using at live_bound [OF that] by (simp add: pstore_pair_def)
  have key: "core_key c' j = core_key c j" if "j \<in> X" for j using pair X that by (auto simp: core_key_def)
  have "mset_set X = add_mset i (mset_set (X - {i}))" using m(1) by (intro mset_set.remove) simp_all
  then have "entries (core_buckets c) (core_ent c') = image_mset (\<lambda>i. (H (core_key c i), i)) (mset_set (X - {i}))"
    using c'(5) m(2) unfolding tabledD(4) [OF t] by simp
  also have "\<dots> = image_mset (\<lambda>i. (H (core_key c' i), i)) (mset_set (X - {i}))"
    using key by (intro image_mset_cong) simp
  finally have "tabled H (X - {i}) c'"
    using c'(2,3,4) tabledD(1) [OF t] by (simp add: tabled_def plan has_spare_def core_framed_def)
  moreover have "pstored (co_store c')" using st at dead by (subst stored_cong [of _ "co_store c"]) (simp_all add: len plan sc)
  moreover have "live c' = live c" using at by (intro live_in_cong) (simp_all add: len)
  moreover have "core_heap c' = core_heap c"
    using c'(2) at(2) len sc(3) by (simp add: core_heap_def core_framed_def list_eq_iff_nth_eq)
  ultimately show ?thesis using that c'(1) pair plan by (simp add: hole_retire_def) blast
qed

section \<open>Nodes entering and leaving the store\<close>

lemma card_below: "n \<le> 2 ^ 32 \<Longrightarrow> card {i :: u32. unat i < n} = n"
proof -
  assume n: "n \<le> 2 ^ 32"
  have "unat ` {i :: u32. unat i < n} = {..<n}"
  proof (intro equalityI subsetI)
    fix x assume "x \<in> {..<n}"
    then have "unat (of_nat x :: u32) = x" "x < n" using n by (auto intro!: unat_of_nat_fits)
    then show "x \<in> unat ` {i :: u32. unat i < n}" by (intro image_eqI [of _ _ "of_nat x"]) auto
  qed auto
  then have "card (unat ` {i :: u32. unat i < n}) = n" by simp
  then show ?thesis by (subst (asm) card_image) (auto simp: inj_on_def word_unat_eq_iff)
qed

text \<open>A slot is offered exactly while a node is free.\<close>

lemma pstore_vacant_exact:
  assumes st: "pstored (co_store c)"
  shows "pstore_vacant (co_store c) = None \<longleftrightarrow> card (live c) = length (nodes c)"
    "pstore_vacant (co_store c) = Some slot \<Longrightarrow> pslot_index slot \<notin> live c \<and> unat (pslot_index slot) < length (nodes c)"
proof -
  obtain "is" where is': "freed (nodes c) (ps_free (co_store c)) is" "distinct is"
    "set is \<union> live c = {i. unat i < unat (ps_next (co_store c))}" using st by (auto simp: pstored_def)
  have len: "length (nodes c) \<le> 2 ^ 30" "unat (pstore_capacity (co_store c)) = length (nodes c)"
    "unat (ps_next (co_store c)) \<le> length (nodes c)"
    using st stored_bounds [OF st] by (simp_all add: pstore_capacity_def pstored_def)
  have none: "is = []" if "ps_free (co_store c) = pstore_NONE"
  proof (cases "is")
    case (Cons i js)
    then have "unat (- 1 :: u32) < length (nodes c)" using is'(1) that by (auto simp: pstore_NONE_def)
    then show ?thesis using len(1) by (simp add: unsigned_minus_1_eq_mask mask_eq_exp_minus_1)
  qed
  have fresh: "(ucast (ps_next (co_store c)) < pstore_capacity (co_store c)) = (unat (ps_next (co_store c)) < length (nodes c))"
    by (simp add: word_less_nat_alt len(2) unat_ucast_widen)
  show slot: "pslot_index slot \<notin> live c \<and> unat (pslot_index slot) < length (nodes c)"
    if "pstore_vacant (co_store c) = Some slot" for slot
  proof (cases "ps_free (co_store c) = pstore_NONE")
    case True
    then have "slot = Slot_Fresh (ps_next (co_store c))" "unat (ps_next (co_store c)) < length (nodes c)"
      using that fresh by (simp_all add: pstore_vacant_def split: if_splits)
    then show ?thesis using is'(3) by auto
  next
    case False
    then have "slot = Slot_Free (ps_free (co_store c))" "is \<noteq> []"
      using that is'(1) by (auto simp: pstore_vacant_def)
    then show ?thesis using is'(1) by (cases "is") (auto simp: live_in_def)
  qed
  have "finite {i. unat i < length (nodes c)}" "live c \<subseteq> {i. unat i < length (nodes c)}" by (auto simp: live_in_def)
  moreover have "card {i :: u32. unat i < length (nodes c)} = length (nodes c)" using len(1) by (intro card_below) simp
  ultimately have full: "card (live c) = length (nodes c) \<longleftrightarrow> live c = {i. unat i < length (nodes c)}"
    by (metis card_subset_eq)
  show "pstore_vacant (co_store c) = None \<longleftrightarrow> card (live c) = length (nodes c)"
  proof
    assume "pstore_vacant (co_store c) = None"
    then have "ps_free (co_store c) = pstore_NONE" "unat (ps_next (co_store c)) = length (nodes c)"
      using fresh len(3) by (auto simp: pstore_vacant_def split: if_splits)
    then show "card (live c) = length (nodes c)" unfolding full using is'(3) none by auto
  next
    assume "card (live c) = length (nodes c)"
    then show "pstore_vacant (co_store c) = None" using slot full by (cases "pstore_vacant (co_store c)") auto
  qed
qed

lemma pstore_insert_stored:
  assumes st: "pstored su" and v: "pstore_vacant su = Some slot" and r: "pstore_insert slot pair b su = (index, su')"
  shows "index = pslot_index slot" "pstored su'" "length (ps_nodes su') = length (ps_nodes su)" "ps_plan su' = ps_plan su"
    "ps_len su' = ps_len su" "unat index < length (ps_nodes su)" "index \<notin> live_in (ps_nodes su)"
    "ps_nodes su' = (ps_nodes su)[unat index := \<lparr>nd_pair = Some pair, nd_bucket = ucast (vacant_index b), nd_position = pstore_NONE\<rparr>]"
    "live_in (ps_nodes su') = insert index (live_in (ps_nodes su))"
proof -
  obtain "is" where is': "freed (ps_nodes su) (ps_free su) is" "distinct is"
    "set is \<union> live_in (ps_nodes su) = {i. unat i < unat (ps_next su)}" using st by (auto simp: pstored_def)
  let ?node = "\<lparr>nd_pair = Some pair, nd_bucket = ucast (vacant_index b), nd_position = pstore_NONE\<rparr>"
  let ?ns = "(ps_nodes su)[unat index := ?node]"
  show index: "index = pslot_index slot" using r by (auto simp: pstore_insert_def split: pslot.splits)
  show at: "unat index < length (ps_nodes su)" "index \<notin> live_in (ps_nodes su)"
    using pstore_vacant_exact(2) [of "\<lparr>co_table = table_from_fields 0, co_store = su, co_indices = \<lambda>_. 0\<rparr>" slot] st v index by simp_all
  show ns: "ps_nodes su' = ?ns" using r by (auto simp: pstore_insert_def split: pslot.splits)
  show len: "length (ps_nodes su') = length (ps_nodes su)" "ps_plan su' = ps_plan su" "ps_len su' = ps_len su"
    using r by (auto simp: pstore_insert_def split: pslot.splits)
  show live: "live_in (ps_nodes su') = insert index (live_in (ps_nodes su))"
    unfolding ns using at(1) by (auto simp: live_in_def nth_list_update word_unat_eq_iff)
  have same: "freed ?ns f js = freed (ps_nodes su) f js" if "index \<notin> set js" for f js
  proof -
    have "unat index \<noteq> unat i" if "i \<in> set js" for i
      using that \<open>index \<notin> set js\<close> by (metis word_unat_eq_iff)
    then show ?thesis by (intro freed_cong) simp_all
  qed
  show "pstored su'"
  proof (cases "ps_free su = pstore_NONE")
    case True
    then have slot: "slot = Slot_Fresh (ps_next su)" "index = ps_next su"
      using v index by (auto simp: pstore_vacant_def split: if_splits)
    have su': "ps_free su' = pstore_NONE" "ps_next su' = ps_next su + 1" using r slot True by (auto simp: pstore_insert_def)
    have "length (ps_nodes su) \<le> 2 ^ 30" by (rule stored_bounds [OF st])
    then have nxt: "unat (ps_next su + 1) = unat (ps_next su) + 1"
      using at(1) slot(2) unat_add_fits [of "ps_next su" 1] by simp
    have below: "live_in (ps_nodes su) = {i. unat i < unat (ps_next su)}"
    proof -
      have "is = []"
      proof (cases "is")
        case (Cons i js)
        then have "unat (- 1 :: u32) < length (ps_nodes su)" using is'(1) True by (auto simp: pstore_NONE_def)
        then show ?thesis using \<open>length (ps_nodes su) \<le> 2 ^ 30\<close> by (simp add: unsigned_minus_1_eq_mask mask_eq_exp_minus_1)
      qed
      then show ?thesis using is'(3) by simp
    qed
    have "insert index (live_in (ps_nodes su)) = {i. unat i < unat (ps_next su) + 1}"
      unfolding below slot(2) by (auto simp: less_Suc_eq word_unat_eq_iff)
    then have "freed (ps_nodes su') (ps_free su') [] \<and> distinct ([] :: u32 list) \<and> set [] \<union> live_in (ps_nodes su') = {i. unat i < unat (ps_next su')}"
      by (simp add: su' live nxt)
    moreover have "unat (ps_next su') \<le> length (ps_nodes su')" using at(1) slot(2) len(1) by (simp add: su' nxt)
    ultimately show ?thesis using st len unfolding pstored_def by (metis (no_types, lifting))
  next
    case False
    then have slot: "slot = Slot_Free (ps_free su)" "index = ps_free su" using v index by (auto simp: pstore_vacant_def)
    then obtain js where js: "is = index # js" using is'(1) False by (cases "is") auto
    have su': "ps_free su' = nd_bucket (ps_nodes su ! unat index)" "ps_next su' = ps_next su"
      using r slot by (auto simp: pstore_insert_def)
    have "freed (ps_nodes su') (ps_free su') js" "distinct js" using is'(1,2) js same [of js] by (simp_all add: su' ns)
    moreover have "set js \<union> live_in (ps_nodes su') = {i. unat i < unat (ps_next su')}"
      using is'(3) by (simp add: live su'(2) js)
    ultimately show ?thesis using st len unfolding pstored_def su'(2) by (metis (no_types, lifting))
  qed
qed

lemma freed_dead: "freed ns f is \<Longrightarrow> set is \<inter> live_in ns = {}"
  by (induction "is" arbitrary: f) (auto simp: live_in_def)

lemma pstore_remove_stored:
  assumes st: "pstored su" and i: "index \<in> live_in (ps_nodes su)" and r: "pstore_remove index su = (pair, su')"
  shows "pair = pstore_pair su index" "pstored su'" "length (ps_nodes su') = length (ps_nodes su)" "ps_plan su' = ps_plan su"
    "ps_len su' = ps_len su" "live_in (ps_nodes su') = live_in (ps_nodes su) - {index}"
    "map nd_position (ps_nodes su') = map nd_position (ps_nodes su)"
    "\<And>j. j \<noteq> index \<Longrightarrow> ps_nodes su' ! unat j = ps_nodes su ! unat j"
proof -
  obtain "is" where is': "freed (ps_nodes su) (ps_free su) is" "distinct is"
    "set is \<union> live_in (ps_nodes su) = {i. unat i < unat (ps_next su)}" using st by (auto simp: pstored_def)
  note at = live_bound [OF i]
  let ?node = "(ps_nodes su ! unat index)\<lparr>nd_pair := None, nd_bucket := ps_free su\<rparr>"
  show "pair = pstore_pair su index" using r by (auto simp: pstore_remove_def pstore_pair_def Let_def)
  have ns: "ps_nodes su' = (ps_nodes su)[unat index := ?node]" and su': "ps_free su' = index" "ps_next su' = ps_next su"
    using r by (auto simp: pstore_remove_def Let_def)
  show len: "length (ps_nodes su') = length (ps_nodes su)" "ps_plan su' = ps_plan su" "ps_len su' = ps_len su"
    using r by (auto simp: pstore_remove_def Let_def)
  show live: "live_in (ps_nodes su') = live_in (ps_nodes su) - {index}"
    unfolding ns using at by (auto simp: live_in_def nth_list_update word_unat_eq_iff)
  show "map nd_position (ps_nodes su') = map nd_position (ps_nodes su)"
    unfolding ns using at by (auto simp: list_eq_iff_nth_eq nth_list_update)
  show "ps_nodes su' ! unat j = ps_nodes su ! unat j" if "j \<noteq> index" for j
    unfolding ns using that by (simp add: word_unat_eq_iff)
  have notin: "index \<notin> set is" using freed_dead [OF is'(1)] i by blast
  then have "unat index \<noteq> unat i" if "i \<in> set is" for i using that by (metis word_unat_eq_iff)
  then have "freed (ps_nodes su') (ps_free su) is \<longleftrightarrow> freed (ps_nodes su) (ps_free su) is"
    unfolding ns by (intro freed_cong) simp_all
  then have "freed (ps_nodes su') (ps_free su) is" using is'(1) by simp
  then have "freed (ps_nodes su') (ps_free su') (index # is)" using at by (simp add: su' ns)
  moreover have "distinct (index # is)" using notin is'(2) by simp
  moreover have "set (index # is) \<union> live_in (ps_nodes su') = {i. unat i < unat (ps_next su')}"
    using is'(3) i by (auto simp: live su')
  ultimately show "pstored su'" using st len unfolding pstored_def su'(2) by (metis (no_types, lifting))
qed

section \<open>The map a core denotes\<close>

definition pdenotes :: "('k \<Rightarrow> u64) \<Rightarrow> ('k, 'p::linorder, 'v) core \<Rightarrow> ('k \<Rightarrow> ('p \<times> 'v) option) \<Rightarrow> bool" where
  "pdenotes H c m \<longleftrightarrow> core_ok H c \<and> (\<forall>k p v. m k = Some (p, v) \<longleftrightarrow>
     (\<exists>i\<in>live c. pstore_pair (co_store c) i = \<lparr>pa_key = k, pa_value = v, pa_priority = p\<rparr>))"

abbreviation pair_of :: "('k, 'p, 'v) core \<Rightarrow> u32 \<Rightarrow> ('k, 'p, 'v) pair" where
  "pair_of c i \<equiv> pstore_pair (co_store c) i"

lemma pdenotesI:
  assumes "core_ok H c" "\<And>i. i \<in> live c \<Longrightarrow> m (core_key c i) = Some (core_priority c i, pa_value (pair_of c i))"
    "\<And>k. m k \<noteq> None \<Longrightarrow> \<exists>i\<in>live c. core_key c i = k"
  shows "pdenotes H c m"
proof -
  have "\<exists>i\<in>live c. pair_of c i = \<lparr>pa_key = k, pa_value = v, pa_priority = p\<rparr>" if mk: "m k = Some (p, v)" for k p v
  proof -
    obtain i where "i \<in> live c" "core_key c i = k" using assms(3) [of k] mk by auto
    then show ?thesis using assms(2) [of i] mk
      by (intro bexI [of _ i]) (auto simp: core_key_def core_priority_def intro: pair.equality)
  qed
  moreover have "m k = Some (p, v)" if "i \<in> live c" "pair_of c i = \<lparr>pa_key = k, pa_value = v, pa_priority = p\<rparr>" for k p v i
    using assms(2) [OF that(1)] that(2) by (simp add: core_key_def core_priority_def)
  ultimately show ?thesis using assms(1) by (auto simp: pdenotes_def)
qed

lemma pdenotes_live:
  "pdenotes H c m \<Longrightarrow> i \<in> live c \<Longrightarrow> m (core_key c i) = Some (core_priority c i, pa_value (pair_of c i))"
  unfolding pdenotes_def core_key_def core_priority_def by (metis pair.surjective old.unit.exhaust)

lemma pdenotes_key:
  assumes "pdenotes H c m" "m k = Some (p, v)"
  obtains i where "i \<in> live c" "core_key c i = k" "core_priority c i = p" "pa_value (pair_of c i) = v"
  using assms unfolding pdenotes_def core_key_def core_priority_def by (metis pair.select_convs)

lemma pdenotes_card:
  assumes "pdenotes H c m"
  shows "finite (dom m)" "card (dom m) = card (live c)"
proof -
  have "dom m = core_key c ` live c"
    using pdenotes_live [OF assms] pdenotes_key [OF assms] by (fastforce elim: pdenotes_key [OF assms])
  moreover have "inj_on (core_key c) (live c)" using assms by (simp add: pdenotes_def core_ok_def)
  ultimately show "finite (dom m)" "card (dom m) = card (live c)" by (simp_all add: card_image)
qed

section \<open>Probes for a key\<close>

lemma core_query_simps [simp]:
  "qr_table core_query = co_table" "qr_value core_query = (\<lambda>c b. pair_of c (table_payload (co_table c) b))"
  "qr_occupied core_query = (\<lambda>c b. pa_value (pair_of c (table_payload (co_table c) b)))" "qr_SPARE core_query"
  "qr_table core_query_mut = co_table" "qr_value core_query_mut = (\<lambda>c b. pair_of c (table_payload (co_table c) b))"
  "qr_occupied core_query_mut = (\<lambda>c b. \<lparr>pc_core = c, pc_bucket = b, pc_index = table_payload (co_table c) b\<rparr>)" "qr_SPARE core_query_mut"
  by (simp_all add: core_query_def core_query_mut_def)

lemma core_spare: "core_ok H c \<Longrightarrow> pl_capacity (core_plan c) \<noteq> 0 \<Longrightarrow> has_spare (co_table c)"
  using tabled_spare [OF core_okD(1,2) order_refl] .

lemma core_no_capacity:
  assumes "core_ok H c" "pl_capacity (core_plan c) = 0"
  shows "tb_buckets (co_table c) = 0" "live c = {}" "length (nodes c) = 0"
proof -
  have st: "pstored (co_store c)" by (rule core_okD(1) [OF assms(1)])
  then show "length (nodes c) = 0" using stored_bounds(3) assms(2) by blast
  then show "live c = {}" by (auto simp: live_in_def)
  show "tb_buckets (co_table c) = 0"
    unfolding tabledD(1) [OF core_okD(2) [OF assms(1)]] using plan_buckets_exact(1) [of "core_plan c"] st assms(2)
    by (simp add: pstored_def)
qed

lemma core_found:
  assumes ok: "core_ok H c" and i: "i \<in> live c"
    and Q: "qr_table Q = co_table" "qr_value Q = (\<lambda>c b. pair_of c (table_payload (co_table c) b))"
  obtains b where "sole_match Q c (H (core_key c i)) (\<lambda>pair. pa_key pair = core_key c i) b" "core_ent c b = Some (H (core_key c i), i)"
    "table_payload (co_table c) (occ b) = i" "has_spare (co_table c)" "b < core_buckets c"
proof -
  note t = core_okD(2) [OF ok]
  have cap: "pl_capacity (core_plan c) \<noteq> 0" using core_no_capacity(2) [OF ok] i by auto
  note spare = core_spare [OF ok cap]
  note tok = tabledD(2) [OF t cap]
  obtain b where b: "core_ent c b = Some (H (core_key c i), i)" "b < core_buckets c" using t i by (rule tabled_bucket)
  have pay: "table_payload (co_table c) (occ b) = j" if "core_ent c b = Some (h, j)" for b h j
    by (rule payload_ent [OF tok that])
  have sole: "core_key c j \<noteq> core_key c i" if "core_ent c d = Some (h, j)" "d \<noteq> b" for d h j
  proof
    assume "core_key c j = core_key c i"
    then have "j = i" using core_okD(3) [OF ok] tabled_member(1) [OF t that(1)] i by (auto dest: inj_onD)
    then have "(of_nat d :: u32) = of_nat b"
      using tabled_member(3) [OF t that(1)] tabled_member(3) [OF t b(1)] by simp
    then show False
      using bucket_word(1) [OF tok, of d] bucket_word(1) [OF tok b(2)] tabled_member(4) [OF t that(1)] that(2) by metis
  qed
  have "sole_match Q c (H (core_key c i)) (\<lambda>pair. pa_key pair = core_key c i) b"
    using b pay sole by (auto simp: sole_match_def Let_def Q core_key_def)
  then show ?thesis using that b pay spare by blast
qed

lemma core_missing:
  assumes ok: "core_ok H c" and k: "k \<notin> core_key c ` live c" and cap: "pl_capacity (core_plan c) \<noteq> 0"
    and Q: "qr_table Q = co_table" "qr_value Q = (\<lambda>c b. pair_of c (table_payload (co_table c) b))"
  shows "no_match Q c (H k) (\<lambda>pair. pa_key pair = k)"
proof -
  note t = core_okD(2) [OF ok]
  have "core_key c j \<noteq> k" if "core_ent c d = Some (h, j)" for d h j using tabled_member(1) [OF t that] k by auto
  then show ?thesis unfolding no_match_def Let_def Q core_key_def
    by (metis payload_ent [OF tabledD(2) [OF t cap]])
qed

end
