(* ===== verification/O3_Priority_Map.thy ===== *)
theory O3_Priority_Map
  imports O3_Priority_Proofs
begin

text \<open>
  The operations of the priority map on the finite map it denotes, from keys to priorities and
  values, and its properties: every operation keeps table, store and heap in agreement, and the
  entry it offers first is one of least priority.
\<close>

section \<open>Operations on an entry\<close>

text \<open>An occupied entry names a live node and the bucket that holds it.\<close>

definition pocc_at :: "('k, 'p, 'v) pocc \<Rightarrow> ('k, 'p, 'v) core \<Rightarrow> u32 \<Rightarrow> bool" where
  "pocc_at e c i \<longleftrightarrow> pc_core e = c \<and> pc_index e = i \<and> i \<in> live c \<and>
     (\<exists>b h. pc_bucket e = occ b \<and> core_ent c b = Some (h, i))"

lemma pocc_position_at:
  assumes "pocc_at e c i"
  shows "pocc_position e = unat (hp_positions (core_heap c) ! unat i)"
proof -
  have "unat i < length (nodes c)" using assms by (auto simp: pocc_at_def live_in_def)
  then show ?thesis using assms by (auto simp: pocc_position_def pocc_at_def)
qed

text \<open>A map with one entry more, exchanged or less.\<close>

lemma pdenotes_delete:
  assumes d: "pdenotes H c m" and i: "i \<in> live c" and ok: "core_ok H c'" and l: "live c' = live c - {i}"
    and p: "\<And>j. j \<in> live c' \<Longrightarrow> pair_of c' j = pair_of c j"
  shows "pdenotes H c' (m(core_key c i := None))"
proof (rule pdenotesI [OF ok])
  have inj: "inj_on (core_key c) (live c)" using d by (simp add: pdenotes_def core_ok_def)
  show "(m(core_key c i := None)) (core_key c' j) = Some (core_priority c' j, pa_value (pair_of c' j))" if "j \<in> live c'" for j
  proof -
    have "core_key c j \<noteq> core_key c i" using inj_onD [OF inj, of j i] i that l by auto
    then show ?thesis using pdenotes_live [OF d, of j] that l p [OF that] by (simp add: core_key_def core_priority_def)
  qed
  show "\<exists>j\<in>live c'. core_key c' j = k" if mk: "(m(core_key c i := None)) k \<noteq> None" for k
  proof -
    obtain q v where "m k = Some (q, v)" "k \<noteq> core_key c i" using mk by (auto split: if_splits)
    then obtain j where j: "j \<in> live c" "core_key c j = k" using pdenotes_key [OF d] by metis
    then have "j \<in> live c'" using l \<open>k \<noteq> core_key c i\<close> by auto
    then show ?thesis using p [of j] j(2) by (intro bexI [of _ j]) (simp_all add: core_key_def)
  qed
qed

lemma pdenotes_put:
  assumes d: "pdenotes H c m" and ok: "core_ok H c'" and l: "live c' = insert i (live c)"
    and p: "\<And>j. j \<in> live c \<Longrightarrow> j \<noteq> i \<Longrightarrow> pair_of c' j = pair_of c j"
    and k: "i \<in> live c \<Longrightarrow> core_key c' i = core_key c i"
  shows "pdenotes H c' (m(core_key c' i \<mapsto> (core_priority c' i, pa_value (pair_of c' i))))" (is "pdenotes H c' ?m")
proof (rule pdenotesI [OF ok])
  have inj: "inj_on (core_key c') (live c')" using ok by (simp add: core_ok_def)
  show "?m (core_key c' j) = Some (core_priority c' j, pa_value (pair_of c' j))" if "j \<in> live c'" for j
  proof (cases "j = i")
    case False
    then have "core_key c' j \<noteq> core_key c' i" "j \<in> live c" using inj_onD [OF inj, of j i] that l by auto
    then show ?thesis using pdenotes_live [OF d, of j] p [of j] False by (simp add: core_key_def core_priority_def)
  qed simp
  show "\<exists>j\<in>live c'. core_key c' j = k" if mk: "?m k \<noteq> None" for k
  proof (cases "k = core_key c' i")
    case False
    then obtain q v where "m k = Some (q, v)" using mk by (auto split: if_splits)
    then obtain j where j: "j \<in> live c" "core_key c j = k" using pdenotes_key [OF d] by metis
    then have "j \<noteq> i" using k False by auto
    then show ?thesis using p [of j] j l by (intro bexI [of _ j]) (simp_all add: core_key_def)
  qed (use l in auto)
qed

text \<open>Out of the heap, then out of the table.\<close>

lemma pocc_taken:
  assumes ok: "core_ok H c" and e: "pocc_at e c i"
  obtains c' where "hole_retire core_mutation (pocc_clear e) (pc_bucket e) = Some c'" "tabled H (live c - {i}) c'"
    "pstored (co_store c')" "live c' = live c" "\<And>j. j \<in> live c \<Longrightarrow> pair_of c' j = pair_of c j"
    "ranked (core_priority c) (live c - {i}) (core_heap c')" "core_plan c' = core_plan c"
proof -
  have i: "i \<in> live c" and ec: "pc_core e = c" "pc_index e = i" using e by (auto simp: pocc_at_def)
  obtain b h where b: "pc_bucket e = occ b" "core_ent c b = Some (h, i)" using e by (auto simp: pocc_at_def)
  obtain v g where g: "hole_remove_by False unat (rank_cmp (core_priority c)) (pocc_position e) (core_heap c) = (v, g)" by force
  note r = ranked_remove [OF core_okD(4) [OF ok] i g [unfolded pocc_position_at [OF e]]]
  have cap: "heap_capacity g = length (nodes c)" using r(3) by simp
  define c1 where "c1 = core_set_heap c g"
  have c1: "pocc_clear e = c1" using g by (simp add: pocc_clear_def ec c1_def)
  note v1 = core_set_heap_view [OF cap] and b1 = set_heap_base [OF cap]
  have st1: "pstored (co_store c1)" and live1: "live c1 = live c" and t1: "tabled H (live c) c1"
    and ent1: "core_ent c1 b = Some (h, i)" and pair1: "\<And>j. j \<in> live c \<Longrightarrow> pair_of c1 j = pair_of c j"
    using b1(1,2) b1(4) [OF order_refl core_okD(2) [OF ok]] b1(3) core_okD(1) [OF ok] b(2) v1(2) by (simp_all add: c1_def)
  obtain c2 where c2: "hole_retire core_mutation c1 (occ b) = Some c2" "tabled H (live c - {i}) c2" "pstored (co_store c2)"
      "live c2 = live c" "\<And>j. pair_of c2 j = pair_of c1 j \<or> j \<notin> live c" "core_heap c2 = g" "core_plan c2 = core_plan c1"
    using retire_tabled [OF st1 t1 _ ent1] live1 v1(1) by (auto simp: c1_def)
  have pair2: "pair_of c2 j = pair_of c j" if "j \<in> live c" for j using c2(5) [of j] pair1 [OF that] that by auto
  show ?thesis
    by (rule that [of c2]) (use c2 c1 b(1) r(2) v1(4) pair2 in \<open>simp_all add: c1_def\<close>)
qed

lemma pocc_remove_map:
  assumes d: "pdenotes H c m" and e: "pocc_at e c i"
  shows "\<exists>c'. pocc_remove_parts e = Some ((core_key c i, pa_value (pair_of c i), core_priority c i), c') \<and>
    pdenotes H c' (m(core_key c i := None)) \<and> core_plan c' = core_plan c"
proof -
  have ok: "core_ok H c" using d by (simp add: pdenotes_def)
  have i: "i \<in> live c" and ec: "pc_index e = i" using e by (auto simp: pocc_at_def)
  obtain c2 where c2: "hole_retire core_mutation (pocc_clear e) (pc_bucket e) = Some c2" "tabled H (live c - {i}) c2"
    "pstored (co_store c2)" "live c2 = live c" "\<And>j. j \<in> live c \<Longrightarrow> pair_of c2 j = pair_of c j"
    "ranked (core_priority c) (live c - {i}) (core_heap c2)" "core_plan c2 = core_plan c" using ok e by (rule pocc_taken) blast
  obtain pair su where su: "pstore_remove i (co_store c2) = (pair, su)" by force
  note rm = pstore_remove_stored [OF c2(3) _ su, unfolded c2(4), OF i]
  define c3 where "c3 = c2\<lparr>co_store := su\<rparr>"
  have pair3: "pair_of c3 j = pair_of c2 j" if "j \<noteq> i" for j
    using rm(8) [OF that] by (simp add: c3_def pstore_pair_def)
  have heap3: "core_heap c3 = core_heap c2" using rm(5,7) by (simp add: core_heap_def c3_def)
  have live3: "live c3 = live c - {i}" using rm(6) by (simp add: c3_def)
  have plan3: "core_plan c3 = core_plan c2" using rm(4) by (simp add: c3_def)
  have "tabled H (live c - {i}) c3"
    by (rule tabled_cong [OF c2(2) _ plan3]) (use pair3 rm(8) in \<open>auto simp: c3_def core_key_def\<close>)
  moreover have "ranked (core_priority c3) (live c - {i}) (core_heap c3)"
    unfolding heap3 using pair3 c2(5) by (intro ranked_cong [OF c2(6)]) (simp add: core_priority_def)
  moreover have "inj_on (core_key c3) (live c - {i})"
    using core_okD(3) [OF ok] pair3 c2(5) by (auto simp: inj_on_def core_key_def)
  ultimately have ok3: "core_ok H c3" using rm(2) unfolding core_ok_def live3 by (simp add: c3_def)
  have "pocc_remove_parts e = Some ((core_key c i, pa_value (pair_of c i), core_priority c i), c3)"
    using rm(1) c2(5) [OF i] by (simp add: pocc_remove_parts_def c2(1) ec su c3_def core_key_def core_priority_def)
  moreover have "pdenotes H c3 (m(core_key c i := None))"
    using pair3 c2(5) live3 by (intro pdenotes_delete [OF d i ok3]) auto
  ultimately show ?thesis using plan3 c2(7) by metis
qed

text \<open>Writing the pair of a live node under the same key.\<close>

lemma pair_set_base:
  assumes ok: "core_ok H c" and i: "i \<in> live c" and k: "pa_key q = core_key c i"
    and c': "c' = c\<lparr>co_store := pstore_pair_set i q (co_store c)\<rparr>"
  shows "pstored (co_store c')" "tabled H (live c) c'" "live c' = live c" "core_plan c' = core_plan c"
    "core_heap c' = core_heap c" "pair_of c' i = q" "\<And>j. j \<noteq> i \<Longrightarrow> pair_of c' j = pair_of c j"
    "inj_on (core_key c') (live c)" "length (nodes c') = length (nodes c)"
proof -
  note at = live_bound [OF i]
  have pres: "nd_pair (nodes c ! unat i) \<noteq> None" using i by (simp add: live_in_def)
  have ns: "nodes c' = (nodes c)[unat i := (nodes c ! unat i)\<lparr>nd_pair := Some q\<rparr>]"
    by (simp add: c' pstore_pair_set_def)
  show len: "length (nodes c') = length (nodes c)" by (simp add: ns)
  show plan: "core_plan c' = core_plan c" by (simp add: c' pstore_pair_set_def)
  show pi: "pair_of c' i = q" using at by (simp add: pstore_pair_def ns)
  show pj: "pair_of c' j = pair_of c j" if "j \<noteq> i" for j
    using that by (simp add: pstore_pair_def ns word_unat_eq_iff)
  have same: "nd_pair (nodes c' ! j) = None \<longleftrightarrow> nd_pair (nodes c ! j) = None" "nd_bucket (nodes c' ! j) = nd_bucket (nodes c ! j)"
      "nd_position (nodes c' ! j) = nd_position (nodes c ! j)"
    if "j < length (nodes c)" for j using pres that by (cases "j = unat i"; simp add: ns)+
  show "live c' = live c" by (rule live_in_cong [OF len]) (rule same(1))
  have key: "core_key c' j = core_key c j" for j using pi pj k by (cases "j = i") (auto simp: core_key_def)
  show "pstored (co_store c')"
    using core_okD(1) [OF ok] same by (subst stored_cong [of _ "co_store c"]) (simp_all add: len plan, simp_all add: c' pstore_pair_set_def)
  have "nd_bucket (nodes c' ! unat j) = nd_bucket (nodes c ! unat j)" if "j \<in> live c" for j
    using same(2) live_bound [OF that] .
  moreover have "co_table c' = co_table c" by (simp add: c')
  ultimately show "tabled H (live c) c'" using key by (intro tabled_cong [OF core_okD(2) [OF ok] _ plan])
  show "core_heap c' = core_heap c" using same(3) len by (simp add: core_heap_def list_eq_iff_nth_eq) (simp add: c' pstore_pair_set_def)
  show "inj_on (core_key c') (live c)" using core_okD(3) [OF ok] by (simp add: inj_on_def key)
qed

lemma pocc_set_map:
  assumes d: "pdenotes H c m" and e: "pocc_at e c i"
  shows "pdenotes H (pocc_set e q) (m(core_key c i \<mapsto> (q, pa_value (pair_of c i)))) \<and> core_plan (pocc_set e q) = core_plan c"
proof -
  have ok: "core_ok H c" using d by (simp add: pdenotes_def)
  have i: "i \<in> live c" and ec: "pc_core e = c" "pc_index e = i" using e by (auto simp: pocc_at_def)
  define c1 where "c1 = c\<lparr>co_store := pstore_pair_set i ((pair_of c i)\<lparr>pa_priority := q\<rparr>) (co_store c)\<rparr>"
  note b = pair_set_base [OF ok i _ c1_def, simplified core_key_def, simplified]
  let ?p = "path_repair (\<lambda>j. pair_cmp (core_priority c) (i, q) (co_indices c j))
      (\<lambda>j k. rank_cmp (core_priority c) (co_indices c j) (co_indices c k)) (pocc_position e) (unat (pstore_len (co_store c)))"
  define g where "g = hole_commit unat True (path_apply unat ?p i (core_heap c))"
  have set: "pocc_set e q = core_set_heap c1 g" by (simp add: pocc_set_def ec c1_def [symmetric] g_def b(5) Let_def)
  have "unat (pstore_len (co_store c)) = heap_len (core_heap c)" using core_live_len [OF ok] by simp
  then have p: "?p = path_repair (\<lambda>j. pair_cmp (core_priority c) (i, q) (hp_entries (core_heap c) j))
      (\<lambda>j k. rank_cmp (core_priority c) (hp_entries (core_heap c) j) (hp_entries (core_heap c) k))
      (unat (hp_positions (core_heap c) ! unat i)) (heap_len (core_heap c))" by (simp add: pocc_position_at [OF e])
  note r = ranked_set [OF core_okD(4) [OF ok] i p g_def]
  have cap: "heap_capacity g = length (nodes c1)" using r(2) b(9) by simp
  have "ranked (core_priority c1) (live c) g"
    using b(6,7) by (intro ranked_cong [OF r(1)]) (simp add: core_priority_def)
  then have ok': "core_ok H (core_set_heap c1 g)"
    using b(1,2,8) by (intro set_heap_ok [OF _ _ _ _ cap]) (simp_all only: b(3) core_key_def)
  note v = set_heap_base [OF cap, unfolded b(3)]
  have pi: "pair_of (core_set_heap c1 g) i = (pair_of c i)\<lparr>pa_priority := q\<rparr>" using v(3) [OF i] b(6) by simp
  have "pdenotes H (core_set_heap c1 g) (m(core_key (core_set_heap c1 g) i \<mapsto>
      (core_priority (core_set_heap c1 g) i, pa_value (pair_of (core_set_heap c1 g) i))))"
    using v(2,3) b(7) i pi by (intro pdenotes_put [OF d ok']) (auto simp: core_key_def)
  then show ?thesis using pi core_set_heap_view(4) [OF cap] b(4) by (simp add: set core_key_def core_priority_def)
qed

lemma pocc_put_map:
  assumes d: "pdenotes H c m" and e: "pocc_at e c i"
  shows "pdenotes H (pocc_put e v) (m(core_key c i \<mapsto> (core_priority c i, v))) \<and> core_plan (pocc_put e v) = core_plan c"
proof -
  have ok: "core_ok H c" using d by (simp add: pdenotes_def)
  have i: "i \<in> live c" and ec: "pc_core e = c" "pc_index e = i" using e by (auto simp: pocc_at_def)
  define c1 where "c1 = c\<lparr>co_store := pstore_pair_set i ((pair_of c i)\<lparr>pa_value := v\<rparr>) (co_store c)\<rparr>"
  note b = pair_set_base [OF ok i _ c1_def, simplified core_key_def, simplified]
  have put: "pocc_put e v = c1" by (simp add: pocc_put_def pocc_pair_def ec c1_def)
  have pr: "core_priority c1 j = core_priority c j" for j using b(6,7) by (cases "j = i") (simp_all add: core_priority_def)
  have "core_ok H c1"
    using b(1,2,8) ranked_cong [OF core_okD(4) [OF ok], of "core_priority c1"] pr
    unfolding core_ok_def b(3,5) core_key_def by simp
  then have "pdenotes H c1 (m(core_key c1 i \<mapsto> (core_priority c1 i, pa_value (pair_of c1 i))))"
    using b(3,6,7) i by (intro pdenotes_put [OF d]) (auto simp: core_key_def)
  then show ?thesis using b(4,6) by (simp add: put core_key_def core_priority_def)
qed

section \<open>Insertion\<close>

text \<open>The node is written and named by its bucket before it enters the heap.\<close>

lemma insertion_base:
  assumes ok: "core_ok H c" and k: "k \<notin> core_key c ` live c" "pa_key pair = k"
    and va: "vacancy_at (co_table c) (H k) b"
    and slot: "pstore_vacant (co_store c) = Some slot" and r: "pstore_insert slot pair (vac b) (co_store c) = (i, su)"
    and c': "c' = c\<lparr>co_store := su, co_table := table_insert (co_table c) (vac b) (H k) i\<rparr>"
  shows "pstored (co_store c')" "tabled H (insert i (live c)) c'" "live c' = insert i (live c)" "core_plan c' = core_plan c"
    "i \<notin> live c" "pair_of c' i = pair" "\<And>j. j \<noteq> i \<Longrightarrow> pair_of c' j = pair_of c j" "inj_on (core_key c') (insert i (live c))"
    "length (nodes c') = length (nodes c)" "i = pslot_index slot"
    "nd_position (nodes c' ! unat i) = pstore_NONE" "\<And>j. j \<noteq> i \<Longrightarrow> nodes c' ! unat j = nodes c ! unat j"
    "ps_len (co_store c') = ps_len (co_store c)" "unat i < length (nodes c)"
proof -
  note ins = pstore_insert_stored [OF core_okD(1) [OF ok] slot r]
  have su: "co_store c' = su" by (simp add: c')
  note t = core_okD(2) [OF ok] and b = vacancy_atD [OF va]
  show "pstored (co_store c')" "live c' = insert i (live c)" and plan: "core_plan c' = core_plan c" and new: "i \<notin> live c"
    and "length (nodes c') = length (nodes c)" "i = pslot_index slot" "ps_len (co_store c') = ps_len (co_store c)"
    using ins by (simp_all add: su)
  show at: "unat i < length (nodes c)" by (rule ins(6))
  show ni: "nodes c' ! unat j = nodes c ! unat j" if "j \<noteq> i" for j using that by (simp add: su ins(8) word_unat_eq_iff)
  show "nd_position (nodes c' ! unat i) = pstore_NONE" using at by (simp add: su ins(8))
  show pi: "pair_of c' i = pair" using at by (simp add: su pstore_pair_def ins(8))
  show pj: "pair_of c' j = pair_of c j" if "j \<noteq> i" for j using ni [OF that] by (simp add: pstore_pair_def)
  have key: "core_key c' i = k" "\<And>j. j \<in> live c \<Longrightarrow> core_key c' j = core_key c j"
    using pi k(2) new by (simp_all add: core_key_def) (metis pj)
  have img: "core_key c' ` live c = core_key c ` live c" by (rule image_cong [OF refl key(2)])
  have "inj_on (core_key c') (live c)" using core_okD(3) [OF ok] key(2) by (simp add: inj_on_def)
  then show "inj_on (core_key c') (insert i (live c))" using k(1) new by (simp add: img key(1))
  have cap: "pl_capacity (core_plan c) \<noteq> 0" using core_no_capacity(1) [OF ok] b by auto
  note view = insert_view [OF tabledD(2) [OF t cap], of b "H k" i]
  have tb: "co_table c' = table_insert (co_table c) (vac b) (H k) i" by (simp add: c')
  have ents: "entries (core_buckets c') (core_ent c') = image_mset (\<lambda>i. (H (core_key c' i), i)) (mset_set (insert i (live c)))"
  proof -
    have "entries (core_buckets c') (core_ent c') = add_mset (H k, i) (entries (core_buckets c) (core_ent c))"
      using entries_fill [of b "core_buckets c" "core_ent c" "(H k, i)"] b view(2,3) by (simp add: tb)
    also have "\<dots> = add_mset (H k, i) (image_mset (\<lambda>i. (H (core_key c' i), i)) (mset_set (live c)))"
      unfolding tabledD(4) [OF t] using key(2) by (intro arg_cong [of _ _ "add_mset (H k, i)"] image_mset_cong) simp
    finally show ?thesis using new key(1) by simp
  qed
  have "nd_bucket (nodes c' ! unat j) = of_nat d" if e: "core_ent c' d = Some (h, j)" for d h j
  proof (cases "d = b")
    case True
    then have "j = i" using e b view(2) by (simp add: tb)
    then show ?thesis using at bucket_word(3) [OF tabledD(2) [OF t cap], of b] b True by (simp add: su ins(8))
  next
    case False
    then have d: "core_ent c d = Some (h, j)" using e b view(2) by (simp add: tb)
    then have "j \<noteq> i" using tabled_member(1) [OF t d] new by auto
    then show ?thesis using ni tabled_member(3) [OF t d] by simp
  qed
  then show "tabled H (insert i (live c)) c'"
    using ents tabledD(1) [OF t] view vacancy_fill [OF tabledD(3) [OF t cap] va, of i] b
    unfolding tabled_def plan by (simp add: tb)
qed

lemma insertion_map:
  assumes d: "pdenotes H c m" and k: "m k = None" and va: "vacancy_at (co_table c) (H k) b"
    and slot: "pstore_vacant (co_store c) = Some slot"
    and c'_def: "c' = insertion_insert \<lparr>pi_core = c, pi_bucket = vac b, pi_slot = slot, pi_hash = H k\<rparr> k q v"
  shows "pdenotes H c' (m(k \<mapsto> (q, v))) \<and> core_plan c' = core_plan c"
proof -
  have ok: "core_ok H c" using d by (simp add: pdenotes_def)
  have fresh: "k \<notin> core_key c ` live c" using pdenotes_live [OF d] k by auto
  let ?pair = "\<lparr>pa_key = k, pa_value = v, pa_priority = q\<rparr>"
  obtain i su where r: "pstore_insert slot ?pair (vac b) (co_store c) = (i, su)" by force
  define c1 where "c1 = c\<lparr>co_store := su, co_table := table_insert (co_table c) (vac b) (H k) i\<rparr>"
  note n = insertion_base [OF ok fresh _ va slot r c1_def, simplified]
  let ?f = "core_priority c1"
  have pr: "?f j = core_priority c j" if "j \<in> live c" for j using n(5) n(7) [of j] that by (cases "j = i") (simp_all add: core_priority_def)
  have same: "hp_entries (core_heap c1) = hp_entries (core_heap c)" "hp_len (core_heap c1) = hp_len (core_heap c)"
    using n(13) by (simp_all add: c1_def)
  have "hp_positions (core_heap c1) ! unat j = hp_positions (core_heap c) ! unat j" if "j \<in> live c" for j
    using that n(5) n(12) [of j] n(9) live_bound [OF that] by (cases "j = i") simp_all
  then have "ranked (core_priority c) (live c) (core_heap c1)"
    using same n(9) by (intro ranked_stale [OF core_okD(4) [OF ok]]) simp_all
  then have rk: "ranked ?f (live c) (core_heap c1)" by (rule ranked_cong) (simp add: pr)
  have len: "unat (pstore_len (co_store c)) = heap_len (core_heap c1)"
    using core_live_len [OF ok] same(2) by (simp add: heap_len_def)
  let ?p = "path_up (\<lambda>j. pair_cmp (core_priority c) (i, q) (co_indices c j)) (unat (pstore_len (co_store c)))"
  have "pair_cmp (core_priority c) (i, q) (co_indices c j) = rank_cmp ?f i (hp_entries (core_heap c1) j)"
    if "j < heap_len (core_heap c1)" for j
  proof -
    have "hp_entries (core_heap c1) j \<in> live c" by (rule ranked_entry [OF rk that])
    then have l: "co_indices c j \<in> live c" by (simp only: same(1)) simp
    then have "co_indices c j \<noteq> i" using n(5) by auto
    moreover have "?f i = q" using n(6) by (simp add: core_priority_def)
    ultimately show ?thesis using pr [OF l] same(1) by (simp add: pair_cmp_other rank_cmp_def)
  qed
  then have p: "?p = path_up (\<lambda>j. rank_cmp ?f i (hp_entries (core_heap c1) j)) (heap_len (core_heap c1))"
    unfolding len by (auto simp: path_up_def intro!: path_up_end_cong)
  define g where "g = hole_commit unat True (path_append unat ?p i (core_heap c1))"
  have none: "hp_positions (core_heap c1) ! unat i = pos_NONE" "unat i < heap_capacity (core_heap c1)"
    using n(9,11,14) by (simp_all add: pstore_NONE_def pos_NONE_def)
  note a = ranked_append [OF rk n(5) none(2,1) g_def [unfolded p]]
  have cap: "heap_capacity g = length (nodes c1)" using a(2) by simp
  have c': "c' = core_set_heap c1 g"
    using n(10) [symmetric] by (simp add: c'_def insertion_insert_def r g_def c1_def Let_def)
  have ok': "core_ok H (core_set_heap c1 g)"
    using n(1,2,8) a(1) by (intro set_heap_ok [OF _ _ _ _ cap]) (simp_all add: n(3))
  note w = set_heap_base [OF cap, unfolded n(3)]
  have pi: "pair_of (core_set_heap c1 g) i = ?pair" using w(3) [of i] n(6) by simp
  have "pdenotes H (core_set_heap c1 g) (m(core_key (core_set_heap c1 g) i \<mapsto>
      (core_priority (core_set_heap c1 g) i, pa_value (pair_of (core_set_heap c1 g) i))))"
    using w(2,3) n(5,7) by (intro pdenotes_put [OF d ok']) auto
  then show ?thesis using pi core_set_heap_view(4) [OF cap] n(4) by (simp add: c' core_key_def core_priority_def)
qed

section \<open>Operations on the map\<close>

abbreviation min_denotes :: "('k, 'p::linorder, 'v) pmin \<Rightarrow> ('k \<Rightarrow> ('p \<times> 'v) option) \<Rightarrow> bool" where
  "min_denotes t m \<equiv> pdenotes (mn_hasher t) (mn_core t) m"

abbreviation min_capacity :: "('k, 'p, 'v) pmin \<Rightarrow> nat" where
  "min_capacity t \<equiv> unat (pl_capacity (core_plan (mn_core t)))"

lemma min_new_denotes:
  assumes "min_try_new grant node memory pl hasher = Inr t" "plan_ok pl"
  shows "min_denotes t Map.empty" "mn_hasher t = hasher" "core_plan (mn_core t) = pl"
proof -
  have t: "mn_hasher t = hasher" "co_table (mn_core t) = table_from_fields (plan_buckets pl)"
      "co_store (mn_core t) = pstore_new (map (\<lambda>i. \<lparr>nd_pair = None, nd_bucket = memory i, nd_position = memory i\<rparr>)
             [0..<unat (plan_capacity pl)]) pl"
    using assms(1) by (auto simp: min_try_new_def core_try_new_def split: sum.splits)
  show "mn_hasher t = hasher" "core_plan (mn_core t) = pl" using t by (simp_all add: pstore_new_def)
  let ?c = "mn_core t"
  have cap: "unat (plan_capacity pl) = unat (pl_capacity pl)" by (simp add: plan_capacity_def unat_ucast_widen)
  have live: "live ?c = {}" by (auto simp: live_in_def t pstore_new_def)
  have st: "pstored (co_store ?c)" using assms(2) live unfolding pstored_def
    by (intro conjI exI [of _ "[]"]) (simp_all add: t pstore_new_def cap)
  have tab: "table_ok (table_from_fields (plan_buckets pl) :: u32 table)" if "pl_capacity pl \<noteq> 0"
    using plan_buckets_exact(2) [OF assms(2) that] by (intro from_fields_ok) simp
  have bk: "tb_buckets (table_from_fields (plan_buckets pl)) = plan_buckets pl" by (simp add: table_from_fields_def)
  have "tabled (mn_hasher t) {} ?c"
    using tab unfolding tabled_def t(2) from_fields_ent bk by (simp add: t pstore_new_def reach_clear)
  moreover have "ranked (core_priority ?c) {} (core_heap ?c)"
  proof -
    have "core_heap ?c = \<lparr>hp_len = 0, hp_entries = co_indices ?c, hp_positions = map nd_position (nodes ?c)\<rparr>"
      by (simp add: core_heap_def t pstore_new_def)
    then show ?thesis using stored_bounds(1) [OF st] by (auto intro: ranked_empty)
  qed
  ultimately have "core_ok (mn_hasher t) ?c" using st by (simp add: core_ok_def live)
  then show "min_denotes t Map.empty" by (intro pdenotesI) (simp_all add: live)
qed

lemma min_len_map: "min_denotes t m \<Longrightarrow> unat (min_len t) = card (dom m) \<and> (min_is_empty t \<longleftrightarrow> m = Map.empty)"
proof -
  assume d: "min_denotes t m"
  then have l: "unat (min_len t) = card (dom m)"
    using core_live_len(1) [of "mn_hasher t" "mn_core t"] pdenotes_card(2) [OF d] by (simp add: min_len_def pdenotes_def)
  have "min_is_empty t \<longleftrightarrow> card (dom m) = 0" unfolding l [symmetric] by (simp add: min_is_empty_def unat_eq_zero)
  then show ?thesis using l pdenotes_card(1) [OF d] by simp
qed

lemma min_full: "min_denotes t m \<Longrightarrow> pstore_vacant (co_store (mn_core t)) = None \<longleftrightarrow> card (dom m) = min_capacity t"
  using pstore_vacant_exact(1) [of "mn_core t"] pdenotes_card(2) [of "mn_hasher t" "mn_core t" m]
  by (simp add: pdenotes_def core_ok_def pstored_def)

text \<open>The entry of a key, when it has one.\<close>

lemma min_occupied_map:
  assumes d: "min_denotes t m"
  shows "m k = None \<Longrightarrow> min_occupied t k = Some None \<and> min_get t k = Some None"
    "m k = Some (p, v) \<Longrightarrow> \<exists>e i. min_occupied t k = Some (Some e) \<and> min_get t k = Some (Some v) \<and>
       min_try_entry t k = Some (Inr (Entry_Occupied e)) \<and>
       pocc_at e (mn_core t) i \<and> core_key (mn_core t) i = k \<and> core_priority (mn_core t) i = p \<and> pa_value (pair_of (mn_core t) i) = v"
proof -
  let ?c = "mn_core t" and ?H = "mn_hasher t"
  have ok: "core_ok ?H ?c" using d by (simp add: pdenotes_def)
  show "min_occupied t k = Some None \<and> min_get t k = Some None" if k: "m k = None"
  proof (cases "pl_capacity (core_plan ?c) = 0")
    case True
    then show ?thesis using core_no_capacity(1) [OF ok]
      by (simp add: min_occupied_def min_get_def probe_find_def scan_no_buckets)
  next
    case False
    have "k \<notin> core_key ?c ` live ?c" using pdenotes_live [OF d] k by auto
    note no = core_missing [OF ok this False] and spare = core_spare [OF ok False]
    show ?thesis
      using probe_none [of core_query_mut ?c "?H k" "\<lambda>pair. pa_key pair = k"] no [of core_query_mut]
        probe_none [of core_query ?c "?H k" "\<lambda>pair. pa_key pair = k"] no [of core_query] spare
      by (auto simp: min_occupied_def min_get_def)
  qed
  show "\<exists>e i. min_occupied t k = Some (Some e) \<and> min_get t k = Some (Some v) \<and>
       min_try_entry t k = Some (Inr (Entry_Occupied e)) \<and>
       pocc_at e ?c i \<and> core_key ?c i = k \<and> core_priority ?c i = p \<and> pa_value (pair_of ?c i) = v" if k: "m k = Some (p, v)"
  proof -
    obtain i where i: "i \<in> live ?c" "core_key ?c i = k" "core_priority ?c i = p" "pa_value (pair_of ?c i) = v"
      using d k by (rule pdenotes_key)
    obtain b where b: "sole_match core_query_mut ?c (?H k) (\<lambda>pair. pa_key pair = k) b" "core_ent ?c b = Some (?H k, i)"
        "table_payload (co_table ?c) (occ b) = i" "has_spare (co_table ?c)"
      using core_found [OF ok i(1), of core_query_mut] i(2) by auto
    obtain b' where b': "sole_match core_query ?c (?H k) (\<lambda>pair. pa_key pair = k) b'"
        "table_payload (co_table ?c) (occ b') = i"
      using core_found [OF ok i(1), of core_query] i(2) by auto
    let ?e = "\<lparr>pc_core = ?c, pc_bucket = occ b, pc_index = i\<rparr>"
    have "min_occupied t k = Some (Some ?e)" "min_get t k = Some (Some v)"
      using probe_sole(1) [of core_query_mut, OF _ b(1)] probe_sole(1) [of core_query, OF _ b'(1)] b(3,4) b'(2) i(4)
      by (simp_all add: min_occupied_def min_get_def)
    moreover have "min_try_entry t k = Some (Inr (Entry_Occupied ?e))"
      using probe_hit(1) [OF _ sole_hit [OF _ b(1)]] b(3,4)
      by (simp add: min_try_entry_def probe_new_def probe_entry_def Let_def)
    moreover have "pocc_at ?e ?c i" using i(1) b(2) by (auto simp: pocc_at_def)
    ultimately show ?thesis using i(2-4) by blast
  qed
qed

lemma min_vacant_map:
  assumes d: "min_denotes t m" and k: "m k = None"
  shows "card (dom m) = min_capacity t \<Longrightarrow> min_try_entry t k = Some (Inl (Rejected_Full k))"
    "card (dom m) \<noteq> min_capacity t \<Longrightarrow> \<exists>e. min_try_entry t k = Some (Inr (Entry_Vacant e)) \<and>
       pdenotes (mn_hasher t) (pvacant_insert e p v) (m(k \<mapsto> (p, v))) \<and> core_plan (pvacant_insert e p v) = core_plan (mn_core t)"
proof -
  let ?c = "mn_core t" and ?H = "mn_hasher t"
  have ok: "core_ok ?H ?c" using d by (simp add: pdenotes_def)
  have fresh: "k \<notin> core_key ?c ` live ?c" using pdenotes_live [OF d] k by auto
  have probe: "\<exists>b. vacancy_at (co_table ?c) (?H k) b \<and> probe_new core_query_mut ?c (?H k) (\<lambda>pair. pa_key pair = k) =
      Some \<lparr>pr_owner = ?c, pr_state = State_Vacant (vac b), pr_hash = ?H k\<rparr>" if "pl_capacity (core_plan ?c) \<noteq> 0"
    using probe_none [of core_query_mut ?c "?H k" "\<lambda>pair. pa_key pair = k"] core_missing [OF ok fresh that, of core_query_mut]
      core_spare [OF ok that] by auto
  show "min_try_entry t k = Some (Inl (Rejected_Full k))" if "card (dom m) = min_capacity t"
  proof (cases "pl_capacity (core_plan ?c) = 0")
    case True
    then show ?thesis using core_no_capacity(1) [OF ok]
      by (simp add: min_try_entry_def probe_new_def scan_no_buckets probe_entry_def Let_def)
  next
    case False
    then show ?thesis using probe [OF False] min_full [OF d] that
      by (auto simp: min_try_entry_def probe_entry_def core_vacant_def Let_def)
  qed
  assume room: "card (dom m) \<noteq> min_capacity t"
  then obtain slot where slot: "pstore_vacant (co_store ?c) = Some slot" using min_full [OF d] by auto
  have "pl_capacity (core_plan ?c) \<noteq> 0"
    using room core_no_capacity(2) [OF ok] pdenotes_card(2) [OF d] by auto
  then obtain b where b: "vacancy_at (co_table ?c) (?H k) b" "probe_new core_query_mut ?c (?H k) (\<lambda>pair. pa_key pair = k) =
      Some \<lparr>pr_owner = ?c, pr_state = State_Vacant (vac b), pr_hash = ?H k\<rparr>" using probe by blast
  let ?e = "(\<lparr>pi_core = ?c, pi_bucket = vac b, pi_slot = slot, pi_hash = ?H k\<rparr>, k)"
  have "min_try_entry t k = Some (Inr (Entry_Vacant ?e))"
    by (simp add: min_try_entry_def b(2) probe_entry_def core_vacant_def slot Let_def)
  then show "\<exists>e. min_try_entry t k = Some (Inr (Entry_Vacant e)) \<and>
       pdenotes ?H (pvacant_insert e p v) (m(k \<mapsto> (p, v))) \<and> core_plan (pvacant_insert e p v) = core_plan ?c"
    using insertion_map [OF d k b(1) slot refl] by (auto simp: pvacant_insert_def)
qed

text \<open>The first entry of the heap is a least one, and its node knows the bucket that names it.\<close>

lemma min_entry_at_live:
  assumes "core_ok (mn_hasher t) (mn_core t)" "i \<in> live (mn_core t)"
  shows "pocc_at (min_entry_at t i) (mn_core t) i"
proof -
  note tb = core_okD(2) [OF assms(1)]
  obtain b where b: "core_ent (mn_core t) b = Some (mn_hasher t (core_key (mn_core t) i), i)" "b < core_buckets (mn_core t)"
    using tb assms(2) by (rule tabled_bucket)
  have "pl_capacity (core_plan (mn_core t)) \<noteq> 0" using core_no_capacity(2) [OF assms(1)] assms(2) by auto
  note bw = bucket_word(4) [OF tabledD(2) [OF tb this] b(2)]
  have "occupied_new (pstore_bucket i (co_store (mn_core t))) = occ b"
    using bw tabled_member(3) [OF tb b(1)] by (simp add: pstore_bucket_def)
  then show ?thesis using b assms(2) by (auto simp: pocc_at_def min_entry_at_def)
qed

lemma min_peek_map:
  assumes d: "min_denotes t m"
  shows "m = Map.empty \<Longrightarrow> min_peek t = None \<and> min_peek_mut t = None"
    "m \<noteq> Map.empty \<Longrightarrow> \<exists>e i k p v. min_peek t = Some (k, p, v) \<and> min_peek_mut t = Some e \<and> pocc_at e (mn_core t) i \<and>
       core_key (mn_core t) i = k \<and> core_priority (mn_core t) i = p \<and> pa_value (pair_of (mn_core t) i) = v \<and>
       m k = Some (p, v) \<and> (\<forall>k' p' v'. m k' = Some (p', v') \<longrightarrow> p \<le> p')"
proof -
  let ?c = "mn_core t"
  have ok: "core_ok (mn_hasher t) ?c" using d by (simp add: pdenotes_def)
  show "min_peek t = None \<and> min_peek_mut t = None" if "m = Map.empty"
    using min_len_map [OF d] that by (simp add: min_peek_def min_peek_mut_def)
  assume ne: "m \<noteq> Map.empty"
  then have go: "\<not> min_is_empty t" using min_len_map [OF d] by simp
  have "live ?c \<noteq> {}" using ne pdenotes_card [OF d] by auto
  note r = ranked_minimum [OF core_okD(4) [OF ok] this]
  let ?i = "co_indices ?c 0"
  have i: "?i \<in> live ?c" using r(1) by simp
  have least: "core_priority ?c ?i \<le> p'" if mk: "m k' = Some (p', v')" for k' p' v'
  proof -
    obtain j where "j \<in> live ?c" "core_priority ?c j = p'" using pdenotes_key [OF d mk] by metis
    then show ?thesis using r(2) [of j] by auto
  qed
  have "min_peek_mut t = Some (min_entry_at t ?i)" using go by (simp add: min_peek_mut_def min_entry_at_def Let_def)
  moreover have "min_peek t = Some (core_key ?c ?i, core_priority ?c ?i, pa_value (pair_of ?c ?i))"
    using go by (simp add: min_peek_def core_key_def core_priority_def Let_def)
  ultimately show "\<exists>e i k p v. min_peek t = Some (k, p, v) \<and> min_peek_mut t = Some e \<and> pocc_at e ?c i \<and>
       core_key ?c i = k \<and> core_priority ?c i = p \<and> pa_value (pair_of ?c i) = v \<and>
       m k = Some (p, v) \<and> (\<forall>k' p' v'. m k' = Some (p', v') \<longrightarrow> p \<le> p')"
    using min_entry_at_live [OF ok i] pdenotes_live [OF d i] least by blast
qed

section \<open>Properties\<close>

text \<open>
  A program over one map. The abstract map leaves open which of several least entries is offered, so
  its steps are a relation.
\<close>

datatype ('k, 'p, 'v) prio_op =
    Prio_Insert 'k 'p 'v
  | Prio_Get 'k
  | Prio_Contains 'k
  | Prio_Set 'k 'p
  | Prio_Put 'k 'v
  | Prio_Remove 'k
  | Prio_Peek
  | Prio_Pop
  | Prio_Pop_If "'p \<Rightarrow> bool"
  | Prio_Len

datatype ('k, 'p, 'v) prio_out =
    Out_Entry "'k full_rejected + bool"
  | Out_Value "'v option"
  | Out_Bool bool
  | Out_Item "('k \<times> 'p \<times> 'v) option"
  | Out_Len nat

text \<open>An insertion that finds its key leaves the entry as it is and reports it.\<close>

definition prio_exec ::
  "('k, 'p::linorder, 'v) prio_op \<Rightarrow> ('k, 'p, 'v) pmin \<Rightarrow> (('k, 'p, 'v) prio_out \<times> ('k, 'p, 'v) pmin) option" where
  "prio_exec operation t = (case operation of
       Prio_Insert k p v \<Rightarrow> map_option
         (\<lambda>r. case r of
             Inl e \<Rightarrow> (Out_Entry (Inl e), t)
           | Inr (Entry_Occupied e) \<Rightarrow> (Out_Entry (Inr False), t)
           | Inr (Entry_Vacant e) \<Rightarrow> (Out_Entry (Inr True), t\<lparr>mn_core := pvacant_insert e p v\<rparr>))
         (min_try_entry t k)
     | Prio_Get k \<Rightarrow> map_option (\<lambda>r. (Out_Value r, t)) (min_get t k)
     | Prio_Contains k \<Rightarrow> map_option (\<lambda>r. (Out_Bool r, t)) (min_contains_key t k)
     | Prio_Set k p \<Rightarrow> map_option
         (\<lambda>r. case r of None \<Rightarrow> (Out_Bool False, t) | Some e \<Rightarrow> (Out_Bool True, t\<lparr>mn_core := pocc_set e p\<rparr>))
         (min_occupied t k)
     | Prio_Put k v \<Rightarrow> map_option
         (\<lambda>r. case r of None \<Rightarrow> (Out_Value None, t) | Some e \<Rightarrow> (Out_Value (Some (pocc_get e)), t\<lparr>mn_core := pocc_put e v\<rparr>))
         (min_occupied t k)
     | Prio_Remove k \<Rightarrow> map_option (\<lambda>(r, t'). (Out_Value r, t')) (min_remove t k)
     | Prio_Peek \<Rightarrow> Some (Out_Item (min_peek t), t)
     | Prio_Pop \<Rightarrow> map_option (\<lambda>(r, t'). (Out_Item r, t')) (min_pop t)
     | Prio_Pop_If test \<Rightarrow> map_option (\<lambda>(r, t'). (Out_Item r, t')) (min_pop_if test t)
     | Prio_Len \<Rightarrow> Some (Out_Len (unat (min_len t)), t))"

definition least_item :: "('k \<Rightarrow> ('p::linorder \<times> 'v) option) \<Rightarrow> 'k \<times> 'p \<times> 'v \<Rightarrow> bool" where
  "least_item m = (\<lambda>(k, p, v). m k = Some (p, v) \<and> (\<forall>k' p' v'. m k' = Some (p', v') \<longrightarrow> p \<le> p'))"

definition prio_spec ::
  "nat \<Rightarrow> ('k, 'p::linorder, 'v) prio_op \<Rightarrow> ('k \<Rightarrow> ('p \<times> 'v) option) \<Rightarrow> ('k, 'p, 'v) prio_out
    \<Rightarrow> ('k \<Rightarrow> ('p \<times> 'v) option) \<Rightarrow> bool" where
  "prio_spec cap operation m out m' = (case operation of
       Prio_Insert k p v \<Rightarrow>
         if m k \<noteq> None then out = Out_Entry (Inr False) \<and> m' = m
         else if card (dom m) = cap then out = Out_Entry (Inl (Rejected_Full k)) \<and> m' = m
         else out = Out_Entry (Inr True) \<and> m' = m(k \<mapsto> (p, v))
     | Prio_Get k \<Rightarrow> out = Out_Value (map_option snd (m k)) \<and> m' = m
     | Prio_Contains k \<Rightarrow> out = Out_Bool (m k \<noteq> None) \<and> m' = m
     | Prio_Set k p \<Rightarrow> out = Out_Bool (m k \<noteq> None) \<and>
         m' = (case m k of None \<Rightarrow> m | Some (_, v) \<Rightarrow> m(k \<mapsto> (p, v)))
     | Prio_Put k v \<Rightarrow> out = Out_Value (map_option snd (m k)) \<and>
         m' = (case m k of None \<Rightarrow> m | Some (p, _) \<Rightarrow> m(k \<mapsto> (p, v)))
     | Prio_Remove k \<Rightarrow> out = Out_Value (map_option snd (m k)) \<and> m' = m(k := None)
     | Prio_Peek \<Rightarrow> m' = m \<and>
         (if m = Map.empty then out = Out_Item None else \<exists>x. out = Out_Item (Some x) \<and> least_item m x)
     | Prio_Pop \<Rightarrow>
         if m = Map.empty then out = Out_Item None \<and> m' = m
         else \<exists>x. out = Out_Item (Some x) \<and> least_item m x \<and> m' = m(fst x := None)
     | Prio_Pop_If test \<Rightarrow>
         if m = Map.empty then out = Out_Item None \<and> m' = m
         else \<exists>x. least_item m x \<and>
           (if test (fst (snd x)) then out = Out_Item (Some x) \<and> m' = m(fst x := None) else out = Out_Item None \<and> m' = m)
     | Prio_Len \<Rightarrow> out = Out_Len (card (dom m)) \<and> m' = m)"

lemma prio_exec_lookup:
  assumes d: "min_denotes t m" and k: "operation = Prio_Get k \<or> operation = Prio_Contains k \<or> operation = Prio_Len"
  shows "\<exists>out. prio_exec operation t = Some (out, t) \<and> prio_spec cap operation m out m"
proof (cases "m k")
  case None
  then show ?thesis using k min_occupied_map(1) [OF d None] min_len_map [OF d]
    by (auto simp: prio_exec_def prio_spec_def min_contains_key_def)
next
  case (Some q)
  then have "m k = Some (fst q, snd q)" by simp
  note at = min_occupied_map(2) [OF d this]
  show ?thesis using at k min_len_map [OF d] Some
    by (auto simp: prio_exec_def prio_spec_def min_contains_key_def)
qed

lemma prio_exec_insert:
  assumes d: "min_denotes t m" and op: "operation = Prio_Insert k p v"
  shows "\<exists>out t' m'. prio_exec operation t = Some (out, t') \<and> prio_spec (min_capacity t) operation m out m' \<and>
    min_denotes t' m' \<and> mn_hasher t' = mn_hasher t \<and> core_plan (mn_core t') = core_plan (mn_core t)"
proof (cases "m k")
  case None
  show ?thesis
  proof (cases "card (dom m) = min_capacity t")
    case True
    then show ?thesis using min_vacant_map(1) [OF d None] None d by (simp add: op prio_exec_def prio_spec_def)
  next
    case False
    then obtain e where "min_try_entry t k = Some (Inr (Entry_Vacant e))"
      "pdenotes (mn_hasher t) (pvacant_insert e p v) (m(k \<mapsto> (p, v)))" "core_plan (pvacant_insert e p v) = core_plan (mn_core t)"
      using min_vacant_map(2) [OF d None] by blast
    then show ?thesis using None False by (simp add: op prio_exec_def prio_spec_def)
  qed
next
  case (Some q)
  then have "m k = Some (fst q, snd q)" by simp
  from min_occupied_map(2) [OF d this] Some d show ?thesis by (auto simp: op prio_exec_def prio_spec_def)
qed

lemma prio_exec_entry:
  assumes d: "min_denotes t m" and op: "operation = Prio_Set k p \<or> operation = Prio_Put k v \<or> operation = Prio_Remove k"
  shows "\<exists>out t' m'. prio_exec operation t = Some (out, t') \<and> prio_spec cap operation m out m' \<and>
    min_denotes t' m' \<and> mn_hasher t' = mn_hasher t \<and> core_plan (mn_core t') = core_plan (mn_core t)"
proof (cases "m k")
  case None
  then have "m(k := None) = m" by auto
  then show ?thesis using op min_occupied_map(1) [OF d None] d None
    by (auto simp: prio_exec_def prio_spec_def min_remove_def)
next
  case (Some pv)
  obtain p0 v0 where pv: "m k = Some (p0, v0)" using Some by (cases pv) auto
  obtain e i where e: "min_occupied t k = Some (Some e)" "pocc_at e (mn_core t) i" "core_key (mn_core t) i = k"
      "core_priority (mn_core t) i = p0" "pa_value (pair_of (mn_core t) i) = v0"
    using min_occupied_map(2) [OF d pv] by blast
  have get: "pocc_get e = v0" using e(2,5) by (simp add: pocc_get_def pocc_pair_def pocc_at_def)
  note s = pocc_set_map [OF d e(2), of p, unfolded e(3,5)] and w = pocc_put_map [OF d e(2), of v, unfolded e(3,4)]
  obtain c' where c': "pocc_remove_parts e = Some ((k, v0, p0), c')" "pdenotes (mn_hasher t) c' (m(k := None))"
      "core_plan c' = core_plan (mn_core t)"
    using pocc_remove_map [OF d e(2)] e(3-5) by blast
  have "min_remove t k = Some (Some v0, t\<lparr>mn_core := c'\<rparr>)" using e(1) c'(1) by (simp add: min_remove_def pocc_remove_def)
  then show ?thesis using op e(1) s w c' pv get by (auto simp: prio_exec_def prio_spec_def)
qed

lemma prio_exec_first:
  assumes d: "min_denotes t m" and op: "operation = Prio_Peek \<or> operation = Prio_Pop \<or> operation = Prio_Pop_If test"
  shows "\<exists>out t' m'. prio_exec operation t = Some (out, t') \<and> prio_spec cap operation m out m' \<and>
    min_denotes t' m' \<and> mn_hasher t' = mn_hasher t \<and> core_plan (mn_core t') = core_plan (mn_core t)"
proof (cases "m = Map.empty")
  case True
  then show ?thesis using op min_peek_map(1) [OF d True] d
    by (auto simp: prio_exec_def prio_spec_def min_pop_def min_pop_if_def)
next
  case False
  obtain e i k p v where e: "min_peek t = Some (k, p, v)" "min_peek_mut t = Some e" "pocc_at e (mn_core t) i"
      "core_key (mn_core t) i = k" "core_priority (mn_core t) i = p" "pa_value (pair_of (mn_core t) i) = v"
      "m k = Some (p, v)" "\<forall>k' p' v'. m k' = Some (p', v') \<longrightarrow> p \<le> p'"
    using min_peek_map(2) [OF d False] by blast
  have least: "least_item m (k, p, v)" using e(7,8) by (simp add: least_item_def)
  have pr: "pocc_priority e = p" using e(3,5) by (simp add: pocc_priority_def pocc_pair_def pocc_at_def core_priority_def)
  obtain c' where c': "pocc_remove_parts e = Some ((k, v, p), c')" "pdenotes (mn_hasher t) c' (m(k := None))"
      "core_plan c' = core_plan (mn_core t)"
    using pocc_remove_map [OF d e(3)] e(4-6) by blast
  have "min_pop t = Some (Some (k, p, v), t\<lparr>mn_core := c'\<rparr>)" using e(2) c'(1) by (simp add: min_pop_def)
  moreover have "min_pop_if test t = (if test p then Some (Some (k, p, v), t\<lparr>mn_core := c'\<rparr>) else Some (None, t))"
    using e(2) c'(1) pr by (simp add: min_pop_if_def)
  ultimately show ?thesis using op
  proof (elim disjE, goal_cases)
    case 1
    then show ?case using e(1) least d False by (auto simp: prio_exec_def prio_spec_def)
  next
    case 2
    then show ?case using least c'(2,3) False
      by (intro exI [of _ "Out_Item (Some (k, p, v))"] exI [of _ "t\<lparr>mn_core := c'\<rparr>"] exI [of _ "m(k := None)"])
         (auto simp: prio_exec_def prio_spec_def intro!: exI [of _ k])
  next
    case 3
    show ?case
    proof (cases "test p")
      case True
      then show ?thesis using 3 least c'(2,3) False
        by (intro exI [of _ "Out_Item (Some (k, p, v))"] exI [of _ "t\<lparr>mn_core := c'\<rparr>"] exI [of _ "m(k := None)"])
           (auto simp: prio_exec_def prio_spec_def intro!: exI [of _ k])
    next
      case F: False
      then show ?thesis using 3 least d False
        by (intro exI [of _ "Out_Item None"] exI [of _ t] exI [of _ m])
           (auto simp: prio_exec_def prio_spec_def intro!: exI [of _ k])
    qed
  qed
qed

lemma prio_exec_spec:
  assumes d: "min_denotes t m"
  shows "\<exists>out t' m'. prio_exec operation t = Some (out, t') \<and> prio_spec (min_capacity t) operation m out m' \<and>
    min_denotes t' m' \<and> mn_hasher t' = mn_hasher t \<and> core_plan (mn_core t') = core_plan (mn_core t)"
  using prio_exec_insert [OF d] prio_exec_entry [OF d] prio_exec_first [OF d] prio_exec_lookup [OF d] d
  by (cases operation) metis+

fun prio_run ::
  "('k, 'p::linorder, 'v) prio_op list \<Rightarrow> ('k, 'p, 'v) pmin \<Rightarrow> (('k, 'p, 'v) prio_out list \<times> ('k, 'p, 'v) pmin) option" where
  "prio_run [] t = Some ([], t)"
| "prio_run (op1 # ops) t = (case prio_exec op1 t of
       None \<Rightarrow> None
     | Some (out, t') \<Rightarrow> map_option (\<lambda>(outs, t''). (out # outs, t'')) (prio_run ops t'))"

fun prio_spec_run ::
  "nat \<Rightarrow> ('k, 'p::linorder, 'v) prio_op list \<Rightarrow> ('k \<Rightarrow> ('p \<times> 'v) option) \<Rightarrow> ('k, 'p, 'v) prio_out list
    \<Rightarrow> ('k \<Rightarrow> ('p \<times> 'v) option) \<Rightarrow> bool" where
  "prio_spec_run cap [] m outs m' \<longleftrightarrow> outs = [] \<and> m' = m"
| "prio_spec_run cap (op1 # ops) m outs m' \<longleftrightarrow>
     (\<exists>out rest m1. outs = out # rest \<and> prio_spec cap op1 m out m1 \<and> prio_spec_run cap ops m1 rest m')"

lemma prio_run_spec:
  assumes "min_denotes t m"
  shows "\<exists>outs t' m'. prio_run ops t = Some (outs, t') \<and> prio_spec_run (min_capacity t) ops m outs m' \<and>
    min_denotes t' m' \<and> mn_hasher t' = mn_hasher t \<and> core_plan (mn_core t') = core_plan (mn_core t)"
  using assms
proof (induction ops arbitrary: t m)
  case (Cons op1 ops)
  obtain out t1 m1 where s: "prio_exec op1 t = Some (out, t1)" "prio_spec (min_capacity t) op1 m out m1"
      "min_denotes t1 m1" "mn_hasher t1 = mn_hasher t" "core_plan (mn_core t1) = core_plan (mn_core t)"
    using prio_exec_spec [OF Cons.prems] by blast
  from Cons.IH [OF s(3)] obtain outs t' m' where "prio_run ops t1 = Some (outs, t')"
      "prio_spec_run (min_capacity t) ops m1 outs m'" "min_denotes t' m'" "mn_hasher t' = mn_hasher t"
      "core_plan (mn_core t') = core_plan (mn_core t)" unfolding s(4,5) by blast
  then show ?case using s(1,2) by auto
qed simp

lemma prio_run_new:
  assumes "min_try_new grant node memory pl hasher = Inr t" "plan_ok pl"
  shows "\<exists>outs t' m'. prio_run ops t = Some (outs, t') \<and>
    prio_spec_run (unat (pl_capacity pl)) ops Map.empty outs m' \<and> min_denotes t' m' \<and> mn_hasher t' = hasher"
  using prio_run_spec [OF min_new_denotes(1) [OF assms], of ops] min_new_denotes(2,3) [OF assms] by auto

text \<open>C6: A priority map refines a finite map with a bounded number of entries. Whatever the hash and
  the program of insertions, lookups, changes of priority or value, removals, peeks, pops and
  conditional pops, every operation returns, answers as the finite map does, and offers an entry of
  least priority.\<close>

theorem priority_refines_map:
  assumes "min_try_new grant node memory pl hasher = Inr t" "plan_ok pl"
  shows "\<exists>outs t' m'. prio_run ops t = Some (outs, t') \<and>
    prio_spec_run (unat (pl_capacity pl)) ops Map.empty outs m' \<and> pdenotes hasher (mn_core t') m'"
  using prio_run_new [OF assms, of ops] by auto

text \<open>A small map, and a program on it in which all keys collide.\<close>

definition small_map :: "(nat, nat, char) pmin" where
  "small_map = \<lparr>mn_core = \<lparr>co_table = table_from_fields (plan_buckets \<lparr>pl_capacity = 2\<rparr>),
      co_store = pstore_new (map (\<lambda>i. \<lparr>nd_pair = None, nd_bucket = 7, nd_position = 7\<rparr>)
        [0..<unat (plan_capacity \<lparr>pl_capacity = 2\<rparr>)]) \<lparr>pl_capacity = 2\<rparr>, co_indices = \<lambda>_. 7\<rparr>, mn_hasher = \<lambda>_. 5\<rparr>"

definition node_ty :: ty where
  "node_ty = \<lparr>ty_size = 32, ty_align = 8\<rparr>"

lemma small_map_new: "min_try_new (\<lambda>_. True) node_ty (\<lambda>_. 7) \<lparr>pl_capacity = 2\<rparr> (\<lambda>_. 5) = Inr small_map"
  by (simp add: min_try_new_def core_try_new_def layout_try_allocate_def small_map_def)

lemma small_plan: "plan_ok \<lparr>pl_capacity = 2\<rparr>"
  by (simp add: plan_ok_def)

definition small_program :: "(nat, nat, char) prio_op list" where
  "small_program = [Prio_Insert 5 30 (CHR ''a''), Prio_Insert 2 20 (CHR ''b''), Prio_Insert 3 1 (CHR ''c''),
     Prio_Set 5 10, Prio_Pop]"

lemma small_program_run:
  "\<exists>t'. prio_run small_program small_map = Some ([Out_Entry (Inr True), Out_Entry (Inr True),
     Out_Entry (Inl (Rejected_Full 3)), Out_Bool True, Out_Item (Some (5, 10, CHR ''a''))], t') \<and>
     pdenotes (\<lambda>_. 5) (mn_core t') [2 \<mapsto> (20, CHR ''b'')]" (is "?run")
  if run: "\<exists>outs t' m'. prio_run small_program small_map = Some (outs, t') \<and>
    prio_spec_run (unat (2 :: u32)) small_program Map.empty outs m' \<and> pdenotes (\<lambda>_. 5) (mn_core t') m'"
proof -
  obtain outs t' m' where r: "prio_run small_program small_map = Some (outs, t')"
    "prio_spec_run 2 small_program Map.empty outs m'" "pdenotes (\<lambda>_. 5) (mn_core t') m'" using run by auto
  let ?m = "[5 \<mapsto> (10, CHR ''a''), 2 \<mapsto> (20, CHR ''b'')] :: nat \<Rightarrow> (nat \<times> char) option"
  have least: "least_item ?m x \<longleftrightarrow> x = (5, 10, CHR ''a'')" for x :: "nat \<times> nat \<times> char"
  proof
    assume x: "least_item ?m x"
    obtain k p v where kpv: "x = (k, p, v)" by (cases x)
    have kp: "?m k = Some (p, v)" and "\<forall>k' p' v'. ?m k' = Some (p', v') \<longrightarrow> p \<le> p'"
      using x unfolding kpv least_item_def by simp_all
    moreover have "?m 5 = Some (10, CHR ''a'')" by simp
    ultimately have "p \<le> 10" by blast
    then show "x = (5, 10, CHR ''a'')" using kp by (auto simp: kpv split: if_splits)
  qed (auto simp: least_item_def split: if_splits)
  have "[5 \<mapsto> (30, CHR ''a''), 2 \<mapsto> (20, CHR ''b''), 5 \<mapsto> (10, CHR ''a'')] = ?m" "?m(5 := None) = [2 \<mapsto> (20, CHR ''b'')]" by auto
  then have "outs = [Out_Entry (Inr True), Out_Entry (Inr True), Out_Entry (Inl (Rejected_Full 3)), Out_Bool True,
      Out_Item (Some (5, 10, CHR ''a''))] \<and> m' = [2 \<mapsto> (20, CHR ''b'')]"
    using r(2) by (auto simp: small_program_def prio_spec_def least)
  then show ?run using r(1,3) by blast
qed

lemma priority_refines_map_witness:
  "\<exists>t'. prio_run small_program small_map = Some ([Out_Entry (Inr True), Out_Entry (Inr True),
     Out_Entry (Inl (Rejected_Full 3)), Out_Bool True, Out_Item (Some (5, 10, CHR ''a''))], t') \<and>
     pdenotes (\<lambda>_. 5) (mn_core t') [2 \<mapsto> (20, CHR ''b'')]"
  by (rule small_program_run)
     (use priority_refines_map [OF small_map_new small_plan, of small_program] in simp)

text \<open>C20: The parts of a priority map agree in every reachable state. Each live node is in the table
  under the hash of its key, in the bucket it names, and in the heap at the position it names; the
  table and the heap hold nothing else; every entry obtained from a live index is the one the
  probe would find; and no entry of the heap ranks below its parent.\<close>

theorem priority_parts_agree:
  assumes "min_try_new grant node memory pl hasher = Inr t" "plan_ok pl" "prio_run ops t = Some (outs, t')"
  shows "(\<forall>i \<in> live (mn_core t').
      core_ent (mn_core t') (unat (nd_bucket (nodes (mn_core t') ! unat i))) = Some (hasher (core_key (mn_core t') i), i) \<and>
      unat (nd_position (nodes (mn_core t') ! unat i)) < unat (min_len t') \<and>
      co_indices (mn_core t') (unat (nd_position (nodes (mn_core t') ! unat i))) = i \<and>
      pocc_at (min_entry_at t' i) (mn_core t') i) \<and>
    (\<forall>b h i. core_ent (mn_core t') b = Some (h, i) \<longrightarrow> i \<in> live (mn_core t')) \<and>
    (\<forall>j < unat (min_len t'). co_indices (mn_core t') j \<in> live (mn_core t') \<and> (0 < j \<longrightarrow>
      core_priority (mn_core t') (co_indices (mn_core t') ((j - 1) div 2)) \<le> core_priority (mn_core t') (co_indices (mn_core t') j)))"
proof -
  obtain m' where d: "min_denotes t' m'" and hs: "mn_hasher t' = hasher" using prio_run_new [OF assms(1,2), of ops] assms(3) by auto
  let ?c = "mn_core t'"
  have ok: "core_ok hasher ?c" using d hs by (simp add: pdenotes_def)
  note rk = core_okD(4) [OF ok] and tb = core_okD(2) [OF ok]
  have len: "heap_len (core_heap ?c) = unat (min_len t')" using core_live_len [OF ok] by (simp add: min_len_def)
  have node: "core_ent ?c (unat (nd_bucket (nodes ?c ! unat i))) = Some (hasher (core_key ?c i), i)" if i: "i \<in> live ?c" for i
  proof -
    obtain b where b: "core_ent ?c b = Some (hasher (core_key ?c i), i)" "b < core_buckets ?c" using tb i by (rule tabled_bucket)
    have "pl_capacity (core_plan ?c) \<noteq> 0" using core_no_capacity(2) [OF ok] i by auto
    then show ?thesis using b tabled_member(3) [OF tb b(1)] bucket_word(1) [OF tabledD(2) [OF tb] b(2)] by simp
  qed
  have pos: "unat (nd_position (nodes ?c ! unat i)) < unat (min_len t')" "co_indices ?c (unat (nd_position (nodes ?c ! unat i))) = i"
    if "i \<in> live ?c" for i using ranked_locate [OF rk that] live_bound [OF that] by (simp_all add: len)
  have heap: "co_indices ?c j \<in> live ?c" if "j < unat (min_len t')" for j using ranked_entry [OF rk] that len by auto
  have order: "core_priority ?c (co_indices ?c ((j - 1) div 2)) \<le> core_priority ?c (co_indices ?c j)"
    if "0 < j" "j < unat (min_len t')" for j using ranked_parent [OF rk] that by (auto simp: len parent_def)
  show ?thesis using node pos heap order tabled_member(1) [OF tb] min_entry_at_live [of t'] ok hs by auto
qed

lemma priority_parts_agree_witness:
  "\<exists>outs t'. prio_run small_program small_map = Some (outs, t') \<and> unat (min_len t') = 1 \<and> co_indices (mn_core t') 0 \<in> live (mn_core t') \<and>
     core_ent (mn_core t') (unat (nd_bucket (nodes (mn_core t') ! unat (co_indices (mn_core t') 0)))) = Some (5, co_indices (mn_core t') 0)"
proof -
  obtain outs t' m' where r: "prio_run small_program small_map = Some (outs, t')"
    "prio_spec_run 2 small_program Map.empty outs m'" "min_denotes t' m'" "mn_hasher t' = (\<lambda>_. 5)"
    using prio_run_new [OF small_map_new small_plan, of small_program] by auto
  obtain t'' where "prio_run small_program small_map = Some (outs, t'')" "pdenotes (\<lambda>_. 5) (mn_core t'') [2 \<mapsto> (20, CHR ''b'')]"
    using small_program_run r prio_run_new [OF small_map_new small_plan, of small_program] by auto
  then have "min_denotes t' [2 \<mapsto> (20, CHR ''b'')]" using r(1,4) by simp
  then have len: "unat (min_len t') = 1" using min_len_map by fastforce
  note agree = priority_parts_agree [OF small_map_new small_plan r(1)]
  have "co_indices (mn_core t') 0 \<in> live (mn_core t')" using agree len by auto
  then show ?thesis using r(1) len agree by auto
qed

text \<open>Popping at most \<open>n\<close> entries.\<close>

primrec min_pops :: "nat \<Rightarrow> ('k, 'p::linorder, 'v) pmin \<Rightarrow> (('k \<times> 'p \<times> 'v) list \<times> ('k, 'p, 'v) pmin) option" where
  "min_pops 0 t = Some ([], t)"
| "min_pops (Suc n) t = (case min_pop t of
       None \<Rightarrow> None
     | Some (None, t') \<Rightarrow> Some ([], t')
     | Some (Some x, t') \<Rightarrow> map_option (\<lambda>(xs, t''). (x # xs, t'')) (min_pops n t'))"

lemma min_pops_map:
  assumes "min_denotes t m" "card (dom m) = n"
  shows "\<exists>xs t'. min_pops n t = Some (xs, t') \<and> min_denotes t' Map.empty \<and> sorted (map (fst \<circ> snd) xs) \<and>
    distinct (map fst xs) \<and> (\<forall>k p v. (k, p, v) \<in> set xs \<longleftrightarrow> m k = Some (p, v))"
  using assms
proof (induction n arbitrary: t m)
  case 0
  then have "m = Map.empty" using pdenotes_card(1) by fastforce
  then show ?case using 0 by simp
next
  case (Suc n)
  then have ne: "m \<noteq> Map.empty" by auto
  obtain e i k p v where e: "min_peek_mut t = Some e" "pocc_at e (mn_core t) i"
      "core_key (mn_core t) i = k" "core_priority (mn_core t) i = p" "pa_value (pair_of (mn_core t) i) = v"
      "m k = Some (p, v)" "\<forall>k' p' v'. m k' = Some (p', v') \<longrightarrow> p \<le> p'"
    using min_peek_map(2) [OF Suc.prems(1) ne] by blast
  obtain c' where c': "pocc_remove_parts e = Some ((k, v, p), c')" "pdenotes (mn_hasher t) c' (m(k := None))"
    using pocc_remove_map [OF Suc.prems(1) e(2)] e(3-5) by blast
  let ?t = "t\<lparr>mn_core := c'\<rparr>"
  have pop: "min_pop t = Some (Some (k, p, v), ?t)" using e(1) c'(1) by (simp add: min_pop_def)
  have cd: "card (dom (m(k := None))) = n" using Suc.prems(2) e(6) by (simp add: domI)
  have dt: "min_denotes ?t (m(k := None))" using c'(2) by simp
  obtain xs t' where xs: "min_pops n ?t = Some (xs, t')" "min_denotes t' Map.empty" "sorted (map (fst \<circ> snd) xs)"
      "distinct (map fst xs)" "\<forall>k' p' v'. (k', p', v') \<in> set xs \<longleftrightarrow> (m(k := None)) k' = Some (p', v')"
    using Suc.IH [OF dt cd] by blast
  have "p \<le> (fst \<circ> snd) x" if "x \<in> set xs" for x
    using e(7) xs(5) that by (cases x) (auto split: if_splits)
  moreover have "k \<notin> fst ` set xs" using xs(5) by force
  ultimately show ?case using pop xs e(6) by (intro exI [of _ "(k, p, v) # xs"] exI [of _ t']) (auto simp: comp_def)
qed

lemma min_get_map: "min_denotes t m \<Longrightarrow> min_get t k = Some (map_option snd (m k))"
  using min_occupied_map [of t m k] by (cases "m k") auto

text \<open>C21: Every entry is eventually offered. Popping a reachable priority map as often as it has
  entries returns each time, leaves it empty and yields every key once with its value, in ascending
  order of priority.\<close>

theorem priority_drain:
  assumes "min_try_new grant node memory pl hasher = Inr t" "plan_ok pl" "prio_run ops t = Some (outs, t')"
  shows "\<exists>xs t''. min_pops (unat (min_len t')) t' = Some (xs, t'') \<and> min_is_empty t'' \<and>
    sorted (map (fst \<circ> snd) xs) \<and> distinct (map fst xs) \<and>
    (\<forall>k v. (\<exists>p. (k, p, v) \<in> set xs) \<longleftrightarrow> min_get t' k = Some (Some v))"
proof -
  obtain m' where d: "min_denotes t' m'" using prio_run_new [OF assms(1,2), of ops] assms(3) by auto
  have "card (dom m') = unat (min_len t')" using min_len_map [OF d] by simp
  then obtain xs t'' where xs: "min_pops (unat (min_len t')) t' = Some (xs, t'')" "min_denotes t'' Map.empty"
      "sorted (map (fst \<circ> snd) xs)" "distinct (map fst xs)" "\<forall>k p v. (k, p, v) \<in> set xs \<longleftrightarrow> m' k = Some (p, v)"
    using min_pops_map [OF d] by blast
  have "min_is_empty t''" using min_len_map [OF xs(2)] by simp
  then show ?thesis using xs min_get_map [OF d] by auto
qed

lemma priority_drain_witness:
  "\<exists>outs t' xs t''. prio_run [Prio_Insert 5 30 (CHR ''a''), Prio_Insert 2 20 (CHR ''b'')] small_map = Some (outs, t') \<and>
     min_pops (unat (min_len t')) t' = Some (xs, t'') \<and> min_is_empty t'' \<and> sorted (map (fst \<circ> snd) xs)"
proof -
  obtain outs t' m' where r: "prio_run [Prio_Insert 5 30 (CHR ''a''), Prio_Insert 2 20 (CHR ''b'')] small_map = Some (outs, t')"
    using prio_run_new [OF small_map_new small_plan, of "[Prio_Insert 5 30 (CHR ''a''), Prio_Insert 2 20 (CHR ''b'')]"] by auto
  from priority_drain [OF small_map_new small_plan r] r show ?thesis by blast
qed

end
