(* ===== verification/O3_Bitmap.thy ===== *)
theory O3_Bitmap
  imports O3_Prelude "HOL-Library.Numeral_Type"
begin

text \<open>
  Hierarchical occupancy bits (src/src/depot/index/bitmap/). A bitmap of \<open>bits\<close> positions is one
  slice of words: first the leaf words, one bit per position, then one summary level after the other,
  where a bit says whether the word it stands for has any bit set, up to a single root word.

  The width trait is sealed over \<open>usize\<close> and \<open>u32\<close>; here a word has any width, and the shape
  and the fill, whose loops end because a level has fewer words than bits, any even width.
  The cells of a slice are its words, so an update returns the slice. Positions and counts are
  \<open>usize\<close> in the code and never exceed the \<open>u32\<close> domain, so they are natural numbers here and
  only what is stored or returned as \<open>u32\<close> is narrowed.
\<close>

section \<open>Widths\<close>

definition BITS :: "'w::len itself \<Rightarrow> nat" where
  "BITS W = LENGTH('w)"

definition trailing_zeros :: "'w::len word \<Rightarrow> nat" where
  "trailing_zeros w = length (takeWhile (\<lambda>i. \<not> bit w i) [0..<LENGTH('w)])"

definition radix_shift :: "'w::len itself \<Rightarrow> nat" where
  "radix_shift W = trailing_zeros (word_of_nat (BITS W) :: u32)"

definition div_ceil :: "nat \<Rightarrow> nat \<Rightarrow> nat" where
  "div_ceil a b = (a + (b - 1)) div b"

lemma BITS_pos [simp]: "0 < BITS W"
  by (simp add: BITS_def)

lemma BITS_bit0: "2 \<le> BITS (W :: 'n::len bit0 itself)"
proof -
  have "0 < LENGTH('n)" by simp
  then have "2 \<le> 2 * LENGTH('n)" by linarith
  then show ?thesis by (simp add: BITS_def)
qed

lemma length_takeWhile_upt_pos:
  "0 < n \<Longrightarrow> P 0 \<Longrightarrow> 0 < length (takeWhile P [0..<n])"
  by (cases n) (simp_all add: upt_conv_Cons del: upt_Suc)

lemma radix_shift_bit0: "0 < radix_shift (W :: 'n::len bit0 itself)"
proof -
  have "\<not> bit (word_of_nat (BITS W) :: u32) 0"
    by (simp add: BITS_def bit_0)
  then show ?thesis
    unfolding radix_shift_def trailing_zeros_def
    by (intro length_takeWhile_upt_pos) simp_all
qed

section \<open>Shapes\<close>

record shape_bits =
  sb_bits :: u32
  sb_words :: u32

function shape_words :: "'n::len bit0 itself \<Rightarrow> u32 \<Rightarrow> u32 \<Rightarrow> u32" where
  "shape_words W last_word words =
    (if last_word \<noteq> 0 then shape_words W (drop_bit (radix_shift W) last_word) (words + (last_word + 1))
     else words)"
  by pat_completeness auto

lemma unat_drop_bit: "unat (drop_bit n (w :: 'w::len word)) = unat w div 2 ^ n"
proof -
  have "unat (drop_bit n w) = drop_bit n (unat w)"
    by (rule bit_eqI) (auto simp: bit_simps dest: bit_imp_le_length)
  then show ?thesis
    by (simp only: drop_bit_eq_div)
qed

lemma drop_bit_less:
  fixes w :: "'w::len word"
  assumes "w \<noteq> 0" "0 < n"
  shows "unat (drop_bit n w) < unat w"
proof -
  have "1 < (2 :: nat) ^ n"
    using assms(2) by (rule one_less_power [rotated]) simp
  then show ?thesis
    using assms(1) by (simp add: unat_drop_bit unat_gt_0 div_less_dividend)
qed

termination shape_words
  by (relation "measure (\<lambda>(W, last_word, words). unat last_word)")
    (auto intro: drop_bit_less radix_shift_bit0)

declare shape_words.simps [simp del]

definition shape_new :: "'n::len bit0 itself \<Rightarrow> u32 \<Rightarrow> shape_bits" where
  "shape_new W bits =
    \<lparr>sb_bits = bits,
     sb_words = (if bits \<noteq> 0 then shape_words W (drop_bit (radix_shift W) (bits - 1)) 1 else 0)\<rparr>"

definition shape_capacity :: "shape_bits \<Rightarrow> nat" where
  "shape_capacity s = unat (sb_bits s)"

datatype bitmap_fill = Empty | Full

definition fill_value :: "bitmap_fill \<Rightarrow> nat \<Rightarrow> nat \<Rightarrow> 'w::len word" where
  "fill_value fill bits word =
    (let left = bits - word * BITS TYPE('w)
     in case fill of
          Empty \<Rightarrow> 0
        | Full \<Rightarrow> if BITS TYPE('w) \<le> left then - 1 else word_of_nat (2 ^ left - 1))"

text \<open>The words that the iterator of \<open>Shape::fill\<close> yields: those of one level, then the next level's.\<close>

function fill_levels :: "bitmap_fill \<Rightarrow> nat \<Rightarrow> 'n::len bit0 word list" where
  "fill_levels fill bits =
    (if bits = 0 then []
     else let words = div_ceil bits (BITS TYPE('n bit0))
          in map (fill_value fill bits) [0..<words] @
             (if words = 1 then [] else fill_levels fill words))"
  by pat_completeness auto

lemma div_ceil_pos: "0 < a \<Longrightarrow> 0 < b \<Longrightarrow> 0 < div_ceil a b"
  by (simp add: div_ceil_def div_greater_zero_iff)

lemma div_ceil_less:
  assumes "2 \<le> b" "div_ceil a b \<noteq> 1" "0 < a"
  shows "div_ceil a b < a"
proof -
  have "1 < a"
    using assms by (cases "a = 1") (auto simp: div_ceil_def)
  then have "a + (b - 1) < a * b"
    using assms(1) by (auto simp: algebra_simps dest!: less_imp_Suc_add le_Suc_ex)
  then show ?thesis
    using assms(1) by (simp add: div_ceil_def div_less_iff_less_mult)
qed

termination fill_levels
  by (relation "measure snd") (use div_ceil_less BITS_bit0 in \<open>auto\<close>)

declare fill_levels.simps [simp del]

definition shape_fill :: "shape_bits \<Rightarrow> bitmap_fill \<Rightarrow> 'n::len bit0 word list" where
  "shape_fill s fill = fill_levels fill (unat (sb_bits s))"

section \<open>Levels\<close>

text \<open>
  Descending from a summary bit to its leaf. The code keeps the shift of the level, which is the
  level's number times the width's shift; \<open>bits\<close> is the nonzero word selected from and
  \<open>current\<close> the whole word it comes from.
\<close>

primrec find_down :: "nat \<Rightarrow> 'w::len word list \<Rightarrow> nat \<Rightarrow> nat \<Rightarrow> nat \<Rightarrow> 'w word \<Rightarrow> 'w word \<Rightarrow> u32 \<times> 'w word" where
  "find_down 0 words bits offset index found current =
    (word_of_nat (index * BITS TYPE('w) + trailing_zeros found) + 1, current)"
| "find_down (Suc level) words bits offset index found current =
    (let index = index * BITS TYPE('w) + trailing_zeros found;
         offset = offset - ((bits - 1) div 2 ^ (Suc level * radix_shift TYPE('w)) + 1);
         current = words ! (offset + index)
     in find_down level words bits offset index current current)"

function find_up :: "'w::len word list \<Rightarrow> nat \<Rightarrow> nat \<Rightarrow> nat \<Rightarrow> nat \<Rightarrow> nat \<Rightarrow> (u32 \<times> 'w word) option" where
  "find_up words bits level offset count start =
    (if count \<le> start then None
     else let index = start div BITS TYPE('w);
              current = words ! (offset + index);
              found = current AND push_bit (start mod BITS TYPE('w)) (NOT 0)
          in if found \<noteq> 0 then Some (find_down level words bits offset index found current)
             else let n = div_ceil count (BITS TYPE('w))
                  in if n = 1 then None
                     else find_up words bits (Suc level) (offset + n) n (index + 1))"
  by pat_completeness auto

lemma div_ceil_le:
  assumes "0 < b" "0 < a"
  shows "div_ceil a b \<le> a"
proof (cases "b = 1")
  case False
  then show ?thesis
    using div_ceil_less [of b a] assms by (cases "div_ceil a b = 1") auto
qed (simp add: div_ceil_def)

lemma div_ceil_eqD:
  assumes "0 < b" "0 < a" "div_ceil a b \<noteq> 1" "\<not> div_ceil a b < a"
  shows "b = 1"
  using assms div_ceil_less [of b a] by (cases "b = 1") auto

termination find_up
proof (relation "measures [\<lambda>(words, bits, level, offset, count, start). count,
    \<lambda>(words, bits, level, offset, count, start). count - start]", goal_cases)
  case (2 words bits level offset count start index current found n)
  let ?b = "BITS TYPE('a)"
  have pos: "0 < count" and n: "n = div_ceil count ?b" "n \<noteq> 1" and i: "index = start div ?b"
    using 2 by auto
  show ?case
  proof (cases "n < count")
    case False
    then have "?b = 1"
      using div_ceil_eqD [of ?b count] pos n by simp
    moreover from this have "n = count"
      using n by (simp add: div_ceil_def)
    ultimately show ?thesis
      using 2 i by auto
  qed auto
qed auto

declare find_up.simps [simp del]

definition level_find :: "'w::len word list \<Rightarrow> nat \<Rightarrow> nat \<Rightarrow> (u32 \<times> 'w word) option" where
  "level_find words bits start = (if bits = 0 then None else find_up words bits 0 0 bits start)"

text \<open>
  Writing one position into a level and, while the word's emptiness changed, into its summary.
  \<open>offset\<close> is where the code's remaining slice starts. The count is nonzero in the code, so the top
  level is the one whose count is at most one; above it a level has fewer words, as a word has at
  least two bits.
\<close>

function level_write ::
  "bool \<Rightarrow> 'n::len bit0 word list \<Rightarrow> nat \<Rightarrow> nat \<Rightarrow> nat \<Rightarrow> 'n bit0 word \<Rightarrow> 'n bit0 word list" where
  "level_write SET words offset count index current =
    (let word = index div BITS TYPE('n bit0);
         one = push_bit (index mod BITS TYPE('n bit0)) 1;
         written = (if SET then current OR one else current AND NOT one);
         words = words[offset + word := written];
         stable = (if SET then current \<noteq> 0 else written \<noteq> 0)
     in if stable \<or> count \<le> 1 then words
        else level_write SET words (offset + count) (div_ceil count (BITS TYPE('n bit0))) word
               (words ! (offset + count + word div BITS TYPE('n bit0))))"
  by pat_completeness auto

lemma div_ceil_smaller:
  assumes "1 < count"
  shows "div_ceil count (BITS TYPE('n::len bit0)) < count"
  using div_ceil_less [OF BITS_bit0, of count] assms by (cases "div_ceil count (BITS TYPE('n bit0)) = 1") auto

termination level_write
  by (relation "measure (\<lambda>(SET, words, offset, count, index, current). count)")
    (auto intro: div_ceil_smaller)

declare level_write.simps [simp del]

definition level_write_leaf :: "bool \<Rightarrow> 'n::len bit0 word list \<Rightarrow> nat \<Rightarrow> nat \<Rightarrow> 'n bit0 word \<Rightarrow> 'n bit0 word list" where
  "level_write_leaf SET words bits index current =
    level_write SET words 0 (div_ceil bits (BITS TYPE('n bit0))) index current"

definition level_update :: "bool \<Rightarrow> 'n::len bit0 word list \<Rightarrow> nat \<Rightarrow> nat \<Rightarrow> 'n bit0 word list" where
  "level_update SET words bits index =
    level_write_leaf SET words bits index (words ! (index div BITS TYPE('n bit0)))"

section \<open>Rows\<close>

record bitmap_error =
  be_index :: nat
  be_capacity :: nat

text \<open>A row is its nonzero one-based position; its source is passed along.\<close>

definition row_new :: "nat \<Rightarrow> u32" where
  "row_new index = word_of_nat index + 1"

definition row_try_new :: "shape_bits \<Rightarrow> nat \<Rightarrow> bitmap_error + u32" where
  "row_try_new s index =
    (let capacity = unat (sb_bits s)
     in if capacity \<le> index then Inl \<lparr>be_index = index, be_capacity = capacity\<rparr>
        else Inr (row_new index))"

definition row_index :: "u32 \<Rightarrow> nat" where
  "row_index row = unat row - 1"

definition row_contains :: "'n::len bit0 word list \<Rightarrow> u32 \<Rightarrow> bool" where
  "row_contains words row =
    (let index = row_index row
     in words ! (index div BITS TYPE('n bit0)) AND push_bit (index mod BITS TYPE('n bit0)) 1 \<noteq> 0)"

definition row_clamp :: "shape_bits \<Rightarrow> nat \<Rightarrow> u32" where
  "row_clamp s index = row_new (min index (unat (sb_bits s) - 1))"

definition row_update :: "bool \<Rightarrow> 'n::len bit0 word list \<Rightarrow> shape_bits \<Rightarrow> u32 \<Rightarrow> 'n bit0 word list" where
  "row_update SET words s row = level_update SET words (unat (sb_bits s)) (row_index row)"

definition row_occupied :: "'n::len bit0 word list \<Rightarrow> u32 \<Rightarrow> u32 + u32" where
  "row_occupied words row = (if row_contains words row then Inr row else Inl row)"

definition row_remove :: "'n::len bit0 word list \<Rightarrow> shape_bits \<Rightarrow> u32 \<Rightarrow> 'n bit0 word list \<times> u32" where
  "row_remove words s row = (row_update False words s row, row)"

section \<open>Access\<close>

definition access_find :: "'n::len bit0 word list \<Rightarrow> shape_bits \<Rightarrow> nat \<Rightarrow> u32 option" where
  "access_find words s start = map_option fst (level_find words (unat (sb_bits s)) start)"

definition access_first :: "'n::len bit0 word list \<Rightarrow> shape_bits \<Rightarrow> u32 option" where
  "access_first words s = access_find words s 0"

definition access_is_empty :: "'n::len bit0 word list \<Rightarrow> bool" where
  "access_is_empty words = (words = [] \<or> List.last words = 0)"

definition bitmap_pop_from :: "'n::len bit0 word list \<Rightarrow> shape_bits \<Rightarrow> nat \<Rightarrow> ('n bit0 word list \<times> u32) option" where
  "bitmap_pop_from words s start =
    (let bits = unat (sb_bits s);
         found = (case level_find words bits start of
                    Some f \<Rightarrow> Some f
                  | None \<Rightarrow> if start = 0 then None else level_find words bits 0)
     in map_option (\<lambda>(index, current).
          (level_write_leaf False words bits (unat index - 1) current, index)) found)"

definition access_pop_from :: "'n::len bit0 word list \<Rightarrow> shape_bits \<Rightarrow> nat \<Rightarrow> ('n bit0 word list \<times> u32) option" where
  "access_pop_from words s start =
    (if unat (sb_bits s) = 0 then None
     else bitmap_pop_from words s (start mod unat (sb_bits s)))"

end
