(* ===== verification/O3_Bitmap_Proofs.thy ===== *)
theory O3_Bitmap_Proofs
  imports O3_Bitmap
begin

text \<open>
  A hierarchy of words represents a set of positions: level \<open>k\<close> has one bit for every \<open>R ^ k\<close>
  positions, set when one of them is a member. Searching, writing and filling are shown to act on that
  set, and the number of words a shape computes to be exactly those of the hierarchy.
\<close>

section \<open>Levels in exact arithmetic\<close>

definition cnt :: "nat \<Rightarrow> nat \<Rightarrow> nat \<Rightarrow> nat" where
  "cnt R b k = (b - 1) div R ^ k + 1"

definition off :: "nat \<Rightarrow> nat \<Rightarrow> nat \<Rightarrow> nat" where
  "off R b k = (\<Sum>i<k. cnt R b (Suc i))"

definition lives :: "nat \<Rightarrow> nat \<Rightarrow> nat \<Rightarrow> bool" where
  "lives R b k \<longleftrightarrow> k = 0 \<or> cnt R b k \<noteq> 1"

definition up :: "nat \<Rightarrow> nat \<Rightarrow> nat set \<Rightarrow> nat set" where
  "up R k M = (\<lambda>i. i div R ^ k) ` M"

lemma cnt_0: "0 < b \<Longrightarrow> cnt R b 0 = b"
  by (simp add: cnt_def)

lemma cnt_pos [simp]: "0 < cnt R b k"
  by (simp add: cnt_def)

lemma cnt_neq_0 [simp]: "cnt R b k \<noteq> 0"
  by (simp add: cnt_def)

lemma div_ceil_Suc: "0 < r \<Longrightarrow> div_ceil (Suc n) r = n div r + 1"
  by (simp add: div_ceil_def) (metis add.commute add_diff_cancel_left' div_add_self2 gr_implies_not0 plus_1_eq_Suc Suc_pred add_Suc_right)

lemma div_ceil_cnt: "0 < R \<Longrightarrow> div_ceil (cnt R b k) R = cnt R b (Suc k)"
  by (simp add: cnt_def div_ceil_Suc power_Suc2 div_mult2_eq del: power_Suc)

lemma div_ceil_bits: "0 < R \<Longrightarrow> 0 < b \<Longrightarrow> div_ceil b R = cnt R b (Suc 0)"
  using div_ceil_cnt [of R b 0] by (simp add: cnt_0)

lemma cnt_less: "i < b \<Longrightarrow> i div R ^ k < cnt R b k"
  unfolding cnt_def by (simp add: less_Suc_eq_le div_le_mono)

lemma cnt_antimono:
  assumes "0 < R" "j \<le> k"
  shows "cnt R b k \<le> cnt R b j"
proof -
  have "(b - 1) div R ^ k = (b - 1) div R ^ j div R ^ (k - j)"
    using assms(2) by (simp add: div_mult2_eq [symmetric] power_add [symmetric])
  then show ?thesis
    by (simp add: cnt_def)
qed

lemma lives_down: "0 < R \<Longrightarrow> lives R b k \<Longrightarrow> j \<le> k \<Longrightarrow> lives R b j"
  using cnt_antimono [of R j k b] cnt_pos [of R b j] cnt_pos [of R b k]
  by (cases "j = 0") (auto simp: lives_def simp del: cnt_pos)

lemma off_0 [simp]: "off R b 0 = 0"
  by (simp add: off_def)

lemma off_Suc: "off R b (Suc k) = off R b k + cnt R b (Suc k)"
  by (simp add: off_def)

lemma off_mono: "j \<le> k \<Longrightarrow> off R b j \<le> off R b k"
  unfolding off_def by (rule sum_mono2) auto

lemma off_disjoint:
  assumes "w < cnt R b (Suc j)" "v < cnt R b (Suc k)" "j \<noteq> k"
  shows "off R b j + w \<noteq> off R b k + v"
proof (cases "j < k")
  case True
  then have "off R b (Suc j) \<le> off R b k"
    by (intro off_mono) simp
  then show ?thesis using assms by (simp add: off_Suc)
next
  case False
  then have "off R b (Suc k) \<le> off R b j"
    using assms(3) by (intro off_mono) simp
  then show ?thesis using assms by (simp add: off_Suc)
qed

lemma up_0 [simp]: "up R 0 M = M"
  by (simp add: up_def)

lemma up_add: "up R (k + d) M = (\<lambda>x. x div R ^ d) ` up R k M"
  by (auto simp: up_def image_image power_add div_mult2_eq)

lemma up_Suc: "up R (Suc k) M = (\<lambda>x. x div R) ` up R k M"
  using up_add [of R k 1 M] by simp

lemma up_less: "M \<subseteq> {..<b} \<Longrightarrow> x \<in> up R k M \<Longrightarrow> x < cnt R b k"
  by (auto simp: up_def intro: cnt_less)

lemma up_eq_mono:
  assumes "up R j M = up R j N" "j \<le> k"
  shows "up R k M = up R k N"
  using assms up_add [of R j "k - j"] by simp

lemma div_less_cnt: "0 < R \<Longrightarrow> x < cnt R b k \<Longrightarrow> x div R < cnt R b (Suc k)"
  by (simp add: cnt_def less_Suc_eq_le power_Suc2 div_mult2_eq div_le_mono del: power_Suc)

section \<open>Words\<close>

lemma trailing_zeros_least:
  fixes w :: "'w::len word"
  assumes "w \<noteq> 0"
  shows "bit w (trailing_zeros w)" "i < trailing_zeros w \<Longrightarrow> \<not> bit w i"
proof -
  let ?xs = "[0..<LENGTH('w)]" and ?P = "\<lambda>i. \<not> bit w i"
  obtain n where n: "bit w n"
    using assms by (metis bit_word_eqI bit_0_eq bot_apply bot_bool_def)
  then have len: "length (takeWhile ?P ?xs) < length ?xs"
    by (metis bit_imp_le_length atLeastLessThan_iff length_takeWhile_le less_le set_upt
        takeWhile_eq_all_conv takeWhile_eq_take take_all_iff zero_le order_refl)
  then show "bit w (trailing_zeros w)"
    using nth_length_takeWhile [OF len] by (simp add: trailing_zeros_def)
  show "\<not> bit w i" if i: "i < trailing_zeros w"
  proof -
    have "takeWhile ?P ?xs ! i \<in> set (takeWhile ?P ?xs)"
      using i by (intro nth_mem) (simp add: trailing_zeros_def)
    moreover have "takeWhile ?P ?xs ! i = i"
      using i len by (simp add: takeWhile_nth trailing_zeros_def)
    ultimately show ?thesis
      by (auto dest: set_takeWhileD)
  qed
qed

lemma trailing_zeros_le: "bit w i \<Longrightarrow> trailing_zeros w \<le> i"
  using trailing_zeros_least(2) [of w i] by (cases "w = 0") (auto simp: not_less [symmetric])

lemma trailing_zeros_less: "w \<noteq> 0 \<Longrightarrow> trailing_zeros w < BITS TYPE('w)"
  for w :: "'w::len word"
  using trailing_zeros_least(1) [of w] by (auto simp: BITS_def dest: bit_imp_le_length)

lemma bit_above:
  "j < BITS TYPE('w) \<Longrightarrow> bit (w AND push_bit n (NOT 0) :: 'w::len word) j \<longleftrightarrow> bit w j \<and> n \<le> j"
  by (auto simp: bit_simps BITS_def)

lemma bit_one:
  "n < BITS TYPE('w) \<Longrightarrow> bit (push_bit n 1 :: 'w::len word) j \<longleftrightarrow> j = n"
  "n < BITS TYPE('w) \<Longrightarrow> bit (2 ^ n :: 'w::len word) j \<longleftrightarrow> j = n"
  by (auto simp: bit_simps BITS_def)

lemma and_one_nonzero:
  fixes w :: "'w::len word"
  assumes "n < BITS TYPE('w)"
  shows "w AND push_bit n 1 \<noteq> 0 \<longleftrightarrow> bit w n"
proof -
  have "bit (w AND push_bit n 1) j \<longleftrightarrow> bit w n \<and> j = n" for j
    using assms by (auto simp: bit_and_iff bit_one)
  then show ?thesis
    by (metis bit_0_eq bit_word_eqI bot_apply bot_bool_def)
qed

definition is_sealed :: "'w::len itself \<Rightarrow> bool" where
  "is_sealed W \<longleftrightarrow> BITS W \<in> {32, 64}"

lemma trailing_zeros_widths: "trailing_zeros (64 :: u32) = 6" "trailing_zeros (32 :: u32) = 5"
  by (simp_all add: trailing_zeros_def upt_conv_Cons)

lemma is_sealed_shift: "is_sealed W \<Longrightarrow> 2 ^ radix_shift W = BITS W"
  by (auto simp: is_sealed_def radix_shift_def trailing_zeros_widths)

lemma is_sealed_BITS: "is_sealed W \<Longrightarrow> 32 \<le> BITS W"
  by (auto simp: is_sealed_def)


section \<open>The hierarchy\<close>

definition level_is :: "'w::len word list \<Rightarrow> nat \<Rightarrow> nat \<Rightarrow> nat set \<Rightarrow> bool" where
  "level_is words b k M \<longleftrightarrow>
    (\<forall>w < cnt (BITS TYPE('w)) b (Suc k). \<forall>j < BITS TYPE('w).
       bit (words ! (off (BITS TYPE('w)) b k + w)) j \<longleftrightarrow> w * BITS TYPE('w) + j \<in> up (BITS TYPE('w)) k M)"

definition bitmap_ok :: "nat \<Rightarrow> 'w::len word list \<Rightarrow> nat set \<Rightarrow> bool" where
  "bitmap_ok b words M \<longleftrightarrow>
    M \<subseteq> {..<b} \<and>
    (if b = 0 then words = []
     else \<exists>h. lives (BITS TYPE('w)) b h \<and> cnt (BITS TYPE('w)) b (Suc h) = 1 \<and>
            length words = off (BITS TYPE('w)) b (Suc h) \<and> (\<forall>k\<le>h. level_is words b k M))"

lemma level_isD:
  fixes words :: "'w::len word list"
  assumes "level_is words b k M" "w < cnt (BITS TYPE('w)) b (Suc k)" "j < BITS TYPE('w)"
  shows "bit (words ! (off (BITS TYPE('w)) b k + w)) j \<longleftrightarrow> w * BITS TYPE('w) + j \<in> up (BITS TYPE('w)) k M"
  using assms by (simp add: level_is_def)

text \<open>The member that stands for position \<open>x\<close> of level \<open>k\<close>.\<close>

lemma level_is_word:
  fixes words :: "'w::len word list"
  assumes "level_is words b k M" "M \<subseteq> {..<b}" "x \<in> up (BITS TYPE('w)) k M"
  shows "bit (words ! (off (BITS TYPE('w)) b k + x div BITS TYPE('w))) (x mod BITS TYPE('w))"
  using level_isD [OF assms(1), of "x div BITS TYPE('w)" "x mod BITS TYPE('w)"] assms
    div_less_cnt [of "BITS TYPE('w)" x b k] up_less [of M b x "BITS TYPE('w)" k]
  by simp

lemma lives_le:
  assumes "0 < R" "cnt R b (Suc h) = 1" "lives R b k"
  shows "k \<le> h"
proof (rule ccontr)
  assume "\<not> k \<le> h"
  then have "cnt R b k \<le> 1"
    using cnt_antimono [of R "Suc h" k b] assms by simp
  then show False
    using assms(3) \<open>\<not> k \<le> h\<close> cnt_pos [of R b k] by (auto simp: lives_def simp del: cnt_pos)
qed

lemma bitmap_okD:
  fixes words :: "'w::len word list"
  assumes "bitmap_ok b words M" "0 < b"
  shows "M \<subseteq> {..<b}"
    "lives (BITS TYPE('w)) b k \<Longrightarrow> level_is words b k M"
    "lives (BITS TYPE('w)) b k \<Longrightarrow> off (BITS TYPE('w)) b (Suc k) \<le> length words"
proof -
  let ?R = "BITS TYPE('w)"
  obtain h where h: "cnt ?R b (Suc h) = 1" "length words = off ?R b (Suc h)" "\<forall>k\<le>h. level_is words b k M"
    using assms by (auto simp: bitmap_ok_def)
  show "M \<subseteq> {..<b}"
    using assms by (simp add: bitmap_ok_def)
  show "level_is words b k M" if "lives ?R b k"
    using lives_le [OF BITS_pos h(1) that] h(3) by simp
  show "off ?R b (Suc k) \<le> length words" if "lives ?R b k"
    using lives_le [OF BITS_pos h(1) that] h(2) off_mono [of "Suc k" "Suc h" ?R b] by simp
qed

section \<open>Searching\<close>

lemma least_in_level:
  fixes words :: "'w::len word list"
  assumes "level_is words b k M" "M \<subseteq> {..<b}" "x \<in> up (BITS TYPE('w)) (Suc k) M"
  defines "w \<equiv> words ! (off (BITS TYPE('w)) b k + x)"
  defines "y \<equiv> x * BITS TYPE('w) + trailing_zeros w"
  shows "w \<noteq> 0" "y \<in> up (BITS TYPE('w)) k M" "y div BITS TYPE('w) = x"
    "z \<in> up (BITS TYPE('w)) k M \<Longrightarrow> z div BITS TYPE('w) = x \<Longrightarrow> y \<le> z"
proof -
  let ?R = "BITS TYPE('w)"
  have x: "x < cnt ?R b (Suc k)"
    using up_less [OF assms(2,3)] .
  have sel: "bit w (z mod ?R)" if "z \<in> up ?R k M" "z div ?R = x" for z
    using level_is_word [OF assms(1,2) that(1)] that(2) by (simp add: w_def)
  show nz: "w \<noteq> 0"
    using assms(3) sel by (fastforce simp: up_Suc)
  show "y \<in> up ?R k M"
    using level_isD [OF assms(1) x, of "trailing_zeros w"] trailing_zeros_less [OF nz]
      trailing_zeros_least(1) [OF nz] by (simp add: w_def y_def)
  show "y div ?R = x"
    using trailing_zeros_less [OF nz] by (simp add: y_def)
  show "y \<le> z" if "z \<in> up ?R k M" "z div ?R = x"
    using trailing_zeros_le [OF sel [OF that]] div_mult_mod_eq [of z ?R] that(2) by (simp add: y_def)
qed

lemma Least_same:
  fixes P Q :: "nat \<Rightarrow> bool"
  assumes "\<And>i. P i \<Longrightarrow> Q i" "P p" "\<And>i q. Q i \<Longrightarrow> P q \<Longrightarrow> i \<le> q \<Longrightarrow> P i"
  shows "(LEAST i. P i) = (LEAST i. Q i)"
proof (rule order_antisym)
  have P: "P (LEAST i. P i)"
    by (rule LeastI [of P, OF assms(2)])
  have Q: "Q (LEAST i. Q i)"
    by (rule LeastI [of Q, OF assms(1) [OF assms(2)]])
  show le: "(LEAST i. Q i) \<le> (LEAST i. P i)"
    by (intro Least_le assms(1) P)
  show "(LEAST i. P i) \<le> (LEAST i. Q i)"
    by (rule Least_le [of P, OF assms(3) [OF Q P le]])
qed

lemma find_down_least:
  fixes words :: "'w::len word list"
  assumes shift: "2 ^ radix_shift TYPE('w) = BITS TYPE('w)" and ok: "bitmap_ok b words M" "0 < b"
    and "lives (BITS TYPE('w)) b k" "off (BITS TYPE('w)) b k = offset"
    and "index * BITS TYPE('w) + trailing_zeros found \<in> up (BITS TYPE('w)) k M" "found \<noteq> 0"
    and "k = 0 \<Longrightarrow> current = words ! index"
  shows "find_down k words b offset index found current =
    (let m = LEAST i. i \<in> M \<and> i div BITS TYPE('w) ^ k = index * BITS TYPE('w) + trailing_zeros found
     in (word_of_nat m + 1, words ! (m div BITS TYPE('w))))"
  using assms(4-)
proof (induction k arbitrary: offset index found current)
  case 0
  let ?x = "index * BITS TYPE('w) + trailing_zeros found"
  have "(LEAST i. i \<in> M \<and> i = ?x) = ?x"
    using 0 by (intro Least_equality) auto
  then show ?case
    using 0 trailing_zeros_less [of found] by simp
next
  case (Suc k)
  let ?R = "BITS TYPE('w)"
  define x where "x = index * ?R + trailing_zeros found"
  define w where "w = words ! (off ?R b k + x)"
  have down: "lives ?R b k"
    using lives_down [OF BITS_pos Suc.prems(1)] by simp
  note least = least_in_level [OF bitmap_okD(2) [OF ok down] bitmap_okD(1) [OF ok] Suc.prems(3), folded x_def, folded w_def]
  have offset: "offset - ((b - 1) div 2 ^ (Suc k * radix_shift TYPE('w)) + 1) = off ?R b k"
    using Suc.prems(2) shift by (simp only: mult.commute [of "Suc k"] power_mult) (simp add: off_Suc cnt_def)
  obtain p where p: "p \<in> M" "p div ?R ^ k = x * ?R + trailing_zeros w"
    using least(2) by (auto simp: up_def)
  have "(LEAST i. i \<in> M \<and> i div ?R ^ k = x * ?R + trailing_zeros w) = (LEAST i. i \<in> M \<and> i div ?R ^ Suc k = x)"
  proof (rule Least_same [where p = p])
    show "i \<in> M \<and> i div ?R ^ Suc k = x" if "i \<in> M \<and> i div ?R ^ k = x * ?R + trailing_zeros w" for i
      using that least(3) by (simp add: power_Suc2 div_mult2_eq del: power_Suc)
    show "p \<in> M \<and> p div ?R ^ k = x * ?R + trailing_zeros w"
      using p by simp
    show "i \<in> M \<and> i div ?R ^ k = x * ?R + trailing_zeros w"
      if i: "i \<in> M \<and> i div ?R ^ Suc k = x" and q: "q \<in> M \<and> q div ?R ^ k = x * ?R + trailing_zeros w" "i \<le> q" for i q
    proof -
      have "i div ?R ^ k \<in> up ?R k M" "i div ?R ^ k div ?R = x"
        using i by (auto simp: up_def power_Suc2 div_mult2_eq simp del: power_Suc)
      from least(4) [OF this] div_le_mono [OF q(2), of "?R ^ k"] q(1) i show ?thesis by simp
    qed
  qed
  moreover have "find_down (Suc k) words b offset index found current = find_down k words b (off ?R b k) x w w"
    by (simp only: find_down.simps Let_def x_def [symmetric] offset w_def)
  ultimately show ?case
    using Suc.IH [OF down refl least(2,1), of w] w_def by (simp add: x_def [symmetric] del: power_Suc)
qed

text \<open>What a search yields: the least member at or after \<open>start\<close>, and the leaf word it is in.\<close>

definition found_at :: "'w::len word list \<Rightarrow> nat set \<Rightarrow> (nat \<Rightarrow> bool) \<Rightarrow> (u32 \<times> 'w word) option" where
  "found_at words M P =
    (if \<exists>i\<in>M. P i
     then let m = LEAST i. i \<in> M \<and> P i in Some (word_of_nat m + 1, words ! (m div BITS TYPE('w)))
     else None)"

lemma found_at_cong:
  assumes "\<And>i. i \<in> M \<Longrightarrow> P i \<longleftrightarrow> Q i"
  shows "found_at words M P = found_at words M Q"
proof -
  have eq: "(\<lambda>i. i \<in> M \<and> P i) = (\<lambda>i. i \<in> M \<and> Q i)"
    using assms by auto
  show ?thesis
    by (simp only: found_at_def Bex_def eq)
qed

lemma le_div_mod:
  fixes a b :: nat
  assumes "0 < r"
  shows "a \<le> b \<longleftrightarrow> a div r < b div r \<or> a div r = b div r \<and> a mod r \<le> b mod r"
proof -
  have "a < b" if "a div r < b div r"
    using that by (meson div_le_mono not_le)
  moreover have "a div r \<le> b div r" if "a \<le> b"
    using that by (rule div_le_mono)
  moreover have "a \<le> b \<longleftrightarrow> a mod r \<le> b mod r" if "a div r = b div r"
    using div_mult_mod_eq [of a r] div_mult_mod_eq [of b r] that by (metis add_le_cancel_left)
  ultimately show ?thesis
    by (auto simp: le_less)
qed

lemma level_find_word:
  fixes words :: "'w::len word list" and start :: nat
  assumes "level_is words b k M" "M \<subseteq> {..<b}" "start < cnt (BITS TYPE('w)) b k"
  defines "index \<equiv> start div BITS TYPE('w)"
  defines "found \<equiv> words ! (off (BITS TYPE('w)) b k + index) AND push_bit (start mod BITS TYPE('w)) (NOT 0)"
  defines "x \<equiv> index * BITS TYPE('w) + trailing_zeros found"
  shows "found = 0 \<Longrightarrow> y \<in> up (BITS TYPE('w)) k M \<Longrightarrow> start \<le> y \<longleftrightarrow> index < y div BITS TYPE('w)"
    "found \<noteq> 0 \<Longrightarrow> x \<in> up (BITS TYPE('w)) k M" "found \<noteq> 0 \<Longrightarrow> start \<le> x"
    "found \<noteq> 0 \<Longrightarrow> y \<in> up (BITS TYPE('w)) k M \<Longrightarrow> start \<le> y \<Longrightarrow> x \<le> y"
proof -
  let ?R = "BITS TYPE('w)" and ?w = "words ! (off (BITS TYPE('w)) b k + index)"
  have index: "index < cnt ?R b (Suc k)"
    using div_less_cnt [OF BITS_pos assms(3)] by (simp add: index_def)
  have sel: "bit found (y mod ?R)" if "y \<in> up ?R k M" "y div ?R = index" "start mod ?R \<le> y mod ?R" for y
    using level_is_word [OF assms(1,2) that(1)] that(2,3)
    by (auto simp: found_def bit_simps dest: bit_imp_le_length)
  show "start \<le> y \<longleftrightarrow> index < y div ?R" if "found = 0" "y \<in> up ?R k M"
    using sel [OF that(2)] that(1) le_div_mod [OF BITS_pos [of "TYPE('w)"], of start y] by (auto simp: index_def)
  have tz: "trailing_zeros found < ?R" "bit ?w (trailing_zeros found)" "start mod ?R \<le> trailing_zeros found"
    if "found \<noteq> 0"
    using trailing_zeros_less [OF that] trailing_zeros_least(1) [OF that] that
      bit_above [of "trailing_zeros found" ?w "start mod ?R", folded found_def] by simp_all
  show "x \<in> up ?R k M" if "found \<noteq> 0"
    using level_isD [OF assms(1) index tz(1) [OF that]] tz(2) [OF that] by (simp add: x_def)
  have x: "x div ?R = index" "x mod ?R = trailing_zeros found" if "found \<noteq> 0"
    using tz(1) [OF that] by (simp_all add: x_def)
  show "start \<le> x" if "found \<noteq> 0"
    using x [OF that] tz [OF that] le_div_mod [OF BITS_pos [of "TYPE('w)"], of start x] by (simp add: index_def)
  show "x \<le> y" if nz: "found \<noteq> 0" and y: "y \<in> up ?R k M" "start \<le> y"
    using le_div_mod [OF BITS_pos [of "TYPE('w)"], of start y] le_div_mod [OF BITS_pos [of "TYPE('w)"], of x y] x [OF nz] y(2)
      trailing_zeros_le [OF sel [OF y(1)]] by (auto simp: index_def [symmetric])
qed

lemma find_up_least:
  fixes words :: "'w::len word list"
  assumes shift: "2 ^ radix_shift TYPE('w) = BITS TYPE('w)"
  shows "bitmap_ok b words M \<Longrightarrow> 0 < b \<Longrightarrow> lives (BITS TYPE('w)) b k \<Longrightarrow> offset = off (BITS TYPE('w)) b k \<Longrightarrow>
    n = cnt (BITS TYPE('w)) b k \<Longrightarrow>
    find_up words b k offset n start = found_at words M (\<lambda>i. start \<le> i div BITS TYPE('w) ^ k)"
proof (induction words b k offset n start rule: find_up.induct)
  case (1 words b k offset n start)
  let ?R = "BITS TYPE('w)"
  define index where "index = start div ?R"
  define found where "found = words ! (off ?R b k + index) AND push_bit (start mod ?R) (NOT 0)"
  have ups: "i div ?R ^ k \<in> up ?R k M" if "i \<in> M" for i
    using that by (auto simp: up_def)
  note sub = bitmap_okD(1) [OF 1(2,3)] and level = bitmap_okD(2) [OF 1(2-4)]
  consider "n \<le> start" | "start < n" "found \<noteq> 0"
    | "start < n" "found = 0" "div_ceil n ?R = 1" | "start < n" "found = 0" "div_ceil n ?R \<noteq> 1"
    by linarith
  then show ?case
  proof cases
    case a: 1
    have "\<not> start \<le> i div ?R ^ k" if "i \<in> M" for i
      using up_less [OF sub ups [OF that]] a 1(6) by simp
    then show ?thesis
      using a by (auto simp: find_up.simps [of words] found_at_def)
  next
    case a: 2
    define x where "x = index * ?R + trailing_zeros found"
    note first = level_find_word [OF level sub, of start, folded index_def, folded found_def, folded x_def]
    have x: "x \<in> up ?R k M" "start \<le> x"
      using first a 1(6) by simp_all
    then obtain p where p: "p \<in> M" "p div ?R ^ k = x"
      by (auto simp: up_def)
    have "(LEAST i. i \<in> M \<and> i div ?R ^ k = x) = (LEAST i. i \<in> M \<and> start \<le> i div ?R ^ k)"
    proof (rule Least_same [where p = p])
      show "i \<in> M \<and> i div ?R ^ k = x"
        if "i \<in> M \<and> start \<le> i div ?R ^ k" "q \<in> M \<and> q div ?R ^ k = x" "i \<le> q" for i q
        using first(4) [OF _ a(2) ups, of i] that div_le_mono [OF that(3), of "?R ^ k"] a 1(6) by auto
    qed (use p x in auto)
    moreover have "find_up words b k offset n start = Some (find_down k words b offset index found (words ! (offset + index)))"
      using a 1(5) by (simp add: find_up.simps [of words] Let_def index_def [symmetric] found_def)
    moreover have "\<exists>i\<in>M. start \<le> i div ?R ^ k"
      using p x by auto
    moreover have "find_down k words b offset index found (words ! (offset + index)) =
        (let m = LEAST i. i \<in> M \<and> i div ?R ^ k = x in (word_of_nat m + 1, words ! (m div ?R)))"
      using find_down_least [OF shift 1(2-4) 1(5) [symmetric] _ a(2), of index] x(1) 1(5)
      by (simp add: x_def [symmetric])
    ultimately show ?thesis
      by (simp add: found_at_def Let_def)
  next
    case a: 3
    have "i div ?R ^ k div ?R = 0" if "i \<in> M" for i
      using div_less_cnt [OF BITS_pos up_less [OF sub ups [OF that]]] div_ceil_cnt [of ?R b k] a 1(6) by simp
    then have "\<not> start \<le> i div ?R ^ k" if "i \<in> M" for i
      using level_find_word(1) [OF level sub, of start "i div ?R ^ k", folded index_def, folded found_def]
        a 1(6) ups that by simp
    then have "found_at words M (\<lambda>i. start \<le> i div ?R ^ k) = None"
      by (auto simp: found_at_def)
    then show ?thesis
      using a 1(5) by (simp add: find_up.simps [of words] Let_def index_def [symmetric] found_def)
  next
    case a: 4
    have n: "div_ceil n ?R = cnt ?R b (Suc k)"
      using div_ceil_cnt [of ?R b k] 1(6) by simp
    have "find_up words b k offset n start =
        find_up words b (Suc k) (offset + div_ceil n ?R) (div_ceil n ?R) (index + 1)"
      using a 1(5) by (simp add: find_up.simps [of words b k] Let_def index_def [symmetric] found_def)
    also have "\<dots> = found_at words M (\<lambda>i. index + 1 \<le> i div ?R ^ Suc k)"
      using 1(1) [OF _ refl refl refl _ refl] a 1(2-6) n
      by (simp add: index_def [symmetric] found_def off_Suc lives_def)
    also have "\<dots> = found_at words M (\<lambda>i. start \<le> i div ?R ^ k)"
      using level_find_word(1) [OF level sub, of start, folded index_def, folded found_def] a 1(6) ups
      by (intro found_at_cong) (simp add: power_Suc2 div_mult2_eq Suc_le_eq del: power_Suc)
    finally show ?thesis .
  qed
qed

lemma level_find_exact:
  fixes words :: "'w::len word list"
  assumes "is_sealed TYPE('w)" "bitmap_ok b words M"
  shows "level_find words b start = found_at words M (\<lambda>i. start \<le> i)"
proof (cases "b = 0")
  case True
  then show ?thesis
    using assms(2) by (simp add: level_find_def bitmap_ok_def found_at_def)
next
  case False
  then show ?thesis
    using find_up_least [OF is_sealed_shift [OF assms(1)] assms(2), of 0 0 b start]
    by (simp add: level_find_def lives_def cnt_0)
qed


section \<open>Writing\<close>

definition written :: "bool \<Rightarrow> nat \<Rightarrow> nat set \<Rightarrow> nat set" where
  "written SET i M = (if SET then insert i M else M - {i})"

lemma bit_written:
  fixes current :: "'w::len word"
  assumes "n < BITS TYPE('w)" "j < BITS TYPE('w)"
  shows "bit (if SET then current OR push_bit n 1 else current AND NOT (push_bit n 1)) j \<longleftrightarrow>
    (if SET then j = n \<or> bit current j else j \<noteq> n \<and> bit current j)"
  using assms by (auto simp: bit_or_iff bit_and_iff bit_not_iff bit_one BITS_def)

lemma level_is_mono: "level_is words b k M \<Longrightarrow> up (BITS TYPE('w)) k M = up (BITS TYPE('w)) k N \<Longrightarrow> level_is words b k N"
  for words :: "'w::len word list"
  by (simp add: level_is_def)

text \<open>One level: its word is stored, and what the summary then has to say.\<close>

lemma write_level:
  fixes words :: "'w::len word list" and index :: nat
  assumes level: "level_is words b k M" and index: "index < cnt (BITS TYPE('w)) b k"
    and N: "up (BITS TYPE('w)) k N = written SET index (up (BITS TYPE('w)) k M)"
    and len: "off (BITS TYPE('w)) b (Suc k) \<le> length words"
  defines "w \<equiv> index div BITS TYPE('w)"
  defines "current \<equiv> words ! (off (BITS TYPE('w)) b k + w)"
  defines "put \<equiv> if SET then current OR push_bit (index mod BITS TYPE('w)) 1
                 else current AND NOT (push_bit (index mod BITS TYPE('w)) 1)"
  defines "words' \<equiv> words[off (BITS TYPE('w)) b k + w := put]"
  shows "level_is words' b k N" "j \<noteq> k \<Longrightarrow> level_is words b j A \<Longrightarrow> level_is words' b j A"
    "words' ! (off (BITS TYPE('w)) b k + w) = put"
proof -
  let ?R = "BITS TYPE('w)"
  have w: "w < cnt ?R b (Suc k)"
    using div_less_cnt [OF BITS_pos index] by (simp add: w_def)
  then have pos: "off ?R b k + w < length words"
    using len by (simp add: off_Suc)
  then show stored: "words' ! (off ?R b k + w) = put"
    by (simp add: words'_def)
  show "level_is words' b k N"
    unfolding level_is_def
  proof (intro allI impI)
    fix v j assume v: "v < cnt ?R b (Suc k)" and j: "j < ?R"
    have pos_eq: "v * ?R + j = index \<longleftrightarrow> v = w \<and> j = index mod ?R"
      using j div_mult_mod_eq [of index ?R] by (auto simp: w_def)
    show "bit (words' ! (off ?R b k + v)) j \<longleftrightarrow> v * ?R + j \<in> up ?R k N"
    proof (cases "v = w")
      case True
      then show ?thesis
        using bit_written [of "index mod ?R" j SET current] level_isD [OF level w j] pos_eq j
        by (auto simp: stored put_def [symmetric] N written_def current_def [symmetric])
    next
      case False
      then show ?thesis
        using level_isD [OF level v j] pos_eq by (auto simp: words'_def N written_def)
    qed
  qed
  show "level_is words' b j A" if "j \<noteq> k" "level_is words b j A"
    using that off_disjoint [THEN not_sym, OF _ w that(1)] by (auto simp: level_is_def words'_def)
qed


lemma up_written_up:
  assumes N: "up R k N = written SET i (up R k M)"
    and empty: "\<not> SET \<Longrightarrow> \<forall>y \<in> up R k N. y div R \<noteq> i div R"
  shows "up R (Suc k) N = written SET (i div R) (up R (Suc k) M)"
  using assms by (cases SET) (auto simp: up_Suc written_def)

lemma level_word_nonzero:
  fixes words :: "'w::len word list"
  assumes "level_is words b k M" "M \<subseteq> {..<b}" "x < cnt (BITS TYPE('w)) b (Suc k)"
  shows "words ! (off (BITS TYPE('w)) b k + x) \<noteq> 0 \<longleftrightarrow> x \<in> up (BITS TYPE('w)) (Suc k) M"
proof
  let ?w = "words ! (off (BITS TYPE('w)) b k + x)"
  assume nz: "?w \<noteq> 0"
  then have "x * BITS TYPE('w) + trailing_zeros ?w \<in> up (BITS TYPE('w)) k M"
    using level_isD [OF assms(1,3) trailing_zeros_less [OF nz]] trailing_zeros_least(1) [OF nz] by simp
  moreover have "(x * BITS TYPE('w) + trailing_zeros ?w) div BITS TYPE('w) = x"
    using trailing_zeros_less [OF nz] by simp
  ultimately show "x \<in> up (BITS TYPE('w)) (Suc k) M"
    by (auto simp: up_Suc intro: rev_image_eqI)
qed (rule least_in_level(1) [OF assms(1,2)])

lemma up_stable:
  assumes "up R k N = written SET i (up R k M)" "i div R \<in> up R (Suc k) (if SET then M else N)"
  shows "up R (Suc k) N = up R (Suc k) M"
  using assms by (cases SET) (auto simp: up_Suc written_def)

lemma level_write_exact:
  fixes words :: "'n::len bit0 word list"
  shows "M \<subseteq> {..<b} \<Longrightarrow> N \<subseteq> {..<b} \<Longrightarrow> lives (BITS TYPE('n bit0)) b k \<Longrightarrow> offset = off (BITS TYPE('n bit0)) b k \<Longrightarrow>
    n = cnt (BITS TYPE('n bit0)) b (Suc k) \<Longrightarrow> index < cnt (BITS TYPE('n bit0)) b k \<Longrightarrow>
    current = words ! (offset + index div BITS TYPE('n bit0)) \<Longrightarrow>
    up (BITS TYPE('n bit0)) k N = written SET index (up (BITS TYPE('n bit0)) k M) \<Longrightarrow>
    \<forall>j. lives (BITS TYPE('n bit0)) b j \<longrightarrow> off (BITS TYPE('n bit0)) b (Suc j) \<le> length words \<and>
      level_is words b j (if j < k then N else M) \<Longrightarrow>
    length (level_write SET words offset n index current) = length words \<and>
    (\<forall>j. lives (BITS TYPE('n bit0)) b j \<longrightarrow> level_is (level_write SET words offset n index current) b j N)"
proof (induction SET words offset n index current arbitrary: k rule: level_write.induct)
  case (1 SET words offset n index current)
  let ?R = "BITS TYPE('n bit0)"
  define w where "w = index div ?R"
  define put where "put = (if SET then current OR push_bit (index mod ?R) 1
                          else current AND NOT (push_bit (index mod ?R) 1))"
  define words' where "words' = words[off ?R b k + w := put]"
  define stable where "stable \<longleftrightarrow> (if SET then current \<noteq> 0 else put \<noteq> 0)"
  have level: "level_is words b k M" and len: "off ?R b (Suc k) \<le> length words"
    using 1(4,10) by auto
  have current: "words ! (off ?R b k + w) = current"
    using 1(5,8) by (simp add: w_def)
  note put_ok = write_level [OF level 1(7,9) len, folded w_def, unfolded current, folded put_def, folded words'_def]
  have w: "w < cnt ?R b (Suc k)"
    using div_less_cnt [OF BITS_pos 1(7)] by (simp add: w_def)
  have stable: "stable \<longleftrightarrow> w \<in> up ?R (Suc k) (if SET then M else N)"
    using level_word_nonzero [OF level 1(2) w] level_word_nonzero [OF put_ok(1) 1(3) w]
    by (simp add: stable_def current put_ok(3))
  have below: "level_is words' b j (if j < Suc k then N else M)" if "lives ?R b j" for j
    using put_ok(1) put_ok(2) [of j] 1(10) that by (cases "j = k") (auto simp: less_Suc_eq)
  have unfold: "level_write SET words offset n index current =
      (if stable \<or> n \<le> 1 then words'
       else level_write SET words' (offset + n) (div_ceil n ?R) w (words' ! (offset + n + w div ?R)))"
    using 1(5) by (simp add: level_write.simps [of SET words] Let_def w_def put_def words'_def stable_def)
  consider "stable" | "\<not> stable" "n = 1" | "\<not> stable" "n \<noteq> 1"
    by blast
  then show ?case
  proof cases
    case a: 1
    have "up ?R (Suc k) N = up ?R (Suc k) M"
      using up_stable [OF 1(9)] a stable by (simp add: w_def)
    then have "level_is words' b j N" if "lives ?R b j" for j
      using below [OF that] level_is_mono [of words' b j M N] up_eq_mono [of ?R "Suc k" M N j]
      by (auto split: if_splits)
    then show ?thesis
      using a by (simp add: unfold words'_def)
  next
    case a: 2
    then have "level_is words' b j N" if "lives ?R b j" for j
      using below [OF that] lives_le [OF BITS_pos _ that, of k] 1(6) by simp
    then show ?thesis
      using a unfold by (simp add: words'_def)
  next
    case a: 3
    have up: "up ?R (Suc k) N = written SET w (up ?R (Suc k) M)"
      unfolding w_def
    proof (rule up_written_up [OF 1(9)])
      show "\<forall>y\<in>up ?R k N. y div ?R \<noteq> index div ?R" if "\<not> SET"
        using a(1) stable that by (auto simp: w_def up_Suc image_iff)
    qed
    have go: "level_write SET words offset n index current =
        level_write SET words' (offset + n) (div_ceil n ?R) w (words' ! (offset + n + w div ?R))"
    proof -
      have "\<not> (stable \<or> n \<le> 1)"
        using a w 1(6) by simp
      then show ?thesis
        by (simp only: unfold if_False)
    qed
    have "length (level_write SET words' (offset + n) (div_ceil n ?R) w (words' ! (offset + n + w div ?R))) = length words' \<and>
        (\<forall>j. lives ?R b j \<longrightarrow> level_is (level_write SET words' (offset + n) (div_ceil n ?R) w (words' ! (offset + n + w div ?R))) b j N)"
    proof (rule 1(1) [of w _ put words' stable "Suc k"])
      show "\<forall>j. lives ?R b j \<longrightarrow> off ?R b (Suc j) \<le> length words' \<and> level_is words' b j (if j < Suc k then N else M)"
        using below 1(10) by (simp add: words'_def)
    qed (use 1(2-6) a len w up in \<open>simp_all add: w_def put_def words'_def stable_def off_Suc div_ceil_cnt lives_def\<close>)
    then show ?thesis
      by (simp only: go) (simp add: words'_def)
  qed
qed


lemma bitmap_okI:
  fixes words words' :: "'n::len bit0 word list"
  assumes "bitmap_ok b words M" "0 < b" "N \<subseteq> {..<b}" "length words' = length words"
    and "\<And>k. lives (BITS TYPE('n bit0)) b k \<Longrightarrow> level_is words' b k N"
  shows "bitmap_ok b words' N"
proof -
  obtain h where h: "lives (BITS TYPE('n bit0)) b h" "cnt (BITS TYPE('n bit0)) b (Suc h) = 1"
      "length words = off (BITS TYPE('n bit0)) b (Suc h)"
    using assms(1,2) by (auto simp: bitmap_ok_def)
  moreover have "level_is words' b k N" if "k \<le> h" for k
    using assms(5) lives_down [OF BITS_pos h(1) that] .
  ultimately show ?thesis
    using assms(2-4) by (auto simp: bitmap_ok_def)
qed

lemma level_write_leaf_exact:
  fixes words :: "'n::len bit0 word list"
  assumes "bitmap_ok b words M" "i < b" "current = words ! (i div BITS TYPE('n bit0))"
  shows "bitmap_ok b (level_write_leaf SET words b i current) (written SET i M)"
proof -
  let ?R = "BITS TYPE('n bit0)"
  have b: "0 < b" using assms(2) by simp
  note ok = bitmap_okD [OF assms(1) b]
  have N: "written SET i M \<subseteq> {..<b}"
    using ok(1) assms(2) by (auto simp: written_def)
  have "length (level_write SET words 0 (div_ceil b ?R) i current) = length words \<and>
      (\<forall>j. lives ?R b j \<longrightarrow> level_is (level_write SET words 0 (div_ceil b ?R) i current) b j (written SET i M))"
    using assms(2,3) ok(2,3) b
    by (intro level_write_exact [where M = M and k = 0] ok(1) N) (auto simp: lives_def div_ceil_bits cnt_0)
  then show ?thesis
    using bitmap_okI [OF assms(1) b N] by (simp add: level_write_leaf_def)
qed

lemma level_update_exact:
  assumes "bitmap_ok b words M" "i < b"
  shows "bitmap_ok b (level_update SET words b i) (written SET i M)"
  unfolding level_update_def by (intro level_write_leaf_exact assms refl)

lemma row_contains_exact:
  fixes words :: "'n::len bit0 word list"
  assumes "bitmap_ok b words M" "row_index row < b"
  shows "row_contains words row \<longleftrightarrow> row_index row \<in> M"
proof -
  have "bit (words ! (row_index row div BITS TYPE('n bit0))) (row_index row mod BITS TYPE('n bit0)) \<longleftrightarrow> row_index row \<in> M"
    using level_isD [OF bitmap_okD(2) [OF assms(1), of 0], of "row_index row div BITS TYPE('n bit0)" "row_index row mod BITS TYPE('n bit0)"]
      assms(2) div_less_cnt [OF BITS_pos [of "TYPE('n bit0)"], of "row_index row" b 0] by (simp add: lives_def cnt_0)
  then show ?thesis
    by (simp only: row_contains_def Let_def and_one_nonzero [OF mod_less_divisor [OF BITS_pos]])
qed

lemma access_is_empty_exact:
  fixes words :: "'n::len bit0 word list"
  assumes "bitmap_ok b words M"
  shows "access_is_empty words \<longleftrightarrow> M = {}"
proof (cases "b = 0")
  case True
  then show ?thesis
    using assms by (auto simp: bitmap_ok_def access_is_empty_def)
next
  case False
  let ?R = "BITS TYPE('n bit0)"
  obtain h where h: "lives ?R b h" "cnt ?R b (Suc h) = 1" "length words = off ?R b (Suc h)" "level_is words b h M"
    using assms False by (auto simp: bitmap_ok_def)
  have ne: "words \<noteq> []"
    using h(2,3) by (auto simp: off_Suc)
  moreover have "List.last words = words ! (off ?R b h + 0)"
    using h(2,3) by (simp add: off_Suc last_conv_nth [OF ne])
  moreover have "words ! (off ?R b h + 0) \<noteq> 0 \<longleftrightarrow> 0 \<in> up ?R (Suc h) M"
    using assms h(2) by (intro level_word_nonzero [OF h(4)]) (simp_all add: bitmap_ok_def)
  moreover have "0 \<in> up ?R (Suc h) M \<longleftrightarrow> M \<noteq> {}"
    using up_less [of M b _ ?R "Suc h"] assms h(2) by (fastforce simp: bitmap_ok_def up_def)
  ultimately show ?thesis
    by (simp add: access_is_empty_def)
qed


section \<open>Popping\<close>

definition rotated :: "nat set \<Rightarrow> nat \<Rightarrow> nat option" where
  "rotated M start =
    (if M = {} then None
     else if \<exists>i\<in>M. start \<le> i then Some (LEAST i. i \<in> M \<and> start \<le> i) else Some (LEAST i. i \<in> M))"

lemma rotated_in: "rotated M start = Some i \<Longrightarrow> i \<in> M"
proof -
  assume eq: "rotated M start = Some i"
  then obtain m where m: "m \<in> M"
    by (auto simp: rotated_def split: if_splits)
  have "(LEAST i. i \<in> M) \<in> M"
    by (rule LeastI [of "\<lambda>i. i \<in> M", OF m])
  moreover have "(LEAST i. i \<in> M \<and> start \<le> i) \<in> M" if "\<exists>i\<in>M. start \<le> i"
    using that LeastI_ex [of "\<lambda>i. i \<in> M \<and> start \<le> i"] by auto
  ultimately show ?thesis
    using eq by (auto simp: rotated_def split: if_splits)
qed

lemma found_at_None: "found_at words M P = None \<longleftrightarrow> (\<forall>i\<in>M. \<not> P i)"
  by (auto simp: found_at_def Let_def)

lemma found_at_Some:
  fixes words :: "'n::len bit0 word list"
  assumes "\<exists>i\<in>M. P i"
  shows "found_at words M P =
    Some (word_of_nat (LEAST i. i \<in> M \<and> P i) + 1, words ! ((LEAST i. i \<in> M \<and> P i) div BITS TYPE('n bit0)))"
  using assms by (simp add: found_at_def Let_def)

lemma unat_position: "i < 2 ^ 32 - 1 \<Longrightarrow> unat (word_of_nat i + 1 :: u32) = i + 1"
  by (subst unat_add_fits) (simp_all add: unat_of_nat_fits)

text \<open>The search for the member to pop, wrapping around once.\<close>

lemma find_rotated:
  fixes words :: "'n::len bit0 word list"
  assumes "is_sealed TYPE('n bit0)" "bitmap_ok b words M"
  shows "(case level_find words b start of Some f \<Rightarrow> Some f | None \<Rightarrow> if start = 0 then None else level_find words b 0) =
    map_option (\<lambda>i. (word_of_nat i + 1, words ! (i div BITS TYPE('n bit0)))) (rotated M start)"
proof -
  consider "\<exists>i\<in>M. start \<le> i" | "M \<noteq> {}" "\<forall>i\<in>M. \<not> start \<le> i" | "M = {}"
    by blast
  then show ?thesis
  proof cases
    case 1
    then show ?thesis
      by (auto simp: level_find_exact [OF assms] found_at_Some rotated_def)
  next
    case 2
    then have "start \<noteq> 0" by auto
    moreover have "found_at words M (\<lambda>i. True) =
        Some (word_of_nat (LEAST i. i \<in> M) + 1, words ! ((LEAST i. i \<in> M) div BITS TYPE('n bit0)))"
      using 2(1) by (subst found_at_Some) auto
    moreover have "found_at words M (\<lambda>i. start \<le> i) = None"
      using 2(2) by (simp add: found_at_None)
    ultimately show ?thesis
      using 2 by (auto simp: level_find_exact [OF assms] rotated_def)
  next
    case 3
    then show ?thesis
      by (auto simp: level_find_exact [OF assms] found_at_def rotated_def)
  qed
qed

lemma bitmap_pop_from_exact:
  fixes words :: "'n::len bit0 word list"
  assumes sealed: "is_sealed TYPE('n bit0)" and ok: "bitmap_ok (unat (sb_bits s)) words M"
  shows "rotated M start = None \<Longrightarrow> bitmap_pop_from words s start = None"
    "rotated M start = Some i \<Longrightarrow> \<exists>words'. bitmap_pop_from words s start = Some (words', word_of_nat i + 1) \<and>
       bitmap_ok (unat (sb_bits s)) words' (M - {i})"
proof -
  note find = find_rotated [OF sealed ok, of start]
  show "bitmap_pop_from words s start = None" if "rotated M start = None"
    by (simp only: bitmap_pop_from_def Let_def find that) simp
  assume i: "rotated M start = Some i"
  have "M \<subseteq> {..<unat (sb_bits s)}"
    using ok by (simp add: bitmap_ok_def)
  then have less: "i < unat (sb_bits s)"
    using rotated_in [OF i] by auto
  then have "unat (word_of_nat i + 1 :: u32) = i + 1"
    using unat_bound [of "sb_bits s"] by (intro unat_position) (simp; linarith)
  then show "\<exists>words'. bitmap_pop_from words s start = Some (words', word_of_nat i + 1) \<and>
       bitmap_ok (unat (sb_bits s)) words' (M - {i})"
    using level_write_leaf_exact [OF ok less refl, of False]
    by (simp only: bitmap_pop_from_def Let_def find i) (simp add: written_def)
qed


section \<open>Filling\<close>

lemma cnt_next: "cnt R (cnt R b (Suc 0)) k = cnt R b (Suc k)"
  by (simp add: cnt_def div_mult2_eq)

lemma off_next: "off R b (Suc k) = cnt R b (Suc 0) + off R (cnt R b (Suc 0)) k"
  by (simp add: off_def sum.lessThan_Suc_shift cnt_next del: sum.lessThan_Suc)

lemma up_next: "up R (Suc k) M = up R k (up R (Suc 0) M)"
  by (auto simp: up_def image_image div_mult2_eq)

lemma bitmap_cons:
  fixes leaf rest :: "'n::len bit0 word list"
  assumes b: "0 < b" and M: "M \<subseteq> {..<b}" and len: "length leaf = cnt (BITS TYPE('n bit0)) b (Suc 0)"
    and leaf: "\<And>w j. w < cnt (BITS TYPE('n bit0)) b (Suc 0) \<Longrightarrow> j < BITS TYPE('n bit0) \<Longrightarrow> bit (leaf ! w) j \<longleftrightarrow> w * BITS TYPE('n bit0) + j \<in> M"
    and rest: "if cnt (BITS TYPE('n bit0)) b (Suc 0) = 1 then rest = []
               else bitmap_ok (cnt (BITS TYPE('n bit0)) b (Suc 0)) rest (up (BITS TYPE('n bit0)) (Suc 0) M)"
  shows "bitmap_ok b (leaf @ rest) M"
proof -
  let ?R = "BITS TYPE('n bit0)"
  have zero: "level_is (leaf @ rest) b 0 M"
    using leaf len by (simp add: level_is_def nth_append)
  show ?thesis
  proof (cases "cnt ?R b (Suc 0) = 1")
    case True
    then have "length (leaf @ rest) = off ?R b (Suc 0)"
      using rest len by (simp add: off_def)
    with zero True b M show ?thesis
      unfolding bitmap_ok_def by (intro conjI) (auto simp: lives_def intro!: exI [of _ 0])
  next
    case False
    let ?c = "cnt ?R b (Suc 0)"
    obtain h where h: "cnt ?R ?c (Suc h) = 1" "length rest = off ?R ?c (Suc h)" "lives ?R ?c h"
        "\<forall>k\<le>h. level_is rest ?c k (up ?R (Suc 0) M)"
      using rest False by (auto simp: bitmap_ok_def)
    have "level_is (leaf @ rest) b (Suc k) M" if "k \<le> h" for k
      using h(4) [rule_format, OF that] len
      by (simp add: level_is_def off_next [of ?R b k] cnt_next up_next [of ?R k M] nth_append)
    then have "level_is (leaf @ rest) b k M" if "k \<le> Suc h" for k
      using zero that by (cases k) auto
    moreover have "lives ?R b (Suc h)"
      using h(3) False by (cases h) (auto simp: lives_def cnt_next)
    ultimately show ?thesis
      using h(1,2) b M len by (auto simp: bitmap_ok_def cnt_next off_next [of ?R b "Suc h"] intro!: exI [of _ "Suc h"])
  qed
qed

lemma bit_fill_value:
  fixes w j :: nat
  assumes "j < BITS TYPE('n bit0)"
  shows "bit (fill_value Full b w :: 'n::len bit0 word) j \<longleftrightarrow> w * BITS TYPE('n bit0) + j < b"
    "\<not> bit (fill_value Empty b w :: 'n::len bit0 word) j"
proof -
  have part: "bit (word_of_nat (2 ^ n - 1) :: 'n bit0 word) j \<longleftrightarrow> j < n" for n
    using assms by (simp add: mask_eq_exp_minus_1 [symmetric] bit_simps BITS_def)
  have whole: "bit (- 1 :: 'n bit0 word) j"
    using assms by (simp add: BITS_def)
  show "bit (fill_value Full b w :: 'n bit0 word) j \<longleftrightarrow> w * BITS TYPE('n bit0) + j < b"
  proof (cases "BITS TYPE('n bit0) \<le> b - w * BITS TYPE('n bit0)")
    case True
    then have "(fill_value Full b w :: 'n bit0 word) = - 1"
      by (simp add: fill_value_def Let_def)
    moreover have "w * BITS TYPE('n bit0) + j < b"
      using True assms by linarith
    ultimately show ?thesis
      using whole by simp
  next
    case False
    then have "(fill_value Full b w :: 'n bit0 word) = word_of_nat (2 ^ (b - w * BITS TYPE('n bit0)) - 1)"
      by (simp add: fill_value_def Let_def)
    then show ?thesis
      using part [of "b - w * BITS TYPE('n bit0)"] by (simp only: less_diff_conv add.commute)
  qed
qed (simp add: fill_value_def Let_def)

definition filled :: "bitmap_fill \<Rightarrow> nat \<Rightarrow> nat set" where
  "filled fill b = (case fill of Empty \<Rightarrow> {} | Full \<Rightarrow> {..<b})"

lemma up_filled:
  assumes "0 < R" "0 < b"
  shows "up R (Suc 0) (filled fill b) = filled fill (cnt R b (Suc 0))"
proof -
  have "x \<in> (\<lambda>i. i div R) ` {..<b}" if "x < Suc ((b - Suc 0) div R)" for x
  proof (rule image_eqI [of _ _ "x * R"])
    have "x * R \<le> b - Suc 0"
      using that assms(1) by (simp add: less_Suc_eq_le less_eq_div_iff_mult_less_eq)
    then show "x * R \<in> {..<b}"
      using assms(2) by simp
  qed (use assms in simp)
  moreover have "x div R \<le> (b - Suc 0) div R" if "x < b" for x
    using that by (intro div_le_mono) simp
  ultimately show ?thesis
    using assms by (auto simp: filled_def up_def cnt_def less_Suc_eq_le split: bitmap_fill.split)
qed

lemma fill_levels_exact: "bitmap_ok b (fill_levels fill b :: 'n::len bit0 word list) (filled fill b)"
proof (induction fill b rule: fill_levels.induct [where ?'a = 'n])
  case (1 fill b)
  let ?R = "BITS TYPE('n bit0)"
  show ?case
  proof (cases "b = 0")
    case True
    then show ?thesis
      by (auto simp: bitmap_ok_def fill_levels.simps [of fill 0] filled_def split: bitmap_fill.split)
  next
    case False
    then have c: "div_ceil b ?R = cnt ?R b (Suc 0)"
      by (simp add: div_ceil_bits)
    have unfold: "(fill_levels fill b :: 'n bit0 word list) =
        map (fill_value fill b) [0..<cnt ?R b (Suc 0)] @
        (if cnt ?R b (Suc 0) = 1 then [] else fill_levels fill (cnt ?R b (Suc 0)))"
      using False by (simp add: fill_levels.simps [of fill b] c Let_def)
    show ?thesis
      unfolding unfold
    proof (rule bitmap_cons)
      show "if cnt ?R b (Suc 0) = 1 then (if cnt ?R b (Suc 0) = 1 then [] else fill_levels fill (cnt ?R b (Suc 0))) = []
          else bitmap_ok (cnt ?R b (Suc 0)) (if cnt ?R b (Suc 0) = 1 then [] else (fill_levels fill (cnt ?R b (Suc 0)) :: 'n bit0 word list))
             (up ?R (Suc 0) (filled fill b))"
        using 1(1) [OF False] False c by (simp add: up_filled)
    qed (use False in \<open>auto simp: filled_def bit_fill_value simp del: len_bit0 split: bitmap_fill.splits\<close>)
  qed
qed


section \<open>The number of words\<close>

function summaries :: "nat \<Rightarrow> nat \<Rightarrow> nat" where
  "summaries R n = (if n = 0 \<or> R \<le> 1 then 0 else n + 1 + summaries R (n div R))"
  by pat_completeness auto
termination
  by (relation "measure snd") auto

declare summaries.simps [simp del]

lemma summaries_le: "32 \<le> R \<Longrightarrow> summaries R n \<le> 2 * n"
proof (induction R n rule: summaries.induct)
  case (1 R n)
  show ?case
  proof (cases "n = 0 \<or> R \<le> 1")
    case False
    then have "summaries R (n div R) \<le> 2 * (n div R)"
      using 1 by simp
    moreover have "n div R \<le> n div 32"
      using 1(2) by (simp add: div_le_mono2)
    moreover have "n + 1 + 2 * (n div 32) \<le> 2 * n"
      using False by linarith
    moreover have "summaries R n = n + 1 + summaries R (n div R)"
      using False by (simp add: summaries.simps [of R n])
    ultimately show ?thesis
      by linarith
  qed (simp add: summaries.simps [of R n])
qed

lemma length_fill_levels:
  "0 < b \<Longrightarrow> length (fill_levels fill b :: 'n::len bit0 word list) =
    1 + summaries (BITS TYPE('n bit0)) ((b - 1) div BITS TYPE('n bit0))"
proof (induction fill b rule: fill_levels.induct [where ?'a = 'n])
  case (1 fill b)
  let ?R = "BITS TYPE('n bit0)"
  have c: "div_ceil b ?R = (b - 1) div ?R + 1"
    using 1(2) div_ceil_bits [of ?R b] by (simp add: cnt_def)
  show ?case
  proof (cases "(b - 1) div ?R = 0")
    case True
    then show ?thesis
      using 1(2) by (simp add: fill_levels.simps [of fill b] c summaries.simps [of ?R 0])
  next
    case False
    then have "length (fill_levels fill (div_ceil b ?R) :: 'n bit0 word list) = 1 + summaries ?R ((b - 1) div ?R div ?R)"
      using 1(1) [of "div_ceil b ?R"] 1(2) c by simp
    then show ?thesis
      using False 1(2) BITS_bit0 [of "TYPE('n bit0)"]
      by (simp add: fill_levels.simps [of fill b] c summaries.simps [of ?R "(b - Suc 0) div ?R"] Let_def)
  qed
qed

lemma shape_words_exact:
  assumes "is_sealed W"
  shows "unat words + summaries (BITS W) (unat n) < 2 ^ 32 \<Longrightarrow>
    unat (shape_words W n words) = unat words + summaries (BITS W) (unat n)"
  using assms
proof (induction W n words rule: shape_words.induct)
  case (1 W n words)
  show ?case
  proof (cases "n = 0")
    case True
    then show ?thesis
      by (simp add: shape_words.simps [of W 0] summaries.simps [of _ 0])
  next
    case False
    let ?m = "drop_bit (radix_shift W) n"
    have m: "unat ?m = unat n div BITS W"
      by (simp only: unat_drop_bit is_sealed_shift [OF 1(3)])
    have sums: "summaries (BITS W) (unat n) = unat n + 1 + summaries (BITS W) (unat ?m)"
      using False is_sealed_BITS [OF 1(3)] by (simp add: summaries.simps [of _ "unat n"] m unat_gt_0)
    then have "unat words + (unat n + 1) < 2 ^ 32"
      using 1(2) by linarith
    moreover from this have "unat (n + 1) = unat n + 1"
      by (subst unat_add_fits) simp_all
    ultimately have "unat (words + (n + 1)) = unat words + (unat n + 1)"
      by (subst unat_add_fits) simp_all
    then show ?thesis
      using 1(1) [OF False _ 1(3)] 1(2) False sums by (simp add: shape_words.simps [of W n] unat_gt_0)
  qed
qed

lemma shape_new_exact:
  assumes "is_sealed (W :: 'n::len bit0 itself)"
  shows "unat (sb_words (shape_new W bits)) = length (shape_fill (shape_new W bits) fill :: 'n bit0 word list)"
    "sb_bits (shape_new W bits) = bits"
proof -
  let ?n = "(bits - 1) :: u32"
  show "sb_bits (shape_new W bits) = bits"
    by (simp add: shape_new_def)
  show "unat (sb_words (shape_new W bits)) = length (shape_fill (shape_new W bits) fill :: 'n bit0 word list)"
  proof (cases "bits = 0")
    case True
    then show ?thesis
      by (simp add: shape_new_def shape_fill_def fill_levels.simps [of fill 0])
  next
    case False
    have n: "unat (drop_bit (radix_shift W) ?n) = (unat bits - 1) div BITS W"
      using False by (simp add: unat_drop_bit is_sealed_shift [OF assms] unat_pred)
    have "(unat bits - 1) div BITS W \<le> (unat bits - 1) div 32"
      using is_sealed_BITS [OF assms] by (simp add: div_le_mono2)
    then have "1 + summaries (BITS W) ((unat bits - 1) div BITS W) < 2 ^ 32"
      using summaries_le [OF is_sealed_BITS [OF assms], of "(unat bits - 1) div BITS W"] unat_bound [of bits]
      by simp
    moreover have "BITS W = BITS TYPE('n bit0)"
      by (simp add: BITS_def)
    ultimately show ?thesis
      using shape_words_exact [OF assms, of 1 "drop_bit (radix_shift W) ?n"] n False
        length_fill_levels [of "unat bits" fill, where ?'n = 'n]
      by (simp add: shape_new_def shape_fill_def unat_gt_0)
  qed
qed


lemma shape_words_bound:
  assumes "is_sealed (W :: 'n::len bit0 itself)" "bits \<noteq> 0"
  shows "unat (sb_words (shape_new W bits)) \<le> 1 + 2 * ((unat bits - 1) div BITS W)"
proof -
  have "BITS W = BITS TYPE('n bit0)"
    by (simp add: BITS_def)
  then show ?thesis
    using summaries_le [OF is_sealed_BITS [OF assms(1)], of "(unat bits - 1) div BITS W"]
      length_fill_levels [of "unat bits" Full, where ?'n = 'n] assms(2)
    by (simp add: shape_new_exact(1) [OF assms(1), of bits Full] shape_new_exact(2) [OF assms(1)] shape_fill_def unat_gt_0)
qed

lemma bitmap_ok_length:
  fixes words words' :: "'n::len bit0 word list"
  assumes "bitmap_ok b words M" "bitmap_ok b words' N"
  shows "length words = length words'"
proof (cases "b = 0")
  case False
  let ?R = "BITS TYPE('n bit0)"
  obtain h where h: "lives ?R b h" "cnt ?R b (Suc h) = 1" "length words = off ?R b (Suc h)"
    using assms(1) False by (auto simp: bitmap_ok_def)
  obtain g where g: "lives ?R b g" "cnt ?R b (Suc g) = 1" "length words' = off ?R b (Suc g)"
    using assms(2) False by (auto simp: bitmap_ok_def)
  have "h = g"
    using lives_le [OF BITS_pos h(2) g(1)] lives_le [OF BITS_pos g(2) h(1)] by simp
  then show ?thesis
    using h(3) g(3) by simp
qed (use assms in \<open>simp add: bitmap_ok_def\<close>)

section \<open>Programs on a bitmap\<close>

datatype bitmap_op =
    BitWrite bool nat
  | BitTest nat
  | BitTake nat
  | BitTakeFirst
  | BitSearch nat
  | BitPopFrom nat
  | BitVacant

datatype bitmap_out =
    Written
  | Outside bitmap_error
  | Answer bool
  | Position "nat option"

definition bitmap_exec :: "shape_bits \<Rightarrow> 'n::len bit0 word list \<Rightarrow> bitmap_op \<Rightarrow> bitmap_out \<times> 'n bit0 word list" where
  "bitmap_exec s words op =
    (case op of
       BitWrite SET i \<Rightarrow>
         (case row_try_new s i of Inl e \<Rightarrow> (Outside e, words) | Inr row \<Rightarrow> (Written, row_update SET words s row))
     | BitTest i \<Rightarrow>
         (case row_try_new s i of Inl e \<Rightarrow> (Outside e, words) | Inr row \<Rightarrow> (Answer (row_contains words row), words))
     | BitTake i \<Rightarrow>
         (case row_try_new s i of Inl e \<Rightarrow> (Outside e, words)
          | Inr row \<Rightarrow> (case row_occupied words row of Inl row \<Rightarrow> (Position None, words)
              | Inr row \<Rightarrow> (let (words, row) = row_remove words s row in (Position (Some (row_index row)), words))))
     | BitTakeFirst \<Rightarrow>
         (case access_first words s of None \<Rightarrow> (Position None, words)
          | Some row \<Rightarrow> (let (words, row) = row_remove words s row in (Position (Some (row_index row)), words)))
     | BitSearch start \<Rightarrow> (Position (map_option row_index (access_find words s start)), words)
     | BitPopFrom start \<Rightarrow>
         (case access_pop_from words s start of None \<Rightarrow> (Position None, words)
          | Some (words, row) \<Rightarrow> (Position (Some (row_index row)), words))
     | BitVacant \<Rightarrow> (Answer (access_is_empty words), words))"

definition next_member :: "nat \<Rightarrow> nat set \<Rightarrow> nat \<Rightarrow> nat option" where
  "next_member b M start = List.find (\<lambda>i. i \<in> M) [start..<b]"

definition removed :: "nat set \<Rightarrow> nat option \<Rightarrow> bitmap_out \<times> nat set" where
  "removed M p = (Position p, case p of None \<Rightarrow> M | Some i \<Rightarrow> M - {i})"

definition bitmap_spec :: "nat \<Rightarrow> nat set \<Rightarrow> bitmap_op \<Rightarrow> bitmap_out \<times> nat set" where
  "bitmap_spec b M op =
    (case op of
       BitWrite SET i \<Rightarrow>
         if i < b then (Written, if SET then insert i M else M - {i}) else (Outside \<lparr>be_index = i, be_capacity = b\<rparr>, M)
     | BitTest i \<Rightarrow> (if i < b then Answer (i \<in> M) else Outside \<lparr>be_index = i, be_capacity = b\<rparr>, M)
     | BitTake i \<Rightarrow>
         if i < b then removed M (if i \<in> M then Some i else None) else (Outside \<lparr>be_index = i, be_capacity = b\<rparr>, M)
     | BitTakeFirst \<Rightarrow> removed M (next_member b M 0)
     | BitSearch start \<Rightarrow> (Position (next_member b M start), M)
     | BitPopFrom start \<Rightarrow>
         removed M (if b = 0 then None
           else case next_member b M (start mod b) of Some i \<Rightarrow> Some i | None \<Rightarrow> next_member b M 0)
     | BitVacant \<Rightarrow> (Answer (M = {}), M))"

fun bitmap_run :: "shape_bits \<Rightarrow> 'n::len bit0 word list \<Rightarrow> bitmap_op list \<Rightarrow> bitmap_out list" where
  "bitmap_run s words [] = []"
| "bitmap_run s words (p # ps) = (let (out, words) = bitmap_exec s words p in out # bitmap_run s words ps)"

fun bitmap_spec_run :: "nat \<Rightarrow> nat set \<Rightarrow> bitmap_op list \<Rightarrow> bitmap_out list" where
  "bitmap_spec_run b M [] = []"
| "bitmap_spec_run b M (p # ps) = (let (out, M) = bitmap_spec b M p in out # bitmap_spec_run b M ps)"

lemma next_member_least:
  assumes "M \<subseteq> {..<b}"
  shows "next_member b M start = (if \<exists>i\<in>M. start \<le> i then Some (LEAST i. i \<in> M \<and> start \<le> i) else None)"
proof (cases "next_member b M start")
  case None
  then have "\<not> start \<le> i" if "i \<in> M" for i
    using that assms by (auto simp: next_member_def find_None_iff)
  then show ?thesis
    using None by auto
next
  case (Some i)
  then obtain n where n: "n < b - start" "start + n \<in> M" "i = start + n" "\<forall>j<n. start + j \<notin> M"
    by (auto simp: next_member_def find_Some_iff)
  have "(LEAST i. i \<in> M \<and> start \<le> i) = i"
  proof (rule Least_equality)
    show "i \<le> y" if "y \<in> M \<and> start \<le> y" for y
    proof (rule ccontr)
      assume "\<not> i \<le> y"
      then have "y - start < n" "start + (y - start) = y"
        using that n(3) by auto
      then show False
        using n(4) that by metis
    qed
  qed (use n in auto)
  moreover have "\<exists>i\<in>M. start \<le> i"
    using n(2) by (rule bexI [rotated]) simp
  ultimately show ?thesis
    by (simp only: Some if_True)
qed

lemma rotated_next:
  assumes "M \<subseteq> {..<b}"
  shows "rotated M start = (case next_member b M start of Some i \<Rightarrow> Some i | None \<Rightarrow> next_member b M 0)"
  unfolding next_member_least [OF assms] rotated_def by auto

lemma next_memberD: "next_member b M start = Some i \<Longrightarrow> i \<in> M \<and> i < b"
  by (auto simp: next_member_def find_Some_iff)

lemma row_new_index: "i < unat (bits :: u32) \<Longrightarrow> row_index (row_new i) = i"
  using unat_bound [of bits] by (simp add: row_index_def row_new_def unat_position)

lemma row_clamp_index:
  assumes "sb_bits s \<noteq> 0"
  shows "row_index (row_clamp s i) = min i (unat (sb_bits s) - 1)"
proof -
  have "0 < unat (sb_bits s)"
    using assms by (simp add: unat_gt_0)
  then have "min i (unat (sb_bits s) - 1) < unat (sb_bits s)"
    by linarith
  then show ?thesis
    unfolding row_clamp_def by (rule row_new_index)
qed

lemma access_find_exact:
  fixes words :: "'n::len bit0 word list"
  assumes "is_sealed TYPE('n bit0)" "bitmap_ok (unat (sb_bits s)) words M"
  shows "access_find words s start = map_option row_new (next_member (unat (sb_bits s)) M start)"
proof -
  have "M \<subseteq> {..<unat (sb_bits s)}"
    using assms(2) by (simp add: bitmap_ok_def)
  then show ?thesis
    by (simp add: access_find_def level_find_exact [OF assms] found_at_def next_member_least row_new_def Let_def)
qed


lemma bitmap_exec_exact:
  fixes words :: "'n::len bit0 word list"
  assumes sealed: "is_sealed TYPE('n bit0)" and ok: "bitmap_ok (unat (sb_bits s)) words M"
  shows "\<exists>words'. bitmap_exec s words p = (fst (bitmap_spec (unat (sb_bits s)) M p), words') \<and>
    bitmap_ok (unat (sb_bits s)) words' (snd (bitmap_spec (unat (sb_bits s)) M p))"
proof -
  let ?b = "unat (sb_bits s)"
  have sub: "M \<subseteq> {..<?b}"
    using ok by (simp add: bitmap_ok_def)
  note test = row_contains_exact [OF ok] and find = access_find_exact [OF sealed ok]
  have take: "bitmap_ok ?b (fst (row_remove words s (row_new i))) (M - {i})"
    "row_index (snd (row_remove words s (row_new i))) = i" if "i < ?b" for i
    using level_update_exact [OF ok that, of False] row_new_index [OF that]
    by (simp_all add: row_remove_def row_update_def written_def)
  show ?thesis
  proof (cases p)
    case (BitWrite SET i)
    then show ?thesis
      using ok level_update_exact [OF ok, of i SET]
      by (auto simp: bitmap_exec_def bitmap_spec_def row_try_new_def Let_def row_update_def row_new_index written_def)
  next
    case (BitTest i)
    then show ?thesis
      using ok test [of "row_new i"]
      by (auto simp: bitmap_exec_def bitmap_spec_def row_try_new_def Let_def row_new_index)
  next
    case (BitTake i)
    then show ?thesis
      using ok test [of "row_new i"] take [of i]
      by (auto simp: bitmap_exec_def bitmap_spec_def row_try_new_def row_occupied_def Let_def row_new_index
          removed_def split_beta)
  next
    case BitTakeFirst
    then show ?thesis
      using ok take next_memberD [of ?b M 0]
      by (cases "next_member ?b M 0")
        (auto simp: bitmap_exec_def bitmap_spec_def access_first_def find removed_def split_beta Let_def)
  next
    case (BitSearch start)
    then show ?thesis
      using ok next_memberD [of ?b M start]
      by (cases "next_member ?b M start") (auto simp: bitmap_exec_def bitmap_spec_def find row_new_index)
  next
    case (BitPopFrom start)
    show ?thesis
    proof (cases "?b = 0")
      case False
      let ?p = "rotated M (start mod ?b)"
      note pop = bitmap_pop_from_exact [OF sealed ok, of "start mod ?b"]
      have spec: "bitmap_spec ?b M p = removed M ?p"
        using False by (simp add: bitmap_spec_def BitPopFrom rotated_next [OF sub])
      have row: "row_index (word_of_nat i + 1) = i" if "?p = Some i" for i
        using row_new_index [of i "sb_bits s"] rotated_in [OF that] sub by (auto simp: row_new_def)
      have run: "bitmap_exec s words p =
          (case bitmap_pop_from words s (start mod ?b) of None \<Rightarrow> (Position None, words)
           | Some (words, row) \<Rightarrow> (Position (Some (row_index row)), words))"
        using False by (simp add: bitmap_exec_def BitPopFrom access_pop_from_def)
      show ?thesis
        using pop ok row by (cases ?p) (auto simp: run spec removed_def)
    qed (use ok BitPopFrom in \<open>auto simp: bitmap_exec_def bitmap_spec_def access_pop_from_def removed_def\<close>)
  next
    case BitVacant
    then show ?thesis
      using ok by (auto simp: bitmap_exec_def bitmap_spec_def access_is_empty_exact [OF ok])
  qed
qed

lemma bitmap_run_exact:
  fixes words :: "'n::len bit0 word list"
  assumes "is_sealed TYPE('n bit0)"
  shows "bitmap_ok (unat (sb_bits s)) words M \<Longrightarrow> bitmap_run s words ps = bitmap_spec_run (unat (sb_bits s)) M ps"
proof (induction ps arbitrary: words M)
  case (Cons p ps)
  then show ?case
    using bitmap_exec_exact [OF assms Cons.prems, of p] by (auto simp: split_beta)
qed simp

text \<open>C22: over either width, any program of writes, tests, removals, searches and pops on a bitmap that
  was filled empty or full gives what it gives on a plain set: a search finds the least member at or
  after its start, a pop wraps around once, an emptiness query reads the root, and an index outside the
  domain is rejected with its capacity.
\<close>

theorem bitmap_refines_set:
  fixes W :: "'n::len bit0 itself"
  assumes "is_sealed W"
  shows "bitmap_run (shape_new W bits) (shape_fill (shape_new W bits) fill :: 'n bit0 word list) ps =
    bitmap_spec_run (unat bits) (filled fill (unat bits)) ps"
proof -
  have "is_sealed TYPE('n bit0)"
    using assms by (simp add: is_sealed_def BITS_def)
  from bitmap_run_exact [OF this, of "shape_new W bits" _ "filled fill (unat bits)"] show ?thesis
    using fill_levels_exact [of "unat bits" fill] by (simp add: shape_fill_def shape_new_exact(2) [OF assms])
qed

theorem bitmap_refines_set_witness:
  "bitmap_run (shape_new TYPE(32) 70) (shape_fill (shape_new TYPE(32) 70) Empty :: u32 list)
     [BitWrite True 69, BitWrite True 3, BitPopFrom 4, BitPopFrom 4, BitVacant, BitTest 70] =
   [Written, Written, Position (Some 69), Position (Some 3), Answer True, Outside \<lparr>be_index = 70, be_capacity = 70\<rparr>]"
proof -
  have "is_sealed TYPE(32)"
    by (simp add: is_sealed_def BITS_def)
  then show ?thesis
    by (subst bitmap_refines_set)
      (simp_all add: bitmap_spec_def filled_def removed_def next_member_def upt_conv_Cons insert_Diff_if)
qed

text \<open>the word count that a shape computes in 32-bit arithmetic is exactly the length of the
  hierarchy it fills, for every domain size, and a clamped row is the requested position or the last.
\<close>

theorem bitmap_shape_exact:
  fixes W :: "'n::len bit0 itself"
  assumes "is_sealed W"
  shows "unat (sb_words (shape_new W bits)) = length (shape_fill (shape_new W bits) fill :: 'n bit0 word list) \<and>
    shape_capacity (shape_new W bits) = unat bits \<and>
    (bits \<noteq> 0 \<longrightarrow> row_index (row_clamp (shape_new W bits) i) = min i (unat bits - 1))"
  using shape_new_exact [OF assms] row_clamp_index [of "shape_new W bits"] by (simp add: shape_capacity_def)

theorem bitmap_shape_exact_witness:
  "unat (sb_words (shape_new TYPE(64) 4294967295)) = length (shape_fill (shape_new TYPE(64) 4294967295) Full :: u64 list)"
  using bitmap_shape_exact [of "TYPE(64)" 4294967295 Full 0] by (simp add: is_sealed_def BITS_def)

end
