(* ===== verification/O3_Set.thy ===== *)
theory O3_Set
  imports O3_Bitmap_Proofs O3_Layout
begin

text \<open>
  Fixed-domain sets (src/src/depot/index/set/, src/src/depot/index/domain.rs and ordinal.rs, counts
  from src/src/depot/capacity/mod.rs). One packed block of words holds \<open>N\<close> cursors and then \<open>N\<close>
  planes, each a bitmap of the same domain. A planar set exposes its planes independently; a disjoint one
  only moves memberships between them, through entries that own what they removed.

  An ordinal is its raw word, of any width. The block's cells are its words, so that an operation
  which stores returns the state; an entry is its row, with the plane it was removed from.
\<close>

section \<open>Domains\<close>

definition count_try_index :: "usize \<Rightarrow> usize \<Rightarrow> 'e \<Rightarrow> 'e + u32" where
  "count_try_index n maximum error =
    (if 4294967295 < n \<or> (n \<noteq> 0 \<and> maximum < n - 1) then Inl error else Inr (ucast n))"

definition count_try_count :: "usize \<Rightarrow> 'e \<Rightarrow> 'e + u32" where
  "count_try_count n error = count_try_index n 4294967295 error"

definition count_try_narrow :: "usize \<Rightarrow> 'e \<Rightarrow> 'e + u32" where
  "count_try_narrow n error = (if n \<le> 4294967295 then Inr (ucast n) else Inl error)"

record count_error =
  requested :: usize

definition count_try_from :: "usize \<Rightarrow> count_error + u32" where
  "count_try_from n = count_try_count n \<lparr>requested = n\<rparr>"

definition count_try_nonzero :: "usize \<Rightarrow> count_error + u32" where
  "count_try_nonzero n = count_try_narrow n \<lparr>requested = n\<rparr>"

text \<open>A nonzero count bounded by a const generic.\<close>

definition limit_MAX :: "usize \<Rightarrow> usize" where
  "limit_MAX m = (if 4294967295 < m then 4294967295 else m)"

definition limit_new :: "usize \<Rightarrow> usize \<Rightarrow> u32 option" where
  "limit_new m n = (if n = 0 \<or> limit_MAX m < n then None else Some (saturating_add 1 (ucast n - 1)))"

text \<open>The largest value of an ordinal's raw width, as \<open>Word::MAX\<close>.\<close>

definition raw_MAX :: "'r::len itself \<Rightarrow> usize" where
  "raw_MAX R = ucast (- 1 :: 'r word)"

definition ordinal_offset :: "'r::len word \<Rightarrow> nat" where
  "ordinal_offset i = unat (ucast i :: usize)"

definition ordinal_new :: "nat \<Rightarrow> 'r::len word" where
  "ordinal_new offset = ucast (word_of_nat offset :: usize)"

definition domain_try_new :: "'r::len itself \<Rightarrow> usize \<Rightarrow> count_error + u32" where
  "domain_try_new R n = count_try_index n (raw_MAX R) \<lparr>requested = n\<rparr>"

section \<open>Storage\<close>

record set_state =
  set_shape :: shape_bits
  set_block :: "usize list"

definition extent_try_new :: "nat \<Rightarrow> u32 \<Rightarrow> alloc_overflow + shape_bits" where
  "extent_try_new N domain =
    (let shape = shape_new TYPE(64) domain
     in if 4294967295 < N \<or> (unat (sb_bits shape) \<noteq> 0 \<and> (2 ^ 64 - 1 - N) div N < unat (sb_words shape))
        then Inl Overflow else Inr shape)"

definition extent_len :: "nat \<Rightarrow> shape_bits \<Rightarrow> nat" where
  "extent_len N shape = (if unat (sb_bits shape) = 0 then 0 else N + N * unat (sb_words shape))"

text \<open>
  Initializing the unpublished block: an uninitialized cell is \<open>None\<close>. Each plane stores the words its
  fill yields, counted from the plane's first cell.
\<close>

definition store_from :: "nat \<Rightarrow> 'a list \<Rightarrow> 'a option list \<Rightarrow> 'a option list" where
  "store_from first xs block = fold (\<lambda>(word, x) b. b[first + word := Some x]) (zip [0..<length xs] xs) block"

definition extent_cells :: "nat \<Rightarrow> shape_bits \<Rightarrow> bitmap_fill list \<Rightarrow> usize option list" where
  "extent_cells N shape fill =
    (let block = replicate (extent_len N shape) None
     in if unat (sb_bits shape) = 0 then block
        else fold (\<lambda>(plane, f). store_from (N + plane * unat (sb_words shape)) (shape_fill shape f))
               (zip [0..<N] fill)
               (fold (\<lambda>cursor b. b[cursor := Some 0]) [0..<N] block))"

definition extent_try_allocate ::
  "(layout \<Rightarrow> bool) \<Rightarrow> nat \<Rightarrow> shape_bits \<Rightarrow> bitmap_fill list \<Rightarrow> alloc_error + usize list" where
  "extent_try_allocate grant N shape fill =
    (case layout_try_layout \<lparr>ty_size = 8, ty_align = 8\<rparr> (word_of_nat (extent_len N shape)) of
       Inl Overflow \<Rightarrow> Inl Error_Overflow
     | Inr l \<Rightarrow>
        (case layout_try_allocate grant l of
           Inl Exhausted \<Rightarrow> Inl Error_Exhausted
         | Inr allocated \<Rightarrow> Inr (map the (extent_cells N shape fill))))"

definition set_try_new ::
  "(layout \<Rightarrow> bool) \<Rightarrow> nat \<Rightarrow> u32 \<Rightarrow> bitmap_fill list \<Rightarrow> alloc_error + set_state" where
  "set_try_new grant N domain fill =
    (case extent_try_new N domain of
       Inl Overflow \<Rightarrow> Inl Error_Overflow
     | Inr shape \<Rightarrow>
        (case extent_try_allocate grant N shape fill of
           Inl e \<Rightarrow> Inl e
         | Inr block \<Rightarrow> Inr \<lparr>set_shape = shape, set_block = block\<rparr>))"

section \<open>Planes\<close>

definition plane_words :: "nat \<Rightarrow> set_state \<Rightarrow> nat \<Rightarrow> usize list" where
  "plane_words N st plane =
    (let words = unat (sb_words (set_shape st)) in take words (drop (N + plane * words) (set_block st)))"

definition view_words :: "nat \<Rightarrow> set_state \<Rightarrow> nat \<Rightarrow> usize list" where
  "view_words N st plane = (if unat (sb_bits (set_shape st)) = 0 then [] else plane_words N st plane)"

text \<open>What the cells of a plane hold after its slice of words was written through.\<close>

definition plane_put :: "nat \<Rightarrow> set_state \<Rightarrow> nat \<Rightarrow> usize list \<Rightarrow> set_state" where
  "plane_put N st plane ws =
    (let first = N + plane * unat (sb_words (set_shape st))
     in st\<lparr>set_block := take first (set_block st) @ ws @ drop (first + length ws) (set_block st)\<rparr>)"

definition plane_update :: "bool \<Rightarrow> nat \<Rightarrow> set_state \<Rightarrow> nat \<Rightarrow> u32 \<Rightarrow> set_state" where
  "plane_update SET N st plane row =
    plane_put N st plane (row_update SET (plane_words N st plane) (set_shape st) row)"

definition set_cursor :: "set_state \<Rightarrow> nat \<Rightarrow> usize" where
  "set_cursor st plane = set_block st ! plane"

definition set_advance :: "set_state \<Rightarrow> nat \<Rightarrow> u32 \<Rightarrow> set_state" where
  "set_advance st plane row =
    (let next = row_index row + 1
     in st\<lparr>set_block := (set_block st)[plane := if next = unat (sb_bits (set_shape st)) then 0 else word_of_nat next]\<rparr>)"

section \<open>Operations\<close>

definition set_capacity :: "set_state \<Rightarrow> nat" where
  "set_capacity st = shape_capacity (set_shape st)"

definition set_is_empty :: "nat \<Rightarrow> set_state \<Rightarrow> nat \<Rightarrow> bool" where
  "set_is_empty N st plane = access_is_empty (view_words N st plane)"

definition set_contains :: "nat \<Rightarrow> set_state \<Rightarrow> nat \<Rightarrow> 'r::len word \<Rightarrow> bool" where
  "set_contains N st plane index =
    (case row_try_new (set_shape st) (ordinal_offset index) of
       Inl _ \<Rightarrow> False | Inr row \<Rightarrow> row_contains (plane_words N st plane) row)"

definition set_clear :: "set_state \<Rightarrow> set_state" where
  "set_clear st = st\<lparr>set_block := map (\<lambda>_. 0) (set_block st)\<rparr>"

definition set_try_entry :: "set_state \<Rightarrow> 'r::len word \<Rightarrow> bitmap_error + u32" where
  "set_try_entry st index = row_try_new (set_shape st) (ordinal_offset index)"

definition entry_set :: "nat \<Rightarrow> set_state \<Rightarrow> u32 \<Rightarrow> nat \<Rightarrow> set_state" where
  "entry_set N st row plane = plane_update True N st plane row"

definition set_entry_clear :: "nat \<Rightarrow> set_state \<Rightarrow> u32 \<Rightarrow> nat \<Rightarrow> set_state" where
  "set_entry_clear N st row plane = plane_update False N st plane row"

definition entry_index :: "u32 \<Rightarrow> 'r::len word" where
  "entry_index row = ordinal_new (row_index row)"

text \<open>An entry of a removed membership: its row and the plane it came from.\<close>

record taken =
  tk_row :: u32
  tk_plane :: nat

definition entry_new :: "set_state \<Rightarrow> nat \<Rightarrow> u32 \<Rightarrow> set_state \<times> taken" where
  "entry_new st plane row = (set_advance st plane row, \<lparr>tk_row = row, tk_plane = plane\<rparr>)"

definition entry_restore :: "nat \<Rightarrow> set_state \<Rightarrow> taken \<Rightarrow> set_state" where
  "entry_restore N st e = plane_update True N st (tk_plane e) (tk_row e)"

definition entry_insert :: "nat \<Rightarrow> set_state \<Rightarrow> taken \<Rightarrow> nat \<Rightarrow> set_state" where
  "entry_insert N st e target = plane_update True N st target (tk_row e)"

definition entry_take_front :: "nat \<Rightarrow> set_state \<Rightarrow> nat \<Rightarrow> (set_state \<times> taken) option" where
  "entry_take_front N st plane =
    (if unat (sb_bits (set_shape st)) = 0 then None
     else (case bitmap_pop_from (view_words N st plane) (set_shape st) (unat (set_cursor st plane)) of
             None \<Rightarrow> None
           | Some (ws, row) \<Rightarrow> Some (entry_new (plane_put N st plane ws) plane row)))"

definition plane_find :: "nat \<Rightarrow> set_state \<Rightarrow> nat \<Rightarrow> 'r::len word \<Rightarrow> u32 option" where
  "plane_find N st plane start = access_find (view_words N st plane) (set_shape st) (ordinal_offset start)"

definition plane_pop_from :: "nat \<Rightarrow> set_state \<Rightarrow> nat \<Rightarrow> 'r::len word \<Rightarrow> (set_state \<times> taken) option" where
  "plane_pop_from N st plane start =
    (case access_pop_from (view_words N st plane) (set_shape st) (ordinal_offset start) of
       None \<Rightarrow> None
     | Some (ws, row) \<Rightarrow> Some (entry_new (plane_put N st plane ws) plane row))"

section \<open>Disjoint sets\<close>

definition set_try_disjoint :: "(layout \<Rightarrow> bool) \<Rightarrow> nat \<Rightarrow> u32 \<Rightarrow> nat \<Rightarrow> alloc_error + set_state" where
  "set_try_disjoint grant N domain initial =
    set_try_new grant N domain (map (\<lambda>id. if id = initial then Full else Empty) [0..<N])"

definition disjoint_take :: "nat \<Rightarrow> set_state \<Rightarrow> nat \<Rightarrow> (set_state \<times> taken) option" where
  "disjoint_take N st plane = entry_take_front N st plane"

definition disjoint_take_from :: "nat \<Rightarrow> set_state \<Rightarrow> nat \<Rightarrow> 'r::len word \<Rightarrow> (set_state \<times> taken) option" where
  "disjoint_take_from N st plane start =
    (case access_pop_from (view_words N st plane) (set_shape st) (ordinal_offset start) of
       None \<Rightarrow> None
     | Some (ws, row) \<Rightarrow> Some (entry_new (plane_put N st plane ws) plane row))"

end
