(* ===== verification/O3_Set_Proofs.thy ===== *)
theory O3_Set_Proofs
  imports O3_Set O3_Layout_Proofs
begin

text \<open>
  A packed set as a family of sets with one cursor each: construction fills the planes and fails only
  where it must, every operation acts on the plane it names and leaves the others alone, and the
  memberships of a disjoint set are never duplicated.
\<close>

section \<open>The packed block\<close>

definition set_ok :: "nat \<Rightarrow> set_state \<Rightarrow> (nat \<Rightarrow> nat set) \<Rightarrow> (nat \<Rightarrow> nat) \<Rightarrow> bool" where
  "set_ok N st Ms cur \<longleftrightarrow>
    (let b = unat (sb_bits (set_shape st))
     in length (set_block st) = extent_len N (set_shape st) \<and>
        (\<forall>p<N. bitmap_ok b (view_words N st p) (Ms p)) \<and>
        (b \<noteq> 0 \<longrightarrow> (\<forall>p<N. unat (set_cursor st p) = cur p \<and> cur p < b)))"

abbreviation bits_of :: "set_state \<Rightarrow> nat" where
  "bits_of st \<equiv> unat (sb_bits (set_shape st))"

abbreviation words_of :: "set_state \<Rightarrow> nat" where
  "words_of st \<equiv> unat (sb_words (set_shape st))"

lemma plane_range: "p < N \<Longrightarrow> N + p * w + w \<le> N + N * (w :: nat)"
proof -
  assume "p < N"
  then have "Suc p * w \<le> N * w"
    by (intro mult_le_mono1) simp
  then show ?thesis by simp
qed

lemma plane_words_length:
  "length (set_block st) = N + N * words_of st \<Longrightarrow> p < N \<Longrightarrow> length (plane_words N st p) = words_of st"
  using plane_range [of p N "words_of st"] by (simp add: plane_words_def Let_def)

lemma plane_words_nth:
  "length (set_block st) = N + N * words_of st \<Longrightarrow> p < N \<Longrightarrow> i < words_of st \<Longrightarrow>
    plane_words N st p ! i = set_block st ! (N + p * words_of st + i)"
  using plane_range [of p N "words_of st"] by (simp add: plane_words_def Let_def)

lemma plane_put_nth:
  assumes "length (set_block st) = N + N * words_of st" "p < N" "length ws = words_of st" "i < length (set_block st)"
  shows "set_block (plane_put N st p ws) ! i =
    (if N + p * words_of st \<le> i \<and> i < N + p * words_of st + words_of st then ws ! (i - (N + p * words_of st)) else set_block st ! i)"
  using assms plane_range [of p N "words_of st"] by (auto simp: plane_put_def Let_def nth_append)

lemma plane_put_frame:
  assumes "length (set_block st) = N + N * words_of st" "p < N" "length ws = words_of st"
  shows "set_shape (plane_put N st p ws) = set_shape st"
    "length (set_block (plane_put N st p ws)) = length (set_block st)"
    "plane_words N (plane_put N st p ws) p = ws"
    "q < N \<Longrightarrow> q \<noteq> p \<Longrightarrow> plane_words N (plane_put N st p ws) q = plane_words N st q"
    "c < N \<Longrightarrow> set_cursor (plane_put N st p ws) c = set_cursor st c"
proof -
  let ?st = "plane_put N st p ws" and ?w = "words_of st"
  note range = plane_range [of _ N ?w]
  show shape: "set_shape ?st = set_shape st"
    by (simp add: plane_put_def Let_def)
  show len: "length (set_block ?st) = length (set_block st)"
    using assms range [of p] by (simp add: plane_put_def Let_def)
  note nth = plane_put_nth [OF assms]
  show "plane_words N ?st p = ws"
    using assms shape len range [of p] nth
    by (intro nth_equalityI) (simp_all add: plane_words_length plane_words_nth)
  show "plane_words N ?st q = plane_words N st q" if q: "q < N" "q \<noteq> p"
  proof (intro nth_equalityI)
    fix i assume "i < length (plane_words N ?st q)"
    then have i: "i < ?w"
      using q assms shape len by (simp add: plane_words_length)
    have outside: "\<not> (N + p * ?w \<le> N + q * ?w + i \<and> N + q * ?w + i < N + p * ?w + ?w)"
    proof (cases "q < p")
      case True
      then have "Suc q * ?w \<le> p * ?w" by (intro mult_le_mono1) simp
      then show ?thesis using i by simp
    next
      case False
      then have "Suc p * ?w \<le> q * ?w" using q by (intro mult_le_mono1) simp
      then show ?thesis by simp
    qed
    have "N + q * ?w + i < length (set_block st)"
      using i q assms(1) range [of q] by simp
    from nth [OF this] have "set_block ?st ! (N + q * ?w + i) = set_block st ! (N + q * ?w + i)"
      by (simp only: outside if_False)
    then show "plane_words N ?st q ! i = plane_words N st q ! i"
      using i q assms shape len by (simp add: plane_words_nth)
  qed (use q assms shape len in \<open>simp add: plane_words_length\<close>)
  show "set_cursor ?st c = set_cursor st c" if "c < N"
    using that assms(1) nth [of c] by (simp add: set_cursor_def)
qed

lemma set_advance_frame:
  assumes "length (set_block st) = N + N * words_of st" "p < N"
  shows "set_shape (set_advance st p row) = set_shape st"
    "length (set_block (set_advance st p row)) = length (set_block st)"
    "q < N \<Longrightarrow> plane_words N (set_advance st p row) q = plane_words N st q"
    "c < N \<Longrightarrow> set_cursor (set_advance st p row) c =
      (if c = p then if row_index row + 1 = bits_of st then 0 else word_of_nat (row_index row + 1) else set_cursor st c)"
  using assms
  by (auto simp: set_advance_def Let_def set_cursor_def plane_words_def drop_update_cancel nth_list_update)


section \<open>Operations\<close>

lemma set_okD:
  assumes "set_ok N st Ms cur"
  shows "p < N \<Longrightarrow> bitmap_ok (bits_of st) (view_words N st p) (Ms p)"
    "bits_of st \<noteq> 0 \<Longrightarrow> length (set_block st) = N + N * words_of st"
    "bits_of st \<noteq> 0 \<Longrightarrow> p < N \<Longrightarrow> unat (set_cursor st p) = cur p"
    "bits_of st \<noteq> 0 \<Longrightarrow> p < N \<Longrightarrow> cur p < bits_of st"
  using assms by (auto simp: set_ok_def Let_def extent_len_def)

lemma set_ok_sub: "set_ok N st Ms cur \<Longrightarrow> p < N \<Longrightarrow> Ms p \<subseteq> {..<bits_of st}"
  using set_okD(1) [of N st Ms cur p] by (simp add: bitmap_ok_def)

lemma set_okI:
  assumes "bits_of st \<noteq> 0" "length (set_block st) = N + N * words_of st"
    and "\<And>p. p < N \<Longrightarrow> bitmap_ok (bits_of st) (plane_words N st p) (Ms p)"
    and "\<And>p. p < N \<Longrightarrow> unat (set_cursor st p) = cur p \<and> cur p < bits_of st"
  shows "set_ok N st Ms cur"
  using assms by (auto simp: set_ok_def Let_def extent_len_def view_words_def)

lemma plane_put_ok:
  assumes ok: "set_ok N st Ms cur" and b: "bits_of st \<noteq> 0" and p: "p < N"
    and ws: "bitmap_ok (bits_of st) ws M"
  shows "set_ok N (plane_put N st p ws) (Ms(p := M)) cur" "set_shape (plane_put N st p ws) = set_shape st"
proof -
  have words: "bitmap_ok (bits_of st) (plane_words N st q) (Ms q)" if "q < N" for q
    using set_okD(1) [OF ok that] b by (simp add: view_words_def)
  note len = set_okD(2) [OF ok b]
  have "length ws = words_of st"
    using bitmap_ok_length [OF ws words [OF p]] plane_words_length [OF len p] by simp
  note frame = plane_put_frame [OF len p this]
  show "set_shape (plane_put N st p ws) = set_shape st"
    by (rule frame(1))
  show "set_ok N (plane_put N st p ws) (Ms(p := M)) cur"
  proof (rule set_okI)
    show "bitmap_ok (bits_of (plane_put N st p ws)) (plane_words N (plane_put N st p ws) q) ((Ms(p := M)) q)" if "q < N" for q
      using words ws that by (cases "q = p") (simp_all add: frame)
  qed (use b len frame set_okD(3,4) [OF ok b] in simp_all)
qed

lemma plane_update_ok:
  assumes ok: "set_ok N st Ms cur" and p: "p < N" and i: "row_index row < bits_of st"
  shows "set_ok N (plane_update SET N st p row) (Ms(p := written SET (row_index row) (Ms p))) cur"
    "set_shape (plane_update SET N st p row) = set_shape st"
proof -
  have b: "bits_of st \<noteq> 0" using i by simp
  have "bitmap_ok (bits_of st) (row_update SET (plane_words N st p) (set_shape st) row) (written SET (row_index row) (Ms p))"
    using level_update_exact [OF _ i] set_okD(1) [OF ok p] b by (simp add: row_update_def view_words_def)
  from plane_put_ok [OF ok b p this] show
    "set_ok N (plane_update SET N st p row) (Ms(p := written SET (row_index row) (Ms p))) cur"
    "set_shape (plane_update SET N st p row) = set_shape st"
    by (simp_all add: plane_update_def)
qed

lemma plane_update_at:
  assumes "set_ok N st Ms cur" "p < N" "i < bits_of st"
  shows "set_ok N (plane_update SET N st p (row_new i)) (Ms(p := written SET i (Ms p))) cur"
    "set_shape (plane_update SET N st p (row_new i)) = set_shape st"
  using plane_update_ok [OF assms(1,2), of "row_new i" SET] assms(3) by (simp_all add: row_new_index [OF assms(3)])

definition turned :: "nat \<Rightarrow> nat \<Rightarrow> nat" where
  "turned b i = (if i + 1 = b then 0 else i + 1)"

lemma set_advance_ok:
  assumes ok: "set_ok N st Ms cur" and p: "p < N" and i: "row_index row < bits_of st"
  shows "set_ok N (set_advance st p row) Ms (cur(p := turned (bits_of st) (row_index row)))"
    "set_shape (set_advance st p row) = set_shape st"
proof -
  have b: "bits_of st \<noteq> 0" using i by simp
  note len = set_okD(2) [OF ok b]
  note frame = set_advance_frame [where row = row, OF len p]
  show "set_shape (set_advance st p row) = set_shape st"
    by (rule frame(1))
  have "unat (word_of_nat (row_index row + 1) :: usize) = row_index row + 1"
    using i unat_bound [of "sb_bits (set_shape st)"] by (intro unat_of_nat_fits) simp
  then show "set_ok N (set_advance st p row) Ms (cur(p := turned (bits_of st) (row_index row)))"
    using set_okD [OF ok] b i len
    by (intro set_okI) (auto simp: frame turned_def view_words_def)
qed

text \<open>Popping a plane from a start, by either caller.\<close>

lemma plane_pop_ok:
  assumes ok: "set_ok N st Ms cur" and b: "bits_of st \<noteq> 0" and p: "p < N"
  shows "rotated (Ms p) start = None \<Longrightarrow> bitmap_pop_from (view_words N st p) (set_shape st) start = None"
    "rotated (Ms p) start = Some i \<Longrightarrow>
      \<exists>ws st'. bitmap_pop_from (view_words N st p) (set_shape st) start = Some (ws, row_new i) \<and>
        entry_new (plane_put N st p ws) p (row_new i) = (st', \<lparr>tk_row = row_new i, tk_plane = p\<rparr>) \<and>
        set_shape st' = set_shape st \<and> row_index (row_new i) = i \<and> i \<in> Ms p \<and> i < bits_of st \<and>
        set_ok N st' (Ms(p := Ms p - {i})) (cur(p := turned (bits_of st) i))"
proof -
  have sealed: "is_sealed TYPE(64)"
    by (simp add: is_sealed_def BITS_def)
  note pop = bitmap_pop_from_exact [OF sealed set_okD(1) [OF ok p], of start]
  show "bitmap_pop_from (view_words N st p) (set_shape st) start = None" if "rotated (Ms p) start = None"
    using pop(1) that .
  assume i: "rotated (Ms p) start = Some i"
  then have mem: "i \<in> Ms p" "i < bits_of st"
    using rotated_in [OF i] set_ok_sub [OF ok p] by auto
  obtain ws where ws: "bitmap_pop_from (view_words N st p) (set_shape st) start = Some (ws, row_new i)"
      "bitmap_ok (bits_of st) ws (Ms p - {i})"
    using pop(2) [OF i] by (auto simp: row_new_def)
  note put = plane_put_ok [OF ok b p ws(2)]
  have index: "row_index (row_new i) = i"
    using row_new_index [OF mem(2)] .
  have "row_index (row_new i) < bits_of (plane_put N st p ws)"
    using index mem(2) put(2) by simp
  from set_advance_ok [OF put(1) p this] show
    "\<exists>ws st'. bitmap_pop_from (view_words N st p) (set_shape st) start = Some (ws, row_new i) \<and>
        entry_new (plane_put N st p ws) p (row_new i) = (st', \<lparr>tk_row = row_new i, tk_plane = p\<rparr>) \<and>
        set_shape st' = set_shape st \<and> row_index (row_new i) = i \<and> i \<in> Ms p \<and> i < bits_of st \<and>
        set_ok N st' (Ms(p := Ms p - {i})) (cur(p := turned (bits_of st) i))"
    using ws(1) index mem put(2) by (auto simp: entry_new_def)
qed

lemma entry_take_front_ok:
  assumes ok: "set_ok N st Ms cur" and p: "p < N"
  shows "rotated (Ms p) (cur p) = None \<Longrightarrow> entry_take_front N st p = None"
    "rotated (Ms p) (cur p) = Some i \<Longrightarrow>
      \<exists>st'. entry_take_front N st p = Some (st', \<lparr>tk_row = row_new i, tk_plane = p\<rparr>) \<and>
        set_shape st' = set_shape st \<and> row_index (row_new i) = i \<and> i \<in> Ms p \<and> i < bits_of st \<and>
        set_ok N st' (Ms(p := Ms p - {i})) (cur(p := turned (bits_of st) i))"
proof -
  show "entry_take_front N st p = None" if "rotated (Ms p) (cur p) = None"
    using plane_pop_ok(1) [OF ok _ p that] set_okD(3) [OF ok _ p] by (auto simp: entry_take_front_def)
  assume i: "rotated (Ms p) (cur p) = Some i"
  then have b: "bits_of st \<noteq> 0"
    using rotated_in [OF i] set_ok_sub [OF ok p] by auto
  show "\<exists>st'. entry_take_front N st p = Some (st', \<lparr>tk_row = row_new i, tk_plane = p\<rparr>) \<and>
        set_shape st' = set_shape st \<and> row_index (row_new i) = i \<and> i \<in> Ms p \<and> i < bits_of st \<and>
        set_ok N st' (Ms(p := Ms p - {i})) (cur(p := turned (bits_of st) i))"
    using plane_pop_ok(2) [OF ok b p i] b set_okD(3) [OF ok b p] by (auto simp: entry_take_front_def)
qed

lemma plane_pop_from_ok:
  fixes start :: "'r::len word"
  assumes ok: "set_ok N st Ms cur" and p: "p < N"
  defines "go \<equiv> ordinal_offset start mod bits_of st"
  shows "bits_of st = 0 \<or> rotated (Ms p) go = None \<Longrightarrow> plane_pop_from N st p start = None"
    "rotated (Ms p) go = Some i \<Longrightarrow>
      \<exists>st'. plane_pop_from N st p start = Some (st', \<lparr>tk_row = row_new i, tk_plane = p\<rparr>) \<and>
        set_shape st' = set_shape st \<and> row_index (row_new i) = i \<and> i \<in> Ms p \<and> i < bits_of st \<and>
        set_ok N st' (Ms(p := Ms p - {i})) (cur(p := turned (bits_of st) i))"
proof -
  show "plane_pop_from N st p start = None" if "bits_of st = 0 \<or> rotated (Ms p) go = None"
    using plane_pop_ok(1) [OF ok _ p, of go] that by (auto simp: plane_pop_from_def access_pop_from_def go_def)
  assume i: "rotated (Ms p) go = Some i"
  then have b: "bits_of st \<noteq> 0"
    using rotated_in [OF i] set_ok_sub [OF ok p] by auto
  show "\<exists>st'. plane_pop_from N st p start = Some (st', \<lparr>tk_row = row_new i, tk_plane = p\<rparr>) \<and>
        set_shape st' = set_shape st \<and> row_index (row_new i) = i \<and> i \<in> Ms p \<and> i < bits_of st \<and>
        set_ok N st' (Ms(p := Ms p - {i})) (cur(p := turned (bits_of st) i))"
    using plane_pop_ok(2) [OF ok b p i] b by (auto simp: plane_pop_from_def access_pop_from_def go_def)
qed


section \<open>Construction\<close>

lemma store_from_exact:
  "first + length xs \<le> length block \<Longrightarrow>
    store_from first xs block = take first block @ map Some xs @ drop (first + length xs) block"
proof (induction xs arbitrary: block rule: rev_induct)
  case (snoc x xs)
  have "store_from first (xs @ [x]) block = (store_from first xs block)[first + length xs := Some x]"
    by (simp add: store_from_def zip_append2)
  then show ?case
    using snoc by (simp add: list_update_append Cons_nth_drop_Suc [symmetric])
qed (simp add: store_from_def)

lemma zero_cells: "n \<le> length block \<Longrightarrow>
    fold (\<lambda>cursor b. b[cursor := Some z]) [0..<n] block = replicate n (Some z) @ drop n block"
proof (induction n)
  case (Suc n)
  then show ?case
    by (simp add: list_update_append Cons_nth_drop_Suc [symmetric] replicate_append_same [symmetric])
qed simp

lemma store_planes:
  assumes "\<And>f. f \<in> set fs \<Longrightarrow> length (g f) = w"
  shows "fold (\<lambda>(plane, f). store_from (length pre + plane * w) (g f)) (zip [0..<length fs] fs)
      (pre @ replicate (length fs * w) None @ post) = pre @ map Some (concat (map g fs)) @ post"
  using assms
proof (induction fs arbitrary: post rule: rev_induct)
  case (snoc f fs)
  have w: "length (g f) = w" and len: "length (concat (map g fs)) = length fs * w"
    using snoc.prems by (auto simp: length_concat o_def sum_list_triv cong: map_cong)
  have "replicate (length (fs @ [f]) * w) None @ post = replicate (length fs * w) None @ replicate w None @ post"
    by (simp add: replicate_add [symmetric] add.commute)
  then show ?case
    using snoc.IH [of "replicate w None @ post"] snoc.prems w len
    by (simp add: zip_append2 store_from_exact)
qed simp

lemma concat_plane:
  "p < length xss \<Longrightarrow> (\<And>xs. xs \<in> set xss \<Longrightarrow> length xs = w) \<Longrightarrow> take w (drop (p * w) (concat xss)) = xss ! p"
proof (induction xss arbitrary: p)
  case (Cons xs xss)
  then show ?case
    by (cases p) simp_all
qed simp

lemma sealed_64: "is_sealed TYPE(64)"
  by (simp add: is_sealed_def BITS_def)

lemma words_bound: "unat (sb_words (shape_new TYPE(64) bits)) \<le> 2 ^ 27 + 1"
proof (cases "bits = 0")
  case False
  have "(unat bits - 1) div 64 \<le> 2 ^ 26"
    using unat_bound [of bits] by simp
  then show ?thesis
    using shape_words_bound [OF sealed_64 False] by (simp add: BITS_def)
qed (simp add: shape_new_def)

lemma extent_len_bound:
  assumes "N \<le> 4294967295"
  shows "extent_len N (shape_new TYPE(64) bits) \<le> 4294967295 * (2 ^ 27 + 2)"
proof -
  have "N * (unat (sb_words (shape_new TYPE(64) bits)) + 1) \<le> 4294967295 * (2 ^ 27 + 2)"
    using assms words_bound [of bits] by (intro mult_le_mono) simp_all
  then show ?thesis
    by (simp add: extent_len_def)
qed

lemma extent_try_new_exact:
  assumes "0 < N"
  shows "extent_try_new N domain =
    (if 4294967295 < N then Inl Overflow else Inr (shape_new TYPE(64) domain))"
proof -
  have "unat (sb_words (shape_new TYPE(64) domain)) \<le> (2 ^ 64 - 1 - N) div N" if N: "N \<le> 4294967295"
  proof -
    have "unat (sb_words (shape_new TYPE(64) domain)) * N \<le> (2 ^ 27 + 1) * 4294967295"
      using words_bound N by (rule mult_le_mono)
    also have "\<dots> \<le> 2 ^ 64 - 1 - N"
      using N by simp
    finally show ?thesis
      using assms by (simp add: less_eq_div_iff_mult_less_eq)
  qed
  then show ?thesis
    by (auto simp: extent_try_new_def Let_def shape_new_def not_less [symmetric] simp del: not_less)
qed


definition packed :: "nat \<Rightarrow> u32 \<Rightarrow> bitmap_fill list \<Rightarrow> set_state" where
  "packed N domain fill =
    \<lparr>set_shape = shape_new TYPE(64) domain,
     set_block = if domain = 0 then []
       else replicate N 0 @ concat (map (shape_fill (shape_new TYPE(64) domain)) fill)\<rparr>"

lemma layout_cells:
  assumes "n \<le> 4294967295 * (2 ^ 27 + 2)"
  shows "layout_try_layout \<lparr>ty_size = 8, ty_align = 8\<rparr> (word_of_nat n) = Inr \<lparr>ly_size = 8 * word_of_nat n, ly_align = 8\<rparr>"
    "(8 * word_of_nat n :: usize) = 0 \<longleftrightarrow> n = 0"
proof -
  have n: "unat (word_of_nat n :: usize) = n"
    using assms by (intro unat_of_nat_fits) simp
  have "unat (isize_max - 7) = 9223372036854775800"
    by (simp add: isize_max_def)
  then show "layout_try_layout \<lparr>ty_size = 8, ty_align = 8\<rparr> (word_of_nat n) = Inr \<lparr>ly_size = 8 * word_of_nat n, ly_align = 8\<rparr>"
    using assms n by (simp add: layout_try_layout_def std_array_def)
  have "unat (8 * word_of_nat n :: usize) = 8 * n"
    using assms n by (simp add: unat_word_ariths)
  then show "(8 * word_of_nat n :: usize) = 0 \<longleftrightarrow> n = 0"
    by (metis mult_eq_0_iff unat_0 unat_eq_zero zero_neq_numeral)
qed

lemma extent_cells_exact:
  fixes domain :: u32
  defines "shape \<equiv> shape_new TYPE(64) domain"
  assumes fill: "length fill = N"
  shows "extent_cells N shape fill = map Some (set_block (packed N domain fill))"
proof (cases "domain = 0")
  case True
  then show ?thesis
    by (simp add: extent_cells_def shape_def shape_new_def extent_len_def packed_def)
next
  case False
  let ?w = "unat (sb_words shape)" and ?n = "extent_len N shape"
  have bits: "unat (sb_bits shape) \<noteq> 0"
    using False by (simp add: shape_def shape_new_def unat_eq_zero)
  then have "fold (\<lambda>cursor b. b[cursor := Some (0 :: usize)]) [0..<N] (replicate ?n None) =
      replicate N (Some 0) @ replicate (length fill * ?w) None @ []"
    using fill by (subst zero_cells) (simp_all add: extent_len_def)
  moreover have "length (shape_fill shape f :: usize list) = ?w" for f
    using shape_new_exact(1) [OF sealed_64, of domain f] by (simp add: shape_def)
  ultimately show ?thesis
    using store_planes [of fill "shape_fill shape :: _ \<Rightarrow> usize list" ?w "replicate N (Some 0)" "[]"] fill bits False
    by (simp add: extent_cells_def packed_def shape_def [symmetric])
qed

lemma extent_try_allocate_exact:
  fixes domain :: u32
  defines "shape \<equiv> shape_new TYPE(64) domain"
  assumes fill: "length fill = N" and N: "N \<le> 4294967295"
  shows "extent_try_allocate grant N shape fill =
    (if extent_len N shape \<noteq> 0 \<and> \<not> grant \<lparr>ly_size = 8 * word_of_nat (extent_len N shape), ly_align = 8\<rparr>
     then Inl Error_Exhausted else Inr (set_block (packed N domain fill)))"
  using layout_cells [OF extent_len_bound [OF N, of domain], folded shape_def] extent_cells_exact [OF fill, of domain, folded shape_def]
  by (simp add: extent_try_allocate_def layout_try_allocate_def o_def)

lemma set_try_new_exact:
  assumes "length fill = N" "0 < N"
  shows "set_try_new grant N domain fill =
    (if 4294967295 < N then Inl Error_Overflow
     else if domain \<noteq> 0 \<and>
         \<not> grant \<lparr>ly_size = 8 * word_of_nat (extent_len N (shape_new TYPE(64) domain)), ly_align = 8\<rparr>
       then Inl Error_Exhausted
     else Inr (packed N domain fill))"
proof -
  have "extent_len N (shape_new TYPE(64) domain) = 0 \<longleftrightarrow> domain = 0"
    using assms(2) by (simp add: extent_len_def shape_new_def unat_eq_zero)
  then show ?thesis
    using assms extent_try_new_exact [OF assms(2), of domain] extent_try_allocate_exact [OF assms(1), of grant domain]
    by (simp add: set_try_new_def packed_def)
qed

lemma packed_ok:
  assumes "length fill = N" "0 < N"
  shows "set_ok N (packed N domain fill) (\<lambda>p. filled (fill ! p) (unat domain)) (\<lambda>_. 0)"
    "bits_of (packed N domain fill) = unat domain"
proof -
  let ?st = "packed N domain fill" and ?shape = "shape_new TYPE(64) domain"
  show bits: "bits_of ?st = unat domain"
    by (simp add: packed_def shape_new_def)
  have shape: "set_shape ?st = ?shape" "unat (sb_bits ?shape) = unat domain"
    by (simp_all add: packed_def shape_new_def)
  show "set_ok N ?st (\<lambda>p. filled (fill ! p) (unat domain)) (\<lambda>_. 0)"
  proof (cases "domain = 0")
    case True
    then show ?thesis
      by (auto simp: set_ok_def packed_def shape_new_def extent_len_def view_words_def bitmap_ok_def filled_def
          split: bitmap_fill.split)
  next
    case False
    have len: "length xs = unat (sb_words ?shape)" if "xs \<in> set (map (shape_fill ?shape :: _ \<Rightarrow> usize list) fill)" for xs
      using that shape_new_exact(1) [OF sealed_64, of domain] by auto
    have block: "set_block ?st = replicate N 0 @ concat (map (shape_fill ?shape) fill)"
      using False by (simp add: packed_def)
    have "length (concat (map (shape_fill ?shape :: _ \<Rightarrow> usize list) fill)) = N * unat (sb_words ?shape)"
      using len assms(1) by (simp add: length_concat o_def sum_list_triv cong: map_cong)
    then have total: "length (set_block ?st) = N + N * words_of ?st"
      by (simp add: block shape(1))
    have "plane_words N ?st p = shape_fill ?shape (fill ! p)" if "p < N" for p
      using concat_plane [of p "map (shape_fill ?shape) fill", OF _ len] that assms(1)
      by (simp add: plane_words_def Let_def shape(1) block)
    then show ?thesis
      using total False bits fill_levels_exact [of "unat domain"]
      by (intro set_okI) (auto simp: shape_fill_def shape set_cursor_def block nth_append unat_gt_0 unat_eq_zero)
  qed
qed


section \<open>Planar sets\<close>

datatype planar_op =
    SetAt usize nat
  | ClearAt usize nat
  | Contains nat usize
  | PlaneEmpty nat
  | FindFrom nat usize
  | PopFrom nat usize bool
  | TakeFront nat bool
  | ClearAll

datatype planar_out =
    Stored
  | Refused bitmap_error
  | Holds bool
  | At "usize option"

text \<open>An entry is restored, or dropped.\<close>

definition planar_entry :: "nat \<Rightarrow> bool \<Rightarrow> set_state \<Rightarrow> (set_state \<times> taken) option \<Rightarrow> planar_out \<times> set_state" where
  "planar_entry N restore st e =
    (case e of None \<Rightarrow> (At None, st)
     | Some (st, e) \<Rightarrow> (At (Some (entry_index (tk_row e))), if restore then entry_restore N st e else st))"

definition planar_exec :: "nat \<Rightarrow> set_state \<Rightarrow> planar_op \<Rightarrow> planar_out \<times> set_state" where
  "planar_exec N st op =
    (case op of
       SetAt i p \<Rightarrow> (case set_try_entry st i of Inl e \<Rightarrow> (Refused e, st) | Inr row \<Rightarrow> (Stored, entry_set N st row p))
     | ClearAt i p \<Rightarrow> (case set_try_entry st i of Inl e \<Rightarrow> (Refused e, st) | Inr row \<Rightarrow> (Stored, set_entry_clear N st row p))
     | Contains p i \<Rightarrow> (Holds (set_contains N st p i), st)
     | PlaneEmpty p \<Rightarrow> (Holds (set_is_empty N st p), st)
     | FindFrom p i \<Rightarrow> (At (map_option entry_index (plane_find N st p i)), st)
     | PopFrom p i restore \<Rightarrow> planar_entry N restore st (plane_pop_from N st p i)
     | TakeFront p restore \<Rightarrow> planar_entry N restore st (entry_take_front N st p)
     | ClearAll \<Rightarrow> (Stored, set_clear st))"

type_synonym planes = "(nat \<Rightarrow> nat set) \<times> (nat \<Rightarrow> nat)"

definition at_index :: "nat option \<Rightarrow> planar_out" where
  "at_index i = At (map_option word_of_nat i)"

definition planes_take :: "nat \<Rightarrow> planes \<Rightarrow> nat \<Rightarrow> bool \<Rightarrow> nat option \<Rightarrow> planar_out \<times> planes" where
  "planes_take b S p restore found =
    (at_index found,
     case found of None \<Rightarrow> S
     | Some i \<Rightarrow> ((fst S)(p := if restore then fst S p else fst S p - {i}), (snd S)(p := turned b i)))"

definition cyclic_member :: "nat \<Rightarrow> nat set \<Rightarrow> nat \<Rightarrow> nat option" where
  "cyclic_member b M start =
    (case next_member b M start of Some i \<Rightarrow> Some i | None \<Rightarrow> next_member b M 0)"

definition planar_spec :: "nat \<Rightarrow> planes \<Rightarrow> planar_op \<Rightarrow> planar_out \<times> planes" where
  "planar_spec b S op =
    (case op of
       SetAt i p \<Rightarrow> if unat i < b then (Stored, (fst S)(p := insert (unat i) (fst S p)), snd S)
         else (Refused \<lparr>be_index = unat i, be_capacity = b\<rparr>, S)
     | ClearAt i p \<Rightarrow> if unat i < b then (Stored, (fst S)(p := fst S p - {unat i}), snd S)
         else (Refused \<lparr>be_index = unat i, be_capacity = b\<rparr>, S)
     | Contains p i \<Rightarrow> (Holds (unat i \<in> fst S p), S)
     | PlaneEmpty p \<Rightarrow> (Holds (fst S p = {}), S)
     | FindFrom p i \<Rightarrow> (at_index (next_member b (fst S p) (unat i)), S)
     | PopFrom p i restore \<Rightarrow>
         planes_take b S p restore (if b = 0 then None else cyclic_member b (fst S p) (unat i mod b))
     | TakeFront p restore \<Rightarrow> planes_take b S p restore (cyclic_member b (fst S p) (snd S p))
     | ClearAll \<Rightarrow> (Stored, (\<lambda>_. {}), (\<lambda>_. 0)))"

fun op_plane :: "planar_op \<Rightarrow> nat" where
  "op_plane (SetAt i p) = p"
| "op_plane (ClearAt i p) = p"
| "op_plane (Contains p i) = p"
| "op_plane (PlaneEmpty p) = p"
| "op_plane (FindFrom p i) = p"
| "op_plane (PopFrom p i restore) = p"
| "op_plane (TakeFront p restore) = p"
| "op_plane ClearAll = 0"

fun planar_run :: "nat \<Rightarrow> set_state \<Rightarrow> planar_op list \<Rightarrow> planar_out list" where
  "planar_run N st [] = []"
| "planar_run N st (x # xs) = (let (out, st) = planar_exec N st x in out # planar_run N st xs)"

fun planar_spec_run :: "nat \<Rightarrow> planes \<Rightarrow> planar_op list \<Rightarrow> planar_out list" where
  "planar_spec_run b S [] = []"
| "planar_spec_run b S (x # xs) = (let (out, S) = planar_spec b S x in out # planar_spec_run b S xs)"

lemma ordinal_offset_usize: "ordinal_offset (i :: usize) = unat i"
  by (simp add: ordinal_offset_def)

lemma entry_index_usize: "row_index row = i \<Longrightarrow> entry_index row = (word_of_nat i :: usize)"
  by (simp add: entry_index_def ordinal_new_def)

lemma row_try_new_at:
  "row_try_new s i = (if i < unat (sb_bits s) then Inr (row_new i) else Inl \<lparr>be_index = i, be_capacity = unat (sb_bits s)\<rparr>)"
  by (simp add: row_try_new_def Let_def)

lemma planar_entry_ok:
  assumes ok: "set_ok N st Ms cur" and p: "p < N"
    and none: "found = None \<Longrightarrow> e = None"
    and some: "\<And>i. found = Some i \<Longrightarrow>
      \<exists>st'. e = Some (st', \<lparr>tk_row = row_new i, tk_plane = p\<rparr>) \<and>
        set_shape st' = set_shape st \<and> row_index (row_new i) = i \<and> i \<in> Ms p \<and> i < bits_of st \<and>
        set_ok N st' (Ms(p := Ms p - {i})) (cur(p := turned (bits_of st) i))"
  shows "\<exists>st'. planar_entry N restore st e = (fst (planes_take (bits_of st) (Ms, cur) p restore found), st') \<and>
    set_shape st' = set_shape st \<and>
    set_ok N st' (fst (snd (planes_take (bits_of st) (Ms, cur) p restore found)))
      (snd (snd (planes_take (bits_of st) (Ms, cur) p restore found)))"
proof (cases found)
  case None
  then show ?thesis
    using none ok by (simp add: planar_entry_def planes_take_def at_index_def)
next
  case (Some i)
  obtain st' where st': "e = Some (st', \<lparr>tk_row = row_new i, tk_plane = p\<rparr>)"
      "set_shape st' = set_shape st" "row_index (row_new i) = i" "i \<in> Ms p" "i < bits_of st"
      "set_ok N st' (Ms(p := Ms p - {i})) (cur(p := turned (bits_of st) i))"
    using some [OF Some] by blast
  have "insert i (Ms p - {i}) = Ms p"
    using st'(4) by auto
  then have "set_ok N (entry_restore N st' \<lparr>tk_row = row_new i, tk_plane = p\<rparr>) Ms (cur(p := turned (bits_of st) i))"
    "set_shape (entry_restore N st' \<lparr>tk_row = row_new i, tk_plane = p\<rparr>) = set_shape st"
    using plane_update_ok [OF st'(6) p, of "row_new i" True] st'(2,3,5)
    by (simp_all add: entry_restore_def written_def)
  then show ?thesis
    using st' Some by (simp add: planar_entry_def planes_take_def at_index_def entry_index_usize)
qed


lemma fill_levels_Empty: "set (fill_levels Empty b :: 'n::len bit0 word list) \<subseteq> {0}"
proof (induction "Empty" b rule: fill_levels.induct [where ?'a = 'n])
  case (1 b)
  then show ?case
    by (auto simp: fill_levels.simps [of Empty b] fill_value_def Let_def)
qed

lemma set_clear_ok:
  assumes "set_ok N st Ms cur"
  shows "set_ok N (set_clear st) (\<lambda>_. {}) (\<lambda>_. 0)" "set_shape (set_clear st) = set_shape st"
proof -
  show shape: "set_shape (set_clear st) = set_shape st"
    by (simp add: set_clear_def)
  show "set_ok N (set_clear st) (\<lambda>_. {}) (\<lambda>_. 0)"
  proof (cases "bits_of st = 0")
    case True
    then show ?thesis
      using assms by (auto simp: set_ok_def shape Let_def view_words_def bitmap_ok_def extent_len_def set_clear_def)
  next
    case False
    note len = set_okD(2) [OF assms False]
    have "bitmap_ok (bits_of st) (plane_words N (set_clear st) p) {}" if "p < N" for p
    proof -
      have "length (fill_levels Empty (bits_of st) :: usize list) = words_of st"
        using bitmap_ok_length [OF fill_levels_exact [of "bits_of st" Empty] set_okD(1) [OF assms that]]
          False plane_words_length [OF len that] by (simp add: view_words_def)
      then have "plane_words N (set_clear st) p = fill_levels Empty (bits_of st)"
        using fill_levels_Empty [of "bits_of st"] len that plane_range [OF that, of "words_of st"]
        by (intro nth_equalityI)
          (auto simp: plane_words_def Let_def set_clear_def shape dest!: subsetD [OF _ nth_mem])
      then show ?thesis
        using fill_levels_exact [of "bits_of st" Empty, where ?'n = "32"] by (simp add: filled_def)
    qed
    then show ?thesis
      using False len by (intro set_okI) (auto simp: shape set_cursor_def set_clear_def)
  qed
qed

lemma planar_queries:
  assumes ok: "set_ok N st Ms cur" and p: "p < N"
  shows "set_contains N st p i \<longleftrightarrow> ordinal_offset i \<in> Ms p"
    "set_is_empty N st p \<longleftrightarrow> Ms p = {}"
    "plane_find N st p i = map_option row_new (next_member (bits_of st) (Ms p) (ordinal_offset i))"
proof -
  note bm = set_okD(1) [OF ok p]
  show "set_contains N st p i \<longleftrightarrow> ordinal_offset i \<in> Ms p"
    using row_contains_exact [OF bm, of "row_new (ordinal_offset i)"] set_ok_sub [OF ok p]
    by (auto simp: set_contains_def row_try_new_at row_new_index view_words_def)
  show "set_is_empty N st p \<longleftrightarrow> Ms p = {}"
    by (simp add: set_is_empty_def access_is_empty_exact [OF bm])
  show "plane_find N st p i = map_option row_new (next_member (bits_of st) (Ms p) (ordinal_offset i))"
    by (simp add: plane_find_def access_find_exact [OF sealed_64 bm])
qed

lemma planar_exec_ok:
  assumes ok: "set_ok N st Ms cur" and p: "op_plane op < N"
  shows "\<exists>st'. planar_exec N st op = (fst (planar_spec (bits_of st) (Ms, cur) op), st') \<and>
    set_shape st' = set_shape st \<and>
    set_ok N st' (fst (snd (planar_spec (bits_of st) (Ms, cur) op))) (snd (snd (planar_spec (bits_of st) (Ms, cur) op)))"
proof (cases op)
  case (SetAt i q)
  then show ?thesis
    using ok p plane_update_at [OF ok, of q "unat i" True]
    by (simp add: planar_exec_def planar_spec_def set_try_entry_def row_try_new_at entry_set_def
        ordinal_offset_usize row_new_index written_def)
next
  case (ClearAt i q)
  then show ?thesis
    using ok p plane_update_at [OF ok, of q "unat i" False]
    by (simp add: planar_exec_def planar_spec_def set_try_entry_def row_try_new_at set_entry_clear_def
        ordinal_offset_usize row_new_index written_def)
next
  case (FindFrom q i)
  then show ?thesis
    using ok p next_memberD [of "bits_of st" "Ms q" "unat i"]
    by (cases "next_member (bits_of st) (Ms q) (unat i)")
      (simp_all add: planar_exec_def planar_spec_def planar_queries [OF ok] at_index_def ordinal_offset_usize
        entry_index_usize row_new_index [of _ "sb_bits (set_shape st)"])
next
  case (PopFrom q i restore)
  let ?found = "if bits_of st = 0 then None else cyclic_member (bits_of st) (Ms q) (unat i mod bits_of st)"
  have q: "q < N"
    using p PopFrom by simp
  have found: "?found = (if bits_of st = 0 then None else rotated (Ms q) (unat i mod bits_of st))"
    by (simp add: cyclic_member_def rotated_next [OF set_ok_sub [OF ok q]])
  note pop = plane_pop_from_ok [OF ok q, of i, unfolded ordinal_offset_usize]
  have "planar_exec N st op = planar_entry N restore st (plane_pop_from N st q i)"
    "planar_spec (bits_of st) (Ms, cur) op = planes_take (bits_of st) (Ms, cur) q restore ?found"
    by (simp_all add: planar_exec_def planar_spec_def PopFrom)
  moreover have "plane_pop_from N st q i = None" if "?found = None"
    using pop(1) that by (simp add: found split: if_splits)
  moreover have "\<exists>st'. plane_pop_from N st q i = Some (st', \<lparr>tk_row = row_new k, tk_plane = q\<rparr>) \<and>
      set_shape st' = set_shape st \<and> row_index (row_new k) = k \<and> k \<in> Ms q \<and> k < bits_of st \<and>
      set_ok N st' (Ms(q := Ms q - {k})) (cur(q := turned (bits_of st) k))" if "?found = Some k" for k
    using pop(2) [of k] that unfolding found by (cases "bits_of st = 0") simp_all
  ultimately show ?thesis
    using planar_entry_ok [OF ok q, of ?found "plane_pop_from N st q i" restore] by simp
next
  case (TakeFront q restore)
  let ?found = "cyclic_member (bits_of st) (Ms q) (cur q)"
  have q: "q < N"
    using p TakeFront by simp
  have found: "?found = rotated (Ms q) (cur q)"
    by (simp add: cyclic_member_def rotated_next [OF set_ok_sub [OF ok q]])
  have "planar_exec N st op = planar_entry N restore st (entry_take_front N st q)"
    "planar_spec (bits_of st) (Ms, cur) op = planes_take (bits_of st) (Ms, cur) q restore ?found"
    by (simp_all add: planar_exec_def planar_spec_def TakeFront)
  then show ?thesis
    using planar_entry_ok [OF ok q, of ?found] entry_take_front_ok [OF ok q, folded found] by simp
next
  case ClearAll
  then show ?thesis
    using set_clear_ok [OF ok] by (simp add: planar_exec_def planar_spec_def)
qed (use ok p in \<open>simp_all add: planar_exec_def planar_spec_def planar_queries [OF ok] ordinal_offset_usize\<close>)

lemma planar_run_ok:
  "set_ok N st Ms cur \<Longrightarrow> \<forall>op\<in>set ops. op_plane op < N \<Longrightarrow>
    planar_run N st ops = planar_spec_run (bits_of st) (Ms, cur) ops"
proof (induction ops arbitrary: st Ms cur)
  case (Cons op ops)
  obtain st' where "planar_exec N st op = (fst (planar_spec (bits_of st) (Ms, cur) op), st')"
      "set_shape st' = set_shape st"
      "set_ok N st' (fst (snd (planar_spec (bits_of st) (Ms, cur) op))) (snd (snd (planar_spec (bits_of st) (Ms, cur) op)))"
    using planar_exec_ok [OF Cons.prems(1), of op] Cons.prems(2) by auto
  then show ?case
    using Cons.IH [of st'] Cons.prems(2) by (auto simp: split_beta)
qed simp


text \<open>C27: building a planar set over any number of planes fails only when the planes do not fit a 32-bit
  index or the allocator refuses the layout of a nonempty domain, one cursor and one stack of levels for
  each plane; otherwise every cell is initialized, and any program of stores, queries,
  searches, pops, takes and clears on the packed words behaves as on a family of plain sets with one
  cursor each, where a take starts at the cursor and wraps around once.
\<close>

theorem planar_refines_sets:
  assumes "length fill = N" "0 < N" "\<forall>op\<in>set ops. op_plane op < N"
  shows "case set_try_new grant N domain fill of
      Inl Error_Overflow \<Rightarrow> 4294967295 < N
    | Inl Error_Exhausted \<Rightarrow> N \<le> 4294967295 \<and> domain \<noteq> 0 \<and>
        \<not> grant \<lparr>ly_size = 8 * word_of_nat (extent_len N (shape_new TYPE(64) domain)), ly_align = 8\<rparr>
    | Inr st \<Rightarrow> N \<le> 4294967295 \<and>
        (domain = 0 \<or> grant \<lparr>ly_size = 8 * word_of_nat (extent_len N (shape_new TYPE(64) domain)), ly_align = 8\<rparr>) \<and>
        planar_run N st ops =
        planar_spec_run (unat domain) (\<lambda>p. filled (fill ! p) (unat domain), \<lambda>_. 0) ops"
  using planar_run_ok [OF packed_ok(1) [OF assms(1,2)] assms(3), of domain] packed_ok(2) [OF assms(1,2), of domain]
  by (auto simp: set_try_new_exact [OF assms(1,2)])

theorem planar_refines_sets_witness:
  "case set_try_new (\<lambda>_. True) 2 100 [Full, Empty] of Inl e \<Rightarrow> False
    | Inr st \<Rightarrow> planar_run 2 st [TakeFront 0 False, TakeFront 0 True, SetAt 99 1, PopFrom 1 100 False, Contains 0 1, SetAt 100 1] =
        [At (Some 0), At (Some 1), Stored, At (Some 99), Holds True, Refused \<lparr>be_index = 100, be_capacity = 100\<rparr>]"
  using planar_refines_sets [of "[Full, Empty]" 2
      "[TakeFront 0 False, TakeFront 0 True, SetAt 99 1, PopFrom 1 100 False, Contains 0 1, SetAt 100 1]",
      where grant = "\<lambda>_. True" and domain = 100]
  by (simp add: set_try_new_exact planar_spec_def planes_take_def at_index_def cyclic_member_def next_member_def
      filled_def turned_def upt_conv_Cons)

section \<open>Disjoint sets\<close>

type_synonym disjoint_use = "set_state \<times> taken list \<times> taken list"

text \<open>Every operation on a disjoint set, with the entries held and those dropped.\<close>

inductive disjoint_step :: "nat \<Rightarrow> disjoint_use \<Rightarrow> disjoint_use \<Rightarrow> bool" for N where
  step_take: "p < N \<Longrightarrow> disjoint_take N st p = Some (st', e) \<Longrightarrow>
    disjoint_step N (st, held, dropped) (st', e # held, dropped)"
| step_take_from: "p < N \<Longrightarrow> disjoint_take_from N st p (start :: usize) = Some (st', e) \<Longrightarrow>
    disjoint_step N (st, held, dropped) (st', e # held, dropped)"
| step_restore: "held = before @ e # after \<Longrightarrow>
    disjoint_step N (st, held, dropped) (entry_restore N st e, before @ after, dropped)"
| step_insert: "held = before @ e # after \<Longrightarrow> target < N \<Longrightarrow>
    disjoint_step N (st, held, dropped) (entry_insert N st e target, before @ after, dropped)"
| step_drop: "held = before @ e # after \<Longrightarrow>
    disjoint_step N (st, held, dropped) (st, before @ after, e # dropped)"

definition owned_by :: "nat \<Rightarrow> (nat \<Rightarrow> nat set) \<Rightarrow> taken list \<Rightarrow> nat \<Rightarrow> nat" where
  "owned_by N Ms es i = (\<Sum>p<N. of_bool (i \<in> Ms p)) + length (filter (\<lambda>e. row_index (tk_row e) = i) es)"

definition disjoint_ok :: "nat \<Rightarrow> u32 \<Rightarrow> disjoint_use \<Rightarrow> bool" where
  "disjoint_ok N domain q \<longleftrightarrow>
    (case q of (st, held, dropped) \<Rightarrow>
      \<exists>Ms cur. set_ok N st Ms cur \<and> sb_bits (set_shape st) = domain \<and>
        (\<forall>e\<in>set held. tk_plane e < N \<and> row_index (tk_row e) < unat domain) \<and>
        (\<forall>i<unat domain. owned_by N Ms (held @ dropped) i = 1))"

lemma owned_update:
  fixes Ms :: "nat \<Rightarrow> nat set"
  assumes "p < N"
  shows "(\<Sum>q<N. of_bool (i \<in> (Ms(p := M)) q)) + of_bool (i \<in> Ms p) = (\<Sum>q<N. of_bool (i \<in> Ms q)) + (of_bool (i \<in> M) :: nat)"
proof -
  have split: "(\<Sum>q<N. of_bool (i \<in> A q)) = (\<Sum>q\<in>{..<N} - {p}. of_bool (i \<in> A q)) + (of_bool (i \<in> A p) :: nat)"
    for A :: "nat \<Rightarrow> nat set"
    using assms by (subst sum.remove [of _ p]) simp_all
  have "(\<Sum>q\<in>{..<N} - {p}. of_bool (i \<in> (Ms(p := M)) q)) = (\<Sum>q\<in>{..<N} - {p}. (of_bool (i \<in> Ms q) :: nat))"
    by (intro sum.cong) auto
  then show ?thesis
    by (simp only: split [of "Ms(p := M)"] split [of Ms] fun_upd_same ac_simps)
qed

lemma owned_removed:
  assumes "p < N" "i \<in> Ms p" "row_index (tk_row e) = i"
  shows "owned_by N (Ms(p := Ms p - {i})) (e # es) j = owned_by N Ms es j"
  using owned_update [OF assms(1), of j Ms "Ms p - {i}"] assms(2,3)
  by (cases "j = i") (simp_all add: owned_by_def)


lemma owned_inserted:
  assumes "p < N" "row_index (tk_row e) = i" "owned_by N Ms (before @ e # after) i \<le> 1"
  shows "owned_by N (Ms(p := insert i (Ms p))) (before @ after) j = owned_by N Ms (before @ e # after) j"
proof -
  have "i \<notin> Ms p"
  proof
    assume "i \<in> Ms p"
    then have "of_bool (i \<in> Ms p) \<le> (\<Sum>p<N. (of_bool (i \<in> Ms p) :: nat))"
      using assms(1) by (intro member_le_sum) simp_all
    then show False
      using assms(2,3) \<open>i \<in> Ms p\<close> by (simp add: owned_by_def)
  qed
  then show ?thesis
    using owned_update [OF assms(1), of j Ms "insert i (Ms p)"] assms(2)
    by (cases "j = i") (simp_all add: owned_by_def)
qed

lemma disjoint_taken:
  assumes "disjoint_ok N domain (st, held, dropped)" "p < N"
    and "\<And>Ms cur. set_ok N st Ms cur \<Longrightarrow> r = None \<or>
      (\<exists>i st'. r = Some (st', \<lparr>tk_row = row_new i, tk_plane = p\<rparr>) \<and>
        set_shape st' = set_shape st \<and> row_index (row_new i) = i \<and> i \<in> Ms p \<and> i < bits_of st \<and>
        set_ok N st' (Ms(p := Ms p - {i})) (cur(p := turned (bits_of st) i)))"
    and "r = Some (st', e)"
  shows "disjoint_ok N domain (st', e # held, dropped)"
proof -
  obtain Ms cur where q: "set_ok N st Ms cur" "sb_bits (set_shape st) = domain"
      "\<forall>e\<in>set held. tk_plane e < N \<and> row_index (tk_row e) < unat domain"
      "\<forall>i<unat domain. owned_by N Ms (held @ dropped) i = 1"
    using assms(1) by (auto simp: disjoint_ok_def)
  obtain i where i: "e = \<lparr>tk_row = row_new i, tk_plane = p\<rparr>" "set_shape st' = set_shape st"
      "row_index (row_new i) = i" "i \<in> Ms p" "i < bits_of st"
      "set_ok N st' (Ms(p := Ms p - {i})) (cur(p := turned (bits_of st) i))"
    using assms(3) [OF q(1)] assms(4) by auto
  have "owned_by N (Ms(p := Ms p - {i})) (e # held @ dropped) j = owned_by N Ms (held @ dropped) j" for j
    using owned_removed [of p N i Ms e] assms(2) i(1,3,4) by simp
  then show ?thesis
    using q i assms(2) unfolding disjoint_ok_def by auto
qed

lemma disjoint_put_back:
  assumes "disjoint_ok N domain (st, before @ e # after, dropped)" "p < N"
  shows "disjoint_ok N domain (plane_update True N st p (tk_row e), before @ after, dropped)"
proof -
  let ?i = "row_index (tk_row e)"
  obtain Ms cur where q: "set_ok N st Ms cur" "sb_bits (set_shape st) = domain"
      "\<forall>e\<in>set (before @ e # after). tk_plane e < N \<and> row_index (tk_row e) < unat domain"
      "\<forall>i<unat domain. owned_by N Ms ((before @ e # after) @ dropped) i = 1"
    using assms(1) by (auto simp: disjoint_ok_def)
  have "owned_by N (Ms(p := insert ?i (Ms p))) (before @ after @ dropped) j = owned_by N Ms (before @ e # after @ dropped) j" for j
    using owned_inserted [OF assms(2) refl, of Ms before e "after @ dropped"] q(3,4) by simp
  then show ?thesis
    using plane_update_ok [OF q(1) assms(2), of "tk_row e" True] q unfolding disjoint_ok_def written_def by auto
qed

lemma take_cases:
  assumes "set_ok N st Ms cur" "p < N"
  defines "Pop r \<equiv> r = None \<or> (\<exists>i st'. r = Some (st', \<lparr>tk_row = row_new i, tk_plane = p\<rparr>) \<and>
    set_shape st' = set_shape st \<and> row_index (row_new i) = i \<and> i \<in> Ms p \<and> i < bits_of st \<and>
    set_ok N st' (Ms(p := Ms p - {i})) (cur(p := turned (bits_of st) i)))"
  shows "Pop (disjoint_take N st p)" "Pop (disjoint_take_from N st p (start :: usize))"
proof -
  show "Pop (disjoint_take N st p)"
    unfolding Pop_def disjoint_take_def using entry_take_front_ok [OF assms(1,2)]
    by (cases "rotated (Ms p) (cur p)") blast+
  have eq: "disjoint_take_from N st p start = plane_pop_from N st p start"
    by (simp add: plane_pop_from_def disjoint_take_from_def)
  show "Pop (disjoint_take_from N st p start)"
    unfolding Pop_def eq using plane_pop_from_ok [OF assms(1,2), of start]
    by (cases "rotated (Ms p) (ordinal_offset start mod bits_of st)") blast+
qed

lemma disjoint_step_ok: "disjoint_step N q q' \<Longrightarrow> disjoint_ok N domain q \<Longrightarrow> disjoint_ok N domain q'"
proof (induction rule: disjoint_step.induct)
  case (step_take p st st' e held dropped)
  show ?case
    by (rule disjoint_taken [OF step_take(3,1) take_cases(1) [OF _ step_take(1)] step_take(2)])
next
  case (step_take_from p st start st' e held dropped)
  show ?case
    by (rule disjoint_taken [OF step_take_from(3,1) take_cases(2) [OF _ step_take_from(1)] step_take_from(2)])
next
  case (step_restore held before e after st dropped)
  then have "tk_plane e < N"
    by (auto simp: disjoint_ok_def)
  then show ?case
    using disjoint_put_back step_restore by (simp add: entry_restore_def)
next
  case (step_insert held before e after target st dropped)
  then show ?case
    using disjoint_put_back by (simp add: entry_insert_def)
next
  case (step_drop held before e after st dropped)
  have "owned_by N Ms ((before @ after) @ e # dropped) i = owned_by N Ms (held @ dropped) i" for Ms i
    using step_drop(1) by (simp add: owned_by_def)
  then show ?case
    using step_drop by (auto simp: disjoint_ok_def)
qed

lemma disjoint_steps_ok: "(disjoint_step N)\<^sup>*\<^sup>* q q' \<Longrightarrow> disjoint_ok N domain q \<Longrightarrow> disjoint_ok N domain q'"
  by (induction rule: rtranclp_induct) (auto intro: disjoint_step_ok)

lemma set_try_disjoint_ok:
  assumes "set_try_disjoint grant N domain initial = Inr st" "initial < N"
  shows "disjoint_ok N domain (st, [], [])"
proof -
  let ?fill = "map (\<lambda>id. if id = initial then Full else Empty) [0..<N]"
  have st: "st = packed N domain ?fill"
    using assms set_try_new_exact [of ?fill N grant domain] by (simp add: set_try_disjoint_def split: if_splits)
  have "owned_by N (\<lambda>p. filled (?fill ! p) (unat domain)) [] i = 1" if "i < unat domain" for i
  proof -
    have "(\<Sum>p<N. of_bool (i \<in> filled (?fill ! p) (unat domain))) = (\<Sum>p<N. if initial = p then 1 else (0 :: nat))"
      using that by (intro sum.cong) (auto simp: filled_def)
    then show ?thesis
      using assms(2) by (simp only: owned_by_def) simp
  qed
  moreover have "sb_bits (set_shape (packed N domain ?fill)) = domain"
    by (simp add: packed_def shape_new_def)
  moreover have "set_ok N (packed N domain ?fill) (\<lambda>p. filled (?fill ! p) (unat domain)) (\<lambda>_. 0)"
    using assms(2) by (intro packed_ok) simp_all
  ultimately show ?thesis
    unfolding disjoint_ok_def st by auto
qed

text \<open>C23: in every reachable state of a disjoint set, each index of the domain is owned exactly once: it
  is a member of one plane, or it is held by one entry, or the entry that held it was dropped.
\<close>

theorem disjoint_partition:
  assumes "set_try_disjoint grant N domain initial = Inr st\<^sub>0" "initial < N"
    and "(disjoint_step N)\<^sup>*\<^sup>* (st\<^sub>0, [], []) (st, held, dropped)" "i < unat domain"
  shows "(\<Sum>p<N. of_bool (set_contains N st p (word_of_nat i :: usize))) +
    length (filter (\<lambda>e. row_index (tk_row e) = i) (held @ dropped)) = (1 :: nat)"
proof -
  have "disjoint_ok N domain (st, held, dropped)"
    using disjoint_steps_ok [OF assms(3)] set_try_disjoint_ok [OF assms(1,2)] .
  then obtain Ms cur where q: "set_ok N st Ms cur" "owned_by N Ms (held @ dropped) i = 1"
    using assms(4) by (auto simp: disjoint_ok_def)
  have "ordinal_offset (word_of_nat i :: usize) = i"
    using assms(4) unat_bound [of domain] by (simp add: ordinal_offset_usize unat_of_nat_fits)
  then have "set_contains N st p (word_of_nat i :: usize) \<longleftrightarrow> i \<in> Ms p" if "p < N" for p
    using planar_queries(1) [OF q(1) that, of "word_of_nat i :: usize"] by simp
  then have "(\<Sum>p<N. of_bool (set_contains N st p (word_of_nat i :: usize))) = (\<Sum>p<N. (of_bool (i \<in> Ms p) :: nat))"
    by (intro sum.cong) simp_all
  then show ?thesis
    using q(2) by (simp only: owned_by_def)
qed


theorem disjoint_partition_witness:
  "\<exists>st st' e. set_try_disjoint (\<lambda>_. True) 2 70 0 = Inr st \<and> disjoint_take 2 st 0 = Some (st', e) \<and>
    (\<Sum>p<2. of_bool (set_contains 2 st' p (word_of_nat 0 :: usize))) +
    length (filter (\<lambda>e. row_index (tk_row e) = 0) ([e] @ [])) = (1 :: nat)"
proof -
  let ?fill = "map (\<lambda>id. if id = 0 then Full else Empty) [0..<2]"
  have st: "set_try_disjoint (\<lambda>_. True) 2 70 0 = Inr (packed 2 70 ?fill)"
    by (simp add: set_try_disjoint_def set_try_new_exact)
  have ok: "set_ok 2 (packed 2 70 ?fill) (\<lambda>p. filled (?fill ! p) 70) (\<lambda>_. 0)"
    using packed_ok(1) [of ?fill 2 70] by simp
  have "rotated (filled (?fill ! 0) 70) 0 = Some 0"
    by (subst rotated_next [of _ 70]) (simp_all add: filled_def next_member_def upt_conv_Cons)
  then obtain st' e where take: "disjoint_take 2 (packed 2 70 ?fill) 0 = Some (st', e)"
    using entry_take_front_ok(2) [OF ok, of 0 0] by (auto simp: disjoint_take_def)
  then have "disjoint_step 2 (packed 2 70 ?fill, [], []) (st', [e], [])"
    by (intro disjoint_step.step_take) simp_all
  then have "(disjoint_step 2)\<^sup>*\<^sup>* (packed 2 70 ?fill, [], []) (st', [e], [])"
    by (rule r_into_rtranclp)
  from disjoint_partition [OF st _ this, of 0] st take show ?thesis by auto
qed

end
