(* ===== verification/O3_Slab.thy ===== *)
theory O3_Slab
  imports O3_Layout
begin

text \<open>
  The generational slab (src/src/depot/arena/slab/ and src/src/depot/raw/arena/slabs/storages.rs):
  fixed slots whose state, generation and dense position are cells, free slots chained through the
  storage of their values, and a dense plane that lists the occupied slots. A handle packs a slot
  index with the generation it was issued under, so that a handle outlives its value harmlessly.

  The const generics and policies of a slab are the fields of \<open>slab_mode\<close>. A guard (\<open>Pending\<close>,
  \<open>Busy\<close>, \<open>Free\<close>, \<open>Occupied\<close>) is its slot's index, and the core it borrows is passed beside it and
  returned updated; the drop of a guard is an operation. A union holds the member last written.
\<close>

section \<open>Modes, states and slots\<close>

text \<open>
  \<open>sm_interior\<close> is \<open>M::REENTRANT\<close>, \<open>sm_recycle\<close> and \<open>sm_max\<close> the generation policy, \<open>sm_partitions\<close>
  the number of free chains, \<open>sm_lazy\<close> whether the storage constructs slots on first use and
  \<open>sm_heap\<close> whether it counts retirements, as the heap planes do.
\<close>

record slab_mode =
  sm_interior :: bool
  sm_recycle :: bool
  sm_max :: u32
  sm_partitions :: nat
  sm_lazy :: bool
  sm_heap :: bool

datatype slab_state = Free | Reserved | Occupied | Busy | Retired

datatype 'v slab_data = Links (sd_next: u32) (sd_prev: u32) | Value 'v | Moved

record 'v slab_slot =
  ss_state :: slab_state
  ss_generation :: u32
  ss_position :: u32
  ss_data :: "'v slab_data"

definition NONE :: u32 where
  "NONE = - 1"

definition slot_free :: "u32 \<Rightarrow> u32 \<Rightarrow> u32 \<Rightarrow> 'v slab_slot" where
  "slot_free epoch next_link prev_link =
    \<lparr>ss_state = Free, ss_generation = epoch, ss_position = NONE, ss_data = Links next_link prev_link\<rparr>"

text \<open>Reading a union member that was not the last one written is outside the contract.\<close>

definition slot_links :: "'v slab_slot \<Rightarrow> u32 \<times> u32" where
  "slot_links s = (case ss_data s of Links n p \<Rightarrow> (n, p) | _ \<Rightarrow> (NONE, NONE))"

definition slot_set_next :: "u32 \<Rightarrow> 'v slab_slot \<Rightarrow> 'v slab_slot" where
  "slot_set_next n s = s\<lparr>ss_data := Links n (snd (slot_links s))\<rparr>"

definition slot_set_prev :: "u32 \<Rightarrow> 'v slab_slot \<Rightarrow> 'v slab_slot" where
  "slot_set_prev p s = s\<lparr>ss_data := Links (fst (slot_links s)) p\<rparr>"

definition slot_value :: "'v slab_slot \<Rightarrow> 'v option" where
  "slot_value s = (case ss_data s of Value v \<Rightarrow> Some v | _ \<Rightarrow> None)"

section \<open>Generations and keys\<close>

definition generation_MIN :: u32 where
  "generation_MIN = 1"

definition generation_checked_add :: "u32 \<Rightarrow> u32 \<Rightarrow> u32 \<Rightarrow> u32 option" where
  "generation_checked_add m g v =
    (case checked_add g v of Some n \<Rightarrow> if n \<le> m then Some n else None | None \<Rightarrow> None)"

text \<open>A recycled slot stores no generation.\<close>

definition cycle_generation :: "slab_mode \<Rightarrow> u32 \<Rightarrow> u32" where
  "cycle_generation m stored = (if sm_recycle m then generation_MIN else stored)"

definition cycle_stored :: "slab_mode \<Rightarrow> u32 \<Rightarrow> u32" where
  "cycle_stored m g = (if sm_recycle m then generation_MIN else g)"

definition cycle_next :: "slab_mode \<Rightarrow> u32 \<Rightarrow> u32 option" where
  "cycle_next m stored =
    (if sm_recycle m then Some generation_MIN else generation_checked_add (sm_max m) stored 1)"

definition parts_new :: "u32 \<Rightarrow> u32 \<Rightarrow> u64" where
  "parts_new index epoch = push_bit 32 (ucast epoch) OR ucast index"

definition parts_index :: "u64 \<Rightarrow> u32" where
  "parts_index raw = ucast raw"

definition parts_generation :: "u64 \<Rightarrow> u32" where
  "parts_generation raw = ucast (drop_bit 32 raw)"

definition parts_from_raw :: "u32 \<Rightarrow> u64 \<Rightarrow> u64 option" where
  "parts_from_raw m raw =
    (let epoch = ucast (drop_bit 32 raw) :: u32
     in if epoch = 0 \<or> m < epoch then None else Some raw)"

section \<open>The core\<close>

record 'v slab =
  sl_slots :: "'v slab_slot list"
  sl_count :: u32
  sl_tail :: "u32 option list"
  sl_free :: "u32 list"
  sl_len :: u32
  sl_retired :: u32

text \<open>The slots below \<open>built\<close> are the list.\<close>

definition slab_slot_at :: "'v slab \<Rightarrow> u32 \<Rightarrow> 'v slab_slot" where
  "slab_slot_at c i = sl_slots c ! unat i"

definition slab_put :: "u32 \<Rightarrow> ('v slab_slot \<Rightarrow> 'v slab_slot) \<Rightarrow> 'v slab \<Rightarrow> 'v slab" where
  "slab_put i f c = c\<lparr>sl_slots := (sl_slots c)[unat i := f (slab_slot_at c i)]\<rparr>"

definition slab_set_state :: "u32 \<Rightarrow> slab_state \<Rightarrow> 'v slab \<Rightarrow> 'v slab" where
  "slab_set_state i st = slab_put i (\<lambda>s. s\<lparr>ss_state := st\<rparr>)"

definition slab_boundary :: "slab_mode \<Rightarrow> nat \<Rightarrow> nat" where
  "slab_boundary m n = (n + (sm_partitions m - 1)) div sm_partitions m"

definition slab_links :: "slab_mode \<Rightarrow> nat \<Rightarrow> u32 \<Rightarrow> u32 \<times> u32" where
  "slab_links m index n =
    (let boundary = slab_boundary m (unat n);
         (start, stop) = (if index < boundary then (0, boundary) else (boundary, unat n))
     in (if index + 1 = stop then NONE else word_of_nat index + 1,
         if index = start then NONE else word_of_nat index - 1))"

definition slab_from_slots :: "slab_mode \<Rightarrow> u32 \<Rightarrow> 'v slab_slot list \<Rightarrow> 'v slab" where
  "slab_from_slots m n slots =
    (let boundary = slab_boundary m (unat n)
     in \<lparr>sl_slots = slots, sl_count = n, sl_tail = replicate (unat n) None,
         sl_free = map (\<lambda>part. let index = if part = 0 then 0 else boundary
                      in if sm_lazy m \<or> unat n \<le> index then NONE else word_of_nat index) [0..<sm_partitions m],
         sl_len = 0, sl_retired = 0\<rparr>)"

definition slab_slots_new :: "slab_mode \<Rightarrow> u32 \<Rightarrow> 'v slab_slot list" where
  "slab_slots_new m n =
    (if sm_lazy m then []
     else map (\<lambda>index. let (n', p) = slab_links m index n
                  in slot_free (cycle_stored m generation_MIN) n' p) [0..<unat n])"

text \<open>\<open>rows\<close> is the shape of a slot and its dense cell; \<open>grant\<close> is the allocator.\<close>

definition slab_try_new :: "bool \<Rightarrow> shape \<Rightarrow> slab_mode \<Rightarrow> u32 \<Rightarrow> alloc_error + 'v slab" where
  "slab_try_new grant rows m n =
    (if rows_MAX rows < ucast n then Inl Error_Overflow
     else if \<not> grant then Inl Error_Exhausted
     else Inr (slab_from_slots m n (slab_slots_new m n)))"

definition slab_new_inline :: "slab_mode \<Rightarrow> u32 \<Rightarrow> 'v slab" where
  "slab_new_inline m n = slab_from_slots m n (slab_slots_new m n)"

text \<open>The free chain a slot belongs to, as its position among the heads.\<close>

definition slab_partition :: "slab_mode \<Rightarrow> 'v slab \<Rightarrow> u32 \<Rightarrow> nat" where
  "slab_partition m c index =
    (if sm_partitions m = 1 \<or> unat index < (unat (sl_count c) + 1) div 2 then 0 else 1)"

definition slab_remaining :: "slab_mode \<Rightarrow> 'v slab \<Rightarrow> u32" where
  "slab_remaining m c = sl_count c - (if sm_heap m then sl_retired c else 0)"

datatype slab_vacancy = Full | IdentityExhausted

definition slab_refusal :: "slab_mode \<Rightarrow> 'v slab \<Rightarrow> slab_vacancy" where
  "slab_refusal m c =
    (if sl_count c \<noteq> 0 \<and> slab_remaining m c = 0 then IdentityExhausted else Full)"

definition slab_is_full :: "'v slab \<Rightarrow> bool" where
  "slab_is_full c \<longleftrightarrow>
    unat (sl_count c) \<le> length (sl_slots c) \<and> (\<forall>head\<in>set (sl_free c). head = NONE)"

section \<open>Free slots\<close>

definition head_at :: "'v slab \<Rightarrow> nat \<Rightarrow> ('v slab \<times> u32) option" where
  "head_at c part =
    (let raw = sl_free c ! part
     in if raw = NONE then None
        else let n = fst (slot_links (slab_slot_at c raw));
                 c = (if n \<noteq> NONE then slab_put n (slot_set_prev NONE) c else c);
                 c = c\<lparr>sl_free := (sl_free c)[part := n]\<rparr>;
                 c = slab_set_state raw Reserved c
             in Some (c, raw))"

definition slots_push :: "'v slab_slot \<Rightarrow> 'v slab \<Rightarrow> ('v slab \<times> u32) option" where
  "slots_push s c =
    (let index = length (sl_slots c)
     in if unat (sl_count c) \<le> index then None
        else Some (c\<lparr>sl_slots := sl_slots c @ [s]\<rparr>, word_of_nat index))"

definition slab_free :: "slab_mode \<Rightarrow> 'v slab \<Rightarrow> ('v slab \<times> u32) option" where
  "slab_free m c =
    (case head_at c 0 of Some r \<Rightarrow> Some r
     | None \<Rightarrow>
       (case if sm_partitions m = 2 then head_at c 1 else None of Some r \<Rightarrow> Some r
        | None \<Rightarrow>
          if \<not> sm_lazy m then None
          else slots_push ((slot_free (cycle_stored m generation_MIN) NONE NONE)\<lparr>ss_state := Reserved\<rparr>) c))"

definition free_take :: "slab_mode \<Rightarrow> 'v slab \<Rightarrow> u32 \<Rightarrow> 'v slab" where
  "free_take m c index =
    (let (n, p) = slot_links (slab_slot_at c index);
         c = (if p = NONE then c\<lparr>sl_free := (sl_free c)[slab_partition m c index := n]\<rparr>
              else slab_put p (slot_set_next n) c);
         c = (if n \<noteq> NONE then slab_put n (slot_set_prev p) c else c)
     in slab_set_state index Reserved c)"

definition slab_allocated :: "slab_mode \<Rightarrow> 'v slab \<Rightarrow> u32 \<Rightarrow> ('v slab \<times> u32) option" where
  "slab_allocated m c index =
    (if ss_state (slab_slot_at c index) \<noteq> Free then None else Some (free_take m c index, index))"

definition slab_at :: "slab_mode \<Rightarrow> 'v slab \<Rightarrow> u32 \<Rightarrow> ('v slab \<times> u32) option" where
  "slab_at m c index = (if length (sl_slots c) \<le> unat index then None else slab_allocated m c index)"

text \<open>The first free slot of a range of built slots; \<open>get(start..end)\<close> fails when start exceeds end.\<close>

definition first_free :: "'v slab \<Rightarrow> nat \<Rightarrow> nat \<Rightarrow> nat option" where
  "first_free c start stop = List.find (\<lambda>i. ss_state (sl_slots c ! i) = Free) [start..<stop]"

definition slab_in_range :: "slab_mode \<Rightarrow> 'v slab \<Rightarrow> u32 \<Rightarrow> u32 \<Rightarrow> ('v slab \<times> u32) option" where
  "slab_in_range m c start stop =
    (let cap = sl_count c; split = (unat cap + 1) div 2
     in if start = 0 \<and> stop = cap then slab_free m c
        else if sm_partitions m = 2 \<and> start = 0 \<and> unat stop = split then head_at c 0
        else if sm_partitions m = 2 \<and> unat start = split \<and> stop = cap then head_at c 1
        else let stop = min (unat (min stop cap)) (length (sl_slots c))
             in if stop < unat start then None
                else map_option (\<lambda>i. (free_take m c (word_of_nat i), word_of_nat i)) (first_free c (unat start) stop))"

text \<open>Selecting a free slot other than \<open>excluded\<close> without reserving it.\<close>

definition head_except :: "'v slab \<Rightarrow> u32 \<Rightarrow> nat \<Rightarrow> u32 option" where
  "head_except c excluded part =
    (let index = sl_free c ! part
     in if index = NONE then None
        else if index = excluded
             then let n = fst (slot_links (slab_slot_at c index)) in if n = NONE then None else Some n
             else Some index)"

definition free_in_range :: "slab_mode \<Rightarrow> 'v slab \<Rightarrow> u32 \<Rightarrow> u32 \<Rightarrow> u32 \<Rightarrow> u32 option" where
  "free_in_range m c start stop excluded =
    (let cap = sl_count c; stop = min stop cap; split = (unat cap + 1) div 2;
         heads = (\<lambda>groups. List.find (\<lambda>r. r \<noteq> None) (map (head_except c excluded) groups))
     in if start = 0 \<and> stop = cap then Option.bind (heads [0..<sm_partitions m]) id
        else if sm_partitions m = 2 \<and> start = 0 \<and> unat stop = split then Option.bind (heads [0]) id
        else if sm_partitions m = 2 \<and> unat start = split \<and> stop = cap then Option.bind (heads [1]) id
        else let stop = min (unat stop) (length (sl_slots c))
             in if stop \<le> unat start then None
                else map_option word_of_nat
                       (List.find (\<lambda>i. word_of_nat i \<noteq> excluded \<and> ss_state (sl_slots c ! i) = Free)
                          [unat start..<stop]))"

section \<open>Pending and busy slots\<close>

definition slot_generation :: "slab_mode \<Rightarrow> 'v slab \<Rightarrow> u32 \<Rightarrow> u32" where
  "slot_generation m c i = cycle_generation m (ss_generation (slab_slot_at c i))"

definition slot_key :: "slab_mode \<Rightarrow> 'v slab \<Rightarrow> u32 \<Rightarrow> u64" where
  "slot_key m c i = parts_new i (slot_generation m c i)"

definition mode_TAKEN :: "slab_mode \<Rightarrow> slab_state" where
  "mode_TAKEN m = (if sm_interior m then Busy else Occupied)"

definition pending_install :: "slab_mode \<Rightarrow> 'v slab \<Rightarrow> u32 \<Rightarrow> 'v \<Rightarrow> 'v slab" where
  "pending_install m c index value' =
    (let pos = sl_len c;
         c = slab_put index (\<lambda>s. s\<lparr>ss_data := Value value'\<rparr>) c;
         c = c\<lparr>sl_tail := (sl_tail c)[unat pos := Some index]\<rparr>;
         c = c\<lparr>sl_len := pos + 1\<rparr>;
         c = slab_put index (\<lambda>s. s\<lparr>ss_position := pos\<rparr>) c
     in slab_set_state index (mode_TAKEN m) c)"

text \<open>Dropping a reservation returns its slot to the front of its chain.\<close>

definition pending_drop :: "slab_mode \<Rightarrow> 'v slab \<Rightarrow> u32 \<Rightarrow> 'v slab" where
  "pending_drop m c index =
    (let part = slab_partition m c index;
         head = sl_free c ! part;
         c = c\<lparr>sl_free := (sl_free c)[part := index]\<rparr>;
         c = slab_put index (\<lambda>s. s\<lparr>ss_data := Links head NONE\<rparr>) c;
         c = slab_set_state index Free c
     in if head \<noteq> NONE then slab_put head (slot_set_prev index) c else c)"

definition pending_reject :: "slab_mode \<Rightarrow> 'v slab \<Rightarrow> u32 \<Rightarrow> 'v slab" where
  "pending_reject m c index =
    (case cycle_next m (ss_generation (slab_slot_at c index)) of
       Some epoch \<Rightarrow> pending_drop m (slab_put index (\<lambda>s. s\<lparr>ss_generation := epoch\<rparr>) c) index
     | None \<Rightarrow>
        (let c = slab_set_state index Retired c
         in if sm_heap m then c\<lparr>sl_retired := sl_retired c + 1\<rparr> else c))"

definition busy_drop :: "slab_mode \<Rightarrow> 'v slab \<Rightarrow> u32 \<Rightarrow> 'v slab" where
  "busy_drop m c index = (if sm_interior m then slab_set_state index Occupied c else c)"

definition busy_detach :: "'v slab \<Rightarrow> u32 \<Rightarrow> 'v slab" where
  "busy_detach c index =
    (let pos = ss_position (slab_slot_at c index);
         tail = sl_len c - 1;
         c = (if pos \<noteq> tail
              then let last_index = the (sl_tail c ! unat tail);
                       c = c\<lparr>sl_tail := (sl_tail c)[unat pos := Some last_index]\<rparr>
                   in slab_put last_index (\<lambda>s. s\<lparr>ss_position := pos\<rparr>) c
              else c)
     in c\<lparr>sl_len := tail\<rparr>)"

definition busy_retire :: "slab_mode \<Rightarrow> 'v slab \<Rightarrow> u32 \<Rightarrow> 'v slab" where
  "busy_retire m c index = pending_reject m (busy_detach c index) index"

definition slab_value :: "'v slab \<Rightarrow> u32 \<Rightarrow> 'v" where
  "slab_value c index = the (slot_value (slab_slot_at c index))"

definition slab_moved :: "u32 \<Rightarrow> 'v slab \<Rightarrow> 'v slab" where
  "slab_moved index = slab_put index (\<lambda>s. s\<lparr>ss_data := Moved\<rparr>)"

definition busy_remove :: "slab_mode \<Rightarrow> 'v slab \<Rightarrow> u32 \<Rightarrow> 'v slab \<times> 'v" where
  "busy_remove m c index = (busy_retire m (slab_moved index c) index, slab_value c index)"

definition busy_discard :: "slab_mode \<Rightarrow> 'v slab \<Rightarrow> u32 \<Rightarrow> 'v slab" where
  "busy_discard m c index = busy_retire m (slab_moved index c) index"

definition busy_withdraw :: "'v slab \<Rightarrow> u32 \<Rightarrow> 'v slab \<times> 'v" where
  "busy_withdraw c index =
    (slab_set_state index Reserved (busy_detach (slab_moved index c) index), slab_value c index)"

definition busy_set_value :: "u32 \<Rightarrow> 'v \<Rightarrow> 'v slab \<Rightarrow> 'v slab" where
  "busy_set_value index v = slab_put index (\<lambda>s. s\<lparr>ss_data := Value v\<rparr>)"

definition busy_replace :: "slab_mode \<Rightarrow> 'v slab \<Rightarrow> u32 \<Rightarrow> u32 \<Rightarrow> 'v \<Rightarrow> 'v slab \<times> 'v" where
  "busy_replace m c index epoch v =
    (slab_put index (\<lambda>s. s\<lparr>ss_generation := cycle_stored m epoch\<rparr>) (busy_set_value index v c),
     slab_value c index)"

text \<open>Clearing discards the last dense slot while there is one.\<close>

function core_clear :: "slab_mode \<Rightarrow> 'v slab \<Rightarrow> 'v slab" where
  "core_clear m c =
    (if sl_len c = 0 then c
     else core_clear m (busy_discard m c (the (sl_tail c ! unat (sl_len c - 1)))))"
  by pat_completeness auto


lemma slab_put_len [simp]: "sl_len (slab_put i f c) = sl_len c"
  by (simp add: slab_put_def)

lemma slab_set_state_len [simp]: "sl_len (slab_set_state i st c) = sl_len c"
  by (simp add: slab_set_state_def)

lemma pending_reject_len [simp]: "sl_len (pending_reject m c i) = sl_len c"
  by (simp add: pending_reject_def pending_drop_def Let_def split: option.split)

lemma busy_detach_len [simp]: "sl_len (busy_detach c i) = sl_len c - 1"
  by (simp add: busy_detach_def Let_def)

lemma busy_discard_len [simp]: "sl_len (busy_discard m c i) = sl_len c - 1"
  by (simp add: busy_discard_def busy_retire_def slab_moved_def)

termination core_clear
  by (relation "measure (\<lambda>(m, c). unat (sl_len c))")
    (auto simp: unat_pred unat_gt_0 unat_eq_zero)

declare core_clear.simps [simp del]

section \<open>Lookups\<close>

datatype refusal = Refused_Free | Refused_Reserved | Refused_Retired | Refused_Stale | Refused_Busy

definition state_classify :: "slab_state \<Rightarrow> u32 \<Rightarrow> u32 \<Rightarrow> refusal + unit" where
  "state_classify st actual expected =
    (case st of
       Free \<Rightarrow> Inl Refused_Free
     | Reserved \<Rightarrow> Inl Refused_Reserved
     | Retired \<Rightarrow> Inl Refused_Retired
     | Busy \<Rightarrow> Inl Refused_Busy
     | Occupied \<Rightarrow> if actual \<noteq> expected then Inl Refused_Stale else Inr ())"

datatype key_error =
    Key_Index u64 u32
  | Key_Free u64 u32
  | Key_Reserved u64 u32
  | Key_Retired u64 u32
  | Key_Generation u64 u32
  | Key_Busy u64 u32

definition key_refused :: "u64 \<Rightarrow> u32 \<Rightarrow> refusal \<Rightarrow> key_error" where
  "key_refused key actual r =
    (case r of
       Refused_Free \<Rightarrow> Key_Free key actual
     | Refused_Reserved \<Rightarrow> Key_Reserved key actual
     | Refused_Retired \<Rightarrow> Key_Retired key actual
     | Refused_Stale \<Rightarrow> Key_Generation key actual
     | Refused_Busy \<Rightarrow> Key_Busy key actual)"

datatype observation =
    Obs_Index u32 | Obs_Free u32 | Obs_Reserved u32 | Obs_Retired u32 | Obs_Generation u32 | Obs_Busy u32

fun key_error_into_parts :: "key_error \<Rightarrow> u64 \<times> observation" where
  "key_error_into_parts (Key_Index key n) = (key, Obs_Index n)"
| "key_error_into_parts (Key_Free key g) = (key, Obs_Free g)"
| "key_error_into_parts (Key_Reserved key g) = (key, Obs_Reserved g)"
| "key_error_into_parts (Key_Retired key g) = (key, Obs_Retired g)"
| "key_error_into_parts (Key_Generation key g) = (key, Obs_Generation g)"
| "key_error_into_parts (Key_Busy key g) = (key, Obs_Busy g)"

definition key_error_observation :: "key_error \<Rightarrow> u32 \<times> u32 \<times> observation" where
  "key_error_observation e =
    (let (key, seen) = key_error_into_parts e in (parts_index key, parts_generation key, seen))"

datatype lookup_error =
    Look_Index u32 u32 | Look_Free u32 | Look_Reserved u32 | Look_Retired u32 | Look_Busy u32

definition core_try_occupied :: "'v slab \<Rightarrow> u32 \<Rightarrow> lookup_error + u32" where
  "core_try_occupied c index =
    (case ss_state (slab_slot_at c index) of
       Occupied \<Rightarrow> Inr index
     | Free \<Rightarrow> Inl (Look_Free index)
     | Reserved \<Rightarrow> Inl (Look_Reserved index)
     | Busy \<Rightarrow> Inl (Look_Busy index)
     | Retired \<Rightarrow> Inl (Look_Retired index))"

definition occupied_try_at :: "'v slab \<Rightarrow> u32 \<Rightarrow> lookup_error + u32" where
  "occupied_try_at c index =
    (if length (sl_slots c) \<le> unat index
     then Inl (if unat (sl_count c) \<le> unat index then Look_Index index (sl_count c) else Look_Free index)
     else core_try_occupied c index)"

definition occupied_at :: "'v slab \<Rightarrow> u32 \<Rightarrow> u32 option" where
  "occupied_at c index =
    (if unat index < length (sl_slots c) \<and> ss_state (slab_slot_at c index) = Occupied then Some index else None)"

definition occupied_key :: "slab_mode \<Rightarrow> 'v slab \<Rightarrow> u32 \<Rightarrow> u32 \<Rightarrow> u32 option" where
  "occupied_key m c index epoch =
    (case occupied_at c index of
       None \<Rightarrow> None | Some i \<Rightarrow> if slot_generation m c i = epoch then Some i else None)"

definition occupied_take :: "slab_mode \<Rightarrow> 'v slab \<Rightarrow> u32 \<Rightarrow> 'v slab" where
  "occupied_take m c index = (if sm_interior m then slab_set_state index (mode_TAKEN m) c else c)"

definition occupied_try_key :: "slab_mode \<Rightarrow> 'v slab \<Rightarrow> u64 \<Rightarrow> key_error + u32" where
  "occupied_try_key m c key =
    (let index = parts_index key
     in if length (sl_slots c) \<le> unat index then Inl (Key_Index key (sl_count c))
        else let actual = slot_generation m c index
             in case state_classify (ss_state (slab_slot_at c index)) actual (parts_generation key) of
                  Inl r \<Rightarrow> Inl (key_refused key actual r) | Inr u \<Rightarrow> Inr index)"

section \<open>The exclusive store\<close>

definition store_capacity :: "'v slab \<Rightarrow> u32" where
  "store_capacity c = sl_count c"

definition store_try_ready :: "slab_mode \<Rightarrow> 'v slab \<Rightarrow> slab_vacancy + unit" where
  "store_try_ready m c = (if slab_is_full c then Inl (slab_refusal m c) else Inr ())"

text \<open>Committing a value to a reservation installs it and drops the guard it becomes.\<close>

definition vacant_commit :: "slab_mode \<Rightarrow> 'v slab \<Rightarrow> u32 \<Rightarrow> 'v \<Rightarrow> 'v slab" where
  "vacant_commit m c index v = busy_drop m (pending_install m c index v) index"

definition vacant_insert :: "slab_mode \<Rightarrow> 'v slab \<Rightarrow> u32 \<Rightarrow> 'v \<Rightarrow> 'v slab \<times> u64" where
  "vacant_insert m c index v = (vacant_commit m c index v, slot_key m c index)"

definition vacant_insert_with :: "slab_mode \<Rightarrow> 'v slab \<Rightarrow> u32 \<Rightarrow> (u64 \<Rightarrow> 'v) \<Rightarrow> 'v slab \<times> u64" where
  "vacant_insert_with m c index build =
    (let key = slot_key m c index in (vacant_commit m c index (build key), key))"

definition store_insert :: "slab_mode \<Rightarrow> 'v slab \<Rightarrow> 'v \<Rightarrow> 'v slab \<times> ('v + u64)" where
  "store_insert m c v =
    (case slab_free m c of
       None \<Rightarrow> (c, Inl v)
     | Some (c, i) \<Rightarrow> (let (c, key) = vacant_insert m c i v in (c, Inr key)))"

definition store_try_vacant :: "slab_mode \<Rightarrow> 'v slab \<Rightarrow> slab_vacancy + ('v slab \<times> u32)" where
  "store_try_vacant m c = (case slab_free m c of None \<Rightarrow> Inl (slab_refusal m c) | Some r \<Rightarrow> Inr r)"

definition store_try_get :: "slab_mode \<Rightarrow> 'v slab \<Rightarrow> u64 \<Rightarrow> key_error + 'v" where
  "store_try_get m c key =
    (case occupied_try_key m c key of Inl e \<Rightarrow> Inl e | Inr i \<Rightarrow> Inr (slab_value c i))"

text \<open>The exclusive references that \<open>get_mut\<close> and \<open>into_mut\<close> lend are the slots to store through.\<close>

definition store_get_mut :: "slab_mode \<Rightarrow> 'v slab \<Rightarrow> u64 \<Rightarrow> ('v slab \<times> u32) option" where
  "store_get_mut m c key =
    (case occupied_key m c (parts_index key) (parts_generation key) of
       None \<Rightarrow> None | Some i \<Rightarrow> Some (occupied_take m c i, i))"

definition store_remove :: "slab_mode \<Rightarrow> 'v slab \<Rightarrow> u64 \<Rightarrow> 'v slab \<times> 'v option" where
  "store_remove m c key =
    (case occupied_key m c (parts_index key) (parts_generation key) of
       None \<Rightarrow> (c, None)
     | Some i \<Rightarrow> (let (c, v) = busy_remove m (occupied_take m c i) i in (c, Some v)))"

definition slab_store_clear :: "slab_mode \<Rightarrow> 'v slab \<Rightarrow> 'v slab" where
  "slab_store_clear m c = core_clear m c"

definition store_try_entry :: "slab_mode \<Rightarrow> 'v slab \<Rightarrow> u64 \<Rightarrow> key_error + ('v slab \<times> u32)" where
  "store_try_entry m c key =
    (case occupied_try_key m c key of Inl e \<Rightarrow> Inl e | Inr i \<Rightarrow> Inr (occupied_take m c i, i))"

definition store_values :: "'v slab \<Rightarrow> 'v list" where
  "store_values c =
    map (slab_value c) (List.map_filter (\<lambda>i. occupied_at c (word_of_nat i)) [0..<unat (sl_count c)])"

definition store_key_at :: "slab_mode \<Rightarrow> 'v slab \<Rightarrow> usize \<Rightarrow> u64 option" where
  "store_key_at m c index =
    (if 4294967295 < index then None
     else case occupied_at c (ucast index) of None \<Rightarrow> None | Some i \<Rightarrow> Some (slot_key m c i))"

definition store_value_at :: "'v slab \<Rightarrow> u32 \<Rightarrow> 'v option" where
  "store_value_at c index = map_option (slab_value c) (occupied_at c index)"

definition store_vacant_at :: "slab_mode \<Rightarrow> 'v slab \<Rightarrow> u32 \<Rightarrow> ('v slab \<times> u32) option" where
  "store_vacant_at m c index = slab_at m c index"

definition store_vacant_in :: "slab_mode \<Rightarrow> 'v slab \<Rightarrow> u32 \<Rightarrow> u32 \<Rightarrow> ('v slab \<times> u32) option" where
  "store_vacant_in m c start stop = slab_in_range m c start stop"

definition store_entry_at :: "slab_mode \<Rightarrow> 'v slab \<Rightarrow> u32 \<Rightarrow> ('v slab \<times> u32) option" where
  "store_entry_at m c index = map_option (\<lambda>i. (occupied_take m c i, i)) (occupied_at c index)"

definition store_try_entry_at :: "slab_mode \<Rightarrow> 'v slab \<Rightarrow> u32 \<Rightarrow> lookup_error + ('v slab \<times> u32)" where
  "store_try_entry_at m c index =
    (case occupied_try_at c index of Inl e \<Rightarrow> Inl e | Inr i \<Rightarrow> Inr (occupied_take m c i, i))"

text \<open>A withdrawn value's reservation is restored under its key, or retires it when dropped.\<close>

definition withdrawn_insert :: "slab_mode \<Rightarrow> 'v slab \<Rightarrow> u32 \<Rightarrow> 'v \<Rightarrow> 'v slab" where
  "withdrawn_insert m c index v = pending_install m c index v"

definition withdrawn_drop :: "slab_mode \<Rightarrow> 'v slab \<Rightarrow> u32 \<Rightarrow> 'v slab" where
  "withdrawn_drop m c index = pending_reject m c index"

text \<open>A staged insertion is published, or discarded when dropped.\<close>

definition staged_publish :: "slab_mode \<Rightarrow> 'v slab \<Rightarrow> u32 \<Rightarrow> 'v slab" where
  "staged_publish m c index = busy_drop m c index"

definition staged_drop :: "slab_mode \<Rightarrow> 'v slab \<Rightarrow> u32 \<Rightarrow> 'v slab" where
  "staged_drop m c index = busy_discard m c index"

definition vacant_stage :: "slab_mode \<Rightarrow> 'v slab \<Rightarrow> u32 \<Rightarrow> 'v \<Rightarrow> 'v slab" where
  "vacant_stage m c index v = pending_install m c index v"

definition staged_reject :: "slab_mode \<Rightarrow> 'v slab \<Rightarrow> u32 \<Rightarrow> 'v slab \<times> 'v" where
  "staged_reject m c index = busy_remove m c index"

text \<open>A refused split drops the reservation it consumed.\<close>

definition vacant_try_split :: "slab_mode \<Rightarrow> 'v slab \<Rightarrow> u32 \<Rightarrow> u64 \<Rightarrow> 'v slab \<times> (key_error + u32)" where
  "vacant_try_split m c index key =
    (case occupied_try_key m c key of
       Inl e \<Rightarrow> (pending_drop m c index, Inl e)
     | Inr i \<Rightarrow> (occupied_take m c i, Inr i))"

definition store_contains :: "'v slab \<Rightarrow> u64 \<Rightarrow> bool" where
  "store_contains c key \<longleftrightarrow>
    ss_state (slab_slot_at c (parts_index key)) = Occupied \<and>
    ss_generation (slab_slot_at c (parts_index key)) = parts_generation key"

definition reuse_try_from :: "slab_mode \<Rightarrow> 'v slab \<Rightarrow> u32 \<Rightarrow> u32 option" where
  "reuse_try_from m c index = generation_checked_add (sm_max m) (slot_generation m c index) 1"

definition reuse_replace :: "slab_mode \<Rightarrow> 'v slab \<Rightarrow> u32 \<Rightarrow> u32 \<Rightarrow> 'v \<Rightarrow> 'v slab \<times> 'v" where
  "reuse_replace m c index epoch v = busy_replace m c index epoch v"

section \<open>The interior cell\<close>

definition cell_try_vacancy :: "slab_mode \<Rightarrow> 'v slab \<Rightarrow> slab_vacancy + ('v slab \<times> u32)" where
  "cell_try_vacancy m c = (case slab_free m c of None \<Rightarrow> Inl (slab_refusal m c) | Some r \<Rightarrow> Inr r)"

definition cell_entry :: "slab_mode \<Rightarrow> 'v slab \<Rightarrow> u64 \<Rightarrow> ('v slab \<times> u32) option" where
  "cell_entry m c parts =
    (case occupied_key m c (parts_index parts) (parts_generation parts) of
       None \<Rightarrow> None | Some i \<Rightarrow> Some (occupied_take m c i, i))"

definition cell_try_entry :: "slab_mode \<Rightarrow> 'v slab \<Rightarrow> u64 \<Rightarrow> key_error + ('v slab \<times> u32)" where
  "cell_try_entry m c key =
    (case occupied_try_key m c key of Inl e \<Rightarrow> Inl e | Inr i \<Rightarrow> Inr (occupied_take m c i, i))"

definition cell_update :: "slab_mode \<Rightarrow> 'v slab \<Rightarrow> u64 \<Rightarrow> ('v \<Rightarrow> 'v \<times> 'r) \<Rightarrow> 'v slab \<times> 'r option" where
  "cell_update m c key f =
    (case cell_entry m c key of
       None \<Rightarrow> (c, None)
     | Some (c, i) \<Rightarrow> (let (v, r) = f (slab_value c i) in (busy_drop m (busy_set_value i v c) i, Some r)))"

end
