(* ===== verification/O3_Slab_Proofs.thy ===== *)
theory O3_Slab_Proofs
  imports O3_Slab
begin

text \<open>
  The parts of a slab agree: the free chains hold exactly the free slots of their partition, linked
  both ways; the dense plane lists exactly the occupied slots, each at the position it names; the
  retirement count is exact. Every operation is described by what it does to the view of one slot:
  its state, its generation and its value.
\<close>

section \<open>Doubly linked chains\<close>

primrec chained :: "(u32 \<Rightarrow> u32 \<times> u32) \<Rightarrow> u32 \<Rightarrow> u32 \<Rightarrow> u32 list \<Rightarrow> bool" where
  "chained L p h [] \<longleftrightarrow> h = NONE"
| "chained L p h (x # xs) \<longleftrightarrow> h = x \<and> x \<noteq> NONE \<and> snd (L x) = p \<and> chained L x (fst (L x)) xs"

lemma chained_frame: "(\<And>x. x \<in> set xs \<Longrightarrow> L' x = L x) \<Longrightarrow> chained L' p h xs \<longleftrightarrow> chained L p h xs"
  by (induction xs arbitrary: p h) auto

lemma chained_not_NONE: "chained L p h xs \<Longrightarrow> x \<in> set xs \<Longrightarrow> x \<noteq> NONE"
  by (induction xs arbitrary: p h) auto

lemma chained_head: "chained L p h xs \<Longrightarrow> h = (case xs of [] \<Rightarrow> NONE | x # _ \<Rightarrow> x)"
  by (cases xs) auto

lemma chained_push:
  assumes "chained L p h xs" "i \<notin> set xs" "distinct xs" "i \<noteq> NONE" "L' i = (h, q)"
    and "\<And>x. x \<in> set xs \<Longrightarrow> L' x = (fst (L x), if x = h then i else snd (L x))"
  shows "chained L' q i (i # xs)"
proof (cases xs)
  case (Cons y ys)
  have "chained L' y (fst (L y)) ys \<longleftrightarrow> chained L y (fst (L y)) ys"
    using assms(1,3,6) Cons by (intro chained_frame) auto
  then show ?thesis
    using assms Cons by auto
qed (use assms in auto)

lemma chained_split:
  assumes "chained L p h (ys @ i # zs)"
  shows "fst (L i) = (case zs of [] \<Rightarrow> NONE | z # _ \<Rightarrow> z)" "snd (L i) = (if ys = [] then p else last ys)"
    "chained L i (fst (L i)) zs"
proof -
  have "snd (L i) = (if ys = [] then p else last ys) \<and> chained L i (fst (L i)) zs"
    using assms
  proof (induction ys arbitrary: p h)
    case (Cons y ys)
    then show ?case
      using Cons.IH [of y "fst (L y)"] by simp
  qed simp
  then show "snd (L i) = (if ys = [] then p else last ys)" and zs: "chained L i (fst (L i)) zs"
    by simp_all
  show "fst (L i) = (case zs of [] \<Rightarrow> NONE | z # _ \<Rightarrow> z)"
    by (rule chained_head [OF zs])
qed

lemma chained_remove:
  assumes "chained L p h (ys @ i # zs)" "distinct (ys @ i # zs)"
    and "\<And>x. x \<in> set (ys @ zs) \<Longrightarrow> L' x =
      (if ys \<noteq> [] \<and> x = last ys then fst (L i) else fst (L x), if x = fst (L i) then snd (L i) else snd (L x))"
  shows "chained L' p (if ys = [] then fst (L i) else h) (ys @ zs)"
  using assms
proof (induction ys arbitrary: p h)
  case Nil
  show ?case
  proof (cases zs)
    case (Cons z zs')
    have "chained L' z (fst (L z)) zs' \<longleftrightarrow> chained L z (fst (L z)) zs'"
      using Nil Cons by (intro chained_frame) auto
    then show ?thesis
      using Nil Cons by auto
  qed (use Nil in auto)
next
  case (Cons y ys)
  have ne: "fst (L i) \<noteq> y"
    using chained_split(1) [OF Cons.prems(1)] Cons.prems(1,2) by (cases zs) auto
  have y: "L' y = (if ys = [] then fst (L i) else fst (L y), snd (L y))"
    using Cons.prems(3) [of y] Cons.prems(2) ne by auto
  have tail: "chained L y (fst (L y)) (ys @ i # zs)" and head: "h = y" "y \<noteq> NONE" "snd (L y) = p"
    using Cons.prems(1) by auto
  have "chained L' y (if ys = [] then fst (L i) else fst (L y)) (ys @ zs)"
  proof (rule Cons.IH [OF tail])
    show "distinct (ys @ i # zs)"
      using Cons.prems(2) by simp
    show "L' x = (if ys \<noteq> [] \<and> x = last ys then fst (L i) else fst (L x), if x = fst (L i) then snd (L i) else snd (L x))"
      if "x \<in> set (ys @ zs)" for x
      using Cons.prems(3) [of x] Cons.prems(2) that by (cases "ys = []") auto
  qed
  then show ?case
    using y head by (auto split: if_splits)
qed

section \<open>The invariant\<close>

definition built :: "'v slab \<Rightarrow> u32 \<Rightarrow> bool" where
  "built c i \<longleftrightarrow> unat i < length (sl_slots c)"

abbreviation state_of :: "'v slab \<Rightarrow> u32 \<Rightarrow> slab_state" where
  "state_of c i \<equiv> ss_state (slab_slot_at c i)"

abbreviation links_of :: "'v slab \<Rightarrow> u32 \<Rightarrow> u32 \<times> u32" where
  "links_of c i \<equiv> slot_links (slab_slot_at c i)"

definition alive :: "slab_state \<Rightarrow> bool" where
  "alive st \<longleftrightarrow> st = Occupied \<or> st = Busy"

definition sizes_ok :: "slab_mode \<Rightarrow> 'v slab \<Rightarrow> bool" where
  "sizes_ok m c \<longleftrightarrow>
    sm_partitions m \<in> {1, 2} \<and> sm_max m \<noteq> 0 \<and> length (sl_free c) = sm_partitions m \<and>
    length (sl_slots c) \<le> unat (sl_count c) \<and> (\<not> sm_lazy m \<longrightarrow> length (sl_slots c) = unat (sl_count c)) \<and>
    length (sl_tail c) = unat (sl_count c)"

definition chains_ok :: "slab_mode \<Rightarrow> 'v slab \<Rightarrow> (nat \<Rightarrow> u32 list) \<Rightarrow> bool" where
  "chains_ok m c fs \<longleftrightarrow>
    (\<forall>g < sm_partitions m. chained (links_of c) NONE (sl_free c ! g) (fs g) \<and> distinct (fs g) \<and>
      (\<forall>i. i \<in> set (fs g) \<longleftrightarrow> built c i \<and> state_of c i = Free \<and> slab_partition m c i = g))"

definition dense_ok :: "'v slab \<Rightarrow> u32 list \<Rightarrow> bool" where
  "dense_ok c ds \<longleftrightarrow>
    unat (sl_len c) = length ds \<and> distinct ds \<and> (\<forall>i. i \<in> set ds \<longleftrightarrow> built c i \<and> alive (state_of c i)) \<and>
    (\<forall>k < length ds. sl_tail c ! k = Some (ds ! k) \<and> unat (ss_position (slab_slot_at c (ds ! k))) = k)"

definition slots_ok :: "slab_mode \<Rightarrow> 'v slab \<Rightarrow> bool" where
  "slots_ok m c \<longleftrightarrow>
    (\<forall>i. built c i \<longrightarrow> (alive (state_of c i) \<longrightarrow> slot_value (slab_slot_at c i) \<noteq> None) \<and>
      (state_of c i = Busy \<longrightarrow> sm_interior m) \<and>
      1 \<le> cycle_generation m (ss_generation (slab_slot_at c i)) \<and>
      cycle_generation m (ss_generation (slab_slot_at c i)) \<le> sm_max m) \<and>
    (sm_heap m \<longrightarrow> unat (sl_retired c) = card {i. built c i \<and> state_of c i = Retired})"

definition slab_ok :: "slab_mode \<Rightarrow> 'v slab \<Rightarrow> bool" where
  "slab_ok m c \<longleftrightarrow> sizes_ok m c \<and> (\<exists>fs. chains_ok m c fs) \<and> (\<exists>ds. dense_ok c ds) \<and> slots_ok m c"

section \<open>Updates of one slot\<close>

lemma unat_inj: "unat (i :: u32) = unat j \<longleftrightarrow> i = j"
  by (simp add: word_unat_eq_iff)

lemma put_slot [simp]:
  "built c i \<Longrightarrow> slab_slot_at (slab_put i f c) j = (if j = i then f (slab_slot_at c i) else slab_slot_at c j)"
  by (simp add: built_def slab_put_def slab_slot_at_def nth_list_update unat_inj)

lemma put_fields [simp]:
  "built (slab_put i f c) j \<longleftrightarrow> built c j"
  "length (sl_slots (slab_put i f c)) = length (sl_slots c)"
  "sl_count (slab_put i f c) = sl_count c" "sl_tail (slab_put i f c) = sl_tail c"
  "sl_free (slab_put i f c) = sl_free c" "sl_retired (slab_put i f c) = sl_retired c"
  "slab_partition m (slab_put i f c) j = slab_partition m c j"
  by (simp_all add: built_def slab_put_def slab_partition_def)

lemma field_slots [simp]:
  "slab_slot_at (c\<lparr>sl_free := a\<rparr>) j = slab_slot_at c j" "slab_slot_at (c\<lparr>sl_tail := b\<rparr>) j = slab_slot_at c j"
  "slab_slot_at (c\<lparr>sl_len := n\<rparr>) j = slab_slot_at c j" "slab_slot_at (c\<lparr>sl_retired := n\<rparr>) j = slab_slot_at c j"
  "built (c\<lparr>sl_free := a\<rparr>) j = built c j" "built (c\<lparr>sl_tail := b\<rparr>) j = built c j"
  "built (c\<lparr>sl_len := n\<rparr>) j = built c j" "built (c\<lparr>sl_retired := n\<rparr>) j = built c j"
  "slab_partition m (c\<lparr>sl_free := a\<rparr>) j = slab_partition m c j" "slab_partition m (c\<lparr>sl_tail := b\<rparr>) j = slab_partition m c j"
  "slab_partition m (c\<lparr>sl_len := n\<rparr>) j = slab_partition m c j" "slab_partition m (c\<lparr>sl_retired := n\<rparr>) j = slab_partition m c j"
  by (simp_all add: slab_slot_at_def built_def slab_partition_def)

lemma set_state_slot [simp]:
  "built c i \<Longrightarrow> slab_slot_at (slab_set_state i st c) j = (if j = i then (slab_slot_at c i)\<lparr>ss_state := st\<rparr> else slab_slot_at c j)"
  by (simp add: slab_set_state_def)

lemma set_state_fields [simp]:
  "built (slab_set_state i st c) j \<longleftrightarrow> built c j"
  "length (sl_slots (slab_set_state i st c)) = length (sl_slots c)"
  "sl_count (slab_set_state i st c) = sl_count c" "sl_tail (slab_set_state i st c) = sl_tail c"
  "sl_free (slab_set_state i st c) = sl_free c" "sl_retired (slab_set_state i st c) = sl_retired c"
  "slab_partition m (slab_set_state i st c) j = slab_partition m c j"
  by (simp_all add: slab_set_state_def)

lemma set_links_fields [simp]:
  "ss_state (slot_set_next n s) = ss_state s" "ss_generation (slot_set_next n s) = ss_generation s"
  "ss_position (slot_set_next n s) = ss_position s" "slot_links (slot_set_next n s) = (n, snd (slot_links s))"
  "ss_state (slot_set_prev n s) = ss_state s" "ss_generation (slot_set_prev n s) = ss_generation s"
  "ss_position (slot_set_prev n s) = ss_position s" "slot_links (slot_set_prev n s) = (fst (slot_links s), n)"
  by (simp_all add: slot_set_next_def slot_set_prev_def slot_links_def)

lemma slot_update_fields [simp]:
  "slot_links (s\<lparr>ss_state := st\<rparr>) = slot_links s" "slot_links (s\<lparr>ss_generation := g\<rparr>) = slot_links s"
  "slot_links (s\<lparr>ss_position := p\<rparr>) = slot_links s" "slot_links (s\<lparr>ss_data := Links a b\<rparr>) = (a, b)"
  "slot_value (s\<lparr>ss_state := st\<rparr>) = slot_value s" "slot_value (s\<lparr>ss_generation := g\<rparr>) = slot_value s"
  "slot_value (s\<lparr>ss_position := p\<rparr>) = slot_value s" "slot_value (s\<lparr>ss_data := Value v\<rparr>) = Some v"
  by (simp_all add: slot_links_def slot_value_def)

lemma alive_simps [simp]: "alive Occupied" "alive Busy" "\<not> alive Free" "\<not> alive Reserved" "\<not> alive Retired"
  by (simp_all add: alive_def)

lemma slab_partition_less: "sm_partitions m \<in> {1, 2} \<Longrightarrow> slab_partition m c i < sm_partitions m"
  by (auto simp: slab_partition_def)


text \<open>An update that neither moves a slot between the chains and the dense plane nor touches its links.\<close>

lemma chains_ok_cong:
  assumes "chains_ok m c fs" "sl_free c' = sl_free c"
    and "\<And>j. built c' j \<and> state_of c' j = Free \<longleftrightarrow> built c j \<and> state_of c j = Free"
    and "\<And>j. built c j \<Longrightarrow> state_of c j = Free \<Longrightarrow> slab_partition m c' j = slab_partition m c j"
    and "\<And>j. built c j \<Longrightarrow> state_of c j = Free \<Longrightarrow> links_of c' j = links_of c j"
  shows "chains_ok m c' fs"
  unfolding chains_ok_def
proof (intro allI impI)
  fix g assume g: "g < sm_partitions m"
  have "chained (links_of c') NONE (sl_free c' ! g) (fs g) \<longleftrightarrow> chained (links_of c) NONE (sl_free c' ! g) (fs g)"
    using assms(1,5) g by (intro chained_frame) (auto simp: chains_ok_def)
  moreover have "built c' i \<and> state_of c' i = Free \<and> slab_partition m c' i = g \<longleftrightarrow>
      built c i \<and> state_of c i = Free \<and> slab_partition m c i = g" for i
    using assms(3) [of i] assms(4) [of i] by auto
  ultimately show "chained (links_of c') NONE (sl_free c' ! g) (fs g) \<and> distinct (fs g) \<and>
      (\<forall>i. i \<in> set (fs g) \<longleftrightarrow> built c' i \<and> state_of c' i = Free \<and> slab_partition m c' i = g)"
    using assms(1,2) g by (simp add: chains_ok_def)
qed

lemma dense_ok_cong:
  assumes "dense_ok c ds" "sl_len c' = sl_len c" "sl_tail c' = sl_tail c"
    and "\<And>j. built c' j \<and> alive (state_of c' j) \<longleftrightarrow> built c j \<and> alive (state_of c j)"
    and "\<And>j. built c j \<Longrightarrow> alive (state_of c j) \<Longrightarrow> ss_position (slab_slot_at c' j) = ss_position (slab_slot_at c j)"
  shows "dense_ok c' ds"
proof -
  have "ss_position (slab_slot_at c' (ds ! k)) = ss_position (slab_slot_at c (ds ! k))" if "k < length ds" for k
    using assms(1) nth_mem [OF that] by (intro assms(5)) (simp_all add: dense_ok_def)
  then show ?thesis
    using assms(1,2,3) by (simp add: dense_ok_def assms(4))
qed

lemma slots_ok_cong:
  assumes "slots_ok m c" "sl_retired c' = sl_retired c"
    and "\<And>j. built c' j \<and> state_of c' j = Retired \<longleftrightarrow> built c j \<and> state_of c j = Retired"
    and "\<And>j. built c' j \<Longrightarrow> alive (state_of c' j) \<Longrightarrow> slot_value (slab_slot_at c' j) \<noteq> None"
    and "\<And>j. built c' j \<Longrightarrow> state_of c' j = Busy \<Longrightarrow> sm_interior m"
    and "\<And>j. built c' j \<Longrightarrow> 1 \<le> cycle_generation m (ss_generation (slab_slot_at c' j)) \<and>
      cycle_generation m (ss_generation (slab_slot_at c' j)) \<le> sm_max m"
  shows "slots_ok m c'"
  using assms by (simp add: slots_ok_def)

lemma slots_okD:
  assumes "slots_ok m c" "built c i"
  shows "alive (state_of c i) \<Longrightarrow> slot_value (slab_slot_at c i) \<noteq> None" "state_of c i = Busy \<Longrightarrow> sm_interior m"
    "1 \<le> cycle_generation m (ss_generation (slab_slot_at c i)) \<and> cycle_generation m (ss_generation (slab_slot_at c i)) \<le> sm_max m"
  using assms by (simp_all add: slots_ok_def)

lemma quiet_put:
  assumes ok: "sizes_ok m c" "chains_ok m c fs" "dense_ok c ds" "slots_ok m c" and i: "built c i"
  defines "s \<equiv> slab_slot_at c i"
  assumes "ss_state (f s) = Free \<longleftrightarrow> ss_state s = Free" "ss_state s = Free \<Longrightarrow> slot_links (f s) = slot_links s"
    "alive (ss_state (f s)) \<longleftrightarrow> alive (ss_state s)" "alive (ss_state s) \<Longrightarrow> ss_position (f s) = ss_position s"
    "ss_state (f s) = Retired \<longleftrightarrow> ss_state s = Retired" "alive (ss_state s) \<Longrightarrow> slot_value (f s) \<noteq> None"
    "ss_state (f s) = Busy \<Longrightarrow> sm_interior m"
    "1 \<le> cycle_generation m (ss_generation (f s)) \<and> cycle_generation m (ss_generation (f s)) \<le> sm_max m"
  shows "sizes_ok m (slab_put i f c)" "chains_ok m (slab_put i f c) fs" "dense_ok (slab_put i f c) ds" "slots_ok m (slab_put i f c)"
proof -
  show "sizes_ok m (slab_put i f c)"
    using ok(1) by (simp add: sizes_ok_def)
  show "chains_ok m (slab_put i f c) fs"
    using assms(6-) i by (intro chains_ok_cong [OF ok(2)]) auto
  show "dense_ok (slab_put i f c) ds"
    using assms(6-) i by (intro dense_ok_cong [OF ok(3)]) auto
  show "slots_ok m (slab_put i f c)"
    using assms(6-) i slots_okD [OF ok(4)] by (intro slots_ok_cong [OF ok(4)]) (auto split: if_splits)
qed

section \<open>The view of a slab\<close>

definition slab_view :: "slab_mode \<Rightarrow> 'v slab \<Rightarrow> u32 \<Rightarrow> slab_state \<times> u32 \<times> 'v option" where
  "slab_view m c i =
    (if built c i
     then (state_of c i, slot_generation m c i, if alive (state_of c i) then slot_value (slab_slot_at c i) else None)
     else (Free, generation_MIN, None))"

lemma view_eqI:
  assumes "\<And>j. built c' j \<longleftrightarrow> built c j"
    and "\<And>j. built c j \<Longrightarrow> j \<noteq> i \<Longrightarrow> state_of c' j = state_of c j \<and> ss_generation (slab_slot_at c' j) = ss_generation (slab_slot_at c j) \<and>
      (alive (state_of c j) \<longrightarrow> slot_value (slab_slot_at c' j) = slot_value (slab_slot_at c j))"
    and "slab_view m c' i = x"
  shows "slab_view m c' = (slab_view m c)(i := x)"
proof
  fix j
  show "slab_view m c' j = ((slab_view m c)(i := x)) j"
    using assms by (cases "j = i") (auto simp: slab_view_def slot_generation_def)
qed

lemma slab_okI: "sizes_ok m c \<Longrightarrow> chains_ok m c fs \<Longrightarrow> dense_ok c ds \<Longrightarrow> slots_ok m c \<Longrightarrow> slab_ok m c"
  by (auto simp: slab_ok_def)

lemma slab_okE:
  assumes "slab_ok m c"
  obtains fs ds where "sizes_ok m c" "chains_ok m c fs" "dense_ok c ds" "slots_ok m c"
  using assms by (auto simp: slab_ok_def)

lemma built_not_NONE: "sizes_ok m c \<Longrightarrow> built c i \<Longrightarrow> i \<noteq> NONE"
proof
  assume a: "sizes_ok m c" "built c i" "i = NONE"
  have "unat (NONE :: u32) = 2 ^ 32 - 1"
    by (simp add: NONE_def unsigned_minus_1_eq_mask mask_eq_exp_minus_1)
  then show False
    using a unat_bound [of "sl_count c"] by (simp add: sizes_ok_def built_def)
qed

section \<open>Reserving a free slot\<close>

lemma chains_okD:
  assumes "chains_ok m c fs" "g < sm_partitions m"
  shows "chained (links_of c) NONE (sl_free c ! g) (fs g)" "distinct (fs g)"
    "i \<in> set (fs g) \<longleftrightarrow> built c i \<and> state_of c i = Free \<and> slab_partition m c i = g"
  using assms by (auto simp: chains_ok_def)

lemma free_take_shape:
  assumes sizes: "sizes_ok m c" and chains: "chains_ok m c fs" and i: "built c i" "state_of c i = Free"
  obtains g ys zs where "g = slab_partition m c i" "g < sm_partitions m" "fs g = ys @ i # zs"
    "snd (links_of c i) = (if ys = [] then NONE else last ys)"
    "fst (links_of c i) \<in> set (fs g) \<or> fst (links_of c i) = NONE" "snd (links_of c i) \<in> set (fs g) \<or> snd (links_of c i) = NONE"
    "fst (links_of c i) \<noteq> i" "snd (links_of c i) \<noteq> i" "snd (links_of c i) = NONE \<longleftrightarrow> ys = []"
    "fst (links_of c i) \<noteq> snd (links_of c i) \<or> fst (links_of c i) = NONE"
proof -
  define g where "g = slab_partition m c i"
  have g: "g < sm_partitions m"
    using sizes slab_partition_less [of m c i] by (simp add: sizes_ok_def g_def)
  note ch = chains_okD [OF chains g]
  have "i \<in> set (fs g)"
    using i ch(3) [of i] by (simp add: g_def)
  then obtain ys zs where fs: "fs g = ys @ i # zs"
    by (auto dest: split_list)
  note sp = chained_split [OF ch(1) [unfolded fs]]
  have n: "fst (links_of c i) \<in> set zs \<or> fst (links_of c i) = NONE"
    using sp(1) by (cases zs) auto
  have p: "snd (links_of c i) \<in> set ys \<or> snd (links_of c i) = NONE \<and> ys = []"
    using sp(2) last_in_set [of ys] by (cases "ys = []") auto
  have none: "NONE \<notin> set (ys @ i # zs)"
    using ch(3) fs built_not_NONE [OF sizes] by metis
  have d: "distinct (ys @ i # zs)"
    using ch(2) fs by simp
  show ?thesis
    by (rule that [of g ys zs]) (use g_def g fs sp(2) n p none d in auto)
qed

text \<open>What taking a free slot writes.\<close>

lemma free_take_fields:
  "sl_count (free_take m c i) = sl_count c" "sl_retired (free_take m c i) = sl_retired c"
  "sl_tail (free_take m c i) = sl_tail c" "sl_len (free_take m c i) = sl_len c"
  "length (sl_slots (free_take m c i)) = length (sl_slots c)" "slab_partition m' (free_take m c i) j = slab_partition m' c j"
  "built (free_take m c i) = built c"
  "sl_free (free_take m c i) =
    (if snd (links_of c i) = NONE then (sl_free c)[slab_partition m c i := fst (links_of c i)] else sl_free c)"
  by (simp_all add: free_take_def split_beta Let_def fun_eq_iff)

lemma free_take_slot:
  assumes "built c i" "built c (fst (links_of c i)) \<or> fst (links_of c i) = NONE"
    and "built c (snd (links_of c i)) \<or> snd (links_of c i) = NONE"
    and "fst (links_of c i) \<noteq> i" "snd (links_of c i) \<noteq> i"
    and "fst (links_of c i) \<noteq> snd (links_of c i) \<or> fst (links_of c i) = NONE"
  shows "slab_slot_at (free_take m c i) j =
      (if j = i then (slab_slot_at c i)\<lparr>ss_state := Reserved\<rparr>
       else if j = fst (links_of c i) \<and> j \<noteq> NONE then slot_set_prev (snd (links_of c i)) (slab_slot_at c j)
       else if j = snd (links_of c i) \<and> j \<noteq> NONE then slot_set_next (fst (links_of c i)) (slab_slot_at c j)
       else slab_slot_at c j)"
  using assms by (auto simp: free_take_def split_beta Let_def)

lemma free_take_write:
  assumes inv: "sizes_ok m c" "chains_ok m c fs" and i: "built c i" "state_of c i = Free"
  obtains g ys zs n p where "g = slab_partition m c i" "g < sm_partitions m" "fs g = ys @ i # zs"
    "n = fst (links_of c i)" "p = snd (links_of c i)" "p = (if ys = [] then NONE else last ys)" "p = NONE \<longleftrightarrow> ys = []"
    "n \<in> set (fs g) \<or> n = NONE" "p \<in> set (fs g) \<or> p = NONE"
    "\<And>j. slab_slot_at (free_take m c i) j =
      (if j = i then (slab_slot_at c i)\<lparr>ss_state := Reserved\<rparr>
       else if j = n \<and> j \<noteq> NONE then slot_set_prev p (slab_slot_at c j)
       else if j = p \<and> j \<noteq> NONE then slot_set_next n (slab_slot_at c j) else slab_slot_at c j)"
    "n \<noteq> p \<or> n = NONE"
proof -
  obtain g ys zs where sh: "g = slab_partition m c i" "g < sm_partitions m" "fs g = ys @ i # zs"
    "snd (links_of c i) = (if ys = [] then NONE else last ys)"
    "fst (links_of c i) \<in> set (fs g) \<or> fst (links_of c i) = NONE" "snd (links_of c i) \<in> set (fs g) \<or> snd (links_of c i) = NONE"
    "fst (links_of c i) \<noteq> i" "snd (links_of c i) \<noteq> i" "snd (links_of c i) = NONE \<longleftrightarrow> ys = []"
    "fst (links_of c i) \<noteq> snd (links_of c i) \<or> fst (links_of c i) = NONE"
    by (rule free_take_shape [OF inv i])
  note cg = chains_okD [OF inv(2) sh(2)]
  have "slab_slot_at (free_take m c i) j =
      (if j = i then (slab_slot_at c i)\<lparr>ss_state := Reserved\<rparr>
       else if j = fst (links_of c i) \<and> j \<noteq> NONE then slot_set_prev (snd (links_of c i)) (slab_slot_at c j)
       else if j = snd (links_of c i) \<and> j \<noteq> NONE then slot_set_next (fst (links_of c i)) (slab_slot_at c j)
       else slab_slot_at c j)" for j
    using sh(5,6) cg(3) by (intro free_take_slot [OF i(1) _ _ sh(7,8,10)]) auto
  then show ?thesis
    by (rule that [OF sh(1-3) refl refl sh(4,9,5,6) _ sh(10)])
qed

text \<open>The slot is reserved, and no other slot changes except in its links.\<close>

lemma free_take_only:
  assumes inv: "sizes_ok m c" "chains_ok m c fs" and i: "built c i" "state_of c i = Free"
  shows "slab_slot_at (free_take m c i) i = (slab_slot_at c i)\<lparr>ss_state := Reserved\<rparr>"
    "j \<noteq> i \<Longrightarrow> slab_slot_at (free_take m c i) j = slab_slot_at c j \<or> built c j \<and> state_of c j = Free \<and>
      (\<exists>l. slab_slot_at (free_take m c i) j = slot_set_next l (slab_slot_at c j) \<or>
        slab_slot_at (free_take m c i) j = slot_set_prev l (slab_slot_at c j))"
proof -
  obtain g ys zs n p where w: "g = slab_partition m c i" "g < sm_partitions m" "fs g = ys @ i # zs"
    "n \<in> set (fs g) \<or> n = NONE" "p \<in> set (fs g) \<or> p = NONE"
    and slot: "\<And>j. slab_slot_at (free_take m c i) j =
      (if j = i then (slab_slot_at c i)\<lparr>ss_state := Reserved\<rparr>
       else if j = n \<and> j \<noteq> NONE then slot_set_prev p (slab_slot_at c j)
       else if j = p \<and> j \<noteq> NONE then slot_set_next n (slab_slot_at c j) else slab_slot_at c j)"
    using free_take_write [OF inv i, of thesis] by blast
  show "slab_slot_at (free_take m c i) i = (slab_slot_at c i)\<lparr>ss_state := Reserved\<rparr>"
    by (simp add: slot)
  show "slab_slot_at (free_take m c i) j = slab_slot_at c j \<or> built c j \<and> state_of c j = Free \<and>
      (\<exists>l. slab_slot_at (free_take m c i) j = slot_set_next l (slab_slot_at c j) \<or>
        slab_slot_at (free_take m c i) j = slot_set_prev l (slab_slot_at c j))" if "j \<noteq> i"
    using that w(4,5) chains_okD(3) [OF inv(2) w(2)] by (auto simp: slot)
qed

lemma free_take_chains:
  assumes inv: "sizes_ok m c" "chains_ok m c fs" and i: "built c i" "state_of c i = Free"
  shows "\<exists>fs'. chains_ok m (free_take m c i) fs'"
proof -
  obtain g ys zs n p where w: "g = slab_partition m c i" "g < sm_partitions m" "fs g = ys @ i # zs"
    "n = fst (links_of c i)" "p = snd (links_of c i)" "p = (if ys = [] then NONE else last ys)" "p = NONE \<longleftrightarrow> ys = []"
    "n \<in> set (fs g) \<or> n = NONE" "p \<in> set (fs g) \<or> p = NONE"
    and slot: "\<And>j. slab_slot_at (free_take m c i) j =
      (if j = i then (slab_slot_at c i)\<lparr>ss_state := Reserved\<rparr>
       else if j = n \<and> j \<noteq> NONE then slot_set_prev p (slab_slot_at c j)
       else if j = p \<and> j \<noteq> NONE then slot_set_next n (slab_slot_at c j) else slab_slot_at c j)"
    and np: "n \<noteq> p \<or> n = NONE"
    using free_take_write [OF inv i, of thesis] by blast
  let ?c = "free_take m c i"
  note cg = chains_okD [OF inv(2) w(2)]
  have states: "state_of ?c j = (if j = i then Reserved else state_of c j)" for j
    by (simp add: slot)
  have lk: "links_of ?c x = (if x = p then n else fst (links_of c x), if x = n then p else snd (links_of c x))"
    if "x \<noteq> i" "x \<noteq> NONE" for x
    using that np slot [of x] by (cases "x = n"; cases "x = p") simp_all
  have other: "links_of ?c x = links_of c x" if "x \<noteq> i" "x \<noteq> n \<or> x = NONE" "x \<noteq> p \<or> x = NONE" for x
    using that by (auto simp: slot)
  have chain: "chained (links_of ?c) NONE (if ys = [] then fst (links_of c i) else sl_free c ! g) (ys @ zs)"
  proof (rule chained_remove [OF cg(1) [unfolded w(3)] cg(2) [unfolded w(3)]])
    fix x assume x: "x \<in> set (ys @ zs)"
    then have "x \<noteq> NONE" "x \<noteq> i"
      using chained_not_NONE [OF cg(1)] cg(2) w(3) by auto
    then show "links_of ?c x = (if ys \<noteq> [] \<and> x = last ys then fst (links_of c i) else fst (links_of c x),
        if x = fst (links_of c i) then snd (links_of c i) else snd (links_of c x))"
      unfolding w(4) [symmetric] w(5) [symmetric] lk [OF \<open>x \<noteq> i\<close> \<open>x \<noteq> NONE\<close>]
      using w(6) \<open>x \<noteq> NONE\<close> by (cases "ys = []") simp_all
  qed
  have g: "sl_free ?c ! g = (if ys = [] then fst (links_of c i) else sl_free c ! g)"
    using w(1,2,5,7) inv(1) by (simp add: free_take_fields sizes_ok_def)
  have h: "chained (links_of ?c) NONE (sl_free ?c ! h) (fs h)" if "h < sm_partitions m" "h \<noteq> g" for h
  proof -
    have "links_of ?c x = links_of c x" if "x \<in> set (fs h)" for x
      using chains_okD(3) [OF inv(2) \<open>h < _\<close>, of x] that \<open>h \<noteq> g\<close> w(1,8,9) cg(3) by (intro other) auto
    then have "chained (links_of ?c) NONE (sl_free ?c ! h) (fs h) \<longleftrightarrow> chained (links_of c) NONE (sl_free c ! h) (fs h)"
      using that w(1) by (subst chained_frame) (auto simp: free_take_fields)
    then show ?thesis
      using chains_okD(1) [OF inv(2) that(1)] by simp
  qed
  have "chains_ok m ?c (fs(g := ys @ zs))"
    unfolding chains_ok_def
  proof (intro allI impI conjI)
    fix h j assume hm: "h < sm_partitions m"
    note ch = chains_okD [OF inv(2) hm]
    show "chained (links_of ?c) NONE (sl_free ?c ! h) ((fs(g := ys @ zs)) h)"
      using chain g h [OF hm] by (cases "h = g") simp_all
    show "distinct ((fs(g := ys @ zs)) h)"
      using ch(2) cg(2) w(3) by auto
    show "j \<in> set ((fs(g := ys @ zs)) h) \<longleftrightarrow> built ?c j \<and> state_of ?c j = Free \<and> slab_partition m ?c j = h"
      using ch(2) ch(3) [of j] w(1,3) i by (auto simp: free_take_fields states)
  qed
  then show "\<exists>fs'. chains_ok m ?c fs'"
    by (rule exI [of "chains_ok m ?c"])
qed

lemma free_take_ok:
  assumes ok: "slab_ok m c" and i: "built c i" "state_of c i = Free"
  shows "slab_ok m (free_take m c i)"
    "slab_view m (free_take m c i) = (slab_view m c)(i := (Reserved, slot_generation m c i, None))"
proof -
  obtain fs ds where inv: "sizes_ok m c" "chains_ok m c fs" "dense_ok c ds" "slots_ok m c"
    by (rule slab_okE [OF ok])
  let ?c = "free_take m c i"
  note only = free_take_only [OF inv(1,2) i]
  have keep: "state_of ?c j = state_of c j \<and> ss_generation (slab_slot_at ?c j) = ss_generation (slab_slot_at c j) \<and>
      ss_position (slab_slot_at ?c j) = ss_position (slab_slot_at c j)"
    "alive (state_of c j) \<Longrightarrow> slab_slot_at ?c j = slab_slot_at c j" if "j \<noteq> i" for j
    using only(2) [OF that] by auto
  have states: "state_of ?c j = (if j = i then Reserved else state_of c j)" for j
    using keep(1) [of j] only(1) by simp
  have gens: "ss_generation (slab_slot_at ?c j) = ss_generation (slab_slot_at c j)" for j
    using keep(1) [of j] only(1) by (cases "j = i") simp_all
  have positions: "ss_position (slab_slot_at ?c j) = ss_position (slab_slot_at c j)" for j
    using keep(1) [of j] only(1) by (cases "j = i") simp_all
  obtain fs' where "chains_ok m ?c fs'"
    using free_take_chains [OF inv(1,2) i] ..
  moreover have "sizes_ok m ?c"
    using inv(1) by (simp add: sizes_ok_def free_take_fields)
  moreover have "dense_ok ?c ds"
    using i(2) by (intro dense_ok_cong [OF inv(3)]) (simp_all add: free_take_fields states positions)
  moreover have "slots_ok m ?c"
    using i(2) keep(2) slots_okD [OF inv(4)]
    by (intro slots_ok_cong [OF inv(4)]) (auto simp: free_take_fields states gens split: if_splits)
  ultimately show "slab_ok m ?c"
    by (intro slab_okI)
  show "slab_view m ?c = (slab_view m c)(i := (Reserved, slot_generation m c i, None))"
    using keep i(1) by (intro view_eqI) (auto simp: slab_view_def slot_generation_def free_take_fields states gens)
qed

lemma put_free: "slab_put i f (c\<lparr>sl_free := a\<rparr>) = (slab_put i f c)\<lparr>sl_free := a\<rparr>"
  by (simp add: slab_put_def slab_slot_at_def)

lemma head_at_take:
  assumes ok: "slab_ok m c" and part: "part < sm_partitions m"
  shows "head_at c part = (if sl_free c ! part = NONE then None else Some (free_take m c (sl_free c ! part), sl_free c ! part))"
    "sl_free c ! part \<noteq> NONE \<Longrightarrow> built c (sl_free c ! part) \<and> state_of c (sl_free c ! part) = Free \<and>
      slab_partition m c (sl_free c ! part) = part"
    "sl_free c ! part = NONE \<Longrightarrow> built c i \<Longrightarrow> slab_partition m c i = part \<Longrightarrow> state_of c i \<noteq> Free"
proof -
  obtain fs ds where inv: "sizes_ok m c" "chains_ok m c fs" "dense_ok c ds" "slots_ok m c"
    by (rule slab_okE [OF ok])
  note ch = chains_okD [OF inv(2) part]
  define raw where "raw = sl_free c ! part"
  show "state_of c i \<noteq> Free" if "sl_free c ! part = NONE" "built c i" "slab_partition m c i = part"
    using ch(1) ch(3) [of i] that by (cases "fs part") auto
  have raw: "raw \<noteq> NONE \<longrightarrow> raw \<in> set (fs part) \<and> snd (links_of c raw) = NONE"
    using ch(1) by (cases "fs part") (auto simp: raw_def)
  then show member: "sl_free c ! part \<noteq> NONE \<Longrightarrow> built c (sl_free c ! part) \<and> state_of c (sl_free c ! part) = Free \<and>
      slab_partition m c (sl_free c ! part) = part"
    using ch(3) by (simp add: raw_def)
  show "head_at c part = (if sl_free c ! part = NONE then None else Some (free_take m c (sl_free c ! part), sl_free c ! part))"
  proof (cases "raw = NONE")
    case False
    then have "snd (links_of c raw) = NONE" "slab_partition m c raw = part"
      using raw member by (simp_all add: raw_def)
    then show ?thesis
      using False by (simp add: head_at_def free_take_def split_beta Let_def raw_def put_free)
  qed (simp add: head_at_def raw_def)
qed

text \<open>A slot constructed on first use.\<close>

lemma push_ok:
  assumes ok: "slab_ok m c" and push: "slots_push s c = Some (c', i)" and lazy: "sm_lazy m"
    and s: "ss_state s = Reserved" "cycle_generation m (ss_generation s) = generation_MIN"
  shows "slab_ok m c'" "slab_view m c' = (slab_view m c)(i := (Reserved, generation_MIN, None))"
    "\<not> built c i" "i < sl_count c" "sl_count c' = sl_count c"
    "built c' j \<longleftrightarrow> built c j \<or> j = i"
proof -
  obtain fs ds where inv: "sizes_ok m c" "chains_ok m c fs" "dense_ok c ds" "slots_ok m c"
    by (rule slab_okE [OF ok])
  have len: "length (sl_slots c) < unat (sl_count c)" and c': "c' = c\<lparr>sl_slots := sl_slots c @ [s]\<rparr>"
    and i: "i = word_of_nat (length (sl_slots c))"
    using push by (auto simp: slots_push_def Let_def split: if_splits)
  have at: "unat i = length (sl_slots c)"
    using len unat_bound [of "sl_count c"] i by (simp add: unsigned_of_nat take_bit_nat_eq_self_iff)
  then show unbuilt: "\<not> built c i" and "i < sl_count c" and count: "sl_count c' = sl_count c"
    using len by (simp_all add: built_def word_less_nat_alt c')
  show built': "built c' j \<longleftrightarrow> built c j \<or> j = i" for j
    using at by (auto simp: built_def c' less_Suc_eq unat_inj [symmetric])
  have old: "slab_slot_at c' j = slab_slot_at c j" if "built c j" for j
    using that by (simp add: slab_slot_at_def c' built_def nth_append)
  have new: "slab_slot_at c' i = s"
    by (simp add: slab_slot_at_def c' at nth_append)
  have "sizes_ok m c'"
    using inv(1) lazy len by (simp add: sizes_ok_def c')
  moreover have "chains_ok m c' fs"
    using s(1) unbuilt by (intro chains_ok_cong [OF inv(2)]) (auto simp: built' old new, auto simp: c' slab_partition_def)
  moreover have "dense_ok c' ds"
    using s(1) unbuilt by (intro dense_ok_cong [OF inv(3)]) (auto simp: built' old new, auto simp: c')
  moreover have "slots_ok m c'"
  proof (rule slots_ok_cong [OF inv(4)])
    show "1 \<le> cycle_generation m (ss_generation (slab_slot_at c' j)) \<and> cycle_generation m (ss_generation (slab_slot_at c' j)) \<le> sm_max m"
      if "built c' j" for j
      using that s(2) inv(1) slots_okD(3) [OF inv(4), of j]
      by (auto simp: built' old new generation_MIN_def sizes_ok_def unsigned_eq_0_iff word_le_nat_alt Suc_le_eq unat_gt_0)
  qed (use s(1) unbuilt slots_okD(1,2) [OF inv(4)] in \<open>auto simp: built' old new, auto simp: c'\<close>)
  ultimately show "slab_ok m c'"
    by (rule slab_okI)
  show "slab_view m c' = (slab_view m c)(i := (Reserved, generation_MIN, None))"
    using s unbuilt by (auto simp: slab_view_def fun_eq_iff built' old new slot_generation_def)
qed

section \<open>What each operation does to the view\<close>

text \<open>A state of the slab, a slot of its capacity and what the slot shows.\<close>

definition shows_slot :: "slab_mode \<Rightarrow> 'v slab \<Rightarrow> u32 \<Rightarrow> slab_state \<times> u32 \<times> 'v option \<Rightarrow> 'v slab \<Rightarrow> bool" where
  "shows_slot m c i x c' \<longleftrightarrow>
    slab_ok m c' \<and> slab_view m c' = (slab_view m c)(i := x) \<and> sl_count c' = sl_count c \<and> (\<forall>j. built c j \<longrightarrow> built c' j) \<and> built c' i"

lemma shows_slotI:
  "slab_ok m c' \<Longrightarrow> slab_view m c' = (slab_view m c)(i := x) \<Longrightarrow> sl_count c' = sl_count c \<Longrightarrow> built c' = built c \<Longrightarrow> built c i \<Longrightarrow>
    shows_slot m c i x c'"
  by (simp add: shows_slot_def)

lemma shows_slotD:
  assumes "shows_slot m c i x c'"
  shows "slab_ok m c'" "slab_view m c' = (slab_view m c)(i := x)" "sl_count c' = sl_count c" "built c j \<Longrightarrow> built c' j" "built c' i"
  using assms by (auto simp: shows_slot_def)

lemma shows_slot_trans:
  "shows_slot m c i x c' \<Longrightarrow> shows_slot m c' i y c'' \<Longrightarrow> shows_slot m c i y c''"
  by (auto simp: shows_slot_def)

lemma free_take_shows:
  assumes "slab_ok m c" "built c i" "state_of c i = Free"
  shows "shows_slot m c i (Reserved, slot_generation m c i, None) (free_take m c i)"
  using free_take_ok [OF assms] assms(2) by (intro shows_slotI) (simp_all add: free_take_fields)

lemma view_free: "slab_view m c i = (Free, g, v) \<longleftrightarrow>
    v = None \<and> (if built c i then state_of c i = Free \<and> g = slot_generation m c i else g = generation_MIN)"
  by (auto simp: slab_view_def)

text \<open>Every way of reserving a slot: it was free, and nothing else shows a difference.\<close>

definition reserves :: "slab_mode \<Rightarrow> 'v slab \<Rightarrow> 'v slab \<times> u32 \<Rightarrow> bool" where
  "reserves m c r \<longleftrightarrow> (\<exists>g. slab_view m c (snd r) = (Free, g, None) \<and> snd r < sl_count c \<and>
    shows_slot m c (snd r) (Reserved, g, None) (fst r))"

lemma reserves_less: "reserves m c r \<Longrightarrow> snd r < sl_count c"
  by (auto simp: reserves_def)

lemma free_take_reserves:
  assumes "slab_ok m c" "built c i" "state_of c i = Free"
  shows "reserves m c (free_take m c i, i)"
proof -
  have "i < sl_count c"
    using assms by (auto simp: slab_ok_def sizes_ok_def built_def word_less_nat_alt)
  then show ?thesis
    unfolding reserves_def using free_take_shows [OF assms] assms(2,3)
    by (intro exI [of _ "slot_generation m c i"]) (simp add: view_free)
qed

lemma head_at_reserves:
  assumes "slab_ok m c" "part < sm_partitions m" "head_at c part = Some r"
  shows "reserves m c r"
  using assms head_at_take(1,2) [OF assms(1,2)] by (auto intro!: free_take_reserves split: if_splits)

lemma push_reserves:
  assumes "slab_ok m c" "sm_lazy m"
    and "slots_push ((slot_free (cycle_stored m generation_MIN) NONE NONE)\<lparr>ss_state := Reserved\<rparr>) c = Some r"
  shows "reserves m c r"
proof -
  obtain c' i where r: "r = (c', i)"
    by (cases r)
  have gen: "cycle_generation m (cycle_stored m generation_MIN) = generation_MIN"
    by (simp add: cycle_generation_def cycle_stored_def)
  note p = push_ok [OF assms(1) assms(3) [unfolded r] assms(2)]
  have "shows_slot m c i (Reserved, generation_MIN, None) c'" "\<not> built c i" "i < sl_count c"
    using p gen by (simp_all add: slot_free_def shows_slot_def)
  then show ?thesis
    by (auto simp: reserves_def r view_free)
qed

lemma slab_free_cases:
  assumes ok: "slab_ok m c"
  shows "slab_free m c = Some r \<Longrightarrow> reserves m c r"
    "slab_free m c = None \<longleftrightarrow> (\<forall>i < sl_count c. fst (slab_view m c i) \<noteq> Free)"
proof -
  have sizes: "sizes_ok m c"
    using ok by (simp add: slab_ok_def)
  then have two: "0 < sm_partitions m" "1 < sm_partitions m \<longleftrightarrow> sm_partitions m = 2"
    by (auto simp: sizes_ok_def)
  let ?push = "slots_push ((slot_free (cycle_stored m generation_MIN) NONE NONE)\<lparr>ss_state := Reserved\<rparr>) c"
  have res: "slab_free m c = Some r \<Longrightarrow> reserves m c r" for r
    using head_at_reserves [OF ok, of 0] head_at_reserves [OF ok, of 1] push_reserves [OF ok] two
    by (auto simp: slab_free_def split: option.splits if_splits)
  then show "slab_free m c = Some r \<Longrightarrow> reserves m c r" .
  have none: "fst (slab_view m c i) \<noteq> Free" if free: "slab_free m c = None" and i: "i < sl_count c" for i
  proof (cases "built c i")
    case True
    have "head_at c g = None" if "g < sm_partitions m" for g
    proof -
      have "g = 0 \<or> g = 1 \<and> sm_partitions m = 2"
        using that sizes by (auto simp: sizes_ok_def)
      then show ?thesis
        using free by (auto simp: slab_free_def split: option.splits if_splits)
    qed
    then have "sl_free c ! g = NONE" if "g < sm_partitions m" for g
      using head_at_take(1) [OF ok that] that by (auto split: if_splits)
    then show ?thesis
      using head_at_take(3) [OF ok _ _ True refl] slab_partition_less [of m c i] sizes True
      by (auto simp: slab_view_def sizes_ok_def)
  next
    case False
    then have "length (sl_slots c) < unat (sl_count c)" "sm_lazy m"
      using i sizes by (auto simp: sizes_ok_def built_def word_less_nat_alt)
    then show ?thesis
      using free by (auto simp: slab_free_def slots_push_def Let_def split: option.splits)
  qed
  show "slab_free m c = None \<longleftrightarrow> (\<forall>i < sl_count c. fst (slab_view m c i) \<noteq> Free)"
    using none res by (cases "slab_free m c") (fastforce simp: reserves_def)+
qed

lemma slab_at_cases:
  assumes ok: "slab_ok m c"
  shows "slab_at m c i = Some r \<Longrightarrow> reserves m c r \<and> snd r = i"
    "slab_at m c i = None \<longleftrightarrow> \<not> (built c i \<and> fst (slab_view m c i) = Free)"
  using free_take_reserves [OF ok, of i]
  by (auto simp: slab_at_def slab_allocated_def built_def slab_view_def not_le split: if_splits)

lemma first_free_Some:
  "first_free c start stop = Some n \<Longrightarrow> start \<le> n \<and> n < stop \<and> ss_state (sl_slots c ! n) = Free"
  unfolding first_free_def find_Some_iff by auto

lemma zero_below_two: "(0 :: nat) < 2" "(1 :: nat) < 2"
  by simp_all

lemma slab_in_range_cases:
  assumes ok: "slab_ok m c" and r: "slab_in_range m c start stop = Some r"
  shows "reserves m c r" "start \<le> snd r \<and> snd r < stop"
proof -
  have sizes: "sizes_ok m c"
    using ok by (simp add: slab_ok_def)
  have head: "reserves m c r" "slab_partition m c (snd r) = g" if "head_at c g = Some r" "sm_partitions m = 2" "g < 2" for g
    using head_at_take [OF ok, of g] head_at_reserves [OF ok _ that(1)] that by (auto split: if_splits)
  let ?split = "(unat (sl_count c) + 1) div 2"
  let ?stop = "min (unat (min stop (sl_count c))) (length (sl_slots c))"
  consider (all) "start = 0" "stop = sl_count c" "slab_free m c = Some r"
    | (low) "sm_partitions m = 2" "start = 0" "unat stop = ?split" "head_at c 0 = Some r"
    | (high) "sm_partitions m = 2" "unat start = ?split" "stop = sl_count c" "head_at c 1 = Some r"
    | (scan) n where "first_free c (unat start) ?stop = Some n" "r = (free_take m c (word_of_nat n), word_of_nat n)"
    using r unfolding slab_in_range_def Let_def by (fastforce split: if_splits)
  then have "reserves m c r \<and> start \<le> snd r \<and> snd r < stop"
  proof cases
    case all
    then show ?thesis
      using slab_free_cases(1) [OF ok all(3)] reserves_less [of m c r] all(1,2) by simp
  next
    case low
    note h = head [OF low(4,1) zero_below_two(1)]
    have "unat (snd r) < ?split"
      using h(2) low(1) by (simp add: slab_partition_def split: if_splits)
    then show ?thesis
      using h(1) low(2,3) by (simp add: word_less_nat_alt)
  next
    case high
    note h = head [OF high(4,1) zero_below_two(2)]
    have "\<not> unat (snd r) < ?split"
    proof
      assume "unat (snd r) < ?split"
      then have "slab_partition m c (snd r) = 0"
        unfolding slab_partition_def by (intro if_P disjI2)
      then show False
        using h(2) by simp
    qed
    then show ?thesis
      using h(1) high(3) reserves_less [OF h(1)] unfolding word_le_nat_alt high(2) not_less by blast
  next
    case scan
    note n = first_free_Some [OF scan(1)]
    have un: "unat (word_of_nat n :: u32) = n"
      using n sizes unat_bound [of "sl_count c"] by (simp add: sizes_ok_def unsigned_of_nat take_bit_nat_eq_self_iff)
    have "n < unat stop"
      using n by (auto simp: min_def word_le_nat_alt split: if_splits)
    moreover have "reserves m c r"
      unfolding scan(2) using n by (intro free_take_reserves [OF ok]) (simp_all add: built_def slab_slot_at_def un)
    ultimately show ?thesis
      using n scan(2) by (simp add: word_less_nat_alt word_le_nat_alt un)
  qed
  then show "reserves m c r" "start \<le> snd r \<and> snd r < stop"
    by simp_all
qed

lemma dense_room:
  assumes "sizes_ok m c" "dense_ok c ds" "built c i" "\<not> alive (state_of c i)"
  shows "length ds < unat (sl_count c)"
proof -
  have "unat ` set (i # ds) \<subseteq> {..<length (sl_slots c)}"
    using assms(2,3) by (auto simp: dense_ok_def built_def)
  then have "card (unat ` set (i # ds)) \<le> length (sl_slots c)"
    using card_mono [of "{..<length (sl_slots c)}"] by fastforce
  moreover have "card (unat ` set (i # ds)) = card (set (i # ds))"
    by (rule card_image) (simp add: inj_on_def unat_inj)
  moreover have "distinct (i # ds)"
    using assms(2,4) by (auto simp: dense_ok_def)
  ultimately show ?thesis
    using assms(1) distinct_card [of "i # ds"] by (simp add: sizes_ok_def)
qed

lemma mode_TAKEN_simps [simp]: "alive (mode_TAKEN m)" "mode_TAKEN m \<noteq> Free" "mode_TAKEN m \<noteq> Retired" "mode_TAKEN m \<noteq> Reserved"
  "mode_TAKEN m = Busy \<longleftrightarrow> sm_interior m" "mode_TAKEN m = Occupied \<longleftrightarrow> \<not> sm_interior m"
  by (simp_all add: mode_TAKEN_def)

lemma pending_install_shows:
  assumes ok: "slab_ok m c" and i: "built c i" "state_of c i = Reserved"
  shows "shows_slot m c i (mode_TAKEN m, slot_generation m c i, Some v) (pending_install m c i v)"
proof -
  obtain fs ds where inv: "sizes_ok m c" "chains_ok m c fs" "dense_ok c ds" "slots_ok m c"
    by (rule slab_okE [OF ok])
  let ?c = "pending_install m c i v"
  have slot: "slab_slot_at ?c j =
      (if j = i then (slab_slot_at c i)\<lparr>ss_data := Value v, ss_position := sl_len c, ss_state := mode_TAKEN m\<rparr>
       else slab_slot_at c j)" for j
    using i(1) by (simp add: pending_install_def Let_def)
  have fields: "built ?c = built c" "sl_count ?c = sl_count c" "sl_free ?c = sl_free c" "sl_retired ?c = sl_retired c"
    "sl_tail ?c = (sl_tail c)[unat (sl_len c) := Some i]" "sl_len ?c = sl_len c + 1" "length (sl_slots ?c) = length (sl_slots c)"
    "slab_partition m ?c j = slab_partition m c j" for j
    by (simp_all add: pending_install_def Let_def fun_eq_iff)
  note room = dense_room [OF inv(1,3) i(1)]
  have len: "unat (sl_len c) = length ds" "length ds < unat (sl_count c)" "i \<notin> set ds"
    using inv(3) room i(2) by (auto simp: dense_ok_def)
  have "unat (sl_len c + 1) = Suc (length ds)"
    using len(1,2) unat_bound [of "sl_count c"] by (simp add: unat_word_ariths)
  then have "dense_ok ?c (ds @ [i])"
    using inv(1,3) len i(1)
    by (auto simp: dense_ok_def fields slot nth_append sizes_ok_def nth_list_update less_Suc_eq)
  moreover have "chains_ok m ?c fs"
    using i(2) by (intro chains_ok_cong [OF inv(2)]) (auto simp: fields slot)
  moreover have "sizes_ok m ?c"
    using inv(1) by (simp add: sizes_ok_def fields)
  moreover have "slots_ok m ?c"
    using i slots_okD [OF inv(4)]
    by (intro slots_ok_cong [OF inv(4)]) (auto simp: fields slot slot_value_def split: if_splits)
  ultimately have "slab_ok m ?c"
    by (intro slab_okI)
  moreover have "slab_view m ?c = (slab_view m c)(i := (mode_TAKEN m, slot_generation m c i, Some v))"
    using i(1) by (auto simp: fun_eq_iff slab_view_def fields slot slot_generation_def slot_value_def)
  ultimately show ?thesis
    using i(1) by (intro shows_slotI) (simp_all add: fields)
qed

text \<open>An update of an occupied slot that leaves it occupied.\<close>

lemma alive_put_shows:
  assumes ok: "slab_ok m c" and i: "built c i" "alive (state_of c i)"
    and f: "alive (ss_state (f (slab_slot_at c i)))" "ss_position (f (slab_slot_at c i)) = ss_position (slab_slot_at c i)"
      "slot_value (f (slab_slot_at c i)) = Some v" "ss_state (f (slab_slot_at c i)) = Busy \<Longrightarrow> sm_interior m"
      "ss_state (f (slab_slot_at c i)) = st" "cycle_generation m (ss_generation (f (slab_slot_at c i))) = g"
      "1 \<le> g \<and> g \<le> sm_max m"
  shows "shows_slot m c i (st, g, Some v) (slab_put i f c)"
proof -
  obtain fs ds where inv: "sizes_ok m c" "chains_ok m c fs" "dense_ok c ds" "slots_ok m c"
    by (rule slab_okE [OF ok])
  have not: "st \<noteq> Free" "state_of c i \<noteq> Free" "st \<noteq> Retired" "state_of c i \<noteq> Retired"
    using i f(1,5) by auto
  have "slab_ok m (slab_put i f c)"
    by (rule slab_okI [of _ _ fs ds]; rule quiet_put [OF inv i(1)]; use not i f in auto)
  moreover have "slab_view m (slab_put i f c) = (slab_view m c)(i := (st, g, Some v))"
    using i f by (auto simp: fun_eq_iff slab_view_def slot_generation_def)
  ultimately show ?thesis
    using i(1) by (intro shows_slotI) (simp_all add: fun_eq_iff)
qed

lemma generation_bounds:
  assumes "slab_ok m c" "built c i"
  shows "1 \<le> slot_generation m c i \<and> slot_generation m c i \<le> sm_max m"
  using assms slots_okD(3) by (auto simp: slab_ok_def slot_generation_def)

lemma alive_value:
  assumes "slab_ok m c" "built c i" "alive (state_of c i)"
  shows "slot_value (slab_slot_at c i) = Some (slab_value c i)"
proof -
  have "slot_value (slab_slot_at c i) \<noteq> None"
    using assms slots_okD(1) [of m c i] by (simp add: slab_ok_def)
  then show ?thesis
    by (auto simp: slab_value_def)
qed

lemma alive_view:
  assumes "slab_ok m c" "slab_view m c i = (st, g, Some v)"
  shows "built c i" "alive (state_of c i)" "state_of c i = st" "slot_generation m c i = g" "slab_value c i = v"
    "1 \<le> g \<and> g \<le> sm_max m"
  using assms generation_bounds [of m c i] by (auto simp: slab_view_def slab_value_def split: if_splits)

lemma set_state_shows:
  assumes ok: "slab_ok m c" and view: "slab_view m c i = (st, g, Some v)" and st': "alive st'" "st' = Busy \<Longrightarrow> sm_interior m"
  shows "shows_slot m c i (st', g, Some v) (slab_set_state i st' c)"
  unfolding slab_set_state_def using alive_view [OF ok view] st' alive_value [OF ok, of i]
  by (intro alive_put_shows [OF ok]) (simp_all add: slot_generation_def)

lemma same_shows:
  assumes "slab_ok m c" "slab_view m c i = x" "built c i"
  shows "shows_slot m c i x c"
  using assms by (auto simp: shows_slot_def)

lemma busy_drop_shows:
  assumes ok: "slab_ok m c" and view: "slab_view m c i = (mode_TAKEN m, g, Some v)"
  shows "shows_slot m c i (Occupied, g, Some v) (busy_drop m c i)"
proof (cases "sm_interior m")
  case True
  then show ?thesis
    using set_state_shows [OF ok view, of Occupied] by (simp add: busy_drop_def)
next
  case False
  then show ?thesis
    using same_shows [OF ok view alive_view(1) [OF ok view]] by (simp add: busy_drop_def mode_TAKEN_def)
qed

lemma occupied_take_shows:
  assumes ok: "slab_ok m c" and view: "slab_view m c i = (Occupied, g, Some v)"
  shows "shows_slot m c i (mode_TAKEN m, g, Some v) (occupied_take m c i)"
proof (cases "sm_interior m")
  case True
  then show ?thesis
    using set_state_shows [OF ok view, of Busy] by (simp add: occupied_take_def mode_TAKEN_def)
next
  case False
  then show ?thesis
    using same_shows [OF ok view alive_view(1) [OF ok view]] by (simp add: occupied_take_def mode_TAKEN_def)
qed

lemma busy_set_value_shows:
  assumes ok: "slab_ok m c" and view: "slab_view m c i = (mode_TAKEN m, g, Some v)"
  shows "shows_slot m c i (mode_TAKEN m, g, Some v') (busy_set_value i v' c)"
proof -
  note a = alive_view [OF ok view]
  show ?thesis
    unfolding busy_set_value_def
    by (rule alive_put_shows [OF ok a(1,2)]) (use a in \<open>simp_all add: slot_generation_def\<close>)
qed

lemma busy_replace_shows:
  assumes ok: "slab_ok m c" and view: "slab_view m c i = (mode_TAKEN m, g, Some v)" and g': "1 \<le> g'" "g' \<le> sm_max m" "\<not> sm_recycle m"
  shows "shows_slot m c i (mode_TAKEN m, g', Some v') (fst (busy_replace m c i g' v'))" "snd (busy_replace m c i g' v') = v"
proof -
  note set = busy_set_value_shows [OF ok view, of v']
  note sv = shows_slotD [OF set]
  have view': "slab_view m (busy_set_value i v' c) i = (mode_TAKEN m, g, Some v')"
    by (simp add: sv(2))
  note a = alive_view [OF sv(1) view'] alive_value [OF sv(1), of i]
  have "shows_slot m (busy_set_value i v' c) i (mode_TAKEN m, g', Some v')
      (slab_put i (\<lambda>s. s\<lparr>ss_generation := cycle_stored m g'\<rparr>) (busy_set_value i v' c))"
    using a g' by (intro alive_put_shows [OF sv(1)]) (simp_all add: cycle_generation_def cycle_stored_def)
  then show "shows_slot m c i (mode_TAKEN m, g', Some v') (fst (busy_replace m c i g' v'))"
    using shows_slot_trans [OF set] by (simp add: busy_replace_def)
  show "snd (busy_replace m c i g' v') = v"
    using alive_view(5) [OF ok view] by (simp add: busy_replace_def)
qed

text \<open>Returning a reservation to the front of its chain.\<close>

lemma pending_drop_slot:
  assumes "sizes_ok m c" "chains_ok m c fs" "built c i" "state_of c i = Reserved"
  defines "g \<equiv> slab_partition m c i"
  shows "slab_slot_at (pending_drop m c i) j =
      (if j = i then (slab_slot_at c i)\<lparr>ss_data := Links (sl_free c ! g) NONE, ss_state := Free\<rparr>
       else if j = sl_free c ! g \<and> j \<noteq> NONE then slot_set_prev i (slab_slot_at c j) else slab_slot_at c j)"
    "g < sm_partitions m" "sl_free c ! g \<noteq> i" "sl_free c ! g = NONE \<or> sl_free c ! g \<in> set (fs g)"
    "i \<notin> set (fs h) \<or> sm_partitions m \<le> h"
proof -
  show g: "g < sm_partitions m"
    using assms(1) slab_partition_less [of m c i] by (simp add: g_def sizes_ok_def)
  note ch = chains_okD [OF assms(2) g]
  show mem: "sl_free c ! g = NONE \<or> sl_free c ! g \<in> set (fs g)"
    using ch(1) by (cases "fs g") auto
  then show ne: "sl_free c ! g \<noteq> i"
    using ch(3) built_not_NONE [OF assms(1,3)] assms(4) by auto
  show "i \<notin> set (fs h) \<or> sm_partitions m \<le> h"
    using chains_okD(3) [OF assms(2), of h i] assms(4) by (auto simp: not_less [symmetric])
  have "built c (sl_free c ! g) \<or> sl_free c ! g = NONE"
    using mem ch(3) by auto
  then show "slab_slot_at (pending_drop m c i) j =
      (if j = i then (slab_slot_at c i)\<lparr>ss_data := Links (sl_free c ! g) NONE, ss_state := Free\<rparr>
       else if j = sl_free c ! g \<and> j \<noteq> NONE then slot_set_prev i (slab_slot_at c j) else slab_slot_at c j)"
    using assms(3) ne by (auto simp: pending_drop_def Let_def g_def [symmetric])
qed

lemma pending_drop_fields:
  "built (pending_drop m c i) = built c" "sl_count (pending_drop m c i) = sl_count c"
  "sl_free (pending_drop m c i) = (sl_free c)[slab_partition m c i := i]" "sl_retired (pending_drop m c i) = sl_retired c"
  "sl_tail (pending_drop m c i) = sl_tail c" "sl_len (pending_drop m c i) = sl_len c"
  "length (sl_slots (pending_drop m c i)) = length (sl_slots c)" "slab_partition m' (pending_drop m c i) j = slab_partition m' c j"
  by (simp_all add: pending_drop_def Let_def fun_eq_iff)

lemma pending_drop_chains:
  assumes inv: "sizes_ok m c" "chains_ok m c fs" and i: "built c i" "state_of c i = Reserved"
  shows "chains_ok m (pending_drop m c i) (fs(slab_partition m c i := i # fs (slab_partition m c i)))"
proof -
  define g where "g = slab_partition m c i"
  let ?c = "pending_drop m c i"
  note slot = pending_drop_slot [OF inv i, folded g_def]
  have in_iff: "j \<in> set ((fs(g := i # fs g)) h) \<longleftrightarrow> built ?c j \<and> state_of ?c j = Free \<and> slab_partition m ?c j = h"
    if "h < sm_partitions m" for h j
    using chains_okD(3) [OF inv(2) that, of j] i by (auto simp: pending_drop_fields slot(1) g_def)
  have own: "chained (links_of ?c) NONE i (i # fs g)"
  proof (rule chained_push [OF chains_okD(1) [OF inv(2) slot(2)]])
    show "i \<notin> set (fs g)" "i \<noteq> NONE" "distinct (fs g)"
      using slot(2) slot(5) [of g] built_not_NONE [OF inv(1) i(1)] chains_okD(2) [OF inv(2) slot(2)] by auto
    show "links_of ?c i = (sl_free c ! g, NONE)"
      by (simp add: slot(1) slot_links_def)
    show "links_of ?c x = (fst (links_of c x), if x = sl_free c ! g then i else snd (links_of c x))" if "x \<in> set (fs g)" for x
      using that slot(2) slot(5) [of g] chained_not_NONE [OF chains_okD(1) [OF inv(2) slot(2)] that] by (auto simp: slot(1))
  qed
  have rest: "chained (links_of ?c) NONE (sl_free c ! h) (fs h)" if h: "h < sm_partitions m" "h \<noteq> g" for h
  proof -
    have "links_of ?c x = links_of c x" if "x \<in> set (fs h)" for x
      using that h slot(4) slot(5) [of h] chains_okD(3) [OF inv(2)] slot(2) by (auto simp: slot(1))
    then show ?thesis
      using chains_okD(1) [OF inv(2) h(1)] by (subst chained_frame) auto
  qed
  have "chains_ok m ?c (fs(g := i # fs g))"
    unfolding chains_ok_def
  proof (intro allI impI conjI)
    fix h j assume h: "h < sm_partitions m"
    show "chained (links_of ?c) NONE (sl_free ?c ! h) ((fs(g := i # fs g)) h)"
      using own rest [OF h] h inv(1) by (cases "h = g") (simp_all add: pending_drop_fields g_def [symmetric] sizes_ok_def)
    show "distinct ((fs(g := i # fs g)) h)"
      using chains_okD(2) [OF inv(2) h] slot(5) [of h] h by auto
  qed (use in_iff in blast)
  then show ?thesis
    by (simp add: g_def)
qed

lemma pending_drop_shows:
  assumes ok: "slab_ok m c" and i: "built c i" "state_of c i = Reserved"
  shows "shows_slot m c i (Free, slot_generation m c i, None) (pending_drop m c i)"
proof -
  obtain fs ds where inv: "sizes_ok m c" "chains_ok m c fs" "dense_ok c ds" "slots_ok m c"
    by (rule slab_okE [OF ok])
  let ?c = "pending_drop m c i"
  note slot = pending_drop_slot [OF inv(1,2) i]
  have free: "j = sl_free c ! slab_partition m c i \<Longrightarrow> j \<noteq> NONE \<Longrightarrow> state_of c j = Free" for j
    using slot(4) chains_okD(3) [OF inv(2) slot(2)] by auto
  have keep: "state_of ?c j = (if j = i then Free else state_of c j)" "ss_generation (slab_slot_at ?c j) = ss_generation (slab_slot_at c j)"
    "ss_position (slab_slot_at ?c j) = ss_position (slab_slot_at c j)"
    "alive (state_of c j) \<Longrightarrow> slab_slot_at ?c j = slab_slot_at c j" for j
    using i(2) free by (auto simp: slot(1))
  have "sizes_ok m ?c"
    using inv(1) by (simp add: sizes_ok_def pending_drop_fields)
  moreover have "dense_ok ?c ds"
    using i(2) by (intro dense_ok_cong [OF inv(3)]) (auto simp: pending_drop_fields keep(1,3))
  moreover have "slots_ok m ?c"
    using i(2) slots_okD [OF inv(4)]
    by (intro slots_ok_cong [OF inv(4)]) (auto simp: pending_drop_fields keep(1,2,4) split: if_splits)
  ultimately have "slab_ok m ?c"
    by (intro slab_okI [OF _ pending_drop_chains [OF inv(1,2) i]])
  moreover have "slab_view m ?c = (slab_view m c)(i := (Free, slot_generation m c i, None))"
    using i(1) keep(4) by (auto simp: fun_eq_iff slab_view_def slot_generation_def keep(1,2) pending_drop_fields)
  ultimately show ?thesis
    using i(1) by (intro shows_slotI) (simp_all add: pending_drop_fields)
qed

section \<open>Ending a lease\<close>

text \<open>What a slot shows when its lease ends: free under the next generation, or retired.\<close>

definition rejected :: "slab_mode \<Rightarrow> u32 \<Rightarrow> slab_state \<times> u32 \<times> 'v option" where
  "rejected m g = (case cycle_next m g of Some g' \<Rightarrow> (Free, g', None) | None \<Rightarrow> (Retired, g, None))"

lemma cycle_next_stored: "cycle_next m (cycle_generation m g) = cycle_next m g"
  by (simp add: cycle_next_def cycle_generation_def)

lemma cycle_next_Some:
  assumes "cycle_next m g = Some g'" "sm_max m \<noteq> 0"
  shows "cycle_generation m g' = g'" "1 \<le> g'" "g' \<le> sm_max m" "\<not> sm_recycle m \<Longrightarrow> g < g'"
proof -
  have max: "1 \<le> sm_max m"
    using assms(2) by (simp add: word_le_nat_alt Suc_le_eq unat_gt_0)
  show "cycle_generation m g' = g'"
    using assms(1) by (auto simp: cycle_next_def cycle_generation_def split: if_splits)
  have step: "g < g'" "g' \<le> sm_max m" if "\<not> sm_recycle m"
    using assms(1) that
    by (auto simp: cycle_next_def generation_checked_add_def checked_add_def word_less_nat_alt unat_word_ariths split: if_splits option.splits)
  show "\<not> sm_recycle m \<Longrightarrow> g < g'" "1 \<le> g'" "g' \<le> sm_max m"
    using step assms(1) max by (auto simp: cycle_next_def generation_MIN_def word_le_nat_alt word_less_nat_alt split: if_splits)
qed

lemma retire_shows:
  assumes ok: "slab_ok m c" and i: "built c i" "state_of c i = Reserved"
  shows "shows_slot m c i (Retired, slot_generation m c i, None)
    (let c = slab_set_state i Retired c in if sm_heap m then c\<lparr>sl_retired := sl_retired c + 1\<rparr> else c)"
    (is "shows_slot m c i _ ?c")
proof -
  obtain fs ds where inv: "sizes_ok m c" "chains_ok m c fs" "dense_ok c ds" "slots_ok m c"
    by (rule slab_okE [OF ok])
  have fields: "slab_slot_at ?c j = (if j = i then (slab_slot_at c i)\<lparr>ss_state := Retired\<rparr> else slab_slot_at c j)"
    "built ?c = built c" "sl_count ?c = sl_count c" "sl_free ?c = sl_free c" "sl_tail ?c = sl_tail c" "sl_len ?c = sl_len c"
    "length (sl_slots ?c) = length (sl_slots c)" "slab_partition m ?c j = slab_partition m c j"
    "sl_retired ?c = (if sm_heap m then sl_retired c + 1 else sl_retired c)" for j
    using i(1) by (simp_all add: Let_def fun_eq_iff)
  define R where "R = {j. built c j \<and> state_of c j = Retired}"
  have R: "finite R" "i \<notin> R" "{j. built ?c j \<and> state_of ?c j = Retired} = insert i R"
    using i unfolding fields by (auto simp: R_def fields(1))
  have "card (unat ` insert i R) \<le> length (sl_slots c)"
    using i(1) card_mono [of "{..<length (sl_slots c)}" "unat ` insert i R"] by (auto simp: R_def built_def)
  moreover have "card (unat ` insert i R) = card (insert i R)"
    by (rule card_image) (simp add: inj_on_def unat_inj)
  ultimately have "Suc (card R) \<le> unat (sl_count c)"
    using R(1,2) inv(1) by (simp add: sizes_ok_def)
  then have card: "unat (sl_retired c + 1) = Suc (card R)" if "unat (sl_retired c) = card R"
    using that unat_bound [of "sl_count c"] by (simp add: unat_word_ariths)
  have "slots_ok m ?c"
    using inv(4) i(1) card R unfolding slots_ok_def fields(2,9) R_def [symmetric] R(3)
    by (auto simp: fields(1))
  moreover have "sizes_ok m ?c"
    using inv(1) by (simp add: sizes_ok_def fields(3-7))
  moreover have "chains_ok m ?c fs" "dense_ok ?c ds"
    using i(2) by (intro chains_ok_cong [OF inv(2)] dense_ok_cong [OF inv(3)]; auto simp: fields)+
  ultimately have "slab_ok m ?c"
    by (intro slab_okI)
  moreover have "slab_view m ?c = (slab_view m c)(i := (Retired, slot_generation m c i, None))"
    using i(1) by (auto simp: fun_eq_iff slab_view_def slot_generation_def fields(1,2))
  ultimately show ?thesis
    using i(1) by (intro shows_slotI) (simp_all only: fields(2,3))
qed

lemma pending_reject_shows:
  assumes ok: "slab_ok m c" and i: "built c i" "state_of c i = Reserved"
  shows "shows_slot m c i (rejected m (slot_generation m c i)) (pending_reject m c i)"
proof (cases "cycle_next m (ss_generation (slab_slot_at c i))")
  case None
  then show ?thesis
    using retire_shows [OF ok i] by (simp add: pending_reject_def rejected_def slot_generation_def cycle_next_stored)
next
  case (Some epoch)
  obtain fs ds where inv: "sizes_ok m c" "chains_ok m c fs" "dense_ok c ds" "slots_ok m c"
    by (rule slab_okE [OF ok])
  let ?c = "slab_put i (\<lambda>s. s\<lparr>ss_generation := epoch\<rparr>) c"
  note next_ok = cycle_next_Some [OF Some]
  have max: "sm_max m \<noteq> 0"
    using inv(1) by (simp add: sizes_ok_def)
  have "slab_ok m ?c"
    by (rule slab_okI [of _ _ fs ds]; rule quiet_put [OF inv i(1)]; use i(2) next_ok(1-3) max in simp)
  then have "shows_slot m ?c i (Free, slot_generation m ?c i, None) (pending_drop m ?c i)"
    using i by (intro pending_drop_shows) simp_all
  moreover have "slot_generation m ?c i = epoch"
    using i(1) next_ok(1) max by (simp add: slot_generation_def)
  moreover have "slab_view m ?c = (slab_view m c)(i := slab_view m ?c i)"
    using i(1) by (auto simp: fun_eq_iff slab_view_def slot_generation_def)
  then have "(slab_view m ?c)(i := x) = (slab_view m c)(i := x)" for x
    by (metis fun_upd_upd)
  ultimately have "shows_slot m c i (Free, epoch, None) (pending_drop m ?c i)"
    unfolding shows_slot_def by simp
  then show ?thesis
    using Some by (simp add: pending_reject_def rejected_def slot_generation_def cycle_next_stored)
qed

text \<open>Removing from the dense plane moves its last slot into the gap.\<close>

definition swap_out :: "nat \<Rightarrow> 'a list \<Rightarrow> 'a list" where
  "swap_out k xs = (if k = length xs - 1 then butlast xs else (butlast xs)[k := last xs])"

lemma swap_out:
  assumes "distinct xs" "k < length xs"
  shows "length (swap_out k xs) = length xs - 1" "set (swap_out k xs) = set xs - {xs ! k}" "distinct (swap_out k xs)"
    "j < length xs - 1 \<Longrightarrow> swap_out k xs ! j = (if j = k then last xs else xs ! j)"
proof -
  obtain ys y where xs: "xs = ys @ [y]"
    using assms(2) by (cases xs rule: rev_cases) auto
  have set_eq: "set (ys[k := y]) = insert y (set ys - {ys ! k})" if "k < length ys"
    using assms(1) that by (simp add: xs set_update_distinct)
  show "set (swap_out k xs) = set xs - {xs ! k}"
    using assms set_eq by (auto simp: swap_out_def xs nth_append split: if_splits)
  show "length (swap_out k xs) = length xs - 1" "distinct (swap_out k xs)"
    "j < length xs - 1 \<Longrightarrow> swap_out k xs ! j = (if j = k then last xs else xs ! j)"
    using assms by (auto simp: swap_out_def xs nth_append distinct_list_update)
qed

lemma dense_at:
  assumes "sizes_ok m c" "dense_ok c ds" "built c i" "alive (state_of c i)"
  defines "k \<equiv> unat (ss_position (slab_slot_at c i))"
  shows "k < length ds" "ds ! k = i" "unat (sl_len c - 1) = length ds - 1" "sl_tail c ! (length ds - 1) = Some (last ds)"
    "built c (last ds)" "alive (state_of c (last ds))" "length ds \<le> length (sl_tail c)"
    "last ds = i \<longleftrightarrow> k = length ds - 1" "unat (ss_position (slab_slot_at c (last ds))) = length ds - 1"
proof -
  have at: "\<And>k. k < length ds \<Longrightarrow> sl_tail c ! k = Some (ds ! k) \<and> unat (ss_position (slab_slot_at c (ds ! k))) = k"
    and len: "unat (sl_len c) = length ds" and mem: "\<And>j. j \<in> set ds \<longleftrightarrow> built c j \<and> alive (state_of c j)" and d: "distinct ds"
    using assms(2) by (simp_all add: dense_ok_def)
  obtain k' where k': "k' < length ds" "ds ! k' = i"
    using mem [of i] assms(3,4) by (auto simp: in_set_conv_nth)
  then show k: "k < length ds" "ds ! k = i"
    using at [of k'] by (simp_all add: k_def)
  then have ne: "ds \<noteq> []"
    by auto
  then have last: "last ds = ds ! (length ds - 1)" "length ds - 1 < length ds"
    by (simp_all add: last_conv_nth)
  show "unat (sl_len c - 1) = length ds - 1"
    using len k(1) by (subst unat_pred) (auto simp: unat_eq_zero)
  show "sl_tail c ! (length ds - 1) = Some (last ds)" "unat (ss_position (slab_slot_at c (last ds))) = length ds - 1"
    using at [OF last(2)] last(1) by simp_all
  show "built c (last ds)" "alive (state_of c (last ds))"
    using mem [of "last ds"] ne by simp_all
  show "last ds = i \<longleftrightarrow> k = length ds - 1"
    using k d last by (metis nth_eq_iff_index_eq)
  show "length ds \<le> length (sl_tail c)"
  proof -
    have "card (unat ` set ds) \<le> length (sl_slots c)"
      using card_mono [of "{..<length (sl_slots c)}" "unat ` set ds"] mem by (auto simp: built_def)
    moreover have "card (unat ` set ds) = card (set ds)"
      by (rule card_image) (simp add: inj_on_def unat_inj)
    ultimately show ?thesis
      using assms(1) distinct_card [OF d] by (simp add: sizes_ok_def)
  qed
qed

abbreviation withdrawn :: "'v slab \<Rightarrow> u32 \<Rightarrow> 'v slab" where
  "withdrawn c i \<equiv> fst (busy_withdraw c i)"

lemma withdrawn_fields:
  "built (withdrawn c i) = built c" "sl_count (withdrawn c i) = sl_count c" "sl_free (withdrawn c i) = sl_free c"
  "sl_retired (withdrawn c i) = sl_retired c" "length (sl_slots (withdrawn c i)) = length (sl_slots c)"
  "slab_partition m (withdrawn c i) j = slab_partition m c j" "sl_len (withdrawn c i) = sl_len c - 1"
  "length (sl_tail (withdrawn c i)) = length (sl_tail c)"
  by (simp_all add: busy_withdraw_def busy_detach_def slab_moved_def Let_def fun_eq_iff)

lemma withdrawn_slot:
  assumes "sizes_ok m c" "dense_ok c ds" "built c i" "alive (state_of c i)"
  defines "p \<equiv> ss_position (slab_slot_at c i)"
  shows "slab_slot_at (withdrawn c i) j =
      (if j = i then (slab_slot_at c i)\<lparr>ss_data := Moved, ss_state := Reserved\<rparr>
       else if j = last ds then (slab_slot_at c j)\<lparr>ss_position := p\<rparr> else slab_slot_at c j)"
    "sl_tail (withdrawn c i) = (if last ds = i then sl_tail c else (sl_tail c)[unat p := Some (last ds)])"
proof -
  note d = dense_at [OF assms(1-4), folded p_def]
  have pos: "p = sl_len c - 1 \<longleftrightarrow> last ds = i"
    using d(3,8) by (auto simp: unat_inj [symmetric])
  show "slab_slot_at (withdrawn c i) j =
      (if j = i then (slab_slot_at c i)\<lparr>ss_data := Moved, ss_state := Reserved\<rparr>
       else if j = last ds then (slab_slot_at c j)\<lparr>ss_position := p\<rparr> else slab_slot_at c j)"
    using assms(3) d(3,4,5) pos
    by (cases "last ds = i") (auto simp: busy_withdraw_def busy_detach_def slab_moved_def Let_def p_def)
  show "sl_tail (withdrawn c i) = (if last ds = i then sl_tail c else (sl_tail c)[unat p := Some (last ds)])"
    using assms(3) d(3,4,5) pos
    by (cases "last ds = i") (auto simp: busy_withdraw_def busy_detach_def slab_moved_def Let_def p_def)
qed

lemma withdrawn_dense:
  assumes a: "sizes_ok m c" "dense_ok c ds" "built c i" "alive (state_of c i)"
  shows "dense_ok (withdrawn c i) (swap_out (unat (ss_position (slab_slot_at c i))) ds)"
proof -
  define k where "k = unat (ss_position (slab_slot_at c i))"
  note d = dense_at [OF a, folded k_def]
  note slot = withdrawn_slot [OF a, folded k_def]
  have d': "distinct ds" "\<And>j. j \<in> set ds \<longleftrightarrow> built c j \<and> alive (state_of c j)"
    and at: "\<And>k. k < length ds \<Longrightarrow> sl_tail c ! k = Some (ds ! k) \<and> unat (ss_position (slab_slot_at c (ds ! k))) = k"
    using a(2) by (auto simp: dense_ok_def)
  note sw = swap_out [OF d'(1) d(1)]
  have entry: "sl_tail (withdrawn c i) ! j = Some (swap_out k ds ! j) \<and>
      unat (ss_position (slab_slot_at (withdrawn c i) (swap_out k ds ! j))) = j" if j: "j < length ds - 1" for j
  proof (cases "j = k")
    case True
    then have "last ds \<noteq> i"
      using j d(8) by auto
    then show ?thesis
      using True j d(1,7) sw(4) [OF j] by (simp add: slot k_def)
  next
    case False
    have "ds ! j \<noteq> i" "ds ! j \<noteq> last ds"
      using False j d(1,2) last_conv_nth [of ds] nth_eq_iff_index_eq [OF d'(1), of j k]
        nth_eq_iff_index_eq [OF d'(1), of j "length ds - 1"] by fastforce+
    then show ?thesis
      using False j at [of j] sw(4) [OF j] by (simp add: slot k_def [symmetric])
  qed
  have "alive (state_of (withdrawn c i) j) \<longleftrightarrow> j \<noteq> i \<and> alive (state_of c j)" for j
    by (simp add: slot(1))
  then show ?thesis
    unfolding dense_ok_def k_def [symmetric] using entry sw d(2,3) d'(2)
    by (auto simp: withdrawn_fields)
qed

lemma busy_withdraw_shows:
  assumes ok: "slab_ok m c" and view: "slab_view m c i = (st, g, Some v)"
  shows "shows_slot m c i (Reserved, g, None) (withdrawn c i)" "snd (busy_withdraw c i) = v"
proof -
  note i = alive_view [OF ok view]
  obtain fs ds where inv: "sizes_ok m c" "chains_ok m c fs" "dense_ok c ds" "slots_ok m c"
    by (rule slab_okE [OF ok])
  note slot = withdrawn_slot [OF inv(1,3) i(1,2)]
  have keep: "state_of (withdrawn c i) j = (if j = i then Reserved else state_of c j)"
    "ss_generation (slab_slot_at (withdrawn c i) j) = ss_generation (slab_slot_at c j)"
    "j \<noteq> i \<Longrightarrow> slot_value (slab_slot_at (withdrawn c i) j) = slot_value (slab_slot_at c j)"
    "j \<noteq> i \<Longrightarrow> links_of (withdrawn c i) j = links_of c j" for j
    by (simp_all add: slot(1))
  have "sizes_ok m (withdrawn c i)"
    using inv(1) by (simp add: sizes_ok_def withdrawn_fields)
  moreover have "chains_ok m (withdrawn c i) fs"
    using i(2) by (intro chains_ok_cong [OF inv(2)]) (auto simp: withdrawn_fields keep(1) intro!: keep(4))
  moreover have "slots_ok m (withdrawn c i)"
    using i(2) slots_okD [OF inv(4)]
    by (intro slots_ok_cong [OF inv(4)]) (auto simp: withdrawn_fields keep(1-3) split: if_splits)
  ultimately have "slab_ok m (withdrawn c i)"
    by (intro slab_okI [OF _ _ withdrawn_dense [OF inv(1,3) i(1,2)]])
  moreover have "slab_view m (withdrawn c i) = (slab_view m c)(i := (Reserved, g, None))"
    using i(1,4) by (auto simp: fun_eq_iff slab_view_def slot_generation_def keep withdrawn_fields)
  ultimately show "shows_slot m c i (Reserved, g, None) (withdrawn c i)"
    using i(1) by (intro shows_slotI) (simp_all add: withdrawn_fields)
  show "snd (busy_withdraw c i) = v"
    using i(5) by (simp add: busy_withdraw_def)
qed

lemma pending_reject_Reserved:
  assumes "built c i"
  shows "pending_reject m (slab_set_state i Reserved c) i = pending_reject m c i"
proof -
  have set_set: "slab_set_state i st (slab_set_state i Reserved c) = slab_set_state i st c" for st
    using assms by (simp add: slab_set_state_def slab_put_def slab_slot_at_def built_def)
  have comm: "slab_set_state i Reserved (slab_put i (\<lambda>s. s\<lparr>ss_generation := e\<rparr>) c) =
      slab_put i (\<lambda>s. s\<lparr>ss_generation := e\<rparr>) (slab_set_state i Reserved c)" for e
    using assms by (cases "sl_slots c ! unat i") (simp add: slab_set_state_def slab_put_def slab_slot_at_def built_def)
  have drop: "pending_drop m (slab_set_state i Reserved c) i = pending_drop m c i" if "built c i" for c :: "'a slab"
    using that by (simp add: pending_drop_def slab_set_state_def slab_put_def slab_slot_at_def built_def Let_def slab_partition_def)
  show ?thesis
    using assms by (simp add: pending_reject_def set_set comm [symmetric] drop split: option.split)
qed

lemma busy_discard_shows:
  assumes ok: "slab_ok m c" and view: "slab_view m c i = (st, g, Some v)"
  shows "shows_slot m c i (rejected m g) (busy_discard m c i)"
proof -
  note w = busy_withdraw_shows(1) [OF ok view]
  note wd = shows_slotD [OF w]
  have st: "state_of (withdrawn c i) i = Reserved" "slot_generation m (withdrawn c i) i = g"
    using fun_cong [OF wd(2), of i] wd(5) by (simp_all add: slab_view_def)
  have "shows_slot m c i (rejected m g) (pending_reject m (withdrawn c i) i)"
    using shows_slot_trans [OF w pending_reject_shows [OF wd(1) wd(5) st(1), unfolded st(2)]] .
  moreover have "pending_reject m (withdrawn c i) i = busy_discard m c i"
    using wd(5) by (simp add: busy_withdraw_def busy_discard_def busy_retire_def pending_reject_Reserved)
  ultimately show ?thesis
    by simp
qed

lemma busy_remove_shows:
  assumes ok: "slab_ok m c" and view: "slab_view m c i = (st, g, Some v)"
  shows "shows_slot m c i (rejected m g) (fst (busy_remove m c i))" "snd (busy_remove m c i) = v"
  using busy_discard_shows [OF ok view] alive_view(5) [OF ok view]
  by (simp_all add: busy_remove_def busy_discard_def)

section \<open>Fresh slabs and clearing\<close>

text \<open>The policies a slab is built with: one or two partitions and a non-zero last generation.\<close>

definition slab_mode_ok :: "slab_mode \<Rightarrow> bool" where
  "slab_mode_ok m \<longleftrightarrow> sm_partitions m \<in> {1, 2} \<and> sm_max m \<noteq> 0"

lemma unat_u32: "k < 2 ^ 32 \<Longrightarrow> unat (word_of_nat k :: u32) = k"
  by (simp add: unsigned_of_nat take_bit_nat_eq_self)

lemma unat_NONE: "unat NONE = 2 ^ 32 - 1"
  by (simp add: NONE_def unsigned_minus_1_eq_mask mask_eq_exp_minus_1)

lemma word_of_nat_NONE: "k < 2 ^ 32 - 1 \<Longrightarrow> word_of_nat k \<noteq> NONE"
  using unat_u32 [of k] unat_NONE by auto

lemma chained_run:
  assumes "a0 \<le> a" "a \<le> b" "b < 2 ^ 32"
    and L: "\<And>k. a0 \<le> k \<Longrightarrow> k < b \<Longrightarrow> L (word_of_nat k) =
      (if k + 1 = b then NONE else word_of_nat k + 1, if k = a0 then NONE else word_of_nat k - 1)"
  shows "chained L (if a = a0 then NONE else word_of_nat a - 1) (if a < b then word_of_nat a else NONE) (map word_of_nat [a..<b])"
  using assms(1,2)
proof (induction "b - a" arbitrary: a)
  case (Suc d)
  have "chained L (if a + 1 = a0 then NONE else word_of_nat (a + 1) - 1) (if a + 1 < b then word_of_nat (a + 1) else NONE)
      (map word_of_nat [a + 1..<b])"
    using Suc by (intro Suc.hyps(1)) auto
  then have "chained L (word_of_nat a) (if a + 1 = b then NONE else word_of_nat a + 1) (map word_of_nat [a + 1..<b])"
    using Suc by (auto split: if_splits simp: add.commute)
  moreover have "(word_of_nat a :: u32) \<noteq> NONE"
    using Suc assms(3) by (intro word_of_nat_NONE) simp
  ultimately show ?case
    using L [of a] Suc(2,3) by (auto simp: upt_conv_Cons)
qed simp

lemma fresh_slot:
  assumes "k < unat n" "\<not> sm_lazy m"
  shows "slab_slot_at (slab_new_inline m n) (word_of_nat k) =
    slot_free (cycle_stored m generation_MIN) (fst (slab_links m k n)) (snd (slab_links m k n))"
  using assms unat_bound [of n]
  by (simp add: slab_new_inline_def slab_slot_at_def slab_from_slots_def slab_slots_new_def split_beta Let_def
      unat_u32)

lemma fresh_built: "built (slab_new_inline m n) i \<longleftrightarrow> \<not> sm_lazy m \<and> i < n"
  by (simp add: built_def slab_new_inline_def slab_from_slots_def slab_slots_new_def Let_def word_less_nat_alt)

lemma fresh_fields:
  "sl_count (slab_new_inline m n) = n" "sl_retired (slab_new_inline m n) = 0" "sl_len (slab_new_inline m n) = 0"
  "length (sl_tail (slab_new_inline m n)) = unat n" "length (sl_free (slab_new_inline m n)) = sm_partitions m"
  "length (sl_slots (slab_new_inline m n)) = (if sm_lazy m then 0 else unat n)"
  "g < sm_partitions m \<Longrightarrow> sl_free (slab_new_inline m n) ! g =
    (let start = if g = 0 then 0 else slab_boundary m (unat n)
     in if sm_lazy m \<or> unat n \<le> start then NONE else word_of_nat start)"
  by (simp_all add: slab_new_inline_def slab_from_slots_def slab_slots_new_def Let_def)

text \<open>The slots of a partition, by their indices.\<close>

definition part_bounds :: "slab_mode \<Rightarrow> nat \<Rightarrow> nat \<Rightarrow> nat \<times> nat" where
  "part_bounds m n g = (if g = 0 then (0, slab_boundary m n) else (slab_boundary m n, n))"

lemma fresh_links:
  assumes mode: "slab_mode_ok m" and g: "g < sm_partitions m"
    and k: "fst (part_bounds m (unat n) g) \<le> k" "k < snd (part_bounds m (unat n) g)"
  shows "slab_links m k n = (if k + 1 = snd (part_bounds m (unat n) g) then NONE else word_of_nat k + 1,
      if k = fst (part_bounds m (unat n) g) then NONE else word_of_nat k - 1)"
  using g k mode by (auto simp: slab_links_def part_bounds_def Let_def split: if_splits)

lemma part_bounds_le:
  assumes "slab_mode_ok m" "g < sm_partitions m"
  shows "snd (part_bounds m n g) \<le> n" "fst (part_bounds m n g) \<le> snd (part_bounds m n g)"
    "n \<le> fst (part_bounds m n g) \<longleftrightarrow> fst (part_bounds m n g) = snd (part_bounds m n g)"
  using assms by (auto simp: part_bounds_def slab_mode_ok_def slab_boundary_def)

lemma part_bounds_iff:
  assumes "slab_mode_ok m" "g < sm_partitions m" "sl_count c = n" "i < n"
  shows "slab_partition m c i = g \<longleftrightarrow>
    fst (part_bounds m (unat n) g) \<le> unat i \<and> unat i < snd (part_bounds m (unat n) g)"
  using assms by (auto simp: part_bounds_def slab_mode_ok_def slab_boundary_def slab_partition_def word_less_nat_alt)

lemma fresh_chains:
  assumes mode: "slab_mode_ok m" and lazy: "\<not> sm_lazy m"
  shows "chains_ok m (slab_new_inline m n :: 'a slab) (\<lambda>g. map word_of_nat [fst (part_bounds m (unat n) g)..<snd (part_bounds m (unat n) g)])"
  unfolding chains_ok_def
proof (intro allI impI conjI)
  fix g and j :: u32 assume g: "g < sm_partitions m"
  let ?c = "slab_new_inline m n :: 'a slab" and ?a = "fst (part_bounds m (unat n) g)" and ?b = "snd (part_bounds m (unat n) g)"
  note le = part_bounds_le [OF mode g, of "unat n"]
  have bound: "k < ?b \<Longrightarrow> unat (word_of_nat k :: u32) = k" for k
    using le(1) unat_bound [of n] by (intro unat_u32) simp
  have "chained (links_of ?c) (if ?a = ?a then NONE else word_of_nat ?a - 1) (if ?a < ?b then word_of_nat ?a else NONE)
      (map word_of_nat [?a..<?b])"
  proof (rule chained_run)
    fix k assume k: "?a \<le> k" "k < ?b"
    then show "links_of ?c (word_of_nat k) = (if k + 1 = ?b then NONE else word_of_nat k + 1, if k = ?a then NONE else word_of_nat k - 1)"
      using lazy le(1) fresh_links [OF mode g k] by (simp add: fresh_slot slot_free_def slot_links_def)
  qed (use le unat_bound [of n] in auto)
  moreover have "sl_free ?c ! g = (if ?a < ?b then word_of_nat ?a else NONE)"
    using fresh_fields(7) [OF g, of n] lazy le(2,3) by (auto simp: Let_def part_bounds_def)
  ultimately show "chained (links_of ?c) NONE (sl_free ?c ! g) (map word_of_nat [?a..<?b])"
    by simp
  show "distinct (map (word_of_nat :: nat \<Rightarrow> u32) [?a..<?b])"
    using bound by (auto simp: distinct_map inj_on_def dest: arg_cong [where f = unat])
  have "j \<in> set (map word_of_nat [?a..<?b]) \<longleftrightarrow> ?a \<le> unat j \<and> unat j < ?b"
    using bound by (auto intro: image_eqI [of _ _ "unat j"])
  moreover have "state_of ?c j = Free" if "j < n"
    using fresh_slot [of "unat j" n m, where ?'a = 'a] lazy that by (simp add: word_less_nat_alt slot_free_def)
  ultimately show "j \<in> set (map word_of_nat [?a..<?b]) \<longleftrightarrow> built ?c j \<and> state_of ?c j = Free \<and> slab_partition m ?c j = g"
    using part_bounds_iff [OF mode g, of ?c n j] lazy le(1)
    by (auto simp: fresh_built fresh_fields(1) word_less_nat_alt)
qed

lemma slab_new_inline_ok:
  assumes mode: "slab_mode_ok m"
  shows "slab_ok m (slab_new_inline m n :: 'a slab)" "slab_view m (slab_new_inline m n :: 'a slab) = (\<lambda>i. (Free, generation_MIN, None))"
proof -
  let ?c = "slab_new_inline m n :: 'a slab"
  have slot: "state_of ?c i = Free \<and> ss_generation (slab_slot_at ?c i) = cycle_stored m generation_MIN" if "built ?c i" for i
    using fresh_slot [of "unat i" n m, where ?'a = 'a] that by (simp add: fresh_built word_less_nat_alt slot_free_def)
  have gen: "cycle_generation m (cycle_stored m generation_MIN) = generation_MIN"
    by (simp add: cycle_generation_def cycle_stored_def)
  have max: "1 \<le> sm_max m"
    using mode by (simp add: slab_mode_ok_def word_le_nat_alt Suc_le_eq unat_gt_0)
  have "sizes_ok m ?c"
    using mode by (simp add: sizes_ok_def slab_mode_ok_def fresh_fields(1-6))
  moreover have "\<exists>fs. chains_ok m ?c fs"
  proof (cases "sm_lazy m")
    case True
    then have "chains_ok m ?c (\<lambda>g. [])"
      by (simp add: chains_ok_def fresh_built fresh_fields(7) Let_def)
    then show ?thesis
      by (rule exI [of "chains_ok m ?c"])
  qed (rule exI [of "chains_ok m ?c", OF fresh_chains [OF mode]])
  moreover have "dense_ok ?c []"
    using slot by (auto simp: dense_ok_def fresh_fields(3))
  moreover have none: "{i. built ?c i \<and> state_of ?c i = Retired} = {}"
    using slot by auto
  have "slots_ok m ?c"
    unfolding slots_ok_def none using slot gen max by (auto simp: fresh_fields(2) generation_MIN_def)
  ultimately show "slab_ok m ?c"
    by (auto simp: slab_ok_def)
  show "slab_view m ?c = (\<lambda>i. (Free, generation_MIN, None))"
    using slot gen by (auto simp: fun_eq_iff slab_view_def slot_generation_def)
qed

end
