(* ===== verification/O3_Slab_Map.thy ===== *)
theory O3_Slab_Map
  imports O3_Slab_Proofs
begin

text \<open>
  What a slab promises its owner: a handle selects its value from the insertion that issued it to the
  removal that ends its lease, every other handle is refused with what was observed, and a slot moves
  only along the lease automaton below, so that an ended handle of a non-recycling slab stays dead.
\<close>

section \<open>The lease automaton\<close>

text \<open>What one slot shows before and after one operation on it.\<close>

inductive slot_step :: "slab_mode \<Rightarrow> slab_state \<times> u32 \<times> 'v option \<Rightarrow> slab_state \<times> u32 \<times> 'v option \<Rightarrow> bool" for m where
  reserve: "slot_step m (Free, g, None) (Reserved, g, None)"
| install: "slot_step m (Reserved, g, None) (mode_TAKEN m, g, Some v)"
| cancel: "slot_step m (Reserved, g, None) (Free, g, None)"
| reject: "slot_step m (Reserved, g, None) (rejected m g)"
| take: "slot_step m (Occupied, g, Some v) (mode_TAKEN m, g, Some v)"
| give: "slot_step m (mode_TAKEN m, g, Some v) (Occupied, g, Some v)"
| store: "slot_step m (mode_TAKEN m, g, Some v) (mode_TAKEN m, g, Some v')"
| reissue: "\<not> sm_recycle m \<Longrightarrow> generation_checked_add (sm_max m) g 1 = Some g' \<Longrightarrow>
    slot_step m (mode_TAKEN m, g, Some v) (mode_TAKEN m, g', Some v')"
| withdraw: "slot_step m (mode_TAKEN m, g, Some v) (Reserved, g, None)"
| discard: "alive st \<Longrightarrow> slot_step m (st, g, Some v) (rejected m g)"

text \<open>The operations of the code, each on a slot its guard names.\<close>

inductive slab_step :: "slab_mode \<Rightarrow> 'v slab \<Rightarrow> 'v slab \<Rightarrow> bool" for m where
  free: "slab_free m c = Some (c', i) \<Longrightarrow> slab_step m c c'"
| free_at: "slab_at m c i = Some (c', j) \<Longrightarrow> slab_step m c c'"
| free_in: "slab_in_range m c start stop = Some (c', i) \<Longrightarrow> slab_step m c c'"
| pending_install: "slab_view m c i = (Reserved, g, None) \<Longrightarrow> slab_step m c (pending_install m c i v)"
| pending_drop: "slab_view m c i = (Reserved, g, None) \<Longrightarrow> slab_step m c (pending_drop m c i)"
| withdrawn_drop: "slab_view m c i = (Reserved, g, None) \<Longrightarrow> slab_step m c (withdrawn_drop m c i)"
| occupied_take: "slab_view m c i = (Occupied, g, Some v) \<Longrightarrow> slab_step m c (occupied_take m c i)"
| busy_drop: "slab_view m c i = (mode_TAKEN m, g, Some v) \<Longrightarrow> slab_step m c (busy_drop m c i)"
| busy_set_value: "slab_view m c i = (mode_TAKEN m, g, Some v) \<Longrightarrow> slab_step m c (busy_set_value i v' c)"
| reuse: "slab_view m c i = (mode_TAKEN m, g, Some v) \<Longrightarrow> \<not> sm_recycle m \<Longrightarrow> reuse_try_from m c i = Some e \<Longrightarrow>
    slab_step m c (fst (reuse_replace m c i e v'))"
| busy_withdraw: "slab_view m c i = (mode_TAKEN m, g, Some v) \<Longrightarrow> slab_step m c (fst (busy_withdraw c i))"
| busy_remove: "slab_view m c i = (mode_TAKEN m, g, Some v) \<Longrightarrow> slab_step m c (fst (busy_remove m c i))"
| busy_discard: "slab_view m c i = (st, g, Some v) \<Longrightarrow> slab_step m c (busy_discard m c i)"

lemma reserved_view:
  assumes "slab_view m c i = (Reserved, g, v)"
  shows "built c i" "state_of c i = Reserved" "slot_generation m c i = g" "v = None"
  using assms by (auto simp: slab_view_def split: if_splits)

lemma reuse_bounds:
  assumes "generation_checked_add (sm_max m) g 1 = Some g'"
  shows "1 \<le> g'" "g' \<le> sm_max m" "g < g'"
  using assms
  by (auto simp: generation_checked_add_def checked_add_def word_less_nat_alt word_le_nat_alt unat_word_ariths split: if_splits option.splits)

text \<open>Each operation keeps the parts in agreement and moves one slot by one step of the automaton.\<close>

definition moves :: "slab_mode \<Rightarrow> 'v slab \<Rightarrow> 'v slab \<Rightarrow> bool" where
  "moves m c c' \<longleftrightarrow> slab_ok m c' \<and> sl_count c' = sl_count c \<and>
    (\<exists>i x. i < sl_count c \<and> slot_step m (slab_view m c i) x \<and> slab_view m c' = (slab_view m c)(i := x))"

lemma built_below: "slab_ok m c \<Longrightarrow> built c i \<Longrightarrow> i < sl_count c"
  by (auto simp: slab_ok_def sizes_ok_def built_def word_less_nat_alt)

lemma movesI:
  assumes "shows_slot m c i x c'" "slot_step m (slab_view m c i) x" "slab_ok m c" "built c i \<or> i < sl_count c"
  shows "moves m c c'"
proof -
  have "i < sl_count c"
    using assms(3,4) built_below by blast
  then show ?thesis
    unfolding moves_def using shows_slotD(1-3) [OF assms(1)] assms(2) by blast
qed

lemma reserves_moves:
  assumes "reserves m c (c', i)" "slab_ok m c"
  shows "moves m c c'"
  using assms by (auto simp: reserves_def intro!: movesI slot_step.reserve)

lemma slab_step_moves:
  assumes "slab_step m c c'" "slab_ok m c"
  shows "moves m c c'"
  using assms
proof (cases rule: slab_step.cases)
  case (free i)
  then show ?thesis
    using slab_free_cases(1) [OF assms(2)] reserves_moves assms(2) by blast
next
  case (free_at i j)
  then show ?thesis
    using slab_at_cases(1) [OF assms(2)] reserves_moves assms(2) by blast
next
  case (free_in start stop i)
  then show ?thesis
    using slab_in_range_cases(1) [OF assms(2)] reserves_moves assms(2) by blast
next
  case (pending_install i g v)
  note r = reserved_view [OF pending_install(2)]
  show ?thesis
    using pending_install_shows [OF assms(2) r(1,2), of v] pending_install r assms(2)
    by (auto intro!: movesI slot_step.install)
next
  case (pending_drop i g)
  note r = reserved_view [OF pending_drop(2)]
  show ?thesis
    using pending_drop_shows [OF assms(2) r(1,2)] pending_drop r assms(2) by (auto intro!: movesI slot_step.cancel)
next
  case (withdrawn_drop i g)
  note r = reserved_view [OF withdrawn_drop(2)]
  show ?thesis
    using pending_reject_shows [OF assms(2) r(1,2)] withdrawn_drop r assms(2)
    by (auto simp: withdrawn_drop_def intro!: movesI slot_step.reject)
next
  case (occupied_take i g v)
  show ?thesis
    using occupied_take_shows [OF assms(2) occupied_take(2)] occupied_take alive_view(1) [OF assms(2) occupied_take(2)] assms(2)
    by (auto intro!: movesI slot_step.take)
next
  case (busy_drop i g v)
  show ?thesis
    using busy_drop_shows [OF assms(2) busy_drop(2)] busy_drop alive_view(1) [OF assms(2) busy_drop(2)] assms(2)
    by (auto intro!: movesI slot_step.give)
next
  case (busy_set_value i g v v')
  show ?thesis
    using busy_set_value_shows [OF assms(2) busy_set_value(2), of v'] busy_set_value
      alive_view(1) [OF assms(2) busy_set_value(2)] assms(2)
    by (auto intro!: movesI slot_step.store)
next
  case (reuse i g v e v')
  note a = alive_view [OF assms(2) reuse(2)]
  have e: "generation_checked_add (sm_max m) g 1 = Some e"
    using reuse(4) a(4) by (simp add: reuse_try_from_def)
  show ?thesis
    using busy_replace_shows(1) [OF assms(2) reuse(2) reuse_bounds(1,2) [OF e] reuse(3), of v'] reuse a(1) e assms(2)
    by (auto simp: reuse_replace_def intro!: movesI slot_step.reissue)
next
  case (busy_withdraw i g v)
  show ?thesis
    using busy_withdraw_shows(1) [OF assms(2) busy_withdraw(2)] busy_withdraw alive_view(1) [OF assms(2) busy_withdraw(2)] assms(2)
    by (auto intro!: movesI slot_step.withdraw)
next
  case (busy_remove i g v)
  show ?thesis
    using busy_remove_shows(1) [OF assms(2) busy_remove(2)] busy_remove alive_view(1) [OF assms(2) busy_remove(2)] assms(2)
    by (auto intro!: movesI slot_step.discard)
next
  case (busy_discard i st g v)
  note a = alive_view [OF assms(2) busy_discard(2)]
  show ?thesis
    using busy_discard_shows [OF assms(2) busy_discard(2)] busy_discard a(1-3) assms(2)
    by (auto intro!: movesI slot_step.discard)
qed

section \<open>Handles\<close>

lemma parts_index_new [simp]: "parts_index (parts_new i g) = i"
  by (rule bit_word_eqI) (auto simp: parts_index_def parts_new_def bit_simps)

lemma parts_generation_new [simp]: "parts_generation (parts_new i g) = g"
  by (rule bit_word_eqI) (auto simp: parts_generation_def parts_new_def bit_simps dest: bit_imp_le_length)

lemma parts_new_parts: "parts_new (parts_index k) (parts_generation k) = k"
  by (rule bit_word_eqI) (auto simp: parts_index_def parts_generation_def parts_new_def bit_simps dest: bit_imp_le_length)

lemma parts_eqI: "parts_index k = parts_index k' \<Longrightarrow> parts_generation k = parts_generation k' \<Longrightarrow> k = k'"
  by (metis parts_new_parts)

text \<open>What a handle selects.\<close>

definition handle_value :: "slab_state \<times> u32 \<times> 'v option \<Rightarrow> u64 \<Rightarrow> 'v option" where
  "handle_value x key =
    (case x of (st, g, v) \<Rightarrow> if st = Occupied \<and> g = parts_generation key then v else None)"

definition live :: "slab_mode \<Rightarrow> 'v slab \<Rightarrow> u64 \<Rightarrow> 'v option" where
  "live m c key = handle_value (slab_view m c (parts_index key)) key"

lemma live_upd:
  assumes "slab_view m c' = (slab_view m c)(i := x)"
  shows "live m c' key = (if parts_index key = i then handle_value x key else live m c key)"
  by (simp add: live_def assms)

lemma live_Some:
  "live m c key = Some v \<longleftrightarrow> slab_view m c (parts_index key) = (Occupied, parts_generation key, Some v)"
  by (auto simp: live_def handle_value_def split: prod.splits if_splits)

lemma live_cleared:
  assumes "slab_view m c' = (slab_view m c)(parts_index key := x)" "live m c key = Some v" "\<And>k. handle_value x k = None"
  shows "live m c' = (live m c)(key := None)"
proof
  fix k
  have "live m c k = None" if "parts_index k = parts_index key" "k \<noteq> key"
    using assms(2) that parts_eqI [of k key] by (auto simp: live_def handle_value_def split: prod.splits if_splits)
  then show "live m c' k = ((live m c)(key := None)) k"
    using assms(3) by (auto simp: live_upd [OF assms(1)])
qed

lemma live_set:
  assumes "slab_view m c' = (slab_view m c)(i := (Occupied, g, Some v))"
    and "\<And>k. parts_index k = i \<Longrightarrow> k \<noteq> parts_new i g \<Longrightarrow> live m c k = None"
  shows "live m c' = (live m c)(parts_new i g \<mapsto> v)"
proof
  fix k
  consider (this) "k = parts_new i g" | (other) "parts_index k = i" "k \<noteq> parts_new i g" | (elsewhere) "parts_index k \<noteq> i"
    by blast
  then show "live m c' k = ((live m c)(parts_new i g \<mapsto> v)) k"
  proof cases
    case this
    then show ?thesis
      by (simp add: live_upd [OF assms(1)] handle_value_def)
  next
    case other
    then have "parts_generation k \<noteq> g"
      using parts_new_parts [of k] by auto
    then show ?thesis
      using other assms(2) [OF other] by (simp add: live_upd [OF assms(1)] handle_value_def)
  next
    case elsewhere
    then have "k \<noteq> parts_new i g"
      by auto
    then show ?thesis
      using elsewhere by (simp add: live_upd [OF assms(1)])
  qed
qed

lemma rejected_dead [simp]: "handle_value (rejected m g) k = None" "fst (rejected m g) \<noteq> Occupied"
  by (auto simp: handle_value_def rejected_def split: option.splits)

lemma occupied_key_live:
  assumes "slab_ok m c"
  shows "occupied_key m c (parts_index key) (parts_generation key) = (if live m c key = None then None else Some (parts_index key))"
proof (cases "live m c key")
  case None
  have "built c (parts_index key) \<Longrightarrow> state_of c (parts_index key) = Occupied \<Longrightarrow>
      slot_value (slab_slot_at c (parts_index key)) = Some (slab_value c (parts_index key))"
    using assms by (intro alive_value) simp_all
  then show ?thesis
    using None by (auto simp: occupied_key_def occupied_at_def live_def handle_value_def slab_view_def built_def [symmetric] split: if_splits)
next
  case (Some v)
  then have "slab_view m c (parts_index key) = (Occupied, parts_generation key, Some v)"
    by (simp add: live_Some)
  then show ?thesis
    using Some alive_view [OF assms] by (simp add: occupied_key_def occupied_at_def built_def [symmetric])
qed

section \<open>The store as a map from handles\<close>

lemma vacant_commit_shows:
  assumes ok: "slab_ok m c" and view: "slab_view m c i = (Reserved, g, None)"
  shows "shows_slot m c i (Occupied, g, Some v) (vacant_commit m c i v)"
proof -
  note r = reserved_view [OF view]
  note p = pending_install_shows [OF ok r(1,2), of v, unfolded r(3)]
  note pd = shows_slotD [OF p]
  have "slab_view m (pending_install m c i v) i = (mode_TAKEN m, g, Some v)"
    by (simp add: pd(2))
  from shows_slot_trans [OF p busy_drop_shows [OF pd(1) this]] show ?thesis
    by (simp add: vacant_commit_def)
qed

lemma store_insert_cases:
  assumes ok: "slab_ok m c"
  obtains (full) "slab_free m c = None" "store_insert m c v = (c, Inl v)"
  | (inserted) c' i g where "store_insert m c v = (c', Inr (parts_new i g))" "slab_view m c i = (Free, g, None)"
      "i < sl_count c" "shows_slot m c i (Occupied, g, Some v) c'"
proof (cases "slab_free m c")
  case None
  then show ?thesis
    using full by (simp add: store_insert_def)
next
  case (Some r)
  obtain c1 i where r: "r = (c1, i)"
    by (cases r)
  from slab_free_cases(1) [OF ok Some] obtain g where g: "slab_view m c i = (Free, g, None)" "i < sl_count c"
    "shows_slot m c i (Reserved, g, None) c1"
    by (auto simp: reserves_def r)
  note s = shows_slotD [OF g(3)]
  have view: "slab_view m c1 i = (Reserved, g, None)"
    by (simp add: s(2))
  show ?thesis
  proof (rule inserted [OF _ g(1,2)])
    show "store_insert m c v = (vacant_commit m c1 i v, Inr (parts_new i g))"
      using Some r reserved_view(3) [OF view] by (simp add: store_insert_def vacant_insert_def slot_key_def)
    show "shows_slot m c i (Occupied, g, Some v) (vacant_commit m c1 i v)"
      by (rule shows_slot_trans [OF g(3) vacant_commit_shows [OF s(1) view]])
  qed
qed

lemma store_remove_cases:
  assumes ok: "slab_ok m c"
  obtains (absent) "live m c key = None" "store_remove m c key = (c, None)"
  | (removed) c' v where "live m c key = Some v" "store_remove m c key = (c', Some v)"
      "shows_slot m c (parts_index key) (rejected m (parts_generation key)) c'"
proof (cases "live m c key")
  case None
  then show ?thesis
    using absent occupied_key_live [OF ok, of key] by (simp add: store_remove_def)
next
  case (Some v)
  let ?i = "parts_index key"
  have view: "slab_view m c ?i = (Occupied, parts_generation key, Some v)"
    using Some by (simp add: live_Some)
  note t = occupied_take_shows [OF ok view]
  note td = shows_slotD [OF t]
  have view': "slab_view m (occupied_take m c ?i) ?i = (mode_TAKEN m, parts_generation key, Some v)"
    by (simp add: td(2))
  note rm = busy_remove_shows [OF td(1) view']
  show ?thesis
    using removed [OF Some _ shows_slot_trans [OF t rm(1)]] Some occupied_key_live [OF ok, of key] rm(2)
    by (simp add: store_remove_def split_beta)
qed

lemma cell_update_cases:
  assumes ok: "slab_ok m c"
  obtains (absent) "live m c key = None" "cell_update m c key f = (c, None)"
  | (updated) c' v where "live m c key = Some v" "cell_update m c key f = (c', Some (snd (f v)))"
      "shows_slot m c (parts_index key) (Occupied, parts_generation key, Some (fst (f v))) c'"
proof (cases "live m c key")
  case None
  then show ?thesis
    using absent occupied_key_live [OF ok, of key] by (simp add: cell_update_def cell_entry_def)
next
  case (Some v)
  let ?i = "parts_index key" and ?g = "parts_generation key"
  have view: "slab_view m c ?i = (Occupied, ?g, Some v)"
    using Some by (simp add: live_Some)
  note t = occupied_take_shows [OF ok view]
  note td = shows_slotD [OF t]
  have view': "slab_view m (occupied_take m c ?i) ?i = (mode_TAKEN m, ?g, Some v)"
    by (simp add: td(2))
  note st = busy_set_value_shows [OF td(1) view', of "fst (f v)"]
  note sd = shows_slotD [OF st]
  have "slab_view m (busy_set_value ?i (fst (f v)) (occupied_take m c ?i)) ?i = (mode_TAKEN m, ?g, Some (fst (f v)))"
    by (simp add: sd(2))
  note d = shows_slot_trans [OF shows_slot_trans [OF t st] busy_drop_shows [OF sd(1) this]]
  have "slab_value (occupied_take m c ?i) ?i = v"
    by (rule alive_view(5) [OF td(1) view'])
  then show ?thesis
    using updated [OF Some _ d] Some occupied_key_live [OF ok, of key]
    by (simp add: cell_update_def cell_entry_def split_beta)
qed

section \<open>Clearing\<close>

lemma dense_last:
  assumes ok: "slab_ok m c" and ne: "sl_len c \<noteq> 0"
  obtains st g v where "slab_view m c (the (sl_tail c ! unat (sl_len c - 1))) = (st, g, Some v)"
proof -
  obtain fs ds where inv: "sizes_ok m c" "chains_ok m c fs" "dense_ok c ds" "slots_ok m c"
    by (rule slab_okE [OF ok])
  have n: "unat (sl_len c) = length ds" "ds \<noteq> []"
    using inv(3) ne by (auto simp: dense_ok_def unat_eq_zero)
  have tail: "unat (sl_len c - 1) = length ds - 1"
    using n ne by (simp add: unat_pred)
  let ?i = "ds ! (length ds - 1)"
  have "?i \<in> set ds"
    using n(2) by simp
  moreover have "sl_tail c ! (length ds - 1) = Some ?i"
    using inv(3) n(2) by (simp add: dense_ok_def)
  ultimately have "the (sl_tail c ! unat (sl_len c - 1)) = ?i" "built c ?i" "alive (state_of c ?i)"
    using inv(3) unfolding tail dense_ok_def by (metis option.sel, blast+)
  moreover from this have "slab_view m c ?i = (state_of c ?i, slot_generation m c ?i, Some (slab_value c ?i))"
    using alive_value [OF ok] by (simp add: slab_view_def)
  ultimately show ?thesis
    using that by simp
qed

lemma core_clear_steps:
  assumes "slab_ok m c"
  shows "(slab_step m)\<^sup>*\<^sup>* c (core_clear m c) \<and> slab_ok m (core_clear m c) \<and> sl_len (core_clear m c) = 0"
  using assms
proof (induction m c rule: core_clear.induct)
  case (1 m c)
  show ?case
  proof (cases "sl_len c = 0")
    case True
    then show ?thesis
      using 1(2) by (simp add: core_clear.simps [of m c])
  next
    case False
    let ?i = "the (sl_tail c ! unat (sl_len c - 1))"
    obtain st g v where view: "slab_view m c ?i = (st, g, Some v)"
      by (rule dense_last [OF 1(2) False])
    have step: "slab_step m c (busy_discard m c ?i)"
      using view by (rule slab_step.busy_discard)
    have "slab_ok m (busy_discard m c ?i)"
      by (rule shows_slotD(1) [OF busy_discard_shows [OF 1(2) view]])
    from 1(1) [OF False this] show ?thesis
      using False by (auto simp: core_clear.simps [of m c] intro: converse_rtranclp_into_rtranclp [where r = "slab_step m", OF step])
  qed
qed

lemma clear_dead:
  assumes "slab_ok m c" "sl_len c = 0"
  shows "live m c key = None" "\<not> alive (fst (slab_view m c i))"
proof -
  have none: "\<not> (built c j \<and> alive (state_of c j))" for j
    using assms by (fastforce simp: slab_ok_def dense_ok_def)
  then show dead: "\<not> alive (fst (slab_view m c i))" for i
    by (auto simp: slab_view_def)
  have "fst (slab_view m c (parts_index key)) \<noteq> Occupied"
    using dead [of "parts_index key"] by (auto simp: alive_def)
  then show "live m c key = None"
    by (auto simp: live_def handle_value_def split: prod.splits)
qed

section \<open>Ended leases\<close>

text \<open>
  A contract of owners that issue identities: what ends stays ended. \<open>good\<close> is the owner's invariant,
  \<open>ended\<close> a condition under which an identity is dead.
\<close>

locale leases =
  fixes good :: "'s \<Rightarrow> bool"
    and step :: "'s \<Rightarrow> 's \<Rightarrow> bool"
    and ended :: "'s \<Rightarrow> 'k \<Rightarrow> bool"
    and value_at :: "'s \<Rightarrow> 'k \<Rightarrow> 'v option"
  assumes good_step: "good s \<Longrightarrow> step s s' \<Longrightarrow> good s'"
    and ended_step: "good s \<Longrightarrow> step s s' \<Longrightarrow> ended s k \<Longrightarrow> ended s' k"
    and ended_dead: "good s \<Longrightarrow> ended s k \<Longrightarrow> value_at s k = None"
begin

lemma good_steps: "step\<^sup>*\<^sup>* s s' \<Longrightarrow> good s \<Longrightarrow> good s'"
  by (induction rule: rtranclp_induct) (auto intro: good_step)

lemma ended_steps: "step\<^sup>*\<^sup>* s s' \<Longrightarrow> good s \<Longrightarrow> ended s k \<Longrightarrow> ended s' k"
  by (induction rule: rtranclp_induct) (auto intro: ended_step good_steps)

lemma never_again: "step\<^sup>*\<^sup>* s s' \<Longrightarrow> good s \<Longrightarrow> ended s k \<Longrightarrow> value_at s' k = None"
  by (rule ended_dead [OF good_steps ended_steps])

end

text \<open>The slot has moved past the handle's generation, or will not be issued again.\<close>

definition handle_ended :: "slab_mode \<Rightarrow> 'v slab \<Rightarrow> u64 \<Rightarrow> bool" where
  "handle_ended m c key \<longleftrightarrow> \<not> sm_recycle m \<and>
    (parts_generation key < fst (snd (slab_view m c (parts_index key))) \<or> fst (slab_view m c (parts_index key)) = Retired)"

lemma slot_step_ages:
  assumes "slot_step m x y" "\<not> sm_recycle m" "sm_max m \<noteq> 0"
  shows "fst x \<noteq> Retired" "fst (snd x) \<le> fst (snd y)"
proof -
  show "fst x \<noteq> Retired"
    using assms(1) by (cases rule: slot_step.cases) auto
  have rej: "g \<le> fst (snd (rejected m g))" for g
    using cycle_next_Some(4) [of m g] assms(2,3) by (auto simp: rejected_def less_imp_le split: option.splits)
  show "fst (snd x) \<le> fst (snd y)"
    using assms(1) by (cases rule: slot_step.cases) (auto simp: rej dest: reuse_bounds(3))
qed

lemma handle_ended_step:
  assumes "slab_ok m c" "slab_step m c c'" "handle_ended m c key"
  shows "handle_ended m c' key"
proof -
  have max: "sm_max m \<noteq> 0"
    using assms(1) by (simp add: slab_ok_def sizes_ok_def)
  obtain i x where s: "slot_step m (slab_view m c i) x" "slab_view m c' = (slab_view m c)(i := x)"
    using slab_step_moves [OF assms(2,1)] unfolding moves_def by blast
  have "\<not> sm_recycle m"
    using assms(3) by (simp add: handle_ended_def)
  note a = slot_step_ages [OF s(1) this max]
  show ?thesis
  proof (cases "parts_index key = i")
    case True
    then have "parts_generation key < fst (snd (slab_view m c i))" "\<not> sm_recycle m"
      using assms(3) a(1) by (simp_all add: handle_ended_def)
    then show ?thesis
      using order_less_le_trans [OF _ a(2)] True by (simp add: handle_ended_def s(2))
  next
    case False
    then show ?thesis
      using assms(3) by (simp add: handle_ended_def s(2))
  qed
qed

interpretation slab: leases "slab_ok m" "slab_step m" "handle_ended m" "live m" for m
proof
  fix c c' :: "'a slab" and k
  assume ok: "slab_ok m c"
  show "live m c k = None" if "handle_ended m c k"
    using that by (auto simp: handle_ended_def live_def handle_value_def split: prod.splits)
  assume step: "slab_step m c c'"
  show "slab_ok m c'"
    using slab_step_moves [OF step ok] by (simp add: moves_def)
  show "handle_ended m c' k" if "handle_ended m c k"
    by (rule handle_ended_step [OF ok step that])
qed

section \<open>Refusals\<close>

lemma card_below_u32: "card {i :: u32. i < n} = unat n"
proof -
  have "unat ` {i :: u32. i < n} = {..<unat n}"
  proof (intro equalityI subsetI)
    fix k assume "k \<in> {..<unat n}"
    then show "k \<in> unat ` {i :: u32. i < n}"
      using unat_bound [of n] by (intro image_eqI [of _ _ "word_of_nat k"]) (simp_all add: unat_u32 word_less_nat_alt)
  qed (auto simp: word_less_nat_alt)
  moreover have "card (unat ` {i :: u32. i < n}) = card {i :: u32. i < n}"
    by (rule card_image) (simp add: inj_on_def unat_inj)
  ultimately show ?thesis
    by simp
qed

lemma retired_view:
  assumes "slab_ok m c"
  shows "{i. built c i \<and> state_of c i = Retired} = {i. i < sl_count c \<and> fst (slab_view m c i) = Retired}"
  using built_below [OF assms] by (auto simp: slab_view_def)

lemma slab_remaining_unat:
  assumes ok: "slab_ok m c" and heap: "sm_heap m"
  shows "unat (slab_remaining m c) = card {i. i < sl_count c \<and> fst (slab_view m c i) \<noteq> Retired}"
proof -
  let ?R = "{i. i < sl_count c \<and> fst (slab_view m c i) = Retired}"
  let ?A = "{i. i < sl_count c}"
  have ret: "unat (sl_retired c) = card ?R"
    using ok heap retired_view [OF ok] by (simp add: slab_ok_def slots_ok_def)
  have sub: "card (?A - ?R) = card ?A - card ?R" "card ?R \<le> card ?A"
    by (auto intro: card_Diff_subset card_mono)
  have "?A - ?R = {i. i < sl_count c \<and> fst (slab_view m c i) \<noteq> Retired}"
    by auto
  then show ?thesis
    using heap sub ret card_below_u32 [of "sl_count c"] by (simp add: slab_remaining_def unat_sub word_le_nat_alt)
qed

lemma slab_refusal_iff:
  assumes "slab_ok m c"
  shows "slab_refusal m c = IdentityExhausted \<longleftrightarrow>
    sm_heap m \<and> sl_count c \<noteq> 0 \<and> (\<forall>i < sl_count c. fst (slab_view m c i) = Retired)"
proof (cases "sm_heap m")
  case True
  have "slab_remaining m c = 0 \<longleftrightarrow> card {i. i < sl_count c \<and> fst (slab_view m c i) \<noteq> Retired} = 0"
    unfolding slab_remaining_unat [OF assms True, symmetric] by (simp add: unat_eq_zero)
  also have "\<dots> \<longleftrightarrow> (\<forall>i < sl_count c. fst (slab_view m c i) = Retired)"
    by auto
  finally show ?thesis
    using True by (simp add: slab_refusal_def)
qed (simp add: slab_refusal_def slab_remaining_def)

lemma slab_is_full_iff:
  assumes ok: "slab_ok m c"
  shows "slab_is_full c \<longleftrightarrow> slab_free m c = None"
proof -
  have sizes: "sm_partitions m = 1 \<or> sm_partitions m = 2" "length (sl_free c) = sm_partitions m"
    "\<not> sm_lazy m \<longrightarrow> length (sl_slots c) = unat (sl_count c)"
    using ok by (auto simp: slab_ok_def sizes_ok_def)
  have heads: "(\<forall>h\<in>set (sl_free c). h = NONE) \<longleftrightarrow> (\<forall>g < sm_partitions m. sl_free c ! g = NONE)"
    using sizes(2) by (metis in_set_conv_nth)
  have head: "head_at c g = None \<longleftrightarrow> sl_free c ! g = NONE" if "g < sm_partitions m" for g
    using head_at_take(1) [OF ok that] by simp
  have "slab_free m c = None \<longleftrightarrow> head_at c 0 = None \<and> (sm_partitions m = 2 \<longrightarrow> head_at c 1 = None) \<and>
      unat (sl_count c) \<le> length (sl_slots c)"
    using sizes(3) by (auto simp: slab_free_def slots_push_def Let_def split: option.split)
  moreover have "head_at c 0 = None \<and> (sm_partitions m = 2 \<longrightarrow> head_at c 1 = None) \<longleftrightarrow> (\<forall>g < sm_partitions m. sl_free c ! g = NONE)"
    using sizes(1) head [of 0] head [of 1] by (auto simp: less_2_cases_iff)
  ultimately show ?thesis
    unfolding slab_is_full_def heads by blast
qed

lemma try_get_live:
  assumes ok: "slab_ok m c"
  shows "store_try_get m c key = Inr v \<longleftrightarrow> live m c key = Some v"
proof -
  have "built c i \<Longrightarrow> state_of c i = Occupied \<Longrightarrow> slot_value (slab_slot_at c i) = Some (slab_value c i)" for i
    using ok by (intro alive_value) simp_all
  then show ?thesis
    by (auto simp: store_try_get_def occupied_try_key_def state_classify_def live_def handle_value_def slab_view_def
        built_def [symmetric] not_less [symmetric] Let_def split: slab_state.splits if_splits sum.splits)
qed

lemma try_get_refused:
  assumes "store_try_get m c key = Inl e"
  shows "fst (key_error_into_parts e) = key" "case snd (key_error_into_parts e) of
      Obs_Index n \<Rightarrow> n = sl_count c \<and> \<not> built c (parts_index key)
    | Obs_Free g \<Rightarrow> slab_view m c (parts_index key) = (Free, g, None)
    | Obs_Reserved g \<Rightarrow> slab_view m c (parts_index key) = (Reserved, g, None)
    | Obs_Retired g \<Rightarrow> slab_view m c (parts_index key) = (Retired, g, None)
    | Obs_Generation g \<Rightarrow> fst (slab_view m c (parts_index key)) = Occupied \<and> fst (snd (slab_view m c (parts_index key))) = g \<and>
        g \<noteq> parts_generation key
    | Obs_Busy g \<Rightarrow> fst (slab_view m c (parts_index key)) = Busy \<and> fst (snd (slab_view m c (parts_index key))) = g"
  using assms
  by (auto simp: store_try_get_def occupied_try_key_def state_classify_def key_refused_def slab_view_def
      built_def [symmetric] not_less [symmetric] Let_def split: slab_state.splits if_splits sum.splits)

section \<open>Properties\<close>

text \<open>C12: Every state reachable from construction keeps the free chains, the dense plane, the slot
  states and the retirement count in agreement, and each operation moves exactly one slot by one step
  of the lease automaton and leaves what every other slot shows unchanged.\<close>

theorem slab_refines_leases:
  assumes "slab_mode_ok m" "slab_try_new grant rows m n = Inr c0" "(slab_step m)\<^sup>*\<^sup>* c0 c"
  shows "slab_ok m c \<and> slab_view m c0 = (\<lambda>i. (Free, generation_MIN, None)) \<and>
    (\<forall>c'. slab_step m c c' \<longrightarrow> (\<exists>i x. i < sl_count c \<and> slot_step m (slab_view m c i) x \<and>
      slab_view m c' = (slab_view m c)(i := x)))"
proof -
  have c0: "c0 = slab_new_inline m n"
    using assms(2) by (simp add: slab_try_new_def slab_new_inline_def split: if_splits)
  have fresh: "slab_ok m c0" "slab_view m c0 = (\<lambda>i. (Free, generation_MIN, None))"
    by (simp_all add: c0 slab_new_inline_ok [OF assms(1)])
  have "slab_ok m c"
    by (rule slab.good_steps [OF assms(3) fresh(1)])
  then show ?thesis
    using fresh(2) slab_step_moves unfolding moves_def by blast
qed

definition eager_mode :: slab_mode where
  "eager_mode = \<lparr>sm_interior = False, sm_recycle = False, sm_max = 2, sm_partitions = 1, sm_lazy = False, sm_heap = True\<rparr>"

lemma eager_mode_ok: "slab_mode_ok eager_mode"
  by (simp add: slab_mode_ok_def eager_mode_def)

definition slot_rows :: shape where
  "slot_rows = \<lparr>sh_root = \<lparr>ty_size = 24, ty_align = 8\<rparr>, sh_tail = \<lparr>ty_size = 4, ty_align = 4\<rparr>,
    sh_extra = \<lparr>ty_size = 0, ty_align = 1\<rparr>, sh_last = \<lparr>ty_size = 0, ty_align = 1\<rparr>\<rparr>"

lemma slab_refines_leases_witness:
  "\<exists>c c' i j. slab_try_new True slot_rows eager_mode 2 = Inr (c :: nat slab) \<and> slab_free eager_mode c = Some (c', i) \<and>
    slab_ok eager_mode c' \<and> slab_view eager_mode c' = (\<lambda>_. (Free, generation_MIN, None))(j := (Reserved, generation_MIN, None))"
proof -
  let ?c = "slab_new_inline eager_mode 2 :: nat slab"
  have new: "slab_try_new True slot_rows eager_mode 2 = Inr ?c"
    by (simp add: slab_try_new_def slab_new_inline_def rows_MAX_def slot_rows_def Let_def isize_max_def)
  have "(case slab_free eager_mode ?c of None \<Rightarrow> False | Some _ \<Rightarrow> True)"
    by code_simp
  then obtain c' i where free: "slab_free eager_mode ?c = Some (c', i)"
    by (cases "slab_free eager_mode ?c") auto
  note step = slab_step.free [OF free]
  obtain j x where "slot_step eager_mode (Free, generation_MIN, None) x"
    "slab_view eager_mode c' = (\<lambda>_. (Free, generation_MIN, None))(j := x)"
    using slab_refines_leases [OF eager_mode_ok new rtranclp.rtrancl_refl] step by auto
  moreover from this(1) have "x = (Reserved, generation_MIN, None)"
    by (cases rule: slot_step.cases) (simp_all add: mode_TAKEN_def eager_mode_def)
  ultimately show ?thesis
    using slab_refines_leases [OF eager_mode_ok new r_into_rtranclp [of "slab_step eager_mode", OF step]] new free by blast
qed

text \<open>C14: A slab is a map from handles to values. Insertion issues a handle that was not live and
  refuses, returning the value, exactly when no slot is free; removal and update answer for the live
  handle only; clearing ends every lease.\<close>

theorem slab_store_is_map:
  assumes ok: "slab_ok m c"
  shows "(case store_insert m c v of
      (c', Inl w) \<Rightarrow> c' = c \<and> w = v \<and> (\<forall>i < sl_count c. fst (slab_view m c i) \<noteq> Free)
    | (c', Inr k) \<Rightarrow> slab_ok m c' \<and> live m c k = None \<and> live m c' = (live m c)(k \<mapsto> v)) \<and>
    (case store_remove m c key of
      (c', r) \<Rightarrow> slab_ok m c' \<and> r = live m c key \<and> live m c' = (live m c)(key := None)) \<and>
    (case cell_update m c key f of
      (c', r) \<Rightarrow> slab_ok m c' \<and> r = map_option (\<lambda>v. snd (f v)) (live m c key) \<and>
        live m c' = (live m c)(key := map_option (\<lambda>v. fst (f v)) (live m c key))) \<and>
    slab_ok m (slab_store_clear m c) \<and> live m (slab_store_clear m c) = (\<lambda>k. None)"
proof (intro conjI)
  show "case store_insert m c v of
      (c', Inl w) \<Rightarrow> c' = c \<and> w = v \<and> (\<forall>i < sl_count c. fst (slab_view m c i) \<noteq> Free)
    | (c', Inr k) \<Rightarrow> slab_ok m c' \<and> live m c k = None \<and> live m c' = (live m c)(k \<mapsto> v)"
  proof (cases rule: store_insert_cases [OF ok, of v])
    case 1
    then show ?thesis
      using slab_free_cases(2) [OF ok] by simp
  next
    case (2 c' i g)
    have "live m c k = None" if "parts_index k = i" for k
      using that 2(2) by (simp add: live_def handle_value_def)
    then show ?thesis
      using live_set [OF shows_slotD(2) [OF 2(4)]] shows_slotD(1) [OF 2(4)] 2(1) by simp
  qed
  show "case store_remove m c key of
      (c', r) \<Rightarrow> slab_ok m c' \<and> r = live m c key \<and> live m c' = (live m c)(key := None)"
  proof (cases rule: store_remove_cases [OF ok, of key])
    case (2 c' v)
    then show ?thesis
      using live_cleared [OF shows_slotD(2) [OF 2(3)] 2(1)] shows_slotD(1) [OF 2(3)] by simp
  qed (simp add: ok fun_upd_idem)
  show "case cell_update m c key f of
      (c', r) \<Rightarrow> slab_ok m c' \<and> r = map_option (\<lambda>v. snd (f v)) (live m c key) \<and>
        live m c' = (live m c)(key := map_option (\<lambda>v. fst (f v)) (live m c key))"
  proof (cases rule: cell_update_cases [OF ok, of key f])
    case (2 c' v)
    have "live m c k = None" if "parts_index k = parts_index key" "k \<noteq> key" for k
      using that 2(1) parts_eqI [of k key] by (auto simp: live_def handle_value_def split: prod.splits if_splits)
    then show ?thesis
      using live_set [OF shows_slotD(2) [OF 2(3)]] shows_slotD(1) [OF 2(3)] 2(1,2) by (simp add: parts_new_parts)
  qed (simp add: ok fun_upd_idem)
  show "slab_ok m (slab_store_clear m c)" "live m (slab_store_clear m c) = (\<lambda>k. None)"
    using core_clear_steps [OF ok] clear_dead(1) [of m "core_clear m c"] by (simp_all add: slab_store_clear_def fun_eq_iff)
qed

lemma slab_store_is_map_witness:
  "snd (store_remove eager_mode (slab_new_inline eager_mode 2 :: nat slab) 5) = None"
  using slab_store_is_map [OF slab_new_inline_ok(1) [OF eager_mode_ok, of 2], where v = "7 :: nat" and key = 5 and f = "\<lambda>v. (v, v)"]
  by (simp add: live_def handle_value_def slab_new_inline_ok(2) [OF eager_mode_ok] split_beta)

text \<open>C13: A slab that does not recycle never answers to a removed handle again, whatever operations
  follow, and never issues it again.\<close>

theorem slab_handles_stay_dead:
  assumes ok: "slab_ok m c" "\<not> sm_recycle m" and remove: "store_remove m c key = (c1, Some v)"
    and later: "(slab_step m)\<^sup>*\<^sup>* c1 c2"
  shows "live m c2 key = None \<and> store_try_get m c2 key \<noteq> Inr w \<and> snd (store_insert m c2 u) \<noteq> Inr key"
proof -
  obtain "live m c key = Some v" and s: "shows_slot m c (parts_index key) (rejected m (parts_generation key)) c1"
    using store_remove_cases [OF ok(1), of key] remove by (metis Pair_inject option.discI option.inject)
  have max: "sm_max m \<noteq> 0"
    using ok(1) by (simp add: slab_ok_def sizes_ok_def)
  note d = shows_slotD [OF s]
  have "handle_ended m c1 key"
    using ok(2) cycle_next_Some(4) [OF _ max ok(2), of "parts_generation key"]
    by (auto simp: handle_ended_def d(2) rejected_def split: option.split)
  then have ended: "slab_ok m c2" "handle_ended m c2 key"
    using slab.good_steps [OF later d(1)] slab.ended_steps [OF later d(1)] by simp_all
  then have dead: "live m c2 key = None"
    by (rule slab.ended_dead)
  moreover have "snd (store_insert m c2 u) \<noteq> Inr key"
  proof (cases rule: store_insert_cases [OF ended(1), of u])
    case (2 c' i g)
    then show ?thesis
      using ended(2) by (auto simp: handle_ended_def)
  qed simp
  ultimately show ?thesis
    by (simp add: try_get_live [OF ended(1)])
qed

lemma slab_handles_stay_dead_witness:
  "\<exists>(c :: nat slab) key c1. live eager_mode c key = Some 7 \<and> store_remove eager_mode c key = (c1, Some 7) \<and>
    live eager_mode c1 key = None"
proof -
  let ?c = "slab_new_inline eager_mode 2 :: nat slab"
  note ok = slab_new_inline_ok [OF eager_mode_ok, of 2, where ?'a = nat]
  have free: "slab_free eager_mode ?c \<noteq> None"
    using slab_free_cases(2) [OF ok(1)] by (auto simp: ok(2) fresh_fields(1) dest: spec [of _ "0 :: u32"])
  obtain c i g where c: "store_insert eager_mode ?c 7 = (c, Inr (parts_new i g))"
    and s: "shows_slot eager_mode ?c i (Occupied, g, Some 7) c"
    by (rule store_insert_cases [OF ok(1), of 7]) (use free in auto)
  have l: "live eager_mode c (parts_new i g) = Some 7"
    by (simp add: live_Some shows_slotD(2) [OF s])
  obtain c1 where c1: "store_remove eager_mode c (parts_new i g) = (c1, Some 7)"
    by (rule store_remove_cases [OF shows_slotD(1) [OF s], of "parts_new i g"]) (use l in auto)
  have "\<not> sm_recycle eager_mode"
    by (simp add: eager_mode_def)
  from slab_handles_stay_dead [OF shows_slotD(1) [OF s] this c1 rtranclp.rtrancl_refl, of 0 0] show ?thesis
    using l c1 by blast
qed

text \<open>C19: A lookup answers exactly the live handles; a refusal returns the handle and names the state and
  generation the slot shows, or the capacity when the slot was never constructed.\<close>

theorem slab_lookup_exact:
  assumes ok: "slab_ok m c"
  shows "(store_try_get m c key = Inr v \<longleftrightarrow> live m c key = Some v) \<and>
    (case store_try_get m c key of Inr w \<Rightarrow> True
     | Inl e \<Rightarrow> fst (key_error_into_parts e) = key \<and> (case snd (key_error_into_parts e) of
        Obs_Index n \<Rightarrow> n = sl_count c \<and> \<not> built c (parts_index key)
      | Obs_Free g \<Rightarrow> slab_view m c (parts_index key) = (Free, g, None)
      | Obs_Reserved g \<Rightarrow> slab_view m c (parts_index key) = (Reserved, g, None)
      | Obs_Retired g \<Rightarrow> slab_view m c (parts_index key) = (Retired, g, None)
      | Obs_Generation g \<Rightarrow> fst (slab_view m c (parts_index key)) = Occupied \<and>
          fst (snd (slab_view m c (parts_index key))) = g \<and> g \<noteq> parts_generation key
      | Obs_Busy g \<Rightarrow> fst (slab_view m c (parts_index key)) = Busy \<and> fst (snd (slab_view m c (parts_index key))) = g))"
  using try_get_live [OF ok] try_get_refused [of m c key] by (auto split: sum.split)

lemma slab_lookup_exact_witness:
  "store_try_get eager_mode (slab_new_inline eager_mode 2 :: nat slab) (parts_new 1 1) \<noteq> Inr 5"
  using slab_lookup_exact [OF slab_new_inline_ok(1) [OF eager_mode_ok, of 2], of "parts_new 1 1" "5 :: nat"]
  by (simp add: live_def handle_value_def slab_new_inline_ok(2) [OF eager_mode_ok])

text \<open>Admission is exact: a slab is ready exactly when some slot is free, is permanently exhausted
  exactly when every slot of a non-empty slab is retired, and is temporarily full otherwise; what it
  reports as remaining is the number of slots that are not retired.\<close>

theorem slab_admission_exact:
  assumes ok: "slab_ok m c" and heap: "sm_heap m"
  shows "(case store_try_ready m c of
      Inr u \<Rightarrow> \<exists>i < sl_count c. fst (slab_view m c i) = Free
    | Inl IdentityExhausted \<Rightarrow> sl_count c \<noteq> 0 \<and> (\<forall>i < sl_count c. fst (slab_view m c i) = Retired)
    | Inl Full \<Rightarrow> (\<forall>i < sl_count c. fst (slab_view m c i) \<noteq> Free) \<and>
        (sl_count c = 0 \<or> (\<exists>i < sl_count c. fst (slab_view m c i) \<noteq> Retired))) \<and>
    (case store_try_vacant m c of
      Inr (c', i) \<Rightarrow> slab_ok m c' \<and> i < sl_count c \<and> fst (slab_view m c i) = Free \<and> fst (slab_view m c' i) = Reserved
    | Inl e \<Rightarrow> store_try_ready m c = Inl e) \<and>
    unat (slab_remaining m c) = card {i. i < sl_count c \<and> fst (slab_view m c i) \<noteq> Retired}"
proof (intro conjI)
  show "unat (slab_remaining m c) = card {i. i < sl_count c \<and> fst (slab_view m c i) \<noteq> Retired}"
    by (rule slab_remaining_unat [OF ok heap])
  show "case store_try_ready m c of
      Inr u \<Rightarrow> \<exists>i < sl_count c. fst (slab_view m c i) = Free
    | Inl IdentityExhausted \<Rightarrow> sl_count c \<noteq> 0 \<and> (\<forall>i < sl_count c. fst (slab_view m c i) = Retired)
    | Inl Full \<Rightarrow> (\<forall>i < sl_count c. fst (slab_view m c i) \<noteq> Free) \<and>
        (sl_count c = 0 \<or> (\<exists>i < sl_count c. fst (slab_view m c i) \<noteq> Retired))"
    using slab_free_cases(2) [OF ok] slab_refusal_iff [OF ok] heap
    by (cases "slab_refusal m c") (auto simp: store_try_ready_def slab_is_full_iff [OF ok])
  show "case store_try_vacant m c of
      Inr (c', i) \<Rightarrow> slab_ok m c' \<and> i < sl_count c \<and> fst (slab_view m c i) = Free \<and> fst (slab_view m c' i) = Reserved
    | Inl e \<Rightarrow> store_try_ready m c = Inl e"
    using slab_free_cases(1) [OF ok] slab_is_full_iff [OF ok]
    by (cases "slab_free m c") (auto simp: store_try_vacant_def store_try_ready_def reserves_def dest: shows_slotD)
qed

lemma slab_admission_exact_witness:
  "slab_remaining eager_mode (slab_new_inline eager_mode 2 :: nat slab) = 2"
proof -
  note ok = slab_new_inline_ok [OF eager_mode_ok, of 2, where ?'a = nat]
  have heap: "sm_heap eager_mode"
    by (simp add: eager_mode_def)
  have "card {i :: u32. i < 2} = 2"
    using card_below_u32 [of 2] by simp
  then have "unat (slab_remaining eager_mode (slab_new_inline eager_mode 2 :: nat slab)) = 2"
    using slab_admission_exact [OF ok(1) heap] by (simp add: ok(2) fresh_fields(1))
  then show ?thesis
    by (simp add: word_unat_eq_iff)
qed

text \<open>A handle and its parts convert into each other without loss, and a raw identity is accepted
  exactly when its generation is one that can have been issued.\<close>

theorem slab_parts_round_trip:
  "parts_index (parts_new i g) = i \<and> parts_generation (parts_new i g) = g \<and>
   parts_new (parts_index k) (parts_generation k) = k \<and>
   parts_from_raw m (parts_new i g) = (if g = 0 \<or> m < g then None else Some (parts_new i g))"
proof -
  have "ucast (drop_bit 32 (parts_new i g)) = g"
    using parts_generation_new [of i g] by (simp add: parts_generation_def)
  then show ?thesis
    by (simp add: parts_new_parts parts_from_raw_def Let_def)
qed

end
