(* ===== verification/O3_Segments.thy ===== *)
theory O3_Segments
  imports O3_Ring
begin

text \<open>
  The segmented byte queue (src/src/buffer/segments/queue/, segments/item/, segments/tail.rs,
  segments/chain/edit/drain.rs), the scattered traversals over it (segments/scatter/,
  raw/scatter/) and the consumption errors of writers (write/consume/).

  A retained owner is the bytes it shows: its backing does not change while it is queued, and the
  operations here only narrow the extent. A slice is at most \<open>isize::MAX\<close> bytes long, so the length
  of an owner is a \<open>usize\<close>. The queue's ring is the one of \<open>O3_Ring\<close>. A loop whose end depends on
  the queue's totals is a partial function: None is a loop that does not return.
\<close>

section \<open>Consumption errors\<close>

record consume_error =
  ce_required :: usize
  ce_available :: usize

definition consume_new :: "usize \<Rightarrow> usize \<Rightarrow> consume_error" where
  "consume_new required room = \<lparr>ce_required = required, ce_available = room\<rparr>"

definition consume_empty :: "usize \<Rightarrow> consume_error" where
  "consume_empty required = consume_new required 0"

definition consume_check :: "usize \<Rightarrow> usize \<Rightarrow> consume_error + unit" where
  "consume_check required room =
    (if required \<le> room then Inr () else Inl (consume_new (saturating_add 1 (required - 1)) room))"

definition consume_into_parts :: "consume_error \<Rightarrow> usize \<times> usize" where
  "consume_into_parts e = (ce_required e, ce_available e)"

fun checked_room :: "usize \<Rightarrow> usize list \<Rightarrow> consume_error + usize" where
  "checked_room room [] = Inr room"
| "checked_room room (n # ns) =
    (case consume_check n room of Inl e \<Rightarrow> Inl e | Inr u \<Rightarrow> checked_room (room - n) ns)"

text \<open>The slices enter by their lengths.\<close>

definition consume_checked_end :: "usize \<Rightarrow> usize \<Rightarrow> usize list \<Rightarrow> consume_error + usize" where
  "consume_checked_end start capacity lens =
    (case consume_check start capacity of Inl e \<Rightarrow> Inl e
     | Inr u \<Rightarrow>
        if lens = [] then Inr start
        else case checked_room (capacity - start) (butlast lens) of Inl e \<Rightarrow> Inl e
          | Inr room \<Rightarrow>
             (case consume_check (last lens) room of Inl e \<Rightarrow> Inl e
              | Inr u \<Rightarrow> Inr (capacity - room + last lens)))"

section \<open>Owners and tails\<close>

definition seg_len :: "'b list \<Rightarrow> usize" where
  "seg_len bytes = word_of_nat (length bytes)"

text \<open>\<open>Inl\<close> is the unchanged empty owner, \<open>Inr\<close> the item.\<close>

definition item_new :: "'b list \<Rightarrow> 'b list + 'b list" where
  "item_new bytes = (if bytes = [] then Inl bytes else Inr bytes)"

definition item_clamp :: "'b list \<Rightarrow> usize \<Rightarrow> usize \<Rightarrow> 'b list option" where
  "item_clamp bytes start stop =
    (let stop = min stop (seg_len bytes)
     in if stop \<le> start then None else Some (drop (unat start) (take (unat stop) bytes)))"

definition tail_new :: "'b list \<Rightarrow> usize \<Rightarrow> usize option" where
  "tail_new bytes amount = (if seg_len bytes \<le> amount then None else Some amount)"

definition tail_view :: "'b list \<Rightarrow> usize \<Rightarrow> 'b list" where
  "tail_view bytes amount = take (unat amount) bytes"

definition tail_commit :: "'b list \<Rightarrow> usize \<Rightarrow> 'b list" where
  "tail_commit bytes amount = drop (unat amount) bytes"

definition segment_prefix :: "'b list \<Rightarrow> usize \<Rightarrow> 'b list" where
  "segment_prefix bytes limit = take (unat (min limit (seg_len bytes))) bytes"

text \<open>\<open>retain\<close> is whether another reference to the owner can be taken.\<close>

definition segment_try_split :: "bool \<Rightarrow> 'b list \<Rightarrow> usize \<Rightarrow> 'b list + ('b list \<times> 'b list option)" where
  "segment_try_split retain bytes limit =
    (case tail_new bytes limit of None \<Rightarrow> Inr (bytes, None)
     | Some amount \<Rightarrow>
        if retain then Inr (tail_view bytes amount, Some (tail_commit bytes amount)) else Inl bytes)"

definition segment_suffix :: "'b list \<Rightarrow> usize \<Rightarrow> 'b list option" where
  "segment_suffix bytes amount = map_option (tail_commit bytes) (tail_new bytes amount)"

section \<open>The queue\<close>

record 'b seg_queue =
  sq_owners :: "'b list fifo32"
  sq_len :: u32
  sq_capacity :: u32

datatype queue_error = Queue_Bytes usize usize | Queue_Segments nat

definition segq_try_with :: "u32 \<Rightarrow> u32 \<Rightarrow> 'b seg_queue" where
  "segq_try_with bytes segments = \<lparr>sq_owners = fifo_try_new segments, sq_len = 0, sq_capacity = bytes\<rparr>"

definition segq_len :: "'b seg_queue \<Rightarrow> usize" where
  "segq_len q = ucast (sq_len q)"

definition segq_is_empty :: "'b seg_queue \<Rightarrow> bool" where
  "segq_is_empty q \<longleftrightarrow> segq_len q = 0"

definition segq_spare_len :: "'b seg_queue \<Rightarrow> usize" where
  "segq_spare_len q = ucast (sq_capacity q - sq_len q)"

definition segq_segments :: "'b seg_queue \<Rightarrow> nat" where
  "segq_segments q = ring_len (rf_state (sq_owners q))"

text \<open>The rejected owner comes back with the error.\<close>

definition segq_try_push :: "'b list \<Rightarrow> 'b seg_queue \<Rightarrow> (('b list \<times> queue_error) + unit) \<times> 'b seg_queue" where
  "segq_try_push owner q =
    (case item_new owner of Inl e \<Rightarrow> (Inr (), q)
     | Inr owner \<Rightarrow>
        if segq_spare_len q < seg_len owner then (Inl (owner, Queue_Bytes (seg_len owner) (segq_spare_len q)), q)
        else case fifo_try_vacant (sq_owners q) of
            Inl full \<Rightarrow> (Inl (owner, Queue_Segments (fifo_capacity (sq_owners q))), q)
          | Inr u \<Rightarrow>
             (let len = sq_len q + ucast (seg_len owner)
              in (Inr (), q\<lparr>sq_owners := ring_edit_push False owner (sq_owners q), sq_len := len\<rparr>)))"

definition front_put :: "'a \<Rightarrow> 'a fifo32 \<Rightarrow> 'a fifo32" where
  "front_put v q = q\<lparr>rf_block := (rf_block q)[ring_head (rf_state q) := Some v]\<rparr>"

partial_function (option) drain_loop :: "usize \<Rightarrow> 'b list fifo32 \<Rightarrow> 'b list fifo32 option" where
  "drain_loop left owners =
    (if left = 0 then Some owners
     else let front = the (fifo_front owners)
       in case tail_new front left of
            Some amount \<Rightarrow> Some (front_put (tail_commit front amount) owners)
          | None \<Rightarrow> drain_loop (left - seg_len front) (snd (front_remove owners)))"

definition drain_try_new :: "'b seg_queue \<Rightarrow> usize \<Rightarrow> consume_error + usize" where
  "drain_try_new q amount =
    (case consume_check amount (segq_len q) of Inl e \<Rightarrow> Inl e | Inr u \<Rightarrow> Inr amount)"

definition drain_commit :: "usize \<Rightarrow> 'b seg_queue \<Rightarrow> 'b seg_queue option" where
  "drain_commit amount q =
    Option.bind (drain_loop amount (sq_owners q))
      (\<lambda>owners. Some (q\<lparr>sq_owners := owners, sq_len := sq_len q - ucast amount\<rparr>))"

definition segq_try_consume :: "usize \<Rightarrow> 'b seg_queue \<Rightarrow> ((consume_error + unit) \<times> 'b seg_queue) option" where
  "segq_try_consume amount q =
    (case drain_try_new q amount of Inl e \<Rightarrow> Some (Inl e, q)
     | Inr amount \<Rightarrow> Option.bind (drain_commit amount q) (\<lambda>q. Some (Inr (), q)))"

definition segq_consume_max :: "usize \<Rightarrow> 'b seg_queue \<Rightarrow> (usize \<times> 'b seg_queue) option" where
  "segq_consume_max limit q =
    (let amount = min limit (ucast (sq_len q))
     in Option.bind (drain_commit amount q) (\<lambda>q. Some (amount, q)))"

section \<open>Slices, cursors and fragments\<close>

record seg_slice =
  ss_start :: u32
  ss_end :: u32

definition is_within :: "usize \<Rightarrow> usize \<Rightarrow> usize \<Rightarrow> bool" where
  "is_within start stop len \<longleftrightarrow> start \<le> stop \<and> stop \<le> len"

definition segq_get :: "usize \<Rightarrow> usize \<Rightarrow> 'b seg_queue \<Rightarrow> seg_slice option" where
  "segq_get start stop q =
    (if \<not> is_within start stop (segq_len q) then None else Some \<lparr>ss_start = ucast start, ss_end = ucast stop\<rparr>)"

definition slice_all :: "'b seg_queue \<Rightarrow> seg_slice" where
  "slice_all q = \<lparr>ss_start = 0, ss_end = sq_len q\<rparr>"

definition segq_prefix :: "usize \<Rightarrow> 'b seg_queue \<Rightarrow> seg_slice" where
  "segq_prefix limit q = (slice_all q)\<lparr>ss_end := ucast (min (segq_len q) limit)\<rparr>"

definition slice_len :: "seg_slice \<Rightarrow> usize" where
  "slice_len s = ucast (ss_end s - ss_start s)"

definition slice_is_empty :: "seg_slice \<Rightarrow> bool" where
  "slice_is_empty s \<longleftrightarrow> ss_start s = ss_end s"

definition slice_get :: "usize \<Rightarrow> usize \<Rightarrow> seg_slice \<Rightarrow> seg_slice option" where
  "slice_get start stop s =
    (if \<not> is_within start stop (slice_len s) then None
     else Some \<lparr>ss_start = ss_start s + ucast start, ss_end = ss_start s + ucast stop\<rparr>)"

record seg_cursor =
  sc_segment :: u32
  sc_start :: u32

definition cursor_new :: seg_cursor where
  "cursor_new = \<lparr>sc_segment = 0, sc_start = 0\<rparr>"

partial_function (option) cursor_locate ::
  "'b list option list \<Rightarrow> 'b list option list \<Rightarrow> u32 \<Rightarrow> u32 \<Rightarrow> u32 \<Rightarrow> (seg_cursor \<times> 'b list) option" where
  "cursor_locate first second segment start off =
    (let index = unat segment;
         bytes = the (if index < length first then first ! index else second ! (index - length first));
         stop = start + ucast (seg_len bytes)
     in if off < stop then Some (\<lparr>sc_segment = segment, sc_start = start\<rparr>, bytes)
        else cursor_locate first second (segment + 1) stop off)"

definition segq_locate :: "'b seg_queue \<Rightarrow> seg_cursor \<Rightarrow> u32 \<Rightarrow> (seg_cursor \<times> 'b list) option" where
  "segq_locate q c off =
    (case fifo_as_slices (sq_owners q) of
       (first, second) \<Rightarrow> cursor_locate first second (sc_segment c) (sc_start c) off)"

record queue_bounds =
  qb_offset :: usize
  qb_amount :: usize
  qb_floor :: usize
  qb_ceiling :: usize

text \<open>A position is the validated range; it keeps the cursor it was taken from.\<close>

definition position_try_new :: "'b seg_queue \<Rightarrow> seg_cursor \<Rightarrow> usize \<Rightarrow> usize \<Rightarrow> queue_bounds + (u32 \<times> u32)" where
  "position_try_new q c off len =
    (let floor = ucast (sc_start c); ceiling = segq_len q
     in if off < floor \<or> ceiling < off \<or> ceiling - off < len
        then Inl \<lparr>qb_offset = off, qb_amount = len, qb_floor = floor, qb_ceiling = ceiling\<rparr>
        else Inr (ucast off, ucast (off + len)))"

definition position_locate :: "'b seg_queue \<Rightarrow> seg_cursor \<Rightarrow> u32 \<Rightarrow> seg_cursor option" where
  "position_locate q c start =
    (if ucast start = segq_len q then Some \<lparr>sc_segment = word_of_nat (segq_segments q), sc_start = start\<rparr>
     else Option.bind (segq_locate q c start) (\<lambda>r. Some (fst r)))"

definition cursor_seek :: "'b seg_queue \<Rightarrow> usize \<Rightarrow> seg_cursor \<Rightarrow> ((queue_bounds + unit) \<times> seg_cursor) option" where
  "cursor_seek q off c =
    (case position_try_new q c off 0 of Inl e \<Rightarrow> Some (Inl e, c)
     | Inr (start, stop) \<Rightarrow> Option.bind (position_locate q c start) (\<lambda>c'. Some (Inr (), c')))"

record seg_iter =
  si_location :: seg_cursor
  si_start :: u32
  si_end :: u32

definition iter_new :: "seg_slice \<Rightarrow> seg_iter" where
  "iter_new s = \<lparr>si_location = cursor_new, si_start = ss_start s, si_end = ss_end s\<rparr>"

definition iter_at :: "seg_cursor \<Rightarrow> u32 \<times> u32 \<Rightarrow> seg_iter" where
  "iter_at c p = \<lparr>si_location = c, si_start = fst p, si_end = snd p\<rparr>"

definition iter_remaining :: "seg_iter \<Rightarrow> usize" where
  "iter_remaining it = ucast (si_end it - si_start it)"

definition step_peek :: "'b seg_queue \<Rightarrow> usize \<Rightarrow> seg_iter \<Rightarrow> (seg_iter \<times> 'b list) option" where
  "step_peek q cap it =
    Option.bind (segq_locate q (si_location it) (si_start it)) (\<lambda>(location, bytes).
      let start = ucast (si_start it - sc_start location) :: usize;
          len = min (seg_len bytes - start) cap
      in Some (it\<lparr>si_location := location\<rparr>, take (unat len) (drop (unat start) bytes)))"

definition step_advance :: "'b seg_queue \<Rightarrow> usize \<Rightarrow> seg_iter \<Rightarrow> (seg_iter \<times> 'b list) option" where
  "step_advance q cap it =
    Option.bind (step_peek q cap it) (\<lambda>(it, chunk).
      Some (it\<lparr>si_start := si_start it + ucast (seg_len chunk)\<rparr>, chunk))"

definition iter_next :: "'b seg_queue \<Rightarrow> seg_iter \<Rightarrow> (seg_iter \<times> 'b list option) option" where
  "iter_next q it =
    (if iter_remaining it = 0 then Some (it, None)
     else Option.bind (step_advance q (iter_remaining it) it) (\<lambda>(it, chunk). Some (it, Some chunk)))"

text \<open>A consumer that takes every fragment.\<close>

partial_function (option) iter_fragments :: "'b seg_queue \<Rightarrow> seg_iter \<Rightarrow> 'b list list option" where
  "iter_fragments q it =
    Option.bind (iter_next q it) (\<lambda>(it, chunk).
      case chunk of None \<Rightarrow> Some []
      | Some c \<Rightarrow> Option.bind (iter_fragments q it) (\<lambda>cs. Some (c # cs)))"

definition slice_contiguous :: "'b seg_queue \<Rightarrow> seg_slice \<Rightarrow> 'b list option option" where
  "slice_contiguous q s =
    (if slice_is_empty s then Some (Some [])
     else Option.bind (iter_next q (iter_new s)) (\<lambda>(it, chunk).
       case chunk of None \<Rightarrow> Some None
       | Some bytes \<Rightarrow> Some (if seg_len bytes = slice_len s then Some bytes else None)))"

text \<open>An array of exactly \<open>N\<close> bytes from an offset at or after a cursor.\<close>

definition array_try_new :: "'b seg_queue \<Rightarrow> seg_cursor \<Rightarrow> usize \<Rightarrow> usize \<Rightarrow> queue_bounds + seg_iter" where
  "array_try_new q c off N =
    (case position_try_new q c off N of Inl e \<Rightarrow> Inl e | Inr p \<Rightarrow> Inr (iter_at c p))"

definition array_contiguous :: "'b seg_queue \<Rightarrow> usize \<Rightarrow> seg_iter \<Rightarrow> 'b list option option" where
  "array_contiguous q N it =
    (if N = 0 then Some (Some [])
     else Option.bind (step_peek q N it) (\<lambda>(it, bytes).
       Some (if seg_len bytes = N then Some bytes else None)))"

fun copy_slices :: "'b list list \<Rightarrow> nat \<Rightarrow> 'b list \<Rightarrow> 'b list" where
  "copy_slices [] off target = target"
| "copy_slices (s # ss) off target =
    copy_slices ss (off + length s) (take off target @ s @ drop (off + length s) target)"

definition array_copy :: "'b seg_queue \<Rightarrow> seg_iter \<Rightarrow> 'b list \<Rightarrow> 'b list option" where
  "array_copy q it target =
    Option.bind (iter_fragments q it) (\<lambda>sources. Some (copy_slices sources 0 target))"

text \<open>One view for each owner that the slice meets; \<open>first\<close> owners, ending at \<open>logical\<close>, are skipped.\<close>

fun scan_views :: "usize \<Rightarrow> usize \<Rightarrow> usize \<Rightarrow> 'b list list \<Rightarrow> 'b list list" where
  "scan_views start stop logical [] = []"
| "scan_views start stop logical (owner # owners) =
    (if stop \<le> logical then []
     else let view = item_clamp owner (saturating_sub start logical) (stop - logical);
              rest = scan_views start stop (logical + seg_len owner) owners
          in (case view of None \<Rightarrow> rest | Some v \<Rightarrow> v # rest))"

definition slice_views :: "'b seg_queue \<Rightarrow> seg_slice \<Rightarrow> u32 \<Rightarrow> u32 \<Rightarrow> 'b list list" where
  "slice_views q s first logical =
    (let logical = (if slice_is_empty s then ucast (ss_end s) else ucast logical) :: usize;
         owners = drop (unat first) (map the (fifo_iter (sq_owners q)))
     in scan_views (ucast (ss_start s)) (ucast (ss_end s)) logical owners)"

section \<open>Bounded takes of a scattered source\<close>

text \<open>
  A source is its remaining length and an exact advance by at most a cap; \<open>Take\<close> holds the bytes
  it may still take. Advancing can fail to return, as a located read can.
\<close>

definition take_new :: "('c \<Rightarrow> usize) \<Rightarrow> 'c \<Rightarrow> usize \<Rightarrow> 'c \<times> usize" where
  "take_new remaining cursor limit = (cursor, min limit (remaining cursor))"

definition take_next :: "(usize \<Rightarrow> 'c \<Rightarrow> ('c \<times> 'b list) option) \<Rightarrow> usize \<Rightarrow> 'c \<times> usize \<Rightarrow> (('c \<times> usize) \<times> 'b list option) option" where
  "take_next advance most t =
    (let cap = min (snd t) most
     in if cap = 0 then Some (t, None)
        else Option.bind (advance cap (fst t)) (\<lambda>(cursor, chunk).
          Some ((cursor, snd t - seg_len chunk), Some chunk)))"

partial_function (option) take_finish :: "(usize \<Rightarrow> 'c \<Rightarrow> ('c \<times> 'b list) option) \<Rightarrow> 'c \<times> usize \<Rightarrow> 'c option" where
  "take_finish advance t =
    (if snd t = 0 then Some (fst t)
     else Option.bind (take_next advance (- 1) t) (\<lambda>(t, chunk). take_finish advance t))"

definition scatter_seek ::
  "('c \<Rightarrow> usize) \<Rightarrow> (usize \<Rightarrow> 'c \<Rightarrow> ('c \<times> 'b list) option) \<Rightarrow> usize \<Rightarrow> 'c \<Rightarrow> 'c option option" where
  "scatter_seek remaining advance off cursor =
    (if remaining cursor < off then Some None
     else Option.bind (take_finish advance (take_new remaining cursor off)) (\<lambda>c. Some (Some c)))"

text \<open>The plain slice as a source.\<close>

definition bytes_advance :: "usize \<Rightarrow> 'b list \<Rightarrow> ('b list \<times> 'b list) option" where
  "bytes_advance cap bytes = Some (drop (unat cap) bytes, take (unat cap) bytes)"

section \<open>A reader over parts\<close>

record 'b part_reader =
  rd_parts :: "'b list list"
  rd_current :: "'b list"

definition reader_new :: "'b list list \<Rightarrow> 'b part_reader" where
  "reader_new parts = \<lparr>rd_parts = parts, rd_current = []\<rparr>"

fun fill_from :: "'b list list \<Rightarrow> 'b list \<Rightarrow> 'b part_reader" where
  "fill_from [] current = \<lparr>rd_parts = [], rd_current = current\<rparr>"
| "fill_from (p # ps) current = (if current = [] then fill_from ps p else \<lparr>rd_parts = p # ps, rd_current = current\<rparr>)"

definition reader_fill :: "'b part_reader \<Rightarrow> 'b part_reader" where
  "reader_fill r = fill_from (rd_parts r) (rd_current r)"

definition reader_read :: "nat \<Rightarrow> 'b part_reader \<Rightarrow> 'b list \<times> 'b part_reader" where
  "reader_read room r =
    (let r = reader_fill r; len = min room (length (rd_current r))
     in (take len (rd_current r), r\<lparr>rd_current := drop len (rd_current r)\<rparr>))"

definition reader_fill_buf :: "'b part_reader \<Rightarrow> 'b list \<times> 'b part_reader" where
  "reader_fill_buf r = (let r = reader_fill r in (rd_current r, r))"

definition reader_consume :: "nat \<Rightarrow> 'b part_reader \<Rightarrow> 'b part_reader" where
  "reader_consume amount r = r\<lparr>rd_current := drop (min amount (length (rd_current r))) (rd_current r)\<rparr>"

end
