(* ===== verification/O3_Segments_Proofs.thy ===== *)
theory O3_Segments_Proofs
  imports O3_Segments
begin

text \<open>
  A segmented queue is a list of nonempty owners whose bytes in order are the queue's contents. Each
  operation is the obvious one on that list; every loop returns; every read yields exactly the bytes
  of its range, in nonempty fragments.
\<close>

section \<open>Lengths\<close>

lemma seg_len_unat: "length b < 2 ^ 64 \<Longrightarrow> unat (seg_len b) = length b"
  by (simp add: seg_len_def unsigned_of_nat take_bit_nat_eq_self)

lemma seg_len_simps [simp]: "seg_len [] = 0"
  by (simp add: seg_len_def)

lemma unat_widen [simp]: "unat (ucast (w :: u32) :: usize) = unat w"
  using unat_bound [of w] by (simp add: unsigned_ucast_eq take_bit_nat_eq_self)

lemma unat_narrow: "unat (w :: usize) < 2 ^ 32 \<Longrightarrow> unat (ucast w :: u32) = unat w"
  by (simp add: unsigned_ucast_eq take_bit_nat_eq_self)

lemma length_le_concat: "b \<in> set xs \<Longrightarrow> length b \<le> length (concat xs)"
  by (induction xs) auto

text \<open>Bytes of the first owners.\<close>

definition offset_of :: "nat \<Rightarrow> 'b list list \<Rightarrow> nat" where
  "offset_of k xs = length (concat (take k xs))"

lemma offset_of_0 [simp]: "offset_of 0 xs = 0"
  by (simp add: offset_of_def)

lemma offset_of_all [simp]: "length xs \<le> k \<Longrightarrow> offset_of k xs = length (concat xs)"
  by (simp add: offset_of_def)

lemma offset_of_Suc: "k < length xs \<Longrightarrow> offset_of (Suc k) xs = offset_of k xs + length (xs ! k)"
  by (simp add: offset_of_def take_Suc_conv_app_nth)

lemma offset_of_le: "offset_of k xs \<le> length (concat xs)"
  by (metis append_take_drop_id concat_append length_append offset_of_def le_add1)

lemma drop_concat:
  assumes "k < length xs" "off \<le> length (xs ! k)"
  shows "drop (offset_of k xs + off) (concat xs) = drop off (xs ! k) @ concat (drop (Suc k) xs)"
proof -
  have "concat xs = concat (take k xs) @ xs ! k @ concat (drop (Suc k) xs)"
    using assms(1) by (metis append_take_drop_id concat.simps(2) concat_append Cons_nth_drop_Suc)
  then show ?thesis
    using assms(2) by (simp add: offset_of_def)
qed

section \<open>What a queue holds\<close>

definition queue_at :: "'b seg_queue \<Rightarrow> 'b list list \<Rightarrow> bool" where
  "queue_at q xs \<longleftrightarrow> ring_at (sq_owners q) xs \<and> [] \<notin> set xs \<and>
    unat (sq_len q) = length (concat xs) \<and> sq_len q \<le> sq_capacity q"

lemma queue_atD:
  assumes "queue_at q xs"
  shows "ring_at (sq_owners q) xs" "b \<in> set xs \<Longrightarrow> b \<noteq> []" "unat (sq_len q) = length (concat xs)"
    "length (concat xs) \<le> unat (sq_capacity q)" "length (concat xs) < 2 ^ 32"
    "unat (segq_len q) = length (concat xs)" "unat (segq_spare_len q) = unat (sq_capacity q) - length (concat xs)"
    "b \<in> set xs \<Longrightarrow> unat (seg_len b) = length b"
proof -
  show "ring_at (sq_owners q) xs" "b \<in> set xs \<Longrightarrow> b \<noteq> []" and len: "unat (sq_len q) = length (concat xs)"
    using assms by (auto simp: queue_at_def)
  then show le: "length (concat xs) < 2 ^ 32"
    using unat_bound [of "sq_len q"] by simp
  show "length (concat xs) \<le> unat (sq_capacity q)"
    using assms len by (simp add: queue_at_def word_le_nat_alt)
  show "unat (segq_len q) = length (concat xs)"
    using len by (simp add: segq_len_def)
  show "unat (segq_spare_len q) = unat (sq_capacity q) - length (concat xs)"
    using assms len by (simp add: segq_spare_len_def queue_at_def unat_sub word_le_nat_alt)
  show "b \<in> set xs \<Longrightarrow> unat (seg_len b) = length b"
    using length_le_concat [of b xs] le by (intro seg_len_unat) simp
qed

lemma queue_at_new: "0 < segments \<Longrightarrow> queue_at (segq_try_with bytes segments) []"
  by (simp add: queue_at_def segq_try_with_def ring_at_new)

lemma segq_try_push_at:
  assumes at: "queue_at q xs" and fits: "length b < 2 ^ 64"
  defines "n \<equiv> length (rf_block (sq_owners q))"
  shows "segq_try_push b q =
    (if b = [] then (Inr (), q)
     else if unat (sq_capacity q) - length (concat xs) < length b
       then (Inl (b, Queue_Bytes (seg_len b) (segq_spare_len q)), q)
     else if length xs = n then (Inl (b, Queue_Segments n), q)
     else (Inr (), snd (segq_try_push b q)))"
    "fst (segq_try_push b q) = Inr () \<Longrightarrow> b \<noteq> [] \<Longrightarrow> queue_at (snd (segq_try_push b q)) (xs @ [b])"
    "length (rf_block (sq_owners (snd (segq_try_push b q)))) = n" "sq_capacity (snd (segq_try_push b q)) = sq_capacity q"
proof -
  note d = queue_atD [OF at]
  have lt: "segq_spare_len q < seg_len b \<longleftrightarrow> unat (sq_capacity q) - length (concat xs) < length b"
    using d(7) seg_len_unat [OF fits] by (simp add: word_less_nat_alt)
  have vac: "fifo_try_vacant (sq_owners q) = (if length xs = n then Inl (Full n) else Inr ())"
    using ring_at_length [OF d(1)] by (simp add: fifo_try_vacant_def fifo_capacity_def n_def)
  show "segq_try_push b q =
    (if b = [] then (Inr (), q)
     else if unat (sq_capacity q) - length (concat xs) < length b
       then (Inl (b, Queue_Bytes (seg_len b) (segq_spare_len q)), q)
     else if length xs = n then (Inl (b, Queue_Segments n), q)
     else (Inr (), snd (segq_try_push b q)))"
    by (simp add: segq_try_push_def item_new_def lt vac fifo_capacity_def n_def Let_def)
  have room: "length xs < n" if "length xs \<noteq> n"
    using that ring_at_length [OF d(1)] ring_at_ok [OF d(1)] by (simp add: ring_ok_def n_def)
  show "length (rf_block (sq_owners (snd (segq_try_push b q)))) = n" "sq_capacity (snd (segq_try_push b q)) = sq_capacity q"
    using ring_edit_push_back(2) [OF d(1) room [unfolded n_def]]
    by (auto simp: segq_try_push_def item_new_def lt vac n_def Let_def)
  show "queue_at (snd (segq_try_push b q)) (xs @ [b])" if ok: "fst (segq_try_push b q) = Inr ()" and ne: "b \<noteq> []"
  proof -
    have fit: "length (concat xs) + length b \<le> unat (sq_capacity q)" and "length xs \<noteq> n"
      using ok ne d(4) lt vac by (auto simp: segq_try_push_def item_new_def split: if_splits)
    then have small: "length b < 2 ^ 32" "length (concat xs) + length b < 2 ^ 32"
      using unat_bound [of "sq_capacity q"] by simp_all
    have "unat (sq_len q + ucast (seg_len b)) = length (concat xs) + length b"
      using small d(3) seg_len_unat [OF fits] unat_narrow [of "seg_len b"] by (simp add: unat_word_ariths)
    then show ?thesis
      using ok ne \<open>length xs \<noteq> n\<close> fit d(2) ring_edit_push_back(1) [OF d(1) room [unfolded n_def]] lt vac
      by (auto simp: segq_try_push_def item_new_def queue_at_def n_def Let_def word_le_nat_alt split: if_splits)
  qed
qed

section \<open>Draining\<close>

fun drop_bytes :: "nat \<Rightarrow> 'b list list \<Rightarrow> 'b list list" where
  "drop_bytes n [] = []"
| "drop_bytes n (x # xs) = (if n = 0 then x # xs else if n < length x then drop n x # xs else drop_bytes (n - length x) xs)"

lemma concat_drop_bytes: "concat (drop_bytes n xs) = drop n (concat xs)"
  by (induction n xs rule: drop_bytes.induct) auto

lemma drop_bytes_nonempty: "[] \<notin> set xs \<Longrightarrow> [] \<notin> set (drop_bytes n xs)"
  by (induction n xs rule: drop_bytes.induct) auto

lemma drop_bytes_0 [simp]: "drop_bytes 0 xs = xs"
  by (cases xs) simp_all

lemma front_put_at:
  assumes at: "ring_at q (x # xs)"
  shows "ring_at (front_put v q) (v # xs)" "length (rf_block (front_put v q)) = length (rf_block q)"
proof -
  let ?c = "length (rf_block q)" and ?st = "rf_state q"
  note ok = ring_at_ok [OF at]
  have len: "ring_len ?st = Suc (length xs)" "ring_head ?st < ?c"
    using ring_at_length [OF at] ok by (simp_all add: ring_ok_def)
  define rest where "rest = map (\<lambda>k. (ring_head ?st + Suc k) mod ?c) [0..<length xs]"
  have slots: "ring_slots ?c ?st = ring_head ?st # rest"
    using len by (intro nth_equalityI) (auto simp: ring_slots_def rest_def nth_Cons' nth_append simp del: upt_Suc)
  have d: "ring_head ?st \<notin> set rest"
    using distinct_ring_slots [OF ok] slots by simp
  show "ring_at (front_put v q) (v # xs)"
    using at d len(2) ok by (auto simp: ring_at_def Let_def front_put_def slots map_nth_update_other nth_list_update)
  show "length (rf_block (front_put v q)) = ?c"
    by (simp add: front_put_def)
qed

lemma drain_loop_at:
  assumes "ring_at q xs" "[] \<notin> set xs" "unat left \<le> length (concat xs)" "length (concat xs) < 2 ^ 32"
  shows "\<exists>q'. drain_loop left q = Some q' \<and> ring_at q' (drop_bytes (unat left) xs) \<and> length (rf_block q') = length (rf_block q)"
  using assms
proof (induction xs arbitrary: left q)
  case Nil
  then have "left = 0"
    by (simp add: unat_eq_zero)
  then show ?case
    using Nil by (simp add: drain_loop.simps)
next
  case (Cons x xs)
  show ?case
  proof (cases "left = 0")
    case True
    then show ?thesis
      using Cons.prems by (simp add: drain_loop.simps)
  next
    case False
    have front: "fifo_front q = Some x"
      using fifo_front_at [OF Cons.prems(1)] by simp
    have len: "unat (seg_len x) = length x"
      using Cons.prems(4) by (intro seg_len_unat) simp
    have pos: "0 < unat left"
      using False by (simp add: unat_gt_0)
    show ?thesis
    proof (cases "unat left < length x")
      case True
      then have "tail_new x left = Some left"
        using len by (simp add: tail_new_def word_le_nat_alt)
      then show ?thesis
        using True False pos front front_put_at [OF Cons.prems(1)] by (subst drain_loop.simps) (simp add: tail_commit_def)
    next
      case again: False
      then have tail: "tail_new x left = None" "unat (left - seg_len x) = unat left - length x"
        using len by (simp_all add: tail_new_def word_le_nat_alt unat_sub)
      note rm = front_remove_at [OF Cons.prems(1)]
      have "\<exists>q'. drain_loop (left - seg_len x) (snd (front_remove q)) = Some q' \<and>
          ring_at q' (drop_bytes (unat (left - seg_len x)) xs) \<and> length (rf_block q') = length (rf_block (snd (front_remove q)))"
        using Cons.prems again tail(2) by (intro Cons.IH [OF rm(2)]) auto
      then show ?thesis
        using again False pos front tail rm(3) by (subst drain_loop.simps) auto
    qed
  qed
qed

lemma drain_commit_at:
  assumes at: "queue_at q xs" and le: "unat amount \<le> length (concat xs)"
  shows "\<exists>q'. drain_commit amount q = Some q' \<and> queue_at q' (drop_bytes (unat amount) xs) \<and>
    length (rf_block (sq_owners q')) = length (rf_block (sq_owners q)) \<and> sq_capacity q' = sq_capacity q"
proof -
  note d = queue_atD [OF at]
  have ne: "[] \<notin> set xs"
    using at by (simp add: queue_at_def)
  obtain o' where "drain_loop amount (sq_owners q) = Some o'" "ring_at o' (drop_bytes (unat amount) xs)"
    "length (rf_block o') = length (rf_block (sq_owners q))"
    using drain_loop_at [OF d(1) ne le d(5)] by blast
  moreover have "unat (ucast amount :: u32) = unat amount"
    using le d(5) by (intro unat_narrow) simp
  then have "unat (sq_len q - ucast amount) = unat (sq_len q) - unat amount"
    using le d(3) by (simp add: unat_sub word_le_nat_alt)
  ultimately show ?thesis
    using d(3,4) le drop_bytes_nonempty [OF ne]
    by (auto simp: drain_commit_def queue_at_def concat_drop_bytes word_le_nat_alt)
qed

lemma consume_check_cases: "consume_check required room = (if required \<le> room then Inr () else Inl \<lparr>ce_required = required, ce_available = room\<rparr>)"
proof (cases "required \<le> room")
  case False
  then have "0 < unat required"
    by (simp add: word_le_nat_alt)
  then have "unat (1 :: usize) + unat (required - 1) < 2 ^ 64"
    using unat_bound [of required] by (simp add: unat_pred unat_gt_0 unat_eq_zero)
  then show ?thesis
    using False by (simp add: consume_check_def consume_new_def saturating_add_def)
qed (simp add: consume_check_def)

section \<open>Locating bytes\<close>

definition cursor_at :: "'b list list \<Rightarrow> seg_cursor \<Rightarrow> bool" where
  "cursor_at xs c \<longleftrightarrow> unat (sc_segment c) \<le> length xs \<and> unat (sc_start c) = offset_of (unat (sc_segment c)) xs"

lemma cursor_at_new: "cursor_at xs cursor_new"
  by (simp add: cursor_at_def cursor_new_def)

lemma cursor_locate_at:
  assumes xs: "map Some xs = first @ second" "length xs < 2 ^ 32" "length (concat xs) < 2 ^ 32"
    and "unat segment < length xs" "unat start = offset_of (unat segment) xs" "offset_of (unat segment) xs \<le> unat off"
    and "unat off < length (concat xs)"
  shows "\<exists>c. cursor_locate first second segment start off = Some (c, xs ! unat (sc_segment c)) \<and> cursor_at xs c \<and>
    unat (sc_segment c) < length xs \<and> offset_of (unat (sc_segment c)) xs \<le> unat off \<and>
    unat off < offset_of (Suc (unat (sc_segment c))) xs"
  using assms(4-6)
proof (induction "length xs - unat segment" arbitrary: segment start)
  case (Suc d)
  let ?k = "unat segment" and ?b = "xs ! unat segment"
  have "(if ?k < length first then first ! ?k else second ! (?k - length first)) = map Some xs ! ?k"
    by (simp add: xs(1) nth_append)
  then have bytes: "the (if ?k < length first then first ! ?k else second ! (?k - length first)) = ?b"
    using Suc.prems(1) by simp
  have small: "length ?b < 2 ^ 32" "offset_of (Suc ?k) xs \<le> length (concat xs)"
    using Suc.prems(1) xs(3) length_le_concat [of ?b xs] offset_of_le [of "Suc ?k" xs] by auto
  then have len: "unat (ucast (seg_len ?b) :: u32) = length ?b"
    using seg_len_unat [of ?b] by (subst unat_narrow) simp_all
  have stop: "unat (start + ucast (seg_len ?b)) = offset_of (Suc ?k) xs"
    using len small xs(3) Suc.prems(1,2) by (simp add: unat_word_ariths offset_of_Suc)
  show ?case
  proof (cases "off < start + ucast (seg_len ?b)")
    case True
    then show ?thesis
      using Suc.prems bytes stop
      by (intro exI [of _ "\<lparr>sc_segment = segment, sc_start = start\<rparr>"]) (subst cursor_locate.simps, simp add: Let_def cursor_at_def word_less_nat_alt)
  next
    case False
    then have le: "offset_of (Suc ?k) xs \<le> unat off"
      using stop by (simp add: word_less_nat_alt)
    then have more: "Suc ?k < length xs"
      using assms(7) offset_of_all [of xs "Suc ?k"] by (cases "Suc ?k < length xs") simp_all
    have next_k: "unat (segment + 1) = Suc ?k"
      using more xs(2) by (simp add: unat_word_ariths)
    have "\<exists>c. cursor_locate first second (segment + 1) (start + ucast (seg_len ?b)) off = Some (c, xs ! unat (sc_segment c)) \<and> cursor_at xs c \<and>
        unat (sc_segment c) < length xs \<and> offset_of (unat (sc_segment c)) xs \<le> unat off \<and> unat off < offset_of (Suc (unat (sc_segment c))) xs"
      using Suc.hyps(2) more le stop by (intro Suc.hyps(1)) (simp_all add: next_k)
    then show ?thesis
      using False bytes by (subst cursor_locate.simps) (simp add: Let_def)
  qed
qed simp

lemma segq_locate_at:
  assumes at: "queue_at q xs" and c: "cursor_at xs c" and off: "sc_start c \<le> off" "unat off < length (concat xs)"
  shows "\<exists>c'. segq_locate q c off = Some (c', xs ! unat (sc_segment c')) \<and> cursor_at xs c' \<and>
    unat (sc_segment c') < length xs \<and> offset_of (unat (sc_segment c')) xs \<le> unat off \<and>
    unat off < offset_of (Suc (unat (sc_segment c'))) xs"
proof -
  note d = queue_atD [OF at]
  obtain first second where sl: "fifo_as_slices (sq_owners q) = (first, second)"
    by (cases "fifo_as_slices (sq_owners q)")
  have it: "map Some xs = first @ second"
    using fifo_iter_at [OF d(1)] by (simp add: fifo_iter_def sl)
  have "length xs < 2 ^ 32"
    using ring_at_length [OF d(1)] ring_at_ok [OF d(1)] by (simp add: ring_ok_def)
  moreover have "unat (sc_segment c) < length xs"
  proof (rule ccontr)
    assume "\<not> unat (sc_segment c) < length xs"
    then have "unat (sc_start c) = length (concat xs)"
      using c by (simp add: cursor_at_def)
    then show False
      using off by (simp add: word_le_nat_alt)
  qed
  ultimately show ?thesis
    using cursor_locate_at [OF it _ d(5), of "sc_segment c" "sc_start c" off] c off
    by (simp add: segq_locate_def sl cursor_at_def word_le_nat_alt)
qed

section \<open>Iterating\<close>

definition iter_ok :: "'b list list \<Rightarrow> seg_iter \<Rightarrow> bool" where
  "iter_ok xs it \<longleftrightarrow> cursor_at xs (si_location it) \<and> sc_start (si_location it) \<le> si_start it \<and>
    si_start it \<le> si_end it \<and> unat (si_end it) \<le> length (concat xs)"

definition iter_bytes :: "'b list list \<Rightarrow> seg_iter \<Rightarrow> 'b list" where
  "iter_bytes xs it = take (unat (si_end it) - unat (si_start it)) (drop (unat (si_start it)) (concat xs))"

lemma length_iter_bytes:
  assumes "iter_ok xs it"
  shows "unat (iter_remaining it) = length (iter_bytes xs it)"
  using assms by (auto simp: iter_ok_def iter_bytes_def iter_remaining_def unat_sub word_le_nat_alt)

lemma step_peek_at:
  assumes at: "queue_at q xs" and it: "iter_ok xs it" and cap: "0 < cap" "cap \<le> iter_remaining it"
  shows "\<exists>it' chunk. step_peek q cap it = Some (it', chunk) \<and> iter_ok xs it' \<and> si_start it' = si_start it \<and> si_end it' = si_end it \<and>
    chunk \<noteq> [] \<and> length chunk \<le> unat cap \<and> chunk = take (length chunk) (iter_bytes xs it)"
proof -
  note d = queue_atD [OF at]
  have "unat cap \<le> length (iter_bytes xs it)" "0 < unat cap"
    using cap length_iter_bytes [OF it] by (simp_all add: word_less_nat_alt word_le_nat_alt)
  then have rem: "0 < length (iter_bytes xs it)" "unat cap \<le> length (iter_bytes xs it)" "0 < unat cap"
    by linarith+
  then have lt: "unat (si_start it) < unat (si_end it)" "unat (si_start it) < length (concat xs)"
    by (auto simp: iter_bytes_def)
  obtain c where c: "segq_locate q (si_location it) (si_start it) = Some (c, xs ! unat (sc_segment c))" "cursor_at xs c"
    "unat (sc_segment c) < length xs" "offset_of (unat (sc_segment c)) xs \<le> unat (si_start it)"
    "unat (si_start it) < offset_of (Suc (unat (sc_segment c))) xs"
    using segq_locate_at [OF at, of "si_location it" "si_start it"] it lt(2) by (auto simp: iter_ok_def)
  let ?k = "unat (sc_segment c)" and ?off = "unat (si_start it) - offset_of (unat (sc_segment c)) xs"
  have start: "unat (ucast (si_start it - sc_start c) :: usize) = ?off"
    using c(2,4) by (simp add: unat_sub word_le_nat_alt cursor_at_def)
  have off: "?off < length (xs ! ?k)" "unat (seg_len (xs ! ?k)) = length (xs ! ?k)"
    using c(3,4,5) d(8) by (auto simp: offset_of_Suc)
  define n where "n = min (length (xs ! ?k) - ?off) (unat cap)"
  have "unat (seg_len (xs ! ?k) - ucast (si_start it - sc_start c)) = length (xs ! ?k) - ?off"
    using off start by (simp add: unat_sub word_le_nat_alt)
  then have n: "unat (min (seg_len (xs ! ?k) - ucast (si_start it - sc_start c)) cap) = n"
    by (simp add: n_def min_def word_le_nat_alt)
  define chunk where "chunk = take n (drop ?off (xs ! ?k))"
  have peek: "step_peek q cap it = Some (it\<lparr>si_location := c\<rparr>, chunk)"
    unfolding step_peek_def c(1) by (simp only: bind.simps split_conv Let_def n start chunk_def)
  have len: "length chunk = n" "0 < n" "n \<le> unat cap"
    using off rem(3) by (simp_all add: chunk_def n_def)
  have "drop (unat (si_start it)) (concat xs) = drop ?off (xs ! ?k) @ concat (drop (Suc ?k) xs)"
    using drop_concat [OF c(3), of ?off] off(1) c(4) by simp
  then have "take n (drop (unat (si_start it)) (concat xs)) = chunk"
    using off(1) by (simp add: chunk_def n_def)
  moreover have "n \<le> unat (si_end it) - unat (si_start it)"
    using len(3) rem(2) by (simp add: iter_bytes_def)
  ultimately have "chunk = take (length chunk) (iter_bytes xs it)"
    by (simp add: iter_bytes_def len(1) min_def)
  moreover have "iter_ok xs (it\<lparr>si_location := c\<rparr>)"
    using it c(2,4) by (simp add: iter_ok_def cursor_at_def word_le_nat_alt)
  ultimately show ?thesis
    using peek len by fastforce
qed

lemma step_advance_at:
  assumes at: "queue_at q xs" and it: "iter_ok xs it" and cap: "0 < cap" "cap \<le> iter_remaining it"
  shows "\<exists>it' chunk. step_advance q cap it = Some (it', chunk) \<and> iter_ok xs it' \<and> si_end it' = si_end it \<and>
    chunk \<noteq> [] \<and> length chunk \<le> unat cap \<and> iter_bytes xs it = chunk @ iter_bytes xs it'"
proof -
  obtain it1 chunk where p: "step_peek q cap it = Some (it1, chunk)" "iter_ok xs it1" "si_start it1 = si_start it"
    "si_end it1 = si_end it" "chunk \<noteq> []" "length chunk \<le> unat cap" "chunk = take (length chunk) (iter_bytes xs it)"
    using step_peek_at [OF assms] by blast
  let ?it = "it1\<lparr>si_start := si_start it1 + ucast (seg_len chunk)\<rparr>"
  have le: "length chunk \<le> unat (si_end it) - unat (si_start it)" "unat (si_end it) < 2 ^ 32"
    using p(6) cap(2) length_iter_bytes [OF it] unat_bound [of "si_end it"] by (auto simp: word_le_nat_alt iter_bytes_def)
  then have len: "unat (ucast (seg_len chunk) :: u32) = length chunk"
    using seg_len_unat [of chunk] by (subst unat_narrow) simp_all
  have start: "unat (si_start ?it) = unat (si_start it) + length chunk"
  proof -
    have "unat (si_start it) \<le> unat (si_end it)"
      using it by (simp add: iter_ok_def word_le_nat_alt)
    then have "unat (si_start it) + length chunk < 2 ^ 32"
      using le by linarith
    then show ?thesis
      using len p(3) by (simp add: unat_word_ariths)
  qed
  have ok: "iter_ok xs ?it"
    using p(2,3,4) it start le p(5) by (auto simp: iter_ok_def word_le_nat_alt)
  have "iter_bytes xs ?it = drop (length chunk) (iter_bytes xs it)"
    using start by (simp add: iter_bytes_def p(4) drop_take add.commute)
  then have "iter_bytes xs it = chunk @ iter_bytes xs ?it"
    using p(7) by (metis append_take_drop_id)
  then show ?thesis
    using p ok by (simp add: step_advance_def)
qed

lemma iter_fragments_at:
  assumes at: "queue_at q xs"
  shows "iter_ok xs it \<Longrightarrow> \<exists>fs. iter_fragments q it = Some fs \<and> concat fs = iter_bytes xs it \<and> [] \<notin> set fs"
proof (induction "length (iter_bytes xs it)" arbitrary: it rule: less_induct)
  case less
  show ?case
  proof (cases "iter_remaining it = 0")
    case True
    then have "iter_bytes xs it = []"
      using length_iter_bytes [OF less.prems] by simp
    then show ?thesis
      using True by (subst iter_fragments.simps) (simp add: iter_next_def)
  next
    case False
    obtain it' chunk where s: "step_advance q (iter_remaining it) it = Some (it', chunk)" "iter_ok xs it'" "chunk \<noteq> []"
      "iter_bytes xs it = chunk @ iter_bytes xs it'"
      using step_advance_at [OF at less.prems, of "iter_remaining it"] False by (auto simp: word_gt_0)
    then obtain fs where "iter_fragments q it' = Some fs" "concat fs = iter_bytes xs it'" "[] \<notin> set fs"
      using less.hyps [of it'] by auto
    then show ?thesis
      using False s by (subst iter_fragments.simps) (simp add: iter_next_def)
  qed
qed

end
