(* ===== verification/O3_Segments_Spec.thy ===== *)
theory O3_Segments_Spec
  imports O3_Segments_Proofs
begin

text \<open>
  What the segmented queue promises: programs on it are programs on a byte string cut into owners;
  every selected range, cursor and array reads exactly its bytes; a scattered source gives bounded
  takes of its exact bytes; a reader yields its parts in order.
\<close>

section \<open>Scattered sources\<close>

text \<open>
  The contract of \<open>Scatter\<close>: the remaining length is exact, and advancing by an admitted nonempty
  cap returns, yields between one byte and the cap, and leaves the rest.
\<close>

locale scatter =
  fixes good :: "'c \<Rightarrow> bool"
    and remaining :: "'c \<Rightarrow> usize"
    and advance :: "usize \<Rightarrow> 'c \<Rightarrow> ('c \<times> 'b list) option"
    and content :: "'c \<Rightarrow> 'b list"
  assumes remaining_exact: "good c \<Longrightarrow> unat (remaining c) = length (content c)"
    and advance_exact: "good c \<Longrightarrow> 0 < cap \<Longrightarrow> cap \<le> remaining c \<Longrightarrow>
      \<exists>c' chunk. advance cap c = Some (c', chunk) \<and> good c' \<and> chunk \<noteq> [] \<and> length chunk \<le> unat cap \<and>
        content c = chunk @ content c'"
begin

definition take_ok :: "'c \<times> usize \<Rightarrow> bool" where
  "take_ok t \<longleftrightarrow> good (fst t) \<and> snd t \<le> remaining (fst t)"

definition take_bytes :: "'c \<times> usize \<Rightarrow> 'b list" where
  "take_bytes t = take (unat (snd t)) (content (fst t))"

lemma take_new_ok:
  assumes "good c"
  shows "take_ok (take_new remaining c limit)" "take_bytes (take_new remaining c limit) = take (unat limit) (content c)"
  using assms remaining_exact [OF assms]
  by (auto simp: take_ok_def take_bytes_def take_new_def min_def word_le_nat_alt)

lemma take_next_ok:
  assumes "take_ok t" "snd t \<noteq> 0" "most \<noteq> 0"
  shows "\<exists>t' chunk. take_next advance most t = Some (t', Some chunk) \<and> take_ok t' \<and> chunk \<noteq> [] \<and> length chunk \<le> unat most \<and>
    take_bytes t = chunk @ take_bytes t' \<and> content (fst t) = chunk @ content (fst t') \<and> unat (snd t') = unat (snd t) - length chunk"
proof -
  have cap: "0 < min (snd t) most" "min (snd t) most \<le> remaining (fst t)"
    using assms by (auto simp: take_ok_def word_gt_0 min_def)
  obtain c' chunk where a: "advance (min (snd t) most) (fst t) = Some (c', chunk)" "good c'" "chunk \<noteq> []"
    "length chunk \<le> unat (min (snd t) most)" "content (fst t) = chunk @ content c'"
    using advance_exact [OF _ cap] assms(1) by (auto simp: take_ok_def)
  have le: "length chunk \<le> unat (snd t)" "length chunk \<le> unat most"
    using a(4) by (auto simp: min_def word_le_nat_alt split: if_splits)
  have "unat (seg_len chunk) = length chunk"
    using le unat_bound [of "snd t"] by (intro seg_len_unat) simp
  then have left: "unat (snd t - seg_len chunk) = unat (snd t) - length chunk"
    using le by (simp add: unat_sub word_le_nat_alt)
  have "unat (snd t) \<le> length chunk + length (content c')"
    using assms(1) a(5) remaining_exact [of "fst t"] by (simp add: take_ok_def word_le_nat_alt)
  then have "take_ok (c', snd t - seg_len chunk)"
    using a(2) left remaining_exact [OF a(2)] by (simp add: take_ok_def word_le_nat_alt)
  moreover have "take_next advance most t = Some ((c', snd t - seg_len chunk), Some chunk)"
    using a(1) assms(2,3) by (simp add: take_next_def Let_def min_def)
  ultimately show ?thesis
    using a(3,5) le left by (simp add: take_bytes_def)
qed

lemma take_finish_ok:
  "take_ok t \<Longrightarrow> \<exists>c. take_finish advance t = Some c \<and> good c \<and> content c = drop (unat (snd t)) (content (fst t))"
proof (induction "unat (snd t)" arbitrary: t rule: less_induct)
  case less
  show ?case
  proof (cases "snd t = 0")
    case True
    then show ?thesis
      using less.prems by (subst take_finish.simps) (simp add: take_ok_def)
  next
    case False
    obtain t' chunk where t: "take_next advance (- 1) t = Some (t', Some chunk)" "take_ok t'" "chunk \<noteq> []"
      "content (fst t) = chunk @ content (fst t')" "unat (snd t') = unat (snd t) - length chunk" "take_bytes t = chunk @ take_bytes t'"
      using take_next_ok [OF less.prems False, of "- 1"] by auto
    have "0 < unat (snd t)" "length chunk \<le> unat (snd t)"
      using False t(6) by (auto simp: unat_gt_0 take_bytes_def dest: arg_cong [where f = length])
    then have "unat (snd t') < unat (snd t)"
      using t(3,5) by (cases chunk) simp_all
    from less.hyps [OF this t(2)] obtain c where "take_finish advance t' = Some c" "good c"
      "content c = drop (unat (snd t')) (content (fst t'))"
      by blast
    then show ?thesis
      using False t(1,4,5) \<open>length chunk \<le> unat (snd t)\<close> by (subst take_finish.simps) simp
  qed
qed

lemma seek_ok:
  assumes "good c"
  shows "\<exists>r. scatter_seek remaining advance off c = Some r \<and>
    (case r of None \<Rightarrow> length (content c) < unat off
     | Some c' \<Rightarrow> unat off \<le> length (content c) \<and> good c' \<and> content c' = drop (unat off) (content c))"
proof (cases "remaining c < off")
  case True
  then show ?thesis
    using remaining_exact [OF assms] by (simp add: scatter_seek_def word_less_nat_alt)
next
  case False
  then have "snd (take_new remaining c off) = off" "fst (take_new remaining c off) = c"
    by (auto simp: take_new_def min_def)
  then show ?thesis
    using False take_finish_ok [OF take_new_ok(1) [OF assms, of off]] remaining_exact [OF assms]
    by (auto simp: scatter_seek_def word_less_nat_alt not_less)
qed

lemma takes_exact:
  assumes c: "good c"
  shows "(\<exists>r. scatter_seek remaining advance off c = Some r \<and>
      (case r of None \<Rightarrow> length (content c) < unat off
       | Some c' \<Rightarrow> unat off \<le> length (content c) \<and> good c' \<and> content c' = drop (unat off) (content c))) \<and>
    (let t = take_new remaining c limit in
      snd t \<noteq> 0 \<longrightarrow> most \<noteq> 0 \<longrightarrow> (\<exists>t' chunk. take_next advance most t = Some (t', Some chunk) \<and> chunk \<noteq> [] \<and>
        length chunk \<le> unat most \<and> length chunk \<le> unat limit \<and> good (fst t') \<and>
        content c = chunk @ content (fst t') \<and> unat (snd t') = unat (snd t) - length chunk)) \<and>
    (\<exists>c'. take_finish advance (take_new remaining c limit) = Some c' \<and> good c' \<and>
      content c' = drop (unat limit) (content c))"
proof (intro conjI)
  let ?t = "take_new remaining c limit"
  have t: "fst ?t = c" "unat (snd ?t) = min (unat limit) (length (content c))"
    using remaining_exact [OF c] by (simp_all add: take_new_def min_def word_le_nat_alt)
  note tok = take_new_ok(1) [OF c, of limit]
  show "\<exists>r. scatter_seek remaining advance off c = Some r \<and>
      (case r of None \<Rightarrow> length (content c) < unat off
       | Some c' \<Rightarrow> unat off \<le> length (content c) \<and> good c' \<and> content c' = drop (unat off) (content c))"
    by (rule seek_ok [OF c])
  show "let t = ?t in snd t \<noteq> 0 \<longrightarrow> most \<noteq> 0 \<longrightarrow> (\<exists>t' chunk. take_next advance most t = Some (t', Some chunk) \<and> chunk \<noteq> [] \<and>
        length chunk \<le> unat most \<and> length chunk \<le> unat limit \<and> good (fst t') \<and>
        content c = chunk @ content (fst t') \<and> unat (snd t') = unat (snd t) - length chunk)"
    unfolding Let_def
  proof (intro impI)
    assume "snd ?t \<noteq> 0" "most \<noteq> 0"
    from take_next_ok [OF tok this] obtain t' chunk where
      n: "take_next advance most ?t = Some (t', Some chunk)" "take_ok t'" "chunk \<noteq> []"
        "length chunk \<le> unat most" "take_bytes ?t = chunk @ take_bytes t'"
        "content c = chunk @ content (fst t')" "unat (snd t') = unat (snd ?t) - length chunk"
      by (auto simp: t(1))
    have "length chunk \<le> length (take_bytes ?t)" using n(5) by simp
    then have "length chunk \<le> unat limit" by (simp add: take_bytes_def t)
    moreover have "good (fst t')" using n(2) by (simp add: take_ok_def)
    ultimately show "\<exists>t' chunk. take_next advance most ?t = Some (t', Some chunk) \<and> chunk \<noteq> [] \<and>
        length chunk \<le> unat most \<and> length chunk \<le> unat limit \<and> good (fst t') \<and>
        content c = chunk @ content (fst t') \<and> unat (snd t') = unat (snd ?t) - length chunk"
      using n by blast
  qed
  show "\<exists>c'. take_finish advance ?t = Some c' \<and> good c' \<and> content c' = drop (unat limit) (content c)"
    using take_finish_ok [OF tok] by (auto simp: t min_def)
qed

end

interpretation slice_source: scatter "\<lambda>b :: 'b list. length b < 2 ^ 64" seg_len bytes_advance "\<lambda>b. b"
proof
  fix c :: "'b list" and cap
  assume c: "length c < 2 ^ 64"
  then show len: "unat (seg_len c) = length c"
    by (rule seg_len_unat)
  assume "0 < cap" "cap \<le> seg_len c"
  then have "0 < unat cap" "unat cap \<le> length c"
    using len by (simp_all add: word_less_nat_alt word_le_nat_alt)
  then show "\<exists>c' chunk. bytes_advance cap c = Some (c', chunk) \<and> length c' < 2 ^ 64 \<and> chunk \<noteq> [] \<and> length chunk \<le> unat cap \<and> c = chunk @ c'"
    using c by (auto simp: bytes_advance_def)
qed

interpretation queue_source: scatter "\<lambda>it. queue_at q xs \<and> iter_ok xs it" iter_remaining "step_advance q" "iter_bytes xs" for q xs
proof
  fix it cap
  assume ok: "queue_at q xs \<and> iter_ok xs it"
  then show "unat (iter_remaining it) = length (iter_bytes xs it)"
    by (simp add: length_iter_bytes)
  assume "0 < cap" "cap \<le> iter_remaining it"
  then show "\<exists>c' chunk. step_advance q cap it = Some (c', chunk) \<and> (queue_at q xs \<and> iter_ok xs c') \<and> chunk \<noteq> [] \<and>
      length chunk \<le> unat cap \<and> iter_bytes xs it = chunk @ iter_bytes xs c'"
    using step_advance_at [of q xs it cap] ok by auto
qed

section \<open>Selected ranges\<close>

lemma iter_new_ok:
  assumes "ss_start s \<le> ss_end s" "unat (ss_end s) \<le> length (concat xs)"
  shows "iter_ok xs (iter_new s)"
  using assms by (simp add: iter_ok_def iter_new_def cursor_at_def cursor_new_def)

lemma slice_contiguous_at:
  assumes at: "queue_at q xs" and s: "ss_start s \<le> ss_end s" "unat (ss_end s) \<le> length (concat xs)"
    and fs: "iter_fragments q (iter_new s) = Some fs"
  shows "slice_contiguous q s = Some (if length fs \<le> 1 then Some (concat fs) else None)"
proof -
  note ok = iter_new_ok [OF s]
  have rem: "unat (slice_len s) = length (iter_bytes xs (iter_new s))" "iter_remaining (iter_new s) = slice_len s"
    using length_iter_bytes [OF ok] by (simp_all add: iter_remaining_def iter_new_def slice_len_def)
  have empty: "slice_is_empty s \<longleftrightarrow> slice_len s = 0"
    using s by (auto simp: slice_is_empty_def slice_len_def word_unat_eq_iff unat_sub word_le_nat_alt)
  show ?thesis
  proof (cases "slice_len s = 0")
    case True
    then have "fs = []"
      using fs rem by (subst (asm) iter_fragments.simps) (simp add: iter_next_def)
    then show ?thesis
      using True empty by (simp add: slice_contiguous_def)
  next
    case False
    obtain it chunk where st: "step_advance q (slice_len s) (iter_new s) = Some (it, chunk)" "iter_ok xs it" "chunk \<noteq> []"
      "iter_bytes xs (iter_new s) = chunk @ iter_bytes xs it" "length chunk \<le> unat (slice_len s)"
      using step_advance_at [OF at ok, of "slice_len s"] False rem by (auto simp: word_gt_0)
    obtain gs where gs: "iter_fragments q it = Some gs" "concat gs = iter_bytes xs it" "[] \<notin> set gs"
      using iter_fragments_at [OF at st(2)] by blast
    have fs': "fs = chunk # gs"
      using fs False st(1) gs(1) rem(2) by (subst (asm) iter_fragments.simps) (simp add: iter_next_def)
    have "unat (seg_len chunk) = length chunk"
      using st(5) unat_bound [of "slice_len s"] by (intro seg_len_unat) simp
    then have "seg_len chunk = slice_len s \<longleftrightarrow> iter_bytes xs it = []"
      using rem(1) st(4) by (simp add: word_unat_eq_iff)
    also have "\<dots> \<longleftrightarrow> gs = []"
      using gs(2,3) by (cases gs) auto
    finally show ?thesis
      using False empty st(1) rem(2) fs' by (simp add: slice_contiguous_def iter_next_def)
  qed
qed

lemma scan_views_at:
  assumes "unat stop < 2 ^ 32" "unat logical + length (concat owners) < 2 ^ 32" "start \<le> stop"
  shows "concat (scan_views start stop logical owners) =
      drop (unat start - unat logical) (take (unat stop - unat logical) (concat owners)) \<and>
    [] \<notin> set (scan_views start stop logical owners)"
  using assms(2)
proof (induction owners arbitrary: logical)
  case (Cons b bs)
  let ?l = "unat logical" and ?s = "unat start" and ?e = "unat stop"
  have len: "unat (seg_len b) = length b"
    using Cons.prems by (intro seg_len_unat) simp
  have next_l: "unat (logical + seg_len b) = ?l + length b"
    using len Cons.prems by (simp add: unat_word_ariths)
  have le: "?s \<le> ?e"
    using assms(3) by (simp add: word_le_nat_alt)
  define view where "view = drop (?s - ?l) (take (?e - ?l) b)"
  have clamp: "item_clamp b (saturating_sub start logical) (stop - logical) = (if view = [] then None else Some view)" if "?l < ?e"
  proof -
    have e: "unat (min (stop - logical) (seg_len b)) = min (?e - ?l) (length b)"
      using that len by (simp add: min_def word_le_nat_alt unat_sub)
    have s: "unat (saturating_sub start logical) = ?s - ?l"
      by (auto simp: saturating_sub_def word_le_nat_alt unat_sub)
    have "view = drop (?s - ?l) (take (min (?e - ?l) (length b)) b)"
      by (simp add: view_def min_def)
    moreover have "view = [] \<longleftrightarrow> min (?e - ?l) (length b) \<le> ?s - ?l"
      by (auto simp: view_def min_def)
    ultimately show ?thesis
      by (simp add: item_clamp_def Let_def e s word_le_nat_alt)
  qed
  have IH: "concat (scan_views start stop (logical + seg_len b) bs) =
      drop (?s - (?l + length b)) (take (?e - (?l + length b)) (concat bs))"
    "[] \<notin> set (scan_views start stop (logical + seg_len b) bs)"
    using Cons.IH [of "logical + seg_len b"] Cons.prems next_l by simp_all
  have "concat (scan_views start stop logical (b # bs)) = drop (?s - ?l) (take (?e - ?l) (concat (b # bs)))"
    using clamp IH(1) by (cases "length b \<le> ?e - ?l") (auto simp: word_le_nat_alt Let_def view_def not_le)
  moreover have "[] \<notin> set (scan_views start stop logical (b # bs))"
    using clamp IH(2) by (auto simp: word_le_nat_alt Let_def not_le)
  ultimately show ?case
    by (rule conjI)
qed simp

lemma slice_views_at:
  assumes at: "queue_at q xs" and s: "ss_start s \<le> ss_end s" "unat (ss_end s) \<le> length (concat xs)"
  shows "concat (slice_views q s 0 0) = drop (unat (ss_start s)) (take (unat (ss_end s)) (concat xs))"
    "[] \<notin> set (slice_views q s 0 0)"
proof -
  note d = queue_atD [OF at]
  have owners: "map the (fifo_iter (sq_owners q)) = xs"
    using fifo_iter_at [OF d(1)] by (simp add: comp_def)
  have le: "(ucast (ss_start s) :: usize) \<le> ucast (ss_end s)"
    using s(1) by (simp add: word_le_nat_alt)
  have "concat (slice_views q s 0 0) = drop (unat (ss_start s)) (take (unat (ss_end s)) (concat xs)) \<and> [] \<notin> set (slice_views q s 0 0)"
  proof (cases "ss_start s = ss_end s")
    case True
    then have "slice_views q s 0 0 = []"
      by (cases xs) (simp_all add: slice_views_def owners slice_is_empty_def)
    then show ?thesis
      using True by simp
  next
    case False
    then show ?thesis
      using scan_views_at [of "ucast (ss_end s)" 0 xs "ucast (ss_start s)"] le d(5) unat_bound [of "ss_end s"]
      by (simp add: slice_views_def owners slice_is_empty_def)
  qed
  then show "concat (slice_views q s 0 0) = drop (unat (ss_start s)) (take (unat (ss_end s)) (concat xs))"
    "[] \<notin> set (slice_views q s 0 0)"
    by simp_all
qed

section \<open>Cursors and arrays\<close>

lemma position_at:
  assumes at: "queue_at q xs" and c: "cursor_at xs c"
  shows "position_try_new q c off len =
    (if unat (sc_start c) \<le> unat off \<and> unat off + unat len \<le> length (concat xs) then Inr (ucast off, ucast (off + len))
     else Inl \<lparr>qb_offset = off, qb_amount = len, qb_floor = ucast (sc_start c), qb_ceiling = segq_len q\<rparr>)"
proof -
  note d = queue_atD [OF at]
  have "unat (segq_len q - off) = length (concat xs) - unat off" if "unat off \<le> length (concat xs)"
    using that d(6) by (simp add: unat_sub word_le_nat_alt)
  then have "(off < ucast (sc_start c) \<or> segq_len q < off \<or> segq_len q - off < len) \<longleftrightarrow>
      \<not> (unat (sc_start c) \<le> unat off \<and> unat off + unat len \<le> length (concat xs))"
    using d(6) by (cases "unat off \<le> length (concat xs)") (auto simp: word_less_nat_alt)
  then show ?thesis
    by (simp add: position_try_new_def Let_def)
qed

lemma position_unat:
  fixes off len :: usize
  assumes "queue_at q xs" "unat off + unat len \<le> length (concat xs)"
  shows "unat (ucast off :: u32) = unat off" "unat (ucast (off + len) :: u32) = unat off + unat len"
proof -
  have "unat (off + len) = unat off + unat len"
    using assms(2) queue_atD(5) [OF assms(1)] by (simp add: unat_word_ariths)
  then show "unat (ucast off :: u32) = unat off" "unat (ucast (off + len) :: u32) = unat off + unat len"
    using assms(2) queue_atD(5) [OF assms(1)] by (simp_all add: unat_narrow)
qed

lemma cursor_seek_at:
  assumes at: "queue_at q xs" and c: "cursor_at xs c"
  shows "\<exists>r c'. cursor_seek q off c = Some (r, c') \<and>
    (case r of Inl e \<Rightarrow> c' = c \<and> (unat off < unat (sc_start c) \<or> length (concat xs) < unat off)
     | Inr u \<Rightarrow> cursor_at xs c' \<and> unat (sc_start c') \<le> unat off \<and> unat off \<le> length (concat xs) \<and>
         (unat off < offset_of (Suc (unat (sc_segment c'))) xs \<or> unat off = length (concat xs)))"
proof (cases "unat (sc_start c) \<le> unat off \<and> unat off \<le> length (concat xs)")
  case True
  note d = queue_atD [OF at]
  have p: "position_try_new q c off 0 = Inr (ucast off, ucast off)" "unat (ucast off :: u32) = unat off"
    using position_at [OF at c, of off 0] position_unat [OF at, of off 0] True by simp_all
  have segs: "length xs < 2 ^ 32" "segq_segments q = length xs"
    using ring_at_length [OF d(1)] ring_at_ok [OF d(1)] by (simp_all add: ring_ok_def segq_segments_def)
  show ?thesis
  proof (cases "unat off = length (concat xs)")
    case end_off: True
    then have "(ucast (ucast off :: u32) :: usize) = segq_len q"
      using p(2) d(6) by (simp add: word_unat_eq_iff)
    then show ?thesis
      using end_off p segs by (simp add: cursor_seek_def position_locate_def cursor_at_def unsigned_of_nat take_bit_nat_eq_self)
  next
    case False
    then have lt: "unat (ucast off :: u32) < length (concat xs)" "sc_start c \<le> ucast off"
      using True p(2) by (simp_all add: word_le_nat_alt)
    obtain c' where "segq_locate q c (ucast off) = Some (c', xs ! unat (sc_segment c'))" "cursor_at xs c'"
      "offset_of (unat (sc_segment c')) xs \<le> unat off" "unat off < offset_of (Suc (unat (sc_segment c'))) xs"
      using segq_locate_at [OF at c lt(2,1)] p(2) by auto
    moreover have "(ucast (ucast off :: u32) :: usize) \<noteq> segq_len q"
      using p(2) d(6) False by (auto simp: word_unat_eq_iff)
    ultimately show ?thesis
      using True p(1) by (simp add: cursor_seek_def position_locate_def cursor_at_def)
  qed
qed (use position_at [OF at c, of off 0] in \<open>auto simp: cursor_seek_def not_le\<close>)

lemma copy_slices_concat:
  "off + length (concat ss) \<le> length target \<Longrightarrow>
    copy_slices ss off target = take off target @ concat ss @ drop (off + length (concat ss)) target"
  by (induction ss off target rule: copy_slices.induct) (auto simp: ac_simps)

lemma array_at:
  assumes at: "queue_at q xs" and c: "cursor_at xs c" and range: "unat (sc_start c) \<le> unat off" "unat off + unat N \<le> length (concat xs)"
  defines "bytes \<equiv> take (unat N) (drop (unat off) (concat xs))"
  shows "\<exists>it. array_try_new q c off N = Inr it \<and>
    (length target = unat N \<longrightarrow> array_copy q it target = Some bytes) \<and>
    (\<exists>r. array_contiguous q N it = Some r \<and> (\<forall>b. r = Some b \<longrightarrow> b = bytes))"
proof -
  let ?it = "iter_at c (ucast off, ucast (off + N))"
  note u = position_unat [OF at range(2)]
  have ok: "iter_ok xs ?it"
    using c range u by (simp add: iter_ok_def iter_at_def word_le_nat_alt)
  have bytes: "iter_bytes xs ?it = bytes" "length bytes = unat N"
    using range u by (simp_all add: iter_bytes_def iter_at_def bytes_def)
  obtain fs where fs: "iter_fragments q ?it = Some fs" "concat fs = bytes"
    using iter_fragments_at [OF at ok] bytes by auto
  have "array_copy q ?it target = Some bytes" if "length target = unat N"
    using that fs bytes(2) copy_slices_concat [of 0 fs target] by (simp add: array_copy_def)
  moreover have "\<exists>r. array_contiguous q N ?it = Some r \<and> (\<forall>b. r = Some b \<longrightarrow> b = bytes)"
  proof (cases "N = 0")
    case True
    then show ?thesis
      by (simp add: array_contiguous_def bytes_def)
  next
    case False
    have rem: "iter_remaining ?it = N"
      using length_iter_bytes [OF ok] bytes by (simp add: word_unat_eq_iff)
    obtain it' chunk where p: "step_peek q N ?it = Some (it', chunk)" "length chunk \<le> unat N" "chunk = take (length chunk) bytes"
      using step_peek_at [OF at ok, of N] False rem bytes by (auto simp: word_gt_0)
    have "seg_len chunk = N \<Longrightarrow> length chunk = unat N"
      using p(2) unat_bound [of N] seg_len_unat [of chunk] by auto
    then show ?thesis
      using False p bytes(2) by (auto simp: array_contiguous_def)
  qed
  ultimately show ?thesis
    using position_at [OF at c, of off N] range by (simp add: array_try_new_def)
qed

section \<open>Readers\<close>

definition reader_left :: "'b part_reader \<Rightarrow> 'b list" where
  "reader_left r = rd_current r @ concat (rd_parts r)"

lemma fill_from_left:
  "reader_left (fill_from ps current) = current @ concat ps"
  "rd_current (fill_from ps current) = [] \<Longrightarrow> current @ concat ps = []"
  by (induction ps current rule: fill_from.induct) (auto simp: reader_left_def split: if_splits)

lemma reader_fill_left: "reader_left (reader_fill r) = reader_left r" "rd_current (reader_fill r) = [] \<Longrightarrow> reader_left r = []"
  using fill_from_left [of "rd_parts r" "rd_current r"] by (simp_all add: reader_fill_def reader_left_def)

lemma reader_read_left:
  assumes "reader_read room r = (out, r')"
  shows "reader_left r = out @ reader_left r'" "length out \<le> room" "out = [] \<Longrightarrow> room = 0 \<or> reader_left r = []"
proof -
  let ?f = "reader_fill r"
  have out: "out = take (min room (length (rd_current ?f))) (rd_current ?f)"
    and r': "r' = ?f\<lparr>rd_current := drop (min room (length (rd_current ?f))) (rd_current ?f)\<rparr>"
    using assms by (simp_all add: reader_read_def Let_def)
  have "out @ rd_current r' = rd_current ?f" "rd_parts r' = rd_parts ?f"
    by (simp_all add: out r')
  then show "reader_left r = out @ reader_left r'"
    using reader_fill_left(1) [of r] by (metis append.assoc reader_left_def)
  show "length out \<le> room" "out = [] \<Longrightarrow> room = 0 \<or> reader_left r = []"
    using reader_fill_left(2) [of r] by (auto simp: out min_def split: if_splits)
qed

primrec reader_run :: "nat list \<Rightarrow> 'b part_reader \<Rightarrow> 'b list list \<times> 'b part_reader" where
  "reader_run [] r = ([], r)"
| "reader_run (room # rooms) r =
    (case reader_read room r of (out, r) \<Rightarrow> (case reader_run rooms r of (outs, r) \<Rightarrow> (out # outs, r)))"

section \<open>Admission of several slices\<close>

lemma checked_room_at:
  "case checked_room room lens of Inl e \<Rightarrow> unat room < sum_list (map unat lens) \<and> ce_available e < ce_required e
    | Inr r \<Rightarrow> sum_list (map unat lens) \<le> unat room \<and> unat r = unat room - sum_list (map unat lens)"
proof (induction lens arbitrary: room)
  case (Cons n ns)
  show ?case
  proof (cases "n \<le> room")
    case True
    then have "unat (room - n) = unat room - unat n" "unat n \<le> unat room"
      by (simp_all add: unat_sub word_le_nat_alt)
    then show ?thesis
      using Cons.IH [of "room - n"] True by (auto simp: consume_check_cases split: sum.splits)
  next
    case False
    then show ?thesis
      by (simp add: consume_check_cases word_le_nat_alt word_less_nat_alt)
  qed
qed simp

section \<open>Programs\<close>

datatype 'b segq_op = Seg_Push "'b list" | Seg_Consume usize | Seg_Consume_Max usize

datatype 'b segq_out = Seg_Pushed "('b list \<times> queue_error) + unit" | Seg_Consumed "consume_error + unit" | Seg_Taken usize

fun segq_exec :: "'b segq_op \<Rightarrow> 'b seg_queue \<Rightarrow> ('b segq_out \<times> 'b seg_queue) option" where
  "segq_exec (Seg_Push b) q = (case segq_try_push b q of (r, q) \<Rightarrow> Some (Seg_Pushed r, q))"
| "segq_exec (Seg_Consume k) q = Option.bind (segq_try_consume k q) (\<lambda>(r, q). Some (Seg_Consumed r, q))"
| "segq_exec (Seg_Consume_Max k) q = Option.bind (segq_consume_max k q) (\<lambda>(n, q). Some (Seg_Taken n, q))"

primrec segq_run :: "'b segq_op list \<Rightarrow> 'b seg_queue \<Rightarrow> ('b segq_out list \<times> 'b seg_queue) option" where
  "segq_run [] q = Some ([], q)"
| "segq_run (p # ps) q =
    Option.bind (segq_exec p q) (\<lambda>(r, q). Option.bind (segq_run ps q) (\<lambda>(rs, q). Some (r # rs, q)))"

text \<open>The same program on a list of owners, within \<open>room\<close> bytes and \<open>slots\<close> owners.\<close>

fun owners_exec :: "u32 \<Rightarrow> u32 \<Rightarrow> 'b segq_op \<Rightarrow> 'b list list \<Rightarrow> 'b segq_out \<times> 'b list list" where
  "owners_exec room slots (Seg_Push b) xs =
    (let spare = unat room - length (concat xs)
     in if b = [] then (Seg_Pushed (Inr ()), xs)
        else if spare < length b then (Seg_Pushed (Inl (b, Queue_Bytes (word_of_nat (length b)) (word_of_nat spare))), xs)
        else if length xs = unat slots then (Seg_Pushed (Inl (b, Queue_Segments (unat slots))), xs)
        else (Seg_Pushed (Inr ()), xs @ [b]))"
| "owners_exec room slots (Seg_Consume k) xs =
    (let n = length (concat xs)
     in if unat k \<le> n then (Seg_Consumed (Inr ()), drop_bytes (unat k) xs)
        else (Seg_Consumed (Inl \<lparr>ce_required = k, ce_available = word_of_nat n\<rparr>), xs))"
| "owners_exec room slots (Seg_Consume_Max k) xs =
    (let n = min (unat k) (length (concat xs)) in (Seg_Taken (word_of_nat n), drop_bytes n xs))"

primrec owners_run :: "u32 \<Rightarrow> u32 \<Rightarrow> 'b segq_op list \<Rightarrow> 'b list list \<Rightarrow> 'b segq_out list \<times> 'b list list" where
  "owners_run room slots [] xs = ([], xs)"
| "owners_run room slots (p # ps) xs =
    (case owners_exec room slots p xs of (r, xs) \<Rightarrow> (case owners_run room slots ps xs of (rs, xs) \<Rightarrow> (r # rs, xs)))"

definition op_fits :: "'b segq_op \<Rightarrow> bool" where
  "op_fits p \<longleftrightarrow> (case p of Seg_Push b \<Rightarrow> length b < 2 ^ 63 | _ \<Rightarrow> True)"

definition sized_at :: "u32 \<Rightarrow> u32 \<Rightarrow> 'b seg_queue \<Rightarrow> 'b list list \<Rightarrow> bool" where
  "sized_at room slots q xs \<longleftrightarrow> queue_at q xs \<and> sq_capacity q = room \<and> length (rf_block (sq_owners q)) = unat slots"

lemma word_of_unat_eq: "unat (w :: usize) = n \<Longrightarrow> word_of_nat n = w"
  by auto

lemma segq_exec_at:
  assumes at: "sized_at room slots q xs" and fits: "op_fits p"
  shows "\<exists>q'. segq_exec p q = Some (fst (owners_exec room slots p xs), q') \<and> sized_at room slots q' (snd (owners_exec room slots p xs))"
proof -
  have q: "queue_at q xs" "sq_capacity q = room" "length (rf_block (sq_owners q)) = unat slots"
    using at by (simp_all add: sized_at_def)
  note d = queue_atD [OF q(1)]
  have drain: "\<exists>q'. drain_commit k q = Some q' \<and> sized_at room slots q' (drop_bytes (unat k) xs)" if "unat k \<le> length (concat xs)" for k
    using drain_commit_at [OF q(1) that] q(2,3) by (auto simp: sized_at_def)
  show ?thesis
  proof (cases p)
    case (Seg_Push b)
    have len: "length b < 2 ^ 64"
      using fits Seg_Push by (simp add: op_fits_def)
    note push = segq_try_push_at [OF q(1) len, unfolded q(2,3)]
    have spare: "word_of_nat (unat room - length (concat xs)) = segq_spare_len q"
      using d(7) q(2) by (intro word_of_unat_eq) simp
    obtain r q1 where p: "segq_try_push b q = (r, q1)"
      by (cases "segq_try_push b q")
    show ?thesis
      using push [unfolded p fst_conv snd_conv] at Seg_Push
      by (auto simp: Let_def spare seg_len_def sized_at_def p split: if_splits)
  next
    case (Seg_Consume k)
    have "segq_len q = word_of_nat (length (concat xs))"
      using word_of_unat_eq [OF d(6)] by simp
    then show ?thesis
      using drain [of k] at d(6) Seg_Consume
      by (auto simp: Let_def segq_try_consume_def drain_try_new_def consume_check_cases word_le_nat_alt)
  next
    case (Seg_Consume_Max k)
    have n: "unat (min k (ucast (sq_len q))) = min (unat k) (length (concat xs))"
      using d(3) by (simp add: min_def word_le_nat_alt)
    show ?thesis
      using drain [of "min k (ucast (sq_len q))"] word_of_unat_eq [OF n] Seg_Consume_Max
      by (auto simp: Let_def segq_consume_max_def n)
  qed
qed

lemma segq_run_at:
  "sized_at room slots q xs \<Longrightarrow> \<forall>p\<in>set ps. op_fits p \<Longrightarrow>
    \<exists>q'. segq_run ps q = Some (fst (owners_run room slots ps xs), q') \<and> sized_at room slots q' (snd (owners_run room slots ps xs))"
proof (induction ps arbitrary: q xs)
  case (Cons p ps)
  obtain q1 where q1: "segq_exec p q = Some (fst (owners_exec room slots p xs), q1)"
    "sized_at room slots q1 (snd (owners_exec room slots p xs))"
    using segq_exec_at [OF Cons.prems(1), of p] Cons.prems(2) by auto
  obtain q2 where "segq_run ps q1 = Some (fst (owners_run room slots ps (snd (owners_exec room slots p xs))), q2)"
    "sized_at room slots q2 (snd (owners_run room slots ps (snd (owners_exec room slots p xs))))"
    using Cons.IH [OF q1(2)] Cons.prems(2) by auto
  then show ?case
    using q1 by (auto simp: split_beta)
qed simp

text \<open>A queue without owner slots.\<close>

lemma segq_run_slotless:
  assumes "\<forall>p\<in>set ps. op_fits p"
  shows "segq_run ps (segq_try_with room 0) = Some (fst (owners_run room 0 ps []), segq_try_with room 0) \<and>
    snd (owners_run room 0 ps []) = []"
  using assms
proof (induction ps)
  case (Cons p ps)
  have c: "fifo_try_vacant (fifo_try_new 0 :: 'a list fifo32) = Inl (Full 0)"
    by (simp add: fifo_try_vacant_def fifo_try_new_def fifo_capacity_def ring_EMPTY_def ring_len_def offset_def)
  have d: "drain_commit 0 (segq_try_with room 0 :: 'a seg_queue) = Some (segq_try_with room 0)"
    "sq_len (segq_try_with room 0 :: 'a seg_queue) = 0"
    by (simp_all add: drain_commit_def drain_loop.simps segq_try_with_def)
  have "segq_exec p (segq_try_with room 0) = Some (fst (owners_exec room 0 p []), segq_try_with room 0) \<and>
      snd (owners_exec room 0 p []) = []"
  proof (cases p)
    case (Seg_Push b)
    then have "unat (seg_len b) = length b" using Cons.prems by (intro seg_len_unat) (simp add: op_fits_def)
    moreover have "unat (ucast room :: usize) = unat room" by (rule unat_ucast_widen) simp
    ultimately have "(ucast room :: usize) < seg_len b \<longleftrightarrow> unat room < length b" "word_of_nat (unat room) = (ucast room :: usize)"
      by (simp_all add: word_less_nat_alt word_of_unat_eq)
    then show ?thesis using c Seg_Push
      by (simp add: segq_try_push_def item_new_def segq_spare_len_def segq_try_with_def fifo_capacity_def fifo_try_new_def seg_len_def Let_def)
  next
    case (Seg_Consume k)
    then show ?thesis using d
      by (auto simp: segq_try_consume_def drain_try_new_def consume_check_cases segq_len_def word_le_nat_alt unat_eq_zero Let_def)
  next
    case (Seg_Consume_Max k)
    then show ?thesis using d by (auto simp: segq_consume_max_def min_def Let_def)
  qed
  then show ?case using Cons by (simp add: split_beta)
qed simp

section \<open>Properties\<close>

text \<open>C15: Any program of pushes and consumptions on a segmented queue returns, and behaves as on a list of
  nonempty owners within its byte and owner capacities: refusals return the owner with the exact cause,
  a consumption splits at most one owner, and the queue's length is the bytes of the owners left. A queue
  without owner slots refuses every nonempty owner and never changes.\<close>

theorem segment_queue_refines_owners:
  assumes "\<forall>p\<in>set ps. op_fits p"
  shows "\<exists>q. segq_run ps (segq_try_with room slots) = Some (fst (owners_run room slots ps []), q) \<and>
    (if slots = 0 then q = segq_try_with room 0 \<and> snd (owners_run room slots ps []) = []
     else queue_at q (snd (owners_run room slots ps []))) \<and>
    unat (segq_len q) = length (concat (snd (owners_run room slots ps []))) \<and> unat (segq_len q) \<le> unat room"
proof (cases "slots = 0")
  case True
  then show ?thesis using segq_run_slotless [OF assms, of room] by (simp add: segq_try_with_def segq_len_def)
next
  case False
  then have "0 < slots" by (simp add: word_gt_0)
  then have "sized_at room slots (segq_try_with room slots) []"
    using queue_at_new [of slots room] by (simp add: sized_at_def segq_try_with_def fifo_try_new_def)
  from segq_run_at [OF this assms] show ?thesis
    using queue_atD(4,6) False by (fastforce simp: sized_at_def)
qed

lemma segment_queue_refines_owners_witness:
  "\<exists>q. segq_run [Seg_Push ''abc'', Seg_Push ''de'', Seg_Consume 4, Seg_Push ''toolong'', Seg_Consume_Max 9] (segq_try_with 8 2) =
    Some ([Seg_Pushed (Inr ()), Seg_Pushed (Inr ()), Seg_Consumed (Inr ()), Seg_Pushed (Inr ()), Seg_Taken 8], q)"
  using segment_queue_refines_owners [of "[Seg_Push ''abc'', Seg_Push ''de'', Seg_Consume 4, Seg_Push ''toolong'', Seg_Consume_Max 9]" 8 2]
  by (auto simp: op_fits_def Let_def)

text \<open>C16: Every admitted range of a queue is read exactly: its fragments are nonempty, end, and join to
  the bytes of the range, as do its views, one for each owner it meets; it is contiguous exactly when
  there is at most one fragment, and an inadmissible range is refused.\<close>

theorem segment_range_reads:
  assumes at: "queue_at q xs"
  shows "case segq_get start stop q of
      None \<Rightarrow> \<not> (unat start \<le> unat stop \<and> unat stop \<le> length (concat xs))
    | Some s \<Rightarrow> (let bytes = drop (unat start) (take (unat stop) (concat xs)) in
        unat stop \<le> length (concat xs) \<and> unat (slice_len s) = length bytes \<and>
        concat (slice_views q s 0 0) = bytes \<and> [] \<notin> set (slice_views q s 0 0) \<and>
        (\<exists>fs. iter_fragments q (iter_new s) = Some fs \<and> concat fs = bytes \<and> [] \<notin> set fs \<and>
          slice_contiguous q s = Some (if length fs \<le> 1 then Some bytes else None)))"
proof (cases "segq_get start stop q")
  case None
  then show ?thesis
    using queue_atD(6) [OF at] by (auto simp: segq_get_def is_within_def word_le_nat_alt split: if_splits)
next
  case (Some s)
  have within: "unat start \<le> unat stop" "unat stop \<le> length (concat xs)"
    and s: "s = \<lparr>ss_start = ucast start, ss_end = ucast stop\<rparr>"
    using Some queue_atD(6) [OF at] by (auto simp: segq_get_def is_within_def word_le_nat_alt split: if_splits)
  have u: "unat (ss_start s) = unat start" "unat (ss_end s) = unat stop"
    using within queue_atD(5) [OF at] by (simp_all add: s unat_narrow)
  have ok: "ss_start s \<le> ss_end s" "unat (ss_end s) \<le> length (concat xs)"
    using within u by (simp_all add: word_le_nat_alt)
  obtain fs where fs: "iter_fragments q (iter_new s) = Some fs" "concat fs = iter_bytes xs (iter_new s)" "[] \<notin> set fs"
    using iter_fragments_at [OF at iter_new_ok [OF ok]] by blast
  have bytes: "iter_bytes xs (iter_new s) = drop (unat start) (take (unat stop) (concat xs))"
    by (simp add: iter_bytes_def iter_new_def u drop_take)
  have "unat (slice_len s) = length (drop (unat start) (take (unat stop) (concat xs)))"
    using ok within u by (simp add: slice_len_def unat_sub)
  then show ?thesis
    using Some fs bytes within slice_views_at [OF at ok] slice_contiguous_at [OF at ok fs(1)]
    by (auto simp: Let_def u)
qed

definition sample_queue :: "char seg_queue" where
  "sample_queue = snd (segq_try_push ''de'' (snd (segq_try_push ''abc'' (segq_try_with 8 2))))"

lemma sample_queue_at: "queue_at sample_queue [''abc'', ''de'']"
proof -
  have "queue_at (snd (segq_try_push ''abc'' (segq_try_with 8 2))) ([] @ [''abc''])"
    by (rule segq_try_push_at(2) [OF queue_at_new]) (simp_all, code_simp)
  then have "queue_at sample_queue (([] @ [''abc'']) @ [''de''])"
    unfolding sample_queue_def by (rule segq_try_push_at(2)) (simp_all, code_simp)
  then show ?thesis
    by simp
qed

lemma segment_range_reads_witness:
  "\<exists>s fs. segq_get 1 4 sample_queue = Some s \<and> iter_fragments sample_queue (iter_new s) = Some fs \<and> concat fs = ''bcd''"
proof -
  have bcd: "drop (Suc 0) (take 4 ''abcde'') = ''bcd''"
    by (simp add: take_Cons' drop_Cons')
  have "segq_get 1 4 sample_queue \<noteq> None"
    by code_simp
  then show ?thesis
    using segment_range_reads [OF sample_queue_at, of 1 4] bcd by (auto simp: Let_def split: option.splits)
qed

text \<open>C17: A cursor of a queue seeks exactly within its bounds, refusing what lies before it or past the
  end and otherwise standing at the owner that holds the byte; an array admitted at an offset copies
  exactly its bytes, and a contiguous one is those bytes.\<close>

theorem segment_cursor_exact:
  assumes at: "queue_at q xs" and c: "cursor_at xs c"
  shows "(\<exists>r c'. cursor_seek q off c = Some (r, c') \<and> cursor_at xs c' \<and>
      (case r of Inl e \<Rightarrow> c' = c \<and> (unat off < unat (sc_start c) \<or> length (concat xs) < unat off)
       | Inr u \<Rightarrow> unat (sc_start c') \<le> unat off \<and> unat off \<le> length (concat xs) \<and>
           (unat off < offset_of (Suc (unat (sc_segment c'))) xs \<or> unat off = length (concat xs)))) \<and>
    (case array_try_new q c off N of
       Inl e \<Rightarrow> unat off < unat (sc_start c) \<or> length (concat xs) < unat off + unat N
     | Inr it \<Rightarrow> (let bytes = take (unat N) (drop (unat off) (concat xs)) in
         length bytes = unat N \<and> array_copy q it (replicate (unat N) filler) = Some bytes \<and>
         (\<exists>r. array_contiguous q N it = Some r \<and> (r = None \<or> r = Some bytes))))"
proof (intro conjI)
  show "\<exists>r c'. cursor_seek q off c = Some (r, c') \<and> cursor_at xs c' \<and>
      (case r of Inl e \<Rightarrow> c' = c \<and> (unat off < unat (sc_start c) \<or> length (concat xs) < unat off)
       | Inr u \<Rightarrow> unat (sc_start c') \<le> unat off \<and> unat off \<le> length (concat xs) \<and>
           (unat off < offset_of (Suc (unat (sc_segment c'))) xs \<or> unat off = length (concat xs)))"
    using cursor_seek_at [OF at c, of off] c by (fastforce split: sum.splits)
  show "case array_try_new q c off N of
       Inl e \<Rightarrow> unat off < unat (sc_start c) \<or> length (concat xs) < unat off + unat N
     | Inr it \<Rightarrow> (let bytes = take (unat N) (drop (unat off) (concat xs)) in
         length bytes = unat N \<and> array_copy q it (replicate (unat N) filler) = Some bytes \<and>
         (\<exists>r. array_contiguous q N it = Some r \<and> (r = None \<or> r = Some bytes)))"
  proof (cases "unat (sc_start c) \<le> unat off \<and> unat off + unat N \<le> length (concat xs)")
    case True
    let ?bytes = "take (unat N) (drop (unat off) (concat xs))"
    obtain it r where it: "array_try_new q c off N = Inr it" "array_copy q it (replicate (unat N) filler) = Some ?bytes"
      "array_contiguous q N it = Some r" "\<forall>b. r = Some b \<longrightarrow> b = ?bytes"
      using True array_at [OF at c, of off N "replicate (unat N) filler"] by auto
    have "r = None \<or> r = Some ?bytes"
      using it(4) by (cases r) auto
    moreover have "unat N \<le> length (concat xs) - unat off"
      using True by linarith
    then have "length ?bytes = unat N"
      by simp
    ultimately show ?thesis
      using it(1-3) by (simp only: Let_def sum.case) blast
  next
    case False
    then show ?thesis
      using position_at [OF at c, of off N] by (auto simp: array_try_new_def)
  qed
qed

lemma segment_cursor_exact_witness:
  "\<exists>it. array_try_new sample_queue cursor_new 2 2 = Inr it \<and> array_copy sample_queue it ''..'' = Some ''cd''"
proof -
  have dots: "''..'' = replicate 2 CHR ''.''"
    by (simp add: numeral_2_eq_2)
  have "array_try_new sample_queue cursor_new 2 2 = Inr (iter_at cursor_new (2, 4))"
    by code_simp
  then show ?thesis
    using segment_cursor_exact [OF sample_queue_at cursor_at_new, of 2 2 "CHR ''.''"]
    by (simp add: Let_def dots)
qed

text \<open>C18: A bounded take of a scattered source, the fragments of a queue or a plain slice, yields
  nonempty chunks within the given limits that join to the exact prefix; seeking returns, refuses
  exactly an offset past the end, and leaves the exact suffix.\<close>

theorem scatter_take_exact:
  assumes at: "queue_at q xs" "iter_ok xs it" and bytes: "length b < 2 ^ 64"
  shows "(\<exists>r. scatter_seek iter_remaining (step_advance q) off it = Some r \<and>
      (case r of None \<Rightarrow> length (iter_bytes xs it) < unat off
       | Some it' \<Rightarrow> unat off \<le> length (iter_bytes xs it) \<and> iter_ok xs it' \<and> iter_bytes xs it' = drop (unat off) (iter_bytes xs it))) \<and>
    (let t = take_new iter_remaining it limit in
      snd t \<noteq> 0 \<longrightarrow> most \<noteq> 0 \<longrightarrow> (\<exists>t' chunk. take_next (step_advance q) most t = Some (t', Some chunk) \<and> chunk \<noteq> [] \<and>
        length chunk \<le> unat most \<and> length chunk \<le> unat limit \<and> iter_ok xs (fst t') \<and>
        iter_bytes xs it = chunk @ iter_bytes xs (fst t') \<and> unat (snd t') = unat (snd t) - length chunk)) \<and>
    (\<exists>it'. take_finish (step_advance q) (take_new iter_remaining it limit) = Some it' \<and> iter_ok xs it' \<and>
      iter_bytes xs it' = drop (unat limit) (iter_bytes xs it)) \<and>
    scatter_seek seg_len bytes_advance off b = Some (if length b < unat off then None else Some (drop (unat off) b)) \<and>
    (let t = take_new seg_len b limit in
      snd t \<noteq> 0 \<longrightarrow> most \<noteq> 0 \<longrightarrow> (\<exists>t' chunk. take_next bytes_advance most t = Some (t', Some chunk) \<and> chunk \<noteq> [] \<and>
        length chunk \<le> unat most \<and> length chunk \<le> unat limit \<and> b = chunk @ fst t' \<and> unat (snd t') = unat (snd t) - length chunk)) \<and>
    take_finish bytes_advance (take_new seg_len b limit) = Some (drop (unat limit) b)"
proof -
  have good: "queue_at q xs \<and> iter_ok xs it" using at by simp
  note fragments = queue_source.takes_exact [OF good, of off limit most, unfolded eqTrueI [OF at(1)] simp_thms]
  note slice = slice_source.takes_exact [OF bytes, of off limit most]
  have "scatter_seek seg_len bytes_advance off b = Some (if length b < unat off then None else Some (drop (unat off) b))"
    using slice [THEN conjunct1] by (fastforce split: option.splits)
  moreover have "let t = take_new seg_len b limit in
      snd t \<noteq> 0 \<longrightarrow> most \<noteq> 0 \<longrightarrow> (\<exists>t' chunk. take_next bytes_advance most t = Some (t', Some chunk) \<and> chunk \<noteq> [] \<and>
        length chunk \<le> unat most \<and> length chunk \<le> unat limit \<and> b = chunk @ fst t' \<and> unat (snd t') = unat (snd t) - length chunk)"
    using slice [THEN conjunct2, THEN conjunct1] unfolding Let_def by blast
  moreover have "take_finish bytes_advance (take_new seg_len b limit) = Some (drop (unat limit) b)"
    using slice [THEN conjunct2, THEN conjunct2] by blast
  ultimately show ?thesis using fragments by (intro conjI; elim conjE) assumption+
qed

lemma scatter_take_exact_witness:
  "\<exists>it'. take_finish (step_advance sample_queue) (take_new iter_remaining (iter_new \<lparr>ss_start = 0, ss_end = 5\<rparr>) 4) = Some it' \<and>
    iter_bytes [''abc'', ''de''] it' = ''e''"
proof -
  have "iter_ok [''abc'', ''de''] (iter_new \<lparr>ss_start = 0, ss_end = 5\<rparr>)"
    by (rule iter_new_ok) simp_all
  from scatter_take_exact [OF sample_queue_at this, of "''xyz''" 0 4 1] obtain it' where
    it': "take_finish (step_advance sample_queue) (take_new iter_remaining (iter_new \<lparr>ss_start = 0, ss_end = 5\<rparr>) 4) = Some it'"
      "iter_bytes [''abc'', ''de''] it' = drop (unat (4 :: usize)) (iter_bytes [''abc'', ''de''] (iter_new \<lparr>ss_start = 0, ss_end = 5\<rparr>))"
    by auto
  have "iter_bytes [''abc'', ''de''] it' = ''e''"
    unfolding it'(2) by (simp add: iter_new_def iter_bytes_def take_Cons' drop_Cons')
  with it'(1) show ?thesis
    by blast
qed

text \<open>C38: Reading parts with any room never loses, repeats or reorders a byte, never exceeds the room,
  and reports the end only at the end; consuming from the filled buffer skips exactly those bytes.\<close>

theorem reader_yields_parts:
  "(case reader_run rooms (reader_new parts) of (outs, r) \<Rightarrow>
      concat outs @ reader_left r = concat parts \<and> list_all2 (\<lambda>out room. length out \<le> room) outs rooms \<and>
      ([] \<in> set outs \<and> 0 \<notin> set rooms \<longrightarrow> concat outs = concat parts)) \<and>
   (case reader_fill_buf r of (buf, r') \<Rightarrow> (buf = [] \<longleftrightarrow> reader_left r = []) \<and>
      reader_left (reader_consume n r') = drop (min n (length buf)) (reader_left r))"
proof
  have run: "case reader_run rooms r of (outs, r') \<Rightarrow>
      concat outs @ reader_left r' = reader_left r \<and> list_all2 (\<lambda>out room. length out \<le> room) outs rooms \<and>
      ([] \<in> set outs \<and> 0 \<notin> set rooms \<longrightarrow> reader_left r' = [])" for r
  proof (induction rooms arbitrary: r)
    case (Cons room rooms)
    obtain out r1 where r1: "reader_read room r = (out, r1)"
      by (cases "reader_read room r")
    note left = reader_read_left [OF r1]
    show ?case
      using Cons.IH [of r1] left by (auto simp: r1 split: prod.splits)
  qed simp
  show "case reader_run rooms (reader_new parts) of (outs, r) \<Rightarrow>
      concat outs @ reader_left r = concat parts \<and> list_all2 (\<lambda>out room. length out \<le> room) outs rooms \<and>
      ([] \<in> set outs \<and> 0 \<notin> set rooms \<longrightarrow> concat outs = concat parts)"
  proof -
    have "reader_left (reader_new parts) = concat parts"
      by (simp add: reader_new_def reader_left_def)
    then show ?thesis
      using run [of "reader_new parts"] by (auto split: prod.splits)
  qed
  show "case reader_fill_buf r of (buf, r') \<Rightarrow> (buf = [] \<longleftrightarrow> reader_left r = []) \<and>
      reader_left (reader_consume n r') = drop (min n (length buf)) (reader_left r)"
  proof -
    note left = reader_fill_left [of r]
    have "rd_current (reader_fill r) = [] \<longleftrightarrow> reader_left r = []"
      using left by (auto simp: reader_left_def simp del: concat_eq_Nil_conv)
    moreover have "reader_left (reader_consume n (reader_fill r)) = drop (min n (length (rd_current (reader_fill r)))) (reader_left (reader_fill r))"
      by (simp add: reader_consume_def reader_left_def)
    ultimately show ?thesis
      using left(1) by (simp add: reader_fill_buf_def Let_def)
  qed
qed

lemma reader_yields_parts_witness:
  "concat (fst (reader_run [2, 2, 1, 3, 1] (reader_new [''abc'', [], ''de'']))) = ''abcde''"
proof -
  obtain outs r where run: "reader_run [2, 2, 1, 3, 1] (reader_new [''abc'', [], ''de'']) = (outs, r)"
    by (cases "reader_run [2, 2, 1, 3, 1] (reader_new [''abc'', [], ''de''])")
  have "[] \<in> set (fst (reader_run [2, 2, 1, 3, 1] (reader_new [''abc'', [], ''de''])))"
    by code_simp
  then have "[] \<in> set outs"
    unfolding run by simp
  then show ?thesis
    using reader_yields_parts [where rooms = "[2, 2, 1, 3, 1]" and parts = "[''abc'', [], ''de'']" and r = "reader_new ([] :: string list)" and n = 0]
    unfolding run by simp
qed

lemma checked_end_snoc:
  assumes le: "start \<le> capacity"
  shows "case consume_checked_end start capacity (ns @ [n]) of
     Inr stop \<Rightarrow> unat stop = unat start + sum_list (map unat (ns @ [n])) \<and> stop \<le> capacity
   | Inl e \<Rightarrow> unat capacity < unat start + sum_list (map unat (ns @ [n])) \<and> ce_available e < ce_required e"
proof -
  have room: "unat (capacity - start) = unat capacity - unat start" "unat start \<le> unat capacity"
    using le by (simp_all add: unat_sub word_le_nat_alt)
  note pre = checked_room_at [of "capacity - start" ns]
  show ?thesis
  proof (cases "checked_room (capacity - start) ns")
    case (Inl e)
    then have "unat capacity - unat start < sum_list (map unat ns)" "ce_available e < ce_required e"
      using pre room by simp_all
    moreover from this have "unat capacity < unat start + (sum_list (map unat ns) + unat n)"
      by linarith
    ultimately show ?thesis
      using Inl le by (simp add: consume_checked_end_def consume_check_cases)
  next
    case (Inr r)
    have r: "sum_list (map unat ns) \<le> unat capacity - unat start" "unat r = unat capacity - unat start - sum_list (map unat ns)"
      using pre room Inr by simp_all
    have cr: "unat (capacity - r) = unat start + sum_list (map unat ns)"
      using r room(2) by (simp add: unat_sub word_le_nat_alt)
    show ?thesis
    proof (cases "n \<le> r")
      case True
      then have "unat (capacity - r + n) = unat start + sum_list (map unat ns) + unat n"
        "unat start + sum_list (map unat ns) + unat n \<le> unat capacity"
        using cr r room(2) unat_bound [of capacity] by (simp_all add: unat_word_ariths word_le_nat_alt)
      then show ?thesis
        using True le Inr by (simp add: consume_checked_end_def consume_check_cases word_le_nat_alt)
    next
      case False
      then have "unat r < unat n"
        by (simp add: word_le_nat_alt)
      then have "unat capacity < unat start + (sum_list (map unat ns) + unat n)"
        using r room(2) by linarith
      then show ?thesis
        using False le Inr by (simp add: consume_checked_end_def consume_check_cases word_le_nat_alt word_less_nat_alt)
    qed
  qed
qed

text \<open>Several slices are admitted at a position exactly when the position and all of them fit the
  capacity, and then end exactly behind the last; a refusal reports a request larger than the room.\<close>

theorem consume_checked_end_exact:
  "case consume_checked_end start capacity lens of
     Inr stop \<Rightarrow> unat stop = unat start + sum_list (map unat lens) \<and> stop \<le> capacity
   | Inl e \<Rightarrow> unat capacity < unat start + sum_list (map unat lens) \<and> ce_available e < ce_required e"
proof (cases "start \<le> capacity")
  case True
  then show ?thesis
    using checked_end_snoc [OF True]
    by (cases lens rule: rev_cases) (simp add: consume_checked_end_def consume_check_cases, blast)
next
  case False
  then show ?thesis
    by (simp add: consume_checked_end_def consume_check_cases word_le_nat_alt word_less_nat_alt)
qed

end
