(* ===== verification/O3_Compact.thy ===== *)
theory O3_Compact
  imports O3_Layout O3_Map O3_Bitmap
begin

unbundle bit_operations_syntax

text \<open>
  The compact directory (src/src/depot/map/compact): a Robin Hood hash table from hashes to the
  indices of records that its owner keeps elsewhere. The directory is the tail of the owner's bytes:
  one control byte for each bucket, a mirror of the first 32 of them, and a plane of payload indices
  of one, two or four bytes. Lookups by \<open>entry\<close> and \<open>scan\<close> read 32 controls at a time.

  The owner is its layout and bytes beside two functions that do not change while it is borrowed: the
  hash of a record and the item that the record shows. A loop that the code leaves unbounded is a
  partial function; None is a loop that does not return.
\<close>

section \<open>Header-and-tail allocations\<close>

text \<open>\<open>prefix\<close> is the layout that the compiler gives the header and the length beside it.\<close>

definition tail_offset :: "ty \<Rightarrow> layout \<Rightarrow> usize" where
  "tail_offset t prefix = layout_offset t (ly_size prefix)"

definition tail_fits :: "ty \<Rightarrow> layout \<Rightarrow> usize \<Rightarrow> bool" where
  "tail_fits t prefix len = layout_fits_after t prefix len"

definition tail_try_new :: "ty \<Rightarrow> layout \<Rightarrow> usize \<Rightarrow> alloc_overflow + usize" where
  "tail_try_new t prefix extent = (if \<not> tail_fits t prefix extent then Inl Overflow else Inr extent)"

definition tail_layout :: "ty \<Rightarrow> layout \<Rightarrow> usize \<Rightarrow> layout" where
  "tail_layout t prefix len = pad_to_align (fst (layout_extend t prefix len))"

definition tail_size :: "ty \<Rightarrow> layout \<Rightarrow> usize \<Rightarrow> usize" where
  "tail_size t prefix len = ly_size (tail_layout t prefix len)"

definition tail_try_allocate :: "(layout \<Rightarrow> bool) \<Rightarrow> ty \<Rightarrow> layout \<Rightarrow> usize \<Rightarrow> alloc_exhausted + unit" where
  "tail_try_allocate grant t prefix len = layout_try_allocate grant (tail_layout t prefix len)"

text \<open>The initialized tail of an allocation that succeeded.\<close>

definition tail_repeat :: "usize \<Rightarrow> 'a \<Rightarrow> 'a list" where
  "tail_repeat len v = replicate (unat len) v"

definition tail_fill :: "usize \<Rightarrow> (nat \<Rightarrow> 'a) \<Rightarrow> 'a list" where
  "tail_fill len init = map init [0..<unat len]"

section \<open>Layouts\<close>

datatype compact_error = Compact_Start usize usize | Compact_Capacity usize usize

datatype compact_width = Width_One | Width_Two | Width_Four

definition width_new :: "u32 \<Rightarrow> compact_width" where
  "width_new domain =
     (if domain - 1 \<le> 0xff then Width_One else if domain - 1 \<le> 0xffff then Width_Two else Width_Four)"

primrec width_len :: "compact_width \<Rightarrow> usize" where
  "width_len Width_One = 1"
| "width_len Width_Two = 2"
| "width_len Width_Four = 4"

definition compact_MAX_CAPACITY :: usize where
  "compact_MAX_CAPACITY = push_bit 28 7"

definition compact_WIDTH :: usize where
  "compact_WIDTH = 32"

definition compact_EMPTY :: u8 where
  "compact_EMPTY = push_bit 7 1"

record compact_layout =
  cy_start :: u32
  cy_buckets :: u32
  cy_domain :: u32

definition word_div_ceil :: "usize \<Rightarrow> usize \<Rightarrow> usize" where
  "word_div_ceil a b = (if a mod b = 0 then a div b else a div b + 1)"

definition compact_control_len :: "compact_layout \<Rightarrow> usize" where
  "compact_control_len l = ucast (cy_buckets l) + compact_WIDTH"

definition compact_plane :: "compact_layout \<Rightarrow> usize" where
  "compact_plane l = ucast (cy_start l) + compact_control_len l"

definition compact_end :: "compact_layout \<Rightarrow> usize" where
  "compact_end l =
     (if cy_buckets l = 0 then ucast (cy_start l)
      else compact_plane l + ucast (cy_buckets l) * width_len (width_new (cy_domain l)))"

definition compact_try_new :: "usize \<Rightarrow> usize \<Rightarrow> compact_error + (compact_layout \<times> usize)" where
  "compact_try_new capacity start =
     (let maximum = ucast (- 1 :: u32)
      in if maximum < start then Inl (Compact_Start start maximum)
         else if compact_MAX_CAPACITY < capacity then Inl (Compact_Capacity capacity compact_MAX_CAPACITY)
         else if (ucast capacity :: u32) = 0
         then Inr (\<lparr>cy_start = ucast start, cy_buckets = 0, cy_domain = 1\<rparr>, start)
         else
           let minimum = max (word_div_ceil (capacity * 8) 7) compact_WIDTH;
               buckets = next_power_of_two minimum;
               l = \<lparr>cy_start = ucast start, cy_buckets = ucast buckets, cy_domain = ucast capacity\<rparr>
           in Inr (l, compact_end l))"

definition compact_byte :: "compact_layout \<Rightarrow> usize \<Rightarrow> u8" where
  "compact_byte l off =
     (let start = ucast (cy_start l)
      in if cy_buckets l \<noteq> 0 \<and> start \<le> off \<and> off < start + compact_control_len l then compact_EMPTY else 0)"

definition compact_init :: "compact_layout \<Rightarrow> u8 list \<Rightarrow> u8 list" where
  "compact_init l bytes =
     (if cy_buckets l \<noteq> 0
      then let start = unat (cy_start l); len = unat (compact_control_len l)
           in take start bytes @ replicate len compact_EMPTY @ drop (start + len) bytes
      else bytes)"

text \<open>A plan keeps the layout beside the admitted extent of the allocation.\<close>

definition compact_plan_new :: "layout \<Rightarrow> compact_layout \<Rightarrow> alloc_overflow + (compact_layout \<times> usize)" where
  "compact_plan_new prefix l =
     (case tail_try_new \<lparr>ty_size = 1, ty_align = 1\<rparr> prefix (compact_end l) of
        Inl e \<Rightarrow> Inl e | Inr memory \<Rightarrow> Inr (l, memory))"

definition compact_plan_try_allocate ::
  "(layout \<Rightarrow> bool) \<Rightarrow> layout \<Rightarrow> compact_layout \<times> usize \<Rightarrow> alloc_exhausted + u8 list" where
  "compact_plan_try_allocate grant prefix plan =
     (case tail_try_allocate grant \<lparr>ty_size = 1, ty_align = 1\<rparr> prefix (snd plan) of
        Inl e \<Rightarrow> Inl e | Inr u \<Rightarrow> Inr (compact_init (fst plan) (tail_repeat (snd plan) 0)))"

section \<open>Little-endian bytes\<close>

fun le_bytes :: "u8 list \<Rightarrow> 'w::len word" where
  "le_bytes [] = 0"
| "le_bytes (b # bs) = ucast b + 256 * le_bytes bs"

definition to_le :: "nat \<Rightarrow> u32 \<Rightarrow> u8 list" where
  "to_le n w = map (\<lambda>k. ucast (drop_bit (8 * k) w)) [0..<n]"

definition write_bytes :: "usize \<Rightarrow> u8 list \<Rightarrow> u8 list \<Rightarrow> u8 list" where
  "write_bytes start new bytes = take (unat start) bytes @ new @ drop (unat start + length new) bytes"

section \<open>Groups of controls\<close>

definition group_pack :: "u64 \<Rightarrow> u32" where
  "group_pack w = ucast (drop_bit 56 (w * 0x0002040810204081))"

definition group_equal :: "u64 \<Rightarrow> u8 \<Rightarrow> u64" where
  "group_equal w byte =
     (let x = w XOR (ucast byte * 0x0101010101010101)
      in NOT ((x AND 0x7f7f7f7f7f7f7f7f) + 0x7f7f7f7f7f7f7f7f) AND NOT x AND 0x8080808080808080)"

definition group_masks :: "u8 list \<Rightarrow> u8 \<Rightarrow> u32 \<times> u32" where
  "group_masks bytes tag =
     fold (\<lambda>index (vacant, matched).
         let w = le_bytes (take 8 (drop (8 * index) bytes))
         in (vacant OR push_bit (index * 8) (group_pack (group_equal w compact_EMPTY)),
             matched OR push_bit (index * 8) (group_pack (group_equal w tag))))
       [0..<length bytes div 8] (0, 0)"

section \<open>The owner and its buckets\<close>

record 'i compact_owner =
  cw_layout :: compact_layout
  cw_bytes :: "u8 list"
  cw_hash :: "u32 \<Rightarrow> u64"
  cw_get :: "u32 \<Rightarrow> 'i"

definition compact_buckets :: "'i compact_owner \<Rightarrow> usize" where
  "compact_buckets q = ucast (cy_buckets (cw_layout q))"

definition store_bucket :: "'i compact_owner \<Rightarrow> usize \<Rightarrow> usize" where
  "store_bucket q index = index AND (compact_buckets q - 1)"

definition store_control :: "'i compact_owner \<Rightarrow> usize \<Rightarrow> u8" where
  "store_control q b = cw_bytes q ! unat (ucast (cy_start (cw_layout q)) + b)"

definition control_tag :: "u64 \<Rightarrow> u8" where
  "control_tag hash = ucast (drop_bit 57 hash)"

definition control_occupied :: "u8 \<Rightarrow> u8 option" where
  "control_occupied v = (if v = compact_EMPTY then None else Some v)"

definition control_matching :: "u8 \<Rightarrow> u64 \<Rightarrow> u8 option" where
  "control_matching v hash = (if v \<noteq> control_tag hash then None else Some v)"

definition store_read :: "'i compact_owner \<Rightarrow> usize \<Rightarrow> u32" where
  "store_read q b =
     (let width = width_len (width_new (cy_domain (cw_layout q)));
          start = compact_plane (cw_layout q) + b * width
      in le_bytes (take (unat width) (drop (unat start) (cw_bytes q))))"

definition store_mark :: "'i compact_owner \<Rightarrow> usize \<Rightarrow> u8 \<Rightarrow> 'i compact_owner" where
  "store_mark q b v =
     (let index = ucast (cy_start (cw_layout q)) + b;
          bytes = (cw_bytes q)[unat index := v]
      in q\<lparr>cw_bytes := if b < 32 then bytes[unat (index + compact_buckets q) := v] else bytes\<rparr>)"

definition store_write :: "'i compact_owner \<Rightarrow> usize \<Rightarrow> u8 \<Rightarrow> u32 \<Rightarrow> 'i compact_owner" where
  "store_write q b control payload =
     (let q = store_mark q b control;
          width = width_len (width_new (cy_domain (cw_layout q)));
          start = compact_plane (cw_layout q) + b * width
      in q\<lparr>cw_bytes := write_bytes start (to_le (unat width) payload) (cw_bytes q)\<rparr>)"

record 'i compact_found =
  cf_owner :: "'i compact_owner"
  cf_bucket :: u32
  cf_payload :: u32

definition compact_finish :: "'i compact_owner \<Rightarrow> usize \<Rightarrow> u32 \<Rightarrow> 'i compact_found" where
  "compact_finish q b payload = \<lparr>cf_owner = q, cf_bucket = ucast b + 1, cf_payload = payload\<rparr>"

definition compact_value_capacity :: "'i compact_owner \<Rightarrow> u32" where
  "compact_value_capacity q = cy_domain (cw_layout q)"

definition compact_clear :: "'i compact_owner \<Rightarrow> 'i compact_owner" where
  "compact_clear q = q\<lparr>cw_bytes := compact_init (cw_layout q) (cw_bytes q)\<rparr>"

section \<open>Insertion\<close>

partial_function (option) compact_insert_from ::
  "'i compact_owner \<Rightarrow> usize \<Rightarrow> usize \<Rightarrow> u8 \<Rightarrow> u32 \<Rightarrow> 'i compact_owner option" where
  "compact_insert_from q b home control payload =
     (case control_occupied (store_control q b) of
        None \<Rightarrow> Some (store_write q b control payload)
      | Some current \<Rightarrow>
          let stored = store_read q b;
              origin = store_bucket q (cw_hash q stored)
          in if (b - origin) AND (compact_buckets q - 1) < (b - home) AND (compact_buckets q - 1)
             then let q = store_write q b control payload
                  in compact_insert_from q (store_bucket q (b + 1)) origin current stored
             else compact_insert_from q (store_bucket q (b + 1)) home control payload)"

definition compact_insert :: "'i compact_owner \<Rightarrow> u32 \<Rightarrow> 'i compact_owner option" where
  "compact_insert q payload =
     (let hash = cw_hash q payload;
          b = store_bucket q hash
      in compact_insert_from q b b (control_tag hash) payload)"

section \<open>Membership and removal\<close>

partial_function (option) compact_locate_from ::
  "'i compact_owner \<Rightarrow> u64 \<Rightarrow> u32 \<Rightarrow> usize \<Rightarrow> 'i compact_found option" where
  "compact_locate_from q hash payload b =
     (if control_matching (store_control q b) hash \<noteq> None \<and> store_read q b = payload
      then Some (compact_finish q b payload)
      else compact_locate_from q hash payload (store_bucket q (b + 1)))"

definition compact_locate :: "'i compact_owner \<Rightarrow> u32 \<Rightarrow> 'i compact_found option" where
  "compact_locate q payload =
     (let hash = cw_hash q payload in compact_locate_from q hash payload (store_bucket q hash))"

partial_function (option) compact_erase ::
  "'i compact_owner \<Rightarrow> usize \<Rightarrow> usize \<Rightarrow> 'i compact_owner option" where
  "compact_erase q hole after =
     (case control_occupied (store_control q after) of
        None \<Rightarrow> Some (store_mark q hole compact_EMPTY)
      | Some control \<Rightarrow>
          let payload = store_read q after;
              home = store_bucket q (cw_hash q payload)
          in if after = home then Some (store_mark q hole compact_EMPTY)
             else let q = store_write q hole control payload
                  in compact_erase q after (store_bucket q (after + 1)))"

text \<open>The removed record is still the owner's; its directory no longer indexes it.\<close>

record 'i compact_removed =
  cr_owner :: "'i compact_owner"
  cr_payload :: u32

definition compact_remove :: "'i compact_found \<Rightarrow> 'i compact_removed option" where
  "compact_remove f =
     (let q = cf_owner f;
          hole = store_bucket q (ucast (cf_bucket f) - 1)
      in Option.bind (compact_erase q hole (store_bucket q (hole + 1)))
           (\<lambda>q. Some \<lparr>cr_owner = q, cr_payload = cf_payload f\<rparr>))"

section \<open>Lookup by single controls\<close>

partial_function (option) compact_find_from ::
  "'i compact_owner \<Rightarrow> u64 \<Rightarrow> 'i \<Rightarrow> usize \<Rightarrow> 'i compact_found option option" where
  "compact_find_from q hash key b =
     (case control_occupied (store_control q b) of
        None \<Rightarrow> Some None
      | Some control \<Rightarrow>
          if control = control_tag hash \<and> cw_hash q (store_read q b) = hash \<and> cw_get q (store_read q b) = key
          then Some (Some (compact_finish q b (store_read q b)))
          else compact_find_from q hash key (store_bucket q (b + 1)))"

definition compact_find :: "'i compact_owner \<Rightarrow> u64 \<Rightarrow> 'i \<Rightarrow> 'i compact_found option option" where
  "compact_find q hash key =
     (if cy_buckets (cw_layout q) = 0 then Some None
      else compact_find_from q hash key (store_bucket q hash))"

section \<open>Lookup by groups\<close>

record group_matches =
  gm_start :: usize
  gm_bits :: u32
  gm_done :: bool

definition matches_new :: "'i compact_owner \<Rightarrow> usize \<Rightarrow> u64 \<Rightarrow> group_matches" where
  "matches_new q b hash =
     (let start = ucast (cy_start (cw_layout q)) + b;
          (vacant, matched) = group_masks (take 32 (drop (unat start) (cw_bytes q))) (control_tag hash);
          before = (vacant - 1) AND NOT vacant
      in \<lparr>gm_start = b, gm_bits = matched AND before, gm_done = (vacant \<noteq> 0)\<rparr>)"

definition matches_read :: "'i compact_owner \<Rightarrow> usize \<Rightarrow> u32" where
  "matches_read q b =
     (let width = width_len (width_new (cy_domain (cw_layout q)));
          off = b * width;
          start = compact_plane (cw_layout q) + (off AND NOT 3);
          w = le_bytes (take 4 (drop (unat start) (cw_bytes q)));
          mask = drop_bit (unat (32 - width * 8)) (- 1)
      in drop_bit (unat ((off AND 3) * 8)) w AND mask)"

partial_function (option) matches_next ::
  "'i compact_owner \<Rightarrow> u64 \<Rightarrow> group_matches \<Rightarrow> ((usize \<times> u32) option \<times> group_matches) option" where
  "matches_next q hash m =
     (if gm_bits m = 0
      then if gm_done m then Some (None, m)
           else matches_next q hash (matches_new q (store_bucket q (gm_start m + 32)) hash)
      else
        let bits = gm_bits m;
            m = m\<lparr>gm_bits := bits AND (bits - 1)\<rparr>;
            b = store_bucket q (gm_start m + of_nat (trailing_zeros bits));
            payload = matches_read q b
        in if cw_hash q payload = hash then Some (Some (b, payload), m) else matches_next q hash m)"

partial_function (option) compact_scan_from ::
  "'i compact_owner \<Rightarrow> u64 \<Rightarrow> ('i \<Rightarrow> 's \<Rightarrow> 's) \<Rightarrow> group_matches \<Rightarrow> 's \<Rightarrow> 's option" where
  "compact_scan_from q hash visit m s =
     Option.bind (matches_next q hash m) (\<lambda>(e, m).
       case e of None \<Rightarrow> Some s
       | Some (b, payload) \<Rightarrow> compact_scan_from q hash visit m (visit (cw_get q payload) s))"

definition compact_scan :: "'i compact_owner \<Rightarrow> u64 \<Rightarrow> ('i \<Rightarrow> 's \<Rightarrow> 's) \<Rightarrow> 's \<Rightarrow> 's option" where
  "compact_scan q hash visit s =
     (if cy_buckets (cw_layout q) = 0 then Some s
      else compact_scan_from q hash visit (matches_new q (store_bucket q hash) hash) s)"

partial_function (option) compact_entry_from ::
  "'i compact_owner \<Rightarrow> u64 \<Rightarrow> 'i \<Rightarrow> group_matches \<Rightarrow> (usize \<times> u32) option option" where
  "compact_entry_from q hash key m =
     Option.bind (matches_next q hash m) (\<lambda>(e, m).
       case e of None \<Rightarrow> Some None
       | Some (b, payload) \<Rightarrow>
           if cw_get q payload = key then Some (Some (b, payload)) else compact_entry_from q hash key m)"

datatype 'i compact_entry = Compact_Occupied "'i compact_found" | Compact_Vacant "'i compact_owner"

definition compact_entry :: "'i compact_owner \<Rightarrow> u64 \<Rightarrow> 'i \<Rightarrow> 'i compact_entry option" where
  "compact_entry q hash key =
     (if cy_buckets (cw_layout q) = 0 then Some (Compact_Vacant q)
      else Option.bind (compact_entry_from q hash key (matches_new q (store_bucket q hash) hash))
        (\<lambda>e. Some (case e of Some (b, payload) \<Rightarrow> Compact_Occupied (compact_finish q b payload)
           | None \<Rightarrow> Compact_Vacant q)))"

end
