(* ===== verification/O3_Compact_Bytes.thy ===== *)
theory O3_Compact_Bytes
  imports O3_Compact O3_Bitmap_Proofs O3_Map_Flat
begin

unbundle bit_operations_syntax

text \<open>
  The bytes of a compact directory: little-endian words, the masks of a group of 32 controls, and
  the bounds of its layout.
\<close>

section \<open>Little-endian words\<close>

lemma add_push_or: "(ucast (b :: u8) :: 'w::len word) + 256 * w = ucast b OR push_bit 8 w"
proof -
  have "(ucast b :: 'w word) + push_bit 8 w = ucast b OR push_bit 8 w"
    by (rule disjunctive_add) (auto simp: bit_simps dest: bit_imp_le_length)
  then show ?thesis
    by (simp add: push_bit_eq_mult mult.commute)
qed

lemma bit_le_bytes:
  "bit (le_bytes bs :: 'w::len word) n \<longleftrightarrow> n < LENGTH('w) \<and> n div 8 < length bs \<and> bit (bs ! (n div 8)) (n mod 8)"
proof (induction bs arbitrary: n)
  case (Cons b bs)
  show ?case
  proof (cases "n < 8")
    case True
    then show ?thesis
      by (auto simp: add_push_or bit_simps)
  next
    case False
    then have "n div 8 = Suc ((n - 8) div 8)" "n mod 8 = (n - 8) mod 8"
      by (auto simp: le_div_geq le_mod_geq)
    then show ?thesis
      using False Cons.IH [of "n - 8"] bit_imp_le_length [of b n] by (auto simp: add_push_or bit_simps)
  qed
qed simp

lemma le_bytes_add:
  "length bs = length cs \<Longrightarrow> \<forall>(b, c)\<in>set (zip bs cs). unat b + unat c < 256 \<Longrightarrow>
    le_bytes bs + le_bytes cs = (le_bytes (map2 (+) bs cs) :: 'w::len word)"
proof (induction bs cs rule: list_induct2)
  case (Cons b bs c cs)
  have "(ucast (b + c) :: 'w word) = ucast b + ucast c"
  proof -
    have "unat (b + c) = unat b + unat c"
      using Cons.prems by (simp add: unat_word_ariths)
    then show ?thesis
      by (metis of_nat_add of_nat_unat)
  qed
  moreover have sum: "le_bytes bs + le_bytes cs = (le_bytes (map2 (+) bs cs) :: 'w word)"
    using Cons by simp
  ultimately show ?case
    by (simp add: algebra_simps flip: sum)
qed simp

lemma le_bytes_bitwise:
  assumes "length bs = length cs"
  shows "le_bytes bs XOR le_bytes cs = (le_bytes (map2 (XOR) bs cs) :: 'w::len word)"
    "le_bytes bs AND le_bytes cs = (le_bytes (map2 (AND) bs cs) :: 'w::len word)"
  using assms by (auto intro!: bit_eqI simp: bit_le_bytes bit_simps)

lemma le_bytes_read:
  "bs \<noteq> [] \<Longrightarrow> unat (le_bytes bs :: u32) < 256 ^ length bs" if "length bs \<le> 4"
proof -
  have "le_bytes bs = take_bit (8 * length bs) (le_bytes bs :: u32)"
    by (auto intro!: bit_eqI simp: bit_le_bytes bit_simps)
  then have "unat (le_bytes bs :: u32) < 2 ^ (8 * length bs)"
    by (metis unsigned_take_bit_eq take_bit_nat_less_exp)
  then show ?thesis
    by (simp add: power_mult)
qed

lemma le_to_le:
  assumes "unat (w :: u32) < 256 ^ n"
  shows "le_bytes (to_le n w) = w"
proof (rule bit_eqI)
  fix k
  have "w = take_bit (8 * n) w"
    using assms by (simp add: word_unat_eq_iff unsigned_take_bit_eq take_bit_nat_eq_self power_mult)
  then have small: "bit w k \<Longrightarrow> k < 8 * n"
    by (metis bit_take_bit_iff)
  show "bit (le_bytes (to_le n w) :: u32) k \<longleftrightarrow> bit w k"
  proof (cases "k < 8 * n")
    case True
    then have "k div 8 < n"
      by (simp add: less_mult_imp_div_less mult.commute)
    then show ?thesis
      using bit_imp_le_length [of w k] by (auto simp: bit_le_bytes to_le_def bit_simps)
  next
    case False
    then show ?thesis
      using small by (auto simp: bit_le_bytes to_le_def)
  qed
qed

section \<open>Lanes\<close>

lemma map2_replicate: "map2 f bs (replicate (length bs) c) = map (\<lambda>b. f b c) bs"
  by (induction bs) simp_all

lemma le_bytes_const:
  assumes "length bs = n"
  shows "le_bytes bs XOR le_bytes (replicate n c) = (le_bytes (map (\<lambda>b. b XOR c) bs) :: 'w::len word)"
    "le_bytes bs AND le_bytes (replicate n c) = (le_bytes (map (\<lambda>b. b AND c) bs) :: 'w::len word)"
proof -
  have "map2 f bs (replicate n c) = map (\<lambda>b. f b c) bs" for f :: "u8 \<Rightarrow> u8 \<Rightarrow> u8"
    unfolding assms [symmetric] by (rule map2_replicate)
  then show "le_bytes bs XOR le_bytes (replicate n c) = (le_bytes (map (\<lambda>b. b XOR c) bs) :: 'w::len word)"
    "le_bytes bs AND le_bytes (replicate n c) = (le_bytes (map (\<lambda>b. b AND c) bs) :: 'w::len word)"
    using assms by (simp_all add: le_bytes_bitwise)
qed

lemma le_bytes_maps: "le_bytes (map f bs) AND le_bytes (map g bs) = (le_bytes (map (\<lambda>b. f b AND g b) bs) :: 'w::len word)"
  by (simp add: le_bytes_bitwise zip_map_map zip_same_conv_map comp_def)

lemma le_bytes_not: "length bs = 8 \<Longrightarrow> NOT (le_bytes bs :: u64) = le_bytes (map (\<lambda>b. NOT b) bs)"
proof (rule bit_eqI)
  fix n
  assume "length bs = 8" "possible_bit TYPE(u64) n"
  then have "n < 64" "n div 8 < length bs" "n mod 8 < 8"
    by auto
  then show "bit (NOT (le_bytes bs :: u64)) n \<longleftrightarrow> bit (le_bytes (map (\<lambda>b. NOT b) bs) :: u64) n"
    by (auto simp: bit_le_bytes bit_simps)
qed

lemma all_bytes:
  assumes "\<forall>n\<in>set [0..<256]. P (word_of_nat n)"
  shows "P (x :: u8)"
proof -
  have "unat x \<in> set [0..<256]"
    using unat_bound [of x] by simp
  then show ?thesis
    using assms by force
qed

lemma swar_byte: "NOT ((x AND 0x7f) + 0x7f) AND NOT x AND 0x80 = (if x = 0 then 0x80 else 0)" for x :: u8
  by (rule all_bytes) code_simp

lemma byte_xor_zero: "x XOR y = 0 \<longleftrightarrow> x = y" for x y :: u8
  by (auto simp: bit_eq_iff bit_simps)

definition flags :: "bool list \<Rightarrow> u64" where
  "flags fs = le_bytes (map (\<lambda>f. if f then 0x80 else 0) fs)"

lemma replicate_8: "replicate 8 b = [b, b, b, b, b, b, b, b]"
  by (simp add: numeral_eq_Suc)

lemma lane_constant: "(ucast b :: u64) * 0x0101010101010101 = le_bytes (replicate 8 b)"
  by (simp add: replicate_8 algebra_simps)

lemma lane_constants:
  "(0x7f7f7f7f7f7f7f7f :: u64) = le_bytes (replicate 8 0x7f)"
  "(0x8080808080808080 :: u64) = le_bytes (replicate 8 0x80)"
  by (simp_all flip: lane_constant)

lemma group_equal_lanes:
  assumes "length ws = 8"
  shows "group_equal (le_bytes ws) b = flags (map (\<lambda>w. w = b) ws)"
proof -
  define xs where "xs = map (\<lambda>w. w XOR b) ws"
  have len: "length xs = 8"
    by (simp add: xs_def assms)
  have low: "le_bytes xs AND 0x7f7f7f7f7f7f7f7f = (le_bytes (map (\<lambda>x. x AND 0x7f) xs) :: u64)"
    unfolding lane_constants by (rule le_bytes_const(2) [OF len])
  have low_sum: "unat (x AND 0x7f) + unat (0x7f :: u8) < 256" for x :: u8
    using word_and_le1 [of x "0x7f"] by (simp add: word_le_nat_alt)
  then have sum: "le_bytes (map (\<lambda>x. x AND 0x7f) xs) + 0x7f7f7f7f7f7f7f7f =
      (le_bytes (map (\<lambda>x. (x AND 0x7f) + 0x7f) xs) :: u64)"
  proof -
    have "map2 (+) (map (\<lambda>x. x AND 0x7f) xs) (replicate 8 (0x7f :: u8)) = map (\<lambda>x. (x AND 0x7f) + 0x7f) xs"
      using map2_replicate [of "(+)" "map (\<lambda>x. x AND 0x7f) xs" "0x7f"] len by (simp add: comp_def)
    moreover have "\<forall>(b, c)\<in>set (zip (map (\<lambda>x. x AND 0x7f) xs) (replicate 8 (0x7f :: u8))). unat b + unat c < 256"
      using low_sum by (auto dest!: set_zip_leftD set_zip_rightD simp: set_zip)
    ultimately show ?thesis
      unfolding lane_constants using len by (subst le_bytes_add) simp_all
  qed
  have "group_equal (le_bytes ws) b = NOT (le_bytes (map (\<lambda>x. (x AND 0x7f) + 0x7f) xs)) AND NOT (le_bytes xs) AND le_bytes (replicate 8 0x80)"
    using le_bytes_const(1) [OF assms, of b, where ?'w = 64] low sum
    by (simp add: group_equal_def Let_def lane_constant lane_constants xs_def)
  also have "\<dots> = le_bytes (map (\<lambda>x. NOT ((x AND 0x7f) + 0x7f) AND NOT x AND 0x80) xs)"
  proof -
    have "NOT (le_bytes xs) AND le_bytes (replicate 8 0x80) = (le_bytes (map (\<lambda>x. NOT x AND 0x80) xs) :: u64)"
      using len le_bytes_const(2) [of "map (\<lambda>x. NOT x) xs" 8 "0x80", where ?'w = 64] by (simp add: le_bytes_not comp_def)
    then show ?thesis
      using len by (simp add: le_bytes_not le_bytes_maps comp_def and.assoc)
  qed
  also have "\<dots> = flags (map (\<lambda>w. w = b) ws)"
    by (simp add: swar_byte flags_def xs_def comp_def byte_xor_zero)
  finally show ?thesis .
qed

lemma group_pack_flags: "group_pack (flags [a, b, c, d, e, f, g, h]) = horner_sum of_bool 2 [a, b, c, d, e, f, g, h]"
  by (cases a; cases b; cases c; cases d; cases e; cases f; cases g; cases h; simp add: group_pack_def flags_def)

lemma group_pack_all: "length fs = 8 \<Longrightarrow> group_pack (flags fs) = horner_sum of_bool 2 fs"
  by (auto simp: numeral_eq_Suc length_Suc_conv group_pack_flags simp del: horner_sum_simps)

section \<open>Groups\<close>

definition lane_mask :: "u8 list \<Rightarrow> u8 \<Rightarrow> nat \<Rightarrow> u32" where
  "lane_mask bytes tag index = group_pack (group_equal (le_bytes (take 8 (drop (8 * index) bytes))) tag)"

lemma bit_lane_mask:
  assumes "8 * index + 8 \<le> length bytes"
  shows "bit (lane_mask bytes tag index) k \<longleftrightarrow> k < 8 \<and> bytes ! (8 * index + k) = tag"
proof -
  let ?ws = "take 8 (drop (8 * index) bytes)"
  have len: "length ?ws = 8"
    using assms by simp
  have "lane_mask bytes tag index = horner_sum of_bool 2 (map (\<lambda>w. w = tag) ?ws)"
    using len by (simp add: lane_mask_def group_equal_lanes group_pack_all)
  then show ?thesis
    using len assms by (auto simp: bit_horner_sum_bit_word_iff)
qed

lemma group_masks_lanes:
  assumes "length bytes = 32"
  shows "group_masks bytes tag =
    (lane_mask bytes compact_EMPTY 0 OR push_bit 8 (lane_mask bytes compact_EMPTY 1) OR
       push_bit 16 (lane_mask bytes compact_EMPTY 2) OR push_bit 24 (lane_mask bytes compact_EMPTY 3),
     lane_mask bytes tag 0 OR push_bit 8 (lane_mask bytes tag 1) OR push_bit 16 (lane_mask bytes tag 2) OR
       push_bit 24 (lane_mask bytes tag 3))"
proof -
  have "[0..<length bytes div 8] = [0, 1, 2, 3]"
    using assms by (simp add: upt_rec)
  then show ?thesis
    by (simp add: group_masks_def lane_mask_def Let_def or.assoc)
qed

lemma bit_lanes:
  assumes "length bytes = 32"
  shows "bit (lane_mask bytes tag 0 OR push_bit 8 (lane_mask bytes tag 1) OR push_bit 16 (lane_mask bytes tag 2) OR
      push_bit 24 (lane_mask bytes tag 3)) k \<longleftrightarrow> k < 32 \<and> bytes ! k = tag"
proof -
  have lane: "bit (lane_mask bytes tag i) j \<longleftrightarrow> j < 8 \<and> bytes ! (8 * i + j) = tag" if "i < 4" for i j
    using bit_lane_mask [of i bytes tag j] assms that by simp
  consider "k < 8" | "8 \<le> k" "k < 16" | "16 \<le> k" "k < 24" | "24 \<le> k" "k < 32" | "32 \<le> k"
    by linarith
  then show ?thesis
    by cases (auto simp: bit_simps lane)
qed

lemma group_masks_bits:
  assumes "length bytes = 32"
  shows "bit (fst (group_masks bytes tag)) k \<longleftrightarrow> k < 32 \<and> bytes ! k = compact_EMPTY"
    "bit (snd (group_masks bytes tag)) k \<longleftrightarrow> k < 32 \<and> bytes ! k = tag"
  unfolding group_masks_lanes [OF assms] fst_conv snd_conv by (rule bit_lanes [OF assms])+

section \<open>The lowest set bit\<close>

lemma bit_pred:
  fixes w :: "'w::len word"
  assumes "w \<noteq> 0"
  shows "bit (w - 1) k \<longleftrightarrow> k < trailing_zeros w \<or> trailing_zeros w < k \<and> bit w k"
proof -
  define t s where "t = trailing_zeros w" and "s = Suc t"
  define high where "high = push_bit s (drop_bit s w)"
  have low: "bit w t" "\<And>k. k < t \<Longrightarrow> \<not> bit w k"
    using trailing_zeros_least [OF assms] by (auto simp: t_def)
  then have len: "t < LENGTH('w)"
    by (auto dest: bit_imp_le_length)
  have high: "bit high k \<longleftrightarrow> t < k \<and> bit w k" for k
  proof -
    have "bit high k \<longleftrightarrow> s \<le> k \<and> bit w k"
      using bit_imp_le_length [of w k] by (auto simp: high_def bit_push_bit_iff bit_drop_bit_eq)
    then show ?thesis
      by (auto simp: s_def)
  qed
  have "w = high OR push_bit t 1"
  proof (rule bit_eqI)
    fix k
    show "bit w k \<longleftrightarrow> bit (high OR push_bit t 1) k"
      using low len by (cases k t rule: linorder_cases) (auto simp: bit_or_iff bit_push_bit_iff high bit_1_iff bit_exp_iff)
  qed
  also have "\<dots> = high + push_bit t 1"
    by (rule disjunctive_add [symmetric]) (auto simp: bit_push_bit_iff high bit_1_iff bit_exp_iff)
  finally have "w - 1 = high + mask t"
    by (simp add: algebra_simps mask_eq_exp_minus_1)
  also have "\<dots> = high OR mask t"
    by (rule disjunctive_add) (auto simp: high bit_mask_iff)
  finally show ?thesis
    using len by (auto simp: bit_or_iff high bit_mask_iff t_def)
qed

lemma bit_clear_lowest:
  fixes w :: "'w::len word"
  assumes "w \<noteq> 0"
  shows "bit (w AND (w - 1)) k \<longleftrightarrow> bit w k \<and> k \<noteq> trailing_zeros w"
  using trailing_zeros_least [OF assms] by (auto simp: bit_and_iff bit_pred [OF assms])

lemma bit_before_lowest:
  fixes w :: "'w::len word"
  shows "bit ((w - 1) AND NOT w) k \<longleftrightarrow> k < LENGTH('w) \<and> (\<forall>j\<le>k. \<not> bit w j)"
proof (cases "w = 0")
  case True
  then show ?thesis
    by (auto simp: bit_simps)
next
  case False
  note low = trailing_zeros_least [OF False]
  have "bit ((w - 1) AND NOT w) k \<longleftrightarrow> k < trailing_zeros w"
    using low(2) [of k] bit_imp_le_length [OF low(1)] by (auto simp: bit_and_iff bit_not_iff bit_pred [OF False])
  also have "\<dots> \<longleftrightarrow> (\<forall>j\<le>k. \<not> bit w j)"
    using low by (meson le_less_trans linorder_not_less)
  also have "\<dots> \<longleftrightarrow> k < LENGTH('w) \<and> (\<forall>j\<le>k. \<not> bit w j)"
    using low(1) bit_imp_le_length [OF low(1)] by (meson linorder_not_less order_trans less_imp_le)
  finally show ?thesis .
qed

end
