(* ===== verification/O3_Compact_Robin.thy ===== *)
theory O3_Compact_Robin
  imports O3_Map_Scan
begin

text \<open>
  Robin Hood order on a cycle of buckets: no entry is farther from its home than one step past its
  predecessor, and none follows a vacant bucket except at home. The order gives probe paths without
  gaps, and it survives the exchanges of an insertion and the shifts of a removal.
\<close>

type_synonym members = "nat \<Rightarrow> u32 option"

section \<open>The order\<close>

definition bound_at :: "nat \<Rightarrow> (u32 \<Rightarrow> nat) \<Rightarrow> members \<Rightarrow> nat \<Rightarrow> nat" where
  "bound_at n H T i = (case T i of None \<Rightarrow> 0 | Some r \<Rightarrow> Suc (dist n (H r) i))"

definition robin :: "nat \<Rightarrow> (u32 \<Rightarrow> nat) \<Rightarrow> members \<Rightarrow> bool" where
  "robin n H T \<longleftrightarrow> (\<forall>i<n. \<forall>p. T ((i + 1) mod n) = Some p \<longrightarrow> dist n (H p) ((i + 1) mod n) \<le> bound_at n H T i)"

lemma robinD: "robin n H T \<Longrightarrow> i < n \<Longrightarrow> T ((i + 1) mod n) = Some p \<Longrightarrow> dist n (H p) ((i + 1) mod n) \<le> bound_at n H T i"
  by (simp add: robin_def)

lemma robin_empty: "robin n H (\<lambda>_. None)"
  by (simp add: robin_def)

lemma dist_Suc_le: "a < n \<Longrightarrow> b < n \<Longrightarrow> dist n a ((b + 1) mod n) \<le> Suc (dist n a b)"
  by (auto simp: dist_eq mod_if)

lemma dist_prev: "a < n \<Longrightarrow> b < n \<Longrightarrow> a \<noteq> (b + 1) mod n \<Longrightarrow> dist n a ((b + 1) mod n) = Suc (dist n a b)"
  by (auto simp: dist_eq mod_if split: if_splits)

lemma step_other: "1 < n \<Longrightarrow> i < n \<Longrightarrow> (i + 1) mod n \<noteq> i" for n i :: nat
  by (auto simp: mod_if)

lemma step_inj: "i < n \<Longrightarrow> j < n \<Longrightarrow> (i + 1) mod n = (j + 1) mod n \<longleftrightarrow> i = j" for n i j :: nat
  by (auto simp: mod_if split: if_splits)

lemma step_less: "i < n \<Longrightarrow> (i + 1) mod n < n" for n i :: nat
  by simp

lemma robin_path:
  assumes ro: "robin n H T" and i: "i < n" "T i = Some p" and H: "\<And>q. H q < n" and e: "e \<le> dist n (H p) i"
  shows "T ((H p + e) mod n) \<noteq> None"
proof -
  let ?d = "dist n (H p) i"
  have walk: "\<exists>r. T ((H p + (?d - m)) mod n) = Some r \<and> ?d - m \<le> dist n (H r) ((H p + (?d - m)) mod n)" if "m \<le> ?d" for m
    using that
  proof (induction m)
    case 0
    then show ?case
      using i add_dist [OF H i(1), of p] by simp
  next
    case (Suc m)
    then obtain r where r: "T ((H p + (?d - m)) mod n) = Some r" "?d - m \<le> dist n (H r) ((H p + (?d - m)) mod n)"
      by auto
    let ?j = "(H p + (?d - Suc m)) mod n"
    have "0 < n"
      using i(1) by simp
    then have j: "?j < n" "(?j + 1) mod n = (H p + (?d - m)) mod n"
      using Suc.prems by (simp_all add: mod_simps Suc_diff_Suc)
    have "0 < ?d - m"
      using Suc.prems by simp
    then have "0 < bound_at n H T ?j"
      using robinD [OF ro j(1), of r] r j(2) by simp
    then obtain r' where r': "T ?j = Some r'"
      by (auto simp: bound_at_def split: option.splits)
    have "?d - m \<le> Suc (dist n (H r') ?j)"
      using robinD [OF ro j(1), of r] r j(2) r' by (simp add: bound_at_def)
    then show ?case
      using r' by auto
  qed
  from walk [of "?d - e"] e show ?thesis
    by auto
qed

section \<open>What an insertion and a removal keep\<close>

text \<open>A bucket may take a record that its predecessor bounds and that is as far from home as what follows allows.\<close>

lemma robin_put:
  assumes ro: "robin n H T" and n: "1 < n" "b < n"
    and before: "\<And>a. a < n \<Longrightarrow> (a + 1) mod n = b \<Longrightarrow> dist n (H p) b \<le> bound_at n H T a"
    and after: "bound_at n H T b \<le> Suc (dist n (H p) b)"
  shows "robin n H (T(b := Some p))"
  unfolding robin_def
proof (intro allI impI)
  fix i r
  assume i: "i < n" "(T(b := Some p)) ((i + 1) mod n) = Some r"
  show "dist n (H r) ((i + 1) mod n) \<le> bound_at n H (T(b := Some p)) i"
  proof (cases "(i + 1) mod n = b")
    case True
    then have "i \<noteq> b" "r = p"
      using i step_other [OF n(1) i(1)] by auto
    then show ?thesis
      using before [OF i(1) True] True by (simp add: bound_at_def)
  next
    case False
    then have "T ((i + 1) mod n) = Some r"
      using i(2) by simp
    from robinD [OF ro i(1) this] show ?thesis
      using after by (cases "i = b") (simp_all add: bound_at_def)
  qed
qed

lemma robin_drop:
  assumes ro: "robin n H T" and n: "1 < n" "g < n"
    and after: "\<And>r. T ((g + 1) mod n) = Some r \<Longrightarrow> dist n (H r) ((g + 1) mod n) = 0"
  shows "robin n H (T(g := None))"
  unfolding robin_def
proof (intro allI impI)
  fix i r
  assume i: "i < n" "(T(g := None)) ((i + 1) mod n) = Some r"
  then have r: "T ((i + 1) mod n) = Some r" "(i + 1) mod n \<noteq> g"
    by (auto split: if_splits)
  show "dist n (H r) ((i + 1) mod n) \<le> bound_at n H (T(g := None)) i"
    using robinD [OF ro i(1) r(1)] after r(1) by (cases "i = g") (auto simp: bound_at_def)
qed

lemma robin_shift:
  assumes ro: "robin n H T" and n: "1 < n" "g < n" and H: "H r < n"
    and x: "T g = Some x" and r: "T ((g + 1) mod n) = Some r" "H r \<noteq> (g + 1) mod n"
  shows "robin n H (T(g := Some r))"
proof -
  have d: "dist n (H r) ((g + 1) mod n) = Suc (dist n (H r) g)"
    using H n(2) r(2) by (rule dist_prev)
  moreover have "dist n (H r) ((g + 1) mod n) \<le> Suc (dist n (H x) g)"
    using robinD [OF ro n(2) r(1)] x by (simp add: bound_at_def)
  ultimately have le: "dist n (H r) g \<le> dist n (H x) g"
    by simp
  show ?thesis
    unfolding robin_def
  proof (intro allI impI)
    fix i s
    assume i: "i < n" "(T(g := Some r)) ((i + 1) mod n) = Some s"
    show "dist n (H s) ((i + 1) mod n) \<le> bound_at n H (T(g := Some r)) i"
    proof (cases "i = g")
      case True
      then have "s = r"
        using i(2) r(1) step_other [OF n] by simp
      then show ?thesis
        using True d by (simp add: bound_at_def)
    next
      case False
      have same: "bound_at n H (T(g := Some r)) i = bound_at n H T i"
        using False by (simp add: bound_at_def)
      show ?thesis
      proof (cases "(i + 1) mod n = g")
        case True
        then have "dist n (H x) g \<le> bound_at n H T i"
          using robinD [OF ro i(1), of x] x by simp
        then show ?thesis
          using True i(2) le same by simp
      next
        case neq: False
        then show ?thesis
          using robinD [OF ro i(1), of s] i(2) same by simp
      qed
    qed
  qed
qed

section \<open>The records of a cycle\<close>

definition records :: "nat \<Rightarrow> members \<Rightarrow> u32 multiset" where
  "records n T = image_mset (\<lambda>i. the (T i)) (mset_set {i. i < n \<and> T i \<noteq> None})"

lemma records_empty [simp]: "records n (\<lambda>_. None) = {#}"
  by (simp add: records_def)

lemma in_records: "p \<in># records n T \<longleftrightarrow> (\<exists>i<n. T i = Some p)"
  by (force simp: records_def)

lemma records_split:
  assumes "b < n"
  shows "records n T = records n (T(b := None)) + (case T b of None \<Rightarrow> {#} | Some r \<Rightarrow> {#r#})"
proof -
  let ?S = "{i. i < n \<and> T i \<noteq> None}"
  have S: "{i. i < n \<and> (T(b := None)) i \<noteq> None} = ?S - {b}"
    by auto
  have rest: "image_mset (\<lambda>i. the ((T(b := None)) i)) (mset_set (?S - {b})) = image_mset (\<lambda>i. the (T i)) (mset_set (?S - {b}))"
    by (intro image_mset_cong) auto
  show ?thesis
  proof (cases "T b")
    case None
    then have "?S - {b} = ?S"
      by auto
    then show ?thesis
      using None rest S by (simp add: records_def)
  next
    case (Some r)
    then have "mset_set ?S = add_mset b (mset_set (?S - {b}))"
      using assms by (intro mset_set.remove) auto
    then show ?thesis
      using Some rest S by (simp add: records_def)
  qed
qed

lemma records_put:
  assumes "b < n"
  shows "records n (T(b := Some p)) + (case T b of None \<Rightarrow> {#} | Some r \<Rightarrow> {#r#}) = add_mset p (records n T)"
  using records_split [OF assms, of T] records_split [OF assms, of "T(b := Some p)"] by simp

lemma records_size: "size (records n T) = card {i. i < n \<and> T i \<noteq> None}"
  by (simp add: records_def)

definition spare :: "nat \<Rightarrow> members \<Rightarrow> bool" where
  "spare n T \<longleftrightarrow> (\<exists>v<n. T v = None)"

lemma spareE: "spare n T \<Longrightarrow> (\<And>v. v < n \<Longrightarrow> T v = None \<Longrightarrow> thesis) \<Longrightarrow> thesis"
  by (auto simp: spare_def)

lemma spareI:
  assumes "size (records n T) < n"
  shows "spare n T"
proof -
  have "{i. i < n \<and> T i \<noteq> None} \<noteq> {..<n}"
    using assms by (metis card_lessThan nat_neq_iff records_size)
  then show ?thesis
    by (auto simp: spare_def)
qed

section \<open>Probe sequences\<close>

definition gap :: "nat \<Rightarrow> members \<Rightarrow> nat \<Rightarrow> nat" where
  "gap n T b = (LEAST k. T ((b + k) mod n) = None)"

definition robin_probe :: "nat \<Rightarrow> members \<Rightarrow> nat \<Rightarrow> (nat \<times> u32) list" where
  "robin_probe n T b = map (\<lambda>k. ((b + k) mod n, the (T ((b + k) mod n)))) [0..<gap n T b]"

lemma gap_le: "v < n \<Longrightarrow> T v = None \<Longrightarrow> b < n \<Longrightarrow> gap n T b \<le> dist n b v"
  using add_dist [of b n v] unfolding gap_def by (intro Least_le) simp

lemma gap_less:
  assumes "spare n T" "b < n"
  shows "gap n T b < n"
proof -
  obtain v where "v < n" "T v = None"
    using assms(1) by (rule spareE)
  then show ?thesis
    using gap_le [of v n T b] dist_less [of n b v] assms(2) by linarith
qed

lemma gap_at:
  assumes "spare n T" "b < n"
  shows "T ((b + gap n T b) mod n) = None"
proof -
  obtain v where v: "v < n" "T v = None"
    using assms(1) by (rule spareE)
  then have "T ((b + dist n b v) mod n) = None"
    using add_dist [OF assms(2)] by simp
  then show ?thesis
    unfolding gap_def by (rule LeastI)
qed

lemma before_gap: "k < gap n T b \<Longrightarrow> T ((b + k) mod n) \<noteq> None"
  unfolding gap_def by (rule not_less_Least)

lemma gap_skip:
  assumes v: "spare n T" "b < n" and m: "m \<le> gap n T b"
  shows "gap n T b = m + gap n T ((b + m) mod n)"
proof (rule antisym)
  have "0 < n"
    using v(2) by simp
  then have "T (((b + m) mod n + gap n T ((b + m) mod n)) mod n) = None"
    using gap_at [OF v(1), of "(b + m) mod n"] by simp
  then have "T ((b + (m + gap n T ((b + m) mod n))) mod n) = None"
    by (simp only: mod_add_left_eq add.assoc)
  then show "gap n T b \<le> m + gap n T ((b + m) mod n)"
    unfolding gap_def [of n T b] by (rule Least_le)
  have "((b + m) mod n + (gap n T b - m)) mod n = (b + gap n T b) mod n"
    using m by (simp only: mod_add_left_eq) simp
  then have "T (((b + m) mod n + (gap n T b - m)) mod n) = None"
    using gap_at [OF v] by simp
  then have "gap n T ((b + m) mod n) \<le> gap n T b - m"
    unfolding gap_def [of n T "(b + m) mod n"] by (rule Least_le)
  then show "m + gap n T ((b + m) mod n) \<le> gap n T b"
    using m by simp
qed

lemma probe_skip:
  assumes v: "spare n T" "b < n" and m: "m \<le> gap n T b"
  shows "robin_probe n T b = map (\<lambda>k. ((b + k) mod n, the (T ((b + k) mod n)))) [0..<m] @ robin_probe n T ((b + m) mod n)"
proof -
  let ?g = "gap n T ((b + m) mod n)"
  have "[0..<gap n T b] = [0..<m] @ [m..<m + ?g]"
    unfolding gap_skip [OF assms] by (rule upt_add_eq_append) simp
  also have "[m..<m + ?g] = map (\<lambda>k. k + m) [0..<?g]"
    by (simp add: map_add_upt add.commute)
  finally have "[0..<gap n T b] = [0..<m] @ map (\<lambda>k. k + m) [0..<?g]" .
  moreover have "(b + (k + m)) mod n = ((b + m) mod n + k) mod n" for k
    by (metis add.assoc add.commute mod_add_left_eq)
  ultimately show ?thesis
    by (simp add: robin_probe_def)
qed

lemma probe_step:
  assumes v: "spare n T" "b < n"
  shows "T b = None \<Longrightarrow> robin_probe n T b = []"
    "T b = Some p \<Longrightarrow> robin_probe n T b = (b, p) # robin_probe n T ((b + 1) mod n)"
proof -
  show "T b = None \<Longrightarrow> robin_probe n T b = []"
    using v(2) by (simp add: robin_probe_def gap_def Least_eq_0)
  assume b: "T b = Some p"
  then have "gap n T b \<noteq> 0"
    using gap_at [OF v] v(2) by (metis add.right_neutral mod_less option.distinct(1))
  then show "robin_probe n T b = (b, p) # robin_probe n T ((b + 1) mod n)"
    using probe_skip [OF v, of 1] b v(2) by simp
qed

lemma probe_member: "b < n \<Longrightarrow> (i, p) \<in> set (robin_probe n T b) \<Longrightarrow> i < n \<and> T i = Some p"
  using before_gap [of _ n T b] by (auto simp: robin_probe_def)

lemma probe_distinct:
  assumes "spare n T" "b < n"
  shows "distinct (map fst (robin_probe n T b))"
proof -
  have "inj_on (\<lambda>k. (b + k) mod n) {0..<gap n T b}"
    using dist_add [OF assms(2)] gap_less [OF assms] by (intro inj_onI) (metis atLeastLessThan_iff less_trans)
  then show ?thesis
    by (simp add: robin_probe_def comp_def distinct_map)
qed

lemma probe_finds:
  assumes ro: "robin n H T" and H: "\<And>q. H q < n" and v: "spare n T" and i: "i < n" "T i = Some p"
  shows "(i, p) \<in> set (robin_probe n T (H p))"
proof -
  let ?d = "dist n (H p) i"
  have "?d < gap n T (H p)"
    using robin_path [OF ro i H, of "gap n T (H p)"] gap_at [OF v H, of p] by (meson not_le)
  moreover have "(H p + ?d) mod n = i"
    by (rule add_dist [OF H i(1)])
  ultimately show ?thesis
    using i(2) by (force simp: robin_probe_def)
qed

text \<open>What a probe from a home meets with a property that determines the home is exactly what the cycle holds.\<close>

lemma probe_exact:
  assumes ro: "robin n H T" and H: "\<And>q. H q < n" and v: "spare n T"
    and P: "\<And>p. P p \<Longrightarrow> H p = b" and b: "b < n"
  shows "mset (filter P (map snd (robin_probe n T b))) = filter_mset P (records n T)"
proof -
  have set_eq: "{i. i < n \<and> (\<exists>p. T i = Some p \<and> P p)} = fst ` set (filter (\<lambda>(i, p). P p) (robin_probe n T b))" (is "?A = ?B")
  proof
    show "?A \<subseteq> ?B"
    proof
      fix i
      assume "i \<in> ?A"
      then obtain p where p: "i < n" "T i = Some p" "P p"
        by auto
      then have "(i, p) \<in> set (filter (\<lambda>(i, p). P p) (robin_probe n T b))"
        using probe_finds [OF ro H v p(1,2)] P by simp
      then show "i \<in> ?B"
        by force
    qed
    show "?B \<subseteq> ?A"
      using probe_member [where T = T, OF b] by fastforce
  qed
  have "the (T (fst x)) = snd x" if "x \<in> set (robin_probe n T b)" for x
    using probe_member [where T = T, OF b, of "fst x" "snd x"] that by simp
  then have "map (\<lambda>i. the (T i)) (map fst (filter (\<lambda>(i, p). P p) (robin_probe n T b))) = map snd (filter (\<lambda>(i, p). P p) (robin_probe n T b))"
    by simp
  also have "\<dots> = filter P (map snd (robin_probe n T b))"
    by (simp add: filter_map comp_def case_prod_unfold)
  finally have "filter P (map snd (robin_probe n T b)) = map (\<lambda>i. the (T i)) (map fst (filter (\<lambda>(i, p). P p) (robin_probe n T b)))" ..
  moreover have "distinct (map fst (filter (\<lambda>(i, p). P p) (robin_probe n T b)))"
    using probe_distinct [OF v b] by (rule distinct_map_filter)
  then have "mset (map fst (filter (\<lambda>(i, p). P p) (robin_probe n T b))) = mset_set ?A"
    unfolding set_eq by (subst mset_set_set [symmetric]) simp_all
  ultimately have "mset (filter P (map snd (robin_probe n T b))) = image_mset (\<lambda>i. the (T i)) (mset_set ?A)"
    by (simp only: mset_map)
  moreover have "filter_mset P (records n T) = image_mset (\<lambda>i. the (T i)) (filter_mset (\<lambda>i. P (the (T i))) (mset_set {i. i < n \<and> T i \<noteq> None}))"
    by (simp add: records_def filter_mset_image_mset)
  moreover have "filter_mset (\<lambda>i. P (the (T i))) (mset_set {i. i < n \<and> T i \<noteq> None}) = mset_set ?A"
    by (subst filter_mset_mset_set) (auto intro!: arg_cong [where f = mset_set])
  ultimately show ?thesis
    by simp
qed

end
