(* ===== verification/O3_Compact_Proofs.thy ===== *)
theory O3_Compact_Proofs
  imports O3_Compact_Bytes O3_Compact_Robin
begin

unbundle bit_operations_syntax

text \<open>
  What the bytes of a compact directory hold: the controls, their mirror and the payloads are those of
  a cycle of buckets in Robin Hood order. Every loop of the directory returns and does to that cycle
  what its name says.
\<close>

section \<open>Extents\<close>

abbreviation nb :: "compact_layout \<Rightarrow> nat" where "nb l \<equiv> unat (cy_buckets l)"
abbreviation ns :: "compact_layout \<Rightarrow> nat" where "ns l \<equiv> unat (cy_start l)"
abbreviation nw :: "compact_layout \<Rightarrow> nat" where "nw l \<equiv> unat (width_len (width_new (cy_domain l)))"
abbreviation np :: "compact_layout \<Rightarrow> nat" where "np l \<equiv> ns l + nb l + 32"

definition layout_fits :: "compact_layout \<Rightarrow> bool" where
  "layout_fits l \<longleftrightarrow> extent_ok (ucast (cy_buckets l)) \<and> 32 \<le> nb l \<and> cy_domain l \<noteq> 0 \<and> cy_domain l < cy_buckets l"

lemma unat_wide [simp]: "unat (ucast (x :: u32) :: usize) = unat x"
  by (rule unat_ucast_widen) simp

lemma nw_cases: "nw l = 1 \<or> nw l = 2 \<or> nw l = 4"
  by (cases "width_new (cy_domain l)") simp_all

lemma nw_bounds: "0 < nw l" "nw l \<le> 4"
  using nw_cases [of l] by auto

lemma width_holds:
  assumes "p < cy_domain l"
  shows "unat p < 256 ^ nw l"
proof -
  have p: "unat p \<le> unat (cy_domain l - 1)"
  proof -
    have "cy_domain l \<noteq> 0"
      using assms by auto
    then show ?thesis
      using assms unat_pred [of "cy_domain l"] by (auto simp: word_less_nat_alt)
  qed
  consider "cy_domain l - 1 \<le> 0xff" | "\<not> cy_domain l - 1 \<le> 0xff" "cy_domain l - 1 \<le> 0xffff"
    | "\<not> cy_domain l - 1 \<le> 0xff" "\<not> cy_domain l - 1 \<le> 0xffff"
    by blast
  then show ?thesis
    using p unat_bound [of p] by cases (simp_all add: width_new_def word_le_nat_alt)
qed

lemma fits_bounds:
  assumes "layout_fits l"
  shows "32 \<le> nb l" "nb l \<le> 2 ^ 31" "0 < nb l" "1 < nb l" "unat (cy_domain l) < nb l" "ns l < 2 ^ 32"
  using assms extent_bounds(2) [of "ucast (cy_buckets l)"] unat_bound [of "cy_start l"]
  by (auto simp: layout_fits_def word_less_nat_alt)

lemma plane_unat:
  assumes "layout_fits l"
  shows "unat (compact_control_len l) = nb l + 32" "unat (compact_plane l) = np l"
proof -
  note b = fits_bounds [OF assms]
  show control: "unat (compact_control_len l) = nb l + 32"
    using b by (simp add: compact_control_len_def compact_WIDTH_def unat_word_ariths)
  then show "unat (compact_plane l) = np l"
    using b by (simp add: compact_plane_def unat_word_ariths)
qed

lemma slot_unat:
  assumes "layout_fits l" "i \<le> nb l"
  shows "unat (compact_plane l + of_nat i * width_len (width_new (cy_domain l))) = np l + i * nw l"
    "unat (of_nat i * width_len (width_new (cy_domain l)) :: usize) = i * nw l"
proof -
  note b = fits_bounds [OF assms(1)]
  have i: "unat (of_nat i :: usize) = i"
    using assms(2) b by (intro unat_index) linarith
  have "i * nw l \<le> 2 ^ 31 * 4"
    using assms(2) b nw_bounds(2) [of l] by (intro mult_le_mono) linarith+
  then have "i * nw l < 2 ^ 34"
    by simp
  then show m: "unat (of_nat i * width_len (width_new (cy_domain l)) :: usize) = i * nw l"
    by (simp add: unat_word_ariths i)
  show "unat (compact_plane l + of_nat i * width_len (width_new (cy_domain l))) = np l + i * nw l"
    using b plane_unat(2) [OF assms(1)] m \<open>i * nw l < 2 ^ 34\<close> by (simp add: unat_word_ariths)
qed

lemma end_unat:
  assumes "layout_fits l"
  shows "unat (compact_end l) = np l + nb l * nw l"
proof -
  have "(of_nat (nb l) :: usize) = ucast (cy_buckets l)"
    using fits_bounds(2) [OF assms] by (simp add: word_unat_eq_iff)
  then show ?thesis
    using slot_unat(1) [OF assms, of "nb l"] fits_bounds(3) [OF assms] by (auto simp: compact_end_def)
qed

section \<open>What the bytes hold\<close>

definition ctl :: "'i compact_owner \<Rightarrow> u32 option \<Rightarrow> u8" where
  "ctl q e = (case e of None \<Rightarrow> compact_EMPTY | Some p \<Rightarrow> control_tag (cw_hash q p))"

definition holds :: "'i compact_owner \<Rightarrow> members \<Rightarrow> bool" where
  "holds q T \<longleftrightarrow> (let l = cw_layout q; bytes = cw_bytes q in
     layout_fits l \<and> np l + nb l * nw l \<le> length bytes \<and>
     (\<forall>i<nb l. bytes ! (ns l + i) = ctl q (T i)) \<and> (\<forall>i<32. bytes ! (ns l + nb l + i) = ctl q (T i)) \<and>
     (\<forall>i<nb l. \<forall>p. T i = Some p \<longrightarrow> p < cy_domain l \<and> (\<forall>k<nw l. bytes ! (np l + i * nw l + k) = ucast (drop_bit (8 * k) p))))"

lemma holdsD:
  assumes "holds q T"
  shows "layout_fits (cw_layout q)" "np (cw_layout q) + nb (cw_layout q) * nw (cw_layout q) \<le> length (cw_bytes q)"
    "i < nb (cw_layout q) \<Longrightarrow> cw_bytes q ! (ns (cw_layout q) + i) = ctl q (T i)"
    "i < 32 \<Longrightarrow> cw_bytes q ! (ns (cw_layout q) + nb (cw_layout q) + i) = ctl q (T i)"
    "i < nb (cw_layout q) \<Longrightarrow> T i = Some p \<Longrightarrow> p < cy_domain (cw_layout q)"
    "i < nb (cw_layout q) \<Longrightarrow> T i = Some p \<Longrightarrow> k < nw (cw_layout q) \<Longrightarrow>
      cw_bytes q ! (np (cw_layout q) + i * nw (cw_layout q) + k) = ucast (drop_bit (8 * k) p)"
  using assms by (auto simp: holds_def Let_def)

definition same_owner :: "'i compact_owner \<Rightarrow> 'i compact_owner \<Rightarrow> bool" where
  "same_owner q q' \<longleftrightarrow> cw_layout q' = cw_layout q \<and> cw_hash q' = cw_hash q \<and> cw_get q' = cw_get q \<and>
    length (cw_bytes q') = length (cw_bytes q)"

lemma same_owner_refl [simp]: "same_owner q q"
  by (simp add: same_owner_def)

lemma same_owner_trans: "same_owner q q' \<Longrightarrow> same_owner q' q'' \<Longrightarrow> same_owner q q''"
  by (simp add: same_owner_def)

lemma tag_not_empty: "control_tag h \<noteq> compact_EMPTY"
proof -
  have "\<not> bit (control_tag h) 7"
    using bit_imp_le_length [of h 64] by (auto simp: control_tag_def bit_simps)
  moreover have "bit compact_EMPTY 7"
    by (simp add: compact_EMPTY_def bit_push_bit_iff)
  ultimately show ?thesis
    by metis
qed

lemma ctl_owner: "cw_hash q' = cw_hash q \<Longrightarrow> ctl q' e = ctl q e"
  by (simp add: ctl_def split: option.splits)

lemma ctl_empty: "ctl q e = compact_EMPTY \<longleftrightarrow> e = None"
  by (cases e) (simp_all add: ctl_def tag_not_empty)

lemma control_ctl: "control_occupied (ctl q e) = map_option (\<lambda>p. control_tag (cw_hash q p)) e"
  by (cases e) (simp_all add: ctl_def control_occupied_def tag_not_empty)

lemma bucket_unat: "layout_fits l \<Longrightarrow> i < nb l \<Longrightarrow> unat (of_nat i :: usize) = i"
  using fits_bounds(2) [of l] by (intro unat_index) linarith

lemma control_unat:
  assumes "layout_fits l" "i < nb l"
  shows "unat ((ucast (cy_start l) :: usize) + of_nat i) = ns l + i"
    "unat ((ucast (cy_start l) :: usize) + of_nat i + ucast (cy_buckets l)) = ns l + nb l + i"
  using fits_bounds [OF assms(1)] bucket_unat [OF assms] assms(2) by (simp_all add: unat_word_ariths)

lemma store_control_at: "holds q T \<Longrightarrow> i < nb (cw_layout q) \<Longrightarrow> store_control q (of_nat i) = ctl q (T i)"
  using holdsD(3) [of q T i] control_unat(1) [OF holdsD(1), of q T i] by (simp add: store_control_def)

lemma payload_bytes:
  assumes h: "holds q T" and i: "i < nb (cw_layout q)" "T i = Some p"
  shows "take (nw (cw_layout q)) (drop (np (cw_layout q) + i * nw (cw_layout q)) (cw_bytes q)) = to_le (nw (cw_layout q)) p"
proof -
  let ?l = "cw_layout q"
  have "i * nw ?l + nw ?l \<le> nb ?l * nw ?l"
    using i(1) by (metis Suc_leI add.commute mult_Suc mult_le_mono1)
  then have len: "np ?l + i * nw ?l + nw ?l \<le> length (cw_bytes q)"
    using holdsD(2) [OF h] by linarith
  show ?thesis
    using len holdsD(6) [OF h i] by (intro nth_equalityI) (simp_all add: to_le_def)
qed

lemma store_read_at:
  assumes h: "holds q T" and i: "i < nb (cw_layout q)" "T i = Some p"
  shows "store_read q (of_nat i) = p"
proof -
  have "unat p < 256 ^ nw (cw_layout q)"
    using holdsD(5) [OF h i] by (rule width_holds)
  then show ?thesis
    using payload_bytes [OF assms] slot_unat(1) [OF holdsD(1) [OF h], of i] i(1)
    by (simp add: store_read_def Let_def le_to_le)
qed

section \<open>Writing a bucket\<close>

lemma mark_same: "same_owner q (store_mark q b v)"
  by (simp add: same_owner_def store_mark_def Let_def)

lemma mark_nth:
  assumes "holds q T" "i < nb (cw_layout q)"
  shows "cw_bytes (store_mark q (of_nat i) v) ! j =
    (if j = ns (cw_layout q) + i \<or> i < 32 \<and> j = ns (cw_layout q) + nb (cw_layout q) + i then v else cw_bytes q ! j)"
proof -
  note l = holdsD(1) [OF assms(1)]
  have len: "ns (cw_layout q) + i < length (cw_bytes q)" "i < 32 \<Longrightarrow> ns (cw_layout q) + nb (cw_layout q) + i < length (cw_bytes q)"
    using holdsD(2) [OF assms(1)] assms(2) by linarith+
  have "(of_nat i :: usize) < 32 \<longleftrightarrow> i < 32"
    using bucket_unat [OF l assms(2)] by (simp add: word_less_nat_alt)
  then show ?thesis
    using control_unat [OF l assms(2)] len
    by (auto simp: store_mark_def Let_def compact_buckets_def nth_list_update)
qed

lemma write_nth:
  assumes "unat start + length new \<le> length bytes"
  shows "length (write_bytes start new bytes) = length bytes"
    "write_bytes start new bytes ! j = (if unat start \<le> j \<and> j < unat start + length new then new ! (j - unat start) else bytes ! j)"
proof -
  show "length (write_bytes start new bytes) = length bytes"
    using assms by (simp add: write_bytes_def)
  consider "j < unat start" | "unat start \<le> j" "j < unat start + length new" | "unat start + length new \<le> j"
    by linarith
  then show "write_bytes start new bytes ! j =
      (if unat start \<le> j \<and> j < unat start + length new then new ! (j - unat start) else bytes ! j)"
  proof cases
    case 2
    then have "j - unat start < length new"
      by linarith
    then show ?thesis
      using assms 2 by (simp add: write_bytes_def nth_append)
  next
    case 3
    then have "\<not> j - unat start < length new"
      by linarith
    then show ?thesis
      using assms 3 by (simp add: write_bytes_def nth_append)
  qed (use assms in \<open>simp_all add: write_bytes_def nth_append\<close>)
qed

lemma cell_index:
  fixes w :: nat
  assumes "k < w" "i * w \<le> j * w + k" "j * w + k < i * w + w"
  shows "j = i"
proof -
  have "(j * w + k) div w = i"
    using assms(2,3) by (intro div_nat_eqI) (simp_all add: mult.commute)
  moreover have "(j * w + k) div w = j"
    using assms(1) by simp
  ultimately show ?thesis
    by simp
qed

lemma mark_holds:
  assumes h: "holds q T" and i: "i < nb (cw_layout q)"
  shows "holds (store_mark q (of_nat i) compact_EMPTY) (T(i := None))"
proof -
  note same = mark_same [of q "of_nat i" compact_EMPTY, unfolded same_owner_def]
  note l = fits_bounds [OF holdsD(1) [OF h]]
  show ?thesis
    using same holdsD [OF h] l i
    by (auto simp: holds_def Let_def mark_nth [OF h i] ctl_def nw_bounds add.assoc split: option.splits)
qed

lemma write_holds:
  assumes h: "holds q T" and i: "i < nb (cw_layout q)" and p: "p < cy_domain (cw_layout q)"
  shows "holds (store_write q (of_nat i) (control_tag (cw_hash q p)) p) (T(i := Some p))"
    "same_owner q (store_write q (of_nat i) (control_tag (cw_hash q p)) p)"
proof -
  let ?l = "cw_layout q" and ?m = "store_mark q (of_nat i) (control_tag (cw_hash q p))"
  let ?w = "store_write q (of_nat i) (control_tag (cw_hash q p)) p"
  let ?cell = "np ?l + i * nw ?l"
  note l = holdsD(1) [OF h]
  have same: "cw_layout ?m = ?l" "cw_hash ?m = cw_hash q" "cw_get ?m = cw_get q" "length (cw_bytes ?m) = length (cw_bytes q)"
    using mark_same [of q "of_nat i" "control_tag (cw_hash q p)"] by (simp_all add: same_owner_def)
  have start: "unat (compact_plane ?l + of_nat i * width_len (width_new (cy_domain ?l))) = ?cell"
    using slot_unat(1) [OF l, of i] i by simp
  have "i * nw ?l + nw ?l \<le> nb ?l * nw ?l"
    using i by (metis Suc_leI add.commute mult_Suc mult_le_mono1)
  then have room: "?cell + nw ?l \<le> length (cw_bytes q)"
    using holdsD(2) [OF h] by linarith
  have bytes: "cw_bytes ?w = write_bytes (compact_plane ?l + of_nat i * width_len (width_new (cy_domain ?l))) (to_le (nw ?l) p) (cw_bytes ?m)"
    by (simp add: store_write_def Let_def same)
  have len: "length (to_le (nw ?l) p) = nw ?l"
    by (simp add: to_le_def)
  let ?start = "compact_plane ?l + of_nat i * width_len (width_new (cy_domain ?l))"
  have "unat ?start + length (to_le (nw ?l) p) \<le> length (cw_bytes ?m)"
    using room start len same by simp
  note written = write_nth [OF this]
  have nth: "cw_bytes ?w ! j = (if ?cell \<le> j \<and> j < ?cell + nw ?l then ucast (drop_bit (8 * (j - ?cell)) p) else cw_bytes ?m ! j)"
    and length: "length (cw_bytes ?w) = length (cw_bytes q)" for j
    using written(1) written(2) [of j] start len same by (auto simp: bytes to_le_def)
  have rest: "cw_layout ?w = ?l" "cw_hash ?w = cw_hash q" "cw_get ?w = cw_get q"
    by (simp_all add: store_write_def Let_def same)
  then show "same_owner q ?w"
    by (simp add: same_owner_def length)
  have control: "cw_bytes ?w ! j = cw_bytes ?m ! j" if "j < np ?l" for j
    using that nth [of j] by simp
  have plane: "cw_bytes ?w ! (np ?l + j * nw ?l + k) =
      (if j = i then ucast (drop_bit (8 * k) p) else cw_bytes q ! (np ?l + j * nw ?l + k))"
    if "k < nw ?l" for j k
  proof (cases "j = i")
    case True
    then show ?thesis
      using nth [of "np ?l + j * nw ?l + k"] that by simp
  next
    case False
    then have "\<not> (i * nw ?l \<le> j * nw ?l + k \<and> j * nw ?l + k < i * nw ?l + nw ?l)"
      using cell_index [OF that] by blast
    then have "cw_bytes ?w ! (np ?l + j * nw ?l + k) = cw_bytes ?m ! (np ?l + j * nw ?l + k)"
      using nth [of "np ?l + j * nw ?l + k"] by auto
    then show ?thesis
      using False i mark_nth [OF h i, of _ "np ?l + j * nw ?l + k"] by auto
  qed
  have first: "cw_bytes ?w ! (ns ?l + j) = ctl ?w ((T(i := Some p)) j)" if "j < nb ?l" for j
    using that i holdsD(3) [OF h that] control [of "ns ?l + j"] mark_nth [OF h i, of _ "ns ?l + j"] ctl_owner [OF rest(2)]
    by (auto simp: ctl_def [of q "Some p"])
  have mirror: "cw_bytes ?w ! (ns ?l + nb ?l + j) = ctl ?w ((T(i := Some p)) j)" if "j < 32" for j
    using that i holdsD(4) [OF h that] control [of "ns ?l + nb ?l + j"] mark_nth [OF h i, of _ "ns ?l + nb ?l + j"] ctl_owner [OF rest(2)]
    by (auto simp: ctl_def [of q "Some p"])
  show "holds ?w (T(i := Some p))"
    using first mirror plane p holdsD(1,2,5,6) [OF h] unfolding holds_def Let_def rest length by auto
qed

section \<open>Buckets as words\<close>

abbreviation hm :: "'i compact_owner \<Rightarrow> u32 \<Rightarrow> nat" where
  "hm q p \<equiv> home (nb (cw_layout q)) (cw_hash q p)"

lemma buckets_ok: "holds q T \<Longrightarrow> extent_ok (compact_buckets q)" "unat (compact_buckets q) = nb (cw_layout q)"
  using holdsD(1) [of q T] by (simp_all add: compact_buckets_def layout_fits_def)

lemma hm_less: "holds q T \<Longrightarrow> hm q p < nb (cw_layout q)"
  using fits_bounds(3) [OF holdsD(1), of q T] by (simp add: home_less)

lemma bucket_home:
  assumes "holds q T"
  shows "store_bucket q h = of_nat (home (nb (cw_layout q)) h)"
proof -
  note l = holdsD(1) [OF assms]
  have "unat (store_bucket q h) = home (nb (cw_layout q)) h"
    using unat_and_extent [OF buckets_ok(1) [OF assms], of h] by (simp add: store_bucket_def home_def buckets_ok(2))
  moreover have "unat (of_nat (home (nb (cw_layout q)) h) :: usize) = home (nb (cw_layout q)) h"
    using l by (rule bucket_unat) (simp add: home_less fits_bounds(3) [OF l])
  ultimately show ?thesis
    by (simp add: word_unat_eq_iff)
qed

lemma bucket_next:
  assumes "holds q T" "i < nb (cw_layout q)"
  shows "store_bucket q (of_nat i + 1) = of_nat ((i + 1) mod nb (cw_layout q))"
  using and_extent_step [OF buckets_ok(1) [OF assms(1)], of i] assms(2) by (simp add: store_bucket_def buckets_ok(2))

lemma bucket_id:
  assumes "holds q T" "i < nb (cw_layout q)"
  shows "store_bucket q (of_nat i) = of_nat i"
  using bucket_home [OF assms(1), of "of_nat i"] bucket_unat [OF holdsD(1) [OF assms(1)] assms(2)] assms(2) by (simp add: home_def)

lemma bucket_dist:
  assumes "holds q T" "a < nb (cw_layout q)" "b < nb (cw_layout q)"
  shows "unat ((of_nat b - of_nat a) AND (compact_buckets q - 1)) = dist (nb (cw_layout q)) a b"
  using unat_and_sub [OF buckets_ok(1) [OF assms(1)], of "of_nat a" "of_nat b"] assms(2,3)
    bucket_unat [OF holdsD(1) [OF assms(1)]] by (simp add: buckets_ok(2))

lemma bucket_eq:
  assumes "holds q T" "a < nb (cw_layout q)" "b < nb (cw_layout q)"
  shows "(of_nat a :: usize) = of_nat b \<longleftrightarrow> a = b"
  using bucket_unat [OF holdsD(1) [OF assms(1)]] assms(2,3) by metis

lemma same_hm: "same_owner q q' \<Longrightarrow> hm q' = hm q"
  by (simp add: same_owner_def)

section \<open>Insertion\<close>

definition dir_ok :: "'i compact_owner \<Rightarrow> members \<Rightarrow> bool" where
  "dir_ok q T \<longleftrightarrow> holds q T \<and> robin (nb (cw_layout q)) (hm q) T"

lemma dir_okD: "dir_ok q T \<Longrightarrow> holds q T" "dir_ok q T \<Longrightarrow> robin (nb (cw_layout q)) (hm q) T"
  by (simp_all add: dir_ok_def)

lemma insert_from_at:
  assumes "dir_ok q T" "b < nb (cw_layout q)" "p < cy_domain (cw_layout q)" "v < nb (cw_layout q)" "T v = None"
    "\<And>a. a < nb (cw_layout q) \<Longrightarrow> (a + 1) mod nb (cw_layout q) = b \<Longrightarrow>
      dist (nb (cw_layout q)) (hm q p) b \<le> bound_at (nb (cw_layout q)) (hm q) T a"
  shows "\<exists>q' T'. compact_insert_from q (of_nat b) (of_nat (hm q p)) (control_tag (cw_hash q p)) p = Some q' \<and>
    dir_ok q' T' \<and> same_owner q q' \<and> records (nb (cw_layout q)) T' = add_mset p (records (nb (cw_layout q)) T)"
  using assms
proof (induction "dist (nb (cw_layout q)) b v" arbitrary: q T b p rule: less_induct)
  case less
  let ?n = "nb (cw_layout q)" and ?H = "hm q" and ?next = "(b + 1) mod nb (cw_layout q)"
  note h = dir_okD(1) [OF less.prems(1)] and ro = dir_okD(2) [OF less.prems(1)]
  note n = fits_bounds [OF holdsD(1) [OF h]]
  have control: "control_occupied (store_control q (of_nat b)) = map_option (\<lambda>r. control_tag (cw_hash q r)) (T b)"
    using store_control_at [OF h less.prems(2)] control_ctl by metis
  let ?w = "store_write q (of_nat b) (control_tag (cw_hash q p)) p"
  note w = write_holds [OF h less.prems(2,3)]
  have layout: "cw_layout ?w = cw_layout q" "cw_hash ?w = cw_hash q"
    using w(2) by (simp_all add: same_owner_def)
  show ?case
  proof (cases "T b")
    case None
    have "robin ?n ?H (T(b := Some p))"
      using less.prems(6) None by (intro robin_put [OF ro n(4) less.prems(2)]) (auto simp: bound_at_def)
    then have "dir_ok ?w (T(b := Some p))"
      using w(1) layout by (simp add: dir_ok_def)
    moreover have "compact_insert_from q (of_nat b) (of_nat (?H p)) (control_tag (cw_hash q p)) p = Some ?w"
      using control None by (subst compact_insert_from.simps) simp
    ultimately show ?thesis
      using w(2) records_put [OF less.prems(2), of T p] None by auto
  next
    case (Some r)
    have bv: "b \<noteq> v"
      using Some less.prems(5) by auto
    have next_lt: "?next < ?n"
      using n(3) by simp
    have closer: "dist ?n ?next v < dist ?n b v"
      using dist_step [OF less.prems(2,4) bv] dist_zero [OF less.prems(2,4)] bv by linarith
    have read: "store_read q (of_nat b) = r"
      by (rule store_read_at [OF h less.prems(2) Some])
    have swap: "(of_nat b - of_nat (?H r)) AND (compact_buckets q - 1) < (of_nat b - of_nat (?H p)) AND (compact_buckets q - 1)
      \<longleftrightarrow> dist ?n (?H r) b < dist ?n (?H p) b"
      using bucket_dist [OF h hm_less [OF h] less.prems(2)] by (simp add: word_less_nat_alt)
    have step: "compact_insert_from q (of_nat b) (of_nat (?H p)) (control_tag (cw_hash q p)) p =
      (if dist ?n (?H r) b < dist ?n (?H p) b
       then compact_insert_from ?w (of_nat ?next) (of_nat (?H r)) (control_tag (cw_hash q r)) r
       else compact_insert_from q (of_nat ?next) (of_nat (?H p)) (control_tag (cw_hash q p)) p)"
      using control Some swap bucket_home [OF h] bucket_next [OF h less.prems(2)] bucket_next [OF w(1), of b] less.prems(2) layout
      by (subst compact_insert_from.simps) (simp add: read Let_def)
    show ?thesis
    proof (cases "dist ?n (?H r) b < dist ?n (?H p) b")
      case True
      let ?T = "T(b := Some p)"
      have "robin ?n ?H ?T"
        using less.prems(6) Some True by (intro robin_put [OF ro n(4) less.prems(2)]) (auto simp: bound_at_def)
      then have ok: "dir_ok ?w ?T"
        using w(1) layout by (simp add: dir_ok_def)
      have r: "r < cy_domain (cw_layout ?w)"
        using holdsD(5) [OF h less.prems(2) Some] layout by simp
      have carry: "dist ?n (?H r) ?next \<le> bound_at ?n ?H ?T a" if "a < ?n" "(a + 1) mod ?n = ?next" for a
      proof -
        have "a = b"
          using that less.prems(2) step_inj by blast
        then show ?thesis
          using dist_Suc_le [OF hm_less [OF h] less.prems(2), of r] True by (simp add: bound_at_def)
      qed
      obtain q' T' where q': "compact_insert_from ?w (of_nat ?next) (of_nat (?H r)) (control_tag (cw_hash q r)) r = Some q'"
        "dir_ok q' T'" "same_owner ?w q'" "records ?n T' = add_mset r (records ?n ?T)"
        using less.hyps [of ?w ?next ?T r] closer ok next_lt r less.prems(4,5) bv carry layout by auto
      have "records ?n T' = add_mset p (records ?n T)"
        using q'(4) records_put [OF less.prems(2), of T p] Some by simp
      then show ?thesis
        using step True q' same_owner_trans [OF w(2) q'(3)] by auto
    next
      case False
      have carry: "dist ?n (?H p) ?next \<le> bound_at ?n ?H T a" if "a < ?n" "(a + 1) mod ?n = ?next" for a
      proof -
        have "a = b"
          using that less.prems(2) step_inj by blast
        then show ?thesis
          using dist_Suc_le [OF hm_less [OF h] less.prems(2), of p] False Some by (simp add: bound_at_def)
      qed
      show ?thesis
        using less.hyps [OF _ less.prems(1) next_lt less.prems(3,4,5) carry] closer step False by simp
    qed
  qed
qed

lemma insert_at:
  assumes ok: "dir_ok q T" and p: "p < cy_domain (cw_layout q)" and v: "spare (nb (cw_layout q)) T"
  shows "\<exists>q' T'. compact_insert q p = Some q' \<and> dir_ok q' T' \<and> same_owner q q' \<and>
    records (nb (cw_layout q)) T' = add_mset p (records (nb (cw_layout q)) T)"
proof -
  note h = dir_okD(1) [OF ok]
  obtain v where "v < nb (cw_layout q)" "T v = None"
    using v by (rule spareE)
  then show ?thesis
    using insert_from_at [OF ok hm_less [OF h] p, of v p] dist_zero [OF hm_less [OF h] hm_less [OF h], of p p]
    by (simp add: compact_insert_def Let_def bucket_home [OF h])
qed

section \<open>Removal\<close>

lemma erase_step:
  assumes h: "holds q T" and g: "g < nb (cw_layout q)" and j: "j < nb (cw_layout q)" "T j = Some r"
  shows "compact_erase q (of_nat g) (of_nat j) =
    (if j = hm q r then Some (store_mark q (of_nat g) compact_EMPTY)
     else compact_erase (store_write q (of_nat g) (control_tag (cw_hash q r)) r) (of_nat j) (of_nat ((j + 1) mod nb (cw_layout q))))"
proof -
  let ?w = "store_write q (of_nat g) (control_tag (cw_hash q r)) r"
  note w = write_holds [OF h g holdsD(5) [OF h j]]
  have "store_bucket ?w (of_nat j + 1) = of_nat ((j + 1) mod nb (cw_layout q))"
    using bucket_next [OF w(1), of j] j(1) w(2) by (simp add: same_owner_def)
  moreover have "control_occupied (store_control q (of_nat j)) = Some (control_tag (cw_hash q r))"
    using store_control_at [OF h j(1)] control_ctl [of q "T j"] j(2) by simp
  ultimately show ?thesis
    using bucket_eq [OF h j(1) hm_less [OF h, of r]] store_read_at [OF h j]
    by (subst compact_erase.simps) (simp add: Let_def bucket_home [OF h])
qed

lemma erase_at:
  assumes "dir_ok q T" "g < nb (cw_layout q)" "T g = Some x" "v < nb (cw_layout q)" "T v = None"
  shows "\<exists>q' T'. compact_erase q (of_nat g) (of_nat ((g + 1) mod nb (cw_layout q))) = Some q' \<and>
    dir_ok q' T' \<and> same_owner q q' \<and> records (nb (cw_layout q)) T = add_mset x (records (nb (cw_layout q)) T')"
  using assms
proof (induction "dist (nb (cw_layout q)) g v" arbitrary: q T g x rule: less_induct)
  case less
  let ?n = "nb (cw_layout q)" and ?H = "hm q" and ?j = "(g + 1) mod nb (cw_layout q)"
  note h = dir_okD(1) [OF less.prems(1)] and ro = dir_okD(2) [OF less.prems(1)]
  note n = fits_bounds [OF holdsD(1) [OF h]]
  have j: "?j < ?n"
    using n(3) by simp
  have control: "control_occupied (store_control q (of_nat ?j)) = map_option (\<lambda>r. control_tag (cw_hash q r)) (T ?j)"
    using store_control_at [OF h j] control_ctl by metis
  have final: "\<exists>q' T'. Some (store_mark q (of_nat g) compact_EMPTY) = Some q' \<and> dir_ok q' T' \<and> same_owner q q' \<and>
      records ?n T = add_mset x (records ?n T')"
    if "\<And>r. T ?j = Some r \<Longrightarrow> dist ?n (?H r) ?j = 0"
  proof -
    have "robin ?n ?H (T(g := None))"
      using that by (rule robin_drop [OF ro n(4) less.prems(2)])
    moreover have same: "same_owner q (store_mark q (of_nat g) compact_EMPTY)"
      by (rule mark_same)
    ultimately have "dir_ok (store_mark q (of_nat g) compact_EMPTY) (T(g := None))"
      using mark_holds [OF h less.prems(2)] by (simp add: dir_ok_def same_owner_def)
    moreover have "records ?n T = add_mset x (records ?n (T(g := None)))"
      using records_split [OF less.prems(2), of T] less.prems(3) by simp
    ultimately show ?thesis
      using same by blast
  qed
  show ?case
  proof (cases "T ?j")
    case None
    then have "compact_erase q (of_nat g) (of_nat ?j) = Some (store_mark q (of_nat g) compact_EMPTY)"
      using control by (subst compact_erase.simps) simp
    then show ?thesis
      using final None by simp
  next
    case (Some r)
    let ?w = "store_write q (of_nat g) (control_tag (cw_hash q r)) r"
    note w = write_holds [OF h less.prems(2) holdsD(5) [OF h j Some]]
    have layout: "cw_layout ?w = cw_layout q" "cw_hash ?w = cw_hash q"
      using w(2) by (simp_all add: same_owner_def)
    note step = erase_step [OF h less.prems(2) j Some]
    show ?thesis
    proof (cases "?j = ?H r")
      case True
      then show ?thesis
        using final step Some dist_zero [OF hm_less [OF h, of r] j] by simp
    next
      case False
      have jv: "?j \<noteq> v" "g \<noteq> v"
        using Some less.prems(3,5) by auto
      have "robin ?n ?H (T(g := Some r))"
        using False Some by (intro robin_shift [OF ro n(4) less.prems(2) hm_less [OF h] less.prems(3)]) auto
      then have ok: "dir_ok ?w (T(g := Some r))"
        using w(1) layout by (simp add: dir_ok_def)
      have gj: "g \<noteq> ?j"
        using step_other [OF n(4) less.prems(2)] by auto
      have closer: "dist ?n ?j v < dist ?n g v"
        using dist_step [OF less.prems(2,4) jv(2)] dist_zero [OF less.prems(2,4)] jv(2) by linarith
      obtain q' T' where q': "compact_erase ?w (of_nat ?j) (of_nat ((?j + 1) mod ?n)) = Some q'" "dir_ok q' T'" "same_owner ?w q'"
        "records ?n (T(g := Some r)) = add_mset r (records ?n T')"
        using less.hyps [of ?w ?j "T(g := Some r)" r] closer ok j Some gj less.prems(4,5) jv layout by auto
      have "records ?n T = add_mset x (records ?n T')"
        using q'(4) records_put [OF less.prems(2), of T r] less.prems(3) by simp
      then show ?thesis
        using step False q' same_owner_trans [OF w(2) q'(3)] by auto
    qed
  qed
qed

lemma finish_bucket:
  assumes "holds q T" "i < nb (cw_layout q)"
  shows "store_bucket q (ucast (cf_bucket (compact_finish q (of_nat i) p)) - 1) = of_nat i"
proof -
  note l = holdsD(1) [OF assms(1)]
  have "unat (ucast (of_nat i :: usize) :: u32) = i"
    using bucket_unat [OF l assms(2)] assms(2) fits_bounds(2) [OF l] by (simp add: unat_ucast_narrow)
  then have "unat (ucast (of_nat i :: usize) + 1 :: u32) = i + 1"
    using assms(2) fits_bounds(2) [OF l] by (simp add: unat_word_ariths)
  then have "(ucast (ucast (of_nat i :: usize) + 1 :: u32) :: usize) = of_nat (i + 1)"
    by (metis of_nat_unat ucast_id)
  then show ?thesis
    using bucket_id [OF assms] by (simp add: compact_finish_def)
qed

lemma remove_at:
  assumes ok: "dir_ok q T" and i: "i < nb (cw_layout q)" "T i = Some p" and v: "spare (nb (cw_layout q)) T"
  shows "\<exists>q' T'. compact_remove (compact_finish q (of_nat i) p) = Some \<lparr>cr_owner = q', cr_payload = p\<rparr> \<and> dir_ok q' T' \<and>
    same_owner q q' \<and> records (nb (cw_layout q)) T = add_mset p (records (nb (cw_layout q)) T')"
proof -
  note h = dir_okD(1) [OF ok]
  obtain v where "v < nb (cw_layout q)" "T v = None"
    using v by (rule spareE)
  from erase_at [OF ok i this] show ?thesis
    using finish_bucket [OF h i(1), of p] bucket_next [OF h i(1)]
    by (auto simp: compact_remove_def Let_def) (auto simp: compact_finish_def)
qed

section \<open>Lookups by single controls\<close>

lemma find_from_at:
  assumes "dir_ok q T" "b < nb (cw_layout q)" "spare (nb (cw_layout q)) T"
  shows "compact_find_from q hash key (of_nat b) =
    Some (map_option (\<lambda>(i, p). compact_finish q (of_nat i) p)
      (List.find (\<lambda>(i, p). cw_hash q p = hash \<and> cw_get q p = key) (robin_probe (nb (cw_layout q)) T b)))"
  using assms(2)
proof (induction "gap (nb (cw_layout q)) T b" arbitrary: b)
  case 0
  note h = dir_okD(1) [OF assms(1)]
  have "T b = None"
    using gap_at [OF assms(3) 0(2)] 0 by simp
  then show ?case
    using store_control_at [OF h 0(2)] control_ctl [of q "T b"] probe_step(1) [OF assms(3) 0(2)]
    by (subst compact_find_from.simps) simp
next
  case (Suc k)
  note h = dir_okD(1) [OF assms(1)]
  let ?j = "(b + 1) mod nb (cw_layout q)"
  obtain p where p: "T b = Some p"
    using before_gap [of 0 "nb (cw_layout q)" T b] Suc(2,3) by auto
  have "?j < nb (cw_layout q)"
    using Suc.prems by simp
  moreover have "k = gap (nb (cw_layout q)) T ?j"
    using gap_skip [OF assms(3) Suc.prems, of 1] Suc(2) by simp
  ultimately show ?case
    using Suc.hyps(1) [of ?j] store_control_at [OF h Suc.prems] control_ctl [of q "T b"] p
      probe_step(2) [OF assms(3) Suc.prems p] bucket_next [OF h Suc.prems] store_read_at [OF h Suc.prems p]
    by (subst compact_find_from.simps) auto
qed

lemma locate_from_at:
  assumes "dir_ok q T" "b < nb (cw_layout q)" "spare (nb (cw_layout q)) T" "p \<in> snd ` set (robin_probe (nb (cw_layout q)) T b)"
  shows "\<exists>i<nb (cw_layout q). T i = Some p \<and> compact_locate_from q (cw_hash q p) p (of_nat b) = Some (compact_finish q (of_nat i) p)"
  using assms(2,4)
proof (induction "gap (nb (cw_layout q)) T b" arbitrary: b)
  case 0
  then show ?case
    by (auto simp: robin_probe_def)
next
  case (Suc k)
  note h = dir_okD(1) [OF assms(1)]
  let ?j = "(b + 1) mod nb (cw_layout q)"
  obtain r where r: "T b = Some r"
    using before_gap [of 0 "nb (cw_layout q)" T b] Suc(2,3) by auto
  have j: "?j < nb (cw_layout q)"
    using Suc.prems by simp
  have k: "k = gap (nb (cw_layout q)) T ?j"
    using gap_skip [OF assms(3) Suc.prems(1), of 1] Suc(2) by simp
  have read: "store_read q (of_nat b) = r"
    by (rule store_read_at [OF h Suc.prems(1) r])
  have control: "control_matching (store_control q (of_nat b)) (cw_hash q p) \<noteq> None \<longleftrightarrow> control_tag (cw_hash q r) = control_tag (cw_hash q p)"
    using store_control_at [OF h Suc.prems(1)] r by (auto simp: control_matching_def ctl_def)
  show ?case
  proof (cases "r = p")
    case True
    then have "compact_locate_from q (cw_hash q p) p (of_nat b) = Some (compact_finish q (of_nat b) p)"
      using control read by (subst compact_locate_from.simps) simp
    then show ?thesis
      using r True Suc.prems(1) by blast
  next
    case False
    then have "p \<in> snd ` set (robin_probe (nb (cw_layout q)) T ?j)"
      using Suc.prems probe_step(2) [OF assms(3) Suc.prems(1) r] by auto
    moreover have "compact_locate_from q (cw_hash q p) p (of_nat b) = compact_locate_from q (cw_hash q p) p (of_nat ?j)"
      using False read bucket_next [OF h Suc.prems(1)] by (subst compact_locate_from.simps) simp
    ultimately show ?thesis
      using Suc.hyps(1) [OF k j] by simp
  qed
qed

lemma locate_at:
  assumes ok: "dir_ok q T" and v: "spare (nb (cw_layout q)) T" and p: "p \<in># records (nb (cw_layout q)) T"
  shows "\<exists>i<nb (cw_layout q). T i = Some p \<and> compact_locate q p = Some (compact_finish q (of_nat i) p)"
proof -
  note h = dir_okD(1) [OF ok] and ro = dir_okD(2) [OF ok]
  obtain i where "i < nb (cw_layout q)" "T i = Some p"
    using p in_records by blast
  from probe_finds [OF ro hm_less [OF h] v this] show ?thesis
    using locate_from_at [OF ok hm_less [OF h] v, of p p] by (force simp: compact_locate_def Let_def bucket_home [OF h])
qed

end
