(* ===== verification/O3_Compact_Map.thy ===== *)
theory O3_Compact_Map
  imports O3_Compact_Proofs
begin

unbundle bit_operations_syntax

text \<open>
  Lookups of a compact directory by groups of 32 controls, and what the directory promises: it
  indexes a set of records, and every operation does to that set what its name says.
\<close>

section \<open>Reading a payload inside an aligned word\<close>

lemma and_3: "x AND 3 = take_bit 2 x" for x :: "'w::len word"
proof -
  have "(3 :: 'w word) = mask 2"
    by (simp add: mask_eq_exp_minus_1)
  then show ?thesis
    by (simp add: take_bit_eq_mask)
qed

lemma unat_and_3: "unat (x AND 3) = unat x mod 4" for x :: usize
  unfolding and_3 unsigned_take_bit_eq by (simp add: take_bit_eq_mod)

lemma unat_aligned: "unat (x AND NOT 3) = 4 * (unat x div 4)" for x :: usize
proof -
  have "x = (x AND NOT 3) OR (x AND 3)"
    by (auto simp: bit_eq_iff bit_simps)
  also have "\<dots> = (x AND NOT 3) + (x AND 3)"
    by (rule disjunctive_add [symmetric]) (auto simp: bit_simps)
  finally have sub: "x AND NOT 3 = x - (x AND 3)"
    by (simp add: eq_diff_eq)
  note low = unat_and_3 [of x]
  then have "x AND 3 \<le> x"
    by (simp add: word_le_nat_alt)
  then have "unat (x AND NOT 3) = unat x - unat x mod 4"
    unfolding sub by (simp add: unat_sub low)
  then show ?thesis
    by (simp add: minus_mod_eq_mult_div)
qed

lemma aligned_fits:
  assumes "layout_fits l" "i < nb l"
  shows "4 * (i * nw l div 4) + 4 \<le> nb l * nw l" "i * nw l mod 4 + nw l \<le> 4"
proof -
  obtain k where k: "k \<le> 31" "nb l = 2 ^ k"
    using assms(1) extent_okE [of "ucast (cy_buckets l)"] by (auto simp: layout_fits_def)
  have "(2 :: nat) ^ 5 \<le> 2 ^ k"
    using fits_bounds(1) [OF assms(1)] k(2) by simp
  then have "5 \<le> k"
    by (rule power_le_imp_le_exp [rotated]) simp
  then have "(4 :: nat) dvd nb l"
    unfolding k(2) using le_imp_power_dvd [of 2 k 2] by simp
  then have "4 dvd nb l * nw l"
    by simp
  then obtain m where m: "nb l * nw l = 4 * m" ..
  have "i * nw l < 4 * m"
    using assms(2) nw_bounds(1) [of l] unfolding m [symmetric] by simp
  then have "i * nw l div 4 < m"
    by (simp add: less_mult_imp_div_less mult.commute)
  then show "4 * (i * nw l div 4) + 4 \<le> nb l * nw l"
    unfolding m by linarith
  show "i * nw l mod 4 + nw l \<le> 4"
    using nw_cases [of l] by (elim disjE) (simp_all, presburger+)
qed

lemma matches_read_at:
  assumes h: "holds q T" and i: "i < nb (cw_layout q)" "T i = Some p"
  shows "matches_read q (of_nat i) = p"
proof -
  let ?l = "cw_layout q" and ?w = "width_len (width_new (cy_domain (cw_layout q)))"
  define r a where "r = i * nw ?l mod 4" and "a = 4 * (i * nw ?l div 4)"
  note l = holdsD(1) [OF h]
  have ar: "a + r = i * nw ?l" "r < 4"
    by (simp_all add: a_def r_def)
  have fit: "a + 4 \<le> nb ?l * nw ?l" "r + nw ?l \<le> 4"
    using aligned_fits [OF l i(1)] by (simp_all add: a_def r_def)
  have off: "unat (of_nat i * ?w :: usize) = i * nw ?l"
    using slot_unat(2) [OF l, of i] i(1) by simp
  have small: "np ?l + a < 2 ^ 64"
  proof -
    have "nb ?l * nw ?l \<le> 2 ^ 31 * 4"
      using fits_bounds(2) [OF l] nw_bounds(2) [of ?l] by (rule mult_le_mono)
    then show ?thesis
      using fit(1) fits_bounds(2,6) [OF l] by simp
  qed
  have "unat (of_nat i * ?w AND NOT 3 :: usize) = a"
    unfolding unat_aligned off by (simp add: a_def)
  then have start: "unat (compact_plane ?l + (of_nat i * ?w AND NOT 3)) = np ?l + a"
    using small plane_unat(2) [OF l] by (simp add: unat_word_ariths)
  have "unat (of_nat i * ?w AND 3 :: usize) = r"
    unfolding unat_and_3 off r_def ..
  then have shift: "unat ((of_nat i * ?w AND 3) * 8 :: usize) = 8 * r"
    using ar(2) by (simp add: unat_word_ariths)
  have "unat (?w * 8) = 8 * nw ?l"
    using nw_bounds(2) [of ?l] by (simp add: unat_word_ariths)
  then have width: "unat (32 - ?w * 8) = 32 - 8 * nw ?l"
    using nw_bounds(2) [of ?l] by (simp add: unat_sub word_le_nat_alt)
  define bytes where "bytes = take 4 (drop (np ?l + a) (cw_bytes q))"
  have bytes: "length bytes = 4" "\<And>k. k < 4 \<Longrightarrow> bytes ! k = cw_bytes q ! (np ?l + a + k)"
    using holdsD(2) [OF h] fit(1) by (auto simp: bytes_def)
  have "32 - (32 - 8 * nw ?l) = 8 * nw ?l"
    using nw_bounds(2) [of ?l] by simp
  then have "drop_bit (32 - 8 * nw ?l) (- 1 :: u32) = mask (8 * nw ?l)"
    by simp
  then have read: "matches_read q (of_nat i) = drop_bit (8 * r) (le_bytes bytes) AND mask (8 * nw ?l)"
    by (simp only: matches_read_def Let_def start shift width bytes_def)
  have top: "\<not> bit p k" if "8 * nw ?l \<le> k" for k
  proof
    assume "bit p k"
    have "unat p < 2 ^ (8 * nw ?l)"
      using width_holds [OF holdsD(5) [OF h i]] by (simp add: power_mult)
    then have "take_bit (8 * nw ?l) p = p"
      by (simp add: word_unat_eq_iff unsigned_take_bit_eq take_bit_nat_eq_self)
    then show False
      using \<open>bit p k\<close> that by (metis bit_take_bit_iff not_less)
  qed
  show ?thesis
  proof (rule bit_eqI)
    fix k
    show "bit (matches_read q (of_nat i)) k \<longleftrightarrow> bit p k"
    proof (cases "k < 8 * nw ?l")
      case True
      then have k: "k div 8 < nw ?l" "(8 * r + k) div 8 = r + k div 8" "(8 * r + k) mod 8 = k mod 8" "8 * r + k < 32"
        using fit(2) by (auto simp: less_mult_imp_div_less mult.commute)
      have "bytes ! (r + k div 8) = ucast (drop_bit (8 * (k div 8)) p)"
      proof -
        have "r + k div 8 < 4"
          using k(1) fit(2) by linarith
        then have "bytes ! (r + k div 8) = cw_bytes q ! (np ?l + a + (r + k div 8))"
          by (rule bytes(2))
        also have "np ?l + a + (r + k div 8) = np ?l + i * nw ?l + k div 8"
          using ar(1) by linarith
        finally show ?thesis
          using holdsD(6) [OF h i k(1)] by (rule trans)
      qed
      moreover have "bit (le_bytes bytes :: u32) (8 * r + k) \<longleftrightarrow> bit (bytes ! (r + k div 8)) (k mod 8)"
        using k bytes(1) fit(2) by (auto simp: bit_le_bytes)
      ultimately show ?thesis
        using True k(4) unfolding read by (auto simp: bit_and_iff bit_drop_bit_eq bit_unsigned_iff bit_mask_iff dest: bit_imp_le_length)
    next
      case False
      then show ?thesis
        using top unfolding read by (simp add: bit_and_iff bit_mask_iff)
    qed
  qed
qed

section \<open>Groups\<close>

lemma group_bytes:
  assumes h: "holds q T" and s: "s < nb (cw_layout q)"
  defines "bytes \<equiv> take 32 (drop (unat (ucast (cy_start (cw_layout q)) + of_nat s :: usize)) (cw_bytes q))"
  shows "length bytes = 32" "\<And>k. k < 32 \<Longrightarrow> bytes ! k = ctl q (T ((s + k) mod nb (cw_layout q)))"
proof -
  let ?l = "cw_layout q"
  note l = holdsD(1) [OF h]
  note n = fits_bounds [OF l]
  have len: "ns ?l + s + 32 \<le> length (cw_bytes q)"
    using holdsD(2) [OF h] s by linarith
  then show "length bytes = 32"
    by (simp add: bytes_def control_unat(1) [OF l s])
  show "bytes ! k = ctl q (T ((s + k) mod nb ?l))" if k: "k < 32" for k
  proof (cases "s + k < nb ?l")
    case True
    then show ?thesis
      using k len holdsD(3) [OF h True] by (simp add: bytes_def control_unat(1) [OF l s] add.assoc)
  next
    case False
    then have "(s + k) mod nb ?l = s + k - nb ?l" "s + k - nb ?l < 32" "ns ?l + s + k = ns ?l + nb ?l + (s + k - nb ?l)"
      using k s n(1) by (simp_all add: le_mod_geq)
    then show ?thesis
      using k len holdsD(4) [OF h, of "s + k - nb ?l"] by (simp add: bytes_def control_unat(1) [OF l s] add.assoc)
  qed
qed

lemma gap_prefix:
  assumes "spare n T" "s < n"
  shows "(\<forall>j\<le>k. T ((s + j) mod n) \<noteq> None) \<longleftrightarrow> k < gap n T s"
  using gap_at [OF assms] before_gap [of _ n T s] by (meson le_less_trans not_le)

lemma matches_new_at:
  assumes h: "holds q T" and s: "s < nb (cw_layout q)" and v: "spare (nb (cw_layout q)) T"
  shows "gm_start (matches_new q (of_nat s) hash) = of_nat s"
    "gm_done (matches_new q (of_nat s) hash) \<longleftrightarrow> gap (nb (cw_layout q)) T s < 32"
    "bit (gm_bits (matches_new q (of_nat s) hash)) k \<longleftrightarrow> k < 32 \<and> k < gap (nb (cw_layout q)) T s \<and>
      control_tag (cw_hash q (the (T ((s + k) mod nb (cw_layout q))))) = control_tag hash"
proof -
  let ?n = "nb (cw_layout q)"
  note bytes = group_bytes [OF h s]
  define g where "g = group_masks (take 32 (drop (unat (ucast (cy_start (cw_layout q)) + of_nat s :: usize)) (cw_bytes q))) (control_tag hash)"
  have vacant: "bit (fst g) k \<longleftrightarrow> k < 32 \<and> T ((s + k) mod ?n) = None" for k
    using group_masks_bits(1) [OF bytes(1)] bytes(2) by (auto simp: g_def ctl_empty)
  have matched: "bit (snd g) k \<longleftrightarrow> k < 32 \<and> ctl q (T ((s + k) mod ?n)) = control_tag hash" for k
    using group_masks_bits(2) [OF bytes(1)] bytes(2) by (auto simp: g_def)
  have new: "matches_new q (of_nat s) hash =
      \<lparr>gm_start = of_nat s, gm_bits = snd g AND ((fst g - 1) AND NOT (fst g)), gm_done = (fst g \<noteq> 0)\<rparr>"
    by (simp add: matches_new_def Let_def g_def [symmetric] split_beta)
  show "gm_start (matches_new q (of_nat s) hash) = of_nat s"
    by (simp add: new)
  have "fst g \<noteq> 0 \<longleftrightarrow> (\<exists>k<32. T ((s + k) mod ?n) = None)"
    by (auto simp: bit_eq_iff vacant)
  also have "\<dots> \<longleftrightarrow> \<not> 31 < gap ?n T s"
    using gap_prefix [OF v s, of 31] by (auto simp: less_Suc_eq_le numeral_eq_Suc)
  finally show "gm_done (matches_new q (of_nat s) hash) \<longleftrightarrow> gap ?n T s < 32"
    by (auto simp: new)
  have "bit ((fst g - 1) AND NOT (fst g)) k \<longleftrightarrow> k < 32 \<and> k < gap ?n T s"
    using gap_prefix [OF v s, of k] by (auto simp: bit_before_lowest vacant)
  then show "bit (gm_bits (matches_new q (of_nat s) hash)) k \<longleftrightarrow> k < 32 \<and> k < gap ?n T s \<and>
      control_tag (cw_hash q (the (T ((s + k) mod ?n)))) = control_tag hash"
    using before_gap [of k ?n T s] by (auto simp: new bit_and_iff [of "snd g"] matched ctl_def)
qed

section \<open>The matches of a hash\<close>

definition group_list :: "nat \<Rightarrow> members \<Rightarrow> group_matches \<Rightarrow> (nat \<times> u32) list" where
  "group_list n T m = map (\<lambda>k. ((unat (gm_start m) + k) mod n, the (T ((unat (gm_start m) + k) mod n)))) (filter (bit (gm_bits m)) [0..<32])"

definition pending_matches :: "'i compact_owner \<Rightarrow> members \<Rightarrow> u64 \<Rightarrow> group_matches \<Rightarrow> (nat \<times> u32) list" where
  "pending_matches q T hash m = filter (\<lambda>(i, p). cw_hash q p = hash)
     (group_list (nb (cw_layout q)) T m @
      (if gm_done m then [] else robin_probe (nb (cw_layout q)) T ((unat (gm_start m) + 32) mod nb (cw_layout q))))"

definition matches_ok :: "'i compact_owner \<Rightarrow> members \<Rightarrow> group_matches \<Rightarrow> bool" where
  "matches_ok q T m \<longleftrightarrow> unat (gm_start m) < nb (cw_layout q) \<and>
     (\<forall>k. bit (gm_bits m) k \<longrightarrow> T ((unat (gm_start m) + k) mod nb (cw_layout q)) \<noteq> None)"

definition matches_left :: "'i compact_owner \<Rightarrow> members \<Rightarrow> group_matches \<Rightarrow> nat" where
  "matches_left q T m = (if gm_done m then 0 else 64 * Suc (gap (nb (cw_layout q)) T ((unat (gm_start m) + 32) mod nb (cw_layout q)))) +
     length (filter (bit (gm_bits m)) [0..<32])"

lemma pending_new:
  assumes h: "holds q T" and s: "s < nb (cw_layout q)" and v: "spare (nb (cw_layout q)) T"
  shows "matches_ok q T (matches_new q (of_nat s) hash)"
    "pending_matches q T hash (matches_new q (of_nat s) hash) = filter (\<lambda>(i, p). cw_hash q p = hash) (robin_probe (nb (cw_layout q)) T s)"
    "matches_left q T (matches_new q (of_nat s) hash) < 64 * Suc (gap (nb (cw_layout q)) T s)"
proof -
  let ?n = "nb (cw_layout q)" and ?m = "matches_new q (of_nat s) hash" and ?g = "gap (nb (cw_layout q)) T s"
  let ?at = "\<lambda>k. ((s + k) mod nb (cw_layout q), the (T ((s + k) mod nb (cw_layout q))))"
  note new = matches_new_at [OF assms]
  have start: "unat (gm_start ?m) = s"
    using bucket_unat [OF holdsD(1) [OF h] s] new(1) [of hash] by simp
  show "matches_ok q T ?m"
    using s before_gap [of _ ?n T s] by (auto simp: matches_ok_def start new(3))
  have group: "filter (\<lambda>(i, p). cw_hash q p = hash) (group_list ?n T ?m) = filter (\<lambda>(i, p). cw_hash q p = hash) (map ?at [0..<min 32 ?g])"
  proof -
    have "filter (\<lambda>k. cw_hash q (the (T ((s + k) mod ?n))) = hash) (filter (bit (gm_bits ?m)) [0..<32]) =
        filter (\<lambda>k. cw_hash q (the (T ((s + k) mod ?n))) = hash) (filter (\<lambda>k. k < ?g) [0..<32])"
      by (auto simp: new(3) intro!: filter_cong)
    moreover have "filter (\<lambda>k. k < ?g) [0..<32] = [0..<min 32 ?g]"
    proof (cases "?g \<le> 32")
      case True
      then have "[0..<32] = [0..<?g] @ [?g..<32]"
        by (metis le_add_diff_inverse upt_add_eq_append zero_le)
      then show ?thesis
        using True by (simp add: min_def)
    qed (auto simp: min_def)
    ultimately show ?thesis
      by (simp add: group_list_def start filter_map comp_def)
  qed
  show "pending_matches q T hash ?m = filter (\<lambda>(i, p). cw_hash q p = hash) (robin_probe ?n T s)"
  proof (cases "?g < 32")
    case True
    have "robin_probe ?n T ((s + ?g) mod ?n) = []"
      using gap_at [OF v s] s by (intro probe_step(1) [OF v]) auto
    then show ?thesis
      using probe_skip [OF v s, of ?g] group True new(2) [of hash] by (simp add: pending_matches_def)
  next
    case False
    then show ?thesis
      using probe_skip [OF v s, of 32] group new(2) [of hash] by (simp add: pending_matches_def start min_def)
  qed
  have "length (filter (bit (gm_bits ?m)) [0..<32]) \<le> 32"
    using length_filter_le [of "bit (gm_bits ?m)" "[0..<32]"] by simp
  then show "matches_left q T ?m < 64 * Suc ?g"
    using gap_skip [OF v s, of 32] new(2) [of hash] by (auto simp: matches_left_def start)
qed

lemma clear_lowest_list:
  assumes "bits \<noteq> (0 :: u32)"
  shows "filter (bit bits) [0..<32] = trailing_zeros bits # filter (bit (bits AND (bits - 1))) [0..<32]"
proof -
  let ?t = "trailing_zeros bits"
  note low = trailing_zeros_least [OF assms]
  have "?t < 32"
    using bit_imp_le_length [OF low(1)] by simp
  then have split: "[0..<32] = [0..<?t] @ ?t # [Suc ?t..<32]"
    by (metis le_add_diff_inverse less_imp_le upt_add_eq_append upt_conv_Cons zero_le)
  have "filter (bit bits) [0..<?t] = []" "filter (bit (bits AND (bits - 1))) [0..<?t] = []"
    using low(2) by (auto simp: filter_empty_conv bit_clear_lowest [OF assms])
  moreover have "filter (bit (bits AND (bits - 1))) [Suc ?t..<32] = filter (bit bits) [Suc ?t..<32]"
    by (rule filter_cong) (auto simp: bit_clear_lowest [OF assms])
  ultimately show ?thesis
    using low(1) unfolding split by (simp add: bit_clear_lowest [OF assms])
qed

lemma matches_next_group:
  assumes h: "holds q T" and m: "matches_ok q T m" and bits: "gm_bits m \<noteq> 0"
  defines "k \<equiv> trailing_zeros (gm_bits m)" and "rest \<equiv> m\<lparr>gm_bits := gm_bits m AND (gm_bits m - 1)\<rparr>"
  defines "i \<equiv> (unat (gm_start m) + k) mod nb (cw_layout q)"
  shows "matches_next q hash m = (if cw_hash q (the (T i)) = hash then Some (Some (of_nat i, the (T i)), rest) else matches_next q hash rest)"
    "matches_ok q T rest" "matches_left q T rest < matches_left q T m"
    "pending_matches q T hash m = (if cw_hash q (the (T i)) = hash then (i, the (T i)) # pending_matches q T hash rest else pending_matches q T hash rest)"
proof -
  note low = trailing_zeros_least [OF bits]
  note list = clear_lowest_list [OF bits]
  have i: "i < nb (cw_layout q)" "T i \<noteq> None"
    using m low(1) fits_bounds(3) [OF holdsD(1) [OF h]] by (auto simp: i_def k_def matches_ok_def)
  then obtain p where p: "T i = Some p"
    by blast
  have "k < 32"
    using bit_imp_le_length [OF low(1)] by (simp add: k_def)
  then have "unat (gm_start m + of_nat k) = unat (gm_start m) + k"
    using m fits_bounds(2) [OF holdsD(1) [OF h]] by (simp add: matches_ok_def unat_word_ariths)
  then have "store_bucket q (gm_start m + of_nat k) = of_nat i"
    using bucket_home [OF h, of "gm_start m + of_nat k"] by (simp add: home_def i_def)
  then show "matches_next q hash m = (if cw_hash q (the (T i)) = hash then Some (Some (of_nat i, the (T i)), rest) else matches_next q hash rest)"
    using bits matches_read_at [OF h i(1) p] p by (subst matches_next.simps) (simp add: Let_def k_def rest_def)
  show "matches_ok q T rest"
    using m by (auto simp: matches_ok_def rest_def bit_clear_lowest [OF bits])
  show "matches_left q T rest < matches_left q T m"
    using list by (simp add: matches_left_def rest_def)
  have "group_list (nb (cw_layout q)) T m = (i, the (T i)) # group_list (nb (cw_layout q)) T rest"
    using list by (simp add: group_list_def rest_def i_def k_def)
  then show "pending_matches q T hash m = (if cw_hash q (the (T i)) = hash then (i, the (T i)) # pending_matches q T hash rest else pending_matches q T hash rest)"
    by (simp add: pending_matches_def rest_def)
qed

lemma matches_next_at:
  assumes h: "holds q T" and v: "spare (nb (cw_layout q)) T" and m: "matches_ok q T m"
  shows "\<exists>m'. matches_next q hash m =
      Some (case pending_matches q T hash m of [] \<Rightarrow> None | (i, p) # es \<Rightarrow> Some (of_nat i, p), m') \<and>
    matches_ok q T m' \<and> pending_matches q T hash m' = tl (pending_matches q T hash m)"
  using m
proof (induction "matches_left q T m" arbitrary: m rule: less_induct)
  case less
  show ?case
  proof (cases "gm_bits m = 0")
    case False
    note group = matches_next_group [OF h less.prems False]
    show ?thesis
      using group(1,4) [of hash] group(2) less.hyps [OF group(3,2)] by (cases "cw_hash q (the (T ((unat (gm_start m) + trailing_zeros (gm_bits m)) mod nb (cw_layout q)))) = hash") simp_all
  next
    case True
    then have none: "group_list (nb (cw_layout q)) T m = []"
      by (simp add: group_list_def)
    show ?thesis
    proof (cases "gm_done m")
      case fin: True
      then have "pending_matches q T hash m = []"
        using none by (simp add: pending_matches_def)
      then show ?thesis
        using True fin less.prems by (subst matches_next.simps) simp
    next
      case more: False
      define s where "s = (unat (gm_start m) + 32) mod nb (cw_layout q)"
      have s: "s < nb (cw_layout q)"
        using fits_bounds(3) [OF holdsD(1) [OF h]] by (simp add: s_def)
      have "unat (gm_start m + 32) = unat (gm_start m) + 32"
        using less.prems fits_bounds(2) [OF holdsD(1) [OF h]] by (simp add: matches_ok_def unat_word_ariths)
      then have "store_bucket q (gm_start m + 32) = of_nat s"
        using bucket_home [OF h, of "gm_start m + 32"] by (simp add: home_def s_def)
      then have step: "matches_next q hash m = matches_next q hash (matches_new q (of_nat s) hash)"
        using True more by (subst matches_next.simps) simp
      note new = pending_new [OF h s v, of hash]
      have "pending_matches q T hash m = pending_matches q T hash (matches_new q (of_nat s) hash)"
        using more none unfolding new(2) by (simp add: pending_matches_def s_def)
      moreover have "matches_left q T (matches_new q (of_nat s) hash) < matches_left q T m"
        using new(3) more by (simp add: matches_left_def [where m = m] s_def)
      ultimately show ?thesis
        using less.hyps [OF _ new(1)] step by simp
    qed
  qed
qed

lemma scan_from_at:
  assumes h: "holds q T" and v: "spare (nb (cw_layout q)) T" and m: "matches_ok q T m"
  shows "compact_scan_from q hash visit m s = Some (fold (\<lambda>(i, p). visit (cw_get q p)) (pending_matches q T hash m) s)"
  using m
proof (induction "pending_matches q T hash m" arbitrary: m s)
  case Nil
  then show ?case
    using matches_next_at [OF h v Nil.prems, of hash] by (subst compact_scan_from.simps) auto
next
  case (Cons e es)
  obtain i p where e: "e = (i, p)"
    by (cases e)
  obtain m' where m': "matches_next q hash m = Some (Some (of_nat i, p), m')" "matches_ok q T m'" "pending_matches q T hash m' = es"
    using matches_next_at [OF h v Cons.prems, of hash] Cons.hyps(2) [symmetric] e by auto
  then show ?case
    using Cons.hyps(1) [of m' "visit (cw_get q p) s"] Cons.hyps(2) [symmetric] e by (subst compact_scan_from.simps) simp
qed

lemma entry_from_at:
  assumes h: "holds q T" and v: "spare (nb (cw_layout q)) T" and m: "matches_ok q T m"
  shows "compact_entry_from q hash key m =
    Some (map_option (\<lambda>(i, p). (of_nat i, p)) (List.find (\<lambda>(i, p). cw_get q p = key) (pending_matches q T hash m)))"
  using m
proof (induction "pending_matches q T hash m" arbitrary: m)
  case Nil
  then show ?case
    using matches_next_at [OF h v Nil.prems, of hash] by (subst compact_entry_from.simps) auto
next
  case (Cons e es)
  obtain i p where e: "e = (i, p)"
    by (cases e)
  obtain m' where m': "matches_next q hash m = Some (Some (of_nat i, p), m')" "matches_ok q T m'" "pending_matches q T hash m' = es"
    using matches_next_at [OF h v Cons.prems, of hash] Cons.hyps(2) [symmetric] e by auto
  then show ?case
    using Cons.hyps(1) [of m'] Cons.hyps(2) [symmetric] e by (subst compact_entry_from.simps) simp
qed

end
