(* ===== verification/O3_Compact_Spec.thy ===== *)
theory O3_Compact_Spec
  imports O3_Compact_Map
begin

unbundle bit_operations_syntax

text \<open>
  What a compact directory promises: a layout that always leaves a spare bucket, group masks that
  say exactly which controls match, two searches that agree, and the set of indexed records that
  every operation changes as its name says.
\<close>

section \<open>Layouts and fresh directories\<close>

lemma word_div_ceil_7:
  assumes "unat a < 2 ^ 60"
  shows "unat (word_div_ceil a 7) = (unat a + 6) div 7"
proof -
  have "unat (a div 7) = unat a div 7" "unat (a mod 7) = unat a mod 7"
    by (simp_all add: unat_div unat_mod)
  moreover from this have "a mod 7 = 0 \<longleftrightarrow> unat a mod 7 = 0"
    by (metis unat_eq_zero)
  moreover have "unat (a div 7 + 1) = unat a div 7 + 1"
    using assms calculation(1) by (simp add: unat_word_ariths)
  moreover have "(n + 6) div 7 = (if n mod 7 = 0 then n div 7 else n div 7 + 1)" for n :: nat
    by presburger
  ultimately show ?thesis
    by (simp add: word_div_ceil_def)
qed

lemma compact_minimum:
  assumes "unat capacity \<le> 7 * 2 ^ 28"
  defines "least \<equiv> max (word_div_ceil (capacity * 8) 7) compact_WIDTH"
  shows "unat least = max ((unat capacity * 8 + 6) div 7) 32" "1 < least" "unat least \<le> 2 ^ 31"
proof -
  have "unat (capacity * 8) = unat capacity * 8"
    using assms(1) by (simp add: unat_word_ariths)
  then have "unat (word_div_ceil (capacity * 8) 7) = (unat capacity * 8 + 6) div 7"
    using word_div_ceil_7 [of "capacity * 8"] assms(1) by simp
  then show u: "unat least = max ((unat capacity * 8 + 6) div 7) 32"
    by (auto simp: least_def compact_WIDTH_def max_def word_le_nat_alt)
  have "(unat capacity * 8 + 6) div 7 \<le> 2 ^ 31"
    using assms(1) by simp
  then show "1 < least" "unat least \<le> 2 ^ 31"
    using u by (simp_all add: word_less_nat_alt)
qed

lemma compact_try_new_layout:
  assumes "unat capacity \<le> 7 * 2 ^ 28" "capacity \<noteq> 0" "unat start < 2 ^ 32"
  obtains l where "compact_try_new capacity start = Inr (l, compact_end l)" "layout_fits l" "ns l = unat start"
    "unat (cy_domain l) = unat capacity" "8 * unat capacity \<le> 7 * nb l"
    "nb l < 2 * max ((unat capacity * 8 + 6) div 7) 32"
proof -
  define least where "least = max (word_div_ceil (capacity * 8) 7) compact_WIDTH"
  define l where "l = \<lparr>cy_start = ucast start, cy_buckets = ucast (next_power_of_two least), cy_domain = ucast capacity\<rparr>"
  note m = compact_minimum [OF assms(1), folded least_def]
  note p = next_power_of_two_exact [OF m(2,3)]
  have c: "unat (ucast capacity :: u32) = unat capacity"
    using assms(1) by (intro unat_ucast_narrow) simp
  have pos: "0 < unat capacity"
    using assms(2) by (simp add: unat_gt_0)
  have b: "unat (ucast (next_power_of_two least) :: u32) = unat (next_power_of_two least)"
    using extent_bounds(2) [OF p(1)] by (intro unat_ucast_narrow) simp
  then have wide: "(ucast (cy_buckets l) :: usize) = next_power_of_two least"
    by (simp add: l_def word_unat_eq_iff)
  have nb: "nb l = unat (next_power_of_two least)" "unat (cy_domain l) = unat capacity" "ns l = unat start"
    using b c unat_ucast_narrow [of start, where ?'b = 32] assms(3) by (simp_all add: l_def)
  have least: "32 \<le> nb l" "(unat capacity * 8 + 6) div 7 \<le> nb l"
    using p(2) m(1) nb(1) by linarith+
  have fit: "8 * unat capacity \<le> 7 * nb l" "unat capacity < nb l"
    using least pos by linarith+
  have "layout_fits l"
    using p(1) wide least(1) fit(2) nb pos by (auto simp: layout_fits_def word_less_nat_alt)
  moreover have "compact_try_new capacity start = Inr (l, compact_end l)"
  proof -
    have "unat compact_MAX_CAPACITY = 7 * 2 ^ 28"
      by (simp add: compact_MAX_CAPACITY_def push_bit_eq_mult)
    moreover have "unat (ucast (- 1 :: u32) :: usize) = 2 ^ 32 - 1"
      by (simp add: unsigned_minus_1_eq_mask mask_eq_exp_minus_1)
    ultimately have "\<not> compact_MAX_CAPACITY < capacity" "\<not> ucast (- 1 :: u32) < start"
      using assms(1,3) by (auto simp: word_less_nat_alt)
    moreover have "(ucast capacity :: u32) \<noteq> 0"
      using c pos by (metis unat_0 less_not_refl)
    ultimately show ?thesis
      by (simp add: compact_try_new_def Let_def l_def least_def)
  qed
  moreover have "nb l < 2 * max ((unat capacity * 8 + 6) div 7) 32"
    using p(3) m(1) nb(1) by simp
  ultimately show ?thesis
    using that nb fit(1) by blast
qed

lemma init_nth:
  assumes "layout_fits l" "np l \<le> length bytes"
  shows "length (compact_init l bytes) = length bytes"
    "compact_init l bytes ! j = (if ns l \<le> j \<and> j < np l then compact_EMPTY else bytes ! j)"
proof -
  have "cy_buckets l \<noteq> 0"
    using fits_bounds(3) [OF assms(1)] by auto
  then have init: "compact_init l bytes = write_bytes (ucast (cy_start l)) (replicate (nb l + 32) compact_EMPTY) bytes"
    using plane_unat(1) [OF assms(1)] by (simp add: compact_init_def write_bytes_def Let_def)
  have room: "unat (ucast (cy_start l) :: usize) + length (replicate (nb l + 32) compact_EMPTY) \<le> length bytes"
    using assms(2) by simp
  show "length (compact_init l bytes) = length bytes"
    unfolding init by (rule write_nth(1) [OF room])
  show "compact_init l bytes ! j = (if ns l \<le> j \<and> j < np l then compact_EMPTY else bytes ! j)"
    unfolding init write_nth(2) [OF room] by (auto simp: add.assoc)
qed

lemma init_holds:
  assumes "layout_fits (cw_layout q)" "np (cw_layout q) + nb (cw_layout q) * nw (cw_layout q) \<le> length (cw_bytes q)"
  shows "dir_ok (q\<lparr>cw_bytes := compact_init (cw_layout q) (cw_bytes q)\<rparr>) (\<lambda>_. None)"
proof -
  have "np (cw_layout q) \<le> length (cw_bytes q)"
    using assms(2) by simp
  from init_nth [OF assms(1) this] show ?thesis
    using assms by (simp add: dir_ok_def holds_def Let_def robin_empty ctl_def)
qed

section \<open>Indexed sets\<close>

definition indexes :: "'i compact_owner \<Rightarrow> u32 set \<Rightarrow> bool" where
  "indexes q S \<longleftrightarrow> finite S \<and> (\<exists>T. dir_ok q T \<and> records (nb (cw_layout q)) T = mset_set S)"

lemma indexesE:
  assumes "indexes q S"
  obtains T where "dir_ok q T" "records (nb (cw_layout q)) T = mset_set S" "finite S" "S \<subseteq> {p. p < cy_domain (cw_layout q)}"
    "spare (nb (cw_layout q)) T" "\<And>p. p \<in> S \<longleftrightarrow> (\<exists>i<nb (cw_layout q). T i = Some p)"
proof -
  obtain T where T: "dir_ok q T" "records (nb (cw_layout q)) T = mset_set S" "finite S"
    using assms by (auto simp: indexes_def)
  note h = dir_okD(1) [OF T(1)]
  have mem: "p \<in> S \<longleftrightarrow> (\<exists>i<nb (cw_layout q). T i = Some p)" for p
    using in_records [of p "nb (cw_layout q)" T] T(2,3) by simp
  then have sub: "S \<subseteq> {p. p < cy_domain (cw_layout q)}"
    using holdsD(5) [OF h] by auto
  have "card S = card (unat ` S)"
    by (intro card_image [symmetric] inj_onI) (simp add: word_unat_eq_iff)
  also have "\<dots> \<le> card {..<unat (cy_domain (cw_layout q))}"
    using sub by (intro card_mono) (auto simp: word_less_nat_alt)
  finally have "size (records (nb (cw_layout q)) T) < nb (cw_layout q)"
    using T(2) fits_bounds(5) [OF holdsD(1) [OF h]] by simp
  then show ?thesis
    using that [OF T sub spareI mem] by blast
qed

lemma indexesI: "dir_ok q' T' \<Longrightarrow> same_owner q q' \<Longrightarrow> records (nb (cw_layout q)) T' = mset_set S \<Longrightarrow> finite S \<Longrightarrow> indexes q' S"
  by (auto simp: indexes_def same_owner_def)

lemma insert_indexes:
  assumes "indexes q S" "p < cy_domain (cw_layout q)" "p \<notin> S"
  shows "\<exists>q'. compact_insert q p = Some q' \<and> indexes q' (insert p S) \<and> same_owner q q'"
proof -
  obtain T where T: "dir_ok q T" "records (nb (cw_layout q)) T = mset_set S" "finite S" "spare (nb (cw_layout q)) T"
    using assms(1) by (rule indexesE)
  from insert_at [OF T(1) assms(2) T(4)] show ?thesis
    using T(2,3) assms(3) indexesI by (metis finite_insert mset_set.insert)
qed

lemma remove_indexes:
  assumes "indexes q S" "dir_ok q T" "records (nb (cw_layout q)) T = mset_set S" "i < nb (cw_layout q)" "T i = Some p" "spare (nb (cw_layout q)) T"
  shows "\<exists>q'. compact_remove (compact_finish q (of_nat i) p) = Some \<lparr>cr_owner = q', cr_payload = p\<rparr> \<and>
    indexes q' (S - {p}) \<and> same_owner q q'"
proof -
  have S: "finite S" "p \<in> S"
    using assms(1,3,4,5) in_records [of p "nb (cw_layout q)" T] by (auto simp: indexes_def)
  obtain q' T' where q': "compact_remove (compact_finish q (of_nat i) p) = Some \<lparr>cr_owner = q', cr_payload = p\<rparr>" "dir_ok q' T'"
    "same_owner q q'" "records (nb (cw_layout q)) T = add_mset p (records (nb (cw_layout q)) T')"
    using remove_at [OF assms(2,4,5,6)] by blast
  have "mset_set S = add_mset p (mset_set (S - {p}))"
    using S by (rule mset_set.remove)
  then have "records (nb (cw_layout q)) T' = mset_set (S - {p})"
    using q'(4) assms(3) by simp
  then show ?thesis
    using q' S(1) indexesI by blast
qed

section \<open>Programs\<close>

datatype 'i dir_op =
    Dir_Add u32
  | Dir_Find u64 'i
  | Dir_Entry u64 'i
  | Dir_Remove u64 'i
  | Dir_Drop u32
  | Dir_Scan u64
  | Dir_Clear

datatype 'i dir_out = Dir_Unit | Dir_Record "u32 option" | Dir_Items "'i list"

fun dir_exec :: "'i dir_op \<Rightarrow> 'i compact_owner \<Rightarrow> ('i dir_out \<times> 'i compact_owner) option" where
  "dir_exec (Dir_Add p) q = Option.bind (compact_insert q p) (\<lambda>q. Some (Dir_Unit, q))"
| "dir_exec (Dir_Find hash key) q =
    Option.bind (compact_find q hash key) (\<lambda>f.
      Some (Dir_Record (map_option cf_payload f), (case f of None \<Rightarrow> q | Some f \<Rightarrow> cf_owner f)))"
| "dir_exec (Dir_Entry hash key) q =
    Option.bind (compact_entry q hash key) (\<lambda>e.
      Some (case e of Compact_Occupied f \<Rightarrow> (Dir_Record (Some (cf_payload f)), cf_owner f) | Compact_Vacant q \<Rightarrow> (Dir_Record None, q)))"
| "dir_exec (Dir_Remove hash key) q =
    Option.bind (compact_find q hash key) (\<lambda>f.
      case f of None \<Rightarrow> Some (Dir_Record None, q)
      | Some f \<Rightarrow> Option.bind (compact_remove f) (\<lambda>r. Some (Dir_Record (Some (cr_payload r)), cr_owner r)))"
| "dir_exec (Dir_Drop p) q =
    Option.bind (compact_locate q p) (\<lambda>f.
      Option.bind (compact_remove f) (\<lambda>r. Some (Dir_Record (Some (cr_payload r)), cr_owner r)))"
| "dir_exec (Dir_Scan hash) q =
    Option.bind (compact_scan q hash (\<lambda>i xs. xs @ [i]) []) (\<lambda>xs. Some (Dir_Items xs, q))"
| "dir_exec Dir_Clear q = Some (Dir_Unit, compact_clear q)"

definition dir_match :: "'i compact_owner \<Rightarrow> u64 \<Rightarrow> 'i \<Rightarrow> u32 \<Rightarrow> bool" where
  "dir_match q hash key p \<longleftrightarrow> cw_hash q p = hash \<and> cw_get q p = key"

definition picks :: "u32 set \<Rightarrow> (u32 \<Rightarrow> bool) \<Rightarrow> u32 option \<Rightarrow> bool" where
  "picks S P r = (case r of None \<Rightarrow> \<forall>p\<in>S. \<not> P p | Some p \<Rightarrow> p \<in> S \<and> P p)"

text \<open>What an operation may answer for a set of records, and the set it leaves.\<close>

fun dir_spec :: "'i compact_owner \<Rightarrow> 'i dir_op \<Rightarrow> u32 set \<Rightarrow> 'i dir_out \<Rightarrow> u32 set \<Rightarrow> bool" where
  "dir_spec q (Dir_Add p) S out S' \<longleftrightarrow> out = Dir_Unit \<and> S' = insert p S"
| "dir_spec q (Dir_Find hash key) S out S' \<longleftrightarrow> (\<exists>r. out = Dir_Record r \<and> picks S (dir_match q hash key) r) \<and> S' = S"
| "dir_spec q (Dir_Entry hash key) S out S' \<longleftrightarrow> (\<exists>r. out = Dir_Record r \<and> picks S (dir_match q hash key) r) \<and> S' = S"
| "dir_spec q (Dir_Remove hash key) S out S' \<longleftrightarrow>
    (\<exists>r. out = Dir_Record r \<and> picks S (dir_match q hash key) r \<and> S' = S - set_option r)"
| "dir_spec q (Dir_Drop p) S out S' \<longleftrightarrow> out = Dir_Record (Some p) \<and> S' = S - {p}"
| "dir_spec q (Dir_Scan hash) S out S' \<longleftrightarrow>
    (\<exists>xs. out = Dir_Items xs \<and> mset xs = image_mset (cw_get q) (mset_set {p \<in> S. cw_hash q p = hash})) \<and> S' = S"
| "dir_spec q Dir_Clear S out S' \<longleftrightarrow> out = Dir_Unit \<and> S' = {}"

text \<open>The contracts of insertion and membership: a fresh record of the domain, a record that is indexed.\<close>

fun dir_admits :: "'i compact_owner \<Rightarrow> u32 set \<Rightarrow> 'i dir_op \<Rightarrow> bool" where
  "dir_admits q S (Dir_Add p) \<longleftrightarrow> p < cy_domain (cw_layout q) \<and> p \<notin> S"
| "dir_admits q S (Dir_Drop p) \<longleftrightarrow> p \<in> S"
| "dir_admits q S op \<longleftrightarrow> True"

lemma find_probe:
  assumes "dir_ok q T" "spare (nb (cw_layout q)) T"
  shows "compact_find q hash key = Some (map_option (\<lambda>(i, p). compact_finish q (of_nat i) p)
      (List.find (\<lambda>(i, p). dir_match q hash key p) (robin_probe (nb (cw_layout q)) T (home (nb (cw_layout q)) hash))))"
proof -
  note h = dir_okD(1) [OF assms(1)]
  note n = fits_bounds(3) [OF holdsD(1) [OF h]]
  have "cy_buckets (cw_layout q) \<noteq> 0"
    using n by auto
  then show ?thesis
    using find_from_at [OF assms(1) home_less [OF n] assms(2)] by (simp add: compact_find_def bucket_home [OF h] dir_match_def)
qed

lemma find_SomeD: "List.find P xs = Some e \<Longrightarrow> e \<in> set xs \<and> P e"
  by (induction xs) (auto split: if_splits)

lemma find_filter: "List.find P (filter Q xs) = List.find (\<lambda>x. Q x \<and> P x) xs"
  by (induction xs) auto

lemma entry_probe:
  assumes "dir_ok q T" "spare (nb (cw_layout q)) T"
  shows "compact_entry q hash key =
    Some (case List.find (\<lambda>(i, p). dir_match q hash key p) (robin_probe (nb (cw_layout q)) T (home (nb (cw_layout q)) hash)) of
        None \<Rightarrow> Compact_Vacant q | Some (i, p) \<Rightarrow> Compact_Occupied (compact_finish q (of_nat i) p))"
proof -
  note h = dir_okD(1) [OF assms(1)]
  note n = fits_bounds(3) [OF holdsD(1) [OF h]]
  have b: "cy_buckets (cw_layout q) \<noteq> 0"
    using n by auto
  note new = pending_new [OF h home_less [OF n] assms(2), of hash]
  have "List.find (\<lambda>(i, p). cw_get q p = key) (filter (\<lambda>(i, p). cw_hash q p = hash) xs) = List.find (\<lambda>(i, p). dir_match q hash key p) xs" for xs :: "(nat \<times> u32) list"
    unfolding find_filter by (simp add: dir_match_def case_prod_unfold)
  then show ?thesis
    using entry_from_at [OF h assms(2) new(1), of hash key] b
    by (auto simp: compact_entry_def bucket_home [OF h] new(2) split: option.splits)
qed

lemma scan_probe:
  assumes "dir_ok q T" "spare (nb (cw_layout q)) T"
  shows "compact_scan q hash (\<lambda>i xs. xs @ [i]) [] =
    Some (map (cw_get q) (filter (\<lambda>p. cw_hash q p = hash) (map snd (robin_probe (nb (cw_layout q)) T (home (nb (cw_layout q)) hash)))))"
proof -
  note h = dir_okD(1) [OF assms(1)]
  note n = fits_bounds(3) [OF holdsD(1) [OF h]]
  have b: "cy_buckets (cw_layout q) \<noteq> 0"
    using n by auto
  note new = pending_new [OF h home_less [OF n] assms(2), of hash]
  have "fold (\<lambda>(i, p) xs. xs @ [cw_get q p]) es ys = ys @ map (\<lambda>(i, p). cw_get q p) es" for es :: "(nat \<times> u32) list" and ys
    by (induction es arbitrary: ys) auto
  then show ?thesis
    using scan_from_at [OF h assms(2) new(1), where hash = hash and visit = "\<lambda>i xs. xs @ [i]" and s = "[]"] b
    by (simp add: compact_scan_def bucket_home [OF h] new(2) filter_map comp_def case_prod_unfold)
qed

lemma probe_picks:
  fixes hash :: u64 and key :: 'i and q :: "'i compact_owner"
  assumes "dir_ok q T" "spare (nb (cw_layout q)) T" and mem: "\<And>p. p \<in> S \<longleftrightarrow> (\<exists>i<nb (cw_layout q). T i = Some p)"
  defines "r \<equiv> List.find (\<lambda>(i, p). dir_match q hash key p) (robin_probe (nb (cw_layout q)) T (home (nb (cw_layout q)) hash))"
  shows "picks S (dir_match q hash key) (map_option snd r)" "r = Some (i, p) \<Longrightarrow> i < nb (cw_layout q) \<and> T i = Some p"
proof -
  note h = dir_okD(1) [OF assms(1)] and ro = dir_okD(2) [OF assms(1)]
  note n = fits_bounds(3) [OF holdsD(1) [OF h]]
  have at: "i < nb (cw_layout q) \<and> T i = Some p \<and> dir_match q hash key p" if "r = Some (i, p)" for i p
    using find_SomeD [OF that [unfolded r_def]] probe_member [OF home_less [OF n], of i p T hash] by simp
  then show "r = Some (i, p) \<Longrightarrow> i < nb (cw_layout q) \<and> T i = Some p"
    by blast
  show "picks S (dir_match q hash key) (map_option snd r)"
  proof (cases r)
    case None
    have "\<not> dir_match q hash key p" if in_S: "p \<in> S" for p
    proof
      assume "dir_match q hash key p"
      obtain i where i: "i < nb (cw_layout q)" "T i = Some p"
        using iffD1 [OF mem in_S] by blast
      have "(i, p) \<in> set (robin_probe (nb (cw_layout q)) T (home (nb (cw_layout q)) hash))"
        using probe_finds [OF ro hm_less [OF h] assms(2) i] \<open>dir_match q hash key p\<close> by (simp add: dir_match_def)
      then show False
        using None \<open>dir_match q hash key p\<close> unfolding r_def find_None_iff by auto
    qed
    then show ?thesis
      using None by (simp add: picks_def)
  next
    case (Some e)
    then have "fst e < nb (cw_layout q) \<and> T (fst e) = Some (snd e) \<and> dir_match q hash key (snd e)"
      by (intro at) simp
    moreover from this have "snd e \<in> S"
      by (intro iffD2 [OF mem]) blast
    ultimately show ?thesis
      using Some by (simp add: picks_def)
  qed
qed

lemma dir_step:
  assumes q: "indexes q S" and adm: "dir_admits q S op"
  shows "\<exists>out q' S'. dir_exec op q = Some (out, q') \<and> dir_spec q op S out S' \<and> indexes q' S' \<and> same_owner q q'"
proof -
  let ?n = "nb (cw_layout q)"
  obtain T where T: "dir_ok q T" "records ?n T = mset_set S" "finite S" "spare ?n T" "S \<subseteq> {p. p < cy_domain (cw_layout q)}"
    and mem: "\<And>p. p \<in> S \<longleftrightarrow> (\<exists>i<?n. T i = Some p)"
    by (rule indexesE [OF q]) blast
  note h = dir_okD(1) [OF T(1)] and ro = dir_okD(2) [OF T(1)]
  note n = fits_bounds(3) [OF holdsD(1) [OF h]]
  let ?found = "\<lambda>hash key. List.find (\<lambda>(i, p). dir_match q hash key p) (robin_probe ?n T (home ?n hash))"
  note picks = probe_picks [OF T(1,4) mem]
  note remove = remove_indexes [OF q T(1,2) _ _ T(4)]
  show ?thesis
  proof (cases op)
    case (Dir_Add p)
    then show ?thesis
      using insert_indexes [OF q, of p] adm by auto
  next
    case (Dir_Find hash key)
    then show ?thesis
      using picks(1) [of hash key] q find_probe [OF T(1,4), of hash key]
      by (cases "?found hash key") (auto simp: compact_finish_def)
  next
    case (Dir_Entry hash key)
    then show ?thesis
      using picks(1) [of hash key] q entry_probe [OF T(1,4), of hash key]
      by (cases "?found hash key") (auto simp: compact_finish_def)
  next
    case (Dir_Remove hash key)
    show ?thesis
    proof (cases "?found hash key")
      case None
      then show ?thesis
        using Dir_Remove picks(1) [of hash key] q find_probe [OF T(1,4), of hash key] by auto
    next
      case (Some e)
      obtain i p where e: "e = (i, p)"
        by (cases e)
      then have i: "i < ?n" "T i = Some p"
        using picks(2) [of hash key i p] Some by auto
      obtain q' where "compact_remove (compact_finish q (of_nat i) p) = Some \<lparr>cr_owner = q', cr_payload = p\<rparr>"
        "indexes q' (S - {p})" "same_owner q q'"
        using remove [OF i] by blast
      then show ?thesis
        using Dir_Remove Some e picks(1) [of hash key] find_probe [OF T(1,4), of hash key] by auto
    qed
  next
    case (Dir_Drop p)
    then have "p \<in># records ?n T"
      using adm T(2,3) by simp
    then obtain i where i: "i < ?n" "T i = Some p" "compact_locate q p = Some (compact_finish q (of_nat i) p)"
      using locate_at [OF T(1,4)] by blast
    obtain q' where "compact_remove (compact_finish q (of_nat i) p) = Some \<lparr>cr_owner = q', cr_payload = p\<rparr>"
      "indexes q' (S - {p})" "same_owner q q'"
      using remove [OF i(1,2)] by blast
    then show ?thesis
      using Dir_Drop i(3) by auto
  next
    case (Dir_Scan hash)
    have "mset (filter (\<lambda>p. cw_hash q p = hash) (map snd (robin_probe ?n T (home ?n hash)))) = mset_set {p \<in> S. cw_hash q p = hash}"
      using probe_exact [OF ro hm_less [OF h] T(4), of "\<lambda>p. cw_hash q p = hash" "home ?n hash"] home_less [OF n] T(2,3)
      by simp
    then show ?thesis
      using Dir_Scan q scan_probe [OF T(1,4), of hash] by (auto simp: mset_map)
  next
    case Dir_Clear
    note l = holdsD(1,2) [OF h]
    have "np (cw_layout q) \<le> length (cw_bytes q)"
      using l(2) by simp
    then have same: "same_owner q (compact_clear q)"
      using init_nth(1) [OF l(1)] by (simp add: same_owner_def compact_clear_def)
    have "dir_ok (compact_clear q) (\<lambda>_. None)"
      unfolding compact_clear_def by (rule init_holds [OF l])
    then have "indexes (compact_clear q) {}"
      using same by (intro indexesI [where q = q]) auto
    then show ?thesis
      using Dir_Clear same by auto
  qed
qed

lemma fresh_directory:
  assumes "layout_fits l" "compact_plan_try_allocate grant prefix (l, compact_end l) = Inr bytes"
  shows "indexes \<lparr>cw_layout = l, cw_bytes = bytes, cw_hash = hash, cw_get = get\<rparr> {}"
proof -
  let ?q = "\<lparr>cw_layout = l, cw_bytes = tail_repeat (compact_end l) 0, cw_hash = hash, cw_get = get\<rparr>"
  have "bytes = compact_init l (tail_repeat (compact_end l) 0)"
    using assms(2) by (auto simp: compact_plan_try_allocate_def split: sum.splits)
  moreover have "dir_ok (?q\<lparr>cw_bytes := compact_init (cw_layout ?q) (cw_bytes ?q)\<rparr>) (\<lambda>_. None)"
    using assms(1) end_unat [OF assms(1)] by (intro init_holds) (simp_all add: tail_repeat_def)
  ultimately show ?thesis
    by (auto simp: indexes_def)
qed

section \<open>Properties\<close>

text \<open>C11: A directory made for a capacity indexes nothing; from then on every admitted operation returns
  and does to the set of indexed records what its name says: lookups by either search pick a record
  with that hash and item exactly if one is indexed, a scan visits every record of a hash once, and the
  Robin Hood order and a spare bucket are kept.\<close>

theorem compact_refines_set:
  assumes "unat capacity \<le> 7 * 2 ^ 28" "capacity \<noteq> 0" "unat start < 2 ^ 32"
    "compact_try_new capacity start = Inr (l, stop)"
  shows "stop = compact_end l \<and> unat (cy_domain l) = unat capacity \<and>
    (\<forall>bytes. compact_plan_try_allocate grant prefix (l, stop) = Inr bytes \<longrightarrow>
      indexes \<lparr>cw_layout = l, cw_bytes = bytes, cw_hash = hash, cw_get = get\<rparr> {}) \<and>
    (\<forall>q S op. indexes q S \<longrightarrow> dir_admits q S op \<longrightarrow>
      (\<exists>out q' S'. dir_exec op q = Some (out, q') \<and> dir_spec q op S out S' \<and> indexes q' S' \<and> same_owner q q'))"
proof -
  obtain l' where l': "compact_try_new capacity start = Inr (l', compact_end l')" "layout_fits l'" "unat (cy_domain l') = unat capacity"
    using compact_try_new_layout [OF assms(1-3)] by blast
  then have "l' = l" "stop = compact_end l"
    using assms(4) by auto
  then show ?thesis
    using l'(2,3) fresh_directory [of l grant prefix _ hash get] dir_step by blast
qed

definition small_layout :: compact_layout where
  "small_layout = \<lparr>cy_start = 0, cy_buckets = 32, cy_domain = 1\<rparr>"

definition small_owner :: "nat compact_owner" where
  "small_owner = \<lparr>cw_layout = small_layout, cw_bytes = compact_init small_layout (tail_repeat 96 0), cw_hash = ucast, cw_get = unat\<rparr>"

lemma small_new: "compact_try_new 1 0 = Inr (small_layout, 96)"
  by code_simp

lemma small_allocate:
  "compact_plan_try_allocate (\<lambda>_. True) \<lparr>ly_size = 16, ly_align = 8\<rparr> (small_layout, 96) = Inr (compact_init small_layout (tail_repeat 96 0))"
  by (simp add: compact_plan_try_allocate_def tail_try_allocate_def layout_try_allocate_def)

lemma compact_refines_set_witness: "\<exists>q. compact_insert small_owner 0 = Some q \<and> indexes q {0}"
proof -
  have made: "unat (1 :: usize) \<le> 7 * 2 ^ 28" "(1 :: usize) \<noteq> 0" "unat (0 :: usize) < 2 ^ 32"
    by simp_all
  note made = compact_refines_set [OF made small_new, where grant = "\<lambda>_. True" and prefix = "\<lparr>ly_size = 16, ly_align = 8\<rparr>"]
  have fresh: "indexes small_owner {}"
    unfolding small_owner_def using made small_allocate by blast
  have "dir_admits small_owner {} (Dir_Add 0)"
    by (simp add: small_owner_def small_layout_def)
  with fresh obtain out q' S' where "dir_exec (Dir_Add 0) small_owner = Some (out, q')" "dir_spec small_owner (Dir_Add 0) {} out S'" "indexes q' S'"
    using made by blast
  then show ?thesis
    by (auto split: bind_splits)
qed

text \<open>C24: The search by single controls and the search by groups of 32 controls always return, and find the
  same record in the same bucket, or both none.\<close>

theorem compact_searches_agree:
  assumes "indexes q S"
  shows "\<exists>f. compact_find q hash key = Some f \<and>
    compact_entry q hash key = Some (case f of None \<Rightarrow> Compact_Vacant q | Some f \<Rightarrow> Compact_Occupied f) \<and>
    picks S (dir_match q hash key) (map_option cf_payload f)"
proof -
  obtain T where T: "dir_ok q T" "records (nb (cw_layout q)) T = mset_set S" "finite S" "spare (nb (cw_layout q)) T" "S \<subseteq> {p. p < cy_domain (cw_layout q)}"
    and mem: "\<And>p. p \<in> S \<longleftrightarrow> (\<exists>i<nb (cw_layout q). T i = Some p)"
    by (rule indexesE [OF assms]) blast
  show ?thesis
    using find_probe [OF T(1,4), of hash key] entry_probe [OF T(1,4), of hash key] probe_picks(1) [OF T(1,4) mem, of hash key]
    by (cases "List.find (\<lambda>(i, p). dir_match q hash key p) (robin_probe (nb (cw_layout q)) T (home (nb (cw_layout q)) hash))")
      (auto simp: compact_finish_def)
qed

lemma small_indexes: "indexes small_owner {}"
proof -
  have "layout_fits small_layout"
    using compact_try_new_layout [of 1 0] small_new by auto
  moreover have "compact_end small_layout = 96"
    by code_simp
  ultimately show ?thesis
    using fresh_directory [of small_layout "\<lambda>_. True" _ _ ucast unat] small_allocate by (simp add: small_owner_def)
qed

lemma compact_searches_agree_witness:
  "\<exists>q f. compact_insert small_owner 0 = Some q \<and> cf_payload f = 0 \<and>
    compact_find q 0 0 = Some (Some f) \<and> compact_entry q 0 0 = Some (Compact_Occupied f) \<and>
    compact_find q 5 7 = Some None \<and> compact_entry q 5 7 = Some (Compact_Vacant q)"
proof -
  have "dir_admits small_owner {} (Dir_Add 0)"
    by (simp add: small_owner_def small_layout_def)
  then obtain out q S' where "dir_exec (Dir_Add 0) small_owner = Some (out, q)" "dir_spec small_owner (Dir_Add 0) {} out S'"
    "indexes q S'" "same_owner small_owner q"
    using dir_step [OF small_indexes] by blast
  then have q: "compact_insert small_owner 0 = Some q" "indexes q {0}" "same_owner small_owner q"
    by (auto split: bind_splits)
  then have match: "dir_match q hash key p \<longleftrightarrow> ucast p = hash \<and> unat p = key" for hash key p
    by (simp add: dir_match_def same_owner_def small_owner_def)
  obtain f where f: "compact_find q 0 0 = Some f"
    "compact_entry q 0 0 = Some (case f of None \<Rightarrow> Compact_Vacant q | Some f \<Rightarrow> Compact_Occupied f)"
    "picks {0} (dir_match q 0 0) (map_option cf_payload f)"
    using compact_searches_agree [OF q(2), of 0 0] by blast
  then obtain g where g: "f = Some g" "cf_payload g = 0"
    by (cases f) (simp_all add: picks_def match)
  obtain h where h: "compact_find q 5 7 = Some h"
    "compact_entry q 5 7 = Some (case h of None \<Rightarrow> Compact_Vacant q | Some f \<Rightarrow> Compact_Occupied f)"
    "picks {0} (dir_match q 5 7) (map_option cf_payload h)"
    using compact_searches_agree [OF q(2), of 5 7] by blast
  then have "h = None"
    by (cases h) (auto simp: picks_def match)
  then show ?thesis
    using q(1) f(1,2) g h(1,2) by auto
qed

text \<open>C25: The masks of a group of 32 controls, computed eight bytes at a time inside words, say exactly which
  controls are vacant and which carry the tag; the admitted matches are those before the first vacancy.\<close>

theorem group_masks_exact:
  assumes "length bytes = 32" "k < 32"
  shows "case group_masks bytes tag of (vacant, matched) \<Rightarrow>
    (bit vacant k \<longleftrightarrow> bytes ! k = compact_EMPTY) \<and> (bit matched k \<longleftrightarrow> bytes ! k = tag) \<and>
    (vacant = 0 \<longleftrightarrow> compact_EMPTY \<notin> set bytes) \<and>
    (bit (matched AND ((vacant - 1) AND NOT vacant)) k \<longleftrightarrow> bytes ! k = tag \<and> compact_EMPTY \<notin> set (take (Suc k) bytes))"
proof -
  obtain vacant matched where g: "group_masks bytes tag = (vacant, matched)"
    by (cases "group_masks bytes tag")
  have v: "bit vacant j \<longleftrightarrow> j < 32 \<and> bytes ! j = compact_EMPTY" and m: "bit matched j \<longleftrightarrow> j < 32 \<and> bytes ! j = tag" for j
    using group_masks_bits [OF assms(1), of tag] g by auto
  have "vacant = 0 \<longleftrightarrow> (\<forall>j. \<not> bit vacant j)"
    by (metis bit_0_eq bot_apply bot_bool_def bit_eq_iff)
  then have "vacant = 0 \<longleftrightarrow> compact_EMPTY \<notin> set bytes"
    using assms(1) by (auto simp: v in_set_conv_nth)
  moreover have "compact_EMPTY \<notin> set (take (Suc k) bytes) \<longleftrightarrow> (\<forall>j\<le>k. bytes ! j \<noteq> compact_EMPTY)"
    using assms by (auto simp: in_set_conv_nth less_Suc_eq_le)
  then have "bit (matched AND ((vacant - 1) AND NOT vacant)) k \<longleftrightarrow> bytes ! k = tag \<and> compact_EMPTY \<notin> set (take (Suc k) bytes)"
    using assms(2) by (auto simp: bit_and_iff [of matched] bit_before_lowest v m)
  ultimately show ?thesis
    using assms(2) by (simp add: g v m)
qed

lemma group_masks_exact_witness: "bit (snd (group_masks (replicate 31 7 @ [compact_EMPTY]) 7)) 9"
  using group_masks_exact [of "replicate 31 7 @ [compact_EMPTY]" 9 7] by (auto simp: nth_append)

text \<open>C26: A layout is refused exactly for a start past 32 bits or a capacity past 7/8 of the largest table.
  Otherwise its buckets are a power of two that a full domain leaves spare, at most twice the least such
  number, every extent is the exact sum, a payload fits its width, and the template byte at every offset
  is the byte of a fresh directory.\<close>

theorem compact_layout_exact:
  "case compact_try_new capacity start of
     Inl (Compact_Start actual maximum) \<Rightarrow> actual = start \<and> 2 ^ 32 \<le> unat start \<and> unat maximum = 2 ^ 32 - 1
   | Inl (Compact_Capacity actual maximum) \<Rightarrow> actual = capacity \<and> unat maximum = 7 * 2 ^ 28 \<and> maximum < capacity
   | Inr (l, stop) \<Rightarrow> unat capacity \<le> 7 * 2 ^ 28 \<and> ns l = unat start \<and> stop = compact_end l \<and>
       (if capacity = 0 then nb l = 0 \<and> stop = start
        else extent_ok (ucast (cy_buckets l)) \<and> unat (cy_domain l) = unat capacity \<and> unat capacity < nb l \<and>
          8 * unat capacity \<le> 7 * nb l \<and> nb l < 2 * max ((unat capacity * 8 + 6) div 7) 32 \<and>
          unat stop = ns l + nb l + 32 + nb l * nw l \<and> (\<forall>p < cy_domain l. unat p < 256 ^ nw l) \<and>
          (\<forall>off < stop. compact_byte l off = compact_init l (tail_repeat stop 0) ! unat off))"
proof -
  have max: "unat compact_MAX_CAPACITY = 7 * 2 ^ 28" "unat (ucast (- 1 :: u32) :: usize) = 2 ^ 32 - 1"
    by (simp_all add: compact_MAX_CAPACITY_def push_bit_eq_mult unsigned_minus_1_eq_mask mask_eq_exp_minus_1)
  consider (start) "ucast (- 1 :: u32) < start"
    | (capacity) "\<not> ucast (- 1 :: u32) < start" "compact_MAX_CAPACITY < capacity"
    | (zero) "\<not> ucast (- 1 :: u32) < start" "capacity = 0"
    | (fits) "unat start < 2 ^ 32" "unat capacity \<le> 7 * 2 ^ 28" "capacity \<noteq> 0"
    using max
    by (cases "unat start < 2 ^ 32"; cases "unat capacity \<le> 7 * 2 ^ 28"; cases "capacity = 0") (auto simp: word_less_nat_alt)
  then show ?thesis
  proof cases
    case start
    then show ?thesis
      using max(2) by (simp add: compact_try_new_def Let_def word_less_nat_alt)
  next
    case capacity
    then show ?thesis
      using max(1) by (simp add: compact_try_new_def Let_def)
  next
    case zero
    then have "unat (ucast start :: u32) = unat start"
      using max(2) by (intro unat_ucast_narrow) (simp add: word_less_nat_alt)
    moreover from this have "start = ucast (ucast start :: u32)"
      by (simp add: word_unat_eq_iff)
    ultimately show ?thesis
      using zero by (simp add: compact_try_new_def Let_def compact_end_def)
  next
    case fits
    obtain l where l: "compact_try_new capacity start = Inr (l, compact_end l)" "layout_fits l" "ns l = unat start"
      "unat (cy_domain l) = unat capacity" "8 * unat capacity \<le> 7 * nb l" "nb l < 2 * max ((unat capacity * 8 + 6) div 7) 32"
      using compact_try_new_layout [OF fits(2,3,1)] by blast
    have bytes: "compact_byte l off = compact_init l (tail_repeat (compact_end l) 0) ! unat off" if "off < compact_end l" for off
    proof -
      have "np l \<le> length (tail_repeat (compact_end l) (0 :: u8))"
        using end_unat [OF l(2)] by (simp add: tail_repeat_def)
      moreover have "unat (ucast (cy_start l) + compact_control_len l) = np l"
        using plane_unat(2) [OF l(2)] by (simp add: compact_plane_def)
      ultimately show ?thesis
        using that fits_bounds(3) [OF l(2)] init_nth(2) [OF l(2)]
        by (auto simp: compact_byte_def Let_def word_less_nat_alt word_le_nat_alt tail_repeat_def)
    qed
    then show ?thesis
      using l fits end_unat [OF l(2)] width_holds [of _ l] fits_bounds(5) [OF l(2)] by (simp add: layout_fits_def)
  qed
qed

lemma compact_layout_exact_witness: "\<exists>l. compact_try_new 1000 16 = Inr (l, 6192) \<and> compact_init l (tail_repeat 6192 0) ! 20 = compact_EMPTY"
proof -
  obtain l where l: "compact_try_new 1000 16 = Inr (l, 6192)" "compact_byte l 20 = compact_EMPTY"
  proof -
    have "compact_try_new 1000 16 = Inr (\<lparr>cy_start = 16, cy_buckets = 2048, cy_domain = 1000\<rparr>, 6192)"
      by code_simp
    moreover have "compact_byte \<lparr>cy_start = 16, cy_buckets = 2048, cy_domain = 1000\<rparr> 20 = compact_EMPTY"
      by code_simp
    ultimately show ?thesis
      using that by blast
  qed
  then show ?thesis
    using compact_layout_exact [where capacity = 1000 and start = 16] by auto
qed

end
