(* ===== verification/O3_Resident.thy ===== *)
theory O3_Resident
  imports O3_Map_Scan O3_Links O3_Layout
begin

text \<open>
  The resident map (src/src/depot/map/resident/): records of a prefix that only grows, found by
  identity through a directory of record indices, and by key through the index and generation the key
  packs. A vacated record reuses its identity word for the free chain, under a flag no identity has.

  An entry is passed beside the table it borrows; a shared const generic \<open>MAX\<close> is the argument \<open>mx\<close>.
  A scan and the closing of a hole are the raw probing engine's, over the directory given here.
\<close>

section \<open>Plans\<close>

record rmap_plan =
  rp_records :: u32
  rp_buckets :: u32

definition leading_zeros_u32 :: "u32 \<Rightarrow> u32" where
  "leading_zeros_u32 v = word_of_nat (32 - bit_length (unat v))"

definition wrapping_shl_u32 :: "u32 \<Rightarrow> u32 \<Rightarrow> u32" where
  "wrapping_shl_u32 v by = push_bit (unat (by AND 31)) v"

definition rmap_plan_counts :: "u32 list \<Rightarrow> rmap_plan" where
  "rmap_plan_counts counts =
    (let records = foldl (+) 0 counts;
         shift = leading_zeros_u32 (records * 2 - 1);
         buckets = wrapping_shl_u32 1 (- shift)
     in \<lparr>rp_records = records, rp_buckets = saturating_add 1 (buckets - 1)\<rparr>)"

section \<open>Keys\<close>

definition rmap_key_from_raw :: "u32 \<Rightarrow> u64 \<Rightarrow> u64 option" where
  "rmap_key_from_raw mx raw =
    (if (ucast raw :: u32) \<noteq> 0 \<and> (ucast (drop_bit 32 raw) :: u32) \<le> mx then Some raw else None)"

definition rmap_key_index :: "u64 \<Rightarrow> u32" where
  "rmap_key_index key = ucast key - 1"

definition rmap_key_generation :: "u64 \<Rightarrow> u32" where
  "rmap_key_generation key = ucast (drop_bit 32 key)"

definition rmap_key_new :: "link_index \<Rightarrow> u32 \<Rightarrow> u64" where
  "rmap_key_new index epoch =
    (let slot = saturating_add 1 (ucast (index_raw index)) in slot OR push_bit 32 (ucast epoch))"

definition rmap_key_slot :: "u64 \<Rightarrow> link_index" where
  "rmap_key_slot key = index_new_raw (rmap_key_index key)"

section \<open>Records\<close>

definition ID_MAX :: u64 where
  "ID_MAX = drop_bit 2 (- 1)"

definition id_mask :: "u64 \<Rightarrow> u64" where
  "id_mask v = v AND ID_MAX"

definition generation_INITIAL :: u32 where
  "generation_INITIAL = 0"

definition generation_next :: "u32 \<Rightarrow> u32 \<Rightarrow> u32 option" where
  "generation_next mx g = (if g < mx then Some (g + 1) else None)"

record 'v rrecord =
  rr_id :: u64
  rr_generation :: u32
  rr_value :: "'v option"

definition FREE :: u64 where
  "FREE = push_bit 63 1"

definition rrecord_new :: "u64 \<Rightarrow> 'v \<Rightarrow> 'v rrecord" where
  "rrecord_new ident v = \<lparr>rr_id = ident, rr_generation = generation_INITIAL, rr_value = Some v\<rparr>"

definition rrecord_is_live :: "'v rrecord \<Rightarrow> bool" where
  "rrecord_is_live r \<longleftrightarrow> rr_id r AND FREE = 0"

definition rrecord_id :: "'v rrecord \<Rightarrow> u64" where
  "rrecord_id r = id_mask (rr_id r)"

definition rrecord_matches :: "u64 \<Rightarrow> 'v rrecord \<Rightarrow> bool" where
  "rrecord_matches key r \<longleftrightarrow> rrecord_is_live r \<and> rr_generation r = rmap_key_generation key"

section \<open>The table\<close>

record 'v rmap =
  rs_records :: "'v rrecord list"
  rs_buckets :: "u32 list"
  rs_free :: "link_index option"
  rs_available :: u32
  rs_hash :: "u64 \<Rightarrow> u64"

text \<open>Both allocations are arrays: \<open>row\<close> is the type of a record, \<open>grant\<close> the allocator.\<close>

definition array_try_allocate :: "(layout \<Rightarrow> bool) \<Rightarrow> ty \<Rightarrow> usize \<Rightarrow> alloc_error + unit" where
  "array_try_allocate grant t len = (case layout_try_layout t len of
       Inl Overflow \<Rightarrow> Inl Error_Overflow
     | Inr l \<Rightarrow> (case layout_try_allocate grant l of Inl Exhausted \<Rightarrow> Inl Error_Exhausted | Inr _ \<Rightarrow> Inr ()))"

definition rmap_try_new ::
  "(layout \<Rightarrow> bool) \<Rightarrow> ty \<Rightarrow> rmap_plan \<Rightarrow> (u64 \<Rightarrow> u64) \<Rightarrow> alloc_error + 'v rmap" where
  "rmap_try_new grant row pl hash = (case array_try_allocate grant row (ucast (rp_records pl)) of
       Inl e \<Rightarrow> Inl e
     | Inr _ \<Rightarrow> (case array_try_allocate grant \<lparr>ty_size = 4, ty_align = 4\<rparr> (ucast (rp_buckets pl)) of
           Inl e \<Rightarrow> Inl e
         | Inr _ \<Rightarrow> Inr \<lparr>rs_records = [], rs_buckets = replicate (unat (ucast (rp_buckets pl) :: usize)) END,
             rs_free = None, rs_available = rp_records pl, rs_hash = hash\<rparr>))"

definition rmap_available :: "'v rmap \<Rightarrow> usize" where
  "rmap_available t = ucast (rs_available t)"

definition rmap_at :: "'v rmap \<Rightarrow> link_index \<Rightarrow> 'v rrecord" where
  "rmap_at t index = rs_records t ! unat (index_get index)"

definition rmap_put :: "link_index \<Rightarrow> ('v rrecord \<Rightarrow> 'v rrecord) \<Rightarrow> 'v rmap \<Rightarrow> 'v rmap" where
  "rmap_put index f t =
    t\<lparr>rs_records := (rs_records t)[unat (index_get index) := f (rmap_at t index)]\<rparr>"

definition rmap_bucket_index :: "'v rmap \<Rightarrow> u32 \<Rightarrow> link_index" where
  "rmap_bucket_index t bucket = index_new_raw (rs_buckets t ! unat (occupied_index bucket))"

definition rmap_directory :: "'v rmap directory" where
  "rmap_directory =
    \<lparr>dir_buckets = (\<lambda>t. word_of_nat (length (rs_buckets t))),
     dir_hash = (\<lambda>t i. case index_decode (rs_buckets t ! unat i) of
         None \<Rightarrow> None | Some index \<Rightarrow> Some (rs_hash t (rrecord_id (rmap_at t index)))),
     dir_candidate = (\<lambda>t i _. if rs_buckets t ! unat i = END then Candidate_Vacant else Candidate_Occupied)\<rparr>"

definition rmap_shift :: "'v rmap \<Rightarrow> u32 \<Rightarrow> u32 \<Rightarrow> u64 \<Rightarrow> 'v rmap" where
  "rmap_shift t hole nxt _ =
    (let raw = rs_buckets t ! unat (occupied_index nxt)
     in t\<lparr>rs_buckets := (rs_buckets t)[unat (vacant_index hole) := raw, unat (occupied_index nxt) := END]\<rparr>)"

definition rmap_scan :: "'v rmap \<Rightarrow> u64 \<Rightarrow> probe_state option" where
  "rmap_scan t ident =
    (case raw_scan rmap_directory True t (rs_hash t ident)
        (\<lambda>bucket. Inr (rr_id (rmap_at t (rmap_bucket_index t bucket)) = ident) :: unit + bool) of
       None \<Rightarrow> None | Some (Inl _) \<Rightarrow> None | Some (Inr state) \<Rightarrow> Some state)"

definition rmap_member :: "'v rmap \<Rightarrow> link_index \<Rightarrow> u32 option" where
  "rmap_member t index =
    (let ident = rrecord_id (rmap_at t index)
     in raw_member rmap_directory t (rs_hash t ident) (\<lambda>bucket. rmap_bucket_index t bucket = index))"

section \<open>Lookups\<close>

definition rmap_record :: "'v rmap \<Rightarrow> u64 \<Rightarrow> 'v rrecord option" where
  "rmap_record t key =
    (let i = unat (ucast (rmap_key_index key) :: usize)
     in if i < length (rs_records t) then
          (let r = rs_records t ! i in if rrecord_matches key r then Some r else None)
        else None)"

definition rmap_get :: "'v rmap \<Rightarrow> u64 \<Rightarrow> 'v option" where
  "rmap_get t key = (case rmap_record t key of None \<Rightarrow> None | Some r \<Rightarrow> Some (the (rr_value r)))"

definition rmap_lookup :: "'v rmap \<Rightarrow> u64 \<Rightarrow> u64 \<Rightarrow> 'v option" where
  "rmap_lookup t key ident = (case rmap_record t key of
       None \<Rightarrow> None
     | Some r \<Rightarrow> if rr_id r \<noteq> ident then None else Some (the (rr_value r)))"

definition rmap_id :: "'v rmap \<Rightarrow> u64 \<Rightarrow> u64 option" where
  "rmap_id t key = (case rmap_record t key of None \<Rightarrow> None | Some r \<Rightarrow> Some (rrecord_id r))"

definition rmap_find :: "'v rmap \<Rightarrow> u64 \<Rightarrow> (u64 \<times> 'v) option option" where
  "rmap_find t ident = (case rmap_scan t ident of
       None \<Rightarrow> None
     | Some (State_Occupied bucket) \<Rightarrow>
         (let index = rmap_bucket_index t bucket; r = rmap_at t index
          in Some (Some (rmap_key_new index (rr_generation r), the (rr_value r))))
     | Some _ \<Rightarrow> Some None)"

definition rmap_key :: "'v rmap \<Rightarrow> u64 \<Rightarrow> u64 option option" where
  "rmap_key t ident = map_option (map_option fst) (rmap_find t ident)"

section \<open>Entries\<close>

record rmap_occupied =
  ro_bucket :: "u32 option"
  ro_index :: link_index

record rmap_vacant =
  rv_bucket :: u32
  rv_id :: u64

definition rmap_entry ::
  "'v rmap \<Rightarrow> u64 \<Rightarrow> (rmap_occupied, rmap_vacant option) map_entry option" where
  "rmap_entry t ident = (case rmap_scan t ident of
       None \<Rightarrow> None
     | Some (State_Occupied bucket) \<Rightarrow>
         Some (Entry_Occupied \<lparr>ro_bucket = Some bucket, ro_index = rmap_bucket_index t bucket\<rparr>)
     | Some (State_Vacant bucket) \<Rightarrow>
         if rs_available t \<noteq> 0 then Some (Entry_Vacant (Some \<lparr>rv_bucket = bucket, rv_id = ident\<rparr>))
         else Some (Entry_Vacant None)
     | Some State_Full \<Rightarrow> Some (Entry_Vacant None))"

definition rmap_exact :: "'v rmap \<Rightarrow> u64 \<Rightarrow> u64 \<Rightarrow> rmap_occupied option" where
  "rmap_exact t key ident =
    (if \<not> (case rmap_record t key of None \<Rightarrow> False | Some r \<Rightarrow> rr_id r = ident) then None
     else Some \<lparr>ro_bucket = None, ro_index = rmap_key_slot key\<rparr>)"

definition rmap_occupied_key :: "'v rmap \<Rightarrow> rmap_occupied \<Rightarrow> u64" where
  "rmap_occupied_key t e = rmap_key_new (ro_index e) (rr_generation (rmap_at t (ro_index e)))"

definition rmap_occupied_id :: "'v rmap \<Rightarrow> rmap_occupied \<Rightarrow> u64" where
  "rmap_occupied_id t e = rrecord_id (rmap_at t (ro_index e))"

definition rmap_occupied_get :: "'v rmap \<Rightarrow> rmap_occupied \<Rightarrow> 'v" where
  "rmap_occupied_get t e = the (rr_value (rmap_at t (ro_index e)))"

definition rmap_occupied_set :: "'v rmap \<Rightarrow> rmap_occupied \<Rightarrow> 'v \<Rightarrow> 'v rmap" where
  "rmap_occupied_set t e v = rmap_put (ro_index e) (\<lambda>r. r\<lparr>rr_value := Some v\<rparr>) t"

subsection \<open>Insertion and removal\<close>

definition rmap_raw_insert :: "'v rmap \<Rightarrow> u32 \<Rightarrow> u64 \<Rightarrow> 'v \<Rightarrow> link_index \<times> 'v rmap" where
  "rmap_raw_insert t bucket ident v =
    (let (index, t) = (case rs_free t of
           Some index \<Rightarrow>
             (index, (rmap_put index (\<lambda>r. r\<lparr>rr_id := ident, rr_value := Some v\<rparr>) t)
                \<lparr>rs_free := index_decode (ucast (rr_id (rmap_at t index)))\<rparr>)
         | None \<Rightarrow>
             (index_new_usize (word_of_nat (length (rs_records t))),
              t\<lparr>rs_records := rs_records t @ [rrecord_new ident v]\<rparr>));
         t = t\<lparr>rs_available := rs_available t - 1\<rparr>
     in (index, t\<lparr>rs_buckets := (rs_buckets t)[unat (vacant_index bucket) := index_raw index]\<rparr>))"

definition rmap_raw_remove ::
  "u32 \<Rightarrow> 'v rmap \<Rightarrow> u32 \<Rightarrow> link_index \<Rightarrow> ('v \<times> 'v rmap) option" where
  "rmap_raw_remove mx t bucket index =
    (let i = occupied_index bucket;
         t = t\<lparr>rs_buckets := (rs_buckets t)[unat i := END]\<rparr>
     in case raw_close rmap_directory rmap_shift t (vacant_new i) of
          None \<Rightarrow> None
        | Some t \<Rightarrow>
            (let r = rmap_at t index; v = the (rr_value r)
             in case generation_next mx (rr_generation r) of
                  Some n \<Rightarrow> Some (v,
                    (rmap_put index (\<lambda>r. r\<lparr>rr_id := FREE OR ucast (index_encode (rs_free t)),
                        rr_generation := n, rr_value := None\<rparr>) t)
                      \<lparr>rs_free := Some index, rs_available := rs_available t + 1\<rparr>)
                | None \<Rightarrow> Some (v, rmap_put index (\<lambda>r. r\<lparr>rr_id := FREE OR ucast END, rr_value := None\<rparr>) t)))"

definition rmap_occupied_remove :: "u32 \<Rightarrow> 'v rmap \<Rightarrow> rmap_occupied \<Rightarrow> ('v \<times> 'v rmap) option" where
  "rmap_occupied_remove mx t e =
    (case (case ro_bucket e of Some bucket \<Rightarrow> Some bucket | None \<Rightarrow> rmap_member t (ro_index e)) of
       None \<Rightarrow> None
     | Some bucket \<Rightarrow> rmap_raw_remove mx t bucket (ro_index e))"

definition rmap_vacant_insert :: "'v rmap \<Rightarrow> rmap_vacant \<Rightarrow> 'v \<Rightarrow> rmap_occupied \<times> 'v rmap" where
  "rmap_vacant_insert t e v =
    (let place = vacant_index (rv_bucket e);
         (index, t) = rmap_raw_insert t (rv_bucket e) (rv_id e) v;
         bucket = occupied_new place
     in (\<lparr>ro_bucket = Some bucket, ro_index = index\<rparr>, t))"

text \<open>The drop of a table: the values it destroys, when their type needs it.\<close>

definition rmap_drop :: "bool \<Rightarrow> 'v rmap \<Rightarrow> 'v list" where
  "rmap_drop NEEDS t =
    (if \<not> NEEDS then [] else map (\<lambda>r. the (rr_value r)) (filter rrecord_is_live (rs_records t)))"

section \<open>Scopes\<close>

text \<open>
  A scope borrows the table while leases on its records are out. Its entry of an old record forgets
  the bucket; only an entry that was just inserted keeps one, and with it the right to be released.
  A lease and a fresh token are the key they hold.
\<close>

definition scope_entry ::
  "'v rmap \<Rightarrow> u64 \<Rightarrow> (rmap_occupied, rmap_vacant option) map_entry option" where
  "scope_entry t ident = (case rmap_entry t ident of
       None \<Rightarrow> None
     | Some (Entry_Occupied e) \<Rightarrow> Some (Entry_Occupied (e\<lparr>ro_bucket := None\<rparr>))
     | Some (Entry_Vacant e) \<Rightarrow> Some (Entry_Vacant e))"

definition scope_exact :: "'v rmap \<Rightarrow> u64 \<Rightarrow> u64 \<Rightarrow> rmap_occupied option" where
  "scope_exact t key ident = rmap_exact t key ident"

definition scope_set :: "'v rmap \<Rightarrow> u64 \<Rightarrow> 'v \<Rightarrow> 'v rmap" where
  "scope_set t lease v =
    (let i = unat (ucast (rmap_key_index lease) :: usize)
     in t\<lparr>rs_records := (rs_records t)[i := (rs_records t ! i)\<lparr>rr_value := Some v\<rparr>]\<rparr>)"

definition scope_publish :: "'v rmap \<Rightarrow> rmap_occupied \<Rightarrow> u64 \<times> u64 option" where
  "scope_publish t e =
    (let key = rmap_occupied_key t e in (key, map_option (\<lambda>_. key) (ro_bucket e)))"

definition scope_release ::
  "u32 \<Rightarrow> 'v rmap \<Rightarrow> rmap_occupied \<Rightarrow> ('v option \<times> 'v rmap) option" where
  "scope_release mx t e =
    (if ro_bucket e \<noteq> None then
       (case rmap_occupied_remove mx t e of None \<Rightarrow> None | Some (v, t) \<Rightarrow> Some (Some v, t))
     else Some (None, t))"

definition retirement_occupied :: "u64 \<Rightarrow> rmap_occupied" where
  "retirement_occupied fresh = \<lparr>ro_bucket = None, ro_index = rmap_key_slot fresh\<rparr>"

end
