(* ===== verification/O3_Resident_Proofs.thy ===== *)
theory O3_Resident_Proofs
  imports O3_Resident
begin

text \<open>
  The invariant of the resident map and what each operation does to it: the directory as an
  interpretation of the probing engine, the live records as its entries, and the chain of the
  records that may be used again.
\<close>

section \<open>Words\<close>

lemma unat_small [simp]: "i < 2 ^ 30 \<Longrightarrow> unat (word_of_nat i :: u32) = i"
  by (rule unat_of_nat_fits) simp

lemma END_not_small [simp]: "i < 2 ^ 30 \<Longrightarrow> (word_of_nat i :: u32) \<noteq> END" "i < 2 ^ 30 \<Longrightarrow> END \<noteq> word_of_nat i"
proof -
  assume i: "i < 2 ^ 30"
  have "unat END = 2 ^ 32 - 1" by (simp add: END_def unsigned_minus_1_eq_mask mask_eq_exp_minus_1)
  then show "(word_of_nat i :: u32) \<noteq> END" using unat_small [OF i] i by force
  then show "END \<noteq> word_of_nat i" by simp
qed

lemma unat_link_get [simp]: "unat (index_get (index_new_raw r)) = unat r"
  by (simp add: index_get_def unat_ucast_widen)

lemma rmap_at_raw [simp]: "rmap_at t (index_new_raw r) = rs_records t ! unat r"
  by (simp add: rmap_at_def)

lemma index_new_usize_small: "i < 2 ^ 30 \<Longrightarrow> index_new_usize (word_of_nat i) = index_new_raw (word_of_nat i)"
proof -
  assume i: "i < 2 ^ 30"
  then have "unat (word_of_nat i :: usize) = i" by (intro unat_of_nat_fits) simp
  then have "unat (ucast (word_of_nat i :: usize) :: u32) = i" using i by (subst unat_ucast_narrow) simp_all
  then have "(ucast (word_of_nat i :: usize) :: u32) = word_of_nat i" using i by (simp add: word_unat_eq_iff)
  then show ?thesis by (simp add: index_new_usize_def)
qed

lemma index_new_raw_inj [simp]: "index_new_raw r = index_new_raw s \<longleftrightarrow> r = s"
  by (metis index_raw_new)

lemma bit_FREE: "bit FREE n \<longleftrightarrow> n = 63"
proof -
  have "bit FREE n \<longleftrightarrow> n < 64 \<and> 63 \<le> n \<and> bit (1 :: u64) (n - 63)"
    unfolding FREE_def by (simp only: bit_push_bit_iff possible_bit_word) auto
  then show ?thesis by (auto simp: bit_1_iff)
qed

lemma FREE_not_0 [simp]: "FREE \<noteq> 0"
  using bit_FREE [of 63] by auto

lemma not_live_FREE [simp]: "(FREE OR x) AND FREE \<noteq> 0"
proof -
  have "bit ((FREE OR x) AND FREE) 63" by (simp only: bit_FREE bit_and_iff bit_or_iff) simp
  then show ?thesis by auto
qed

lemma ucast_FREE [simp]: "(ucast (FREE OR ucast (e :: u32)) :: u32) = e"
  by (rule bit_word_eqI) (auto simp: bit_FREE bit_simps)

lemma ID_MAX_mask: "ID_MAX = mask 62"
  by (simp add: ID_MAX_def mask_eq_exp_minus_1)

lemma live_id:
  assumes "i \<le> ID_MAX"
  shows "i AND FREE = 0" "id_mask i = i"
proof -
  have "unat ID_MAX = 2 ^ 62 - 1" by (simp add: ID_MAX_mask mask_eq_exp_minus_1)
  then have "unat i < 2 ^ 62" using assms by (simp add: word_le_nat_alt)
  then have i: "take_bit 62 i = i" by (simp add: word_unat_eq_iff unsigned_take_bit_eq take_bit_nat_eq_self)
  then show "id_mask i = i" by (simp add: id_mask_def ID_MAX_mask take_bit_eq_mask)
  have "\<not> bit i 63" by (subst i [symmetric]) (simp add: bit_simps)
  then show "i AND FREE = 0" by (intro bit_word_eqI) (auto simp: bit_FREE bit_simps)
qed

section \<open>Keys\<close>

lemma parts_bits:
  fixes a b :: u64
  assumes low: "(ucast a :: u32) = ucast b" and high: "(ucast (drop_bit 32 a) :: u32) = ucast (drop_bit 32 b)"
  shows "a = b"
proof (rule bit_word_eqI)
  fix n assume n: "n < LENGTH(64)"
  show "bit a n = bit b n"
  proof (cases "n < 32")
    case True
    have "bit (ucast a :: u32) n = bit (ucast b :: u32) n" by (simp only: low)
    then show ?thesis using True n by (simp add: bit_simps)
  next
    case False
    have "bit (ucast (drop_bit 32 a) :: u32) (n - 32) = bit (ucast (drop_bit 32 b) :: u32) (n - 32)" by (simp only: high)
    moreover have "n - 32 < 32" "32 + (n - 32) = n" using False n by simp_all
    ultimately show ?thesis by (simp add: bit_simps)
  qed
qed

lemma key_new_parts:
  assumes "unat r < 2 ^ 32 - 1"
  shows "rmap_key_index (rmap_key_new (index_new_raw r) g) = r"
    "rmap_key_generation (rmap_key_new (index_new_raw r) g) = g"
    "(ucast (rmap_key_new (index_new_raw r) g) :: u32) = r + 1"
proof -
  have wide: "unat (ucast x :: u64) = unat x" for x :: u32 by (rule unat_ucast_widen) simp
  have "unat (r + 1) = unat r + 1" using assms by (intro unat_add_fits [THEN trans]) simp_all
  moreover have "unat (1 :: u64) + unat (ucast r :: u64) < 2 ^ LENGTH(64)"
    unfolding wide using assms by simp
  ultimately have slot: "saturating_add 1 (ucast r :: u64) = ucast (r + 1)"
    by (simp only: saturating_add_def if_True word_unat_eq_iff unat_add_fits wide unsigned_1 add.commute)
  have new: "rmap_key_new (index_new_raw r) g = ucast (r + 1) OR push_bit 32 (ucast g)"
    by (simp add: rmap_key_new_def slot)
  show 1: "(ucast (rmap_key_new (index_new_raw r) g) :: u32) = r + 1"
    unfolding new by (rule bit_word_eqI) (auto simp: bit_simps)
  then show "rmap_key_index (rmap_key_new (index_new_raw r) g) = r" by (simp add: rmap_key_index_def)
  show "rmap_key_generation (rmap_key_new (index_new_raw r) g) = g"
    unfolding rmap_key_generation_def new
    by (rule bit_word_eqI) (auto simp: bit_simps dest: bit_imp_le_length)
qed

lemma key_parts_new:
  assumes "(ucast key :: u32) \<noteq> 0"
  shows "rmap_key_new (rmap_key_slot key) (rmap_key_generation key) = key" "unat (rmap_key_index key) < 2 ^ 32 - 1"
proof -
  have c: "(ucast key :: u32) = rmap_key_index key + 1" by (simp add: rmap_key_index_def)
  then have "unat (rmap_key_index key) = unat (ucast key :: u32) - 1" using unat_pred [OF assms] by (simp add: rmap_key_index_def)
  then show small: "unat (rmap_key_index key) < 2 ^ 32 - 1" using unat_bound [of "ucast key :: u32"] by simp
  note new = key_new_parts [OF small, of "rmap_key_generation key", folded rmap_key_slot_def]
  show "rmap_key_new (rmap_key_slot key) (rmap_key_generation key) = key"
  proof (rule parts_bits)
    show "(ucast (rmap_key_new (rmap_key_slot key) (rmap_key_generation key)) :: u32) = ucast key"
      using new(3) c by simp
    show "(ucast (drop_bit 32 (rmap_key_new (rmap_key_slot key) (rmap_key_generation key))) :: u32) = ucast (drop_bit 32 key)"
      using new(2) by (simp add: rmap_key_generation_def)
  qed
qed


section \<open>The directory\<close>

text \<open>An occupied bucket holds the position of its record; the record's identity gives the hash.\<close>

definition rmap_ent :: "'v rmap \<Rightarrow> u32 buckets" where
  "rmap_ent t p =
    (if p < length (rs_buckets t) \<and> rs_buckets t ! p \<noteq> END
     then Some (rs_hash t (rrecord_id (rs_records t ! unat (rs_buckets t ! p))), rs_buckets t ! p) else None)"

definition rmap_dir_ok :: "'v rmap \<Rightarrow> bool" where
  "rmap_dir_ok t \<longleftrightarrow> length (rs_buckets t) \<in> (\<lambda>k. 2 ^ k) ` {..31}"

lemma rmap_dir_bound: "rmap_dir_ok t \<Longrightarrow> 0 < length (rs_buckets t) \<and> length (rs_buckets t) \<le> 2 ^ 31"
proof -
  assume "rmap_dir_ok t"
  then obtain k where k: "k \<le> 31" "length (rs_buckets t) = 2 ^ k" by (auto simp: rmap_dir_ok_def)
  then show ?thesis using power_increasing [of k 31 "2 :: nat"] by simp
qed

lemma rmap_buckets [simp]: "dir_buckets rmap_directory t = word_of_nat (length (rs_buckets t))"
  by (simp add: rmap_directory_def)

lemma unat_buckets [simp]: "rmap_dir_ok t \<Longrightarrow> unat (word_of_nat (length (rs_buckets t)) :: usize) = length (rs_buckets t)"
  using rmap_dir_bound [of t] by (intro unat_index) simp

lemma rmap_entD: "rmap_ent t p = Some (h, x) \<Longrightarrow> p < length (rs_buckets t) \<and> x \<noteq> END \<and> rs_buckets t ! p = x \<and>
    h = rs_hash t (rrecord_id (rs_records t ! unat x))"
  by (auto simp: rmap_ent_def split: if_splits)

interpretation rmap_dir: plain rmap_directory rmap_dir_ok rmap_ent
proof
  fix t :: "'v rmap" and i :: usize and h
  assume ok: "rmap_dir_ok t"
  show "extent_ok (dir_buckets rmap_directory t)"
    using ok unfolding extent_ok_def by (simp only: rmap_buckets unat_buckets) (simp only: rmap_dir_ok_def)
  assume "unat i < unat (dir_buckets rmap_directory t)"
  then have i: "unat i < length (rs_buckets t)" using ok by simp
  show "dir_hash rmap_directory t i = map_option fst (rmap_ent t (unat i))"
    using i by (simp add: rmap_directory_def rmap_ent_def rmap_at_def index_decode_eq)
  show "dir_candidate rmap_directory t i h = (if rmap_ent t (unat i) = None then Candidate_Vacant else Candidate_Occupied)"
    using i by (simp add: rmap_directory_def rmap_ent_def)
qed

text \<open>A shift moves no record.\<close>

interpretation rmap_hole: shiftable rmap_directory "\<lambda>t. rmap_dir_ok t \<and> t\<lparr>rs_buckets := []\<rparr> = fixed" rmap_ent rmap_shift
  for fixed :: "'v rmap"
proof
  fix t :: "'v rmap" and i :: usize and g j :: nat and h x
  assume t: "rmap_dir_ok t \<and> t\<lparr>rs_buckets := []\<rparr> = fixed"
  show "extent_ok (dir_buckets rmap_directory t)" using t rmap_dir.extent by blast
  show "dir_hash rmap_directory t i = map_option fst (rmap_ent t (unat i))" if "unat i < unat (dir_buckets rmap_directory t)"
    using t that rmap_dir.hash_law by blast
  assume g: "g < unat (dir_buckets rmap_directory t)" "j < unat (dir_buckets rmap_directory t)" "g \<noteq> j"
    "rmap_ent t g = None" "rmap_ent t j = Some (h, x)"
  then have n: "g < length (rs_buckets t)" "j < length (rs_buckets t)" using t by simp_all
  have ix: "unat (vacant_index (vac g)) = g" "unat (occupied_index (occ j)) = j"
    using n rmap_dir_bound [of t] t by (simp_all add: vac_def occ_def)
  have "rmap_shift t (vac g) (occ j) h = t\<lparr>rs_buckets := (rs_buckets t)[g := rs_buckets t ! j, j := END]\<rparr>"
    by (simp add: rmap_shift_def ix)
  then show "(rmap_dir_ok (rmap_shift t (vac g) (occ j) h) \<and> (rmap_shift t (vac g) (occ j) h)\<lparr>rs_buckets := []\<rparr> = fixed) \<and>
      dir_buckets rmap_directory (rmap_shift t (vac g) (occ j) h) = dir_buckets rmap_directory t \<and>
      rmap_ent (rmap_shift t (vac g) (occ j) h) = (rmap_ent t)(g := rmap_ent t j, j := None)"
    using t n g by (auto simp: rmap_dir_ok_def rmap_ent_def fun_eq_iff nth_list_update)
qed

section \<open>The invariant\<close>

definition rmap_live :: "'v rmap \<Rightarrow> nat \<Rightarrow> bool" where
  "rmap_live t i \<longleftrightarrow> i < length (rs_records t) \<and> rrecord_is_live (rs_records t ! i)"

text \<open>The records from a free head on, in the order in which they will be used again.\<close>

fun rmap_chain :: "'v rrecord list \<Rightarrow> link_index option \<Rightarrow> nat list \<Rightarrow> bool" where
  "rmap_chain rs f [] \<longleftrightarrow> f = None"
| "rmap_chain rs f (i # xs) \<longleftrightarrow> f = Some (index_new_raw (word_of_nat i)) \<and> i < length rs \<and>
     rmap_chain rs (index_decode (ucast (rr_id (rs ! i)))) xs"

text \<open>What the directory must show: every live record under the hash of its identity, once.\<close>

definition rmap_shown :: "'v rmap \<Rightarrow> (u64 \<times> u32) multiset" where
  "rmap_shown t = image_mset (\<lambda>i. (rs_hash t (rr_id (rs_records t ! i)), word_of_nat i)) (mset_set {i. rmap_live t i})"

definition rmap_records_ok :: "u32 \<Rightarrow> 'v rmap \<Rightarrow> bool" where
  "rmap_records_ok mx t \<longleftrightarrow> (\<forall>r\<in>set (rs_records t). rr_generation r \<le> mx \<and>
     (rrecord_is_live r \<longrightarrow> rr_id r \<le> ID_MAX \<and> rr_value r \<noteq> None)) \<and>
   inj_on (\<lambda>i. rr_id (rs_records t ! i)) {i. rmap_live t i}"

definition rmap_free_ok :: "nat \<Rightarrow> 'v rmap \<Rightarrow> nat list \<Rightarrow> bool" where
  "rmap_free_ok n t xs \<longleftrightarrow> rmap_chain (rs_records t) (rs_free t) xs \<and> distinct xs \<and> (\<forall>i\<in>set xs. \<not> rmap_live t i) \<and>
     unat (rs_available t) + length (rs_records t) = n + length xs"

lemma rmap_free_okD:
  assumes "rmap_free_ok n t xs"
  shows "rmap_chain (rs_records t) (rs_free t) xs" "distinct xs" "i \<in> set xs \<Longrightarrow> \<not> rmap_live t i"
    "unat (rs_available t) + length (rs_records t) = n + length xs"
  using assms by (simp_all add: rmap_free_ok_def)

definition rmap_ok :: "u32 \<Rightarrow> nat \<Rightarrow> 'v rmap \<Rightarrow> bool" where
  "rmap_ok mx n t \<longleftrightarrow> rmap_dir_ok t \<and> n \<le> 2 ^ 29 \<and> n < length (rs_buckets t) \<and> length (rs_records t) \<le> n \<and>
     rmap_records_ok mx t \<and> entries (length (rs_buckets t)) (rmap_ent t) = rmap_shown t \<and>
     reach (length (rs_buckets t)) (rmap_ent t) \<and> (\<exists>xs. rmap_free_ok n t xs)"

lemma finite_live [simp]: "finite {i. rmap_live t i}"
  by (rule finite_subset [of _ "{..<length (rs_records t)}"]) (auto simp: rmap_live_def)

lemma rmap_okD:
  assumes "rmap_ok mx n t"
  shows "rmap_dir_ok t" "n \<le> 2 ^ 29" "n < length (rs_buckets t)" "length (rs_records t) \<le> n" "rmap_records_ok mx t"
    "entries (length (rs_buckets t)) (rmap_ent t) = rmap_shown t" "reach (length (rs_buckets t)) (rmap_ent t)"
    "unat (dir_buckets rmap_directory t) = length (rs_buckets t)"
  using assms by (simp_all add: rmap_ok_def)

lemma rmap_live_record:
  assumes "rmap_ok mx n t" "rmap_live t i"
  shows "i < 2 ^ 29" "rr_id (rs_records t ! i) \<le> ID_MAX" "rr_value (rs_records t ! i) \<noteq> None"
    "rrecord_id (rs_records t ! i) = rr_id (rs_records t ! i)" "rr_generation (rs_records t ! i) \<le> mx"
proof -
  show "i < 2 ^ 29" using assms by (simp add: rmap_ok_def rmap_live_def)
  have "rs_records t ! i \<in> set (rs_records t)" using assms(2) by (simp add: rmap_live_def)
  then show "rr_id (rs_records t ! i) \<le> ID_MAX" "rr_value (rs_records t ! i) \<noteq> None" "rr_generation (rs_records t ! i) \<le> mx"
    using assms by (simp_all add: rmap_ok_def rmap_records_ok_def rmap_live_def)
  then show "rrecord_id (rs_records t ! i) = rr_id (rs_records t ! i)" by (simp add: rrecord_id_def live_id)
qed

text \<open>The live record of an occupied bucket, and the one bucket of a live record.\<close>

lemma rmap_ent_live:
  assumes "rmap_ok mx n t" "rmap_ent t p = Some (h, x)"
  obtains i where "rmap_live t i" "x = word_of_nat i" "unat x = i" "h = rs_hash t (rr_id (rs_records t ! i))"
    "rs_buckets t ! p = x"
proof -
  have "(h, x) \<in># entries (length (rs_buckets t)) (rmap_ent t)"
    using assms(2) rmap_entD [OF assms(2)] by (auto simp: entries_member)
  then obtain i where i: "rmap_live t i" "x = word_of_nat i" "h = rs_hash t (rr_id (rs_records t ! i))"
    unfolding rmap_okD(6) [OF assms(1)] by (auto simp: rmap_shown_def)
  have "unat x = i" unfolding i(2) using rmap_live_record(1) [OF assms(1) i(1)] by (intro unat_small) simp
  then show ?thesis using that i rmap_entD [OF assms(2)] by blast
qed

lemma rmap_live_ent:
  assumes "rmap_ok mx n t" "rmap_live t i"
  obtains p where "p < length (rs_buckets t)" "rmap_ent t p = Some (rs_hash t (rr_id (rs_records t ! i)), word_of_nat i)"
proof -
  have "(rs_hash t (rr_id (rs_records t ! i)), word_of_nat i) \<in># entries (length (rs_buckets t)) (rmap_ent t)"
    unfolding rmap_okD(6) [OF assms(1)] using assms(2) by (auto simp: rmap_shown_def)
  then show ?thesis using that by (auto simp: entries_member)
qed

lemma image_mset_inj:
  assumes "image_mset f (mset_set A) = image_mset g (mset_set B)" "inj_on g B" "finite A" "finite B"
  shows "inj_on f A"
proof -
  have "f ` A = g ` B" using assms by (metis finite_set_mset_mset_set set_image_mset)
  moreover have "card A = card B" using assms(1) by (metis size_image_mset size_mset_set)
  ultimately have "card (f ` A) = card A" using card_image [OF assms(2)] by simp
  then show ?thesis using eq_card_imp_inj_on assms(3) by blast
qed

lemma rmap_ent_inj:
  assumes "rmap_ok mx n t" "rmap_ent t p = Some (h, x)" "rmap_ent t q = Some (h', x)"
  shows "p = q"
proof -
  let ?n = "length (rs_buckets t)"
  have "inj_on (\<lambda>i. (rs_hash t (rr_id (rs_records t ! i)), word_of_nat i :: u32)) {i. rmap_live t i}"
  proof (rule inj_onI)
    fix i j assume i: "i \<in> {i. rmap_live t i}" "j \<in> {i. rmap_live t i}"
      and eq: "(rs_hash t (rr_id (rs_records t ! i)), word_of_nat i :: u32) = (rs_hash t (rr_id (rs_records t ! j)), word_of_nat j)"
    have "i < 2 ^ 30" "j < 2 ^ 30" using i rmap_live_record(1) [OF assms(1)] by fastforce+
    moreover have "(word_of_nat i :: u32) = word_of_nat j" using eq by simp
    ultimately show "i = j" by (metis unat_small)
  qed
  then have inj: "inj_on (\<lambda>i. the (rmap_ent t i)) {i. i < ?n \<and> rmap_ent t i \<noteq> None}"
    using image_mset_inj [OF rmap_okD(6) [OF assms(1), unfolded entries_def rmap_shown_def]] by simp
  have "h = h'" "p < ?n" "q < ?n" using rmap_entD [OF assms(2)] rmap_entD [OF assms(3)] by auto
  show ?thesis by (rule inj_onD [OF inj]) (use assms(2,3) \<open>h = h'\<close> \<open>p < ?n\<close> \<open>q < ?n\<close> in simp_all)
qed

lemma rmap_vacancy:
  assumes "rmap_ok mx n t"
  obtains v where "v < length (rs_buckets t)" "rmap_ent t v = None"
proof (rule entries_vacancy)
  have "card {i. rmap_live t i} \<le> card {..<length (rs_records t)}" by (rule card_mono) (auto simp: rmap_live_def)
  then show "size (entries (length (rs_buckets t)) (rmap_ent t)) < length (rs_buckets t)"
    using assms by (simp add: rmap_okD(6) [OF assms] rmap_shown_def) (simp add: rmap_ok_def)
qed (rule that)

section \<open>Scans\<close>

text \<open>The matcher at a bucket.\<close>

lemma rmap_at_bucket:
  assumes "rmap_dir_ok t" "p < length (rs_buckets t)"
  shows "rmap_bucket_index t (occ p) = index_new_raw (rs_buckets t ! p)"
    "rmap_at t (rmap_bucket_index t (occ p)) = rs_records t ! unat (rs_buckets t ! p)"
    "unat (occupied_index (occ p)) = p" "occupied_index (occ p) = word_of_nat p" "unat (vacant_index (vac p)) = p"
    "vacant_index (vac p) = word_of_nat p"
proof -
  have p: "p < 2 ^ 31" using rmap_dir_bound [OF assms(1)] assms(2) by linarith
  then show "occupied_index (occ p) = word_of_nat p" "vacant_index (vac p) = word_of_nat p"
    by (simp_all add: occ_def vac_def)
  then show ix: "unat (occupied_index (occ p)) = p" "unat (vacant_index (vac p)) = p" using p by simp_all
  then show "rmap_bucket_index t (occ p) = index_new_raw (rs_buckets t ! p)" by (simp add: rmap_bucket_index_def)
  then show "rmap_at t (rmap_bucket_index t (occ p)) = rs_records t ! unat (rs_buckets t ! p)" by (simp add: rmap_at_def)
qed

definition vacant_at :: "'v rmap \<Rightarrow> u64 \<Rightarrow> nat \<Rightarrow> bool" where
  "vacant_at t h p \<longleftrightarrow> p < length (rs_buckets t) \<and> rmap_ent t p = None \<and>
     (\<forall>e < dist (length (rs_buckets t)) (home (length (rs_buckets t)) h) p.
        rmap_ent t ((home (length (rs_buckets t)) h + e) mod length (rs_buckets t)) \<noteq> None)"

lemma rmap_hit:
  assumes "rmap_ok mx n t" "rmap_ent t p = Some (h, x)" "rr_id (rmap_at t (rmap_bucket_index t (occ p))) = ident"
  shows "rmap_live t (unat x)" "rmap_ent t p = Some (rs_hash t ident, word_of_nat (unat x))" "rr_id (rs_records t ! unat x) = ident"
    "h = rs_hash t ident"
proof -
  obtain i where "rmap_live t i" "x = word_of_nat i" "unat x = i" "h = rs_hash t (rr_id (rs_records t ! i))"
      "rs_buckets t ! p = x" by (rule rmap_ent_live [OF assms(1,2)])
  then show "rmap_live t (unat x)" "rmap_ent t p = Some (rs_hash t ident, word_of_nat (unat x))"
      "rr_id (rs_records t ! unat x) = ident" "h = rs_hash t ident"
    using assms rmap_entD [OF assms(2)] by (simp_all add: rmap_at_bucket [OF rmap_okD(1) [OF assms(1)]])
qed

lemma rmap_scan_walk:
  assumes "rmap_ok mx n t"
  shows "raw_scan rmap_directory True t (rs_hash t ident)
      (\<lambda>bucket. Inr (rr_id (rmap_at t (rmap_bucket_index t bucket)) = ident) :: unit + bool) =
    Some (probe_walk (length (rs_buckets t)) (rmap_ent t) (rs_hash t ident)
      (\<lambda>bucket. Inr (rr_id (rmap_at t (rmap_bucket_index t bucket)) = ident))
      (home (length (rs_buckets t)) (rs_hash t ident)) (length (rs_buckets t)))"
proof -
  note ok = rmap_okD [OF assms]
  obtain v where v: "v < length (rs_buckets t)" "rmap_ent t v = None" by (rule rmap_vacancy [OF assms])
  show ?thesis
    by (rule rmap_dir.plain_scan [OF ok(1), unfolded ok(8), OF v]) (use rmap_hit(4) [OF assms] in auto)
qed

lemma rmap_scan_exact:
  assumes "rmap_ok mx n t"
  shows "(\<exists>i p. rmap_live t i \<and> rr_id (rs_records t ! i) = ident \<and> p < length (rs_buckets t) \<and>
        rmap_ent t p = Some (rs_hash t ident, word_of_nat i) \<and> rmap_scan t ident = Some (State_Occupied (occ p)))
    \<or> (\<exists>p. (\<forall>i. rmap_live t i \<longrightarrow> rr_id (rs_records t ! i) \<noteq> ident) \<and> vacant_at t (rs_hash t ident) p \<and>
        rmap_scan t ident = Some (State_Vacant (vac p)))"
proof -
  let ?n = "length (rs_buckets t)"
  let ?m = "\<lambda>bucket. Inr (rr_id (rmap_at t (rmap_bucket_index t bucket)) = ident) :: unit + bool"
  note ok = rmap_okD [OF assms] and scan = rmap_scan_walk [OF assms, of ident]
  show ?thesis
  proof (cases "\<exists>i. rmap_live t i \<and> rr_id (rs_records t ! i) = ident")
    case True
    then obtain i where i: "rmap_live t i" "rr_id (rs_records t ! i) = ident" by blast
    obtain p where p: "p < ?n" "rmap_ent t p = Some (rs_hash t ident, word_of_nat i)"
      using rmap_live_ent [OF assms i(1)] i(2) by blast
    have "unat (word_of_nat i :: u32) = i" using rmap_live_record(1) [OF assms i(1)] by (intro unat_small) simp
    then have "?m (occ p) = Inr True" using rmap_entD [OF p(2)] i(2) by (simp add: rmap_at_bucket [OF ok(1) p(1)])
    from probe_walk_some [where matches = ?m, OF ok(7) p(1,2) this] obtain q x where q: "q < ?n"
        "rmap_ent t q = Some (rs_hash t ident, x)" "?m (occ q) = Inr True"
        "probe_walk ?n (rmap_ent t) (rs_hash t ident) ?m (home ?n (rs_hash t ident)) ?n = Inr (State_Occupied (occ q))"
      by blast
    have "rr_id (rmap_at t (rmap_bucket_index t (occ q))) = ident" using q(3) by simp
    note h = rmap_hit [OF assms q(2) this]
    have "rmap_scan t ident = Some (State_Occupied (occ q))" by (simp add: rmap_scan_def scan q(4))
    then show ?thesis using h(1-3) q(1) by blast
  next
    case False
    obtain v where v: "v < ?n" "rmap_ent t v = None" by (rule rmap_vacancy [OF assms])
    have no: "?m (occ p) = Inr False" if "p < ?n" "rmap_ent t p = Some (rs_hash t ident, x)" for p x
      using rmap_hit(1,3) [OF assms that(2) refl] False by auto
    obtain q where q: "q < ?n" "rmap_ent t q = None"
        "\<And>e. e < dist ?n (home ?n (rs_hash t ident)) q \<Longrightarrow> rmap_ent t ((home ?n (rs_hash t ident) + e) mod ?n) \<noteq> None"
        "probe_walk ?n (rmap_ent t) (rs_hash t ident) ?m (home ?n (rs_hash t ident)) ?n = Inr (State_Vacant (vac q))"
      by (rule probe_walk_vacant [where matches = ?m and ent = "rmap_ent t" and hash = "rs_hash t ident", OF v])
         (use no in blast)+
    have "rmap_scan t ident = Some (State_Vacant (vac q))" by (simp add: rmap_scan_def scan q(4))
    moreover have "vacant_at t (rs_hash t ident) q" using q by (simp add: vacant_at_def)
    ultimately show ?thesis using False by blast
  qed
qed

text \<open>A live record's bucket is found from the record alone.\<close>

lemma rmap_member_exact:
  assumes "rmap_ok mx n t" "rmap_live t i"
  obtains p where "p < length (rs_buckets t)" "rmap_ent t p = Some (rs_hash t (rr_id (rs_records t ! i)), word_of_nat i)"
    "rmap_member t (index_new_raw (word_of_nat i)) = Some (occ p)"
proof -
  note ok = rmap_okD [OF assms(1)] and r = rmap_live_record [OF assms]
  obtain p where p: "p < length (rs_buckets t)" "rmap_ent t p = Some (rs_hash t (rr_id (rs_records t ! i)), word_of_nat i)"
    by (rule rmap_live_ent [OF assms])
  have i: "unat (word_of_nat i :: u32) = i" using r(1) by (intro unat_small) simp
  let ?m = "\<lambda>b. rmap_bucket_index t b = index_new_raw (word_of_nat i)"
  have "raw_member rmap_directory t (rs_hash t (rr_id (rs_records t ! i))) ?m = Some (occ p)"
  proof (rule rmap_dir.plain_member_found [OF ok(1), unfolded ok(8), OF ok(7) p])
    show "?m (occ p)" using rmap_entD [OF p(2)] by (simp add: rmap_at_bucket [OF ok(1) p(1)])
    fix q assume q: "q < length (rs_buckets t)" "rmap_ent t q \<noteq> None" "?m (occ q)"
    then obtain h x where hx: "rmap_ent t q = Some (h, x)" by auto
    then have "x = word_of_nat i" using q rmap_entD [OF hx] by (simp add: rmap_at_bucket [OF ok(1)])
    then show "q = p" using rmap_ent_inj [OF assms(1) _ p(2)] hx by simp
  qed
  then show ?thesis using that p i by (simp add: rmap_member_def rmap_at_def r(4))
qed

section \<open>Insertion\<close>

text \<open>The records with one of them written, or one more.\<close>

definition record_put :: "nat \<Rightarrow> 'v rrecord \<Rightarrow> 'v rrecord list \<Rightarrow> 'v rrecord list" where
  "record_put i r rs = (if i < length rs then rs[i := r] else rs @ [r])"

lemma record_put_nth: "i \<le> length rs \<Longrightarrow> j < length (record_put i r rs) \<Longrightarrow> record_put i r rs ! j = (if j = i then r else rs ! j)"
  by (auto simp: record_put_def nth_append nth_list_update)

lemma record_put_length: "i \<le> length rs \<Longrightarrow> length (record_put i r rs) = (if i < length rs then length rs else Suc (length rs))"
  by (simp add: record_put_def)

lemma record_put_set: "set (record_put i r rs) \<subseteq> insert r (set rs)"
  by (auto simp: record_put_def dest: set_update_subset_insert [THEN subsetD])

text \<open>Record \<open>i\<close>, not live, becomes \<open>r\<close>, and the vacancy at \<open>p\<close> shows it.\<close>

definition publication :: "u32 \<Rightarrow> nat \<Rightarrow> 'v rmap \<Rightarrow> nat \<Rightarrow> nat \<Rightarrow> 'v rrecord \<Rightarrow> 'v rmap \<Rightarrow> bool" where
  "publication mx n t i p r t' \<longleftrightarrow> rmap_ok mx n t \<and>
     i \<le> length (rs_records t) \<and> \<not> rmap_live t i \<and> vacant_at t (rs_hash t (rr_id r)) p \<and>
     (\<forall>j. rmap_live t j \<longrightarrow> rr_id (rs_records t ! j) \<noteq> rr_id r) \<and>
     rr_id r \<le> ID_MAX \<and> rr_value r \<noteq> None \<and> rr_generation r \<le> mx \<and>
     rs_records t' = record_put i r (rs_records t) \<and> rs_buckets t' = (rs_buckets t)[p := word_of_nat i] \<and>
     rs_hash t' = rs_hash t \<and> length (rs_records t') \<le> n"

lemma publicationD:
  assumes "publication mx n t i p r t'"
  shows "rmap_ok mx n t" "i \<le> length (rs_records t)" "\<not> rmap_live t i" "vacant_at t (rs_hash t (rr_id r)) p"
    "p < length (rs_buckets t)" "rmap_ent t p = None"
    "\<And>j. rmap_live t j \<Longrightarrow> rr_id (rs_records t ! j) \<noteq> rr_id r"
    "rr_id r \<le> ID_MAX" "rr_value r \<noteq> None" "rr_generation r \<le> mx"
    "rs_records t' = record_put i r (rs_records t)" "rs_buckets t' = (rs_buckets t)[p := word_of_nat i]"
    "rs_hash t' = rs_hash t" "i < 2 ^ 29" "i < length (rs_records t')" "length (rs_records t') \<le> n"
proof -
  show *: "rmap_ok mx n t" "i \<le> length (rs_records t)" "\<not> rmap_live t i" "vacant_at t (rs_hash t (rr_id r)) p"
    "p < length (rs_buckets t)" "rmap_ent t p = None"
    "\<And>j. rmap_live t j \<Longrightarrow> rr_id (rs_records t ! j) \<noteq> rr_id r"
    "rr_id r \<le> ID_MAX" "rr_value r \<noteq> None" "rr_generation r \<le> mx"
    "rs_records t' = record_put i r (rs_records t)" "rs_buckets t' = (rs_buckets t)[p := word_of_nat i]"
    "rs_hash t' = rs_hash t" "length (rs_records t') \<le> n"
    using assms unfolding publication_def vacant_at_def by blast+
  show i: "i < length (rs_records t')" using *(2) by (simp add: *(11) record_put_length)
  then show "i < 2 ^ 29" using *(14) rmap_okD(2) [OF *(1)] by linarith
qed

lemma publication_nth:
  assumes "publication mx n t i p r t'" "j < length (rs_records t')"
  shows "rs_records t' ! j = (if j = i then r else rs_records t ! j)"
  using publicationD(2,11) [OF assms(1)] assms(2) by (simp add: record_put_nth)

lemma publication_live:
  assumes "publication mx n t i p r t'"
  shows "rmap_live t' j \<longleftrightarrow> j = i \<or> rmap_live t j"
proof -
  note D = publicationD [OF assms]
  have "rrecord_is_live r" using live_id(1) [OF D(8)] by (simp add: rrecord_is_live_def)
  moreover have "j < length (rs_records t') \<longleftrightarrow> j = i \<or> j < length (rs_records t)"
    using D(2) by (auto simp: D(11) record_put_length)
  ultimately show ?thesis using publication_nth [OF assms, of j] by (auto simp: rmap_live_def)
qed

lemma publication_same:
  assumes "publication mx n t i p r t'" "rmap_live t j"
  shows "j \<noteq> i" "rs_records t' ! j = rs_records t ! j"
proof -
  show "j \<noteq> i" using publicationD(3) [OF assms(1)] assms(2) by auto
  then show "rs_records t' ! j = rs_records t ! j"
    using publication_nth [OF assms(1), of j] publication_live [OF assms(1), of j] assms(2) by (simp add: rmap_live_def)
qed

lemma rmap_ent_None_iff: "rmap_ent t q = None \<longleftrightarrow> \<not> q < length (rs_buckets t) \<or> rs_buckets t ! q = END"
  by (simp add: rmap_ent_def)

lemma publication_ent:
  assumes "publication mx n t i p r t'"
  shows "rmap_ent t' = (rmap_ent t)(p \<mapsto> (rs_hash t (rr_id r), word_of_nat i))"
proof
  fix q
  note D = publicationD [OF assms]
  have i: "unat (word_of_nat i :: u32) = i" "(word_of_nat i :: u32) \<noteq> END"
    using D(14) by (intro unat_small END_not_small; simp)+
  consider "q = p" | "q \<noteq> p" "rmap_ent t q = None" | h x where "q \<noteq> p" "rmap_ent t q = Some (h, x)" by force
  then show "rmap_ent t' q = ((rmap_ent t)(p \<mapsto> (rs_hash t (rr_id r), word_of_nat i))) q"
  proof cases
    case 1
    then show ?thesis using D(5) i publication_nth [OF assms D(15)] live_id(2) [OF D(8)]
      by (simp add: rmap_ent_def D(12,13) rrecord_id_def)
  next
    case 2
    then show ?thesis unfolding rmap_ent_None_iff fun_upd_other [OF 2(1)] by (auto simp: rmap_ent_def D(12))
  next
    case 3
    obtain j where j: "rmap_live t j" "unat x = j" "rs_buckets t ! q = x" by (rule rmap_ent_live [OF D(1) 3(2)])
    then show ?thesis using 3 rmap_entD [OF 3(2)] publication_same [OF assms j(1)]
      by (simp add: rmap_ent_def D(12,13))
  qed
qed

lemma publication_shown:
  assumes "publication mx n t i p r t'"
  shows "rmap_shown t' = add_mset (rs_hash t (rr_id r), word_of_nat i) (rmap_shown t)"
proof -
  note D = publicationD [OF assms]
  have "{j. rmap_live t' j} = insert i {j. rmap_live t j}" using publication_live [OF assms] by auto
  moreover have "i \<notin> {j. rmap_live t j}" using D(3) by simp
  ultimately have "rmap_shown t' = add_mset (rs_hash t (rr_id r), word_of_nat i)
      (image_mset (\<lambda>j. (rs_hash t (rr_id (rs_records t' ! j)), word_of_nat j)) (mset_set {j. rmap_live t j}))"
    using publication_nth [OF assms D(15)] by (simp add: rmap_shown_def D(13))
  also have "image_mset (\<lambda>j. (rs_hash t (rr_id (rs_records t' ! j)), word_of_nat j)) (mset_set {j. rmap_live t j}) = rmap_shown t"
    unfolding rmap_shown_def by (rule image_mset_cong) (simp add: publication_same [OF assms])
  finally show ?thesis .
qed

lemma publication_records:
  assumes "publication mx n t i p r t'"
  shows "rmap_records_ok mx t'"
proof -
  note D = publicationD [OF assms] and live = publication_live [OF assms] and same = publication_same [OF assms]
  have old: "rmap_records_ok mx t" by (rule rmap_okD(5) [OF D(1)])
  then have inj: "inj_on (\<lambda>j. rr_id (rs_records t ! j)) {j. rmap_live t j}" by (simp add: rmap_records_ok_def)
  have i: "rs_records t' ! i = r" using publication_nth [OF assms D(15)] by simp
  have "inj_on (\<lambda>j. rr_id (rs_records t' ! j)) {j. rmap_live t' j}"
  proof (rule inj_onI)
    fix j k assume jk: "j \<in> {j. rmap_live t' j}" "k \<in> {j. rmap_live t' j}" "rr_id (rs_records t' ! j) = rr_id (rs_records t' ! k)"
    show "j = k"
    proof (cases "j = i \<or> k = i")
      case True
      then show ?thesis using jk i D(7) [of j] D(7) [of k] same by (auto simp: live)
    next
      case False
      then show ?thesis using jk same inj_onD [OF inj, of j k] by (simp add: live)
    qed
  qed
  then show ?thesis
    using old D(8-10) record_put_set [of i r "rs_records t"] by (auto simp: rmap_records_ok_def D(11))
qed

lemma publication_ok:
  assumes "publication mx n t i p r t'" "rmap_free_ok n t' xs"
  shows "rmap_ok mx n t'"
proof -
  note D = publicationD [OF assms(1)] and ok = rmap_okD [OF publicationD(1) [OF assms(1)]]
  have len: "length (rs_buckets t') = length (rs_buckets t)" by (simp add: D(12))
  have "reach (length (rs_buckets t)) (rmap_ent t')"
    unfolding publication_ent [OF assms(1)] using D(4) by (intro reach_fill [OF ok(7) D(5)]) (simp add: vacant_at_def)
  moreover have "entries (length (rs_buckets t)) (rmap_ent t') = rmap_shown t'"
    unfolding publication_ent [OF assms(1)] publication_shown [OF assms(1)]
    using entries_fill [where ent = "rmap_ent t", OF D(5,6)] ok(6) by simp
  ultimately show ?thesis
    using ok(1-3) publication_records [OF assms(1)] D(16) assms(2)
    by (auto simp: rmap_ok_def rmap_dir_ok_def len)
qed

text \<open>The free chain does not see records outside it.\<close>

lemma rmap_chain_cong:
  "rmap_chain rs f xs \<Longrightarrow> length rs \<le> length rs' \<Longrightarrow> (\<forall>i\<in>set xs. rs' ! i = rs ! i) \<Longrightarrow> rmap_chain rs' f xs"
  by (induction rs f xs rule: rmap_chain.induct) auto

lemma rmap_chain_below: "rmap_chain rs f xs \<Longrightarrow> i \<in> set xs \<Longrightarrow> i < length rs"
  by (induction rs f xs rule: rmap_chain.induct) auto

lemma record_put_old: "i \<le> length rs \<Longrightarrow> length rs \<le> length (record_put i r rs)"
  by (simp add: record_put_length)

text \<open>What an insertion publishes: the head of the free chain under its generation, or a new record.\<close>

lemma rmap_insert_publishes:
  assumes ok: "rmap_ok mx n t" and vac: "vacant_at t (rs_hash t ident) p" and room: "rs_available t \<noteq> 0"
    and ident: "ident \<le> ID_MAX" "\<And>j. rmap_live t j \<Longrightarrow> rr_id (rs_records t ! j) \<noteq> ident"
  obtains i r t' xs ys where "rmap_vacant_insert t \<lparr>rv_bucket = vac p, rv_id = ident\<rparr> v =
      (\<lparr>ro_bucket = Some (occ p), ro_index = index_new_raw (word_of_nat i)\<rparr>, t')"
    "publication mx n t i p r t'" "rr_id r = ident" "rr_value r = Some v" "rmap_ok mx n t'"
    "rs_available t' = rs_available t - 1"
    "rr_generation r = (if i < length (rs_records t) then rr_generation (rs_records t ! i) else generation_INITIAL)"
    "rmap_free_ok n t xs" "rmap_free_ok n t' ys" "set ys \<subseteq> set xs" "i < length (rs_records t) \<Longrightarrow> i \<in> set xs"
proof -
  obtain xs where xs: "rmap_free_ok n t xs" using ok by (auto simp: rmap_ok_def)
  have p: "p < length (rs_buckets t)" using vac by (simp add: vacant_at_def)
  note ix = rmap_at_bucket(5,6) [OF rmap_okD(1) [OF ok] p]
  have occ: "occupied_new (vacant_index (vac p)) = occ p" by (simp add: ix occ_def)
  have av: "unat (rs_available t - 1) + 1 = unat (rs_available t)" using room unat_pred [OF room] by (simp add: unat_gt_0)
  show ?thesis
  proof (cases xs)
    case Nil
    let ?i = "length (rs_records t)"
    let ?r = "rrecord_new ident v"
    let ?t = "t\<lparr>rs_records := rs_records t @ [?r], rs_available := rs_available t - 1,
      rs_buckets := (rs_buckets t)[p := word_of_nat ?i]\<rparr>"
    have len: "?i < n" using xs room by (auto simp: rmap_free_ok_def Nil unat_gt_0)
    then have small: "?i < 2 ^ 30" using rmap_okD(2) [OF ok] by simp
    have pub: "publication mx n t ?i p ?r ?t"
      using ok vac ident len by (simp add: publication_def rrecord_new_def generation_INITIAL_def rmap_live_def record_put_def)
    have free: "rmap_free_ok n ?t []" using xs av by (simp add: rmap_free_ok_def Nil)
    show ?thesis
      by (rule that [OF _ pub _ _ publication_ok [OF pub free] _ _ xs free])
         (use xs in \<open>simp_all add: rmap_vacant_insert_def rmap_raw_insert_def occ index_new_usize_small [OF small] Let_def
            rmap_free_ok_def Nil ix(1) rrecord_new_def\<close>)
  next
    case (Cons i ys)
    then have i: "rs_free t = Some (index_new_raw (word_of_nat i))" "i < length (rs_records t)" "\<not> rmap_live t i"
        "rmap_chain (rs_records t) (index_decode (ucast (rr_id (rs_records t ! i)))) ys" "i \<notin> set ys" "distinct ys"
      using xs by (auto simp: rmap_free_ok_def)
    then have u: "unat (word_of_nat i :: u32) = i" using rmap_okD(2,4) [OF ok] by (intro unat_small) simp
    let ?r = "(rs_records t ! i)\<lparr>rr_id := ident, rr_value := Some v\<rparr>"
    let ?t = "t\<lparr>rs_records := (rs_records t)[i := ?r], rs_free := index_decode (ucast (rr_id (rs_records t ! i))),
      rs_available := rs_available t - 1, rs_buckets := (rs_buckets t)[p := word_of_nat i]\<rparr>"
    have gen: "rr_generation (rs_records t ! i) \<le> mx" using rmap_okD(5) [OF ok] i(2) by (simp add: rmap_records_ok_def)
    have pub: "publication mx n t i p ?r ?t"
      using ok vac ident i gen rmap_okD(4) [OF ok] by (simp add: publication_def record_put_def)
    have "rmap_chain (rs_records ?t) (rs_free ?t) ys"
      using i by (auto intro!: rmap_chain_cong [OF i(4)] simp: nth_list_update)
    moreover have "\<not> rmap_live ?t j" if "j \<in> set ys" for j
      using that xs i(5) publication_live [OF pub] by (auto simp: rmap_free_ok_def Cons)
    ultimately have free: "rmap_free_ok n ?t ys" using xs av i by (simp add: rmap_free_ok_def Cons)
    show ?thesis
      by (rule that [OF _ pub _ _ publication_ok [OF pub free] _ _ xs free])
         (use i Cons in \<open>simp_all add: rmap_vacant_insert_def rmap_raw_insert_def occ Let_def ix(1) rmap_put_def u subset_insertI\<close>)
  qed
qed

section \<open>Removal\<close>

text \<open>The directory without record \<open>i\<close>, and the records with \<open>i\<close> no longer live.\<close>

definition withdrawal :: "u32 \<Rightarrow> nat \<Rightarrow> 'v rmap \<Rightarrow> nat \<Rightarrow> 'v rrecord \<Rightarrow> 'v rmap \<Rightarrow> 'v rmap \<Rightarrow> bool" where
  "withdrawal mx n t i r d t' \<longleftrightarrow> rmap_ok mx n t \<and> rmap_live t i \<and>
     rmap_dir_ok d \<and> d\<lparr>rs_buckets := []\<rparr> = t\<lparr>rs_buckets := []\<rparr> \<and> length (rs_buckets d) = length (rs_buckets t) \<and>
     reach (length (rs_buckets t)) (rmap_ent d) \<and>
     rmap_shown t = add_mset (rs_hash t (rr_id (rs_records t ! i)), word_of_nat i) (entries (length (rs_buckets t)) (rmap_ent d)) \<and>
     \<not> rrecord_is_live r \<and> rr_generation r \<le> mx \<and>
     rs_records t' = (rs_records t)[i := r] \<and> rs_buckets t' = rs_buckets d \<and> rs_hash t' = rs_hash t"

lemma withdrawalD:
  assumes "withdrawal mx n t i r d t'"
  shows "rmap_ok mx n t" "rmap_live t i" "rmap_dir_ok d" "d\<lparr>rs_buckets := []\<rparr> = t\<lparr>rs_buckets := []\<rparr>"
    "length (rs_buckets d) = length (rs_buckets t)" "reach (length (rs_buckets t)) (rmap_ent d)"
    "rmap_shown t = add_mset (rs_hash t (rr_id (rs_records t ! i)), word_of_nat i) (entries (length (rs_buckets t)) (rmap_ent d))"
    "\<not> rrecord_is_live r" "rr_generation r \<le> mx" "rs_records t' = (rs_records t)[i := r]" "rs_buckets t' = rs_buckets d"
    "rs_hash t' = rs_hash t" "i < length (rs_records t)"
  using assms unfolding withdrawal_def rmap_live_def by blast+

lemma rmap_frame:
  assumes "d\<lparr>rs_buckets := []\<rparr> = t\<lparr>rs_buckets := []\<rparr>"
  shows "rs_records d = rs_records t" "rs_free d = rs_free t" "rs_available d = rs_available t" "rs_hash d = rs_hash t"
  using assms by (cases d; cases t; simp)+

lemma withdrawal_live:
  assumes "withdrawal mx n t i r d t'"
  shows "rmap_live t' j \<longleftrightarrow> rmap_live t j \<and> j \<noteq> i"
  using withdrawalD(8,10,13) [OF assms] by (cases "j = i") (auto simp: rmap_live_def)

lemma withdrawal_shown:
  assumes "withdrawal mx n t i r d t'"
  shows "rmap_shown t' = entries (length (rs_buckets t)) (rmap_ent d)"
proof -
  note D = withdrawalD [OF assms]
  let ?S = "{j. rmap_live t' j}" and ?f = "\<lambda>u j. (rs_hash t (rr_id (rs_records u ! j)), word_of_nat j :: u32)"
  have "{j. rmap_live t j} = insert i ?S" "i \<notin> ?S" using D(2) by (auto simp: withdrawal_live [OF assms])
  then have "rmap_shown t = add_mset (?f t i) (image_mset (?f t) (mset_set ?S))" by (simp add: rmap_shown_def)
  moreover have "image_mset (?f t) (mset_set ?S) = rmap_shown t'"
    unfolding rmap_shown_def D(12)
    by (rule image_mset_cong) (simp add: D(10) withdrawal_live [OF assms])
  ultimately show ?thesis using D(7) by simp
qed

lemma withdrawal_ent:
  assumes "withdrawal mx n t i r d t'"
  shows "rmap_ent t' = rmap_ent d"
proof
  fix q
  note D = withdrawalD [OF assms] and frame = rmap_frame [OF withdrawalD(4) [OF assms]]
  show "rmap_ent t' q = rmap_ent d q"
  proof (cases "rmap_ent d q")
    case None
    then show ?thesis unfolding rmap_ent_None_iff by (auto simp: rmap_ent_def D(11))
  next
    case (Some hx)
    obtain h x where hx: "rmap_ent d q = Some (h, x)" using Some by force
    note q = rmap_entD [OF hx]
    have "(h, x) \<in># rmap_shown t'" unfolding withdrawal_shown [OF assms] using hx q D(5) by (auto simp: entries_member)
    then obtain j where j: "rmap_live t' j" "x = word_of_nat j" by (auto simp: rmap_shown_def)
    then have "rmap_live t j" "j \<noteq> i" by (simp_all add: withdrawal_live [OF assms])
    then have "unat x \<noteq> i" unfolding j(2) using rmap_live_record(1) [OF D(1)] by (subst unat_small) force+
    then show ?thesis using q hx by (simp add: rmap_ent_def D(10-12) frame)
  qed
qed

lemma withdrawal_ok:
  assumes "withdrawal mx n t i r d t'" "rmap_free_ok n t' xs"
  shows "rmap_ok mx n t'"
proof -
  note D = withdrawalD [OF assms(1)] and ok = rmap_okD [OF withdrawalD(1) [OF assms(1)]] and live = withdrawal_live [OF assms(1)]
  have len: "length (rs_buckets t') = length (rs_buckets t)" by (simp add: D(5,11))
  have "inj_on (\<lambda>j. rr_id (rs_records t' ! j)) {j. rmap_live t' j}"
  proof (rule inj_onI)
    fix j k assume jk: "j \<in> {j. rmap_live t' j}" "k \<in> {j. rmap_live t' j}" "rr_id (rs_records t' ! j) = rr_id (rs_records t' ! k)"
    have "inj_on (\<lambda>j. rr_id (rs_records t ! j)) {j. rmap_live t j}" using ok(5) by (simp add: rmap_records_ok_def)
    from inj_onD [OF this, of j k] jk show "j = k" by (simp add: live D(10))
  qed
  moreover have "set (rs_records t') \<subseteq> insert r (set (rs_records t))" unfolding D(10) by (rule set_update_subset_insert)
  ultimately have "rmap_records_ok mx t'" using ok(5) D(8,9) by (auto simp: rmap_records_ok_def)
  then show ?thesis
    using ok(1-4) D(3,5,6) withdrawal_shown [OF assms(1)] withdrawal_ent [OF assms(1)] assms(2)
    by (auto simp: rmap_ok_def rmap_dir_ok_def len D(10,11))
qed

text \<open>Closing the hole of a live record leaves the directory of the others.\<close>

lemma rmap_close_hole:
  assumes "rmap_ok mx n t" "rmap_ent t p = Some (h, x)"
  obtains d where "raw_close rmap_directory rmap_shift (t\<lparr>rs_buckets := (rs_buckets t)[p := END]\<rparr>) (vac p) = Some d"
    "rmap_dir_ok d" "d\<lparr>rs_buckets := []\<rparr> = t\<lparr>rs_buckets := []\<rparr>" "length (rs_buckets d) = length (rs_buckets t)"
    "reach (length (rs_buckets t)) (rmap_ent d)" "rmap_shown t = add_mset (h, x) (entries (length (rs_buckets t)) (rmap_ent d))"
proof -
  let ?n = "length (rs_buckets t)"
  let ?t = "t\<lparr>rs_buckets := (rs_buckets t)[p := END]\<rparr>"
  note ok = rmap_okD [OF assms(1)] and p = rmap_entD [OF assms(2)]
  obtain v where v: "v < ?n" "rmap_ent t v = None" by (rule rmap_vacancy [OF assms(1)])
  then have vp: "v \<noteq> p" using assms(2) by auto
  have dir: "rmap_dir_ok ?t \<and> ?t\<lparr>rs_buckets := []\<rparr> = t\<lparr>rs_buckets := []\<rparr>" using ok(1) by (simp add: rmap_dir_ok_def)
  have ent: "rmap_ent ?t = (rmap_ent t)(p := None)"
    by (auto simp: rmap_ent_def fun_eq_iff nth_list_update)
  have n: "unat (dir_buckets rmap_directory ?t) = ?n" using dir ok(8) by simp
  have "\<exists>d. raw_close rmap_directory rmap_shift ?t (vac p) = Some d \<and>
      (rmap_dir_ok d \<and> d\<lparr>rs_buckets := []\<rparr> = t\<lparr>rs_buckets := []\<rparr>) \<and>
      dir_buckets rmap_directory d = dir_buckets rmap_directory ?t \<and>
      reach ?n (rmap_ent d) \<and> entries ?n (rmap_ent d) = entries ?n (rmap_ent ?t)"
    by (rule rmap_hole.close_restores [OF dir, unfolded n, of p v])
       (use p v vp in \<open>simp_all add: ent reach_vacate [OF ok(7)]\<close>)
  then obtain d where d: "raw_close rmap_directory rmap_shift ?t (vac p) = Some d"
      "rmap_dir_ok d" "d\<lparr>rs_buckets := []\<rparr> = t\<lparr>rs_buckets := []\<rparr>"
      "dir_buckets rmap_directory d = dir_buckets rmap_directory ?t"
      "reach ?n (rmap_ent d)" "entries ?n (rmap_ent d) = entries ?n ((rmap_ent t)(p := None))"
    unfolding ent by blast
  have "unat (dir_buckets rmap_directory d) = length (rs_buckets d)" using d(2) by simp
  then have "length (rs_buckets d) = ?n" using d(4) n by simp
  moreover have "rmap_shown t = add_mset (h, x) (entries ?n (rmap_ent d))"
    unfolding d(6) using ok(6) entries_vacate [where ent = "rmap_ent t", OF _ assms(2)] p by simp
  ultimately show ?thesis using that d(1-3,5) by blast
qed

lemma rmap_free_head:
  assumes "rmap_ok mx n t" "rmap_free_ok n t xs"
  shows "index_decode (index_encode (rs_free t)) = rs_free t"
proof (cases xs)
  case (Cons j ys)
  then have "rs_free t = Some (index_new_raw (word_of_nat j))" "j < 2 ^ 30"
    using assms(2) rmap_okD(2,4) [OF assms(1)] by (auto simp: rmap_free_ok_def)
  then show ?thesis by simp
qed (use assms(2) in \<open>simp add: rmap_free_ok_def\<close>)

lemma rmap_available_room:
  assumes "rmap_ok mx n t" "rmap_free_ok n t xs"
  shows "unat (rs_available t + 1) = unat (rs_available t) + 1"
proof (rule unat_add_fits [THEN trans])
  have "set xs \<subseteq> {..<length (rs_records t)}" using assms(2) by (auto simp: rmap_free_ok_def rmap_chain_below)
  then have "length xs \<le> length (rs_records t)"
    using assms(2) distinct_card [of xs] card_mono [of "{..<length (rs_records t)}" "set xs"] by (simp add: rmap_free_ok_def)
  then show "unat (rs_available t) + unat (1 :: u32) < 2 ^ LENGTH(32)"
    using assms(2) rmap_okD(2,4) [OF assms(1)] by (simp add: rmap_free_ok_def)
qed simp

text \<open>The value leaves, and its record goes to the head of the free chain under its next generation, or to
  no chain when it has none.\<close>

lemma rmap_remove_withdraws:
  assumes ok: "rmap_ok mx n t" and p: "rmap_ent t p = Some (h, word_of_nat i)" and i: "rmap_live t i" and xs: "rmap_free_ok n t xs"
  obtains d r t' where
    "rmap_raw_remove mx t (occ p) (index_new_raw (word_of_nat i)) = Some (the (rr_value (rs_records t ! i)), t')"
    "withdrawal mx n t i r d t'" "rmap_ok mx n t'"
    "case generation_next mx (rr_generation (rs_records t ! i)) of
       Some g \<Rightarrow> rr_generation r = g \<and> rs_available t' = rs_available t + 1 \<and> rmap_free_ok n t' (i # xs)
     | None \<Rightarrow> rr_generation r = rr_generation (rs_records t ! i) \<and> rs_available t' = rs_available t \<and> rmap_free_ok n t' xs"
proof -
  let ?g = "rr_generation (rs_records t ! i)"
  note dok = rmap_okD [OF ok] and q = rmap_entD [OF p] and live = rmap_live_record [OF ok i]
  have il: "i < length (rs_records t)" using i by (simp add: rmap_live_def)
  have u: "unat (word_of_nat i :: u32) = i" using live(1) by (intro unat_small) simp
  have h: "h = rs_hash t (rr_id (rs_records t ! i))" using q u live(4) by simp
  obtain d where d: "raw_close rmap_directory rmap_shift (t\<lparr>rs_buckets := (rs_buckets t)[p := END]\<rparr>) (vac p) = Some d"
    "rmap_dir_ok d" "d\<lparr>rs_buckets := []\<rparr> = t\<lparr>rs_buckets := []\<rparr>" "length (rs_buckets d) = length (rs_buckets t)"
    "reach (length (rs_buckets t)) (rmap_ent d)" "rmap_shown t = add_mset (h, word_of_nat i) (entries (length (rs_buckets t)) (rmap_ent d))"
    by (rule rmap_close_hole [OF ok p])
  note frame = rmap_frame [OF d(3)]
  have pl: "p < length (rs_buckets t)" using q by simp
  have hole: "vacant_new (occupied_index (occ p)) = vac p"
    by (simp add: rmap_at_bucket(4) [OF dok(1) pl] vac_def)
  note remove = rmap_raw_remove_def rmap_at_bucket(3) [OF dok(1) pl] hole d(1) Let_def frame u rmap_put_def
  have W: "withdrawal mx n t i r d t'" if "\<not> rrecord_is_live r" "rr_generation r \<le> mx" "rs_records t' = (rs_records t)[i := r]"
      "rs_buckets t' = rs_buckets d" "rs_hash t' = rs_hash t" for r t'
    using ok i d that by (simp add: withdrawal_def h)
  have dead: "\<forall>j\<in>set xs. j \<noteq> i \<and> \<not> rmap_live t j" using xs i by (auto simp: rmap_free_ok_def)
  have chain: "rmap_chain ((rs_records t)[i := r]) (rs_free t) xs" for r
    by (rule rmap_chain_cong [of "rs_records t"]) (use xs dead in \<open>auto simp: rmap_free_ok_def nth_list_update\<close>)
  show ?thesis
  proof (cases "generation_next mx ?g")
    case None
    let ?r = "(rs_records t ! i)\<lparr>rr_id := FREE OR ucast END, rr_value := None\<rparr>"
    let ?t = "d\<lparr>rs_records := (rs_records t)[i := ?r]\<rparr>"
    have w: "withdrawal mx n t i ?r d ?t" by (rule W) (use live(5) in \<open>simp_all add: rrecord_is_live_def frame\<close>)
    have free: "rmap_free_ok n ?t xs"
      using xs chain [of ?r] by (simp add: rmap_free_ok_def withdrawal_live [OF w] frame)
    show ?thesis
      by (rule that [OF _ w withdrawal_ok [OF w free]]) (use None free in \<open>simp_all add: remove\<close>)
  next
    case (Some g)
    let ?r = "(rs_records t ! i)\<lparr>rr_id := FREE OR ucast (index_encode (rs_free t)), rr_generation := g, rr_value := None\<rparr>"
    let ?t = "d\<lparr>rs_records := (rs_records t)[i := ?r], rs_free := Some (index_new_raw (word_of_nat i)), rs_available := rs_available t + 1\<rparr>"
    have g: "g \<le> mx" using Some inc_le [of ?g mx] by (auto simp: generation_next_def split: if_splits)
    have w: "withdrawal mx n t i ?r d ?t" by (rule W) (use g in \<open>simp_all add: rrecord_is_live_def frame\<close>)
    note head = rmap_free_head [OF ok xs] and av = rmap_available_room [OF ok xs]
    have "rmap_chain (rs_records ?t) (rs_free ?t) (i # xs)" using il chain by (simp add: head)
    moreover have "distinct (i # xs)" "\<forall>j\<in>set (i # xs). \<not> rmap_live ?t j"
      using xs dead withdrawal_live [OF w] by (auto simp: rmap_free_ok_def)
    moreover have "unat (rs_available ?t) + length (rs_records ?t) = n + length (i # xs)"
      using xs av by (simp add: rmap_free_ok_def)
    ultimately have free: "rmap_free_ok n ?t (i # xs)" unfolding rmap_free_ok_def by blast
    show ?thesis
      by (rule that [OF _ w withdrawal_ok [OF w free]]) (use Some free in \<open>simp_all add: remove\<close>)
  qed
qed

end
