(* ===== verification/O3_Resident_Map.thy ===== *)
theory O3_Resident_Map
  imports O3_Resident_Proofs O3_Slab_Map
begin

text \<open>
  The resident map as a finite map from identities to keys and values: what its entries, lookups and
  removals mean there, that an issued key never names a second record, and that a scope keeps its
  leases live.
\<close>

section \<open>Keys of live records\<close>

definition rmap_key_at :: "'v rmap \<Rightarrow> nat \<Rightarrow> u64" where
  "rmap_key_at t i = rmap_key_new (index_new_raw (word_of_nat i)) (rr_generation (rs_records t ! i))"

text \<open>The keys the code can hold have a nonzero low word.\<close>

definition key_ok :: "u64 \<Rightarrow> bool" where
  "key_ok key \<longleftrightarrow> (ucast key :: u32) \<noteq> 0"

lemma key_small: "i < 2 ^ 29 \<Longrightarrow> unat (word_of_nat i :: u32) = i \<and> unat (word_of_nat i :: u32) < 2 ^ 32 - 1"
  using unat_small [of i] by simp

lemma key_at_parts:
  assumes "i < 2 ^ 29"
  shows "rmap_key_index (rmap_key_at t i) = word_of_nat i" "rmap_key_generation (rmap_key_at t i) = rr_generation (rs_records t ! i)"
    "rmap_key_slot (rmap_key_at t i) = index_new_raw (word_of_nat i)" "key_ok (rmap_key_at t i)"
    "unat (ucast (rmap_key_index (rmap_key_at t i)) :: usize) = i"
proof -
  note s = key_small [OF assms]
  note new = key_new_parts [of "word_of_nat i" "rr_generation (rs_records t ! i)", folded rmap_key_at_def, OF conjunct2 [OF s]]
  show index: "rmap_key_index (rmap_key_at t i) = word_of_nat i"
    and "rmap_key_generation (rmap_key_at t i) = rr_generation (rs_records t ! i)" by (rule new)+
  then show "rmap_key_slot (rmap_key_at t i) = index_new_raw (word_of_nat i)" by (simp add: rmap_key_slot_def)
  have "(word_of_nat i :: u32) + 1 \<noteq> 0"
  proof
    assume "(word_of_nat i :: u32) + 1 = 0"
    then have "(word_of_nat i :: u32) = END" unfolding END_def by (simp add: eq_neg_iff_add_eq_0)
    then show False using END_not_small(1) [of i] assms by simp
  qed
  then show "key_ok (rmap_key_at t i)" by (simp add: key_ok_def new(3))
  have "unat (ucast (word_of_nat i :: u32) :: usize) = unat (word_of_nat i :: u32)" by (rule unat_ucast_widen) simp
  then show "unat (ucast (rmap_key_index (rmap_key_at t i)) :: usize) = i" using s by (simp only: index)
qed

text \<open>A key selects the live record it was made for.\<close>

lemma rmap_record_at:
  assumes "rmap_ok mx n t" "rmap_live t i"
  shows "rmap_record t (rmap_key_at t i) = Some (rs_records t ! i)"
proof -
  note p = key_at_parts [OF rmap_live_record(1) [OF assms], of t]
  show ?thesis using assms(2) by (simp add: rmap_record_def p(5) rmap_live_def rrecord_matches_def p(2) Let_def)
qed

lemma rmap_record_Some:
  assumes "rmap_ok mx n t" "key_ok key" "rmap_record t key = Some r"
  obtains i where "rmap_live t i" "key = rmap_key_at t i" "r = rs_records t ! i" "i < 2 ^ 29"
proof -
  let ?i = "unat (rmap_key_index key)"
  have w: "unat (ucast (rmap_key_index key) :: usize) = ?i" by (rule unat_ucast_widen) simp
  have i: "?i < length (rs_records t)" "rrecord_matches key (rs_records t ! ?i)" "r = rs_records t ! ?i"
    using assms(3) unfolding rmap_record_def w Let_def by (simp_all split: if_splits)
  then have live: "rmap_live t ?i" and gen: "rr_generation (rs_records t ! ?i) = rmap_key_generation key"
    by (simp_all add: rrecord_matches_def rmap_live_def)
  have "rmap_key_new (rmap_key_slot key) (rmap_key_generation key) = key"
    using assms(2) by (simp add: key_ok_def key_parts_new(1))
  then have "key = rmap_key_at t ?i" by (simp add: rmap_key_at_def rmap_key_slot_def gen)
  then show ?thesis using that live i(3) rmap_live_record(1) [OF assms(1) live] by blast
qed

lemma rmap_key_at_inj:
  assumes "rmap_ok mx n t" "rmap_live t i" "rmap_live t j" "rmap_key_at t i = rmap_key_at t j"
  shows "i = j"
proof -
  have "unat (ucast (rmap_key_index (rmap_key_at t i)) :: usize) = j"
    unfolding assms(4) by (rule key_at_parts(5) [OF rmap_live_record(1) [OF assms(1,3)]])
  then show ?thesis unfolding key_at_parts(5) [OF rmap_live_record(1) [OF assms(1,2)]] .
qed

section \<open>The map\<close>

definition rmap_map :: "'v rmap \<Rightarrow> u64 \<Rightarrow> (u64 \<times> 'v) option" where
  "rmap_map t ident =
    (case find (\<lambda>i. rmap_live t i \<and> rr_id (rs_records t ! i) = ident) [0..<length (rs_records t)] of
       None \<Rightarrow> None
     | Some i \<Rightarrow> Some (rmap_key_at t i, the (rr_value (rs_records t ! i))))"

lemma rmap_live_id:
  assumes "rmap_ok mx n t" "rmap_live t i" "rmap_live t j" "rr_id (rs_records t ! i) = rr_id (rs_records t ! j)"
  shows "i = j"
  using rmap_okD(5) [OF assms(1)] assms(2-) by (auto simp: rmap_records_ok_def dest: inj_onD)

lemma rmap_map_live:
  assumes "rmap_ok mx n t" "rmap_live t i"
  shows "rmap_map t (rr_id (rs_records t ! i)) = Some (rmap_key_at t i, the (rr_value (rs_records t ! i)))"
proof (cases "find (\<lambda>j. rmap_live t j \<and> rr_id (rs_records t ! j) = rr_id (rs_records t ! i)) [0..<length (rs_records t)]")
  case None
  then show ?thesis using assms(2) by (auto simp: find_None_iff rmap_live_def)
next
  case (Some j)
  then have "rmap_live t j" "rr_id (rs_records t ! j) = rr_id (rs_records t ! i)" by (auto simp: find_Some_iff)
  then have "j = i" using rmap_live_id [OF assms(1) _ assms(2)] by simp
  then show ?thesis using Some by (simp add: rmap_map_def)
qed

lemma rmap_map_none: "(\<And>i. rmap_live t i \<Longrightarrow> rr_id (rs_records t ! i) \<noteq> ident) \<Longrightarrow> rmap_map t ident = None"
  by (auto simp: rmap_map_def find_None_iff split: option.splits dest: find_Some_iff [THEN iffD1])

lemma rmap_mapE:
  assumes "rmap_ok mx n t" "rmap_map t ident = Some (key, v)"
  obtains i where "rmap_live t i" "rr_id (rs_records t ! i) = ident" "key = rmap_key_at t i" "v = the (rr_value (rs_records t ! i))"
  using assms(2) that by (auto simp: rmap_map_def find_Some_iff split: option.splits)

text \<open>Two tables that agree on their live records, \<open>i\<close> apart, have the same map but for its identity.\<close>

lemma rmap_map_upd:
  assumes "rmap_ok mx n t" "rmap_ok mx n t'" "\<And>j. j \<noteq> i \<Longrightarrow> rmap_live t' j \<longleftrightarrow> rmap_live t j"
    "\<And>j. j \<noteq> i \<Longrightarrow> rmap_live t j \<Longrightarrow> rs_records t' ! j = rs_records t ! j"
    "rmap_live t i \<Longrightarrow> rr_id (rs_records t ! i) = ident" "rmap_live t' i \<Longrightarrow> rr_id (rs_records t' ! i) = ident"
  shows "rmap_map t' = (rmap_map t)(ident := if rmap_live t' i then Some (rmap_key_at t' i, the (rr_value (rs_records t' ! i)))
      else if rmap_live t i then None else rmap_map t ident)"
proof
  fix x
  have key: "rmap_key_at t' j = rmap_key_at t j" if "j \<noteq> i" "rmap_live t j" for j
    using assms(4) [OF that] by (simp add: rmap_key_at_def)
  have other: "rmap_map t' x = rmap_map t x" if no: "\<And>j. rmap_live t j \<or> rmap_live t' j \<Longrightarrow> j = i \<Longrightarrow> x \<noteq> ident"
  proof (cases "\<exists>j. rmap_live t j \<and> rr_id (rs_records t ! j) = x")
    case True
    then obtain j where j: "rmap_live t j" "rr_id (rs_records t ! j) = x" by blast
    then have ji: "j \<noteq> i" using no assms(5) by blast
    then have "rmap_live t' j" "rs_records t' ! j = rs_records t ! j" using assms(3,4) j by auto
    then show ?thesis using rmap_map_live [OF assms(1) j(1)] rmap_map_live [OF assms(2), of j] key [OF ji j(1)] j by simp
  next
    case False
    have "rmap_map t' x = None"
    proof (rule rmap_map_none)
      fix j assume j: "rmap_live t' j"
      show "rr_id (rs_records t' ! j) \<noteq> x"
        using no [of j] assms(3,4,6) j False by (cases "j = i") auto
    qed
    moreover have "rmap_map t x = None" by (rule rmap_map_none) (use False in blast)
    ultimately show ?thesis by simp
  qed
  show "rmap_map t' x = ((rmap_map t)(ident := if rmap_live t' i then Some (rmap_key_at t' i, the (rr_value (rs_records t' ! i)))
      else if rmap_live t i then None else rmap_map t ident)) x"
  proof (cases "x = ident \<and> (rmap_live t i \<or> rmap_live t' i)")
    case False
    then show ?thesis using other by auto
  next
    case True
    show ?thesis
    proof (cases "rmap_live t' i")
      case live: True
      then show ?thesis using True rmap_map_live [OF assms(2) live] assms(6) by simp
    next
      case dead: False
      have "rmap_map t' ident = None"
      proof (rule rmap_map_none)
        fix j assume j: "rmap_live t' j"
        then have ji: "j \<noteq> i" using dead by auto
        then have "rmap_live t j" "rs_records t' ! j = rs_records t ! j" using assms(3,4) j by auto
        then show "rr_id (rs_records t' ! j) \<noteq> ident" using rmap_live_id [OF assms(1), of j i] ji True dead assms(5) by auto
      qed
      then show ?thesis using True dead by simp
    qed
  qed
qed

section \<open>Handles\<close>

text \<open>An occupied entry of record \<open>i\<close>, with or without its bucket.\<close>

definition rmap_handle :: "'v rmap \<Rightarrow> rmap_occupied \<Rightarrow> nat \<Rightarrow> bool" where
  "rmap_handle t e i \<longleftrightarrow> rmap_live t i \<and> ro_index e = index_new_raw (word_of_nat i) \<and>
     (\<forall>b. ro_bucket e = Some b \<longrightarrow> (\<exists>p. b = occ p \<and> rmap_ent t p = Some (rs_hash t (rr_id (rs_records t ! i)), word_of_nat i)))"

lemma handle_view:
  assumes "rmap_ok mx n t" "rmap_handle t e i"
  shows "rmap_live t i" "i < 2 ^ 29" "unat (word_of_nat i :: u32) = i" "rmap_occupied_key t e = rmap_key_at t i"
    "rmap_occupied_id t e = rr_id (rs_records t ! i)" "rmap_occupied_get t e = the (rr_value (rs_records t ! i))"
proof -
  show live: "rmap_live t i" using assms(2) by (simp add: rmap_handle_def)
  show small: "i < 2 ^ 29" by (rule rmap_live_record(1) [OF assms(1) live])
  show u: "unat (word_of_nat i :: u32) = i" using key_small [OF small] by simp
  have e: "ro_index e = index_new_raw (word_of_nat i)" using assms(2) by (simp add: rmap_handle_def)
  show "rmap_occupied_key t e = rmap_key_at t i" "rmap_occupied_get t e = the (rr_value (rs_records t ! i))"
    by (simp_all add: rmap_occupied_key_def rmap_occupied_get_def rmap_key_at_def e u)
  show "rmap_occupied_id t e = rr_id (rs_records t ! i)"
    by (simp add: rmap_occupied_id_def e u rmap_live_record(4) [OF assms(1) live])
qed

subsection \<open>Writing a value\<close>

definition rmap_write :: "nat \<Rightarrow> 'v \<Rightarrow> 'v rmap \<Rightarrow> 'v rmap" where
  "rmap_write i v t = t\<lparr>rs_records := (rs_records t)[i := (rs_records t ! i)\<lparr>rr_value := Some v\<rparr>]\<rparr>"

lemma write_frame [simp]:
  "rs_buckets (rmap_write i v t) = rs_buckets t" "rs_hash (rmap_write i v t) = rs_hash t" "rs_free (rmap_write i v t) = rs_free t"
  "rs_available (rmap_write i v t) = rs_available t" "length (rs_records (rmap_write i v t)) = length (rs_records t)"
  by (simp_all add: rmap_write_def)

lemma rmap_write_nth:
  "rr_id (rs_records (rmap_write i v t) ! j) = rr_id (rs_records t ! j)"
  "rr_generation (rs_records (rmap_write i v t) ! j) = rr_generation (rs_records t ! j)"
  "j \<noteq> i \<Longrightarrow> rs_records (rmap_write i v t) ! j = rs_records t ! j"
  "i < length (rs_records t) \<Longrightarrow> rr_value (rs_records (rmap_write i v t) ! i) = Some v"
  by (cases "i < length (rs_records t)"; cases "j = i"; simp add: rmap_write_def list_update_beyond)+

lemma write_live [simp]: "rmap_live (rmap_write i v t) j = rmap_live t j"
  by (simp add: rmap_live_def rrecord_is_live_def rmap_write_nth)

lemma write_key [simp]: "rmap_key_at (rmap_write i v t) j = rmap_key_at t j"
  by (simp add: rmap_key_at_def rmap_write_nth)

lemma write_ent [simp]: "rmap_ent (rmap_write i v t) = rmap_ent t"
  by (simp add: rmap_ent_def rrecord_id_def rmap_write_nth fun_eq_iff)

lemma write_ok:
  assumes "rmap_ok mx n t" "rmap_live t i"
  shows "rmap_ok mx n (rmap_write i v t)"
proof -
  let ?t = "rmap_write i v t"
  obtain xs where xs: "rmap_free_ok n t xs" using assms(1) by (auto simp: rmap_ok_def)
  have "j \<noteq> i" if "j \<in> set xs" for j using rmap_free_okD(3) [OF xs that] assms(2) by blast
  then have "\<forall>j\<in>set xs. rs_records ?t ! j = rs_records t ! j" by (simp add: rmap_write_nth(3))
  then have "rmap_chain (rs_records ?t) (rs_free t) xs"
    by (rule rmap_chain_cong [OF rmap_free_okD(1) [OF xs], rotated]) simp
  then have "rmap_free_ok n ?t xs" using rmap_free_okD(2-) [OF xs] by (simp add: rmap_free_ok_def)
  moreover have "rmap_shown ?t = rmap_shown t" by (simp add: rmap_shown_def rmap_write_nth)
  moreover have "rmap_records_ok mx ?t"
  proof -
    have "rr_generation r \<le> mx \<and> (rrecord_is_live r \<longrightarrow> rr_id r \<le> ID_MAX \<and> rr_value r \<noteq> None)" if "r \<in> set (rs_records ?t)" for r
    proof -
      have "r \<in> insert ((rs_records t ! i)\<lparr>rr_value := Some v\<rparr>) (set (rs_records t))"
        using that set_update_subset_insert unfolding rmap_write_def by fastforce
      moreover have "rs_records t ! i \<in> set (rs_records t)" using assms(2) by (simp add: rmap_live_def)
      ultimately show ?thesis
        using rmap_okD(5) [OF assms(1)] rmap_live_record [OF assms] by (auto simp: rmap_records_ok_def)
    qed
    then show ?thesis using rmap_okD(5) [OF assms(1)] by (simp add: rmap_records_ok_def rmap_write_nth)
  qed
  ultimately show ?thesis using rmap_okD [OF assms(1)] by (auto simp: rmap_ok_def rmap_dir_ok_def)
qed

lemma write_map:
  assumes "rmap_ok mx n t" "rmap_live t i"
  shows "rmap_map (rmap_write i v t) = (rmap_map t)(rr_id (rs_records t ! i) \<mapsto> (rmap_key_at t i, v))"
proof -
  have "i < length (rs_records t)" using assms(2) by (simp add: rmap_live_def)
  then show ?thesis
    using rmap_map_upd [OF assms(1) write_ok [OF assms, of v], of i "rr_id (rs_records t ! i)"] assms(2)
    by (simp add: rmap_write_nth)
qed

lemma handle_set:
  assumes "rmap_ok mx n t" "rmap_handle t e i"
  shows "rmap_occupied_set t e v = rmap_write i v t"
  using assms(2) handle_view(3) [OF assms]
  by (simp add: rmap_occupied_set_def rmap_handle_def rmap_put_def rmap_write_def)

subsection \<open>Removing\<close>

text \<open>A record out of use: dead and on no chain.\<close>

definition rmap_retired :: "'v rmap \<Rightarrow> nat \<Rightarrow> bool" where
  "rmap_retired t i \<longleftrightarrow> i < length (rs_records t) \<and> \<not> rmap_live t i \<and> (\<forall>xs. rmap_chain (rs_records t) (rs_free t) xs \<longrightarrow> i \<notin> set xs)"

lemma rmap_chain_unique:
  "rmap_chain rs f xs \<Longrightarrow> rmap_chain rs f ys \<Longrightarrow> length rs \<le> 2 ^ 29 \<Longrightarrow> xs = ys"
proof (induction rs f xs arbitrary: ys rule: rmap_chain.induct)
  case (1 rs f)
  then show ?case by (cases ys) auto
next
  case (2 rs f i xs)
  then obtain j zs where ys: "ys = j # zs" by (cases ys) auto
  have a: "f = Some (index_new_raw (word_of_nat i))" "i < length rs" and b: "f = Some (index_new_raw (word_of_nat j))" "j < length rs"
    using 2(2,3) unfolding ys by simp_all
  then have "(word_of_nat i :: u32) = word_of_nat j" by (metis index_new_raw_inj option.inject)
  moreover have "i < 2 ^ 30" "j < 2 ^ 30" using a(2) b(2) 2(4) by simp_all
  ultimately have "i = j" by (metis unat_small)
  then show ?case using 2(1) [of zs] 2(2-4) by (simp add: ys)
qed

lemma rmap_retired_iff:
  assumes "rmap_ok mx n t" "rmap_free_ok n t xs"
  shows "rmap_retired t i \<longleftrightarrow> i < length (rs_records t) \<and> \<not> rmap_live t i \<and> i \<notin> set xs"
proof -
  have c: "rmap_chain (rs_records t) (rs_free t) xs" using assms(2) by (simp add: rmap_free_ok_def)
  have "length (rs_records t) \<le> 2 ^ 29" using rmap_okD(2,4) [OF assms(1)] by linarith
  then have "rmap_chain (rs_records t) (rs_free t) ys \<longleftrightarrow> ys = xs" for ys using rmap_chain_unique [OF _ c] c by blast
  then show ?thesis by (simp add: rmap_retired_def)
qed

text \<open>What a removal of record \<open>i\<close> leaves.\<close>

definition rmap_removed :: "u32 \<Rightarrow> nat \<Rightarrow> 'v rmap \<Rightarrow> nat \<Rightarrow> 'v rmap \<Rightarrow> bool" where
  "rmap_removed mx n t i t' \<longleftrightarrow> rmap_ok mx n t' \<and> (\<forall>j. rmap_live t' j \<longleftrightarrow> rmap_live t j \<and> j \<noteq> i) \<and>
     length (rs_records t') = length (rs_records t) \<and> (\<forall>j. j \<noteq> i \<longrightarrow> rs_records t' ! j = rs_records t ! j) \<and>
     (\<forall>j. rmap_retired t j \<longrightarrow> rmap_retired t' j) \<and>
     (case generation_next mx (rr_generation (rs_records t ! i)) of
        Some g \<Rightarrow> rr_generation (rs_records t' ! i) = g \<and> rs_available t' = rs_available t + 1
      | None \<Rightarrow> rr_generation (rs_records t' ! i) = rr_generation (rs_records t ! i) \<and> rs_available t' = rs_available t \<and> rmap_retired t' i)"

lemma raw_remove_removed:
  assumes "rmap_ok mx n t" "rmap_live t i" "rmap_ent t p = Some (h, word_of_nat i)"
  shows "\<exists>t'. rmap_raw_remove mx t (occ p) (index_new_raw (word_of_nat i)) = Some (the (rr_value (rs_records t ! i)), t') \<and>
    rmap_removed mx n t i t'"
proof -
  obtain xs where xs: "rmap_free_ok n t xs" using assms(1) by (auto simp: rmap_ok_def)
  obtain d r t' where t': "rmap_raw_remove mx t (occ p) (index_new_raw (word_of_nat i)) = Some (the (rr_value (rs_records t ! i)), t')"
    and w: "withdrawal mx n t i r d t'" and ok: "rmap_ok mx n t'"
    and next_gen: "case generation_next mx (rr_generation (rs_records t ! i)) of
       Some g \<Rightarrow> rr_generation r = g \<and> rs_available t' = rs_available t + 1 \<and> rmap_free_ok n t' (i # xs)
     | None \<Rightarrow> rr_generation r = rr_generation (rs_records t ! i) \<and> rs_available t' = rs_available t \<and> rmap_free_ok n t' xs"
    by (rule rmap_remove_withdraws [OF assms(1,3,2) xs])
  note recs = withdrawalD(10,13) [OF w] and live = withdrawal_live [OF w] and old = rmap_retired_iff [OF assms(1) xs]
  have i: "rs_records t' ! i = r" "length (rs_records t') = length (rs_records t)" using recs by simp_all
  have "\<forall>j. rmap_retired t j \<longrightarrow> rmap_retired t' j"
    using next_gen assms(2) rmap_retired_iff [OF ok] by (auto simp: old live i split: option.splits)
  moreover have "rmap_retired t' i" if "generation_next mx (rr_generation (rs_records t ! i)) = None"
    using next_gen that xs assms(2) rmap_retired_iff [OF ok] recs(2) by (auto simp: live i rmap_free_ok_def)
  ultimately have "rmap_removed mx n t i t'"
    using ok live i next_gen unfolding rmap_removed_def by (auto simp: recs(1) split: option.splits)
  then show ?thesis using t' by blast
qed

lemma handle_remove:
  assumes "rmap_ok mx n t" "rmap_handle t e i"
  shows "\<exists>t'. rmap_occupied_remove mx t e = Some (the (rr_value (rs_records t ! i)), t') \<and> rmap_removed mx n t i t'"
proof -
  have e: "rmap_live t i" "ro_index e = index_new_raw (word_of_nat i)" using assms(2) by (simp_all add: rmap_handle_def)
  obtain p where p: "rmap_ent t p = Some (rs_hash t (rr_id (rs_records t ! i)), word_of_nat i)"
    "(case ro_bucket e of Some b \<Rightarrow> Some b | None \<Rightarrow> rmap_member t (ro_index e)) = Some (occ p)"
  proof (cases "ro_bucket e")
    case None
    show ?thesis by (rule rmap_member_exact [OF assms(1) e(1)]) (use that None e in simp)
  next
    case (Some b)
    then show ?thesis using assms(2) that by (auto simp: rmap_handle_def)
  qed
  show ?thesis using raw_remove_removed [OF assms(1) e(1) p(1)] by (simp add: rmap_occupied_remove_def p(2) e(2))
qed

lemma removed_map:
  assumes "rmap_ok mx n t" "rmap_live t i" "rmap_removed mx n t i t'"
  shows "rmap_map t' = (rmap_map t)(rr_id (rs_records t ! i) := None)"
  using rmap_map_upd [OF assms(1), of t' i "rr_id (rs_records t ! i)"] assms(2,3) by (simp add: rmap_removed_def)

subsection \<open>Inserting\<close>

text \<open>What the insertion of record \<open>i\<close> leaves.\<close>

definition rmap_added :: "u32 \<Rightarrow> nat \<Rightarrow> 'v rmap \<Rightarrow> nat \<Rightarrow> u64 \<Rightarrow> 'v \<Rightarrow> 'v rmap \<Rightarrow> bool" where
  "rmap_added mx n t i ident v t' \<longleftrightarrow> rmap_ok mx n t' \<and> \<not> rmap_live t i \<and> \<not> rmap_retired t i \<and>
     (\<forall>j. rmap_live t' j \<longleftrightarrow> j = i \<or> rmap_live t j) \<and> length (rs_records t) \<le> length (rs_records t') \<and>
     (\<forall>j < length (rs_records t). j \<noteq> i \<longrightarrow> rs_records t' ! j = rs_records t ! j) \<and>
     rr_id (rs_records t' ! i) = ident \<and> rr_value (rs_records t' ! i) = Some v \<and>
     (i < length (rs_records t) \<longrightarrow> rr_generation (rs_records t' ! i) = rr_generation (rs_records t ! i)) \<and>
     (\<forall>j. rmap_retired t j \<longrightarrow> rmap_retired t' j) \<and> rs_available t' = rs_available t - 1"

lemma vacant_insert_added:
  assumes "rmap_ok mx n t" "vacant_at t (rs_hash t ident) p" "rs_available t \<noteq> 0" "ident \<le> ID_MAX"
    "\<And>j. rmap_live t j \<Longrightarrow> rr_id (rs_records t ! j) \<noteq> ident"
  shows "\<exists>i e t'. rmap_vacant_insert t \<lparr>rv_bucket = vac p, rv_id = ident\<rparr> v = (e, t') \<and> rmap_added mx n t i ident v t' \<and>
    rmap_handle t' e i \<and> ro_bucket e \<noteq> None"
proof -
  obtain i r t' xs ys where t': "rmap_vacant_insert t \<lparr>rv_bucket = vac p, rv_id = ident\<rparr> v =
      (\<lparr>ro_bucket = Some (occ p), ro_index = index_new_raw (word_of_nat i)\<rparr>, t')"
    and pub: "publication mx n t i p r t'" and r: "rr_id r = ident" "rr_value r = Some v"
    and ok: "rmap_ok mx n t'" and av: "rs_available t' = rs_available t - 1"
    and gen: "rr_generation r = (if i < length (rs_records t) then rr_generation (rs_records t ! i) else generation_INITIAL)"
    and chains: "rmap_free_ok n t xs" "rmap_free_ok n t' ys" "set ys \<subseteq> set xs" "i < length (rs_records t) \<Longrightarrow> i \<in> set xs"
    by (rule rmap_insert_publishes [OF assms, where v = v]) blast+
  note D = publicationD [OF pub] and live = publication_live [OF pub] and nth = publication_nth [OF pub]
  have i: "rs_records t' ! i = r" using nth [OF D(15)] by simp
  have len: "length (rs_records t) \<le> length (rs_records t')" unfolding D(11) by (rule record_put_old [OF D(2)])
  note old = rmap_retired_iff [OF assms(1) chains(1)] and new = rmap_retired_iff [OF ok chains(2)]
  have ni: "\<not> rmap_retired t i" using chains(4) by (auto simp: old)
  then have "\<forall>j. rmap_retired t j \<longrightarrow> rmap_retired t' j"
    using chains(3) len by (auto simp: old new live)
  then have "rmap_added mx n t i ident v t'"
    unfolding rmap_added_def using ok D(3) ni live len nth r gen av by (auto simp: i)
  moreover have "rmap_ent t' p = Some (rs_hash t' (rr_id (rs_records t' ! i)), word_of_nat i)"
    unfolding publication_ent [OF pub] by (simp add: D(13) i)
  then have "rmap_handle t' \<lparr>ro_bucket = Some (occ p), ro_index = index_new_raw (word_of_nat i)\<rparr> i"
    using live by (auto simp: rmap_handle_def)
  ultimately show ?thesis using t' by fastforce
qed

lemma added_map:
  assumes "rmap_ok mx n t" "rmap_added mx n t i ident v t'"
  shows "rmap_map t' = (rmap_map t)(ident \<mapsto> (rmap_key_at t' i, v))"
proof -
  have "rmap_live t j \<Longrightarrow> j < length (rs_records t)" for j by (simp add: rmap_live_def)
  then show ?thesis
    using rmap_map_upd [OF assms(1), of t' i ident] assms(2) by (simp add: rmap_added_def)
qed

subsection \<open>Entries\<close>

lemma entry_cases:
  assumes "rmap_ok mx n t" "ident \<le> ID_MAX"
  shows "(\<exists>e i. rmap_entry t ident = Some (Entry_Occupied e) \<and> rmap_handle t e i \<and> rr_id (rs_records t ! i) = ident \<and> ro_bucket e \<noteq> None)
    \<or> (\<exists>p. (\<forall>j. rmap_live t j \<longrightarrow> rr_id (rs_records t ! j) \<noteq> ident) \<and> vacant_at t (rs_hash t ident) p \<and>
        rmap_entry t ident = Some (Entry_Vacant
          (if rs_available t \<noteq> 0 then Some \<lparr>rv_bucket = vac p, rv_id = ident\<rparr> else None)))"
proof -
  from rmap_scan_exact [OF assms(1), of ident] show ?thesis
  proof (elim disjE exE conjE)
    fix i p assume a: "rmap_live t i" "rr_id (rs_records t ! i) = ident" "p < length (rs_buckets t)"
      "rmap_ent t p = Some (rs_hash t ident, word_of_nat i)" "rmap_scan t ident = Some (State_Occupied (occ p))"
    have "rmap_bucket_index t (occ p) = index_new_raw (word_of_nat i)"
      using rmap_entD [OF a(4)] by (simp add: rmap_at_bucket(1) [OF rmap_okD(1) [OF assms(1)] a(3)])
    then have "rmap_entry t ident = Some (Entry_Occupied \<lparr>ro_bucket = Some (occ p), ro_index = index_new_raw (word_of_nat i)\<rparr>)"
      by (simp add: rmap_entry_def a(5))
    moreover have "rmap_handle t \<lparr>ro_bucket = Some (occ p), ro_index = index_new_raw (word_of_nat i)\<rparr> i"
      using a by (auto simp: rmap_handle_def)
    moreover have "ro_bucket \<lparr>ro_bucket = Some (occ p), ro_index = index_new_raw (word_of_nat i)\<rparr> \<noteq> None" by simp
    ultimately show ?thesis using a(2) by blast
  next
    fix p assume "\<forall>i. rmap_live t i \<longrightarrow> rr_id (rs_records t ! i) \<noteq> ident" "vacant_at t (rs_hash t ident) p"
      "rmap_scan t ident = Some (State_Vacant (vac p))"
    then show ?thesis by (intro disjI2 exI [of _ p]) (simp add: rmap_entry_def)
  qed
qed

lemma exact_handle:
  assumes "rmap_ok mx n t" "key_ok key" "rmap_exact t key ident = Some e"
  obtains i where "rmap_handle t e i" "key = rmap_key_at t i" "rr_id (rs_records t ! i) = ident"
proof -
  from assms(3) obtain r where r: "rmap_record t key = Some r" "rr_id r = ident" "e = \<lparr>ro_bucket = None, ro_index = rmap_key_slot key\<rparr>"
    by (auto simp: rmap_exact_def split: if_splits option.splits)
  obtain i where i: "rmap_live t i" "key = rmap_key_at t i" "r = rs_records t ! i" "i < 2 ^ 29"
    by (rule rmap_record_Some [OF assms(1,2) r(1)])
  then have "rmap_handle t e i" by (simp add: rmap_handle_def r(3) key_at_parts(3))
  then show ?thesis using that i r(2) by blast
qed

end
