(* ===== verification/O3_Resident_Plan.thy ===== *)
theory O3_Resident_Plan
  imports O3_Resident_Map O3_Map_Flat
begin

text \<open>
  The plan of a resident map: the sum of its counts, the power of two of buckets that keeps one of
  them vacant, and the empty table that an allocation makes of it.
\<close>

section \<open>Bucket counts\<close>

lemma foldl_counts:
  fixes counts :: "u32 list" and acc :: u32
  assumes "unat acc + (\<Sum>c\<leftarrow>counts. unat c) \<le> 2 ^ 29"
  shows "unat (foldl (+) acc counts) = unat acc + (\<Sum>c\<leftarrow>counts. unat c)"
  using assms
proof (induction counts arbitrary: acc)
  case (Cons c counts)
  have "unat (acc + c) = unat acc + unat c"
    by (rule unat_add_fits [THEN trans]) (use Cons.prems in simp_all)
  then show ?case using Cons.IH [of "acc + c"] Cons.prems by simp
qed simp

lemma shift_amount:
  assumes "k \<le> 31"
  shows "unat ((- word_of_nat (32 - k) :: u32) AND 31) = k"
proof -
  have e: "31 = (mask 5 :: u32)" by (simp add: mask_eq_exp_minus_1)
  have n: "unat (word_of_nat (32 - k) :: u32) = 32 - k" by (rule unat_of_nat_fits) simp
  have "(- word_of_nat (32 - k) :: u32) = word_of_nat k - 32"
    using assms by (simp add: of_nat_diff)
  also have "\<dots> = word_of_nat k + word_of_nat (2 ^ 32 - 32)" by simp
  finally have "(- word_of_nat (32 - k) :: u32) = word_of_nat (k + (2 ^ 32 - 32))" by simp
  moreover have "unat (word_of_nat (k + (2 ^ 32 - 32)) :: u32) = (k + (2 ^ 32 - 32)) mod 2 ^ 32"
    by (subst unsigned_of_nat) (simp add: take_bit_eq_mod)
  moreover have "unat (x AND mask 5) = unat x mod 2 ^ 5" for x :: u32
    by (simp only: take_bit_eq_mask [symmetric] unsigned_take_bit_eq) (simp only: take_bit_eq_mod)
  ultimately have "unat ((- word_of_nat (32 - k) :: u32) AND mask 5) = (k + (2 ^ 32 - 32)) mod 2 ^ 32 mod 2 ^ 5"
    by (simp only:)
  also have "\<dots> = (k + (2 ^ 32 - 32)) mod 32" by (simp add: mod_mod_cancel)
  also have "\<dots> = (k + 32 * 134217727) mod 32" by simp
  also have "\<dots> = k mod 32" by (rule mod_mult_self2)
  also have "\<dots> = k" using assms by simp
  finally show ?thesis unfolding e .
qed

lemma wrapping_shl_power:
  assumes "k \<le> 30"
  shows "unat (saturating_add 1 (wrapping_shl_u32 1 (- word_of_nat (32 - k)) - 1)) = 2 ^ k"
proof -
  have p: "(2 :: nat) ^ k \<le> 2 ^ 30" using assms by (rule power_increasing) simp
  let ?w = "wrapping_shl_u32 1 (- word_of_nat (32 - k))"
  have "k \<le> 31" using assms by simp
  then have "?w = push_bit k 1" unfolding wrapping_shl_u32_def by (simp only: shift_amount)
  then have "?w = word_of_nat (2 ^ k)" by (simp only: push_bit_eq_mult mult_1 of_nat_power of_nat_numeral)
  moreover have "(2 :: nat) ^ k < 2 ^ LENGTH(32)" using p by simp
  ultimately have w: "unat ?w = 2 ^ k" by (simp only: unat_of_nat_fits)
  moreover have "(2 :: nat) ^ k \<noteq> 0" by simp
  ultimately have "?w \<noteq> 0" by (metis unat_0)
  from unat_pred [OF this] have "unat (?w - 1) = 2 ^ k - 1" unfolding w .
  moreover have "(1 :: nat) + (2 ^ k - 1) = 2 ^ k" by simp
  ultimately show ?thesis
    using p by (simp only: unat_saturating_add unsigned_1 min_def) simp
qed

lemma bit_length_full: "bit_length (2 ^ 32 - 1) = 32"
proof -
  define b where "b = bit_length (2 ^ 32 - 1)"
  have "2 ^ 32 - 1 < (2 :: nat) ^ b" "(2 :: nat) ^ b \<le> 2 * (2 ^ 32 - 1)"
    using bit_length_bounds [of "2 ^ 32 - 1"] by (simp_all add: b_def)
  then have "(2 :: nat) ^ 31 < 2 ^ b" "(2 :: nat) ^ b < 2 ^ 33" by simp_all
  then have "31 < b" "b < 33" by (simp_all only: power_strict_increasing_iff one_less_numeral_iff semiring_norm)
  then show ?thesis by (simp add: b_def)
qed

lemma plan_counts:
  assumes "(\<Sum>c\<leftarrow>counts. unat c) \<le> 2 ^ 29"
  defines "pl \<equiv> rmap_plan_counts counts" and "n \<equiv> \<Sum>c\<leftarrow>counts. unat c"
  shows "unat (rp_records pl) = n" "\<exists>k\<le>30. unat (rp_buckets pl) = 2 ^ k" "2 * n \<le> unat (rp_buckets pl)"
    "unat (rp_buckets pl) < 4 * n \<or> n = 0 \<and> unat (rp_buckets pl) = 1"
proof -
  let ?r = "foldl (+) 0 counts :: u32"
  have r: "unat ?r = n" using foldl_counts [of 0 counts] assms(1) by (simp add: n_def)
  then show "unat (rp_records pl) = n" by (simp add: pl_def rmap_plan_counts_def Let_def)
  define k where "k = (if n = 0 then 0 else bit_length (2 * n - 1))"
  have n: "n \<le> 2 ^ 29" using assms(1) by (simp add: n_def)
  have bits: "2 * n \<le> 2 ^ k \<and> 2 ^ k < 4 * n" if "n \<noteq> 0"
    using bit_length_bounds [of "2 * n - 1"] that by (auto simp: k_def)
  have k: "k \<le> 30"
  proof (cases "n = 0")
    case False
    then have "(2 :: nat) ^ k < 2 ^ 31" using bits n by simp
    then show ?thesis by (simp only: power_strict_increasing_iff)
  qed (simp add: k_def)
  have lz: "- leading_zeros_u32 (?r * 2 - 1) = - word_of_nat (32 - k) \<or> n = 0 \<and> leading_zeros_u32 (?r * 2 - 1) = 0"
  proof (cases "n = 0")
    case True
    then have "?r = 0" using r by (metis unat_eq_zero)
    moreover have "bit_length (unat (- 1 :: u32)) = 32"
      using bit_length_full by (simp add: unsigned_minus_1_eq_mask mask_eq_exp_minus_1)
    ultimately show ?thesis using True by (simp add: leading_zeros_u32_def)
  next
    case False
    have "unat (?r * 2) = 2 * n" using r n by (simp add: unat_word_ariths)
    moreover have "?r * 2 \<noteq> 0" using calculation False by auto
    ultimately have "unat (?r * 2 - 1) = 2 * n - 1" by (simp add: unat_pred)
    then show ?thesis using False by (simp add: leading_zeros_u32_def k_def)
  qed
  have b: "unat (rp_buckets pl) = 2 ^ k"
    using lz
  proof (elim disjE conjE)
    assume "- leading_zeros_u32 (?r * 2 - 1) = - word_of_nat (32 - k)"
    then show ?thesis using wrapping_shl_power [OF k] by (simp add: pl_def rmap_plan_counts_def Let_def)
  next
    assume "n = 0" "leading_zeros_u32 (?r * 2 - 1) = 0"
    then show ?thesis by (simp add: pl_def rmap_plan_counts_def Let_def wrapping_shl_u32_def saturating_add_def k_def)
  qed
  show "\<exists>k\<le>30. unat (rp_buckets pl) = 2 ^ k" "2 * n \<le> unat (rp_buckets pl)"
    "unat (rp_buckets pl) < 4 * n \<or> n = 0 \<and> unat (rp_buckets pl) = 1"
    using b k bits by (auto simp: k_def)
qed

section \<open>The empty table\<close>

lemma empty_rmap_ok:
  fixes hash :: "u64 \<Rightarrow> u64" and t :: "'v rmap"
  assumes "n < m" "n \<le> 2 ^ 29" "m = 2 ^ k" "k \<le> 31" "unat available = n"
  defines "t \<equiv> \<lparr>rs_records = [], rs_buckets = replicate m END, rs_free = None, rs_available = available, rs_hash = hash\<rparr>"
  shows "rmap_ok mx n t" "rmap_map t = (\<lambda>_. None)"
proof -
  have live: "\<not> rmap_live t i" for i by (simp add: rmap_live_def t_def)
  have ent: "rmap_ent t = (\<lambda>_. None)" by (auto simp: rmap_ent_def t_def)
  have "rmap_free_ok n t []" using assms(5) by (simp add: rmap_free_ok_def t_def)
  moreover have "rmap_dir_ok t" "rmap_records_ok mx t" "rmap_shown t = {#}"
    using assms(3,4) live by (auto simp: rmap_dir_ok_def rmap_records_ok_def rmap_shown_def t_def)
  ultimately show "rmap_ok mx n t"
    using assms(1,2) by (auto simp: rmap_ok_def ent reach_clear) (simp_all add: t_def)
  show "rmap_map t = (\<lambda>_. None)" using rmap_map_none [of t] live by (auto simp: fun_eq_iff)
qed

lemma bucket_array:
  assumes "unat b \<le> 2 ^ 30"
  shows "layout_try_layout \<lparr>ty_size = 4, ty_align = 4\<rparr> (ucast (b :: u32)) = Inr \<lparr>ly_size = 4 * ucast b, ly_align = 4\<rparr>"
proof -
  have "unat (isize_max - 3) = 9223372036854775804" by (simp add: isize_max_def)
  moreover have "unat (ucast b :: usize) = unat b" by (rule unat_ucast_widen) simp
  ultimately show ?thesis using assms by (simp add: layout_try_layout_def std_array_def)
qed

text \<open>Whether the allocator grants an array that fits.\<close>

definition granted :: "(layout \<Rightarrow> bool) \<Rightarrow> layout \<Rightarrow> bool" where
  "granted grant l \<longleftrightarrow> ly_size l = 0 \<or> grant l"

lemma plan_bucket_bytes:
  assumes "(\<Sum>c\<leftarrow>counts. unat c) \<le> 2 ^ 29"
  shows "unat (rp_buckets (rmap_plan_counts counts)) \<le> 2 ^ 30" "(4 * ucast (rp_buckets (rmap_plan_counts counts)) :: usize) \<noteq> 0"
proof -
  let ?b = "rp_buckets (rmap_plan_counts counts)"
  have "0 < unat ?b" and le: "unat ?b \<le> 2 ^ 30"
    using plan_counts(2) [OF assms] power_increasing [of _ 30 "2 :: nat"] by auto
  moreover have "unat (ucast ?b :: usize) = unat ?b" by (rule unat_ucast_widen) simp
  ultimately have "unat (4 * ucast ?b :: usize) \<noteq> 0" by (simp add: unat_word_ariths)
  then show "(4 * ucast ?b :: usize) \<noteq> 0" by auto
  show "unat ?b \<le> 2 ^ 30" by (rule le)
qed

lemma rmap_new_cases:
  assumes "(\<Sum>c\<leftarrow>counts. unat c) \<le> 2 ^ 29"
  defines "pl \<equiv> rmap_plan_counts counts"
  shows "rmap_try_new grant row pl hash = (case std_array row (ucast (rp_records pl)) of
       None \<Rightarrow> Inl Error_Overflow
     | Some l \<Rightarrow>
         if granted grant l \<and> grant \<lparr>ly_size = 4 * ucast (rp_buckets pl), ly_align = 4\<rparr>
         then Inr \<lparr>rs_records = [], rs_buckets = replicate (unat (rp_buckets pl)) END, rs_free = None,
           rs_available = rp_records pl, rs_hash = hash\<rparr>
         else Inl Error_Exhausted)"
proof -
  note b = plan_bucket_bytes(1) [OF assms(1), folded pl_def] and size = plan_bucket_bytes(2) [OF assms(1), folded pl_def]
  have w: "unat (ucast (rp_buckets pl) :: usize) = unat (rp_buckets pl)" by (rule unat_ucast_widen) simp
  show ?thesis
    by (auto simp: size rmap_try_new_def array_try_allocate_def bucket_array [OF b] layout_try_allocate_def
        layout_try_layout_def [of row] granted_def w split: option.splits)
qed

lemma rmap_new_ok:
  assumes "(\<Sum>c\<leftarrow>counts. unat c) \<le> 2 ^ 29" "rmap_try_new grant row (rmap_plan_counts counts) hash = Inr t"
  shows "rmap_ok mx (\<Sum>c\<leftarrow>counts. unat c) t" "rmap_map t = (\<lambda>_. None)"
proof -
  let ?pl = "rmap_plan_counts counts" and ?n = "\<Sum>c\<leftarrow>counts. unat c"
  note pc = plan_counts [OF assms(1)]
  obtain k where k: "k \<le> 30" "unat (rp_buckets ?pl) = 2 ^ k" using pc(2) by blast
  have t: "t = \<lparr>rs_records = [], rs_buckets = replicate (unat (rp_buckets ?pl)) END, rs_free = None,
      rs_available = rp_records ?pl, rs_hash = hash\<rparr>"
    using assms(2) unfolding rmap_new_cases [OF assms(1)] by (auto split: option.splits if_splits)
  have "?n < unat (rp_buckets ?pl)" using pc(3,4) by auto
  from empty_rmap_ok [OF this assms(1) k(2) _ pc(1)] k(1)
  show "rmap_ok mx ?n t" "rmap_map t = (\<lambda>_. None)" unfolding t by auto
qed

end
