(* ===== verification/O3_Resident_Spec.thy ===== *)
theory O3_Resident_Spec
  imports O3_Resident_Plan
begin

text \<open>
  The properties of the resident map: it refines a finite map from identities to keys and values, its
  lookups by key are exact, an issued key never names a second record, keys pack and unpack, plans
  leave the directory a vacancy, a scope keeps its leases live, and a drop destroys the live values.
\<close>

section \<open>A finite map\<close>

lemma find_map:
  assumes "rmap_ok mx n t"
  shows "rmap_find t ident = Some (rmap_map t ident)"
  using rmap_scan_exact [OF assms, of ident]
proof (elim disjE exE conjE)
  fix i p assume a: "rmap_live t i" "rr_id (rs_records t ! i) = ident" "p < length (rs_buckets t)"
    "rmap_ent t p = Some (rs_hash t ident, word_of_nat i)" "rmap_scan t ident = Some (State_Occupied (occ p))"
  have "rmap_bucket_index t (occ p) = index_new_raw (word_of_nat i)"
    using rmap_entD [OF a(4)] by (simp add: rmap_at_bucket(1) [OF rmap_okD(1) [OF assms] a(3)])
  then show ?thesis
    using rmap_map_live [OF assms a(1)] a(2,5) key_small [OF rmap_live_record(1) [OF assms a(1)]]
    by (simp add: rmap_find_def rmap_key_at_def Let_def)
next
  fix p assume "\<forall>i. rmap_live t i \<longrightarrow> rr_id (rs_records t ! i) \<noteq> ident" "rmap_scan t ident = Some (State_Vacant (vac p))"
  then show ?thesis using rmap_map_none [of t ident] by (simp add: rmap_find_def)
qed

text \<open>What an occupied entry does, wherever it came from.\<close>

definition entry_exact :: "u32 \<Rightarrow> nat \<Rightarrow> 'v rmap \<Rightarrow> u64 \<Rightarrow> u64 \<Rightarrow> 'v \<Rightarrow> rmap_occupied \<Rightarrow> bool" where
  "entry_exact mx n t ident key v e \<longleftrightarrow>
     rmap_occupied_key t e = key \<and> rmap_occupied_id t e = ident \<and> rmap_occupied_get t e = v \<and>
     (\<forall>w. rmap_ok mx n (rmap_occupied_set t e w) \<and> rmap_map (rmap_occupied_set t e w) = (rmap_map t)(ident \<mapsto> (key, w))) \<and>
     (\<exists>t'. rmap_occupied_remove mx t e = Some (v, t') \<and> rmap_ok mx n t' \<and> rmap_map t' = (rmap_map t)(ident := None) \<and>
        rs_available t' = (if rmap_key_generation key < mx then rs_available t + 1 else rs_available t))"

lemma handle_exact:
  assumes "rmap_ok mx n t" "rmap_handle t e i"
  shows "entry_exact mx n t (rr_id (rs_records t ! i)) (rmap_key_at t i) (the (rr_value (rs_records t ! i))) e"
proof -
  note view = handle_view [OF assms]
  obtain t' where t': "rmap_occupied_remove mx t e = Some (the (rr_value (rs_records t ! i)), t')" "rmap_removed mx n t i t'"
    using handle_remove [OF assms] by blast
  have "rs_available t' = (if rmap_key_generation (rmap_key_at t i) < mx then rs_available t + 1 else rs_available t)"
    using t'(2) by (simp add: rmap_removed_def generation_next_def key_at_parts(2) [OF view(2)] split: if_splits)
  moreover have "rmap_ok mx n t'" using t'(2) by (simp add: rmap_removed_def)
  ultimately show ?thesis
    using view(4-6) t'(1) removed_map [OF assms(1) view(1) t'(2)]
    by (simp add: entry_exact_def handle_set [OF assms] write_ok [OF assms(1) view(1)] write_map [OF assms(1) view(1)])
qed

text \<open>C7: the resident map is a finite map from identities to a key and a value. A search returns
  exactly what the map holds; an entry is occupied exactly when the map holds the identity, and then
  reads, overwrites and removes it, returning its credit unless its generation is the last; a vacancy
  is offered exactly while a credit is left, and filling it adds the identity under the key the entry
  reports. Every operation keeps the invariant, so no probe and no backward shift fails to return.\<close>

theorem resident_refines_map:
  assumes "rmap_ok mx n t" "ident \<le> ID_MAX"
  shows "rmap_find t ident = Some (rmap_map t ident) \<and> rmap_key t ident = Some (map_option fst (rmap_map t ident)) \<and>
    (\<exists>entry. rmap_entry t ident = Some entry \<and> (case entry of
       Entry_Occupied e \<Rightarrow> \<exists>key v. rmap_map t ident = Some (key, v) \<and> entry_exact mx n t ident key v e
     | Entry_Vacant None \<Rightarrow> rmap_map t ident = None \<and> rs_available t = 0
     | Entry_Vacant (Some c) \<Rightarrow> rmap_map t ident = None \<and> rs_available t \<noteq> 0 \<and>
         (\<forall>v. case rmap_vacant_insert t c v of (e, t') \<Rightarrow> rmap_ok mx n t' \<and>
            rmap_map t' = (rmap_map t)(ident \<mapsto> (rmap_occupied_key t' e, v)) \<and> rs_available t' = rs_available t - 1)))"
proof -
  note find = find_map [OF assms(1), of ident]
  from entry_cases [OF assms] show ?thesis
  proof (elim disjE exE conjE)
    fix e i assume e: "rmap_entry t ident = Some (Entry_Occupied e)" "rmap_handle t e i" "rr_id (rs_records t ! i) = ident"
    have "rmap_map t ident = Some (rmap_key_at t i, the (rr_value (rs_records t ! i)))"
      using rmap_map_live [OF assms(1) handle_view(1) [OF assms(1) e(2)]] e(3) by simp
    then show ?thesis using find e(1) handle_exact [OF assms(1) e(2)] e(3) by (simp add: rmap_key_def)
  next
    fix p assume p: "\<forall>j. rmap_live t j \<longrightarrow> rr_id (rs_records t ! j) \<noteq> ident" "vacant_at t (rs_hash t ident) p"
      "rmap_entry t ident = Some (Entry_Vacant (if rs_available t \<noteq> 0 then Some \<lparr>rv_bucket = vac p, rv_id = ident\<rparr> else None))"
    have none: "rmap_map t ident = None" by (rule rmap_map_none) (use p(1) in blast)
    have "case rmap_vacant_insert t \<lparr>rv_bucket = vac p, rv_id = ident\<rparr> v of (e, t') \<Rightarrow> rmap_ok mx n t' \<and>
        rmap_map t' = (rmap_map t)(ident \<mapsto> (rmap_occupied_key t' e, v)) \<and> rs_available t' = rs_available t - 1"
      if "rs_available t \<noteq> 0" for v
    proof -
      note room = that
      obtain i e t' where t': "rmap_vacant_insert t \<lparr>rv_bucket = vac p, rv_id = ident\<rparr> v = (e, t')"
          "rmap_added mx n t i ident v t'" "rmap_handle t' e i"
        using vacant_insert_added [OF assms(1) p(2) room assms(2), of v] p(1) by blast
      have "rmap_ok mx n t'" "rs_available t' = rs_available t - 1" using t'(2) by (simp_all add: rmap_added_def)
      then show ?thesis
        using t'(1) added_map [OF assms(1) t'(2)] handle_view(4) [OF _ t'(3)] by simp
    qed
    then show ?thesis using find none p(3) by (cases "rs_available t = 0") (simp_all add: rmap_key_def)
  qed
qed

section \<open>Lookups by key\<close>

lemma record_map:
  assumes "rmap_ok mx n t" "key_ok key"
  shows "rmap_record t key = Some r \<longleftrightarrow> (\<exists>i. rmap_live t i \<and> key = rmap_key_at t i \<and> r = rs_records t ! i)"
  using rmap_record_Some [OF assms] rmap_record_at [OF assms(1)] by metis

lemma map_iff:
  assumes "rmap_ok mx n t"
  shows "rmap_map t ident = Some (key, v) \<longleftrightarrow>
    (\<exists>i. rmap_live t i \<and> rr_id (rs_records t ! i) = ident \<and> key = rmap_key_at t i \<and> v = the (rr_value (rs_records t ! i)))"
  using rmap_mapE [OF assms, of ident key v] rmap_map_live [OF assms] by metis

text \<open>C10: a key resolves to exactly the record of the map that carries it, alone or with the identity
  it is expected to have, and an entry admitted by key and identity, which must find its bucket again
  from the record, reads, overwrites and removes that record.\<close>

theorem resident_lookups_exact:
  assumes "rmap_ok mx n t" "key_ok key"
  shows "(rmap_get t key = Some v \<longleftrightarrow> (\<exists>ident. rmap_map t ident = Some (key, v))) \<and>
    (rmap_id t key = Some ident \<longleftrightarrow> (\<exists>v. rmap_map t ident = Some (key, v))) \<and>
    (rmap_lookup t key ident = Some v \<longleftrightarrow> rmap_map t ident = Some (key, v)) \<and>
    (case rmap_exact t key ident of
       None \<Rightarrow> \<forall>w. rmap_map t ident \<noteq> Some (key, w)
     | Some e \<Rightarrow> \<exists>w. rmap_map t ident = Some (key, w) \<and> entry_exact mx n t ident key w e)"
proof (intro conjI)
  note iff = map_iff [OF assms(1)]
  have rec: "rmap_record t key = Some r \<Longrightarrow> \<exists>i. rmap_live t i \<and> key = rmap_key_at t i \<and> r = rs_records t ! i" for r
    using record_map [OF assms] by blast
  have at: "rmap_live t i \<Longrightarrow> key = rmap_key_at t i \<Longrightarrow> rmap_record t key = Some (rs_records t ! i)" for i
    using record_map [OF assms] by blast
  have ids: "rmap_live t i \<Longrightarrow> rrecord_id (rs_records t ! i) = rr_id (rs_records t ! i)" for i
    by (rule rmap_live_record(4) [OF assms(1)])
  show "rmap_get t key = Some v \<longleftrightarrow> (\<exists>ident. rmap_map t ident = Some (key, v))"
    unfolding rmap_get_def iff by (auto dest: rec at split: option.splits)
  show "rmap_id t key = Some ident \<longleftrightarrow> (\<exists>v. rmap_map t ident = Some (key, v))"
  proof -
    have "rmap_id t key = Some ident \<longleftrightarrow> (\<exists>r. rmap_record t key = Some r \<and> rrecord_id r = ident)"
      by (auto simp: rmap_id_def split: option.splits)
    then show ?thesis unfolding record_map [OF assms] iff using ids by auto
  qed
  show "rmap_lookup t key ident = Some v \<longleftrightarrow> rmap_map t ident = Some (key, v)"
    unfolding rmap_lookup_def iff by (auto dest: rec at split: option.splits)
  show "case rmap_exact t key ident of None \<Rightarrow> \<forall>w. rmap_map t ident \<noteq> Some (key, w)
     | Some e \<Rightarrow> \<exists>w. rmap_map t ident = Some (key, w) \<and> entry_exact mx n t ident key w e"
  proof (cases "rmap_exact t key ident")
    case None
    then show ?thesis unfolding rmap_exact_def iff by (auto dest: at split: if_splits)
  next
    case (Some e)
    obtain i where i: "rmap_handle t e i" "key = rmap_key_at t i" "rr_id (rs_records t ! i) = ident"
      by (rule exact_handle [OF assms Some])
    then show ?thesis
      using Some handle_exact [OF assms(1) i(1)] handle_view(1) [OF assms(1) i(1)] unfolding iff by auto
  qed
qed

section \<open>Keys that ended\<close>

text \<open>What every operation through an entry does.\<close>

inductive rmap_step :: "u32 \<Rightarrow> 'v rmap \<Rightarrow> 'v rmap \<Rightarrow> bool" for mx where
  step_insert: "rmap_entry t ident = Some (Entry_Vacant (Some c)) \<Longrightarrow> ident \<le> ID_MAX \<Longrightarrow> rmap_vacant_insert t c v = (e, t') \<Longrightarrow>
    rmap_step mx t t'"
| step_set: "rmap_entry t ident = Some (Entry_Occupied e) \<Longrightarrow> ident \<le> ID_MAX \<Longrightarrow> rmap_step mx t (rmap_occupied_set t e v)"
| step_remove: "rmap_entry t ident = Some (Entry_Occupied e) \<Longrightarrow> ident \<le> ID_MAX \<Longrightarrow> rmap_occupied_remove mx t e = Some (v, t') \<Longrightarrow>
    rmap_step mx t t'"
| step_exact_set: "rmap_exact t key ident = Some e \<Longrightarrow> key_ok key \<Longrightarrow> rmap_step mx t (rmap_occupied_set t e v)"
| step_exact_remove: "rmap_exact t key ident = Some e \<Longrightarrow> key_ok key \<Longrightarrow> rmap_occupied_remove mx t e = Some (v, t') \<Longrightarrow>
    rmap_step mx t t'"

definition rmap_effect :: "u32 \<Rightarrow> nat \<Rightarrow> 'v rmap \<Rightarrow> 'v rmap \<Rightarrow> bool" where
  "rmap_effect mx n t t' \<longleftrightarrow> (\<exists>i ident v. rmap_added mx n t i ident v t') \<or> (\<exists>i. rmap_live t i \<and> rmap_removed mx n t i t') \<or>
     (\<exists>i v. rmap_live t i \<and> t' = rmap_write i v t)"

lemma handle_effects:
  assumes "rmap_ok mx n t" "rmap_handle t e i"
  shows "rmap_effect mx n t (rmap_occupied_set t e v)" "rmap_occupied_remove mx t e = Some (w, t') \<Longrightarrow> rmap_effect mx n t t'"
  using handle_view(1) [OF assms] handle_set [OF assms, of v] handle_remove [OF assms] by (auto simp: rmap_effect_def)

lemma entry_occupied:
  assumes "rmap_ok mx n t" "ident \<le> ID_MAX" "rmap_entry t ident = Some (Entry_Occupied e)"
  shows "\<exists>i. rmap_handle t e i \<and> rr_id (rs_records t ! i) = ident"
  using entry_cases [OF assms(1,2)] assms(3) by auto

lemma entry_vacant:
  assumes "rmap_ok mx n t" "ident \<le> ID_MAX" "rmap_entry t ident = Some (Entry_Vacant (Some c))" "rmap_vacant_insert t c v = (e, t')"
  shows "\<exists>i. rmap_added mx n t i ident v t' \<and> rmap_handle t' e i \<and> ro_bucket e \<noteq> None"
proof -
  from entry_cases [OF assms(1,2)] assms(3) obtain p where p: "\<forall>j. rmap_live t j \<longrightarrow> rr_id (rs_records t ! j) \<noteq> ident"
      "vacant_at t (rs_hash t ident) p" "c = \<lparr>rv_bucket = vac p, rv_id = ident\<rparr>" "rs_available t \<noteq> 0"
    by (auto split: if_splits)
  then show ?thesis using vacant_insert_added [OF assms(1) p(2,4) assms(2), of v] assms(4) by auto
qed

lemma step_effect:
  assumes "rmap_step mx t t'" "rmap_ok mx n t"
  shows "rmap_effect mx n t t'"
  using assms(1)
proof cases
  case (step_insert ident c v e)
  then show ?thesis using entry_vacant [OF assms(2)] by (fastforce simp: rmap_effect_def)
next
  case (step_set ident e v)
  then show ?thesis using entry_occupied [OF assms(2)] handle_effects(1) [OF assms(2)] by metis
next
  case (step_remove ident e v)
  then show ?thesis using entry_occupied [OF assms(2)] handle_effects(2) [OF assms(2)] by metis
next
  case (step_exact_set key ident e v)
  then show ?thesis using exact_handle [OF assms(2)] handle_effects(1) [OF assms(2)] by metis
next
  case (step_exact_remove key ident e v)
  then show ?thesis using exact_handle [OF assms(2)] handle_effects(2) [OF assms(2)] by metis
qed

lemma effect_ok: "rmap_effect mx n t t' \<Longrightarrow> rmap_ok mx n t \<Longrightarrow> rmap_ok mx n t'"
  by (auto simp: rmap_effect_def rmap_added_def rmap_removed_def write_ok)

text \<open>The record has moved past the key's generation, or is out of use.\<close>

definition rmap_ended :: "'v rmap \<Rightarrow> u64 \<Rightarrow> bool" where
  "rmap_ended t key \<longleftrightarrow> (let i = unat (rmap_key_index key) in i < length (rs_records t) \<and>
     (rmap_key_generation key < rr_generation (rs_records t ! i) \<or> rmap_retired t i))"

lemma write_retired [simp]:
  assumes "rmap_ok mx n t" "rmap_live t i"
  shows "rmap_retired (rmap_write i v t) j = rmap_retired t j"
proof -
  obtain xs where xs: "rmap_free_ok n t xs" using assms(1) by (auto simp: rmap_ok_def)
  have "j \<noteq> i" if "j \<in> set xs" for j using rmap_free_okD(3) [OF xs that] assms(2) by blast
  then have "rmap_chain (rs_records (rmap_write i v t)) (rs_free t) xs"
    by (intro rmap_chain_cong [OF rmap_free_okD(1) [OF xs]]) (simp_all add: rmap_write_nth(3))
  then have "rmap_free_ok n (rmap_write i v t) xs" using rmap_free_okD(2-) [OF xs] by (simp add: rmap_free_ok_def)
  from rmap_retired_iff [OF write_ok [OF assms] this] rmap_retired_iff [OF assms(1) xs] show ?thesis by simp
qed

lemma next_generation_greater: "generation_next mx g = Some g' \<Longrightarrow> g < g'"
proof -
  assume "generation_next mx g = Some g'"
  then have g: "unat g < unat mx" "g' = g + 1" by (auto simp: generation_next_def word_less_nat_alt split: if_splits)
  have "unat (g + 1) = unat g + 1" by (rule unat_add_fits [THEN trans]) (use g(1) unat_bound [of mx] in simp_all)
  then show "g < g'" by (simp add: g(2) word_less_nat_alt)
qed

lemma ended_effect:
  assumes "rmap_effect mx n t t'" "rmap_ok mx n t" "rmap_ended t key"
  shows "rmap_ended t' key"
proof -
  let ?i = "unat (rmap_key_index key)"
  have i: "?i < length (rs_records t)"
    and old: "rmap_key_generation key < rr_generation (rs_records t ! ?i) \<or> rmap_retired t ?i"
    using assms(3) by (auto simp: rmap_ended_def Let_def)
  from assms(1) consider (added) i ident v where "rmap_added mx n t i ident v t'"
    | (removed) i where "rmap_live t i" "rmap_removed mx n t i t'" | (written) i v where "rmap_live t i" "t' = rmap_write i v t"
    by (auto simp: rmap_effect_def)
  then show ?thesis
  proof cases
    case added
    then have "rr_generation (rs_records t' ! ?i) = rr_generation (rs_records t ! ?i)" using i by (auto simp: rmap_added_def)
    then show ?thesis using added i old by (auto simp: rmap_ended_def Let_def rmap_added_def)
  next
    case removed
    have "rr_generation (rs_records t ! ?i) \<le> rr_generation (rs_records t' ! ?i)"
      using removed next_generation_greater [of mx "rr_generation (rs_records t ! i)"]
      by (cases "?i = i") (auto simp: rmap_removed_def split: option.splits)
    then show ?thesis using removed i old by (auto simp: rmap_ended_def Let_def rmap_removed_def)
  next
    case written
    then show ?thesis using i old by (simp add: rmap_ended_def Let_def rmap_write_nth write_retired [OF assms(2)])
  qed
qed

definition rmap_resolves :: "'v rmap \<Rightarrow> u64 \<Rightarrow> 'v option" where
  "rmap_resolves t key = (if key_ok key then rmap_get t key else None)"

lemma ended_dead:
  assumes "rmap_ok mx n t" "rmap_ended t key"
  shows "rmap_resolves t key = None"
proof (rule ccontr)
  assume "rmap_resolves t key \<noteq> None"
  then obtain r where k: "key_ok key" "rmap_record t key = Some r"
    by (auto simp: rmap_resolves_def rmap_get_def split: if_splits option.splits)
  obtain i where i: "rmap_live t i" "key = rmap_key_at t i" "i < 2 ^ 29" by (rule rmap_record_Some [OF assms(1) k])
  note p = key_at_parts [OF i(3), of t]
  have "unat (rmap_key_index key) = i" unfolding i(2) p(1) using key_small [OF i(3)] by simp
  moreover have "rmap_key_generation key = rr_generation (rs_records t ! i)" unfolding i(2) by (rule p(2))
  ultimately show False using assms(2) i(1) by (auto simp: rmap_ended_def Let_def rmap_retired_def)
qed

interpretation rmap_leases: leases "rmap_ok mx n" "rmap_step mx" rmap_ended rmap_resolves for mx n
proof
  show "rmap_ok mx n t'" if "rmap_ok mx n t" "rmap_step mx t t'" for t t' :: "'v rmap"
    using effect_ok step_effect that by blast
  show "rmap_ended t' key" if "rmap_ok mx n t" "rmap_step mx t t'" "rmap_ended t key" for t t' :: "'v rmap" and key
    using ended_effect step_effect that by blast
qed (rule ended_dead)

lemma removed_ended:
  assumes "rmap_ok mx n t" "rmap_live t i" "rmap_removed mx n t i t'"
  shows "rmap_ended t' (rmap_key_at t i)"
proof -
  note small = rmap_live_record(1) [OF assms(1,2)]
  note p = key_at_parts [OF small, of t]
  have "unat (rmap_key_index (rmap_key_at t i)) = i" unfolding p(1) using key_small [OF small] by simp
  moreover have "i < length (rs_records t)" using assms(2) by (simp add: rmap_live_def)
  ultimately show ?thesis
    using assms(3) next_generation_greater [of mx "rr_generation (rs_records t ! i)"]
    by (auto simp: rmap_ended_def Let_def p(2) rmap_removed_def split: option.splits)
qed

text \<open>C8: once a record is removed, its key never resolves again, whatever identities are inserted,
  overwritten and removed afterwards through entries of either kind: the slot comes back under a later
  generation, and after the last one it does not come back.\<close>

theorem resident_keys_stay_dead:
  assumes "rmap_ok mx n t" "ident \<le> ID_MAX" "rmap_entry t ident = Some (Entry_Occupied e)"
    "rmap_occupied_remove mx t e = Some (v, t')" "(rmap_step mx)\<^sup>*\<^sup>* t' t''"
  shows "rmap_ok mx n t'' \<and> rmap_get t (rmap_occupied_key t e) = Some v \<and> rmap_get t'' (rmap_occupied_key t e) = None"
proof -
  obtain i where i: "rmap_handle t e i" using entry_occupied [OF assms(1-3)] by blast
  note view = handle_view [OF assms(1) i]
  have r: "v = the (rr_value (rs_records t ! i))" "rmap_removed mx n t i t'"
    using handle_remove [OF assms(1) i] assms(4) by auto
  then have ok: "rmap_ok mx n t'" by (simp add: rmap_removed_def)
  have "rmap_resolves t'' (rmap_key_at t i) = None"
    by (rule rmap_leases.never_again [OF assms(5) ok removed_ended [OF assms(1) view(1) r(2)]])
  then show ?thesis
    using rmap_leases.good_steps [OF assms(5) ok] rmap_record_at [OF assms(1) view(1)] key_at_parts(4) [OF view(2), of t]
    by (simp add: rmap_resolves_def view(4) rmap_get_def r(1))
qed

section \<open>Plans, keys and drops\<close>

text \<open>C39: counts that sum to at most 2^29 are planned without overflow: the records are their sum and
  the buckets a power of two, at least twice and less than four times the records, or the single bucket
  of an empty plan. A table made of the plan satisfies the invariant with every record available and
  maps nothing; it is refused as an overflow exactly when the records do not fit an allocation, and as
  exhausted only when the allocator refuses the layout of the records or that of the buckets.\<close>

theorem resident_plan_exact:
  fixes row :: ty and hash :: "u64 \<Rightarrow> u64"
  assumes "(\<Sum>c\<leftarrow>counts. unat c) \<le> 2 ^ 29"
  shows "let pl = rmap_plan_counts counts; n = \<Sum>c\<leftarrow>counts. unat c in
    unat (rp_records pl) = n \<and> (\<exists>k\<le>30. unat (rp_buckets pl) = 2 ^ k) \<and> 2 * n \<le> unat (rp_buckets pl) \<and>
    (unat (rp_buckets pl) < 4 * n \<or> n = 0 \<and> unat (rp_buckets pl) = 1) \<and>
    ((rmap_try_new grant row pl hash :: alloc_error + 'v rmap) = Inl Error_Overflow \<longleftrightarrow>
       std_array row (ucast (rp_records pl)) = None) \<and>
    (case (rmap_try_new grant row pl hash :: alloc_error + 'v rmap) of
       Inr t \<Rightarrow> rmap_ok mx n t \<and> rmap_map t = (\<lambda>_. None) \<and> unat (rmap_available t) = n
     | Inl Error_Overflow \<Rightarrow> True
     | Inl Error_Exhausted \<Rightarrow> \<exists>l. ly_size l \<noteq> 0 \<and> \<not> grant l \<and>
         (std_array row (ucast (rp_records pl)) = Some l \<or>
          std_array \<lparr>ty_size = 4, ty_align = 4\<rparr> (ucast (rp_buckets pl)) = Some l))"
proof -
  let ?pl = "rmap_plan_counts counts"
  note pc = plan_counts [OF assms] and new = rmap_new_cases [OF assms, of grant row hash]
  have "unat (ucast (rp_records ?pl) :: usize) = unat (rp_records ?pl)" by (rule unat_ucast_widen) simp
  then have av: "unat (rmap_available t) = (\<Sum>c\<leftarrow>counts. unat c)" if "rs_available t = rp_records ?pl" for t :: "'v rmap"
    using that pc(1) by (simp add: rmap_available_def)
  have "case (rmap_try_new grant row ?pl hash :: alloc_error + 'v rmap) of
       Inr t \<Rightarrow> rmap_ok mx (\<Sum>c\<leftarrow>counts. unat c) t \<and> rmap_map t = (\<lambda>_. None) \<and> unat (rmap_available t) = (\<Sum>c\<leftarrow>counts. unat c)
     | Inl Error_Overflow \<Rightarrow> True | Inl Error_Exhausted \<Rightarrow> \<exists>l. ly_size l \<noteq> 0 \<and> \<not> grant l \<and>
         (std_array row (ucast (rp_records ?pl)) = Some l \<or> std_array \<lparr>ty_size = 4, ty_align = 4\<rparr> (ucast (rp_buckets ?pl)) = Some l)"
  proof (cases "rmap_try_new grant row ?pl hash :: alloc_error + 'v rmap")
    case (Inl e)
    then have "e = Error_Exhausted \<Longrightarrow>
        (\<exists>l. ly_size l \<noteq> 0 \<and> \<not> grant l \<and> std_array row (ucast (rp_records ?pl)) = Some l) \<or>
        \<not> grant \<lparr>ly_size = 4 * ucast (rp_buckets ?pl), ly_align = 4\<rparr>"
      unfolding new by (auto simp: granted_def split: option.splits if_splits)
    moreover have "std_array \<lparr>ty_size = 4, ty_align = 4\<rparr> (ucast (rp_buckets ?pl)) = Some \<lparr>ly_size = 4 * ucast (rp_buckets ?pl), ly_align = 4\<rparr>"
      using bucket_array [OF plan_bucket_bytes(1) [OF assms]] by (simp add: layout_try_layout_def split: option.splits)
    moreover have "ly_size \<lparr>ly_size = 4 * ucast (rp_buckets ?pl), ly_align = 4\<rparr> \<noteq> 0" using plan_bucket_bytes(2) [OF assms] by simp
    ultimately have "e = Error_Exhausted \<Longrightarrow> \<exists>l. ly_size l \<noteq> 0 \<and> \<not> grant l \<and>
        (std_array row (ucast (rp_records ?pl)) = Some l \<or> std_array \<lparr>ty_size = 4, ty_align = 4\<rparr> (ucast (rp_buckets ?pl)) = Some l)"
      by blast
    then show ?thesis using Inl by (cases e) simp_all
  next
    case (Inr t)
    moreover have "rs_available t = rp_records ?pl" using Inr unfolding new by (auto split: option.splits if_splits)
    ultimately show ?thesis using rmap_new_ok [OF assms Inr] av by simp
  qed
  moreover have "(rmap_try_new grant row ?pl hash :: alloc_error + 'v rmap) = Inl Error_Overflow \<longleftrightarrow>
      std_array row (ucast (rp_records ?pl)) = None" unfolding new by (auto split: option.splits)
  ultimately show ?thesis using pc by (simp only: Let_def)
qed

text \<open>C40: a key packs its record's index and generation without loss, and the raw words admitted as
  keys are exactly those that unpack to an index and an admitted generation and pack back.\<close>

theorem resident_key_round_trip:
  assumes "unat r < 2 ^ 32 - 1" "g \<le> mx"
  shows "(let key = rmap_key_new (index_new_raw r) g in
      rmap_key_from_raw mx key = Some key \<and> rmap_key_index key = r \<and> rmap_key_generation key = g \<and>
      rmap_key_slot key = index_new_raw r) \<and>
    (case rmap_key_from_raw mx raw of
       Some key \<Rightarrow> key = raw \<and> rmap_key_generation raw \<le> mx \<and> unat (rmap_key_index raw) < 2 ^ 32 - 1 \<and>
         rmap_key_new (rmap_key_slot raw) (rmap_key_generation raw) = raw
     | None \<Rightarrow> (ucast raw :: u32) = 0 \<or> mx < rmap_key_generation raw)"
proof -
  note new = key_new_parts [OF assms(1), of g]
  have "r + 1 \<noteq> 0"
  proof
    assume "r + 1 = 0"
    then have "r = - 1" by (simp add: eq_neg_iff_add_eq_0)
    then show False using assms(1) by (simp add: unsigned_minus_1_eq_mask mask_eq_exp_minus_1)
  qed
  then have "rmap_key_from_raw mx (rmap_key_new (index_new_raw r) g) = Some (rmap_key_new (index_new_raw r) g)"
    using assms(2) new by (simp add: rmap_key_from_raw_def rmap_key_generation_def)
  moreover have "case rmap_key_from_raw mx raw of
       Some key \<Rightarrow> key = raw \<and> rmap_key_generation raw \<le> mx \<and> unat (rmap_key_index raw) < 2 ^ 32 - 1 \<and>
         rmap_key_new (rmap_key_slot raw) (rmap_key_generation raw) = raw
     | None \<Rightarrow> (ucast raw :: u32) = 0 \<or> mx < rmap_key_generation raw"
    using key_parts_new [of raw] by (auto simp: rmap_key_from_raw_def rmap_key_generation_def not_le)
  ultimately show ?thesis using new(1,2) by (simp add: Let_def rmap_key_slot_def)
qed

text \<open>Dropping the table destroys exactly the values it maps, each once, and none when the type has
  nothing to destroy.\<close>

theorem resident_drop_exact:
  assumes "rmap_ok mx n t"
  shows "mset (rmap_drop True t) = image_mset (\<lambda>ident. snd (the (rmap_map t ident))) (mset_set (dom (rmap_map t))) \<and>
    rmap_drop False t = []"
proof -
  let ?v = "\<lambda>i. the (rr_value (rs_records t ! i))" and ?id = "\<lambda>i. rr_id (rs_records t ! i)" and ?L = "{i. rmap_live t i}"
  have "rs_records t = map (\<lambda>i. rs_records t ! i) [0..<length (rs_records t)]" by (rule map_nth [symmetric])
  then have "filter rrecord_is_live (rs_records t) =
      map (\<lambda>i. rs_records t ! i) (filter (\<lambda>i. rrecord_is_live (rs_records t ! i)) [0..<length (rs_records t)])"
    by (metis (no_types, lifting) comp_apply filter_cong filter_map)
  then have "mset (rmap_drop True t) = image_mset ?v (mset (filter (\<lambda>i. rrecord_is_live (rs_records t ! i)) [0..<length (rs_records t)]))"
    by (simp add: rmap_drop_def comp_def)
  also have "mset (filter (\<lambda>i. rrecord_is_live (rs_records t ! i)) [0..<length (rs_records t)]) = mset_set ?L"
    by (simp only: mset_filter mset_upt filter_mset_mset_set) (auto simp: rmap_live_def intro: arg_cong [where f = mset_set])
  also have "image_mset ?v (mset_set ?L) = image_mset (\<lambda>ident. snd (the (rmap_map t ident))) (image_mset ?id (mset_set ?L))"
    unfolding image_mset.compositionality comp_def
    by (rule image_mset_cong) (simp add: rmap_map_live [OF assms])
  also have "image_mset ?id (mset_set ?L) = mset_set (?id ` ?L)"
    using rmap_okD(5) [OF assms] by (intro image_mset_mset_set) (simp add: rmap_records_ok_def)
  also have "?id ` ?L = dom (rmap_map t)"
    using rmap_map_live [OF assms] by (auto simp: dom_def elim: rmap_mapE [OF assms])
  finally show ?thesis by (simp add: rmap_drop_def)
qed

section \<open>Instances\<close>

definition sample_rmap :: "nat rmap" where
  "sample_rmap = \<lparr>rs_records = [], rs_buckets = replicate 4 END, rs_free = None, rs_available = 2, rs_hash = (\<lambda>h. h)\<rparr>"

lemma sample_rmap_ok: "rmap_ok 3 2 sample_rmap" "rmap_map sample_rmap = (\<lambda>_. None)" "rs_available sample_rmap = 2"
proof -
  have c: "(2 :: nat) < 4" "(2 :: nat) \<le> 2 ^ 29" "4 = (2 :: nat) ^ 2" "(2 :: nat) \<le> 31" "unat (2 :: u32) = 2" by simp_all
  show "rmap_ok 3 2 sample_rmap" unfolding sample_rmap_def by (rule empty_rmap_ok(1) [OF c])
  show "rmap_map sample_rmap = (\<lambda>_. None)" unfolding sample_rmap_def by (rule empty_rmap_ok(2) [OF c])
  show "rs_available sample_rmap = 2" unfolding sample_rmap_def by (simp only: rmap.simps)
qed

lemma seven_ident: "(7 :: u64) \<le> ID_MAX"
  by (simp add: ID_MAX_mask mask_eq_exp_minus_1)

lemma sample_vacant:
  obtains c e t' i where "rmap_entry sample_rmap 7 = Some (Entry_Vacant (Some c))" "rmap_vacant_insert sample_rmap c 5 = (e, t')"
    "rmap_added 3 2 sample_rmap i 7 5 t'" "rmap_handle t' e i" "ro_bucket e \<noteq> None"
proof -
  have "rmap_map sample_rmap 7 = None" by (simp add: sample_rmap_ok)
  then have "\<not> (\<exists>e i. rmap_handle sample_rmap e i \<and> rr_id (rs_records sample_rmap ! i) = 7)"
    using rmap_map_live [OF sample_rmap_ok(1)] handle_view(1) [OF sample_rmap_ok(1)] by (metis option.distinct(1))
  then obtain c where c: "rmap_entry sample_rmap 7 = Some (Entry_Vacant (Some c))"
    using entry_cases [OF sample_rmap_ok(1) seven_ident] by (auto simp: sample_rmap_ok(3))
  obtain e t' where "rmap_vacant_insert sample_rmap c 5 = (e, t')" by force
  then show ?thesis using that c entry_vacant [OF sample_rmap_ok(1) seven_ident c] by blast
qed

lemma filled_rmap:
  obtains t :: "nat rmap" and key where "rmap_ok 3 2 t" "rmap_map t = [7 \<mapsto> (key, 5)]" "key_ok key"
proof -
  obtain c e t' i where a: "rmap_added 3 2 sample_rmap i 7 5 t'" and h: "rmap_handle t' e i" by (rule sample_vacant)
  have ok: "rmap_ok 3 2 t'" using a by (simp add: rmap_added_def)
  have m: "rmap_map t' = [7 \<mapsto> (rmap_key_at t' i, 5)]"
    using added_map [OF sample_rmap_ok(1) a] by (simp add: sample_rmap_ok(2))
  show ?thesis by (rule that [OF ok m key_at_parts(4) [OF handle_view(2) [OF ok h]]])
qed

lemma resident_refines_map_witness:
  "\<exists>c e t'. rmap_entry sample_rmap 7 = Some (Entry_Vacant (Some c)) \<and> rmap_vacant_insert sample_rmap c 5 = (e, t') \<and>
     rmap_ok 3 2 t' \<and> rmap_map t' = [7 \<mapsto> (rmap_occupied_key t' e, 5)] \<and> rs_available t' = 1"
proof -
  obtain c e t' i where c: "rmap_entry sample_rmap 7 = Some (Entry_Vacant (Some c))" "rmap_vacant_insert sample_rmap c 5 = (e, t')"
    by (rule sample_vacant)
  have "case rmap_vacant_insert sample_rmap c 5 of (e, t') \<Rightarrow> rmap_ok 3 2 t' \<and>
      rmap_map t' = [7 \<mapsto> (rmap_occupied_key t' e, 5)] \<and> rs_available t' = 1"
    using resident_refines_map [OF sample_rmap_ok(1) seven_ident] by (simp add: c(1) sample_rmap_ok(2,3))
  then show ?thesis using c by simp
qed

lemma resident_lookups_exact_witness:
  "\<exists>(t :: nat rmap) key. rmap_get t key = Some 5 \<and> rmap_id t key = Some 7 \<and> rmap_lookup t key 7 = Some 5 \<and>
     rmap_lookup t key 8 \<noteq> Some 5 \<and> rmap_exact t key 7 \<noteq> None \<and> rmap_exact t key 8 = None"
proof -
  obtain t :: "nat rmap" and key where t: "rmap_ok 3 2 t" "rmap_map t = [7 \<mapsto> (key, 5)]" "key_ok key" by (rule filled_rmap)
  have "rmap_get t key = Some 5 \<and> rmap_id t key = Some 7 \<and> rmap_lookup t key 7 = Some 5 \<and> rmap_exact t key 7 \<noteq> None"
    using resident_lookups_exact [OF t(1,3), of 5 7] t(2) by (auto split: option.splits)
  moreover have "rmap_lookup t key 8 \<noteq> Some 5 \<and> rmap_exact t key 8 = None"
    using resident_lookups_exact [OF t(1,3), of 5 8] t(2) by (auto split: option.splits)
  ultimately show ?thesis by blast
qed

lemma resident_keys_stay_dead_witness:
  "\<exists>(t :: nat rmap) e t'. rmap_entry t 7 = Some (Entry_Occupied e) \<and> rmap_occupied_remove 3 t e = Some (5, t') \<and>
     rmap_get t (rmap_occupied_key t e) = Some 5 \<and> rmap_get t' (rmap_occupied_key t e) = None"
proof -
  obtain t :: "nat rmap" and key where t: "rmap_ok 3 2 t" "rmap_map t = [7 \<mapsto> (key, 5)]" "key_ok key" by (rule filled_rmap)
  obtain i where "rmap_live t i" "rr_id (rs_records t ! i) = 7" using rmap_mapE [OF t(1), of 7 key 5] t(2) by auto
  then obtain e j where e: "rmap_entry t 7 = Some (Entry_Occupied e)" "rmap_handle t e j" "rr_id (rs_records t ! j) = 7"
    using entry_cases [OF t(1) seven_ident] by blast
  have "rmap_map t 7 = Some (rmap_key_at t j, the (rr_value (rs_records t ! j)))"
    using rmap_map_live [OF t(1) handle_view(1) [OF t(1) e(2)]] e(3) by simp
  then have "the (rr_value (rs_records t ! j)) = 5" using t(2) by simp
  then obtain t' where r: "rmap_occupied_remove 3 t e = Some (5, t')" using handle_remove [OF t(1) e(2)] by auto
  from resident_keys_stay_dead [OF t(1) seven_ident e(1) r rtranclp.rtrancl_refl] show ?thesis using e(1) r by blast
qed

lemma resident_plan_exact_witness:
  "unat (rp_records (rmap_plan_counts [3, 2])) = 5 \<and> 10 \<le> unat (rp_buckets (rmap_plan_counts [3, 2])) \<and>
   unat (rp_buckets (rmap_plan_counts [3, 2])) < 20"
  using resident_plan_exact [of "[3, 2]"] by (auto simp: Let_def)

lemma resident_key_round_trip_witness:
  "rmap_key_from_raw 3 (rmap_key_new (index_new_raw 5) 2) = Some (rmap_key_new (index_new_raw 5) 2) \<and>
   rmap_key_index (rmap_key_new (index_new_raw 5) 2) = 5 \<and> rmap_key_generation (rmap_key_new (index_new_raw 5) 2) = 2"
  using resident_key_round_trip [of 5 2 3 0] by (simp add: Let_def)

end
