(* ===== verification/O3_Resident_Scope.thy ===== *)
theory O3_Resident_Scope
  imports O3_Resident_Spec
begin

text \<open>
  Scopes of the resident map: while leases are out, the only removals are of records that no lease
  names, so a lease reaches its record without a check, and every fresh token can be retired once.
\<close>

section \<open>Other records\<close>

lemma removed_other:
  assumes "rmap_removed mx n t i t'" "rmap_live t j" "j \<noteq> i"
  shows "rmap_live t' j" "rmap_key_at t' j = rmap_key_at t j" "rs_records t' ! j = rs_records t ! j"
  using assms by (auto simp: rmap_removed_def rmap_key_at_def)

lemma added_other:
  assumes "rmap_added mx n t i ident v t'" "rmap_live t j"
  shows "rmap_live t' j" "rmap_key_at t' j = rmap_key_at t j" "j \<noteq> i" "rs_records t' ! j = rs_records t ! j"
proof -
  have "j < length (rs_records t)" using assms(2) by (simp add: rmap_live_def)
  moreover show "j \<noteq> i" using assms by (auto simp: rmap_added_def)
  ultimately show "rs_records t' ! j = rs_records t ! j" using assms(1) by (simp add: rmap_added_def)
  then show "rmap_live t' j" "rmap_key_at t' j = rmap_key_at t j" using assms by (simp_all add: rmap_added_def rmap_key_at_def)
qed

section \<open>Leases\<close>

text \<open>A lease names a live record.\<close>

definition leased :: "'v rmap \<Rightarrow> u64 \<Rightarrow> nat \<Rightarrow> bool" where
  "leased t key i \<longleftrightarrow> rmap_live t i \<and> key = rmap_key_at t i"

text \<open>
  The state of a scope is its table, the leases it has published and the fresh tokens among them.
\<close>

type_synonym 'v scope = "'v rmap \<times> u64 set \<times> u64 set"

inductive scope_step :: "u32 \<Rightarrow> 'v scope \<Rightarrow> 'v scope \<Rightarrow> bool" for mx where
  scope_old: "scope_entry t ident = Some (Entry_Occupied e) \<Longrightarrow> ident \<le> ID_MAX \<Longrightarrow> scope_publish t e = (key, fresh) \<Longrightarrow>
    scope_step mx (t, L, F) (t, insert key L, set_option fresh \<union> F)"
| scope_old_set: "scope_entry t ident = Some (Entry_Occupied e) \<Longrightarrow> ident \<le> ID_MAX \<Longrightarrow>
    scope_step mx (t, L, F) (rmap_occupied_set t e v, L, F)"
| scope_old_release: "scope_entry t ident = Some (Entry_Occupied e) \<Longrightarrow> ident \<le> ID_MAX \<Longrightarrow>
    scope_release mx t e = Some (v, t') \<Longrightarrow> scope_step mx (t, L, F) (t', L, F)"
| scope_exact: "scope_exact t key ident = Some e \<Longrightarrow> key_ok key \<Longrightarrow> scope_publish t e = (lease, fresh) \<Longrightarrow>
    scope_step mx (t, L, F) (t, insert lease L, set_option fresh \<union> F)"
| scope_new: "scope_entry t ident = Some (Entry_Vacant (Some c)) \<Longrightarrow> ident \<le> ID_MAX \<Longrightarrow> rmap_vacant_insert t c v = (e, t') \<Longrightarrow>
    scope_publish t' e = (key, fresh) \<Longrightarrow> scope_step mx (t, L, F) (t', insert key L, set_option fresh \<union> F)"
| scope_new_release: "scope_entry t ident = Some (Entry_Vacant (Some c)) \<Longrightarrow> ident \<le> ID_MAX \<Longrightarrow> rmap_vacant_insert t c v = (e, t') \<Longrightarrow>
    scope_release mx t' e = Some (w, t'') \<Longrightarrow> scope_step mx (t, L, F) (t'', L, F)"
| scope_lease_set: "key \<in> L \<Longrightarrow> scope_step mx (t, L, F) (scope_set t key v, L, F)"

definition scope_ok :: "u32 \<Rightarrow> nat \<Rightarrow> 'v scope \<Rightarrow> bool" where
  "scope_ok mx n s = (case s of (t, L, F) \<Rightarrow> rmap_ok mx n t \<and> F \<subseteq> L \<and> (\<forall>key\<in>L. \<exists>i. leased t key i))"

lemma scope_entry_cases:
  assumes "rmap_ok mx n t" "ident \<le> ID_MAX" "scope_entry t ident = Some entry"
  shows "(\<exists>e i. entry = Entry_Occupied e \<and> rmap_handle t e i \<and> ro_bucket e = None)
    \<or> (\<exists>c. entry = Entry_Vacant c \<and> rmap_entry t ident = Some (Entry_Vacant c))"
proof (cases "rmap_entry t ident")
  case (Some en)
  show ?thesis
  proof (cases en)
    case (Entry_Occupied e)
    then obtain i where "rmap_handle t e i" using entry_occupied [OF assms(1,2)] Some by blast
    then have "rmap_handle t (e\<lparr>ro_bucket := None\<rparr>) i" by (simp add: rmap_handle_def)
    then show ?thesis using assms(3) Some Entry_Occupied by (auto simp: scope_entry_def)
  qed (use assms(3) Some in \<open>auto simp: scope_entry_def\<close>)
qed (use assms(3) in \<open>simp add: scope_entry_def\<close>)

lemma leases_moved:
  assumes "scope_ok mx n (t, L, F)" "rmap_ok mx n t'" "\<And>i. rmap_live t i \<Longrightarrow> rmap_live t' i \<and> rmap_key_at t' i = rmap_key_at t i"
  shows "scope_ok mx n (t', L, F)"
  using assms by (fastforce simp: scope_ok_def leased_def)

lemma leases_more:
  assumes "scope_ok mx n (t, L, F)" "leased t key i" "fresh = None \<or> fresh = Some key"
  shows "scope_ok mx n (t, insert key L, set_option fresh \<union> F)"
  using assms by (auto simp: scope_ok_def)

lemma handle_leased:
  assumes "rmap_ok mx n t" "rmap_handle t e i" "scope_publish t e = (key, fresh)"
  shows "leased t key i" "fresh = (if ro_bucket e = None then None else Some key)"
  using assms handle_view(1,4) [OF assms(1,2)] by (auto simp: scope_publish_def Let_def leased_def)

lemma write_moved:
  assumes "scope_ok mx n (t, L, F)" "rmap_live t i"
  shows "scope_ok mx n (rmap_write i v t, L, F)"
proof -
  have "rmap_ok mx n t" using assms(1) by (simp add: scope_ok_def)
  then show ?thesis by (intro leases_moved [OF assms(1)] write_ok assms(2)) simp_all
qed

lemma lease_set:
  assumes "rmap_ok mx n t" "leased t key i"
  shows "scope_set t key v = rmap_write i v t"
  using assms key_at_parts(5) [OF rmap_live_record(1) [OF assms(1)], of i t]
  by (simp add: scope_set_def rmap_write_def leased_def)

lemma scope_step_ok:
  assumes "scope_step mx s s'" "scope_ok mx n s"
  shows "scope_ok mx n s'"
  using assms
proof (induction rule: scope_step.induct)
  case (scope_old t ident e key fresh L F)
  then have ok: "rmap_ok mx n t" by (simp add: scope_ok_def)
  then obtain i where i: "rmap_handle t e i" using scope_entry_cases [OF ok scope_old(2,1)] by auto
  then show ?case using leases_more [OF scope_old(4) handle_leased(1) [OF ok i scope_old(3)]] handle_leased(2) [OF ok i scope_old(3)] by auto
next
  case (scope_old_set t ident e L F v)
  then have ok: "rmap_ok mx n t" by (simp add: scope_ok_def)
  then obtain i where i: "rmap_handle t e i" using scope_entry_cases [OF ok scope_old_set(2,1)] by auto
  then show ?case using write_moved [OF scope_old_set(3) handle_view(1) [OF ok i]] handle_set [OF ok i] by simp
next
  case (scope_old_release t ident e v t' L F)
  then have ok: "rmap_ok mx n t" by (simp add: scope_ok_def)
  have "ro_bucket e = None" using scope_entry_cases [OF ok scope_old_release(2,1)] by auto
  then show ?case using scope_old_release(3,4) by (simp add: scope_release_def)
next
  case (scope_exact t key ident e lease fresh L F)
  then have ok: "rmap_ok mx n t" by (simp add: scope_ok_def)
  have "rmap_exact t key ident = Some e" using scope_exact(1) by (simp add: scope_exact_def)
  then obtain i where i: "rmap_handle t e i" by (rule exact_handle [OF ok scope_exact(2)])
  then show ?case using leases_more [OF scope_exact(4) handle_leased(1) [OF ok i scope_exact(3)]] handle_leased(2) [OF ok i scope_exact(3)] by auto
next
  case (scope_new t ident c v e t' key fresh L F)
  then have ok: "rmap_ok mx n t" by (simp add: scope_ok_def)
  have "rmap_entry t ident = Some (Entry_Vacant (Some c))" using scope_entry_cases [OF ok scope_new(2,1)] by auto
  from entry_vacant [OF ok scope_new(2) this scope_new(3)]
  obtain i where i: "rmap_added mx n t i ident v t'" "rmap_handle t' e i" by blast
  then have ok': "rmap_ok mx n t'" by (simp add: rmap_added_def)
  have "scope_ok mx n (t', L, F)" by (rule leases_moved [OF scope_new(5) ok']) (use added_other [OF i(1)] in blast)
  from leases_more [OF this handle_leased(1) [OF ok' i(2) scope_new(4)]] handle_leased(2) [OF ok' i(2) scope_new(4)]
  show ?case by auto
next
  case (scope_new_release t ident c v e t' w t'' L F)
  then have ok: "rmap_ok mx n t" by (simp add: scope_ok_def)
  have "rmap_entry t ident = Some (Entry_Vacant (Some c))" using scope_entry_cases [OF ok scope_new_release(2,1)] by auto
  from entry_vacant [OF ok scope_new_release(2) this scope_new_release(3)]
  obtain i where i: "rmap_added mx n t i ident v t'" "rmap_handle t' e i" "ro_bucket e \<noteq> None" by blast
  then have ok': "rmap_ok mx n t'" by (simp add: rmap_added_def)
  have r: "rmap_removed mx n t' i t''"
    using handle_remove [OF ok' i(2)] scope_new_release(4) i(3) by (auto simp: scope_release_def split: option.splits)
  have "rmap_live t'' j \<and> rmap_key_at t'' j = rmap_key_at t j" if "rmap_live t j" for j
    using added_other [OF i(1) that] removed_other [OF r, of j] by simp
  moreover have "rmap_ok mx n t''" using r by (simp add: rmap_removed_def)
  ultimately show ?case using leases_moved [OF scope_new_release(5)] by blast
next
  case (scope_lease_set key L t F v)
  then have ok: "rmap_ok mx n t" by (simp add: scope_ok_def)
  obtain i where i: "leased t key i" using scope_lease_set by (auto simp: scope_ok_def)
  then show ?case using write_moved [OF scope_lease_set(2), of i] lease_set [OF ok i] by (simp add: leased_def)
qed

lemma scope_steps_ok: "(scope_step mx)\<^sup>*\<^sup>* s s' \<Longrightarrow> scope_ok mx n s \<Longrightarrow> scope_ok mx n s'"
  by (induction rule: rtranclp_induct) (auto intro: scope_step_ok)

section \<open>Retirement\<close>

fun retire_all :: "u32 \<Rightarrow> 'v rmap \<Rightarrow> u64 list \<Rightarrow> ('v list \<times> 'v rmap) option" where
  "retire_all mx t [] = Some ([], t)"
| "retire_all mx t (key # keys) = (case rmap_occupied_remove mx t (retirement_occupied key) of
       None \<Rightarrow> None
     | Some (v, t) \<Rightarrow> (case retire_all mx t keys of None \<Rightarrow> None | Some (vs, t) \<Rightarrow> Some (v # vs, t)))"

lemma retire_handle:
  assumes "rmap_ok mx n t" "leased t key i"
  shows "rmap_handle t (retirement_occupied key) i"
  using assms key_at_parts(3) [OF rmap_live_record(1) [OF assms(1)], of i t]
  by (auto simp: rmap_handle_def retirement_occupied_def leased_def)

lemma leased_get: "rmap_ok mx n t \<Longrightarrow> leased t key i \<Longrightarrow> rmap_get t key = Some (the (rr_value (rs_records t ! i)))"
  using rmap_record_at [of mx n t i] by (simp add: rmap_get_def leased_def)

lemma leased_unique: "rmap_ok mx n t \<Longrightarrow> leased t key i \<Longrightarrow> leased t key j \<Longrightarrow> i = j"
  using rmap_key_at_inj by (auto simp: leased_def)

lemma retire_all_ok:
  assumes "rmap_ok mx n t" "distinct keys" "\<forall>key\<in>set keys \<union> K. \<exists>i. leased t key i" "set keys \<inter> K = {}"
  shows "\<exists>t'. retire_all mx t keys = Some (map (\<lambda>key. the (rmap_get t key)) keys, t') \<and> rmap_ok mx n t' \<and>
    (\<forall>key\<in>K. rmap_get t' key = rmap_get t key)"
  using assms
proof (induction keys arbitrary: t)
  case (Cons key keys)
  obtain i where i: "leased t key i" using Cons.prems(3) by auto
  obtain t1 where t1: "rmap_occupied_remove mx t (retirement_occupied key) = Some (the (rr_value (rs_records t ! i)), t1)"
      "rmap_removed mx n t i t1"
    using handle_remove [OF Cons.prems(1) retire_handle [OF Cons.prems(1) i]] by blast
  have ok: "rmap_ok mx n t1" using t1(2) by (simp add: rmap_removed_def)
  have keep: "(\<exists>j. leased t1 k j) \<and> rmap_get t1 k = rmap_get t k" if k: "k \<in> set keys \<union> K" for k
  proof -
    obtain j where j: "leased t k j" using Cons.prems(3) k by auto
    have "k \<noteq> key" using k Cons.prems(2,4) by auto
    then have "j \<noteq> i" using i j by (auto simp: leased_def)
    then have "leased t1 k j" "rs_records t1 ! j = rs_records t ! j" using removed_other [OF t1(2), of j] j by (auto simp: leased_def)
    then show ?thesis using leased_get [OF ok, of k j] leased_get [OF Cons.prems(1) j] by auto
  qed
  obtain t2 where t2: "retire_all mx t1 keys = Some (map (\<lambda>key. the (rmap_get t1 key)) keys, t2)" "rmap_ok mx n t2"
      "\<forall>key\<in>K. rmap_get t2 key = rmap_get t1 key"
    using Cons.IH [OF ok] Cons.prems(2,4) keep by auto
  have "map (\<lambda>key. the (rmap_get t1 key)) keys = map (\<lambda>key. the (rmap_get t key)) keys" using keep by auto
  then show ?case using t1(1) t2 keep leased_get [OF Cons.prems(1) i] by auto
qed simp

text \<open>C9: inside a scope, whatever is searched, inserted, written, published and released, every
  published lease still resolves, so the unchecked access through it reaches its own record; and once
  the scope is consumed, the fresh tokens can be retired in any order, each returning the value its
  record holds and leaving every other lease's record as it was.\<close>

theorem scope_keeps_leases:
  assumes "rmap_ok mx n t" "(scope_step mx)\<^sup>*\<^sup>* (t, {}, {}) (t', L, F)" "distinct keys" "set keys \<subseteq> F"
  shows "rmap_ok mx n t' \<and> F \<subseteq> L \<and>
    (\<forall>key\<in>L. \<exists>v. rmap_get t' key = Some v \<and> (\<forall>w. rmap_get (scope_set t' key w) key = Some w)) \<and>
    (\<exists>t''. retire_all mx t' keys = Some (map (\<lambda>key. the (rmap_get t' key)) keys, t'') \<and> rmap_ok mx n t'' \<and>
      (\<forall>key\<in>L - set keys. rmap_get t'' key = rmap_get t' key))"
proof -
  have "scope_ok mx n (t, {}, {})" using assms(1) by (simp add: scope_ok_def)
  from scope_steps_ok [OF assms(2) this] have ok: "rmap_ok mx n t'" and F: "F \<subseteq> L" and L: "\<forall>key\<in>L. \<exists>i. leased t' key i"
    by (simp_all add: scope_ok_def)
  have "\<exists>v. rmap_get t' key = Some v \<and> (\<forall>w. rmap_get (scope_set t' key w) key = Some w)" if "key \<in> L" for key
  proof -
    obtain i where i: "leased t' key i" using L \<open>key \<in> L\<close> by blast
    then have live: "rmap_live t' i" and after: "leased (rmap_write i w t') key i" for w by (simp_all add: leased_def)
    have "i < length (rs_records t')" using live by (simp add: rmap_live_def)
    then have "rmap_get (scope_set t' key w) key = Some w" for w
      using leased_get [OF write_ok [OF ok live] after] lease_set [OF ok i] by (simp add: rmap_write_nth(4))
    then show ?thesis using leased_get [OF ok i] by simp
  qed
  moreover have "\<forall>key\<in>set keys \<union> (L - set keys). \<exists>i. leased t' key i" using L F assms(4) by auto
  from retire_all_ok [OF ok assms(3) this]
  have "\<exists>t''. retire_all mx t' keys = Some (map (\<lambda>key. the (rmap_get t' key)) keys, t'') \<and> rmap_ok mx n t'' \<and>
      (\<forall>key\<in>L - set keys. rmap_get t'' key = rmap_get t' key)" by blast
  ultimately show ?thesis using ok F by blast
qed

lemma scope_keeps_leases_witness:
  "\<exists>(t :: nat rmap) key t'. (scope_step 3)\<^sup>*\<^sup>* (sample_rmap, {}, {}) (t, {key}, {key}) \<and> rmap_get t key = Some 5 \<and>
     retire_all 3 t [key] = Some ([5], t')"
proof -
  obtain c e t i where c: "rmap_entry sample_rmap 7 = Some (Entry_Vacant (Some c))" "rmap_vacant_insert sample_rmap c 5 = (e, t)"
    "rmap_added 3 2 sample_rmap i 7 5 t" "rmap_handle t e i" "ro_bucket e \<noteq> None" by (rule sample_vacant)
  let ?key = "rmap_occupied_key t e"
  have "scope_entry sample_rmap 7 = Some (Entry_Vacant (Some c))" using c(1) by (simp add: scope_entry_def)
  moreover have "scope_publish t e = (?key, Some ?key)" using c(5) by (auto simp: scope_publish_def Let_def)
  ultimately have "scope_step 3 (sample_rmap, {}, {}) (t, {?key}, set_option (Some ?key) \<union> {})"
    by (intro scope_step.scope_new [OF _ seven_ident c(2)])
  then have steps: "(scope_step 3)\<^sup>*\<^sup>* (sample_rmap, {}, {}) (t, {?key}, {?key})" by (intro r_into_rtranclp) simp
  have ok: "rmap_ok 3 2 t" using c(3) by (simp add: rmap_added_def)
  have "leased t ?key i" using handle_view(1,4) [OF ok c(4)] by (simp add: leased_def)
  then have "rmap_get t ?key = Some 5" using leased_get [OF ok] c(3) by (simp add: rmap_added_def)
  then show ?thesis using scope_keeps_leases [OF sample_rmap_ok(1) steps, of "[?key]"] steps by auto
qed

end
