(* ===== verification/Spec2Isabelle.thy ===== *)
theory Spec2Isabelle
  imports O3_Num O3_Time O3_Account O3_Fair O3_Refcount O3_Fifo O3_Ring O3_Queue O3_Layout_Proofs O3_Map_Flat O3_Priority_Map O3_Set_Proofs O3_Slab_Map O3_Segments_Spec O3_Compact_Spec O3_Resident_Scope
begin

text \<open>
  A verification development for the o3 crate (src/): bounded numbers and civil time, memory
  accounting and reference counts, and the depot, the crate's collection of exact-capacity
  containers that are laid out in a single allocation and threaded together by compact indices.

  Parts and theories. Every file named here is under src/src/.

    Numbers      O3_Num models base/num (bounded integers, Epoch, Generation); O3_Time models
                 base/time.rs (weighted averages of durations, Unix ticks).
    Memory       O3_Account models the scalar account cell, credit and its leases, and the quota
                 ledger (mem/raw/state/account.rs, mem/credit/mod.rs, mem/quota.rs); O3_Fair the
                 N-axis fair credit (mem/raw/balance.rs, charge.rs, grant.rs, lane.rs, pool.rs,
                 mem/credit/fair); O3_Refcount the thread-local reference counts (mem/rc.rs).
    Topologies   O3_Links models compact indices, hooks, chains, cycles, lists and free lists
                 (depot/queue/links, depot/raw/hooks) over one memory of cells; O3_Links_Proofs
                 relates each to the list it links.
    Queues       O3_Fifo states the contract of a queue and interprets it on chains; O3_Ring models
                 ring positions, the exclusive ring and the ring pool (depot/queue/ring).
    Heaps        O3_Heap models the hole engine (depot/heap/hole, depot/heap/raw); O3_Heap_Proofs,
                 O3_Heap_Ops and O3_Heap_Engine prove it for any total preorder; O3_Heap_Entry and
                 O3_Heap_Store do entries and stores, O3_Heap_Min the keyed, direct and resident
                 heaps, O3_Heap_Client what they promise; O3_Queue is the FIFO with a minimum order
                 (depot/heap/queue.rs), which composes a direct heap, a chain and a free list.
    Layouts      O3_Layout models the layouts of bundled planes, rows and heap capacities
                 (alloc/raw, depot/heap/capacity.rs); O3_Layout_Proofs compares them with exact
                 arithmetic.
    Tables       O3_Map models the probing engine (depot/map/raw, depot/map/plan.rs);
                 O3_Map_Probe, O3_Map_Scan and O3_Map_Table prove it for any directory of buckets;
                 O3_Map_Flat is the flat table (depot/map/flat) and its plan.
    Priority     O3_Ranked adapts the heap engine to entries that are node indices; O3_Priority
                 models the priority map (depot/map/priority), which composes the probing engine,
                 a node store and the heap engine; O3_Priority_Proofs and O3_Priority_Map prove it.
    Index sets   O3_Bitmap models the hierarchical bitmap (depot/index/bitmap), O3_Bitmap_Proofs
                 compares it with a set of indices; O3_Set models the planar and the disjoint sets
                 over it (depot/index/set, domain.rs, ordinal.rs, depot/capacity), O3_Set_Proofs
                 compares them with families of sets and with an ownership partition.
    Slab         O3_Slab models the generational slab (depot/arena/slab, depot/raw/arena/slabs):
                 slots, free chains, keys and leases; O3_Slab_Proofs keeps its invariant and
                 O3_Slab_Map shows it as a map from handles under the contract of locale leases.
    Segments     O3_Segments models the segmented byte queue (buffer/segments/queue, item, tail.rs),
                 scattered traversal and readers (buffer/segments/scatter, buffer/raw/scatter) and
                 consumption errors (buffer/write/consume/error.rs); O3_Segments_Proofs relates it to
                 a list of owners and O3_Segments_Spec states what it promises.
    Compact      O3_Compact models the compact directory (depot/map/compact: layouts, control bytes
                 and their mirror, payload planes of three widths, the portable group masks) and the
                 plans of header-and-tail allocations (alloc/tail). O3_Compact_Bytes proves the
                 little-endian words and masks, O3_Compact_Robin the Robin Hood order on a cycle of
                 buckets; O3_Compact_Proofs shows that the bytes hold such a cycle and that every loop
                 returns, O3_Compact_Map the searches by groups, O3_Compact_Spec what is promised.
    Resident     O3_Resident models the resident map (depot/map/resident): a growing prefix of records,
                 a directory of their indices over the probing engine, keys of index and generation,
                 and scopes. O3_Resident_Proofs keeps its invariant, O3_Resident_Map shows it as a
                 finite map, O3_Resident_Plan does plans and O3_Resident_Spec what is promised;
                 O3_Resident_Scope does the scopes.

  How code is modelled. A struct is a record or a datatype with the struct's fields, an enum a
  datatype, a machine integer a word of its width (usize is 64 bits, which the crate asserts). A
  type parameter of a container is a type variable; a const generic is a leading argument. A
  method that takes a mutable or interior-mutable owner returns the owner updated, beside its
  result; the loan that an entry or an edit holds is the owner passed along with it. Errors are values
  of a sum or an option. A destructor is an operation, and where the order in which owners are created
  and dropped matters, they are part of the state of an inductive step relation (quota_step,
  fair_step, domain_step, pool_step). Hooks and endpoints that several structures share are
  locations of an explicit memory. A trait whose laws a proof needs is a locale over its
  methods, a trait that is only called a record of functions.

  Unsafe code. A method marked unsafe is modelled by what it does when its contract holds; an
  unchecked access is a list access. The invariants that are proved imply these contracts wherever the
  safe operations call such a method: positions below lengths, indices below capacities, sums below 2^64.

  Interfaces. The locale fifo_queue (a queue and the list it represents) is interpreted by chains and
  rings; heap_order (a comparison that is a total preorder) by the direct and the keyed
  store and by the ranking of node indices, and extended by heap_store. The locale hashed is a cycle
  of buckets with homes; directory extends it by a filter that shows a matcher only equal hashes,
  plain by one that shows it every entry, and shiftable by what a shift does. The raw
  table interprets directory and reaches shiftable by the sublocale of mutator, which the flat table
  and the core of the priority map interpret; the resident map interprets plain and shiftable. The
  locale leases (a slot that is given out, occupied and returned) is interpreted by the slab and by
  the resident map, scatter (a source with an exact advance) by slices and by the fragments of a
  queue.

  Loops. A loop with a bound on its iterations is a fun, function or primrec; the loops that the code
  leaves unbounded are partial functions into option, and their theorems say that they return. They
  are the scans, probes and hole closings of the tables (scan_next_spare, try_match, member_from,
  close_from, vacant_from, spare_from, and the insertion, removal and searches of the compact
  directory), where a vacant bucket always remains: half of the flat table, one bucket of the compact
  directory and of the resident map's; and the walks over the fragments of a segmented queue and
  over a bounded take, where the bytes left decrease. No fuel is used.

  What the lemmas show. For the memory components, conservation in every reachable state and exact
  admission. For the containers, an invariant, its preservation by every operation, and refinement:
  any program of operations behaves as on a list (chains, rings, queues), a finite map (keyed heaps,
  flat tables, resident maps), a set (compact directories) or a finite map with a least entry (priority maps). For layouts and plans, that the
  saturating and wrapping arithmetic of the code decides exactly what natural numbers would.
  Where several structures are composed, that they never disagree about which slots are live.

  Not modelled. The allocator and the traversal of raw memory (pointers, casts, projections,
  initialization of storage) and the group masks of vendor instruction sets; the storage, pools and
  windows of buffers, of which the segmented queue, scattered sources and consumption are modelled;
  the compositions of the depot that repeat these structures over shared arenas; the compile-time
  assertions, which appear as hypotheses. The manifest lists the remaining parts with the reason.
\<close>

end
